(* ===== verification/Prelude.thy ===== *)
theory Prelude
  imports Main "HOL-Library.Word" "HOL-Library.Monad_Syntax"
begin

text \<open>
  Shared vocabulary of the development.  A kernel function that may stop the machine (a failed
  \<open>ASSERT\<close>, a \<open>PANIC\<close>, a null or wild dereference) is a function into \<open>'a option\<close>:
  \<open>None\<close> is "the kernel does not return from here", \<open>Some\<close> carries the returned value
  together with the updated state.  Error codes the code returns to its caller (null pointers,
  \<open>false\<close>, \<open>-1\<close>) are ordinary values.  Sequencing is \<open>Option.bind\<close>, written in do-notation.
\<close>

unbundle bit_operations_syntax

named_theorems kernel_simps "rewrite rules for the panic monad and the C idioms"
named_theorems heap_frame "what an operation leaves unchanged"

subsection \<open>Panics\<close>

definition ASSERT :: "bool \<Rightarrow> unit option" where
  "ASSERT b = (if b then Some () else None)"

lemma ASSERT_True [simp]: "ASSERT True = Some ()"
  by (simp add: ASSERT_def)

lemma ASSERT_False [simp]: "ASSERT False = None"
  by (simp add: ASSERT_def)

lemma ASSERT_eq_Some [simp]: "ASSERT b = Some u \<longleftrightarrow> b"
  by (simp add: ASSERT_def)

lemma ASSERT_eq_None [simp]: "ASSERT b = None \<longleftrightarrow> \<not> b"
  by (simp add: ASSERT_def)

lemma bind_ASSERT_eq_Some [simp]:
  "Option.bind (ASSERT b) f = Some y \<longleftrightarrow> b \<and> f () = Some y"
  by (cases b) simp_all

lemmas bind_Some = Option.bind_eq_Some_conv
declare bind_Some [kernel_simps]

subsection \<open>What holds if a function returns\<close>

text \<open>\<open>post Q m\<close>: if \<open>m\<close> returns, its result satisfies \<open>Q\<close>.  The rewrite rules take a program apart along
  its structure; the collection \<open>wp\<close> holds what is known of the functions it calls.\<close>

definition post :: "('a \<Rightarrow> bool) \<Rightarrow> 'a option \<Rightarrow> bool" where
  "post Q m \<longleftrightarrow> (\<forall>x. m = Some x \<longrightarrow> Q x)"

named_theorems wp "introduction rules for post"

lemma postI: "(\<And>x. m = Some x \<Longrightarrow> Q x) \<Longrightarrow> post Q m"
  by (simp add: post_def)

lemma postD: "post Q m \<Longrightarrow> m = Some x \<Longrightarrow> Q x"
  by (simp add: post_def)

lemma post_Some [simp]: "post Q (Some x) = Q x"
  by (simp add: post_def)

lemma post_None [simp]: "post Q None"
  by (simp add: post_def)

lemma post_bind [simp]: "post Q (Option.bind m f) = post (\<lambda>x. post Q (f x)) m"
  by (cases m) simp_all

lemma post_ASSERT [simp]: "post Q (ASSERT b) = (b \<longrightarrow> Q ())"
  by (simp add: ASSERT_def)

lemma post_if [simp]: "post Q (if b then m else m') = ((b \<longrightarrow> post Q m) \<and> (\<not> b \<longrightarrow> post Q m'))"
  by simp

lemma post_mono: "post R m \<Longrightarrow> (\<And>x. R x \<Longrightarrow> Q x) \<Longrightarrow> post Q m"
  by (auto simp: post_def)

subsection \<open>Ranges of indices\<close>

text \<open>Peeling the first index off a range, for the loops that count upwards.\<close>

lemma ex_ge_split: "(\<exists>j\<ge>i. P j) \<longleftrightarrow> P i \<or> (\<exists>j\<ge>Suc i. P j)" for i :: nat
  by (metis Suc_leD Suc_leI le_refl nat_less_le)

lemma all_ge_split: "(\<forall>j\<ge>i. P j) \<longleftrightarrow> P i \<and> (\<forall>j\<ge>Suc i. P j)" for i :: nat
  by (metis Suc_leD Suc_leI le_refl nat_less_le)

subsection \<open>Pointers\<close>

text \<open>An address is a natural number and the null pointer is address 0, as on the machine.\<close>

type_synonym ptr = nat

abbreviation (input) NULL :: ptr where
  "NULL \<equiv> 0"

end
