(* ===== verification/Kernel_List.thy ===== *)
theory Kernel_List
  imports Prelude
begin

text \<open>
  The intrusive doubly linked lists of \<open>lib/kernel/list.c\<close>.  The heap maps the address of every
  allocated \<open>struct list_elem\<close> to its two links; a dereference of an unmapped address stops the
  kernel.  A \<open>struct list\<close> at address \<open>l\<close> consists of the head element at \<open>l\<close> and the tail
  element at \<open>l + 16\<close>, the size of a \<open>struct list_elem\<close> on x86-64.  The definitions follow the
  C functions statement by statement; loops over the links are \<open>partial_function (option)\<close>, so a
  loop that never ends is the value \<open>None\<close>.
\<close>

section \<open>Elements, lists and the heap\<close>

record list_elem =
  le_prev :: ptr
  le_next :: ptr

type_synonym heap = "ptr \<rightharpoonup> list_elem"

definition list_head :: "ptr \<Rightarrow> ptr option" where
  "list_head l = do { ASSERT (l \<noteq> NULL); Some l }"

definition sizeof_list_elem :: nat where
  "sizeof_list_elem = 16"

abbreviation (input) head_of :: "ptr \<Rightarrow> ptr" where
  "head_of l \<equiv> l"

definition tail_of :: "ptr \<Rightarrow> ptr" where
  "tail_of l = l + sizeof_list_elem"

definition list_tail :: "ptr \<Rightarrow> ptr option" where
  "list_tail l = do { ASSERT (l \<noteq> NULL); Some (tail_of l) }"

definition get_prev :: "heap \<Rightarrow> ptr \<Rightarrow> ptr option" where
  "get_prev h e = map_option le_prev (h e)"

definition get_next :: "heap \<Rightarrow> ptr \<Rightarrow> ptr option" where
  "get_next h e = map_option le_next (h e)"

definition set_prev :: "heap \<Rightarrow> ptr \<Rightarrow> ptr \<Rightarrow> heap option" where
  "set_prev h e p = map_option (\<lambda>le. h(e \<mapsto> le\<lparr>le_prev := p\<rparr>)) (h e)"

definition set_next :: "heap \<Rightarrow> ptr \<Rightarrow> ptr \<Rightarrow> heap option" where
  "set_next h e n = map_option (\<lambda>le. h(e \<mapsto> le\<lparr>le_next := n\<rparr>)) (h e)"

section \<open>Positions in a list\<close>

definition is_head :: "heap \<Rightarrow> ptr \<Rightarrow> bool option" where
  "is_head h e =
     (if e = NULL then Some False
      else do { p \<leftarrow> get_prev h e; n \<leftarrow> get_next h e; Some (p = NULL \<and> n \<noteq> NULL) })"

definition is_interior :: "heap \<Rightarrow> ptr \<Rightarrow> bool option" where
  "is_interior h e =
     (if e = NULL then Some False
      else do { p \<leftarrow> get_prev h e; n \<leftarrow> get_next h e; Some (p \<noteq> NULL \<and> n \<noteq> NULL) })"

definition is_tail :: "heap \<Rightarrow> ptr \<Rightarrow> bool option" where
  "is_tail h e =
     (if e = NULL then Some False
      else do { p \<leftarrow> get_prev h e; n \<leftarrow> get_next h e; Some (p \<noteq> NULL \<and> n = NULL) })"

definition list_init :: "heap \<Rightarrow> ptr \<Rightarrow> heap option" where
  "list_init h l = do {
     ASSERT (l \<noteq> NULL);
     h \<leftarrow> set_prev h (head_of l) NULL;
     h \<leftarrow> set_next h (head_of l) (tail_of l);
     h \<leftarrow> set_prev h (tail_of l) (head_of l);
     set_next h (tail_of l) NULL }"

definition list_begin :: "heap \<Rightarrow> ptr \<Rightarrow> ptr option" where
  "list_begin h l = do { ASSERT (l \<noteq> NULL); get_next h (head_of l) }"

definition list_next :: "heap \<Rightarrow> ptr \<Rightarrow> ptr option" where
  "list_next h e = do {
     hd \<leftarrow> is_head h e; int \<leftarrow> is_interior h e;
     ASSERT (hd \<or> int);
     get_next h e }"

definition list_end :: "ptr \<Rightarrow> ptr option" where
  "list_end l = do { ASSERT (l \<noteq> NULL); Some (tail_of l) }"

definition list_rbegin :: "heap \<Rightarrow> ptr \<Rightarrow> ptr option" where
  "list_rbegin h l = do { ASSERT (l \<noteq> NULL); get_prev h (tail_of l) }"

definition list_prev :: "heap \<Rightarrow> ptr \<Rightarrow> ptr option" where
  "list_prev h e = do {
     int \<leftarrow> is_interior h e; tl \<leftarrow> is_tail h e;
     ASSERT (int \<or> tl);
     get_prev h e }"

definition list_rend :: "ptr \<Rightarrow> ptr option" where
  "list_rend l = do { ASSERT (l \<noteq> NULL); Some (head_of l) }"

definition list_empty :: "heap \<Rightarrow> ptr \<Rightarrow> bool option" where
  "list_empty h l = do { b \<leftarrow> list_begin h l; e \<leftarrow> list_end l; Some (b = e) }"

section \<open>Insertion, removal and splicing\<close>

definition list_insert :: "heap \<Rightarrow> ptr \<Rightarrow> ptr \<Rightarrow> heap option" where
  "list_insert h before elem = do {
     int \<leftarrow> is_interior h before; tl \<leftarrow> is_tail h before;
     ASSERT (int \<or> tl);
     ASSERT (elem \<noteq> NULL);
     p \<leftarrow> get_prev h before;
     h \<leftarrow> set_prev h elem p;
     h \<leftarrow> set_next h elem before;
     p \<leftarrow> get_prev h before;
     h \<leftarrow> set_next h p elem;
     set_prev h before elem }"

definition list_splice :: "heap \<Rightarrow> ptr \<Rightarrow> ptr \<Rightarrow> ptr \<Rightarrow> heap option" where
  "list_splice h before first lst = do {
     int \<leftarrow> is_interior h before; tl \<leftarrow> is_tail h before;
     ASSERT (int \<or> tl);
     if first = lst then Some h
     else do {
       lst \<leftarrow> list_prev h lst;
       i1 \<leftarrow> is_interior h first; ASSERT i1;
       i2 \<leftarrow> is_interior h lst; ASSERT i2;
       fp \<leftarrow> get_prev h first; ln \<leftarrow> get_next h lst;
       h \<leftarrow> set_next h fp ln;
       ln \<leftarrow> get_next h lst; fp \<leftarrow> get_prev h first;
       h \<leftarrow> set_prev h ln fp;
       bp \<leftarrow> get_prev h before;
       h \<leftarrow> set_prev h first bp;
       h \<leftarrow> set_next h lst before;
       bp \<leftarrow> get_prev h before;
       h \<leftarrow> set_next h bp first;
       set_prev h before lst } }"

definition list_push_front :: "heap \<Rightarrow> ptr \<Rightarrow> ptr \<Rightarrow> heap option" where
  "list_push_front h l elem = do { b \<leftarrow> list_begin h l; list_insert h b elem }"

definition list_push_back :: "heap \<Rightarrow> ptr \<Rightarrow> ptr \<Rightarrow> heap option" where
  "list_push_back h l elem = do { e \<leftarrow> list_end l; list_insert h e elem }"

definition list_remove :: "heap \<Rightarrow> ptr \<Rightarrow> (ptr \<times> heap) option" where
  "list_remove h elem = do {
     int \<leftarrow> is_interior h elem;
     ASSERT int;
     p \<leftarrow> get_prev h elem; n \<leftarrow> get_next h elem;
     h \<leftarrow> set_next h p n;
     n \<leftarrow> get_next h elem; p \<leftarrow> get_prev h elem;
     h \<leftarrow> set_prev h n p;
     n \<leftarrow> get_next h elem;
     Some (n, h) }"

definition list_front :: "heap \<Rightarrow> ptr \<Rightarrow> ptr option" where
  "list_front h l = do { e \<leftarrow> list_empty h l; ASSERT (\<not> e); get_next h (head_of l) }"

definition list_back :: "heap \<Rightarrow> ptr \<Rightarrow> ptr option" where
  "list_back h l = do { e \<leftarrow> list_empty h l; ASSERT (\<not> e); get_prev h (tail_of l) }"

definition list_pop_front :: "heap \<Rightarrow> ptr \<Rightarrow> (ptr \<times> heap) option" where
  "list_pop_front h l = do {
     front \<leftarrow> list_front h l;
     (_, h) \<leftarrow> list_remove h front;
     Some (front, h) }"

definition list_pop_back :: "heap \<Rightarrow> ptr \<Rightarrow> (ptr \<times> heap) option" where
  "list_pop_back h l = do {
     back \<leftarrow> list_back h l;
     (_, h) \<leftarrow> list_remove h back;
     Some (back, h) }"

section \<open>Traversals\<close>

partial_function (option) list_size_loop :: "heap \<Rightarrow> ptr \<Rightarrow> ptr \<Rightarrow> nat \<Rightarrow> nat option" where
  "list_size_loop h e end cnt =
     (if e = end then Some cnt
      else do { n \<leftarrow> list_next h e; list_size_loop h n end (Suc cnt) })"

definition list_size :: "heap \<Rightarrow> ptr \<Rightarrow> nat option" where
  "list_size h l = do {
     b \<leftarrow> list_begin h l; e \<leftarrow> list_end l;
     list_size_loop h b e 0 }"

text \<open>\<open>swap (&e->prev, &e->next)\<close> for one element, and the reversal loop, which follows the
  \<open>prev\<close> link after the swap.\<close>

definition swap_links :: "heap \<Rightarrow> ptr \<Rightarrow> heap option" where
  "swap_links h e = do {
     p \<leftarrow> get_prev h e; n \<leftarrow> get_next h e;
     h \<leftarrow> set_prev h e n;
     set_next h e p }"

partial_function (option) list_reverse_loop :: "heap \<Rightarrow> ptr \<Rightarrow> ptr \<Rightarrow> heap option" where
  "list_reverse_loop h e end =
     (if e = end then Some h
      else do {
        h \<leftarrow> swap_links h e;
        p \<leftarrow> get_prev h e;
        list_reverse_loop h p end })"

definition list_reverse :: "heap \<Rightarrow> ptr \<Rightarrow> heap option" where
  "list_reverse h l = do {
     em \<leftarrow> list_empty h l;
     if em then Some h
     else do {
       b \<leftarrow> list_begin h l; e \<leftarrow> list_end l;
       h \<leftarrow> list_reverse_loop h b e;
       \<comment> \<open>swap (&list->head.next, &list->tail.prev)\<close>
       hn \<leftarrow> get_next h (head_of l); tp \<leftarrow> get_prev h (tail_of l);
       h \<leftarrow> set_next h (head_of l) tp;
       h \<leftarrow> set_prev h (tail_of l) hn;
       \<comment> \<open>swap (&list->head.next->prev, &list->tail.prev->next)\<close>
       hn \<leftarrow> get_next h (head_of l); tp \<leftarrow> get_prev h (tail_of l);
       hnp \<leftarrow> get_prev h hn; tpn \<leftarrow> get_next h tp;
       h \<leftarrow> set_prev h hn tpn;
       set_next h tp hnp } }"

section \<open>Ordered lists\<close>

text \<open>A comparison function reads the structures the elements are embedded in, which no list
  operation writes; it is a relation on element addresses.\<close>

type_synonym list_less_func = "ptr \<Rightarrow> ptr \<Rightarrow> bool"

partial_function (option) is_sorted_loop :: "heap \<Rightarrow> ptr \<Rightarrow> ptr \<Rightarrow> list_less_func \<Rightarrow> bool option" where
  "is_sorted_loop h a b lt = do {
     a \<leftarrow> list_next h a;
     if a = b then Some True
     else do {
       p \<leftarrow> list_prev h a;
       if lt a p then Some False else is_sorted_loop h a b lt } }"

definition is_sorted :: "heap \<Rightarrow> ptr \<Rightarrow> ptr \<Rightarrow> list_less_func \<Rightarrow> bool option" where
  "is_sorted h a b lt = (if a \<noteq> b then is_sorted_loop h a b lt else Some True)"

partial_function (option) find_end_of_run_loop ::
  "heap \<Rightarrow> ptr \<Rightarrow> ptr \<Rightarrow> list_less_func \<Rightarrow> ptr option" where
  "find_end_of_run_loop h a b lt = do {
     a \<leftarrow> list_next h a;
     if a = b then Some a
     else do {
       p \<leftarrow> list_prev h a;
       if \<not> lt a p then find_end_of_run_loop h a b lt else Some a } }"

definition find_end_of_run :: "heap \<Rightarrow> ptr \<Rightarrow> ptr \<Rightarrow> list_less_func \<Rightarrow> ptr option" where
  "find_end_of_run h a b lt = do {
     ASSERT (a \<noteq> NULL); ASSERT (b \<noteq> NULL); ASSERT (a \<noteq> b);
     find_end_of_run_loop h a b lt }"

partial_function (option) inplace_merge_loop ::
  "heap \<Rightarrow> ptr \<Rightarrow> ptr \<Rightarrow> ptr \<Rightarrow> list_less_func \<Rightarrow> heap option" where
  "inplace_merge_loop h a0 a1b0 b1 lt =
     (if a0 \<noteq> a1b0 \<and> a1b0 \<noteq> b1 then
        if \<not> lt a1b0 a0 then do {
          a0 \<leftarrow> list_next h a0;
          inplace_merge_loop h a0 a1b0 b1 lt }
        else do {
          a1b0 \<leftarrow> list_next h a1b0;
          p \<leftarrow> list_prev h a1b0;
          h \<leftarrow> list_splice h a0 p a1b0;
          inplace_merge_loop h a0 a1b0 b1 lt }
      else Some h)"

definition inplace_merge ::
  "heap \<Rightarrow> ptr \<Rightarrow> ptr \<Rightarrow> ptr \<Rightarrow> list_less_func \<Rightarrow> heap option" where
  "inplace_merge h a0 a1b0 b1 lt = do {
     ASSERT (a0 \<noteq> NULL); ASSERT (a1b0 \<noteq> NULL); ASSERT (b1 \<noteq> NULL);
     s1 \<leftarrow> is_sorted h a0 a1b0 lt; ASSERT s1;
     s2 \<leftarrow> is_sorted h a1b0 b1 lt; ASSERT s2;
     inplace_merge_loop h a0 a1b0 b1 lt }"

text \<open>One pass of \<open>list_sort\<close>: the inner \<open>for\<close> loop, with the counter of output runs.\<close>

partial_function (option) list_sort_pass ::
  "heap \<Rightarrow> ptr \<Rightarrow> ptr \<Rightarrow> list_less_func \<Rightarrow> nat \<Rightarrow> (nat \<times> heap) option" where
  "list_sort_pass h l a0 lt output_run_cnt = do {
     e \<leftarrow> list_end l;
     if a0 = e then Some (output_run_cnt, h)
     else do {
       a1b0 \<leftarrow> find_end_of_run h a0 e lt;
       if a1b0 = e then Some (Suc output_run_cnt, h)
       else do {
         b1 \<leftarrow> find_end_of_run h a1b0 e lt;
         h \<leftarrow> inplace_merge h a0 a1b0 b1 lt;
         list_sort_pass h l b1 lt (Suc output_run_cnt) } } }"

partial_function (option) list_sort_loop :: "heap \<Rightarrow> ptr \<Rightarrow> list_less_func \<Rightarrow> heap option" where
  "list_sort_loop h l lt = do {
     b \<leftarrow> list_begin h l;
     (output_run_cnt, h) \<leftarrow> list_sort_pass h l b lt 0;
     if output_run_cnt > 1 then list_sort_loop h l lt else Some h }"

definition list_sort :: "heap \<Rightarrow> ptr \<Rightarrow> list_less_func \<Rightarrow> heap option" where
  "list_sort h l lt = do {
     ASSERT (l \<noteq> NULL);
     h \<leftarrow> list_sort_loop h l lt;
     b \<leftarrow> list_begin h l; e \<leftarrow> list_end l;
     s \<leftarrow> is_sorted h b e lt; ASSERT s;
     Some h }"

partial_function (option) insert_ordered_loop ::
  "heap \<Rightarrow> ptr \<Rightarrow> ptr \<Rightarrow> ptr \<Rightarrow> list_less_func \<Rightarrow> ptr option" where
  "insert_ordered_loop h e end elem lt =
     (if e = end then Some e
      else if lt elem e then Some e
      else do { n \<leftarrow> list_next h e; insert_ordered_loop h n end elem lt })"

definition list_insert_ordered :: "heap \<Rightarrow> ptr \<Rightarrow> ptr \<Rightarrow> list_less_func \<Rightarrow> heap option" where
  "list_insert_ordered h l elem lt = do {
     ASSERT (l \<noteq> NULL); ASSERT (elem \<noteq> NULL);
     b \<leftarrow> list_begin h l; en \<leftarrow> list_end l;
     e \<leftarrow> insert_ordered_loop h b en elem lt;
     list_insert h e elem }"

partial_function (option) list_unique_loop ::
  "heap \<Rightarrow> ptr \<Rightarrow> ptr \<Rightarrow> ptr \<Rightarrow> list_less_func \<Rightarrow> heap option" where
  "list_unique_loop h l duplicates elem lt = do {
     nx \<leftarrow> list_next h elem; en \<leftarrow> list_end l;
     if nx = en then Some h
     else if \<not> lt elem nx \<and> \<not> lt nx elem then do {
       (_, h) \<leftarrow> list_remove h nx;
       h \<leftarrow> (if duplicates \<noteq> NULL then list_push_back h duplicates nx else Some h);
       list_unique_loop h l duplicates elem lt }
     else list_unique_loop h l duplicates nx lt }"

definition list_unique :: "heap \<Rightarrow> ptr \<Rightarrow> ptr \<Rightarrow> list_less_func \<Rightarrow> heap option" where
  "list_unique h l duplicates lt = do {
     ASSERT (l \<noteq> NULL);
     em \<leftarrow> list_empty h l;
     if em then Some h
     else do { elem \<leftarrow> list_begin h l; list_unique_loop h l duplicates elem lt } }"

partial_function (option) list_max_loop ::
  "heap \<Rightarrow> ptr \<Rightarrow> ptr \<Rightarrow> ptr \<Rightarrow> list_less_func \<Rightarrow> ptr option" where
  "list_max_loop h mx e end lt =
     (if e = end then Some mx
      else do {
        n \<leftarrow> list_next h e;
        list_max_loop h (if lt mx e then e else mx) n end lt })"

definition list_max :: "heap \<Rightarrow> ptr \<Rightarrow> list_less_func \<Rightarrow> ptr option" where
  "list_max h l lt = do {
     mx \<leftarrow> list_begin h l; en \<leftarrow> list_end l;
     if mx \<noteq> en then do { e \<leftarrow> list_next h mx; list_max_loop h mx e en lt }
     else Some mx }"

partial_function (option) list_min_loop ::
  "heap \<Rightarrow> ptr \<Rightarrow> ptr \<Rightarrow> ptr \<Rightarrow> list_less_func \<Rightarrow> ptr option" where
  "list_min_loop h mn e end lt =
     (if e = end then Some mn
      else do {
        n \<leftarrow> list_next h e;
        list_min_loop h (if lt e mn then e else mn) n end lt })"

definition list_min :: "heap \<Rightarrow> ptr \<Rightarrow> list_less_func \<Rightarrow> ptr option" where
  "list_min h l lt = do {
     mn \<leftarrow> list_begin h l; en \<leftarrow> list_end l;
     if mn \<noteq> en then do { e \<leftarrow> list_next h mn; list_min_loop h mn e en lt }
     else Some mn }"

end
