(* ===== verification/Kernel_List_Links.thy ===== *)
theory Kernel_List_Links
  imports Kernel_List
begin

text \<open>
  What it means for the heap to hold a list: \<open>dlist h l xs\<close> says that the \<open>struct list\<close> at \<open>l\<close>
  links exactly the elements \<open>xs\<close>, in order.  The pointer operations of \<open>list.c\<close> are then shown
  to be the expected operations on \<open>xs\<close>, never to stop the kernel on a well-formed list, and to
  leave every other address untouched.
\<close>

section \<open>Single link reads and writes\<close>

definition wn :: "heap \<Rightarrow> ptr \<Rightarrow> ptr \<Rightarrow> heap" where
  "wn h e n = h(e := map_option (le_next_update (\<lambda>_. n)) (h e))"

definition wp :: "heap \<Rightarrow> ptr \<Rightarrow> ptr \<Rightarrow> heap" where
  "wp h e p = h(e := map_option (le_prev_update (\<lambda>_. p)) (h e))"

lemma set_next_wn: "set_next h e n = (if e \<in> dom h then Some (wn h e n) else None)"
  by (cases "h e") (simp_all add: set_next_def wn_def domIff)

lemma set_prev_wp: "set_prev h e p = (if e \<in> dom h then Some (wp h e p) else None)"
  by (cases "h e") (simp_all add: set_prev_def wp_def domIff)

lemma dom_wn [simp]: "dom (wn h e n) = dom h"
  by (auto simp: wn_def split: if_splits)

lemma dom_wp [simp]: "dom (wp h e p) = dom h"
  by (auto simp: wp_def split: if_splits)

lemma get_next_wn [simp]: "e \<in> dom h \<Longrightarrow> get_next (wn h e n) x = (if x = e then Some n else get_next h x)"
  by (auto simp: get_next_def wn_def)

lemma get_prev_wn [simp]: "get_prev (wn h e n) x = get_prev h x"
  by (cases "h e") (auto simp: get_prev_def wn_def)

lemma get_prev_wp [simp]: "e \<in> dom h \<Longrightarrow> get_prev (wp h e p) x = (if x = e then Some p else get_prev h x)"
  by (auto simp: get_prev_def wp_def)

lemma get_next_wp [simp]: "get_next (wp h e p) x = get_next h x"
  by (cases "h e") (auto simp: get_next_def wp_def)

lemma wn_other [heap_frame]: "a \<noteq> e \<Longrightarrow> wn h e n a = h a"
  by (simp add: wn_def)

lemma wp_other [heap_frame]: "a \<noteq> e \<Longrightarrow> wp h e p a = h a"
  by (simp add: wp_def)

lemma get_next_dom: "get_next h e = Some n \<Longrightarrow> e \<in> dom h"
  by (auto simp: get_next_def)

lemma get_prev_dom: "get_prev h e = Some p \<Longrightarrow> e \<in> dom h"
  by (auto simp: get_prev_def)

lemma get_next_conv: "e \<in> dom h \<Longrightarrow> \<exists>n. get_next h e = Some n"
  by (auto simp: get_next_def)

lemma get_prev_conv: "e \<in> dom h \<Longrightarrow> \<exists>p. get_prev h e = Some p"
  by (auto simp: get_prev_def)

lemma heap_eqI:
  assumes "get_next h' a = get_next h a" and "get_prev h' a = get_prev h a"
  shows "h' a = h a"
  using assms by (cases "h a"; cases "h' a") (auto simp: get_next_def get_prev_def)

definition same_outside :: "ptr set \<Rightarrow> heap \<Rightarrow> heap \<Rightarrow> bool" where
  "same_outside S h h' \<longleftrightarrow> dom h' = dom h \<and> (\<forall>a. a \<notin> S \<longrightarrow> h' a = h a)"

lemma same_outside_refl [simp]: "same_outside S h h"
  by (simp add: same_outside_def)

lemma same_outside_trans [trans]:
  "same_outside S h h' \<Longrightarrow> same_outside S h' h'' \<Longrightarrow> same_outside S h h''"
  by (simp add: same_outside_def)

lemma same_outside_mono: "same_outside S h h' \<Longrightarrow> S \<subseteq> T \<Longrightarrow> same_outside T h h'"
  by (auto simp: same_outside_def)

lemma same_outsideD: "same_outside S h h' \<Longrightarrow> a \<notin> S \<Longrightarrow> h' a = h a"
  by (simp add: same_outside_def)

lemma same_outside_dom: "same_outside S h h' \<Longrightarrow> dom h' = dom h"
  by (simp add: same_outside_def)

lemma same_outside_wn [intro]: "same_outside S h h' \<Longrightarrow> e \<in> S \<Longrightarrow> same_outside S h (wn h' e n)"
  by (auto simp: same_outside_def wn_def)

lemma same_outside_wp [intro]: "same_outside S h h' \<Longrightarrow> e \<in> S \<Longrightarrow> same_outside S h (wp h' e p)"
  by (auto simp: same_outside_def wp_def)

section \<open>Chains of links\<close>

fun linked :: "heap \<Rightarrow> ptr list \<Rightarrow> bool" where
  "linked h (a # b # r) \<longleftrightarrow> get_next h a = Some b \<and> get_prev h b = Some a \<and> linked h (b # r)"
| "linked h _ \<longleftrightarrow> True"

lemma linked_append:
  "linked h (xs @ a # ys) \<longleftrightarrow> linked h (xs @ [a]) \<and> linked h (a # ys)"
proof (induction xs)
  case Nil
  show ?case by simp
next
  case (Cons x xs)
  then show ?case by (cases xs) auto
qed

lemma linked_join:
  "xs \<noteq> [] \<Longrightarrow> ys \<noteq> [] \<Longrightarrow>
   linked h (xs @ ys) \<longleftrightarrow>
     linked h xs \<and> linked h ys \<and> get_next h (last xs) = Some (hd ys) \<and> get_prev h (hd ys) = Some (last xs)"
proof -
  assume "xs \<noteq> []" "ys \<noteq> []"
  then obtain us x y vs where "xs = us @ [x]" "ys = y # vs"
    by (metis rev_exhaust list.exhaust)
  then show ?thesis using linked_append [of h us x "y # vs"] by auto
qed

lemma linked_cong:
  "(\<And>x. x \<in> set (butlast xs) \<Longrightarrow> get_next h' x = get_next h x) \<Longrightarrow>
   (\<And>x. x \<in> set (tl xs) \<Longrightarrow> get_prev h' x = get_prev h x) \<Longrightarrow> linked h' xs = linked h xs"
  by (induction h xs rule: linked.induct) auto

lemma linked_dom: "linked h xs \<Longrightarrow> 2 \<le> length xs \<Longrightarrow> set xs \<subseteq> dom h"
proof (induction h xs rule: linked.induct)
  case (1 h a b r)
  then show ?case
    by (cases r) (auto dest: get_next_dom get_prev_dom)
qed auto

section \<open>Well-formed lists\<close>

abbreviation nodes :: "ptr \<Rightarrow> ptr list \<Rightarrow> ptr list" where
  "nodes l xs \<equiv> head_of l # xs @ [tail_of l]"

definition dlist :: "heap \<Rightarrow> ptr \<Rightarrow> ptr list \<Rightarrow> bool" where
  "dlist h l xs \<longleftrightarrow>
     l \<noteq> NULL \<and> NULL \<notin> set xs \<and> distinct (nodes l xs) \<and> linked h (nodes l xs) \<and>
     get_prev h (head_of l) = Some NULL \<and> get_next h (tail_of l) = Some NULL"

lemma tail_of_neq [simp]: "tail_of l \<noteq> l" "l \<noteq> tail_of l" "tail_of l \<noteq> NULL" "NULL \<noteq> tail_of l"
  by (simp_all add: tail_of_def sizeof_list_elem_def)

lemma dlistD:
  assumes "dlist h l xs"
  shows "l \<noteq> NULL" "NULL \<notin> set xs" "distinct (nodes l xs)" "linked h (nodes l xs)"
    "get_prev h l = Some NULL" "get_next h (tail_of l) = Some NULL"
  using assms by (auto simp: dlist_def)

lemma dlist_dom: "dlist h l xs \<Longrightarrow> set (nodes l xs) \<subseteq> dom h"
  using linked_dom [of h "nodes l xs"] by (simp add: dlist_def)

lemma dlist_cong:
  assumes "\<And>x. x \<in> set (nodes l xs) \<Longrightarrow> h' x = h x"
  shows "dlist h' l xs = dlist h l xs"
proof -
  have "linked h' (nodes l xs) = linked h (nodes l xs)"
  proof (rule linked_cong)
    fix x assume "x \<in> set (butlast (nodes l xs))"
    then have "x \<in> set (nodes l xs)" by (rule in_set_butlastD)
    then show "get_next h' x = get_next h x" by (simp only: get_next_def assms)
  next
    fix x assume "x \<in> set (tl (nodes l xs))"
    then have "x \<in> set (nodes l xs)" by auto
    then show "get_prev h' x = get_prev h x" by (simp only: get_prev_def assms)
  qed
  then show ?thesis by (simp add: dlist_def get_next_def get_prev_def assms)
qed

lemma dlist_same_outside:
  "dlist h l xs \<Longrightarrow> same_outside S h h' \<Longrightarrow> S \<inter> set (nodes l xs) = {} \<Longrightarrow> dlist h' l xs"
  by (subst dlist_cong [of l xs h' h]) (auto simp: same_outside_def)

text \<open>The neighbours of a position: the node before \<open>ys\<close> in \<open>pre @ ys\<close> and the first node of
  \<open>ys\<close>, where an empty prefix means the head and an empty rest the tail.\<close>

abbreviation node_before :: "ptr \<Rightarrow> ptr list \<Rightarrow> ptr" where
  "node_before l pre \<equiv> last (head_of l # pre)"

abbreviation node_at :: "ptr \<Rightarrow> ptr list \<Rightarrow> ptr" where
  "node_at l rest \<equiv> hd (rest @ [tail_of l])"

lemma node_before_in: "node_before l pre \<in> insert l (set pre)"
  using last_in_set [of "l # pre"] by auto

lemma node_at_in: "node_at l rest \<in> insert (tail_of l) (set rest)"
  by (cases rest) auto

lemma dlist_links:
  assumes "dlist h l (pre @ rest)"
  shows "get_next h (node_before l pre) = Some (node_at l rest)"
    and "get_prev h (node_at l rest) = Some (node_before l pre)"
proof -
  have "linked h ((l # pre) @ (rest @ [tail_of l]))"
    using dlistD(4) [OF assms] by simp
  then show "get_next h (node_before l pre) = Some (node_at l rest)"
    and "get_prev h (node_at l rest) = Some (node_before l pre)"
    by (subst (asm) linked_join; simp)+
qed

lemma dlist_nonnull:
  assumes "dlist h l (pre @ rest)"
  shows "node_before l pre \<noteq> NULL" "node_at l rest \<noteq> NULL"
proof -
  have "NULL \<notin> insert l (set pre)" "NULL \<notin> insert (tail_of l) (set rest)"
    using assms by (auto simp: dlist_def)
  then show "node_before l pre \<noteq> NULL" "node_at l rest \<noteq> NULL"
    by (metis node_before_in, metis node_at_in)
qed

lemma node_before_snoc [simp]: "node_before l (pre @ [x]) = x"
  by simp

lemma dlist_elem:
  assumes "dlist h l (pre @ x # suf)"
  shows "get_prev h x = Some (node_before l pre)" "get_next h x = Some (node_at l suf)"
    "x \<noteq> NULL" "node_before l pre \<noteq> NULL" "node_at l suf \<noteq> NULL"
  using dlist_links [of h l pre "x # suf"] dlist_links [of h l "pre @ [x]" suf]
    dlist_nonnull [of h l pre "x # suf"] dlist_nonnull [of h l "pre @ [x]" suf] assms
  by simp_all

lemma dlist_ends:
  assumes "dlist h l xs"
  shows "get_next h l = Some (node_at l xs)" "get_prev h (tail_of l) = Some (node_before l xs)"
    "node_at l xs \<noteq> NULL" "node_before l xs \<noteq> NULL"
  using dlist_links [of h l "[]" xs] dlist_links [of h l xs "[]"]
    dlist_nonnull [of h l "[]" xs] dlist_nonnull [of h l xs "[]"] assms
  by simp_all

lemma at_interior:
  assumes "dlist h l (pre @ x # suf)"
  shows "is_interior h x = Some True" "is_tail h x = Some False" "is_head h x = Some False"
  using dlist_elem [OF assms] by (simp_all add: is_interior_def is_tail_def is_head_def)

lemma at_tail:
  assumes "dlist h l xs"
  shows "is_interior h (tail_of l) = Some False" "is_tail h (tail_of l) = Some True"
  using dlistD(6) [OF assms] dlist_ends [OF assms]
  by (simp_all add: is_interior_def is_tail_def del: last.simps)

lemma at_head:
  assumes "dlist h l xs"
  shows "is_head h l = Some True" "is_interior h l = Some False"
  using dlistD(1,5) [OF assms] dlist_ends [OF assms]
  by (simp_all add: is_interior_def is_head_def)

lemma insertable_at:
  assumes "dlist h l (pre @ rest)"
  shows "\<exists>i t. is_interior h (node_at l rest) = Some i \<and> is_tail h (node_at l rest) = Some t \<and> (i \<or> t)"
proof (cases rest)
  case Nil
  with assms show ?thesis using at_tail [of h l pre] by auto
next
  case (Cons x suf)
  with assms show ?thesis using at_interior [of h l pre x suf] by auto
qed

section \<open>Walking a well-formed list\<close>

lemma list_begin_dlist: "dlist h l xs \<Longrightarrow> list_begin h l = Some (node_at l xs)"
  by (simp add: list_begin_def dlist_ends dlistD(1))

lemma list_end_dlist: "dlist h l xs \<Longrightarrow> list_end l = Some (tail_of l)"
  by (simp add: list_end_def dlistD(1))

lemma list_next_dlist: "dlist h l (pre @ x # suf) \<Longrightarrow> list_next h x = Some (node_at l suf)"
  by (simp add: list_next_def at_interior dlist_elem)

lemma list_next_head: "dlist h l xs \<Longrightarrow> list_next h l = Some (node_at l xs)"
  by (simp add: list_next_def at_head dlist_ends)

lemma list_prev_dlist: "dlist h l (pre @ x # suf) \<Longrightarrow> list_prev h x = Some (node_before l pre)"
  by (simp add: list_prev_def at_interior dlist_elem del: last.simps)

lemma list_prev_tail: "dlist h l xs \<Longrightarrow> list_prev h (tail_of l) = Some (node_before l xs)"
  by (simp add: list_prev_def at_tail dlist_ends del: last.simps)

lemma list_prev_node_at:
  "dlist h l (pre @ rest) \<Longrightarrow> list_prev h (node_at l rest) = Some (node_before l pre)"
  by (cases rest) (simp_all add: list_prev_dlist list_prev_tail del: last.simps)

lemma node_at_eq_tail: "dlist h l (pre @ rest) \<Longrightarrow> node_at l rest = tail_of l \<longleftrightarrow> rest = []"
  by (cases rest) (auto simp: dlist_def)

lemma list_empty_dlist: "dlist h l xs \<Longrightarrow> list_empty h l = Some (xs = [])"
  using node_at_eq_tail [of h l "[]" xs]
  by (simp add: list_empty_def list_begin_dlist list_end_dlist)

section \<open>Insertion and removal\<close>

lemma distinct_ends:
  assumes "distinct xs" "xs \<noteq> []"
  shows "last xs \<notin> set (butlast xs)" "hd xs \<notin> set (tl xs)" "last xs \<in> set xs" "hd xs \<in> set xs"
    "\<And>x. x \<in> set (butlast xs) \<Longrightarrow> x \<in> set xs" "\<And>x. x \<in> set (tl xs) \<Longrightarrow> x \<in> set xs"
proof -
  have "distinct (butlast xs @ [last xs])" using assms by simp
  then show "last xs \<notin> set (butlast xs)" by simp
  show "hd xs \<notin> set (tl xs)" using assms by (cases xs) auto
qed (use assms in \<open>auto dest: in_set_butlastD list.set_sel(2)\<close>)

text \<open>A chain keeps its links when only the \<open>next\<close> of its last and the \<open>prev\<close> of its first node,
  or links of nodes outside it, are written.\<close>

lemma linked_keep:
  assumes "linked h xs" "distinct xs" "xs \<noteq> []"
    and "\<And>x. x \<in> set xs \<Longrightarrow> x \<noteq> last xs \<Longrightarrow> get_next h' x = get_next h x"
    and "\<And>x. x \<in> set xs \<Longrightarrow> x \<noteq> hd xs \<Longrightarrow> get_prev h' x = get_prev h x"
  shows "linked h' xs"
  using linked_cong [of xs h' h] assms distinct_ends [of xs] by metis

lemma linked_insert:
  assumes "linked h (us @ vs)" "us \<noteq> []" "vs \<noteq> []" "distinct (us @ vs)" "e \<notin> set (us @ vs)"
    and "get_next h' = (get_next h)(e \<mapsto> hd vs, last us \<mapsto> e)"
    and "get_prev h' = (get_prev h)(e \<mapsto> last us, hd vs \<mapsto> e)"
  shows "linked h' (us @ e # vs)"
proof -
  have ends: "last us \<in> set us" "hd vs \<in> set vs" "last us \<noteq> e" "hd vs \<noteq> e" "last us \<notin> set vs"
    "hd vs \<notin> set us"
    using assms(2-5) by (auto dest: last_in_set)
  have "linked h us" "linked h vs"
    using assms(1) by (simp_all add: linked_join assms(2,3))
  then have "linked h' us" "linked h' vs"
    using assms(2-5) ends by (auto intro!: linked_keep [of h] simp: assms(6,7))
  moreover from this have "linked h' (e # vs)"
    using assms(3) ends by (cases vs) (auto simp: assms(6,7))
  ultimately show ?thesis
    using assms(2) ends by (subst linked_join) (auto simp: assms(6,7))
qed

lemma dlist_insertI:
  assumes d: "dlist h l (pre @ rest)" and e: "e \<notin> set (nodes l (pre @ rest))" "e \<noteq> NULL"
    and next_eq: "get_next h' = (get_next h)(e \<mapsto> node_at l rest, node_before l pre \<mapsto> e)"
    and prev_eq: "get_prev h' = (get_prev h)(e \<mapsto> node_before l pre, node_at l rest \<mapsto> e)"
  shows "dlist h' l (pre @ e # rest)"
proof -
  have "linked h' ((l # pre) @ e # (rest @ [tail_of l]))"
    using dlistD(3,4) [OF d] e next_eq prev_eq by (intro linked_insert [of h]) auto
  moreover have "get_prev h' l = Some NULL" "get_next h' (tail_of l) = Some NULL"
    using dlistD [OF d] e node_at_in [of rest l] node_before_in [of l pre]
    by (auto simp: next_eq prev_eq simp del: last.simps)
  ultimately show ?thesis
    using dlistD(1-3) [OF d] e by (auto simp: dlist_def)
qed

lemma list_insert_dlist:
  assumes d: "dlist h l (pre @ rest)" and e: "e \<notin> set (nodes l (pre @ rest))" "e \<noteq> NULL" "e \<in> dom h"
  shows "\<exists>h'. list_insert h (node_at l rest) e = Some h' \<and> dlist h' l (pre @ e # rest) \<and>
    same_outside (insert e (set (nodes l (pre @ rest)))) h h'"
proof -
  let ?p = "node_before l pre" and ?b = "node_at l rest"
  let ?h = "wp (wn (wn (wp h e ?p) e ?b) ?p e) ?b e"
  obtain i t where "is_interior h ?b = Some i" "is_tail h ?b = Some t" "i \<or> t"
    using insertable_at [OF d] by blast
  moreover have mem: "?p \<in> set (nodes l (pre @ rest))" "?b \<in> set (nodes l (pre @ rest))"
    using node_before_in [of l pre] node_at_in [of rest l] by (auto simp del: last.simps)
  moreover have "?p \<in> dom h" "?b \<in> dom h" using mem dlist_dom [OF d] by blast+
  moreover have "?b \<noteq> e" "?p \<noteq> e" using mem e(1) by metis+
  ultimately have "list_insert h ?b e = Some ?h"
    using e(2,3) dlist_links(2) [OF d]
    by (simp add: list_insert_def set_prev_wp set_next_wn del: last.simps)
  moreover have "dlist ?h l (pre @ e # rest)"
    by (rule dlist_insertI [OF d e(1,2)]) (auto simp: fun_eq_iff e(3) \<open>?p \<in> dom h\<close> \<open>?b \<in> dom h\<close> simp del: last.simps)
  moreover have "same_outside (insert e (set (nodes l (pre @ rest)))) h ?h"
    using mem by (intro same_outside_wn same_outside_wp same_outside_refl) blast+
  ultimately show ?thesis by blast
qed

end
