(* ===== verification/Kernel_List_Ops.thy ===== *)
theory Kernel_List_Ops
  imports Kernel_List_Links
begin

text \<open>
  Removal, splicing, the queue operations and reversal of \<open>list.c\<close>, on well-formed lists.
\<close>

section \<open>Removal\<close>

lemma linked_delete:
  assumes "linked h (us @ e # vs)" "us \<noteq> []" "vs \<noteq> []" "distinct (us @ e # vs)"
    and "get_next h' = (get_next h)(last us \<mapsto> hd vs)"
    and "get_prev h' = (get_prev h)(hd vs \<mapsto> last us)"
  shows "linked h' (us @ vs)"
proof -
  have ends: "last us \<in> set us" "hd vs \<in> set vs" "last us \<notin> set vs" "hd vs \<notin> set us"
    using assms(2-4) by (auto dest: last_in_set)
  have "linked h us" "linked h (e # vs)"
    using assms(1,2) by (simp_all add: linked_join)
  then have "linked h us" "linked h vs" using assms(3) by (cases vs; simp)+
  then have "linked h' us" "linked h' vs"
    using assms(2-4) ends by (auto intro!: linked_keep [of h] simp: assms(5,6))
  then show ?thesis
    using assms(2,3) by (simp add: linked_join assms(5,6))
qed

lemma dlist_deleteI:
  assumes d: "dlist h l (pre @ x # suf)"
    and next_eq: "get_next h' = (get_next h)(node_before l pre \<mapsto> node_at l suf)"
    and prev_eq: "get_prev h' = (get_prev h)(node_at l suf \<mapsto> node_before l pre)"
  shows "dlist h' l (pre @ suf)"
proof -
  have "linked h' ((l # pre) @ (suf @ [tail_of l]))"
    by (rule linked_delete [of h _ x]) (use dlistD(3,4) [OF d] next_eq prev_eq in simp_all)
  moreover have "get_prev h' l = Some NULL" "get_next h' (tail_of l) = Some NULL"
    using dlistD [OF d] node_at_in [of suf l] node_before_in [of l pre]
    by (auto simp: next_eq prev_eq simp del: last.simps)
  ultimately show ?thesis
    using dlistD(1-3) [OF d] by (auto simp: dlist_def)
qed

lemma list_remove_dlist:
  assumes d: "dlist h l (pre @ x # suf)"
  shows "\<exists>h'. list_remove h x = Some (node_at l suf, h') \<and> dlist h' l (pre @ suf) \<and>
    same_outside (set (nodes l (pre @ suf))) h h'"
proof -
  let ?p = "node_before l pre" and ?n = "node_at l suf"
  let ?h = "wp (wn h ?p ?n) ?n ?p"
  have mem: "?p \<in> set (nodes l (pre @ suf))" "?n \<in> set (nodes l (pre @ suf))"
    using node_before_in [of l pre] node_at_in [of suf l] by (auto simp del: last.simps)
  moreover have x: "x \<notin> set (nodes l (pre @ suf))" using dlistD(3) [OF d] by auto
  ultimately have ne: "?p \<noteq> x" "?n \<noteq> x" by metis+
  have dom: "?p \<in> dom h" "?n \<in> dom h" using mem dlist_dom [OF d] by auto
  have "list_remove h x = Some (?n, ?h)"
    using dlist_elem [OF d] at_interior [OF d] ne dom
    by (simp add: list_remove_def set_prev_wp set_next_wn del: last.simps)
  moreover have "dlist ?h l (pre @ suf)"
    by (rule dlist_deleteI [OF d]) (auto simp: fun_eq_iff dom simp del: last.simps)
  moreover have "same_outside (set (nodes l (pre @ suf))) h ?h"
    using mem by (intro same_outside_wn same_outside_wp same_outside_refl) blast+
  ultimately show ?thesis by blast
qed

section \<open>Queue operations\<close>

lemma list_front_dlist: "dlist h l (x # xs) \<Longrightarrow> list_front h l = Some x"
  by (simp add: list_front_def list_empty_dlist dlist_ends)

lemma list_back_dlist: "dlist h l (xs @ [x]) \<Longrightarrow> list_back h l = Some x"
  by (simp add: list_back_def list_empty_dlist dlist_ends)

lemma list_pop_front_dlist:
  assumes "dlist h l (x # xs)"
  shows "\<exists>h'. list_pop_front h l = Some (x, h') \<and> dlist h' l xs \<and> same_outside (set (nodes l xs)) h h'"
  using list_remove_dlist [of h l "[]" x xs] assms
  by (auto simp: list_pop_front_def list_front_dlist)

lemma list_pop_back_dlist:
  assumes "dlist h l (xs @ [x])"
  shows "\<exists>h'. list_pop_back h l = Some (x, h') \<and> dlist h' l xs \<and> same_outside (set (nodes l xs)) h h'"
  using list_remove_dlist [of h l xs x "[]"] assms
  by (auto simp: list_pop_back_def list_back_dlist)

lemma list_push_front_dlist:
  assumes "dlist h l xs" "e \<notin> set (nodes l xs)" "e \<noteq> NULL" "e \<in> dom h"
  shows "\<exists>h'. list_push_front h l e = Some h' \<and> dlist h' l (e # xs) \<and>
    same_outside (insert e (set (nodes l xs))) h h'"
  using list_insert_dlist [of h l "[]" xs e] assms
  by (simp add: list_push_front_def list_begin_dlist)

lemma list_push_back_dlist:
  assumes "dlist h l xs" "e \<notin> set (nodes l xs)" "e \<noteq> NULL" "e \<in> dom h"
  shows "\<exists>h'. list_push_back h l e = Some h' \<and> dlist h' l (xs @ [e]) \<and>
    same_outside (insert e (set (nodes l xs))) h h'"
  using list_insert_dlist [of h l xs "[]" e] assms
  by (simp add: list_push_back_def list_end_dlist)

lemma list_init_dlist:
  assumes "l \<noteq> NULL" "l \<in> dom h" "tail_of l \<in> dom h"
  shows "\<exists>h'. list_init h l = Some h' \<and> dlist h' l [] \<and> same_outside {l, tail_of l} h h'"
proof -
  let ?h = "wn (wp (wn (wp h l NULL) l (tail_of l)) (tail_of l) l) (tail_of l) NULL"
  have "list_init h l = Some ?h"
    using assms by (simp add: list_init_def set_prev_wp set_next_wn)
  moreover have "dlist ?h l []"
    using assms by (simp add: dlist_def)
  moreover have "same_outside {l, tail_of l} h ?h"
    by (intro same_outside_wn same_outside_wp same_outside_refl) blast+
  ultimately show ?thesis by blast
qed

section \<open>Size\<close>

lemma list_size_loop_dlist:
  "dlist h l (pre @ rest) \<Longrightarrow> list_size_loop h (node_at l rest) (tail_of l) n = Some (n + length rest)"
proof (induction rest arbitrary: pre n)
  case Nil
  then show ?case by (simp add: list_size_loop.simps)
next
  case (Cons x rest)
  then have "x \<noteq> tail_of l" by (auto simp: dlist_def)
  moreover have "list_next h x = Some (node_at l rest)" by (rule list_next_dlist [OF Cons.prems])
  ultimately show ?case
    using Cons.IH [of "pre @ [x]" "Suc n"] Cons.prems by (simp add: list_size_loop.simps)
qed

lemma list_size_dlist: "dlist h l xs \<Longrightarrow> list_size h l = Some (length xs)"
  using list_size_loop_dlist [of h l "[]" xs 0]
  by (simp add: list_size_def list_begin_dlist list_end_dlist)

section \<open>Reversal\<close>

fun next_chain :: "heap \<Rightarrow> ptr list \<Rightarrow> bool" where
  "next_chain h (a # b # r) \<longleftrightarrow> get_next h a = Some b \<and> next_chain h (b # r)"
| "next_chain h _ \<longleftrightarrow> True"

lemma linked_next_chain: "linked h xs \<Longrightarrow> next_chain h xs"
  by (induction h xs rule: linked.induct) auto

lemma next_chain_cong:
  "(\<And>x. x \<in> set (butlast xs) \<Longrightarrow> get_next h' x = get_next h x) \<Longrightarrow> next_chain h' xs = next_chain h xs"
  by (induction h xs rule: next_chain.induct) auto

lemma swap_links_effect:
  assumes "e \<in> dom h"
  shows "\<exists>h'. swap_links h e = Some h' \<and> dom h' = dom h \<and> same_outside {e} h h' \<and>
    get_next h' e = get_prev h e \<and> get_prev h' e = get_next h e"
proof -
  obtain p n where pn: "get_prev h e = Some p" "get_next h e = Some n"
    using assms get_next_conv get_prev_conv by blast
  then have "swap_links h e = Some (wn (wp h e n) e p)"
    using assms by (simp add: swap_links_def set_prev_wp set_next_wn)
  moreover have "same_outside {e} h (wn (wp h e n) e p)"
    by (intro same_outside_wn same_outside_wp same_outside_refl) simp_all
  ultimately show ?thesis using pn assms by (intro exI [of _ "wn (wp h e n) e p"]) simp
qed

definition swapped_on :: "ptr set \<Rightarrow> heap \<Rightarrow> heap \<Rightarrow> bool" where
  "swapped_on S h h' \<longleftrightarrow> same_outside S h h' \<and>
     (\<forall>x\<in>S. get_next h' x = get_prev h x \<and> get_prev h' x = get_next h x)"

lemma swapped_on_insert:
  assumes "same_outside {e} h h'" "get_next h' e = get_prev h e" "get_prev h' e = get_next h e"
    and "swapped_on S h' h''" "e \<notin> S"
  shows "swapped_on (insert e S) h h''"
proof -
  have "h'' e = h' e" using assms(4,5) by (auto simp: swapped_on_def same_outside_def)
  moreover have "h' x = h x" if "x \<in> S" for x using that assms(1,5) by (auto simp: same_outside_def)
  ultimately show ?thesis
    using assms by (auto simp: swapped_on_def same_outside_def get_next_def get_prev_def)
qed

lemma list_reverse_loop_effect:
  "next_chain h (rest @ [t]) \<Longrightarrow> distinct (rest @ [t]) \<Longrightarrow> set rest \<subseteq> dom h \<Longrightarrow>
   \<exists>h'. list_reverse_loop h (hd (rest @ [t])) t = Some h' \<and> swapped_on (set rest) h h'"
proof (induction rest arbitrary: h)
  case Nil
  then show ?case by (simp add: list_reverse_loop.simps swapped_on_def)
next
  case (Cons x rest)
  then have "x \<in> dom h" "x \<noteq> t" "x \<notin> set rest" by auto
  then obtain h1 where h1: "swap_links h x = Some h1" "dom h1 = dom h" "same_outside {x} h h1"
      "get_next h1 x = get_prev h x" "get_prev h1 x = get_next h x"
    using swap_links_effect by blast
  have nx: "get_next h x = Some (hd (rest @ [t]))" and ch: "next_chain h (rest @ [t])"
    using Cons.prems(1) by (cases rest; simp)+
  have "get_next h1 y = get_next h y" if "y \<in> set rest" for y
  proof -
    have "y \<noteq> x" using that \<open>x \<notin> set rest\<close> by auto
    then show ?thesis using same_outsideD [OF h1(3), of y] by (simp add: get_next_def)
  qed
  then have "next_chain h1 (rest @ [t])"
    using ch by (subst next_chain_cong [of "rest @ [t]" h1 h]) auto
  then obtain h2 where h2: "list_reverse_loop h1 (hd (rest @ [t])) t = Some h2" "swapped_on (set rest) h1 h2"
    using Cons.IH [of h1] Cons.prems h1(2) by auto
  have "list_reverse_loop h x t = Some h2"
    using \<open>x \<noteq> t\<close> h1 nx h2(1) by (simp add: list_reverse_loop.simps [of h x])
  moreover have "swapped_on (set (x # rest)) h h2"
    using swapped_on_insert [OF h1(3-5) h2(2) \<open>x \<notin> set rest\<close>] by simp
  ultimately show ?case by simp
qed

lemma linked_rev:
  assumes "linked h xs" "\<And>x. x \<in> set xs \<Longrightarrow> get_next h' x = get_prev h x \<and> get_prev h' x = get_next h x"
  shows "linked h' (rev xs)"
  using assms
proof (induction h xs rule: linked.induct)
  case (1 h a b r)
  then have "linked h' (rev r @ [b])" by simp
  with 1 show ?case by (simp add: linked_append [of h' "rev r" b "[a]"])
qed auto

lemma list_reverse_dlist:
  assumes d: "dlist h l xs"
  shows "\<exists>h'. list_reverse h l = Some h' \<and> dlist h' l (rev xs) \<and> same_outside (set (nodes l xs)) h h'"
proof (cases "xs = []")
  case True
  with d show ?thesis by (simp add: list_reverse_def list_empty_dlist)
next
  case ne: False
  have dom: "set (nodes l xs) \<subseteq> dom h" by (rule dlist_dom [OF d])
  have dist: "distinct (nodes l xs)" by (rule dlistD(3) [OF d])
  have lk: "linked h ((l # xs) @ [tail_of l])" using dlistD(4) [OF d] by simp
  have "linked h (xs @ [tail_of l])" using lk ne by (cases xs) auto
  then obtain h1 where loop: "list_reverse_loop h (node_at l xs) (tail_of l) = Some h1"
      and sw: "swapped_on (set xs) h h1"
    using list_reverse_loop_effect [of h xs "tail_of l"] linked_next_chain dist dom by auto
  let ?f = "hd xs" and ?z = "last xs"
  have mem: "?f \<in> set xs" "?z \<in> set xs" using ne by auto
  have links: "get_next h l = Some ?f" "get_prev h ?f = Some l"
      "get_next h ?z = Some (tail_of l)" "get_prev h (tail_of l) = Some ?z"
    using dlist_links [of h l "[]" xs] dlist_links [of h l xs "[]"] d ne by auto
  have out: "l \<notin> set xs" "tail_of l \<notin> set xs" using dist by auto
  have same1: "h1 l = h l" "h1 (tail_of l) = h (tail_of l)" and dom1: "dom h1 = dom h"
    using sw out by (auto simp: swapped_on_def same_outside_def)
  have g1: "get_next h1 l = Some ?f" "get_prev h1 (tail_of l) = Some ?z"
      "get_next h1 ?f = Some l" "get_prev h1 ?z = Some (tail_of l)"
      "get_prev h1 l = Some NULL" "get_next h1 (tail_of l) = Some NULL"
    using links sw mem dlistD(5,6) [OF d] same1
    by (auto simp: swapped_on_def get_next_def get_prev_def)
  have doms: "l \<in> dom h1" "tail_of l \<in> dom h1" "?f \<in> dom h1" "?z \<in> dom h1"
    using dom dom1 mem by auto
  let ?h = "wn (wp (wp (wn h1 l ?z) (tail_of l) ?f) ?z l) ?f (tail_of l)"
  have ne2: "?f \<noteq> l" "?z \<noteq> l" "?f \<noteq> tail_of l" "?z \<noteq> tail_of l" using mem out by metis+
  have "list_reverse h l = Some ?h"
    using d ne loop g1 doms ne2
    by (simp add: list_reverse_def list_empty_dlist list_begin_dlist list_end_dlist
        set_prev_wp set_next_wn)
  moreover have "dlist ?h l (rev xs)"
  proof -
    have "linked h xs" using lk ne by (subst (asm) linked_join) (auto simp: linked_join [of "[l]" xs h, simplified])
    then have "linked h1 (rev xs)"
      using sw by (auto intro: linked_rev simp: swapped_on_def)
    moreover have "get_next ?h = (get_next h1)(l \<mapsto> ?z, ?f \<mapsto> tail_of l)"
        "get_prev ?h = (get_prev h1)(tail_of l \<mapsto> ?f, ?z \<mapsto> l)"
      using doms ne2 by (simp_all add: fun_eq_iff)
    ultimately have "linked ?h (rev xs)"
      using ne dist by (auto intro!: linked_keep [of h1] simp: hd_rev last_rev)
    then have "linked ?h ([l] @ rev xs @ [tail_of l])"
      using ne ne2 doms by (simp add: linked_join hd_rev last_rev del: append.simps)
    then show ?thesis
      using dlistD(1,2) [OF d] dist ne2 g1 doms by (simp add: dlist_def)
  qed
  moreover have "same_outside (set (nodes l xs)) h ?h"
    using sw mem by (intro same_outside_wn same_outside_wp) (auto simp: swapped_on_def intro: same_outside_mono)
  ultimately show ?thesis by blast
qed

section \<open>Splicing\<close>

text \<open>Moving the segment \<open>ss\<close> in front of the segment \<open>as\<close> of the same list, the case
  \<open>inplace_merge\<close> needs.\<close>

lemma linked_rotate:
  assumes lk: "linked h (us @ as @ ss @ vs)" and ne: "us \<noteq> []" "as \<noteq> []" "ss \<noteq> []" "vs \<noteq> []"
    and dist: "distinct (us @ as @ ss @ vs)"
    and next_eq: "get_next h' = (get_next h)(last as \<mapsto> hd vs, last ss \<mapsto> hd as, last us \<mapsto> hd ss)"
    and prev_eq: "get_prev h' = (get_prev h)(hd vs \<mapsto> last as, hd ss \<mapsto> last us, hd as \<mapsto> last ss)"
  shows "linked h' (us @ ss @ as @ vs)"
proof -
  have ends: "last us \<in> set us" "last as \<in> set as" "last ss \<in> set ss"
    "hd as \<in> set as" "hd ss \<in> set ss" "hd vs \<in> set vs"
    using ne by auto
  then have out: "\<And>x. x \<in> set us \<Longrightarrow> x \<noteq> last as \<and> x \<noteq> last ss \<and> x \<noteq> hd as \<and> x \<noteq> hd ss \<and> x \<noteq> hd vs"
    "\<And>x. x \<in> set as \<Longrightarrow> x \<noteq> last us \<and> x \<noteq> last ss \<and> x \<noteq> hd ss \<and> x \<noteq> hd vs"
    "\<And>x. x \<in> set ss \<Longrightarrow> x \<noteq> last us \<and> x \<noteq> last as \<and> x \<noteq> hd as \<and> x \<noteq> hd vs"
    "\<And>x. x \<in> set vs \<Longrightarrow> x \<noteq> last us \<and> x \<noteq> last as \<and> x \<noteq> last ss \<and> x \<noteq> hd as \<and> x \<noteq> hd ss"
    using dist by auto
  have parts: "linked h us" "linked h as" "linked h ss" "linked h vs"
    using lk ne by (simp_all add: linked_join)
  have "linked h' us" "linked h' as" "linked h' ss" "linked h' vs"
    by (rule linked_keep [OF parts(1)] linked_keep [OF parts(2)] linked_keep [OF parts(3)]
        linked_keep [OF parts(4)]; use dist ne out in \<open>simp add: next_eq prev_eq\<close>)+
  then show ?thesis
    using ne ends out by (simp add: linked_join next_eq prev_eq)
qed

lemma list_splice_rotate:
  assumes d: "dlist h l (pre @ as @ ss @ suf)" and ne: "as \<noteq> []" "ss \<noteq> []"
  shows "\<exists>h'. list_splice h (hd as) (hd ss) (node_at l suf) = Some h' \<and>
    dlist h' l (pre @ ss @ as @ suf) \<and> same_outside (set (nodes l (pre @ as @ ss @ suf))) h h'"
proof -
  let ?u = "node_before l pre" and ?v = "node_at l suf"
  let ?N = "set (nodes l (pre @ as @ ss @ suf))"
  let ?h = "wp (wn (wn (wp (wp (wn h (last as) ?v) ?v (last as)) (hd ss) ?u) (last ss) (hd as)) ?u (hd ss)) (hd as) (last ss)"
  have dist: "distinct ((l # pre) @ as @ ss @ (suf @ [tail_of l]))"
    and lk: "linked h ((l # pre) @ as @ ss @ (suf @ [tail_of l]))"
    using dlistD(3,4) [OF d] by simp_all
  have mem: "?u \<in> insert l (set pre)" "?v \<in> insert (tail_of l) (set suf)"
      "hd as \<in> set as" "last as \<in> set as" "hd ss \<in> set ss" "last ss \<in> set ss"
    using node_before_in node_at_in ne by (simp_all del: last.simps)
  then have dom: "?u \<in> dom h" "?v \<in> dom h" "hd as \<in> dom h" "last as \<in> dom h" "hd ss \<in> dom h" "last ss \<in> dom h"
    using dlist_dom [OF d] by auto
  have links: "get_prev h (hd ss) = Some (last as)" "get_next h (last ss) = Some ?v"
      "get_prev h (hd as) = Some ?u"
    using dlist_links(2) [of h l "pre @ as" "ss @ suf"] dlist_links(1) [of h l "pre @ as @ ss" suf]
      dlist_links(2) [of h l pre "as @ ss @ suf"] d ne by simp_all
  obtain ys y where "ss = ys @ [y]" using ne(2) by (cases ss rule: rev_cases) auto
  then have "list_prev h ?v = Some (last ss)" and i2: "is_interior h (last ss) = Some True"
    using list_prev_node_at [of h l "pre @ as @ ss" suf] at_interior [of h l "pre @ as @ ys" y suf] d by simp_all
  moreover obtain x xs where "as = x # xs" using ne(1) by (cases as) auto
  then have "is_interior h (hd as) = Some True" "is_tail h (hd as) = Some False"
    using at_interior [of h l pre x "xs @ ss @ suf"] d by simp_all
  moreover obtain z zs where "ss = z # zs" using ne(2) by (cases ss) auto
  then have "is_interior h (hd ss) = Some True"
    using at_interior [of h l "pre @ as" z "zs @ suf"] d by simp
  moreover have neq: "hd ss \<noteq> ?v" "hd as \<noteq> ?v" "hd as \<noteq> hd ss" "last ss \<noteq> last as" "last ss \<noteq> ?u" "last as \<noteq> ?u"
    using mem dist by auto
  ultimately have "list_splice h (hd as) (hd ss) ?v = Some ?h"
    using dom links by (simp add: list_splice_def set_prev_wp set_next_wn del: last.simps)
  moreover have "dlist ?h l (pre @ ss @ as @ suf)"
  proof -
    have eqs: "get_next ?h = (get_next h)(last as \<mapsto> ?v, last ss \<mapsto> hd as, ?u \<mapsto> hd ss)"
        "get_prev ?h = (get_prev h)(?v \<mapsto> last as, hd ss \<mapsto> ?u, hd as \<mapsto> last ss)"
      using dom by (simp_all add: fun_eq_iff del: last.simps)
    then have "linked ?h ((l # pre) @ ss @ as @ (suf @ [tail_of l]))"
      by (intro linked_rotate [OF lk _ ne _ dist]) simp_all
    moreover have "get_prev ?h l = Some NULL" "get_next ?h (tail_of l) = Some NULL"
      using dlistD(5,6) [OF d] dist mem by (auto simp: eqs simp del: last.simps)
    ultimately show ?thesis
      using dlistD(1,2) [OF d] dist by (auto simp: dlist_def)
  qed
  moreover have "same_outside ?N h ?h"
    using mem by (intro same_outside_wn same_outside_wp same_outside_refl) auto
  ultimately show ?thesis by blast
qed

end
