(* ===== verification/Natural_Merge.thy ===== *)
theory Natural_Merge
  imports Main "HOL-Library.Multiset"
begin

text \<open>
  The algorithm behind \<open>list_sort\<close>, on plain lists: natural merge sort, which repeatedly merges
  adjacent nondecreasing runs.  Elements are compared by a key; the result is HOL's stable
  \<open>sort_key\<close>.  The pass is stated exactly as the C code makes it: it takes two runs, merges them,
  and counts one output run.
\<close>

fun take_run :: "('a \<Rightarrow> 'k::linorder) \<Rightarrow> 'a \<Rightarrow> 'a list \<Rightarrow> 'a list \<times> 'a list" where
  "take_run key x [] = ([x], [])"
| "take_run key x (y # ys) =
     (if key y < key x then ([x], y # ys)
      else (let (r, rest) = take_run key y ys in (x # r, rest)))"

fun merge_runs :: "('a \<Rightarrow> 'k::linorder) \<Rightarrow> 'a list \<Rightarrow> 'a list \<Rightarrow> 'a list" where
  "merge_runs key [] bs = bs"
| "merge_runs key as [] = as"
| "merge_runs key (a # as) (b # bs) =
     (if \<not> key b < key a then a # merge_runs key as (b # bs) else b # merge_runs key (a # as) bs)"

lemma merge_runs_Nil2 [simp]: "merge_runs key as [] = as"
  by (cases as) simp_all

lemma take_run_split: "take_run key x xs = (r, rest) \<Longrightarrow> r @ rest = x # xs \<and> r \<noteq> []"
  by (induction key x xs arbitrary: r rest rule: take_run.induct) (auto split: if_splits prod.splits)

lemma take_run_hd: "take_run key x xs = (r, rest) \<Longrightarrow> hd r = x"
  by (cases xs) (auto split: if_splits prod.splits)

lemma take_run_length: "take_run key x xs = (r, rest) \<Longrightarrow> length rest \<le> length xs"
  using take_run_split [of key x xs r rest] by (cases r) (auto dest: arg_cong [of _ _ length])

lemma take_run_sorted: "take_run key x xs = (r, rest) \<Longrightarrow> sorted (map key r)"
proof (induction key x xs arbitrary: r rest rule: take_run.induct)
  case (2 key x y ys)
  show ?case
  proof (cases "key y < key x")
    case True
    with 2 show ?thesis by auto
  next
    case False
    obtain r' rest' where t: "take_run key y ys = (r', rest')" by fastforce
    with False 2 have "sorted (map key r')" "r = x # r'" by auto
    moreover have "r' \<noteq> []" "hd r' = y" using take_run_split [OF t] take_run_hd [OF t] by auto
    ultimately show ?thesis using False by (cases r') auto
  qed
qed auto

function sort_pass :: "('a \<Rightarrow> 'k::linorder) \<Rightarrow> 'a list \<Rightarrow> 'a list \<times> nat" where
  "sort_pass key [] = ([], 0)"
| "sort_pass key (x # xs) =
     (let (r1, rest) = take_run key x xs in
      case rest of
        [] \<Rightarrow> (r1, 1)
      | y # ys \<Rightarrow>
          (let (r2, rest2) = take_run key y ys; (out, n) = sort_pass key rest2
           in (merge_runs key r1 r2 @ out, Suc n)))"
  by pat_completeness auto
termination
  by (relation "measure (\<lambda>(key, xs). length xs)")
    (auto dest!: sym [of "(_, _)"] take_run_length)

subsection \<open>What one pass preserves\<close>

lemma mset_merge_runs: "mset (merge_runs key as bs) = mset as + mset bs"
  by (induction key as bs rule: merge_runs.induct) auto

lemma set_merge_runs: "set (merge_runs key as bs) = set as \<union> set bs"
  by (induction key as bs rule: merge_runs.induct) auto

lemma sorted_merge_runs:
  "sorted (map key as) \<Longrightarrow> sorted (map key bs) \<Longrightarrow> sorted (map key (merge_runs key as bs))"
  by (induction key as bs rule: merge_runs.induct) (auto simp: set_merge_runs)

lemma stable_merge_runs:
  "sorted (map key as) \<Longrightarrow> sorted (map key bs) \<Longrightarrow>
   filter (\<lambda>x. key x = k) (merge_runs key as bs) =
     filter (\<lambda>x. key x = k) as @ filter (\<lambda>x. key x = k) bs"
proof (induction key as bs rule: merge_runs.induct)
  case (3 key a as b bs)
  show ?case
  proof (cases "key b < key a")
    case False
    with 3 show ?thesis by auto
  next
    case True
    have "filter (\<lambda>x. key x = key b) (a # as) = []"
      using True 3(3) by (auto simp: filter_empty_conv)
    with True 3 show ?thesis by (cases "k = key b") auto
  qed
qed auto

fun runs :: "('a \<Rightarrow> 'k::linorder) \<Rightarrow> 'a list \<Rightarrow> nat" where
  "runs key (x # y # r) = (if key y < key x then Suc (runs key (y # r)) else runs key (y # r))"
| "runs key [x] = 1"
| "runs key [] = 0"

lemma runs_sorted: "sorted (map key xs) \<Longrightarrow> runs key xs \<le> 1"
  by (induction key xs rule: runs.induct) auto

lemma runs_le_1_sorted: "runs key xs \<le> 1 \<Longrightarrow> sorted (map key xs)"
proof (induction key xs rule: runs.induct)
  case (1 key x y r)
  have "0 < runs key (y # r)" by (induction r arbitrary: y) auto
  with 1 show ?case by (auto split: if_splits)
qed auto

lemma runs_Cons_le: "runs key (x # xs) \<le> Suc (runs key xs)"
  by (cases xs) auto

lemma runs_append: "runs key (xs @ ys) \<le> runs key xs + runs key ys"
proof (induction key xs rule: runs.induct)
  case (2 key x)
  then show ?case using runs_Cons_le [of key x ys] by simp
qed auto

lemma runs_take_run: "take_run key x xs = (r, rest) \<Longrightarrow> runs key (x # xs) = Suc (runs key rest)"
  by (induction key x xs arbitrary: r rest rule: take_run.induct) (auto split: if_splits prod.splits)

lemma sort_pass_filter:
  "filter (\<lambda>x. key x = k) (fst (sort_pass key xs)) = filter (\<lambda>x. key x = k) xs"
proof (induction key xs rule: sort_pass.induct)
  case (2 key x xs)
  obtain r1 rest where r1: "take_run key x xs = (r1, rest)" by fastforce
  have s1: "r1 @ rest = x # xs" using take_run_split [OF r1] by simp
  show ?case
  proof (cases rest)
    case Nil
    with r1 s1 show ?thesis by simp
  next
    case (Cons y ys)
    obtain r2 rest2 where r2: "take_run key y ys = (r2, rest2)" by fastforce
    have s2: "r2 @ rest2 = y # ys" using take_run_split [OF r2] by simp
    have IH: "filter (\<lambda>x. key x = k) (fst (sort_pass key rest2)) = filter (\<lambda>x. key x = k) rest2"
      using 2 [OF r1 [symmetric] refl Cons r2 [symmetric] refl] .
    have eq: "x # xs = r1 @ r2 @ rest2" unfolding s1 [symmetric] Cons s2 [symmetric] ..
    have "fst (sort_pass key (x # xs)) = merge_runs key r1 r2 @ fst (sort_pass key rest2)"
      using r1 r2 Cons by (simp split: prod.splits)
    then show ?thesis
      unfolding eq filter_append
      by (simp only: filter_append IH append_assoc
          stable_merge_runs [OF take_run_sorted [OF r1] take_run_sorted [OF r2]])
  qed
qed simp

lemma sort_pass_mset: "mset (fst (sort_pass key xs)) = mset xs"
proof (rule multiset_eqI)
  fix x
  have "count (mset ys) x = count (mset (filter (\<lambda>y. key y = key x) ys)) x" for ys
    by (simp add: mset_filter)
  then show "count (mset (fst (sort_pass key xs))) x = count (mset xs) x"
    by (metis sort_pass_filter)
qed

lemma sort_pass_runs: "sort_pass key xs = (out, n) \<Longrightarrow> runs key out \<le> n \<and> 2 * n \<le> runs key xs + 1"
proof (induction key xs arbitrary: out n rule: sort_pass.induct)
  case (2 key x xs)
  obtain r1 rest where r1: "take_run key x xs = (r1, rest)" by fastforce
  have u1: "runs key (x # xs) = Suc (runs key rest)" using runs_take_run [OF r1] .
  show ?case
  proof (cases rest)
    case Nil
    with 2 r1 u1 show ?thesis using runs_sorted [OF take_run_sorted [OF r1]] by simp
  next
    case (Cons y ys)
    obtain r2 rest2 where r2: "take_run key y ys = (r2, rest2)" by fastforce
    obtain out' n' where rec: "sort_pass key rest2 = (out', n')" by fastforce
    have u2: "runs key rest = Suc (runs key rest2)" using runs_take_run [OF r2] Cons by simp
    have IH: "runs key out' \<le> n' \<and> 2 * n' \<le> runs key rest2 + 1"
      using 2(1) [OF r1 [symmetric] refl Cons r2 [symmetric] refl rec] .
    have eq: "out = merge_runs key r1 r2 @ out'" "n = Suc n'"
      using 2(2) r1 r2 rec Cons by auto
    have "runs key (merge_runs key r1 r2) \<le> 1"
      by (rule runs_sorted [OF sorted_merge_runs [OF take_run_sorted [OF r1] take_run_sorted [OF r2]]])
    with IH u1 u2 eq show ?thesis
      using runs_append [of key "merge_runs key r1 r2" out'] by simp
  qed
qed simp

lemma sort_pass_progress: "sort_pass key xs = (out, n) \<Longrightarrow> 1 < n \<Longrightarrow> runs key out < runs key xs"
  using sort_pass_runs [of key xs out n] by simp

lemma sort_key_unique:
  assumes "sorted (map key ys)" "\<And>k. filter (\<lambda>x. key x = k) ys = filter (\<lambda>x. key x = k) xs"
  shows "ys = sort_key key xs"
proof -
  have "mset ys = mset xs"
  proof (rule multiset_eqI)
    fix x
    have "count (mset zs) x = count (mset (filter (\<lambda>y. key y = key x) zs)) x" for zs
      by (simp add: mset_filter)
    then show "count (mset ys) x = count (mset xs) x" by (metis assms(2))
  qed
  moreover have "filter (\<lambda>x. key k = key x) ys = filter (\<lambda>x. key k = key x) xs" for k
    by (subst (1 2) eq_commute) (rule assms(2))
  ultimately show ?thesis
    using assms(1) by (intro sym [OF properties_for_sort_key]) auto
qed

subsection \<open>Ordered insertion, duplicates and extrema\<close>

definition insert_ordered :: "('a \<Rightarrow> 'k::linorder) \<Rightarrow> 'a \<Rightarrow> 'a list \<Rightarrow> 'a list" where
  "insert_ordered key e xs =
     takeWhile (\<lambda>x. \<not> key e < key x) xs @ e # dropWhile (\<lambda>x. \<not> key e < key x) xs"

lemma set_insert_ordered [simp]: "set (insert_ordered key e xs) = insert e (set xs)"
proof -
  have "set (takeWhile P xs) \<union> set (dropWhile P xs) = set xs" for P
    by (metis set_append takeWhile_dropWhile_id)
  then show ?thesis by (simp add: insert_ordered_def)
qed

lemma mset_insert_ordered [simp]: "mset (insert_ordered key e xs) = add_mset e (mset xs)"
proof -
  have "mset (takeWhile P xs) + mset (dropWhile P xs) = mset xs" for P
    by (metis mset_append takeWhile_dropWhile_id)
  then show ?thesis by (simp add: insert_ordered_def)
qed

lemma length_insert_ordered [simp]: "length (insert_ordered key e xs) = Suc (length xs)"
  by (metis mset_insert_ordered size_add_mset size_mset)

lemma distinct_insert_ordered [simp]:
  "distinct (insert_ordered key e xs) \<longleftrightarrow> e \<notin> set xs \<and> distinct xs"
  by (metis distinct.simps(2) mset.simps(2) mset_eq_imp_distinct_iff mset_insert_ordered)

lemma insert_ordered_Nil [simp]: "insert_ordered key e [] = [e]"
  by (simp add: insert_ordered_def)

lemma insert_ordered_Cons [simp]:
  "insert_ordered key e (x # xs) = (if key e < key x then e # x # xs else x # insert_ordered key e xs)"
  by (simp add: insert_ordered_def)

lemma insert_ordered_not_Nil [simp]: "insert_ordered key e xs \<noteq> []"
  by (simp add: insert_ordered_def)

lemma sorted_insert_ordered:
  "sorted (map key xs) \<Longrightarrow> sorted (map key (insert_ordered key e xs))"
  by (induction xs) auto

text \<open>On a sorted list, ordered insertion is what sorting the list with the element appended
  gives: the new element comes after those with an equal key.\<close>

lemma insert_ordered_filter:
  "sorted (map key xs) \<Longrightarrow> filter (\<lambda>x. key x = k) (insert_ordered key e xs) = filter (\<lambda>x. key x = k) (xs @ [e])"
proof (induction xs)
  case (Cons x xs)
  show ?case
  proof (cases "key e < key x")
    case True
    with Cons.prems have "filter (\<lambda>y. key y = key e) (x # xs) = []" by (auto simp: filter_empty_conv)
    with True show ?thesis by (cases "k = key e") auto
  next
    case False
    with Cons show ?thesis by simp
  qed
qed simp

lemma insert_ordered_eq_sort_key:
  "sorted (map key xs) \<Longrightarrow> insert_ordered key e xs = sort_key key (xs @ [e])"
  by (intro sort_key_unique sorted_insert_ordered insert_ordered_filter)

fun unique_split :: "('a \<Rightarrow> 'k::linorder) \<Rightarrow> 'a \<Rightarrow> 'a list \<Rightarrow> 'a list \<times> 'a list" where
  "unique_split key x [] = ([x], [])"
| "unique_split key x (y # ys) =
     (if key x = key y then (let (kept, dups) = unique_split key x ys in (kept, y # dups))
      else (let (kept, dups) = unique_split key y ys in (x # kept, dups)))"

text \<open>The scan of \<open>list_max\<close> and \<open>list_min\<close>: keep the best element so far, replace it only by a
  strictly better one.\<close>

fun first_best :: "('a \<Rightarrow> 'a \<Rightarrow> bool) \<Rightarrow> 'a \<Rightarrow> 'a list \<Rightarrow> 'a" where
  "first_best lt m [] = m"
| "first_best lt m (x # xs) = first_best lt (if lt m x then x else m) xs"

lemma first_best_snoc:
  "first_best lt x (ys @ [y]) = (if lt (first_best lt x ys) y then y else first_best lt x ys)"
  by (induction ys arbitrary: x) auto

locale strict_weak_order =
  fixes lt :: "'a \<Rightarrow> 'a \<Rightarrow> bool"
  assumes lt_trans: "lt a b \<Longrightarrow> lt b c \<Longrightarrow> lt a c"
    and nlt_trans: "\<not> lt a b \<Longrightarrow> \<not> lt b c \<Longrightarrow> \<not> lt a c"
begin

lemma first_best_split:
  "\<exists>as bs. x # xs = as @ first_best lt x xs # bs \<and>
     (\<forall>a\<in>set as. lt a (first_best lt x xs)) \<and> (\<forall>b\<in>set bs. \<not> lt (first_best lt x xs) b)"
proof (induction xs rule: rev_induct)
  case Nil
  have "[x] = [] @ x # []" by simp
  then show ?case by fastforce
next
  case (snoc y ys)
  let ?m = "first_best lt x ys"
  obtain as bs where ab: "x # ys = as @ ?m # bs" "\<forall>a\<in>set as. lt a ?m" "\<forall>b\<in>set bs. \<not> lt ?m b"
    using snoc.IH by blast
  show ?case
  proof (cases "lt ?m y")
    case True
    have "lt a y" if "a \<in> set as" for a using that ab(2) True lt_trans by blast
    moreover have "lt b y" if "b \<in> set bs" for b using that ab(3) True nlt_trans by blast
    moreover have "set (x # ys) = insert ?m (set as \<union> set bs)" by (subst ab(1)) simp
    ultimately have "\<forall>a\<in>set (x # ys). lt a y" using True by (simp only:) blast
    with True show ?thesis
      by (intro exI [of _ "x # ys"] exI [of _ "[]"]) (simp add: first_best_snoc)
  next
    case False
    with ab show ?thesis
      by (intro exI [of _ as] exI [of _ "bs @ [y]"]) (auto simp: first_best_snoc)
  qed
qed

end

end
