(* ===== verification/Kernel_List_Sort.thy ===== *)
theory Kernel_List_Sort
  imports Kernel_List_Ops Natural_Merge
begin

text \<open>
  The ordered-list operations of \<open>list.c\<close> on well-formed lists.  Comparison functions of the
  kernel compare a key of the structures the elements belong to (a thread's priority, a page's
  address); \<open>by_key key\<close> is such a function.
\<close>

definition by_key :: "(ptr \<Rightarrow> 'k::linorder) \<Rightarrow> list_less_func" where
  "by_key key a b \<longleftrightarrow> key a < key b"

lemma node_at_neq:
  assumes "dlist h l (pre @ xs @ rest)" "xs \<noteq> []"
  shows "hd xs \<noteq> node_at l rest"
proof -
  have "distinct (xs @ rest @ [tail_of l])" using assms(1) by (auto simp: dlist_def)
  then show ?thesis using assms(2) node_at_in [of rest l] by (cases xs) auto
qed

section \<open>Sortedness checks and runs\<close>

lemma is_sorted_loop_dlist:
  "dlist h l (pre @ x # xs @ suf) \<Longrightarrow> sorted (map key (x # xs)) \<Longrightarrow>
   is_sorted_loop h x (node_at l suf) (by_key key) = Some True"
proof (induction xs arbitrary: pre x)
  case Nil
  then show ?case using list_next_dlist [of h l pre x suf] by (subst is_sorted_loop.simps) simp
next
  case (Cons y ys)
  have d: "dlist h l ((pre @ [x]) @ y # ys @ suf)" using Cons.prems(1) by simp
  have "list_next h x = Some y" using list_next_dlist [of h l pre x "y # ys @ suf"] Cons.prems(1) by simp
  moreover have "list_prev h y = Some x"
    using list_prev_dlist [OF d] by simp
  moreover have "y \<noteq> node_at l suf"
    using node_at_neq [of h l "pre @ [x]" "y # ys" suf] d by simp
  ultimately show ?case
    using Cons.IH [OF d] Cons.prems(2) by (subst is_sorted_loop.simps) (auto simp: by_key_def [of key y x])
qed

lemma is_sorted_dlist:
  assumes "dlist h l (pre @ xs @ suf)" "sorted (map key xs)"
  shows "is_sorted h (node_at l (xs @ suf)) (node_at l suf) (by_key key) = Some True"
proof (cases xs)
  case Nil
  then show ?thesis by (simp add: is_sorted_def)
next
  case (Cons x ys)
  then show ?thesis using is_sorted_loop_dlist [of h l pre x ys suf key] assms by (simp add: is_sorted_def)
qed

lemma find_end_of_run_loop_dlist:
  "dlist h l (pre @ x # xs) \<Longrightarrow> take_run key x xs = (r, rest) \<Longrightarrow>
   find_end_of_run_loop h x (tail_of l) (by_key key) = Some (node_at l rest)"
proof (induction key x xs arbitrary: pre r rest rule: take_run.induct)
  case (1 key x)
  then show ?case using list_next_dlist [of h l pre x "[]"]
    by (subst find_end_of_run_loop.simps) simp
next
  case (2 key x y ys)
  have d: "dlist h l ((pre @ [x]) @ y # ys)" using 2(2) by simp
  have "list_next h x = Some y" using list_next_dlist [OF 2(2)] by simp
  moreover have "list_prev h y = Some x" using list_prev_dlist [OF d] by simp
  moreover have "y \<noteq> tail_of l" using node_at_eq_tail [of h l "pre @ [x]" "y # ys"] d by simp
  moreover obtain r' rest' where "take_run key y ys = (r', rest')" by fastforce
  ultimately show ?case
    using 2(1) [OF _ d] 2(3) by (subst find_end_of_run_loop.simps) (auto simp: by_key_def [of key y x] split: if_splits)
qed

lemma find_end_of_run_dlist:
  assumes "dlist h l (pre @ x # xs)" "take_run key x xs = (r, rest)"
  shows "find_end_of_run h x (tail_of l) (by_key key) = Some (node_at l rest)"
  using find_end_of_run_loop_dlist [OF assms] dlist_elem(3) [OF assms(1)]
    node_at_eq_tail [OF assms(1)]
  by (simp add: find_end_of_run_def)

section \<open>In-place merging\<close>

lemma inplace_merge_loop_dlist:
  "dlist h l (pre @ as @ bs @ suf) \<Longrightarrow>
   \<exists>h'. inplace_merge_loop h (node_at l (as @ bs @ suf)) (node_at l (bs @ suf)) (node_at l suf) (by_key key) = Some h' \<and>
     dlist h' l (pre @ merge_runs key as bs @ suf) \<and>
     same_outside (set (nodes l (pre @ as @ bs @ suf))) h h'"
proof (induction key as bs arbitrary: pre h rule: merge_runs.induct)
  case (1 key bs)
  then show ?case by (subst inplace_merge_loop.simps) simp
next
  case (2 key a as)
  then show ?case by (subst inplace_merge_loop.simps) simp
next
  case (3 key a as b bs)
  have ne: "a \<noteq> b" "b \<noteq> node_at l suf"
    using 3(3) node_at_neq [of h l "pre @ a # as" "b # bs" suf] by (auto simp: dlist_def)
  show ?case
  proof (cases "key b < key a")
    case False
    have d: "dlist h l ((pre @ [a]) @ as @ (b # bs) @ suf)" using 3(3) by simp
    have "list_next h a = Some (node_at l (as @ (b # bs) @ suf))"
      using list_next_dlist [of h l pre a "as @ (b # bs) @ suf"] 3(3) by simp
    then show ?thesis
      using 3(1) [OF _ d] False ne by (subst inplace_merge_loop.simps) (auto simp: by_key_def [of key b a])
  next
    case True
    have d: "dlist h l (pre @ (a # as) @ [b] @ (bs @ suf))" using 3(3) by simp
    obtain h1 where h1: "list_splice h a b (node_at l (bs @ suf)) = Some h1"
        "dlist h1 l (pre @ [b] @ (a # as) @ bs @ suf)"
        "same_outside (set (nodes l (pre @ (a # as) @ (b # bs) @ suf))) h h1"
      using list_splice_rotate [OF d] by auto
    have nx: "list_next h b = Some (node_at l (bs @ suf))"
      using list_next_dlist [of h l "pre @ a # as" b "bs @ suf"] 3(3) by simp
    have pv: "list_prev h (node_at l (bs @ suf)) = Some b"
      using list_prev_node_at [of h l "pre @ (a # as) @ [b]" "bs @ suf"] 3(3) by simp
    obtain h2 where h2: "inplace_merge_loop h1 a (node_at l (bs @ suf)) (node_at l suf) (by_key key) = Some h2"
        "dlist h2 l ((pre @ [b]) @ merge_runs key (a # as) bs @ suf)"
        "same_outside (set (nodes l ((pre @ [b]) @ (a # as) @ bs @ suf))) h1 h2"
      using 3(2) [of h1 "pre @ [b]"] h1(2) True by auto
    have "same_outside (set (nodes l (pre @ (a # as) @ (b # bs) @ suf))) h h2"
      by (rule same_outside_trans [OF h1(3)]) (rule same_outside_mono [OF h2(3)], auto)
    moreover have "inplace_merge_loop h a b (node_at l suf) (by_key key) = Some h2"
      using ne True nx pv h1(1) h2(1) by (subst inplace_merge_loop.simps) (simp add: by_key_def [of key b a])
    ultimately show ?thesis using h2(2) True by simp
  qed
qed

lemma inplace_merge_dlist:
  assumes d: "dlist h l (pre @ as @ bs @ suf)" and srt: "sorted (map key as)" "sorted (map key bs)"
  shows "\<exists>h'. inplace_merge h (node_at l (as @ bs @ suf)) (node_at l (bs @ suf)) (node_at l suf) (by_key key) = Some h' \<and>
     dlist h' l (pre @ merge_runs key as bs @ suf) \<and>
     same_outside (set (nodes l (pre @ as @ bs @ suf))) h h'"
proof -
  have "is_sorted h (node_at l (as @ bs @ suf)) (node_at l (bs @ suf)) (by_key key) = Some True"
    using is_sorted_dlist [of h l pre as "bs @ suf" key] d srt by simp
  moreover have "is_sorted h (node_at l (bs @ suf)) (node_at l suf) (by_key key) = Some True"
    using is_sorted_dlist [of h l "pre @ as" bs suf key] d srt by simp
  moreover have "node_at l (as @ bs @ suf) \<noteq> NULL" "node_at l (bs @ suf) \<noteq> NULL" "node_at l suf \<noteq> NULL"
    using dlist_nonnull(2) [of h l pre "as @ bs @ suf"] dlist_nonnull(2) [of h l "pre @ as" "bs @ suf"]
      dlist_nonnull(2) [of h l "pre @ as @ bs" suf] d by simp_all
  ultimately show ?thesis
    using inplace_merge_loop_dlist [OF d] by (simp add: inplace_merge_def)
qed

section \<open>Sorting\<close>

lemma list_sort_pass_dlist:
  "dlist h l (pre @ xs) \<Longrightarrow> sort_pass key xs = (out, n) \<Longrightarrow>
   \<exists>h'. list_sort_pass h l (node_at l xs) (by_key key) c = Some (c + n, h') \<and>
     dlist h' l (pre @ out) \<and> same_outside (set (nodes l (pre @ xs))) h h'"
proof (induction key xs arbitrary: pre h c out n rule: sort_pass.induct)
  case (1 key)
  then show ?case by (subst list_sort_pass.simps) (simp add: list_end_dlist)
next
  case (2 key x xs)
  have xt: "x \<noteq> tail_of l" using node_at_eq_tail [OF 2(2)] by simp
  obtain r1 rest where r1: "take_run key x xs = (r1, rest)" by fastforce
  have s1: "r1 @ rest = x # xs" and ne1: "r1 \<noteq> []" using take_run_split [OF r1] by auto
  note fr1 = find_end_of_run_dlist [OF 2(2) r1]
  show ?case
  proof (cases rest)
    case Nil
    with 2(2,3) r1 s1 xt fr1 show ?thesis
      by (subst list_sort_pass.simps) (auto simp: list_end_dlist)
  next
    case (Cons y ys)
    have d: "dlist h l ((pre @ r1) @ y # ys)" using 2(2) s1 Cons by (metis append_assoc)
    have yt: "y \<noteq> tail_of l" using node_at_eq_tail [OF d] by simp
    obtain r2 rest2 where r2: "take_run key y ys = (r2, rest2)" by fastforce
    have s2: "r2 @ rest2 = y # ys" using take_run_split [OF r2] by auto
    have all: "x # xs = r1 @ r2 @ rest2" unfolding s1 [symmetric] Cons s2 [symmetric] ..
    obtain out' n' where rec: "sort_pass key rest2 = (out', n')" by fastforce
    have eq: "out = merge_runs key r1 r2 @ out'" "n = Suc n'" using 2(3) r1 r2 rec Cons by auto
    obtain h1 where h1: "inplace_merge h (node_at l (r1 @ r2 @ rest2)) (node_at l (r2 @ rest2)) (node_at l rest2) (by_key key) = Some h1"
        "dlist h1 l (pre @ merge_runs key r1 r2 @ rest2)"
        "same_outside (set (nodes l (pre @ r1 @ r2 @ rest2))) h h1"
      using inplace_merge_dlist [of h l pre r1 r2 rest2 key] 2(2) all
        take_run_sorted [OF r1] take_run_sorted [OF r2] by metis
    obtain h2 where h2: "list_sort_pass h1 l (node_at l rest2) (by_key key) (Suc c) = Some (Suc c + n', h2)"
        "dlist h2 l ((pre @ merge_runs key r1 r2) @ out')"
        "same_outside (set (nodes l ((pre @ merge_runs key r1 r2) @ rest2))) h1 h2"
      using 2(1) [OF r1 [symmetric] refl Cons r2 [symmetric] refl, of h1 "pre @ merge_runs key r1 r2" out' n' "Suc c"]
        h1(2) rec by auto
    have "same_outside (set (nodes l (pre @ x # xs))) h h2"
      unfolding all using h1(3) same_outside_mono [OF h2(3)]
      by (rule same_outside_trans) (auto simp: set_merge_runs)
    moreover have "list_sort_pass h l x (by_key key) c = Some (c + n, h2)"
    proof -
      have "hd r1 = x" "hd r2 = y" "r2 \<noteq> []"
        using take_run_hd [OF r1] take_run_hd [OF r2] take_run_split [OF r2] by auto
      then have "inplace_merge h x y (node_at l rest2) (by_key key) = Some h1"
        using h1(1) ne1 by simp
      then show ?thesis
        using xt yt fr1 find_end_of_run_dlist [OF d r2] Cons h2(1) eq(2) 2(2)
        by (subst list_sort_pass.simps) (simp add: list_end_dlist)
    qed
    ultimately show ?thesis using h2(2) eq(1) by auto
  qed
qed

lemma list_sort_loop_dlist:
  "dlist h l xs \<Longrightarrow>
   \<exists>h'. list_sort_loop h l (by_key key) = Some h' \<and> dlist h' l (sort_key key xs) \<and>
     same_outside (set (nodes l xs)) h h'"
proof (induction "runs key xs" arbitrary: xs h rule: less_induct)
  case less
  obtain out n where p: "sort_pass key xs = (out, n)" by fastforce
  have flt: "\<And>k. filter (\<lambda>x. key x = k) out = filter (\<lambda>x. key x = k) xs"
    using sort_pass_filter [of key _ xs] p by simp
  have st: "set out = set xs" using sort_pass_mset [of key xs] p by (metis fst_conv set_mset_mset)
  obtain h1 where h1: "list_sort_pass h l (node_at l xs) (by_key key) 0 = Some (n, h1)" "dlist h1 l out"
      "same_outside (set (nodes l xs)) h h1"
    using list_sort_pass_dlist [of h l "[]" xs key out n 0] less.prems p by auto
  show ?case
  proof (cases "1 < n")
    case True
    obtain h2 where h2: "list_sort_loop h1 l (by_key key) = Some h2" "dlist h2 l (sort_key key out)"
        "same_outside (set (nodes l out)) h1 h2"
      using less.hyps [OF sort_pass_progress [OF p True] h1(2)] by blast
    have "sort_key key out = sort_key key xs"
      by (rule sort_key_unique) (simp_all add: sort_key_stable flt)
    then show ?thesis
      using h1 h2 True less.prems same_outside_trans [OF h1(3), of h2] st
      by (subst list_sort_loop.simps) (simp add: list_begin_dlist)
  next
    case False
    have "out = sort_key key xs"
      using sort_pass_runs [OF p] False by (intro sort_key_unique flt runs_le_1_sorted) simp
    then show ?thesis
      using h1 False less.prems by (subst list_sort_loop.simps) (simp add: list_begin_dlist)
  qed
qed

lemma list_sort_dlist:
  assumes "dlist h l xs"
  shows "\<exists>h'. list_sort h l (by_key key) = Some h' \<and> dlist h' l (sort_key key xs) \<and>
    same_outside (set (nodes l xs)) h h'"
proof -
  obtain h' where h': "list_sort_loop h l (by_key key) = Some h'" "dlist h' l (sort_key key xs)"
      "same_outside (set (nodes l xs)) h h'"
    using list_sort_loop_dlist [OF assms] by blast
  moreover have "is_sorted h' (node_at l (sort_key key xs)) (tail_of l) (by_key key) = Some True"
    using is_sorted_dlist [of h' l "[]" "sort_key key xs" "[]" key] h'(2) by simp
  ultimately show ?thesis
    using dlistD(1) [OF assms] by (simp add: list_sort_def list_begin_dlist list_end_dlist)
qed

section \<open>Ordered insertion\<close>

lemma insert_ordered_loop_dlist:
  "dlist h l (pre @ xs) \<Longrightarrow>
   insert_ordered_loop h (node_at l xs) (tail_of l) e (by_key key) =
     Some (node_at l (dropWhile (\<lambda>x. \<not> key e < key x) xs))"
proof (induction xs arbitrary: pre)
  case Nil
  then show ?case by (subst insert_ordered_loop.simps) simp
next
  case (Cons x xs)
  have "x \<noteq> tail_of l" using node_at_eq_tail [OF Cons.prems] by simp
  moreover have "list_next h x = Some (node_at l xs)" by (rule list_next_dlist [OF Cons.prems])
  moreover have "dlist h l ((pre @ [x]) @ xs)" using Cons.prems by simp
  note Cons.IH [OF this]
  ultimately show ?case
    by (subst insert_ordered_loop.simps) (simp add: by_key_def [of key e x])
qed

lemma list_insert_ordered_dlist:
  assumes d: "dlist h l xs" and e: "e \<notin> set (nodes l xs)" "e \<noteq> NULL" "e \<in> dom h"
  shows "\<exists>h'. list_insert_ordered h l e (by_key key) = Some h' \<and> dlist h' l (insert_ordered key e xs) \<and>
    same_outside (insert e (set (nodes l xs))) h h'"
proof -
  let ?P = "\<lambda>x. \<not> key e < key x"
  have split: "takeWhile ?P xs @ dropWhile ?P xs = xs" by simp
  have "insert_ordered_loop h (node_at l xs) (tail_of l) e (by_key key) = Some (node_at l (dropWhile ?P xs))"
    using insert_ordered_loop_dlist [of h l "[]" xs e key] d by simp
  then show ?thesis
    using list_insert_dlist [of h l "takeWhile ?P xs" "dropWhile ?P xs" e] d e dlistD(1) [OF d]
    unfolding split by (simp add: list_insert_ordered_def list_begin_dlist list_end_dlist insert_ordered_def)
qed

section \<open>Extrema\<close>

interpretation key_order: strict_weak_order "by_key key" for key :: "ptr \<Rightarrow> 'k::linorder"
  by unfold_locales (auto simp: by_key_def)

interpretation key_order_converse: strict_weak_order "\<lambda>a b. by_key key b a" for key :: "ptr \<Rightarrow> 'k::linorder"
  by unfold_locales (auto simp: by_key_def)

lemma list_max_loop_dlist:
  "dlist h l (pre @ xs) \<Longrightarrow>
   list_max_loop h m (node_at l xs) (tail_of l) lt = Some (first_best lt m xs)"
proof (induction xs arbitrary: pre m)
  case Nil
  then show ?case by (subst list_max_loop.simps) simp
next
  case (Cons x xs)
  have "x \<noteq> tail_of l" using node_at_eq_tail [OF Cons.prems] by simp
  moreover have "list_next h x = Some (node_at l xs)" by (rule list_next_dlist [OF Cons.prems])
  moreover have "dlist h l ((pre @ [x]) @ xs)" using Cons.prems by simp
  note Cons.IH [OF this]
  ultimately show ?case by (subst list_max_loop.simps) simp
qed

lemma list_min_loop_dlist:
  "dlist h l (pre @ xs) \<Longrightarrow>
   list_min_loop h m (node_at l xs) (tail_of l) lt = Some (first_best (\<lambda>a b. lt b a) m xs)"
proof (induction xs arbitrary: pre m)
  case Nil
  then show ?case by (subst list_min_loop.simps) simp
next
  case (Cons x xs)
  have "x \<noteq> tail_of l" using node_at_eq_tail [OF Cons.prems] by simp
  moreover have "list_next h x = Some (node_at l xs)" by (rule list_next_dlist [OF Cons.prems])
  moreover have "dlist h l ((pre @ [x]) @ xs)" using Cons.prems by simp
  note Cons.IH [OF this]
  ultimately show ?case by (subst list_min_loop.simps) simp
qed

lemma list_max_dlist: "dlist h l (x # xs) \<Longrightarrow> list_max h l lt = Some (first_best lt x xs)"
  using list_max_loop_dlist [of h l "[x]" xs x lt] list_next_dlist [of h l "[]" x xs]
    node_at_eq_tail [of h l "[]" "x # xs"]
  by (simp add: list_max_def list_begin_dlist list_end_dlist)

lemma list_min_dlist:
  "dlist h l (x # xs) \<Longrightarrow> list_min h l lt = Some (first_best (\<lambda>a b. lt b a) x xs)"
  using list_min_loop_dlist [of h l "[x]" xs x lt] list_next_dlist [of h l "[]" x xs]
    node_at_eq_tail [of h l "[]" "x # xs"]
  by (simp add: list_min_def list_begin_dlist list_end_dlist)

lemma list_max_min_empty:
  "dlist h l [] \<Longrightarrow> list_max h l lt = Some (tail_of l) \<and> list_min h l lt = Some (tail_of l)"
  by (simp add: list_max_def list_min_def list_begin_dlist list_end_dlist)

section \<open>Removing adjacent duplicates\<close>

lemma list_unique_loop_dlist:
  "dlist h l (pre @ x # xs) \<Longrightarrow> dlist h m ds \<Longrightarrow> set (nodes l (pre @ x # xs)) \<inter> set (nodes m ds) = {} \<Longrightarrow>
   unique_split key x xs = (kept, dups) \<Longrightarrow>
   \<exists>h'. list_unique_loop h l m x (by_key key) = Some h' \<and> dlist h' l (pre @ kept) \<and> dlist h' m (ds @ dups) \<and>
     same_outside (set (nodes l (pre @ x # xs)) \<union> set (nodes m ds)) h h'"
proof (induction key x xs arbitrary: pre h ds kept dups rule: unique_split.induct)
  case (1 key x)
  have "list_next h x = Some (tail_of l)" using list_next_dlist [OF 1(1)] by simp
  with 1 show ?case by (subst list_unique_loop.simps) (simp add: list_end_dlist)
next
  case (2 key x y ys)
  have nx: "list_next h x = Some y" using list_next_dlist [OF 2(3)] by simp
  have d: "dlist h l ((pre @ [x]) @ y # ys)" using 2(3) by simp
  have yt: "y \<noteq> tail_of l" using node_at_eq_tail [OF d] by simp
  show ?case
  proof (cases "key x = key y")
    case False
    obtain kept' where k: "unique_split key y ys = (kept', dups)" "kept = x # kept'"
      using 2(6) False by (auto split: prod.splits)
    have "\<exists>h'. list_unique_loop h l m y (by_key key) = Some h' \<and> dlist h' l ((pre @ [x]) @ kept') \<and>
        dlist h' m (ds @ dups) \<and> same_outside (set (nodes l ((pre @ [x]) @ y # ys)) \<union> set (nodes m ds)) h h'"
      using 2(2) [OF False d 2(4) _ k(1)] 2(5) by simp
    then show ?thesis
      using nx yt False k(2) list_end_dlist [OF d]
      by (subst list_unique_loop.simps) (auto simp: by_key_def [of key x y] by_key_def [of key y x])
  next
    case True
    obtain dups' where k: "unique_split key x ys = (kept, dups')" "dups = y # dups'"
      using 2(6) True by (auto split: prod.splits)
    obtain h1 where h1: "list_remove h y = Some (node_at l ys, h1)" "dlist h1 l ((pre @ [x]) @ ys)"
        "same_outside (set (nodes l ((pre @ [x]) @ ys))) h h1"
      using list_remove_dlist [OF d] by blast
    have m1: "dlist h1 m ds"
      by (rule dlist_same_outside [OF 2(4) h1(3)]) (use 2(5) in auto)
    have y: "y \<notin> set (nodes m ds)" "y \<noteq> NULL" "y \<in> dom h1" "y \<notin> set (nodes l ((pre @ [x]) @ ys))"
      using 2(5) dlist_elem(3) [OF d] dlist_dom [OF d] same_outside_dom [OF h1(3)] dlistD(3) [OF d] by auto
    obtain h2 where h2: "list_push_back h1 m y = Some h2" "dlist h2 m (ds @ [y])"
        "same_outside (insert y (set (nodes m ds))) h1 h2"
      using list_push_back_dlist [OF m1 y(1-3)] by blast
    have l2: "dlist h2 l (pre @ x # ys)"
      by (rule dlist_same_outside [OF _ h2(3)]) (use h1(2) y(4) 2(5) in auto)
    obtain h3 where h3: "list_unique_loop h2 l m x (by_key key) = Some h3" "dlist h3 l (pre @ kept)"
        "dlist h3 m ((ds @ [y]) @ dups')"
        "same_outside (set (nodes l (pre @ x # ys)) \<union> set (nodes m (ds @ [y]))) h2 h3"
      using 2(1) [OF True l2 h2(2) _ k(1)] 2(5) y by auto
    have "same_outside (set (nodes l (pre @ x # y # ys)) \<union> set (nodes m ds)) h h3"
      by (rule same_outside_trans [OF same_outside_mono [OF h1(3)]
            same_outside_trans [OF same_outside_mono [OF h2(3)] same_outside_mono [OF h3(4)]]])
        (simp_all add: subset_iff)
    moreover have "m \<noteq> NULL" by (rule dlistD(1) [OF 2(4)])
    ultimately show ?thesis
      using nx yt True h1(1) h2(1) h3 k(2) list_end_dlist [OF d]
      by (subst list_unique_loop.simps) (auto simp: by_key_def [of key x y] by_key_def [of key y x])
  qed
qed

lemma list_unique_dlist:
  assumes "dlist h l (x # xs)" "dlist h m ds" "set (nodes l (x # xs)) \<inter> set (nodes m ds) = {}"
    and "unique_split key x xs = (kept, dups)"
  shows "\<exists>h'. list_unique h l m (by_key key) = Some h' \<and> dlist h' l kept \<and> dlist h' m (ds @ dups) \<and>
     same_outside (set (nodes l (x # xs)) \<union> set (nodes m ds)) h h'"
  using list_unique_loop_dlist [of h l "[]" x xs m ds key kept dups] assms
  by (simp add: list_unique_def list_empty_dlist list_begin_dlist dlistD(1))

end
