(* ===== verification/Kernel_Queue.thy ===== *)
theory Kernel_Queue
  imports Kernel_List_Sort
begin

text \<open>
  The contract the rest of the kernel relies on when it keeps threads, frames or donations in a
  list: what the list holds after each call.  The locale states it over any state that can hold
  lists; its lemmas are the queue disciplines the clients use (first in first out, and highest
  priority first with ties in arrival order).  It is interpreted on the pointer operations of
  \<open>list.c\<close>.
\<close>

section \<open>The interface\<close>

locale kernel_queue =
  fixes holds :: "'s \<Rightarrow> 'l \<Rightarrow> 'e list \<Rightarrow> bool"
    and fresh :: "'s \<Rightarrow> 'l \<Rightarrow> 'e list \<Rightarrow> 'e \<Rightarrow> bool"
    and push_back :: "'s \<Rightarrow> 'l \<Rightarrow> 'e \<Rightarrow> 's option"
    and insert_by :: "('e \<Rightarrow> 'k::linorder) \<Rightarrow> 's \<Rightarrow> 'l \<Rightarrow> 'e \<Rightarrow> 's option"
    and pop_front :: "'s \<Rightarrow> 'l \<Rightarrow> ('e \<times> 's) option"
  assumes push_back: "holds s l xs \<Longrightarrow> fresh s l xs e \<Longrightarrow> \<exists>s'. push_back s l e = Some s' \<and> holds s' l (xs @ [e]) \<and>
      (\<forall>y. y \<noteq> e \<longrightarrow> fresh s l xs y \<longrightarrow> fresh s' l (xs @ [e]) y)"
    and insert_by: "holds s l xs \<Longrightarrow> fresh s l xs e \<Longrightarrow>
      \<exists>s'. insert_by key s l e = Some s' \<and> holds s' l (insert_ordered key e xs) \<and>
      (\<forall>y. y \<noteq> e \<longrightarrow> fresh s l xs y \<longrightarrow> fresh s' l (insert_ordered key e xs) y)"
    and pop_front: "holds s l (x # xs) \<Longrightarrow> \<exists>s'. pop_front s l = Some (x, s') \<and> holds s' l xs"
begin

fun push_all :: "'s \<Rightarrow> 'l \<Rightarrow> 'e list \<Rightarrow> 's option" where
  "push_all s l [] = Some s"
| "push_all s l (e # es) = Option.bind (push_back s l e) (\<lambda>s. push_all s l es)"

fun insert_all :: "('e \<Rightarrow> 'k) \<Rightarrow> 's \<Rightarrow> 'l \<Rightarrow> 'e list \<Rightarrow> 's option" where
  "insert_all key s l [] = Some s"
| "insert_all key s l (e # es) = Option.bind (insert_by key s l e) (\<lambda>s. insert_all key s l es)"

fun pop_all :: "'s \<Rightarrow> 'l \<Rightarrow> nat \<Rightarrow> 'e list option" where
  "pop_all s l 0 = Some []"
| "pop_all s l (Suc n) = Option.bind (pop_front s l) (\<lambda>(x, s). map_option ((#) x) (pop_all s l n))"

lemma push_all_holds:
  "holds s l xs \<Longrightarrow> distinct es \<Longrightarrow> (\<And>e. e \<in> set es \<Longrightarrow> fresh s l xs e) \<Longrightarrow>
   \<exists>s'. push_all s l es = Some s' \<and> holds s' l (xs @ es)"
proof (induction es arbitrary: s xs)
  case (Cons e es)
  then obtain s1 where s1: "push_back s l e = Some s1" "holds s1 l (xs @ [e])"
      "\<forall>y. y \<noteq> e \<longrightarrow> fresh s l xs y \<longrightarrow> fresh s1 l (xs @ [e]) y"
    using push_back [of s l xs e] by auto
  then show ?case using Cons.IH [OF s1(2)] Cons.prems by fastforce
qed simp

lemma insert_all_holds:
  "holds s l xs \<Longrightarrow> distinct es \<Longrightarrow> sorted (map key xs) \<Longrightarrow> (\<And>e. e \<in> set es \<Longrightarrow> fresh s l xs e) \<Longrightarrow>
   \<exists>s'. insert_all key s l es = Some s' \<and> holds s' l (sort_key key (xs @ es))"
proof (induction es arbitrary: s xs)
  case Nil
  then show ?case by (simp add: sorted_sort_id sort_key_id_if_sorted)
next
  case (Cons e es)
  let ?ys = "insert_ordered key e xs"
  obtain s1 where s1: "insert_by key s l e = Some s1" "holds s1 l ?ys"
      "\<forall>y. y \<noteq> e \<longrightarrow> fresh s l xs y \<longrightarrow> fresh s1 l ?ys y"
    using insert_by [of s l xs e key] Cons.prems by auto
  moreover have "\<And>y. y \<in> set es \<Longrightarrow> fresh s1 l ?ys y"
    using Cons.prems(2,4) s1(3) by (metis distinct.simps(2) list.set_intros(2))
  then obtain s2 where "insert_all key s1 l es = Some s2" "holds s2 l (sort_key key (?ys @ es))"
    using Cons.IH [OF s1(2)] Cons.prems sorted_insert_ordered by (metis distinct.simps(2))
  moreover have "sort_key key (?ys @ es) = sort_key key (xs @ e # es)"
  proof (rule sort_key_unique)
    fix k show "filter (\<lambda>x. key x = k) (sort_key key (?ys @ es)) = filter (\<lambda>x. key x = k) (xs @ e # es)"
      using insert_ordered_filter [OF Cons.prems(3), of k e] by (simp add: sort_key_stable)
  qed simp
  ultimately show ?case by auto
qed

lemma pop_all_holds: "holds s l xs \<Longrightarrow> pop_all s l (length xs) = Some xs"
proof (induction xs arbitrary: s)
  case (Cons x xs)
  then obtain s' where "pop_front s l = Some (x, s')" "holds s' l xs" using pop_front by blast
  with Cons.IH show ?case by simp
qed simp

text \<open>First in, first out; and highest priority first, ties in arrival order.\<close>

lemma fifo:
  assumes "holds s l []" "distinct es" "\<And>e. e \<in> set es \<Longrightarrow> fresh s l [] e"
  shows "\<exists>s'. push_all s l es = Some s' \<and> pop_all s' l (length es) = Some es"
  using push_all_holds [OF assms] pop_all_holds by fastforce

lemma priority_order:
  assumes "holds s l []" "distinct es" "\<And>e. e \<in> set es \<Longrightarrow> fresh s l [] e"
  shows "\<exists>s'. insert_all key s l es = Some s' \<and> pop_all s' l (length es) = Some (sort_key key es)"
proof -
  obtain s' where "insert_all key s l es = Some s'" "holds s' l (sort_key key es)"
    using insert_all_holds [of s l "[]" es key] assms by auto
  then show ?thesis using pop_all_holds [of s' l "sort_key key es"] by simp
qed

end

section \<open>The kernel's lists provide it\<close>

definition fresh_elem :: "heap \<Rightarrow> ptr \<Rightarrow> ptr list \<Rightarrow> ptr \<Rightarrow> bool" where
  "fresh_elem h l xs e \<longleftrightarrow> e \<noteq> NULL \<and> e \<in> dom h \<and> e \<notin> set (nodes l xs)"

definition insert_by_key :: "(ptr \<Rightarrow> 'k::linorder) \<Rightarrow> heap \<Rightarrow> ptr \<Rightarrow> ptr \<Rightarrow> heap option" where
  "insert_by_key key h l e = list_insert_ordered h l e (by_key key)"

interpretation lq: kernel_queue dlist fresh_elem list_push_back insert_by_key list_pop_front
proof unfold_locales
  fix h l xs e
  assume "dlist h l xs" "fresh_elem h l xs e"
  then show "\<exists>h'. list_push_back h l e = Some h' \<and> dlist h' l (xs @ [e]) \<and>
      (\<forall>y. y \<noteq> e \<longrightarrow> fresh_elem h l xs y \<longrightarrow> fresh_elem h' l (xs @ [e]) y)"
    using list_push_back_dlist [of h l xs e] by (auto simp: fresh_elem_def dest: same_outside_dom)
next
  fix h l xs e and key :: "ptr \<Rightarrow> 'k::linorder"
  assume "dlist h l xs" "fresh_elem h l xs e"
  then show "\<exists>h'. insert_by_key key h l e = Some h' \<and> dlist h' l (insert_ordered key e xs) \<and>
      (\<forall>y. y \<noteq> e \<longrightarrow> fresh_elem h l xs y \<longrightarrow> fresh_elem h' l (insert_ordered key e xs) y)"
    using list_insert_ordered_dlist [of h l xs e key]
    by (auto simp: fresh_elem_def insert_by_key_def dest: same_outside_dom)
next
  fix h l x xs
  assume "dlist h l (x # xs)"
  then show "\<exists>h'. list_pop_front h l = Some (x, h') \<and> dlist h' l xs"
    using list_pop_front_dlist by blast
qed

end
