(* ===== verification/Properties_List.thy ===== *)
theory Properties_List
  imports Kernel_Queue
begin

text \<open>
  The main properties of the kernel lists, each with an instance on a concrete heap.
\<close>

text \<open>A heap that holds one list at address 1000 with the elements 5, 7 and 6, and a free element 9.\<close>

definition demo_heap :: heap where
  "demo_heap =
     [1000 \<mapsto> \<lparr>le_prev = 0, le_next = 5\<rparr>, 5 \<mapsto> \<lparr>le_prev = 1000, le_next = 7\<rparr>,
      7 \<mapsto> \<lparr>le_prev = 5, le_next = 6\<rparr>, 6 \<mapsto> \<lparr>le_prev = 7, le_next = 1016\<rparr>,
      1016 \<mapsto> \<lparr>le_prev = 6, le_next = 0\<rparr>, 9 \<mapsto> \<lparr>le_prev = 0, le_next = 0\<rparr>,
      2000 \<mapsto> \<lparr>le_prev = 0, le_next = 2016\<rparr>, 2016 \<mapsto> \<lparr>le_prev = 2000, le_next = 0\<rparr>]"

lemma demo_heap_list: "dlist demo_heap 1000 [5, 7, 6]"
  by (simp add: dlist_def demo_heap_def get_next_def get_prev_def tail_of_def sizeof_list_elem_def)

lemma demo_heap_empty: "dlist demo_heap 2000 []"
  by (simp add: dlist_def demo_heap_def get_next_def get_prev_def tail_of_def sizeof_list_elem_def)

lemma demo_heap_fresh: "fresh_elem demo_heap 2000 [] 9" "fresh_elem demo_heap 2000 [] 6"
  by (simp_all add: fresh_elem_def demo_heap_def tail_of_def sizeof_list_elem_def)

text \<open>C2: \<open>list_sort\<close>, the natural merge sort over the links, terminates without stopping the kernel on
  every well-formed list; the list then holds the same elements in the stable ascending order of the
  comparison key, and no address outside the list is written.\<close>

theorem list_sort_correct:
  assumes "dlist h l xs"
  shows "\<exists>h'. list_sort h l (by_key key) = Some h' \<and> dlist h' l (sort_key key xs) \<and>
    same_outside (set (nodes l xs)) h h'"
  using assms by (rule list_sort_dlist)

theorem list_sort_correct_witness:
  "\<exists>h'. list_sort demo_heap 1000 (by_key (\<lambda>p. 10 - p)) = Some h' \<and> dlist h' 1000 [7, 6, 5] \<and>
    same_outside {1000, 5, 7, 6, 1016} demo_heap h'"
  using list_sort_correct [OF demo_heap_list, of "\<lambda>p. 10 - p"]
  by (simp add: tail_of_def sizeof_list_elem_def insert_commute)

text \<open>Elements put into an empty list with \<open>list_insert_ordered\<close> come out of \<open>list_pop_front\<close> in the
  stable order of their keys: smallest key first, equal keys in order of arrival.  With the key
  "negated priority" this is the discipline of the ready list and of the semaphore queues.\<close>

theorem list_insert_ordered_priority_queue:
  assumes "dlist h l []" "distinct es" "\<And>e. e \<in> set es \<Longrightarrow> fresh_elem h l [] e"
  shows "\<exists>h'. lq.insert_all key h l es = Some h' \<and> lq.pop_all h' l (length es) = Some (sort_key key es)"
  using assms by (rule lq.priority_order)

theorem list_insert_ordered_priority_queue_witness:
  "\<exists>h'. lq.insert_all (\<lambda>p. p) demo_heap 2000 [9, 6] = Some h' \<and> lq.pop_all h' 2000 2 = Some [6, 9]"
proof -
  have "fresh_elem demo_heap 2000 [] e" if "e \<in> set [9, 6]" for e
    using that demo_heap_fresh by auto
  from list_insert_ordered_priority_queue [where es = "[9, 6]" and key = "\<lambda>p. p", OF demo_heap_empty _ this]
  show ?thesis by (simp add: numeral_2_eq_2)
qed

text \<open>\<open>list_reverse\<close> reverses a list in place, writes no other address and never stops the kernel.\<close>

theorem list_reverse_correct:
  assumes "dlist h l xs"
  shows "\<exists>h'. list_reverse h l = Some h' \<and> dlist h' l (rev xs) \<and> same_outside (set (nodes l xs)) h h'"
  using assms by (rule list_reverse_dlist)

theorem list_reverse_correct_witness:
  "\<exists>h'. list_reverse demo_heap 1000 = Some h' \<and> dlist h' 1000 [6, 7, 5] \<and>
    same_outside {1000, 5, 7, 6, 1016} demo_heap h'"
  using list_reverse_correct [OF demo_heap_list]
  by (simp add: tail_of_def sizeof_list_elem_def insert_commute)

text \<open>\<open>list_splice\<close> moves the run from \<open>first\<close> up to but excluding \<open>last\<close> in front of \<open>before\<close>: of
  adjacent runs \<open>as\<close> and \<open>ss\<close> it makes \<open>ss\<close> come first, keeping the order inside each.\<close>

theorem list_splice_correct:
  assumes "dlist h l (pre @ as @ ss @ suf)" "as \<noteq> []" "ss \<noteq> []"
  shows "\<exists>h'. list_splice h (hd as) (hd ss) (node_at l suf) = Some h' \<and>
    dlist h' l (pre @ ss @ as @ suf) \<and> same_outside (set (nodes l (pre @ as @ ss @ suf))) h h'"
  using assms by (rule list_splice_rotate)

theorem list_splice_correct_witness:
  "\<exists>h'. list_splice demo_heap 5 7 1016 = Some h' \<and> dlist h' 1000 [7, 6, 5]"
  using list_splice_correct [of demo_heap 1000 "[]" "[5]" "[7, 6]" "[]"] demo_heap_list
  by (auto simp: tail_of_def sizeof_list_elem_def)

end
