(* ===== verification/Bitmap.thy ===== *)
theory Bitmap
  imports Prelude
begin

text \<open>
  The bitmaps of \<open>lib/kernel/bitmap.c\<close>: an array of 64-bit elements that represents \<open>bit_cnt\<close> bits.
  Sizes and indices are \<open>size_t\<close>: natural numbers, with the wrap-around at \<open>2 ^ 64\<close> written out
  where the code adds.  An access outside the element array stops the kernel.
\<close>

section \<open>Sizes and masks\<close>

type_synonym elem_type = "64 word"

definition ELEM_BITS :: nat where
  "ELEM_BITS = 64"

definition size_t :: "nat \<Rightarrow> nat" where
  "size_t n = n mod 2 ^ 64"

text \<open>The error value is \<open>SIZE_MAX\<close>, which the kernel's \<open>stdint.h\<close> takes to be the largest 32-bit number.\<close>

definition BITMAP_ERROR :: nat where
  "BITMAP_ERROR = 2 ^ 32 - 1"

record bitmap =
  bit_cnt :: nat
  bits :: "elem_type list"

definition elem_idx :: "nat \<Rightarrow> nat" where
  "elem_idx bit_idx = bit_idx div ELEM_BITS"

definition bit_mask :: "nat \<Rightarrow> elem_type" where
  "bit_mask bit_idx = push_bit (bit_idx mod ELEM_BITS) 1"

definition elem_cnt :: "nat \<Rightarrow> nat" where
  "elem_cnt n = size_t (n + ELEM_BITS - 1) div ELEM_BITS"

definition byte_cnt :: "nat \<Rightarrow> nat" where
  "byte_cnt n = 8 * elem_cnt n"

definition last_mask :: "bitmap \<Rightarrow> elem_type" where
  "last_mask b =
     (let last_bits = bit_cnt b mod ELEM_BITS
      in if last_bits \<noteq> 0 then push_bit last_bits 1 - 1 else - 1)"

definition bitmap_buf_size :: "nat \<Rightarrow> nat" where
  "bitmap_buf_size n = 16 + byte_cnt n"

definition bitmap_size :: "bitmap \<Rightarrow> nat" where
  "bitmap_size b = bit_cnt b"

section \<open>Single bits\<close>

definition upd_elem :: "bitmap \<Rightarrow> nat \<Rightarrow> (elem_type \<Rightarrow> elem_type) \<Rightarrow> bitmap option" where
  "upd_elem b idx f =
     (if idx < length (bits b) then Some (b\<lparr>bits := (bits b)[idx := f (bits b ! idx)]\<rparr>) else None)"

definition bitmap_mark :: "bitmap \<Rightarrow> nat \<Rightarrow> bitmap option" where
  "bitmap_mark b bit_idx = upd_elem b (elem_idx bit_idx) (\<lambda>w. w OR bit_mask bit_idx)"

definition bitmap_reset :: "bitmap \<Rightarrow> nat \<Rightarrow> bitmap option" where
  "bitmap_reset b bit_idx = upd_elem b (elem_idx bit_idx) (\<lambda>w. w AND NOT (bit_mask bit_idx))"

definition bitmap_flip :: "bitmap \<Rightarrow> nat \<Rightarrow> bitmap option" where
  "bitmap_flip b bit_idx = upd_elem b (elem_idx bit_idx) (\<lambda>w. w XOR bit_mask bit_idx)"

definition bitmap_set :: "bitmap \<Rightarrow> nat \<Rightarrow> bool \<Rightarrow> bitmap option" where
  "bitmap_set b idx value = do {
     ASSERT (idx < bit_cnt b);
     if value then bitmap_mark b idx else bitmap_reset b idx }"

definition bitmap_test :: "bitmap \<Rightarrow> nat \<Rightarrow> bool option" where
  "bitmap_test b idx = do {
     ASSERT (idx < bit_cnt b);
     ASSERT (elem_idx idx < length (bits b));
     Some (bits b ! elem_idx idx AND bit_mask idx \<noteq> 0) }"

section \<open>Ranges of bits\<close>

text \<open>The loops run \<open>i\<close> from 0 to \<open>cnt\<close>; here \<open>k\<close> is the number of iterations left.\<close>

fun set_multiple_loop :: "bitmap \<Rightarrow> nat \<Rightarrow> nat \<Rightarrow> nat \<Rightarrow> bool \<Rightarrow> bitmap option" where
  "set_multiple_loop b start i 0 value = Some b"
| "set_multiple_loop b start i (Suc k) value = do {
     b \<leftarrow> bitmap_set b (size_t (start + i)) value;
     set_multiple_loop b start (Suc i) k value }"

definition bitmap_set_multiple :: "bitmap \<Rightarrow> nat \<Rightarrow> nat \<Rightarrow> bool \<Rightarrow> bitmap option" where
  "bitmap_set_multiple b start cnt value = do {
     ASSERT (start \<le> bit_cnt b);
     ASSERT (size_t (start + cnt) \<le> bit_cnt b);
     set_multiple_loop b start 0 cnt value }"

definition bitmap_set_all :: "bitmap \<Rightarrow> bool \<Rightarrow> bitmap option" where
  "bitmap_set_all b value = bitmap_set_multiple b 0 (bitmap_size b) value"

fun count_loop :: "bitmap \<Rightarrow> nat \<Rightarrow> nat \<Rightarrow> nat \<Rightarrow> bool \<Rightarrow> nat \<Rightarrow> nat option" where
  "count_loop b start i 0 value value_cnt = Some value_cnt"
| "count_loop b start i (Suc k) value value_cnt = do {
     t \<leftarrow> bitmap_test b (size_t (start + i));
     count_loop b start (Suc i) k value (if t = value then Suc value_cnt else value_cnt) }"

definition bitmap_count :: "bitmap \<Rightarrow> nat \<Rightarrow> nat \<Rightarrow> bool \<Rightarrow> nat option" where
  "bitmap_count b start cnt value = do {
     ASSERT (start \<le> bit_cnt b);
     ASSERT (size_t (start + cnt) \<le> bit_cnt b);
     count_loop b start 0 cnt value 0 }"

fun contains_loop :: "bitmap \<Rightarrow> nat \<Rightarrow> nat \<Rightarrow> nat \<Rightarrow> bool \<Rightarrow> bool option" where
  "contains_loop b start i 0 value = Some False"
| "contains_loop b start i (Suc k) value = do {
     t \<leftarrow> bitmap_test b (size_t (start + i));
     if t = value then Some True else contains_loop b start (Suc i) k value }"

definition bitmap_contains :: "bitmap \<Rightarrow> nat \<Rightarrow> nat \<Rightarrow> bool \<Rightarrow> bool option" where
  "bitmap_contains b start cnt value = do {
     ASSERT (start \<le> bit_cnt b);
     ASSERT (size_t (start + cnt) \<le> bit_cnt b);
     contains_loop b start 0 cnt value }"

definition bitmap_any :: "bitmap \<Rightarrow> nat \<Rightarrow> nat \<Rightarrow> bool option" where
  "bitmap_any b start cnt = bitmap_contains b start cnt True"

definition bitmap_none :: "bitmap \<Rightarrow> nat \<Rightarrow> nat \<Rightarrow> bool option" where
  "bitmap_none b start cnt = map_option Not (bitmap_contains b start cnt True)"

definition bitmap_all :: "bitmap \<Rightarrow> nat \<Rightarrow> nat \<Rightarrow> bool option" where
  "bitmap_all b start cnt = map_option Not (bitmap_contains b start cnt False)"

section \<open>Searching\<close>

text \<open>\<open>for (i = start; i <= last; i++)\<close>; \<open>k\<close> is the number of candidates left.\<close>

fun scan_loop :: "bitmap \<Rightarrow> nat \<Rightarrow> nat \<Rightarrow> nat \<Rightarrow> bool \<Rightarrow> nat option" where
  "scan_loop b i 0 cnt value = Some BITMAP_ERROR"
| "scan_loop b i (Suc k) cnt value = do {
     c \<leftarrow> bitmap_contains b i cnt (\<not> value);
     if \<not> c then Some i else scan_loop b (Suc i) k cnt value }"

definition bitmap_scan :: "bitmap \<Rightarrow> nat \<Rightarrow> nat \<Rightarrow> bool \<Rightarrow> nat option" where
  "bitmap_scan b start cnt value = do {
     ASSERT (start \<le> bit_cnt b);
     if cnt \<le> bit_cnt b
     then (let last = bit_cnt b - cnt in scan_loop b start (Suc last - start) cnt value)
     else Some BITMAP_ERROR }"

definition bitmap_scan_and_flip :: "bitmap \<Rightarrow> nat \<Rightarrow> nat \<Rightarrow> bool \<Rightarrow> (nat \<times> bitmap) option" where
  "bitmap_scan_and_flip b start cnt value = do {
     idx \<leftarrow> bitmap_scan b start cnt value;
     if idx \<noteq> BITMAP_ERROR
     then do { b \<leftarrow> bitmap_set_multiple b idx cnt (\<not> value); Some (idx, b) }
     else Some (idx, b) }"

section \<open>Creation\<close>

text \<open>The two \<open>malloc\<close> calls of \<open>bitmap_create\<close> are parameters: whether the structure was
  allocated, and the contents of the element array (\<open>None\<close> when that allocation fails).  The
  result is \<open>None\<close> inside \<open>Some\<close> for the null pointer the function returns.\<close>

definition bitmap_create :: "bool \<Rightarrow> elem_type list option \<Rightarrow> nat \<Rightarrow> bitmap option option" where
  "bitmap_create malloc_b malloc_bits n =
     (if malloc_b then
        if malloc_bits \<noteq> None \<or> n = 0
        then map_option Some
          (bitmap_set_all \<lparr>bit_cnt = n, bits = (case malloc_bits of None \<Rightarrow> [] | Some ws \<Rightarrow> ws)\<rparr> False)
        else Some None
      else Some None)"

definition bitmap_create_in_buf :: "nat \<Rightarrow> elem_type list \<Rightarrow> nat \<Rightarrow> bitmap option" where
  "bitmap_create_in_buf n block block_size = do {
     ASSERT (block_size \<ge> bitmap_buf_size n);
     bitmap_set_all \<lparr>bit_cnt = n, bits = block\<rparr> False }"

section \<open>Storage in a file\<close>

definition word_bytes :: "elem_type \<Rightarrow> 8 word list" where
  "word_bytes w = map (\<lambda>i. ucast (drop_bit (8 * i) w)) [0..<8]"

definition bytes_word :: "8 word list \<Rightarrow> elem_type" where
  "bytes_word bs = foldr (\<lambda>b w. ucast b OR push_bit 8 w) bs 0"

fun bytes_words :: "nat \<Rightarrow> 8 word list \<Rightarrow> elem_type list" where
  "bytes_words 0 bs = []"
| "bytes_words (Suc n) bs = bytes_word (take 8 bs) # bytes_words n (drop 8 bs)"

definition bitmap_file_size :: "bitmap \<Rightarrow> nat" where
  "bitmap_file_size b = byte_cnt (bit_cnt b)"

text \<open>\<open>file_read_at\<close> is a parameter: given size and offset, the bytes it delivers, at most \<open>size\<close>
  of them.  A short read overwrites only the front of the element array.\<close>

definition bitmap_read :: "(nat \<Rightarrow> nat \<Rightarrow> 8 word list) \<Rightarrow> bitmap \<Rightarrow> (bool \<times> bitmap) option" where
  "bitmap_read file_read_at b =
     (if bit_cnt b > 0 then do {
        let size = byte_cnt (bit_cnt b);
        let data = file_read_at size 0;
        let old = concat (map word_bytes (bits b));
        let b = b\<lparr>bits := bytes_words (elem_cnt (bit_cnt b)) (data @ drop (length data) old)\<rparr>;
        b \<leftarrow> upd_elem b (elem_cnt (bit_cnt b) - 1) (\<lambda>w. w AND last_mask b);
        Some (length data = size, b) }
      else Some (True, b))"

definition bitmap_write :: "(8 word list \<Rightarrow> nat \<Rightarrow> nat) \<Rightarrow> bitmap \<Rightarrow> bool" where
  "bitmap_write file_write_at b =
     (let size = byte_cnt (bit_cnt b)
      in file_write_at (take size (concat (map word_bytes (bits b)))) 0 = size)"

end
