(* ===== verification/Bitmap_Correct.thy ===== *)
theory Bitmap_Correct
  imports Bitmap
begin

text \<open>
  The bitmap refines an array of booleans: \<open>bitmap_abs\<close> reads it off the elements, and every
  operation is shown to act on it as its comment says.  The allocation discipline that the page
  allocator and the swap table build on bitmaps is stated as a locale and interpreted here.
\<close>

section \<open>The abstraction\<close>

text \<open>Every bit has an element, and no index can be mistaken for the error value.\<close>

definition bitmap_inv :: "bitmap \<Rightarrow> bool" where
  "bitmap_inv b \<longleftrightarrow> length (bits b) = elem_cnt (bit_cnt b) \<and> bit_cnt b + 1 < 2 ^ 32"

definition bit_at :: "bitmap \<Rightarrow> nat \<Rightarrow> bool" where
  "bit_at b i = bit (bits b ! (i div 64)) (i mod 64)"

definition bitmap_abs :: "bitmap \<Rightarrow> bool list" where
  "bitmap_abs b = map (bit_at b) [0..<bit_cnt b]"

lemma length_bitmap_abs [simp]: "length (bitmap_abs b) = bit_cnt b"
  by (simp add: bitmap_abs_def)

lemma nth_bitmap_abs: "i < bit_cnt b \<Longrightarrow> bitmap_abs b ! i = bit_at b i"
  by (simp add: bitmap_abs_def)

lemma size_t_small [simp]: "n < 2 ^ 64 \<Longrightarrow> size_t n = n"
  by (simp add: size_t_def)

lemma elem_cnt_eq: "n + 63 < 2 ^ 64 \<Longrightarrow> elem_cnt n = (n + 63) div 64"
  by (simp add: elem_cnt_def ELEM_BITS_def)

lemma bitmap_inv_elem:
  assumes "bitmap_inv b" "i < bit_cnt b"
  shows "elem_idx i < length (bits b)" "size_t i = i"
proof -
  have "i div 64 < (bit_cnt b + 63) div 64" using assms(2) by linarith
  then show "elem_idx i < length (bits b)"
    using assms by (simp add: bitmap_inv_def elem_idx_def ELEM_BITS_def elem_cnt_eq)
  show "size_t i = i" using assms by (simp add: bitmap_inv_def)
qed

lemma bit_mask_bit: "bit (bit_mask i) j \<longleftrightarrow> j = i mod 64" if "j < 64" for j
  using that by (simp add: bit_mask_def ELEM_BITS_def bit_exp_iff push_bit_of_1 possible_bit_word)

text \<open>Two bit indices that share an element and a position are equal.\<close>

lemma same_bit: "i div 64 = j div 64 \<Longrightarrow> i mod 64 = j mod 64 \<Longrightarrow> i = (j::nat)"
  by (metis div_mult_mod_eq)

lemma upd_elem_bit_at:
  assumes "elem_idx i < length (bits b)"
    and "\<And>w j. j < 64 \<Longrightarrow> bit (f w) j = (if j = i mod 64 then g (bit w j) else bit w j)"
  shows "\<exists>b'. upd_elem b (elem_idx i) f = Some b' \<and> bit_cnt b' = bit_cnt b \<and>
    length (bits b') = length (bits b) \<and> bit_at b' = (bit_at b)(i := g (bit_at b i))"
proof -
  have "bit_at (b\<lparr>bits := (bits b)[elem_idx i := f (bits b ! elem_idx i)]\<rparr>) j =
      (if j = i then g (bit_at b i) else bit_at b j)" for j
    using assms same_bit [of j i]
    by (cases "j div 64 = i div 64") (auto simp: bit_at_def elem_idx_def ELEM_BITS_def nth_list_update)
  then show ?thesis using assms(1) by (auto simp: upd_elem_def fun_eq_iff)
qed

section \<open>Single bits\<close>

lemma bitmap_test_abs:
  assumes "bitmap_inv b" "i < bit_cnt b"
  shows "bitmap_test b i = Some (bit_at b i)"
  using bitmap_inv_elem [OF assms] assms(2)
  by (simp add: bitmap_test_def bit_at_def bit_mask_def elem_idx_def ELEM_BITS_def
      bit_iff_and_push_bit_not_eq_0)

lemma bitmap_mark_bit_at:
  "elem_idx i < length (bits b) \<Longrightarrow>
   \<exists>b'. bitmap_mark b i = Some b' \<and> bit_cnt b' = bit_cnt b \<and> length (bits b') = length (bits b) \<and>
     bit_at b' = (bit_at b)(i := True)"
  unfolding bitmap_mark_def
  by (rule upd_elem_bit_at [where g = "\<lambda>_. True"]) (auto simp: bit_or_iff bit_mask_bit)

lemma bitmap_reset_bit_at:
  "elem_idx i < length (bits b) \<Longrightarrow>
   \<exists>b'. bitmap_reset b i = Some b' \<and> bit_cnt b' = bit_cnt b \<and> length (bits b') = length (bits b) \<and>
     bit_at b' = (bit_at b)(i := False)"
  unfolding bitmap_reset_def
  by (rule upd_elem_bit_at [where g = "\<lambda>_. False"])
    (auto simp: bit_and_iff bit_not_iff bit_mask_bit)

lemma bitmap_flip_bit_at:
  "elem_idx i < length (bits b) \<Longrightarrow>
   \<exists>b'. bitmap_flip b i = Some b' \<and> bit_cnt b' = bit_cnt b \<and> length (bits b') = length (bits b) \<and>
     bit_at b' = (bit_at b)(i := \<not> bit_at b i)"
  unfolding bitmap_flip_def
  by (rule upd_elem_bit_at [where g = Not]) (auto simp: bit_xor_iff bit_mask_bit)

lemma bitmap_set_bit_at:
  assumes "bitmap_inv b" "i < bit_cnt b"
  shows "\<exists>b'. bitmap_set b i v = Some b' \<and> bitmap_inv b' \<and> bit_cnt b' = bit_cnt b \<and>
    bit_at b' = (bit_at b)(i := v)"
  using bitmap_mark_bit_at [OF bitmap_inv_elem(1) [OF assms]]
    bitmap_reset_bit_at [OF bitmap_inv_elem(1) [OF assms]] assms
  by (cases v) (auto simp: bitmap_set_def bitmap_inv_def)

section \<open>Ranges\<close>

lemma set_multiple_loop_bit_at:
  "bitmap_inv b \<Longrightarrow> start + i + k \<le> bit_cnt b \<Longrightarrow>
   \<exists>b'. set_multiple_loop b start i k v = Some b' \<and> bitmap_inv b' \<and> bit_cnt b' = bit_cnt b \<and>
     bit_at b' = (\<lambda>j. if start + i \<le> j \<and> j < start + i + k then v else bit_at b j)"
proof (induction k arbitrary: b i)
  case 0
  then show ?case by (auto simp: fun_eq_iff)
next
  case (Suc k)
  obtain b1 where b1: "bitmap_set b (start + i) v = Some b1" "bitmap_inv b1" "bit_cnt b1 = bit_cnt b"
      "bit_at b1 = (bit_at b)(start + i := v)"
    using bitmap_set_bit_at [OF Suc.prems(1), of "start + i" v] Suc.prems(2) by auto
  obtain b2 where "set_multiple_loop b1 start (Suc i) k v = Some b2" "bitmap_inv b2" "bit_cnt b2 = bit_cnt b"
      "bit_at b2 = (\<lambda>j. if start + Suc i \<le> j \<and> j < start + Suc i + k then v else bit_at b1 j)"
    using Suc.IH [OF b1(2), of "Suc i"] Suc.prems(2) b1(3) by auto
  moreover have "size_t (start + i) = start + i"
    using bitmap_inv_elem(2) [OF Suc.prems(1), of "start + i"] Suc.prems(2) by simp
  ultimately show ?case using b1 by (auto simp: fun_eq_iff)
qed

lemma range_asserts:
  "bitmap_inv b \<Longrightarrow> start + cnt \<le> bit_cnt b \<Longrightarrow> start \<le> bit_cnt b \<and> size_t (start + cnt) = start + cnt"
  by (auto simp: bitmap_inv_def)

lemma bitmap_set_multiple_bit_at:
  assumes "bitmap_inv b" "start + cnt \<le> bit_cnt b"
  shows "\<exists>b'. bitmap_set_multiple b start cnt v = Some b' \<and> bitmap_inv b' \<and> bit_cnt b' = bit_cnt b \<and>
     bit_at b' = (\<lambda>j. if start \<le> j \<and> j < start + cnt then v else bit_at b j)"
  using set_multiple_loop_bit_at [OF assms(1), of start 0 cnt v] range_asserts [OF assms] assms(2)
  by (simp add: bitmap_set_multiple_def)

lemma count_loop_bit_at:
  "bitmap_inv b \<Longrightarrow> start + i + k \<le> bit_cnt b \<Longrightarrow>
   count_loop b start i k v c = Some (c + card {j. start + i \<le> j \<and> j < start + i + k \<and> bit_at b j = v})"
proof (induction k arbitrary: i c)
  case 0
  then show ?case by simp
next
  case (Suc k)
  have t: "bitmap_test b (size_t (start + i)) = Some (bit_at b (start + i))"
    using bitmap_test_abs [OF Suc.prems(1), of "start + i"]
      bitmap_inv_elem(2) [OF Suc.prems(1), of "start + i"] Suc.prems(2) by simp
  have "{j. start + i \<le> j \<and> j < start + i + Suc k \<and> bit_at b j = v} =
      (if bit_at b (start + i) = v then {start + i} else {}) \<union>
      {j. start + Suc i \<le> j \<and> j < start + Suc i + k \<and> bit_at b j = v}"
    by (auto simp: Suc_le_eq order.order_iff_strict)
  moreover have "finite {j. start + Suc i \<le> j \<and> j < start + Suc i + k \<and> bit_at b j = v}" by simp
  ultimately show ?case
    using t Suc.IH [OF Suc.prems(1), of "Suc i"] Suc.prems(2) by (auto simp: card_insert_if)
qed

lemma contains_loop_bit_at:
  "bitmap_inv b \<Longrightarrow> start + i + k \<le> bit_cnt b \<Longrightarrow>
   contains_loop b start i k v = Some (\<exists>j. start + i \<le> j \<and> j < start + i + k \<and> bit_at b j = v)"
proof (induction k arbitrary: i)
  case 0
  then show ?case by simp
next
  case (Suc k)
  have t: "bitmap_test b (size_t (start + i)) = Some (bit_at b (start + i))"
    using bitmap_test_abs [OF Suc.prems(1), of "start + i"]
      bitmap_inv_elem(2) [OF Suc.prems(1), of "start + i"] Suc.prems(2) by simp
  have "(\<exists>j. start + i \<le> j \<and> j < start + i + Suc k \<and> bit_at b j = v) \<longleftrightarrow>
      bit_at b (start + i) = v \<or> (\<exists>j. start + Suc i \<le> j \<and> j < start + Suc i + k \<and> bit_at b j = v)"
    by (subst ex_ge_split) simp
  then show ?case
    using t Suc.IH [OF Suc.prems(1), of "Suc i"] Suc.prems(2) by auto
qed

lemma bitmap_contains_bit_at:
  assumes "bitmap_inv b" "start + cnt \<le> bit_cnt b"
  shows "bitmap_contains b start cnt v = Some (\<exists>j. start \<le> j \<and> j < start + cnt \<and> bit_at b j = v)"
  using contains_loop_bit_at [OF assms(1), of start 0 cnt v] range_asserts [OF assms] assms(2)
  by (simp add: bitmap_contains_def)

section \<open>Searching\<close>

definition free_run :: "bitmap \<Rightarrow> nat \<Rightarrow> nat \<Rightarrow> bool \<Rightarrow> bool" where
  "free_run b i cnt v \<longleftrightarrow> i + cnt \<le> bit_cnt b \<and> (\<forall>j. i \<le> j \<longrightarrow> j < i + cnt \<longrightarrow> bit_at b j = v)"

lemma scan_loop_free_run:
  "bitmap_inv b \<Longrightarrow> i + k + cnt = Suc (bit_cnt b) \<Longrightarrow> 0 < k \<or> scan_loop b i k cnt v = Some BITMAP_ERROR \<Longrightarrow>
   \<exists>r. scan_loop b i k cnt v = Some r \<and>
     (r = BITMAP_ERROR \<and> (\<forall>j. i \<le> j \<longrightarrow> j < i + k \<longrightarrow> \<not> free_run b j cnt v) \<or>
      i \<le> r \<and> r < i + k \<and> free_run b r cnt v \<and> (\<forall>j. i \<le> j \<longrightarrow> j < r \<longrightarrow> \<not> free_run b j cnt v))"
proof (induction k arbitrary: i)
  case 0
  then show ?case by simp
next
  case (Suc k)
  have c: "bitmap_contains b i cnt (\<not> v) = Some (\<not> free_run b i cnt v)"
    using bitmap_contains_bit_at [OF Suc.prems(1), of i cnt "\<not> v"] Suc.prems(2)
    by (auto simp: free_run_def)
  show ?case
  proof (cases "free_run b i cnt v")
    case True
    with c show ?thesis by auto
  next
    case False
    have "\<exists>r. scan_loop b (Suc i) k cnt v = Some r \<and>
     (r = BITMAP_ERROR \<and> (\<forall>j. Suc i \<le> j \<longrightarrow> j < Suc i + k \<longrightarrow> \<not> free_run b j cnt v) \<or>
      Suc i \<le> r \<and> r < Suc i + k \<and> free_run b r cnt v \<and> (\<forall>j. Suc i \<le> j \<longrightarrow> j < r \<longrightarrow> \<not> free_run b j cnt v))"
      using Suc.IH [OF Suc.prems(1), of "Suc i"] Suc.prems(2) by (cases k) auto
    then obtain r where r: "scan_loop b (Suc i) k cnt v = Some r"
      "r = BITMAP_ERROR \<and> (\<forall>j\<ge>Suc i. j < Suc i + k \<longrightarrow> \<not> free_run b j cnt v) \<or>
       Suc i \<le> r \<and> r < Suc i + k \<and> free_run b r cnt v \<and> (\<forall>j\<ge>Suc i. j < r \<longrightarrow> \<not> free_run b j cnt v)"
      by blast
    have "scan_loop b i (Suc k) cnt v = Some r" using False c r(1) by simp
    with r(2) False show ?thesis
      by (intro exI [of _ r], simp add: all_ge_split [of i] Suc_le_eq [symmetric] del: Suc_le_eq)
        (use Suc_leD in blast)
  qed
qed

lemma bitmap_scan_spec:
  assumes inv: "bitmap_inv b" and start: "start \<le> bit_cnt b"
  shows "\<exists>r. bitmap_scan b start cnt v = Some r \<and>
     (r = BITMAP_ERROR \<and> (\<forall>j. start \<le> j \<longrightarrow> \<not> free_run b j cnt v) \<or>
      r \<noteq> BITMAP_ERROR \<and> start \<le> r \<and> free_run b r cnt v \<and> (\<forall>j. start \<le> j \<longrightarrow> j < r \<longrightarrow> \<not> free_run b j cnt v))"
proof (cases "start + cnt \<le> bit_cnt b")
  case True
  let ?k = "Suc (bit_cnt b - cnt) - start"
  obtain r where r: "scan_loop b start ?k cnt v = Some r"
     "r = BITMAP_ERROR \<and> (\<forall>j. start \<le> j \<longrightarrow> j < start + ?k \<longrightarrow> \<not> free_run b j cnt v) \<or>
      start \<le> r \<and> r < start + ?k \<and> free_run b r cnt v \<and> (\<forall>j. start \<le> j \<longrightarrow> j < r \<longrightarrow> \<not> free_run b j cnt v)"
    using scan_loop_free_run [OF inv, of start ?k cnt v] True by auto
  have far: "\<not> free_run b j cnt v" if "start + ?k \<le> j" for j
    using that True by (auto simp: free_run_def)
  have "r \<noteq> BITMAP_ERROR" if "r < start + ?k"
    using that True inv by (auto simp: bitmap_inv_def BITMAP_ERROR_def)
  then show ?thesis
    using r far True start by (auto simp: bitmap_scan_def Let_def not_less)
next
  case False
  then have "\<And>j. start \<le> j \<Longrightarrow> \<not> free_run b j cnt v" by (auto simp: free_run_def)
  moreover have "Suc (bit_cnt b - cnt) - start = 0" if "cnt \<le> bit_cnt b" using that False by linarith
  ultimately show ?thesis using start by (auto simp: bitmap_scan_def Let_def)
qed

lemma bitmap_scan_and_flip_spec:
  assumes inv: "bitmap_inv b" and start: "start \<le> bit_cnt b"
  shows "\<exists>r b'. bitmap_scan_and_flip b start cnt v = Some (r, b') \<and> bitmap_inv b' \<and> bit_cnt b' = bit_cnt b \<and>
     (r = BITMAP_ERROR \<and> b' = b \<and> (\<forall>j. start \<le> j \<longrightarrow> \<not> free_run b j cnt v) \<or>
      r \<noteq> BITMAP_ERROR \<and> start \<le> r \<and> free_run b r cnt v \<and> (\<forall>j. start \<le> j \<longrightarrow> j < r \<longrightarrow> \<not> free_run b j cnt v) \<and>
      bit_at b' = (\<lambda>j. if r \<le> j \<and> j < r + cnt then \<not> v else bit_at b j))"
proof -
  obtain r where r: "bitmap_scan b start cnt v = Some r"
     "r = BITMAP_ERROR \<and> (\<forall>j. start \<le> j \<longrightarrow> \<not> free_run b j cnt v) \<or>
      r \<noteq> BITMAP_ERROR \<and> start \<le> r \<and> free_run b r cnt v \<and> (\<forall>j. start \<le> j \<longrightarrow> j < r \<longrightarrow> \<not> free_run b j cnt v)"
    using bitmap_scan_spec [OF assms] by blast
  show ?thesis
  proof (cases "r = BITMAP_ERROR")
    case True
    with r inv show ?thesis by (auto simp: bitmap_scan_and_flip_def)
  next
    case False
    with r(2) have "r + cnt \<le> bit_cnt b" by (simp add: free_run_def)
    from bitmap_set_multiple_bit_at [OF inv this, of "\<not> v"] False r show ?thesis
      by (auto simp: bitmap_scan_and_flip_def)
  qed
qed

section \<open>Counting and the quantified tests\<close>

lemma bitmap_count_bit_at:
  assumes "bitmap_inv b" "start + cnt \<le> bit_cnt b"
  shows "bitmap_count b start cnt v = Some (card {j. start \<le> j \<and> j < start + cnt \<and> bit_at b j = v})"
  using count_loop_bit_at [OF assms(1), of start 0 cnt v 0] range_asserts [OF assms] assms(2)
  by (simp add: bitmap_count_def)

lemma bitmap_quantified_tests:
  assumes "bitmap_inv b" "start + cnt \<le> bit_cnt b"
  shows "bitmap_any b start cnt = Some (\<exists>j. start \<le> j \<and> j < start + cnt \<and> bit_at b j)"
    "bitmap_none b start cnt = Some (\<forall>j. start \<le> j \<longrightarrow> j < start + cnt \<longrightarrow> \<not> bit_at b j)"
    "bitmap_all b start cnt = Some (\<forall>j. start \<le> j \<longrightarrow> j < start + cnt \<longrightarrow> bit_at b j)"
  using bitmap_contains_bit_at [OF assms]
  by (auto simp: bitmap_any_def bitmap_none_def bitmap_all_def)

section \<open>Creation and storage\<close>

lemma bitmap_set_all_bit_at:
  assumes "bitmap_inv b"
  shows "\<exists>b'. bitmap_set_all b v = Some b' \<and> bitmap_inv b' \<and> bit_cnt b' = bit_cnt b \<and>
    (\<forall>j < bit_cnt b. bit_at b' j = v)"
  using bitmap_set_multiple_bit_at [OF assms, of 0 "bit_cnt b" v]
  by (auto simp: bitmap_set_all_def bitmap_size_def)

lemma bitmap_create_spec:
  assumes "n + 1 < 2 ^ 32" "length ws = elem_cnt n"
  shows "\<exists>b. bitmap_create True (Some ws) n = Some (Some b) \<and> bitmap_inv b \<and> bit_cnt b = n \<and>
    bitmap_abs b = replicate n False"
proof -
  let ?b = "\<lparr>bit_cnt = n, bits = ws\<rparr>"
  have "bitmap_inv ?b" using assms by (simp add: bitmap_inv_def)
  from bitmap_set_all_bit_at [OF this, of False] show ?thesis
    by (auto simp: bitmap_create_def bitmap_abs_def list_eq_iff_nth_eq)
qed

text \<open>Eight bytes hold an element, and reading them back gives the element.\<close>

lemma length_word_bytes [simp]: "length (word_bytes w) = 8"
  by (simp add: word_bytes_def)

lemma bytes_word_bit:
  "j < 64 \<Longrightarrow> j < 8 * length bs \<Longrightarrow> bit (bytes_word bs) j = bit (bs ! (j div 8)) (j mod 8)"
proof (induction bs arbitrary: j)
  case Nil
  then show ?case by simp
next
  case (Cons b bs)
  show ?case
  proof (cases "j < 8")
    case True
    then show ?thesis by (simp add: bytes_word_def bit_or_iff bit_push_bit_iff bit_ucast_iff)
  next
    case False
    then have "bit (bytes_word bs) (j - 8) = bit (bs ! ((j - 8) div 8)) ((j - 8) mod 8)"
      using Cons by simp
    moreover have "j div 8 = Suc ((j - 8) div 8)" "(j - 8) mod 8 = j mod 8"
      using False by (simp_all add: le_div_geq le_mod_geq)
    moreover have "\<not> bit b j" using False by (simp add: bit_word.rep_eq impossible_bit)
    ultimately show ?thesis
      using False Cons.prems(1) by (simp add: bytes_word_def bit_or_iff bit_push_bit_iff bit_ucast_iff)
  qed
qed

lemma bytes_word_bytes [simp]: "bytes_word (word_bytes w) = w"
proof (rule bit_word_eqI)
  fix j assume "j < LENGTH(64)"
  then have "j div 8 < 8" "j < 64" by simp_all
  then show "bit (bytes_word (word_bytes w)) j = bit w j"
    by (simp add: bytes_word_bit) (simp add: word_bytes_def bit_ucast_iff bit_drop_bit_eq nth_upt)
qed

lemma length_concat_word_bytes [simp]: "length (concat (map word_bytes ws)) = 8 * length ws"
  by (induction ws) simp_all

lemma bytes_words_bytes: "bytes_words (length ws) (concat (map word_bytes ws)) = ws"
  by (induction ws) simp_all

lemma last_mask_bit:
  "j < 64 \<Longrightarrow> bit (last_mask b) j \<longleftrightarrow> bit_cnt b mod 64 = 0 \<or> j < bit_cnt b mod 64"
  by (auto simp: last_mask_def ELEM_BITS_def Let_def push_bit_of_1 mask_eq_exp_minus_1 [symmetric]
      bit_mask_iff possible_bit_word)

text \<open>Masking the last element clears only positions past \<open>bit_cnt\<close>.\<close>

lemma div_round_up: "0 < r \<Longrightarrow> r < 64 \<Longrightarrow> (64 * q + r + 63) div 64 = Suc q" for q r :: nat
  by (rule div_nat_eqI) simp_all

lemma last_element_position:
  "i < n \<Longrightarrow> n mod 64 \<noteq> 0 \<Longrightarrow> i div 64 = (n + 63) div 64 - 1 \<Longrightarrow> i mod 64 < n mod (64::nat)"
proof -
  assume a: "i < n" "n mod 64 \<noteq> 0" "i div 64 = (n + 63) div 64 - 1"
  have "(n + 63) div 64 = Suc (n div 64)"
    using div_round_up [of "n mod 64" "n div 64"] a(2) by simp
  then have "i div 64 = n div 64" using a(3) by simp
  then show ?thesis using a(1) by (metis add_less_cancel_left div_mult_mod_eq)
qed

lemma mask_last_element:
  assumes inv: "bitmap_inv b" and pos: "0 < bit_cnt b"
  shows "\<exists>b'. upd_elem b (elem_cnt (bit_cnt b) - 1) (\<lambda>w. w AND last_mask b) = Some b' \<and>
    bitmap_inv b' \<and> bitmap_abs b' = bitmap_abs b"
proof -
  let ?b' = "b\<lparr>bits := (bits b)[elem_cnt (bit_cnt b) - 1 := bits b ! (elem_cnt (bit_cnt b) - 1) AND last_mask b]\<rparr>"
  have cnt: "elem_cnt (bit_cnt b) = (bit_cnt b + 63) div 64"
    using inv by (simp add: bitmap_inv_def elem_cnt_eq)
  have "bit_at ?b' i = bit_at b i" if "i < bit_cnt b" for i
    using last_element_position [OF that] that inv cnt
    by (cases "bit_cnt b mod 64 = 0")
      (auto simp: bit_at_def nth_list_update bit_and_iff last_mask_bit bitmap_inv_def)
  then have "bitmap_abs ?b' = bitmap_abs b" by (simp add: bitmap_abs_def)
  moreover have "elem_cnt (bit_cnt b) - 1 < length (bits b)" using inv pos cnt by (simp add: bitmap_inv_def)
  ultimately show ?thesis using inv by (auto simp: upd_elem_def bitmap_inv_def)
qed

lemma bitmap_write_read:
  assumes inv: "bitmap_inv b" "bitmap_inv c" and same: "bit_cnt c = bit_cnt b"
    and keeps: "\<And>data. file_write_at data 0 = length data \<Longrightarrow> file_read_at (length data) 0 = data"
    and written: "bitmap_write file_write_at b"
  shows "\<exists>c'. bitmap_read file_read_at c = Some (True, c') \<and> bitmap_inv c' \<and> bitmap_abs c' = bitmap_abs b"
proof (cases "bit_cnt b = 0")
  case True
  with inv same show ?thesis by (auto simp: bitmap_read_def bitmap_abs_def)
next
  case False
  let ?data = "concat (map word_bytes (bits b))"
  let ?c = "c\<lparr>bits := bits b\<rparr>"
  have len: "length (bits b) = elem_cnt (bit_cnt b)" "length (bits c) = elem_cnt (bit_cnt b)"
    using inv same by (simp_all add: bitmap_inv_def)
  then have data: "file_read_at (byte_cnt (bit_cnt b)) 0 = ?data"
    using keeps [of ?data] written by (simp add: bitmap_write_def byte_cnt_def)
  have words: "bytes_words (elem_cnt (bit_cnt b)) ?data = bits b"
    using bytes_words_bytes [of "bits b"] len by simp
  have "bitmap_inv ?c" "bitmap_abs ?c = bitmap_abs b"
    using inv same len by (simp_all add: bitmap_inv_def bitmap_abs_def bit_at_def)
  with mask_last_element [of ?c] False same obtain c' where
    "upd_elem ?c (elem_cnt (bit_cnt b) - 1) (\<lambda>w. w AND last_mask ?c) = Some c'" "bitmap_inv c'"
    "bitmap_abs c' = bitmap_abs b" by auto
  then show ?thesis using False same len data words
    by (simp add: bitmap_read_def Let_def byte_cnt_def)
qed

section \<open>Allocation from a bitmap\<close>

text \<open>
  The page pools, the swap table and the free map all use a bitmap in one way: \<open>bitmap_scan_and_flip\<close>
  from 0 for \<open>n\<close> clear bits to allocate, \<open>bitmap_set_multiple\<close> with \<open>false\<close> to release.  The locale
  states that contract; its lemmas hold for every client.
\<close>

locale slot_alloc =
  fixes invar :: "'s \<Rightarrow> bool"
    and cap :: "'s \<Rightarrow> nat"
    and used :: "'s \<Rightarrow> nat set"
    and err :: nat
    and alloc :: "'s \<Rightarrow> nat \<Rightarrow> (nat \<times> 's) option"
    and release :: "'s \<Rightarrow> nat \<Rightarrow> nat \<Rightarrow> 's option"
  assumes used_cap: "invar s \<Longrightarrow> used s \<subseteq> {..<cap s}"
    and alloc_returns: "invar s \<Longrightarrow> \<exists>r s'. alloc s n = Some (r, s')"
    and alloc_invar: "invar s \<Longrightarrow> alloc s n = Some (r, s') \<Longrightarrow> invar s' \<and> cap s' = cap s"
    and alloc_ok: "invar s \<Longrightarrow> alloc s n = Some (r, s') \<Longrightarrow> r \<noteq> err \<Longrightarrow>
      r + n \<le> cap s \<and> used s \<inter> {r..<r + n} = {} \<and> used s' = used s \<union> {r..<r + n}"
    and alloc_full: "invar s \<Longrightarrow> alloc s n = Some (err, s') \<Longrightarrow>
      s' = s \<and> (\<forall>i. i + n \<le> cap s \<longrightarrow> used s \<inter> {i..<i + n} \<noteq> {})"
    and release_ok: "invar s \<Longrightarrow> r + n \<le> cap s \<Longrightarrow>
      \<exists>s'. release s r n = Some s' \<and> invar s' \<and> cap s' = cap s \<and> used s' = used s - {r..<r + n}"
begin

text \<open>Allocation succeeds exactly when a free run exists.\<close>

lemma alloc_complete:
  assumes "invar s" "alloc s n = Some (r, s')"
  shows "r \<noteq> err \<longleftrightarrow> (\<exists>i. i + n \<le> cap s \<and> used s \<inter> {i..<i + n} = {})"
  using alloc_ok [OF assms] alloc_full [OF assms(1), of n s'] assms(2) by blast

text \<open>Releasing what was just allocated restores the allocation.\<close>

lemma alloc_release:
  assumes "invar s" "alloc s n = Some (r, s1)" "r \<noteq> err"
  shows "\<exists>s2. release s1 r n = Some s2 \<and> invar s2 \<and> used s2 = used s"
proof -
  have "invar s1" "cap s1 = cap s" using alloc_invar [OF assms(1,2)] by simp_all
  moreover have "r + n \<le> cap s" "used s1 - {r..<r + n} = used s"
    using alloc_ok [OF assms] by auto
  ultimately show ?thesis using release_ok [of s1 r n] by auto
qed

text \<open>Two successive allocations do not overlap, and each leaves the other's slots alone.\<close>

lemma alloc_alloc_disjoint:
  assumes "invar s" "alloc s n = Some (r, s1)" "r \<noteq> err" "alloc s1 m = Some (q, s2)" "q \<noteq> err"
  shows "{r..<r + n} \<inter> {q..<q + m} = {} \<and> used s2 = used s \<union> {r..<r + n} \<union> {q..<q + m}"
proof -
  have "invar s1" using alloc_invar [OF assms(1,2)] by simp
  from alloc_ok [OF this assms(4,5)] alloc_ok [OF assms(1-3)] show ?thesis by blast
qed

end

definition bitmap_used :: "bitmap \<Rightarrow> nat set" where
  "bitmap_used b = {j. j < bit_cnt b \<and> bit_at b j}"

abbreviation bitmap_alloc :: "bitmap \<Rightarrow> nat \<Rightarrow> (nat \<times> bitmap) option" where
  "bitmap_alloc b n \<equiv> bitmap_scan_and_flip b 0 n False"

abbreviation bitmap_release :: "bitmap \<Rightarrow> nat \<Rightarrow> nat \<Rightarrow> bitmap option" where
  "bitmap_release b r n \<equiv> bitmap_set_multiple b r n False"

lemma free_run_used: "free_run b r n False \<longleftrightarrow> r + n \<le> bit_cnt b \<and> bitmap_used b \<inter> {r..<r + n} = {}"
  unfolding free_run_def bitmap_used_def by (simp add: disjoint_iff) (metis less_le_trans)

lemma bitmap_alloc_cases:
  assumes "bitmap_inv b" "bitmap_alloc b n = Some (r, b')"
  shows "bitmap_inv b' \<and> bit_cnt b' = bit_cnt b \<and>
     (r = BITMAP_ERROR \<and> b' = b \<and> (\<forall>j. \<not> free_run b j n False) \<or>
      r \<noteq> BITMAP_ERROR \<and> free_run b r n False \<and> bitmap_used b' = bitmap_used b \<union> {r..<r + n})"
  using bitmap_scan_and_flip_spec [OF assms(1), of 0 n False] assms(2)
  by (auto simp: bitmap_used_def free_run_def split: if_splits)

interpretation bm: slot_alloc bitmap_inv bit_cnt bitmap_used BITMAP_ERROR bitmap_alloc bitmap_release
proof
  fix s :: bitmap and n r s'
  assume inv: "bitmap_inv s"
  show "bitmap_used s \<subseteq> {..<bit_cnt s}" by (auto simp: bitmap_used_def)
  show "\<exists>r s'. bitmap_alloc s n = Some (r, s')"
    using bitmap_scan_and_flip_spec [OF inv, of 0 n False] by auto
  show "r + n \<le> bit_cnt s \<Longrightarrow> \<exists>s'. bitmap_release s r n = Some s' \<and> bitmap_inv s' \<and>
      bit_cnt s' = bit_cnt s \<and> bitmap_used s' = bitmap_used s - {r..<r + n}"
    using bitmap_set_multiple_bit_at [OF inv, of r n False] by (auto simp: bitmap_used_def)
  show "bitmap_alloc s n = Some (r, s') \<Longrightarrow> bitmap_inv s' \<and> bit_cnt s' = bit_cnt s"
    using bitmap_alloc_cases [OF inv] by blast
  show "bitmap_alloc s n = Some (r, s') \<Longrightarrow> r \<noteq> BITMAP_ERROR \<Longrightarrow>
      r + n \<le> bit_cnt s \<and> bitmap_used s \<inter> {r..<r + n} = {} \<and> bitmap_used s' = bitmap_used s \<union> {r..<r + n}"
    using bitmap_alloc_cases [OF inv, unfolded free_run_used] by blast
  show "bitmap_alloc s n = Some (BITMAP_ERROR, s') \<Longrightarrow>
      s' = s \<and> (\<forall>i. i + n \<le> bit_cnt s \<longrightarrow> bitmap_used s \<inter> {i..<i + n} \<noteq> {})"
    using bitmap_alloc_cases [OF inv, unfolded free_run_used] by blast
qed

section \<open>Properties\<close>

text \<open>The loops on a numeral count, so that the simplifier runs them on concrete bitmaps.\<close>

lemma loops_numeral:
  "set_multiple_loop b start i (numeral k) v =
     Option.bind (bitmap_set b (size_t (start + i)) v) (\<lambda>b. set_multiple_loop b start (Suc i) (pred_numeral k) v)"
  "contains_loop b start i (numeral k) v =
     Option.bind (bitmap_test b (size_t (start + i)))
       (\<lambda>t. if t = v then Some True else contains_loop b start (Suc i) (pred_numeral k) v)"
  "scan_loop b i (numeral k) cnt v =
     Option.bind (bitmap_contains b i cnt (\<not> v))
       (\<lambda>c. if \<not> c then Some i else scan_loop b (Suc i) (pred_numeral k) cnt v)"
  by (simp_all only: numeral_eq_Suc [of k] set_multiple_loop.simps contains_loop.simps scan_loop.simps)

lemmas bitmap_run =
  loops_numeral bitmap_scan_and_flip_def bitmap_scan_def bitmap_contains_def bitmap_set_multiple_def
  bitmap_set_def bitmap_test_def bitmap_mark_def bitmap_reset_def upd_elem_def elem_idx_def bit_mask_def
  ELEM_BITS_def BITMAP_ERROR_def size_t_def

definition demo_bitmap :: bitmap where
  "demo_bitmap = \<lparr>bit_cnt = 6, bits = [0b101]\<rparr>"

lemma demo_bitmap_inv: "bitmap_inv demo_bitmap"
  by (simp add: bitmap_inv_def demo_bitmap_def elem_cnt_eq)

text \<open>\<open>bitmap_scan_and_flip\<close> returns without stopping the kernel: either it finds the first run of
  \<open>cnt\<close> bits equal to \<open>v\<close> at or after \<open>start\<close> and flips exactly that run, or no such run exists and the
  result is \<open>BITMAP_ERROR\<close> with the bitmap unchanged.\<close>

theorem bitmap_scan_and_flip_correct:
  assumes "bitmap_inv b" "start \<le> bit_cnt b"
  shows "\<exists>r b'. bitmap_scan_and_flip b start cnt v = Some (r, b') \<and> bitmap_inv b' \<and> bit_cnt b' = bit_cnt b \<and>
     (r = BITMAP_ERROR \<and> b' = b \<and> (\<forall>j. start \<le> j \<longrightarrow> \<not> free_run b j cnt v) \<or>
      r \<noteq> BITMAP_ERROR \<and> start \<le> r \<and> free_run b r cnt v \<and> (\<forall>j. start \<le> j \<longrightarrow> j < r \<longrightarrow> \<not> free_run b j cnt v) \<and>
      bit_at b' = (\<lambda>j. if r \<le> j \<and> j < r + cnt then \<not> v else bit_at b j))"
  using assms by (rule bitmap_scan_and_flip_spec)

theorem bitmap_scan_and_flip_correct_witness:
  "bitmap_scan_and_flip demo_bitmap 0 2 False = Some (3, \<lparr>bit_cnt = 6, bits = [0b11101]\<rparr>) \<and>
   free_run demo_bitmap 3 2 False"
proof -
  have run: "bitmap_scan_and_flip demo_bitmap 0 2 False = Some (3, \<lparr>bit_cnt = 6, bits = [0b11101]\<rparr>)"
    by (simp add: demo_bitmap_def bitmap_run)
  have "(3::nat) \<noteq> BITMAP_ERROR" by (simp add: BITMAP_ERROR_def)
  with bitmap_scan_and_flip_correct [OF demo_bitmap_inv, of 0 2 False] run show ?thesis by auto
qed

text \<open>Allocation from a bitmap (first free run from 0, flipped to used; release clears it): two
  successive successful allocations never overlap, and each keeps everything allocated before.\<close>

theorem bitmap_alloc_disjoint:
  assumes "bitmap_inv b" "bitmap_scan_and_flip b 0 n False = Some (r, b1)" "r \<noteq> BITMAP_ERROR"
    and "bitmap_scan_and_flip b1 0 m False = Some (q, b2)" "q \<noteq> BITMAP_ERROR"
  shows "{r..<r + n} \<inter> {q..<q + m} = {} \<and> bitmap_used b2 = bitmap_used b \<union> {r..<r + n} \<union> {q..<q + m}"
  using assms by (rule bm.alloc_alloc_disjoint)

theorem bitmap_alloc_disjoint_witness:
  "bitmap_used \<lparr>bit_cnt = 6, bits = [0b11111]\<rparr> = bitmap_used demo_bitmap \<union> {3..<5} \<union> {1}"
proof -
  have a: "bitmap_scan_and_flip demo_bitmap 0 2 False = Some (3, \<lparr>bit_cnt = 6, bits = [0b11101]\<rparr>)"
    "bitmap_scan_and_flip \<lparr>bit_cnt = 6, bits = [0b11101]\<rparr> 0 1 False = Some (1, \<lparr>bit_cnt = 6, bits = [0b11111]\<rparr>)"
    by (simp_all add: demo_bitmap_def bitmap_run)
  have "(3::nat) \<noteq> BITMAP_ERROR" "(1::nat) \<noteq> BITMAP_ERROR" by (simp_all add: BITMAP_ERROR_def)
  from bitmap_alloc_disjoint [OF demo_bitmap_inv a(1) this(1) a(2) this(2)] show ?thesis by simp
qed

text \<open>A bitmap survives its file: what \<open>bitmap_write\<close> stored in full, \<open>bitmap_read\<close> restores bit for
  bit into any bitmap of the same size, whatever that held before.  The file is one that gives back
  the bytes a complete write handed to it.\<close>

theorem bitmap_file_roundtrip:
  assumes "bitmap_inv b" "bitmap_inv c" "bit_cnt c = bit_cnt b"
    and "\<And>data. file_write_at data 0 = length data \<Longrightarrow> file_read_at (length data) 0 = data"
    and "bitmap_write file_write_at b"
  shows "\<exists>c'. bitmap_read file_read_at c = Some (True, c') \<and> bitmap_inv c' \<and> bitmap_abs c' = bitmap_abs b"
  using assms by (rule bitmap_write_read)

text \<open>A file whose contents are the eight bytes of \<open>demo_bitmap\<close>; it accepts only a write of them.\<close>

definition demo_file :: "8 word list" where
  "demo_file = [0b101, 0, 0, 0, 0, 0, 0, 0]"

theorem bitmap_file_roundtrip_witness:
  "\<exists>c'. bitmap_read (\<lambda>n ofs. take n (drop ofs demo_file)) \<lparr>bit_cnt = 6, bits = [0b111]\<rparr> = Some (True, c') \<and>
    bitmap_inv c' \<and> bitmap_abs c' = bitmap_abs demo_bitmap"
proof (rule bitmap_file_roundtrip [where file_write_at = "\<lambda>d ofs. if d = demo_file then 8 else Suc (length d)"])
  show "bitmap_write (\<lambda>d ofs. if d = demo_file then 8 else Suc (length d)) demo_bitmap"
    by (simp add: bitmap_write_def demo_bitmap_def byte_cnt_def elem_cnt_eq demo_file_def word_bytes_def upt_rec)
qed (auto simp: bitmap_inv_def demo_bitmap_def elem_cnt_eq demo_file_def split: if_splits)

end
