(* ===== verification/Hash.thy ===== *)
theory Hash
  imports Prelude "HOL-Library.Multiset"
begin

text \<open>
  The chained hash table of \<open>lib/kernel/hash.c\<close>.  Elements are pointers; a bucket is the sequence of
  elements on its list, the view that the theories on \<open>list.c\<close> prove the pointer lists to implement:
  \<open>list_push_front\<close> is \<open>#\<close>, \<open>list_remove\<close> takes the element off the list it is on.  Counters are
  64-bit words.  The two callbacks of the table are fields of the record, and what they read of an
  element is hidden in them.  The outcome of each \<open>malloc\<close> call is a parameter.
\<close>

section \<open>The table\<close>

record hash =
  hash_elem_cnt :: "64 word"
  bucket_cnt :: "64 word"
  buckets :: "ptr list list"
  hash_fun :: "ptr \<Rightarrow> 64 word"
  hash_less :: "ptr \<Rightarrow> ptr \<Rightarrow> bool"

definition bucket_at :: "hash \<Rightarrow> nat \<Rightarrow> ptr list option" where
  "bucket_at h i = (if i < length (buckets h) then Some (buckets h ! i) else None)"

definition find_bucket :: "hash \<Rightarrow> ptr \<Rightarrow> nat" where
  "find_bucket h e = unat (hash_fun h e AND (bucket_cnt h - 1))"

fun find_elem :: "hash \<Rightarrow> ptr list \<Rightarrow> ptr \<Rightarrow> ptr" where
  "find_elem h [] e = NULL"
| "find_elem h (hi # rest) e =
     (if e = NULL then NULL
      else if \<not> hash_less h hi e \<and> \<not> hash_less h e hi then hi
      else find_elem h rest e)"

definition insert_elem :: "hash \<Rightarrow> nat \<Rightarrow> ptr \<Rightarrow> hash option" where
  "insert_elem h bucket e = do {
     xs \<leftarrow> bucket_at h bucket;
     Some (h\<lparr>hash_elem_cnt := hash_elem_cnt h + 1, buckets := (buckets h)[bucket := e # xs]\<rparr>) }"

definition remove_elem :: "hash \<Rightarrow> ptr \<Rightarrow> hash" where
  "remove_elem h e =
     h\<lparr>hash_elem_cnt := hash_elem_cnt h - 1, buckets := map (remove1 e) (buckets h)\<rparr>"

section \<open>Rehashing\<close>

definition turn_off_least_1bit :: "64 word \<Rightarrow> 64 word" where
  "turn_off_least_1bit x = x AND (x - 1)"

definition is_power_of_2 :: "64 word \<Rightarrow> bool" where
  "is_power_of_2 x \<longleftrightarrow> x \<noteq> 0 \<and> turn_off_least_1bit x = 0"

definition MIN_ELEMS_PER_BUCKET :: "64 word" where "MIN_ELEMS_PER_BUCKET = 1"
definition BEST_ELEMS_PER_BUCKET :: "64 word" where "BEST_ELEMS_PER_BUCKET = 2"
definition MAX_ELEMS_PER_BUCKET :: "64 word" where "MAX_ELEMS_PER_BUCKET = 4"

text \<open>The loop \<open>while (!is_power_of_2 (new_bucket_cnt))\<close> does not end on 0; \<open>None\<close> is that case.\<close>

partial_function (option) round_to_power_of_2 :: "64 word \<Rightarrow> 64 word option" where
  "round_to_power_of_2 x =
     (if is_power_of_2 x then Some x else round_to_power_of_2 (turn_off_least_1bit x))"

declare round_to_power_of_2.simps [code]

definition best_bucket_cnt :: "hash \<Rightarrow> 64 word option" where
  "best_bucket_cnt h =
     (let n = hash_elem_cnt h div BEST_ELEMS_PER_BUCKET
      in round_to_power_of_2 (if n < 4 then 4 else n))"

text \<open>One iteration of the inner loop of \<open>rehash\<close> moves \<open>elem\<close> to the front of its new bucket.\<close>

fun rehash_move :: "hash \<Rightarrow> ptr list \<Rightarrow> hash option" where
  "rehash_move h [] = Some h"
| "rehash_move h (elem # rest) = do {
     let new_bucket = find_bucket h elem;
     xs \<leftarrow> bucket_at h new_bucket;
     rehash_move (h\<lparr>buckets := (buckets h)[new_bucket := elem # xs]\<rparr>) rest }"

definition rehash :: "bool \<Rightarrow> hash \<Rightarrow> hash option" where
  "rehash malloc_ok h = do {
     let old_buckets = buckets h;
     let old_bucket_cnt = bucket_cnt h;
     new_bucket_cnt \<leftarrow> best_bucket_cnt h;
     if new_bucket_cnt = old_bucket_cnt then Some h
     else if \<not> malloc_ok then Some h
     else rehash_move (h\<lparr>buckets := replicate (unat new_bucket_cnt) [], bucket_cnt := new_bucket_cnt\<rparr>)
            (concat (take (unat old_bucket_cnt) old_buckets)) }"

section \<open>Life cycle\<close>

text \<open>A destructor or action is called on elements in a certain order; the result carries them.\<close>

definition hash_clear :: "bool \<Rightarrow> hash \<Rightarrow> hash \<times> ptr list" where
  "hash_clear destructor h =
     (h\<lparr>hash_elem_cnt := 0, buckets := map (\<lambda>_. []) (take (unat (bucket_cnt h)) (buckets h)) @
          drop (unat (bucket_cnt h)) (buckets h)\<rparr>,
      if destructor then concat (take (unat (bucket_cnt h)) (buckets h)) else [])"

text \<open>\<open>malloc_buckets\<close> is the block \<open>malloc\<close> returned, four uninitialised lists, or \<open>None\<close>.\<close>

definition hash_init ::
  "ptr list list option \<Rightarrow> (ptr \<Rightarrow> 64 word) \<Rightarrow> (ptr \<Rightarrow> ptr \<Rightarrow> bool) \<Rightarrow> hash option" where
  "hash_init malloc_buckets hf lt =
     (case malloc_buckets of
        None \<Rightarrow> None
      | Some raw \<Rightarrow>
          Some (fst (hash_clear False
            \<lparr>hash_elem_cnt = 0, bucket_cnt = 4, buckets = raw, hash_fun = hf, hash_less = lt\<rparr>)))"

definition hash_destroy :: "bool \<Rightarrow> hash \<Rightarrow> ptr list" where
  "hash_destroy destructor h = (if destructor then snd (hash_clear True h) else [])"

section \<open>Search, insertion, deletion\<close>

definition hash_insert :: "bool \<Rightarrow> hash \<Rightarrow> ptr \<Rightarrow> (ptr \<times> hash) option" where
  "hash_insert malloc_ok h new = do {
     let bucket = find_bucket h new;
     xs \<leftarrow> bucket_at h bucket;
     let old = find_elem h xs new;
     h \<leftarrow> (if old = NULL then insert_elem h bucket new else Some h);
     h \<leftarrow> rehash malloc_ok h;
     Some (old, h) }"

definition hash_replace :: "bool \<Rightarrow> hash \<Rightarrow> ptr \<Rightarrow> (ptr \<times> hash) option" where
  "hash_replace malloc_ok h new = do {
     let bucket = find_bucket h new;
     xs \<leftarrow> bucket_at h bucket;
     let old = find_elem h xs new;
     let h = (if old \<noteq> NULL then remove_elem h old else h);
     h \<leftarrow> insert_elem h bucket new;
     h \<leftarrow> rehash malloc_ok h;
     Some (old, h) }"

definition hash_size :: "hash \<Rightarrow> 64 word" where
  "hash_size h = hash_elem_cnt h"

definition hash_empty :: "hash \<Rightarrow> bool" where
  "hash_empty h \<longleftrightarrow> hash_elem_cnt h = 0"

definition hash_find :: "hash \<Rightarrow> ptr \<Rightarrow> ptr option" where
  "hash_find h e =
     (if hash_empty h then Some NULL
      else do { xs \<leftarrow> bucket_at h (find_bucket h e); Some (find_elem h xs e) })"

definition hash_delete :: "bool \<Rightarrow> hash \<Rightarrow> ptr \<Rightarrow> (ptr \<times> hash) option" where
  "hash_delete malloc_ok h e = do {
     xs \<leftarrow> bucket_at h (find_bucket h e);
     let found = find_elem h xs e;
     h \<leftarrow> (if found \<noteq> NULL then rehash malloc_ok (remove_elem h found) else Some h);
     Some (found, h) }"

definition hash_apply :: "hash \<Rightarrow> ptr list" where
  "hash_apply h = concat (take (unat (bucket_cnt h)) (buckets h))"

section \<open>Iteration\<close>

text \<open>An iterator stands on a bucket and on a node of its list: the head, an element, the tail, or
  the null pointer after the last bucket.\<close>

datatype node = HeadNode | ElemNode ptr | TailNode | NullNode

record hash_iterator =
  it_bucket :: nat
  it_elem :: node

fun begin_node :: "ptr list \<Rightarrow> node" where
  "begin_node [] = TailNode"
| "begin_node (x # xs) = ElemNode x"

fun next_node :: "ptr list \<Rightarrow> node \<Rightarrow> node option" where
  "next_node xs HeadNode = Some (begin_node xs)"
| "next_node [] (ElemNode e) = None"
| "next_node (x # xs) (ElemNode e) = (if x = e then Some (begin_node xs) else next_node xs (ElemNode e))"
| "next_node xs TailNode = None"
| "next_node xs NullNode = None"

definition hash_first :: "hash \<Rightarrow> hash_iterator" where
  "hash_first h = \<lparr>it_bucket = 0, it_elem = HeadNode\<rparr>"

text \<open>The inner loop of \<open>hash_next\<close>: while on the tail, go to the next bucket; \<open>k\<close> buckets are left.\<close>

fun next_bucket_loop :: "hash \<Rightarrow> nat \<Rightarrow> hash_iterator \<Rightarrow> hash_iterator option" where
  "next_bucket_loop h k i =
     (if it_elem i = TailNode then
        (let b = Suc (it_bucket i)
         in if b \<ge> unat (bucket_cnt h) then Some \<lparr>it_bucket = b, it_elem = NullNode\<rparr>
            else (case k of
                0 \<Rightarrow> None
              | Suc k \<Rightarrow> do {
                  xs \<leftarrow> bucket_at h b;
                  next_bucket_loop h k \<lparr>it_bucket = b, it_elem = begin_node xs\<rparr> }))
      else Some i)"

declare next_bucket_loop.simps [simp del]

definition hash_next :: "hash \<Rightarrow> hash_iterator \<Rightarrow> hash_iterator option" where
  "hash_next h i = do {
     xs \<leftarrow> bucket_at h (it_bucket i);
     e \<leftarrow> next_node xs (it_elem i);
     next_bucket_loop h (unat (bucket_cnt h)) (i\<lparr>it_elem := e\<rparr>) }"

definition hash_cur :: "hash_iterator \<Rightarrow> node" where
  "hash_cur i = it_elem i"

section \<open>Hash functions\<close>

definition FNV_64_PRIME :: "64 word" where "FNV_64_PRIME = 0x00000100000001B3"
definition FNV_64_BASIS :: "64 word" where "FNV_64_BASIS = 0xcbf29ce484222325"

definition fnv_step :: "64 word \<Rightarrow> 8 word \<Rightarrow> 64 word" where
  "fnv_step hash byte = (hash * FNV_64_PRIME) XOR ucast byte"

definition hash_bytes :: "8 word list \<Rightarrow> nat \<Rightarrow> 64 word option" where
  "hash_bytes buf n =
     (if n \<le> length buf then Some (foldl fnv_step FNV_64_BASIS (take n buf)) else None)"

fun hash_string_loop :: "8 word list \<Rightarrow> 64 word \<Rightarrow> 64 word option" where
  "hash_string_loop [] hash = None"
| "hash_string_loop (c # s) hash =
     (if c = 0 then Some hash else hash_string_loop s (fnv_step hash c))"

definition hash_string :: "8 word list \<Rightarrow> 64 word option" where
  "hash_string s = hash_string_loop s FNV_64_BASIS"

definition hash_int :: "32 word \<Rightarrow> 64 word option" where
  "hash_int i = hash_bytes (map (\<lambda>k. ucast (drop_bit (8 * k) i)) [0..<4]) 4"

end
