(* ===== verification/Hash_Correct.thy ===== *)
theory Hash_Correct
  imports Hash
begin

text \<open>
  The hash table implements a set of elements that is searched by key: an invariant that every
  operation keeps, the effect of each operation on that set, and the contract its clients rely on.
\<close>

section \<open>The number of buckets\<close>

lemma bit_top:
  "2 ^ m \<le> x \<Longrightarrow> x < 2 ^ Suc m \<Longrightarrow> bit x m" for x :: nat
proof -
  assume a: "2 ^ m \<le> x" "x < 2 ^ Suc m"
  then have "x div 2 ^ m = 1" by (intro div_nat_eqI) simp_all
  then show "bit x m" by (simp add: bit_iff_odd)
qed

lemma bit_top_word:
  "2 ^ m \<le> unat x \<Longrightarrow> unat x < 2 ^ Suc m \<Longrightarrow> bit x m" for x :: "64 word"
  using bit_top [of m "unat x"] by (simp add: bit_unsigned_iff)

lemma bit_imp_le: "bit x m \<Longrightarrow> 2 ^ m \<le> x" for x :: nat
  by (metis bit_iff_odd div_less even_zero not_le)

lemma bit_imp_le_word: "bit x m \<Longrightarrow> 2 ^ m \<le> unat x" for x :: "64 word"
  using bit_imp_le [of "unat x" m] bit_imp_le_length [of x m] by (simp add: bit_unsigned_iff possible_bit_def)

lemma exp_le_unat: "2 ^ m \<le> unat x \<Longrightarrow> m < 64" for x :: "64 word"
proof -
  assume "2 ^ m \<le> unat x"
  moreover have "unat x < 2 ^ LENGTH(64)" by (rule unsigned_less)
  ultimately have "(2::nat) ^ m < 2 ^ 64" by simp
  then show "m < 64" by (simp only: power_strict_increasing_iff one_less_numeral_iff semiring_norm)
qed

lemma ex_top_bit: "0 < n \<Longrightarrow> \<exists>m. 2 ^ m \<le> n \<and> n < 2 ^ Suc m" for n :: nat
  using ex_power_ivl1 [of 2 n] by auto

lemma turn_off_least_1bit_top:
  assumes "2 ^ m < unat x" "unat x < 2 ^ Suc m"
  shows "2 ^ m \<le> unat (turn_off_least_1bit x)" "unat (turn_off_least_1bit x) < unat x"
proof -
  have "x \<noteq> 0" using assms(1) by auto
  then have pred: "unat (x - 1) = unat x - 1" by (rule unat_minus_one)
  have "bit x m" "bit (x - 1) m" using assms pred by (auto intro!: bit_top_word)
  then show "2 ^ m \<le> unat (turn_off_least_1bit x)"
    by (intro bit_imp_le_word) (simp add: turn_off_least_1bit_def bit_and_iff)
  have "turn_off_least_1bit x \<le> x - 1" by (simp add: turn_off_least_1bit_def word_and_le1)
  then show "unat (turn_off_least_1bit x) < unat x"
    using pred assms(1) by (simp add: word_le_nat_alt)
qed

lemma turn_off_least_1bit_exp: "m < 64 \<Longrightarrow> turn_off_least_1bit (2 ^ m) = 0"
  unfolding turn_off_least_1bit_def mask_eq_exp_minus_1 [symmetric]
  by (rule bit_word_eqI) (simp add: bit_and_iff bit_mask_iff bit_exp_iff)

lemma unat_exp: "m < 64 \<Longrightarrow> unat (2 ^ m :: 64 word) = 2 ^ m"
  using unat_of_nat [of "2 ^ m", where ?'a = 64] power_strict_increasing [of m 64 "2::nat"] by simp

lemma round_to_power_of_2_top:
  "2 ^ m \<le> unat x \<Longrightarrow> unat x < 2 ^ Suc m \<Longrightarrow> round_to_power_of_2 x = Some (2 ^ m)"
proof (induction "unat x" arbitrary: x rule: less_induct)
  case less
  have m: "m < 64" using less.prems(1) by (rule exp_le_unat)
  show ?case
  proof (cases "unat x = 2 ^ m")
    case True
    then have "x = 2 ^ m" using unat_exp [OF m] by (metis word_unat_eq_iff)
    with m show ?thesis
      by (subst round_to_power_of_2.simps) (simp add: is_power_of_2_def turn_off_least_1bit_exp)
  next
    case False
    then have gt: "2 ^ m < unat x" using less.prems(1) by simp
    note t = turn_off_least_1bit_top [OF gt less.prems(2)]
    then have "\<not> is_power_of_2 x" by (auto simp: is_power_of_2_def)
    with less.hyps [OF t(2,1)] t less.prems show ?thesis
      by (subst round_to_power_of_2.simps) simp
  qed
qed

lemma is_power_of_2_iff: "is_power_of_2 x \<longleftrightarrow> (\<exists>m < 64. x = 2 ^ m)"
proof
  assume a: "is_power_of_2 x"
  then have "0 < unat x" by (simp add: is_power_of_2_def unat_gt_0)
  then obtain m where m: "2 ^ m \<le> unat x" "unat x < 2 ^ Suc m"
    using ex_top_bit by blast
  then have "round_to_power_of_2 x = Some (2 ^ m)" by (rule round_to_power_of_2_top)
  then have "x = 2 ^ m" using a by (subst (asm) round_to_power_of_2.simps) simp
  moreover have "m < 64" using m(1) by (rule exp_le_unat)
  ultimately show "\<exists>m < 64. x = 2 ^ m" by blast
next
  assume "\<exists>m < 64. x = 2 ^ m"
  then show "is_power_of_2 x" using turn_off_least_1bit_exp by (auto simp: is_power_of_2_def)
qed

lemma best_bucket_cnt_spec:
  "\<exists>m. 2 \<le> m \<and> m < 64 \<and> best_bucket_cnt h = Some (2 ^ m) \<and>
     (8 \<le> unat (hash_elem_cnt h) \<longrightarrow>
        2 ^ m \<le> unat (hash_elem_cnt h) div 2 \<and> unat (hash_elem_cnt h) div 2 < 2 ^ Suc m)"
proof -
  let ?n = "if hash_elem_cnt h div 2 < 4 then 4 else hash_elem_cnt h div 2"
  have n: "unat ?n = max 4 (unat (hash_elem_cnt h) div 2)"
    by (auto simp: unat_div word_less_nat_alt)
  obtain m where m: "2 ^ m \<le> unat ?n" "unat ?n < 2 ^ Suc m"
    using ex_top_bit [of "unat ?n"] n by (metis max.strict_coboundedI1 zero_less_numeral)
  have "2 \<le> m"
  proof (rule ccontr)
    assume "\<not> 2 \<le> m"
    then have "(2::nat) ^ Suc m \<le> 2 ^ 2" by (intro power_increasing) simp_all
    then show False using m(2) n by simp
  qed
  moreover have "m < 64" using m(1) by (rule exp_le_unat)
  ultimately show ?thesis
    using round_to_power_of_2_top [OF m] m n
    by (intro exI [of _ m]) (auto simp: best_bucket_cnt_def BEST_ELEMS_PER_BUCKET_def max_def split: if_splits)
qed

section \<open>The invariant\<close>

definition eqv :: "hash \<Rightarrow> ptr \<Rightarrow> ptr \<Rightarrow> bool" where
  "eqv h a b \<longleftrightarrow> \<not> hash_less h a b \<and> \<not> hash_less h b a"

text \<open>The callbacks fit together: elements that compare equal are interchangeable and hash alike.\<close>

definition keyed :: "hash \<Rightarrow> bool" where
  "keyed h \<longleftrightarrow> (\<forall>a. a \<noteq> NULL \<longrightarrow> eqv h a a) \<and> (\<forall>a b c. eqv h a b \<longrightarrow> eqv h b c \<longrightarrow> eqv h a c) \<and>
     (\<forall>a b. eqv h a b \<longrightarrow> hash_fun h a = hash_fun h b)"

definition elems :: "hash \<Rightarrow> ptr multiset" where
  "elems h = mset (concat (buckets h))"

definition shape :: "hash \<Rightarrow> bool" where
  "shape h \<longleftrightarrow> (\<exists>m. 2 \<le> m \<and> m < 64 \<and> bucket_cnt h = 2 ^ m \<and> length (buckets h) = 2 ^ m) \<and>
     (\<forall>i < length (buckets h). \<forall>e \<in> set (buckets h ! i). find_bucket h e = i)"

definition hash_inv :: "hash \<Rightarrow> bool" where
  "hash_inv h \<longleftrightarrow> shape h \<and> keyed h \<and> size (elems h) = unat (hash_elem_cnt h) \<and>
     distinct (concat (buckets h)) \<and> NULL \<notin># elems h \<and>
     (\<forall>a b. a \<in># elems h \<longrightarrow> b \<in># elems h \<longrightarrow> eqv h a b \<longrightarrow> a = b)"

abbreviation same_callbacks :: "hash \<Rightarrow> hash \<Rightarrow> bool" where
  "same_callbacks h h' \<equiv> hash_fun h' = hash_fun h \<and> hash_less h' = hash_less h"

lemma keyed_same: "same_callbacks h h' \<Longrightarrow> keyed h' = keyed h" "same_callbacks h h' \<Longrightarrow> eqv h' = eqv h"
  by (simp_all add: keyed_def eqv_def fun_eq_iff)

lemma find_bucket_less:
  assumes "shape h" shows "find_bucket h e < length (buckets h)"
proof -
  obtain m where m: "m < 64" "bucket_cnt h = 2 ^ m" "length (buckets h) = 2 ^ m"
    using assms by (auto simp: shape_def)
  have "find_bucket h e = unat (take_bit m (hash_fun h e))"
    by (simp add: find_bucket_def m(2) take_bit_eq_mask mask_eq_exp_minus_1)
  also have "\<dots> < 2 ^ m" using m(1) by (simp add: unsigned_take_bit_eq)
  finally show ?thesis by (simp add: m(3))
qed

lemma bucket_at_find: "shape h \<Longrightarrow> bucket_at h (find_bucket h e) = Some (buckets h ! find_bucket h e)"
  by (simp add: bucket_at_def find_bucket_less)

section \<open>Multisets of bucket contents\<close>

lemma mset_concat_update:
  "i < length bs \<Longrightarrow> mset (concat (bs[i := x # bs ! i])) = add_mset x (mset (concat bs))"
  by (induction bs arbitrary: i) (auto split: nat.split)

lemma concat_remove1_notin: "e \<notin> set (concat bs) \<Longrightarrow> map (remove1 e) bs = bs"
  by (induction bs) (auto simp: remove1_idem)

lemma mset_concat_remove1:
  "distinct (concat bs) \<Longrightarrow> mset (concat (map (remove1 e) bs)) = mset (concat bs) - {#e#}"
proof (induction bs)
  case Nil
  then show ?case by simp
next
  case (Cons b bs)
  show ?case
  proof (cases "e \<in> set b")
    case True
    then have "e \<notin> set (concat bs)" using Cons.prems by auto
    with True show ?thesis by (simp add: concat_remove1_notin subset_mset.add_diff_assoc2)
  next
    case False
    with Cons show ?thesis
      by (intro multiset_eqI) (auto simp: remove1_idem count_mset_0_iff [THEN iffD2])
  qed
qed

lemma elems_mem: "a \<in># elems h \<longleftrightarrow> (\<exists>i < length (buckets h). a \<in> set (buckets h ! i))"
  by (simp add: elems_def) (metis in_set_conv_nth)

section \<open>Rehashing keeps the elements\<close>

lemma shape_push:
  assumes "shape h" "h' = h\<lparr>hash_elem_cnt := n, buckets := (buckets h)[find_bucket h e := e # buckets h ! find_bucket h e]\<rparr>"
  shows "shape h'" "elems h' = add_mset e (elems h)" "find_bucket h' = find_bucket h"
proof -
  show "find_bucket h' = find_bucket h" by (simp add: assms(2) find_bucket_def fun_eq_iff)
  then show "shape h'" using assms find_bucket_less [OF assms(1)]
    by (auto simp: shape_def nth_list_update split: if_splits)
  show "elems h' = add_mset e (elems h)"
    using find_bucket_less [OF assms(1)] by (simp add: assms(2) elems_def mset_concat_update)
qed

lemma rehash_move_spec:
  "shape h \<Longrightarrow> \<exists>h'. rehash_move h xs = Some h' \<and> shape h' \<and> elems h' = elems h + mset xs \<and>
     same_callbacks h h' \<and> hash_elem_cnt h' = hash_elem_cnt h"
proof (induction xs arbitrary: h)
  case Nil
  then show ?case by simp
next
  case (Cons e xs)
  let ?h = "h\<lparr>hash_elem_cnt := hash_elem_cnt h, buckets := (buckets h)[find_bucket h e := e # buckets h ! find_bucket h e]\<rparr>"
  note push = shape_push [where n = "hash_elem_cnt h" and e = e, OF Cons.prems refl]
  from Cons.IH [OF push(1)] push(2) show ?case
    by (auto simp: bucket_at_find [OF Cons.prems] Let_def)
qed

lemma rehash_spec:
  assumes "shape h"
  shows "\<exists>h'. rehash mem h = Some h' \<and> shape h' \<and> elems h' = elems h \<and> same_callbacks h h' \<and>
    hash_elem_cnt h' = hash_elem_cnt h"
proof -
  obtain m where m: "2 \<le> m" "m < 64" "best_bucket_cnt h = Some (2 ^ m)"
    using best_bucket_cnt_spec by blast
  let ?h = "h\<lparr>buckets := replicate (unat (2 ^ m :: 64 word)) [], bucket_cnt := 2 ^ m\<rparr>"
  have "shape ?h" using m unat_exp [OF m(2)] by (auto simp: shape_def)
  moreover have "length (buckets h) = unat (bucket_cnt h)"
    using assms by (auto simp: shape_def unat_exp)
  moreover have "elems ?h = {#}" by (simp add: elems_def)
  ultimately show ?thesis
    using rehash_move_spec [of ?h "concat (buckets h)"] assms m(3)
    by (auto simp: rehash_def Let_def elems_def)
qed

section \<open>Searching a bucket is searching the table\<close>

text \<open>What a search for \<open>e\<close> may return: an equal element of the table, or null when there is none.\<close>

definition found :: "hash \<Rightarrow> ptr \<Rightarrow> ptr \<Rightarrow> bool" where
  "found h e r \<longleftrightarrow> (r = NULL \<and> \<not> (\<exists>a. a \<in># elems h \<and> eqv h a e)) \<or> (r \<noteq> NULL \<and> r \<in># elems h \<and> eqv h r e)"

lemma find_elem_cases:
  "e \<noteq> NULL \<Longrightarrow> NULL \<notin> set xs \<Longrightarrow>
   (find_elem h xs e = NULL \<and> (\<forall>a \<in> set xs. \<not> eqv h a e)) \<or>
   (find_elem h xs e \<noteq> NULL \<and> find_elem h xs e \<in> set xs \<and> eqv h (find_elem h xs e) e)"
  by (induction xs) (auto simp: eqv_def)

lemma find_elem_found:
  assumes inv: "hash_inv h" and e: "e \<noteq> NULL"
  shows "found h e (find_elem h (buckets h ! find_bucket h e) e)"
proof -
  let ?xs = "buckets h ! find_bucket h e"
  have sh: "shape h" and kd: "keyed h" and nn: "NULL \<notin># elems h" using inv by (simp_all add: hash_inv_def)
  note lt = find_bucket_less [OF sh, of e]
  have here: "a \<in> set ?xs" if a: "a \<in># elems h" "eqv h a e" for a
  proof -
    obtain i where i: "i < length (buckets h)" "a \<in> set (buckets h ! i)" using a(1) by (auto simp: elems_mem)
    then have "find_bucket h a = i" using sh by (auto simp: shape_def)
    moreover have "find_bucket h a = find_bucket h e"
      using kd a(2) by (simp add: keyed_def find_bucket_def)
    ultimately show ?thesis using i(2) by simp
  qed
  have "NULL \<notin> set ?xs" "\<And>a. a \<in> set ?xs \<Longrightarrow> a \<in># elems h" using nn lt elems_mem by blast+
  then show ?thesis using find_elem_cases [OF e, of ?xs h] here by (auto simp: found_def)
qed

lemma hash_find_found:
  assumes "hash_inv h" "e \<noteq> NULL"
  shows "\<exists>r. hash_find h e = Some r \<and> found h e r"
proof (cases "hash_empty h")
  case True
  then have "elems h = {#}" using assms(1) by (simp add: hash_inv_def hash_empty_def)
  with True show ?thesis by (simp add: hash_find_def found_def)
next
  case False
  have "shape h" using assms(1) by (simp add: hash_inv_def)
  then show ?thesis using False find_elem_found [OF assms] by (simp add: hash_find_def bucket_at_find)
qed

text \<open>The invariant depends on the buckets only through their shape and their elements.\<close>

lemma hash_inv_elems:
  "hash_inv h \<longleftrightarrow> shape h \<and> keyed h \<and> size (elems h) = unat (hash_elem_cnt h) \<and>
     (\<forall>a. count (elems h) a \<le> 1) \<and> NULL \<notin># elems h \<and>
     (\<forall>a b. a \<in># elems h \<longrightarrow> b \<in># elems h \<longrightarrow> eqv h a b \<longrightarrow> a = b)"
proof -
  have "distinct xs \<longleftrightarrow> (\<forall>a. count (mset xs) a \<le> 1)" for xs :: "ptr list"
    unfolding distinct_count_atmost_1 by (auto simp: count_mset_0_iff [THEN iffD2] le_Suc_eq)
  then show ?thesis by (simp add: hash_inv_def elems_def)
qed

lemma hash_inv_rehash:
  assumes "hash_inv h"
  shows "\<exists>h'. rehash mem h = Some h' \<and> hash_inv h' \<and> elems h' = elems h \<and> same_callbacks h h'"
proof -
  obtain h' where h': "rehash mem h = Some h'" "shape h'" "elems h' = elems h" "same_callbacks h h'"
      "hash_elem_cnt h' = hash_elem_cnt h"
    using rehash_spec [of h mem] assms by (auto simp: hash_inv_def)
  then have "hash_inv h'" using assms keyed_same [OF h'(4)] by (simp add: hash_inv_elems)
  with h' show ?thesis by blast
qed

section \<open>Insertion and removal of an element\<close>

lemma unat_inc: "Suc (unat n) < 2 ^ 64 \<Longrightarrow> unat (n + 1) = Suc (unat n)" for n :: "64 word"
  by (simp add: unat_word_ariths)

lemma hash_inv_insert_elem:
  assumes inv: "hash_inv h" and e: "e \<noteq> NULL" "\<not> (\<exists>a. a \<in># elems h \<and> eqv h a e)"
    and room: "Suc (size (elems h)) < 2 ^ 64"
  shows "\<exists>h'. insert_elem h (find_bucket h e) e = Some h' \<and> hash_inv h' \<and>
    elems h' = add_mset e (elems h) \<and> same_callbacks h h'"
proof -
  let ?h = "h\<lparr>hash_elem_cnt := hash_elem_cnt h + 1, buckets := (buckets h)[find_bucket h e := e # buckets h ! find_bucket h e]\<rparr>"
  have sh: "shape h" and kd: "keyed h" and cnt: "size (elems h) = unat (hash_elem_cnt h)"
    using inv by (simp_all add: hash_inv_def)
  note push = shape_push [where n = "hash_elem_cnt h + 1" and e = e, OF sh refl]
  have new: "e \<notin># elems h" using e kd by (auto simp: keyed_def)
  have sym: "eqv h a b = eqv h b a" for a b by (auto simp: eqv_def)
  have same: "keyed ?h = keyed h" "eqv ?h = eqv h" by (rule keyed_same; simp)+
  have "unat (hash_elem_cnt h + 1) = Suc (size (elems h))" using room cnt by (simp add: unat_inc)
  then have "hash_inv ?h"
    unfolding hash_inv_elems push(2) same using push(1) inv e new sym
    by (auto simp: hash_inv_elems count_eq_zero_iff)
  then show ?thesis using push(2) by (simp add: insert_elem_def bucket_at_find [OF sh])
qed

lemma hash_inv_remove_elem:
  assumes inv: "hash_inv h" and e: "e \<in># elems h"
  shows "hash_inv (remove_elem h e)" "elems (remove_elem h e) = elems h - {#e#}"
    "same_callbacks h (remove_elem h e)" "find_bucket (remove_elem h e) = find_bucket h"
proof -
  let ?h = "remove_elem h e"
  show el: "elems ?h = elems h - {#e#}"
    using inv by (simp add: elems_def remove_elem_def mset_concat_remove1 hash_inv_def)
  show cb: "same_callbacks h ?h" by (simp add: remove_elem_def)
  show fb: "find_bucket ?h = find_bucket h" by (simp add: remove_elem_def find_bucket_def fun_eq_iff)
  have "shape ?h" using inv set_remove1_subset [of e] unfolding hash_inv_def shape_def fb
    by (fastforce simp: remove_elem_def)
  moreover have "size (elems h - {#e#}) = unat (hash_elem_cnt ?h)"
  proof -
    have n0: "hash_elem_cnt h \<noteq> 0" using inv e by (auto simp: hash_inv_def)
    show ?thesis using inv e unat_minus_one [OF n0] by (simp add: hash_inv_def remove_elem_def size_Diff_singleton)
  qed
  moreover have "count (elems h - {#e#}) a \<le> 1" for a
    using inv diff_le_mono [of "count (elems h) a" 1] by (auto simp: hash_inv_elems intro: order_trans)
  moreover have "a \<in># elems h" if "a \<in># elems h - {#e#}" for a using that by (rule in_diffD)
  ultimately show "hash_inv ?h"
    using inv keyed_same [OF cb] el by (auto simp: hash_inv_elems)
qed

section \<open>The operations\<close>

lemma hash_init_inv:
  assumes "length raw = 4" "keyed \<lparr>hash_elem_cnt = 0, bucket_cnt = 4, buckets = [], hash_fun = hf, hash_less = lt\<rparr>"
  shows "\<exists>h. hash_init (Some raw) hf lt = Some h \<and> hash_inv h \<and> elems h = {#} \<and> hash_fun h = hf \<and> hash_less h = lt"
proof -
  let ?h = "\<lparr>hash_elem_cnt = 0, bucket_cnt = 4, buckets = map (\<lambda>_. []) raw, hash_fun = hf, hash_less = lt\<rparr>"
  have el: "elems ?h = {#}" by (simp add: elems_def concat_eq_Nil_conv)
  have "shape ?h" using assms(1) by (auto simp: shape_def intro!: exI [of _ 2])
  moreover have "keyed ?h" using assms(2) keyed_same(1) [of "?h\<lparr>buckets := []\<rparr>" ?h] by simp
  ultimately have "hash_inv ?h" by (simp add: hash_inv_elems el)
  with el show ?thesis using assms(1) by (simp add: hash_init_def hash_clear_def)
qed

lemma hash_insert_spec:
  assumes inv: "hash_inv h" and new: "new \<noteq> NULL" and room: "Suc (size (elems h)) < 2 ^ 64"
  shows "\<exists>old h'. hash_insert mem h new = Some (old, h') \<and> found h new old \<and> hash_inv h' \<and>
    elems h' = (if old = NULL then add_mset new (elems h) else elems h) \<and> same_callbacks h h'"
proof -
  let ?old = "find_elem h (buckets h ! find_bucket h new) new"
  have fnd: "found h new ?old" using inv new by (rule find_elem_found)
  have sh: "shape h" using inv by (simp add: hash_inv_def)
  show ?thesis
  proof (cases "?old = NULL")
    case True
    then have "\<not> (\<exists>a. a \<in># elems h \<and> eqv h a new)" using fnd by (simp add: found_def)
    from hash_inv_insert_elem [OF inv new this room] obtain h1 where
      h1: "insert_elem h (find_bucket h new) new = Some h1" "hash_inv h1" "elems h1 = add_mset new (elems h)"
        "same_callbacks h h1" by blast
    from hash_inv_rehash [OF h1(2), of mem] h1 True fnd show ?thesis
      by (auto simp: hash_insert_def bucket_at_find [OF sh] Let_def)
  next
    case False
    with hash_inv_rehash [OF inv, of mem] fnd show ?thesis
      by (auto simp: hash_insert_def bucket_at_find [OF sh] Let_def)
  qed
qed

lemma hash_delete_spec:
  assumes inv: "hash_inv h" and e: "e \<noteq> NULL"
  shows "\<exists>r h'. hash_delete mem h e = Some (r, h') \<and> found h e r \<and> hash_inv h' \<and>
    elems h' = (if r = NULL then elems h else elems h - {#r#}) \<and> same_callbacks h h'"
proof -
  let ?r = "find_elem h (buckets h ! find_bucket h e) e"
  have fnd: "found h e ?r" using inv e by (rule find_elem_found)
  have sh: "shape h" using inv by (simp add: hash_inv_def)
  show ?thesis
  proof (cases "?r = NULL")
    case True
    with inv fnd show ?thesis by (auto simp: hash_delete_def bucket_at_find [OF sh] Let_def)
  next
    case False
    then have "?r \<in># elems h" using fnd by (simp add: found_def)
    note rm = hash_inv_remove_elem [OF inv this]
    from hash_inv_rehash [OF rm(1), of mem] rm False fnd show ?thesis
      by (auto simp: hash_delete_def bucket_at_find [OF sh] Let_def)
  qed
qed

text \<open>Replacing takes the equal element out before it inserts.\<close>

lemma found_removed:
  assumes inv: "hash_inv h" and r: "r \<in># elems h" "eqv h r e"
  shows "\<not> (\<exists>a. a \<in># elems h - {#r#} \<and> eqv h a e)"
proof
  assume "\<exists>a. a \<in># elems h - {#r#} \<and> eqv h a e"
  then obtain a where a: "a \<in># elems h - {#r#}" "eqv h a e" by blast
  have "eqv h e r" using r(2) by (auto simp: eqv_def)
  then have "eqv h a r" using a(2) inv by (auto simp: hash_inv_def keyed_def)
  then have "a = r" using inv r(1) in_diffD [OF a(1)] by (auto simp: hash_inv_def)
  moreover have "count (elems h) r \<le> 1" using inv by (simp add: hash_inv_elems)
  ultimately show False using a(1) by (simp add: in_diff_count)
qed

lemma hash_replace_spec:
  assumes inv: "hash_inv h" and new: "new \<noteq> NULL" and room: "Suc (size (elems h)) < 2 ^ 64"
  shows "\<exists>old h'. hash_replace mem h new = Some (old, h') \<and> found h new old \<and> hash_inv h' \<and>
    elems h' = add_mset new (if old = NULL then elems h else elems h - {#old#}) \<and> same_callbacks h h'"
proof -
  let ?old = "find_elem h (buckets h ! find_bucket h new) new"
  let ?h = "if ?old = NULL then h else remove_elem h ?old"
  let ?E = "if ?old = NULL then elems h else elems h - {#?old#}"
  have fnd: "found h new ?old" using inv new by (rule find_elem_found)
  have sh: "shape h" using inv by (simp add: hash_inv_def)
  have mem: "?old \<in># elems h" "eqv h ?old new" if "?old \<noteq> NULL"
    using that fnd by (simp_all add: found_def)
  note rm = hash_inv_remove_elem [OF inv mem(1)]
  have h: "hash_inv ?h" "elems ?h = ?E" "same_callbacks h ?h" "find_bucket ?h = find_bucket h"
    using rm inv by auto
  have none: "\<not> (\<exists>a. a \<in># elems ?h \<and> eqv ?h a new)"
    unfolding h(2) keyed_same(2) [OF h(3)]
  proof (cases "?old = NULL")
    case True
    then show "\<not> (\<exists>a. a \<in># ?E \<and> eqv h a new)" using fnd by (simp add: found_def)
  next
    case False
    then show "\<not> (\<exists>a. a \<in># ?E \<and> eqv h a new)" using found_removed [OF inv mem] by simp
  qed
  have "Suc (size (elems ?h)) < 2 ^ 64"
    unfolding h(2) using room size_mset_mono [OF diff_subset_eq_self, of "elems h" "{#?old#}"] by simp
  from hash_inv_insert_elem [OF h(1) new none this] obtain h1 where
    "insert_elem ?h (find_bucket ?h new) new = Some h1" "hash_inv h1" "elems h1 = add_mset new (elems ?h)"
    "same_callbacks ?h h1" by blast
  then have "insert_elem ?h (find_bucket h new) new = Some h1" "hash_inv h1" "elems h1 = add_mset new ?E"
    "same_callbacks h h1" by (simp_all add: h(2) h(4) h(3))
  moreover from hash_inv_rehash [OF this(2), of mem] obtain h' where
    "rehash mem h1 = Some h'" "hash_inv h'" "elems h' = elems h1" "same_callbacks h1 h'" by blast
  ultimately show ?thesis using fnd
    by (intro exI [of _ ?old] exI [of _ h'])
      (simp add: hash_replace_def bucket_at_find [OF sh] Let_def split: if_splits)
qed

lemma hash_clear_spec:
  assumes "hash_inv h"
  shows "hash_inv (fst (hash_clear d h))" "elems (fst (hash_clear d h)) = {#}"
    "mset (snd (hash_clear d h)) = (if d then elems h else {#})"
proof -
  have len: "length (buckets h) = unat (bucket_cnt h)"
    using assms by (auto simp: hash_inv_def shape_def unat_exp)
  then show el: "elems (fst (hash_clear d h)) = {#}"
    by (simp add: hash_clear_def elems_def concat_eq_Nil_conv)
  have "shape (fst (hash_clear d h))" using assms len by (auto simp: hash_inv_def shape_def hash_clear_def)
  moreover have "keyed (fst (hash_clear d h)) = keyed h" by (rule keyed_same) (simp add: hash_clear_def)
  moreover have "hash_elem_cnt (fst (hash_clear d h)) = 0" by (simp add: hash_clear_def)
  ultimately show "hash_inv (fst (hash_clear d h))" using assms el by (simp add: hash_inv_elems)
  show "mset (snd (hash_clear d h)) = (if d then elems h else {#})"
    using len by (simp add: hash_clear_def elems_def)
qed

section \<open>Iteration\<close>

text \<open>The loop that the comment of \<open>hash_first\<close> prescribes, collecting the current elements.\<close>

fun hash_walk :: "hash \<Rightarrow> nat \<Rightarrow> hash_iterator \<Rightarrow> ptr list option" where
  "hash_walk h 0 i = None"
| "hash_walk h (Suc k) i = do {
     i \<leftarrow> hash_next h i;
     case hash_cur i of
       ElemNode e \<Rightarrow> map_option (Cons e) (hash_walk h k i)
     | NullNode \<Rightarrow> Some []
     | _ \<Rightarrow> None }"

text \<open>What is still to come: the part of the current bucket after the node, then the later buckets.\<close>

fun after_node :: "ptr list \<Rightarrow> node \<Rightarrow> ptr list" where
  "after_node xs HeadNode = xs"
| "after_node xs (ElemNode e) = tl (dropWhile (\<lambda>x. x \<noteq> e) xs)"
| "after_node xs _ = []"

definition remaining :: "hash \<Rightarrow> hash_iterator \<Rightarrow> ptr list" where
  "remaining h i = after_node (buckets h ! it_bucket i) (it_elem i) @ concat (drop (Suc (it_bucket i)) (buckets h))"

definition on_table :: "hash \<Rightarrow> hash_iterator \<Rightarrow> bool" where
  "on_table h i \<longleftrightarrow> it_bucket i < length (buckets h) \<and>
     (it_elem i = HeadNode \<or> (\<exists>e. it_elem i = ElemNode e \<and> e \<in> set (buckets h ! it_bucket i)))"

lemma next_node_after:
  "n = HeadNode \<or> (\<exists>e. n = ElemNode e \<and> e \<in> set xs) \<Longrightarrow> next_node xs n = Some (begin_node (after_node xs n))"
  by (induction xs n rule: next_node.induct) auto

lemma begin_node_cases: "begin_node xs = (case xs of [] \<Rightarrow> TailNode | x # _ \<Rightarrow> ElemNode x)"
  by (cases xs) simp_all

text \<open>The inner loop moves to the first element of the buckets that follow, if there is one.\<close>

lemma next_bucket_loop_spec:
  assumes "length (buckets h) = unat (bucket_cnt h)" "b < length (buckets h)" "length (buckets h) \<le> b + Suc k"
  shows "\<exists>i. next_bucket_loop h k \<lparr>it_bucket = b, it_elem = TailNode\<rparr> = Some i \<and>
    (case concat (drop (Suc b) (buckets h)) of
       [] \<Rightarrow> it_elem i = NullNode
     | x # rest \<Rightarrow> it_elem i = ElemNode x \<and> on_table h i \<and> remaining h i = rest)"
  using assms
proof (induction k arbitrary: b)
  case 0
  then show ?case by (subst next_bucket_loop.simps) (simp add: Let_def)
next
  case (Suc k)
  show ?case
  proof (cases "Suc b < length (buckets h)")
    case False
    then show ?thesis using Suc.prems by (subst next_bucket_loop.simps) (simp add: Let_def)
  next
    case True
    then have dr: "drop (Suc b) (buckets h) = buckets h ! Suc b # drop (Suc (Suc b)) (buckets h)"
      by (rule Cons_nth_drop_Suc [symmetric])
    show ?thesis
    proof (cases "buckets h ! Suc b")
      case Nil
      with Suc.IH [of "Suc b"] Suc.prems True dr show ?thesis
        by (subst next_bucket_loop.simps) (simp add: Let_def bucket_at_def)
    next
      case (Cons x xs)
      with Suc.prems True dr show ?thesis
        by (subst next_bucket_loop.simps)
          (simp add: Let_def bucket_at_def next_bucket_loop.simps [of h k "\<lparr>it_bucket = Suc b, it_elem = ElemNode x\<rparr>"]
            on_table_def remaining_def)
    qed
  qed
qed

lemma after_node_suffix: "after_node xs n = x # rest \<Longrightarrow> distinct xs \<Longrightarrow>
    x \<in> set xs \<and> after_node xs (ElemNode x) = rest"
proof (cases n)
  case (ElemNode e)
  assume a: "after_node xs n = x # rest" "distinct xs"
  then obtain ys where "dropWhile (\<lambda>y. y \<noteq> e) xs = ys # x # rest"
    using ElemNode by (cases "dropWhile (\<lambda>y. y \<noteq> e) xs") auto
  then have xs: "xs = takeWhile (\<lambda>y. y \<noteq> e) xs @ ys # x # rest" by (metis takeWhile_dropWhile_id)
  then have "x \<notin> set (takeWhile (\<lambda>y. y \<noteq> e) xs)" "x \<noteq> ys"
    using a(2) distinct_append by (metis disjoint_iff list.set_intros, metis distinct.simps(2) distinct_append list.set_intros(1))
  then show ?thesis
    by (subst (2) xs, subst xs) (simp, subst dropWhile_append2, auto)
qed auto

lemma hash_next_spec:
  assumes inv: "hash_inv h" and on: "on_table h i"
  shows "\<exists>i'. hash_next h i = Some i' \<and>
    (case remaining h i of
       [] \<Rightarrow> it_elem i' = NullNode
     | x # rest \<Rightarrow> it_elem i' = ElemNode x \<and> on_table h i' \<and> remaining h i' = rest)"
proof -
  let ?xs = "buckets h ! it_bucket i"
  have len: "length (buckets h) = unat (bucket_cnt h)"
    using inv by (auto simp: hash_inv_def shape_def unat_exp)
  have b: "it_bucket i < length (buckets h)" using on by (simp add: on_table_def)
  have d: "distinct ?xs" using inv b nth_mem [OF b] by (auto simp: hash_inv_def distinct_concat_iff)
  have nx: "next_node ?xs (it_elem i) = Some (begin_node (after_node ?xs (it_elem i)))"
    using on by (intro next_node_after) (auto simp: on_table_def)
  show ?thesis
  proof (cases "after_node ?xs (it_elem i)")
    case Nil
    have upd: "i\<lparr>it_elem := TailNode\<rparr> = \<lparr>it_bucket = it_bucket i, it_elem = TailNode\<rparr>" by simp
    show ?thesis
      using next_bucket_loop_spec [OF len b, of "unat (bucket_cnt h)"] len Nil nx b
      by (simp add: hash_next_def bucket_at_def remaining_def upd)
  next
    case (Cons x rest)
    from after_node_suffix [OF this d] show ?thesis
      using nx b Cons by (simp add: hash_next_def bucket_at_def remaining_def next_bucket_loop.simps on_table_def)
  qed
qed

lemma hash_walk_remaining:
  "hash_inv h \<Longrightarrow> on_table h i \<Longrightarrow> length (remaining h i) < k \<Longrightarrow> hash_walk h k i = Some (remaining h i)"
proof (induction k arbitrary: i)
  case 0
  then show ?case by simp
next
  case (Suc k)
  then show ?case using hash_next_spec [OF Suc.prems(1,2)]
    by (cases "remaining h i") (auto simp: hash_cur_def)
qed

lemma hash_walk_all:
  assumes "hash_inv h" "size (elems h) < k"
  shows "hash_walk h k (hash_first h) = Some (concat (buckets h))"
proof -
  have "0 < length (buckets h)" using assms(1) by (auto simp: hash_inv_def shape_def)
  then have on: "on_table h (hash_first h)" and r: "remaining h (hash_first h) = concat (buckets h)"
    by (cases "buckets h", simp_all add: on_table_def remaining_def hash_first_def)+
  then show ?thesis using hash_walk_remaining [OF assms(1) on] assms(2) by (simp add: elems_def)
qed

section \<open>The contract of a keyed table\<close>

text \<open>
  What a client such as the supplemental page table relies on, without buckets: a multiset of
  elements searched by an equivalence \<open>same t\<close>.  \<open>add\<close> and \<open>del\<close> return the element that was found;
  their first argument is the outcome of the allocation that growing the table needs, and no law
  depends on it.
\<close>

locale keyed_table =
  fixes tinv :: "'t \<Rightarrow> bool"
    and content :: "'t \<Rightarrow> ptr multiset"
    and same :: "'t \<Rightarrow> ptr \<Rightarrow> ptr \<Rightarrow> bool"
    and fits :: "'t \<Rightarrow> bool"
    and search :: "'t \<Rightarrow> ptr \<Rightarrow> ptr option"
    and add :: "bool \<Rightarrow> 't \<Rightarrow> ptr \<Rightarrow> (ptr \<times> 't) option"
    and del :: "bool \<Rightarrow> 't \<Rightarrow> ptr \<Rightarrow> (ptr \<times> 't) option"
  assumes same_refl: "tinv t \<Longrightarrow> a \<noteq> NULL \<Longrightarrow> same t a a"
    and same_trans: "tinv t \<Longrightarrow> same t a b \<Longrightarrow> same t b c \<Longrightarrow> same t a c"
    and same_sym: "tinv t \<Longrightarrow> same t a b \<Longrightarrow> same t b a"
    and content_unique: "tinv t \<Longrightarrow> a \<in># content t \<Longrightarrow> b \<in># content t \<Longrightarrow> same t a b \<Longrightarrow> a = b"
    and content_count: "tinv t \<Longrightarrow> count (content t) a \<le> 1"
    and content_nonnull: "tinv t \<Longrightarrow> NULL \<notin># content t"
    and search_ok: "tinv t \<Longrightarrow> e \<noteq> NULL \<Longrightarrow>
      \<exists>r. search t e = Some r \<and> (if r = NULL then \<not> (\<exists>a. a \<in># content t \<and> same t a e) else r \<in># content t \<and> same t r e)"
    and add_ok: "tinv t \<Longrightarrow> e \<noteq> NULL \<Longrightarrow> fits t \<Longrightarrow> search t e = Some r \<Longrightarrow>
      \<exists>t'. add m t e = Some (r, t') \<and> tinv t' \<and> same t' = same t \<and>
        content t' = (if r = NULL then add_mset e (content t) else content t)"
    and del_ok: "tinv t \<Longrightarrow> e \<noteq> NULL \<Longrightarrow> search t e = Some r \<Longrightarrow>
      \<exists>t'. del m t e = Some (r, t') \<and> tinv t' \<and> same t' = same t \<and> content t' = content t - {#r#}"
begin

text \<open>A search is determined by the contents.\<close>

lemma search_unique:
  assumes t: "tinv t" and a: "a \<in># content t" "same t a e" and e: "e \<noteq> NULL"
  shows "search t e = Some a"
proof -
  obtain r where r: "search t e = Some r"
      "if r = NULL then \<not> (\<exists>a. a \<in># content t \<and> same t a e) else r \<in># content t \<and> same t r e"
    using search_ok [OF t e] by blast
  have "r \<noteq> NULL" using r(2) a by (metis (full_types))
  then have r': "r \<in># content t" "same t r e" using r(2) by simp_all
  have "same t r a" using same_trans [OF t r'(2) same_sym [OF t a(2)]] .
  then show ?thesis using content_unique [OF t r'(1) a(1)] r(1) by simp
qed

lemma search_none:
  assumes "tinv t" "e \<noteq> NULL" "\<not> (\<exists>a. a \<in># content t \<and> same t a e)"
  shows "search t e = Some NULL"
  using search_ok [OF assms(1,2)] assms(3) by (auto split: if_splits)

text \<open>An element that was added is found by every key equal to its own; other keys are not affected.\<close>

lemma search_add:
  assumes t: "tinv t" and e: "e \<noteq> NULL" "search t e = Some NULL" and fits: "fits t" and k: "k \<noteq> NULL"
  shows "\<exists>t'. add m t e = Some (NULL, t') \<and> tinv t' \<and> search t' k = (if same t e k then Some e else search t k)"
proof -
  from add_ok [OF t e(1) fits e(2), of m] obtain t' where
    t': "add m t e = Some (NULL, t')" "tinv t'" "same t' = same t" "content t' = add_mset e (content t)"
    by auto
  have "search t' k = (if same t e k then Some e else search t k)"
  proof (cases "same t e k")
    case True
    then show ?thesis using search_unique [OF t'(2), of e k] k t'(3,4) by simp
  next
    case False
    obtain r where r: "search t k = Some r"
        "if r = NULL then \<not> (\<exists>a. a \<in># content t \<and> same t a k) else r \<in># content t \<and> same t r k"
      using search_ok [OF t k] by blast
    show ?thesis
    proof (cases "r = NULL")
      case True
      then show ?thesis using search_none [OF t'(2) k] r False t'(3,4) by auto
    next
      case nz: False
      then show ?thesis using search_unique [OF t'(2), of r k] r False t'(3,4) k by simp
    qed
  qed
  with t' show ?thesis by blast
qed

text \<open>After a deletion the key is absent, and deleting what was just added restores the contents.\<close>

lemma search_del:
  assumes t: "tinv t" and e: "e \<noteq> NULL"
  shows "\<exists>r t'. del m t e = Some (r, t') \<and> tinv t' \<and> search t e = Some r \<and> search t' e = Some NULL"
proof -
  obtain r where r: "search t e = Some r"
      "if r = NULL then \<not> (\<exists>a. a \<in># content t \<and> same t a e) else r \<in># content t \<and> same t r e"
    using search_ok [OF t e] by blast
  from del_ok [OF t e r(1), of m] obtain t' where
    t': "del m t e = Some (r, t')" "tinv t'" "same t' = same t" "content t' = content t - {#r#}" by auto
  have "\<not> (\<exists>a. a \<in># content t' \<and> same t' a e)"
  proof
    assume "\<exists>a. a \<in># content t' \<and> same t' a e"
    then obtain a where a: "a \<in># content t - {#r#}" "same t a e" using t'(3,4) by auto
    then have "search t e = Some a" using search_unique [OF t in_diffD] e by blast
    then have "a = r" using r(1) by simp
    then show False using a(1) content_count [OF t, of r] by (simp add: in_diff_count)
  qed
  then show ?thesis using search_none [OF t'(2) e] t' r(1) by blast
qed

lemma del_add:
  assumes t: "tinv t" and e: "e \<noteq> NULL" "search t e = Some NULL" and fits: "fits t"
  shows "\<exists>t1 t2. add m t e = Some (NULL, t1) \<and> del m' t1 e = Some (e, t2) \<and> tinv t2 \<and> content t2 = content t"
proof -
  from add_ok [OF t e(1) fits e(2), of m] obtain t1 where
    t1: "add m t e = Some (NULL, t1)" "tinv t1" "same t1 = same t" "content t1 = add_mset e (content t)"
    by auto
  have "search t1 e = Some e" using search_unique [OF t1(2), of e e] same_refl [OF t1(2)] t1(4) e(1) by simp
  from del_ok [OF t1(2) e(1) this, of m'] t1 show ?thesis by auto
qed

end

lemma found_if: "found h e r \<longleftrightarrow>
    (if r = NULL then \<not> (\<exists>a. a \<in># elems h \<and> eqv h a e) else r \<in># elems h \<and> eqv h r e)"
  by (simp add: found_def)

lemma found_unique: "hash_inv h \<Longrightarrow> found h e r \<Longrightarrow> found h e r' \<Longrightarrow> r = r'"
proof -
  assume a: "hash_inv h" "found h e r" "found h e r'"
  have "r = r'" if "eqv h r e" "eqv h r' e" "r \<in># elems h" "r' \<in># elems h"
  proof -
    have "eqv h e r'" using that(2) by (auto simp: eqv_def)
    then have "eqv h r r'" using a(1) that(1) unfolding hash_inv_def keyed_def by blast
    then show ?thesis using a(1) that(3,4) by (auto simp: hash_inv_def)
  qed
  then show ?thesis using a(2,3) by (auto simp: found_def)
qed

interpretation ht: keyed_table hash_inv elems eqv "\<lambda>h. Suc (size (elems h)) < 2 ^ 64"
  hash_find hash_insert hash_delete
proof
  fix h :: hash and a b c e r m
  assume inv: "hash_inv h"
  have keys: "keyed h" using inv by (simp add: hash_inv_def)
  show "eqv h a a" if "a \<noteq> NULL" using keys that by (simp add: keyed_def)
  show "eqv h a c" if "eqv h a b" "eqv h b c" using keys that unfolding keyed_def by blast
  show "eqv h a b \<Longrightarrow> eqv h b a" by (auto simp: eqv_def)
  show "a \<in># elems h \<Longrightarrow> b \<in># elems h \<Longrightarrow> eqv h a b \<Longrightarrow> a = b" "count (elems h) a \<le> 1" "NULL \<notin># elems h"
    using inv by (simp_all add: hash_inv_elems)
  assume e: "e \<noteq> NULL"
  show "\<exists>r. hash_find h e = Some r \<and>
      (if r = NULL then \<not> (\<exists>a. a \<in># elems h \<and> eqv h a e) else r \<in># elems h \<and> eqv h r e)"
    using hash_find_found [OF inv e] unfolding found_if .
  assume "hash_find h e = Some r"
  then have r: "found h e r" using hash_find_found [OF inv e] by auto
  show "\<exists>h'. hash_delete m h e = Some (r, h') \<and> hash_inv h' \<and> eqv h' = eqv h \<and> elems h' = elems h - {#r#}"
  proof -
    obtain r' h' where d: "hash_delete m h e = Some (r', h')" "found h e r'" "hash_inv h'"
        "elems h' = (if r' = NULL then elems h else elems h - {#r'#})" "same_callbacks h h'"
      using hash_delete_spec [OF inv e, of m] by blast
    have "elems h - {#NULL#} = elems h" using inv by (simp add: hash_inv_def diff_single_trivial)
    then show ?thesis using d found_unique [OF inv r d(2)] keyed_same(2) [OF d(5)] by (auto split: if_splits)
  qed
  assume "Suc (size (elems h)) < 2 ^ 64"
  then obtain r' h' where d: "hash_insert m h e = Some (r', h')" "found h e r'" "hash_inv h'"
      "elems h' = (if r' = NULL then add_mset e (elems h) else elems h)" "same_callbacks h h'"
    using hash_insert_spec [OF inv e, of m] by blast
  then show "\<exists>h'. hash_insert m h e = Some (r, h') \<and> hash_inv h' \<and> eqv h' = eqv h \<and>
      elems h' = (if r = NULL then add_mset e (elems h) else elems h)"
    using found_unique [OF inv r d(2)] keyed_same(2) [OF d(5)] by simp
qed

section \<open>Properties\<close>

text \<open>A table for the instances: elements are their own keys, the hash is the key.\<close>

definition demo_hash :: hash where
  "demo_hash = \<lparr>hash_elem_cnt = 2, bucket_cnt = 4, buckets = [[], [5], [6], []],
     hash_fun = of_nat, hash_less = (<)\<rparr>"

lemma demo_hash_inv: "hash_inv demo_hash" "elems demo_hash = {#5, 6#}"
proof -
  have fb: "find_bucket demo_hash 5 = 1" "find_bucket demo_hash 6 = 2"
    by (simp_all add: find_bucket_def demo_hash_def)
  have "find_bucket demo_hash e = i" if "e \<in> set (buckets demo_hash ! i)" "i < 4" for i e
  proof -
    from that(2) have "i = 0 \<or> i = 1 \<or> i = 2 \<or> i = 3" by presburger
    with that(1) fb show ?thesis by (elim disjE) (simp_all add: demo_hash_def)
  qed
  moreover have "bucket_cnt demo_hash = 2 ^ 2" "length (buckets demo_hash) = 2 ^ 2"
    by (simp_all add: demo_hash_def)
  ultimately have "shape demo_hash" unfolding shape_def by auto
  moreover have "keyed demo_hash" "\<And>a b. eqv demo_hash a b \<longleftrightarrow> a = b"
    by (auto simp: keyed_def eqv_def demo_hash_def)
  ultimately show "hash_inv demo_hash" "elems demo_hash = {#5, 6#}"
    by (simp_all add: hash_inv_def elems_def) (simp_all add: demo_hash_def)
qed

text \<open>C4: \<open>hash_insert\<close> keeps the table well formed whether or not the allocation for growing it succeeds,
  returns the equal element that was there or null, and adds the new element exactly when it was
  null.  Well-formedness includes that the number of buckets is a power of two, every element lies in
  the bucket its hash selects, no two elements are equal, and the element count is exact.\<close>

theorem hash_insert_correct:
  assumes "hash_inv h" "new \<noteq> NULL" "Suc (size (elems h)) < 2 ^ 64"
  shows "\<exists>old h'. hash_insert malloc_ok h new = Some (old, h') \<and> found h new old \<and> hash_inv h' \<and>
    elems h' = (if old = NULL then add_mset new (elems h) else elems h) \<and>
    hash_fun h' = hash_fun h \<and> hash_less h' = hash_less h"
  using hash_insert_spec [OF assms, of malloc_ok] .

theorem hash_insert_correct_witness:
  "\<exists>old h'. hash_insert True demo_hash 9 = Some (old, h') \<and> found demo_hash 9 old \<and> hash_inv h'"
  using hash_insert_correct [OF demo_hash_inv(1), of 9 True] demo_hash_inv(2) by auto

text \<open>After an insertion of a new element, a search finds it under every equal key and finds under
  every other key what it found before.\<close>

theorem hash_find_after_insert:
  assumes "hash_inv h" "e \<noteq> NULL" "hash_find h e = Some NULL" "Suc (size (elems h)) < 2 ^ 64" "k \<noteq> NULL"
  shows "\<exists>h'. hash_insert malloc_ok h e = Some (NULL, h') \<and> hash_inv h' \<and>
    hash_find h' k = (if eqv h e k then Some e else hash_find h k)"
  using assms by (rule ht.search_add)

theorem hash_find_after_insert_witness:
  "\<exists>h'. hash_insert True demo_hash 9 = Some (NULL, h') \<and> hash_find h' 9 = Some 9"
proof -
  have "hash_find demo_hash 9 = Some NULL"
    by (rule ht.search_none [OF demo_hash_inv(1)], simp, unfold demo_hash_inv(2))
      (auto simp: eqv_def demo_hash_def)
  moreover have "eqv demo_hash 9 9" by (simp add: eqv_def demo_hash_def)
  ultimately show ?thesis
    using hash_find_after_insert [OF demo_hash_inv(1), of 9 9 True] demo_hash_inv(2) by auto
qed

text \<open>\<open>hash_delete\<close> removes the element a search finds, after which a search for that key finds
  nothing.\<close>

theorem hash_delete_correct:
  assumes "hash_inv h" "e \<noteq> NULL"
  shows "\<exists>r h'. hash_delete malloc_ok h e = Some (r, h') \<and> hash_inv h' \<and> hash_find h e = Some r \<and>
    hash_find h' e = Some NULL"
  using assms by (rule ht.search_del)

theorem hash_delete_correct_witness:
  "\<exists>r h'. hash_delete True demo_hash 5 = Some (r, h') \<and> hash_find h' 5 = Some NULL"
  using hash_delete_correct [OF demo_hash_inv(1), of 5 True] by auto

text \<open>The iteration idiom \<open>hash_first\<close>, then \<open>hash_next\<close> until null, visits exactly the elements of
  the table, each once, and ends.\<close>

theorem hash_iteration_complete:
  assumes "hash_inv h"
  shows "\<exists>es. hash_walk h (Suc (size (elems h))) (hash_first h) = Some es \<and> mset es = elems h \<and> distinct es"
  using hash_walk_all [OF assms lessI] assms
  by (intro exI [of _ "concat (buckets h)"] conjI) (simp_all add: elems_def hash_inv_def del: hash_walk.simps)

theorem hash_iteration_complete_witness:
  "\<exists>es. hash_walk demo_hash 3 (hash_first demo_hash) = Some es \<and> mset es = {#5, 6#} \<and> distinct es"
  using hash_iteration_complete [OF demo_hash_inv(1)] by (simp add: demo_hash_inv(2) numeral_3_eq_3)

text \<open>C39: The bucket count that \<open>rehash\<close> computes by clearing low bits is a power of two, at least four,
  and for eight or more elements the largest one not above half the element count; the clearing loop
  ends.\<close>

theorem rehash_bucket_count:
  "\<exists>m. 2 \<le> m \<and> m < 64 \<and> best_bucket_cnt h = Some (2 ^ m) \<and>
     (8 \<le> unat (hash_elem_cnt h) \<longrightarrow>
        2 ^ m \<le> unat (hash_elem_cnt h) div 2 \<and> unat (hash_elem_cnt h) div 2 < 2 ^ Suc m)"
  by (rule best_bucket_cnt_spec)

theorem rehash_bucket_count_witness:
  "\<exists>m. 2 \<le> m \<and> best_bucket_cnt (demo_hash\<lparr>hash_elem_cnt := 23\<rparr>) = Some (2 ^ m) \<and> 2 ^ m \<le> (11::nat) \<and> 11 < (2::nat) ^ Suc m"
  using rehash_bucket_count [of "demo_hash\<lparr>hash_elem_cnt := 23\<rparr>"] by auto

end
