(* ===== verification/C_Integers.thy ===== *)
theory C_Integers
  imports Prelude "HOL-Library.Signed_Division"
begin

text \<open>
  Signed C integers.  A C \<open>int\<close> is an integer in the 32-bit range; \<open>int32\<close> and \<open>int64\<close> bring the result of
  an operation back into range (the kernel is compiled without optimisation, so the arithmetic wraps).
  C division truncates towards zero, which is \<open>sdiv\<close>; division by zero stops the kernel.
\<close>

definition int32 :: "int \<Rightarrow> int" where
  "int32 x = (x + 2 ^ 31) mod 2 ^ 32 - 2 ^ 31"

definition int64 :: "int \<Rightarrow> int" where
  "int64 x = (x + 2 ^ 63) mod 2 ^ 64 - 2 ^ 63"

definition is_int32 :: "int \<Rightarrow> bool" where
  "is_int32 x \<longleftrightarrow> - (2 ^ 31) \<le> x \<and> x < 2 ^ 31"

definition cdiv :: "int \<Rightarrow> int \<Rightarrow> int option" where
  "cdiv x y = (if y = 0 then None else Some (x sdiv y))"

lemma int32_id: "is_int32 x \<Longrightarrow> int32 x = x"
  by (simp add: int32_def is_int32_def)

lemma is_int32_int32 [simp]: "is_int32 (int32 x)"
proof -
  have "0 \<le> (x + 2 ^ 31) mod 2 ^ 32" "(x + 2 ^ 31) mod 2 ^ 32 < 2 ^ 32" by simp_all
  then show ?thesis by (simp add: int32_def is_int32_def)
qed

lemma int64_id: "- (2 ^ 63) \<le> x \<Longrightarrow> x < 2 ^ 63 \<Longrightarrow> int64 x = x"
  by (simp add: int64_def)

lemma sdiv_pos: "0 \<le> x \<Longrightarrow> 0 < y \<Longrightarrow> x sdiv y = x div y" for x y :: int
  by (simp add: signed_divide_int_def sgn_if)

lemma sdiv_neg: "x < 0 \<Longrightarrow> 0 < y \<Longrightarrow> x sdiv y = - ((- x) div y)" for x y :: int
  by (simp add: signed_divide_int_def sgn_if)

lemma sdiv_mult_self: "0 < y \<Longrightarrow> (x * y) sdiv y = x" for x y :: int
proof (cases "0 \<le> x")
  case False
  assume y: "0 < y"
  with False have "x * y < 0" by (simp add: mult_less_0_iff)
  moreover have "- (x * y) div y = - x" using y by (metis minus_mult_left nonzero_mult_div_cancel_right less_irrefl)
  ultimately show ?thesis using y by (simp add: sdiv_neg)
qed (simp add: sdiv_pos)

text \<open>Wrapping the parts of a sum or product first makes no difference.\<close>

lemma int32_mod_eq: "int32 x = int32 y \<longleftrightarrow> x mod 2 ^ 32 = y mod 2 ^ 32"
proof -
  have "int32 x = int32 y \<longleftrightarrow> (x + 2 ^ 31) mod 2 ^ 32 = (y + 2 ^ 31) mod 2 ^ 32" by (simp add: int32_def)
  also have "\<dots> \<longleftrightarrow> x mod 2 ^ 32 = y mod 2 ^ 32" unfolding mod_eq_dvd_iff by simp
  finally show ?thesis .
qed

lemma int32_mod: "int32 x mod 2 ^ 32 = x mod 2 ^ 32"
proof -
  have "int32 x mod 2 ^ 32 = (x + 2 ^ 31 - 2 ^ 31) mod 2 ^ 32" unfolding int32_def by (rule mod_diff_left_eq)
  then show ?thesis by simp
qed

lemma int32_wrap:
  "int32 (int32 x + y) = int32 (x + y)" "int32 (int32 x - y) = int32 (x - y)" "int32 (x - int32 y) = int32 (x - y)"
  "int32 (int32 x * y) = int32 (x * y)" "int32 (- int32 x) = int32 (- x)"
  unfolding int32_mod_eq
  by (metis int32_mod mod_add_left_eq, metis int32_mod mod_diff_left_eq, metis int32_mod mod_diff_right_eq,
      metis int32_mod mod_mult_left_eq, metis int32_mod mod_minus_eq)

lemma int64_wrap: "int64 (- int64 x) = int64 (- x)"
proof -
  have e: "int64 a = int64 b \<longleftrightarrow> a mod 2 ^ 64 = b mod 2 ^ 64" for a b
  proof -
    have "int64 a = int64 b \<longleftrightarrow> (a + 2 ^ 63) mod 2 ^ 64 = (b + 2 ^ 63) mod 2 ^ 64" by (simp add: int64_def)
    also have "\<dots> \<longleftrightarrow> a mod 2 ^ 64 = b mod 2 ^ 64" unfolding mod_eq_dvd_iff by simp
    finally show ?thesis .
  qed
  have "int64 x mod 2 ^ 64 = (x + 2 ^ 63 - 2 ^ 63) mod 2 ^ 64" unfolding int64_def by (rule mod_diff_left_eq)
  then have "int64 x mod 2 ^ 64 = x mod 2 ^ 64" by simp
  then show ?thesis unfolding e by (metis mod_minus_eq)
qed

end
