(* ===== verification/Fixed_Point.thy ===== *)
theory Fixed_Point
  imports C_Integers
begin

text \<open>
  The 17.14 fixed-point numbers of \<open>threads/fixed-point.c\<close>, the arithmetic of the multi-level
  feedback queue scheduler.
\<close>

section \<open>The operations\<close>

type_synonym fixed_t = int

definition F :: int where
  "F = 2 ^ 14"

definition int_to_fp :: "int \<Rightarrow> fixed_t" where
  "int_to_fp n = int32 (n * F)"

definition fp_to_int :: "fixed_t \<Rightarrow> int" where
  "fp_to_int x = int32 (x sdiv F)"

definition fp_to_int_round :: "fixed_t \<Rightarrow> int" where
  "fp_to_int_round x =
     (if x \<ge> 0 then int32 (int32 (x + F sdiv 2) sdiv F) else int32 (int32 (x - F sdiv 2) sdiv F))"

definition add_fp :: "fixed_t \<Rightarrow> fixed_t \<Rightarrow> fixed_t" where
  "add_fp x y = int32 (x + y)"

definition sub_fp :: "fixed_t \<Rightarrow> fixed_t \<Rightarrow> fixed_t" where
  "sub_fp x y = int32 (x - y)"

definition add_fp_int :: "fixed_t \<Rightarrow> int \<Rightarrow> fixed_t" where
  "add_fp_int x n = int32 (x + int32 (n * F))"

definition sub_fp_int :: "fixed_t \<Rightarrow> int \<Rightarrow> fixed_t" where
  "sub_fp_int x n = int32 (x - int32 (n * F))"

definition mul_fp :: "fixed_t \<Rightarrow> fixed_t \<Rightarrow> fixed_t" where
  "mul_fp x y = int32 (int64 (x * y) sdiv F)"

definition mul_fp_int :: "fixed_t \<Rightarrow> int \<Rightarrow> fixed_t" where
  "mul_fp_int x n = int32 (x * n)"

definition div_fp :: "fixed_t \<Rightarrow> fixed_t \<Rightarrow> fixed_t option" where
  "div_fp x y = map_option int32 (cdiv (int64 (x * F)) y)"

definition div_fp_int :: "fixed_t \<Rightarrow> int \<Rightarrow> fixed_t option" where
  "div_fp_int x n = map_option int32 (cdiv x n)"

section \<open>Their meaning\<close>

lemma F_pos [simp]: "0 < F" "F \<noteq> 0"
  by (simp_all add: F_def)

lemma div_F_bounds: "0 \<le> x \<Longrightarrow> 0 \<le> x div F \<and> x div F \<le> x" for x :: int
  using zdiv_mono2 [of x 1 F] by (simp add: pos_imp_zdiv_nonneg_iff F_def)

text \<open>\<open>fp_to_int\<close> rounds towards zero, \<open>fp_to_int_round\<close> to a nearest integer.\<close>

lemma fp_to_int_truncates:
  assumes "is_int32 x"
  shows "fp_to_int x = (if 0 \<le> x then x div F else - ((- x) div F))"
proof (cases "0 \<le> x")
  case True
  then have "is_int32 (x div F)" using assms div_F_bounds [of x] by (simp add: is_int32_def)
  with True show ?thesis by (simp add: fp_to_int_def sdiv_pos int32_id)
next
  case False
  then have "is_int32 (- ((- x) div F))" using assms div_F_bounds [of "- x"] by (simp add: is_int32_def)
  with False show ?thesis by (simp add: fp_to_int_def sdiv_neg int32_id)
qed

lemma half_div: "0 \<le> x \<Longrightarrow> \<bar>x - F * ((x + 8192) div F)\<bar> \<le> 8192" for x :: int
  using div_mult_mod_eq [of "x + 8192" F] pos_mod_bound [of F "x + 8192"] pos_mod_sign [of F "x + 8192"]
  by (simp add: F_def)

lemma fp_to_int_round_nearest:
  assumes "\<bar>x\<bar> \<le> 2 ^ 31 - F"
  shows "\<bar>x - F * fp_to_int_round x\<bar> \<le> 8192"
proof (cases "0 \<le> x")
  case True
  have a: "int32 (x + 8192) = x + 8192" using True assms by (intro int32_id) (simp add: is_int32_def F_def)
  have b: "int32 ((x + 8192) div F) = (x + 8192) div F"
    using True assms div_F_bounds [of "x + 8192"] by (intro int32_id) (simp add: is_int32_def F_def)
  have h: "F sdiv 2 = 8192" by (simp add: F_def sdiv_pos)
  show ?thesis using True a b half_div [OF True] by (simp add: fp_to_int_round_def h sdiv_pos)
next
  case False
  have a: "int32 (x - 8192) = x - 8192" using False assms by (intro int32_id) (simp add: is_int32_def F_def)
  have b: "int32 (- ((8192 - x) div F)) = - ((8192 - x) div F)"
    using False assms div_F_bounds [of "8192 - x"] by (intro int32_id) (simp add: is_int32_def F_def)
  have h: "F sdiv 2 = 8192" by (simp add: F_def sdiv_pos)
  have r: "fp_to_int_round x = - ((- x + 8192) div F)" using False a b by (simp add: fp_to_int_round_def h sdiv_neg)
  show ?thesis unfolding r using half_div [of "- x"] False by simp
qed

lemma fp_to_int_of_int:
  assumes "- (2 ^ 17) < n" "n < 2 ^ 17"
  shows "int_to_fp n = n * F" "fp_to_int (int_to_fp n) = n" "fp_to_int_round (int_to_fp n) = n"
proof -
  have r: "int32 (n * F) = n * F" using assms by (intro int32_id) (simp add: is_int32_def F_def)
  then show e: "int_to_fp n = n * F" by (simp add: int_to_fp_def)
  show "fp_to_int (int_to_fp n) = n"
    using assms by (simp add: e fp_to_int_def sdiv_mult_self int32_id is_int32_def)
  have "\<bar>n * F - F * fp_to_int_round (n * F)\<bar> \<le> 8192"
    using assms by (intro fp_to_int_round_nearest) (simp add: F_def abs_if)
  then have "\<bar>F * (n - fp_to_int_round (n * F))\<bar> \<le> 8192" by (simp add: algebra_simps)
  then have "\<bar>n - fp_to_int_round (n * F)\<bar> < 1" by (simp add: F_def abs_mult)
  then show "fp_to_int_round (int_to_fp n) = n" by (simp add: e)
qed

end
