(* ===== verification/Thread.thy ===== *)
theory Thread
  imports Fixed_Point Natural_Merge
begin

text \<open>
  The scheduler of \<open>threads/thread.c\<close>.  The kernel state is one record: the thread structures by
  address, the global lists, the running thread and the interrupt flags.  A list of threads is the
  sequence of threads whose \<open>elem\<close> it links; \<open>list_insert_ordered\<close> and \<open>list_sort\<close> with
  \<open>compare_priority\<close> act on it as \<open>insert_ordered\<close> and \<open>sort_key\<close> for the key "negated priority", which
  is what the theories on \<open>list.c\<close> prove of them.

  A thread switch changes \<open>running\<close>.  The code that follows a call of \<open>schedule\<close> runs when the thread
  is scheduled again; where all it does is restore the interrupt level it saved, the level is kept in
  \<open>resume_level\<close> of the suspended thread, which stands for that local variable on its kernel stack.
\<close>

section \<open>State\<close>

datatype thread_status = THREAD_RUNNING | THREAD_READY | THREAD_BLOCKED | THREAD_DYING

record donation =
  don_priority :: int
  donor :: ptr
  don_lock :: ptr

record thread =
  tid :: int
  status :: thread_status
  thread_name_field :: string
  priority :: int
  original_priority :: int
  donations :: "donation list"
  pending_lock :: ptr
  nice :: int
  recent_cpu :: fixed_t
  children_list :: "ptr list"
  pml4 :: ptr
  magic :: "32 word"
  resume_level :: bool

record semaphore =
  sema_value :: "32 word"
  waiters :: "ptr list"

record block_thread =
  block_threads :: ptr
  wakeup_tick :: int

record kernel =
  threads :: "ptr \<rightharpoonup> thread"
  semas :: "ptr \<rightharpoonup> semaphore"
  lock_holder :: "ptr \<rightharpoonup> ptr"
  conds :: "ptr \<rightharpoonup> ptr list"
  ready_list :: "ptr list"
  destruction_req :: "ptr list"
  all_list :: "ptr list"
  running :: ptr
  idle_thread :: ptr
  initial_thread :: ptr
  intr_on :: bool
  in_external_intr :: bool
  yield_on_return :: bool
  thread_ticks :: "32 word"
  idle_ticks :: int
  kernel_ticks :: int
  user_ticks :: int
  thread_mlfqs :: bool
  load_avg :: fixed_t
  next_tid :: int
  ticks :: int
  block_thread_list :: "block_thread list"
  closet_tick :: int

definition THREAD_MAGIC :: "32 word" where "THREAD_MAGIC = 0xcd6abf4b"
definition TIME_SLICE :: "32 word" where "TIME_SLICE = 4"
definition PRI_MIN :: int where "PRI_MIN = 0"
definition PRI_DEFAULT :: int where "PRI_DEFAULT = 31"
definition PRI_MAX :: int where "PRI_MAX = 63"
definition TID_ERROR :: int where "TID_ERROR = - 1"

section \<open>Access to thread structures\<close>

definition get_thread :: "kernel \<Rightarrow> ptr \<Rightarrow> thread option" where
  "get_thread k p = (if p = NULL then None else threads k p)"

definition upd_thread :: "kernel \<Rightarrow> ptr \<Rightarrow> (thread \<Rightarrow> thread) \<Rightarrow> kernel option" where
  "upd_thread k p f = do { t \<leftarrow> get_thread k p; Some (k\<lparr>threads := (threads k)(p \<mapsto> f t)\<rparr>) }"

definition prio :: "kernel \<Rightarrow> ptr \<Rightarrow> int" where
  "prio k p = (case threads k p of None \<Rightarrow> 0 | Some t \<Rightarrow> priority t)"

definition is_thread :: "kernel \<Rightarrow> ptr \<Rightarrow> bool option" where
  "is_thread k p = (if p = NULL then Some False else do { t \<leftarrow> threads k p; Some (magic t = THREAD_MAGIC) })"

definition thread_current :: "kernel \<Rightarrow> ptr option" where
  "thread_current k = do {
     ok \<leftarrow> is_thread k (running k);
     ASSERT ok;
     t \<leftarrow> get_thread k (running k);
     ASSERT (status t = THREAD_RUNNING);
     Some (running k) }"

text \<open>\<open>compare_priority (a, b)\<close>: higher priority comes first.\<close>

definition compare_priority :: "kernel \<Rightarrow> ptr \<Rightarrow> ptr \<Rightarrow> bool" where
  "compare_priority k a b \<longleftrightarrow> prio k a > prio k b"

definition mapped :: "kernel \<Rightarrow> ptr list \<Rightarrow> bool" where
  "mapped k xs = list_all (\<lambda>p. get_thread k p \<noteq> None) xs"

definition insert_by_priority :: "kernel \<Rightarrow> ptr \<Rightarrow> ptr list \<Rightarrow> ptr list option" where
  "insert_by_priority k e xs =
     do { ASSERT (mapped k (e # xs)); Some (insert_ordered (\<lambda>p. - prio k p) e xs) }"

definition sort_by_priority :: "kernel \<Rightarrow> ptr list \<Rightarrow> ptr list option" where
  "sort_by_priority k xs = do { ASSERT (mapped k xs); Some (sort_key (\<lambda>p. - prio k p) xs) }"

section \<open>Interrupt level\<close>

definition intr_disable :: "kernel \<Rightarrow> bool \<times> kernel" where
  "intr_disable k = (intr_on k, k\<lparr>intr_on := False\<rparr>)"

text \<open>\<open>intr_set_level\<close> at the end of a function that may have switched threads: it acts now if \<open>cur\<close>
  still runs, otherwise when \<open>cur\<close> is scheduled again.\<close>

definition intr_set_level :: "kernel \<Rightarrow> ptr \<Rightarrow> bool \<Rightarrow> kernel option" where
  "intr_set_level k cur level =
     (if running k = cur then do { ASSERT (level \<longrightarrow> \<not> in_external_intr k); Some (k\<lparr>intr_on := level\<rparr>) }
      else upd_thread k cur (\<lambda>t. t\<lparr>resume_level := level\<rparr>))"

definition intr_yield_on_return :: "kernel \<Rightarrow> kernel option" where
  "intr_yield_on_return k = do { ASSERT (in_external_intr k); Some (k\<lparr>yield_on_return := True\<rparr>) }"

section \<open>Scheduling\<close>

definition next_thread_to_run :: "kernel \<Rightarrow> ptr \<times> kernel" where
  "next_thread_to_run k =
     (case ready_list k of [] \<Rightarrow> (idle_thread k, k) | t # rest \<Rightarrow> (t, k\<lparr>ready_list := rest\<rparr>))"

text \<open>\<open>thread_launch\<close> saves the context of the running thread, of which only the interrupt flag matters
  here, and resumes \<open>th\<close>.\<close>

definition thread_launch :: "kernel \<Rightarrow> ptr \<Rightarrow> kernel option" where
  "thread_launch k th = do {
     ASSERT (\<not> intr_on k);
     k \<leftarrow> upd_thread k (running k) (\<lambda>t. t\<lparr>resume_level := intr_on k\<rparr>);
     t \<leftarrow> get_thread k th;
     Some (k\<lparr>running := th, intr_on := resume_level t\<rparr>) }"

definition schedule :: "kernel \<Rightarrow> kernel option" where
  "schedule k = do {
     let curr = running k;
     let (nxt, k) = next_thread_to_run k;
     ASSERT (\<not> intr_on k);
     c \<leftarrow> get_thread k curr;
     ASSERT (status c \<noteq> THREAD_RUNNING);
     ok \<leftarrow> is_thread k nxt;
     ASSERT ok;
     k \<leftarrow> upd_thread k nxt (\<lambda>t. t\<lparr>status := THREAD_RUNNING\<rparr>);
     let k = k\<lparr>thread_ticks := 0\<rparr>;
     if curr \<noteq> nxt then do {
       k \<leftarrow> (if status c = THREAD_DYING \<and> curr \<noteq> initial_thread k
             then do { req \<leftarrow> insert_by_priority k curr (destruction_req k);
                       Some (k\<lparr>destruction_req := req\<rparr>) }
             else Some k);
       thread_launch k nxt }
     else Some k }"

text \<open>The pages of the threads on \<open>destruction_req\<close> are freed.\<close>

definition free_victims :: "kernel \<Rightarrow> kernel" where
  "free_victims k =
     k\<lparr>threads := (\<lambda>p. if p \<in> set (destruction_req k) then None else threads k p), destruction_req := []\<rparr>"

definition do_schedule :: "kernel \<Rightarrow> thread_status \<Rightarrow> kernel option" where
  "do_schedule k st = do {
     ASSERT (\<not> intr_on k);
     cur \<leftarrow> thread_current k;
     let k = free_victims k;
     cur \<leftarrow> thread_current k;
     k \<leftarrow> upd_thread k cur (\<lambda>t. t\<lparr>status := st\<rparr>);
     schedule k }"

definition thread_block :: "kernel \<Rightarrow> kernel option" where
  "thread_block k = do {
     ASSERT (\<not> in_external_intr k);
     ASSERT (\<not> intr_on k);
     cur \<leftarrow> thread_current k;
     k \<leftarrow> upd_thread k cur (\<lambda>t. t\<lparr>status := THREAD_BLOCKED\<rparr>);
     schedule k }"

definition thread_unblock :: "kernel \<Rightarrow> ptr \<Rightarrow> kernel option" where
  "thread_unblock k p = do {
     ok \<leftarrow> is_thread k p;
     ASSERT ok;
     let (old_level, k) = intr_disable k;
     t \<leftarrow> get_thread k p;
     ASSERT (status t = THREAD_BLOCKED);
     ready \<leftarrow> insert_by_priority k p (ready_list k);
     let k = k\<lparr>ready_list := ready\<rparr>;
     k \<leftarrow> upd_thread k p (\<lambda>t. t\<lparr>status := THREAD_READY\<rparr>);
     intr_set_level k (running k) old_level }"

definition thread_yield :: "kernel \<Rightarrow> kernel option" where
  "thread_yield k = do {
     curr \<leftarrow> thread_current k;
     ASSERT (\<not> in_external_intr k);
     let (old_level, k) = intr_disable k;
     k \<leftarrow> (if curr \<noteq> idle_thread k
           then do { ready \<leftarrow> insert_by_priority k curr (ready_list k); Some (k\<lparr>ready_list := ready\<rparr>) }
           else Some k);
     k \<leftarrow> do_schedule k THREAD_READY;
     intr_set_level k curr old_level }"

definition compare_cur_next_priority :: "kernel \<Rightarrow> kernel option" where
  "compare_cur_next_priority k =
     (if ready_list k = [] then Some k
      else do {
        ready \<leftarrow> sort_by_priority k (ready_list k);
        let k = k\<lparr>ready_list := ready\<rparr>;
        cur \<leftarrow> thread_current k;
        if prio k (hd ready) > prio k cur
        then (if in_external_intr k then intr_yield_on_return k else thread_yield k)
        else Some k })"

text \<open>\<open>thread_exit\<close> after \<open>process_exit\<close>: the thread never runs again.\<close>

definition thread_exit :: "kernel \<Rightarrow> kernel option" where
  "thread_exit k = do {
     ASSERT (\<not> in_external_intr k);
     let (_, k) = intr_disable k;
     do_schedule k THREAD_DYING }"

section \<open>Priorities set by the thread itself\<close>

definition thread_get_priority :: "kernel \<Rightarrow> int option" where
  "thread_get_priority k = do { cur \<leftarrow> thread_current k; Some (prio k cur) }"

definition thread_set_priority :: "kernel \<Rightarrow> int \<Rightarrow> kernel option" where
  "thread_set_priority k new_priority =
     (if thread_mlfqs k then Some k
      else do {
        cur \<leftarrow> thread_current k;
        k \<leftarrow> upd_thread k cur (\<lambda>t. t\<lparr>original_priority := new_priority\<rparr>);
        k \<leftarrow> upd_thread k cur (\<lambda>t.
          case donations t of
            [] \<Rightarrow> t\<lparr>priority := new_priority\<rparr>
          | d # _ \<Rightarrow>
              if don_priority d > new_priority then t\<lparr>priority := don_priority d\<rparr>
              else t\<lparr>priority := new_priority\<rparr>);
        compare_cur_next_priority k })"

section \<open>The multi-level feedback queue\<close>

definition update_recent_cpu :: "kernel \<Rightarrow> kernel option" where
  "update_recent_cpu k = do {
     cur \<leftarrow> thread_current k;
     upd_thread k cur (\<lambda>t. t\<lparr>recent_cpu := add_fp_int (recent_cpu t) 1\<rparr>) }"

definition update_load_avg :: "kernel \<Rightarrow> kernel option" where
  "update_load_avg k = do {
     cur \<leftarrow> thread_current k;
     let ready_threads = int (length (ready_list k)) + (if cur \<noteq> idle_thread k then 1 else 0);
     term1 \<leftarrow> div_fp_int (mul_fp_int (load_avg k) 59) 60;
     q \<leftarrow> div_fp_int (int_to_fp 1) 60;
     let term2 = mul_fp_int q ready_threads;
     Some (k\<lparr>load_avg := add_fp term1 term2\<rparr>) }"

definition mlfqs_priority :: "fixed_t \<Rightarrow> int \<Rightarrow> int option" where
  "mlfqs_priority cpu n = do {
     q \<leftarrow> div_fp_int cpu 4;
     let new_priority = int32 (int32 (PRI_MAX - fp_to_int_round q) - int32 (n * 2));
     let new_priority = (if new_priority > PRI_MAX then PRI_MAX else new_priority);
     Some (if new_priority < PRI_MIN then PRI_MIN else new_priority) }"

definition update_priority :: "kernel \<Rightarrow> ptr \<Rightarrow> kernel option" where
  "update_priority k p =
     (if p = idle_thread k then Some k
      else do {
        t \<leftarrow> get_thread k p;
        pr \<leftarrow> mlfqs_priority (recent_cpu t) (nice t);
        upd_thread k p (\<lambda>t. t\<lparr>priority := pr\<rparr>) })"

definition decayed_recent_cpu :: "fixed_t \<Rightarrow> fixed_t \<Rightarrow> int \<Rightarrow> fixed_t option" where
  "decayed_recent_cpu load cpu n = do {
     coeff \<leftarrow> div_fp (mul_fp_int load 2) (add_fp_int (mul_fp_int load 2) 1);
     Some (add_fp (mul_fp coeff cpu) (int_to_fp n)) }"

text \<open>The loops over \<open>all_list\<close> of \<open>update_recent_cpu_all\<close> and \<open>update_all_priority\<close>.\<close>

fun recent_cpu_loop :: "kernel \<Rightarrow> ptr list \<Rightarrow> kernel option" where
  "recent_cpu_loop k [] = Some k"
| "recent_cpu_loop k (p # ps) = do {
     t \<leftarrow> get_thread k p;
     if status t = THREAD_DYING \<or> p = idle_thread k then recent_cpu_loop k ps
     else do {
       cpu \<leftarrow> decayed_recent_cpu (load_avg k) (recent_cpu t) (nice t);
       k \<leftarrow> upd_thread k p (\<lambda>t. t\<lparr>recent_cpu := cpu\<rparr>);
       recent_cpu_loop k ps } }"

definition update_recent_cpu_all :: "kernel \<Rightarrow> kernel option" where
  "update_recent_cpu_all k = recent_cpu_loop k (all_list k)"

fun priority_loop :: "kernel \<Rightarrow> ptr list \<Rightarrow> kernel option" where
  "priority_loop k [] = Some k"
| "priority_loop k (p # ps) = do {
     t \<leftarrow> get_thread k p;
     if status t = THREAD_DYING \<or> p = idle_thread k then priority_loop k ps
     else do { k \<leftarrow> update_priority k p; priority_loop k ps } }"

definition update_all_priority :: "kernel \<Rightarrow> kernel option" where
  "update_all_priority k = do {
     k \<leftarrow> priority_loop k (all_list k);
     compare_cur_next_priority k }"

definition thread_set_nice :: "kernel \<Rightarrow> int \<Rightarrow> kernel option" where
  "thread_set_nice k n = do {
     cur \<leftarrow> thread_current k;
     k \<leftarrow> upd_thread k cur (\<lambda>t. t\<lparr>nice := n\<rparr>);
     k \<leftarrow> update_priority k cur;
     compare_cur_next_priority k }"

definition thread_get_nice :: "kernel \<Rightarrow> int option" where
  "thread_get_nice k = do { cur \<leftarrow> thread_current k; t \<leftarrow> get_thread k cur; Some (nice t) }"

definition thread_get_load_avg :: "kernel \<Rightarrow> int" where
  "thread_get_load_avg k = fp_to_int_round (int32 (load_avg k * 100))"

definition thread_get_recent_cpu :: "kernel \<Rightarrow> int option" where
  "thread_get_recent_cpu k = do {
     cur \<leftarrow> thread_current k;
     t \<leftarrow> get_thread k cur;
     Some (fp_to_int_round (int32 (recent_cpu t * 100))) }"

section \<open>Timer ticks\<close>

definition TIMER_FREQ :: int where "TIMER_FREQ = 100"

text \<open>\<open>mlfqs_on_tick\<close> is in \<open>devices/timer.c\<close>; \<open>%\<close> on the nonnegative tick count is \<open>mod\<close>.\<close>

definition mlfqs_on_tick :: "kernel \<Rightarrow> kernel option" where
  "mlfqs_on_tick k = do {
     k \<leftarrow> update_recent_cpu k;
     k \<leftarrow> (if ticks k mod TIMER_FREQ = 0
           then do { k \<leftarrow> update_load_avg k; update_recent_cpu_all k }
           else Some k);
     if ticks k mod 4 = 0
     then do { k \<leftarrow> update_all_priority k; compare_cur_next_priority k }
     else Some k }"

definition thread_tick :: "kernel \<Rightarrow> kernel option" where
  "thread_tick k = do {
     t \<leftarrow> thread_current k;
     th \<leftarrow> get_thread k t;
     let k = (if t = idle_thread k then k\<lparr>idle_ticks := idle_ticks k + 1\<rparr>
              else if pml4 th \<noteq> NULL then k\<lparr>user_ticks := user_ticks k + 1\<rparr>
              else k\<lparr>kernel_ticks := kernel_ticks k + 1\<rparr>);
     k \<leftarrow> (if thread_mlfqs k then mlfqs_on_tick k else Some k);
     let k = k\<lparr>thread_ticks := thread_ticks k + 1\<rparr>;
     if thread_ticks k \<ge> TIME_SLICE then intr_yield_on_return k else Some k }"

section \<open>Creation\<close>

text \<open>Semaphores are created by \<open>sema_init\<close> of \<open>synch.c\<close>.  The semaphores inside \<open>struct thread\<close> lie at
  fixed offsets from the structure.\<close>

definition sema_init :: "kernel \<Rightarrow> ptr \<Rightarrow> 32 word \<Rightarrow> kernel option" where
  "sema_init k sema v = do {
     ASSERT (sema \<noteq> NULL);
     Some (k\<lparr>semas := (semas k)(sema \<mapsto> \<lparr>sema_value = v, waiters = []\<rparr>)\<rparr>) }"

definition wait_sema :: "ptr \<Rightarrow> ptr" where "wait_sema t = t + 168"
definition free_sema :: "ptr \<Rightarrow> ptr" where "free_sema t = t + 208"

definition init_thread :: "kernel \<Rightarrow> ptr \<Rightarrow> string \<Rightarrow> int \<Rightarrow> kernel option" where
  "init_thread k t name pri = do {
     ASSERT (t \<noteq> NULL);
     ASSERT (PRI_MIN \<le> pri \<and> pri \<le> PRI_MAX);
     let th = \<lparr>tid = 0, status = THREAD_BLOCKED, thread_name_field = take 15 name, priority = pri,
        original_priority = pri, donations = [], pending_lock = NULL, nice = 0, recent_cpu = 0,
        children_list = [], pml4 = NULL, magic = THREAD_MAGIC, resume_level = True\<rparr>;
     th \<leftarrow> (if thread_mlfqs k \<and> t \<noteq> initial_thread k
            then do { cur \<leftarrow> thread_current k; c \<leftarrow> get_thread k cur;
                      Some (th\<lparr>nice := nice c, recent_cpu := recent_cpu c\<rparr>) }
            else Some th);
     let k = k\<lparr>threads := (threads k)(t \<mapsto> th), all_list := all_list k @ [t]\<rparr>;
     k \<leftarrow> sema_init k (wait_sema t) 0;
     sema_init k (free_sema t) 0 }"

text \<open>\<open>thread_create\<close> up to \<open>allocate_tid\<close>, and after it.  \<open>page\<close> is what \<open>palloc_get_page\<close> returned,
  null when no page is free: then the call ends with \<open>TID_ERROR\<close>.  The new thread starts in
  \<open>kernel_thread\<close> with interrupts enabled.\<close>

definition thread_create_begin :: "kernel \<Rightarrow> ptr \<Rightarrow> string \<Rightarrow> int \<Rightarrow> ptr \<Rightarrow> (int + kernel) option" where
  "thread_create_begin k page name pri func = do {
     cur \<leftarrow> thread_current k;
     ASSERT (func \<noteq> NULL);
     if page = NULL then Some (Inl TID_ERROR)
     else do {
       k \<leftarrow> init_thread k page name pri;
       k \<leftarrow> (if thread_mlfqs k then update_priority k page else Some k);
       Some (Inr k) } }"

definition thread_create_end :: "kernel \<Rightarrow> ptr \<Rightarrow> int \<Rightarrow> kernel option" where
  "thread_create_end k t new_tid = do {
     cur \<leftarrow> thread_current k;
     k \<leftarrow> upd_thread k t (\<lambda>th. th\<lparr>tid := new_tid\<rparr>);
     k \<leftarrow> upd_thread k cur (\<lambda>th. th\<lparr>children_list := children_list th @ [t]\<rparr>);
     k \<leftarrow> thread_unblock k t;
     if compare_priority k t cur then thread_yield k else Some k }"

text \<open>The body of \<open>allocate_tid\<close> between \<open>lock_acquire\<close> and \<open>lock_release\<close> of \<open>tid_lock\<close>.\<close>

definition take_tid :: "kernel \<Rightarrow> int \<times> kernel" where
  "take_tid k = (next_tid k, k\<lparr>next_tid := int32 (next_tid k + 1)\<rparr>)"

end
