(* ===== verification/Synch.thy ===== *)
theory Synch
  imports Thread "HOL-Library.Product_Lexorder"
begin

text \<open>
  Semaphores, locks with priority donation, and condition variables of \<open>threads/synch.c\<close>.  A function
  that may put its caller to sleep in the middle is split at those points: the parts are the
  definitions here, and the machine of the theory on kernel execution runs them in the order of the
  code, with other threads in between.
\<close>

section \<open>Semaphores\<close>

definition get_sema :: "kernel \<Rightarrow> ptr \<Rightarrow> semaphore option" where
  "get_sema k s = (if s = NULL then None else semas k s)"

definition set_sema :: "kernel \<Rightarrow> ptr \<Rightarrow> semaphore \<Rightarrow> kernel" where
  "set_sema k s sm = k\<lparr>semas := (semas k)(s \<mapsto> sm)\<rparr>"

text \<open>One pass of the loop of \<open>sema_down\<close>, with interrupts off and the caller's level in \<open>old_level\<close>.
  \<open>True\<close>: the value was positive and has been decremented.  \<open>False\<close>: the thread was queued and blocked,
  and will test the value again when it runs next.\<close>

definition sema_down_loop :: "kernel \<Rightarrow> ptr \<Rightarrow> bool \<Rightarrow> (bool \<times> kernel) option" where
  "sema_down_loop k s old_level = do {
     sm \<leftarrow> get_sema k s;
     if sema_value sm = 0 then do {
       cur \<leftarrow> thread_current k;
       ws \<leftarrow> insert_by_priority k cur (waiters sm);
       k \<leftarrow> thread_block (set_sema k s (sm\<lparr>waiters := ws\<rparr>));
       Some (False, k) }
     else do {
       k \<leftarrow> intr_set_level (set_sema k s (sm\<lparr>sema_value := sema_value sm - 1\<rparr>)) (running k) old_level;
       Some (True, k) } }"

definition sema_down :: "kernel \<Rightarrow> ptr \<Rightarrow> (bool \<times> kernel) option" where
  "sema_down k s = do {
     ASSERT (s \<noteq> NULL);
     ASSERT (\<not> in_external_intr k);
     let (old_level, k) = intr_disable k;
     sema_down_loop k s old_level }"

definition sema_try_down :: "kernel \<Rightarrow> ptr \<Rightarrow> (bool \<times> kernel) option" where
  "sema_try_down k s = do {
     ASSERT (s \<noteq> NULL);
     sm \<leftarrow> get_sema k s;
     if sema_value sm > 0
     then Some (True, set_sema k s (sm\<lparr>sema_value := sema_value sm - 1\<rparr>))
     else Some (False, k) }"

definition sema_up :: "kernel \<Rightarrow> ptr \<Rightarrow> kernel option" where
  "sema_up k s = do {
     ASSERT (s \<noteq> NULL);
     let cur = running k;
     let (old_level, k) = intr_disable k;
     sm \<leftarrow> get_sema k s;
     k \<leftarrow> (if waiters sm \<noteq> [] then do {
             ws \<leftarrow> sort_by_priority k (waiters sm);
             thread_unblock (set_sema k s (sm\<lparr>waiters := tl ws\<rparr>)) (hd ws) }
           else Some k);
     sm \<leftarrow> get_sema k s;
     let k = set_sema k s (sm\<lparr>sema_value := sema_value sm + 1\<rparr>);
     k \<leftarrow> compare_cur_next_priority k;
     intr_set_level k cur old_level }"

section \<open>Locks\<close>

text \<open>The semaphore of the lock at \<open>l\<close> follows the \<open>holder\<close> field.\<close>

definition lock_sema :: "ptr \<Rightarrow> ptr" where
  "lock_sema l = l + 8"

definition lock_init :: "kernel \<Rightarrow> ptr \<Rightarrow> kernel option" where
  "lock_init k l = do {
     ASSERT (l \<noteq> NULL);
     sema_init (k\<lparr>lock_holder := (lock_holder k)(l \<mapsto> NULL)\<rparr>) (lock_sema l) 1 }"

definition get_holder :: "kernel \<Rightarrow> ptr \<Rightarrow> ptr option" where
  "get_holder k l = (if l = NULL then None else lock_holder k l)"

definition set_holder :: "kernel \<Rightarrow> ptr \<Rightarrow> ptr \<Rightarrow> kernel" where
  "set_holder k l t = k\<lparr>lock_holder := (lock_holder k)(l \<mapsto> t)\<rparr>"

definition lock_held_by_current_thread :: "kernel \<Rightarrow> ptr \<Rightarrow> bool option" where
  "lock_held_by_current_thread k l = do {
     ASSERT (l \<noteq> NULL);
     h \<leftarrow> get_holder k l;
     cur \<leftarrow> thread_current k;
     Some (h = cur) }"

text \<open>\<open>lock_acquire\<close> before its loop: the assertions, and where the donation walk starts.\<close>

definition lock_acquire_begin :: "kernel \<Rightarrow> ptr \<Rightarrow> (ptr \<times> kernel) option" where
  "lock_acquire_begin k l = do {
     ASSERT (l \<noteq> NULL);
     ASSERT (\<not> in_external_intr k);
     held \<leftarrow> lock_held_by_current_thread k l;
     ASSERT (\<not> held);
     cur \<leftarrow> thread_current k;
     h \<leftarrow> get_holder k l;
     if h \<noteq> NULL
     then do { k \<leftarrow> upd_thread k cur (\<lambda>t. t\<lparr>pending_lock := l\<rparr>); Some (l, k) }
     else Some (NULL, k) }"

definition create_donation :: "kernel \<Rightarrow> ptr \<Rightarrow> ptr \<Rightarrow> donation option" where
  "create_donation k t l = do {
     pr \<leftarrow> thread_get_priority k;
     Some \<lparr>don_priority = pr, donor = t, don_lock = l\<rparr> }"

definition compare_priority_for_donate :: "donation \<Rightarrow> donation \<Rightarrow> bool" where
  "compare_priority_for_donate a b \<longleftrightarrow> don_priority a > don_priority b"

text \<open>One iteration of the loop of \<open>lock_acquire\<close> for the lock \<open>pending\<close>; the result is the next lock of
  the walk, null at its end.\<close>

definition donate_step :: "kernel \<Rightarrow> ptr \<Rightarrow> (ptr \<times> kernel) option" where
  "donate_step k pending = do {
     cur \<leftarrow> thread_current k;
     h \<leftarrow> get_holder k pending;
     if h = NULL then Some (NULL, k)
     else do {
       mine \<leftarrow> thread_get_priority k;
       ht \<leftarrow> get_thread k h;
       if mine < priority ht then Some (NULL, k)
       else do {
         d \<leftarrow> create_donation k cur pending;
         k \<leftarrow> (if priority ht < mine then upd_thread k h (\<lambda>t. t\<lparr>priority := mine\<rparr>) else Some k);
         k \<leftarrow> upd_thread k h (\<lambda>t. t\<lparr>donations := insert_ordered (\<lambda>d. - don_priority d) d (donations t)\<rparr>);
         let nxt = pending_lock ht;
         if nxt \<noteq> NULL then do {
           sm \<leftarrow> get_sema k (lock_sema nxt);
           ws \<leftarrow> sort_by_priority k (waiters sm);
           Some (nxt, set_sema k (lock_sema nxt) (sm\<lparr>waiters := ws\<rparr>)) }
         else Some (NULL, k) } } }"

text \<open>\<open>lock_acquire\<close> after \<open>sema_down\<close>.\<close>

definition lock_acquire_end :: "kernel \<Rightarrow> ptr \<Rightarrow> kernel option" where
  "lock_acquire_end k l = do {
     cur \<leftarrow> thread_current k;
     k \<leftarrow> upd_thread k cur (\<lambda>t. t\<lparr>pending_lock := NULL\<rparr>);
     Some (set_holder k l cur) }"

definition lock_try_acquire :: "kernel \<Rightarrow> ptr \<Rightarrow> (bool \<times> kernel) option" where
  "lock_try_acquire k l = do {
     ASSERT (l \<noteq> NULL);
     held \<leftarrow> lock_held_by_current_thread k l;
     ASSERT (\<not> held);
     (success, k) \<leftarrow> sema_try_down k (lock_sema l);
     if success then do { cur \<leftarrow> thread_current k; Some (True, set_holder k l cur) }
     else Some (False, k) }"

definition remove_donation_for_lock :: "kernel \<Rightarrow> ptr \<Rightarrow> kernel option" where
  "remove_donation_for_lock k l = do {
     cur \<leftarrow> thread_current k;
     upd_thread k cur (\<lambda>t. t\<lparr>donations := filter (\<lambda>d. don_lock d \<noteq> l) (donations t)\<rparr>) }"

definition recalc_priority :: "kernel \<Rightarrow> kernel option" where
  "recalc_priority k = do {
     cur \<leftarrow> thread_current k;
     upd_thread k cur (\<lambda>t.
       let t = t\<lparr>priority := original_priority t\<rparr>
       in if donations t = [] then t
          else let ds = sort_key (\<lambda>d. - don_priority d) (donations t);
                   t = t\<lparr>donations := ds\<rparr>
               in if priority t < don_priority (hd ds) then t\<lparr>priority := don_priority (hd ds)\<rparr> else t) }"

text \<open>\<open>lock_release\<close> before \<open>sema_up\<close>; what follows it is a call of \<open>compare_cur_next_priority\<close>.\<close>

definition lock_release_begin :: "kernel \<Rightarrow> ptr \<Rightarrow> kernel option" where
  "lock_release_begin k l = do {
     ASSERT (l \<noteq> NULL);
     held \<leftarrow> lock_held_by_current_thread k l;
     ASSERT held;
     k \<leftarrow> remove_donation_for_lock k l;
     k \<leftarrow> recalc_priority k;
     Some (set_holder k l NULL) }"

section \<open>Condition variables\<close>

text \<open>A \<open>struct semaphore_elem\<close> at \<open>w\<close> has its semaphore after the list element.\<close>

definition waiter_sema :: "ptr \<Rightarrow> ptr" where
  "waiter_sema w = w + 16"

definition cond_init :: "kernel \<Rightarrow> ptr \<Rightarrow> kernel option" where
  "cond_init k c = do { ASSERT (c \<noteq> NULL); Some (k\<lparr>conds := (conds k)(c \<mapsto> [])\<rparr>) }"

definition get_cond :: "kernel \<Rightarrow> ptr \<Rightarrow> ptr list option" where
  "get_cond k c = (if c = NULL then None else conds k c)"

definition waiter_list :: "kernel \<Rightarrow> ptr \<Rightarrow> ptr list" where
  "waiter_list k w = (case semas k (waiter_sema w) of None \<Rightarrow> [] | Some sm \<Rightarrow> waiters sm)"

definition compare_priority_for_cond :: "kernel \<Rightarrow> ptr \<Rightarrow> ptr \<Rightarrow> bool" where
  "compare_priority_for_cond k a b =
     (if waiter_list k a = [] then False
      else if waiter_list k b = [] then True
      else prio k (hd (waiter_list k a)) > prio k (hd (waiter_list k b)))"

text \<open>The order that this comparison induces, as a key.\<close>

definition cond_key :: "kernel \<Rightarrow> ptr \<Rightarrow> int \<times> int" where
  "cond_key k w = (case waiter_list k w of [] \<Rightarrow> (1, 0) | t # _ \<Rightarrow> (0, - prio k t))"

text \<open>\<open>cond_wait\<close> up to \<open>lock_release\<close>; after it come \<open>sema_down\<close> on the waiter's semaphore and
  \<open>lock_acquire\<close>.\<close>

definition cond_wait_begin :: "kernel \<Rightarrow> ptr \<Rightarrow> ptr \<Rightarrow> ptr \<Rightarrow> kernel option" where
  "cond_wait_begin k c l w = do {
     ASSERT (c \<noteq> NULL);
     ASSERT (l \<noteq> NULL);
     ASSERT (\<not> in_external_intr k);
     held \<leftarrow> lock_held_by_current_thread k l;
     ASSERT held;
     k \<leftarrow> sema_init k (waiter_sema w) 0;
     ws \<leftarrow> get_cond k c;
     Some (k\<lparr>conds := (conds k)(c \<mapsto> insert_ordered (cond_key k) w ws)\<rparr>) }"

definition cond_signal :: "kernel \<Rightarrow> ptr \<Rightarrow> ptr \<Rightarrow> kernel option" where
  "cond_signal k c l = do {
     ASSERT (c \<noteq> NULL);
     ASSERT (l \<noteq> NULL);
     ASSERT (\<not> in_external_intr k);
     held \<leftarrow> lock_held_by_current_thread k l;
     ASSERT held;
     ws \<leftarrow> get_cond k c;
     if ws \<noteq> [] then do {
       let ws = sort_key (cond_key k) ws;
       sema_up (k\<lparr>conds := (conds k)(c \<mapsto> tl ws)\<rparr>) (waiter_sema (hd ws)) }
     else Some k }"

text \<open>The loop test of \<open>cond_broadcast\<close>; its body is \<open>cond_signal\<close>.\<close>

definition cond_broadcast_test :: "kernel \<Rightarrow> ptr \<Rightarrow> ptr \<Rightarrow> bool option" where
  "cond_broadcast_test k c l = do {
     ASSERT (c \<noteq> NULL);
     ASSERT (l \<noteq> NULL);
     ws \<leftarrow> get_cond k c;
     Some (ws \<noteq> []) }"

lemma compare_priority_for_cond_key: "compare_priority_for_cond k a b \<longleftrightarrow> cond_key k a < cond_key k b"
  by (auto simp: compare_priority_for_cond_def cond_key_def less_prod_def split: list.splits)

lemma compare_priority_key: "compare_priority k a b \<longleftrightarrow> - prio k a < - prio k b"
  by (simp add: compare_priority_def)

lemma compare_priority_for_donate_key:
  "compare_priority_for_donate a b \<longleftrightarrow> - don_priority a < - don_priority b"
  by (simp add: compare_priority_for_donate_def)

end
