(* ===== verification/Sched_Inv.thy ===== *)
theory Sched_Inv
  imports Synch
begin

text \<open>
  The scheduler's invariant and the functions that keep it.  The comment on \<open>elem\<close> in \<open>thread.h\<close>
  states half of it: a thread is on the run queue only when ready, on a semaphore's list only when
  blocked, so one list element suffices.  Every function below is also shown to return, that is, no
  assertion in it fails and every pointer it follows is valid.
\<close>

section \<open>The invariant\<close>

definition stat :: "kernel \<Rightarrow> ptr \<Rightarrow> thread_status option" where
  "stat k p = map_option status (threads k p)"

definition valid :: "kernel \<Rightarrow> bool" where
  "valid k \<longleftrightarrow> threads k NULL = None \<and> (\<forall>p t. threads k p = Some t \<longrightarrow> magic t = THREAD_MAGIC)"

definition sema_waiters :: "kernel \<Rightarrow> ptr \<Rightarrow> ptr list" where
  "sema_waiters k s = (case semas k s of None \<Rightarrow> [] | Some sm \<Rightarrow> waiters sm)"

definition sleepers :: "kernel \<Rightarrow> ptr list" where
  "sleepers k = map block_threads (block_thread_list k)"

text \<open>\<open>queues_ok f run idle ready req ws sl\<close>: the lists are duplicate free and agree with the statuses
  \<open>f\<close>; \<open>ws s\<close> are the waiters of semaphore \<open>s\<close> and \<open>sl\<close> the threads asleep on the timer.\<close>

definition queues_ok ::
  "(ptr \<rightharpoonup> thread_status) \<Rightarrow> ptr \<Rightarrow> ptr \<Rightarrow> ptr list \<Rightarrow> ptr list \<Rightarrow> (ptr \<Rightarrow> ptr list) \<Rightarrow> ptr list \<Rightarrow> bool" where
  "queues_ok f run idle ready req ws sl \<longleftrightarrow>
     (\<forall>p. f p = Some THREAD_RUNNING \<longrightarrow> p = run) \<and> run \<in> dom f \<and>
     distinct ready \<and> (\<forall>p \<in> set ready. f p = Some THREAD_READY) \<and>
     (\<forall>p. f p = Some THREAD_READY \<longrightarrow> p \<in> set ready \<or> p = idle) \<and>
     (\<forall>s. distinct (ws s) \<and> (\<forall>p \<in> set (ws s). f p = Some THREAD_BLOCKED)) \<and>
     (\<forall>s s' p. p \<in> set (ws s) \<longrightarrow> p \<in> set (ws s') \<longrightarrow> s = s') \<and>
     distinct sl \<and> (\<forall>p \<in> set sl. f p = Some THREAD_BLOCKED \<and> (\<forall>s. p \<notin> set (ws s))) \<and>
     distinct req \<and> (\<forall>p \<in> set req. f p = Some THREAD_DYING) \<and> run \<notin> set req \<and>
     idle \<in> dom f \<and> f idle \<noteq> Some THREAD_DYING \<and> idle \<notin> set ready \<and> idle \<notin> set sl \<and> (\<forall>s. idle \<notin> set (ws s))"

definition sched_core :: "kernel \<Rightarrow> bool" where
  "sched_core k \<longleftrightarrow> valid k \<and>
     queues_ok (stat k) (running k) (idle_thread k) (ready_list k) (destruction_req k) (sema_waiters k) (sleepers k)"

definition sched_inv :: "kernel \<Rightarrow> bool" where
  "sched_inv k \<longleftrightarrow> sched_core k \<and> stat k (running k) = Some THREAD_RUNNING"

text \<open>What scheduling never touches.\<close>

definition frame :: "kernel \<Rightarrow> kernel \<Rightarrow> bool" where
  "frame k k' \<longleftrightarrow> semas k' = semas k \<and> lock_holder k' = lock_holder k \<and> conds k' = conds k \<and>
     idle_thread k' = idle_thread k \<and> initial_thread k' = initial_thread k \<and> all_list k' = all_list k \<and>
     block_thread_list k' = block_thread_list k \<and> closet_tick k' = closet_tick k \<and> ticks k' = ticks k \<and>
     in_external_intr k' = in_external_intr k \<and> thread_mlfqs k' = thread_mlfqs k \<and>
     load_avg k' = load_avg k \<and> next_tid k' = next_tid k"

lemma frame_refl [simp]: "frame k k"
  by (simp add: frame_def)

lemma frame_trans [trans]: "frame k k1 \<Longrightarrow> frame k1 k2 \<Longrightarrow> frame k k2"
  by (simp add: frame_def)

lemma frame_queues: "frame k k' \<Longrightarrow> sema_waiters k' = sema_waiters k" "frame k k' \<Longrightarrow> sleepers k' = sleepers k"
    "frame k k' \<Longrightarrow> idle_thread k' = idle_thread k"
  by (simp_all add: frame_def sema_waiters_def sleepers_def fun_eq_iff)

text \<open>What a thread keeps while others run: everything but its status and resume level.\<close>

definition static :: "thread \<Rightarrow> thread" where
  "static t = t\<lparr>status := THREAD_READY, resume_level := False\<rparr>"

definition keeps :: "kernel \<Rightarrow> kernel \<Rightarrow> bool" where
  "keeps k k' \<longleftrightarrow> (\<forall>p t'. threads k' p = Some t' \<longrightarrow> (\<exists>t. threads k p = Some t \<and> static t' = static t))"

lemma keeps_refl [simp]: "keeps k k"
  by (simp add: keeps_def)

lemma keeps_trans [trans]: "keeps k k1 \<Longrightarrow> keeps k1 k2 \<Longrightarrow> keeps k k2"
  by (fastforce simp: keeps_def)

lemma keeps_upd: "threads k p = Some t \<Longrightarrow> static t' = static t \<Longrightarrow> keeps k (k\<lparr>threads := (threads k)(p \<mapsto> t')\<rparr>)"
  by (simp add: keeps_def)

lemma static_fields: "static t' = static t \<Longrightarrow> priority t' = priority t \<and> magic t' = magic t \<and>
    donations t' = donations t \<and> original_priority t' = original_priority t \<and> pending_lock t' = pending_lock t"
  by (cases t; cases t') (simp add: static_def)

lemma static_upd [simp]: "static (t\<lparr>status := s\<rparr>) = static t" "static (t\<lparr>resume_level := b\<rparr>) = static t"
  by (simp_all add: static_def)

lemma keeps_prio: "keeps k k' \<Longrightarrow> p \<in> dom (threads k') \<Longrightarrow> prio k' p = prio k p"
  by (fastforce simp: keeps_def prio_def dest: static_fields)

lemma valid_nonnull: "valid k \<Longrightarrow> stat k p \<noteq> None \<Longrightarrow> p \<noteq> NULL"
  by (auto simp: valid_def stat_def intro: gr0I)

lemma valid_Some: "valid k \<Longrightarrow> threads k p = Some t \<Longrightarrow> p \<noteq> NULL \<and> magic t = THREAD_MAGIC"
  by (auto simp: valid_def intro: gr0I)

lemma get_thread_valid: "valid k \<Longrightarrow> get_thread k p = threads k p"
  by (simp add: get_thread_def valid_def)

lemma is_thread_valid: "valid k \<Longrightarrow> stat k p \<noteq> None \<Longrightarrow> is_thread k p = Some True"
  by (auto simp: is_thread_def valid_def stat_def intro: gr0I)

lemma stat_upd: "stat (k\<lparr>threads := (threads k)(p \<mapsto> t)\<rparr>) = (stat k)(p \<mapsto> status t)"
  by (auto simp: stat_def fun_eq_iff)

lemma mapped_valid: "valid k \<Longrightarrow> (\<And>p. p \<in> set xs \<Longrightarrow> stat k p \<noteq> None) \<Longrightarrow> mapped k xs"
  by (auto simp: mapped_def list_all_iff get_thread_valid stat_def)

text \<open>Fields other than \<open>threads\<close> do not matter for looking threads up.\<close>

lemma lookup_upd:
  "mapped (k\<lparr>intr_on := b\<rparr>) xs = mapped k xs" "mapped (k\<lparr>ready_list := r\<rparr>) xs = mapped k xs"
  "mapped (k\<lparr>semas := sm\<rparr>) xs = mapped k xs" "prio (k\<lparr>intr_on := b\<rparr>) p = prio k p"
  "prio (k\<lparr>ready_list := r\<rparr>) p = prio k p" "prio (k\<lparr>semas := sm\<rparr>) p = prio k p"
  by (simp_all add: mapped_def get_thread_def prio_def)

lemma thread_current_inv: "sched_inv k \<Longrightarrow> thread_current k = Some (running k)"
  by (auto simp: sched_inv_def sched_core_def thread_current_def is_thread_valid get_thread_valid stat_def)

section \<open>Switching threads\<close>

definition next_of :: "kernel \<Rightarrow> ptr" where
  "next_of k = (if ready_list k = [] then idle_thread k else hd (ready_list k))"

lemma next_thread_to_run_eq:
  "next_thread_to_run k = (next_of k, k\<lparr>ready_list := tl (ready_list k)\<rparr>)"
  by (simp add: next_thread_to_run_def next_of_def split: list.split)

text \<open>The list side of a switch: the thread chosen leaves the run queue and runs; one that died joins
  the destruction requests.\<close>

lemma queues_okD:
  assumes "queues_ok f run idle ready req ws sl"
  shows "\<And>p. f p = Some THREAD_RUNNING \<Longrightarrow> p = run" "run \<in> dom f"
    "distinct ready" "\<And>p. p \<in> set ready \<Longrightarrow> f p = Some THREAD_READY"
    "\<And>p. f p = Some THREAD_READY \<Longrightarrow> p \<in> set ready \<or> p = idle"
    "\<And>s. distinct (ws s)" "\<And>s p. p \<in> set (ws s) \<Longrightarrow> f p = Some THREAD_BLOCKED"
    "\<And>s s' p. p \<in> set (ws s) \<Longrightarrow> p \<in> set (ws s') \<Longrightarrow> s = s'"
    "distinct sl" "\<And>p. p \<in> set sl \<Longrightarrow> f p = Some THREAD_BLOCKED" "\<And>p s. p \<in> set sl \<Longrightarrow> p \<notin> set (ws s)"
    "distinct req" "\<And>p. p \<in> set req \<Longrightarrow> f p = Some THREAD_DYING" "run \<notin> set req"
    "idle \<in> dom f" "f idle \<noteq> Some THREAD_DYING" "idle \<notin> set ready" "idle \<notin> set sl" "\<And>s. idle \<notin> set (ws s)"
  using assms by (simp_all add: queues_ok_def, blast?)

lemma queues_okI:
  assumes "\<And>p. f p = Some THREAD_RUNNING \<Longrightarrow> p = run" "run \<in> dom f"
    "distinct ready" "\<And>p. p \<in> set ready \<Longrightarrow> f p = Some THREAD_READY"
    "\<And>p. f p = Some THREAD_READY \<Longrightarrow> p \<in> set ready \<or> p = idle"
    "\<And>s. distinct (ws s)" "\<And>s p. p \<in> set (ws s) \<Longrightarrow> f p = Some THREAD_BLOCKED"
    "\<And>s s' p. p \<in> set (ws s) \<Longrightarrow> p \<in> set (ws s') \<Longrightarrow> s = s'"
    "distinct sl" "\<And>p. p \<in> set sl \<Longrightarrow> f p = Some THREAD_BLOCKED" "\<And>p s. p \<in> set sl \<Longrightarrow> p \<notin> set (ws s)"
    "distinct req" "\<And>p. p \<in> set req \<Longrightarrow> f p = Some THREAD_DYING" "run \<notin> set req"
    "idle \<in> dom f" "f idle \<noteq> Some THREAD_DYING" "idle \<notin> set ready" "idle \<notin> set sl" "\<And>s. idle \<notin> set (ws s)"
  shows "queues_ok f run idle ready req ws sl"
  unfolding queues_ok_def Ball_def by (intro conjI allI impI; rule assms; assumption)

lemma queues_switch:
  assumes q: "queues_ok f run idle ready req ws sl" and run: "f run \<noteq> Some THREAD_RUNNING"
    and nxt: "nxt = (if ready = [] then idle else hd ready)"
    and req': "req' = req \<or> (f run = Some THREAD_DYING \<and> set req' = insert run (set req) \<and> distinct req')"
  shows "queues_ok (f(nxt \<mapsto> THREAD_RUNNING)) nxt idle (tl ready) req' ws sl"
proof -
  note d = queues_okD [OF q]
  have n: "nxt = idle \<or> f nxt = Some THREAD_READY" using nxt d(4) [of nxt] by (cases ready) auto
  have nt: "nxt \<notin> set (tl ready)" using nxt d(3,17) by (cases ready) auto
  have t: "\<And>p. p \<in> set (tl ready) \<Longrightarrow> p \<in> set ready" "\<And>p. p \<in> set ready \<Longrightarrow> p = nxt \<or> p \<in> set (tl ready)"
    using nxt by (cases ready; auto)+
  have nw: "nxt \<notin> set (ws s)" for s using n d(7) [of nxt s] d(19) [of s] by auto
  have ns: "nxt \<notin> set sl" using n d(10) [of nxt] d(18) by auto
  have nr: "nxt \<notin> set req'" using n req' d(13) [of nxt] d(16) by auto
  have dr: "f p = Some THREAD_DYING" if "p \<in> set req'" for p using that req' d(13) [of p] by auto
  show ?thesis
  proof (rule queues_okI, goal_cases)
    case (1 p) then show ?case using d(1) [of p] run by (auto split: if_splits)
  next
    case 3 then show ?case using d(3) by (simp add: distinct_tl)
  next
    case (4 p) then show ?case using d(4) [OF t(1)] nt by auto
  next
    case (5 p) then show ?case using d(5) [of p] t(2) [of p] by (auto split: if_splits)
  next
    case (7 s p) then show ?case using d(7) nw by auto
  next
    case (10 p) then show ?case using d(10) ns by auto
  next
    case 12 then show ?case using d(12) req' by auto
  next
    case (13 p) then show ?case using dr nr by auto
  next
    case 17 then show ?case using t(1) d(17) by blast
  qed (use d nr in auto)
qed

lemma sched_coreD:
  assumes "sched_core k"
  shows "valid k" "queues_ok (stat k) (running k) (idle_thread k) (ready_list k) (destruction_req k) (sema_waiters k) (sleepers k)"
  using assms by (simp_all add: sched_core_def)

lemma next_of_mapped: "sched_core k \<Longrightarrow> \<exists>t. threads k (next_of k) = Some t"
proof -
  assume "sched_core k"
  note q = queues_okD [OF sched_coreD(2) [OF this]]
  have "stat k (next_of k) \<noteq> None"
    using q(15) q(4) [of "next_of k"] by (cases "ready_list k") (auto simp: next_of_def)
  then show ?thesis by (auto simp: stat_def)
qed

text \<open>Two states that differ in thread fields other than the status have the same statuses.\<close>

lemma validI: "threads k NULL = None \<Longrightarrow> (\<And>p t. threads k p = Some t \<Longrightarrow> magic t = THREAD_MAGIC) \<Longrightarrow> valid k"
  by (simp add: valid_def)

lemma keeps_valid: "valid k \<Longrightarrow> keeps k k' \<Longrightarrow> valid k'"
  unfolding valid_def keeps_def by (metis not_None_eq static_fields)

lemma stat_resume:
  "threads k p = Some t \<Longrightarrow> stat (k\<lparr>threads := (threads k)(p \<mapsto> t\<lparr>resume_level := b\<rparr>)\<rparr>) = stat k"
  by (auto simp: stat_def fun_eq_iff)

lemma thread_launch_ok:
  assumes "valid k" "\<not> intr_on k" "threads k (running k) = Some c" "threads k th = Some t" "th \<noteq> running k"
  shows "thread_launch k th = Some (k\<lparr>threads := (threads k)(running k \<mapsto> c\<lparr>resume_level := False\<rparr>),
    running := th, intr_on := resume_level t\<rparr>)"
proof -
  have "running k \<noteq> NULL" "th \<noteq> NULL" using assms valid_Some by blast+
  then show ?thesis using assms by (simp add: thread_launch_def upd_thread_def get_thread_def)
qed

definition dying_request :: "kernel \<Rightarrow> thread \<Rightarrow> kernel option" where
  "dying_request k c =
     (if status c = THREAD_DYING \<and> running k \<noteq> initial_thread k
      then do { req \<leftarrow> insert_by_priority k (running k) (destruction_req k); Some (k\<lparr>destruction_req := req\<rparr>) }
      else Some k)"

lemma schedule_eq:
  assumes v: "valid k" and off: "\<not> intr_on k" and c: "threads k (running k) = Some c" "status c \<noteq> THREAD_RUNNING"
    and t: "threads k (next_of k) = Some t"
    and k2: "k2 = k\<lparr>ready_list := tl (ready_list k), threads := (threads k)(next_of k \<mapsto> t\<lparr>status := THREAD_RUNNING\<rparr>), thread_ticks := 0\<rparr>"
  shows "schedule k =
    (if running k = next_of k then Some k2
     else Option.bind (dying_request k2 c) (\<lambda>k3. thread_launch k3 (next_of k)))"
proof -
  have "running k \<noteq> NULL" "next_of k \<noteq> NULL" "magic t = THREAD_MAGIC" using valid_Some [OF v] c t by blast+
  then show ?thesis using off c t k2
    by (simp add: schedule_def next_thread_to_run_eq upd_thread_def get_thread_def is_thread_def dying_request_def Let_def)
qed

lemma dying_request_ok:
  assumes "valid k" "\<And>p. p \<in> set (running k # destruction_req k) \<Longrightarrow> stat k p \<noteq> None"
    and "distinct (destruction_req k)" "running k \<notin> set (destruction_req k)"
  shows "\<exists>req. dying_request k c = Some (k\<lparr>destruction_req := req\<rparr>) \<and>
    (req = destruction_req k \<or>
     status c = THREAD_DYING \<and> set req = insert (running k) (set (destruction_req k)) \<and> distinct req)"
proof (cases "status c = THREAD_DYING \<and> running k \<noteq> initial_thread k")
  case True
  have "mapped k (running k # destruction_req k)" using assms(1,2) by (rule mapped_valid)
  with True assms(3,4) show ?thesis by (auto simp: dying_request_def insert_by_priority_def)
next
  case False
  then show ?thesis by (intro exI [of _ "destruction_req k"]) (auto simp: dying_request_def)
qed

lemma schedule_ok:
  assumes core: "sched_core k" and off: "\<not> intr_on k" and c: "threads k (running k) = Some c" "status c \<noteq> THREAD_RUNNING"
  shows "\<exists>k'. schedule k = Some k' \<and> sched_inv k' \<and> running k' = next_of k \<and> ready_list k' = tl (ready_list k) \<and>
    frame k k' \<and> keeps k k' \<and> stat k' = (stat k)(next_of k \<mapsto> THREAD_RUNNING)"
proof -
  let ?n = "next_of k"
  obtain t where t: "threads k ?n = Some t" using next_of_mapped [OF core] by blast
  note v = sched_coreD(1) [OF core] and q = sched_coreD(2) [OF core]
  define k2 where "k2 = k\<lparr>ready_list := tl (ready_list k), threads := (threads k)(?n \<mapsto> t\<lparr>status := THREAD_RUNNING\<rparr>), thread_ticks := 0\<rparr>"
  note s = schedule_eq [OF v off c t k2_def]
  have keep2: "keeps k k2" using keeps_upd [OF t, of "t\<lparr>status := THREAD_RUNNING\<rparr>"] by (simp add: k2_def keeps_def)
  have v2: "valid k2" using v keep2 by (rule keeps_valid)
  have stat2: "stat k2 = (stat k)(?n \<mapsto> THREAD_RUNNING)" by (auto simp: k2_def stat_def fun_eq_iff)
  have frame2: "frame k k2" by (simp add: k2_def frame_def)
  have rest2: "running k2 = running k" "destruction_req k2 = destruction_req k" "ready_list k2 = tl (ready_list k)"
      "idle_thread k2 = idle_thread k" "sema_waiters k2 = sema_waiters k" "sleepers k2 = sleepers k"
    by (simp_all add: k2_def sema_waiters_def sleepers_def fun_eq_iff)
  have run: "stat k (running k) \<noteq> Some THREAD_RUNNING" using c by (simp add: stat_def)
  have switch: "queues_ok ((stat k)(?n \<mapsto> THREAD_RUNNING)) ?n (idle_thread k) (tl (ready_list k)) req (sema_waiters k) (sleepers k)"
    if "req = destruction_req k \<or> (status c = THREAD_DYING \<and> set req = insert (running k) (set (destruction_req k)) \<and> distinct req)" for req
  proof -
    have "stat k (running k) = Some (status c)" using c(1) by (simp add: stat_def)
    then show ?thesis using queues_switch [OF q run next_of_def, of req] that by simp
  qed
  show ?thesis
  proof (cases "running k = ?n")
    case True
    have "sched_inv k2" using switch [of "destruction_req k"] v2 True
      by (simp add: sched_inv_def sched_core_def stat2 rest2)
    then show ?thesis using s True keep2 frame2 stat2 rest2 by auto
  next
    case False
    have "\<exists>req. dying_request k2 c = Some (k2\<lparr>destruction_req := req\<rparr>) \<and>
        (req = destruction_req k2 \<or> status c = THREAD_DYING \<and> set req = insert (running k2) (set (destruction_req k2)) \<and> distinct req)"
    proof (rule dying_request_ok [OF v2])
      show "stat k2 p \<noteq> None" if "p \<in> set (running k2 # destruction_req k2)" for p
        using that queues_okD(13) [OF q, of p] c(1) by (auto simp: stat2 rest2 stat_def)
    qed (use queues_okD [OF q] in \<open>simp_all add: rest2\<close>)
    then obtain req where req: "dying_request k2 c = Some (k2\<lparr>destruction_req := req\<rparr>)"
      "req = destruction_req k \<or> (status c = THREAD_DYING \<and> set req = insert (running k) (set (destruction_req k)) \<and> distinct req)"
      by (auto simp: rest2)
    let ?k3 = "k2\<lparr>destruction_req := req\<rparr>"
    let ?k' = "?k3\<lparr>threads := (threads k2)(running k \<mapsto> c\<lparr>resume_level := False\<rparr>), running := ?n, intr_on := resume_level t\<rparr>"
    have v3: "valid ?k3" using v2 by (simp add: valid_def)
    have c3: "threads k2 (running k) = Some c" "threads k2 ?n = Some (t\<lparr>status := THREAD_RUNNING\<rparr>)"
      using c False by (simp_all add: k2_def)
    have launch: "thread_launch ?k3 ?n = Some ?k'"
      using thread_launch_ok [OF v3, of c ?n "t\<lparr>status := THREAD_RUNNING\<rparr>"] c3 False off rest2(1) by (simp add: k2_def)
    have keep: "keeps k2 ?k'" using c3(1) by (auto simp: keeps_def)
    have "stat ?k' = stat k2" using c3(1) by (simp add: stat_def fun_eq_iff)
    then have st: "stat ?k' = (stat k)(?n \<mapsto> THREAD_RUNNING)" using stat2 by simp
    have fr: "frame k ?k'" using frame2 by (simp add: frame_def)
    have "sched_inv ?k'"
      using keeps_valid [OF v2 keep] switch [OF req(2)]
      by (simp add: sched_inv_def sched_core_def st frame_queues [OF fr]) (simp add: k2_def)
    then show ?thesis
      using s False req(1) launch keeps_trans [OF keep2 keep] st fr by (auto simp: k2_def)
  qed
qed

section \<open>One thread changes its status\<close>

text \<open>All other transitions move a single thread \<open>p\<close>: its status becomes \<open>st\<close>, and the lists change only
  in whether they contain \<open>p\<close>.\<close>

lemma queues_update:
  assumes q: "queues_ok f run idle ready req ws sl"
    and same: "\<And>x. x \<noteq> p \<Longrightarrow> x \<in> set ready' \<longleftrightarrow> x \<in> set ready" "\<And>x s. x \<noteq> p \<Longrightarrow> x \<in> set (ws' s) \<longleftrightarrow> x \<in> set (ws s)"
      "\<And>x. x \<noteq> p \<Longrightarrow> x \<in> set sl' \<longleftrightarrow> x \<in> set sl" "\<And>x. x \<noteq> p \<Longrightarrow> x \<in> set req' \<longleftrightarrow> x \<in> set req"
    and dist: "distinct ready'" "\<And>s. distinct (ws' s)" "distinct sl'" "distinct req'"
    and here: "p \<in> set ready' \<Longrightarrow> st = THREAD_READY" "\<And>s. p \<in> set (ws' s) \<Longrightarrow> st = THREAD_BLOCKED"
      "p \<in> set sl' \<Longrightarrow> st = THREAD_BLOCKED" "p \<in> set req' \<Longrightarrow> st = THREAD_DYING"
      "st = THREAD_READY \<Longrightarrow> p \<in> set ready' \<or> p = idle" "st = THREAD_RUNNING \<Longrightarrow> p = run"
      "\<And>s s'. p \<in> set (ws' s) \<Longrightarrow> p \<in> set (ws' s') \<Longrightarrow> s = s'" "\<And>s. p \<in> set sl' \<Longrightarrow> p \<notin> set (ws' s)"
      "p = run \<Longrightarrow> p \<notin> set req'"
    and idle: "p = idle \<Longrightarrow> st \<noteq> THREAD_DYING \<and> p \<notin> set ready' \<and> p \<notin> set sl' \<and> (\<forall>s. p \<notin> set (ws' s))"
  shows "queues_ok (f(p \<mapsto> st)) run idle ready' req' ws' sl'"
proof -
  note d = queues_okD [OF q]
  show ?thesis
  proof (rule queues_okI, goal_cases)
    case (1 x) then show ?case using d(1) [of x] here(6) by (cases "x = p") auto
  next
    case 2 then show ?case using d(2) by auto
  next
    case (4 x) then show ?case using d(4) [of x] same(1) [of x] here(1) by (cases "x = p") auto
  next
    case (5 x) then show ?case using d(5) [of x] same(1) [of x] here(5) by (cases "x = p") auto
  next
    case (7 s x) then show ?case using d(7) [of x s] same(2) [of x s] here(2) by (cases "x = p") auto
  next
    case (8 s s' x) then show ?case
      using d(8) [of x s s'] same(2) [of x s] same(2) [of x s'] here(7) by (cases "x = p") auto
  next
    case (10 x) then show ?case using d(10) [of x] same(3) [of x] here(3) by (cases "x = p") auto
  next
    case (11 x s) then show ?case
      using d(11) [of x s] same(3) [of x] same(2) [of x s] here(8) by (cases "x = p") auto
  next
    case (13 x) then show ?case using d(13) [of x] same(4) [of x] here(4) by (cases "x = p") auto
  next
    case 14 then show ?case using d(14) same(4) [of run] here(9) by (cases "run = p") auto
  next
    case 15 then show ?case using d(15) by auto
  next
    case 16 then show ?case using d(16) idle by (cases "idle = p") auto
  next
    case 17 then show ?case using d(17) same(1) [of idle] idle by (cases "idle = p") auto
  next
    case 18 then show ?case using d(18) same(3) [of idle] idle by (cases "idle = p") auto
  next
    case (19 s) then show ?case using d(19) [of s] same(2) [of idle s] idle by (cases "idle = p") auto
  qed (use dist in auto)
qed

lemma queues_free:
  assumes q: "queues_ok f run idle ready req ws sl"
  shows "queues_ok (\<lambda>p. if p \<in> set req then None else f p) run idle ready [] ws sl"
proof -
  note d = queues_okD [OF q]
  have n: "x \<notin> set req" if "f x \<noteq> Some THREAD_DYING" for x using that d(13) [of x] by auto
  show ?thesis
  proof (rule queues_okI, goal_cases)
    case (1 x) then show ?case using d(1) [of x] by (auto split: if_splits)
  next
    case 2 then show ?case using d(2,14) by auto
  next
    case (4 x) then show ?case using d(4) [of x] n [of x] by auto
  next
    case (5 x) then show ?case using d(5) [of x] by (auto split: if_splits)
  next
    case (7 s x) then show ?case using d(7) [of x s] n [of x] by auto
  next
    case (10 x) then show ?case using d(10) [of x] n [of x] by auto
  next
    case 15 then show ?case using d(15,16) n [of idle] by auto
  qed (use d n in auto)
qed

section \<open>The scheduler's functions keep the invariant\<close>

lemma free_victims_ok:
  assumes "sched_core k"
  shows "sched_core (free_victims k)" "frame k (free_victims k)" "keeps k (free_victims k)"
    "running (free_victims k) = running k" "ready_list (free_victims k) = ready_list k"
    "intr_on (free_victims k) = intr_on k" "threads (free_victims k) (running k) = threads k (running k)"
    "\<And>p. stat k p \<noteq> Some THREAD_DYING \<Longrightarrow> stat (free_victims k) p = stat k p"
proof -
  note q = queues_okD [OF sched_coreD(2) [OF assms]]
  show fr: "frame k (free_victims k)" by (simp add: frame_def free_victims_def)
  show ke: "keeps k (free_victims k)" by (auto simp: keeps_def free_victims_def)
  have st: "stat (free_victims k) = (\<lambda>p. if p \<in> set (destruction_req k) then None else stat k p)"
    by (auto simp: stat_def free_victims_def fun_eq_iff)
  show "sched_core (free_victims k)"
    using queues_free [OF sched_coreD(2) [OF assms]] keeps_valid [OF sched_coreD(1) [OF assms] ke]
    by (simp add: sched_core_def st frame_queues [OF fr]) (simp add: free_victims_def)
  show "threads (free_victims k) (running k) = threads k (running k)" using q(14) by (simp add: free_victims_def)
  show "stat (free_victims k) p = stat k p" if "stat k p \<noteq> Some THREAD_DYING" for p using that q(13) [of p] by (auto simp: st)
qed (simp_all add: free_victims_def)

lemma sched_invD:
  assumes "sched_inv k"
  shows "sched_core k" "valid k" "stat k (running k) = Some THREAD_RUNNING"
    "\<exists>c. threads k (running k) = Some c \<and> status c = THREAD_RUNNING"
  using assms by (auto simp: sched_inv_def sched_core_def stat_def)

lemma do_schedule_ok:
  assumes inv: "sched_inv k" and st: "st \<noteq> THREAD_RUNNING"
    and ready': "distinct ready'" "\<And>x. x \<noteq> running k \<Longrightarrow> x \<in> set ready' \<longleftrightarrow> x \<in> set (ready_list k)"
    and run: "running k \<in> set ready' \<Longrightarrow> st = THREAD_READY" "st = THREAD_READY \<Longrightarrow> running k \<in> set ready' \<or> running k = idle_thread k"
      "running k = idle_thread k \<Longrightarrow> st \<noteq> THREAD_DYING \<and> running k \<notin> set ready'"
  shows "\<exists>k'. do_schedule (k\<lparr>intr_on := False, ready_list := ready'\<rparr>) st = Some k' \<and> sched_inv k' \<and>
    running k' = (if ready' = [] then idle_thread k else hd ready') \<and> ready_list k' = tl ready' \<and>
    frame k k' \<and> keeps k k' \<and> running k \<in> dom (threads k') \<and>
    (\<forall>p. p \<noteq> running k \<longrightarrow> p \<noteq> running k' \<longrightarrow> stat k p \<noteq> Some THREAD_DYING \<longrightarrow> stat k' p = stat k p)"
proof -
  let ?k = "k\<lparr>intr_on := False, ready_list := ready'\<rparr>" and ?r = "running k"
  obtain c where c: "threads k ?r = Some c" "status c = THREAD_RUNNING" using sched_invD(4) [OF inv] by blast
  note core = sched_invD(1) [OF inv] and v = sched_invD(2) [OF inv]
  note fv = free_victims_ok [OF core]
  have fv_eq: "free_victims ?k = (free_victims k)\<lparr>intr_on := False, ready_list := ready'\<rparr>"
    by (simp add: free_victims_def cong: if_cong)
  define K where "K = (free_victims ?k)\<lparr>threads := (threads (free_victims k))(?r \<mapsto> c\<lparr>status := st\<rparr>)\<rparr>"
  have r0: "?r \<noteq> NULL" "magic c = THREAD_MAGIC" using valid_Some [OF v c(1)] by auto
  have ds: "do_schedule ?k st = schedule K"
    using c r0 fv(7) fv(4)
    by (simp add: do_schedule_def thread_current_def is_thread_def get_thread_def upd_thread_def fv_eq K_def)
  have frK: "frame k K" using fv(2) by (simp add: frame_def K_def fv_eq)
  have keK: "keeps k K" using fv(3) c(1) by (auto simp: keeps_def K_def fv_eq)
  have stK: "stat K = (stat (free_victims k))(?r \<mapsto> st)" by (auto simp: stat_def K_def fv_eq fun_eq_iff)
  have qf: "queues_ok (stat (free_victims k)) ?r (idle_thread k) (ready_list k) [] (sema_waiters k) (sleepers k)"
    using sched_coreD(2) [OF fv(1)] by (simp add: fv(4,5) frame_queues [OF fv(2)]) (simp add: free_victims_def)
  note d = queues_okD [OF qf]
  have rs: "stat (free_victims k) ?r = Some THREAD_RUNNING" using fv(7) c by (simp add: stat_def)
  have "queues_ok (stat K) ?r (idle_thread k) ready' [] (sema_waiters k) (sleepers k)"
    unfolding stK
  proof (rule queues_update [OF qf])
    show "\<And>s. ?r \<in> set (sema_waiters k s) \<Longrightarrow> st = THREAD_BLOCKED" using d(7) rs by fastforce
    show "?r \<in> set (sleepers k) \<Longrightarrow> st = THREAD_BLOCKED" using d(10) rs by fastforce
  qed (use ready' run st d(6,8,9,11,18,19) in auto)
  then have coreK: "sched_core K"
    using keeps_valid [OF v keK] by (simp add: sched_core_def frame_queues [OF frK]) (simp add: K_def free_victims_def)
  have nx: "next_of K = (if ready' = [] then idle_thread k else hd ready')"
    by (simp add: next_of_def K_def fv_eq) (simp add: free_victims_def)
  have cK: "threads K (running K) = Some (c\<lparr>status := st\<rparr>)" "running K = ?r" "\<not> intr_on K" "ready_list K = ready'"
    by (simp_all add: K_def fv_eq fv(4))
  obtain k' where k': "schedule K = Some k'" "sched_inv k'" "running k' = next_of K" "ready_list k' = tl ready'"
      "frame K k'" "keeps K k'" "stat k' = (stat K)(next_of K \<mapsto> THREAD_RUNNING)"
    using schedule_ok [OF coreK cK(3) cK(1)] st cK(4) by auto
  have "stat k' ?r \<noteq> None" using k'(7) stK by simp
  then have "?r \<in> dom (threads k')" by (auto simp: stat_def)
  moreover have "stat k' p = stat k p" if "p \<noteq> ?r" "p \<noteq> running k'" "stat k p \<noteq> Some THREAD_DYING" for p
    using that k'(3,7) stK fv(8) [of p] by simp
  ultimately show ?thesis
    using ds k' frame_trans [OF frK] keeps_trans [OF keK] nx by auto
qed

lemma intr_set_level_ok:
  assumes inv: "sched_inv k" and cur: "cur \<in> dom (threads k)" and ext: "running k = cur \<Longrightarrow> level \<Longrightarrow> \<not> in_external_intr k"
  shows "\<exists>k'. intr_set_level k cur level = Some k' \<and> sched_inv k' \<and> running k' = running k \<and>
    ready_list k' = ready_list k \<and> frame k k' \<and> keeps k k' \<and> stat k' = stat k \<and> yield_on_return k' = yield_on_return k \<and>
    (intr_on k' = (if running k = cur then level else intr_on k))"
proof -
  obtain t where t: "threads k cur = Some t" using cur by blast
  have c0: "cur \<noteq> NULL" using valid_Some [OF sched_invD(2) [OF inv] t] by simp
  let ?k1 = "k\<lparr>intr_on := level\<rparr>" and ?k2 = "k\<lparr>threads := (threads k)(cur \<mapsto> t\<lparr>resume_level := level\<rparr>)\<rparr>"
  have fr: "frame k ?k1" "frame k ?k2" by (simp_all add: frame_def)
  have ke: "keeps k ?k1" "keeps k ?k2" using t by (auto simp: keeps_def)
  have st: "stat ?k1 = stat k" "stat ?k2 = stat k" using t by (auto simp: stat_def fun_eq_iff)
  have "sched_inv ?k1" "sched_inv ?k2"
    using inv keeps_valid [OF sched_invD(2) [OF inv]] ke
    by (simp_all add: sched_inv_def sched_core_def st frame_queues [OF fr(1)] frame_queues [OF fr(2)])
  then show ?thesis
    using fr ke st ext c0 t by (auto simp: intr_set_level_def upd_thread_def get_thread_def)
qed

text \<open>\<open>thread_yield\<close> returns, and the thread that runs next is the head of the run queue into which the
  caller was put (the idle thread when that queue is empty).\<close>

definition yield_queue :: "kernel \<Rightarrow> ptr list" where
  "yield_queue k =
     (if running k = idle_thread k then ready_list k
      else insert_ordered (\<lambda>p. - prio k p) (running k) (ready_list k))"

definition switched :: "kernel \<Rightarrow> kernel \<Rightarrow> ptr list \<Rightarrow> bool" where
  "switched k k' ready' \<longleftrightarrow> sched_inv k' \<and> running k' = (if ready' = [] then idle_thread k else hd ready') \<and>
     ready_list k' = tl ready' \<and> frame k k' \<and> keeps k k' \<and> running k \<in> dom (threads k') \<and>
     (\<forall>p. p \<noteq> running k \<longrightarrow> p \<noteq> running k' \<longrightarrow> stat k p \<noteq> Some THREAD_DYING \<longrightarrow> stat k' p = stat k p)"

lemma thread_yield_ok:
  assumes inv: "sched_inv k" and ext: "\<not> in_external_intr k"
  shows "\<exists>k'. thread_yield k = Some k' \<and> switched k k' (yield_queue k)"
proof -
  let ?r = "running k"
  note q = queues_okD [OF sched_coreD(2) [OF sched_invD(1) [OF inv]]]
  have rr: "?r \<notin> set (ready_list k)" using q(4) [of ?r] sched_invD(3) [OF inv] by auto
  have mp: "mapped (k\<lparr>intr_on := False\<rparr>) (?r # ready_list k)"
    unfolding lookup_upd by (rule mapped_valid [OF sched_invD(2) [OF inv]]) (use q(4) sched_invD(3) [OF inv] in auto)
  have ins: "insert_by_priority (k\<lparr>intr_on := False\<rparr>) ?r (ready_list k) = Some (insert_ordered (\<lambda>p. - prio k p) ?r (ready_list k))"
    using mp by (simp add: insert_by_priority_def lookup_upd)
  have "\<exists>k'. do_schedule (k\<lparr>intr_on := False, ready_list := yield_queue k\<rparr>) THREAD_READY = Some k' \<and> switched k k' (yield_queue k)"
    unfolding switched_def
    by (rule do_schedule_ok [OF inv]) (use q(3,17) rr in \<open>auto simp: yield_queue_def\<close>)
  then obtain k1 where k1: "do_schedule (k\<lparr>intr_on := False, ready_list := yield_queue k\<rparr>) THREAD_READY = Some k1"
      "switched k k1 (yield_queue k)" by blast
  have ex1: "in_external_intr k1 = in_external_intr k" using k1(2) by (simp add: switched_def frame_def)
  obtain k2 where k2: "intr_set_level k1 ?r (intr_on k) = Some k2" "sched_inv k2" "running k2 = running k1"
      "ready_list k2 = ready_list k1" "frame k1 k2" "keeps k1 k2" "stat k2 = stat k1"
    using intr_set_level_ok [of k1 ?r "intr_on k"] k1(2) ext ex1 by (auto simp: switched_def)
  have dom: "?r \<in> dom (threads k2)"
  proof -
    have "stat k1 ?r \<noteq> None" using k1(2) by (auto simp: switched_def stat_def)
    then have "stat k2 ?r \<noteq> None" using k2(7) by simp
    then show ?thesis by (auto simp: stat_def)
  qed
  have "thread_yield k = Some k2"
    using k1(1) k2(1) ins ext thread_current_inv [OF inv]
    by (cases "?r = idle_thread k") (simp_all add: thread_yield_def intr_disable_def yield_queue_def)
  moreover have "switched k k2 (yield_queue k)"
    using k1(2) k2 dom frame_trans [of k k1 k2] keeps_trans [of k k1 k2] by (simp add: switched_def)
  ultimately show ?thesis by blast
qed

end
