(* ===== verification/Sched_Ops.thy ===== *)
theory Sched_Ops
  imports Sched_Inv
begin

text \<open>
  Wake-ups, blocking and the priority check: every one returns, keeps the scheduler's invariant, and
  after the priority check no ready thread has a higher priority than the one that runs.
\<close>

section \<open>Semaphore queues\<close>

lemma set_sema_frame:
  "threads (set_sema k s sm) = threads k" "running (set_sema k s sm) = running k"
  "ready_list (set_sema k s sm) = ready_list k" "idle_thread (set_sema k s sm) = idle_thread k"
  "destruction_req (set_sema k s sm) = destruction_req k" "sleepers (set_sema k s sm) = sleepers k"
  "in_external_intr (set_sema k s sm) = in_external_intr k" "intr_on (set_sema k s sm) = intr_on k"
  "stat (set_sema k s sm) = stat k" "valid (set_sema k s sm) = valid k" "prio (set_sema k s sm) = prio k"
  "mapped (set_sema k s sm) xs = mapped k xs"
  by (simp_all add: set_sema_def sleepers_def stat_def valid_def prio_def mapped_def get_thread_def fun_eq_iff)

lemma sema_waiters_set: "sema_waiters (set_sema k s sm) = (sema_waiters k)(s := waiters sm)"
  by (auto simp: sema_waiters_def set_sema_def fun_eq_iff)

text \<open>Taking threads off a semaphore's list, or permuting it, keeps the invariant.\<close>

lemma queues_fewer_waiters:
  assumes q: "queues_ok f run idle ready req ws sl" and w: "distinct w" "set w \<subseteq> set (ws s)"
  shows "queues_ok f run idle ready req (ws(s := w)) sl"
proof -
  note d = queues_okD [OF q]
  have sub: "x \<in> set ((ws(s := w)) s') \<Longrightarrow> x \<in> set (ws s')" for x s' using w(2) by (auto split: if_splits)
  show ?thesis
  proof (rule queues_okI, goal_cases)
    case (6 s') then show ?case using d(6) w(1) by simp
  next
    case (7 s' x) then show ?case using d(7) sub by blast
  next
    case (8 s1 s2 x) then show ?case using d(8) sub by blast
  next
    case (11 x s') then show ?case using d(11) sub by blast
  next
    case (19 s') then show ?case using d(19) sub by blast
  qed (fact d)+
qed

lemma sched_inv_fewer_waiters:
  assumes "sched_inv k" "semas k s = Some sm" "distinct (waiters sm')" "set (waiters sm') \<subseteq> set (waiters sm)"
  shows "sched_inv (set_sema k s sm')"
proof -
  have "set (waiters sm') \<subseteq> set (sema_waiters k s)" using assms(2,4) by (simp add: sema_waiters_def)
  from queues_fewer_waiters [OF sched_coreD(2) [OF sched_invD(1) [OF assms(1)]] assms(3) this] assms(1)
  show ?thesis by (simp add: sched_inv_def sched_core_def set_sema_frame sema_waiters_set)
qed

section \<open>Waking a thread\<close>

lemma thread_unblock_ok:
  assumes inv: "sched_inv k" and p: "stat k p = Some THREAD_BLOCKED" "p \<noteq> idle_thread k"
    and off: "\<And>s. p \<notin> set (sema_waiters k s)" "p \<notin> set (sleepers k)" and ext: "intr_on k \<Longrightarrow> \<not> in_external_intr k"
  shows "\<exists>k'. thread_unblock k p = Some k' \<and> sched_inv k' \<and> frame k k' \<and> keeps k k' \<and> running k' = running k \<and>
    ready_list k' = insert_ordered (\<lambda>x. - prio k x) p (ready_list k) \<and> stat k' = (stat k)(p \<mapsto> THREAD_READY) \<and>
    intr_on k' = intr_on k \<and> yield_on_return k' = yield_on_return k"
proof -
  note core = sched_invD(1) [OF inv] and v = sched_invD(2) [OF inv]
  note q = queues_okD [OF sched_coreD(2) [OF core]]
  obtain t where t: "threads k p = Some t" "status t = THREAD_BLOCKED" using p(1) by (auto simp: stat_def)
  have p0: "p \<noteq> NULL" using valid_Some [OF v t(1)] by simp
  let ?ready = "insert_ordered (\<lambda>x. - prio k x) p (ready_list k)"
  let ?k = "k\<lparr>ready_list := ?ready, threads := (threads k)(p \<mapsto> t\<lparr>status := THREAD_READY\<rparr>)\<rparr>"
  have "mapped k (p # ready_list k)" by (rule mapped_valid [OF v]) (use q(4) p(1) in auto)
  then have ins: "insert_by_priority (k\<lparr>intr_on := False\<rparr>) p (ready_list k) = Some ?ready"
    by (simp add: insert_by_priority_def lookup_upd)
  have eq: "thread_unblock k p = Some ?k"
    using is_thread_valid [OF v, of p] p(1) t p0 ins ext
    by (simp add: thread_unblock_def intr_disable_def get_thread_def upd_thread_def intr_set_level_def)
  have fr: "frame k ?k" by (simp add: frame_def)
  have ke: "keeps k ?k" using t(1) by (auto simp: keeps_def)
  have st: "stat ?k = (stat k)(p \<mapsto> THREAD_READY)" by (auto simp: stat_def fun_eq_iff)
  have pr: "p \<notin> set (ready_list k)" "p \<notin> set (destruction_req k)" "p \<noteq> running k"
    using q(4) [of p] q(13) [of p] p(1) sched_invD(3) [OF inv] by auto
  have "queues_ok ((stat k)(p \<mapsto> THREAD_READY)) (running k) (idle_thread k) ?ready (destruction_req k) (sema_waiters k) (sleepers k)"
    by (rule queues_update [OF sched_coreD(2) [OF core]]) (use q(3,6,9,12) p(2) off pr in auto)
  then have "sched_inv ?k"
    using keeps_valid [OF v ke] pr(3) sched_invD(3) [OF inv]
    by (simp add: sched_inv_def sched_core_def st frame_queues [OF fr])
  with eq fr ke st show ?thesis by auto
qed

section \<open>The priority check\<close>

lemma sched_inv_reorder_ready:
  assumes inv: "sched_inv k" and r: "distinct r" "set r = set (ready_list k)"
  shows "sched_inv (k\<lparr>ready_list := r\<rparr>)"
proof -
  have fr: "frame k (k\<lparr>ready_list := r\<rparr>)" by (simp add: frame_def)
  have st: "stat (k\<lparr>ready_list := r\<rparr>) = stat k" by (simp add: stat_def fun_eq_iff)
  have "valid (k\<lparr>ready_list := r\<rparr>)" using sched_invD(2) [OF inv] by (simp add: valid_def)
  moreover have "queues_ok (stat k) (running k) (idle_thread k) r (destruction_req k) (sema_waiters k) (sleepers k)"
    by (rule queues_okI) (use queues_okD [OF sched_coreD(2) [OF sched_invD(1) [OF inv]]] r in auto)
  ultimately show ?thesis using sched_invD(3) [OF inv]
    by (simp add: sched_inv_def sched_core_def st frame_queues [OF fr])
qed

definition top_runs :: "kernel \<Rightarrow> bool" where
  "top_runs k \<longleftrightarrow> (\<forall>p \<in> set (ready_list k). prio k p \<le> prio k (running k))"

lemma sorted_hd: "sorted (map f (x # xs)) \<Longrightarrow> y \<in> set xs \<Longrightarrow> f x \<le> f y"
  by simp

lemma switched_top:
  assumes "switched k k' q" "sorted (map (\<lambda>p. - prio k p) q)"
  shows "top_runs k'"
proof -
  have inv: "sched_inv k'" and keep: "keeps k k'" and tl: "ready_list k' = tl q"
    and run: "running k' = (if q = [] then idle_thread k else hd q)" using assms(1) by (simp_all add: switched_def)
  have dom: "p \<in> dom (threads k')" if "p \<in> set (ready_list k') \<or> p = running k'" for p
    using that queues_okD(4) [OF sched_coreD(2) [OF sched_invD(1) [OF inv]], of p] sched_invD(4) [OF inv]
    by (auto simp: stat_def)
  show ?thesis unfolding top_runs_def
  proof
    fix p assume p: "p \<in> set (ready_list k')"
    then obtain x xs where q: "q = x # xs" using tl by (cases q) auto
    then have "- prio k x \<le> - prio k p" using sorted_hd [of "\<lambda>p. - prio k p" x xs p] assms(2) p tl by simp
    then show "prio k' p \<le> prio k' (running k')"
      using keeps_prio [OF keep dom] p run q by simp
  qed
qed

lemma compare_cur_next_priority_ok:
  assumes inv: "sched_inv k"
  shows "\<exists>k'. compare_cur_next_priority k = Some k' \<and> sched_inv k' \<and> frame k k' \<and> keeps k k' \<and>
    running k \<in> dom (threads k') \<and> (\<not> in_external_intr k \<longrightarrow> top_runs k') \<and>
    (in_external_intr k \<longrightarrow> running k' = running k \<and> intr_on k' = intr_on k)"
proof (cases "ready_list k = []")
  case True
  then show ?thesis using inv sched_invD(4) [OF inv] by (auto simp: compare_cur_next_priority_def top_runs_def)
next
  case False
  let ?r = "sort_key (\<lambda>p. - prio k p) (ready_list k)"
  let ?k = "k\<lparr>ready_list := ?r\<rparr>"
  note q = queues_okD [OF sched_coreD(2) [OF sched_invD(1) [OF inv]]]
  have inv1: "sched_inv ?k" by (rule sched_inv_reorder_ready [OF inv]) (use q(3) in simp_all)
  have "mapped k (ready_list k)" by (rule mapped_valid [OF sched_invD(2) [OF inv]]) (use q(4) in auto)
  then have srt: "sort_by_priority k (ready_list k) = Some ?r" by (simp add: sort_by_priority_def)
  have fr: "frame k ?k" "keeps k ?k" by (simp_all add: frame_def keeps_def)
  have ne: "?r \<noteq> []" using False by (metis length_0_conv length_sort)
  have max: "prio k p \<le> prio k (hd ?r)" if "p \<in> set (ready_list k)" for p
  proof -
    obtain x xs where r: "?r = x # xs" using ne by (cases ?r) auto
    then have "p = x \<or> p \<in> set xs" using that by (metis set_ConsD set_sort)
    moreover have "sorted (map (\<lambda>p. - prio k p) (x # xs))" using sorted_sort_key r by metis
    ultimately show ?thesis using sorted_hd [of "\<lambda>p. - prio k p" x xs p] r by auto
  qed
  have cur: "thread_current ?k = Some (running k)" using thread_current_inv [OF inv1] by simp
  show ?thesis
  proof (cases "prio k (hd ?r) > prio k (running k)")
    case notyet: False
    then have "compare_cur_next_priority k = Some ?k"
      using False srt cur by (simp add: compare_cur_next_priority_def Let_def lookup_upd)
    moreover have "top_runs ?k" using notyet max by (fastforce simp: top_runs_def lookup_upd)
    ultimately show ?thesis using inv1 fr sched_invD(4) [OF inv] by auto
  next
    case True
    show ?thesis
    proof (cases "in_external_intr k")
      case ext: True
      let ?k2 = "?k\<lparr>yield_on_return := True\<rparr>"
      have "compare_cur_next_priority k = Some ?k2"
        using False True ext srt cur
        by (simp add: compare_cur_next_priority_def Let_def lookup_upd intr_yield_on_return_def)
      moreover have fr2: "frame k ?k2" "keeps k ?k2" by (simp_all add: frame_def keeps_def)
      moreover have "sched_inv ?k2"
      proof -
        have "frame ?k ?k2" "keeps ?k ?k2" "stat ?k2 = stat ?k"
          by (simp_all add: frame_def keeps_def stat_def fun_eq_iff)
        then show ?thesis
          using inv1 keeps_valid [OF sched_invD(2) [OF inv1]]
          by (simp add: sched_inv_def sched_core_def frame_queues)
      qed
      ultimately show ?thesis using ext sched_invD(4) [OF inv] by auto
    next
      case noext: False
      obtain k2 where k2: "thread_yield ?k = Some k2" "switched ?k k2 (yield_queue ?k)"
        using thread_yield_ok [OF inv1] noext by auto
      have "sorted (map (\<lambda>p. - prio ?k p) (yield_queue ?k))"
        using sorted_sort_key [of "\<lambda>p. - prio k p" "ready_list k"]
        by (simp add: yield_queue_def lookup_upd sorted_insert_ordered)
      then have "top_runs k2" using k2(2) switched_top by blast
      moreover have "compare_cur_next_priority k = Some k2"
        using False True noext srt cur k2(1) by (simp add: compare_cur_next_priority_def Let_def lookup_upd)
      moreover have "sched_inv k2" "frame ?k k2" "keeps ?k k2" "running k \<in> dom (threads k2)"
        using k2(2) by (simp_all add: switched_def)
      ultimately show ?thesis using noext frame_trans [OF fr(1)] keeps_trans [OF fr(2)] by blast
    qed
  qed
qed

section \<open>Semaphores\<close>

lemma sched_inv_intr: "sched_inv (k\<lparr>intr_on := b\<rparr>) = sched_inv k"
proof -
  have "stat (k\<lparr>intr_on := b\<rparr>) = stat k" "sema_waiters (k\<lparr>intr_on := b\<rparr>) = sema_waiters k"
    by (simp_all add: stat_def sema_waiters_def fun_eq_iff)
  then show ?thesis by (simp add: sched_inv_def sched_core_def valid_def sleepers_def)
qed

lemma top_runs_keeps:
  assumes "top_runs k" "keeps k k'" "sched_inv k'" "running k' = running k" "ready_list k' = ready_list k"
  shows "top_runs k'"
proof -
  have "p \<in> dom (threads k')" if "p \<in> set (ready_list k') \<or> p = running k'" for p
    using that queues_okD(4) [OF sched_coreD(2) [OF sched_invD(1) [OF assms(3)]], of p] sched_invD(4) [OF assms(3)]
    by (auto simp: stat_def)
  then show ?thesis using assms(1,4,5) keeps_prio [OF assms(2)] by (simp add: top_runs_def)
qed

text \<open>The thread \<open>sema_up\<close> wakes: the first of the waiters in priority order.\<close>

definition woken :: "kernel \<Rightarrow> ptr list \<Rightarrow> ptr list" where
  "woken k ws = sort_key (\<lambda>p. - prio k p) ws"

definition sema_up_part :: "kernel \<Rightarrow> ptr \<Rightarrow> semaphore \<Rightarrow> kernel option" where
  "sema_up_part k s sm =
     (if waiters sm \<noteq> [] then do {
        ws \<leftarrow> sort_by_priority k (waiters sm);
        thread_unblock (set_sema k s (sm\<lparr>waiters := tl ws\<rparr>)) (hd ws) }
      else Some k)"

lemma sema_up_part_ok:
  assumes inv: "sched_inv k" and sm: "semas k s = Some sm" and off: "\<not> intr_on k"
  shows "\<exists>k'. sema_up_part k s sm = Some k' \<and> sched_inv k' \<and>
    frame (set_sema k s (sm\<lparr>waiters := tl (woken k (waiters sm))\<rparr>)) k' \<and> keeps k k' \<and> running k' = running k \<and>
    \<not> intr_on k' \<and> (waiters sm \<noteq> [] \<longrightarrow> hd (woken k (waiters sm)) \<in> set (ready_list k'))"
proof (cases "waiters sm = []")
  case True
  then have eq: "sm\<lparr>waiters := tl (woken k (waiters sm))\<rparr> = sm" by (cases sm) (simp add: woken_def)
  have "semas (set_sema k s sm) = semas k" using sm by (auto simp: set_sema_def)
  then have "frame (set_sema k s (sm\<lparr>waiters := tl (woken k (waiters sm))\<rparr>)) k"
    unfolding eq by (simp add: frame_def) (simp add: set_sema_def)
  then show ?thesis using True inv off by (simp add: sema_up_part_def)
next
  case False
  let ?ws = "woken k (waiters sm)"
  let ?sm = "sm\<lparr>waiters := tl ?ws\<rparr>"
  let ?k = "set_sema k s ?sm"
  note q = queues_okD [OF sched_coreD(2) [OF sched_invD(1) [OF inv]]]
  have sw: "sema_waiters k s = waiters sm" by (simp add: sema_waiters_def sm)
  obtain p ps where ws: "?ws = p # ps" using False by (cases ?ws) (auto simp: woken_def, metis length_0_conv length_sort)
  have set: "set ?ws = set (waiters sm)" "distinct ?ws" using q(6) [of s] sw by (simp_all add: woken_def)
  have pin: "p \<in> set (waiters sm)" "p \<notin> set ps" "distinct ps" "set ps \<subseteq> set (waiters sm)" using set ws by auto
  have blk: "stat k x = Some THREAD_BLOCKED" if "x \<in> set (waiters sm)" for x using that q(7) [of x s] sw by simp
  have inv1: "sched_inv ?k" by (rule sched_inv_fewer_waiters [OF inv sm]) (use pin ws in simp_all)
  have "mapped k (waiters sm)" by (rule mapped_valid [OF sched_invD(2) [OF inv]]) (use blk in auto)
  then have srt: "sort_by_priority k (waiters sm) = Some ?ws" by (simp add: sort_by_priority_def woken_def)
  have nw: "p \<notin> set (sema_waiters ?k s')" for s'
    using q(8) [of p s s'] pin sw ws by (auto simp: sema_waiters_set)
  have "\<exists>k'. thread_unblock ?k p = Some k' \<and> sched_inv k' \<and> frame ?k k' \<and> keeps ?k k' \<and> running k' = running ?k \<and>
      ready_list k' = insert_ordered (\<lambda>x. - prio ?k x) p (ready_list ?k) \<and> stat k' = (stat ?k)(p \<mapsto> THREAD_READY) \<and>
      intr_on k' = intr_on ?k \<and> yield_on_return k' = yield_on_return ?k"
    by (rule thread_unblock_ok [OF inv1])
      (use blk [OF pin(1)] q(11) [of p s] q(19) [of s] pin(1) sw nw off in \<open>auto simp: set_sema_frame\<close>)
  then obtain k' where k': "thread_unblock ?k p = Some k'" "sched_inv k'" "frame ?k k'" "keeps ?k k'" "running k' = running k"
      "p \<in> set (ready_list k')" "\<not> intr_on k'"
    using off by (auto simp: set_sema_frame)
  have "keeps k k'" using k'(4) by (simp add: keeps_def set_sema_frame)
  then show ?thesis using k' False srt ws by (auto simp: sema_up_part_def)
qed

lemma frame_semas: "frame k k' \<Longrightarrow> semas k' = semas k" "frame k k' \<Longrightarrow> in_external_intr k' = in_external_intr k"
  by (simp_all add: frame_def)

lemma sema_up_ok:
  assumes inv: "sched_inv k" and sm: "semas k s = Some sm" "s \<noteq> NULL" and ext: "intr_on k \<Longrightarrow> \<not> in_external_intr k"
  shows "\<exists>k'. sema_up k s = Some k' \<and> sched_inv k' \<and>
    frame (set_sema k s (sm\<lparr>waiters := tl (woken k (waiters sm)), sema_value := sema_value sm + 1\<rparr>)) k' \<and> keeps k k' \<and>
    (\<not> in_external_intr k \<longrightarrow> top_runs k')"
proof -
  let ?k0 = "k\<lparr>intr_on := False\<rparr>"
  let ?sm1 = "sm\<lparr>waiters := tl (woken k (waiters sm))\<rparr>"
  let ?sm2 = "?sm1\<lparr>sema_value := sema_value sm + 1\<rparr>"
  have wk: "woken ?k0 = woken k" by (simp add: woken_def fun_eq_iff lookup_upd)
  have inv0: "sched_inv ?k0" "semas ?k0 s = Some sm" "\<not> intr_on ?k0" using inv sm by (simp_all add: sched_inv_intr)
  obtain k1 where k1: "sema_up_part ?k0 s sm = Some k1" "sched_inv k1" "frame (set_sema ?k0 s ?sm1) k1" "keeps ?k0 k1"
      "running k1 = running k" "\<not> intr_on k1"
    using sema_up_part_ok [OF inv0] by (auto simp: wk)
  have sm1: "semas k1 s = Some ?sm1" using frame_semas(1) [OF k1(3)] by (simp add: set_sema_def)
  let ?k2 = "set_sema k1 s ?sm2"
  have "distinct (waiters ?sm1)"
    using queues_okD(6) [OF sched_coreD(2) [OF sched_invD(1) [OF k1(2)]], of s] sm1 by (simp add: sema_waiters_def)
  then have inv2: "sched_inv ?k2" by (intro sched_inv_fewer_waiters [OF k1(2) sm1]) simp_all
  obtain k3 where k3: "compare_cur_next_priority ?k2 = Some k3" "sched_inv k3" "frame ?k2 k3" "keeps ?k2 k3"
      "running ?k2 \<in> dom (threads k3)" "\<not> in_external_intr ?k2 \<longrightarrow> top_runs k3"
    using compare_cur_next_priority_ok [OF inv2] by auto
  have ex: "in_external_intr k3 = in_external_intr k" "in_external_intr ?k2 = in_external_intr k"
    using frame_semas(2) [OF k3(3)] frame_semas(2) [OF k1(3)] by (simp_all add: set_sema_def)
  obtain k4 where k4: "intr_set_level k3 (running k) (intr_on k) = Some k4" "sched_inv k4" "running k4 = running k3"
      "ready_list k4 = ready_list k3" "frame k3 k4" "keeps k3 k4"
    using intr_set_level_ok [OF k3(2), of "running k" "intr_on k"] k3(5) k1(5) ext ex by (auto simp: set_sema_frame)
  have keep: "keeps k k4"
  proof -
    have "keeps k k1" using k1(4) by (simp add: keeps_def)
    moreover have "keeps k1 k3" using k3(4) by (simp add: keeps_def set_sema_frame)
    ultimately show ?thesis using k4(6) keeps_trans by blast
  qed
  have "frame (set_sema k s ?sm2) k4"
    using k1(3) k3(3) k4(5) by (auto simp: frame_def set_sema_def)
  moreover have "sema_up k s = Some k4"
    using k1(1) k3(1) k4(1) sm sm1
    by (simp add: sema_up_def intr_disable_def get_sema_def sema_up_part_def)
  moreover have "\<not> in_external_intr k \<longrightarrow> top_runs k4"
    using top_runs_keeps [OF _ k4(6,2,3,4)] k3(6) ex by simp
  ultimately show ?thesis using k4(2) keep by auto
qed

text \<open>Blocking: the running thread joins the queue of semaphore \<open>s\<close> and the next thread runs.\<close>

lemma thread_block_eq:
  assumes "valid k" "threads k (running k) = Some c" "status c = THREAD_RUNNING" "\<not> in_external_intr k" "\<not> intr_on k"
  shows "thread_block k = schedule (k\<lparr>threads := (threads k)(running k \<mapsto> c\<lparr>status := THREAD_BLOCKED\<rparr>)\<rparr>)"
  using valid_Some [OF assms(1,2)] assms
  by (simp add: thread_block_def thread_current_def is_thread_def get_thread_def upd_thread_def)

lemma block_on_ok:
  assumes inv: "sched_inv k" and off: "\<not> intr_on k" "\<not> in_external_intr k" and ni: "running k \<noteq> idle_thread k"
    and sm: "semas k s = Some sm" and w: "distinct (waiters sm')" "set (waiters sm') = insert (running k) (set (waiters sm))"
  shows "\<exists>k'. thread_block (set_sema k s sm') = Some k' \<and> sched_inv k' \<and> running k' = next_of k \<and>
    ready_list k' = tl (ready_list k) \<and> frame (set_sema k s sm') k' \<and> keeps k k' \<and>
    stat k' = (stat k)(running k \<mapsto> THREAD_BLOCKED, next_of k \<mapsto> THREAD_RUNNING)"
proof -
  let ?k = "set_sema k s sm'" and ?r = "running k"
  obtain c where c: "threads k ?r = Some c" "status c = THREAD_RUNNING" using sched_invD(4) [OF inv] by blast
  let ?K = "?k\<lparr>threads := (threads k)(?r \<mapsto> c\<lparr>status := THREAD_BLOCKED\<rparr>)\<rparr>"
  note v = sched_invD(2) [OF inv] and q = queues_okD [OF sched_coreD(2) [OF sched_invD(1) [OF inv]]]
  have fr: "frame ?k ?K" by (simp add: frame_def)
  have ke: "keeps k ?K" using c by (auto simp: keeps_def)
  have st: "stat ?K = (stat k)(?r \<mapsto> THREAD_BLOCKED)" by (auto simp: stat_def fun_eq_iff)
  have rs: "stat k ?r = Some THREAD_RUNNING" using sched_invD(3) [OF inv] .
  have out: "?r \<notin> set (ready_list k)" "?r \<notin> set (sleepers k)" "?r \<notin> set (destruction_req k)"
      "\<And>s'. ?r \<notin> set (sema_waiters k s')"
    using q(4) [of ?r] q(10) [of ?r] q(14) rs q(7) [of ?r] by auto
  have sw: "sema_waiters k s = waiters sm" by (simp add: sema_waiters_def sm)
  have "queues_ok ((stat k)(?r \<mapsto> THREAD_BLOCKED)) ?r (idle_thread k) (ready_list k) (destruction_req k)
      ((sema_waiters k)(s := waiters sm')) (sleepers k)"
    by (rule queues_update [OF sched_coreD(2) [OF sched_invD(1) [OF inv]]])
      (use q(3,6,9,12) w sw out ni in \<open>auto split: if_splits\<close>)
  then have "sched_core ?K"
    using keeps_valid [OF v ke] by (simp add: sched_core_def st frame_queues [OF fr] sema_waiters_set) (simp add: set_sema_frame)
  then have "\<exists>k'. schedule ?K = Some k' \<and> sched_inv k' \<and> running k' = next_of ?K \<and> ready_list k' = tl (ready_list ?K) \<and>
    frame ?K k' \<and> keeps ?K k' \<and> stat k' = (stat ?K)(next_of ?K \<mapsto> THREAD_RUNNING)"
    by (rule schedule_ok [where c = "c\<lparr>status := THREAD_BLOCKED\<rparr>"]) (use off in \<open>simp_all add: set_sema_frame\<close>)
  moreover have "next_of ?K = next_of k" by (simp add: next_of_def set_sema_frame)
  moreover have "thread_block ?k = schedule ?K"
    using thread_block_eq [of ?k c] v c off by (simp add: set_sema_frame)
  ultimately show ?thesis
    using frame_trans [OF fr] keeps_trans [OF ke] st by (auto simp: set_sema_frame)
qed

definition queued :: "kernel \<Rightarrow> semaphore \<Rightarrow> semaphore" where
  "queued k sm = sm\<lparr>waiters := insert_ordered (\<lambda>p. - prio k p) (running k) (waiters sm)\<rparr>"

lemma sema_down_loop_block:
  assumes inv: "sched_inv k" and off: "\<not> intr_on k" "\<not> in_external_intr k" and ni: "running k \<noteq> idle_thread k"
    and sm: "semas k s = Some sm" "s \<noteq> NULL" "sema_value sm = 0"
  shows "\<exists>k'. sema_down_loop k s old = Some (False, k') \<and> sched_inv k' \<and> running k' = next_of k \<and>
    ready_list k' = tl (ready_list k) \<and> frame (set_sema k s (queued k sm)) k' \<and> keeps k k' \<and>
    stat k' = (stat k)(running k \<mapsto> THREAD_BLOCKED, next_of k \<mapsto> THREAD_RUNNING)"
proof -
  note v = sched_invD(2) [OF inv] and q = queues_okD [OF sched_coreD(2) [OF sched_invD(1) [OF inv]]]
  have sw: "sema_waiters k s = waiters sm" by (simp add: sema_waiters_def sm)
  have out: "running k \<notin> set (waiters sm)" using q(7) [of "running k" s] sw sched_invD(3) [OF inv] by auto
  have "mapped k (running k # waiters sm)"
    by (rule mapped_valid [OF v]) (use q(7) [of _ s] sw sched_invD(3) [OF inv] in auto)
  then have ins: "insert_by_priority k (running k) (waiters sm) = Some (waiters (queued k sm))"
    by (simp add: insert_by_priority_def queued_def)
  have "\<exists>k'. thread_block (set_sema k s (queued k sm)) = Some k' \<and> sched_inv k' \<and> running k' = next_of k \<and>
    ready_list k' = tl (ready_list k) \<and> frame (set_sema k s (queued k sm)) k' \<and> keeps k k' \<and>
    stat k' = (stat k)(running k \<mapsto> THREAD_BLOCKED, next_of k \<mapsto> THREAD_RUNNING)"
    by (rule block_on_ok [OF inv off ni sm(1)]) (use q(6) [of s] sw out in \<open>simp_all add: queued_def\<close>)
  then show ?thesis
    using ins sm thread_current_inv [OF inv] by (auto simp: sema_down_loop_def get_sema_def queued_def)
qed

lemma sema_down_loop_pass:
  assumes inv: "sched_inv k" and off: "\<not> in_external_intr k"
    and sm: "semas k s = Some sm" "s \<noteq> NULL" "sema_value sm \<noteq> 0"
  shows "sema_down_loop k s old = Some (True, (set_sema k s (sm\<lparr>sema_value := sema_value sm - 1\<rparr>))\<lparr>intr_on := old\<rparr>)"
    "sched_inv ((set_sema k s (sm\<lparr>sema_value := sema_value sm - 1\<rparr>))\<lparr>intr_on := old\<rparr>)"
proof -
  show "sema_down_loop k s old = Some (True, (set_sema k s (sm\<lparr>sema_value := sema_value sm - 1\<rparr>))\<lparr>intr_on := old\<rparr>)"
    using sm off by (simp add: sema_down_loop_def get_sema_def intr_set_level_def set_sema_frame)
  have "distinct (waiters sm)"
    using queues_okD(6) [OF sched_coreD(2) [OF sched_invD(1) [OF inv]], of s] sm by (simp add: sema_waiters_def)
  then show "sched_inv ((set_sema k s (sm\<lparr>sema_value := sema_value sm - 1\<rparr>))\<lparr>intr_on := old\<rparr>)"
    unfolding sched_inv_intr by (intro sched_inv_fewer_waiters [OF inv sm(1)]) simp_all
qed

section \<open>Other fields of a thread\<close>

lemma upd_thread_ok:
  assumes inv: "sched_inv k" and t: "threads k p = Some t" and f: "status (f t) = status t" "magic (f t) = magic t"
  shows "\<exists>k'. upd_thread k p f = Some k' \<and> k' = k\<lparr>threads := (threads k)(p \<mapsto> f t)\<rparr> \<and> sched_inv k' \<and> frame k k' \<and> stat k' = stat k"
proof -
  let ?k = "k\<lparr>threads := (threads k)(p \<mapsto> f t)\<rparr>"
  note v = sched_invD(2) [OF inv]
  have p0: "p \<noteq> NULL" using valid_Some [OF v t] by simp
  have fr: "frame k ?k" by (simp add: frame_def)
  have st: "stat ?k = stat k" using t f by (auto simp: stat_def fun_eq_iff)
  have "valid ?k" using v p0 f valid_Some [OF v t] by (auto simp: valid_def)
  then have "sched_inv ?k" using inv by (simp add: sched_inv_def sched_core_def st frame_queues [OF fr])
  then show ?thesis using p0 t fr st by (simp add: upd_thread_def get_thread_def)
qed

lemma thread_exit_ok:
  assumes inv: "sched_inv k" and ext: "\<not> in_external_intr k" and ni: "running k \<noteq> idle_thread k"
  shows "\<exists>k'. thread_exit k = Some k' \<and> switched k k' (ready_list k)"
proof -
  note q = queues_okD [OF sched_coreD(2) [OF sched_invD(1) [OF inv]]]
  have out: "running k \<notin> set (ready_list k)" using q(4) [of "running k"] sched_invD(3) [OF inv] by auto
  have "\<exists>k'. do_schedule (k\<lparr>intr_on := False, ready_list := ready_list k\<rparr>) THREAD_DYING = Some k' \<and> switched k k' (ready_list k)"
    unfolding switched_def by (rule do_schedule_ok [OF inv]) (use q(3) out ni in auto)
  then show ?thesis using ext by (simp add: thread_exit_def intr_disable_def)
qed

end
