(* ===== verification/Timer.thy ===== *)
theory Timer
  imports Synch
begin

text \<open>
  The timer of \<open>devices/timer.c\<close>: sleeping threads in the order of their wake-up ticks, the interrupt
  handler that wakes them, and the path through \<open>intr_handler\<close> of \<open>threads/interrupt.c\<close> that calls it.
\<close>

section \<open>Sleeping\<close>

definition timer_ticks :: "kernel \<Rightarrow> int" where
  "timer_ticks k = ticks k"

definition timer_elapsed :: "kernel \<Rightarrow> int \<Rightarrow> int" where
  "timer_elapsed k since = int64 (timer_ticks k - since)"

definition compare_tick :: "block_thread \<Rightarrow> block_thread \<Rightarrow> bool" where
  "compare_tick a b \<longleftrightarrow> wakeup_tick a < wakeup_tick b"

lemma compare_tick_key: "compare_tick a b \<longleftrightarrow> wakeup_tick a < wakeup_tick b"
  by (simp add: compare_tick_def)

text \<open>\<open>timer_sleep\<close> until the thread blocks; after that it only restores the interrupt level.  The tick 0
  stands for "nobody sleeps" (\<open>closet_tick == NULL\<close>).\<close>

definition timer_sleep :: "kernel \<Rightarrow> int \<Rightarrow> kernel option" where
  "timer_sleep k n = do {
     ASSERT (intr_on k);
     cur \<leftarrow> thread_current k;
     let target = \<lparr>block_threads = cur, wakeup_tick = int64 (timer_ticks k + n)\<rparr>;
     let (old_level, k) = intr_disable k;
     let k = (if closet_tick k = 0 \<or> closet_tick k > wakeup_tick target
              then k\<lparr>closet_tick := wakeup_tick target\<rparr> else k);
     let k = k\<lparr>block_thread_list := insert_ordered wakeup_tick target (block_thread_list k)\<rparr>;
     k \<leftarrow> thread_block k;
     intr_set_level k cur old_level }"

text \<open>\<open>busy\<close> is the busy-wait loop: it changes nothing.\<close>

definition real_time_sleep :: "kernel \<Rightarrow> int \<Rightarrow> int \<Rightarrow> kernel option" where
  "real_time_sleep k num denom = do {
     t \<leftarrow> cdiv (int64 (num * TIMER_FREQ)) denom;
     ASSERT (intr_on k);
     if t > 0 then timer_sleep k t
     else do { ASSERT (denom mod 1000 = 0); Some k } }"

definition timer_msleep :: "kernel \<Rightarrow> int \<Rightarrow> kernel option" where
  "timer_msleep k ms = real_time_sleep k ms 1000"

definition timer_usleep :: "kernel \<Rightarrow> int \<Rightarrow> kernel option" where
  "timer_usleep k us = real_time_sleep k us (1000 * 1000)"

definition timer_nsleep :: "kernel \<Rightarrow> int \<Rightarrow> kernel option" where
  "timer_nsleep k ns = real_time_sleep k ns (1000 * 1000 * 1000)"

section \<open>Waking\<close>

fun wake_up_loop :: "kernel \<Rightarrow> block_thread list \<Rightarrow> int \<Rightarrow> kernel option" where
  "wake_up_loop k [] cur_tick = Some k"
| "wake_up_loop k (e # es) cur_tick =
     (if wakeup_tick e \<le> cur_tick
      then do {
        let k = k\<lparr>block_thread_list := remove1 e (block_thread_list k)\<rparr>;
        k \<leftarrow> thread_unblock k (block_threads e);
        wake_up_loop k es cur_tick }
      else Some k)"

definition wake_up :: "kernel \<Rightarrow> int \<Rightarrow> kernel option" where
  "wake_up k cur_tick = do {
     k \<leftarrow> wake_up_loop k (block_thread_list k) cur_tick;
     Some (case block_thread_list k of
             [] \<Rightarrow> k\<lparr>closet_tick := 0\<rparr>
           | e # _ \<Rightarrow> k\<lparr>closet_tick := wakeup_tick e\<rparr>) }"

definition timer_interrupt :: "kernel \<Rightarrow> kernel option" where
  "timer_interrupt k = do {
     let k = k\<lparr>ticks := int64 (ticks k + 1)\<rparr>;
     k \<leftarrow> thread_tick k;
     let cur_tick = timer_ticks k;
     if closet_tick k \<noteq> 0 \<and> cur_tick \<ge> closet_tick k then wake_up k cur_tick else Some k }"

text \<open>\<open>intr_handler\<close> for an external interrupt with handler \<open>h\<close>.  The processor enters it with
  interrupts off; leaving it restores the level of the interrupted thread, which was on.\<close>

definition intr_handler_ext :: "(kernel \<Rightarrow> kernel option) \<Rightarrow> kernel \<Rightarrow> kernel option" where
  "intr_handler_ext h k = do {
     let cur = running k;
     let (old_level, k) = intr_disable k;
     ASSERT (\<not> in_external_intr k);
     let k = k\<lparr>in_external_intr := True, yield_on_return := False\<rparr>;
     k \<leftarrow> h k;
     ASSERT (\<not> intr_on k);
     ASSERT (in_external_intr k);
     let k = k\<lparr>in_external_intr := False\<rparr>;
     k \<leftarrow> (if yield_on_return k then thread_yield k else Some k);
     intr_set_level k cur old_level }"

end
