(* ===== verification/Kernel_Machine.thy ===== *)
theory Kernel_Machine
  imports Timer
begin

text \<open>
  The kernel as a machine.  Every thread has a list of kernel calls still to be made; the running
  thread takes one step of its first call, and between two steps a timer interrupt may be taken when
  interrupts are on.  A call that can sleep is several steps, cut where the code can lose the
  processor: each pass of the loop of \<open>sema_down\<close>, each iteration of the donation walk, and the calls
  inside \<open>lock_acquire\<close>, \<open>lock_release\<close> and \<open>cond_wait\<close>.
\<close>

section \<open>Calls\<close>

datatype action =
    Down ptr
  | DownLoop ptr bool
  | Up ptr
  | Acquire ptr
  | Donate ptr
  | Acquired ptr
  | Release ptr
  | CheckPriority
  | Wait ptr ptr ptr
  | Signal ptr ptr
  | Broadcast ptr ptr
  | Yield
  | SetPriority int
  | SetNice int
  | Sleep int
  | Exit
  | IdleLoop
  | Work

text \<open>The loop body of \<open>idle\<close>: block, and when the processor comes back wait with interrupts on.\<close>

definition idle_loop :: "kernel \<Rightarrow> kernel option" where
  "idle_loop k = do {
     let cur = running k;
     let (_, k) = intr_disable k;
     k \<leftarrow> thread_block k;
     intr_set_level k cur True }"

text \<open>\<open>exec a k\<close>: the state after one step of call \<open>a\<close> by the running thread, and what that thread still
  has to do for this call.\<close>

fun exec :: "action \<Rightarrow> kernel \<Rightarrow> (kernel \<times> action list) option" where
  "exec (Down s) k = do {
     (done, k') \<leftarrow> sema_down k s;
     Some (k', if done then [] else [DownLoop s (intr_on k)]) }"
| "exec (DownLoop s old_level) k = do {
     (done, k') \<leftarrow> sema_down_loop k s old_level;
     Some (k', if done then [] else [DownLoop s old_level]) }"
| "exec (Up s) k = do { k' \<leftarrow> sema_up k s; Some (k', []) }"
| "exec (Acquire l) k = do {
     (pending, k') \<leftarrow> lock_acquire_begin k l;
     Some (k', (if pending \<noteq> NULL then [Donate pending] else []) @ [Down (lock_sema l), Acquired l]) }"
| "exec (Donate pending) k = do {
     (nxt, k') \<leftarrow> donate_step k pending;
     Some (k', if nxt \<noteq> NULL then [Donate nxt] else []) }"
| "exec (Acquired l) k = do { k' \<leftarrow> lock_acquire_end k l; Some (k', []) }"
| "exec (Release l) k = do { k' \<leftarrow> lock_release_begin k l; Some (k', [Up (lock_sema l), CheckPriority]) }"
| "exec CheckPriority k = do { k' \<leftarrow> compare_cur_next_priority k; Some (k', []) }"
| "exec (Wait c l w) k = do {
     k' \<leftarrow> cond_wait_begin k c l w;
     Some (k', [Release l, Down (waiter_sema w), Acquire l]) }"
| "exec (Signal c l) k = do { k' \<leftarrow> cond_signal k c l; Some (k', []) }"
| "exec (Broadcast c l) k = do {
     later \<leftarrow> cond_broadcast_test k c l;
     Some (k, if later then [Signal c l, Broadcast c l] else []) }"
| "exec Yield k = do { k' \<leftarrow> thread_yield k; Some (k', []) }"
| "exec (SetPriority n) k = do { k' \<leftarrow> thread_set_priority k n; Some (k', []) }"
| "exec (SetNice n) k = do { k' \<leftarrow> thread_set_nice k n; Some (k', []) }"
| "exec (Sleep n) k = do { k' \<leftarrow> timer_sleep k n; Some (k', []) }"
| "exec Exit k = do { k' \<leftarrow> thread_exit k; Some (k', []) }"
| "exec IdleLoop k = do { k' \<leftarrow> idle_loop k; Some (k', [IdleLoop]) }"
| "exec Work k = Some (k, [])"

section \<open>Steps\<close>

type_synonym machine = "kernel \<times> (ptr \<Rightarrow> action list)"

inductive kstep :: "machine \<Rightarrow> machine \<Rightarrow> bool" where
  call: "todo (running k) = a # rest \<Longrightarrow> exec a k = Some (k', later) \<Longrightarrow>
    kstep (k, todo) (k', todo(running k := later @ rest))"
| tick: "intr_on k \<Longrightarrow> intr_handler_ext timer_interrupt k = Some k' \<Longrightarrow> kstep (k, todo) (k', todo)"

inductive_cases kstepE: "kstep (k, todo) m'"

inductive reachable :: "machine \<Rightarrow> machine \<Rightarrow> bool" where
  start: "reachable m m"
| further: "reachable m m' \<Longrightarrow> kstep m' m'' \<Longrightarrow> reachable m m''"

text \<open>The executable form of a sequence of calls without interrupts.\<close>

definition run1 :: "machine \<Rightarrow> machine option" where
  "run1 m = (case m of (k, todo) \<Rightarrow>
     (case todo (running k) of
        [] \<Rightarrow> None
      | a # rest \<Rightarrow> map_option (\<lambda>(k', later). (k', todo(running k := later @ rest))) (exec a k)))"

fun run_calls :: "nat \<Rightarrow> machine \<Rightarrow> machine option" where
  "run_calls 0 m = Some m"
| "run_calls (Suc n) m = Option.bind (run1 m) (run_calls n)"

lemma run1_kstep: "run1 m = Some m' \<Longrightarrow> kstep m m'"
  by (cases m) (auto simp: run1_def split: list.splits intro: kstep.call)

lemma reachable_left: "reachable m1 m2 \<Longrightarrow> kstep m m1 \<Longrightarrow> reachable m m2"
  by (induction rule: reachable.induct) (auto intro: reachable.intros)

lemma run_calls_reachable: "run_calls n m = Some m' \<Longrightarrow> reachable m m'"
  by (induction n arbitrary: m) (auto simp: bind_Some intro: reachable.start reachable_left run1_kstep)

end
