(* ===== verification/Lock_Safety.thy ===== *)
theory Lock_Safety
  imports Kernel_Machine
begin

text \<open>
  Mutual exclusion on the machine: whatever the threads do and whenever the timer interrupts them, a
  lock's semaphore is 1 exactly when nobody holds the lock or is about to take it, and at most one
  thread is in that position.  First, what scheduling and interrupts never touch; then the steps that
  do touch a lock; then the invariant.
\<close>

section \<open>What scheduling leaves alone\<close>

definition sync :: "kernel \<Rightarrow> (ptr \<rightharpoonup> semaphore) \<times> (ptr \<rightharpoonup> ptr) \<times> (ptr \<rightharpoonup> ptr list)" where
  "sync k = (semas k, lock_holder k, conds k)"

lemma sync_fields [simp]:
  "sync (k\<lparr>threads := a\<rparr>) = sync k" "sync (k\<lparr>ready_list := b\<rparr>) = sync k" "sync (k\<lparr>destruction_req := b\<rparr>) = sync k"
  "sync (k\<lparr>running := c\<rparr>) = sync k" "sync (k\<lparr>intr_on := d\<rparr>) = sync k" "sync (k\<lparr>in_external_intr := d\<rparr>) = sync k"
  "sync (k\<lparr>yield_on_return := d\<rparr>) = sync k" "sync (k\<lparr>thread_ticks := e\<rparr>) = sync k" "sync (k\<lparr>idle_ticks := i\<rparr>) = sync k"
  "sync (k\<lparr>kernel_ticks := i\<rparr>) = sync k" "sync (k\<lparr>user_ticks := i\<rparr>) = sync k" "sync (k\<lparr>load_avg := i\<rparr>) = sync k"
  "sync (k\<lparr>ticks := i\<rparr>) = sync k" "sync (k\<lparr>block_thread_list := bl\<rparr>) = sync k" "sync (k\<lparr>closet_tick := i\<rparr>) = sync k"
  by (simp_all add: sync_def)

text \<open>A function keeps \<open>sync\<close> if everything true of all states with the same \<open>sync\<close> holds after it.\<close>

lemma reads [wp]:
  "(\<And>t. Q t) \<Longrightarrow> post Q (get_thread k p)" "(\<And>c. C c) \<Longrightarrow> post C (thread_current k)"
  "(\<And>b. Q' b) \<Longrightarrow> post Q' (is_thread k p)" "(\<And>r. R r) \<Longrightarrow> post R (insert_by_priority k e xs)"
  "(\<And>r. R r) \<Longrightarrow> post R (sort_by_priority k xs)" "(\<And>n. N n) \<Longrightarrow> post N (div_fp_int x y)"
  "(\<And>n. N n) \<Longrightarrow> post N (mlfqs_priority x y)" "(\<And>n. N n) \<Longrightarrow> post N (decayed_recent_cpu x y z)"
  by (simp_all add: post_def)

lemma sync_upd_thread [wp]: "(\<And>k'. sync k' = sync k \<Longrightarrow> Q k') \<Longrightarrow> post Q (upd_thread k p f)"
  by (auto simp: upd_thread_def intro!: wp)

lemma sync_intr_set_level [wp]: "(\<And>k'. sync k' = sync k \<Longrightarrow> Q k') \<Longrightarrow> post Q (intr_set_level k c l)"
  by (auto simp: intr_set_level_def intro!: wp)

lemma sync_thread_launch [wp]: "(\<And>k'. sync k' = sync k \<Longrightarrow> Q k') \<Longrightarrow> post Q (thread_launch k th)"
  by (auto simp: thread_launch_def intro!: wp)

lemma sync_schedule [wp]: "(\<And>k'. sync k' = sync k \<Longrightarrow> Q k') \<Longrightarrow> post Q (schedule k)"
  by (auto simp: schedule_def next_thread_to_run_def Let_def split: list.split intro!: wp)

lemma sync_do_schedule [wp]: "(\<And>k'. sync k' = sync k \<Longrightarrow> Q k') \<Longrightarrow> post Q (do_schedule k st)"
  by (auto simp: do_schedule_def free_victims_def Let_def intro!: wp)

lemma sync_thread_block [wp]: "(\<And>k'. sync k' = sync k \<Longrightarrow> Q k') \<Longrightarrow> post Q (thread_block k)"
  by (auto simp: thread_block_def intro!: wp)

lemma sync_thread_unblock [wp]: "(\<And>k'. sync k' = sync k \<Longrightarrow> Q k') \<Longrightarrow> post Q (thread_unblock k p)"
  by (auto simp: thread_unblock_def intr_disable_def Let_def intro!: wp)

lemma sync_thread_yield [wp]: "(\<And>k'. sync k' = sync k \<Longrightarrow> Q k') \<Longrightarrow> post Q (thread_yield k)"
  by (auto simp: thread_yield_def intr_disable_def intro!: wp)

lemma sync_yield_on_return [wp]: "(\<And>k'. sync k' = sync k \<Longrightarrow> Q k') \<Longrightarrow> post Q (intr_yield_on_return k)"
  by (auto simp: intr_yield_on_return_def intro!: wp)

lemma sync_compare [wp]: "(\<And>k'. sync k' = sync k \<Longrightarrow> Q k') \<Longrightarrow> post Q (compare_cur_next_priority k)"
  by (auto simp: compare_cur_next_priority_def Let_def intro!: wp)

lemma sync_thread_exit [wp]: "(\<And>k'. sync k' = sync k \<Longrightarrow> Q k') \<Longrightarrow> post Q (thread_exit k)"
  by (auto simp: thread_exit_def intr_disable_def intro!: wp)

lemma sync_set_priority [wp]: "(\<And>k'. sync k' = sync k \<Longrightarrow> Q k') \<Longrightarrow> post Q (thread_set_priority k n)"
  by (auto simp: thread_set_priority_def intro!: wp)

lemma sync_update_priority [wp]: "(\<And>k'. sync k' = sync k \<Longrightarrow> Q k') \<Longrightarrow> post Q (update_priority k p)"
  by (auto simp: update_priority_def intro!: wp)

lemma sync_set_nice [wp]: "(\<And>k'. sync k' = sync k \<Longrightarrow> Q k') \<Longrightarrow> post Q (thread_set_nice k n)"
  by (auto simp: thread_set_nice_def intro!: wp)

lemma sync_recent_cpu_loop [wp]: "(\<And>k'. sync k' = sync k \<Longrightarrow> Q k') \<Longrightarrow> post Q (recent_cpu_loop k ps)"
  by (induction ps arbitrary: k) (auto intro!: wp)

lemma sync_priority_loop [wp]: "(\<And>k'. sync k' = sync k \<Longrightarrow> Q k') \<Longrightarrow> post Q (priority_loop k ps)"
  by (induction ps arbitrary: k) (auto intro!: wp)

lemma sync_mlfqs_on_tick [wp]: "(\<And>k'. sync k' = sync k \<Longrightarrow> Q k') \<Longrightarrow> post Q (mlfqs_on_tick k)"
  by (auto simp: mlfqs_on_tick_def update_recent_cpu_def update_load_avg_def update_recent_cpu_all_def
      update_all_priority_def Let_def intro!: wp)

lemma sync_thread_tick [wp]: "(\<And>k'. sync k' = sync k \<Longrightarrow> Q k') \<Longrightarrow> post Q (thread_tick k)"
  by (auto simp: thread_tick_def Let_def intro!: wp)

lemma sync_wake_up_loop [wp]: "(\<And>k'. sync k' = sync k \<Longrightarrow> Q k') \<Longrightarrow> post Q (wake_up_loop k es n)"
  by (induction es arbitrary: k) (auto simp: Let_def intro!: wp)

lemma sync_timer_interrupt [wp]: "(\<And>k'. sync k' = sync k \<Longrightarrow> Q k') \<Longrightarrow> post Q (timer_interrupt k)"
  by (auto simp: timer_interrupt_def wake_up_def Let_def split: list.split intro!: wp)

lemma sync_intr_handler [wp]:
  assumes h: "\<And>k Q. (\<And>k'. sync k' = sync k \<Longrightarrow> Q k') \<Longrightarrow> post Q (h k)"
  shows "(\<And>k'. sync k' = sync k \<Longrightarrow> Q k') \<Longrightarrow> post Q (intr_handler_ext h k)"
  by (auto simp: intr_handler_ext_def Let_def intr_disable_def intro!: wp h)

lemma sync_timer_sleep [wp]: "(\<And>k'. sync k' = sync k \<Longrightarrow> Q k') \<Longrightarrow> post Q (timer_sleep k n)"
  by (auto simp: timer_sleep_def Let_def intr_disable_def intro!: wp)

lemma sync_idle_loop [wp]: "(\<And>k'. sync k' = sync k \<Longrightarrow> Q k') \<Longrightarrow> post Q (idle_loop k)"
  by (auto simp: idle_loop_def Let_def intr_disable_def intro!: wp)

section \<open>Steps that touch semaphores and locks\<close>

definition vals :: "kernel \<Rightarrow> ptr \<rightharpoonup> 32 word" where
  "vals k s = map_option sema_value (semas k s)"

definition locks_of :: "kernel \<Rightarrow> (ptr \<rightharpoonup> 32 word) \<times> (ptr \<rightharpoonup> ptr) \<times> (ptr \<rightharpoonup> ptr list)" where
  "locks_of k = (vals k, lock_holder k, conds k)"

lemma sync_locks_of: "sync k' = sync k \<Longrightarrow> locks_of k' = locks_of k"
  by (simp add: sync_def locks_of_def vals_def fun_eq_iff)

lemma sync_semas: "sync k' = sync k \<Longrightarrow> semas k' = semas k"
  by (simp add: sync_def)

lemma get_sema_wp [wp]: "(\<And>sm. semas k s = Some sm \<Longrightarrow> Q sm) \<Longrightarrow> post Q (get_sema k s)"
  by (simp add: post_def get_sema_def)

lemma locks_of_set_sema:
  "locks_of (set_sema k s sm) = ((vals k)(s \<mapsto> sema_value sm), lock_holder k, conds k)"
  by (auto simp: locks_of_def vals_def set_sema_def fun_eq_iff)

lemma locks_of_same: "semas k s = Some sm \<Longrightarrow> sema_value sm' = sema_value sm \<Longrightarrow> locks_of (set_sema k s sm') = locks_of k"
  by (auto simp: locks_of_def vals_def set_sema_def fun_eq_iff)

text \<open>The effect of a pass of \<open>sema_down\<close>, of \<open>sema_up\<close> and of a donation step on values, holders and
  condition queues.\<close>

definition down_effect :: "kernel \<Rightarrow> ptr \<Rightarrow> bool \<times> kernel \<Rightarrow> bool" where
  "down_effect k s r = (case r of (passed, k') \<Rightarrow> \<exists>v. vals k s = Some v \<and>
     (if passed then v \<noteq> 0 \<and> locks_of k' = ((vals k)(s \<mapsto> v - 1), lock_holder k, conds k)
      else locks_of k' = locks_of k))"

lemma vals_same: "semas k s = Some sm \<Longrightarrow> (vals k)(s \<mapsto> sema_value sm) = vals k"
  by (auto simp: vals_def fun_eq_iff)

lemma sema_down_loop_effect: "post (down_effect k s) (sema_down_loop k s old)"
  unfolding sema_down_loop_def down_effect_def
  by (auto simp: sync_def locks_of_def set_sema_def vals_def fun_eq_iff intro!: wp)

lemma down_effect_intr: "down_effect (k\<lparr>intr_on := b\<rparr>) s = down_effect k s"
  by (simp add: down_effect_def fun_eq_iff locks_of_def vals_def)

lemma sema_down_effect: "post (down_effect k s) (sema_down k s)"
  using sema_down_loop_effect [of "k\<lparr>intr_on := False\<rparr>" s] by (simp add: sema_down_def intr_disable_def down_effect_intr)

definition up_effect :: "kernel \<Rightarrow> ptr \<Rightarrow> kernel \<Rightarrow> bool" where
  "up_effect k s k' \<longleftrightarrow> (\<exists>v. vals k s = Some v \<and> locks_of k' = ((vals k)(s \<mapsto> v + 1), lock_holder k, conds k))"

lemma sema_up_effect: "post (up_effect k s) (sema_up k s)"
  unfolding sema_up_def up_effect_def
  by (auto simp: sync_def locks_of_def set_sema_def vals_def fun_eq_iff intr_disable_def Let_def intro!: wp)

lemma get_holder_wp [wp]: "(\<And>h. lock_holder k l = Some h \<Longrightarrow> l \<noteq> NULL \<Longrightarrow> Q h) \<Longrightarrow> post Q (get_holder k l)"
  by (simp add: post_def get_holder_def)

lemma get_cond_wp [wp]: "(\<And>ws. conds k c = Some ws \<Longrightarrow> Q ws) \<Longrightarrow> post Q (get_cond k c)"
  by (simp add: post_def get_cond_def)

lemma donate_step_effect: "post (\<lambda>r. locks_of (snd r) = locks_of k) (donate_step k pending)"
  unfolding donate_step_def create_donation_def thread_get_priority_def
  by (auto simp: sync_def locks_of_def set_sema_def vals_def fun_eq_iff Let_def intro!: wp)

lemma thread_current_wp: "(running k \<noteq> NULL \<Longrightarrow> Q (running k)) \<Longrightarrow> post Q (thread_current k)"
  by (auto simp: post_def thread_current_def bind_Some is_thread_def split: if_splits)

lemma held_wp [wp]:
  "(\<And>h. lock_holder k l = Some h \<Longrightarrow> l \<noteq> NULL \<Longrightarrow> running k \<noteq> NULL \<Longrightarrow> Q (h = running k)) \<Longrightarrow>
   post Q (lock_held_by_current_thread k l)"
  unfolding lock_held_by_current_thread_def by (auto intro!: get_holder_wp thread_current_wp)

lemma acquire_begin_effect: "post (\<lambda>r. locks_of (snd r) = locks_of k) (lock_acquire_begin k l)"
  unfolding lock_acquire_begin_def by (auto dest!: sync_locks_of intro!: wp)

lemma acquire_end_effect:
  "post (\<lambda>k'. running k \<noteq> NULL \<and> locks_of k' = (vals k, (lock_holder k)(l \<mapsto> running k), conds k)) (lock_acquire_end k l)"
  unfolding lock_acquire_end_def
  by (auto simp: set_holder_def sync_def locks_of_def vals_def fun_eq_iff intro!: thread_current_wp sync_upd_thread)

lemma release_begin_effect:
  "post (\<lambda>k'. running k \<noteq> NULL \<and> lock_holder k l = Some (running k) \<and>
     locks_of k' = (vals k, (lock_holder k)(l \<mapsto> NULL), conds k)) (lock_release_begin k l)"
  unfolding lock_release_begin_def remove_donation_for_lock_def recalc_priority_def
  by (auto simp: set_holder_def sync_def locks_of_def vals_def fun_eq_iff intro!: wp)

lemma cond_wait_begin_effect:
  "post (\<lambda>k'. \<exists>ws ws'. conds k c = Some ws \<and> set ws' = insert w (set ws) \<and>
     locks_of k' = ((vals k)(waiter_sema w \<mapsto> 0), lock_holder k, (conds k)(c \<mapsto> ws'))) (cond_wait_begin k c l w)"
  unfolding cond_wait_begin_def sema_init_def get_cond_def
  by (auto simp: locks_of_def vals_def fun_eq_iff post_def bind_Some)

definition signal_effect :: "kernel \<Rightarrow> ptr \<Rightarrow> kernel \<Rightarrow> bool" where
  "signal_effect k c k' \<longleftrightarrow> locks_of k' = locks_of k \<or>
     (\<exists>w ws ws' v. conds k c = Some ws \<and> set ws' \<subseteq> set ws \<and> w \<in> set ws \<and> vals k (waiter_sema w) = Some v \<and>
       locks_of k' = ((vals k)(waiter_sema w \<mapsto> v + 1), lock_holder k, (conds k)(c \<mapsto> ws')))"

lemma cond_signal_effect: "post (signal_effect k c) (cond_signal k c l)"
proof -
  have up: "post (signal_effect k c)
      (sema_up (k\<lparr>conds := (conds k)(c \<mapsto> tl (sort_key key ws))\<rparr>) (waiter_sema (hd (sort_key key ws))))"
    if ws: "conds k c = Some ws" "ws \<noteq> []" for ws and key :: "ptr \<Rightarrow> int \<times> int"
  proof (rule post_mono [OF sema_up_effect])
    let ?s = "sort_key key ws" and ?k = "k\<lparr>conds := (conds k)(c \<mapsto> tl (sort_key key ws))\<rparr>"
    fix k' assume "up_effect ?k (waiter_sema (hd ?s)) k'"
    moreover have "vals ?k = vals k" by (simp add: vals_def fun_eq_iff)
    ultimately obtain v where v: "vals k (waiter_sema (hd ?s)) = Some v"
        "locks_of k' = ((vals k)(waiter_sema (hd ?s) \<mapsto> v + 1), lock_holder k, (conds k)(c \<mapsto> tl ?s))"
      by (auto simp: up_effect_def)
    have ne: "?s \<noteq> []" using ws(2) by (metis length_0_conv length_sort)
    have "hd ?s \<in> set ws" using hd_in_set [OF ne] by simp
    moreover have "set (tl ?s) \<subseteq> set ws" using list.set_sel(2) [OF ne] by fastforce
    ultimately show "signal_effect k c k'" using ws(1) v unfolding signal_effect_def by blast
  qed
  then show ?thesis
    unfolding cond_signal_def Let_def by (auto simp: signal_effect_def intro!: wp)
qed

end
