(* ===== verification/Demo_System.thy ===== *)
theory Demo_System
  imports Sched_Inv
begin

text \<open>
  A small running system on which the general theorems about the kernel are instantiated: thread 20
  runs, thread 10 is ready with a higher priority, 30 is the idle thread, and there is one lock, at
  address 100.
\<close>

definition demo_thread :: "int \<Rightarrow> thread_status \<Rightarrow> thread" where
  "demo_thread pri st = \<lparr>tid = 1, status = st, thread_name_field = [], priority = pri, original_priority = pri,
     donations = [], pending_lock = 0, nice = 0, recent_cpu = 0, children_list = [], pml4 = 0,
     magic = THREAD_MAGIC, resume_level = True\<rparr>"

definition demo_kernel :: kernel where
  "demo_kernel = \<lparr>threads = [10 \<mapsto> demo_thread 40 THREAD_READY, 20 \<mapsto> demo_thread 31 THREAD_RUNNING,
       30 \<mapsto> demo_thread 0 THREAD_BLOCKED],
     semas = [108 \<mapsto> \<lparr>sema_value = 1, waiters = []\<rparr>], lock_holder = [100 \<mapsto> 0], conds = Map.empty,
     ready_list = [10], destruction_req = [], all_list = [20, 30, 10], running = 20, idle_thread = 30,
     initial_thread = 20, intr_on = True, in_external_intr = False, yield_on_return = False, thread_ticks = 0,
     idle_ticks = 0, kernel_ticks = 0, user_ticks = 0, thread_mlfqs = False, load_avg = 0, next_tid = 4, ticks = 0,
     block_thread_list = [], closet_tick = 0\<rparr>"

lemma demo_sched_inv: "sched_inv demo_kernel"
proof -
  have st: "stat demo_kernel = [10 \<mapsto> THREAD_READY, 20 \<mapsto> THREAD_RUNNING, 30 \<mapsto> THREAD_BLOCKED]"
    by (auto simp: stat_def demo_kernel_def demo_thread_def fun_eq_iff)
  have ws: "sema_waiters demo_kernel = (\<lambda>_. [])"
    by (auto simp: sema_waiters_def demo_kernel_def fun_eq_iff)
  have "valid demo_kernel" by (auto simp: valid_def demo_kernel_def demo_thread_def split: if_splits)
  then show ?thesis
    unfolding sched_inv_def sched_core_def st ws queues_ok_def
    by (auto simp: demo_kernel_def sleepers_def split: if_splits)
qed

end
