(* ===== verification/Mutual_Exclusion.thy ===== *)
theory Mutual_Exclusion
  imports Lock_Safety Demo_System
begin

text \<open>
  The lock invariant of the machine and its proof by rule induction over the steps.
\<close>

section \<open>Programs\<close>

text \<open>\<open>L\<close> is the set of locks.  A program may use any semaphore directly except the ones inside locks,
  which only the lock functions touch; \<open>plain\<close> says so of a single call.\<close>

fun plain :: "ptr set \<Rightarrow> action \<Rightarrow> bool" where
  "plain L (Down s) \<longleftrightarrow> s \<notin> lock_sema ` L"
| "plain L (DownLoop s old) \<longleftrightarrow> s \<notin> lock_sema ` L"
| "plain L (Up s) \<longleftrightarrow> s \<notin> lock_sema ` L"
| "plain L (Acquired l) \<longleftrightarrow> False"
| "plain L (Acquire l) \<longleftrightarrow> l \<in> L"
| "plain L (Release l) \<longleftrightarrow> l \<in> L"
| "plain L (Wait c l w) \<longleftrightarrow> l \<in> L \<and> waiter_sema w \<notin> lock_sema ` L"
| "plain L _ \<longleftrightarrow> True"

inductive wf_prog :: "ptr set \<Rightarrow> action list \<Rightarrow> bool" for L where
  wf_nil: "wf_prog L []"
| wf_plain: "plain L a \<Longrightarrow> wf_prog L xs \<Longrightarrow> wf_prog L (a # xs)"
| wf_down: "l \<in> L \<Longrightarrow> wf_prog L xs \<Longrightarrow> wf_prog L (Down (lock_sema l) # Acquired l # xs)"
| wf_down_loop: "l \<in> L \<Longrightarrow> wf_prog L xs \<Longrightarrow> wf_prog L (DownLoop (lock_sema l) old # Acquired l # xs)"

inductive_cases wf_consE: "wf_prog L (a # xs)"

lemma wf_prog_plain: "list_all (plain L) xs \<Longrightarrow> wf_prog L xs"
  by (induction xs) (auto intro: wf_prog.intros)

text \<open>A thread claims lock \<open>l\<close> when it has got its semaphore and not yet entered itself as holder, or has
  given up being holder and not yet raised the semaphore.\<close>

definition claims :: "ptr \<Rightarrow> action list \<Rightarrow> bool" where
  "claims l xs = (case xs of Acquired l' # _ \<Rightarrow> l' = l | Up s # _ \<Rightarrow> s = lock_sema l | _ \<Rightarrow> False)"

definition wf_todo :: "ptr set \<Rightarrow> action list \<Rightarrow> bool" where
  "wf_todo L xs \<longleftrightarrow> wf_prog L xs \<or> (\<exists>l \<in> L. claims l xs \<and> wf_prog L (tl xs))"

lemma lock_sema_inj [simp]: "lock_sema l = lock_sema l' \<longleftrightarrow> l = l'"
  by (simp add: lock_sema_def)

lemma claims_simps [simp]:
  "claims l (Acquired l' # xs) \<longleftrightarrow> l' = l" "claims l (Up s # xs) \<longleftrightarrow> s = lock_sema l" "\<not> claims l []"
  by (simp_all add: claims_def)

lemma wf_prog_no_claim: "wf_prog L xs \<Longrightarrow> l \<in> L \<Longrightarrow> \<not> claims l xs"
  by (erule wf_prog.cases) (auto simp: claims_def split: action.splits)

section \<open>The invariant\<close>

definition claimants :: "(ptr \<Rightarrow> action list) \<Rightarrow> ptr \<Rightarrow> ptr set" where
  "claimants todo l = {p. claims l (todo p)}"

definition lock_ok :: "(ptr \<rightharpoonup> 32 word) \<Rightarrow> (ptr \<rightharpoonup> ptr) \<Rightarrow> (ptr \<Rightarrow> action list) \<Rightarrow> ptr \<Rightarrow> bool" where
  "lock_ok V H todo l \<longleftrightarrow> (\<exists>v h. V (lock_sema l) = Some v \<and> H l = Some h \<and>
     (v = 1 \<and> h = NULL \<and> claimants todo l = {} \<or>
      v = 0 \<and> h \<noteq> NULL \<and> claimants todo l = {} \<or>
      v = 0 \<and> h = NULL \<and> (\<exists>p. claimants todo l = {p})))"

definition conds_ok :: "ptr set \<Rightarrow> (ptr \<rightharpoonup> ptr list) \<Rightarrow> bool" where
  "conds_ok L C \<longleftrightarrow> (\<forall>c ws. C c = Some ws \<longrightarrow> (\<forall>w \<in> set ws. waiter_sema w \<notin> lock_sema ` L))"

definition lock_inv :: "ptr set \<Rightarrow> machine \<Rightarrow> bool" where
  "lock_inv L m = (case m of (k, todo) \<Rightarrow>
     (\<forall>p. wf_todo L (todo p)) \<and> conds_ok L (conds k) \<and> (\<forall>l \<in> L. lock_ok (vals k) (lock_holder k) todo l))"

lemma lock_invI:
  assumes "\<And>p. wf_todo L (todo p)" "conds_ok L (conds k)" "\<And>l. l \<in> L \<Longrightarrow> lock_ok (vals k) (lock_holder k) todo l"
  shows "lock_inv L (k, todo)"
  using assms by (simp add: lock_inv_def)

lemma lock_invD:
  assumes "lock_inv L (k, todo)"
  shows "wf_todo L (todo p)" "conds_ok L (conds k)" "l \<in> L \<Longrightarrow> lock_ok (vals k) (lock_holder k) todo l"
  using assms by (simp_all add: lock_inv_def)

text \<open>When the first call of \<open>cur\<close> neither was nor becomes a claim, the claimants stay.\<close>

lemma claimants_upd:
  "claimants (todo(cur := ys)) l = (if claims l ys then insert cur (claimants todo l) else claimants todo l - {cur})"
  by (auto simp: claimants_def)

lemma claimants_same:
  "claims l ys = claims l (todo cur) \<Longrightarrow> claimants (todo(cur := ys)) l = claimants todo l"
  by (auto simp: claimants_def)

lemma lock_ok_same:
  assumes "lock_ok V H todo l" "V' (lock_sema l) = V (lock_sema l)" "H' l = H l" "claims l ys = claims l (todo cur)"
  shows "lock_ok V' H' (todo(cur := ys)) l"
  using assms claimants_same [of l ys todo cur] by (simp add: lock_ok_def)

text \<open>A step that leaves every lock alone, and whose continuation claims nothing.\<close>

lemma lock_inv_plain_step:
  assumes inv: "lock_inv L (k, todo)" and cur: "wf_prog L (todo cur)" "wf_prog L ys"
    and view: "\<And>s. s \<in> lock_sema ` L \<Longrightarrow> vals k' s = vals k s" "lock_holder k' = lock_holder k" and c: "conds_ok L (conds k')"
  shows "lock_inv L (k', todo(cur := ys))"
proof (rule lock_invI)
  show "wf_todo L ((todo(cur := ys)) p)" for p using inv cur(2) by (simp add: lock_inv_def wf_todo_def)
  show "lock_ok (vals k') (lock_holder k') (todo(cur := ys)) l" if l: "l \<in> L" for l
    using inv l view wf_prog_no_claim [OF cur(1) l] wf_prog_no_claim [OF cur(2) l]
    by (intro lock_ok_same [of "vals k" "lock_holder k"]) (auto simp: lock_inv_def)
qed (rule c)

lemma lock_inv_same:
  assumes "lock_inv L (k, todo)" "wf_prog L (todo cur)" "wf_prog L ys" "locks_of k' = locks_of k"
  shows "lock_inv L (k', todo(cur := ys))"
  using assms by (intro lock_inv_plain_step [OF assms(1-3)]) (auto simp: locks_of_def lock_inv_def)

section \<open>Every step keeps it\<close>

text \<open>Passing the semaphore of a free lock makes the running thread its only claimant.\<close>

lemma down_step:
  assumes inv: "lock_inv L (k, todo)" and cur: "todo cur = a # rest" "wf_prog L (a # rest)"
    and a: "a = Down s \<or> (\<exists>old. a = DownLoop s old)" and eff: "down_effect k s (passed, k')"
  shows "lock_inv L (k', todo(cur := (if passed then [] else [DownLoop s old']) @ rest))"
proof (cases "s \<in> lock_sema ` L")
  case False
  then have "wf_prog L rest" using cur(2) a by (auto elim: wf_consE)
  moreover have "wf_prog L (DownLoop s old' # rest)" using False calculation by (auto intro: wf_prog.intros)
  moreover have "\<And>s'. s' \<in> lock_sema ` L \<Longrightarrow> vals k' s' = vals k s'" "lock_holder k' = lock_holder k" "conds k' = conds k"
    using eff False by (auto simp: down_effect_def locks_of_def split: if_splits)
  ultimately show ?thesis
    using inv cur by (intro lock_inv_plain_step [OF inv]) (auto simp: lock_inv_def)
next
  case True
  then obtain l where l: "l \<in> L" "s = lock_sema l" by blast
  then obtain r where r: "rest = Acquired l # r" "wf_prog L r" using cur(2) a by (auto elim!: wf_consE)
  show ?thesis
  proof (cases passed)
    case False
    have "wf_prog L (DownLoop s old' # rest)" using r l by (auto intro: wf_prog.intros)
    with False show ?thesis using inv cur eff by (intro lock_inv_same [OF inv]) (auto simp: down_effect_def)
  next
    case True
    then obtain v where v: "vals k s = Some v" "v \<noteq> 0" "locks_of k' = ((vals k)(s \<mapsto> v - 1), lock_holder k, conds k)"
      using eff by (auto simp: down_effect_def)
    have nc: "\<not> claims l' (todo cur)" if "l' \<in> L" for l' using wf_prog_no_claim [OF _ that] cur by simp
    show ?thesis
    proof (rule lock_invI)
      show "wf_todo L ((todo(cur := (if passed then [] else [DownLoop s old']) @ rest)) p)" for p
        using inv r l(1) True by (auto simp: lock_inv_def wf_todo_def)
      show "conds_ok L (conds k')" using inv v(3) by (simp add: lock_inv_def locks_of_def)
      fix l' assume l': "l' \<in> L"
      have ok: "lock_ok (vals k) (lock_holder k) todo l'" using inv l' by (simp add: lock_inv_def)
      show "lock_ok (vals k') (lock_holder k') (todo(cur := (if passed then [] else [DownLoop s old']) @ rest)) l'"
      proof (cases "l' = l")
        case False
        with ok v(3) l(2) r(1) True nc [OF l'] show ?thesis
          by (intro lock_ok_same [OF ok]) (auto simp: locks_of_def)
      next
        case same: True
        with ok v(1,2) l(2) have "v = 1" "lock_holder k l = Some NULL" "claimants todo l = {}"
          by (auto simp: lock_ok_def)
        with same v(3) l(2) r(1) True show ?thesis
          by (auto simp: lock_ok_def locks_of_def claimants_upd)
      qed
    qed
  qed
qed

lemma up_step:
  assumes inv: "lock_inv L (k, todo)" and cur: "todo cur = Up s # rest" and eff: "up_effect k s k'"
  shows "lock_inv L (k', todo(cur := rest))"
proof -
  obtain v where v: "vals k s = Some v" "locks_of k' = ((vals k)(s \<mapsto> v + 1), lock_holder k, conds k)"
    using eff by (auto simp: up_effect_def)
  have wf: "wf_todo L (Up s # rest)" using lock_invD(1) [OF inv, of cur] cur by simp
  show ?thesis
  proof (cases "s \<in> lock_sema ` L")
    case False
    then have "wf_prog L (Up s # rest)" using wf by (auto simp: wf_todo_def)
    moreover have "wf_prog L rest" using calculation by (auto elim: wf_consE)
    ultimately show ?thesis
      using inv cur v False by (intro lock_inv_plain_step [OF inv]) (auto simp: lock_inv_def locks_of_def)
  next
    case True
    then obtain l where l: "l \<in> L" "s = lock_sema l" by blast
    have "\<not> wf_prog L (Up s # rest)" using wf_prog_no_claim [OF _ l(1)] l(2) by force
    then have rest: "wf_prog L rest" using wf by (auto simp: wf_todo_def)
    show ?thesis
    proof (rule lock_invI)
      show "wf_todo L ((todo(cur := rest)) p)" for p using inv rest by (simp add: lock_inv_def wf_todo_def)
      show "conds_ok L (conds k')" using inv v(2) by (simp add: lock_inv_def locks_of_def)
      fix l' assume l': "l' \<in> L"
      have ok: "lock_ok (vals k) (lock_holder k) todo l'" using inv l' by (simp add: lock_inv_def)
      have nc: "\<not> claims l' rest" by (rule wf_prog_no_claim [OF rest l'])
      show "lock_ok (vals k') (lock_holder k') (todo(cur := rest)) l'"
      proof (cases "l' = l")
        case False
        with ok v(2) l(2) nc cur show ?thesis by (intro lock_ok_same [OF ok]) (auto simp: locks_of_def)
      next
        case same: True
        have "cur \<in> claimants todo l" using cur l(2) by (simp add: claimants_def)
        with ok v(1) l(2) same have "v = 0" "lock_holder k l = Some NULL" "claimants todo l = {cur}"
          by (auto simp: lock_ok_def)
        with same v(2) l(2) nc show ?thesis by (auto simp: lock_ok_def locks_of_def claimants_upd)
      qed
    qed
  qed
qed

text \<open>A claimant becomes the holder; the holder becomes a claimant.\<close>

lemma acquired_step:
  assumes inv: "lock_inv L (k, todo)" and cur: "todo cur = Acquired l # rest" "cur \<noteq> NULL"
    and eff: "locks_of k' = (vals k, (lock_holder k)(l \<mapsto> cur), conds k)"
  shows "lock_inv L (k', todo(cur := rest))"
proof -
  have "\<not> wf_prog L (Acquired l # rest)" by (auto elim: wf_consE)
  then have l: "l \<in> L" "wf_prog L rest" using lock_invD(1) [OF inv, of cur] cur by (auto simp: wf_todo_def)
  show ?thesis
  proof (rule lock_invI)
    show "wf_todo L ((todo(cur := rest)) p)" for p using lock_invD(1) [OF inv] l(2) by (simp add: wf_todo_def)
    show "conds_ok L (conds k')" using lock_invD(2) [OF inv] eff by (simp add: locks_of_def)
    fix l' assume l': "l' \<in> L"
    note ok = lock_invD(3) [OF inv l']
    have nc: "\<not> claims l' rest" by (rule wf_prog_no_claim [OF l(2) l'])
    show "lock_ok (vals k') (lock_holder k') (todo(cur := rest)) l'"
    proof (cases "l' = l")
      case False
      with ok eff nc cur(1) show ?thesis by (intro lock_ok_same [OF ok]) (auto simp: locks_of_def)
    next
      case same: True
      have "cur \<in> claimants todo l" using cur by (simp add: claimants_def)
      with ok same have "vals k (lock_sema l) = Some 0" "claimants todo l = {cur}" by (auto simp: lock_ok_def)
      with same eff cur(2) nc show ?thesis by (auto simp: lock_ok_def locks_of_def claimants_upd)
    qed
  qed
qed

lemma release_step:
  assumes inv: "lock_inv L (k, todo)" and cur: "todo cur = Release l # rest" "cur \<noteq> NULL"
    and held: "lock_holder k l = Some cur" and eff: "locks_of k' = (vals k, (lock_holder k)(l \<mapsto> NULL), conds k)"
  shows "lock_inv L (k', todo(cur := Up (lock_sema l) # CheckPriority # rest))"
proof -
  have "\<not> claims l' (Release l # rest)" for l' by (simp add: claims_def)
  then have wf: "wf_prog L (Release l # rest)" using lock_invD(1) [OF inv, of cur] cur by (auto simp: wf_todo_def)
  then have l: "l \<in> L" "wf_prog L rest" by (auto elim: wf_consE)
  show ?thesis
  proof (rule lock_invI)
    show "wf_todo L ((todo(cur := Up (lock_sema l) # CheckPriority # rest)) p)" for p
      using lock_invD(1) [OF inv] l by (auto simp: wf_todo_def intro: wf_prog.intros)
    show "conds_ok L (conds k')" using lock_invD(2) [OF inv] eff by (simp add: locks_of_def)
    fix l' assume l': "l' \<in> L"
    note ok = lock_invD(3) [OF inv l']
    have nc: "\<not> claims l' (todo cur)" using wf_prog_no_claim [OF wf l'] cur by simp
    show "lock_ok (vals k') (lock_holder k') (todo(cur := Up (lock_sema l) # CheckPriority # rest)) l'"
    proof (cases "l' = l")
      case False
      with ok eff nc show ?thesis by (intro lock_ok_same [OF ok]) (auto simp: locks_of_def)
    next
      case same: True
      with ok held cur(2) have "vals k (lock_sema l) = Some 0" "claimants todo l = {}" by (auto simp: lock_ok_def)
      with same eff show ?thesis by (auto simp: lock_ok_def locks_of_def claimants_upd)
    qed
  qed
qed

lemma wait_step:
  assumes inv: "lock_inv L (k, todo)" and cur: "todo cur = Wait c l w # rest"
    and eff: "conds k c = Some ws" "set ws' = insert w (set ws)"
      "locks_of k' = ((vals k)(waiter_sema w \<mapsto> 0), lock_holder k, (conds k)(c \<mapsto> ws'))"
  shows "lock_inv L (k', todo(cur := Release l # Down (waiter_sema w) # Acquire l # rest))"
proof -
  have wf: "wf_prog L (Wait c l w # rest)"
    using lock_invD(1) [OF inv, of cur] cur by (auto simp: wf_todo_def claims_def)
  then have l: "l \<in> L" "waiter_sema w \<notin> lock_sema ` L" "wf_prog L rest" by (auto elim: wf_consE)
  have "conds_ok L (conds k')"
    using lock_invD(2) [OF inv] eff l(2) by (auto simp: conds_ok_def locks_of_def split: if_splits)
  moreover have "wf_prog L (Release l # Down (waiter_sema w) # Acquire l # rest)"
    using l by (auto intro!: wf_prog.intros)
  ultimately show ?thesis
    using wf cur eff(3) l(2) by (intro lock_inv_plain_step [OF inv]) (auto simp: locks_of_def image_iff)
qed

lemma signal_step:
  assumes inv: "lock_inv L (k, todo)" and cur: "todo cur = Signal c l # rest" and eff: "signal_effect k c k'"
  shows "lock_inv L (k', todo(cur := rest))"
proof -
  have wf: "wf_prog L (Signal c l # rest)"
    using lock_invD(1) [OF inv, of cur] cur by (auto simp: wf_todo_def claims_def)
  then have rest: "wf_prog L rest" by (auto elim: wf_consE)
  from eff consider "locks_of k' = locks_of k"
    | w ws ws' v where "conds k c = Some ws" "set ws' \<subseteq> set ws" "w \<in> set ws"
        "locks_of k' = ((vals k)(waiter_sema w \<mapsto> v + 1), lock_holder k, (conds k)(c \<mapsto> ws'))"
    unfolding signal_effect_def by blast
  then show ?thesis
  proof cases
    case 1
    then show ?thesis using wf cur rest by (intro lock_inv_same [OF inv]) simp_all
  next
    case 2
    have ck: "conds_ok L (conds k)" by (rule lock_invD(2) [OF inv])
    then have "waiter_sema w \<notin> lock_sema ` L" using 2(1,3) by (auto simp: conds_ok_def)
    moreover have "conds_ok L (conds k')" using ck 2 by (auto simp: conds_ok_def locks_of_def split: if_splits)
    ultimately show ?thesis using wf cur rest 2(4)
      by (intro lock_inv_plain_step [OF inv]) (auto simp: locks_of_def image_iff)
  qed
qed

text \<open>All other calls leave the locks alone.\<close>

lemma quiet_step:
  assumes inv: "lock_inv L (k, todo)" and cur: "todo cur = a # rest" and "plain L a" "locks_of k' = locks_of k"
    and later: "list_all (plain L) later"
  shows "lock_inv L (k', todo(cur := later @ rest))"
proof -
  have wf: "wf_prog L (a # rest)"
  proof -
    have "\<not> claims l (a # rest)" if "l \<in> L" for l using assms(3) that by (cases a) (auto simp: claims_def)
    then show ?thesis using lock_invD(1) [OF inv, of cur] cur by (auto simp: wf_todo_def)
  qed
  then have "wf_prog L rest" using assms(3) by (auto elim: wf_consE)
  then have "wf_prog L (later @ rest)" using later by (induction later) (auto intro: wf_prog.intros)
  then show ?thesis using wf cur assms(4) by (intro lock_inv_same [OF inv]) simp_all
qed

lemma acquire_step:
  assumes inv: "lock_inv L (k, todo)" and cur: "todo cur = Acquire l # rest" and same: "locks_of k' = locks_of k"
  shows "lock_inv L (k', todo(cur := (if p \<noteq> NULL then [Donate p] else []) @ Down (lock_sema l) # Acquired l # rest))"
proof -
  have wf: "wf_prog L (Acquire l # rest)"
    using lock_invD(1) [OF inv, of cur] cur by (auto simp: wf_todo_def claims_def)
  then have "wf_prog L ((if p \<noteq> NULL then [Donate p] else []) @ Down (lock_sema l) # Acquired l # rest)"
    by (auto elim!: wf_consE intro!: wf_prog.intros)
  then show ?thesis using wf cur same by (intro lock_inv_same [OF inv]) simp_all
qed

lemma wf_head_plain:
  assumes "wf_todo L (a # rest)" "\<And>l. \<not> claims l (a # rest)"
  shows "wf_prog L (a # rest)"
  using assms by (auto simp: wf_todo_def)

definition quiet :: "action \<Rightarrow> bool" where
  "quiet a \<longleftrightarrow> a \<in> {CheckPriority, Yield, Exit, IdleLoop, Work} \<or> (\<exists>n. a \<in> {SetPriority n, SetNice n, Sleep n})"

lemma quiet_post:
  assumes "quiet a"
  shows "post (\<lambda>r. list_all (plain L) (snd r) \<and> sync (fst r) = sync k) (exec a k)"
  using assms unfolding quiet_def by (auto intro!: wp)

lemma quiet_plain: "quiet a \<Longrightarrow> plain L a"
  by (auto simp: quiet_def)

lemma exec_step:
  assumes inv: "lock_inv L (k, todo)" and cur: "todo (running k) = a # rest" and ex: "exec a k = Some (k', later)"
  shows "lock_inv L (k', todo(running k := later @ rest))"
proof -
  have wf: "wf_todo L (a # rest)" using lock_invD(1) [OF inv, of "running k"] cur by simp
  note quiet = quiet_step [OF inv cur]
  have sync: "lock_inv L (k', todo(running k := later @ rest))"
    if "plain L a" "list_all (plain L) later" "sync k' = sync k"
    using quiet that sync_locks_of by blast
  show ?thesis
  proof (cases a)
    case (Down s)
    then obtain passed where "sema_down k s = Some (passed, k')" "later = (if passed then [] else [DownLoop s (intr_on k)])"
      using ex by (auto simp: bind_Some)
    then show ?thesis
      using down_step [OF inv cur wf_head_plain [OF wf]] postD [OF sema_down_effect] Down by (auto simp: claims_def)
  next
    case (DownLoop s old)
    then obtain passed where "sema_down_loop k s old = Some (passed, k')" "later = (if passed then [] else [DownLoop s old])"
      using ex by (auto simp: bind_Some)
    then show ?thesis
      using down_step [OF inv cur wf_head_plain [OF wf]] postD [OF sema_down_loop_effect] DownLoop by (auto simp: claims_def)
  next
    case (Up s)
    then have "sema_up k s = Some k'" "later = []" using ex by (auto simp: bind_Some)
    then show ?thesis using up_step [OF inv, of "running k" s rest k'] cur Up postD [OF sema_up_effect] by auto
  next
    case (Acquire l)
    then obtain p where "lock_acquire_begin k l = Some (p, k')"
        "later = (if p \<noteq> NULL then [Donate p] else []) @ [Down (lock_sema l), Acquired l]"
      using ex by (auto simp: bind_Some split: if_splits)
    then show ?thesis
      using acquire_step [OF inv, of "running k" l rest k' p] cur Acquire postD [OF acquire_begin_effect] by fastforce
  next
    case (Donate p)
    then obtain n where "donate_step k p = Some (n, k')" "later = (if n \<noteq> NULL then [Donate n] else [])"
      using ex by (auto simp: bind_Some split: if_splits)
    then show ?thesis using quiet [of k' later] Donate postD [OF donate_step_effect] by fastforce
  next
    case (Acquired l)
    then have "lock_acquire_end k l = Some k'" "later = []" using ex by (auto simp: bind_Some)
    then show ?thesis
      using acquired_step [OF inv, of "running k" l rest k'] cur Acquired postD [OF acquire_end_effect] by auto
  next
    case (Release l)
    then have "lock_release_begin k l = Some k'" "later = [Up (lock_sema l), CheckPriority]" using ex by (auto simp: bind_Some)
    then show ?thesis
      using release_step [OF inv, of "running k" l rest k'] cur Release postD [OF release_begin_effect] by auto
  next
    case (Wait c l w)
    then have "cond_wait_begin k c l w = Some k'" "later = [Release l, Down (waiter_sema w), Acquire l]"
      using ex by (auto simp: bind_Some)
    then show ?thesis
      using wait_step [OF inv, of "running k" c l w rest] cur Wait postD [OF cond_wait_begin_effect] by fastforce
  next
    case (Signal c l)
    then have "cond_signal k c l = Some k'" "later = []" using ex by (auto simp: bind_Some)
    then show ?thesis
      using signal_step [OF inv, of "running k" c l rest k'] cur Signal postD [OF cond_signal_effect] by auto
  next
    case (Broadcast c l)
    then show ?thesis using ex sync by (auto simp: bind_Some split: if_splits)
  qed (use sync postD [OF quiet_post ex] quiet_plain in \<open>auto simp: quiet_def\<close>)
qed

lemma lock_inv_step: "kstep m m' \<Longrightarrow> lock_inv L m \<Longrightarrow> lock_inv L m'"
proof (induction rule: kstep.induct)
  case (call todo k a rest k' later)
  then show ?case using exec_step by blast
next
  case (tick k k' todo)
  have "post (\<lambda>k'. sync k' = sync k) (intr_handler_ext timer_interrupt k)" by (auto intro!: wp)
  from sync_locks_of [OF postD [OF this tick(2)]] have "locks_of k' = locks_of k" .
  then show ?case using tick(3) by (simp add: lock_inv_def locks_of_def)
qed

lemma lock_inv_reachable: "reachable m m' \<Longrightarrow> lock_inv L m \<Longrightarrow> lock_inv L m'"
  by (induction rule: reachable.induct) (auto intro: lock_inv_step)

section \<open>Mutual exclusion\<close>

text \<open>A thread is inside lock \<open>l\<close> when it is the holder or has passed the semaphore and is about to be.\<close>

definition inside :: "machine \<Rightarrow> ptr \<Rightarrow> ptr \<Rightarrow> bool" where
  "inside m l p = (case m of (k, todo) \<Rightarrow>
     (p \<noteq> NULL \<and> lock_holder k l = Some p) \<or> (\<exists>r. todo p = Acquired l # r))"

lemma lock_ok_inside:
  assumes "lock_ok (vals k) (lock_holder k) todo l" "inside (k, todo) l p" "inside (k, todo) l q"
  shows "p = q"
proof -
  have "p \<in> claimants todo l \<or> lock_holder k l = Some p \<and> p \<noteq> NULL" "q \<in> claimants todo l \<or> lock_holder k l = Some q \<and> q \<noteq> NULL"
    using assms(2,3) by (auto simp: inside_def claimants_def)
  with assms(1) show ?thesis by (auto simp: lock_ok_def)
qed

lemma lock_ok_free:
  assumes "lock_ok (vals k) (lock_holder k) todo l" "vals k (lock_sema l) \<noteq> Some 0"
  shows "\<not> inside (k, todo) l p"
proof -
  have "p \<notin> claimants todo l" "lock_holder k l = Some NULL" using assms by (auto simp: lock_ok_def)
  then show ?thesis by (auto simp: inside_def claimants_def)
qed

text \<open>The start: every lock is free, and the programs touch lock semaphores only through locks.\<close>

definition fresh_locks :: "ptr set \<Rightarrow> machine \<Rightarrow> bool" where
  "fresh_locks L m = (case m of (k, todo) \<Rightarrow>
     (\<forall>p. list_all (plain L) (todo p)) \<and> (\<forall>c. conds k c = None \<or> conds k c = Some []) \<and>
     (\<forall>l \<in> L. lock_holder k l = Some NULL \<and> vals k (lock_sema l) = Some 1))"

lemma fresh_locks_inv: "fresh_locks L m \<Longrightarrow> lock_inv L m"
proof (cases m)
  case (Pair k todo)
  assume f: "fresh_locks L m"
  have wf: "wf_prog L (todo p)" for p using f Pair by (auto simp: fresh_locks_def intro: wf_prog_plain)
  have "claimants todo l = {}" if "l \<in> L" for l using wf_prog_no_claim [OF wf that] by (simp add: claimants_def)
  then have "lock_ok (vals k) (lock_holder k) todo l" if "l \<in> L" for l
    using f Pair that by (auto simp: fresh_locks_def lock_ok_def)
  moreover have "conds_ok L (conds k)" unfolding conds_ok_def
  proof (intro allI impI)
    fix c ws assume "conds k c = Some ws"
    moreover have "conds k c = None \<or> conds k c = Some []" using f Pair by (simp add: fresh_locks_def)
    ultimately show "\<forall>w \<in> set ws. waiter_sema w \<notin> lock_sema ` L" by auto
  qed
  ultimately show ?thesis using wf Pair by (auto simp: lock_inv_def wf_todo_def)
qed

text \<open>C1: Mutual exclusion.  Starting with free locks and programs that use the locks' semaphores only
  through \<open>lock_acquire\<close>, \<open>lock_release\<close> and \<open>cond_wait\<close>, at most one thread is ever inside a lock, for any
  number of threads, any programs, any donations and condition variables and any timing of the timer
  interrupt; and the lock's semaphore is positive only when no thread is inside.\<close>

theorem lock_mutual_exclusion:
  assumes "fresh_locks L m" "reachable m (k, todo)" "l \<in> L"
  shows "(\<forall>p q. inside (k, todo) l p \<longrightarrow> inside (k, todo) l q \<longrightarrow> p = q) \<and>
    (vals k (lock_sema l) \<noteq> Some 0 \<longrightarrow> (\<forall>p. \<not> inside (k, todo) l p))"
proof -
  have ok: "lock_ok (vals k) (lock_holder k) todo l"
    using lock_invD(3) [OF lock_inv_reachable [OF assms(2) fresh_locks_inv [OF assms(1)]] assms(3)] .
  then show ?thesis using lock_ok_inside [OF ok] lock_ok_free [OF ok] by blast
qed

text \<open>Two threads contend for the lock at 100: thread 20 holds it when thread 10, of higher priority,
  arrives, donates and blocks.\<close>

definition demo_todo :: "ptr \<Rightarrow> action list" where
  "demo_todo = (\<lambda>_. [])(20 := [Acquire 100, Yield, Release 100], 10 := [Acquire 100, Release 100])"

lemma demo_fresh: "fresh_locks {100} (demo_kernel, demo_todo)"
  by (simp add: fresh_locks_def demo_kernel_def demo_todo_def vals_def lock_sema_def)

lemmas kernel_run = run1_def bind_Some ASSERT_def sema_down_def sema_down_loop_def lock_acquire_begin_def
  lock_acquire_end_def lock_held_by_current_thread_def get_holder_def set_holder_def get_sema_def set_sema_def
  thread_current_def is_thread_def get_thread_def upd_thread_def intr_disable_def intr_set_level_def
  thread_yield_def do_schedule_def free_victims_def schedule_def next_thread_to_run_def thread_launch_def
  insert_by_priority_def sort_by_priority_def mapped_def prio_def lock_sema_def thread_block_def
  donate_step_def create_donation_def thread_get_priority_def

lemma demo_run: "\<exists>k todo. run_calls 7 (demo_kernel, demo_todo) = Some (k, todo) \<and> lock_holder k 100 = Some 20 \<and>
    running k = 20 \<and> prio k 20 = 40 \<and> status (the (threads k 10)) = THREAD_BLOCKED"
  by (simp add: eval_nat_numeral kernel_run demo_kernel_def demo_todo_def demo_thread_def)

theorem lock_mutual_exclusion_witness:
  "\<exists>k todo. reachable (demo_kernel, demo_todo) (k, todo) \<and> lock_holder k 100 = Some 20 \<and>
    status (the (threads k 10)) = THREAD_BLOCKED \<and> (\<forall>p. inside (k, todo) 100 p \<longrightarrow> p = 20)"
proof -
  obtain k todo where r: "run_calls 7 (demo_kernel, demo_todo) = Some (k, todo)" "lock_holder k 100 = Some 20"
      "status (the (threads k 10)) = THREAD_BLOCKED"
    using demo_run by blast
  have "inside (k, todo) 100 20" using r(2) by (simp add: inside_def)
  moreover note reach = run_calls_reachable [OF r(1)]
  ultimately have "\<forall>p. inside (k, todo) 100 p \<longrightarrow> p = 20"
    using lock_mutual_exclusion [OF demo_fresh reach, of 100] by blast
  with r(2,3) reach show ?thesis by blast
qed

end
