(* ===== verification/Sched_Properties.thy ===== *)
theory Sched_Properties
  imports Sched_Ops Mutual_Exclusion
begin

text \<open>
  The main properties of the scheduler and of the synchronisation primitives, with instances on the
  small system of three threads used for mutual exclusion.
\<close>

section \<open>Scheduling\<close>





text \<open>A \<open>sema_down\<close> that finds the value 0 queues the caller by priority, blocks it and runs the next
  thread, keeping the scheduler's invariant.\<close>

theorem sema_down_blocks:
  assumes "sched_inv k" "\<not> intr_on k" "\<not> in_external_intr k" "running k \<noteq> idle_thread k"
    and "semas k s = Some sm" "s \<noteq> NULL" "sema_value sm = 0"
  shows "\<exists>k'. sema_down_loop k s old = Some (False, k') \<and> sched_inv k' \<and> running k' = next_of k \<and>
    ready_list k' = tl (ready_list k) \<and>
    semas k' = (semas k)(s \<mapsto> sm\<lparr>waiters := insert_ordered (\<lambda>p. - prio k p) (running k) (waiters sm)\<rparr>) \<and>
    stat k' = (stat k)(running k \<mapsto> THREAD_BLOCKED, next_of k \<mapsto> THREAD_RUNNING)"
  using sema_down_loop_block [OF assms] by (auto simp: frame_def queued_def set_sema_def)

definition demo_busy :: kernel where
  "demo_busy = (set_sema demo_kernel 108 \<lparr>sema_value = 0, waiters = []\<rparr>)\<lparr>intr_on := False\<rparr>"

theorem sema_down_blocks_witness:
  "\<exists>k'. sema_down_loop demo_busy 108 True = Some (False, k') \<and> sched_inv k' \<and> running k' = 10 \<and>
    stat k' 20 = Some THREAD_BLOCKED"
proof -
  have "semas demo_kernel 108 = Some \<lparr>sema_value = 1, waiters = []\<rparr>" by (simp add: demo_kernel_def)
  from sched_inv_fewer_waiters [OF demo_sched_inv this, of "\<lparr>sema_value = 0, waiters = []\<rparr>"]
  have inv: "sched_inv demo_busy" by (simp add: demo_busy_def sched_inv_intr)
  have n: "next_of demo_busy = 10" "running demo_busy = 20"
    by (simp_all add: next_of_def demo_busy_def set_sema_def demo_kernel_def)
  have "semas demo_busy 108 = Some \<lparr>sema_value = 0, waiters = []\<rparr>" by (simp add: demo_busy_def set_sema_def)
  from sema_down_blocks [OF inv _ _ _ this, of True] n show ?thesis
    by (auto simp: demo_busy_def set_sema_def demo_kernel_def)
qed

text \<open>\<open>thread_exit\<close> of any thread but the idle thread switches to the head of the run queue and keeps
  the invariant; the dead thread's page is only queued for freeing, and is freed at the next switch.\<close>

theorem thread_exit_correct:
  assumes "sched_inv k" "\<not> in_external_intr k" "running k \<noteq> idle_thread k"
  shows "\<exists>k'. thread_exit k = Some k' \<and> switched k k' (ready_list k)"
  using assms by (rule thread_exit_ok)

theorem thread_exit_correct_witness:
  "\<exists>k'. thread_exit demo_kernel = Some k' \<and> running k' = 10 \<and> 20 \<in> dom (threads k') \<and> sched_inv k'"
  using thread_exit_correct [OF demo_sched_inv] by (auto simp: switched_def demo_kernel_def)

end
