(* ===== verification/Mlfqs.thy ===== *)
theory Mlfqs
  imports Demo_System
begin

text \<open>
  The arithmetic of the multi-level feedback queue: the priority formula is clamped, the load average
  and the decayed processor usage stay in range, and within that range the fixed-point code computes
  the intended fractions without overflow.
\<close>

section \<open>Priorities\<close>

lemma div_fp_int_const: "n \<noteq> 0 \<Longrightarrow> div_fp_int x n = Some (int32 (x sdiv n))"
  by (simp add: div_fp_int_def cdiv_def)

text \<open>Whatever \<open>recent_cpu\<close> and \<open>nice\<close> are, even if the arithmetic wraps around, the computed priority
  lies between \<open>PRI_MIN\<close> and \<open>PRI_MAX\<close>.\<close>

theorem mlfqs_priority_bounds:
  "\<exists>p. mlfqs_priority cpu n = Some p \<and> PRI_MIN \<le> p \<and> p \<le> PRI_MAX"
  by (simp add: mlfqs_priority_def div_fp_int_const Let_def PRI_MIN_def PRI_MAX_def)

text \<open>Without overflow it is the documented formula.\<close>

lemma quarter_range: "is_int32 x \<Longrightarrow> \<bar>x sdiv 4\<bar> \<le> 2 ^ 29"
proof (cases "0 \<le> x")
  case True
  assume "is_int32 x"
  then show ?thesis using True by (simp add: is_int32_def sdiv_pos)
next
  case False
  assume "is_int32 x"
  then show ?thesis using False by (simp add: is_int32_def sdiv_neg)
qed

lemma mlfqs_priority_formula:
  assumes "is_int32 cpu" "- 1000 \<le> n" "n \<le> 1000"
  shows "mlfqs_priority cpu n =
    Some (max PRI_MIN (min PRI_MAX (PRI_MAX - fp_to_int_round (cpu sdiv 4) - n * 2)))"
proof -
  let ?q = "cpu sdiv 4"
  have q: "\<bar>?q\<bar> \<le> 2 ^ 29" using assms(1) by (rule quarter_range)
  then have q32: "int32 ?q = ?q" by (intro int32_id) (simp add: is_int32_def abs_le_iff)
  have "\<bar>?q - F * fp_to_int_round ?q\<bar> \<le> 8192"
    using q by (intro fp_to_int_round_nearest) (simp add: F_def)
  then have r: "\<bar>fp_to_int_round ?q\<bar> \<le> 40000" using q by (simp add: F_def)
  have a: "int32 (PRI_MAX - fp_to_int_round ?q) = PRI_MAX - fp_to_int_round ?q"
    using r by (intro int32_id) (simp add: is_int32_def PRI_MAX_def abs_le_iff)
  have b: "int32 (n * 2) = n * 2" using assms(2,3) by (intro int32_id) (simp add: is_int32_def)
  have c: "int32 (PRI_MAX - fp_to_int_round ?q - n * 2) = PRI_MAX - fp_to_int_round ?q - n * 2"
    using r assms(2,3) by (intro int32_id) (simp add: is_int32_def PRI_MAX_def abs_le_iff)
  show ?thesis
    by (simp add: mlfqs_priority_def div_fp_int_const q32 a b c Let_def)
qed

section \<open>The load average\<close>

definition load_step :: "fixed_t \<Rightarrow> int \<Rightarrow> fixed_t option" where
  "load_step load ready = do {
     term1 \<leftarrow> div_fp_int (mul_fp_int load 59) 60;
     q \<leftarrow> div_fp_int (int_to_fp 1) 60;
     Some (add_fp term1 (mul_fp_int q ready)) }"

lemma update_load_avg_step:
  "thread_current k = Some cur \<Longrightarrow>
   update_load_avg k = map_option (\<lambda>l. k\<lparr>load_avg := l\<rparr>)
     (load_step (load_avg k) (int (length (ready_list k)) + (if cur \<noteq> idle_thread k then 1 else 0)))"
  by (simp add: update_load_avg_def load_step_def div_fp_int_const Let_def)

lemma div_60_bounds: "0 \<le> x \<Longrightarrow> 0 \<le> (x * 59) div 60 \<and> 60 * ((x * 59) div 60) \<le> 59 * x" for x :: int
  using div_mult_mod_eq [of "x * 59" 60] pos_mod_sign [of 60 "x * 59"]
  by (simp add: pos_imp_zdiv_nonneg_iff)

lemma load_step_in_range:
  assumes "0 \<le> load" "load \<le> 2000 * F" "0 \<le> ready" "ready \<le> 2000"
  shows "load_step load ready = Some (load * 59 div 60 + 273 * ready) \<and>
    0 \<le> load * 59 div 60 + 273 * ready \<and> load * 59 div 60 + 273 * ready \<le> 2000 * F"
proof -
  note d = div_60_bounds [OF assms(1)]
  have l: "load \<le> 32768000" using assms(2) by (simp add: F_def)
  have m: "mul_fp_int load 59 = load * 59"
    unfolding mul_fp_int_def using assms(1) l by (intro int32_id) (simp add: is_int32_def)
  have t1: "div_fp_int (load * 59) 60 = Some (load * 59 div 60)"
    using assms(1) l d by (simp add: div_fp_int_const sdiv_pos int32_id is_int32_def)
  have q: "div_fp_int (int_to_fp 1) 60 = Some 273"
    by (simp add: div_fp_int_const int_to_fp_def F_def sdiv_pos int32_def)
  have p: "mul_fp_int 273 ready = 273 * ready"
    unfolding mul_fp_int_def using assms(3,4) by (intro int32_id) (simp add: is_int32_def)
  have range: "0 \<le> load * 59 div 60 + 273 * ready" "load * 59 div 60 + 273 * ready \<le> 2000 * F"
    using d assms(3,4) l by (simp_all add: F_def)
  then have a: "add_fp (load * 59 div 60) (273 * ready) = load * 59 div 60 + 273 * ready"
    unfolding add_fp_def by (intro int32_id) (simp add: is_int32_def F_def)
  show ?thesis using range by (simp add: load_step_def m t1 q p a)
qed

text \<open>As long as the load average is between 0 and 2000 and at most 2000 threads are ready or running,
  one update computes \<open>59/60\<close> of the old value (rounded down) plus \<open>273/16384\<close> (that is, \<open>1/60\<close> in the
  fixed-point format) per thread, without overflow, changes nothing else, and the new value is again in
  that range.  The idle thread is not counted.\<close>

theorem load_avg_in_range:
  assumes "thread_current k = Some cur" "0 \<le> load_avg k" "load_avg k \<le> 2000 * F"
    and "n = length (ready_list k) + (if cur = idle_thread k then 0 else 1)" "n \<le> 2000"
  shows "\<exists>l. update_load_avg k = Some (k\<lparr>load_avg := l\<rparr>) \<and> l = load_avg k * 59 div 60 + 273 * int n \<and>
    0 \<le> l \<and> l \<le> 2000 * F"
proof -
  have n: "int (length (ready_list k)) + (if cur \<noteq> idle_thread k then 1 else 0) = int n" using assms(4) by simp
  show ?thesis
    using load_step_in_range [OF assms(2,3), of "int n"] assms(5)
    unfolding update_load_avg_step [OF assms(1)] n by auto
qed

theorem load_avg_in_range_witness:
  "\<exists>l. update_load_avg (demo_kernel\<lparr>load_avg := 3 * F\<rparr>) = Some (demo_kernel\<lparr>load_avg := l\<rparr>) \<and>
    l = 3 * F * 59 div 60 + 546 \<and> l \<le> 2000 * F"
  using load_avg_in_range [of "demo_kernel\<lparr>load_avg := 3 * F\<rparr>" 20 2]
  by (simp add: thread_current_def is_thread_def get_thread_def demo_kernel_def demo_thread_def F_def)

section \<open>Decay of the processor usage\<close>

text \<open>For a load average in that range the division in the decay formula never divides by zero, the
  coefficient is a fraction between 0 and 1, and the usage of a thread with a nonnegative history never
  grows by more than its niceness.\<close>

theorem recent_cpu_decays:
  assumes "0 \<le> load" "load \<le> 2000 * F" "0 \<le> cpu" "cpu \<le> 2 ^ 30" "- 20 \<le> n" "n \<le> 20"
  shows "\<exists>c. decayed_recent_cpu load cpu n = Some c \<and> n * F \<le> c \<and> c \<le> cpu + n * F"
proof -
  have l: "load \<le> 32768000" using assms(2) by (simp add: F_def)
  have m: "mul_fp_int load 2 = load * 2"
    unfolding mul_fp_int_def using assms(1) l by (intro int32_id) (simp add: is_int32_def)
  have f: "int32 (1 * F) = F" by (simp add: int32_def F_def)
  have a: "add_fp_int (load * 2) 1 = load * 2 + F"
    unfolding add_fp_int_def f using assms(1) l by (intro int32_id) (simp add: is_int32_def F_def)
  have i: "int64 (load * 2 * F) = load * 2 * F" using assms(1) l by (intro int64_id) (simp_all add: F_def)
  define co where "co = load * 2 * F div (load * 2 + F)"
  have den: "0 < load * 2 + F" using assms(1) by (simp add: F_def)
  have co: "0 \<le> co" "co \<le> F"
  proof -
    have "0 \<le> load * 2 * F" using assms(1) by (simp add: F_def)
    then show "0 \<le> co" using den by (simp only: co_def pos_imp_zdiv_nonneg_iff)
    have "load * 2 * F \<le> F * (load * 2 + F)" by (simp add: algebra_simps)
    then have "co \<le> F * (load * 2 + F) div (load * 2 + F)" unfolding co_def using den by (intro zdiv_mono1)
    then show "co \<le> F" using den by simp
  qed
  have d: "div_fp (load * 2) (load * 2 + F) = Some co"
  proof -
    have n0: "0 \<le> load * 2 * F" using assms(1) by (simp add: F_def)
    have "int32 co = co" using co by (intro int32_id) (simp add: is_int32_def F_def)
    then show ?thesis using den n0 by (simp add: div_fp_def cdiv_def i sdiv_pos co_def)
  qed
  have prod: "0 \<le> co * cpu" "co * cpu \<le> F * cpu" using co assms(3) by (simp_all add: mult_right_mono)
  have i2: "int64 (co * cpu) = co * cpu"
    using prod assms(4) by (intro int64_id) (simp_all add: F_def)
  have le: "0 \<le> co * cpu div F" "co * cpu div F \<le> cpu"
  proof -
    show "0 \<le> co * cpu div F" using prod by (simp add: pos_imp_zdiv_nonneg_iff)
    have "co * cpu div F \<le> F * cpu div F" using prod by (intro zdiv_mono1) simp_all
    then show "co * cpu div F \<le> cpu" by simp
  qed
  have mu: "mul_fp co cpu = co * cpu div F"
    using prod le assms(4) by (simp add: mul_fp_def i2 sdiv_pos int32_id is_int32_def)
  have nf: "int_to_fp n = n * F" using assms(5,6) by (intro fp_to_int_of_int) simp_all
  have "add_fp (co * cpu div F) (n * F) = co * cpu div F + n * F"
    unfolding add_fp_def using le assms(4-6) by (intro int32_id) (simp add: is_int32_def F_def)
  then show ?thesis using le by (simp add: decayed_recent_cpu_def m a d mu nf)
qed

theorem recent_cpu_decays_witness:
  "\<exists>c. decayed_recent_cpu (2 * F) (10 * F) 5 = Some c \<and> 5 * F \<le> c \<and> c \<le> 10 * F + 5 * F"
  using recent_cpu_decays [of "2 * F" "10 * F" 5] by (simp add: F_def)

end
