(* ===== verification/Memory.thy ===== *)
theory Memory
  imports Prelude
begin

text \<open>
  Byte-addressed memory.  A mapped address holds a byte; reading or writing an unmapped address, or
  address 0, is a page fault inside the kernel, from which it does not return.
\<close>

type_synonym byte = "8 word"
type_synonym mem = "ptr \<rightharpoonup> byte"

definition ld :: "mem \<Rightarrow> ptr \<Rightarrow> byte option" where
  "ld m p = (if p = NULL then None else m p)"

definition st :: "mem \<Rightarrow> ptr \<Rightarrow> byte \<Rightarrow> mem option" where
  "st m p v = (if p = NULL \<or> m p = None then None else Some (m(p \<mapsto> v)))"

text \<open>\<open>block m p xs\<close>: the bytes from \<open>p\<close> on are \<open>xs\<close>.  \<open>cstr m p xs\<close>: at \<open>p\<close> there is a null-terminated
  string with the characters \<open>xs\<close>.\<close>

fun block :: "mem \<Rightarrow> ptr \<Rightarrow> byte list \<Rightarrow> bool" where
  "block m p [] \<longleftrightarrow> True"
| "block m p (x # xs) \<longleftrightarrow> ld m p = Some x \<and> block m (p + 1) xs"

definition cstr :: "mem \<Rightarrow> ptr \<Rightarrow> byte list \<Rightarrow> bool" where
  "cstr m p xs \<longleftrightarrow> 0 \<notin> set xs \<and> block m p (xs @ [0])"

definition mapped_range :: "mem \<Rightarrow> ptr \<Rightarrow> nat \<Rightarrow> bool" where
  "mapped_range m p n \<longleftrightarrow> (n = 0 \<or> p \<noteq> NULL) \<and> {p..<p + n} \<subseteq> dom m"

text \<open>\<open>same_except m m' A\<close>: the memories agree outside \<open>A\<close>, and the same addresses are mapped.\<close>

definition same_except :: "mem \<Rightarrow> mem \<Rightarrow> ptr set \<Rightarrow> bool" where
  "same_except m m' A \<longleftrightarrow> dom m' = dom m \<and> (\<forall>a. a \<notin> A \<longrightarrow> m' a = m a)"

lemma intervals_apart: "{a..b} \<inter> {c..<d} = {} \<Longrightarrow> a \<le> b \<Longrightarrow> c < d \<Longrightarrow> b < c \<or> d \<le> a" for a b c d :: nat
proof (rule ccontr)
  assume h: "{a..b} \<inter> {c..<d} = {}" "a \<le> b" "c < d" "\<not> (b < c \<or> d \<le> a)"
  then have "max a c \<in> {a..b} \<inter> {c..<d}" unfolding Int_iff atLeastAtMost_iff atLeastLessThan_iff by linarith
  with h(1) show False by blast
qed

section \<open>Blocks\<close>

lemma block_nth: "block m p xs \<longleftrightarrow> (xs = [] \<or> p \<noteq> NULL) \<and> (\<forall>i < length xs. m (p + i) = Some (xs ! i))"
proof (induction xs arbitrary: p)
  case (Cons x xs)
  show ?case
    by (auto simp: Cons ld_def nth_Cons less_Suc_eq_0_disj split: nat.splits if_splits)
qed simp

lemma block_append: "block m p (xs @ ys) \<longleftrightarrow> block m p xs \<and> block m (p + length xs) ys"
  by (induction xs arbitrary: p) (auto simp: add.assoc)

lemma block_mapped: "block m p xs \<Longrightarrow> mapped_range m p (length xs)"
proof -
  assume b: "block m p xs"
  have "a \<in> dom m" if "a \<in> {p..<p + length xs}" for a
  proof -
    obtain i where "a = p + i" "i < length xs" using \<open>a \<in> _\<close> by (metis atLeastLessThan_iff le_iff_add nat_add_left_cancel_less)
    then show ?thesis using b by (auto simp: block_nth)
  qed
  then have "{p..<p + length xs} \<subseteq> dom m" by blast
  then show ?thesis using b by (simp add: block_nth mapped_range_def)
qed

lemma block_cong: "(\<And>i. i < length xs \<Longrightarrow> m' (p + i) = m (p + i)) \<Longrightarrow> block m' p xs = block m p xs"
  by (auto simp: block_nth)

lemma block_same: "same_except m m' A \<Longrightarrow> {p..<p + length xs} \<inter> A = {} \<Longrightarrow> block m' p xs = block m p xs"
proof (intro block_cong)
  fix i assume h: "same_except m m' A" "{p..<p + length xs} \<inter> A = {}" "i < length xs"
  then have "p + i \<in> {p..<p + length xs}" by simp
  then have "p + i \<notin> A" using h(2) by blast
  then show "m' (p + i) = m (p + i)" using h(1) by (simp add: same_except_def)
qed

lemma block_unique: "block m p xs \<Longrightarrow> block m p ys \<Longrightarrow> length xs = length ys \<Longrightarrow> xs = ys"
  by (rule nth_equalityI) (simp_all add: block_nth)

lemma mapped_range_ex: "mapped_range m p n \<longleftrightarrow> (\<exists>xs. length xs = n \<and> block m p xs)"
proof
  assume r: "mapped_range m p n"
  let ?xs = "map (\<lambda>i. the (m (p + i))) [0..<n]"
  have "m (p + i) = Some (the (m (p + i)))" if "i < n" for i
  proof -
    have "p + i \<in> dom m" by (rule subsetD [of "{p..<p + n}"]) (use r that in \<open>auto simp: mapped_range_def\<close>)
    then show ?thesis by auto
  qed
  then have "length ?xs = n \<and> block m p ?xs" using r by (auto simp: block_nth mapped_range_def)
  then show "\<exists>xs. length xs = n \<and> block m p xs" by blast
qed (use block_mapped in auto)

lemma mapped_range_same: "same_except m m' A \<Longrightarrow> mapped_range m' p n = mapped_range m p n"
  by (simp add: same_except_def mapped_range_def)

lemma mapped_rangeD: "mapped_range m p n \<Longrightarrow> i < n \<Longrightarrow> p \<noteq> NULL \<and> (\<exists>v. m (p + i) = Some v)"
proof -
  assume h: "mapped_range m p n" "i < n"
  have "p + i \<in> dom m" by (rule subsetD [of "{p..<p + n}"]) (use h in \<open>auto simp: mapped_range_def\<close>)
  with h show ?thesis by (auto simp: mapped_range_def)
qed

lemma mapped_range_sub: "mapped_range m p n \<Longrightarrow> p \<le> q \<Longrightarrow> q + k \<le> p + n \<Longrightarrow> mapped_range m q k"
proof -
  assume h: "mapped_range m p n" "p \<le> q" "q + k \<le> p + n"
  then have "{q..<q + k} \<subseteq> {p..<p + n}" by auto
  then have "{q..<q + k} \<subseteq> dom m" using h(1) unfolding mapped_range_def by (blast intro: subset_trans)
  then show ?thesis using h by (cases "k = 0") (auto simp: mapped_range_def)
qed

lemma mapped_range_upd [simp]: "m a = Some w \<Longrightarrow> mapped_range (m(a \<mapsto> v)) p n = mapped_range m p n"
  unfolding mapped_range_def by (simp add: insert_absorb domI)

section \<open>Stores\<close>

lemma same_except_refl [simp]: "same_except m m A"
  by (simp add: same_except_def)

lemma same_except_trans: "same_except m m1 A \<Longrightarrow> same_except m1 m2 B \<Longrightarrow> same_except m m2 (A \<union> B)"
  by (auto simp: same_except_def)

lemma same_except_mono: "same_except m m' A \<Longrightarrow> A \<subseteq> B \<Longrightarrow> same_except m m' B"
  by (auto simp: same_except_def)

lemma same_except_upd: "m p = Some v \<Longrightarrow> p \<in> A \<Longrightarrow> same_except m (m(p \<mapsto> x)) A"
  by (auto simp: same_except_def)

lemma st_mapped: "p \<noteq> NULL \<Longrightarrow> m p = Some v \<Longrightarrow> st m p x = Some (m(p \<mapsto> x))"
  by (simp add: st_def)

lemma ld_mapped: "p \<noteq> NULL \<Longrightarrow> ld m p = m p"
  by (simp add: ld_def)

section \<open>Strings\<close>

lemma cstr_Nil [simp]: "cstr m p [] \<longleftrightarrow> ld m p = Some 0"
  by (simp add: cstr_def)

lemma cstr_Cons [simp]: "cstr m p (x # xs) \<longleftrightarrow> x \<noteq> 0 \<and> ld m p = Some x \<and> cstr m (p + 1) xs"
  by (auto simp: cstr_def)

lemma cstr_drop: "cstr m p xs \<Longrightarrow> i \<le> length xs \<Longrightarrow> cstr m (p + i) (drop i xs)"
proof (induction i arbitrary: p xs)
  case (Suc i)
  then show ?case using Suc.IH [of "p + 1"] by (cases xs) simp_all
qed simp

lemma cstr_nonnull: "cstr m p xs \<Longrightarrow> p \<noteq> NULL"
  by (cases xs) (auto simp: ld_def split: if_splits)

lemma cstr_same: "same_except m m' A \<Longrightarrow> {p..p + length xs} \<inter> A = {} \<Longrightarrow> cstr m' p xs = cstr m p xs"
  unfolding cstr_def by (subst block_same) (auto simp: atLeastLessThanSuc_atLeastAtMost)

lemma cstr_unique: "cstr m p xs \<Longrightarrow> cstr m p ys \<Longrightarrow> xs = ys"
proof (induction xs arbitrary: p ys)
  case Nil then show ?case by (cases ys) simp_all
next
  case (Cons x xs) then show ?case using Cons.IH [of "p + 1"] by (cases ys) simp_all
qed

end
