(* ===== verification/String_Lib.thy ===== *)
theory String_Lib
  imports Memory
begin

text \<open>
  The memory and string functions of \<open>lib/string.c\<close>, over byte-addressed memory.  A loop that runs to a
  terminator is a partial function: on memory without one it runs into an unmapped address or never
  ends, and the value is \<open>None\<close>.  \<open>size_t\<close> counts are natural numbers; pointers returned as "not found"
  are null.
\<close>

section \<open>Blocks of memory\<close>

fun memcpy_loop :: "mem \<Rightarrow> ptr \<Rightarrow> ptr \<Rightarrow> nat \<Rightarrow> mem option" where
  "memcpy_loop m dst src 0 = Some m"
| "memcpy_loop m dst src (Suc n) = do {
     c \<leftarrow> ld m src;
     m \<leftarrow> st m dst c;
     memcpy_loop m (dst + 1) (src + 1) n }"

definition memcpy :: "mem \<Rightarrow> ptr \<Rightarrow> ptr \<Rightarrow> nat \<Rightarrow> (ptr \<times> mem) option" where
  "memcpy m dst src n = do {
     ASSERT (dst \<noteq> NULL \<or> n = 0);
     ASSERT (src \<noteq> NULL \<or> n = 0);
     m \<leftarrow> memcpy_loop m dst src n;
     Some (dst, m) }"

text \<open>The backward loop of \<open>memmove\<close> starts behind the last byte.\<close>

fun memmove_down :: "mem \<Rightarrow> ptr \<Rightarrow> ptr \<Rightarrow> nat \<Rightarrow> (ptr \<times> mem) option" where
  "memmove_down m dst src 0 = Some (dst, m)"
| "memmove_down m dst src (Suc n) = do {
     c \<leftarrow> ld m (src - 1);
     m \<leftarrow> st m (dst - 1) c;
     memmove_down m (dst - 1) (src - 1) n }"

definition memmove :: "mem \<Rightarrow> ptr \<Rightarrow> ptr \<Rightarrow> nat \<Rightarrow> (ptr \<times> mem) option" where
  "memmove m dst src n = do {
     ASSERT (dst \<noteq> NULL \<or> n = 0);
     ASSERT (src \<noteq> NULL \<or> n = 0);
     if dst < src then do { m \<leftarrow> memcpy_loop m dst src n; Some (dst + n, m) }
     else memmove_down m (dst + n) (src + n) n }"

fun memcmp_loop :: "mem \<Rightarrow> ptr \<Rightarrow> ptr \<Rightarrow> nat \<Rightarrow> int option" where
  "memcmp_loop m a b 0 = Some 0"
| "memcmp_loop m a b (Suc n) = do {
     x \<leftarrow> ld m a;
     y \<leftarrow> ld m b;
     if x \<noteq> y then Some (if x > y then 1 else - 1) else memcmp_loop m (a + 1) (b + 1) n }"

definition memcmp :: "mem \<Rightarrow> ptr \<Rightarrow> ptr \<Rightarrow> nat \<Rightarrow> int option" where
  "memcmp m a b n = do {
     ASSERT (a \<noteq> NULL \<or> n = 0);
     ASSERT (b \<noteq> NULL \<or> n = 0);
     memcmp_loop m a b n }"

fun memchr_loop :: "mem \<Rightarrow> ptr \<Rightarrow> byte \<Rightarrow> nat \<Rightarrow> ptr option" where
  "memchr_loop m p ch 0 = Some NULL"
| "memchr_loop m p ch (Suc n) = do { x \<leftarrow> ld m p; if x = ch then Some p else memchr_loop m (p + 1) ch n }"

definition memchr :: "mem \<Rightarrow> ptr \<Rightarrow> byte \<Rightarrow> nat \<Rightarrow> ptr option" where
  "memchr m p ch n = do { ASSERT (p \<noteq> NULL \<or> n = 0); memchr_loop m p ch n }"

fun memset_loop :: "mem \<Rightarrow> ptr \<Rightarrow> byte \<Rightarrow> nat \<Rightarrow> mem option" where
  "memset_loop m dst v 0 = Some m"
| "memset_loop m dst v (Suc n) = do { m \<leftarrow> st m dst v; memset_loop m (dst + 1) v n }"

definition memset :: "mem \<Rightarrow> ptr \<Rightarrow> byte \<Rightarrow> nat \<Rightarrow> (ptr \<times> mem) option" where
  "memset m dst v n = do {
     ASSERT (dst \<noteq> NULL \<or> n = 0);
     m \<leftarrow> memset_loop m dst v n;
     Some (dst, m) }"

section \<open>Strings\<close>

partial_function (option) strcmp_loop :: "mem \<Rightarrow> ptr \<Rightarrow> ptr \<Rightarrow> int option" where
  "strcmp_loop m a b = do {
     x \<leftarrow> ld m a;
     y \<leftarrow> ld m b;
     if x \<noteq> 0 \<and> x = y then strcmp_loop m (a + 1) (b + 1)
     else Some (if x < y then - 1 else if x > y then 1 else 0) }"

definition strcmp :: "mem \<Rightarrow> ptr \<Rightarrow> ptr \<Rightarrow> int option" where
  "strcmp m a b = do { ASSERT (a \<noteq> NULL); ASSERT (b \<noteq> NULL); strcmp_loop m a b }"

partial_function (option) strchr_loop :: "mem \<Rightarrow> ptr \<Rightarrow> byte \<Rightarrow> ptr option" where
  "strchr_loop m p c = do {
     x \<leftarrow> ld m p;
     if x = c then Some p else if x = 0 then Some NULL else strchr_loop m (p + 1) c }"

definition strchr :: "mem \<Rightarrow> ptr \<Rightarrow> byte \<Rightarrow> ptr option" where
  "strchr m p c = do { ASSERT (p \<noteq> NULL); strchr_loop m p c }"

partial_function (option) strcspn_loop :: "mem \<Rightarrow> ptr \<Rightarrow> ptr \<Rightarrow> nat \<Rightarrow> nat option" where
  "strcspn_loop m p stop len = do {
     x \<leftarrow> ld m (p + len);
     if x = 0 then Some len
     else do { r \<leftarrow> strchr m stop x; if r \<noteq> NULL then Some len else strcspn_loop m p stop (len + 1) } }"

definition strcspn :: "mem \<Rightarrow> ptr \<Rightarrow> ptr \<Rightarrow> nat option" where
  "strcspn m p stop = strcspn_loop m p stop 0"

partial_function (option) strpbrk :: "mem \<Rightarrow> ptr \<Rightarrow> ptr \<Rightarrow> ptr option" where
  "strpbrk m p stop = do {
     x \<leftarrow> ld m p;
     if x = 0 then Some NULL
     else do { r \<leftarrow> strchr m stop x; if r \<noteq> NULL then Some p else strpbrk m (p + 1) stop } }"

partial_function (option) strrchr_loop :: "mem \<Rightarrow> ptr \<Rightarrow> byte \<Rightarrow> ptr \<Rightarrow> ptr option" where
  "strrchr_loop m p c found = do {
     x \<leftarrow> ld m p;
     if x = 0 then Some found else strrchr_loop m (p + 1) c (if x = c then p else found) }"

definition strrchr :: "mem \<Rightarrow> ptr \<Rightarrow> byte \<Rightarrow> ptr option" where
  "strrchr m p c = strrchr_loop m p c NULL"

partial_function (option) strspn_loop :: "mem \<Rightarrow> ptr \<Rightarrow> ptr \<Rightarrow> nat \<Rightarrow> nat option" where
  "strspn_loop m p skip len = do {
     x \<leftarrow> ld m (p + len);
     if x = 0 then Some len
     else do { r \<leftarrow> strchr m skip x; if r = NULL then Some len else strspn_loop m p skip (len + 1) } }"

definition strspn :: "mem \<Rightarrow> ptr \<Rightarrow> ptr \<Rightarrow> nat option" where
  "strspn m p skip = strspn_loop m p skip 0"

partial_function (option) strlen_loop :: "mem \<Rightarrow> ptr \<Rightarrow> ptr option" where
  "strlen_loop m p = do { x \<leftarrow> ld m p; if x \<noteq> 0 then strlen_loop m (p + 1) else Some p }"

definition strlen :: "mem \<Rightarrow> ptr \<Rightarrow> nat option" where
  "strlen m p = do { ASSERT (p \<noteq> NULL); q \<leftarrow> strlen_loop m p; Some (q - p) }"

partial_function (option) strnlen_loop :: "mem \<Rightarrow> ptr \<Rightarrow> nat \<Rightarrow> nat \<Rightarrow> nat option" where
  "strnlen_loop m p maxlen len = do {
     x \<leftarrow> ld m (p + len);
     if x \<noteq> 0 \<and> len < maxlen then strnlen_loop m p maxlen (len + 1) else Some len }"

definition strnlen :: "mem \<Rightarrow> ptr \<Rightarrow> nat \<Rightarrow> nat option" where
  "strnlen m p maxlen = strnlen_loop m p maxlen 0"

text \<open>The loop of \<open>strstr\<close> with \<open>i\<close> positions already rejected and \<open>todo\<close> left to try after this one.\<close>

fun strstr_loop :: "mem \<Rightarrow> ptr \<Rightarrow> ptr \<Rightarrow> nat \<Rightarrow> nat \<Rightarrow> nat \<Rightarrow> ptr option" where
  "strstr_loop m haystack needle needle_len i todo = do {
     c \<leftarrow> memcmp m (haystack + i) needle needle_len;
     if c = 0 then Some (haystack + i)
     else (case todo of 0 \<Rightarrow> Some NULL | Suc n \<Rightarrow> strstr_loop m haystack needle needle_len (i + 1) n) }"

definition strstr :: "mem \<Rightarrow> ptr \<Rightarrow> ptr \<Rightarrow> ptr option" where
  "strstr m haystack needle = do {
     haystack_len \<leftarrow> strlen m haystack;
     needle_len \<leftarrow> strlen m needle;
     if haystack_len \<ge> needle_len
     then strstr_loop m haystack needle needle_len 0 (haystack_len - needle_len)
     else Some NULL }"

section \<open>Tokens\<close>

text \<open>The two loops of \<open>strtok_r\<close>.  The first skips delimiters; it ends at the terminator (\<open>False\<close>) or at
  the start of a token (\<open>True\<close>).  \<open>save\<close> is the value of the variable at \<open>save_ptr\<close>; the new value is
  returned with the token.\<close>

partial_function (option) strtok_skip :: "mem \<Rightarrow> ptr \<Rightarrow> ptr \<Rightarrow> (bool \<times> ptr) option" where
  "strtok_skip m delimiters s = do {
     x \<leftarrow> ld m s;
     r \<leftarrow> strchr m delimiters x;
     if r \<noteq> NULL then (if x = 0 then Some (False, s) else strtok_skip m delimiters (s + 1))
     else Some (True, s) }"

partial_function (option) strtok_end :: "mem \<Rightarrow> ptr \<Rightarrow> ptr \<Rightarrow> ptr option" where
  "strtok_end m delimiters s = do {
     x \<leftarrow> ld m s;
     r \<leftarrow> strchr m delimiters x;
     if r = NULL then strtok_end m delimiters (s + 1) else Some s }"

definition strtok_r :: "mem \<Rightarrow> ptr \<Rightarrow> ptr \<Rightarrow> ptr \<Rightarrow> (ptr \<times> ptr \<times> mem) option" where
  "strtok_r m s delimiters save = do {
     ASSERT (delimiters \<noteq> NULL);
     let s = (if s = NULL then save else s);
     ASSERT (s \<noteq> NULL);
     (found, s) \<leftarrow> strtok_skip m delimiters s;
     if \<not> found then Some (NULL, s, m)
     else do {
       let token = s;
       s \<leftarrow> strtok_end m delimiters s;
       x \<leftarrow> ld m s;
       if x \<noteq> 0 then do { m \<leftarrow> st m s 0; Some (token, s + 1, m) }
       else Some (token, s, m) } }"

section \<open>Bounded copies\<close>

definition strlcpy :: "mem \<Rightarrow> ptr \<Rightarrow> ptr \<Rightarrow> nat \<Rightarrow> (nat \<times> mem) option" where
  "strlcpy m dst src n = do {
     ASSERT (dst \<noteq> NULL);
     ASSERT (src \<noteq> NULL);
     src_len \<leftarrow> strlen m src;
     if n > 0 then do {
       let dst_len = (if src_len < n - 1 then src_len else n - 1);
       (_, m) \<leftarrow> memcpy m dst src dst_len;
       m \<leftarrow> st m (dst + dst_len) 0;
       Some (src_len, m) }
     else Some (src_len, m) }"

definition strlcat :: "mem \<Rightarrow> ptr \<Rightarrow> ptr \<Rightarrow> nat \<Rightarrow> (nat \<times> mem) option" where
  "strlcat m dst src n = do {
     ASSERT (dst \<noteq> NULL);
     ASSERT (src \<noteq> NULL);
     src_len \<leftarrow> strlen m src;
     dst_len \<leftarrow> strlen m dst;
     if n > 0 \<and> dst_len < n then do {
       let copy_cnt = (if src_len < n - dst_len - 1 then src_len else n - dst_len - 1);
       (_, m) \<leftarrow> memcpy m (dst + dst_len) src copy_cnt;
       m \<leftarrow> st m (dst + dst_len + copy_cnt) 0;
       Some (src_len + dst_len, m) }
     else Some (src_len + dst_len, m) }"

end
