(* ===== verification/String_Correct.thy ===== *)
theory String_Correct
  imports String_Lib "HOL-Library.Sublist"
begin

text \<open>
  What the functions of \<open>lib/string.c\<close> compute: copies, also between overlapping blocks, searches and
  comparisons in terms of the character lists that memory holds.
\<close>

section \<open>Copying\<close>

lemma memcpy_loop_ok:
  assumes "block m src xs" "mapped_range m dst (length xs)" "dst \<le> src \<or> src + length xs \<le> dst"
  shows "\<exists>m'. memcpy_loop m dst src (length xs) = Some m' \<and> block m' dst xs \<and>
    same_except m m' {dst..<dst + length xs}"
  using assms
proof (induction xs arbitrary: m dst src)
  case (Cons x xs)
  have d: "dst \<noteq> NULL" "\<exists>v. m dst = Some v" using mapped_rangeD [OF Cons.prems(2), of 0] by auto
  let ?m = "m(dst \<mapsto> x)"
  have same: "same_except m ?m {dst..<dst + length (x # xs)}" using d by (auto intro: same_except_upd)
  have b: "block ?m (src + 1) xs" using Cons.prems(1,3) by (subst block_cong [where m = m]) auto
  have r: "mapped_range ?m (dst + 1) (length xs)"
    using d(2) mapped_range_sub [OF Cons.prems(2), of "dst + 1" "length xs"] by auto
  have o: "dst + 1 \<le> src + 1 \<or> src + 1 + length xs \<le> dst + 1" using Cons.prems(3) by auto
  obtain m' where m': "memcpy_loop ?m (dst + 1) (src + 1) (length xs) = Some m'"
      "block m' (dst + 1) xs" "same_except ?m m' {dst + 1..<dst + 1 + length xs}"
    using Cons.IH [OF b r o] by blast
  have "ld m' dst = Some x" using m'(3) d(1) by (simp add: same_except_def ld_def)
  moreover have "same_except m m' {dst..<dst + length (x # xs)}"
    using same_except_trans [OF same m'(3)] by (rule same_except_mono) auto
  ultimately show ?case using m' d Cons.prems(1) by (auto simp: st_def)
qed simp

lemma memmove_down_ok:
  assumes "block m src xs" "mapped_range m dst (length xs)" "src \<le> dst"
  shows "\<exists>m'. memmove_down m (dst + length xs) (src + length xs) (length xs) = Some (dst, m') \<and> block m' dst xs \<and>
    same_except m m' {dst..<dst + length xs}"
  using assms
proof (induction xs arbitrary: m rule: rev_induct)
  case (snoc x xs)
  let ?n = "length xs"
  have d: "dst \<noteq> NULL" "\<exists>v. m (dst + ?n) = Some v" using mapped_rangeD [OF snoc.prems(2), of ?n] by auto
  let ?m = "m(dst + ?n \<mapsto> x)"
  have b: "block m src xs" "ld m (src + ?n) = Some x" using snoc.prems(1) by (auto simp: block_append)
  have same: "same_except m ?m {dst..<dst + length (xs @ [x])}" using d by (auto intro: same_except_upd)
  have b': "block ?m src xs" using b(1) snoc.prems(3) by (subst block_cong [where m = m]) auto
  have r: "mapped_range ?m dst ?n" using d(2) mapped_range_sub [OF snoc.prems(2), of dst ?n] by auto
  obtain m' where m': "memmove_down ?m (dst + ?n) (src + ?n) ?n = Some (dst, m')"
      "block m' dst xs" "same_except ?m m' {dst..<dst + ?n}"
    using snoc.IH [OF b' r snoc.prems(3)] by blast
  have "ld m' (dst + ?n) = Some x" using m'(3) d(1) by (simp add: same_except_def ld_def)
  moreover have "same_except m m' {dst..<dst + length (xs @ [x])}"
    using same_except_trans [OF same m'(3)] by (rule same_except_mono) auto
  ultimately show ?case using m' d b by (auto simp: st_def block_append)
qed simp

lemma memcpy_ok:
  assumes "block m src xs" "mapped_range m dst (length xs)" "dst \<le> src \<or> src + length xs \<le> dst"
  shows "\<exists>m'. memcpy m dst src (length xs) = Some (dst, m') \<and> block m' dst xs \<and> same_except m m' {dst..<dst + length xs}"
proof -
  have "dst \<noteq> NULL \<or> length xs = 0" "src \<noteq> NULL \<or> length xs = 0"
    using assms(1,2) by (auto simp: mapped_range_def block_nth)
  then show ?thesis using memcpy_loop_ok [OF assms] by (auto simp: memcpy_def)
qed

lemma memmove_ok:
  assumes "block m src xs" "mapped_range m dst (length xs)"
  shows "\<exists>m'. memmove m dst src (length xs) = Some (if dst < src then dst + length xs else dst, m') \<and>
    block m' dst xs \<and> same_except m m' {dst..<dst + length xs}"
proof -
  have "dst \<noteq> NULL \<or> length xs = 0" "src \<noteq> NULL \<or> length xs = 0"
    using assms by (auto simp: mapped_range_def block_nth)
  then show ?thesis
    using memcpy_loop_ok [OF assms] memmove_down_ok [OF assms] by (cases "dst < src") (auto simp: memmove_def)
qed

lemma memset_loop_ok:
  "mapped_range m dst n \<Longrightarrow> \<exists>m'. memset_loop m dst v n = Some m' \<and> block m' dst (replicate n v) \<and>
    same_except m m' {dst..<dst + n}"
proof (induction n arbitrary: m dst)
  case (Suc n)
  have d: "dst \<noteq> NULL" "\<exists>v. m dst = Some v" using mapped_rangeD [OF Suc.prems, of 0] by auto
  let ?m = "m(dst \<mapsto> v)"
  have same: "same_except m ?m {dst..<dst + Suc n}" using d by (auto intro: same_except_upd)
  have "mapped_range ?m (dst + 1) n" using d(2) mapped_range_sub [OF Suc.prems, of "dst + 1" n] by auto
  then obtain m' where m': "memset_loop ?m (dst + 1) v n = Some m'" "block m' (dst + 1) (replicate n v)"
      "same_except ?m m' {dst + 1..<dst + 1 + n}" using Suc.IH by blast
  have "ld m' dst = Some v" using m'(3) d(1) by (simp add: same_except_def ld_def)
  moreover have "same_except m m' {dst..<dst + Suc n}"
    using same_except_trans [OF same m'(3)] by (rule same_except_mono) auto
  ultimately show ?case using m' d by (auto simp: st_def)
qed simp

lemma memset_ok:
  "mapped_range m dst n \<Longrightarrow> \<exists>m'. memset m dst v n = Some (dst, m') \<and> block m' dst (replicate n v) \<and>
    same_except m m' {dst..<dst + n}"
  using memset_loop_ok [of m dst n v] by (auto simp: memset_def mapped_range_def)

section \<open>Lengths and searches\<close>

lemma strlen_loop_ok: "cstr m p xs \<Longrightarrow> strlen_loop m p = Some (p + length xs)"
  by (induction xs arbitrary: p) (simp_all add: strlen_loop.simps)

lemma strlen_ok: "cstr m p xs \<Longrightarrow> strlen m p = Some (length xs)"
  by (simp add: strlen_def strlen_loop_ok cstr_nonnull)

lemma strnlen_loop_ok:
  "cstr m p xs \<Longrightarrow> i \<le> length xs \<Longrightarrow> i \<le> n \<Longrightarrow> strnlen_loop m p n i = Some (min n (length xs))"
proof (induction "length xs - i" arbitrary: i)
  case 0
  then show ?case using cstr_drop [of m p xs i] by (simp add: strnlen_loop.simps)
next
  case (Suc k)
  then have "cstr m (p + i) (drop i xs)" "drop i xs = xs ! i # drop (Suc i) xs"
    by (auto intro: cstr_drop simp: Cons_nth_drop_Suc)
  then have "ld m (p + i) = Some (xs ! i)" "xs ! i \<noteq> 0" by auto
  then show ?case using Suc by (subst strnlen_loop.simps) auto
qed

lemma strnlen_ok: "cstr m p xs \<Longrightarrow> strnlen m p n = Some (min n (length xs))"
  by (simp add: strnlen_def strnlen_loop_ok)

lemma strchr_loop_ok:
  "cstr m p xs \<Longrightarrow> strchr_loop m p c =
    Some (if c \<in> set xs then p + length (takeWhile (\<lambda>x. x \<noteq> c) xs) else if c = 0 then p + length xs else NULL)"
  by (induction xs arbitrary: p) (auto simp: strchr_loop.simps)

lemma strchr_ok:
  "cstr m p xs \<Longrightarrow> strchr m p c =
    Some (if c \<in> set xs then p + length (takeWhile (\<lambda>x. x \<noteq> c) xs) else if c = 0 then p + length xs else NULL)"
  by (simp add: strchr_def strchr_loop_ok cstr_nonnull)

lemma strchr_null:
  assumes "cstr m p xs"
  shows "\<exists>r. strchr m p c = Some r \<and> (r = NULL \<longleftrightarrow> c \<notin> set xs \<and> c \<noteq> 0)"
  using strchr_ok [OF assms] cstr_nonnull [OF assms] by (auto simp: takeWhile_eq_Nil_iff)

text \<open>The scanning functions, with the set of characters at \<open>q\<close>.\<close>

lemma cstr_step: "cstr m p xs \<Longrightarrow> i < length xs \<Longrightarrow> ld m (p + i) = Some (xs ! i) \<and> xs ! i \<noteq> 0"
  using cstr_drop [of m p xs i] by (simp add: Cons_nth_drop_Suc [symmetric])

lemma cstr_end: "cstr m p xs \<Longrightarrow> ld m (p + length xs) = Some 0"
  using cstr_drop [of m p xs "length xs"] by simp

lemma strspn_loop_ok:
  assumes p: "cstr m p xs" and q: "cstr m q cs" and "i \<le> length xs"
  shows "strspn_loop m p q i = Some (i + length (takeWhile (\<lambda>x. x \<in> set cs) (drop i xs)))"
  using assms(3)
proof (induction "length xs - i" arbitrary: i)
  case 0
  then show ?case using cstr_end [OF p] by (simp add: strspn_loop.simps)
next
  case (Suc k)
  then have i: "i < length xs" "drop i xs = xs ! i # drop (Suc i) xs" by (auto simp: Cons_nth_drop_Suc)
  note s = cstr_step [OF p i(1)]
  obtain r where r: "strchr m q (xs ! i) = Some r" "r = NULL \<longleftrightarrow> xs ! i \<notin> set cs"
    using strchr_null [OF q, of "xs ! i"] s by auto
  show ?case using Suc s r i by (subst strspn_loop.simps) auto
qed

lemma strspn_ok: "cstr m p xs \<Longrightarrow> cstr m q cs \<Longrightarrow> strspn m p q = Some (length (takeWhile (\<lambda>x. x \<in> set cs) xs))"
  by (simp add: strspn_def strspn_loop_ok)

lemma strcspn_loop_ok:
  assumes p: "cstr m p xs" and q: "cstr m q cs" and "i \<le> length xs"
  shows "strcspn_loop m p q i = Some (i + length (takeWhile (\<lambda>x. x \<notin> set cs) (drop i xs)))"
  using assms(3)
proof (induction "length xs - i" arbitrary: i)
  case 0
  then show ?case using cstr_end [OF p] by (simp add: strcspn_loop.simps)
next
  case (Suc k)
  then have i: "i < length xs" "drop i xs = xs ! i # drop (Suc i) xs" by (auto simp: Cons_nth_drop_Suc)
  note s = cstr_step [OF p i(1)]
  obtain r where r: "strchr m q (xs ! i) = Some r" "r = NULL \<longleftrightarrow> xs ! i \<notin> set cs"
    using strchr_null [OF q, of "xs ! i"] s by auto
  show ?case using Suc s r i by (subst strcspn_loop.simps) auto
qed

lemma strcspn_ok: "cstr m p xs \<Longrightarrow> cstr m q cs \<Longrightarrow> strcspn m p q = Some (length (takeWhile (\<lambda>x. x \<notin> set cs) xs))"
  by (simp add: strcspn_def strcspn_loop_ok)

lemma strpbrk_ok:
  assumes q: "cstr m q cs"
  shows "cstr m p xs \<Longrightarrow> strpbrk m p q =
    Some (if set xs \<inter> set cs = {} then NULL else p + length (takeWhile (\<lambda>x. x \<notin> set cs) xs))"
proof (induction xs arbitrary: p)
  case (Cons x xs)
  obtain r where r: "strchr m q x = Some r" "r = NULL \<longleftrightarrow> x \<notin> set cs"
    using strchr_null [OF q, of x] Cons.prems by auto
  then show ?case using Cons.prems Cons.IH [of "p + 1"] by (subst strpbrk.simps) auto
qed (simp add: strpbrk.simps)

lemma strrchr_loop_ok:
  "cstr m p xs \<Longrightarrow> strrchr_loop m p c f =
    Some (if c \<in> set xs then p + (length xs - 1 - length (takeWhile (\<lambda>x. x \<noteq> c) (rev xs))) else f)"
proof (induction xs arbitrary: p f)
  case (Cons x xs)
  have l: "length (takeWhile (\<lambda>x. x \<noteq> c) (rev xs)) < length xs" if "c \<in> set xs"
  proof -
    have "dropWhile (\<lambda>x. x \<noteq> c) (rev xs) \<noteq> []" using that by (simp add: dropWhile_eq_Nil_conv)
    then show ?thesis
      using arg_cong [OF takeWhile_dropWhile_id [of "\<lambda>x. x \<noteq> c" "rev xs"], of length] by (cases "dropWhile (\<lambda>x. x \<noteq> c) (rev xs)") simp_all
  qed
  show ?case
    using Cons.prems Cons.IH [of "p + 1"] l by (subst strrchr_loop.simps) (auto simp: takeWhile_append)
qed (simp add: strrchr_loop.simps)

section \<open>Comparisons\<close>

lemma strcmp_loop_ok:
  "cstr m a xs \<Longrightarrow> cstr m b ys \<Longrightarrow>
   strcmp_loop m a b = Some (if xs = ys then 0 else if ord_class.lexordp xs ys then - 1 else 1)"
proof (induction xs arbitrary: a b ys)
  case Nil
  then show ?case by (cases ys) (auto simp: strcmp_loop.simps word_gt_0)
next
  case (Cons x xs)
  show ?case
  proof (cases ys)
    case Nil
    then show ?thesis using Cons.prems by (subst strcmp_loop.simps) (auto simp: word_gt_0)
  next
    case (Cons y zs)
    then show ?thesis
      using Cons.prems Cons.IH [of "a + 1" "b + 1" zs] by (subst strcmp_loop.simps) (auto simp: not_less)
  qed
qed

lemma memcmp_loop_ok:
  "block m a xs \<Longrightarrow> block m b ys \<Longrightarrow> length ys = length xs \<Longrightarrow>
   memcmp_loop m a b (length xs) = Some (if xs = ys then 0 else if ord_class.lexordp xs ys then - 1 else 1)"
proof (induction xs arbitrary: a b ys)
  case (Cons x xs)
  then obtain y zs where "ys = y # zs" by (cases ys) auto
  then show ?case using Cons.prems Cons.IH [of "a + 1" "b + 1" zs] by (auto simp: not_less)
qed simp

lemma memcmp_ok:
  assumes "block m a xs" "block m b ys" "length ys = length xs"
  shows "memcmp m a b (length xs) = Some (if xs = ys then 0 else if ord_class.lexordp xs ys then - 1 else 1)"
proof -
  have "a \<noteq> NULL \<or> length xs = 0" "b \<noteq> NULL \<or> length xs = 0" using assms by (auto simp: block_nth)
  then show ?thesis using memcmp_loop_ok [OF assms] by (simp add: memcmp_def)
qed

text \<open>Substring search: the loop tries the positions in order.\<close>

lemma memcmp_prefix:
  assumes h: "cstr m p xs" and n: "cstr m q ys" and "i + length ys \<le> length xs"
  shows "\<exists>c. memcmp m (p + i) q (length ys) = Some c \<and> (c = 0 \<longleftrightarrow> prefix ys (drop i xs))"
proof -
  let ?zs = "take (length ys) (drop i xs)"
  have l: "length ?zs = length ys" using assms(3) by simp
  have "block m q ys" "block m (p + i) (drop i xs)"
    using n cstr_drop [OF h, of i] assms(3) by (auto simp: cstr_def block_append)
  moreover from this have "block m (p + i) ?zs" by (metis append_take_drop_id block_append)
  ultimately have "memcmp m (p + i) q (length ?zs) =
      Some (if ?zs = ys then 0 else if ord_class.lexordp ?zs ys then - 1 else 1)"
    using l by (intro memcmp_ok) auto
  moreover have "prefix ys (drop i xs) \<longleftrightarrow> ?zs = ys" by (metis append_eq_conv_conj append_take_drop_id prefix_def)
  ultimately show ?thesis unfolding l by auto
qed

lemma strstr_loop_ok:
  assumes h: "cstr m p xs" and n: "cstr m q ys" and "i + k + length ys = length xs"
  shows "strstr_loop m p q (length ys) i k =
    Some (case find (\<lambda>j. prefix ys (drop j xs)) [i..<Suc (i + k)] of None \<Rightarrow> NULL | Some j \<Rightarrow> p + j)"
  using assms(3)
proof (induction k arbitrary: i)
  case 0
  then show ?case using memcmp_prefix [OF h n, of i] by auto
next
  case (Suc k)
  then show ?case using memcmp_prefix [OF h n, of i] Suc.IH [of "i + 1"] by (auto simp: upt_rec [of i])
qed

lemma strstr_ok:
  assumes h: "cstr m p xs" and n: "cstr m q ys"
  shows "strstr m p q =
    Some (case find (\<lambda>j. prefix ys (drop j xs)) [0..<Suc (length xs - length ys)] of
      None \<Rightarrow> NULL | Some j \<Rightarrow> if length ys \<le> length xs then p + j else NULL)"
  using strstr_loop_ok [OF h n, of 0 "length xs - length ys"]
  by (auto simp: strstr_def strlen_ok [OF h] strlen_ok [OF n] split: option.splits)

section \<open>Bounded copies\<close>

lemma strlcpy_ok:
  assumes s: "cstr m src xs" and d: "mapped_range m dst n" "dst \<noteq> NULL"
    and o: "dst + n \<le> src \<or> src + length xs < dst"
  shows "\<exists>m'. strlcpy m dst src n = Some (length xs, m') \<and> same_except m m' {dst..<dst + n} \<and>
    (n > 0 \<longrightarrow> cstr m' dst (take (n - 1) xs))"
proof (cases n)
  case 0
  then show ?thesis using s d by (auto simp: strlcpy_def strlen_ok cstr_nonnull)
next
  case (Suc k)
  let ?ys = "take k xs"
  have len: "(if length xs < k then length xs else k) = length ?ys" by simp
  have src: "block m src ?ys" using s
    by (metis append_take_drop_id block_append cstr_def)
  have rng: "mapped_range m dst (length ?ys)" "dst \<le> src \<or> src + length ?ys \<le> dst"
    using mapped_range_sub [OF d(1), of dst "length ?ys"] Suc o by auto
  obtain m1 where m1: "memcpy m dst src (length ?ys) = Some (dst, m1)" "block m1 dst ?ys"
      "same_except m m1 {dst..<dst + length ?ys}" using memcpy_ok [OF src rng] by blast
  have "\<exists>v. m1 (dst + length ?ys) = Some v"
    using mapped_rangeD [OF d(1), of "length ?ys"] m1(3) Suc by (auto simp: same_except_def dom_def)
  then have st: "st m1 (dst + length ?ys) 0 = Some (m1(dst + length ?ys \<mapsto> 0))"
    and same2: "same_except m1 (m1(dst + length ?ys \<mapsto> 0)) {dst + length ?ys}"
    using d(2) by (auto simp: st_def intro: same_except_upd)
  let ?m2 = "m1(dst + length ?ys \<mapsto> 0)"
  have "block ?m2 dst ?ys" using m1(2) by (subst block_cong [where m = m1]) auto
  moreover have "0 \<notin> set ?ys" using s by (auto simp: cstr_def dest: in_set_takeD)
  ultimately have "cstr ?m2 dst ?ys" using d(2) by (simp add: cstr_def block_append ld_def)
  moreover have "same_except m ?m2 {dst..<dst + n}"
    using same_except_trans [OF m1(3) same2] by (rule same_except_mono) (auto simp: Suc)
  ultimately show ?thesis
    using s d(2) m1(1) st len Suc by (auto simp: strlcpy_def strlen_ok cstr_nonnull Let_def)
qed

end
