(* ===== verification/Argument_Passing.thy ===== *)
theory Argument_Passing
  imports String_Correct
begin

text \<open>
  The command line of a user program: \<open>parse_args\<close> of \<open>userprog/process.c\<close> cuts it into arguments with
  \<open>strtok_r\<close>, and the last part of \<open>load\<close> copies them to the new user stack.
\<close>

section \<open>Cutting the command line\<close>

definition MAX_ARGS :: nat where "MAX_ARGS = 128"
definition MAX_BUF :: nat where "MAX_BUF = 128"

text \<open>\<open>spc\<close> is the address of the literal \<open>" "\<close>.  Writing past \<open>argv\<close> is a failure.\<close>

partial_function (option) parse_loop :: "mem \<Rightarrow> ptr \<Rightarrow> ptr \<Rightarrow> ptr \<Rightarrow> ptr list \<Rightarrow> (ptr list \<times> mem) option" where
  "parse_loop m spc token save argv =
     (if token = NULL then Some (argv, m)
      else do {
        ASSERT (length argv < MAX_ARGS);
        (nxt, save, m) \<leftarrow> strtok_r m NULL spc save;
        parse_loop m spc nxt save (argv @ [token]) })"

definition parse_args :: "mem \<Rightarrow> ptr \<Rightarrow> ptr \<Rightarrow> (nat \<times> ptr list \<times> mem) option" where
  "parse_args m target spc = do {
     (token, save, m) \<leftarrow> strtok_r m target spc NULL;
     (argv, m) \<leftarrow> parse_loop m spc token save [];
     ASSERT (length argv < MAX_ARGS);
     Some (length argv, argv @ [NULL], m) }"

section \<open>Building the stack\<close>

text \<open>The argument strings, the last one first; the result is \<open>rsp_arr\<close>.\<close>

fun push_strings :: "mem \<Rightarrow> ptr \<Rightarrow> ptr list \<Rightarrow> (ptr list \<times> ptr \<times> mem) option" where
  "push_strings m rsp [] = Some ([], rsp, m)"
| "push_strings m rsp (a # rest) = do {
     (rsp_arr, rsp, m) \<leftarrow> push_strings m rsp rest;
     n \<leftarrow> strlen m a;
     let rsp = rsp - (n + 1);
     (_, m) \<leftarrow> memcpy m rsp a (n + 1);
     Some (rsp # rsp_arr, rsp, m) }"

function align_loop :: "mem \<Rightarrow> ptr \<Rightarrow> (ptr \<times> mem) option" where
  "align_loop m rsp =
     (if rsp mod 8 \<noteq> 0 then do { m \<leftarrow> st m (rsp - 1) 0; align_loop m (rsp - 1) } else Some (rsp, m))"
  by pat_completeness auto
termination by (relation "measure snd") auto

text \<open>Eight bytes, least significant first, as \<open>memcpy\<close> of a pointer variable stores them.\<close>

fun le_bytes :: "nat \<Rightarrow> nat \<Rightarrow> byte list" where
  "le_bytes 0 v = []"
| "le_bytes (Suc k) v = of_nat v # le_bytes k (v div 256)"

fun le_value :: "byte list \<Rightarrow> nat" where
  "le_value [] = 0"
| "le_value (b # bs) = unat b + 256 * le_value bs"

fun st_bytes :: "mem \<Rightarrow> ptr \<Rightarrow> byte list \<Rightarrow> mem option" where
  "st_bytes m p [] = Some m"
| "st_bytes m p (b # bs) = do { m \<leftarrow> st m p b; st_bytes m (p + 1) bs }"

fun push_pointers :: "mem \<Rightarrow> ptr \<Rightarrow> ptr list \<Rightarrow> (ptr \<times> mem) option" where
  "push_pointers m rsp [] = Some (rsp, m)"
| "push_pointers m rsp (q # rest) = do {
     (rsp, m) \<leftarrow> push_pointers m rsp rest;
     let rsp = rsp - 8;
     m \<leftarrow> st_bytes m rsp (le_bytes 8 q);
     Some (rsp, m) }"

record user_frame =
  uf_rsp :: ptr
  uf_rdi :: nat
  uf_rsi :: ptr

definition push_arguments :: "mem \<Rightarrow> ptr \<Rightarrow> ptr list \<Rightarrow> (user_frame \<times> mem) option" where
  "push_arguments m rsp argv = do {
     (rsp_arr, rsp, m) \<leftarrow> push_strings m rsp argv;
     (rsp, m) \<leftarrow> align_loop m rsp;
     let rsp = rsp - 8;
     (_, m) \<leftarrow> memset m rsp 0 8;
     (rsp, m) \<leftarrow> push_pointers m rsp rsp_arr;
     let rsp = rsp - 8;
     (_, m) \<leftarrow> memset m rsp 0 8;
     Some (\<lparr>uf_rsp = rsp, uf_rdi = length argv, uf_rsi = rsp + 8\<rparr>, m) }"

section \<open>Tokens\<close>

text \<open>What cutting a string at delimiters means.\<close>

function tokens :: "byte set \<Rightarrow> byte list \<Rightarrow> byte list list" where
  "tokens D xs = (case dropWhile (\<lambda>x. x \<in> D) xs of
     [] \<Rightarrow> []
   | y # ys \<Rightarrow> (y # takeWhile (\<lambda>x. x \<notin> D) ys) # tokens D (dropWhile (\<lambda>x. x \<notin> D) ys))"
  by pat_completeness auto
termination
proof (relation "measure (\<lambda>(D, xs). length xs)")
  fix D :: "byte set" and xs ys and y :: byte
  assume "dropWhile (\<lambda>x. x \<in> D) xs = y # ys"
  then have "Suc (length ys) \<le> length xs" by (metis length_Cons length_dropWhile_le)
  then show "((D, dropWhile (\<lambda>x. x \<notin> D) ys), D, xs) \<in> measure (\<lambda>(D, xs). length xs)"
    by (simp add: le_less_trans [OF length_dropWhile_le])
qed simp

declare tokens.simps [simp del]

lemma tokens_Nil [simp]: "tokens D [] = []"
  by (simp add: tokens.simps)

lemma tokens_skip: "x \<in> D \<Longrightarrow> tokens D (x # xs) = tokens D xs"
  by (simp add: tokens.simps [of D "x # xs"] tokens.simps [of D xs])

lemma tokens_first:
  assumes "dropWhile (\<lambda>x. x \<in> D) xs = ys" "ys \<noteq> []"
  shows "tokens D xs = takeWhile (\<lambda>x. x \<notin> D) ys # tokens D (tl (dropWhile (\<lambda>x. x \<notin> D) ys))"
proof -
  obtain y zs where y: "ys = y # zs" using assms(2) by (cases ys) auto
  then have "y \<notin> D" using assms(1) by (metis hd_dropWhile list.sel(1) list.distinct(1))
  have "tokens D (dropWhile (\<lambda>x. x \<notin> D) zs) = tokens D (tl (dropWhile (\<lambda>x. x \<notin> D) zs))"
  proof (cases "dropWhile (\<lambda>x. x \<notin> D) zs")
    case (Cons r rs)
    then have "r \<in> D" by (metis hd_dropWhile list.sel(1) list.distinct(1))
    then show ?thesis using Cons by (simp add: tokens_skip)
  qed (simp del: dropWhile_eq_Nil_conv)
  then show ?thesis using assms y \<open>y \<notin> D\<close> by (simp add: tokens.simps [of D xs])
qed

lemma tokens_length: "2 * length (tokens D xs) \<le> length xs + 1"
proof (induction "length xs" arbitrary: xs rule: less_induct)
  case less
  show ?case
  proof (cases "dropWhile (\<lambda>x. x \<in> D) xs")
    case Nil
    then show ?thesis by (simp add: tokens.simps del: dropWhile_eq_Nil_conv)
  next
    case (Cons y ys)
    let ?r = "tl (dropWhile (\<lambda>x. x \<notin> D) (y # ys))"
    have le: "Suc (length ys) \<le> length xs" using Cons by (metis length_Cons length_dropWhile_le)
    have "y \<notin> D" using Cons by (metis hd_dropWhile list.sel(1) list.distinct(1))
    then have "dropWhile (\<lambda>x. x \<notin> D) (y # ys) = dropWhile (\<lambda>x. x \<notin> D) ys" by simp
    then have len: "length ?r \<le> length ys - 1" by (metis diff_le_mono length_dropWhile_le length_tl)
    then have "length ?r < length xs" using le by simp
    from less [OF this] show ?thesis
      using len le tokens_first [OF Cons] by (cases ys) auto
  qed
qed

end
