(* ===== verification/Argument_Correct.thy ===== *)
theory Argument_Correct
  imports Argument_Passing
begin

text \<open>
  The arguments a user program finds on its stack are the words of its command line.
\<close>

section \<open>\<open>strtok_r\<close>\<close>

lemma strtok_skip_ok:
  assumes d: "cstr m q ds"
  shows "cstr m s xs \<Longrightarrow> strtok_skip m q s =
    Some (dropWhile (\<lambda>x. x \<in> set ds) xs \<noteq> [], s + length (takeWhile (\<lambda>x. x \<in> set ds) xs))"
proof (induction xs arbitrary: s)
  case Nil
  then show ?case using strchr_null [OF d, of 0] by (auto simp: strtok_skip.simps)
next
  case (Cons x xs)
  obtain r where r: "strchr m q x = Some r" "r = NULL \<longleftrightarrow> x \<notin> set ds" using strchr_null [OF d, of x] Cons.prems by auto
  then show ?case using Cons.prems Cons.IH [of "s + 1"] by (subst strtok_skip.simps) (auto simp del: dropWhile_eq_Nil_conv)
qed

lemma strtok_end_ok:
  assumes d: "cstr m q ds"
  shows "cstr m s xs \<Longrightarrow> strtok_end m q s = Some (s + length (takeWhile (\<lambda>x. x \<notin> set ds) xs))"
proof (induction xs arbitrary: s)
  case Nil
  then show ?case using strchr_null [OF d, of 0] by (auto simp: strtok_end.simps)
next
  case (Cons x xs)
  obtain r where r: "strchr m q x = Some r" "r = NULL \<longleftrightarrow> x \<notin> set ds" using strchr_null [OF d, of x] Cons.prems by auto
  then show ?case using Cons.prems Cons.IH [of "s + 1"] by (subst strtok_end.simps) auto
qed

lemma cstr_split:
  assumes "cstr m p (xs @ y # ys)"
  shows "ld m (p + length xs) = Some y" "y \<noteq> 0" "cstr m (p + length xs + 1) ys" "block m p xs" "0 \<notin> set xs"
  using assms cstr_drop [OF assms, of "length xs"] by (auto simp: cstr_def block_append)

text \<open>One call, on the string \<open>xs\<close> at \<open>s\<close>: either there is no token left, or the token is cut off and the
  saved position is behind it.\<close>

lemma strtok_r_none:
  assumes d: "cstr m q ds" and s: "cstr m s xs" "arg = s \<or> arg = NULL \<and> save = s"
    and no: "dropWhile (\<lambda>x. x \<in> set ds) xs = []"
  shows "strtok_r m arg q save = Some (NULL, s + length xs, m)"
proof -
  have "length (takeWhile (\<lambda>x. x \<in> set ds) xs) = length xs"
    using arg_cong [OF takeWhile_dropWhile_id [of "\<lambda>x. x \<in> set ds" xs], of length] no by (simp del: dropWhile_eq_Nil_conv)
  moreover have "s \<noteq> NULL" "q \<noteq> NULL" using s(1) d by (auto simp: cstr_nonnull)
  ultimately show ?thesis
    using strtok_skip_ok [OF d s(1)] s(2) no by (auto simp: strtok_r_def Let_def simp del: dropWhile_eq_Nil_conv)
qed

lemma strtok_r_token:
  fixes xs ds defines "ys \<equiv> dropWhile (\<lambda>x. x \<in> set ds) xs"
  defines "w \<equiv> length (takeWhile (\<lambda>x. x \<in> set ds) xs)" and "t \<equiv> takeWhile (\<lambda>x. x \<notin> set ds) ys"
    and "r \<equiv> dropWhile (\<lambda>x. x \<notin> set ds) ys"
  assumes d: "cstr m q ds" and s: "cstr m s xs" "arg = s \<or> arg = NULL \<and> save = s" and yes: "ys \<noteq> []"
  shows "\<exists>m' save'. strtok_r m arg q save = Some (s + w, save', m') \<and> cstr m' (s + w) t \<and> cstr m' save' (tl r) \<and>
    save' = s + w + length t + (if r = [] then 0 else 1) \<and>
    same_except m m' (if r = [] then {} else {s + w + length t})"
proof -
  have xs: "xs = takeWhile (\<lambda>x. x \<in> set ds) xs @ t @ r" by (simp add: t_def r_def ys_def)
  have nn: "s \<noteq> NULL" "q \<noteq> NULL" using s(1) d by (auto simp: cstr_nonnull)
  have ys: "cstr m (s + w) (t @ r)" using cstr_drop [OF s(1), of w] xs
    by (metis append_eq_conv_conj length_takeWhile_le w_def)
  have skip: "strtok_skip m q s = Some (True, s + w)" using strtok_skip_ok [OF d s(1)] yes by (simp add: w_def ys_def)
  have e: "strtok_end m q (s + w) = Some (s + w + length t)"
    using strtok_end_ok [OF d ys] by (simp add: t_def r_def)
  show ?thesis
  proof (cases r)
    case Nil
    then have t: "cstr m (s + w) t" using ys by simp
    have "ld m (s + w + length t) = Some 0" using cstr_end [OF t] .
    moreover from this have "cstr m (s + w + length t) []" by simp
    ultimately show ?thesis using Nil skip e s(2) nn t by (auto simp: strtok_r_def Let_def)
  next
    case (Cons z zs)
    note sp = cstr_split [OF ys [unfolded Cons]]
    let ?a = "s + w + length t" let ?m = "m(?a \<mapsto> 0)"
    have a: "m ?a = Some z" "?a \<noteq> NULL" using sp(1) nn by (auto simp: ld_def)
    then have st: "st m ?a 0 = Some ?m" and same: "same_except m ?m {?a}" by (auto simp: st_def intro: same_except_upd)
    have "block ?m (s + w) t" using sp(4) by (subst block_cong [where m = m]) auto
    then have "cstr ?m (s + w) t" using sp(5) nn by (simp add: cstr_def block_append ld_def)
    moreover have "cstr ?m (?a + 1) zs" using sp(3) by (subst cstr_same [OF same]) auto
    ultimately show ?thesis using Cons skip e s(2) nn st sp(1,2) same by (auto simp: strtok_r_def Let_def)
  qed
qed

section \<open>\<open>parse_args\<close>\<close>

lemma tokens_none: "dropWhile (\<lambda>x. x \<in> D) xs = [] \<Longrightarrow> tokens D xs = []"
  by (simp add: tokens.simps del: dropWhile_eq_Nil_conv)

lemma list_all2_cstr_same:
  assumes "list_all2 (cstr m) ps ts" "same_except m m' A"
    and "\<And>i. i < length ps \<Longrightarrow> {ps ! i..ps ! i + length (ts ! i)} \<inter> A = {}"
  shows "list_all2 (cstr m') ps ts"
  using assms by (auto simp: list_all2_conv_all_nth cstr_same [OF assms(2)])

definition within :: "ptr \<Rightarrow> ptr \<Rightarrow> ptr \<Rightarrow> byte list \<Rightarrow> bool" where
  "within lo hi a t \<longleftrightarrow> lo \<le> a \<and> a + length t \<le> hi"

text \<open>The loop, with the current token at \<open>token\<close> and the rest of the string at \<open>save\<close>.\<close>

lemma parse_loop_ok:
  assumes "cstr m q ds" "cstr m save xs" "cstr m token t" "token \<noteq> NULL"
    and "token + length t < save \<or> token + length t \<le> save \<and> xs = []"
    and "{q..q + length ds} \<inter> {save..save + length xs} = {}"
    and "length argv + 1 + length (tokens (set ds) xs) \<le> MAX_ARGS"
  shows "\<exists>ps m'. parse_loop m q token save argv = Some (argv @ token # ps, m') \<and>
    list_all2 (cstr m') (token # ps) (t # tokens (set ds) xs) \<and>
    list_all2 (within save (save + length xs)) ps (tokens (set ds) xs) \<and> same_except m m' {save..save + length xs}"
  using assms
proof (induction "length xs" arbitrary: xs m save token t argv rule: less_induct)
  case less
  note q = less.prems(1) and sv = less.prems(2) and tk = less.prems(3)
  let ?D = "\<lambda>x. x \<in> set ds" and ?N = "\<lambda>x. x \<notin> set ds"
  have room: "length argv < MAX_ARGS" using less.prems(7) by simp
  show ?case
  proof (cases "dropWhile ?D xs = []")
    case True
    have "strtok_r m NULL q save = Some (NULL, save + length xs, m)" by (rule strtok_r_none [OF q sv]) (use True in auto)
    then show ?thesis
      using less.prems(4) room tk tokens_none [OF True] by (auto simp: parse_loop.simps [of m q token] parse_loop.simps [of m q 0])
  next
    case False
    define ys where "ys = dropWhile ?D xs"
    define w where "w = length (takeWhile ?D xs)"
    define u where "u = takeWhile ?N ys"
    define r where "r = dropWhile ?N ys"
    have xs: "length xs = w + length u + length r"
    proof -
      have "xs = takeWhile ?D xs @ u @ r" by (simp add: u_def r_def ys_def)
      then show ?thesis unfolding w_def by (metis length_append add.assoc)
    qed
    have lt: "token + length t < save" using less.prems(5) False by auto
    have u: "u \<noteq> []" using False hd_dropWhile [of ?D xs] unfolding u_def ys_def by (cases "dropWhile ?D xs") auto
    have "\<exists>m1 save1. strtok_r m NULL q save = Some (save + w, save1, m1) \<and> cstr m1 (save + w) u \<and> cstr m1 save1 (tl r) \<and>
        save1 = save + w + length u + (if r = [] then 0 else 1) \<and>
        same_except m m1 (if r = [] then {} else {save + w + length u})"
      unfolding r_def u_def w_def ys_def by (rule strtok_r_token [OF q sv]) (use False in simp_all)
    then obtain m1 save1 where m1: "strtok_r m NULL q save = Some (save + w, save1, m1)" "cstr m1 (save + w) u"
        "cstr m1 save1 (tl r)" "save1 = save + w + length u + (if r = [] then 0 else 1)"
        "same_except m m1 (if r = [] then {} else {save + w + length u})"
      by blast
    have toks: "tokens (set ds) xs = u # tokens (set ds) (tl r)"
      using tokens_first [OF refl False] by (simp add: u_def r_def ys_def)
    have same1: "same_except m m1 {save..save + length xs}"
      using m1(5) by (rule same_except_mono) (use xs in \<open>cases r; auto\<close>)
    have rng: "{save1..save1 + length (tl r)} \<subseteq> {save..save + length xs}" using m1(4) xs by (cases r) auto
    have q1: "cstr m1 q ds" using q less.prems(6) cstr_same [OF same1, of q ds] by simp
    have t1: "cstr m1 token t" using tk lt cstr_same [OF same1, of token t] by auto
    have "length (tl r) < length xs" using xs u by (cases r) auto
    moreover have "save + w + length u < save1 \<or> save + w + length u \<le> save1 \<and> tl r = []" using m1(4) by auto
    moreover have "{q..q + length ds} \<inter> {save1..save1 + length (tl r)} = {}" using less.prems(6) rng by blast
    moreover have "length (argv @ [token]) + 1 + length (tokens (set ds) (tl r)) \<le> MAX_ARGS"
      using less.prems(7) toks by simp
    moreover have "save + w \<noteq> NULL" using cstr_nonnull [OF m1(2)] .
    ultimately obtain ps m' where ih: "parse_loop m1 q (save + w) save1 (argv @ [token]) = Some ((argv @ [token]) @ (save + w) # ps, m')"
        "list_all2 (cstr m') ((save + w) # ps) (u # tokens (set ds) (tl r))"
        "list_all2 (within save1 (save1 + length (tl r))) ps (tokens (set ds) (tl r))"
        "same_except m1 m' {save1..save1 + length (tl r)}"
      using less.hyps [of "tl r" m1 save1 "save + w" u "argv @ [token]"] q1 m1(2,3) by blast
    have "cstr m' token t" using t1 lt m1(4) cstr_same [OF ih(4), of token t] by auto
    moreover have "same_except m m' {save..save + length xs}"
      using same_except_trans [OF same1 ih(4)] by (rule same_except_mono) (use rng in auto)
    moreover have "list_all2 (within save (save + length xs)) ((save + w) # ps) (u # tokens (set ds) (tl r))"
    proof -
      have "list_all2 (within save (save + length xs)) ps (tokens (set ds) (tl r))"
        using ih(3) by (rule list_all2_mono) (use m1(4) xs in \<open>cases r; auto simp: within_def\<close>)
      then show ?thesis using xs by (simp add: within_def)
    qed
    ultimately show ?thesis
      using ih(1,2) m1(1) room less.prems(4) toks
      by (intro exI [of _ "(save + w) # ps"] exI [of _ m']) (auto simp: parse_loop.simps [of m q token])
  qed
qed

lemma parse_args_ok:
  assumes p: "cstr m p xs" and q: "cstr m q ds" and len: "length xs < MAX_BUF"
    and o: "{q..q + length ds} \<inter> {p..p + length xs} = {}"
  shows "\<exists>argv m'. parse_args m p q = Some (length (tokens (set ds) xs), argv @ [NULL], m') \<and>
    list_all2 (cstr m') argv (tokens (set ds) xs) \<and> list_all2 (within p (p + length xs)) argv (tokens (set ds) xs) \<and>
    same_except m m' {p..p + length xs}"
proof (cases "dropWhile (\<lambda>x. x \<in> set ds) xs = []")
  case True
  have "strtok_r m p q NULL = Some (NULL, p + length xs, m)" by (rule strtok_r_none [OF q p]) (use True in auto)
  then show ?thesis using tokens_none [OF True] by (auto simp: parse_args_def parse_loop.simps [of m q 0] MAX_ARGS_def)
next
  case False
  define ys where "ys = dropWhile (\<lambda>x. x \<in> set ds) xs"
  define w where "w = length (takeWhile (\<lambda>x. x \<in> set ds) xs)"
  define u where "u = takeWhile (\<lambda>x. x \<notin> set ds) ys"
  define r where "r = dropWhile (\<lambda>x. x \<notin> set ds) ys"
  have xs: "length xs = w + length u + length r"
  proof -
    have "xs = takeWhile (\<lambda>x. x \<in> set ds) xs @ u @ r" by (simp add: u_def r_def ys_def)
    then show ?thesis unfolding w_def by (metis length_append add.assoc)
  qed
  have "\<exists>m1 save1. strtok_r m p q NULL = Some (p + w, save1, m1) \<and> cstr m1 (p + w) u \<and> cstr m1 save1 (tl r) \<and>
      save1 = p + w + length u + (if r = [] then 0 else 1) \<and>
      same_except m m1 (if r = [] then {} else {p + w + length u})"
    unfolding r_def u_def w_def ys_def by (rule strtok_r_token [OF q p]) (use False in simp_all)
  then obtain m1 save1 where m1: "strtok_r m p q NULL = Some (p + w, save1, m1)" "cstr m1 (p + w) u" "cstr m1 save1 (tl r)"
      "save1 = p + w + length u + (if r = [] then 0 else 1)" "same_except m m1 (if r = [] then {} else {p + w + length u})"
    by blast
  have toks: "tokens (set ds) xs = u # tokens (set ds) (tl r)"
    using tokens_first [OF refl False] by (simp add: u_def r_def ys_def)
  have same1: "same_except m m1 {p..p + length xs}" using m1(5) by (rule same_except_mono) (use xs in \<open>cases r; auto\<close>)
  have rng: "{save1..save1 + length (tl r)} \<subseteq> {p..p + length xs}" using m1(4) xs by (cases r) auto
  have cnt: "length (tokens (set ds) xs) < MAX_ARGS" using tokens_length [of "set ds" xs] len by (simp add: MAX_BUF_def MAX_ARGS_def)
  have "cstr m1 q ds" using q o cstr_same [OF same1, of q ds] by simp
  moreover have "p + w + length u < save1 \<or> p + w + length u \<le> save1 \<and> tl r = []" using m1(4) by auto
  moreover have "{q..q + length ds} \<inter> {save1..save1 + length (tl r)} = {}" using o rng by blast
  moreover have "length ([] :: ptr list) + 1 + length (tokens (set ds) (tl r)) \<le> MAX_ARGS" using cnt toks by simp
  moreover have nn: "p + w \<noteq> NULL" using cstr_nonnull [OF m1(2)] .
  ultimately obtain ps m' where ih: "parse_loop m1 q (p + w) save1 [] = Some ([] @ (p + w) # ps, m')"
      "list_all2 (cstr m') ((p + w) # ps) (u # tokens (set ds) (tl r))"
      "list_all2 (within save1 (save1 + length (tl r))) ps (tokens (set ds) (tl r))"
      "same_except m1 m' {save1..save1 + length (tl r)}"
    using parse_loop_ok [of m1 q ds save1 "tl r" "p + w" u "[]"] m1(2,3) by blast
  have "same_except m m' {p..p + length xs}"
    using same_except_trans [OF same1 ih(4)] by (rule same_except_mono) (use rng in auto)
  moreover have "list_all2 (within p (p + length xs)) ((p + w) # ps) (u # tokens (set ds) (tl r))"
  proof -
    have "list_all2 (within p (p + length xs)) ps (tokens (set ds) (tl r))"
      using ih(3) by (rule list_all2_mono) (use m1(4) xs in \<open>cases r; auto simp: within_def\<close>)
    then show ?thesis using xs by (simp add: within_def)
  qed
  moreover have "length ps = length (tokens (set ds) (tl r))" using list_all2_lengthD [OF ih(2)] by simp
  ultimately show ?thesis
    using ih(1,2) m1(1) cnt toks
    by (intro exI [of _ "(p + w) # ps"] exI [of _ m']) (auto simp: parse_args_def)
qed

section \<open>Pointers in memory\<close>

lemma length_le_bytes [simp]: "length (le_bytes k v) = k"
  by (induction k arbitrary: v) simp_all

lemma le_bytes_zero: "le_bytes k 0 = replicate k 0"
  by (induction k) simp_all

lemma le_value_le_bytes: "le_value (le_bytes k v) = v mod 256 ^ k"
proof (induction k arbitrary: v)
  case (Suc k)
  have "unat (of_nat v :: byte) = v mod 256" by (simp add: unat_of_nat)
  then show ?case using Suc by (simp add: mod_mult2_eq)
qed simp

lemma st_bytes_ok:
  "mapped_range m p (length bs) \<Longrightarrow> \<exists>m'. st_bytes m p bs = Some m' \<and> block m' p bs \<and> same_except m m' {p..<p + length bs}"
proof (induction bs arbitrary: m p)
  case (Cons b bs)
  have d: "p \<noteq> NULL" "\<exists>v. m p = Some v" using mapped_rangeD [OF Cons.prems, of 0] by auto
  let ?m = "m(p \<mapsto> b)"
  have same: "same_except m ?m {p..<p + length (b # bs)}" using d by (auto intro: same_except_upd)
  have r: "mapped_range ?m (p + 1) (length bs)" using d(2) mapped_range_sub [OF Cons.prems, of "p + 1" "length bs"] by auto
  obtain m' where m': "st_bytes ?m (p + 1) bs = Some m'" "block m' (p + 1) bs" "same_except ?m m' {p + 1..<p + 1 + length bs}"
    using Cons.IH [OF r] by blast
  have "ld m' p = Some b" using m'(3) d(1) by (simp add: same_except_def ld_def)
  moreover have "same_except m m' {p..<p + length (b # bs)}"
    using same_except_trans [OF same m'(3)] by (rule same_except_mono) auto
  ultimately show ?case using m' d by (auto simp: st_def)
qed simp

text \<open>Reading a pointer, as the user program does.\<close>

definition ld64 :: "mem \<Rightarrow> ptr \<Rightarrow> nat option" where
  "ld64 m a = map_option le_value (those (map (\<lambda>i. ld m (a + i)) [0..<8]))"

lemma those_map_Some: "(\<And>x. x \<in> set xs \<Longrightarrow> f x = Some (g x)) \<Longrightarrow> those (map f xs) = Some (map g xs)"
  by (induction xs) simp_all

lemma ld64_block: "block m a bs \<Longrightarrow> length bs = 8 \<Longrightarrow> ld64 m a = Some (le_value bs)"
proof -
  assume b: "block m a bs" "length bs = 8"
  have "those (map (\<lambda>i. ld m (a + i)) [0..<8]) = Some (map (\<lambda>i. bs ! i) [0..<8])"
    using b by (intro those_map_Some) (auto simp: block_nth ld_def)
  then show ?thesis using b(2) by (simp add: ld64_def map_nth [of bs, unfolded b(2)])
qed

lemma ld64_le_bytes: "block m a (le_bytes 8 v) \<Longrightarrow> v < 2 ^ 64 \<Longrightarrow> ld64 m a = Some v"
  using ld64_block [of m a "le_bytes 8 v"] by (simp add: le_value_le_bytes)

section \<open>The stack\<close>

definition room :: "byte list list \<Rightarrow> nat" where
  "room ts = sum_list (map (\<lambda>t. length t + 1) ts)"

lemma push_strings_ok:
  assumes "list_all2 (cstr m) argv ts" "mapped_range m lo (rsp - lo)" "lo + room ts \<le> rsp" "lo \<noteq> NULL"
    and "\<And>a t. (a, t) \<in> set (zip argv ts) \<Longrightarrow> {a..a + length t} \<inter> {lo..<rsp} = {}"
  shows "\<exists>arr m'. push_strings m rsp argv = Some (arr, rsp - room ts, m') \<and> length arr = length ts \<and>
    list_all2 (\<lambda>a t. cstr m' a t \<and> rsp - room ts \<le> a \<and> a + length t < rsp) arr ts \<and> same_except m m' {rsp - room ts..<rsp}"
  using assms
proof (induction argv ts rule: list_all2_induct)
  case Nil
  then show ?case by (simp add: room_def)
next
  case (Cons a argv t ts)
  let ?r = "rsp - room ts" and ?r' = "rsp - room (t # ts)"
  have rm: "room (t # ts) = length t + 1 + room ts" by (simp add: room_def)
  obtain arr m1 where m1: "push_strings m rsp argv = Some (arr, ?r, m1)" "length arr = length ts"
      "list_all2 (\<lambda>a t. cstr m1 a t \<and> ?r \<le> a \<and> a + length t < rsp) arr ts" "same_except m m1 {?r..<rsp}"
    using Cons.IH Cons.prems rm by auto
  have r': "?r' = ?r - (length t + 1)" "lo \<le> ?r'" "?r' + (length t + 1) = ?r" using rm Cons.prems(2) by auto
  have o: "{a..a + length t} \<inter> {lo..<rsp} = {}" using Cons.prems(4) [of a t] by simp
  have a1: "cstr m1 a t" proof -
    have "{?r..<rsp} \<subseteq> {lo..<rsp}" using r'(2,3) by auto
    then show ?thesis using Cons.hyps(1) cstr_same [OF m1(4), of a t] o by blast
  qed
  have nn: "?r' \<noteq> NULL" using Cons.prems(3) r'(2) by simp
  have b: "block m1 a (t @ [0])" using a1 by (simp add: cstr_def)
  have rng: "mapped_range m1 ?r' (length (t @ [0]))"
    using Cons.prems(1) r' mapped_range_same [OF m1(4), of ?r' "length (t @ [0])"]
    by (auto intro: mapped_range_sub)
  have ov: "?r' \<le> a \<or> a + length (t @ [0]) \<le> ?r'" 
  proof -
    have "lo < rsp" using r'(2,3) by linarith
    then have "a + length t < lo \<or> rsp \<le> a" using intervals_apart [OF o] by simp
    then show ?thesis using r'(2,3) by auto
  qed
  obtain m2 where m2: "memcpy m1 ?r' a (length (t @ [0])) = Some (?r', m2)" "block m2 ?r' (t @ [0])"
      "same_except m1 m2 {?r'..<?r' + length (t @ [0])}" using memcpy_ok [OF b rng ov] by blast
  have same2: "same_except m1 m2 {?r'..<?r}" using m2(3) r'(3) by (simp add: add.commute)
  have "cstr m2 ?r' t" using m2(2) a1 by (simp add: cstr_def)
  moreover have "list_all2 (\<lambda>a t. cstr m2 a t \<and> ?r' \<le> a \<and> a + length t < rsp) arr ts"
    using m1(3) 
  proof (rule list_all2_mono)
    fix b u assume b: "cstr m1 b u \<and> ?r \<le> b \<and> b + length u < rsp"
    then have "{b..b + length u} \<inter> {?r'..<?r} = {}" by auto
    then show "cstr m2 b u \<and> ?r' \<le> b \<and> b + length u < rsp" using b r'(3) cstr_same [OF same2] by (metis le_add1 le_trans)
  qed
  moreover have "same_except m m2 {?r'..<rsp}"
    using same_except_trans [OF m1(4) same2] by (rule same_except_mono) (use r'(3) in auto)
  moreover have "?r' + length t < rsp" using r' Cons.prems(2) rm by linarith
  moreover have "push_strings m rsp (a # argv) = Some (?r' # arr, ?r', m2)"
    using m1(1) strlen_ok [OF a1] m2(1) by (simp add: r'(1) Let_def)
  ultimately show ?case using m1(2) by auto
qed

declare align_loop.simps [simp del]

lemma align_loop_ok:
  assumes "mapped_range m lo (rsp - lo)" "lo + rsp mod 8 \<le> rsp" "lo \<noteq> NULL"
  shows "\<exists>m'. align_loop m rsp = Some (rsp - rsp mod 8, m') \<and> same_except m m' {rsp - rsp mod 8..<rsp}"
  using assms
proof (induction "rsp mod 8" arbitrary: m rsp)
  case 0
  then show ?case by (subst align_loop.simps) simp
next
  case (Suc k)
  have k: "(rsp - 1) mod 8 = k" "rsp - rsp mod 8 = rsp - 1 - k" "0 < rsp"
  proof -
    show p: "0 < rsp" using Suc.hyps(2) by (cases rsp) simp_all
    show "(rsp - 1) mod 8 = k" using p mod_Suc [of "rsp - 1" 8] Suc.hyps(2) by (simp split: if_splits)
    show "rsp - rsp mod 8 = rsp - 1 - k" using Suc.hyps(2) by simp
  qed
  have le: "lo \<le> rsp - 1" "rsp - 1 < rsp" using Suc.prems(2) Suc.hyps(2) k by arith+
  have d: "rsp - 1 \<noteq> NULL" "\<exists>v. m (rsp - 1) = Some v"
    using mapped_rangeD [OF Suc.prems(1), of "rsp - 1 - lo"] le Suc.prems(3) by auto
  let ?m = "m(rsp - 1 \<mapsto> 0)"
  have same: "same_except m ?m {rsp - 1}" using d by (auto intro: same_except_upd)
  have rng: "mapped_range ?m lo (rsp - 1 - lo)"
    using d(2) mapped_range_sub [OF Suc.prems(1), of lo "rsp - 1 - lo"] le by auto
  obtain m' where m': "align_loop ?m (rsp - 1) = Some (rsp - 1 - k, m')" "same_except ?m m' {rsp - 1 - k..<rsp - 1}"
  proof -
    have "lo + (rsp - 1) mod 8 \<le> rsp - 1" using Suc.prems(2) Suc.hyps(2) k by linarith
    from Suc.hyps(1) [OF k(1) [symmetric] rng this Suc.prems(3)] show ?thesis unfolding k(1) using that by blast
  qed
  have "same_except m m' {rsp - 1 - k..<rsp}"
    using same_except_trans [OF same m'(2)] by (rule same_except_mono) (use k(3) in auto)
  moreover have "st m (rsp - 1) 0 = Some ?m" using d by (auto simp: st_def)
  moreover have "rsp mod 8 \<noteq> 0" using Suc.hyps(2) by simp
  ultimately show ?case using m'(1) unfolding k(2) by (subst align_loop.simps) simp
qed

lemma push_pointers_ok:
  assumes "mapped_range m lo (rsp - lo)" "lo + 8 * length arr \<le> rsp" "lo \<noteq> NULL"
  shows "\<exists>m'. push_pointers m rsp arr = Some (rsp - 8 * length arr, m') \<and>
    block m' (rsp - 8 * length arr) (concat (map (le_bytes 8) arr)) \<and> same_except m m' {rsp - 8 * length arr..<rsp}"
  using assms(1,2)
proof (induction arr)
  case (Cons a arr)
  let ?r = "rsp - 8 * length arr" and ?r' = "rsp - 8 * length (a # arr)"
  obtain m1 where m1: "push_pointers m rsp arr = Some (?r, m1)" "block m1 ?r (concat (map (le_bytes 8) arr))"
      "same_except m m1 {?r..<rsp}" using Cons.IH Cons.prems by auto
  have r': "?r' = ?r - 8" "?r' + 8 = ?r" "lo \<le> ?r'" "?r \<le> rsp" using Cons.prems(2) by auto
  have "mapped_range m1 ?r' (length (le_bytes 8 a))"
    using mapped_range_sub [OF Cons.prems(1), of ?r' 8] mapped_range_same [OF m1(3), of ?r' 8] r' by simp
  from st_bytes_ok [OF this] obtain m2 where m2: "st_bytes m1 ?r' (le_bytes 8 a) = Some m2" "block m2 ?r' (le_bytes 8 a)"
      "same_except m1 m2 {?r'..<?r}" using r'(2) by (auto simp: add.commute)
  have "block m2 ?r (concat (map (le_bytes 8) arr))" using m1(2) block_same [OF m2(3), of ?r] by auto
  then have "block m2 ?r' (concat (map (le_bytes 8) (a # arr)))" using m2(2) r'(2) by (simp add: block_append)
  moreover have "same_except m m2 {?r'..<rsp}"
    using same_except_trans [OF m1(3) m2(3)] by (rule same_except_mono) (use r' in auto)
  moreover have "push_pointers m rsp (a # arr) = Some (?r', m2)" using m1(1) m2(1) r'(1) by (simp add: Let_def)
  ultimately show ?case by blast
qed simp

lemma block_concat:
  "block m a (concat (map (le_bytes 8) qs)) \<Longrightarrow> i < length qs \<Longrightarrow> block m (a + 8 * i) (le_bytes 8 (qs ! i))"
proof (induction qs arbitrary: a i)
  case (Cons q qs)
  then show ?case using Cons.IH [of "a + 8" "i - 1"] by (cases i) (auto simp: block_append add.assoc)
qed simp

lemma room_tokens: "room (tokens D xs) \<le> length xs + 1"
proof (induction "length xs" arbitrary: xs rule: less_induct)
  case less
  show ?case
  proof (cases "dropWhile (\<lambda>x. x \<in> D) xs = []")
    case True
    then show ?thesis by (simp add: tokens_none room_def)
  next
    case False
    define ys where "ys = dropWhile (\<lambda>x. x \<in> D) xs"
    let ?u = "takeWhile (\<lambda>x. x \<notin> D) ys" and ?r = "dropWhile (\<lambda>x. x \<notin> D) ys"
    have ys: "length ys \<le> length xs" "ys \<noteq> []" using False by (simp_all add: ys_def length_dropWhile_le del: dropWhile_eq_Nil_conv)
    have split: "length ?u + length ?r = length ys" by (metis length_append takeWhile_dropWhile_id)
    have u: "?u \<noteq> []" using ys(2) hd_dropWhile [of "\<lambda>x. x \<in> D" xs] unfolding ys_def by (cases "dropWhile (\<lambda>x. x \<in> D) xs") auto
    have toks: "tokens D xs = ?u # tokens D (tl ?r)" using tokens_first [OF ys_def [symmetric] ys(2)] .
    show ?thesis
    proof (cases ?r)
      case Nil
      then show ?thesis using toks split ys by (simp add: room_def del: dropWhile_eq_Nil_conv)
    next
      case (Cons z zs)
      then have "length zs < length xs" using split ys by simp
      from less [OF this] show ?thesis using toks split ys Cons by (simp add: room_def)
    qed
  qed
qed

text \<open>How much of the stack the arguments take.\<close>

definition arg_space :: "byte list list \<Rightarrow> nat" where
  "arg_space ts = room ts + 7 + 8 * (length ts + 2)"

text \<open>What the program sees: \<open>argc\<close> and \<open>argv\<close> in the argument registers, \<open>argv [argc]\<close> null, an aligned stack
  with a null return address.\<close>

definition sees_arguments :: "mem \<Rightarrow> user_frame \<Rightarrow> byte list list \<Rightarrow> bool" where
  "sees_arguments m f ts \<longleftrightarrow> uf_rdi f = length ts \<and> uf_rsp f mod 8 = 0 \<and> ld64 m (uf_rsp f) = Some 0 \<and>
     (\<forall>i < length ts. \<exists>q. ld64 m (uf_rsi f + 8 * i) = Some q \<and> cstr m q (ts ! i)) \<and>
     ld64 m (uf_rsi f + 8 * length ts) = Some 0"

lemma push_arguments_ok:
  assumes args: "list_all2 (cstr m) argv ts" and stack: "mapped_range m lo (stk - lo)" "lo + arg_space ts \<le> stk" "lo \<noteq> NULL" "stk \<le> 2 ^ 64"
    and o: "\<And>a t. (a, t) \<in> set (zip argv ts) \<Longrightarrow> {a..a + length t} \<inter> {lo..<stk} = {}"
  shows "\<exists>f m'. push_arguments m stk argv = Some (f, m') \<and> sees_arguments m' f ts \<and> lo \<le> uf_rsp f \<and>
    same_except m m' {uf_rsp f..<stk}"
proof -
  let ?n = "length ts"
  define r0 where "r0 = stk - room ts"
  define r1 where "r1 = r0 - r0 mod 8"
  have sp: "lo + room ts + 7 + 8 * (?n + 2) \<le> stk" using stack(2) by (simp add: arg_space_def)
  have r0: "lo + 7 + 8 * (?n + 2) \<le> r0" "r0 \<le> stk" using sp by (auto simp: r0_def)
  have r1: "lo + 8 * (?n + 2) \<le> r1" "r1 \<le> r0" "r1 mod 8 = 0"
    using r0 mod_less_divisor [of 8 r0] by (simp_all add: r1_def minus_mod_eq_mult_div)
  have "lo + room ts \<le> stk" using sp by simp
  from push_strings_ok [OF args stack(1) this stack(3) o]
  obtain arr m1 where m1: "push_strings m stk argv = Some (arr, r0, m1)" "length arr = ?n"
      "list_all2 (\<lambda>a t. cstr m1 a t \<and> r0 \<le> a \<and> a + length t < stk) arr ts" "same_except m m1 {r0..<stk}"
    unfolding r0_def by blast
  have rng: "mapped_range m x n" if "lo \<le> x" "x + n \<le> stk" for x n
    using mapped_range_sub [OF stack(1) that(1)] that(2) by simp
  have rng1: "mapped_range m1 lo (r0 - lo)" using rng [of lo "r0 - lo"] r0 mapped_range_same [OF m1(4)] by simp
  obtain m2 where m2: "align_loop m1 r0 = Some (r1, m2)" "same_except m1 m2 {r1..<r0}"
  proof -
    have "lo + r0 mod 8 \<le> r0" using r0 mod_less_divisor [of 8 r0] by linarith
    from align_loop_ok [OF rng1 this stack(3)] show ?thesis using that unfolding r1_def by blast
  qed
  note same2 = same_except_trans [OF m1(4) m2(2)]
  have "mapped_range m2 (r1 - 8) 8" using rng [of "r1 - 8" 8] r1 r0 mapped_range_same [OF same2] by simp
  from memset_ok [OF this, of 0] obtain m3 where m3: "memset m2 (r1 - 8) 0 8 = Some (r1 - 8, m3)"
      "block m3 (r1 - 8) (replicate 8 0)" "same_except m2 m3 {r1 - 8..<r1}" using r1 by auto
  note same3 = same_except_trans [OF same2 m3(3)]
  let ?r3 = "r1 - 8 - 8 * ?n"
  have rng3: "mapped_range m3 lo (r1 - 8 - lo)" using rng [of lo "r1 - 8 - lo"] r1 r0 mapped_range_same [OF same3] by simp
  have "lo + 8 * length arr \<le> r1 - 8" using r1(1) unfolding m1(2) by arith
  from push_pointers_ok [OF rng3 this stack(3)] obtain m4 where m4: "push_pointers m3 (r1 - 8) arr = Some (?r3, m4)"
      "block m4 ?r3 (concat (map (le_bytes 8) arr))" "same_except m3 m4 {?r3..<r1 - 8}" unfolding m1(2) by blast
  note same4 = same_except_trans [OF same3 m4(3)]
  have "mapped_range m4 (?r3 - 8) 8" using rng [of "?r3 - 8" 8] r1 r0 mapped_range_same [OF same4] by simp
  from memset_ok [OF this, of 0] obtain m5 where m5: "memset m4 (?r3 - 8) 0 8 = Some (?r3 - 8, m5)"
      "block m5 (?r3 - 8) (replicate 8 0)" "same_except m4 m5 {?r3 - 8..<?r3}" using r1 by auto
  let ?f = "\<lparr>uf_rsp = ?r3 - 8, uf_rdi = length argv, uf_rsi = ?r3 - 8 + 8\<rparr>"
  have rsi: "?r3 - 8 + 8 = ?r3" "?r3 + 8 * ?n = r1 - 8" using r1 by auto
  have run: "push_arguments m stk argv = Some (?f, m5)" using m1(1) m2(1) m3(1) m4(1) m5(1) by (simp add: push_arguments_def Let_def)
  have zero: "replicate 8 0 = le_bytes 8 0" by (rule le_bytes_zero [symmetric])
  have late: "same_except m1 m5 {?r3 - 8..<r0}"
    using same_except_trans [OF same_except_trans [OF same_except_trans [OF m2(2) m3(3)] m4(3)] m5(3)]
    by (rule same_except_mono) (use r1 in auto)
  have "\<exists>q. ld64 m5 (?r3 + 8 * i) = Some q \<and> cstr m5 q (ts ! i)" if i: "i < ?n" for i
  proof -
    have a: "cstr m1 (arr ! i) (ts ! i)" "r0 \<le> arr ! i" "arr ! i + length (ts ! i) < stk"
      using m1(3) i by (auto simp: list_all2_conv_all_nth)
    have "block m4 (?r3 + 8 * i) (le_bytes 8 (arr ! i))" using block_concat [OF m4(2)] i m1(2) by simp
    then have "block m5 (?r3 + 8 * i) (le_bytes 8 (arr ! i))" using block_same [OF m5(3), of "?r3 + 8 * i"] by auto
    then have "ld64 m5 (?r3 + 8 * i) = Some (arr ! i)" using a(3) stack(4) by (intro ld64_le_bytes) auto
    moreover have "cstr m5 (arr ! i) (ts ! i)" using a(1) by (subst cstr_same [OF late]) (use a(2) in auto)
    ultimately show ?thesis by blast
  qed
  moreover have "ld64 m5 (r1 - 8) = Some 0"
  proof -
    have "block m4 (r1 - 8) (replicate 8 0)" using m3(2) block_same [OF m4(3), of "r1 - 8"] by auto
    then have "block m5 (r1 - 8) (replicate 8 0)" using block_same [OF m5(3), of "r1 - 8"] rsi(2) by auto
    then show ?thesis unfolding zero by (rule ld64_le_bytes) simp
  qed
  moreover have "ld64 m5 (?r3 - 8) = Some 0" using m5(2) unfolding zero by (rule ld64_le_bytes) simp
  moreover have "(?r3 - 8) mod 8 = 0"
  proof -
    obtain k where "r1 = 8 * k" using r1(3) by (auto simp: mod_eq_0_iff_dvd)
    then have "?r3 - 8 = 8 * (k - 2 - ?n)" by (simp add: diff_mult_distrib2)
    then show ?thesis by simp
  qed
  ultimately have "sees_arguments m5 ?f ts" using rsi list_all2_lengthD [OF args] by (simp add: sees_arguments_def)
  moreover have "same_except m m5 {?r3 - 8..<stk}"
    using same_except_trans [OF m1(4) late] by (rule same_except_mono) (use r1 r0 in auto)
  moreover have "lo \<le> ?r3 - 8" using r1(1) by simp
  ultimately show ?thesis using run by auto
qed


section \<open>Properties\<close>

text \<open>\<open>memmove\<close> copies a block onto any mapped block, overlapping or not, and changes nothing else.
  The pointer it returns is \<open>dst\<close> only when it copies downwards; when \<open>dst < src\<close> it is \<open>dst + size\<close>,
  although the comment on the function promises \<open>dst\<close>.\<close>

theorem memmove_correct:
  assumes "block m src xs" "mapped_range m dst (length xs)"
  shows "\<exists>m'. memmove m dst src (length xs) = Some (if dst < src then dst + length xs else dst, m') \<and>
    block m' dst xs \<and> same_except m m' {dst..<dst + length xs}"
  using assms by (rule memmove_ok)

definition demo_mem :: mem where
  "demo_mem = (\<lambda>a. if 10 \<le> a \<and> a < 18 then Some (of_nat a) else None)"

theorem memmove_correct_witness:
  "\<exists>m'. memmove demo_mem 12 10 4 = Some (12, m') \<and> block m' 12 [10, 11, 12, 13] \<and> m' 10 = Some 10 \<and> m' 17 = Some 17"
proof -
  have "block demo_mem 10 [10, 11, 12, 13]" by (simp add: demo_mem_def ld_def)
  moreover have "mapped_range demo_mem 12 (length [10, 11, 12, 13 :: byte])"
    by (auto simp: mapped_range_def demo_mem_def)
  ultimately obtain m' where m': "memmove demo_mem 12 10 (length [10, 11, 12, 13 :: byte]) = Some (12, m')"
      "block m' 12 [10, 11, 12, 13]" "same_except demo_mem m' {12..<12 + length [10, 11, 12, 13 :: byte]}"
    using memmove_correct [of demo_mem 10 "[10, 11, 12, 13]" 12] by fastforce
  have "m' 10 = demo_mem 10" "m' 17 = demo_mem 17" using m'(3) by (simp_all add: same_except_def)
  then show ?thesis using m'(1,2) by (simp add: demo_mem_def eval_nat_numeral)
qed

text \<open>\<open>strcmp\<close> returns 0 exactly for equal strings, and otherwise -1 or 1 according to the
  lexicographic order of the strings as unsigned characters; it ends on every pair of strings.\<close>

theorem strcmp_lexicographic:
  assumes "cstr m a xs" "cstr m b ys"
  shows "strcmp m a b = Some (if xs = ys then 0 else if ord_class.lexordp xs ys then - 1 else 1)"
  using strcmp_loop_ok [OF assms] assms by (simp add: strcmp_def cstr_nonnull)

theorem strcmp_lexicographic_witness:
  "strcmp [1 \<mapsto> 97, 2 \<mapsto> 200, 3 \<mapsto> 0, 4 \<mapsto> 97, 5 \<mapsto> 0] 4 1 = Some (- 1)"
  using strcmp_lexicographic [of "[1 \<mapsto> 97, 2 \<mapsto> 200, 3 \<mapsto> 0, 4 \<mapsto> 97, 5 \<mapsto> 0]" 4 "[97]" 1 "[97, 200]"]
  by (simp add: ld_def)

text \<open>\<open>strlcpy\<close> into a buffer of \<open>n\<close> bytes writes only inside it, leaves the first \<open>n - 1\<close> characters
  of the source there with a terminator, and returns the length of the source, so that a result not
  below \<open>n\<close> tells the caller of the truncation.\<close>

theorem strlcpy_bounded:
  assumes "cstr m src xs" "mapped_range m dst n" "dst \<noteq> NULL" "dst + n \<le> src \<or> src + length xs < dst"
  shows "\<exists>m'. strlcpy m dst src n = Some (length xs, m') \<and> same_except m m' {dst..<dst + n} \<and>
    (n > 0 \<longrightarrow> cstr m' dst (take (n - 1) xs))"
  using assms by (rule strlcpy_ok)

theorem strlcpy_bounded_witness:
  "\<exists>m'. strlcpy [1 \<mapsto> 97, 2 \<mapsto> 98, 3 \<mapsto> 0, 4 \<mapsto> 1, 5 \<mapsto> 1] 4 1 2 = Some (2, m') \<and> cstr m' 4 [97]"
proof -
  let ?m = "[1 \<mapsto> 97, 2 \<mapsto> 98, 3 \<mapsto> 0, 4 \<mapsto> 1, 5 \<mapsto> 1] :: mem"
  have "cstr ?m 1 [97, 98]" by (simp add: ld_def)
  moreover have "mapped_range ?m 4 2"
  proof -
    have "{4..<4 + 2} = {4, 5 :: nat}" by auto
    then show ?thesis unfolding mapped_range_def by auto
  qed
  ultimately show ?thesis using strlcpy_bounded [of ?m 1 "[97, 98]" 4 2] by auto
qed



definition demo_cmd :: mem where
  "demo_cmd = (\<lambda>a. if 5000 \<le> a \<and> a < 9096 then Some 1
     else [10 \<mapsto> 101, 11 \<mapsto> 32, 12 \<mapsto> 32, 13 \<mapsto> 120, 14 \<mapsto> 0, 20 \<mapsto> 32, 21 \<mapsto> 0] a)"


end
