(* ===== verification/Stdlib.thy ===== *)
theory Stdlib
  imports String_Lib C_Integers "HOL-Library.Multiset"
begin

text \<open>
  \<open>lib/stdlib.c\<close>: the heap sort behind \<open>qsort\<close>, binary search, and \<open>atoi\<close>.  An array is the list of its
  bytes, an element a run of \<open>size\<close> of them; access outside the array is a failure.  The comparison
  function is a parameter: it is handed the bytes of two elements.
\<close>

section \<open>Heap sort\<close>

type_synonym comparison = "byte list \<Rightarrow> byte list \<Rightarrow> int"

definition aget :: "byte list \<Rightarrow> nat \<Rightarrow> byte option" where
  "aget a i = (if i < length a then Some (a ! i) else None)"

definition aset :: "byte list \<Rightarrow> nat \<Rightarrow> byte \<Rightarrow> byte list option" where
  "aset a i v = (if i < length a then Some (a[i := v]) else None)"

text \<open>The byte loop of \<open>do_swap\<close>, with \<open>n\<close> of the \<open>size\<close> bytes left; \<open>a\<close> and \<open>b\<close> are the offsets of the next
  bytes of the two elements.\<close>

fun swap_loop :: "byte list \<Rightarrow> nat \<Rightarrow> nat \<Rightarrow> nat \<Rightarrow> byte list option" where
  "swap_loop arr a b 0 = Some arr"
| "swap_loop arr a b (Suc n) = do {
     t \<leftarrow> aget arr a;
     u \<leftarrow> aget arr b;
     arr \<leftarrow> aset arr a u;
     arr \<leftarrow> aset arr b t;
     swap_loop arr (a + 1) (b + 1) n }"

definition do_swap :: "byte list \<Rightarrow> nat \<Rightarrow> nat \<Rightarrow> nat \<Rightarrow> byte list option" where
  "do_swap arr a_idx b_idx sz = swap_loop arr ((a_idx - 1) * sz) ((b_idx - 1) * sz) sz"

definition do_compare :: "byte list \<Rightarrow> nat \<Rightarrow> nat \<Rightarrow> nat \<Rightarrow> comparison \<Rightarrow> int" where
  "do_compare arr a_idx b_idx sz cmp =
     cmp (take sz (drop ((a_idx - 1) * sz) arr)) (take sz (drop ((b_idx - 1) * sz) arr))"

text \<open>The index of the largest among element \<open>i\<close> and its children.\<close>

definition heapify_max :: "byte list \<Rightarrow> nat \<Rightarrow> nat \<Rightarrow> nat \<Rightarrow> comparison \<Rightarrow> nat" where
  "heapify_max arr i cnt sz cmp =
     (let left = 2 * i; right = 2 * i + 1;
          max = (if left \<le> cnt \<and> do_compare arr left i sz cmp > 0 then left else i)
      in if right \<le> cnt \<and> do_compare arr right max sz cmp > 0 then right else max)"

lemma heapify_max_cases:
  "heapify_max arr i cnt sz cmp = i \<or> i < heapify_max arr i cnt sz cmp \<and> heapify_max arr i cnt sz cmp \<le> cnt \<and>
    (heapify_max arr i cnt sz cmp = 2 * i \<or> heapify_max arr i cnt sz cmp = 2 * i + 1)"
  by (auto simp: heapify_max_def Let_def)

function heapify :: "byte list \<Rightarrow> nat \<Rightarrow> nat \<Rightarrow> nat \<Rightarrow> comparison \<Rightarrow> byte list option" where
  "heapify arr i cnt sz cmp =
     (let max = heapify_max arr i cnt sz cmp
      in if max = i then Some arr
         else do { arr \<leftarrow> do_swap arr i max sz; heapify arr max cnt sz cmp })"
  by pat_completeness auto
termination
proof (relation "measure (\<lambda>(arr, i, cnt, sz, cmp). cnt - i)")
  fix arr arr' i cnt sz cmp max
  assume "max = heapify_max arr i cnt sz cmp" "max \<noteq> i"
  then show "((arr', max, cnt, sz, cmp), arr, i, cnt, sz, cmp) \<in> measure (\<lambda>(arr, i, cnt, sz, cmp). cnt - i)"
    using heapify_max_cases [of arr i cnt sz cmp] by auto
qed simp

declare heapify.simps [simp del]

fun build_loop :: "byte list \<Rightarrow> nat \<Rightarrow> nat \<Rightarrow> nat \<Rightarrow> comparison \<Rightarrow> byte list option" where
  "build_loop arr 0 cnt sz cmp = Some arr"
| "build_loop arr (Suc i) cnt sz cmp = do {
     arr \<leftarrow> heapify arr (Suc i) cnt sz cmp;
     build_loop arr i cnt sz cmp }"

fun sort_loop :: "byte list \<Rightarrow> nat \<Rightarrow> nat \<Rightarrow> comparison \<Rightarrow> byte list option" where
  "sort_loop arr 0 sz cmp = Some arr"
| "sort_loop arr (Suc i) sz cmp =
     (if i = 0 then Some arr
      else do {
        arr \<leftarrow> do_swap arr 1 (Suc i) sz;
        arr \<leftarrow> heapify arr 1 i sz cmp;
        sort_loop arr i sz cmp })"

definition sort_array :: "byte list \<Rightarrow> nat \<Rightarrow> nat \<Rightarrow> comparison \<Rightarrow> byte list option" where
  "sort_array arr cnt sz cmp = do {
     ASSERT (sz > 0);
     arr \<leftarrow> build_loop arr (cnt div 2) cnt sz cmp;
     sort_loop arr cnt sz cmp }"

text \<open>\<open>qsort\<close> passes its comparison through \<open>compare_thunk\<close>, which only calls it.\<close>

definition compare_thunk :: "comparison \<Rightarrow> comparison" where
  "compare_thunk cmp a b = cmp a b"

definition qsort :: "byte list \<Rightarrow> nat \<Rightarrow> nat \<Rightarrow> comparison \<Rightarrow> byte list option" where
  "qsort arr cnt sz cmp = sort_array arr cnt sz (compare_thunk cmp)"

section \<open>Binary search\<close>

text \<open>\<open>lo\<close> and \<open>hi\<close> are the offsets of \<open>first\<close> and \<open>last\<close> in the array.  The result is the offset of a match,
  or \<open>None\<close> for the null pointer.\<close>

partial_function (option) search_loop :: "byte list \<Rightarrow> byte list \<Rightarrow> nat \<Rightarrow> nat \<Rightarrow> nat \<Rightarrow> comparison \<Rightarrow> nat option option" where
  "search_loop key arr lo hi sz cmp =
     (if lo < hi then
        (let range = (hi - lo) div sz;
             middle = lo + (range div 2) * sz;
             c = cmp key (take sz (drop middle arr))
         in if c < 0 then search_loop key arr lo middle sz cmp
            else if c > 0 then search_loop key arr (middle + sz) hi sz cmp
            else Some (Some middle))
      else Some None)"

definition binary_search :: "byte list \<Rightarrow> byte list \<Rightarrow> nat \<Rightarrow> nat \<Rightarrow> comparison \<Rightarrow> nat option option" where
  "binary_search key arr cnt sz cmp = search_loop key arr 0 (sz * cnt) sz cmp"

definition bsearch :: "byte list \<Rightarrow> byte list \<Rightarrow> nat \<Rightarrow> nat \<Rightarrow> comparison \<Rightarrow> nat option option" where
  "bsearch key arr cnt sz cmp = binary_search key arr cnt sz (compare_thunk cmp)"

section \<open>\<open>atoi\<close>\<close>

definition isdigit :: "byte \<Rightarrow> bool" where
  "isdigit c \<longleftrightarrow> 48 \<le> c \<and> c \<le> 57"

definition isspace :: "byte \<Rightarrow> bool" where
  "isspace c \<longleftrightarrow> c \<in> {32, 12, 10, 13, 9, 11}"

partial_function (option) skip_space :: "mem \<Rightarrow> ptr \<Rightarrow> ptr option" where
  "skip_space m s = do { c \<leftarrow> ld m s; if isspace c then skip_space m (s + 1) else Some s }"

partial_function (option) digits_loop :: "mem \<Rightarrow> ptr \<Rightarrow> int \<Rightarrow> int option" where
  "digits_loop m s v = do {
     c \<leftarrow> ld m s;
     if isdigit c then digits_loop m (s + 1) (int32 (int32 (v * 10) - (uint c - 48))) else Some v }"

definition atoi :: "mem \<Rightarrow> ptr \<Rightarrow> int option" where
  "atoi m s = do {
     ASSERT (s \<noteq> NULL);
     s \<leftarrow> skip_space m s;
     c \<leftarrow> ld m s;
     let (negative, s) = (if c = 43 then (False, s + 1) else if c = 45 then (True, s + 1) else (False, s));
     v \<leftarrow> digits_loop m s 0;
     Some (if negative then v else int32 (- v)) }"

end
