(* ===== verification/Stdlib_Correct.thy ===== *)
theory Stdlib_Correct
  imports Stdlib
begin

text \<open>
  Heap sort on the bytes of an array sorts its elements; binary search finds an element exactly when
  there is one; \<open>atoi\<close> reads decimal numbers.
\<close>

section \<open>Arrays of elements\<close>

text \<open>\<open>elements sz es\<close>: every element has \<open>sz\<close> bytes.  The array is then \<open>concat es\<close>.\<close>

definition elements :: "nat \<Rightarrow> byte list list \<Rightarrow> bool" where
  "elements sz es \<longleftrightarrow> (\<forall>e \<in> set es. length e = sz)"

lemma elements_update: "elements sz es \<Longrightarrow> length e = sz \<Longrightarrow> elements sz (es[k := e])"
  using set_update_subset_insert [of es k e] by (auto simp: elements_def)

lemma length_concat_elements: "elements sz es \<Longrightarrow> length (concat es) = length es * sz"
  by (induction es) (auto simp: elements_def)

lemma concat_elem:
  "elements sz es \<Longrightarrow> k < length es \<Longrightarrow> take sz (drop (k * sz) (concat es)) = es ! k"
  by (induction es arbitrary: k) (auto simp: elements_def nth_Cons split: nat.splits)

lemma concat_nth:
  assumes "elements sz es" "k < length es" "i < sz"
  shows "k * sz + i < length (concat es)" "concat es ! (k * sz + i) = es ! k ! i"
proof -
  have "k * sz + i < Suc k * sz" using assms(3) by simp
  also have "\<dots> \<le> length es * sz" using assms(2) by (intro mult_le_mono1) simp
  finally show l: "k * sz + i < length (concat es)" using assms(1) by (simp add: length_concat_elements)
  have "concat es ! (k * sz + i) = take sz (drop (k * sz) (concat es)) ! i" using assms(3) l by simp
  then show "concat es ! (k * sz + i) = es ! k ! i" using concat_elem [OF assms(1,2)] by simp
qed

lemma concat_update:
  "elements sz es \<Longrightarrow> k < length es \<Longrightarrow> i < sz \<Longrightarrow> (concat es)[k * sz + i := v] = concat (es[k := (es ! k)[i := v]])"
proof (induction es arbitrary: k)
  case (Cons e es)
  then show ?case
    by (cases k) (auto simp: elements_def list_update_append add.assoc)
qed simp

lemma swap_loop_ok:
  assumes "elements sz es" "a < length es" "b < length es" "a \<noteq> b" "n \<le> sz"
  shows "swap_loop (concat es) (a * sz + (sz - n)) (b * sz + (sz - n)) n =
    Some (concat (es[a := take (sz - n) (es ! a) @ drop (sz - n) (es ! b), b := take (sz - n) (es ! b) @ drop (sz - n) (es ! a)]))"
  using assms
proof (induction n arbitrary: es)
  case 0
  have "length (es ! a) = sz" "length (es ! b) = sz" using 0 by (auto simp: elements_def)
  then show ?case by simp
next
  case (Suc n)
  define i where "i = sz - Suc n"
  have i: "i < sz" "sz - n = Suc i" using Suc.prems(5) by (auto simp: i_def)
  have len: "length (es ! a) = sz" "length (es ! b) = sz" using Suc.prems by (auto simp: elements_def)
  define es1 where "es1 = es[a := (es ! a)[i := es ! b ! i]]"
  define es2 where "es2 = es1[b := (es1 ! b)[i := es ! a ! i]]"
  have el1: "elements sz es1" unfolding es1_def using Suc.prems(1) len(1) by (simp add: elements_update)
  have b1: "es1 ! b = es ! b" using Suc.prems(4) by (simp add: es1_def)
  have el2: "elements sz es2" unfolding es2_def b1 using el1 len(2) by (simp add: elements_update)
  have g: "aget (concat es) (a * sz + i) = Some (es ! a ! i)" "aget (concat es) (b * sz + i) = Some (es ! b ! i)"
    using concat_nth [OF Suc.prems(1) _ i(1)] Suc.prems(2,3) by (simp_all add: aget_def)
  have s1: "aset (concat es) (a * sz + i) (es ! b ! i) = Some (concat es1)"
    using concat_nth(1) [OF Suc.prems(1,2) i(1)] concat_update [OF Suc.prems(1,2) i(1)] by (simp add: aset_def es1_def)
  have s2: "aset (concat es1) (b * sz + i) (es ! a ! i) = Some (concat es2)"
    using concat_nth(1) [OF el1 _ i(1), of b] concat_update [OF el1 _ i(1), of b] Suc.prems(3) by (simp add: aset_def es1_def es2_def)
  have v: "es2 ! a = (es ! a)[i := es ! b ! i]" "es2 ! b = (es ! b)[i := es ! a ! i]"
    using Suc.prems(2-4) by (simp_all add: es2_def es1_def)
  have step: "swap_loop (concat es) (a * sz + i) (b * sz + i) (Suc n) = swap_loop (concat es2) (a * sz + (sz - n)) (b * sz + (sz - n)) n"
    using g s1 s2 i(2) by simp
  have tk: "take (Suc i) (x[i := y]) = take i x @ [y]" "drop (Suc i) (x[i := y]) = drop (Suc i) x" if "i < length x" for x :: "byte list" and y
    using that by (simp_all add: take_Suc_conv_app_nth)
  have dr: "es ! a ! i # drop (Suc i) (es ! a) = drop i (es ! a)" "es ! b ! i # drop (Suc i) (es ! b) = drop i (es ! b)"
    using len i(1) by (simp_all add: Cons_nth_drop_Suc)
  have "es2[a := x, b := y] = es[a := x, b := y]" for x y
    unfolding es2_def es1_def using Suc.prems(4) by (simp add: list_update_swap [of a b])
  then show ?case
    using step Suc.IH [OF el2] Suc.prems(2-5) len i v tk dr by (simp add: es2_def es1_def i_def [symmetric])
qed

definition swapped :: "'a list \<Rightarrow> nat \<Rightarrow> nat \<Rightarrow> 'a list" where
  "swapped es a b = es[a := es ! b, b := es ! a]"

lemma swapped_simps [simp]: "length (swapped es a b) = length es"
  by (simp add: swapped_def)

lemma swapped_nth: "a < length es \<Longrightarrow> b < length es \<Longrightarrow>
    swapped es a b ! k = (if k = a then es ! b else if k = b then es ! a else es ! k)"
  by (auto simp: swapped_def nth_list_update)

lemma mset_swapped: "a < length es \<Longrightarrow> b < length es \<Longrightarrow> mset (swapped es a b) = mset es"
  by (simp add: swapped_def mset_swap)

lemma elements_mset: "mset es' = mset es \<Longrightarrow> elements sz es' = elements sz es"
  by (metis elements_def set_mset_mset)

lemma do_swap_ok:
  assumes "elements sz es" "1 \<le> a" "a \<le> length es" "1 \<le> b" "b \<le> length es" "a \<noteq> b"
  shows "do_swap (concat es) a b sz = Some (concat (swapped es (a - 1) (b - 1)))"
  using swap_loop_ok [OF assms(1), of "a - 1" "b - 1" sz] assms by (simp add: do_swap_def swapped_def)

lemma do_compare_ok:
  "elements sz es \<Longrightarrow> 1 \<le> a \<Longrightarrow> a \<le> length es \<Longrightarrow> 1 \<le> b \<Longrightarrow> b \<le> length es \<Longrightarrow>
   do_compare (concat es) a b sz cmp = cmp (es ! (a - 1)) (es ! (b - 1))"
  by (simp add: do_compare_def concat_elem)

section \<open>Heaps\<close>

text \<open>What the comment on \<open>sort\<close> asks of the comparison function, on the elements it is used on.\<close>

definition strcmp_type :: "byte list set \<Rightarrow> comparison \<Rightarrow> bool" where
  "strcmp_type A cmp \<longleftrightarrow> (\<forall>x \<in> A. \<forall>y \<in> A. cmp x y > 0 \<longleftrightarrow> cmp y x < 0) \<and>
     (\<forall>x \<in> A. \<forall>y \<in> A. \<forall>z \<in> A. cmp x y \<le> 0 \<longrightarrow> cmp y z \<le> 0 \<longrightarrow> cmp x z \<le> 0)"

lemma strcmp_type_total: "strcmp_type A cmp \<Longrightarrow> x \<in> A \<Longrightarrow> y \<in> A \<Longrightarrow> cmp x y > 0 \<Longrightarrow> cmp y x \<le> 0"
proof -
  assume "strcmp_type A cmp" "x \<in> A" "y \<in> A" "cmp x y > 0"
  then have "cmp y x < 0" unfolding strcmp_type_def by blast
  then show ?thesis by simp
qed

lemma strcmp_type_refl: "strcmp_type A cmp \<Longrightarrow> x \<in> A \<Longrightarrow> cmp x x \<le> 0"
  using strcmp_type_total [of A cmp x x] by (cases "cmp x x > 0") simp_all

lemma strcmp_type_trans:
  "strcmp_type A cmp \<Longrightarrow> x \<in> A \<Longrightarrow> y \<in> A \<Longrightarrow> z \<in> A \<Longrightarrow> cmp x y \<le> 0 \<Longrightarrow> cmp y z \<le> 0 \<Longrightarrow> cmp x z \<le> 0"
  unfolding strcmp_type_def by blast

text \<open>\<open>at es j\<close> is element number \<open>j\<close>, counted from 1.  \<open>heap_at\<close>: element \<open>j\<close> does not exceed its parent.\<close>

definition at :: "'a list \<Rightarrow> nat \<Rightarrow> 'a" where
  "at es j = es ! (j - 1)"

definition heap_from :: "comparison \<Rightarrow> byte list list \<Rightarrow> nat \<Rightarrow> nat \<Rightarrow> bool" where
  "heap_from cmp es lo cnt \<longleftrightarrow> (\<forall>j. 2 \<le> j \<longrightarrow> j \<le> cnt \<longrightarrow> lo \<le> j div 2 \<longrightarrow> cmp (at es j) (at es (j div 2)) \<le> 0)"

text \<open>A heap but for element \<open>i\<close>, whose children are still below its parent.\<close>

definition heap_except :: "comparison \<Rightarrow> byte list list \<Rightarrow> nat \<Rightarrow> nat \<Rightarrow> nat \<Rightarrow> bool" where
  "heap_except cmp es lo cnt i \<longleftrightarrow>
     (\<forall>j. 2 \<le> j \<longrightarrow> j \<le> cnt \<longrightarrow> lo \<le> j div 2 \<longrightarrow> j div 2 \<noteq> i \<longrightarrow> cmp (at es j) (at es (j div 2)) \<le> 0) \<and>
     (\<forall>j. 2 \<le> j \<longrightarrow> j \<le> cnt \<longrightarrow> j div 2 = i \<longrightarrow> lo \<le> i div 2 \<longrightarrow> cmp (at es j) (at es (i div 2)) \<le> 0)"

lemma at_mem: "1 \<le> j \<Longrightarrow> j \<le> length es \<Longrightarrow> at es j \<in> set es"
  by (simp add: at_def)

lemma at_swapped: "1 \<le> a \<Longrightarrow> a \<le> length es \<Longrightarrow> 1 \<le> b \<Longrightarrow> b \<le> length es \<Longrightarrow> 1 \<le> j \<Longrightarrow>
    at (swapped es (a - 1) (b - 1)) j = (if j = a then at es b else if j = b then at es a else at es j)"
  by (auto simp: at_def swapped_nth)

lemma heapify_max_ok:
  assumes "elements sz es" "cnt \<le> length es" "1 \<le> i" "i \<le> cnt" "strcmp_type (set es) cmp"
  defines "k \<equiv> heapify_max (concat es) i cnt sz cmp"
  shows "cmp (at es i) (at es k) \<le> 0" "\<And>j. 2 \<le> j \<Longrightarrow> j \<le> cnt \<Longrightarrow> j div 2 = i \<Longrightarrow> cmp (at es j) (at es k) \<le> 0"
proof -
  have dc: "do_compare (concat es) a b sz cmp = cmp (at es a) (at es b)" if "1 \<le> a" "a \<le> cnt" "1 \<le> b" "b \<le> cnt" for a b
    using do_compare_ok [OF assms(1)] that assms(2) by (simp add: at_def)
  have mem: "at es a \<in> set es" if "1 \<le> a" "a \<le> cnt" for a using at_mem that assms(2) by (metis order.trans)
  note refl = strcmp_type_refl [OF assms(5)] and tot = strcmp_type_total [OF assms(5)] and tr = strcmp_type_trans [OF assms(5)]
  let ?l = "2 * i" and ?r = "2 * i + 1"
  define mx where "mx = (if ?l \<le> cnt \<and> do_compare (concat es) ?l i sz cmp > 0 then ?l else i)"
  have k: "k = (if ?r \<le> cnt \<and> do_compare (concat es) ?r mx sz cmp > 0 then ?r else mx)"
    by (simp add: k_def heapify_max_def mx_def Let_def)
  have mx: "1 \<le> mx" "mx \<le> cnt" using assms(3,4) by (auto simp: mx_def)
  have m1: "cmp (at es i) (at es mx) \<le> 0" "?l \<le> cnt \<Longrightarrow> cmp (at es ?l) (at es mx) \<le> 0"
    using assms(3,4) dc mem refl tot by (auto simp: mx_def not_less)
  have k1: "1 \<le> k" "k \<le> cnt" using mx by (auto simp: k)
  have m2: "cmp (at es mx) (at es k) \<le> 0" "?r \<le> cnt \<Longrightarrow> cmp (at es ?r) (at es k) \<le> 0"
    using mx assms(3) dc mem refl tot by (auto simp: k not_less)
  show "cmp (at es i) (at es k) \<le> 0" by (rule tr [OF _ _ _ m1(1) m2(1)]) (use mem mx k1 assms(3,4) in auto)
  show "cmp (at es j) (at es k) \<le> 0" if j: "2 \<le> j" "j \<le> cnt" "j div 2 = i" for j
  proof (cases "j = ?r")
    case True
    then show ?thesis using m2(2) j by simp
  next
    case False
    then have "j = ?l" using j(3) by linarith
    then show ?thesis using tr [OF _ _ _ m1(2) m2(1)] mem mx k1 j by auto
  qed
qed

lemma take_swapped: "a < n \<Longrightarrow> b < n \<Longrightarrow> n \<le> length es \<Longrightarrow> take n (swapped es a b) = swapped (take n es) a b"
  by (simp add: swapped_def take_update_swap)

lemma drop_swapped: "a < n \<Longrightarrow> b < n \<Longrightarrow> drop n (swapped es a b) = drop n es"
  by (simp add: swapped_def)

text \<open>One exchange moves the exception down.\<close>

lemma heap_except_step:
  assumes "elements sz es" "cnt \<le> length es" "1 \<le> lo" "lo \<le> i" "i \<le> cnt" "strcmp_type (set es) cmp"
    and he: "heap_except cmp es lo cnt i" and k: "k = heapify_max (concat es) i cnt sz cmp" "k \<noteq> i"
  shows "heap_except cmp (swapped es (i - 1) (k - 1)) lo cnt k"
proof -
  have kb: "i < k" "k \<le> cnt" "k div 2 = i" using heapify_max_cases [of "concat es" i cnt sz cmp] k by auto
  note mx = heapify_max_ok [OF assms(1,2) _ assms(5,6), folded k(1)]
  define es1 where "es1 = swapped es (i - 1) (k - 1)"
  have sw: "at es1 j = (if j = i then at es k else if j = k then at es i else at es j)" if "1 \<le> j" for j
    unfolding es1_def using at_swapped [of i es k j] that assms(2-5) kb by simp
  have H: "cmp (at es j) (at es (j div 2)) \<le> 0" if "2 \<le> j" "j \<le> cnt" "lo \<le> j div 2" "j div 2 \<noteq> i" for j
    using he that unfolding heap_except_def by blast
  have G: "cmp (at es j) (at es (i div 2)) \<le> 0" if "2 \<le> j" "j \<le> cnt" "j div 2 = i" "lo \<le> i div 2" for j
    using he that unfolding heap_except_def by blast
  have "cmp (at es1 j) (at es1 (j div 2)) \<le> 0" if j: "2 \<le> j" "j \<le> cnt" "lo \<le> j div 2" "j div 2 \<noteq> k" for j
  proof -
    have p: "1 \<le> j div 2" "j div 2 \<noteq> j" "1 \<le> j" using j by auto
    consider "j div 2 = i" | "j div 2 \<noteq> i" "j = i" | "j div 2 \<noteq> i" "j \<noteq> i" by blast
    then show ?thesis
    proof cases
      case 1
      then show ?thesis using mx(2) [of j] mx(1) j p kb assms(3,4) by (simp add: sw)
    next
      case 2
      then show ?thesis using G [of k] j p kb assms(3,4) by (simp add: sw)
    next
      case 3
      then have "j \<noteq> k" using kb(3) by auto
      then show ?thesis using H [OF j(1-3) 3(1)] 3 j p by (simp add: sw)
    qed
  qed
  moreover have "cmp (at es1 j) (at es1 (k div 2)) \<le> 0" if j: "2 \<le> j" "j \<le> cnt" "j div 2 = k" for j
  proof -
    have "j \<noteq> i" "j \<noteq> k" "1 \<le> j" "1 \<le> i" using j kb assms(3,4) by auto
    moreover have "cmp (at es j) (at es k) \<le> 0" using H [OF j(1,2)] j(3) kb assms(3,4) by simp
    ultimately show ?thesis using kb(3) by (simp add: sw)
  qed
  ultimately show ?thesis unfolding heap_except_def es1_def by blast
qed

lemma heapify_ok:
  assumes "elements sz es" "cnt \<le> length es" "1 \<le> lo" "lo \<le> i" "i \<le> cnt" "strcmp_type (set es) cmp" "heap_except cmp es lo cnt i"
  shows "\<exists>es'. heapify (concat es) i cnt sz cmp = Some (concat es') \<and> mset es' = mset es \<and>
    mset (take cnt es') = mset (take cnt es) \<and> drop cnt es' = drop cnt es \<and> heap_from cmp es' lo cnt"
  using assms(1,2,4-7)
proof (induction "cnt - i" arbitrary: es i rule: less_induct)
  case less
  define k where "k = heapify_max (concat es) i cnt sz cmp"
  note kc = heapify_max_cases [of "concat es" i cnt sz cmp, folded k_def]
  have i1: "1 \<le> i" using assms(3) less.prems(3) by simp
  show ?case
  proof (cases "k = i")
    case True
    have "cmp (at es j) (at es i) \<le> 0" if "2 \<le> j" "j \<le> cnt" "j div 2 = i" for j
      using heapify_max_ok(2) [OF less.prems(1,2) i1 less.prems(4,5)] that True unfolding k_def by metis
    then have "heap_from cmp es lo cnt" using less.prems(6) unfolding heap_from_def heap_except_def by metis
    then show ?thesis using True by (auto simp: heapify.simps Let_def k_def)
  next
    case False
    then have kb: "i < k" "k \<le> cnt" using kc by auto
    define es1 where "es1 = swapped es (i - 1) (k - 1)"
    have b: "i - 1 < cnt" "k - 1 < cnt" "i - 1 < length es" "k - 1 < length es" using kb i1 less.prems(2) by auto
    have sw: "do_swap (concat es) i k sz = Some (concat es1)"
      unfolding es1_def using do_swap_ok [OF less.prems(1), of i k] kb i1 less.prems(2) by simp
    have ms: "mset es1 = mset es" using b by (simp add: es1_def mset_swapped)
    have el: "elements sz es1" "set es1 = set es" using elements_mset [OF ms] less.prems(1) mset_eq_setD [OF ms] by auto
    have he: "heap_except cmp es1 lo cnt k"
      unfolding es1_def using heap_except_step [OF less.prems(1,2) assms(3) less.prems(3-6) k_def False] .
    obtain es' where es': "heapify (concat es1) k cnt sz cmp = Some (concat es')" "mset es' = mset es1"
        "mset (take cnt es') = mset (take cnt es1)" "drop cnt es' = drop cnt es1" "heap_from cmp es' lo cnt"
    proof -
      have "cnt - k < cnt - i" "cnt \<le> length es1" "lo \<le> k" "strcmp_type (set es1) cmp"
        using kb less.prems(2,3,5) mset_eq_length [OF ms] el(2) by auto
      from less.hyps [OF this(1) el(1) this(2,3) kb(2) this(4) he] show ?thesis using that by blast
    qed
    have "mset (take cnt es1) = mset (take cnt es)"
      using b less.prems(2) by (simp add: es1_def take_swapped mset_swapped)
    moreover have "drop cnt es1 = drop cnt es" using b by (simp add: es1_def drop_swapped)
    ultimately show ?thesis using es' ms sw False by (subst heapify.simps) (auto simp: Let_def k_def [symmetric])
  qed
qed

lemma build_loop_ok:
  "elements sz es \<Longrightarrow> i \<le> cnt \<Longrightarrow> cnt = length es \<Longrightarrow> strcmp_type (set es) cmp \<Longrightarrow> heap_from cmp es (Suc i) cnt \<Longrightarrow>
   \<exists>es'. build_loop (concat es) i cnt sz cmp = Some (concat es') \<and> mset es' = mset es \<and> heap_from cmp es' 1 cnt"
proof (induction i arbitrary: es)
  case 0
  then show ?case by auto
next
  case (Suc i)
  have he: "heap_except cmp es (Suc i) cnt (Suc i)"
    using Suc.prems(5) unfolding heap_from_def heap_except_def by (auto simp: Suc_le_eq)
  obtain es1 where es1: "heapify (concat es) (Suc i) cnt sz cmp = Some (concat es1)" "mset es1 = mset es"
      "heap_from cmp es1 (Suc i) cnt"
    using heapify_ok [OF Suc.prems(1) _ _ _ _ Suc.prems(4) he] Suc.prems(2,3) by auto
  have "elements sz es1" "set es1 = set es" "length es1 = length es"
    using elements_mset [OF es1(2)] Suc.prems(1) mset_eq_setD [OF es1(2)] mset_eq_length [OF es1(2)] by auto
  then show ?case using Suc.IH [of es1] es1 Suc.prems by auto
qed

text \<open>The root of a heap is its largest element.\<close>

lemma heap_root:
  assumes "heap_from cmp es 1 cnt" "strcmp_type (set es) cmp" "cnt \<le> length es"
  shows "1 \<le> j \<Longrightarrow> j \<le> cnt \<Longrightarrow> cmp (at es j) (at es 1) \<le> 0"
proof (induction j rule: less_induct)
  case (less j)
  have mem: "at es a \<in> set es" if "1 \<le> a" "a \<le> cnt" for a using at_mem that assms(3) by (metis order.trans)
  show ?case
  proof (cases "j = 1")
    case True
    then show ?thesis using strcmp_type_refl [OF assms(2) mem] less.prems by simp
  next
    case False
    then have j: "2 \<le> j" "1 \<le> j div 2" "j div 2 < j" "j div 2 \<le> cnt" using less.prems by auto
    have "cmp (at es j) (at es (j div 2)) \<le> 0" using assms(1) j less.prems unfolding heap_from_def by simp
    moreover have "cmp (at es (j div 2)) (at es 1) \<le> 0" using less.IH j by simp
    moreover have "at es j \<in> set es" "at es (j div 2) \<in> set es" "at es 1 \<in> set es" using mem j less.prems by simp_all
    ultimately show ?thesis using strcmp_type_trans [OF assms(2)] by blast
  qed
qed

text \<open>The second loop: the first \<open>i\<close> elements are a heap, none exceeds any of the others, and those are sorted.\<close>

definition sort_inv :: "comparison \<Rightarrow> byte list list \<Rightarrow> nat \<Rightarrow> bool" where
  "sort_inv cmp es i \<longleftrightarrow> heap_from cmp es 1 i \<and> sorted_wrt (\<lambda>x y. cmp x y \<le> 0) (drop i es) \<and>
     (\<forall>x \<in> set (take i es). \<forall>y \<in> set (drop i es). cmp x y \<le> 0)"

lemma nth_in_take: "n < k \<Longrightarrow> k \<le> length xs \<Longrightarrow> xs ! n \<in> set (take k xs)"
  by (auto simp: in_set_conv_nth)

lemma sort_inv_step:
  assumes inv: "sort_inv cmp es (Suc i)" and st: "strcmp_type (set es) cmp" and i: "1 \<le> i" "Suc i \<le> length es"
    and el: "elements sz es"
  shows "\<exists>es'. heapify (concat (swapped es 0 i)) 1 i sz cmp = Some (concat es') \<and> mset es' = mset es \<and> sort_inv cmp es' i"
proof -
  define es1 where "es1 = swapped es 0 i"
  have l: "0 < length es" "i < length es" using i by auto
  have ms: "mset es1 = mset es" unfolding es1_def using l by (rule mset_swapped)
  have set: "set es1 = set es" "elements sz es1" using mset_eq_setD [OF ms] elements_mset [OF ms] el by auto
  have H: "heap_from cmp es 1 (Suc i)" using inv by (simp add: sort_inv_def)
  have sw: "at es1 j = at es j" if "2 \<le> j" "j \<le> i" for j unfolding es1_def using at_swapped [of 1 es "Suc i" j] that i by auto
  have he: "heap_except cmp es1 1 i 1"
    using H unfolding heap_from_def heap_except_def by (auto simp: sw)
  have st1: "strcmp_type (set es1) cmp" "i \<le> length es1" using st set(1) l mset_eq_length [OF ms] by auto
  obtain es' where es': "heapify (concat es1) 1 i sz cmp = Some (concat es')" "mset es' = mset es1"
      "mset (take i es') = mset (take i es1)" "drop i es' = drop i es1" "heap_from cmp es' 1 i"
    using heapify_ok [OF set(2) st1(2) order_refl order_refl i(1) st1(1) he] by blast
  have d: "drop i es1 = at es 1 # drop (Suc i) es"
  proof -
    have "es1 ! i = at es 1" using l by (simp add: es1_def swapped_nth at_def)
    moreover have "drop (Suc i) es1 = drop (Suc i) es" by (simp add: es1_def swapped_def)
    ultimately show ?thesis using l by (metis Cons_nth_drop_Suc es1_def swapped_simps)
  qed
  have t: "set (take i es1) \<subseteq> set (take (Suc i) es)"
  proof
    fix x assume "x \<in> set (take i es1)"
    then obtain n where n: "n < i" "x = es1 ! n" using l by (auto simp: in_set_conv_nth es1_def)
    then show "x \<in> set (take (Suc i) es)" using l nth_in_take [of 0 "Suc i" es] nth_in_take [of n "Suc i" es] nth_in_take [of i "Suc i" es]
      unfolding es1_def by (auto simp: swapped_nth split: if_splits)
  qed
  have root: "cmp x (at es 1) \<le> 0" if x: "x \<in> set (take (Suc i) es)" for x
  proof -
    obtain n where "n < Suc i" "x = es ! n" using x i by (auto simp: in_set_conv_nth)
    then show ?thesis using heap_root [OF H st i(2), of "Suc n"] by (simp add: at_def)
  qed
  have r1: "at es 1 \<in> set (take (Suc i) es)" using i by (auto simp: at_def in_set_conv_nth intro: exI [of _ 0])
  have "sort_inv cmp es' i"
    unfolding sort_inv_def es'(4) d using inv es'(5) mset_eq_setD [OF es'(3)] t root r1 by (auto simp: sort_inv_def)
  then show ?thesis using es'(1,2) ms unfolding es1_def by auto
qed

lemma sort_loop_ok:
  "elements sz es \<Longrightarrow> i \<le> length es \<Longrightarrow> strcmp_type (set es) cmp \<Longrightarrow> sort_inv cmp es i \<Longrightarrow>
   \<exists>es'. sort_loop (concat es) i sz cmp = Some (concat es') \<and> mset es' = mset es \<and> sorted_wrt (\<lambda>x y. cmp x y \<le> 0) es'"
proof (induction i arbitrary: es)
  case 0
  then show ?case by (auto simp: sort_inv_def)
next
  case (Suc i)
  show ?case
  proof (cases "i = 0")
    case True
    have "sorted_wrt (\<lambda>x y. cmp x y \<le> 0) (take 1 es @ drop 1 es)"
      unfolding sorted_wrt_append using Suc.prems(4) True by (cases es) (auto simp: sort_inv_def)
    then show ?thesis using True by auto
  next
    case False
    obtain es1 where es1: "heapify (concat (swapped es 0 i)) 1 i sz cmp = Some (concat es1)" "mset es1 = mset es" "sort_inv cmp es1 i"
      using sort_inv_step [OF Suc.prems(4,3) _ _ Suc.prems(1)] False Suc.prems(2) by auto
    have sw: "do_swap (concat es) 1 (Suc i) sz = Some (concat (swapped es 0 i))"
      using do_swap_ok [OF Suc.prems(1), of 1 "Suc i"] False Suc.prems(2) by simp
    have "elements sz es1" "set es1 = set es" "length es1 = length es"
      using elements_mset [OF es1(2)] Suc.prems(1) mset_eq_setD [OF es1(2)] mset_eq_length [OF es1(2)] by auto
    then show ?thesis using Suc.IH [of es1] es1 sw False Suc.prems by auto
  qed
qed

lemma sort_array_ok:
  assumes "elements sz es" "0 < sz" "strcmp_type (set es) cmp"
  shows "\<exists>es'. sort_array (concat es) (length es) sz cmp = Some (concat es') \<and> mset es' = mset es \<and>
    sorted_wrt (\<lambda>x y. cmp x y \<le> 0) es'"
proof -
  have "heap_from cmp es (Suc (length es div 2)) (length es)" by (auto simp: heap_from_def)
  then obtain es1 where es1: "build_loop (concat es) (length es div 2) (length es) sz cmp = Some (concat es1)" "mset es1 = mset es"
      "heap_from cmp es1 1 (length es)"
    using build_loop_ok [OF assms(1) _ refl assms(3)] by (metis div_le_dividend)
  have s: "elements sz es1" "set es1 = set es" "length es1 = length es"
    using elements_mset [OF es1(2)] assms(1) mset_eq_setD [OF es1(2)] mset_eq_length [OF es1(2)] by auto
  have "sort_inv cmp es1 (length es)" using es1(3) s(3) by (simp add: sort_inv_def)
  then show ?thesis using sort_loop_ok [OF s(1), of "length es" cmp] s assms(2,3) es1 by (auto simp: sort_array_def)
qed

section \<open>Binary search\<close>

text \<open>\<open>hits\<close>: the result is the offset of a matching element among those from \<open>a\<close> up to \<open>b\<close>, if there is one.\<close>

definition hits :: "(nat \<Rightarrow> bool) \<Rightarrow> nat \<Rightarrow> nat \<Rightarrow> nat \<Rightarrow> nat option \<Rightarrow> bool" where
  "hits P sz a b r = (case r of Some off \<Rightarrow> \<exists>k. off = k * sz \<and> a \<le> k \<and> k < b \<and> P k
     | None \<Rightarrow> \<forall>k. a \<le> k \<longrightarrow> k < b \<longrightarrow> \<not> P k)"

lemma hits_left:
  assumes "hits P sz a k r" "k \<le> b" "\<And>j. k \<le> j \<Longrightarrow> j < b \<Longrightarrow> \<not> P j"
  shows "hits P sz a b r"
proof (cases r)
  case None
  then show ?thesis using assms by (simp add: hits_def) (metis not_le)
next
  case (Some off)
  then show ?thesis using assms by (simp add: hits_def) (metis less_le_trans)
qed

lemma hits_right:
  assumes "hits P sz (Suc k) b r" "a \<le> Suc k" "\<And>j. a \<le> j \<Longrightarrow> j \<le> k \<Longrightarrow> \<not> P j"
  shows "hits P sz a b r"
proof (cases r)
  case None
  then show ?thesis using assms by (simp add: hits_def) (metis not_less_eq_eq)
next
  case (Some off)
  then show ?thesis using assms by (simp add: hits_def) (metis le_trans)
qed

lemma search_loop_ok:
  assumes el: "elements sz es" and sz: "0 < sz" and b: "b \<le> length es"
    and mono: "\<And>x y. x \<le> y \<Longrightarrow> y < length es \<Longrightarrow> cmp key (es ! x) < 0 \<Longrightarrow> cmp key (es ! y) < 0"
      "\<And>x y. x \<le> y \<Longrightarrow> y < length es \<Longrightarrow> cmp key (es ! y) > 0 \<Longrightarrow> cmp key (es ! x) > 0"
  shows "\<exists>r. search_loop key (concat es) (a * sz) (b * sz) sz cmp = Some r \<and> hits (\<lambda>k. cmp key (es ! k) = 0) sz a b r"
  using b
proof (induction "b - a" arbitrary: a b rule: less_induct)
  case less
  let ?P = "\<lambda>k. cmp key (es ! k) = 0"
  show ?case
  proof (cases "a < b")
    case False
    then have "\<not> a * sz < b * sz" using sz by simp
    then show ?thesis using False by (subst search_loop.simps) (auto simp: hits_def)
  next
    case True
    define k where "k = a + (b - a) div 2"
    have k: "a \<le> k" "k < b" "k < length es" using True less.prems by (auto simp: k_def)
    have mid: "a * sz + ((b * sz - a * sz) div sz div 2) * sz = k * sz"
      using sz by (simp add: k_def flip: diff_mult_distrib) (simp add: add_mult_distrib)
    have elem: "take sz (drop (k * sz) (concat es)) = es ! k" using concat_elem [OF el k(3)] .
    have step: "search_loop key (concat es) (a * sz) (b * sz) sz cmp =
        (if cmp key (es ! k) < 0 then search_loop key (concat es) (a * sz) (k * sz) sz cmp
         else if cmp key (es ! k) > 0 then search_loop key (concat es) (Suc k * sz) (b * sz) sz cmp else Some (Some (k * sz)))"
      using True sz by (subst search_loop.simps) (simp add: mid elem add.commute)
    consider (lt) "cmp key (es ! k) < 0" | (gt) "cmp key (es ! k) > 0" | (eq) "cmp key (es ! k) = 0" by linarith
    then show ?thesis
    proof cases
      case lt
      have d: "k - a < b - a" "k \<le> length es" using k by auto
      obtain r where r: "search_loop key (concat es) (a * sz) (k * sz) sz cmp = Some r" "hits ?P sz a k r"
        using less.hyps [OF d] by blast
      have "\<not> ?P j" if "k \<le> j" "j < b" for j using mono(1) [of k j] lt that less.prems by simp
      then have "hits ?P sz a b r" using hits_left [OF r(2)] k(2) by simp
      then show ?thesis using r(1) step lt by auto
    next
      case gt
      have d: "b - Suc k < b - a" using k by auto
      obtain r where r: "search_loop key (concat es) (Suc k * sz) (b * sz) sz cmp = Some r" "hits ?P sz (Suc k) b r"
        using less.hyps [OF d less.prems] by blast
      have "\<not> ?P j" if "a \<le> j" "j \<le> k" for j using mono(2) [of j k] gt that k by simp
      then have "hits ?P sz a b r" using hits_right [OF r(2)] k(1) by simp
      then show ?thesis using r(1) step gt by auto
    next
      case eq
      then show ?thesis using step k by (auto simp: hits_def)
    qed
  qed
qed

section \<open>Properties\<close>

text \<open>C37: \<open>qsort\<close>, given a comparison that is a total preorder on the elements, returns, and the bytes of the
  array are then those of its elements in ascending order.\<close>

theorem qsort_correct:
  assumes "elements sz es" "0 < sz" "strcmp_type (set es) cmp"
  shows "\<exists>es'. qsort (concat es) (length es) sz cmp = Some (concat es') \<and> mset es' = mset es \<and>
    sorted_wrt (\<lambda>x y. cmp x y \<le> 0) es'"
proof -
  have "compare_thunk cmp = cmp" by (simp add: fun_eq_iff compare_thunk_def)
  then show ?thesis using sort_array_ok [OF assms] by (simp add: qsort_def)
qed

definition cmp_first :: comparison where
  "cmp_first a b = uint (hd a) - uint (hd b)"

theorem qsort_correct_witness:
  "\<exists>es'. qsort [3, 0, 1, 1, 2, 2] 3 2 cmp_first = Some (concat es') \<and> mset es' = {#[3, 0], [1, 1], [2, 2]#} \<and>
    sorted_wrt (\<lambda>x y. cmp_first x y \<le> 0) es'"
  using qsort_correct [of 2 "[[3, 0], [1, 1], [2, 2]]" cmp_first]
  by (simp add: elements_def strcmp_type_def cmp_first_def numeral_3_eq_3)

text \<open>\<open>bsearch\<close> on an array in ascending order, for a key that compares with the elements consistently with
  that order, ends and returns the address of an element equal to the key, or null exactly when there is
  none.\<close>

theorem bsearch_correct:
  assumes "elements sz es" "0 < sz"
    and "\<forall>x y. x \<le> y \<longrightarrow> y < length es \<longrightarrow> cmp key (es ! x) < 0 \<longrightarrow> cmp key (es ! y) < 0"
    and "\<forall>x y. x \<le> y \<longrightarrow> y < length es \<longrightarrow> cmp key (es ! y) > 0 \<longrightarrow> cmp key (es ! x) > 0"
  shows "\<exists>r. bsearch key (concat es) (length es) sz cmp = Some r \<and>
    (case r of Some off \<Rightarrow> \<exists>k < length es. off = k * sz \<and> cmp key (es ! k) = 0
     | None \<Rightarrow> \<forall>e \<in> set es. cmp key e \<noteq> 0)"
proof -
  have "compare_thunk cmp = cmp" by (simp add: fun_eq_iff compare_thunk_def)
  moreover obtain r where "search_loop key (concat es) (0 * sz) (length es * sz) sz cmp = Some r"
      "hits (\<lambda>k. cmp key (es ! k) = 0) sz 0 (length es) r"
    using search_loop_ok [OF assms(1,2) order_refl, of cmp key 0] assms(3,4) by blast
  ultimately show ?thesis
    by (auto simp: bsearch_def binary_search_def hits_def in_set_conv_nth mult.commute split: option.splits)
qed

theorem bsearch_correct_witness:
  "\<exists>off. bsearch [5] [1, 5] 2 1 cmp_first = Some (Some off)"
proof -
  let ?es = "[[1], [5]] :: byte list list"
  have "\<exists>r. bsearch [5] (concat ?es) (length ?es) 1 cmp_first = Some r \<and>
    (case r of Some off \<Rightarrow> \<exists>k < length ?es. off = k * 1 \<and> cmp_first [5] (?es ! k) = 0
     | None \<Rightarrow> \<forall>e \<in> set ?es. cmp_first [5] e \<noteq> 0)"
    by (rule bsearch_correct) (auto simp: elements_def cmp_first_def less_Suc_eq le_Suc_eq)
  then show ?thesis
    by (auto simp: cmp_first_def numeral_2_eq_2 [symmetric] split: option.splits)
qed

section \<open>Decimal numbers\<close>

definition decimal :: "byte list \<Rightarrow> int" where
  "decimal ds = foldl (\<lambda>v d. v * 10 + (uint d - 48)) 0 ds"

lemma skip_space_ok:
  "cstr m s (ws @ xs) \<Longrightarrow> list_all isspace ws \<Longrightarrow> (xs = [] \<or> \<not> isspace (hd xs)) \<Longrightarrow> skip_space m s = Some (s + length ws)"
proof (induction ws arbitrary: s)
  case Nil
  then show ?case by (cases xs) (auto simp: skip_space.simps isspace_def)
next
  case (Cons w ws)
  then show ?case using Cons.IH [of "s + 1"] by (subst skip_space.simps) auto
qed

lemma digits_loop_ok:
  "cstr m s (ds @ xs) \<Longrightarrow> list_all isdigit ds \<Longrightarrow> (xs = [] \<or> \<not> isdigit (hd xs)) \<Longrightarrow>
   digits_loop m s (int32 (- v)) = Some (int32 (- (foldl (\<lambda>v d. v * 10 + (uint d - 48)) v ds)))"
proof (induction ds arbitrary: s v)
  case Nil
  then show ?case by (cases xs) (auto simp: digits_loop.simps isdigit_def)
next
  case (Cons d ds)
  have "int32 (int32 (int32 (- v) * 10) - (uint d - 48)) = int32 (- (v * 10 + (uint d - 48)))"
    unfolding int32_wrap by (rule arg_cong [of _ _ int32]) simp
  then show ?case using Cons.prems Cons.IH [of "s + 1" "v * 10 + (uint d - 48)"] by (subst digits_loop.simps) auto
qed

text \<open>\<open>atoi\<close> on white space, an optional sign and decimal digits, followed by anything that is not a digit,
  returns the number, reduced to 32 bits when it does not fit; in particular it is exact on the whole
  range of \<open>int\<close>, the smallest value included.\<close>

theorem atoi_decimal:
  assumes "cstr m s (ws @ sg @ ds @ rest)" "list_all isspace ws" "sg = [] \<or> sg = [43] \<or> sg = [45]"
    and "list_all isdigit ds" "ds \<noteq> []" "rest = [] \<or> \<not> isdigit (hd rest)"
  shows "atoi m s = Some (int32 (if sg = [45] then - decimal ds else decimal ds))"
proof -
  obtain d ds' where d: "ds = d # ds'" "isdigit d" using assms(4,5) by (cases ds) auto
  have dne: "d \<noteq> 43" "d \<noteq> 45" "\<not> isspace d" using d(2) by (auto simp: isdigit_def isspace_def)
  have "sg @ ds @ rest = [] \<or> \<not> isspace (hd (sg @ ds @ rest))"
    using assms(3) d dne by (auto simp: isspace_def)
  then have sk: "skip_space m s = Some (s + length ws)" using skip_space_ok [OF assms(1,2)] by simp
  have c: "cstr m (s + length ws) (sg @ ds @ rest)" using cstr_drop [OF assms(1), of "length ws"] by simp
  have c': "cstr m (s + length ws + length sg) (ds @ rest)" using cstr_drop [OF c, of "length sg"] by simp
  have "digits_loop m (s + length ws + length sg) (int32 (- 0)) = Some (int32 (- decimal ds))"
    unfolding decimal_def by (rule digits_loop_ok [OF c' assms(4,6)])
  then have dg: "digits_loop m (s + length ws + length sg) 0 = Some (int32 (- decimal ds))"
    by (simp add: int32_def)
  have nn: "s \<noteq> NULL" using cstr_nonnull [OF assms(1)] .
  show ?thesis
    using assms(3) sk c d dne dg nn by (auto simp: atoi_def int32_wrap)
qed

theorem atoi_decimal_witness:
  "atoi [1 \<mapsto> 32, 2 \<mapsto> 45, 3 \<mapsto> 52, 4 \<mapsto> 50, 5 \<mapsto> 0] 1 = Some (- 42)"
proof -
  have "decimal [52, 50] = 42" by (simp add: decimal_def)
  then show ?thesis
    using atoi_decimal [of "[1 \<mapsto> 32, 2 \<mapsto> 45, 3 \<mapsto> 52, 4 \<mapsto> 50, 5 \<mapsto> 0]" 1 "[32]" "[45]" "[52, 50]" "[]"]
    by (simp add: ld_def isspace_def isdigit_def int32_def)
qed

end
