(* ===== verification/Arithmetic.thy ===== *)
theory Arithmetic
  imports C_Integers
begin

text \<open>
  The 64-bit division routines of \<open>lib/arithmetic.c\<close>.  Unsigned integers are natural numbers below
  \<open>2 ^ 32\<close> or \<open>2 ^ 64\<close>, with the wrap-around written out.
\<close>

definition sub64 :: "nat \<Rightarrow> nat \<Rightarrow> nat" where
  "sub64 a b = (a + 2 ^ 64 - b) mod 2 ^ 64"

definition mul64 :: "nat \<Rightarrow> nat \<Rightarrow> nat" where
  "mul64 a b = a * b mod 2 ^ 64"

text \<open>The \<open>divl\<close> instruction traps on a zero divisor and on a quotient of more than 32 bits.\<close>

definition divl :: "nat \<Rightarrow> nat \<Rightarrow> nat option" where
  "divl n d = (if d = 0 \<or> 2 ^ 32 \<le> n div d then None else Some (n div d))"

definition nlz_step :: "nat \<Rightarrow> nat \<Rightarrow> nat \<times> nat \<Rightarrow> nat \<times> nat" where
  "nlz_step limit k p = (case p of (n, x) \<Rightarrow> if x \<le> limit then (n + k, x * 2 ^ k mod 2 ^ 32) else (n, x))"

definition nlz :: "nat \<Rightarrow> nat" where
  "nlz x =
     (let p = nlz_step 0x0000FFFF 16 (0, x);
          p = nlz_step 0x00FFFFFF 8 p;
          p = nlz_step 0x0FFFFFFF 4 p;
          (n, x) = nlz_step 0x3FFFFFFF 2 p
      in if x \<le> 0x7FFFFFFF then n + 1 else n)"

definition udiv64 :: "nat \<Rightarrow> nat \<Rightarrow> nat option" where
  "udiv64 n d =
     (if d div 2 ^ 32 = 0 then
        (let b = 2 ^ 32; n1 = n div 2 ^ 32 mod 2 ^ 32; n0 = n mod 2 ^ 32; d0 = d mod 2 ^ 32
         in if d0 = 0 then None
            else do {
              q \<leftarrow> divl ((mul64 b (n1 mod d0) + n0) mod 2 ^ 64) d0;
              Some ((q + mul64 b (n1 div d0)) mod 2 ^ 64) })
      else if n < d then Some 0
      else
        (let d1 = d div 2 ^ 32 mod 2 ^ 32; s = nlz d1
         in do {
           q \<leftarrow> divl (n div 2) (d * 2 ^ s mod 2 ^ 64 div 2 ^ 32 mod 2 ^ 32);
           let q = q div 2 ^ (31 - s);
           Some (if sub64 n (mul64 (sub64 q 1) d) < d then sub64 q 1 else q) }))"

text \<open>\<open>umod64\<close> and \<open>smod64\<close> are declared to return 32-bit integers.\<close>

definition umod64 :: "nat \<Rightarrow> nat \<Rightarrow> nat option" where
  "umod64 n d = do { q \<leftarrow> udiv64 n d; Some (sub64 n (mul64 d q) mod 2 ^ 32) }"

definition abs64 :: "int \<Rightarrow> nat" where
  "abs64 n = nat ((if n \<ge> 0 then n else - n) mod 2 ^ 64)"

definition sdiv64 :: "int \<Rightarrow> int \<Rightarrow> int option" where
  "sdiv64 n d = do {
     q_abs \<leftarrow> udiv64 (abs64 n) (abs64 d);
     Some (if (n < 0) = (d < 0) then int64 (int q_abs) else int64 (- int64 (int q_abs))) }"

definition smod64 :: "int \<Rightarrow> int \<Rightarrow> int option" where
  "smod64 n d = do { q \<leftarrow> sdiv64 n d; Some (int32 (int64 (n - int64 (d * q)))) }"

definition udivdi3 :: "nat \<Rightarrow> nat \<Rightarrow> nat option" where "udivdi3 n d = udiv64 n d"
definition umoddi3 :: "nat \<Rightarrow> nat \<Rightarrow> nat option" where "umoddi3 n d = umod64 n d"
definition divdi3 :: "int \<Rightarrow> int \<Rightarrow> int option" where "divdi3 n d = sdiv64 n d"
definition moddi3 :: "int \<Rightarrow> int \<Rightarrow> int option" where "moddi3 n d = smod64 n d"

section \<open>Leading zeros\<close>

text \<open>After each step the number is the old one shifted by what was counted, still below \<open>2 ^ 32\<close>.\<close>

lemma nlz_step_ok:
  assumes "x = y * 2 ^ n" "0 < y" "x < 2 ^ 32" "limit + 1 = 2 ^ (32 - k)" "k \<le> 32"
  shows "\<exists>n' x'. nlz_step limit k (n, x) = (n', x') \<and> x' = y * 2 ^ n' \<and> x' < 2 ^ 32 \<and> n \<le> n' \<and> n' \<le> n + k \<and>
    (2 ^ (32 - 2 * k) \<le> x \<longrightarrow> 2 * k \<le> 32 \<longrightarrow> 2 ^ (32 - k) \<le> x')"
proof (cases "x \<le> limit")
  case True
  have "x * 2 ^ k < 2 ^ (32 - k) * 2 ^ k" using True assms(4) by simp
  also have "\<dots> = 2 ^ 32" using assms(5) by (simp add: power_add [symmetric])
  finally have lt: "x * 2 ^ k < 2 ^ 32" .
  have "2 ^ (32 - k) \<le> x * 2 ^ k" if "2 ^ (32 - 2 * k) \<le> x" "2 * k \<le> 32"
  proof -
    have "(2::nat) ^ (32 - k) = 2 ^ (32 - 2 * k) * 2 ^ k" using that(2) by (simp add: power_add [symmetric])
    then show ?thesis using that(1) by simp
  qed
  then show ?thesis using True lt assms(1) by (auto simp: nlz_step_def power_add mult.assoc)
next
  case False
  then show ?thesis using assms by (auto simp: nlz_step_def)
qed

lemma nlz_ok:
  assumes "0 < x" "x < 2 ^ 32"
  shows "2 ^ 31 \<le> x * 2 ^ nlz x" "x * 2 ^ nlz x < 2 ^ 32" "nlz x \<le> 31"
proof -
  obtain n1 x1 where 1: "nlz_step 0xFFFF 16 (0, x) = (n1, x1)" "x1 = x * 2 ^ n1" "x1 < 2 ^ 32" "n1 \<le> 0 + 16" "2 ^ 16 \<le> x1"
    using nlz_step_ok [where x = x and y = x and n = 0 and limit = "0xFFFF" and k = 16] assms by auto
  obtain n2 x2 where 2: "nlz_step 0xFFFFFF 8 (n1, x1) = (n2, x2)" "x2 = x * 2 ^ n2" "x2 < 2 ^ 32" "n2 \<le> n1 + 8" "2 ^ 24 \<le> x2"
    using nlz_step_ok [OF 1(2) assms(1) 1(3), where limit = "0xFFFFFF" and k = 8] 1(5) by auto
  obtain n3 x3 where 3: "nlz_step 0xFFFFFFF 4 (n2, x2) = (n3, x3)" "x3 = x * 2 ^ n3" "x3 < 2 ^ 32" "n3 \<le> n2 + 4" "2 ^ 28 \<le> x3"
    using nlz_step_ok [OF 2(2) assms(1) 2(3), where limit = "0xFFFFFFF" and k = 4] 2(5) by auto
  obtain n4 x4 where 4: "nlz_step 0x3FFFFFFF 2 (n3, x3) = (n4, x4)" "x4 = x * 2 ^ n4" "x4 < 2 ^ 32" "n4 \<le> n3 + 2" "2 ^ 30 \<le> x4"
    using nlz_step_ok [OF 3(2) assms(1) 3(3), where limit = "0x3FFFFFFF" and k = 2] 3(5) by auto
  have nlz: "nlz x = (if x4 \<le> 0x7FFFFFFF then n4 + 1 else n4)"
    unfolding nlz_def Let_def using 1(1) 2(1) 3(1) 4(1) by simp
  show "2 ^ 31 \<le> x * 2 ^ nlz x" "x * 2 ^ nlz x < 2 ^ 32" using 4 by (auto simp: nlz)
  show "nlz x \<le> 31" using 1(4) 2(4) 3(4) 4(4) by (simp add: nlz)
qed

section \<open>Unsigned division\<close>

lemma sub64_ok: "b \<le> a \<Longrightarrow> a < 2 ^ 64 \<Longrightarrow> sub64 a b = a - b"
proof -
  assume h: "b \<le> a" "a < 2 ^ 64"
  then have "a + 2 ^ 64 - b = (a - b) + 2 ^ 64" by simp
  then have "sub64 a b = (a - b) mod 2 ^ 64" unfolding sub64_def by (simp only: mod_add_self2)
  then show ?thesis using h by simp
qed

lemma udiv64_small:
  assumes "0 < d" "d < 2 ^ 32" "n < 2 ^ 64"
  shows "udiv64 n d = Some (n div d)"
proof -
  define b :: nat where "b = 2 ^ 32"
  define n1 where "n1 = n div b"
  define n0 where "n0 = n mod b"
  have b2: "b * b = 2 ^ 64" by (simp add: b_def)
  have b0: "0 < b" by (simp add: b_def)
  have n: "n = b * n1 + n0" "n0 < b" by (simp_all add: n1_def n0_def b0)
  have n1: "n1 < b" using assms(3) unfolding n1_def b2 [symmetric] by (simp add: less_mult_imp_div_less)
  have top: "b * (n1 mod d) + n0 < b * d"
  proof -
    have "b * (n1 mod d) + n0 < b * (n1 mod d) + b * 1" using n(2) by simp
    also have "\<dots> = b * Suc (n1 mod d)" by simp
    also have "\<dots> \<le> b * d" using assms(1) by (intro mult_le_mono2) (simp add: Suc_le_eq)
    finally show ?thesis .
  qed
  have "b * d < b * b" using assms(2) b0 by (simp add: b_def)
  with top have fits: "b * (n1 mod d) + n0 < 2 ^ 64" "b * (n1 mod d) < 2 ^ 64" unfolding b2 [symmetric] by linarith+
  have q: "(b * (n1 mod d) + n0) div d < b" using top by (simp add: less_mult_imp_div_less)
  have "n = d * (b * (n1 div d)) + (b * (n1 mod d) + n0)"
  proof -
    have "b * n1 = b * (d * (n1 div d) + n1 mod d)" by simp
    also have "\<dots> = d * (b * (n1 div d)) + b * (n1 mod d)" by (simp only: add_mult_distrib2 mult.left_commute)
    finally show ?thesis using n(1) by simp
  qed
  then have "n div d = (d * (b * (n1 div d)) + (b * (n1 mod d) + n0)) div d" by (rule arg_cong)
  also have "\<dots> = b * (n1 div d) + (b * (n1 mod d) + n0) div d" using assms(1) by (intro div_mult_self4) simp
  finally have split: "n div d = b * (n1 div d) + (b * (n1 mod d) + n0) div d" .
  have nd: "n div d < 2 ^ 64" using assms(3) le_less_trans [OF div_le_dividend] by blast
  then have "b * (n1 div d) < 2 ^ 64" using split by linarith
  then have m: "mul64 b (n1 mod d) = b * (n1 mod d)" "mul64 b (n1 div d) = b * (n1 div d)"
    using fits by (simp_all add: mul64_def)
  have "d div 2 ^ 32 = 0" "d mod 2 ^ 32 = d" "n div 2 ^ 32 mod 2 ^ 32 = n1" "n mod 2 ^ 32 = n0"
    using assms(2) n1 by (simp_all add: n1_def n0_def b_def)
  moreover have "divl (b * (n1 mod d) + n0) d = Some ((b * (n1 mod d) + n0) div d)"
    using q assms(1) unfolding divl_def b_def by simp
  ultimately show ?thesis
    unfolding udiv64_def Let_def b_def [symmetric] using assms(1) m fits nd split by (simp add: add.commute)
qed

text \<open>With a normalised divisor the estimate is at most one too large.\<close>

lemma quotient_estimate:
  fixes n d e t :: nat
  assumes "n < 2 ^ 64" "e \<le> d" "d < e + 2 ^ t" "2 ^ (31 + t) \<le> e" "1 \<le> t" "t \<le> 32"
  shows "n div d \<le> n div e" "n div e \<le> n div d + 1"
proof -
  have e0: "0 < e" using assms(4) by (metis less_le_trans zero_less_numeral zero_less_power)
  then have d0: "0 < d" using assms(2) by simp
  show "n div d \<le> n div e" using assms(2) e0 by (rule div_le_mono2 [rotated])
  let ?q = "n div e"
  have "(2::nat) ^ 64 = 2 ^ (33 - t) * 2 ^ (31 + t)" using assms(6) by (simp add: power_add [symmetric])
  also have "\<dots> \<le> 2 ^ (33 - t) * e" using assms(4) by simp
  finally have "n < 2 ^ (33 - t) * e" using assms(1) by simp
  then have q: "?q < 2 ^ (33 - t)" by (simp add: less_mult_imp_div_less)
  have "?q * (d - e) \<le> d"
  proof (cases "t = 1")
    case True
    have "d - e \<le> 1" using assms(2,3) True by simp
    then have "?q * (d - e) \<le> ?q * 1" by (intro mult_le_mono2)
    also have "\<dots> \<le> 2 ^ 32" using q True by simp
    also have "\<dots> \<le> d" using assms(2,4) True by simp
    finally show ?thesis .
  next
    case False
    have "?q * (d - e) \<le> 2 ^ (33 - t) * 2 ^ t" using q assms(2,3) by (intro mult_le_mono) auto
    also have "\<dots> = 2 ^ 33" using assms(6) by (simp add: power_add [symmetric])
    also have "\<dots> \<le> 2 ^ (31 + t)" using False assms(5) by (intro power_increasing) auto
    also have "\<dots> \<le> d" using assms(2,4) by simp
    finally show ?thesis .
  qed
  moreover have "?q * d = ?q * e + ?q * (d - e)" using assms(2) by (simp add: add_mult_distrib2 [symmetric])
  moreover have "?q * e \<le> n" by (metis div_times_less_eq_dividend)
  ultimately have "?q * d \<le> n + d" by linarith
  then have "?q \<le> (n + d) div d" using d0 by (simp add: less_eq_div_iff_mult_less_eq)
  also have "(n + d) div d = n div d + 1" using d0 by (rule div_add_self2 [OF less_imp_neq [THEN not_sym]])
  finally show "?q \<le> n div d + 1" .
qed

lemma udiv64_large:
  assumes "2 ^ 32 \<le> d" "d < 2 ^ 64" "n < 2 ^ 64"
  shows "udiv64 n d = Some (n div d)"
proof (cases "n < d")
  case True
  then show ?thesis using assms(1) by (simp add: udiv64_def)
next
  case False
  define d1 where "d1 = d div 2 ^ 32"
  define s where "s = nlz d1"
  define v where "v = d * 2 ^ s div 2 ^ 32"
  have d1: "0 < d1" "d1 < 2 ^ 32" using assms by (auto simp: d1_def div_greater_zero_iff less_mult_imp_div_less)
  note s = nlz_ok [OF d1, folded s_def]
  have dd: "d1 * 2 ^ 32 \<le> d" "d < (d1 + 1) * 2 ^ 32"
    unfolding d1_def by (auto simp: dividend_less_div_times)
  have up: "d * 2 ^ s < 2 ^ 64"
  proof -
    have "(d1 + 1) * 2 ^ s \<le> 2 ^ 32"
    proof -
      have "(2::nat) ^ 32 = 2 ^ (32 - s) * 2 ^ s" using s(3) by (simp add: power_add [symmetric])
      then have "d1 * 2 ^ s < 2 ^ (32 - s) * 2 ^ s" using s(2) by simp
      then have "d1 < 2 ^ (32 - s)" by (simp only: mult_less_cancel2)
      then have "(d1 + 1) * 2 ^ s \<le> 2 ^ (32 - s) * 2 ^ s" by (intro mult_le_mono1) simp
      then show ?thesis using \<open>(2::nat) ^ 32 = _\<close> by simp
    qed
    then have "(d1 + 1) * 2 ^ 32 * 2 ^ s \<le> 2 ^ 32 * 2 ^ 32" by (metis mult.assoc mult.commute mult_le_mono2)
    moreover have "d * 2 ^ s < (d1 + 1) * 2 ^ 32 * 2 ^ s" using dd(2) by simp
    ultimately have "d * 2 ^ s < 2 ^ 32 * 2 ^ 32" by (rule less_le_trans [rotated])
    then show ?thesis by simp
  qed
  have v: "v < 2 ^ 32" using up by (simp add: v_def less_mult_imp_div_less)
  have v31: "2 ^ 31 \<le> v"
  proof -
    have "2 ^ 31 * 2 ^ 32 \<le> d1 * 2 ^ s * 2 ^ 32" using s(1) by simp
    also have "\<dots> \<le> d * 2 ^ s" using dd(1) by (metis mult.assoc mult.commute mult_le_mono2)
    finally show ?thesis by (simp add: v_def less_eq_div_iff_mult_less_eq)
  qed
  define t where "t = 32 - s"
  have t: "1 \<le> t" "t \<le> 32" "t + s = 32" "31 - s = t - 1" using s(3) by (auto simp: t_def)
  have p32: "(2::nat) ^ 32 = 2 ^ t * 2 ^ s" using t by (simp add: power_add [symmetric])
  define e where "e = v * 2 ^ t"
  have "v * 2 ^ 32 \<le> d * 2 ^ s" "d * 2 ^ s < v * 2 ^ 32 + 2 ^ 32"
    unfolding v_def by (auto simp: dividend_less_div_times)
  then have "(v * 2 ^ t) * 2 ^ s \<le> d * 2 ^ s" "d * 2 ^ s < (v * 2 ^ t + 2 ^ t) * 2 ^ s"
    unfolding p32 by (simp_all add: algebra_simps)
  then have e: "e \<le> d" "d < e + 2 ^ t" unfolding e_def by (simp_all only: mult_le_cancel2 mult_less_cancel2)
  have "2 ^ (31 + t) \<le> e" using v31 by (simp add: e_def power_add)
  note est = quotient_estimate [OF assms(3) e this t(1,2)]
  define q where "q = n div e"
  have ee: "e = 2 * v * 2 ^ (t - 1)" using t(1) by (simp add: e_def) (metis Suc_diff_1 less_eq_Suc_le One_nat_def power_Suc mult.left_commute)
  have qd: "n div 2 div v div 2 ^ (31 - s) = q"
    unfolding q_def ee t(4) by (simp add: div_mult2_eq)
  have fit: "n div 2 div v < 2 ^ 32"
  proof -
    have "n div 2 < 2 ^ 63" using assms(3) by simp
    also have "(2::nat) ^ 63 \<le> 2 ^ 32 * v" using v31 by simp
    finally show ?thesis by (simp add: less_mult_imp_div_less)
  qed
  let ?Q = "n div d"
  have d0: "0 < d" using assms(1) by (metis less_le_trans zero_less_numeral zero_less_power)
  have Q1: "1 \<le> ?Q" using False d0 by (simp add: div_greater_zero_iff Suc_le_eq)
  have q: "q = ?Q \<or> q = ?Q + 1" "1 \<le> q" using est Q1 by (auto simp: q_def)
  have q64: "q < 2 ^ 64" using le_less_trans [OF div_le_dividend assms(3)] by (simp add: q_def)
  have q1: "sub64 q 1 = q - 1" using q(2) q64 by (rule sub64_ok)
  have le: "(q - 1) * d \<le> n"
  proof -
    have "(q - 1) * d \<le> ?Q * d" using q(1) by (intro mult_le_mono1) auto
    then show ?thesis by (metis div_times_less_eq_dividend le_trans)
  qed
  have "mul64 (q - 1) d = (q - 1) * d" using le assms(3) by (simp add: mul64_def)
  then have rest: "sub64 n (mul64 (q - 1) d) = n - (q - 1) * d" using sub64_ok [OF le assms(3)] by simp
  have final: "(if n - (q - 1) * d < d then q - 1 else q) = ?Q"
  proof (cases "q = ?Q")
    case True
    have "(q - 1) * d + d = q * d" using q(2) by (metis Suc_diff_1 Suc_le_lessD add.commute mult_Suc One_nat_def)
    moreover have "q * d \<le> n" unfolding True by (rule div_times_less_eq_dividend)
    ultimately have "\<not> n - (q - 1) * d < d" by linarith
    then show ?thesis using True by simp
  next
    case False
    then have qq: "q - 1 = ?Q" using q(1) by simp
    have "n - ?Q * d = n mod d" by (simp add: minus_div_mult_eq_mod)
    then show ?thesis using qq d0 by simp
  qed
  have "d div 2 ^ 32 \<noteq> 0" "d div 2 ^ 32 mod 2 ^ 32 = d1" "d * 2 ^ s mod 2 ^ 64 div 2 ^ 32 mod 2 ^ 32 = v"
    using d1 up v by (simp_all add: d1_def v_def)
  then show ?thesis
    unfolding udiv64_def Let_def using False fit v31 q1 rest final qd by (simp add: divl_def s_def [symmetric] split: if_splits)
qed

lemma udiv64_ok: "0 < d \<Longrightarrow> d < 2 ^ 64 \<Longrightarrow> n < 2 ^ 64 \<Longrightarrow> udiv64 n d = Some (n div d)"
  using udiv64_small [of d n] udiv64_large [of d n] by (cases "d < 2 ^ 32") (simp_all add: not_less)


section \<open>Properties\<close>

text \<open>C38: For every nonzero divisor the unsigned division never traps and computes the quotient, also in the
  case of a divisor of more than 32 bits, where a 64-by-32-bit estimate is corrected.\<close>

theorem udivdi3_correct:
  assumes "0 < d" "d < 2 ^ 64" "n < 2 ^ 64"
  shows "udivdi3 n d = Some (n div d)"
  using udiv64_ok [OF assms] by (simp add: udivdi3_def)

theorem udivdi3_correct_witness: "udivdi3 18446744073709551615 4294967299 = Some 4294967293"
  using udivdi3_correct [of 4294967299 18446744073709551615] by simp

text \<open>The unsigned remainder is returned through a 32-bit type: \<open>__umoddi3\<close> computes the remainder modulo
  \<open>2 ^ 32\<close>, which is the remainder exactly when that is below \<open>2 ^ 32\<close>, as it always is for a 32-bit divisor.\<close>

theorem umoddi3_truncates:
  assumes "0 < d" "d < 2 ^ 64" "n < 2 ^ 64"
  shows "umoddi3 n d = Some (n mod d mod 2 ^ 32) \<and> (umoddi3 n d = Some (n mod d) \<longleftrightarrow> n mod d < 2 ^ 32)"
proof -
  have le: "d * (n div d) \<le> n" by (rule times_div_less_eq_dividend)
  have "mul64 d (n div d) = d * (n div d)" unfolding mul64_def using le_less_trans [OF le assms(3)] by (rule mod_less)
  then have "umoddi3 n d = Some (n mod d mod 2 ^ 32)"
    using udiv64_ok [OF assms] sub64_ok [OF le assms(3)] by (simp add: umoddi3_def umod64_def minus_mult_div_eq_mod)
  then show ?thesis by auto
qed

theorem umoddi3_truncates_witness: "umoddi3 8589934591 8589934592 = Some 4294967295 \<and> (8589934591 :: nat) mod 8589934592 = 8589934591"
  using umoddi3_truncates [of 8589934592 8589934591] by simp

text \<open>Signed division truncates towards zero, as C requires, for every nonzero divisor; the one quotient
  that does not fit, the smallest number divided by -1, wraps to the smallest number.\<close>

theorem divdi3_correct:
  assumes "- (2 ^ 63) \<le> n" "n < 2 ^ 63" "- (2 ^ 63) \<le> d" "d < 2 ^ 63" "d \<noteq> 0"
  shows "divdi3 n d = Some (int64 (n sdiv d))"
proof -
  have a: "abs64 x = nat \<bar>x\<bar>" "\<bar>x\<bar> < 2 ^ 64" if "- (2 ^ 63) \<le> x" "x < 2 ^ 63" for x
    using that by (auto simp: abs64_def abs_if)
  have "nat \<bar>n\<bar> < 2 ^ 64" "nat \<bar>d\<bar> < 2 ^ 64" "0 < nat \<bar>d\<bar>" using a(2) [OF assms(1,2)] a(2) [OF assms(3,4)] assms(5) by auto
  then have "udiv64 (abs64 n) (abs64 d) = Some (nat \<bar>n\<bar> div nat \<bar>d\<bar>)"
    using udiv64_ok a(1) [OF assms(1,2)] a(1) [OF assms(3,4)] by simp
  then have q: "divdi3 n d = Some (if (n < 0) = (d < 0) then int64 (\<bar>n\<bar> div \<bar>d\<bar>) else int64 (- int64 (\<bar>n\<bar> div \<bar>d\<bar>)))"
    by (simp add: divdi3_def sdiv64_def zdiv_int nat_div_distrib)
  have "n sdiv d = (if (n < 0) = (d < 0) then \<bar>n\<bar> div \<bar>d\<bar> else - (\<bar>n\<bar> div \<bar>d\<bar>))"
    using assms(5) by (auto simp: signed_divide_int_def sgn_if)
  then show ?thesis using q by (auto simp: int64_wrap)
qed

theorem divdi3_correct_witness: "divdi3 (- 7) 2 = Some (- 3)"
  using divdi3_correct [of "- 7" 2] by (simp add: signed_divide_int_def int64_def)

end
