(* ===== verification/Random_Bytes.thy ===== *)
theory Random_Bytes
  imports Prelude "HOL-Library.Multiset"
begin

text \<open>
  The RC4 generator of \<open>lib/random.c\<close>.  The state is the permutation \<open>s\<close>, the two indices and whether it
  has been seeded.  Byte arithmetic wraps modulo 256, so every index is in range.
\<close>

section \<open>The generator\<close>

record rng =
  rng_s :: "8 word list"
  rng_i :: "8 word"
  rng_j :: "8 word"
  inited :: bool

definition swap_byte :: "8 word list \<Rightarrow> 8 word \<Rightarrow> 8 word \<Rightarrow> 8 word list" where
  "swap_byte s a b = s[unat a := s ! unat b, unat b := s ! unat a]"

text \<open>Byte \<open>i\<close> of the seed in memory.\<close>

definition seedp :: "32 word \<Rightarrow> nat \<Rightarrow> 8 word" where
  "seedp seed i = ucast (drop_bit (8 * i) seed)"

fun init_loop :: "32 word \<Rightarrow> 8 word list \<Rightarrow> 8 word \<Rightarrow> nat list \<Rightarrow> 8 word list" where
  "init_loop seed s j [] = s"
| "init_loop seed s j (i # rest) =
     (let j = j + (s ! i + seedp seed (i mod 4)) in init_loop seed (swap_byte s (of_nat i) j) j rest)"

definition random_init :: "32 word \<Rightarrow> rng" where
  "random_init seed = \<lparr>rng_s = init_loop seed (map of_nat [0..<256]) 0 [0..<256], rng_i = 0, rng_j = 0, inited = True\<rparr>"

fun bytes_loop :: "rng \<Rightarrow> nat \<Rightarrow> 8 word list \<times> rng" where
  "bytes_loop g 0 = ([], g)"
| "bytes_loop g (Suc n) =
     (let i = rng_i g + 1;
          j = rng_j g + rng_s g ! unat i;
          s = swap_byte (rng_s g) i j;
          k = s ! unat i + s ! unat j;
          (out, g) = bytes_loop (g\<lparr>rng_s := s, rng_i := i, rng_j := j\<rparr>) n
      in (s ! unat k # out, g))"

definition random_bytes :: "rng \<Rightarrow> nat \<Rightarrow> 8 word list \<times> rng" where
  "random_bytes g n = bytes_loop (if \<not> inited g then random_init 0 else g) n"

text \<open>An \<open>unsigned long\<close> has eight bytes, the first one least significant.\<close>

definition random_ulong :: "rng \<Rightarrow> 64 word \<times> rng" where
  "random_ulong g =
     (let (bs, g) = random_bytes g 8
      in (foldr (\<lambda>b v. ucast b + push_bit 8 v) bs 0, g))"

section \<open>The permutation\<close>

text \<open>\<open>s\<close> holds every byte exactly once.\<close>

definition rng_perm :: "8 word list \<Rightarrow> bool" where
  "rng_perm s \<longleftrightarrow> length s = 256 \<and> mset s = mset (map of_nat [0..<256])"

definition rng_ok :: "rng \<Rightarrow> bool" where
  "rng_ok g \<longleftrightarrow> (inited g \<longrightarrow> rng_perm (rng_s g))"

lemma byte_index: "unat (b :: 8 word) < 256"
  using unsigned_less [where 'a = nat, of b] by simp

lemma swap_byte_perm: "rng_perm s \<Longrightarrow> rng_perm (swap_byte s a b)"
  by (simp add: rng_perm_def swap_byte_def mset_swap byte_index)

lemma init_loop_perm: "rng_perm s \<Longrightarrow> rng_perm (init_loop seed s j is)"
  by (induction "is" arbitrary: s j) (simp_all add: Let_def swap_byte_perm)

lemma random_init_perm: "rng_perm (rng_s (random_init seed))"
proof -
  have "rng_perm (map of_nat [0..<256])" by (simp add: rng_perm_def)
  then show ?thesis by (simp add: random_init_def init_loop_perm)
qed

lemma bytes_loop_ok:
  "rng_perm (rng_s g) \<Longrightarrow> bytes_loop g n = (out, g') \<Longrightarrow>
   length out = n \<and> rng_perm (rng_s g') \<and> inited g' = inited g \<and> rng_i g' = rng_i g + of_nat n"
proof (induction n arbitrary: g out g')
  case (Suc n)
  define i where "i = rng_i g + 1"
  define j where "j = rng_j g + rng_s g ! unat i"
  define g1 where "g1 = g\<lparr>rng_s := swap_byte (rng_s g) i j, rng_i := i, rng_j := j\<rparr>"
  obtain o1 g2 where r: "bytes_loop g1 n = (o1, g2)" by (cases "bytes_loop g1 n") auto
  have "rng_perm (rng_s g1)" using Suc.prems(1) by (simp add: g1_def swap_byte_perm)
  from Suc.IH [OF this r] show ?case
    using Suc.prems(2) r by (auto simp: Let_def i_def j_def g1_def)
qed simp



end
