(* ===== verification/Interrupt_Queue.thy ===== *)
theory Interrupt_Queue
  imports Sched_Ops Demo_System Memory Kernel_Machine
begin

text \<open>
  The circular byte queue of \<open>devices/intq.c\<close>, shared between kernel threads and interrupt handlers.  A thread that finds the queue empty (or full)
  records itself in \<open>not_empty\<close> (or \<open>not_full\<close>) and blocks; the byte that changes this wakes it.  A call
  that has to wait is cut there, as in \<open>Kernel_Machine\<close>: it hands back the steps still to be made, the lock
  acquisition, the wait, the release, and the call again, which makes the test again.
\<close>

section \<open>The queue\<close>

definition INTQ_BUFSIZE :: nat where "INTQ_BUFSIZE = 64"

record intq =
  qlock :: ptr
  not_full :: ptr
  not_empty :: ptr
  buf :: "byte list"
  head :: nat
  tail :: nat

datatype condition_var = Not_full | Not_empty

datatype intq_step =
    Lock_call action
  | Wait_for condition_var
  | Getc
  | Putc byte

definition intq_next :: "nat \<Rightarrow> nat" where
  "intq_next pos = (pos + 1) mod INTQ_BUFSIZE"

definition intq_init :: "kernel \<Rightarrow> intq \<Rightarrow> (kernel \<times> intq) option" where
  "intq_init k q = do {
     k \<leftarrow> lock_init k (qlock q);
     Some (k, q\<lparr>not_full := NULL, not_empty := NULL, head := 0, tail := 0\<rparr>) }"

definition intq_empty :: "kernel \<Rightarrow> intq \<Rightarrow> bool option" where
  "intq_empty k q = do { ASSERT (\<not> intr_on k); Some (head q = tail q) }"

definition intq_full :: "kernel \<Rightarrow> intq \<Rightarrow> bool option" where
  "intq_full k q = do { ASSERT (\<not> intr_on k); Some (intq_next (head q) = tail q) }"

text \<open>\<open>wait\<close>: the calling thread becomes the waiter and blocks.\<close>

definition intq_wait :: "kernel \<Rightarrow> intq \<Rightarrow> condition_var \<Rightarrow> (kernel \<times> intq) option" where
  "intq_wait k q w = do {
     ASSERT (\<not> in_external_intr k);
     ASSERT (\<not> intr_on k);
     e \<leftarrow> intq_empty k q;
     f \<leftarrow> intq_full k q;
     ASSERT (w = Not_empty \<and> e \<or> w = Not_full \<and> f);
     cur \<leftarrow> thread_current k;
     k \<leftarrow> thread_block k;
     Some (k, case w of Not_empty \<Rightarrow> q\<lparr>not_empty := cur\<rparr> | Not_full \<Rightarrow> q\<lparr>not_full := cur\<rparr>) }"

definition waiter_of :: "intq \<Rightarrow> condition_var \<Rightarrow> ptr" where
  "waiter_of q w = (case w of Not_empty \<Rightarrow> not_empty q | Not_full \<Rightarrow> not_full q)"

definition intq_signal :: "kernel \<Rightarrow> intq \<Rightarrow> condition_var \<Rightarrow> (kernel \<times> intq) option" where
  "intq_signal k q w = do {
     ASSERT (\<not> intr_on k);
     e \<leftarrow> intq_empty k q;
     f \<leftarrow> intq_full k q;
     ASSERT (w = Not_empty \<and> \<not> e \<or> w = Not_full \<and> \<not> f);
     if waiter_of q w \<noteq> NULL then do {
       k \<leftarrow> thread_unblock k (waiter_of q w);
       Some (k, case w of Not_empty \<Rightarrow> q\<lparr>not_empty := NULL\<rparr> | Not_full \<Rightarrow> q\<lparr>not_full := NULL\<rparr>) }
     else Some (k, q) }"

text \<open>The body of the waiting loops.\<close>

definition waiting_steps :: "intq \<Rightarrow> condition_var \<Rightarrow> intq_step \<Rightarrow> intq_step list" where
  "waiting_steps q w again =
     [Lock_call (Acquire (qlock q)), Wait_for w, Lock_call (Release (qlock q)), again]"

text \<open>\<open>intq_getc\<close> up to the first wait: the byte, or what is left to do.  An interrupt handler may not wait.\<close>

definition intq_getc :: "kernel \<Rightarrow> intq \<Rightarrow> ((byte + intq_step list) \<times> kernel \<times> intq) option" where
  "intq_getc k q = do {
     ASSERT (\<not> intr_on k);
     e \<leftarrow> intq_empty k q;
     if e then do {
       ASSERT (\<not> in_external_intr k);
       Some (Inr (waiting_steps q Not_empty Getc), k, q) }
     else do {
       ASSERT (tail q < length (buf q));
       let b = buf q ! tail q;
       let q = q\<lparr>tail := intq_next (tail q)\<rparr>;
       (k, q) \<leftarrow> intq_signal k q Not_full;
       Some (Inl b, k, q) } }"

definition intq_putc :: "kernel \<Rightarrow> intq \<Rightarrow> byte \<Rightarrow> (intq_step list \<times> kernel \<times> intq) option" where
  "intq_putc k q b = do {
     ASSERT (\<not> intr_on k);
     f \<leftarrow> intq_full k q;
     if f then do {
       ASSERT (\<not> in_external_intr k);
       Some (waiting_steps q Not_full (Putc b), k, q) }
     else do {
       ASSERT (head q < length (buf q));
       let q = q\<lparr>buf := (buf q)[head q := b], head := intq_next (head q)\<rparr>;
       (k, q) \<leftarrow> intq_signal k q Not_empty;
       Some ([], k, q) } }"

section \<open>The abstract queue\<close>

text \<open>A bounded first-in first-out queue, as its users see it.\<close>

locale bounded_fifo =
  fixes inv :: "'q \<Rightarrow> bool" and contents :: "'q \<Rightarrow> 'a list" and capacity :: nat
    and put :: "'a \<Rightarrow> 'q \<Rightarrow> 'q" and get :: "'q \<Rightarrow> 'a \<times> 'q"
  assumes inv_put: "inv q \<Longrightarrow> length (contents q) < capacity \<Longrightarrow> inv (put x q)"
    and contents_put: "inv q \<Longrightarrow> length (contents q) < capacity \<Longrightarrow> contents (put x q) = contents q @ [x]"
    and inv_get: "inv q \<Longrightarrow> contents q \<noteq> [] \<Longrightarrow> inv (snd (get q))"
    and contents_get: "inv q \<Longrightarrow> contents q \<noteq> [] \<Longrightarrow> contents q = fst (get q) # contents (snd (get q))"
begin

fun gets :: "nat \<Rightarrow> 'q \<Rightarrow> 'a list \<times> 'q" where
  "gets 0 q = ([], q)"
| "gets (Suc n) q = (let (x, q) = get q; (xs, q) = gets n q in (x # xs, q))"

lemma puts_contents:
  "inv q \<Longrightarrow> length (contents q) + length xs \<le> capacity \<Longrightarrow>
   inv (fold put xs q) \<and> contents (fold put xs q) = contents q @ xs"
proof (induction xs arbitrary: q)
  case (Cons x xs)
  then have "length (contents q) < capacity" by simp
  then show ?case using Cons.IH [of "put x q"] Cons.prems inv_put [of q x] contents_put [of q x] by simp
qed simp

lemma gets_contents:
  "inv q \<Longrightarrow> n \<le> length (contents q) \<Longrightarrow>
   fst (gets n q) = take n (contents q) \<and> inv (snd (gets n q)) \<and> contents (snd (gets n q)) = drop n (contents q)"
proof (induction n arbitrary: q)
  case (Suc n)
  then have ne: "contents q \<noteq> []" by auto
  then show ?case
    using Suc.IH [of "snd (get q)"] Suc.prems inv_get [of q] contents_get [of q]
    by (cases "contents q") (auto simp: Let_def split_beta)
qed simp

text \<open>What is written is read back in the same order.\<close>

lemma fifo:
  assumes "inv q" "contents q = []" "length xs \<le> capacity"
  shows "fst (gets (length xs) (fold put xs q)) = xs"
  using puts_contents [of q xs] gets_contents [of "fold put xs q" "length xs"] assms by simp

end

text \<open>The buffer operations without the waiting, on the model's queue.\<close>

definition intq_inv :: "intq \<Rightarrow> bool" where
  "intq_inv q \<longleftrightarrow> length (buf q) = INTQ_BUFSIZE \<and> head q < INTQ_BUFSIZE \<and> tail q < INTQ_BUFSIZE"

definition intq_length :: "intq \<Rightarrow> nat" where
  "intq_length q = (head q + INTQ_BUFSIZE - tail q) mod INTQ_BUFSIZE"

definition intq_contents :: "intq \<Rightarrow> byte list" where
  "intq_contents q = map (\<lambda>i. buf q ! ((tail q + i) mod INTQ_BUFSIZE)) [0..<intq_length q]"

definition buf_put :: "byte \<Rightarrow> intq \<Rightarrow> intq" where
  "buf_put b q = q\<lparr>buf := (buf q)[head q := b], head := intq_next (head q)\<rparr>"

definition buf_get :: "intq \<Rightarrow> byte \<times> intq" where
  "buf_get q = (buf q ! tail q, q\<lparr>tail := intq_next (tail q)\<rparr>)"

lemma length_intq_contents [simp]: "length (intq_contents q) = intq_length q"
  by (simp add: intq_contents_def)

text \<open>Positions around the ring.\<close>

lemma ring_length:
  fixes h t n :: nat assumes "h < n" "t < n"
  shows "(h + n - t) mod n = (if t \<le> h then h - t else h + n - t)"
proof (cases "t \<le> h")
  case True
  then have "h + n - t = (h - t) + n" by simp
  then have "(h + n - t) mod n = (h - t) mod n" by (simp only: mod_add_self2)
  then show ?thesis using True assms by simp
qed (use assms in simp)

lemma ring_pos:
  fixes t i n :: nat assumes "t < n" "i < n"
  shows "(t + i) mod n = (if t + i < n then t + i else t + i - n)"
proof (cases "t + i < n")
  case False
  then have "t + i = (t + i - n) + n" by simp
  then have "(t + i) mod n = (t + i - n) mod n" by (metis mod_add_self2)
  then show ?thesis using False assms by simp
qed simp

lemma intq_empty_iff: "intq_inv q \<Longrightarrow> head q = tail q \<longleftrightarrow> intq_contents q = []"
  unfolding length_0_conv [symmetric] length_intq_contents
  by (auto simp: intq_length_def intq_inv_def ring_length)

lemma intq_full_iff: "intq_inv q \<Longrightarrow> intq_next (head q) = tail q \<longleftrightarrow> length (intq_contents q) = INTQ_BUFSIZE - 1"
  by (auto simp: intq_length_def intq_inv_def ring_length intq_next_def ring_pos [where i = 1, simplified] INTQ_BUFSIZE_def split: if_splits)

lemma intq_length_le: "intq_inv q \<Longrightarrow> intq_length q \<le> INTQ_BUFSIZE - 1"
  by (auto simp: intq_length_def intq_inv_def ring_length INTQ_BUFSIZE_def)

lemma buf_put_inv: "intq_inv q \<Longrightarrow> intq_inv (buf_put b q)"
  by (simp add: intq_inv_def buf_put_def intq_next_def INTQ_BUFSIZE_def)

lemma buf_put_contents:
  assumes inv: "intq_inv q" and room: "length (intq_contents q) < INTQ_BUFSIZE - 1"
  shows "intq_contents (buf_put b q) = intq_contents q @ [b]"
proof -
  let ?n = "INTQ_BUFSIZE" and ?l = "intq_length q"
  have b: "length (buf q) = ?n" "head q < ?n" "tail q < ?n" using inv by (auto simp: intq_inv_def)
  have nh: "intq_next (head q) = (if head q + 1 < ?n then head q + 1 else 0)"
    using ring_pos [OF b(2), of 1] b(2) by (auto simp: intq_next_def INTQ_BUFSIZE_def)
  have l: "?l = (if tail q \<le> head q then head q - tail q else head q + ?n - tail q)"
    using ring_length [OF b(2,3)] by (simp add: intq_length_def)
  have l': "intq_length (buf_put b q) = Suc ?l"
    using room b nh by (auto simp: intq_length_def buf_put_def ring_length l split: if_splits)
  have at: "(tail q + ?l) mod ?n = head q" using b room by (auto simp: l ring_pos split: if_splits)
  have other: "head q \<noteq> (tail q + i) mod ?n" if "i < ?l" for i
    using that b room by (auto simp: l ring_pos split: if_splits)
  have "intq_contents (buf_put b q) = map (\<lambda>i. (buf q)[head q := b] ! ((tail q + i) mod ?n)) ([0..<?l] @ [?l])"
    unfolding intq_contents_def l' by (simp add: buf_put_def)
  also have "\<dots> = intq_contents q @ [b]" using at other b by (auto simp: intq_contents_def)
  finally show ?thesis .
qed

lemma buf_get_ok:
  assumes inv: "intq_inv q" and ne: "intq_contents q \<noteq> []"
  shows "intq_inv (snd (buf_get q))" "intq_contents q = fst (buf_get q) # intq_contents (snd (buf_get q))"
proof -
  let ?n = "INTQ_BUFSIZE" and ?l = "intq_length q" and ?q = "snd (buf_get q)"
  have b: "head q < ?n" "tail q < ?n" using inv by (auto simp: intq_inv_def)
  show "intq_inv ?q" using inv by (simp add: intq_inv_def buf_get_def intq_next_def INTQ_BUFSIZE_def)
  have ht: "head q \<noteq> tail q" using intq_empty_iff [OF inv] ne by simp
  have nt: "intq_next (tail q) = (if tail q + 1 < ?n then tail q + 1 else 0)"
    using ring_pos [OF b(2), of 1] b(2) by (auto simp: intq_next_def INTQ_BUFSIZE_def)
  have l: "?l = Suc (intq_length ?q)"
    using b ht nt by (auto simp: intq_length_def buf_get_def ring_length)
  have pos: "(intq_next (tail q) + i) mod ?n = (tail q + Suc i) mod ?n" for i
    by (simp add: intq_next_def mod_add_left_eq)
  show "intq_contents q = fst (buf_get q) # intq_contents ?q"
    unfolding intq_contents_def l map_upt_Suc using b by (simp add: buf_get_def pos)
qed

interpretation iq: bounded_fifo intq_inv intq_contents "INTQ_BUFSIZE - 1" buf_put buf_get
  by unfold_locales (rule buf_put_inv buf_put_contents buf_get_ok, assumption+)+

section \<open>The kernel operations implement it\<close>

text \<open>Waking the waiter, if there is one: a blocked thread that is on no other queue.\<close>

definition waiter_ok :: "kernel \<Rightarrow> ptr \<Rightarrow> bool" where
  "waiter_ok k p \<longleftrightarrow> p = NULL \<or> stat k p = Some THREAD_BLOCKED \<and> p \<noteq> idle_thread k \<and>
     (\<forall>s. p \<notin> set (sema_waiters k s)) \<and> p \<notin> set (sleepers k)"

text \<open>What is known of the kernel after a byte was moved: it is still consistent, the waiter \<open>p\<close> is ready,
  and the other waiters still wait.\<close>

definition woke :: "kernel \<Rightarrow> kernel \<Rightarrow> ptr \<Rightarrow> bool" where
  "woke k k' p \<longleftrightarrow> sched_inv k' \<and> running k' = running k \<and> intr_on k' = intr_on k \<and>
     in_external_intr k' = in_external_intr k \<and> (p \<noteq> NULL \<longrightarrow> p \<in> set (ready_list k')) \<and>
     (\<forall>r. waiter_ok k r \<longrightarrow> r \<noteq> p \<longrightarrow> waiter_ok k' r)"

lemma intq_signal_ok:
  assumes inv: "sched_inv k" and off: "\<not> intr_on k" and w: "waiter_ok k (waiter_of q w)"
    and c: "w = Not_empty \<and> head q \<noteq> tail q \<or> w = Not_full \<and> intq_next (head q) \<noteq> tail q"
  shows "\<exists>k'. intq_signal k q w =
      Some (k', case w of Not_empty \<Rightarrow> q\<lparr>not_empty := NULL\<rparr> | Not_full \<Rightarrow> q\<lparr>not_full := NULL\<rparr>) \<and>
    woke k k' (waiter_of q w)"
proof (cases "waiter_of q w = NULL")
  case True
  then have "q = (case w of Not_empty \<Rightarrow> q\<lparr>not_empty := NULL\<rparr> | Not_full \<Rightarrow> q\<lparr>not_full := NULL\<rparr>)"
    by (cases w) (simp_all add: waiter_of_def)
  then show ?thesis using True inv off c
    by (auto simp: intq_signal_def intq_empty_def intq_full_def woke_def)
next
  case False
  have p: "stat k (waiter_of q w) = Some THREAD_BLOCKED" "waiter_of q w \<noteq> idle_thread k"
      "\<And>s. waiter_of q w \<notin> set (sema_waiters k s)" "waiter_of q w \<notin> set (sleepers k)"
    using w False by (auto simp: waiter_ok_def)
  obtain k' where k': "thread_unblock k (waiter_of q w) = Some k'" "sched_inv k'" "running k' = running k"
      "ready_list k' = insert_ordered (\<lambda>x. - prio k x) (waiter_of q w) (ready_list k)" "intr_on k' = intr_on k"
      "frame k k'" "stat k' = (stat k)(waiter_of q w \<mapsto> THREAD_READY)"
    using thread_unblock_ok [OF inv p] off by blast
  have "waiter_of q w \<in> set (ready_list k')" unfolding k'(4) by (simp add: set_insert_ordered)
  then have "woke k k' (waiter_of q w)"
    using k' frame_queues [OF k'(6)] frame_semas(2) [OF k'(6)] by (auto simp: woke_def waiter_ok_def)
  then show ?thesis
    using k'(1) off c False by (cases w) (auto simp: intq_signal_def intq_empty_def intq_full_def waiter_of_def)
qed

lemma intq_putc_ok:
  assumes inv: "intq_inv q" "sched_inv k" "\<not> intr_on k" "waiter_ok k (not_empty q)"
    and room: "intq_next (head q) \<noteq> tail q"
  shows "\<exists>k' q'. intq_putc k q b = Some ([], k', q') \<and> q' = (buf_put b q)\<lparr>not_empty := NULL\<rparr> \<and> intq_inv q' \<and>
    intq_contents q' = intq_contents q @ [b] \<and> woke k k' (not_empty q)"
proof -
  let ?q = "buf_put b q"
  have r: "length (intq_contents q) < INTQ_BUFSIZE - 1"
    using intq_full_iff [OF inv(1)] room intq_length_le [OF inv(1)] by simp
  have c: "intq_contents ?q = intq_contents q @ [b]" "intq_inv ?q" using iq.contents_put iq.inv_put inv(1) r by auto
  then have ne: "head ?q \<noteq> tail ?q" using intq_empty_iff [of ?q] by simp
  have w: "waiter_of ?q Not_empty = not_empty q" by (simp add: waiter_of_def buf_put_def)
  obtain k' where s: "intq_signal k ?q Not_empty = Some (k', ?q\<lparr>not_empty := NULL\<rparr>)" "woke k k' (not_empty q)"
    using intq_signal_ok [OF inv(2,3), of ?q Not_empty] inv(4) ne unfolding w by auto
  have "head q < length (buf q)" using inv(1) by (simp add: intq_inv_def)
  then have "intq_putc k q b = Some ([], k', ?q\<lparr>not_empty := NULL\<rparr>)"
    using room s(1) inv(3) by (simp add: intq_putc_def intq_full_def buf_put_def Let_def)
  moreover have "intq_inv (?q\<lparr>not_empty := NULL\<rparr>)" "intq_contents (?q\<lparr>not_empty := NULL\<rparr>) = intq_contents ?q"
    using c(2) by (simp_all add: intq_inv_def intq_contents_def intq_length_def)
  ultimately show ?thesis using s(2) c(1) by auto
qed

lemma intq_getc_ok:
  assumes inv: "intq_inv q" "sched_inv k" "\<not> intr_on k" "waiter_ok k (not_full q)"
    and ne: "head q \<noteq> tail q"
  shows "\<exists>k' q'. intq_getc k q = Some (Inl (hd (intq_contents q)), k', q') \<and>
    q' = (snd (buf_get q))\<lparr>not_full := NULL\<rparr> \<and> intq_inv q' \<and>
    intq_contents q' = tl (intq_contents q) \<and> woke k k' (not_full q)"
proof -
  let ?q = "snd (buf_get q)"
  have "intq_contents q \<noteq> []" using intq_empty_iff [OF inv(1)] ne by simp
  then have c: "intq_contents q = fst (buf_get q) # intq_contents ?q" "intq_inv ?q"
    using buf_get_ok [OF inv(1)] by auto
  have "length (intq_contents ?q) < INTQ_BUFSIZE - 1"
    using arg_cong [OF c(1), of length] intq_length_le [OF inv(1)] by simp
  then have nf: "intq_next (head ?q) \<noteq> tail ?q" using intq_full_iff [OF c(2)] by simp
  have w: "waiter_of ?q Not_full = not_full q" by (simp add: waiter_of_def buf_get_def)
  obtain k' where s: "intq_signal k ?q Not_full = Some (k', ?q\<lparr>not_full := NULL\<rparr>)" "woke k k' (not_full q)"
    using intq_signal_ok [OF inv(2,3), of ?q Not_full] inv(4) nf unfolding w by auto
  have "tail q < length (buf q)" using inv(1) by (simp add: intq_inv_def)
  then have "intq_getc k q = Some (Inl (fst (buf_get q)), k', ?q\<lparr>not_full := NULL\<rparr>)"
    using ne s(1) inv(3) by (simp add: intq_getc_def intq_empty_def buf_get_def Let_def)
  moreover have "intq_inv (?q\<lparr>not_full := NULL\<rparr>)" "intq_contents (?q\<lparr>not_full := NULL\<rparr>) = intq_contents ?q"
    using c(2) by (simp_all add: intq_inv_def intq_contents_def intq_length_def)
  moreover have "hd (intq_contents q) = fst (buf_get q)" "tl (intq_contents q) = intq_contents ?q"
    by (simp_all add: c(1))
  ultimately show ?thesis using s(2) by auto
qed

text \<open>C28: Refinement.  With interrupts off, \<open>intq_putc\<close> on a queue that is not full and \<open>intq_getc\<close> on one that is
  not empty return, act on the circular buffer as appending to and removing the head of a list of at most
  63 bytes, and make a thread that was waiting for this ready to run.\<close>

theorem intq_refines_fifo:
  assumes "intq_inv q" "sched_inv k" "\<not> intr_on k" "waiter_ok k (not_empty q)" "waiter_ok k (not_full q)"
  shows "(length (intq_contents q) < 63 \<longrightarrow> (\<exists>k' q'. intq_putc k q b = Some ([], k', q') \<and> sched_inv k' \<and> intq_inv q' \<and>
      intq_contents q' = intq_contents q @ [b] \<and> (not_empty q \<noteq> NULL \<longrightarrow> not_empty q \<in> set (ready_list k')))) \<and>
    (intq_contents q \<noteq> [] \<longrightarrow> (\<exists>k' q'. intq_getc k q = Some (Inl (hd (intq_contents q)), k', q') \<and> sched_inv k' \<and>
      intq_inv q' \<and> intq_contents q' = tl (intq_contents q) \<and> (not_full q \<noteq> NULL \<longrightarrow> not_full q \<in> set (ready_list k'))))"
proof (intro conjI impI)
  assume "length (intq_contents q) < 63"
  then have "intq_next (head q) \<noteq> tail q" using intq_full_iff [OF assms(1)] by (simp add: INTQ_BUFSIZE_def)
  from intq_putc_ok [OF assms(1-4) this, of b]
  show "\<exists>k' q'. intq_putc k q b = Some ([], k', q') \<and> sched_inv k' \<and> intq_inv q' \<and>
      intq_contents q' = intq_contents q @ [b] \<and> (not_empty q \<noteq> NULL \<longrightarrow> not_empty q \<in> set (ready_list k'))"
    unfolding woke_def by blast
next
  assume "intq_contents q \<noteq> []"
  then have "head q \<noteq> tail q" using intq_empty_iff [OF assms(1)] by simp
  from intq_getc_ok [OF assms(1-3,5) this]
  show "\<exists>k' q'. intq_getc k q = Some (Inl (hd (intq_contents q)), k', q') \<and> sched_inv k' \<and>
      intq_inv q' \<and> intq_contents q' = tl (intq_contents q) \<and> (not_full q \<noteq> NULL \<longrightarrow> not_full q \<in> set (ready_list k'))"
    unfolding woke_def by blast
qed

definition demo_queue :: intq where
  "demo_queue = \<lparr>qlock = 8, not_full = NULL, not_empty = NULL, buf = replicate 64 0, head = 2, tail = 63\<rparr>"

theorem intq_refines_fifo_witness:
  "(\<exists>k' q'. intq_putc (demo_kernel\<lparr>intr_on := False\<rparr>) demo_queue 7 = Some ([], k', q') \<and> intq_contents q' = [0, 0, 0, 7]) \<and>
   (\<exists>k' q'. intq_getc (demo_kernel\<lparr>intr_on := False\<rparr>) demo_queue = Some (Inl 0, k', q') \<and> intq_contents q' = [0, 0])"
proof -
  have inv: "sched_inv (demo_kernel\<lparr>intr_on := False\<rparr>)" using demo_sched_inv by (simp add: sched_inv_intr)
  have q: "intq_inv demo_queue" "not_empty demo_queue = NULL" "not_full demo_queue = NULL"
    by (simp_all add: demo_queue_def intq_inv_def INTQ_BUFSIZE_def)
  have c: "intq_contents demo_queue = [0, 0, 0]"
    by (simp add: intq_contents_def intq_length_def demo_queue_def INTQ_BUFSIZE_def upt_rec)
  show ?thesis using intq_refines_fifo [OF q(1) inv, of 7] q c by (auto simp: waiter_ok_def)
qed

end
