(* ===== verification/Terminal.thy ===== *)
theory Terminal
  imports Interrupt_Queue
begin

text \<open>
  The terminal: the serial port driver \<open>devices/serial.c\<close>, the keyboard driver \<open>devices/kbd.c\<close> and the
  input buffer \<open>devices/input.c\<close> they both fill.  The hardware is behind its ports: \<open>port_in p n\<close> is what
  the \<open>n\<close>-th read of port \<open>p\<close> returns, \<open>port_cnt p\<close> counts the reads, and \<open>port_out\<close> lists the writes in
  their order.
\<close>

section \<open>Devices\<close>

datatype serial_mode = UNINIT | POLL | QUEUE

record dev =
  kern :: kernel
  port_in :: "nat \<Rightarrow> nat \<Rightarrow> byte"
  port_cnt :: "nat \<Rightarrow> nat"
  port_out :: "(nat \<times> byte) list"
  mode :: serial_mode
  txq :: intq
  buffer :: intq
  left_shift :: bool
  right_shift :: bool
  left_alt :: bool
  right_alt :: bool
  left_ctrl :: bool
  right_ctrl :: bool
  caps_lock :: bool
  key_cnt :: int

definition inb :: "dev \<Rightarrow> nat \<Rightarrow> byte \<times> dev" where
  "inb d p = (port_in d p (port_cnt d p), d\<lparr>port_cnt := (port_cnt d)(p := Suc (port_cnt d p))\<rparr>)"

definition outb :: "dev \<Rightarrow> nat \<Rightarrow> byte \<Rightarrow> dev" where
  "outb d p v = d\<lparr>port_out := port_out d @ [(p, v)]\<rparr>"

section \<open>The serial port\<close>

definition IO_BASE :: nat where "IO_BASE = 0x3f8"
definition RBR_REG :: nat where "RBR_REG = IO_BASE + 0"
definition THR_REG :: nat where "THR_REG = IO_BASE + 0"
definition IER_REG :: nat where "IER_REG = IO_BASE + 1"
definition LS_REG :: nat where "LS_REG = IO_BASE + 0"
definition MS_REG :: nat where "MS_REG = IO_BASE + 1"
definition IIR_REG :: nat where "IIR_REG = IO_BASE + 2"
definition FCR_REG :: nat where "FCR_REG = IO_BASE + 2"
definition LCR_REG :: nat where "LCR_REG = IO_BASE + 3"
definition MCR_REG :: nat where "MCR_REG = IO_BASE + 4"
definition LSR_REG :: nat where "LSR_REG = IO_BASE + 5"
definition IER_RECV :: byte where "IER_RECV = 0x01"
definition IER_XMIT :: byte where "IER_XMIT = 0x02"
definition LCR_N81 :: byte where "LCR_N81 = 0x03"
definition LCR_DLAB :: byte where "LCR_DLAB = 0x80"
definition MCR_OUT2 :: byte where "MCR_OUT2 = 0x08"
definition LSR_DR :: byte where "LSR_DR = 0x01"
definition LSR_THRE :: byte where "LSR_THRE = 0x20"

lemmas regs = IO_BASE_def RBR_REG_def THR_REG_def IER_REG_def LS_REG_def MS_REG_def IIR_REG_def FCR_REG_def
  LCR_REG_def MCR_REG_def LSR_REG_def

unbundle bit_operations_syntax

definition set_serial :: "dev \<Rightarrow> nat \<Rightarrow> dev option" where
  "set_serial d bps = do {
     let base_rate = 1843200 div 16;
     ASSERT (300 \<le> bps \<and> bps \<le> 115200);
     let divisor = (of_nat (base_rate div bps) :: 16 word);
     let d = outb d LCR_REG (LCR_N81 OR LCR_DLAB);
     let d = outb d LS_REG (ucast (divisor AND 0xff));
     let d = outb d MS_REG (ucast (drop_bit 8 divisor));
     Some (outb d LCR_REG LCR_N81) }"

definition init_poll :: "dev \<Rightarrow> dev option" where
  "init_poll d = do {
     ASSERT (mode d = UNINIT);
     let d = outb d IER_REG 0;
     let d = outb d FCR_REG 0;
     d \<leftarrow> set_serial d 115200;
     let d = outb d MCR_REG MCR_OUT2;
     (k, q) \<leftarrow> intq_init (kern d) (txq d);
     Some (d\<lparr>kern := k, txq := q, mode := POLL\<rparr>) }"

text \<open>\<open>write_ier\<close> asks for an interrupt when there is something to send and when there is room to receive.\<close>

definition input_full :: "dev \<Rightarrow> bool option" where
  "input_full d = do { ASSERT (\<not> intr_on (kern d)); intq_full (kern d) (buffer d) }"

definition write_ier :: "dev \<Rightarrow> dev option" where
  "write_ier d = do {
     ASSERT (\<not> intr_on (kern d));
     e \<leftarrow> intq_empty (kern d) (txq d);
     let ier = (if \<not> e then 0 OR IER_XMIT else 0);
     f \<leftarrow> input_full d;
     let ier = (if \<not> f then ier OR IER_RECV else ier);
     Some (outb d IER_REG ier) }"

text \<open>The busy-waiting of \<open>putc_poll\<close> may never end.\<close>

partial_function (option) poll_loop :: "dev \<Rightarrow> dev option" where
  "poll_loop d = (let (s, d) = inb d LSR_REG in if s AND LSR_THRE = 0 then poll_loop d else Some d)"

definition putc_poll :: "dev \<Rightarrow> byte \<Rightarrow> dev option" where
  "putc_poll d b = do {
     ASSERT (\<not> intr_on (kern d));
     d \<leftarrow> poll_loop d;
     Some (outb d THR_REG b) }"

text \<open>The end of \<open>serial_putc\<close>, reached at once or after having waited.\<close>

definition serial_putc_end :: "dev \<Rightarrow> bool \<Rightarrow> dev option" where
  "serial_putc_end d old_level = do {
     d \<leftarrow> write_ier d;
     k \<leftarrow> intr_set_level (kern d) (running (kern d)) old_level;
     Some (d\<lparr>kern := k\<rparr>) }"

text \<open>Taking a byte off the transmit queue and sending it by polling; the queue is not empty where this is done.\<close>

definition send_queued :: "dev \<Rightarrow> dev option" where
  "send_queued d = do {
     (r, k, q) \<leftarrow> intq_getc (kern d) (txq d);
     case r of Inl c \<Rightarrow> putc_poll (d\<lparr>kern := k, txq := q\<rparr>) c | Inr _ \<Rightarrow> None }"

text \<open>\<open>serial_putc\<close>: the steps left to make before \<open>serial_putc_end\<close> when it has to wait, none when it is done.\<close>

definition serial_putc :: "dev \<Rightarrow> byte \<Rightarrow> (intq_step list \<times> dev) option" where
  "serial_putc d b = do {
     let (old_level, k) = intr_disable (kern d);
     let d = d\<lparr>kern := k\<rparr>;
     if mode d \<noteq> QUEUE then do {
       d \<leftarrow> (if mode d = UNINIT then init_poll d else Some d);
       d \<leftarrow> putc_poll d b;
       k \<leftarrow> intr_set_level (kern d) (running (kern d)) old_level;
       Some ([], d\<lparr>kern := k\<rparr>) }
     else do {
       f \<leftarrow> intq_full (kern d) (txq d);
       d \<leftarrow> (if \<not> old_level \<and> f then send_queued d else Some d);
       (steps, k, q) \<leftarrow> intq_putc (kern d) (txq d) b;
       let d = d\<lparr>kern := k, txq := q\<rparr>;
       if steps = [] then do { d \<leftarrow> serial_putc_end d old_level; Some ([], d) }
       else Some (steps, d) } }"

partial_function (option) flush_loop :: "dev \<Rightarrow> dev option" where
  "flush_loop d = do {
     e \<leftarrow> intq_empty (kern d) (txq d);
     if e then Some d else do { d \<leftarrow> send_queued d; flush_loop d } }"

definition serial_flush :: "dev \<Rightarrow> dev option" where
  "serial_flush d = do {
     let (old_level, k) = intr_disable (kern d);
     d \<leftarrow> flush_loop (d\<lparr>kern := k\<rparr>);
     k \<leftarrow> intr_set_level (kern d) (running (kern d)) old_level;
     Some (d\<lparr>kern := k\<rparr>) }"

definition serial_notify :: "dev \<Rightarrow> dev option" where
  "serial_notify d = do {
     ASSERT (\<not> intr_on (kern d));
     if mode d = QUEUE then write_ier d else Some d }"

section \<open>The input buffer\<close>

definition input_init :: "dev \<Rightarrow> dev option" where
  "input_init d = do {
     (k, q) \<leftarrow> intq_init (kern d) (buffer d);
     Some (d\<lparr>kern := k, buffer := q\<rparr>) }"

text \<open>The buffer is not full when the byte is added, so nothing is left to do.\<close>

definition input_putc :: "dev \<Rightarrow> byte \<Rightarrow> dev option" where
  "input_putc d key = do {
     ASSERT (\<not> intr_on (kern d));
     f \<leftarrow> intq_full (kern d) (buffer d);
     ASSERT (\<not> f);
     (steps, k, q) \<leftarrow> intq_putc (kern d) (buffer d) key;
     ASSERT (steps = []);
     serial_notify (d\<lparr>kern := k, buffer := q\<rparr>) }"

definition input_getc_end :: "dev \<Rightarrow> bool \<Rightarrow> dev option" where
  "input_getc_end d old_level = do {
     d \<leftarrow> serial_notify d;
     k \<leftarrow> intr_set_level (kern d) (running (kern d)) old_level;
     Some (d\<lparr>kern := k\<rparr>) }"

definition input_getc :: "dev \<Rightarrow> ((byte + intq_step list) \<times> dev) option" where
  "input_getc d = do {
     let (old_level, k) = intr_disable (kern d);
     (r, k, q) \<leftarrow> intq_getc k (buffer d);
     let d = d\<lparr>kern := k, buffer := q\<rparr>;
     case r of
       Inl c \<Rightarrow> do { d \<leftarrow> input_getc_end d old_level; Some (Inl c, d) }
     | Inr steps \<Rightarrow> Some (Inr steps, d) }"

section \<open>The serial interrupt\<close>

partial_function (option) recv_loop :: "dev \<Rightarrow> dev option" where
  "recv_loop d = do {
     f \<leftarrow> input_full d;
     if f then Some d
     else let (s, d) = inb d LSR_REG in
       if s AND LSR_DR \<noteq> 0
       then let (c, d) = inb d RBR_REG in do { d \<leftarrow> input_putc d c; recv_loop d }
       else Some d }"

partial_function (option) xmit_loop :: "dev \<Rightarrow> dev option" where
  "xmit_loop d = do {
     e \<leftarrow> intq_empty (kern d) (txq d);
     if e then Some d
     else let (s, d) = inb d LSR_REG in
       if s AND LSR_THRE \<noteq> 0
       then do {
         (r, k, q) \<leftarrow> intq_getc (kern d) (txq d);
         case r of
           Inl c \<Rightarrow> xmit_loop (outb (d\<lparr>kern := k, txq := q\<rparr>) THR_REG c)
         | Inr _ \<Rightarrow> None }
       else Some d }"

definition serial_interrupt :: "dev \<Rightarrow> dev option" where
  "serial_interrupt d = do {
     let (_, d) = inb d IIR_REG;
     d \<leftarrow> recv_loop d;
     d \<leftarrow> xmit_loop d;
     write_ier d }"

section \<open>The keyboard\<close>

definition DATA_REG :: nat where "DATA_REG = 0x60"

text \<open>A \<open>struct keymap\<close>: a first scan code and the characters of the codes from there on.\<close>

type_synonym keymap = "(nat \<times> byte list) list"

definition chars :: "string \<Rightarrow> byte list" where
  "chars = map of_char"

definition invariant_keymap :: keymap where
  "invariant_keymap =
     [(0x01, chars [CHR 0x1B]), (0x0e, chars [CHR 0x08]), (0x0f, chars (CHR 0x09 # ''QWERTYUIOP'')),
      (0x1c, chars [CHR 0x0D]), (0x1e, chars ''ASDFGHJKL''), (0x2c, chars ''ZXCVBNM''), (0x37, chars ''*''),
      (0x39, chars '' '')]"

definition unshifted_keymap :: keymap where
  "unshifted_keymap =
     [(0x02, chars ''1234567890-=''), (0x1a, chars ''[]''), (0x27, chars [CHR 0x3B, CHR 0x27, CHR 0x60]),
      (0x2b, chars [CHR 0x5C]), (0x33, chars '',./'')]"

definition shifted_keymap :: keymap where
  "shifted_keymap =
     [(0x02, chars ''!@#$%^&*()_+''), (0x1a, chars ''{}''), (0x27, chars [CHR 0x3A, CHR 0x22, CHR 0x7E]),
      (0x2b, chars ''|''), (0x33, chars ''<>?'')]"

fun map_key :: "keymap \<Rightarrow> nat \<Rightarrow> byte option" where
  "map_key [] scancode = None"
| "map_key ((first_scancode, cs) # k) scancode =
     (if first_scancode \<le> scancode \<and> scancode < first_scancode + length cs
      then Some (cs ! (scancode - first_scancode)) else map_key k scancode)"

definition tolower :: "byte \<Rightarrow> byte" where
  "tolower c = (if 0x41 \<le> c \<and> c \<le> 0x5A then c - 0x41 + 0x61 else c)"

text \<open>The scan code, with the second byte of a prefixed one.\<close>

definition read_code :: "dev \<Rightarrow> 32 word \<times> dev" where
  "read_code d = (let (b, d) = inb d DATA_REG; code = ucast b in
     if code = 0xe0 then let (b, d) = inb d DATA_REG in (push_bit 8 code OR ucast b, d) else (code, d))"

text \<open>The character of an ordinary key.\<close>

definition key_lookup :: "bool \<Rightarrow> nat \<Rightarrow> byte option" where
  "key_lookup shift code =
     (case map_key invariant_keymap code of
        Some c \<Rightarrow> Some c
      | None \<Rightarrow> if shift then map_key shifted_keymap code else map_key unshifted_keymap code)"

definition modified :: "bool \<Rightarrow> bool \<Rightarrow> bool \<Rightarrow> bool \<Rightarrow> byte \<Rightarrow> byte" where
  "modified shift ctrl alt caps c =
     (let c = (if ctrl \<and> 0x40 \<le> c \<and> c < 0x60 then c - 0x40 else if shift = caps then tolower c else c)
      in if alt then c + 0x80 else c)"

definition set_shift_key :: "dev \<Rightarrow> nat \<Rightarrow> bool \<Rightarrow> dev" where
  "set_shift_key d code pressed =
     (if code = 0x2a then d\<lparr>left_shift := pressed\<rparr>
      else if code = 0x36 then d\<lparr>right_shift := pressed\<rparr>
      else if code = 0x38 then d\<lparr>left_alt := pressed\<rparr>
      else if code = 0xe038 then d\<lparr>right_alt := pressed\<rparr>
      else if code = 0x1d then d\<lparr>left_ctrl := pressed\<rparr>
      else if code = 0xe01d then d\<lparr>right_ctrl := pressed\<rparr>
      else d)"

definition keyboard_interrupt :: "dev \<Rightarrow> dev option" where
  "keyboard_interrupt d =
     (let shift = left_shift d \<or> right_shift d;
          alt = left_alt d \<or> right_alt d;
          ctrl = left_ctrl d \<or> right_ctrl d;
          (code, d) = read_code d;
          release = (code AND 0x80 \<noteq> 0);
          code = unat (code AND NOT 0x80)
      in if code = 0x3a then Some (if \<not> release then d\<lparr>caps_lock := \<not> caps_lock d\<rparr> else d)
         else case key_lookup shift code of
           Some c \<Rightarrow>
             if \<not> release then do {
               let c = modified shift ctrl alt (caps_lock d) c;
               f \<leftarrow> input_full d;
               if \<not> f then input_putc (d\<lparr>key_cnt := key_cnt d + 1\<rparr>) c else Some d }
             else Some d
         | None \<Rightarrow> Some (set_shift_key d code (\<not> release)))"

end
