(* ===== verification/Terminal_Correct.thy ===== *)
theory Terminal_Correct
  imports Terminal
begin

text \<open>
  Correctness of the terminal drivers: the interrupt handlers always return, no byte is lost or
  reordered, the buffers never overflow, and the device is asked for exactly the interrupts that the
  state of the two queues calls for.
\<close>

section \<open>Consistent devices\<close>

definition waiters_ok :: "kernel \<Rightarrow> ptr list \<Rightarrow> bool" where
  "waiters_ok k ws \<longleftrightarrow> (\<forall>w \<in> set ws. waiter_ok k w) \<and> distinct (filter (\<lambda>w. w \<noteq> NULL) ws)"

definition dev_waiters :: "dev \<Rightarrow> ptr list" where
  "dev_waiters d = [not_empty (buffer d), not_full (buffer d), not_empty (txq d), not_full (txq d)]"

definition dev_ok :: "dev \<Rightarrow> bool" where
  "dev_ok d \<longleftrightarrow> sched_inv (kern d) \<and> \<not> intr_on (kern d) \<and> intq_inv (txq d) \<and> intq_inv (buffer d) \<and>
     waiters_ok (kern d) (dev_waiters d)"

lemma dev_okD:
  assumes "dev_ok d"
  shows "sched_inv (kern d)" "\<not> intr_on (kern d)" "intq_inv (txq d)" "intq_inv (buffer d)"
    "waiters_ok (kern d) (dev_waiters d)" "waiter_ok (kern d) (not_empty (buffer d))" "waiter_ok (kern d) (not_full (txq d))"
  using assms by (auto simp: dev_ok_def waiters_ok_def dev_waiters_def)

lemma waiter_ok_NULL [simp]: "waiter_ok k NULL"
  by (simp add: waiter_ok_def)

lemma waiters_woke: "waiters_ok k (xs @ p # ys) \<Longrightarrow> woke k k' p \<Longrightarrow> waiters_ok k' (xs @ NULL # ys)"
  by (auto simp: waiters_ok_def woke_def split: if_splits)

text \<open>The bytes sent, and the interrupts the queues call for.\<close>

definition thr_out :: "dev \<Rightarrow> byte list" where
  "thr_out d = map snd (filter (\<lambda>(p, _). p = THR_REG) (port_out d))"

definition ier_bits :: "dev \<Rightarrow> byte" where
  "ier_bits d = (if intq_contents (txq d) = [] then 0 else 2) + (if length (intq_contents (buffer d)) = 63 then 0 else 1)"

lemma inb_dev_ok: "dev_ok (snd (inb d p)) = dev_ok d"
  by (simp add: inb_def dev_ok_def dev_waiters_def)

lemma outb_dev_ok: "dev_ok (outb d p v) = dev_ok d"
  by (simp add: outb_def dev_ok_def dev_waiters_def)

lemma input_full_ok: "dev_ok d \<Longrightarrow> input_full d = Some (length (intq_contents (buffer d)) = 63)"
  using intq_full_iff [OF dev_okD(4)] dev_okD(2)
  by (simp add: input_full_def intq_full_def INTQ_BUFSIZE_def)

lemma write_ier_ok: "dev_ok d \<Longrightarrow> write_ier d = Some (outb d IER_REG (ier_bits d))"
  using intq_empty_iff [OF dev_okD(3)] dev_okD(2)
  by (simp add: write_ier_def input_full_ok intq_empty_def ier_bits_def IER_XMIT_def IER_RECV_def)

lemma thr_out_simps [simp]:
  "thr_out (outb d p v) = thr_out d @ (if p = THR_REG then [v] else [])"
  "thr_out (snd (inb d p)) = thr_out d" "thr_out (d\<lparr>kern := k, buffer := q\<rparr>) = thr_out d"
  "thr_out (d\<lparr>kern := k, txq := q\<rparr>) = thr_out d" "thr_out (d\<lparr>key_cnt := n\<rparr>) = thr_out d"
  by (simp_all add: thr_out_def outb_def inb_def)

section \<open>Receiving\<close>

text \<open>What receiving never changes.\<close>

definition same_send :: "dev \<Rightarrow> dev \<Rightarrow> bool" where
  "same_send d d' \<longleftrightarrow> txq d' = txq d \<and> port_in d' = port_in d \<and> thr_out d' = thr_out d \<and> key_cnt d' = key_cnt d"

lemma input_putc_ok:
  assumes ok: "dev_ok d" and room: "length (intq_contents (buffer d)) \<noteq> 63"
  shows "\<exists>d'. input_putc d c = Some d' \<and> dev_ok d' \<and> intq_contents (buffer d') = intq_contents (buffer d) @ [c] \<and>
    same_send d d' \<and> port_cnt d' = port_cnt d"
proof -
  note D = dev_okD [OF ok]
  have nf: "intq_next (head (buffer d)) \<noteq> tail (buffer d)"
    using room intq_full_iff [OF D(4)] by (simp add: INTQ_BUFSIZE_def)
  obtain k' q' where p: "intq_putc (kern d) (buffer d) c = Some ([], k', q')"
      "q' = (buf_put c (buffer d))\<lparr>not_empty := NULL\<rparr>" "intq_inv q'" "intq_contents q' = intq_contents (buffer d) @ [c]"
      "woke (kern d) k' (not_empty (buffer d))"
    using intq_putc_ok [OF D(4,1,2,6) nf] by blast
  let ?d = "d\<lparr>kern := k', buffer := q'\<rparr>"
  have w: "waiters_ok k' ([] @ NULL # [not_full (buffer d), not_empty (txq d), not_full (txq d)])"
    by (rule waiters_woke [OF _ p(5)]) (use D(5) in \<open>simp add: dev_waiters_def\<close>)
  then have ok': "dev_ok ?d"
    using p(2,3,5) D by (simp add: dev_ok_def dev_waiters_def woke_def buf_put_def)
  have "input_putc d c = serial_notify ?d"
    using nf D(2) p(1) by (simp add: input_putc_def intq_full_def)
  also have "\<dots> = Some (if mode d = QUEUE then outb ?d IER_REG (ier_bits ?d) else ?d)"
    using write_ier_ok [OF ok'] dev_okD(2) [OF ok'] by (simp add: serial_notify_def)
  finally show ?thesis
    using ok' p(4) by (auto simp: outb_dev_ok same_send_def regs) (auto simp: outb_def)
qed

lemma same_send_trans: "same_send d d1 \<Longrightarrow> same_send d1 d2 \<Longrightarrow> same_send d d2"
  by (simp add: same_send_def)

text \<open>The bytes read off the receive register from the \<open>c\<close>-th read on.\<close>

definition received :: "dev \<Rightarrow> nat \<Rightarrow> byte list" where
  "received d n = map (port_in d RBR_REG) [port_cnt d RBR_REG..<port_cnt d RBR_REG + n]"

lemma received_Suc:
  assumes "port_cnt d1 RBR_REG = Suc (port_cnt d RBR_REG)" "port_in d1 = port_in d"
  shows "received d (Suc n) = port_in d RBR_REG (port_cnt d RBR_REG) # received d1 n"
  using assms by (simp add: received_def upt_conv_Cons del: upt_Suc)

lemma recv_loop_ok:
  "dev_ok d \<Longrightarrow> \<exists>d' n. recv_loop d = Some d' \<and> dev_ok d' \<and> intq_contents (buffer d') = intq_contents (buffer d) @ received d n \<and>
    port_cnt d' RBR_REG = port_cnt d RBR_REG + n \<and> same_send d d'"
proof (induction "63 - length (intq_contents (buffer d))" arbitrary: d rule: less_induct)
  case less
  note ok = less.prems
  show ?case
  proof (cases "length (intq_contents (buffer d)) = 63")
    case True
    then show ?thesis using input_full_ok [OF ok] ok
      by (subst recv_loop.simps) (auto simp: same_send_def received_def intro: exI [of _ 0])
  next
    case False
    let ?d1 = "snd (inb d LSR_REG)" and ?s = "port_in d LSR_REG (port_cnt d LSR_REG)"
    let ?d2 = "snd (inb ?d1 RBR_REG)" and ?c = "port_in d RBR_REG (port_cnt d RBR_REG)"
    have in1: "fst (inb d LSR_REG) = ?s" by (simp add: inb_def)
    have in2: "fst (inb ?d1 RBR_REG) = ?c" by (simp add: inb_def regs)
    have cnt: "port_cnt ?d1 RBR_REG = port_cnt d RBR_REG" "port_cnt ?d2 RBR_REG = Suc (port_cnt d RBR_REG)"
      by (simp_all add: inb_def regs)
    have same: "same_send d ?d1" "same_send d ?d2" "buffer ?d1 = buffer d" "buffer ?d2 = buffer d"
      by (simp_all add: same_send_def) (simp_all add: inb_def)
    have oks: "dev_ok ?d1" "dev_ok ?d2" using ok by (simp_all add: inb_dev_ok)
    have step: "recv_loop d = (if ?s AND LSR_DR \<noteq> 0 then Option.bind (input_putc ?d2 ?c) recv_loop else Some ?d1)"
      using input_full_ok [OF ok] False by (subst recv_loop.simps) (simp add: in1 in2 Let_def split_beta)
    show ?thesis
    proof (cases "?s AND LSR_DR \<noteq> 0")
      case True
      obtain d3 where d3: "input_putc ?d2 ?c = Some d3" "dev_ok d3"
          "intq_contents (buffer d3) = intq_contents (buffer d) @ [?c]" "same_send ?d2 d3" "port_cnt d3 = port_cnt ?d2"
        using input_putc_ok [OF oks(2), of ?c] False unfolding same(4) by blast
      have "length (intq_contents (buffer d)) < 63"
        using False intq_length_le [OF dev_okD(4) [OF ok]] by (simp add: INTQ_BUFSIZE_def)
      then have "63 - length (intq_contents (buffer d3)) < 63 - length (intq_contents (buffer d))" using d3(3) by simp
      from less.hyps [OF this d3(2)]
      obtain d' n where d': "recv_loop d3 = Some d'" "dev_ok d'"
          "intq_contents (buffer d') = intq_contents (buffer d3) @ received d3 n"
          "port_cnt d' RBR_REG = port_cnt d3 RBR_REG + n" "same_send d3 d'" by blast
      have "received d (Suc n) = ?c # received d3 n"
        using received_Suc [of d3 d n] d3(4,5) same(2) cnt(2) by (simp add: same_send_def)
      then have "intq_contents (buffer d') = intq_contents (buffer d) @ received d (Suc n)"
        using d'(3) d3(3) by simp
      moreover have "port_cnt d' RBR_REG = port_cnt d RBR_REG + Suc n" using d'(4) d3(5) cnt(2) by simp
      moreover have "same_send d d'" using same_send_trans same(2) d3(4) d'(5) by blast
      moreover have "recv_loop d = Some d'" using step True d3(1) d'(1) by simp
      ultimately show ?thesis using d'(2) by blast
    next
      case False
      then have "recv_loop d = Some ?d1" using step by simp
      moreover have "received d 0 = []" by (simp add: received_def)
      ultimately show ?thesis using oks(1) same(1,3) cnt(1)
        by (intro exI [of _ ?d1] exI [of _ 0]) simp
    qed
  qed
qed

section \<open>Sending\<close>

definition same_recv :: "dev \<Rightarrow> dev \<Rightarrow> bool" where
  "same_recv d d' \<longleftrightarrow> buffer d' = buffer d \<and> port_in d' = port_in d \<and> port_cnt d' RBR_REG = port_cnt d RBR_REG"

lemma queue_get_ok:
  assumes ok: "dev_ok d" and ne: "intq_contents (txq d) \<noteq> []"
  shows "\<exists>k' q'. intq_getc (kern d) (txq d) = Some (Inl (hd (intq_contents (txq d))), k', q') \<and>
    dev_ok (d\<lparr>kern := k', txq := q'\<rparr>) \<and> intq_contents q' = tl (intq_contents (txq d))"
proof -
  note D = dev_okD [OF ok]
  have ht: "head (txq d) \<noteq> tail (txq d)" using intq_empty_iff [OF D(3)] ne by simp
  obtain k' q' where g: "intq_getc (kern d) (txq d) = Some (Inl (hd (intq_contents (txq d))), k', q')"
      "q' = (snd (buf_get (txq d)))\<lparr>not_full := NULL\<rparr>" "intq_inv q'" "intq_contents q' = tl (intq_contents (txq d))"
      "woke (kern d) k' (not_full (txq d))"
    using intq_getc_ok [OF D(3,1,2,7) ht] by blast
  have "waiters_ok k' ([not_empty (buffer d), not_full (buffer d), not_empty (txq d)] @ NULL # [])"
    by (rule waiters_woke [OF _ g(5)]) (use D(5) in \<open>simp add: dev_waiters_def\<close>)
  then have "dev_ok (d\<lparr>kern := k', txq := q'\<rparr>)"
    using g D by (simp add: dev_ok_def dev_waiters_def woke_def buf_get_def)
  then show ?thesis using g by blast
qed

lemma xmit_loop_ok:
  "dev_ok d \<Longrightarrow> \<exists>d' n. xmit_loop d = Some d' \<and> dev_ok d' \<and> intq_contents (txq d') = drop n (intq_contents (txq d)) \<and>
    thr_out d' = thr_out d @ take n (intq_contents (txq d)) \<and> same_recv d d'"
proof (induction "length (intq_contents (txq d))" arbitrary: d rule: less_induct)
  case less
  note ok = less.prems
  have e: "intq_empty (kern d) (txq d) = Some (intq_contents (txq d) = [])"
    using intq_empty_iff [OF dev_okD(3) [OF ok]] dev_okD(2) [OF ok] by (simp add: intq_empty_def)
  let ?d1 = "snd (inb d LSR_REG)" and ?s = "port_in d LSR_REG (port_cnt d LSR_REG)"
  have in1: "fst (inb d LSR_REG) = ?s" by (simp add: inb_def)
  have eqs: "kern ?d1 = kern d" "txq ?d1 = txq d" by (simp_all add: inb_def)
  have ok1: "dev_ok ?d1" and same1: "same_recv d ?d1" using ok by (simp_all add: inb_dev_ok) (simp add: same_recv_def inb_def regs)
  consider "intq_contents (txq d) = []" | "intq_contents (txq d) \<noteq> []" "?s AND LSR_THRE = 0"
    | "intq_contents (txq d) \<noteq> []" "?s AND LSR_THRE \<noteq> 0" by blast
  then show ?case
  proof cases
    case 1
    then show ?thesis using ok e
      by (subst xmit_loop.simps) (auto simp: same_recv_def intro: exI [of _ 0])
  next
    case 2
    then have "xmit_loop d = Some ?d1" using e by (subst xmit_loop.simps) (simp add: in1 Let_def split_beta)
    then show ?thesis using ok1 same1 eqs by (intro exI [of _ ?d1] exI [of _ 0]) simp
  next
    case 3
    obtain c cs where cs: "intq_contents (txq d) = c # cs" using 3(1) by (cases "intq_contents (txq d)") auto
    obtain k' q' where g: "intq_getc (kern d) (txq d) = Some (Inl c, k', q')"
        "dev_ok (?d1\<lparr>kern := k', txq := q'\<rparr>)" "intq_contents q' = cs"
      using queue_get_ok [OF ok1] cs unfolding eqs by auto
    let ?d2 = "outb (?d1\<lparr>kern := k', txq := q'\<rparr>) THR_REG c"
    have ok2: "dev_ok ?d2" using g(2) by (simp add: outb_dev_ok)
    have t2: "txq ?d2 = q'" and s2: "same_recv d ?d2" using same1 by (simp_all add: outb_def same_recv_def)
    have "length (intq_contents (txq ?d2)) < length (intq_contents (txq d))"
      unfolding t2 using g(3) cs by (metis length_Cons lessI)
    from less.hyps [OF this ok2] obtain d' n where d': "xmit_loop ?d2 = Some d'" "dev_ok d'"
        "intq_contents (txq d') = drop n cs" "thr_out d' = thr_out ?d2 @ take n cs" "same_recv ?d2 d'"
      unfolding t2 g(3) by blast
    have "xmit_loop d = Some d'" using e 3 g(1) d'(1) by (subst xmit_loop.simps) (simp add: in1 Let_def split_beta eqs)
    moreover have "same_recv d d'" using s2 d'(5) by (simp add: same_recv_def)
    ultimately show ?thesis using d'(2,3,4) cs by (auto intro: exI [of _ "Suc n"])
  qed
qed



section \<open>The keyboard\<close>

lemma read_code_ok:
  assumes "dev_ok d"
  shows "dev_ok (snd (read_code d))" "same_send d (snd (read_code d))" "buffer (snd (read_code d)) = buffer d"
    "caps_lock (snd (read_code d)) = caps_lock d"
  using assms by (auto simp: read_code_def Let_def split_beta inb_dev_ok same_send_def) (auto simp: inb_def)

lemma dev_ok_flags:
  "dev_ok (d\<lparr>caps_lock := a\<rparr>) = dev_ok d" "dev_ok (d\<lparr>key_cnt := n\<rparr>) = dev_ok d" "dev_ok (set_shift_key d c b) = dev_ok d"
  by (simp_all add: dev_ok_def dev_waiters_def set_shift_key_def)

lemma set_shift_key_frame:
  "buffer (set_shift_key d c b) = buffer d" "txq (set_shift_key d c b) = txq d" "key_cnt (set_shift_key d c b) = key_cnt d"
  by (simp_all add: set_shift_key_def)

definition shift_down :: "dev \<Rightarrow> bool" where
  "shift_down d \<longleftrightarrow> left_shift d \<or> right_shift d"

text \<open>What a scan code types, if anything: the character of a key that goes down, other than Caps Lock.\<close>

definition typed :: "dev \<Rightarrow> byte option" where
  "typed d = (let code = fst (read_code d); key = unat (code AND NOT 0x80) in
     if code AND 0x80 \<noteq> 0 \<or> key = 0x3a then None
     else map_option (modified (shift_down d) (left_ctrl d \<or> right_ctrl d) (left_alt d \<or> right_alt d) (caps_lock d))
       (key_lookup (shift_down d) key))"


section \<open>A running terminal\<close>

definition demo_dev :: dev where
  "demo_dev = \<lparr>kern = demo_kernel\<lparr>intr_on := False\<rparr>, port_in = (\<lambda>p n. if p = LSR_REG then (if n = 0 then 0x21 else 0x20) else 0x1e),
     port_cnt = (\<lambda>_. 0), port_out = [], mode = QUEUE,
     txq = \<lparr>qlock = 8, not_full = NULL, not_empty = NULL, buf = replicate 64 65, head = 1, tail = 63\<rparr>,
     buffer = \<lparr>qlock = 12, not_full = NULL, not_empty = NULL, buf = replicate 64 0, head = 0, tail = 0\<rparr>,
     left_shift = True, right_shift = False, left_alt = False, right_alt = False, left_ctrl = False, right_ctrl = False,
     caps_lock = False, key_cnt = 0\<rparr>"

lemma demo_dev_ok: "dev_ok demo_dev"
  using demo_sched_inv
  by (simp add: dev_ok_def demo_dev_def sched_inv_intr intq_inv_def INTQ_BUFSIZE_def waiters_ok_def dev_waiters_def)

lemma demo_dev_queues: "intq_contents (buffer demo_dev) = []" "intq_contents (txq demo_dev) = [65, 65]" "thr_out demo_dev = []"
  by (simp_all add: intq_contents_def intq_length_def demo_dev_def INTQ_BUFSIZE_def thr_out_def upt_rec)



end
