(* ===== verification/Interrupts.thy ===== *)
theory Interrupts
  imports Terminal_Correct
begin

text \<open>
  Interrupt dispatch, \<open>threads/interrupt.c\<close>: the descriptor table, the registration of handlers, the
  programmable interrupt controllers and \<open>intr_handler\<close>, through which every interrupt goes; and the
  registrations the kernel makes while it boots.  The entry stubs are assembly: \<open>stub v\<close> is the address
  of the stub of vector \<open>v\<close>, and \<open>run\<close> what the registered handlers do.
\<close>

unbundle bit_operations_syntax

section \<open>Gates\<close>

definition INTR_CNT :: nat where "INTR_CNT = 256"
definition SEL_KCSEG :: "16 word" where "SEL_KCSEG = 0x08"

record gate =
  off_15_0 :: "16 word"
  gate_ss :: "16 word"
  ist :: "3 word"
  rsv1 :: "5 word"
  gate_type :: "4 word"
  gate_s :: "1 word"
  dpl :: "2 word"
  gate_p :: "1 word"
  off_31_16 :: "16 word"
  off_32_63 :: "32 word"
  rsv2 :: "32 word"

definition make_gate :: "64 word \<Rightarrow> int \<Rightarrow> int \<Rightarrow> gate option" where
  "make_gate f d t = do {
     ASSERT (f \<noteq> 0);
     ASSERT (d \<ge> 0 \<and> d \<le> 3);
     ASSERT (t \<ge> 0 \<and> t \<le> 15);
     Some \<lparr>off_15_0 = ucast (f AND 0xffff), gate_ss = SEL_KCSEG, ist = 0, rsv1 = 0, gate_type = of_int t, gate_s = 0,
       dpl = of_int d, gate_p = 1, off_31_16 = ucast (drop_bit 16 f AND 0xffff),
       off_32_63 = ucast (drop_bit 32 f AND 0xffffffff), rsv2 = 0\<rparr> }"

definition make_intr_gate :: "64 word \<Rightarrow> int \<Rightarrow> gate option" where
  "make_intr_gate f d = make_gate f d 14"

definition make_trap_gate :: "64 word \<Rightarrow> int \<Rightarrow> gate option" where
  "make_trap_gate f d = make_gate f d 15"

section \<open>Tables\<close>

datatype handler = Timer_interrupt | Keyboard_interrupt | Serial_interrupt | Kill | Page_fault

record intr_tables =
  idt :: "nat \<rightharpoonup> gate"
  intr_handlers :: "nat \<rightharpoonup> handler"
  intr_names :: "nat \<rightharpoonup> string"

definition pic_init :: "dev \<Rightarrow> dev" where
  "pic_init d = fold (\<lambda>(p, v) d. outb d p v)
     [(0x21, 0xff), (0xa1, 0xff),
      (0x20, 0x11), (0x21, 0x20), (0x21, 0x04), (0x21, 0x01),
      (0xa0, 0x11), (0xa1, 0x28), (0xa1, 0x02), (0xa1, 0x01),
      (0x21, 0x00), (0xa1, 0x00)] d"

definition pic_end_of_interrupt :: "dev \<Rightarrow> nat \<Rightarrow> dev option" where
  "pic_end_of_interrupt d irq = do {
     ASSERT (0x20 \<le> irq \<and> irq < 0x30);
     let d = outb d 0x20 0x20;
     Some (if irq \<ge> 0x28 then outb d 0xa0 0x20 else d) }"

fun init_gates :: "(nat \<Rightarrow> 64 word) \<Rightarrow> nat list \<Rightarrow> intr_tables \<Rightarrow> intr_tables option" where
  "init_gates stub [] t = Some t"
| "init_gates stub (i # is) t = do {
     g \<leftarrow> make_intr_gate (stub i) 0;
     init_gates stub is (t\<lparr>idt := (idt t)(i \<mapsto> g), intr_names := (intr_names t)(i \<mapsto> ''unknown'')\<rparr>) }"

definition cpu_names :: "(nat \<times> string) list" where
  "cpu_names =
     [(0, ''#DE Divide Error''), (1, ''#DB Debug Exception''), (2, ''NMI Interrupt''),
      (3, ''#BP Breakpoint Exception''), (4, ''#OF Overflow Exception''), (5, ''#BR BOUND Range Exceeded Exception''),
      (6, ''#UD Invalid Opcode Exception''), (7, ''#NM Device Not Available Exception''),
      (8, ''#DF Double Fault Exception''), (9, ''Coprocessor Segment Overrun''), (10, ''#TS Invalid TSS Exception''),
      (11, ''#NP Segment Not Present''), (12, ''#SS Stack Fault Exception''), (13, ''#GP General Protection Exception''),
      (14, ''#PF Page-Fault Exception''), (16, ''#MF x87 FPU Floating-Point Error''),
      (17, ''#AC Alignment Check Exception''), (18, ''#MC Machine-Check Exception''),
      (19, ''#XF SIMD Floating-Point Exception'')]"

text \<open>\<open>intr_init\<close>; the table is static, so no handler is registered yet.\<close>

definition intr_init :: "(nat \<Rightarrow> 64 word) \<Rightarrow> dev \<Rightarrow> (intr_tables \<times> dev) option" where
  "intr_init stub d = do {
     let d = pic_init d;
     t \<leftarrow> init_gates stub [0..<INTR_CNT] \<lparr>idt = Map.empty, intr_handlers = Map.empty, intr_names = Map.empty\<rparr>;
     Some (t\<lparr>intr_names := intr_names t ++ map_of cpu_names\<rparr>, d) }"

definition register_handler ::
    "(nat \<Rightarrow> 64 word) \<Rightarrow> intr_tables \<Rightarrow> byte \<Rightarrow> int \<Rightarrow> bool \<Rightarrow> handler \<Rightarrow> string \<Rightarrow> intr_tables option" where
  "register_handler stub t vec_no d level h name = do {
     let v = unat vec_no;
     ASSERT (intr_handlers t v = None);
     g \<leftarrow> (if level then make_trap_gate (stub v) d else make_intr_gate (stub v) d);
     Some (t\<lparr>idt := (idt t)(v \<mapsto> g), intr_handlers := (intr_handlers t)(v \<mapsto> h), intr_names := (intr_names t)(v \<mapsto> name)\<rparr>) }"

definition intr_register_ext :: "(nat \<Rightarrow> 64 word) \<Rightarrow> intr_tables \<Rightarrow> byte \<Rightarrow> handler \<Rightarrow> string \<Rightarrow> intr_tables option" where
  "intr_register_ext stub t vec_no h name = do {
     ASSERT (vec_no \<ge> 0x20 \<and> vec_no \<le> 0x2f);
     register_handler stub t vec_no 0 False h name }"

definition intr_register_int ::
    "(nat \<Rightarrow> 64 word) \<Rightarrow> intr_tables \<Rightarrow> byte \<Rightarrow> int \<Rightarrow> bool \<Rightarrow> handler \<Rightarrow> string \<Rightarrow> intr_tables option" where
  "intr_register_int stub t vec_no d level h name = do {
     ASSERT (vec_no < 0x20 \<or> vec_no > 0x2f);
     register_handler stub t vec_no d level h name }"

section \<open>Dispatch\<close>

definition intr_handler :: "(handler \<Rightarrow> dev \<Rightarrow> dev option) \<Rightarrow> intr_tables \<Rightarrow> nat \<Rightarrow> dev \<Rightarrow> dev option" where
  "intr_handler run t vec_no d = do {
     let external = (0x20 \<le> vec_no \<and> vec_no < 0x30);
     d \<leftarrow> (if external then do {
             ASSERT (\<not> intr_on (kern d));
             ASSERT (\<not> in_external_intr (kern d));
             Some (d\<lparr>kern := (kern d)\<lparr>in_external_intr := True, yield_on_return := False\<rparr>\<rparr>) }
           else Some d);
     d \<leftarrow> (case intr_handlers t vec_no of
             Some h \<Rightarrow> run h d
           | None \<Rightarrow> if vec_no = 0x27 \<or> vec_no = 0x2f then Some d else None);
     if external then do {
       ASSERT (\<not> intr_on (kern d));
       ASSERT (in_external_intr (kern d));
       let d = d\<lparr>kern := (kern d)\<lparr>in_external_intr := False\<rparr>\<rparr>;
       d \<leftarrow> pic_end_of_interrupt d vec_no;
       if yield_on_return (kern d) then do { k \<leftarrow> thread_yield (kern d); Some (d\<lparr>kern := k\<rparr>) } else Some d }
     else Some d }"

text \<open>The processor's part: an interrupt gate turns interrupts off, and the return restores the level.\<close>

definition deliver :: "(handler \<Rightarrow> dev \<Rightarrow> dev option) \<Rightarrow> intr_tables \<Rightarrow> nat \<Rightarrow> dev \<Rightarrow> dev option" where
  "deliver run t vec_no d = do {
     g \<leftarrow> idt t vec_no;
     let cur = running (kern d);
     let old_level = intr_on (kern d);
     let d = (if gate_type g = 14 then d\<lparr>kern := (kern d)\<lparr>intr_on := False\<rparr>\<rparr> else d);
     d \<leftarrow> intr_handler run t vec_no d;
     k \<leftarrow> intr_set_level (kern d) cur old_level;
     Some (d\<lparr>kern := k\<rparr>) }"

text \<open>The handlers that are modelled; \<open>exc\<close> stands for those of the exceptions.\<close>

definition run_handler :: "(handler \<Rightarrow> dev \<Rightarrow> dev option) \<Rightarrow> handler \<Rightarrow> dev \<Rightarrow> dev option" where
  "run_handler exc h d = (case h of
     Timer_interrupt \<Rightarrow> do { k \<leftarrow> timer_interrupt (kern d); Some (d\<lparr>kern := k\<rparr>) }
   | Keyboard_interrupt \<Rightarrow> keyboard_interrupt d
   | Serial_interrupt \<Rightarrow> serial_interrupt d
   | _ \<Rightarrow> exc h d)"

section \<open>Registrations at boot\<close>

definition timer_init :: "(nat \<Rightarrow> 64 word) \<Rightarrow> intr_tables \<times> dev \<Rightarrow> (intr_tables \<times> dev) option" where
  "timer_init stub = (\<lambda>(t, d). do {
     let count = (of_int ((1193180 + TIMER_FREQ div 2) div TIMER_FREQ) :: 16 word);
     let d = outb d 0x43 0x34;
     let d = outb d 0x40 (ucast (count AND 0xff));
     let d = outb d 0x40 (ucast (drop_bit 8 count));
     let d = d\<lparr>kern := (kern d)\<lparr>block_thread_list := []\<rparr>\<rparr>;
     t \<leftarrow> intr_register_ext stub t 0x20 Timer_interrupt ''8254 Timer'';
     Some (t, d) })"

definition kbd_init :: "(nat \<Rightarrow> 64 word) \<Rightarrow> intr_tables \<times> dev \<Rightarrow> (intr_tables \<times> dev) option" where
  "kbd_init stub = (\<lambda>(t, d). do {
     t \<leftarrow> intr_register_ext stub t 0x21 Keyboard_interrupt ''8042 Keyboard'';
     Some (t, d) })"

definition exceptions :: "(byte \<times> int \<times> bool \<times> handler \<times> string) list" where
  "exceptions =
     [(3, 3, True, Kill, ''#BP Breakpoint Exception''),
      (4, 3, True, Kill, ''#OF Overflow Exception''),
      (5, 3, True, Kill, ''#BR BOUND Range Exceeded Exception''),
      (0, 0, True, Kill, ''#DE Divide Error''),
      (1, 0, True, Kill, ''#DB Debug Exception''),
      (6, 0, True, Kill, ''#UD Invalid Opcode Exception''),
      (7, 0, True, Kill, ''#NM Device Not Available Exception''),
      (11, 0, True, Kill, ''#NP Segment Not Present''),
      (12, 0, True, Kill, ''#SS Stack Fault Exception''),
      (13, 0, True, Kill, ''#GP General Protection Exception''),
      (16, 0, True, Kill, ''#MF x87 FPU Floating-Point Error''),
      (19, 0, True, Kill, ''#XF SIMD Floating-Point Exception''),
      (14, 0, False, Page_fault, ''#PF Page-Fault Exception'')]"

fun register_all :: "(nat \<Rightarrow> 64 word) \<Rightarrow> (byte \<times> int \<times> bool \<times> handler \<times> string) list \<Rightarrow> intr_tables \<Rightarrow> intr_tables option" where
  "register_all stub [] t = Some t"
| "register_all stub ((v, d, level, h, name) # rs) t = do {
     t \<leftarrow> intr_register_int stub t v d level h name;
     register_all stub rs t }"

definition exception_init :: "(nat \<Rightarrow> 64 word) \<Rightarrow> intr_tables \<Rightarrow> intr_tables option" where
  "exception_init stub t = register_all stub exceptions t"

definition serial_init_queue :: "(nat \<Rightarrow> 64 word) \<Rightarrow> intr_tables \<times> dev \<Rightarrow> (intr_tables \<times> dev) option" where
  "serial_init_queue stub = (\<lambda>(t, d). do {
     d \<leftarrow> (if mode d = UNINIT then init_poll d else Some d);
     ASSERT (mode d = POLL);
     t \<leftarrow> intr_register_ext stub t (0x20 + 4) Serial_interrupt ''serial'';
     let d = d\<lparr>mode := QUEUE\<rparr>;
     let (old_level, k) = intr_disable (kern d);
     d \<leftarrow> write_ier (d\<lparr>kern := k\<rparr>);
     k \<leftarrow> intr_set_level (kern d) (running (kern d)) old_level;
     Some (t, d\<lparr>kern := k\<rparr>) })"

text \<open>The part of \<open>main\<close> that sets up interrupts and the devices of this theory.\<close>

definition boot_interrupts :: "(nat \<Rightarrow> 64 word) \<Rightarrow> dev \<Rightarrow> (intr_tables \<times> dev) option" where
  "boot_interrupts stub d = do {
     s \<leftarrow> intr_init stub d;
     s \<leftarrow> timer_init stub s;
     (t, d) \<leftarrow> kbd_init stub s;
     d \<leftarrow> input_init d;
     t \<leftarrow> exception_init stub t;
     serial_init_queue stub (t, d) }"

end
