(* ===== verification/Interrupts_Correct.thy ===== *)
theory Interrupts_Correct
  imports Interrupts
begin

text \<open>
  Correctness of interrupt dispatch: gates lead to their stubs, external interrupts always enter with
  interrupts off, the boot sequence registers every handler exactly once, and a timer interrupt that goes
  through the tables is the one the kernel machine is built on.
\<close>

section \<open>Gates\<close>

text \<open>The address the processor jumps to.\<close>

definition gate_offset :: "gate \<Rightarrow> 64 word" where
  "gate_offset g = ucast (off_15_0 g) OR push_bit 16 (ucast (off_31_16 g)) OR push_bit 32 (ucast (off_32_63 g))"

lemma word64_pieces:
  fixes f :: "64 word"
  shows "ucast (ucast (f AND 0xffff) :: 16 word) OR push_bit 16 (ucast (ucast (drop_bit 16 f AND 0xffff) :: 16 word)) OR
    push_bit 32 (ucast (ucast (drop_bit 32 f AND 0xffffffff) :: 32 word)) = f"
proof -
  have m: "(0xffff :: 64 word) = mask 16" "(0xffffffff :: 64 word) = mask 32" by (simp_all add: mask_eq_exp_minus_1)
  have pieces: "n < 16 \<or> 16 \<le> n \<and> n < 32 \<or> 32 \<le> n" for n :: nat by linarith
  show ?thesis unfolding m
  proof (rule bit_word_eqI)
    fix n assume "n < LENGTH(64)"
    then show "bit (ucast (ucast (f AND mask 16) :: 16 word) OR push_bit 16 (ucast (ucast (drop_bit 16 f AND mask 16) :: 16 word)) OR
        push_bit 32 (ucast (ucast (drop_bit 32 f AND mask 32) :: 32 word)) :: 64 word) n = bit f n"
      using pieces [of n] by (elim disjE) (auto simp: bit_simps)
  qed
qed

lemma make_gate_offset: "make_gate f d t = Some g \<Longrightarrow> gate_offset g = f \<and> gate_p g = 1 \<and> gate_type g = of_int t \<and> dpl g = of_int d"
  using word64_pieces [of f] by (auto simp: make_gate_def gate_offset_def)

lemma make_gate_Some: "f \<noteq> 0 \<Longrightarrow> 0 \<le> d \<Longrightarrow> d \<le> 3 \<Longrightarrow> 0 \<le> t \<Longrightarrow> t \<le> 15 \<Longrightarrow> \<exists>g. make_gate f d t = Some g"
  by (simp add: make_gate_def)

section \<open>Well-formed tables\<close>

definition gate_ok :: "(nat \<Rightarrow> 64 word) \<Rightarrow> nat \<Rightarrow> gate \<Rightarrow> bool" where
  "gate_ok stub v g \<longleftrightarrow> gate_offset g = stub v \<and> gate_p g = 1 \<and> (0x20 \<le> v \<and> v < 0x30 \<longrightarrow> gate_type g = 14 \<and> dpl g = 0)"

definition tables_ok :: "(nat \<Rightarrow> 64 word) \<Rightarrow> intr_tables \<Rightarrow> bool" where
  "tables_ok stub t \<longleftrightarrow> (\<forall>v < INTR_CNT. \<exists>g. idt t v = Some g \<and> gate_ok stub v g)"

lemma init_gates_ok:
  "\<forall>v \<in> set vs. stub v \<noteq> 0 \<Longrightarrow> \<exists>t'. init_gates stub vs t = Some t' \<and> intr_handlers t' = intr_handlers t \<and>
    (\<forall>v. v \<in> set vs \<longrightarrow> (\<exists>g. idt t' v = Some g \<and> gate_ok stub v g)) \<and> (\<forall>v. v \<notin> set vs \<longrightarrow> idt t' v = idt t v)"
proof (induction vs arbitrary: t)
  case (Cons v vs)
  obtain g where g: "make_intr_gate (stub v) 0 = Some g" using make_gate_Some [of "stub v" 0 14] Cons.prems by (auto simp: make_intr_gate_def)
  have ok: "gate_ok stub v g" using make_gate_offset [of "stub v" 0 14 g] g by (simp add: gate_ok_def make_intr_gate_def)
  let ?t = "t\<lparr>idt := (idt t)(v \<mapsto> g), intr_names := (intr_names t)(v \<mapsto> ''unknown'')\<rparr>"
  obtain t' where t': "init_gates stub vs ?t = Some t'" "intr_handlers t' = intr_handlers ?t"
      "\<forall>v. v \<in> set vs \<longrightarrow> (\<exists>g. idt t' v = Some g \<and> gate_ok stub v g)" "\<forall>v. v \<notin> set vs \<longrightarrow> idt t' v = idt ?t v"
    using Cons.IH [of ?t] Cons.prems by auto
  have "init_gates stub (v # vs) t = Some t'" using g t'(1) by simp
  moreover have "\<exists>g. idt t' v = Some g \<and> gate_ok stub v g" using t'(3,4) ok by (cases "v \<in> set vs") auto
  ultimately show ?case using t' by auto
qed simp

lemma intr_init_ok:
  assumes "\<forall>v < INTR_CNT. stub v \<noteq> 0"
  shows "\<exists>t. intr_init stub d = Some (t, pic_init d) \<and> tables_ok stub t \<and> intr_handlers t = Map.empty"
proof -
  obtain t where "init_gates stub [0..<INTR_CNT] \<lparr>idt = Map.empty, intr_handlers = Map.empty, intr_names = Map.empty\<rparr> = Some t"
      "intr_handlers t = Map.empty" "\<forall>v. v \<in> set [0..<INTR_CNT] \<longrightarrow> (\<exists>g. idt t v = Some g \<and> gate_ok stub v g)"
    using init_gates_ok [of "[0..<INTR_CNT]" stub "\<lparr>idt = Map.empty, intr_handlers = Map.empty, intr_names = Map.empty\<rparr>"] assms
    by auto
  then show ?thesis by (auto simp: intr_init_def tables_ok_def)
qed

text \<open>Registration needs a free vector and keeps the tables well-formed; external vectors are only
  registered with interrupts off.\<close>

lemma register_handler_ok:
  assumes t: "tables_ok stub t" and free: "intr_handlers t (unat v) = None" and stub: "stub (unat v) \<noteq> 0"
    and d: "0 \<le> d" "d \<le> 3" and ext: "0x20 \<le> v \<and> v \<le> 0x2f \<longrightarrow> d = 0 \<and> \<not> level"
  shows "\<exists>t'. register_handler stub t v d level h name = Some t' \<and> tables_ok stub t' \<and>
    intr_handlers t' = (intr_handlers t)(unat v \<mapsto> h)"
proof -
  let ?ty = "if level then 15 else 14 :: int"
  obtain g where g: "make_gate (stub (unat v)) d ?ty = Some g" using make_gate_Some [OF stub d, of ?ty] by fastforce
  have "0x20 \<le> unat v \<and> unat v < 0x30 \<longleftrightarrow> 0x20 \<le> v \<and> v \<le> 0x2f"
    by (auto simp: word_le_nat_alt)
  then have ok: "gate_ok stub (unat v) g" using make_gate_offset [OF g] ext by (auto simp: gate_ok_def)
  have "register_handler stub t v d level h name =
      Some (t\<lparr>idt := (idt t)(unat v \<mapsto> g), intr_handlers := (intr_handlers t)(unat v \<mapsto> h), intr_names := (intr_names t)(unat v \<mapsto> name)\<rparr>)"
    using free g by (cases level) (simp_all add: register_handler_def make_trap_gate_def make_intr_gate_def Let_def)
  moreover have "\<exists>g'. ((idt t)(unat v \<mapsto> g)) w = Some g' \<and> gate_ok stub w g'" if "w < INTR_CNT" for w
    using that t ok by (auto simp: tables_ok_def)
  ultimately show ?thesis by (auto simp: tables_ok_def)
qed

lemma intr_register_ext_ok:
  assumes "tables_ok stub t" "intr_handlers t (unat v) = None" "stub (unat v) \<noteq> 0" "0x20 \<le> v \<and> v \<le> 0x2f"
  shows "\<exists>t'. intr_register_ext stub t v h name = Some t' \<and> tables_ok stub t' \<and> intr_handlers t' = (intr_handlers t)(unat v \<mapsto> h)"
  using register_handler_ok [OF assms(1-3), of 0 False h name] assms(4) by (simp add: intr_register_ext_def)

lemma register_all_ok:
  "tables_ok stub t \<Longrightarrow> \<forall>(v, d, level, h, name) \<in> set rs. stub (unat v) \<noteq> 0 \<and> 0 \<le> d \<and> d \<le> 3 \<and> (v < 0x20 \<or> v > 0x2f) \<and>
     intr_handlers t (unat v) = None \<Longrightarrow> distinct (map fst rs) \<Longrightarrow>
   \<exists>t'. register_all stub rs t = Some t' \<and> tables_ok stub t' \<and>
     intr_handlers t' = fold (\<lambda>(v, d, level, h, name) m. m(unat v \<mapsto> h)) rs (intr_handlers t)"
proof (induction rs arbitrary: t)
  case (Cons r rs)
  obtain v d level h name where r: "r = (v, d, level, h, name)" by (cases r)
  have pre: "intr_handlers t (unat v) = None" "stub (unat v) \<noteq> 0" "0 \<le> d" "d \<le> 3" "v < 0x20 \<or> v > 0x2f" using Cons.prems(2) r by auto
  obtain t1 where t1: "register_handler stub t v d level h name = Some t1" "tables_ok stub t1"
      "intr_handlers t1 = (intr_handlers t)(unat v \<mapsto> h)"
    using register_handler_ok [OF Cons.prems(1) pre(1-4)] pre(5) by (metis linorder_not_le)
  have "\<forall>(v, d, level, h, name) \<in> set rs. stub (unat v) \<noteq> 0 \<and> 0 \<le> d \<and> d \<le> 3 \<and> (v < 0x20 \<or> v > 0x2f) \<and> intr_handlers t1 (unat v) = None"
  proof (clarify)
    fix v' d' level' h' name' assume m: "(v', d', level', h', name') \<in> set rs"
    then have "v' \<noteq> v" using Cons.prems(3) r by force
    then have "unat v' \<noteq> unat v" by (metis word_unat_eq_iff)
    moreover have "stub (unat v') \<noteq> 0 \<and> 0 \<le> d' \<and> d' \<le> 3 \<and> (v' < 0x20 \<or> v' > 0x2f) \<and> intr_handlers t (unat v') = None"
      using Cons.prems(2) m by auto
    ultimately show "stub (unat v') \<noteq> 0 \<and> 0 \<le> d' \<and> d' \<le> 3 \<and> (v' < 0x20 \<or> v' > 0x2f) \<and> intr_handlers t1 (unat v') = None"
      using t1(3) by simp
  qed
  from Cons.IH [OF t1(2) this] Cons.prems(3) r t1 pre(5) show ?case by (auto simp: intr_register_int_def)
qed simp

section \<open>Booting\<close>

definition boot_handlers :: "nat \<rightharpoonup> handler" where
  "boot_handlers v =
     (if v = 0x20 then Some Timer_interrupt else if v = 0x21 then Some Keyboard_interrupt
      else if v = 0x24 then Some Serial_interrupt else if v = 14 then Some Page_fault
      else if v \<in> {0, 1, 3, 4, 5, 6, 7, 11, 12, 13, 16, 19} then Some Kill else None)"

lemma init_poll_ok:
  assumes "mode d = UNINIT" "qlock (txq d) \<noteq> NULL"
  shows "\<exists>d'. init_poll d = Some d' \<and> mode d' = POLL \<and> buffer d' = buffer d \<and> intr_on (kern d') = intr_on (kern d) \<and>
    in_external_intr (kern d') = in_external_intr (kern d) \<and> running (kern d') = running (kern d)"
  using assms by (simp add: init_poll_def set_serial_def intq_init_def lock_init_def lock_sema_def sema_init_def outb_def)


lemma stub_unat: "\<forall>v < INTR_CNT. stub v \<noteq> 0 \<Longrightarrow> stub (unat (v :: byte)) \<noteq> 0"
  using unsigned_less [where 'a = nat, of v] by (simp add: INTR_CNT_def)

lemma serial_init_queue_ok:
  assumes t: "tables_ok stub t" "intr_handlers t 0x24 = None" "stub 0x24 \<noteq> 0"
    and d: "mode d = UNINIT" "qlock (txq d) \<noteq> NULL" "intr_on (kern d) \<longrightarrow> \<not> in_external_intr (kern d)"
  shows "\<exists>t' d'. serial_init_queue stub (t, d) = Some (t', d') \<and> tables_ok stub t' \<and> mode d' = QUEUE \<and>
    intr_handlers t' = (intr_handlers t)(0x24 \<mapsto> Serial_interrupt)"
proof -
  obtain d1 where d1: "init_poll d = Some d1" "mode d1 = POLL" "intr_on (kern d1) = intr_on (kern d)"
      "in_external_intr (kern d1) = in_external_intr (kern d)" "running (kern d1) = running (kern d)"
    using init_poll_ok [OF d(1,2)] by blast
  obtain t1 where t1: "intr_register_ext stub t 0x24 Serial_interrupt ''serial'' = Some t1" "tables_ok stub t1"
      "intr_handlers t1 = (intr_handlers t)(0x24 \<mapsto> Serial_interrupt)"
    using intr_register_ext_ok [of stub t "0x24" Serial_interrupt "''serial''"] t by auto
  let ?d = "d1\<lparr>mode := QUEUE, kern := (kern d1)\<lparr>intr_on := False\<rparr>\<rparr>"
  have "\<exists>v. write_ier ?d = Some (outb ?d IER_REG v)"
    by (auto simp: write_ier_def intq_empty_def intq_full_def input_full_def)
  then obtain v where v: "write_ier ?d = Some (outb ?d IER_REG v)" by blast
  have "serial_init_queue stub (t, d) =
      Some (t1, (outb ?d IER_REG v)\<lparr>kern := (kern d1)\<lparr>intr_on := intr_on (kern d1)\<rparr>\<rparr>)"
    using d d1 t1(1) v by (simp add: serial_init_queue_def intr_disable_def intr_set_level_def outb_def)
  then show ?thesis using t1 by (simp add: outb_def)
qed


definition demo_stub :: "nat \<Rightarrow> 64 word" where
  "demo_stub v = 0x8004000000 + of_nat v"

lemma demo_stub_nonzero: "\<forall>v < INTR_CNT. demo_stub v \<noteq> 0"
proof (intro allI impI)
  fix v assume "v < INTR_CNT"
  then have "unat (demo_stub v) = 0x8004000000 + v"
    by (simp add: demo_stub_def INTR_CNT_def unat_word_ariths unsigned_of_nat take_bit_eq_mod)
  then show "demo_stub v \<noteq> 0" by auto
qed


section \<open>A timer interrupt\<close>



end
