(* ===== verification/Page_Alloc.thy ===== *)
theory Page_Alloc
  imports Bitmap_Correct
begin

text \<open>
  The page allocator \<open>threads/palloc.c\<close>: two pools of pages, each with a bitmap of the pages in use.
  Memory is seen as pages of 512 words: \<open>pages m a i\<close> is the 64-bit word \<open>i\<close> of the page at kernel
  address \<open>a\<close>.  A pool's lock is held around the search of its bitmap, so that the search and the
  marking are one step for the other threads; the model makes them one step.
\<close>

section \<open>Addresses\<close>

definition PGBITS :: nat where "PGBITS = 12"
definition PGSIZE :: nat where "PGSIZE = 2 ^ PGBITS"
definition KERN_BASE :: nat where "KERN_BASE = 0x8004000000"

definition pg_ofs :: "nat \<Rightarrow> nat" where
  "pg_ofs va = va mod PGSIZE"

definition pg_no :: "nat \<Rightarrow> nat" where
  "pg_no va = va div PGSIZE"

definition pg_round_down :: "nat \<Rightarrow> nat" where
  "pg_round_down a = a - a mod PGSIZE"

definition is_kernel_vaddr :: "nat \<Rightarrow> bool" where
  "is_kernel_vaddr va \<longleftrightarrow> KERN_BASE \<le> va"

definition is_user_vaddr :: "nat \<Rightarrow> bool" where
  "is_user_vaddr va \<longleftrightarrow> \<not> is_kernel_vaddr va"

definition ptov :: "nat \<Rightarrow> nat" where
  "ptov pa = pa + KERN_BASE"

definition vtop :: "nat \<Rightarrow> nat option" where
  "vtop va = do { ASSERT (is_kernel_vaddr va); Some (va - KERN_BASE) }"

lemma PGSIZE_val: "PGSIZE = 4096"
  by (simp add: PGSIZE_def PGBITS_def)

section \<open>Pools\<close>

record pool =
  used_map :: bitmap
  pool_base :: nat

record physmem =
  kernel_pool :: pool
  user_pool :: pool
  pages :: "nat \<Rightarrow> nat \<Rightarrow> 64 word"

datatype palloc_flags = PAL_ASSERT | PAL_ZERO | PAL_USER

text \<open>\<open>memset\<close> over whole pages, with the word that repeats the byte.\<close>

definition fill_pages :: "physmem \<Rightarrow> nat \<Rightarrow> nat \<Rightarrow> 64 word \<Rightarrow> physmem" where
  "fill_pages m p n w = m\<lparr>pages := (\<lambda>a. if p \<le> a \<and> a < p + PGSIZE * n then (\<lambda>_. w) else pages m a)\<rparr>"

definition page_from_pool :: "pool \<Rightarrow> nat \<Rightarrow> bool" where
  "page_from_pool pool page =
     (let page_no = pg_no page; start_page = pg_no (pool_base pool);
          end_page = start_page + bitmap_size (used_map pool)
      in page_no \<ge> start_page \<and> page_no < end_page)"

text \<open>\<open>init_pool\<close>: \<open>block\<close> is the memory at \<open>bm_base\<close>, which holds the bitmap; the result has the
  advanced \<open>bm_base\<close>.\<close>

definition init_pool :: "nat \<Rightarrow> 64 word list \<Rightarrow> nat \<Rightarrow> nat \<Rightarrow> (nat \<times> pool) option" where
  "init_pool bm_base block start last_addr = do {
     let pgcnt = (last_addr - start) div PGSIZE;
     let bm_pages = (bitmap_buf_size pgcnt + PGSIZE - 1) div PGSIZE * PGSIZE;
     b \<leftarrow> bitmap_create_in_buf pgcnt block bm_pages;
     b \<leftarrow> bitmap_set_all b True;
     Some (bm_base + bm_pages, \<lparr>used_map = b, pool_base = start\<rparr>) }"

definition palloc_get_multiple :: "physmem \<Rightarrow> palloc_flags set \<Rightarrow> nat \<Rightarrow> (nat \<times> physmem) option" where
  "palloc_get_multiple m flags page_cnt = do {
     let pool = (if PAL_USER \<in> flags then user_pool m else kernel_pool m);
     (page_idx, b) \<leftarrow> bitmap_scan_and_flip (used_map pool) 0 page_cnt False;
     let m = (if PAL_USER \<in> flags then m\<lparr>user_pool := pool\<lparr>used_map := b\<rparr>\<rparr> else m\<lparr>kernel_pool := pool\<lparr>used_map := b\<rparr>\<rparr>);
     let p = (if page_idx \<noteq> BITMAP_ERROR then pool_base pool + PGSIZE * page_idx else NULL);
     if p \<noteq> NULL then Some (p, if PAL_ZERO \<in> flags then fill_pages m p page_cnt 0 else m)
     else do { ASSERT (PAL_ASSERT \<notin> flags); Some (p, m) } }"

definition palloc_get_page :: "physmem \<Rightarrow> palloc_flags set \<Rightarrow> (nat \<times> physmem) option" where
  "palloc_get_page m flags = palloc_get_multiple m flags 1"

definition palloc_free_multiple :: "physmem \<Rightarrow> nat \<Rightarrow> nat \<Rightarrow> physmem option" where
  "palloc_free_multiple m p page_cnt = do {
     ASSERT (pg_ofs p = 0);
     if p = NULL \<or> page_cnt = 0 then Some m
     else do {
       let kern = page_from_pool (kernel_pool m) p;
       ASSERT (kern \<or> page_from_pool (user_pool m) p);
       let pool = (if kern then kernel_pool m else user_pool m);
       let page_idx = pg_no p - pg_no (pool_base pool);
       let m = fill_pages m p page_cnt 0xcccccccccccccccc;
       all_used \<leftarrow> bitmap_all (used_map pool) page_idx page_cnt;
       ASSERT all_used;
       b \<leftarrow> bitmap_set_multiple (used_map pool) page_idx page_cnt False;
       Some (if kern then m\<lparr>kernel_pool := pool\<lparr>used_map := b\<rparr>\<rparr> else m\<lparr>user_pool := pool\<lparr>used_map := b\<rparr>\<rparr>) } }"

definition palloc_free_page :: "physmem \<Rightarrow> nat \<Rightarrow> physmem option" where
  "palloc_free_page m p = palloc_free_multiple m p 1"

section \<open>Invariant and abstraction\<close>

definition pool_end :: "pool \<Rightarrow> nat" where
  "pool_end p = pool_base p + PGSIZE * bit_cnt (used_map p)"

definition pool_ok :: "pool \<Rightarrow> bool" where
  "pool_ok p \<longleftrightarrow> bitmap_inv (used_map p) \<and> pg_ofs (pool_base p) = 0 \<and> KERN_BASE \<le> pool_base p \<and> pool_end p \<le> 2 ^ 64"

text \<open>The two pools are sound and do not overlap.\<close>

definition pools_ok :: "physmem \<Rightarrow> bool" where
  "pools_ok m \<longleftrightarrow> pool_ok (kernel_pool m) \<and> pool_ok (user_pool m) \<and>
     (pool_end (kernel_pool m) \<le> pool_base (user_pool m) \<or> pool_end (user_pool m) \<le> pool_base (kernel_pool m))"

definition pool_used :: "pool \<Rightarrow> nat set" where
  "pool_used p = (\<lambda>i. pool_base p + PGSIZE * i) ` bitmap_used (used_map p)"

definition page_used :: "physmem \<Rightarrow> nat set" where
  "page_used m = pool_used (kernel_pool m) \<union> pool_used (user_pool m)"

definition page_run :: "nat \<Rightarrow> nat \<Rightarrow> nat set" where
  "page_run p n = (\<lambda>i. p + PGSIZE * i) ` {..<n}"

definition pool_of :: "physmem \<Rightarrow> palloc_flags set \<Rightarrow> pool" where
  "pool_of m flags = (if PAL_USER \<in> flags then user_pool m else kernel_pool m)"

lemma page_run_1 [simp]: "page_run p (Suc 0) = {p}" "page_run p 1 = {p}"
  by (auto simp: page_run_def)

lemma run_image: "(\<lambda>i. b + PGSIZE * i) ` {r..<r + n} = page_run (b + PGSIZE * r) n"
proof -
  have "{r..<r + n} = (\<lambda>i. r + i) ` {..<n}" by (simp add: lessThan_atLeast0 add.commute)
  then show ?thesis by (simp add: page_run_def image_image distrib_left add.assoc)
qed

lemma slot_inj: "inj (\<lambda>i. b + PGSIZE * i)"
  by (auto simp: inj_def PGSIZE_val)

lemma pool_used_range: "a \<in> pool_used p \<Longrightarrow> pool_base p \<le> a \<and> a < pool_end p"
  by (auto simp: pool_used_def bitmap_used_def pool_end_def PGSIZE_val)

lemma pool_used_aligned: "pool_ok p \<Longrightarrow> a \<in> pool_used p \<Longrightarrow> pg_ofs a = 0"
  by (auto simp: pool_used_def pool_ok_def pg_ofs_def)

lemma page_used_bounds: "pools_ok m \<Longrightarrow> a \<in> page_used m \<Longrightarrow> KERN_BASE \<le> a \<and> a < 2 ^ 64 \<and> pg_ofs a = 0"
  using pool_used_range pool_used_aligned by (fastforce simp: page_used_def pools_ok_def pool_ok_def)

lemma pool_used_disjoint: "pools_ok m \<Longrightarrow> pool_used (kernel_pool m) \<inter> pool_used (user_pool m) = {}"
  unfolding pools_ok_def by (auto dest!: pool_used_range)

section \<open>Allocation\<close>

lemma palloc_get_ok:
  assumes ok: "pools_ok m"
  shows "\<exists>r m'. palloc_get_multiple m flags n = (if r = NULL \<and> PAL_ASSERT \<in> flags then None else Some (r, m')) \<and> pools_ok m' \<and>
    (r = NULL \<and> m' = m \<and> (\<forall>i. i + n \<le> bit_cnt (used_map (pool_of m flags)) \<longrightarrow>
        bitmap_used (used_map (pool_of m flags)) \<inter> {i..<i + n} \<noteq> {}) \<or>
     r \<noteq> NULL \<and> pg_ofs r = 0 \<and> page_run r n \<inter> page_used m = {} \<and> page_used m' = page_used m \<union> page_run r n \<and>
       pool_base (pool_of m flags) \<le> r \<and> r + PGSIZE * n \<le> pool_end (pool_of m flags) \<and>
       pages m' = (if PAL_ZERO \<in> flags then pages (fill_pages m r n 0) else pages m))"
proof -
  let ?p = "pool_of m flags"
  have p: "pool_ok ?p" using ok by (auto simp: pools_ok_def pool_of_def)
  then have inv: "bitmap_inv (used_map ?p)" and base: "pool_base ?p \<noteq> 0" "pg_ofs (pool_base ?p) = 0"
    by (auto simp: pool_ok_def KERN_BASE_def)
  obtain i b where ib: "bitmap_alloc (used_map ?p) n = Some (i, b)" using bm.alloc_returns [OF inv] by blast
  note binv = bm.alloc_invar [OF inv ib]
  let ?set = "\<lambda>m q. if PAL_USER \<in> flags then m\<lparr>user_pool := q\<rparr> else m\<lparr>kernel_pool := q\<rparr>"
  let ?q = "?p\<lparr>used_map := b\<rparr>" and ?m = "?set m (?p\<lparr>used_map := b\<rparr>)"
  have same: "pool_end ?q = pool_end ?p" "pool_ok ?q" using binv p by (simp_all add: pool_end_def pool_ok_def)
  have ok': "pools_ok ?m" using ok same by (auto simp: pools_ok_def pool_of_def)
  show ?thesis
  proof (cases "i = BITMAP_ERROR")
    case True
    have full: "b = used_map ?p" "\<forall>j. j + n \<le> bit_cnt (used_map ?p) \<longrightarrow> bitmap_used (used_map ?p) \<inter> {j..<j + n} \<noteq> {}"
      using bm.alloc_full [OF inv] ib True by auto
    then have "?m = m" by (simp add: pool_of_def)
    then have "palloc_get_multiple m flags n = (if PAL_ASSERT \<in> flags then None else Some (NULL, m))"
      using ib True by (simp add: palloc_get_multiple_def pool_of_def split: if_splits)
    then show ?thesis using full ok by (intro exI [of _ NULL] exI [of _ m]) simp
  next
    case False
    let ?r = "pool_base ?p + PGSIZE * i" and ?m' = "if PAL_ZERO \<in> flags then fill_pages ?m (pool_base ?p + PGSIZE * i) n 0 else ?m"
    have a: "i + n \<le> bit_cnt (used_map ?p)" "bitmap_used (used_map ?p) \<inter> {i..<i + n} = {}"
        "bitmap_used b = bitmap_used (used_map ?p) \<union> {i..<i + n}" using bm.alloc_ok [OF inv ib False] by auto
    have get: "palloc_get_multiple m flags n = Some (?r, ?m')"
      using ib False base(1) by (simp add: palloc_get_multiple_def pool_of_def Let_def)
    have "page_run ?r n \<inter> pool_used ?p = {}"
      unfolding run_image [symmetric] pool_used_def using a(2) slot_inj by (auto simp: inj_def)
    moreover have rng: "x \<in> page_run ?r n \<Longrightarrow> pool_base ?p \<le> x \<and> x < pool_end ?p" for x
    proof -
      assume "x \<in> page_run ?r n"
      then obtain j where "j < n" "x = pool_base ?p + PGSIZE * (i + j)" by (auto simp: page_run_def algebra_simps)
      moreover have "i + j < bit_cnt (used_map ?p)" using \<open>j < n\<close> a(1) by linarith
      ultimately show ?thesis by (simp add: pool_end_def PGSIZE_val)
    qed
    ultimately have fresh: "page_run ?r n \<inter> page_used m = {}"
      using ok pool_used_range by (fastforce simp: page_used_def pools_ok_def pool_of_def split: if_splits)
    have "pool_used ?q = pool_used ?p \<union> page_run ?r n"
      unfolding run_image [symmetric] by (simp add: pool_used_def a(3) image_Un)
    then have used: "page_used ?m = page_used m \<union> page_run ?r n" by (auto simp: page_used_def pool_of_def)
    have upd: "pools_ok (fill_pages m0 x k w) = pools_ok m0" "page_used (fill_pages m0 x k w) = page_used m0" for m0 x k w
      by (simp_all add: fill_pages_def pools_ok_def page_used_def)
    have pg: "pages ?m' = (if PAL_ZERO \<in> flags then pages (fill_pages m ?r n 0) else pages m)"
      by (auto simp: fill_pages_def pool_of_def fun_eq_iff)
    have "PGSIZE * (i + n) \<le> PGSIZE * bit_cnt (used_map ?p)" using a(1) by (rule mult_le_mono2)
    then have fit: "?r + PGSIZE * n \<le> pool_end ?p" by (simp add: pool_end_def distrib_left)
    have "pg_ofs ?r = 0" using base(2) by (simp add: pg_ofs_def)
    then show ?thesis
      using get ok' used fresh upd pg base(1) fit by (intro exI [of _ ?r] exI [of _ ?m']) auto
  qed
qed

section \<open>Release\<close>

lemma page_from_pool_iff:
  assumes "pool_ok p" "pg_ofs a = 0"
  shows "page_from_pool p a \<longleftrightarrow> pool_base p \<le> a \<and> a < pool_end p"
    "page_from_pool p a \<Longrightarrow> a = pool_base p + PGSIZE * (pg_no a - pg_no (pool_base p))"
proof -
  obtain x y where x: "pool_base p = 4096 * x" and y: "a = 4096 * y"
    using assms by (auto simp: pool_ok_def pg_ofs_def PGSIZE_val elim!: dvdE simp flip: dvd_eq_mod_eq_0)
  show *: "page_from_pool p a \<longleftrightarrow> pool_base p \<le> a \<and> a < pool_end p"
    unfolding page_from_pool_def pg_no_def pool_end_def bitmap_size_def x y PGSIZE_val by auto
  show "page_from_pool p a \<Longrightarrow> a = pool_base p + PGSIZE * (pg_no a - pg_no (pool_base p))"
    unfolding * unfolding pg_no_def x y PGSIZE_val by (simp add: diff_mult_distrib2)
qed

lemma bitmap_all_used:
  assumes "bitmap_inv b" "r + n \<le> bit_cnt b"
  shows "bitmap_all b r n = Some ({r..<r + n} \<subseteq> bitmap_used b)"
  using bitmap_quantified_tests [OF assms] assms(2) by (auto simp: bitmap_used_def)

lemma bitmap_all_beyond: "r + n < 2 ^ 64 \<Longrightarrow> \<not> r + n \<le> bit_cnt b \<Longrightarrow> bitmap_all b r n = None"
  by (simp add: bitmap_all_def bitmap_contains_def)

lemma run_used_iff: "page_run (pool_base p + PGSIZE * i) n \<subseteq> pool_used p \<longleftrightarrow> {i..<i + n} \<subseteq> bitmap_used (used_map p)"
  unfolding run_image [symmetric] pool_used_def using slot_inj [of "pool_base p"] by (auto simp: inj_def)

definition in_use :: "physmem \<Rightarrow> nat set \<Rightarrow> bool" where
  "in_use m A \<longleftrightarrow> A \<subseteq> pool_used (kernel_pool m) \<or> A \<subseteq> pool_used (user_pool m)"

lemma in_use_single [simp]: "in_use m {a} \<longleftrightarrow> a \<in> page_used m"
  by (auto simp: in_use_def page_used_def)

lemma palloc_free_ok:
  assumes ok: "pools_ok m" and p: "pg_ofs p = 0" "p \<noteq> NULL" "0 < n" "p + PGSIZE * n \<le> 2 ^ 64"
  shows "palloc_free_multiple m p n = None \<and> \<not> in_use m (page_run p n) \<or>
    (\<exists>m'. palloc_free_multiple m p n = Some m' \<and> pools_ok m' \<and> in_use m (page_run p n) \<and>
       page_used m' = page_used m - page_run p n \<and> pages m' = pages (fill_pages m p n 0xcccccccccccccccc))"
proof -
  let ?kern = "page_from_pool (kernel_pool m) p"
  have poks: "pool_ok (kernel_pool m)" "pool_ok (user_pool m)" using ok by (auto simp: pools_ok_def)
  have first: "p \<in> page_run p n" using p(3) by (auto simp: page_run_def intro: image_eqI [of _ _ 0])
  note rng = page_from_pool_iff(1) [OF poks(1) p(1)] page_from_pool_iff(1) [OF poks(2) p(1)]
  show ?thesis
  proof (cases "?kern \<or> page_from_pool (user_pool m) p")
    case False
    then have "\<not> in_use m (page_run p n)" using rng first by (auto simp: in_use_def dest: pool_used_range)
    then show ?thesis using False p by (simp add: palloc_free_multiple_def)
  next
    case True
    define q where "q = (if ?kern then kernel_pool m else user_pool m)"
    define i where "i = pg_no p - pg_no (pool_base q)"
    have q: "pool_ok q" "page_from_pool q p" using poks True by (auto simp: q_def)
    have pi: "p = pool_base q + PGSIZE * i" using page_from_pool_iff(2) [OF q(1) p(1) q(2)] by (simp add: i_def)
    have inv: "bitmap_inv (used_map q)" using q(1) by (simp add: pool_ok_def)
    have small: "i + n < 2 ^ 64" using p(4) q(1) unfolding pi by (simp add: PGSIZE_val pool_ok_def KERN_BASE_def)
    let ?m = "fill_pages m p n 0xcccccccccccccccc"
    have free: "palloc_free_multiple m p n =
        Option.bind (bitmap_all (used_map q) i n) (\<lambda>u. Option.bind (ASSERT u) (\<lambda>_.
          Option.bind (bitmap_set_multiple (used_map q) i n False) (\<lambda>b.
            Some (if ?kern then ?m\<lparr>kernel_pool := q\<lparr>used_map := b\<rparr>\<rparr> else ?m\<lparr>user_pool := q\<lparr>used_map := b\<rparr>\<rparr>))))"
      using p True by (simp add: palloc_free_multiple_def q_def i_def Let_def)
    have "p \<in> pool_used q" if "p \<in> pool_used (kernel_pool m) \<or> p \<in> pool_used (user_pool m)"
      using that rng ok True pool_used_range [of p "kernel_pool m"] pool_used_range [of p "user_pool m"]
      by (auto simp: q_def pools_ok_def)
    then have "page_run p n \<subseteq> pool_used q" if "in_use m (page_run p n)"
      using that first pool_used_disjoint [OF ok] unfolding in_use_def q_def by (cases ?kern) (simp_all, blast+)
    moreover have "in_use m (page_run p n)" if "page_run p n \<subseteq> pool_used q"
      using that by (simp add: in_use_def q_def split: if_splits)
    ultimately have "in_use m (page_run p n) \<longleftrightarrow> page_run p n \<subseteq> pool_used q" by blast
    then have use: "in_use m (page_run p n) \<longleftrightarrow> {i..<i + n} \<subseteq> bitmap_used (used_map q)" unfolding pi run_used_iff .
    show ?thesis
    proof (cases "i + n \<le> bit_cnt (used_map q) \<and> {i..<i + n} \<subseteq> bitmap_used (used_map q)")
      case False
      have "i + n \<le> bit_cnt (used_map q)" if "{i..<i + n} \<subseteq> bitmap_used (used_map q)"
      proof -
        have "i + n - 1 \<in> {i..<i + n}" using p(3) by simp
        then have "i + n - 1 < bit_cnt (used_map q)" using that by (auto simp: bitmap_used_def)
        then show ?thesis by linarith
      qed
      then have no: "\<not> {i..<i + n} \<subseteq> bitmap_used (used_map q)" using False by blast
      then have "palloc_free_multiple m p n = None"
        unfolding free using bitmap_all_beyond [OF small] bitmap_all_used [OF inv, of i n]
        by (cases "i + n \<le> bit_cnt (used_map q)") simp_all
      then show ?thesis using no use by simp
    next
      case True
      obtain b where b: "bitmap_release (used_map q) i n = Some b" "bitmap_inv b" "bit_cnt b = bit_cnt (used_map q)"
          "bitmap_used b = bitmap_used (used_map q) - {i..<i + n}"
        using bm.release_ok [OF inv, of i n] True by blast
      let ?q = "q\<lparr>used_map := b\<rparr>"
      let ?m' = "if ?kern then ?m\<lparr>kernel_pool := ?q\<rparr> else ?m\<lparr>user_pool := ?q\<rparr>"
      have get: "palloc_free_multiple m p n = Some ?m'"
        unfolding free using bitmap_all_used [OF inv, of i n] True b(1) by simp
      have same: "pool_end ?q = pool_end q" "pool_ok ?q" using b q(1) by (simp_all add: pool_end_def pool_ok_def)
      have "pool_used ?q = pool_used q - page_run p n"
        unfolding pi run_image [symmetric] using b(4) slot_inj by (simp add: pool_used_def image_set_diff)
      moreover have "page_run p n \<subseteq> pool_used q" unfolding pi run_used_iff using True by blast
      ultimately have "page_used ?m' = page_used m - page_run p n"
        using pool_used_disjoint [OF ok] by (auto simp: page_used_def q_def fill_pages_def split: if_splits)
      moreover have "pools_ok ?m'" using ok same by (auto simp: pools_ok_def q_def fill_pages_def)
      ultimately show ?thesis using get use True by auto
    qed
  qed
qed

section \<open>Properties\<close>

text \<open>C32: The page allocator returns a run of pages that nobody had, from the pool asked for, and marks exactly that run as
  used; it zeroes them on demand; it reports failure only when the pool has no such run, and with
  \<open>PAL_ASSERT\<close> it stops the kernel instead.  Releasing stops the kernel unless every page of the run is in use,
  so a page cannot be freed twice, and otherwise makes exactly that run free again.\<close>

theorem palloc_correct:
  assumes ok: "pools_ok m" and p: "pg_ofs p = 0" "p \<noteq> NULL" "0 < k" "p + PGSIZE * k \<le> 2 ^ 64"
  shows "(\<exists>r m'. palloc_get_multiple m flags n = (if r = NULL \<and> PAL_ASSERT \<in> flags then None else Some (r, m')) \<and> pools_ok m' \<and>
      (r = NULL \<and> m' = m \<and> (\<forall>i. i + n \<le> bit_cnt (used_map (pool_of m flags)) \<longrightarrow>
          bitmap_used (used_map (pool_of m flags)) \<inter> {i..<i + n} \<noteq> {}) \<or>
       r \<noteq> NULL \<and> pg_ofs r = 0 \<and> page_run r n \<inter> page_used m = {} \<and> page_used m' = page_used m \<union> page_run r n \<and>
         pool_base (pool_of m flags) \<le> r \<and> r + PGSIZE * n \<le> pool_end (pool_of m flags) \<and>
         pages m' = (if PAL_ZERO \<in> flags then pages (fill_pages m r n 0) else pages m))) \<and>
    (if in_use m (page_run p k)
     then \<exists>m'. palloc_free_multiple m p k = Some m' \<and> pools_ok m' \<and> page_used m' = page_used m - page_run p k
     else palloc_free_multiple m p k = None)"
proof
  from palloc_free_ok [OF ok p]
  show "if in_use m (page_run p k)
     then \<exists>m'. palloc_free_multiple m p k = Some m' \<and> pools_ok m' \<and> page_used m' = page_used m - page_run p k
     else palloc_free_multiple m p k = None" by auto
qed (rule palloc_get_ok [OF ok])

definition demo_memory :: physmem where
  "demo_memory = \<lparr>kernel_pool = \<lparr>used_map = \<lparr>bit_cnt = 4, bits = [1]\<rparr>, pool_base = 0x8004000000\<rparr>,
     user_pool = \<lparr>used_map = \<lparr>bit_cnt = 2, bits = [0]\<rparr>, pool_base = 0x8004004000\<rparr>, pages = (\<lambda>_ _. 0)\<rparr>"

lemma demo_memory_ok: "pools_ok demo_memory"
  by (simp add: pools_ok_def pool_ok_def pool_end_def demo_memory_def bitmap_inv_def elem_cnt_def size_t_def ELEM_BITS_def
      pg_ofs_def PGSIZE_val KERN_BASE_def)

theorem palloc_correct_witness:
  "(\<exists>r m'. palloc_get_multiple demo_memory {PAL_USER} 2 = Some (r, m') \<and> pools_ok m') \<and>
   palloc_free_multiple demo_memory 0x8004001000 1 = None"
proof -
  have "0x8004001000 \<notin> page_used demo_memory"
    by (auto simp: page_used_def pool_used_def bitmap_used_def bit_at_def demo_memory_def PGSIZE_val elem_idx_def ELEM_BITS_def)
  then show ?thesis
    using palloc_correct [OF demo_memory_ok, of "0x8004001000" 1 "{PAL_USER}" 2] by (auto simp: pg_ofs_def PGSIZE_val)
qed

end
