(* ===== verification/Page_Table.thy ===== *)
theory Page_Table
  imports Page_Alloc "HOL-Library.Sublist"
begin

text \<open>
  The four-level page tables of \<open>threads/mmu.c\<close>.  A table is a page of 512 entries; a pointer to an entry
  is the address of its table and the index in it, and the null pointer is \<open>None\<close>.  Loading the page table
  register and invalidating the translation buffer act on the processor only and are left out.
\<close>

unbundle bit_operations_syntax

section \<open>Entries\<close>

definition PML4SHIFT :: nat where "PML4SHIFT = 39"
definition PDPESHIFT :: nat where "PDPESHIFT = 30"
definition PDXSHIFT :: nat where "PDXSHIFT = 21"
definition PTXSHIFT :: nat where "PTXSHIFT = 12"

definition PML4 :: "nat \<Rightarrow> nat" where "PML4 la = drop_bit PML4SHIFT la mod 0x200"
definition PDPE :: "nat \<Rightarrow> nat" where "PDPE la = drop_bit PDPESHIFT la mod 0x200"
definition PDX :: "nat \<Rightarrow> nat" where "PDX la = drop_bit PDXSHIFT la mod 0x200"
definition PTX :: "nat \<Rightarrow> nat" where "PTX la = drop_bit PTXSHIFT la mod 0x200"

definition PTE_P :: "64 word" where "PTE_P = 0x1"
definition PTE_W :: "64 word" where "PTE_W = 0x2"
definition PTE_U :: "64 word" where "PTE_U = 0x4"
definition PTE_A :: "64 word" where "PTE_A = 0x20"
definition PTE_D :: "64 word" where "PTE_D = 0x40"

definition PTE_ADDR :: "64 word \<Rightarrow> 64 word" where
  "PTE_ADDR pte = pte AND NOT 0xFFF"

definition present :: "64 word \<Rightarrow> bool" where
  "present e \<longleftrightarrow> e AND PTE_P \<noteq> 0"

text \<open>The kernel address of the page an entry refers to.\<close>

definition entry_page :: "64 word \<Rightarrow> nat" where
  "entry_page e = ptov (unat (PTE_ADDR e))"

type_synonym entry_ptr = "nat \<times> nat"

definition set_entry :: "physmem \<Rightarrow> nat \<Rightarrow> nat \<Rightarrow> 64 word \<Rightarrow> physmem" where
  "set_entry m a i e = m\<lparr>pages := (pages m)(a := (pages m a)(i := e))\<rparr>"

section \<open>Walking the tables\<close>

text \<open>A missing table is allocated and entered at index \<open>i\<close> of table \<open>a\<close>.\<close>

definition new_table :: "physmem \<Rightarrow> nat \<Rightarrow> nat \<Rightarrow> (bool \<times> physmem) option" where
  "new_table m a i = do {
     (new_page, m) \<leftarrow> palloc_get_page m {PAL_ZERO};
     if new_page \<noteq> NULL then do {
       pa \<leftarrow> vtop new_page;
       Some (True, set_entry m a i (of_nat pa OR PTE_U OR PTE_W OR PTE_P)) }
     else Some (False, m) }"

definition pgdir_walk :: "physmem \<Rightarrow> nat \<Rightarrow> nat \<Rightarrow> bool \<Rightarrow> (entry_ptr option \<times> physmem) option" where
  "pgdir_walk m pdp va create = (let idx = PDX va in
     if pdp \<noteq> NULL then
       if \<not> present (pages m pdp idx) then
         if create then do {
           (ok, m) \<leftarrow> new_table m pdp idx;
           Some (if ok then Some (entry_page (pages m pdp idx), PTX va) else None, m) }
         else Some (None, m)
       else Some (Some (entry_page (pages m pdp idx), PTX va), m)
     else Some (None, m))"

text \<open>\<open>pdpe_walk\<close> and \<open>pml4e_walk\<close> have the same body, one level apart: a table that was allocated for nothing
  is released again.\<close>

definition walk_level ::
    "(physmem \<Rightarrow> nat \<Rightarrow> nat \<Rightarrow> bool \<Rightarrow> (entry_ptr option \<times> physmem) option) \<Rightarrow> (nat \<Rightarrow> nat) \<Rightarrow>
     physmem \<Rightarrow> nat \<Rightarrow> nat \<Rightarrow> bool \<Rightarrow> (entry_ptr option \<times> physmem) option" where
  "walk_level lower index m a va create = (let idx = index va in
     if a \<noteq> NULL then
       if \<not> present (pages m a idx) then
         if create then do {
           (ok, m) \<leftarrow> new_table m a idx;
           if ok then do {
             (pte, m) \<leftarrow> lower m (entry_page (pages m a idx)) va create;
             if pte = None then do {
               m \<leftarrow> palloc_free_page m (entry_page (pages m a idx));
               Some (None, set_entry m a idx 0) }
             else Some (pte, m) }
           else Some (None, m) }
         else Some (None, m)
       else lower m (entry_page (pages m a idx)) va create
     else Some (None, m))"

definition pdpe_walk :: "physmem \<Rightarrow> nat \<Rightarrow> nat \<Rightarrow> bool \<Rightarrow> (entry_ptr option \<times> physmem) option" where
  "pdpe_walk = walk_level pgdir_walk PDPE"

definition pml4e_walk :: "physmem \<Rightarrow> nat \<Rightarrow> nat \<Rightarrow> bool \<Rightarrow> (entry_ptr option \<times> physmem) option" where
  "pml4e_walk = walk_level pdpe_walk PML4"

section \<open>Operations\<close>

definition pml4_create :: "physmem \<Rightarrow> nat \<Rightarrow> (nat \<times> physmem) option" where
  "pml4_create m base_pml4 = do {
     (pml4, m) \<leftarrow> palloc_get_page m {};
     Some (pml4, if pml4 \<noteq> NULL then m\<lparr>pages := (pages m)(pml4 := pages m base_pml4)\<rparr> else m) }"

definition pml4_get_page :: "physmem \<Rightarrow> nat \<Rightarrow> nat \<Rightarrow> nat option" where
  "pml4_get_page m pml4 uaddr = do {
     ASSERT (is_user_vaddr uaddr);
     (pte, m) \<leftarrow> pml4e_walk m pml4 uaddr False;
     Some (case pte of
        Some (a, i) \<Rightarrow> if present (pages m a i) then entry_page (pages m a i) + pg_ofs uaddr else NULL
      | None \<Rightarrow> NULL) }"

definition pml4_set_page :: "physmem \<Rightarrow> nat \<Rightarrow> nat \<Rightarrow> nat \<Rightarrow> nat \<Rightarrow> bool \<Rightarrow> (bool \<times> physmem) option" where
  "pml4_set_page m base_pml4 pml4 upage kpage rw = do {
     ASSERT (pg_ofs upage = 0);
     ASSERT (pg_ofs kpage = 0);
     ASSERT (is_user_vaddr upage);
     ASSERT (pml4 \<noteq> base_pml4);
     (pte, m) \<leftarrow> pml4e_walk m pml4 upage True;
     case pte of
       Some (a, i) \<Rightarrow> do {
         pa \<leftarrow> vtop kpage;
         Some (True, set_entry m a i (of_nat pa OR PTE_P OR (if rw then PTE_W else 0) OR PTE_U)) }
     | None \<Rightarrow> Some (False, m) }"

definition pml4_clear_page :: "physmem \<Rightarrow> nat \<Rightarrow> nat \<Rightarrow> physmem option" where
  "pml4_clear_page m pml4 upage = do {
     ASSERT (pg_ofs upage = 0);
     ASSERT (is_user_vaddr upage);
     (pte, m) \<leftarrow> pml4e_walk m pml4 upage False;
     Some (case pte of
        Some (a, i) \<Rightarrow> if pages m a i AND PTE_P \<noteq> 0 then set_entry m a i (pages m a i AND NOT PTE_P) else m
      | None \<Rightarrow> m) }"

text \<open>\<open>~(uint32_t) PTE_D\<close> is a 32-bit number, so the upper half of the mask is zero.\<close>

definition not32 :: "64 word \<Rightarrow> 64 word" where
  "not32 f = ucast (NOT (ucast f :: 32 word))"

definition test_flag :: "64 word \<Rightarrow> physmem \<Rightarrow> nat \<Rightarrow> nat \<Rightarrow> bool option" where
  "test_flag f m pml4 vpage = do {
     (pte, m) \<leftarrow> pml4e_walk m pml4 vpage False;
     Some (case pte of Some (a, i) \<Rightarrow> pages m a i AND f \<noteq> 0 | None \<Rightarrow> False) }"

definition set_flag :: "64 word \<Rightarrow> physmem \<Rightarrow> nat \<Rightarrow> nat \<Rightarrow> bool \<Rightarrow> physmem option" where
  "set_flag f m pml4 vpage value = do {
     (pte, m) \<leftarrow> pml4e_walk m pml4 vpage False;
     Some (case pte of
        Some (a, i) \<Rightarrow> set_entry m a i (if value then pages m a i OR f else pages m a i AND not32 f)
      | None \<Rightarrow> m) }"

definition pml4_is_dirty :: "physmem \<Rightarrow> nat \<Rightarrow> nat \<Rightarrow> bool option" where
  "pml4_is_dirty = test_flag PTE_D"

definition pml4_set_dirty :: "physmem \<Rightarrow> nat \<Rightarrow> nat \<Rightarrow> bool \<Rightarrow> physmem option" where
  "pml4_set_dirty = set_flag PTE_D"

definition pml4_is_accessed :: "physmem \<Rightarrow> nat \<Rightarrow> nat \<Rightarrow> bool option" where
  "pml4_is_accessed = test_flag PTE_A"

definition pml4_set_accessed :: "physmem \<Rightarrow> nat \<Rightarrow> nat \<Rightarrow> bool \<Rightarrow> physmem option" where
  "pml4_set_accessed = set_flag PTE_A"

section \<open>Visiting and releasing whole trees\<close>

text \<open>The code adds the kernel base to an entry before it looks at its bits.\<close>

definition ptov_entry :: "64 word \<Rightarrow> 64 word" where
  "ptov_entry e = e + of_nat KERN_BASE"

type_synonym 'a pte_for_each_func = "entry_ptr \<Rightarrow> nat \<Rightarrow> physmem \<times> 'a \<Rightarrow> (bool \<times> physmem \<times> 'a) option"

text \<open>A loop over the entries of table \<open>a\<close> that stops at the first failure.\<close>

fun entries_loop :: "(nat \<Rightarrow> physmem \<times> 'a \<Rightarrow> (bool \<times> physmem \<times> 'a) option) \<Rightarrow> nat list \<Rightarrow> physmem \<times> 'a \<Rightarrow> (bool \<times> physmem \<times> 'a) option" where
  "entries_loop body [] s = Some (True, s)"
| "entries_loop body (i # is) s = do {
     (ok, s) \<leftarrow> body i s;
     if ok then entries_loop body is s else Some (False, s) }"

definition pt_for_each ::
    "nat \<Rightarrow> 'a pte_for_each_func \<Rightarrow> nat \<Rightarrow> nat \<Rightarrow> nat \<Rightarrow> physmem \<times> 'a \<Rightarrow> (bool \<times> physmem \<times> 'a) option" where
  "pt_for_each pt f pml4_index pdp_index pdx_index =
     entries_loop (\<lambda>i s.
       if present (pages (fst s) pt i)
       then f (pt, i) (push_bit PML4SHIFT pml4_index OR push_bit PDPESHIFT pdp_index OR push_bit PDXSHIFT pdx_index OR
                       push_bit PTXSHIFT i) s
       else Some (True, s)) [0..<512]"

definition pgdir_for_each :: "nat \<Rightarrow> 'a pte_for_each_func \<Rightarrow> nat \<Rightarrow> nat \<Rightarrow> physmem \<times> 'a \<Rightarrow> (bool \<times> physmem \<times> 'a) option" where
  "pgdir_for_each pdp f pml4_index pdp_index =
     entries_loop (\<lambda>i s. let pte = ptov_entry (pages (fst s) pdp i) in
       if present pte then pt_for_each (unat (PTE_ADDR pte)) f pml4_index pdp_index i s else Some (True, s)) [0..<512]"

definition pdp_for_each :: "nat \<Rightarrow> 'a pte_for_each_func \<Rightarrow> nat \<Rightarrow> physmem \<times> 'a \<Rightarrow> (bool \<times> physmem \<times> 'a) option" where
  "pdp_for_each pdp f pml4_index =
     entries_loop (\<lambda>i s. let pde = ptov_entry (pages (fst s) pdp i) in
       if present pde then pgdir_for_each (unat (PTE_ADDR pde)) f pml4_index i s else Some (True, s)) [0..<512]"

definition pml4_for_each :: "nat \<Rightarrow> 'a pte_for_each_func \<Rightarrow> physmem \<times> 'a \<Rightarrow> (bool \<times> physmem \<times> 'a) option" where
  "pml4_for_each pml4 f =
     entries_loop (\<lambda>i s. let pdpe = ptov_entry (pages (fst s) pml4 i) in
       if present pdpe then pdp_for_each (unat (PTE_ADDR pdpe)) f i s else Some (True, s)) [0..<512]"

text \<open>\<open>pt_destroy\<close>, \<open>pgdir_destroy\<close> and \<open>pdpe_destroy\<close> release what the entries refer to, each with the function
  of the level below, and then the table itself.\<close>

fun destroy_loop :: "(physmem \<Rightarrow> nat \<Rightarrow> physmem option) \<Rightarrow> nat \<Rightarrow> nat list \<Rightarrow> physmem \<Rightarrow> physmem option" where
  "destroy_loop lower a [] m = Some m"
| "destroy_loop lower a (i # is) m = do {
     let e = ptov_entry (pages m a i);
     m \<leftarrow> (if present e then lower m (unat (PTE_ADDR e)) else Some m);
     destroy_loop lower a is m }"

definition destroy_table :: "(physmem \<Rightarrow> nat \<Rightarrow> physmem option) \<Rightarrow> physmem \<Rightarrow> nat \<Rightarrow> physmem option" where
  "destroy_table lower m a = do {
     m \<leftarrow> destroy_loop lower a [0..<512] m;
     palloc_free_page m a }"

definition pt_destroy :: "physmem \<Rightarrow> nat \<Rightarrow> physmem option" where
  "pt_destroy = destroy_table palloc_free_page"

definition pgdir_destroy :: "physmem \<Rightarrow> nat \<Rightarrow> physmem option" where
  "pgdir_destroy = destroy_table pt_destroy"

definition pdpe_destroy :: "physmem \<Rightarrow> nat \<Rightarrow> physmem option" where
  "pdpe_destroy = destroy_table pgdir_destroy"

definition pml4_destroy :: "physmem \<Rightarrow> nat \<Rightarrow> nat \<Rightarrow> physmem option" where
  "pml4_destroy m base_pml4 pml4 =
     (if pml4 = NULL then Some m
      else do {
        ASSERT (pml4 \<noteq> base_pml4);
        let pdpe = ptov_entry (pages m pml4 0);
        m \<leftarrow> (if present pdpe then pdpe_destroy m (unat (PTE_ADDR pdpe)) else Some m);
        palloc_free_page m pml4 })"

end
