(* ===== verification/Page_Table_Correct.thy ===== *)
theory Page_Table_Correct
  imports Page_Table
begin

text \<open>
  The page tables implement a map from user pages to frames.  A table is reached from the root by a path
  of indices; in a well-formed tree different paths lead to different tables, all of them allocated.
  Creating tables, giving up half-way and changing one entry are then local.
\<close>

unbundle bit_operations_syntax

section \<open>Entries\<close>

lemma addr_of_entry:
  fixes w f :: "64 word"
  assumes "take_bit 12 w = 0" "drop_bit 12 f = 0"
  shows "PTE_ADDR (w OR f) = w"
proof (unfold PTE_ADDR_def, rule bit_word_eqI)
  fix n assume n: "n < LENGTH(64)"
  have m: "(0xFFF :: 64 word) = mask 12" by (simp add: mask_eq_exp_minus_1)
  have w: "n < 12 \<Longrightarrow> \<not> bit w n" using assms(1) by (metis bit_take_bit_iff bit_0_eq bot_apply bot_bool_def)
  have "bit f (12 + k) = bit (drop_bit 12 f) k" for k by (simp add: bit_drop_bit_eq)
  then have f: "\<not> n < 12 \<Longrightarrow> \<not> bit f n" using assms(2) le_add_diff_inverse [of 12 n] by (metis bit_0_eq bot_apply bot_bool_def linorder_not_less)
  show "bit ((w OR f) AND NOT 0xFFF) n = bit w n" unfolding m using w f n by (auto simp: bit_simps)
qed

lemma take_bit_of_page: "pg_ofs a = 0 \<Longrightarrow> KERN_BASE \<le> a \<Longrightarrow> take_bit 12 (of_nat (a - KERN_BASE) :: 64 word) = 0"
proof -
  assume "pg_ofs a = 0" "KERN_BASE \<le> a"
  then have "(a - KERN_BASE) mod 4096 = 0" by (simp add: pg_ofs_def PGSIZE_val KERN_BASE_def mod_diff_eq [symmetric]
      dvd_eq_mod_eq_0 [symmetric] dvd_diff_nat)
  then have "take_bit 12 (a - KERN_BASE) = 0" by (simp add: take_bit_eq_mod)
  then show ?thesis unfolding take_bit_of_nat by simp
qed

lemma present_simps [simp]:
  "\<not> present 0" "present (w OR PTE_P)" "present (w OR (f OR (g OR PTE_P)))" "present (w OR PTE_P OR f)" "present (w OR PTE_P OR f OR g)"
  by (simp_all add: present_def PTE_P_def bit_eq_iff bit_simps) (auto intro!: exI [of _ 0])

lemma entry_page_ok:
  assumes "pg_ofs a = 0" "KERN_BASE \<le> a" "a < 2 ^ 64" "drop_bit 12 f = 0"
  shows "entry_page (of_nat (a - KERN_BASE) OR f) = a"
proof -
  have "unat (of_nat (a - KERN_BASE) :: 64 word) = a - KERN_BASE"
    using assms(3) by (simp add: unsigned_of_nat take_bit_eq_mod del: of_nat_diff)
  then show ?thesis
    using assms(2) addr_of_entry [OF take_bit_of_page [OF assms(1,2)] assms(4)]
    by (simp add: entry_page_def ptov_def del: of_nat_diff)
qed


lemma flag_bits: "present e \<longleftrightarrow> bit e 0" "e AND PTE_W \<noteq> 0 \<longleftrightarrow> bit e 1"
  by (simp_all add: present_def PTE_P_def PTE_W_def bit_iff_and_push_bit_not_eq_0)

lemma mapping_flags:
  assumes "pg_ofs a = 0" "KERN_BASE \<le> a"
  shows "present (of_nat (a - KERN_BASE) OR PTE_P OR (if rw then PTE_W else 0) OR PTE_U)"
    "(of_nat (a - KERN_BASE) OR PTE_P OR (if rw then PTE_W else 0) OR PTE_U) AND PTE_W \<noteq> 0 \<longleftrightarrow> rw"
proof -
  have low: "\<not> bit (of_nat (a - KERN_BASE) :: 64 word) 1"
    using take_bit_of_page [OF assms] bit_take_bit_iff [of 12 "of_nat (a - KERN_BASE) :: 64 word" 1] by simp
  have cs: "bit PTE_P 0" "\<not> bit PTE_P 1" "bit PTE_W 1" "\<not> bit PTE_U 1"
    by (simp_all add: PTE_P_def PTE_W_def PTE_U_def)
  show "present (of_nat (a - KERN_BASE) OR PTE_P OR (if rw then PTE_W else 0) OR PTE_U)"
    unfolding flag_bits bit_or_iff using cs by simp
  show "(of_nat (a - KERN_BASE) OR PTE_P OR (if rw then PTE_W else 0) OR PTE_U) AND PTE_W \<noteq> 0 \<longleftrightarrow> rw"
    unfolding flag_bits bit_or_iff using cs low by simp
qed

section \<open>Trees\<close>

fun node :: "physmem \<Rightarrow> nat \<Rightarrow> nat list \<Rightarrow> nat option" where
  "node m a [] = Some a"
| "node m a (i # is) = (if present (pages m a i) then node m (entry_page (pages m a i)) is else None)"

lemma node_append: "node m a (p @ q) = Option.bind (node m a p) (\<lambda>b. node m b q)"
  by (induction p arbitrary: a) auto

lemma node_snoc: "node m a (p @ [i]) =
    Option.bind (node m a p) (\<lambda>b. if present (pages m b i) then Some (entry_page (pages m b i)) else None)"
  by (cases "node m a p") (simp_all add: node_append)

lemma node_prefix: "node m a (p @ q) = Some b \<Longrightarrow> \<exists>c. node m a p = Some c"
  by (auto simp: node_append bind_Some)

definition valid_path :: "nat list \<Rightarrow> bool" where
  "valid_path p \<longleftrightarrow> length p \<le> 3 \<and> (\<forall>i \<in> set p. i < 512)"

lemma valid_path_simps [simp]: "valid_path []" "valid_path (p @ [i]) \<Longrightarrow> valid_path p"
  by (auto simp: valid_path_def)

definition pt_inv :: "physmem \<Rightarrow> nat \<Rightarrow> bool" where
  "pt_inv m root \<longleftrightarrow> pools_ok m \<and>
     (\<forall>p a. valid_path p \<longrightarrow> node m root p = Some a \<longrightarrow> a \<in> page_used m) \<and>
     (\<forall>p q a. valid_path p \<longrightarrow> valid_path q \<longrightarrow> node m root p = Some a \<longrightarrow> node m root q = Some a \<longrightarrow> p = q)"

lemma pt_invD:
  assumes "pt_inv m root"
  shows "pools_ok m" "valid_path p \<Longrightarrow> node m root p = Some a \<Longrightarrow> a \<in> page_used m"
    "valid_path p \<Longrightarrow> valid_path q \<Longrightarrow> node m root p = Some a \<Longrightarrow> node m root q = Some a \<Longrightarrow> p = q"
  using assms by (auto simp: pt_inv_def)

lemma pt_inv_NULL:
  assumes "pt_inv m root" "valid_path p" "node m root p = Some a"
  shows "a \<noteq> NULL" "KERN_BASE \<le> a" "a < 2 ^ 64" "pg_ofs a = 0"
  using page_used_bounds [OF pt_invD(1) [OF assms(1)] pt_invD(2) [OF assms]] by (auto simp: KERN_BASE_def)

text \<open>What is mapped at index \<open>j\<close> of the table at path \<open>q\<close>.\<close>

definition leaf :: "physmem \<Rightarrow> nat \<Rightarrow> nat list \<Rightarrow> nat \<Rightarrow> 64 word option" where
  "leaf m root q j = (case node m root q of
     None \<Rightarrow> None | Some a \<Rightarrow> if present (pages m a j) then Some (pages m a j) else None)"

text \<open>Changing memory only outside the tables, and at one entry, changes only the tables below that entry.\<close>

lemma node_change:
  assumes inv: "pt_inv m root" and p: "valid_path p" "node m root p = Some a"
    and same: "\<And>j. j \<noteq> i \<Longrightarrow> pages m' a j = pages m a j"
      "\<And>q x. valid_path q \<Longrightarrow> \<not> prefix (p @ [i]) q \<Longrightarrow> node m root q = Some x \<Longrightarrow> x \<noteq> a \<Longrightarrow> pages m' x = pages m x"
  shows "valid_path q \<Longrightarrow> \<not> prefix (p @ [i]) q \<Longrightarrow> node m' root q = node m root q"
proof (induction q rule: rev_induct)
  case (snoc j q)
  have q: "valid_path q" "\<not> prefix (p @ [i]) q" using snoc.prems by (auto simp: prefix_snoc)
  have eq: "node m' root q = node m root q" using snoc.IH q by simp
  show ?case
  proof (cases "node m root q")
    case (Some b)
    have "pages m' b j = pages m b j"
    proof (cases "b = a")
      case True
      then have "q = p" using pt_invD(3) [OF inv q(1) p(1)] Some p(2) by simp
      then have "j \<noteq> i" using snoc.prems(2) by auto
      then show ?thesis using True same(1) by simp
    next
      case False
      then show ?thesis using same(2) [OF q Some] by simp
    qed
    then show ?thesis using eq Some by (simp add: node_snoc)
  qed (simp add: node_snoc eq)
qed simp

text \<open>How tables may grow: nothing that was there moves, and nothing is mapped or unmapped.\<close>

definition grows :: "nat \<Rightarrow> physmem \<Rightarrow> physmem \<Rightarrow> bool" where
  "grows root m m' \<longleftrightarrow> pt_inv m' root \<and>
     (\<forall>q x. valid_path q \<longrightarrow> node m root q = Some x \<longrightarrow> node m' root q = Some x) \<and>
     (\<forall>q j. valid_path q \<longrightarrow> length q = 3 \<longrightarrow> leaf m' root q j = leaf m root q j)"

lemma grows_refl: "pt_inv m root \<Longrightarrow> grows root m m"
  by (simp add: grows_def)

lemma grows_trans: "grows root m m1 \<Longrightarrow> grows root m1 m2 \<Longrightarrow> grows root m m2"
  by (simp add: grows_def)

text \<open>A new, empty table.\<close>

lemma extend_ok:
  assumes inv: "pt_inv m root" and p: "valid_path (p @ [i])" "node m root p = Some a" "\<not> present (pages m a i)"
    and n: "n \<notin> page_used m" "page_used m' = insert n (page_used m)" "pools_ok m'" "pages m' n = (\<lambda>_. 0)"
      "\<And>x. x \<in> page_used m \<Longrightarrow> x \<noteq> a \<Longrightarrow> pages m' x = pages m x" "\<And>j. j \<noteq> i \<Longrightarrow> pages m' a j = pages m a j"
      "present (pages m' a i)" "entry_page (pages m' a i) = n"
  shows "grows root m m'" "node m' root (p @ [i]) = Some n"
proof -
  have vp: "valid_path p" using p(1) by simp
  have change: "valid_path q \<Longrightarrow> \<not> prefix (p @ [i]) q \<Longrightarrow> node m' root q = node m root q" for q
    by (rule node_change [OF inv vp p(2) n(6)]) (use n(5) pt_invD(2) [OF inv] in blast)+
  have np: "node m' root p = Some a" using change [OF vp] p(2) by (simp add: prefix_def)
  show ni: "node m' root (p @ [i]) = Some n" using np n(7,8) by (simp add: node_snoc)
  have old: "node m root (p @ i # r) = None" for r using p(2,3) by (simp add: node_append)
  have new: "node m' root (p @ i # r) = (if r = [] then Some n else None)" for r
    using np n(4,7,8) by (cases r) (simp_all add: node_append)
  have node': "node m' root q = (if q = p @ [i] then Some n else node m root q)" if "valid_path q" for q
  proof (cases "prefix (p @ [i]) q")
    case True
    then obtain r where "q = p @ i # r" by (auto simp: prefix_def)
    then show ?thesis using old new by simp
  next
    case False
    then show ?thesis using change that by auto
  qed
  have "pt_inv m' root"
    unfolding pt_inv_def
  proof (intro conjI allI impI)
    show "pools_ok m'" by (rule n(3))
    fix q x assume "valid_path q" "node m' root q = Some x"
    then show "x \<in> page_used m'" using node' pt_invD(2) [OF inv] n(2) by (auto split: if_splits)
  next
    fix q1 q2 x assume q: "valid_path q1" "valid_path q2" "node m' root q1 = Some x" "node m' root q2 = Some x"
    show "q1 = q2"
    proof (cases "x = n")
      case True
      then show ?thesis using q node' pt_invD(2) [OF inv] n(1) by (metis)
    next
      case False
      then show ?thesis using q node' pt_invD(3) [OF inv] by (metis option.inject)
    qed
  qed
  moreover have "leaf m' root q j = leaf m root q j" if q: "valid_path q" "length q = 3" for q j
  proof (cases "q = p @ [i]")
    case True
    then show ?thesis using ni n(4) old [of "[]"] by (simp add: leaf_def)
  next
    case False
    have "x \<noteq> a" if "node m root q = Some x" for x
      using pt_invD(3) [OF inv q(1) vp that] p(1,2) q(2) by (auto simp: valid_path_def)
    then show ?thesis using node' [OF q(1)] False n(5) pt_invD(2) [OF inv q(1)] by (auto simp: leaf_def split: option.split)
  qed
  ultimately show "grows root m m'" using node' old [of "[]"] by (auto simp: grows_def)
qed

text \<open>An entry cleared again and its table released.\<close>

lemma remove_ok:
  assumes inv: "pt_inv m root" "pt_inv m1 root" and g: "grows root m m1"
    and p: "valid_path (p @ [i])" "node m root (p @ [i]) = None" "node m1 root p = Some a" "node m1 root (p @ [i]) = Some n"
    and m': "page_used m' = page_used m1 - {n}" "pools_ok m'" "\<not> present (pages m' a i)"
      "\<And>x. x \<in> page_used m1 \<Longrightarrow> x \<noteq> a \<Longrightarrow> x \<noteq> n \<Longrightarrow> pages m' x = pages m1 x" "\<And>j. j \<noteq> i \<Longrightarrow> pages m' a j = pages m1 a j"
  shows "grows root m m'"
proof -
  have vp: "valid_path p" using p(1) by simp
  have other: "x \<noteq> n" if "valid_path q" "q \<noteq> p @ [i]" "node m1 root q = Some x" for q x
    using pt_invD(3) [OF inv(2) that(1) p(1)] that p(4) by auto
  have keep: "pages m' x = pages m1 x" if "valid_path q" "\<not> prefix (p @ [i]) q" "node m1 root q = Some x" "x \<noteq> a" for q x
    using m'(4) [OF pt_invD(2) [OF inv(2) that(1,3)] that(4)] other [OF that(1) _ that(3)] that(2) by auto
  have change: "valid_path q \<Longrightarrow> \<not> prefix (p @ [i]) q \<Longrightarrow> node m' root q = node m1 root q" for q
    by (rule node_change [OF inv(2) vp p(3) m'(5) keep])
  have np: "node m' root p = Some a" using change [OF vp] p(3) by (simp add: prefix_def)
  have gone: "node m' root q = None" "node m root q = None" if pre: "prefix (p @ [i]) q" for q
  proof -
    obtain r where r: "q = p @ i # r" using pre by (auto simp: prefix_def)
    show "node m' root q = None" unfolding r using np m'(3) by (simp add: node_append)
    show "node m root q = None" unfolding r using p(2) node_append [of m root "p @ [i]" r] by simp
  qed
  have node': "node m' root q = (if prefix (p @ [i]) q then None else node m1 root q)" if "valid_path q" for q
    using that change gone by simp
  have "pt_inv m' root"
    unfolding pt_inv_def
  proof (intro conjI allI impI)
    show "pools_ok m'" by (rule m'(2))
    fix q x assume q: "valid_path q" "node m' root q = Some x"
    then have "node m1 root q = Some x" "q \<noteq> p @ [i]" using node' by (auto split: if_splits)
    then show "x \<in> page_used m'" using pt_invD(2) [OF inv(2) q(1)] other [OF q(1)] m'(1) by auto
  next
    fix q1 q2 x assume "valid_path q1" "valid_path q2" "node m' root q1 = Some x" "node m' root q2 = Some x"
    then show "q1 = q2" using node' pt_invD(3) [OF inv(2)] by (auto split: if_splits)
  qed
  moreover have "leaf m' root q j = leaf m root q j" if q: "valid_path q" "length q = 3" for q j
  proof (cases "prefix (p @ [i]) q")
    case True
    then show ?thesis using gone by (simp add: leaf_def)
  next
    case False
    have "pages m' x = pages m1 x" if "node m1 root q = Some x" for x
    proof (rule m'(4))
      show "x \<in> page_used m1" by (rule pt_invD(2) [OF inv(2) q(1) that])
      show "x \<noteq> a" using pt_invD(3) [OF inv(2) q(1) vp that] p(1,3) q(2) by (auto simp: valid_path_def)
      show "x \<noteq> n" using other [OF q(1) _ that] False by auto
    qed
    then have "leaf m' root q j = leaf m1 root q j" using node' [OF q(1)] False by (auto simp: leaf_def split: option.split)
    then show ?thesis using g q by (simp add: grows_def)
  qed
  moreover have "node m' root q = Some x" if "valid_path q" "node m root q = Some x" for q x
    using that g node' gone(2) by (auto simp: grows_def)
  ultimately show ?thesis by (simp add: grows_def)
qed


section \<open>Walks\<close>

lemma set_entry_simps [simp]:
  "pools_ok (set_entry m a i e) = pools_ok m" "page_used (set_entry m a i e) = page_used m"
  "x \<noteq> a \<Longrightarrow> pages (set_entry m a i e) x = pages m x" "pages (set_entry m a i e) a i = e"
  "j \<noteq> i \<Longrightarrow> pages (set_entry m a i e) a j = pages m a j"
  by (simp_all add: set_entry_def pools_ok_def page_used_def)

lemma fill_other:
  assumes "pg_ofs x = 0" "pg_ofs n = 0" "x \<noteq> n"
  shows "pages (fill_pages m n 1 w) x = pages m x"
proof -
  obtain y z where "x = 4096 * y" "n = 4096 * z"
    using assms by (auto simp: pg_ofs_def PGSIZE_val elim!: dvdE simp flip: dvd_eq_mod_eq_0)
  then show ?thesis using assms(3) by (auto simp: fill_pages_def PGSIZE_val)
qed

lemma fill_self: "pages (fill_pages m n 1 w) n = (\<lambda>_. w)"
  by (simp add: fill_pages_def PGSIZE_val)

lemma new_table_ok:
  assumes inv: "pt_inv m root" and p: "valid_path (p @ [i])" "node m root p = Some a" "\<not> present (pages m a i)"
  shows "\<exists>ok m'. new_table m a i = Some (ok, m') \<and>
    (if ok then grows root m m' \<and> node m' root (p @ [i]) = Some (entry_page (pages m' a i)) else m' = m)"
proof -
  note ok = pt_invD(1) [OF inv]
  have a: "a \<in> page_used m" "pg_ofs a = 0"
    using pt_invD(2) [OF inv _ p(2)] pt_inv_NULL(4) [OF inv _ p(2)] p(1) by simp_all
  obtain r m1 where g: "palloc_get_page m {PAL_ZERO} = Some (r, m1)" "pools_ok m1"
      "r = NULL \<and> m1 = m \<or> r \<noteq> NULL \<and> pg_ofs r = 0 \<and> r \<notin> page_used m \<and> page_used m1 = insert r (page_used m) \<and>
        pages m1 = pages (fill_pages m r 1 0)"
    using palloc_get_ok [OF ok, of "{PAL_ZERO}" 1] by (fastforce simp: palloc_get_page_def)
  show ?thesis
  proof (cases "r = NULL")
    case True
    then show ?thesis using g by (intro exI [of _ False] exI [of _ m]) (auto simp: new_table_def)
  next
    case False
    then have r: "pg_ofs r = 0" "r \<notin> page_used m" "page_used m1 = insert r (page_used m)" "pages m1 = pages (fill_pages m r 1 0)"
      using g(3) by auto
    have b: "KERN_BASE \<le> r" "r < 2 ^ 64" using page_used_bounds [OF g(2)] r(3) by auto
    let ?e = "of_nat (r - KERN_BASE) OR PTE_U OR PTE_W OR PTE_P" and ?m = "set_entry m1 a i (of_nat (r - KERN_BASE) OR PTE_U OR PTE_W OR PTE_P)"
    have e: "entry_page ?e = r" by (rule entry_page_ok [OF r(1) b]) (simp add: PTE_U_def PTE_W_def PTE_P_def)
    have nt: "new_table m a i = Some (True, ?m)"
      using g(1) False b(1) by (simp add: new_table_def vtop_def is_kernel_vaddr_def)
    have ra: "r \<noteq> a" using a(1) r(2) by auto
    have old: "pages m1 x = pages m x" if "x \<in> page_used m" for x
      unfolding r(4) using that r(1,2) page_used_bounds [OF ok that] by (intro fill_other) auto
    have "grows root m ?m \<and> node ?m root (p @ [i]) = Some r"
    proof (intro conjI)
      show "grows root m ?m"
        by (rule extend_ok(1) [OF inv p r(2)]) (use r(3,4) g(2) ra old a(1) e fill_self in \<open>simp_all\<close>)
      show "node ?m root (p @ [i]) = Some r"
        by (rule extend_ok(2) [OF inv p r(2)]) (use r(3,4) g(2) ra old a(1) e fill_self in \<open>simp_all\<close>)
    qed
    then show ?thesis using nt e by (intro exI [of _ True] exI [of _ ?m]) simp
  qed
qed

definition walk_ok ::
    "(physmem \<Rightarrow> nat \<Rightarrow> nat \<Rightarrow> bool \<Rightarrow> (entry_ptr option \<times> physmem) option) \<Rightarrow> (nat \<Rightarrow> nat list) \<Rightarrow> nat \<Rightarrow> bool" where
  "walk_ok walk is d \<longleftrightarrow> (\<forall>m root p a va create. pt_inv m root \<longrightarrow> valid_path p \<longrightarrow> length p = d \<longrightarrow> node m root p = Some a \<longrightarrow>
     (\<exists>r m'. walk m a va create = Some (r, m') \<and> grows root m m' \<and> (\<not> create \<longrightarrow> m' = m) \<and>
       (case r of None \<Rightarrow> \<not> create \<longrightarrow> node m root (p @ is va) = None
        | Some e \<Rightarrow> \<exists>b. e = (b, PTX va) \<and> node m' root (p @ is va) = Some b)))"

lemma index_bounds: "PML4 va < 512" "PDPE va < 512" "PDX va < 512" "PTX va < 512"
  by (simp_all add: PML4_def PDPE_def PDX_def PTX_def)

lemma valid_snoc: "valid_path p \<Longrightarrow> length p < 3 \<Longrightarrow> i < 512 \<Longrightarrow> valid_path (p @ [i])"
  by (auto simp: valid_path_def)

lemma pgdir_walk_ok: "walk_ok pgdir_walk (\<lambda>va. [PDX va]) 2"
  unfolding walk_ok_def
proof (intro allI impI)
  fix m root p a va create
  assume inv: "pt_inv m root" and p: "valid_path p" "length p = 2" "node m root p = Some a"
  have vp: "valid_path (p @ [PDX va])" using valid_snoc [OF p(1)] p(2) index_bounds by simp
  have a: "a \<noteq> NULL" using pt_inv_NULL(1) [OF inv p(1,3)] .
  have nd: "node m root (p @ [PDX va]) = (if present (pages m a (PDX va)) then Some (entry_page (pages m a (PDX va))) else None)"
    using p(3) by (simp add: node_snoc)
  show "\<exists>r m'. pgdir_walk m a va create = Some (r, m') \<and> grows root m m' \<and> (\<not> create \<longrightarrow> m' = m) \<and>
      (case r of None \<Rightarrow> \<not> create \<longrightarrow> node m root (p @ [PDX va]) = None
       | Some e \<Rightarrow> \<exists>b. e = (b, PTX va) \<and> node m' root (p @ [PDX va]) = Some b)"
  proof (cases "create \<and> \<not> present (pages m a (PDX va))")
    case True
    obtain ok m' where t: "new_table m a (PDX va) = Some (ok, m')"
        "if ok then grows root m m' \<and> node m' root (p @ [PDX va]) = Some (entry_page (pages m' a (PDX va))) else m' = m"
      using new_table_ok [OF inv vp p(3)] True by blast
    then show ?thesis using True a grows_refl [OF inv] by (cases ok) (simp_all add: pgdir_walk_def)
  next
    case False
    then have "pgdir_walk m a va create =
        Some (if present (pages m a (PDX va)) then Some (entry_page (pages m a (PDX va)), PTX va) else None, m)"
      using a by (auto simp: pgdir_walk_def Let_def)
    then show ?thesis using nd grows_refl [OF inv] by (auto split: if_splits)
  qed
qed

text \<open>Giving a table back.\<close>

lemma undo_ok:
  assumes inv: "pt_inv m root" and g: "grows root m m2" and p: "valid_path (p @ [i])" "node m root p = Some a"
    "\<not> present (pages m a i)" "node m2 root (p @ [i]) = Some n"
  shows "\<exists>m3. palloc_free_page m2 (entry_page (pages m2 a i)) = Some m3 \<and> grows root m (set_entry m3 a i 0)"
proof -
  have inv2: "pt_inv m2 root" and np: "node m2 root p = Some a" using g p(1,2) by (auto simp: grows_def)
  have e: "entry_page (pages m2 a i) = n" using p(4) np by (simp add: node_snoc split: if_splits)
  note ok = pt_invD(1) [OF inv2]
  have n: "n \<in> page_used m2" "pg_ofs n = 0" "n < 2 ^ 64" "n \<noteq> NULL"
    using pt_invD(2) [OF inv2 p(1,4)] pt_inv_NULL [OF inv2 p(1,4)] by auto
  have "n + PGSIZE * 1 \<le> 2 ^ 64"
    using n(2,3) by (auto simp: pg_ofs_def PGSIZE_val elim!: dvdE simp flip: dvd_eq_mod_eq_0)
  from palloc_free_ok [OF ok n(2,4) _ this]
  obtain m3 where m3: "palloc_free_page m2 n = Some m3" "pools_ok m3" "page_used m3 = page_used m2 - {n}"
      "pages m3 = pages (fill_pages m2 n 1 0xcccccccccccccccc)"
    using n(1) by (auto simp: palloc_free_page_def)
  have an: "a \<noteq> n" using pt_invD(3) [OF inv2 _ p(1) np] p(1,4) by auto
  have same: "pages m3 x = pages m2 x" if "x \<in> page_used m2" "x \<noteq> n" for x
    unfolding m3(4) using that n(2) page_used_bounds [OF ok that(1)] by (intro fill_other) auto
  have aa: "pages m3 a = pages m2 a" by (rule same) (use pt_invD(2) [OF inv2 _ np] p(1) an in auto)
  have old: "node m root (p @ [i]) = None" using p(2,3) by (simp add: node_snoc)
  have "grows root m (set_entry m3 a i 0)"
    by (rule remove_ok [OF inv inv2 g p(1) old np p(4)]) (use m3(2,3) same aa in simp_all)
  then show ?thesis using m3(1) e by blast
qed

lemma walk_level_ok:
  assumes low: "walk_ok lower is (Suc d)" and d: "d < 3" and idx: "\<And>va. index va < 512"
  shows "walk_ok (walk_level lower index) (\<lambda>va. index va # is va) d"
  unfolding walk_ok_def
proof (intro allI impI)
  fix m root p a va create
  assume inv: "pt_inv m root" and p: "valid_path p" "length p = d" "node m root p = Some a"
  let ?i = "index va"
  have vp: "valid_path (p @ [?i])" using valid_snoc [OF p(1)] p(2) d idx by simp
  have len: "length (p @ [?i]) = Suc d" using p(2) by simp
  have a: "a \<noteq> NULL" using pt_inv_NULL(1) [OF inv p(1,3)] .
  have lower: "\<exists>r m'. lower m0 b va create = Some (r, m') \<and> grows root m0 m' \<and> (\<not> create \<longrightarrow> m' = m0) \<and>
      (case r of None \<Rightarrow> \<not> create \<longrightarrow> node m0 root (p @ ?i # is va) = None
       | Some e \<Rightarrow> \<exists>b. e = (b, PTX va) \<and> node m' root (p @ ?i # is va) = Some b)"
    if "pt_inv m0 root" "node m0 root (p @ [?i]) = Some b" for m0 b
    using low [unfolded walk_ok_def, rule_format, OF that(1) vp len that(2), of va create]
    unfolding append_assoc append_Cons append_Nil .
  show "\<exists>r m'. walk_level lower index m a va create = Some (r, m') \<and> grows root m m' \<and> (\<not> create \<longrightarrow> m' = m) \<and>
      (case r of None \<Rightarrow> \<not> create \<longrightarrow> node m root (p @ ?i # is va) = None
       | Some e \<Rightarrow> \<exists>b. e = (b, PTX va) \<and> node m' root (p @ ?i # is va) = Some b)"
  proof (cases "present (pages m a ?i)")
    case True
    then have "node m root (p @ [?i]) = Some (entry_page (pages m a ?i))" using p(3) by (simp add: node_snoc)
    from lower [OF inv this] show ?thesis using True a by (simp add: walk_level_def)
  next
    case False
    have none: "node m root (p @ ?i # is va) = None" using p(3) False by (simp add: node_append)
    show ?thesis
    proof (cases create)
      case False
      then show ?thesis using \<open>\<not> present (pages m a ?i)\<close> a none grows_refl [OF inv] by (simp add: walk_level_def)
    next
      case True
      obtain ok m1 where t: "new_table m a ?i = Some (ok, m1)"
          "if ok then grows root m m1 \<and> node m1 root (p @ [?i]) = Some (entry_page (pages m1 a ?i)) else m1 = m"
        using new_table_ok [OF inv vp p(3) False] by blast
      show ?thesis
      proof (cases ok)
        case False
        then show ?thesis using t \<open>\<not> present (pages m a ?i)\<close> True a grows_refl [OF inv] by (simp add: walk_level_def)
      next
        case ok: True
        have g1: "grows root m m1" and n1: "node m1 root (p @ [?i]) = Some (entry_page (pages m1 a ?i))" using t(2) ok by auto
        have inv1: "pt_inv m1 root" using g1 by (simp add: grows_def)
        obtain r m2 where r: "lower m1 (entry_page (pages m1 a ?i)) va True = Some (r, m2)" "grows root m1 m2"
            "case r of None \<Rightarrow> True | Some e \<Rightarrow> \<exists>b. e = (b, PTX va) \<and> node m2 root (p @ ?i # is va) = Some b"
          using lower [OF inv1 n1] True by (auto split: option.splits)
        have g2: "grows root m m2" using grows_trans [OF g1 r(2)] .
        have n2: "node m2 root (p @ [?i]) = Some (entry_page (pages m1 a ?i))" using r(2) vp n1 by (simp add: grows_def)
        show ?thesis
        proof (cases r)
          case None
          obtain m3 where "palloc_free_page m2 (entry_page (pages m2 a ?i)) = Some m3" "grows root m (set_entry m3 a ?i 0)"
            using undo_ok [OF inv g2 vp p(3) \<open>\<not> present (pages m a ?i)\<close> n2] by blast
          then show ?thesis using t(1) ok r(1) None \<open>\<not> present (pages m a ?i)\<close> True a by (simp add: walk_level_def)
        next
          case (Some e)
          then show ?thesis using t(1) ok r(1,3) g2 \<open>\<not> present (pages m a ?i)\<close> True a by (simp add: walk_level_def)
        qed
      qed
    qed
  qed
qed

lemma pml4e_walk_walk_ok: "walk_ok pml4e_walk (\<lambda>va. [PML4 va, PDPE va, PDX va]) 0"
  unfolding pml4e_walk_def pdpe_walk_def
  by (intro walk_level_ok) (use pgdir_walk_ok index_bounds in \<open>auto simp: numeral_2_eq_2\<close>)

definition va_path :: "nat \<Rightarrow> nat list" where
  "va_path va = [PML4 va, PDPE va, PDX va]"

lemma valid_va_path [simp]: "valid_path (va_path va)" "length (va_path va) = 3"
  by (auto simp: valid_path_def va_path_def index_bounds)

lemma pml4e_walk_ok:
  assumes "pt_inv m root"
  shows "\<exists>r m'. pml4e_walk m root va create = Some (r, m') \<and> grows root m m' \<and> (\<not> create \<longrightarrow> m' = m) \<and>
    (case r of None \<Rightarrow> \<not> create \<longrightarrow> node m root (va_path va) = None
     | Some e \<Rightarrow> \<exists>b. e = (b, PTX va) \<and> node m' root (va_path va) = Some b)"
  using pml4e_walk_walk_ok [unfolded walk_ok_def, rule_format, OF assms, of "[]" root va create]
  unfolding append_Nil va_path_def [symmetric] by simp


section \<open>The map\<close>

text \<open>The frame and the write permission of a user page.\<close>

definition page_map :: "physmem \<Rightarrow> nat \<Rightarrow> nat \<Rightarrow> (nat \<times> bool) option" where
  "page_map m root va = map_option (\<lambda>e. (entry_page e, e AND PTE_W \<noteq> 0)) (leaf m root (va_path va) (PTX va))"

lemma write_leaf:
  assumes inv: "pt_inv m root" and q: "valid_path q" "length q = 3" "node m root q = Some a"
  shows "pt_inv (set_entry m a i e) root"
    "valid_path q' \<Longrightarrow> length q' = 3 \<Longrightarrow> leaf (set_entry m a i e) root q' j =
       (if q' = q \<and> j = i then if present e then Some e else None else leaf m root q' j)"
proof -
  let ?m = "set_entry m a i e"
  have nd: "node ?m root q' = node m root q'" if "valid_path q'" for q'
    by (rule node_change [OF inv q(1,3), of i]) (use that q(2) in \<open>auto simp: valid_path_def prefix_def\<close>)
  then show "pt_inv ?m root" using inv unfolding pt_inv_def by simp
  show "leaf ?m root q' j = (if q' = q \<and> j = i then if present e then Some e else None else leaf m root q' j)"
    if q': "valid_path q'" "length q' = 3"
  proof (cases "node m root q'")
    case (Some b)
    then have "b = a \<longleftrightarrow> q' = q" using pt_invD(3) [OF inv q'(1) q(1) _ q(3)] q(3) by auto
    then show ?thesis using Some nd [OF q'(1)] by (cases "b = a"; cases "j = i") (simp_all add: leaf_def)
  qed (use nd q' q(3) in \<open>auto simp: leaf_def\<close>)
qed

lemma digits_inj:
  fixes x y :: nat
  assumes "x < 512 ^ 4" "y < 512 ^ 4" "x mod 512 = y mod 512" "x div 512 mod 512 = y div 512 mod 512"
    "x div 512 div 512 mod 512 = y div 512 div 512 mod 512" "x div 512 div 512 div 512 mod 512 = y div 512 div 512 div 512 mod 512"
  shows "x = y"
proof -
  have lt: "z div 512 div 512 div 512 < 512" if "z < 512 ^ 4" for z :: nat using that by (simp add: div_mult2_eq [symmetric] less_mult_imp_div_less)
  have "x div 512 div 512 div 512 = y div 512 div 512 div 512" using assms(6) lt [OF assms(1)] lt [OF assms(2)] by simp
  then have "x div 512 div 512 = y div 512 div 512" using assms(5) by (metis div_mult_mod_eq)
  then have "x div 512 = y div 512" using assms(4) by (metis div_mult_mod_eq)
  then show ?thesis using assms(3) by (metis div_mult_mod_eq)
qed

lemma page_of_path:
  assumes "is_user_vaddr va" "is_user_vaddr vb" "pg_ofs va = 0" "pg_ofs vb = 0" "va_path va = va_path vb" "PTX va = PTX vb"
  shows "va = vb"
proof -
  have dig: "PTX v = v div 4096 mod 512" "PDX v = v div 4096 div 512 mod 512" "PDPE v = v div 4096 div 512 div 512 mod 512"
      "PML4 v = v div 4096 div 512 div 512 div 512 mod 512" for v
    by (simp_all add: PTX_def PDX_def PDPE_def PML4_def PTXSHIFT_def PDXSHIFT_def PDPESHIFT_def PML4SHIFT_def drop_bit_eq_div
        div_mult2_eq [symmetric])
  have bnd: "v div 4096 < 512 ^ 4" if "is_user_vaddr v" for v
    using that by (simp add: is_user_vaddr_def is_kernel_vaddr_def KERN_BASE_def less_mult_imp_div_less)
  have "va div 4096 = vb div 4096"
    by (rule digits_inj [OF bnd [OF assms(1)] bnd [OF assms(2)]]) (use assms(5,6) in \<open>simp_all add: va_path_def dig\<close>)
  then show ?thesis using assms(3,4) by (metis PGSIZE_val div_mult_mod_eq pg_ofs_def)
qed

lemma grows_page_map: "grows root m m' \<Longrightarrow> page_map m' root va = page_map m root va"
  by (simp add: grows_def page_map_def)

lemma find_entry:
  assumes "pt_inv m root"
  shows "pml4e_walk m root va False = Some (map_option (\<lambda>a. (a, PTX va)) (node m root (va_path va)), m)"
proof -
  obtain r where r: "pml4e_walk m root va False = Some (r, m)"
      "case r of None \<Rightarrow> node m root (va_path va) = None | Some e \<Rightarrow> \<exists>b. e = (b, PTX va) \<and> node m root (va_path va) = Some b"
    using pml4e_walk_ok [OF assms, of va False] by (auto split: option.splits)
  then show ?thesis by (cases r) auto
qed

lemma write_page_map:
  assumes inv: "pt_inv m root" and u: "is_user_vaddr up" "pg_ofs up = 0" "node m root (va_path up) = Some a"
    and v: "is_user_vaddr va" "pg_ofs va = 0"
  shows "page_map (set_entry m a (PTX up) e) root va =
    (if va = up then if present e then Some (entry_page e, e AND PTE_W \<noteq> 0) else None else page_map m root va)"
  using write_leaf(2) [OF inv _ _ u(3), of "va_path va" "PTX up" e "PTX va"] page_of_path [OF v(1) u(1) v(2) u(2)]
  by (auto simp: page_map_def)



lemma demo_memory_inv: "pt_inv demo_memory 0x8004000000"
proof -
  have z: "pages demo_memory a i = 0" for a i by (simp add: demo_memory_def)
  have nd: "node demo_memory 0x8004000000 p = (if p = [] then Some 0x8004000000 else None)" for p
    by (cases p) (simp_all add: z)
  have "0x8004000000 \<in> page_used demo_memory"
    by (auto simp: page_used_def pool_used_def bitmap_used_def bit_at_def demo_memory_def PGSIZE_val elem_idx_def ELEM_BITS_def image_iff)
  then show ?thesis using demo_memory_ok by (auto simp: pt_inv_def nd split: if_splits)
qed


section \<open>The accessed and dirty bits\<close>

lemma not32_flag:
  fixes e f :: "64 word"
  assumes f: "f = PTE_A \<or> f = PTE_D"
  shows "PTE_ADDR (e AND not32 f) = take_bit 32 (PTE_ADDR e)" "present (e AND not32 f) = present e"
    "((e AND not32 f) AND PTE_W \<noteq> 0) = (e AND PTE_W \<noteq> 0)"
proof -
  have c: "not32 PTE_A = mask 32 AND NOT (2 ^ 5)" "not32 PTE_D = mask 32 AND NOT (2 ^ 6)"
    by (simp_all add: not32_def PTE_A_def PTE_D_def mask_eq_exp_minus_1)
  have n: "bit (not32 f) i \<longleftrightarrow> i < 32 \<and> i \<noteq> (if f = PTE_A then 5 else 6)" if "i < 64" for i
    using f
  proof
    assume *: "f = PTE_A"
    show ?thesis unfolding * c bit_and_iff bit_not_iff bit_mask_iff bit_exp_iff using that by auto
  next
    assume *: "f = PTE_D"
    have "PTE_D \<noteq> PTE_A" by (simp add: PTE_A_def PTE_D_def)
    then show ?thesis unfolding * c bit_and_iff bit_not_iff bit_mask_iff bit_exp_iff using that by auto
  qed
  have m: "(0xFFF :: 64 word) = mask 12" by (simp add: mask_eq_exp_minus_1)
  show "PTE_ADDR (e AND not32 f) = take_bit 32 (PTE_ADDR e)"
    unfolding PTE_ADDR_def m by (rule bit_word_eqI) (auto simp: bit_simps n)
  show "present (e AND not32 f) = present e" "((e AND not32 f) AND PTE_W \<noteq> 0) = (e AND PTE_W \<noteq> 0)"
    unfolding flag_bits bit_and_iff using n by auto
qed

text \<open>Clearing the accessed or the dirty bit of a mapped page returns and keeps the tree well-formed and the write permission,
  but keeps only the low 32 bits of the frame's physical address: a page in a frame at or above 4 GiB is
  silently mapped somewhere else.\<close>

theorem clear_flag_truncates:
  assumes inv: "pt_inv m pml4" and u: "is_user_vaddr upage" "pg_ofs upage = 0" and mapped: "page_map m pml4 upage = Some (ptov pa, w)"
  shows "\<exists>m1 m2. pml4_set_accessed m pml4 upage False = Some m1 \<and> pml4_set_dirty m pml4 upage False = Some m2 \<and>
    pt_inv m1 pml4 \<and> pt_inv m2 pml4 \<and>
    page_map m1 pml4 upage = Some (ptov (pa mod 2 ^ 32), w) \<and> page_map m2 pml4 upage = Some (ptov (pa mod 2 ^ 32), w)"
proof -
  obtain b where b: "node m pml4 (va_path upage) = Some b" "present (pages m b (PTX upage))"
      "entry_page (pages m b (PTX upage)) = ptov pa" "(pages m b (PTX upage) AND PTE_W \<noteq> 0) = w"
    using mapped by (auto simp: page_map_def leaf_def split: option.splits if_splits)
  let ?m = "\<lambda>f. set_entry m b (PTX upage) (pages m b (PTX upage) AND not32 f)"
  have pa: "unat (PTE_ADDR (pages m b (PTX upage))) = pa" using b(3) by (simp add: entry_page_def ptov_def)
  have "set_flag f m pml4 upage False = Some (?m f)" for f
    using find_entry [OF inv, of upage] b(1) by (simp add: set_flag_def)
  moreover have "pt_inv (?m f) pml4" for f using write_leaf(1) [OF inv _ _ b(1)] by simp
  moreover have "page_map (?m f) pml4 upage = Some (ptov (pa mod 2 ^ 32), w)" if "f = PTE_A \<or> f = PTE_D" for f
    using write_page_map [OF inv u b(1) u, of "pages m b (PTX upage) AND not32 f"] not32_flag [OF that] b(2,4) pa
    by (simp add: entry_page_def unsigned_take_bit_eq) (simp add: take_bit_eq_mod)
  ultimately show ?thesis by (simp add: pml4_set_accessed_def pml4_set_dirty_def)
qed

text \<open>A tree with one page mapped, to a frame at 4 GiB.\<close>

definition demo_tables :: physmem where
  "demo_tables = demo_memory\<lparr>kernel_pool := \<lparr>used_map = \<lparr>bit_cnt = 4, bits = [15]\<rparr>, pool_base = 0x8004000000\<rparr>,
     pages := (\<lambda>a i. if i = 0 then
       if a = 0x8004000000 then 0x1007 else if a = 0x8004001000 then 0x2007 else if a = 0x8004002000 then 0x3007
       else if a = 0x8004003000 then 0x100000027 else 0 else 0)\<rparr>"

lemma demo_tables_inv: "pt_inv demo_tables 0x8004000000"
proof -
  have e: "present (0x1007)" "present (0x2007)" "present (0x3007)" "entry_page 0x1007 = 0x8004001000"
      "entry_page 0x2007 = 0x8004002000" "entry_page 0x3007 = 0x8004003000"
    by (simp_all add: present_def PTE_P_def entry_page_def PTE_ADDR_def ptov_def KERN_BASE_def)
  have pg: "pages demo_tables = (\<lambda>a i. if i = 0 then
       if a = 0x8004000000 then 0x1007 else if a = 0x8004001000 then 0x2007 else if a = 0x8004002000 then 0x3007
       else if a = 0x8004003000 then 0x100000027 else 0 else 0)"
    by (simp add: demo_tables_def)
  have nd: "node demo_tables 0x8004000000 p = Some a \<longleftrightarrow>
      p = [] \<and> a = 0x8004000000 \<or> p = [0] \<and> a = 0x8004001000 \<or> p = [0, 0] \<and> a = 0x8004002000 \<or> p = [0, 0, 0] \<and> a = 0x8004003000"
    if vp: "valid_path p" for p a
  proof -
    consider "p = []" | i where "p = [i]" | i j where "p = [i, j]" | i j l where "p = [i, j, l]"
      using vp by (auto simp: valid_path_def length_Suc_conv le_Suc_eq numeral_3_eq_3)
    then show ?thesis by cases (auto simp: pg e)
  qed
  have used: "x \<in> page_used demo_tables" if "x \<in> {0x8004000000, 0x8004001000, 0x8004002000, 0x8004003000}" for x
  proof -
    have "{0, 1, 2, 3} \<subseteq> bitmap_used \<lparr>bit_cnt = 4, bits = [15]\<rparr>"
      by (auto simp: bitmap_used_def bit_at_def elem_idx_def ELEM_BITS_def bit_numeral_rec)
    then have "(\<lambda>i. 0x8004000000 + PGSIZE * i) ` {0, 1, 2, 3} \<subseteq> page_used demo_tables"
      by (auto simp: page_used_def pool_used_def demo_tables_def)
    then show ?thesis using that by (auto simp: PGSIZE_val)
  qed
  have ok: "pools_ok demo_tables"
    by (simp add: pools_ok_def pool_ok_def pool_end_def demo_tables_def demo_memory_def bitmap_inv_def elem_cnt_def size_t_def ELEM_BITS_def
        pg_ofs_def PGSIZE_val KERN_BASE_def)
  show ?thesis unfolding pt_inv_def using ok nd used by auto
qed

theorem clear_flag_truncates_witness:
  "page_map demo_tables 0x8004000000 0 = Some (ptov 0x100000000, True) \<and>
   (\<exists>m1. pml4_set_accessed demo_tables 0x8004000000 0 False = Some m1 \<and> page_map m1 0x8004000000 0 = Some (ptov 0, True))"
proof -
  have "page_map demo_tables 0x8004000000 0 = Some (ptov 0x100000000, True)"
    by (simp add: page_map_def leaf_def va_path_def demo_tables_def PML4_def PDPE_def PDX_def PTX_def present_def PTE_P_def
        entry_page_def PTE_ADDR_def ptov_def KERN_BASE_def PTE_W_def)
  then show ?thesis
    using clear_flag_truncates [OF demo_tables_inv, of 0 "0x100000000" True]
    by (auto simp: is_user_vaddr_def is_kernel_vaddr_def KERN_BASE_def pg_ofs_def)
qed

end
