(* ===== verification/Virtual_Memory.thy ===== *)
theory Virtual_Memory
  imports Page_Table_Correct Hash_Correct C_Integers
begin

text \<open>
  Virtual memory, \<open>vm/vm.c\<close>, \<open>vm/anon.c\<close>, \<open>vm/file.c\<close> and \<open>vm/uninit.c\<close>, with the functions of
  \<open>userprog/process.c\<close> that load a program through it.  \<open>struct page\<close>, \<open>struct frame\<close> and \<open>struct file_info\<close> objects
  are on heaps of their own; the union in \<open>struct page\<close> is a datatype, and the function pointers are the
  constructors of datatypes.  A page is its own hash element.  The results of the calls of \<open>malloc\<close> to come are
  listed in the state.  The file operations are an argument.  \<open>filesys_lock\<close> says whether the running thread
  holds the lock of the file system: acquiring it twice fails the assertion of \<open>lock_acquire\<close>.
\<close>

section \<open>State\<close>

definition VM_UNINIT :: nat where "VM_UNINIT = 0"
definition VM_ANON :: nat where "VM_ANON = 1"
definition VM_FILE :: nat where "VM_FILE = 2"

definition VM_TYPE :: "nat \<Rightarrow> nat" where
  "VM_TYPE t = t mod 8"

lemmas vm_types = VM_UNINIT_def VM_ANON_def VM_FILE_def VM_TYPE_def

datatype vm_initializer = No_init | Lazy_load_segment
datatype page_initializer = Anon_initializer | File_backed_initializer

record file_info =
  fi_file :: ptr
  ofs :: nat
  upage :: nat
  read_bytes :: nat
  zero_bytes :: nat
  fi_writable :: bool
  mmap_length :: nat

datatype page_data =
    Uninit vm_initializer nat ptr page_initializer
  | Anon int
  | File ptr

record page =
  operations :: nat
  va :: nat
  page_frame :: ptr
  writable :: bool
  page_data :: page_data

record frame =
  kva :: nat
  frame_page :: ptr
  r_cnt :: int

record 'fs vm =
  mem :: physmem
  base_pml4 :: nat
  pml4 :: nat
  spt :: hash
  user_rsp :: nat
  page_of :: "ptr \<rightharpoonup> page"
  frame_of :: "ptr \<rightharpoonup> frame"
  info_of :: "ptr \<rightharpoonup> file_info"
  frame_list :: "ptr list"
  swap_table :: bitmap
  swap_disk :: "nat \<Rightarrow> nat \<Rightarrow> 64 word"
  fs :: 'fs
  mallocs :: "ptr list"
  bucket_malloc :: bool
  filesys_lock :: bool

text \<open>The file system: what a read delivers, the effect of a write, lengths, handles; \<open>None\<close> when the call stops the kernel.\<close>

record 'fs file_ops =
  file_read_at :: "'fs \<Rightarrow> ptr \<Rightarrow> nat \<Rightarrow> nat \<Rightarrow> (8 word list \<times> 'fs) option"
  file_write_at :: "'fs \<Rightarrow> ptr \<Rightarrow> 8 word list \<Rightarrow> nat \<Rightarrow> 'fs option"
  file_length :: "'fs \<Rightarrow> ptr \<Rightarrow> nat option"
  file_reopen :: "'fs \<Rightarrow> ptr \<Rightarrow> (ptr \<times> 'fs) option"
  file_close :: "'fs \<Rightarrow> ptr \<Rightarrow> 'fs option"

definition next_malloc :: "'fs vm \<Rightarrow> (ptr \<times> 'fs vm) option" where
  "next_malloc v = (case mallocs v of [] \<Rightarrow> None | p # ps \<Rightarrow> Some (p, v\<lparr>mallocs := ps\<rparr>))"

definition lock_fs :: "'fs vm \<Rightarrow> 'fs vm option" where
  "lock_fs v = do { ASSERT (\<not> filesys_lock v); Some (v\<lparr>filesys_lock := True\<rparr>) }"

definition unlock_fs :: "'fs vm \<Rightarrow> 'fs vm option" where
  "unlock_fs v = do { ASSERT (filesys_lock v); Some (v\<lparr>filesys_lock := False\<rparr>) }"

definition upd_page :: "'fs vm \<Rightarrow> ptr \<Rightarrow> (page \<Rightarrow> page) \<Rightarrow> 'fs vm option" where
  "upd_page v p f = do { x \<leftarrow> page_of v p; Some (v\<lparr>page_of := (page_of v)(p \<mapsto> f x)\<rparr>) }"

definition upd_frame :: "'fs vm \<Rightarrow> ptr \<Rightarrow> (frame \<Rightarrow> frame) \<Rightarrow> 'fs vm option" where
  "upd_frame v p f = do { x \<leftarrow> frame_of v p; Some (v\<lparr>frame_of := (frame_of v)(p \<mapsto> f x)\<rparr>) }"

text \<open>The bytes of the page of memory at \<open>a\<close>, and the page with its first bytes replaced.\<close>

definition page_bytes :: "physmem \<Rightarrow> nat \<Rightarrow> nat \<Rightarrow> 8 word" where
  "page_bytes m a n = ucast (drop_bit (8 * (n mod 8)) (pages m a (n div 8)))"

definition store_bytes :: "physmem \<Rightarrow> nat \<Rightarrow> 8 word list \<Rightarrow> physmem" where
  "store_bytes m a bs = m\<lparr>pages := (pages m)(a := (\<lambda>i.
     bytes_word (map (\<lambda>k. if 8 * i + k < length bs then bs ! (8 * i + k) else page_bytes m a (8 * i + k)) [0..<8])))\<rparr>"

definition copy_page :: "physmem \<Rightarrow> nat \<Rightarrow> nat \<Rightarrow> physmem" where
  "copy_page m dst src = m\<lparr>pages := (pages m)(dst := pages m src)\<rparr>"

section \<open>The supplemental page table\<close>

definition va_at :: "(ptr \<rightharpoonup> page) \<Rightarrow> ptr \<Rightarrow> nat" where
  "va_at pm e = (case pm e of Some p \<Rightarrow> va p | None \<Rightarrow> 0)"

definition is_less :: "(ptr \<rightharpoonup> page) \<Rightarrow> ptr \<Rightarrow> ptr \<Rightarrow> bool" where
  "is_less pm a b = (if a = NULL then True else if b = NULL then True else va_at pm a < va_at pm b)"

definition page_hash :: "(ptr \<rightharpoonup> page) \<Rightarrow> ptr \<Rightarrow> 64 word" where
  "page_hash pm e = (case hash_bytes (map (\<lambda>i. of_nat (va_at pm e div 256 ^ i)) [0..<8]) 8 of Some h \<Rightarrow> h | None \<Rightarrow> 0)"

text \<open>The table, its callbacks reading the pages of \<open>pm\<close>.\<close>

definition spt_on :: "(ptr \<rightharpoonup> page) \<Rightarrow> hash \<Rightarrow> hash" where
  "spt_on pm h = h\<lparr>hash_fun := page_hash pm, hash_less := is_less pm\<rparr>"

definition supplemental_page_table_init :: "ptr list list option \<Rightarrow> (ptr \<rightharpoonup> page) \<Rightarrow> hash \<Rightarrow> hash" where
  "supplemental_page_table_init malloc_buckets pm h =
     (case hash_init malloc_buckets (page_hash pm) (is_less pm) of Some h' \<Rightarrow> h' | None \<Rightarrow> h)"

text \<open>The search key is a local variable; \<open>TEMP\<close> stands for its address, which no allocation returns.\<close>

definition TEMP :: ptr where "TEMP = 1"

definition key_page :: "nat \<Rightarrow> page" where
  "key_page a = \<lparr>operations = 0, va = a, page_frame = NULL, writable = False, page_data = Anon 0\<rparr>"

definition spt_find_page :: "'fs vm \<Rightarrow> nat \<Rightarrow> ptr option" where
  "spt_find_page v a =
     (if a = NULL then Some NULL
      else hash_find (spt_on ((page_of v)(TEMP \<mapsto> key_page (pg_round_down a))) (spt v)) TEMP)"

definition spt_insert_page :: "'fs vm \<Rightarrow> ptr \<Rightarrow> (bool \<times> 'fs vm) option" where
  "spt_insert_page v p = do {
     ASSERT (p \<noteq> NULL);
     (e, h) \<leftarrow> hash_insert (bucket_malloc v) (spt_on (page_of v) (spt v)) p;
     Some (e = NULL, v\<lparr>spt := h\<rparr>) }"

definition spt_remove_page :: "'fs vm \<Rightarrow> ptr \<Rightarrow> 'fs vm option" where
  "spt_remove_page v p = do {
     (e, h) \<leftarrow> hash_delete (bucket_malloc v) (spt_on (page_of v) (spt v)) p;
     Some (v\<lparr>spt := h\<rparr>) }"

definition uninit_new :: "nat \<Rightarrow> vm_initializer \<Rightarrow> nat \<Rightarrow> ptr \<Rightarrow> page_initializer \<Rightarrow> page" where
  "uninit_new a init type aux initializer =
     \<lparr>operations = VM_UNINIT, va = a, page_frame = NULL, writable = False, page_data = Uninit init type aux initializer\<rparr>"

definition vm_alloc_page_with_initializer ::
    "'fs vm \<Rightarrow> nat \<Rightarrow> nat \<Rightarrow> bool \<Rightarrow> vm_initializer \<Rightarrow> ptr \<Rightarrow> (bool \<times> 'fs vm) option" where
  "vm_alloc_page_with_initializer v type a w init aux = do {
     old \<leftarrow> spt_find_page v a;
     if old = NULL then do {
       (p, v) \<leftarrow> next_malloc v;
       ASSERT (p \<noteq> NULL);
       if VM_TYPE type = VM_ANON \<or> VM_TYPE type = VM_FILE then do {
         let initializer = (if VM_TYPE type = VM_ANON then Anon_initializer else File_backed_initializer);
         let v = v\<lparr>page_of := (page_of v)(p \<mapsto> (uninit_new a init type aux initializer)\<lparr>writable := w\<rparr>)\<rparr>;
         (ok, v) \<leftarrow> spt_insert_page v p;
         if \<not> ok then Some (False, v\<lparr>page_of := (page_of v)(p := None)\<rparr>)
         else Some (True, v) }
       else Some (False, v) }
     else Some (False, v) }"

definition vm_alloc_page :: "'fs vm \<Rightarrow> nat \<Rightarrow> nat \<Rightarrow> bool \<Rightarrow> (bool \<times> 'fs vm) option" where
  "vm_alloc_page v type a w = vm_alloc_page_with_initializer v type a w No_init NULL"

definition page_get_type :: "page \<Rightarrow> nat option" where
  "page_get_type p =
     (if VM_TYPE (operations p) = VM_UNINIT
      then case page_data p of Uninit _ type _ _ \<Rightarrow> Some (VM_TYPE type) | _ \<Rightarrow> None
      else Some (VM_TYPE (operations p)))"

section \<open>Anonymous pages and swap\<close>

definition vm_anon_init :: "'fs vm \<Rightarrow> nat \<Rightarrow> 64 word list option \<Rightarrow> 'fs vm option" where
  "vm_anon_init v disk_size malloc_bits = do {
     b \<leftarrow> bitmap_create True malloc_bits (disk_size div (PGSIZE div 512));
     case b of Some b \<Rightarrow> Some (v\<lparr>swap_table := b\<rparr>) | None \<Rightarrow> None }"

definition anon_initializer :: "'fs vm \<Rightarrow> ptr \<Rightarrow> (bool \<times> 'fs vm) option" where
  "anon_initializer v p =
     (if p = NULL then Some (False, v)
      else do { v \<leftarrow> upd_page v p (\<lambda>x. x\<lparr>operations := VM_ANON, page_data := Anon (-1)\<rparr>); Some (True, v) })"

text \<open>A sector holds 64 words, a page eight sectors.\<close>

definition swap_disk_read :: "'fs vm \<Rightarrow> nat \<Rightarrow> nat \<Rightarrow> nat \<Rightarrow> 'fs vm" where
  "swap_disk_read v sec a i = v\<lparr>mem := (mem v)\<lparr>pages := (pages (mem v))(a :=
     (\<lambda>w. if 64 * i \<le> w \<and> w < 64 * i + 64 then swap_disk v sec (w - 64 * i) else pages (mem v) a w))\<rparr>\<rparr>"

definition swap_disk_write :: "'fs vm \<Rightarrow> nat \<Rightarrow> nat \<Rightarrow> nat \<Rightarrow> 'fs vm" where
  "swap_disk_write v sec a i = v\<lparr>swap_disk := (swap_disk v)(sec := (\<lambda>w. if w < 64 then pages (mem v) a (64 * i + w) else swap_disk v sec w))\<rparr>"

definition anon_swap_in :: "'fs vm \<Rightarrow> ptr \<Rightarrow> nat \<Rightarrow> (bool \<times> 'fs vm) option" where
  "anon_swap_in v p a = do {
     x \<leftarrow> page_of v p;
     case page_data x of
       Anon swap_idx \<Rightarrow>
         if swap_idx \<noteq> -1 then do {
           let v = fold (\<lambda>i v. swap_disk_read v (nat swap_idx * 8 + i) a i) [0..<8] v;
           b \<leftarrow> bitmap_set (swap_table v) (nat swap_idx) False;
           v \<leftarrow> upd_page (v\<lparr>swap_table := b\<rparr>) p (\<lambda>x. x\<lparr>page_data := Anon (-1)\<rparr>);
           Some (True, v) }
         else Some (False, v)
     | _ \<Rightarrow> None }"

text \<open>With no free slot the scan returns the error value, which \<open>bitmap_test\<close> then refuses as an index.\<close>

definition anon_swap_out :: "'fs vm \<Rightarrow> ptr \<Rightarrow> (bool \<times> 'fs vm) option" where
  "anon_swap_out v p =
     (if p = NULL then Some (False, v)
      else do {
        x \<leftarrow> page_of v p;
        (idx, b) \<leftarrow> bitmap_scan_and_flip (swap_table v) 0 1 False;
        let v = v\<lparr>swap_table := b\<rparr>;
        let table_idx = int32 (int idx);
        if table_idx = -1 then do {
          t \<leftarrow> bitmap_test (swap_table v) (nat (table_idx mod 2 ^ 64));
          ASSERT (\<not> t);
          Some (False, v) }
        else do {
          f \<leftarrow> frame_of v (page_frame x);
          let v = fold (\<lambda>i v. swap_disk_write v (nat table_idx * 8 + i) (kva f) i) [0..<8] v;
          v \<leftarrow> upd_frame v (page_frame x) (\<lambda>f. f\<lparr>r_cnt := r_cnt f - 1, frame_page := NULL\<rparr>);
          v \<leftarrow> upd_page v p (\<lambda>x. x\<lparr>page_frame := NULL, page_data := Anon table_idx\<rparr>);
          Some (True, v) } })"

definition anon_destroy :: "'fs vm \<Rightarrow> ptr \<Rightarrow> 'fs vm option" where
  "anon_destroy v p = do {
     x \<leftarrow> page_of v p;
     m \<leftarrow> pml4_clear_page (mem v) (pml4 v) (va x);
     let v = v\<lparr>mem := m\<rparr>;
     v \<leftarrow> (case page_data x of
            Anon swap_idx \<Rightarrow> if swap_idx \<noteq> -1
              then do { b \<leftarrow> bitmap_set (swap_table v) (nat swap_idx) False; Some (v\<lparr>swap_table := b\<rparr>) }
              else Some v
          | _ \<Rightarrow> None);
     if page_frame x \<noteq> NULL then do {
       v \<leftarrow> upd_frame v (page_frame x) (\<lambda>f. f\<lparr>r_cnt := r_cnt f - 1\<rparr>);
       f \<leftarrow> frame_of v (page_frame x);
       if r_cnt f = 0 then do {
         m \<leftarrow> palloc_free_page (mem v) (kva f);
         Some (v\<lparr>mem := m, frame_list := remove1 (page_frame x) (frame_list v),
           frame_of := (frame_of v)(page_frame x := None)\<rparr>) }
       else Some v }
     else Some v }"

section \<open>File-backed pages\<close>

definition file_backed_initializer :: "'fs vm \<Rightarrow> ptr \<Rightarrow> (bool \<times> 'fs vm) option" where
  "file_backed_initializer v p = do {
     x \<leftarrow> page_of v p;
     case page_data x of
       Uninit _ _ aux _ \<Rightarrow> do { v \<leftarrow> upd_page v p (\<lambda>x. x\<lparr>operations := VM_FILE, page_data := File aux\<rparr>); Some (True, v) }
     | _ \<Rightarrow> None }"

definition file_aux :: "'fs vm \<Rightarrow> ptr \<Rightarrow> ptr option" where
  "file_aux v p = do { x \<leftarrow> page_of v p; case page_data x of File aux \<Rightarrow> Some aux | _ \<Rightarrow> None }"

text \<open>A page whose entry asks for more than a page would be read past its frame; \<open>None\<close> is that case too.\<close>

definition file_backed_swap_in :: "'fs file_ops \<Rightarrow> 'fs vm \<Rightarrow> ptr \<Rightarrow> nat \<Rightarrow> (bool \<times> 'fs vm) option" where
  "file_backed_swap_in ops v p a = do {
     aux \<leftarrow> file_aux v p;
     fi \<leftarrow> info_of v aux;
     let n = read_bytes fi;
     ASSERT (n \<le> PGSIZE);
     v \<leftarrow> lock_fs v;
     (bs, fs') \<leftarrow> file_read_at ops (fs v) (fi_file fi) n (ofs fi);
     v \<leftarrow> unlock_fs (v\<lparr>fs := fs', mem := store_bytes (mem v) a bs\<rparr>);
     if length bs \<noteq> n then Some (False, v)
     else Some (True, v\<lparr>mem := store_bytes (mem v) a (bs @ replicate (PGSIZE - n) 0)\<rparr>) }"

text \<open>The write-back shared by \<open>file_backed_swap_out\<close>, \<open>file_backed_destroy\<close> and \<open>munmap_cleaner\<close>.\<close>

definition write_back :: "'fs file_ops \<Rightarrow> 'fs vm \<Rightarrow> page \<Rightarrow> file_info \<Rightarrow> 'fs vm option" where
  "write_back ops v x fi = do {
     dirty \<leftarrow> pml4_is_dirty (mem v) (pml4 v) (va x);
     if dirty then do {
       f \<leftarrow> frame_of v (page_frame x);
       let bs = map (page_bytes (mem v) (kva f)) [0..<read_bytes fi];
       v \<leftarrow> lock_fs v;
       fs' \<leftarrow> file_write_at ops (fs v) (fi_file fi) bs (ofs fi);
       v \<leftarrow> unlock_fs (v\<lparr>fs := fs'\<rparr>);
       m \<leftarrow> pml4_set_dirty (mem v) (pml4 v) (va x) False;
       Some (v\<lparr>mem := m\<rparr>) }
     else Some v }"

definition file_backed_swap_out :: "'fs file_ops \<Rightarrow> 'fs vm \<Rightarrow> ptr \<Rightarrow> (bool \<times> 'fs vm) option" where
  "file_backed_swap_out ops v p = do {
     aux \<leftarrow> file_aux v p;
     fi \<leftarrow> info_of v aux;
     x \<leftarrow> page_of v p;
     v \<leftarrow> write_back ops v x fi;
     Some (True, v) }"

definition file_backed_destroy :: "'fs file_ops \<Rightarrow> 'fs vm \<Rightarrow> ptr \<Rightarrow> 'fs vm option" where
  "file_backed_destroy ops v p = do {
     aux \<leftarrow> file_aux v p;
     fi \<leftarrow> info_of v aux;
     x \<leftarrow> page_of v p;
     v \<leftarrow> write_back ops v x fi;
     v \<leftarrow> (if page_frame x \<noteq> NULL then do {
             f \<leftarrow> frame_of v (page_frame x);
             m \<leftarrow> palloc_free_page (mem v) (kva f);
             upd_page (v\<lparr>mem := m, frame_of := (frame_of v)(page_frame x := None)\<rparr>) p (\<lambda>x. x\<lparr>page_frame := NULL\<rparr>) }
           else Some v);
     m \<leftarrow> pml4_clear_page (mem v) (pml4 v) (va x);
     Some (v\<lparr>mem := m, info_of := (info_of v)(aux := None)\<rparr>) }"

definition do_mmap :: "'fs file_ops \<Rightarrow> 'fs vm \<Rightarrow> nat \<Rightarrow> nat \<Rightarrow> bool \<Rightarrow> ptr \<Rightarrow> nat \<Rightarrow> nat \<Rightarrow> (nat \<times> 'fs vm) option" where
  "do_mmap ops v addr len w file offset mlen = do {
     (aux, v) \<leftarrow> next_malloc v;
     ASSERT (aux \<noteq> NULL);
     (file', fs') \<leftarrow> file_reopen ops (fs v) file;
     let fi = \<lparr>fi_file = file', ofs = offset, upage = addr, read_bytes = len, zero_bytes = nat ((int PGSIZE - int len) mod 2 ^ 32), fi_writable = w,
       mmap_length = mlen\<rparr>;
     let v = v\<lparr>fs := fs', info_of := (info_of v)(aux \<mapsto> fi)\<rparr>;
     (ok, v) \<leftarrow> vm_alloc_page_with_initializer v VM_FILE addr w Lazy_load_segment aux;
     Some (if ok then addr else NULL, v) }"

definition munmap_cleaner :: "'fs file_ops \<Rightarrow> 'fs vm \<Rightarrow> ptr \<Rightarrow> 'fs vm option" where
  "munmap_cleaner ops v p = do {
     x \<leftarrow> page_of v p;
     aux \<leftarrow> (case page_data x of File aux \<Rightarrow> Some aux | Uninit _ _ aux _ \<Rightarrow> Some aux | Anon _ \<Rightarrow> None);
     fi \<leftarrow> info_of v aux;
     v \<leftarrow> write_back ops v x fi;
     Some (v\<lparr>info_of := (info_of v)(aux := None)\<rparr>) }"

definition do_munmap :: "'fs file_ops \<Rightarrow> 'fs vm \<Rightarrow> nat \<Rightarrow> 'fs vm option" where
  "do_munmap ops v addr = do {
     p \<leftarrow> spt_find_page v addr;
     ASSERT (p \<noteq> NULL);
     v \<leftarrow> spt_remove_page v p;
     v \<leftarrow> munmap_cleaner ops v p;
     m \<leftarrow> pml4_clear_page (mem v) (pml4 v) (pg_round_down addr);
     Some (v\<lparr>mem := m\<rparr>) }"

section \<open>Uninitialised pages\<close>

text \<open>\<open>lazy_load_segment\<close> reads what the file still has of the page and clears the rest.\<close>

definition lazy_load_segment :: "'fs file_ops \<Rightarrow> 'fs vm \<Rightarrow> ptr \<Rightarrow> ptr \<Rightarrow> (bool \<times> 'fs vm) option" where
  "lazy_load_segment ops v p aux = do {
     fi \<leftarrow> info_of v aux;
     x \<leftarrow> page_of v p;
     f \<leftarrow> frame_of v (page_frame x);
     len \<leftarrow> file_length ops (fs v) (fi_file fi);
     let file_remaining = nat ((int len - int (ofs fi)) mod 2 ^ 64);
     let page_read_bytes = (if read_bytes fi < PGSIZE then read_bytes fi else PGSIZE);
     let page_read_bytes = (if page_read_bytes < file_remaining then page_read_bytes else file_remaining);
     (bs, fs') \<leftarrow> file_read_at ops (fs v) (fi_file fi) page_read_bytes (ofs fi);
     Some (True, v\<lparr>fs := fs', mem := store_bytes (mem v) (kva f) (bs @ replicate (PGSIZE - length bs) 0)\<rparr>) }"

definition uninit_initialize :: "'fs file_ops \<Rightarrow> 'fs vm \<Rightarrow> ptr \<Rightarrow> (bool \<times> 'fs vm) option" where
  "uninit_initialize ops v p = do {
     x \<leftarrow> page_of v p;
     case page_data x of
       Uninit init type aux initializer \<Rightarrow> do {
         (ok, v) \<leftarrow> (case initializer of Anon_initializer \<Rightarrow> anon_initializer v p | File_backed_initializer \<Rightarrow> file_backed_initializer v p);
         if ok then case init of No_init \<Rightarrow> Some (True, v) | Lazy_load_segment \<Rightarrow> lazy_load_segment ops v p aux
         else Some (False, v) }
     | _ \<Rightarrow> None }"

definition uninit_destroy :: "'fs file_ops \<Rightarrow> 'fs vm \<Rightarrow> ptr \<Rightarrow> 'fs vm option" where
  "uninit_destroy ops v p = do {
     x \<leftarrow> page_of v p;
     case page_data x of
       Uninit _ _ aux _ \<Rightarrow>
         if aux \<noteq> NULL then do {
           fi \<leftarrow> info_of v aux;
           fs' \<leftarrow> file_close ops (fs v) (fi_file fi);
           Some (v\<lparr>fs := fs', info_of := (info_of v)(aux := None)\<rparr>) }
         else Some v
     | _ \<Rightarrow> None }"

section \<open>The page operations\<close>

text \<open>The calls through \<open>page->operations\<close>; an uninitialised page has no \<open>swap_out\<close>.\<close>

definition swap_in :: "'fs file_ops \<Rightarrow> 'fs vm \<Rightarrow> ptr \<Rightarrow> nat \<Rightarrow> (bool \<times> 'fs vm) option" where
  "swap_in ops v p a = do {
     x \<leftarrow> page_of v p;
     if operations x = VM_UNINIT then uninit_initialize ops v p
     else if operations x = VM_ANON then anon_swap_in v p a
     else if operations x = VM_FILE then file_backed_swap_in ops v p a
     else None }"

definition swap_out :: "'fs file_ops \<Rightarrow> 'fs vm \<Rightarrow> ptr \<Rightarrow> (bool \<times> 'fs vm) option" where
  "swap_out ops v p = do {
     x \<leftarrow> page_of v p;
     if operations x = VM_ANON then anon_swap_out v p
     else if operations x = VM_FILE then file_backed_swap_out ops v p
     else None }"

definition destroy :: "'fs file_ops \<Rightarrow> 'fs vm \<Rightarrow> ptr \<Rightarrow> 'fs vm option" where
  "destroy ops v p = do {
     x \<leftarrow> page_of v p;
     if operations x = VM_UNINIT then uninit_destroy ops v p
     else if operations x = VM_ANON then anon_destroy v p
     else if operations x = VM_FILE then file_backed_destroy ops v p
     else None }"

definition vm_dealloc_page :: "'fs file_ops \<Rightarrow> 'fs vm \<Rightarrow> ptr \<Rightarrow> 'fs vm option" where
  "vm_dealloc_page ops v p = do {
     v \<leftarrow> destroy ops v p;
     Some (v\<lparr>page_of := (page_of v)(p := None)\<rparr>) }"

section \<open>Frames\<close>

definition frame_table_init :: "'fs vm \<Rightarrow> 'fs vm" where
  "frame_table_init v = v\<lparr>frame_list := []\<rparr>"

definition vm_get_victim :: "'fs vm \<Rightarrow> (ptr \<times> 'fs vm) option" where
  "vm_get_victim v = (case frame_list v of
     [] \<Rightarrow> None | victim # rest \<Rightarrow> do { ASSERT (victim \<noteq> NULL); Some (victim, v\<lparr>frame_list := rest\<rparr>) })"

definition vm_evict_frame :: "'fs file_ops \<Rightarrow> 'fs vm \<Rightarrow> (ptr \<times> 'fs vm) option" where
  "vm_evict_frame ops v = do {
     (victim, v) \<leftarrow> vm_get_victim v;
     f \<leftarrow> frame_of v victim;
     let p = frame_page f;
     if p \<noteq> NULL then do {
       (ok, v) \<leftarrow> swap_out ops v p;
       if \<not> ok then Some (NULL, v)
       else do {
         x \<leftarrow> page_of v p;
         m \<leftarrow> pml4_clear_page (mem v) (pml4 v) (va x);
         v \<leftarrow> upd_page (v\<lparr>mem := m\<rparr>) p (\<lambda>x. x\<lparr>page_frame := NULL\<rparr>);
         Some (victim, v) } }
     else Some (NULL, v) }"

definition vm_get_frame :: "'fs file_ops \<Rightarrow> 'fs vm \<Rightarrow> (ptr \<times> 'fs vm) option" where
  "vm_get_frame ops v = do {
     (f, v) \<leftarrow> next_malloc v;
     ASSERT (f \<noteq> NULL);
     (a, m) \<leftarrow> palloc_get_page (mem v) {PAL_USER, PAL_ZERO};
     let v = v\<lparr>mem := m\<rparr>;
     (a, v) \<leftarrow> (if a = NULL then do {
                 (victim, v) \<leftarrow> vm_evict_frame ops v;
                 ASSERT (victim \<noteq> NULL);
                 g \<leftarrow> frame_of v victim;
                 Some (kva g, v\<lparr>frame_of := (frame_of v)(victim := None)\<rparr>) }
               else Some (a, v));
     ASSERT (a \<noteq> NULL);
     Some (f, v\<lparr>frame_of := (frame_of v)(f \<mapsto> \<lparr>kva = a, frame_page = NULL, r_cnt = 0\<rparr>), frame_list := frame_list v @ [f]\<rparr>) }"

definition vm_do_claim_page :: "'fs file_ops \<Rightarrow> 'fs vm \<Rightarrow> ptr \<Rightarrow> (bool \<times> 'fs vm) option" where
  "vm_do_claim_page ops v p = do {
     (f, v) \<leftarrow> vm_get_frame ops v;
     v \<leftarrow> upd_frame v f (\<lambda>g. g\<lparr>frame_page := p, r_cnt := r_cnt g + 1\<rparr>);
     v \<leftarrow> upd_page v p (\<lambda>x. x\<lparr>page_frame := f\<rparr>);
     x \<leftarrow> page_of v p;
     g \<leftarrow> frame_of v f;
     (ok, m) \<leftarrow> pml4_set_page (mem v) (base_pml4 v) (pml4 v) (va x) (kva g) (writable x);
     ASSERT ok;
     swap_in ops (v\<lparr>mem := m\<rparr>) p (kva g) }"

definition vm_claim_page :: "'fs file_ops \<Rightarrow> 'fs vm \<Rightarrow> nat \<Rightarrow> (bool \<times> 'fs vm) option" where
  "vm_claim_page ops v a = do {
     p \<leftarrow> spt_find_page v a;
     if p = NULL then Some (False, v) else vm_do_claim_page ops v p }"

section \<open>Page faults\<close>

definition USER_STACK :: nat where "USER_STACK = 0x47480000"

definition vm_stack_growth :: "'fs vm \<Rightarrow> nat \<Rightarrow> 'fs vm option" where
  "vm_stack_growth v addr = do { (_, v) \<leftarrow> vm_alloc_page v VM_ANON addr True; Some v }"

definition vm_handle_wp :: "'fs file_ops \<Rightarrow> 'fs vm \<Rightarrow> ptr \<Rightarrow> (bool \<times> 'fs vm) option" where
  "vm_handle_wp ops v p = do {
     x \<leftarrow> page_of v p;
     old \<leftarrow> frame_of v (page_frame x);
     v \<leftarrow> upd_frame v (page_frame x) (\<lambda>f. f\<lparr>r_cnt := r_cnt f - 1\<rparr>);
     (f, v) \<leftarrow> vm_get_frame ops v;
     v \<leftarrow> upd_page v p (\<lambda>x. x\<lparr>page_frame := f\<rparr>);
     v \<leftarrow> upd_frame v f (\<lambda>g. g\<lparr>frame_page := p, r_cnt := r_cnt g + 1\<rparr>);
     g \<leftarrow> frame_of v f;
     (ok, m) \<leftarrow> pml4_set_page (mem v) (base_pml4 v) (pml4 v) (va x) (kva g) True;
     ASSERT ok;
     Some (True, v\<lparr>mem := copy_page m (kva g) (kva old)\<rparr>) }"

text \<open>\<open>rsp - PGSIZE\<close> is computed modulo \<open>2 ^ 64\<close>.\<close>

definition in_stack :: "nat \<Rightarrow> nat \<Rightarrow> bool" where
  "in_stack rsp addr \<longleftrightarrow> int addr > (int rsp - int PGSIZE) mod 2 ^ 64 \<and> addr \<ge> USER_STACK - 2 ^ 20 \<and> addr < USER_STACK"

definition vm_try_handle_fault :: "'fs file_ops \<Rightarrow> 'fs vm \<Rightarrow> nat \<Rightarrow> bool \<Rightarrow> bool \<Rightarrow> (bool \<times> 'fs vm) option" where
  "vm_try_handle_fault ops v addr wr not_present =
     (if \<not> is_user_vaddr addr then Some (False, v)
      else do {
        p \<leftarrow> spt_find_page v addr;
        if p \<noteq> NULL \<and> wr \<and> \<not> not_present then do {
          x \<leftarrow> page_of v p;
          if \<not> writable x then Some (False, v) else vm_handle_wp ops v p }
        else if p \<noteq> NULL \<and> \<not> wr \<and> \<not> not_present then Some (False, v)
        else if p \<noteq> NULL then vm_do_claim_page ops v p
        else if in_stack (user_rsp v) addr then do { v \<leftarrow> vm_stack_growth v (pg_round_down addr); Some (True, v) }
        else Some (False, v) })"

section \<open>Copying and destroying an address space\<close>

definition duplicate_aux :: "'fs file_ops \<Rightarrow> 'fs vm \<Rightarrow> ptr \<Rightarrow> nat \<Rightarrow> (ptr \<times> 'fs vm) option" where
  "duplicate_aux ops v src_page type = do {
     x \<leftarrow> page_of v src_page;
     if type = VM_UNINIT \<or> type = VM_FILE then do {
       aux \<leftarrow> (case page_data x of Uninit _ _ aux _ \<Rightarrow> Some aux | File aux \<Rightarrow> Some aux | Anon _ \<Rightarrow> None);
       src_info \<leftarrow> info_of v aux;
       (dst, v) \<leftarrow> next_malloc v;
       ASSERT (dst \<noteq> NULL);
       (file', fs') \<leftarrow> file_reopen ops (fs v) (fi_file src_info);
       Some (dst, v\<lparr>fs := fs', info_of := (info_of v)(dst \<mapsto> src_info\<lparr>fi_file := file'\<rparr>)\<rparr>) }
     else Some (NULL, v) }"

text \<open>A source page without a frame is dereferenced as a null pointer, here as in \<open>page_table_copy\<close>.\<close>

definition page_table_copy :: "'fs file_ops \<Rightarrow> 'fs vm \<Rightarrow> ptr \<Rightarrow> nat \<Rightarrow> (bool \<times> 'fs vm) option" where
  "page_table_copy ops v src_page a = do {
     p \<leftarrow> spt_find_page v a;
     if p = NULL then Some (False, v)
     else do {
       x \<leftarrow> page_of v p;
       src \<leftarrow> page_of v src_page;
       v \<leftarrow> (if page_frame x = NULL then do {
               v \<leftarrow> upd_page v p (\<lambda>x. x\<lparr>page_frame := page_frame src, writable := writable src\<rparr>);
               upd_frame v (page_frame src) (\<lambda>f. f\<lparr>r_cnt := r_cnt f + 1\<rparr>) }
             else Some v);
       f \<leftarrow> frame_of v (page_frame src);
       (ok, m) \<leftarrow> pml4_set_page (mem v) (base_pml4 v) (pml4 v) (va x) (kva f) False;
       ASSERT ok;
       swap_in ops (v\<lparr>mem := m\<rparr>) p (kva f) } }"

text \<open>The body of the loop of \<open>supplemental_page_table_copy\<close> for one page of the source table.\<close>

definition copy_entry :: "'fs file_ops \<Rightarrow> 'fs vm \<Rightarrow> ptr \<Rightarrow> (bool \<times> 'fs vm) option" where
  "copy_entry ops v src_page = do {
     x \<leftarrow> page_of v src_page;
     let type = operations x;
     if type = VM_UNINIT then
       (case page_data x of
          Uninit init reserved_type _ _ \<Rightarrow> do {
            (aux, v) \<leftarrow> duplicate_aux ops v src_page VM_UNINIT;
            ASSERT (aux \<noteq> NULL);
            vm_alloc_page_with_initializer v reserved_type (va x) (writable x) init aux }
        | _ \<Rightarrow> None)
     else if type = VM_FILE then do {
       (aux, v) \<leftarrow> duplicate_aux ops v src_page VM_FILE;
       ASSERT (aux \<noteq> NULL);
       (ok, v) \<leftarrow> vm_alloc_page_with_initializer v type (va x) (writable x) Lazy_load_segment aux;
       if \<not> ok then Some (False, v) else vm_claim_page ops v (va x) }
     else if type = VM_ANON then do {
       (ok, v) \<leftarrow> vm_alloc_page v type (va x) (writable x);
       if \<not> ok then Some (False, v)
       else do {
         (ok, v) \<leftarrow> page_table_copy ops v src_page (va x);
         if \<not> ok then Some (False, v)
         else do {
           dst \<leftarrow> spt_find_page v (va x);
           y \<leftarrow> page_of v dst;
           x \<leftarrow> page_of v src_page;
           if page_frame x \<noteq> NULL then do {
             f \<leftarrow> frame_of v (page_frame y);
             g \<leftarrow> frame_of v (page_frame x);
             Some (True, v\<lparr>mem := copy_page (mem v) (kva f) (kva g)\<rparr>) }
           else Some (True, v) } } }
     else Some (False, v) }"

fun copy_loop :: "'fs file_ops \<Rightarrow> 'fs vm \<Rightarrow> ptr list \<Rightarrow> (bool \<times> 'fs vm) option" where
  "copy_loop ops v [] = Some (True, v)"
| "copy_loop ops v (p # ps) = do {
     (ok, v) \<leftarrow> copy_entry ops v p;
     if ok then copy_loop ops v ps else Some (False, v) }"

text \<open>\<open>src\<close> is the parent's table; the iterator visits the elements in the order \<open>hash_apply\<close> lists them.\<close>

definition supplemental_page_table_copy :: "'fs file_ops \<Rightarrow> 'fs vm \<Rightarrow> hash \<Rightarrow> (bool \<times> 'fs vm) option" where
  "supplemental_page_table_copy ops v src = copy_loop ops v (hash_apply src)"

definition page_desturctor :: "'fs file_ops \<Rightarrow> ptr \<Rightarrow> 'fs vm \<Rightarrow> 'fs vm option" where
  "page_desturctor ops p v = vm_dealloc_page ops v p"

fun kill_loop :: "'fs file_ops \<Rightarrow> ptr list \<Rightarrow> 'fs vm \<Rightarrow> 'fs vm option" where
  "kill_loop ops [] v = Some v"
| "kill_loop ops (p # ps) v = do { v \<leftarrow> page_desturctor ops p v; kill_loop ops ps v }"

definition supplemental_page_table_kill :: "'fs file_ops \<Rightarrow> 'fs vm \<Rightarrow> 'fs vm option" where
  "supplemental_page_table_kill ops v = do {
     let (h, ps) = hash_clear True (spt v);
     v \<leftarrow> kill_loop ops ps v;
     Some (v\<lparr>spt := h\<rparr>) }"

section \<open>Loading a program\<close>

text \<open>The assertions hold on entry; they make the subtractions exact.\<close>

function load_segment_loop :: "'fs file_ops \<Rightarrow> 'fs vm \<Rightarrow> ptr \<Rightarrow> nat \<Rightarrow> nat \<Rightarrow> nat \<Rightarrow> nat \<Rightarrow> bool \<Rightarrow> (bool \<times> 'fs vm) option" where
  "load_segment_loop ops v file off a rd zr w =
     (if rd > 0 \<or> zr > 0 then do {
        let page_read_bytes = (if rd < PGSIZE then rd else PGSIZE);
        let page_zero_bytes = PGSIZE - page_read_bytes;
        (aux, v) \<leftarrow> next_malloc v;
        if aux = NULL then Some (False, v)
        else do {
          (file', fs') \<leftarrow> file_reopen ops (fs v) file;
          let fi = \<lparr>fi_file = file', ofs = off, upage = a, read_bytes = rd, zero_bytes = zr, fi_writable = w, mmap_length = 0\<rparr>;
          let v = v\<lparr>fs := fs', info_of := (info_of v)(aux \<mapsto> fi)\<rparr>;
          (ok, v) \<leftarrow> vm_alloc_page_with_initializer v VM_ANON a w Lazy_load_segment aux;
          if \<not> ok then Some (False, v)
          else load_segment_loop ops v file (off + page_read_bytes) (a + PGSIZE) (rd - page_read_bytes) (zr - page_zero_bytes) w } }
      else Some (True, v))"
  by pat_completeness auto
termination
  by (relation "measure (\<lambda>(ops, v, file, off, a, rd, zr, w). rd + zr)") (auto simp: PGSIZE_val)

declare load_segment_loop.simps [simp del]

definition load_segment :: "'fs file_ops \<Rightarrow> 'fs vm \<Rightarrow> ptr \<Rightarrow> nat \<Rightarrow> nat \<Rightarrow> nat \<Rightarrow> nat \<Rightarrow> bool \<Rightarrow> (bool \<times> 'fs vm) option" where
  "load_segment ops v file off a rd zr w = do {
     ASSERT ((rd + zr) mod PGSIZE = 0);
     ASSERT (pg_ofs a = 0);
     ASSERT (off mod PGSIZE = 0);
     load_segment_loop ops v file off a rd zr w }"

definition setup_stack :: "'fs file_ops \<Rightarrow> 'fs vm \<Rightarrow> ((bool \<times> nat option) \<times> 'fs vm) option" where
  "setup_stack ops v = do {
     let stack_bottom = USER_STACK - PGSIZE;
     (ok, v) \<leftarrow> vm_alloc_page v VM_ANON stack_bottom True;
     if \<not> ok then Some ((False, None), v)
     else do {
       (ok, v) \<leftarrow> vm_claim_page ops v stack_bottom;
       if \<not> ok then Some ((False, None), v) else Some ((True, Some USER_STACK), v) } }"

end
