(* ===== verification/Swap_Correct.thy ===== *)
theory Swap_Correct
  imports Virtual_Memory
begin

text \<open>
  The swap area of \<open>vm/anon.c\<close> stores the contents of anonymous pages: swapping a page out adds its 512 words to the
  store, swapping it in takes them out again, and the slots of two pages never overlap.
\<close>

section \<open>What the swap area stores\<close>

definition swap_slot :: "'fs vm \<Rightarrow> ptr \<Rightarrow> nat option" where
  "swap_slot v p = (case page_of v p of
     Some x \<Rightarrow> (case page_data x of Anon i \<Rightarrow> if i = -1 then None else Some (nat i) | _ \<Rightarrow> None)
   | None \<Rightarrow> None)"

definition slot_words :: "'fs vm \<Rightarrow> nat \<Rightarrow> 64 word list" where
  "slot_words v s = map (\<lambda>w. swap_disk v (s * 8 + w div 64) (w mod 64)) [0..<512]"

definition swapped :: "'fs vm \<Rightarrow> ptr \<Rightarrow> 64 word list option" where
  "swapped v p = map_option (slot_words v) (swap_slot v p)"

definition frame_words :: "physmem \<Rightarrow> nat \<Rightarrow> 64 word list" where
  "frame_words m a = map (pages m a) [0..<512]"

definition swap_ok :: "'fs vm \<Rightarrow> bool" where
  "swap_ok v \<longleftrightarrow> bitmap_inv (swap_table v) \<and> bit_cnt (swap_table v) < 2 ^ 28 \<and>
     (\<forall>p s. swap_slot v p = Some s \<longrightarrow> s \<in> bitmap_used (swap_table v)) \<and>
     (\<forall>p q s. swap_slot v p = Some s \<longrightarrow> swap_slot v q = Some s \<longrightarrow> p = q)"

lemma slot_bound: "swap_ok v \<Longrightarrow> swap_slot v p = Some s \<Longrightarrow> s < bit_cnt (swap_table v)"
  by (auto simp: swap_ok_def bitmap_used_def)

section \<open>The transfers\<close>

abbreviation write_slot :: "nat \<Rightarrow> nat \<Rightarrow> nat \<Rightarrow> 'fs vm \<Rightarrow> 'fs vm" where
  "write_slot s a n v \<equiv> fold (\<lambda>i v. swap_disk_write v (s * 8 + i) a i) [0..<n] v"

abbreviation read_slot :: "nat \<Rightarrow> nat \<Rightarrow> nat \<Rightarrow> 'fs vm \<Rightarrow> 'fs vm" where
  "read_slot s a n v \<equiv> fold (\<lambda>i v. swap_disk_read v (s * 8 + i) a i) [0..<n] v"

lemma write_slot:
  "write_slot s a n v = v\<lparr>swap_disk := (\<lambda>sec w. if s * 8 \<le> sec \<and> sec < s * 8 + n \<and> w < 64
     then pages (mem v) a (64 * (sec - s * 8) + w) else swap_disk v sec w)\<rparr>"
proof (induction n)
  case (Suc n)
  have "write_slot s a (Suc n) v = swap_disk_write (write_slot s a n v) (s * 8 + n) a n" by simp
  then show ?case unfolding Suc.IH
    by (simp add: swap_disk_write_def)
      (rule arg_cong [where f = "\<lambda>d. swap_disk_update (\<lambda>_. d) v"], auto simp: fun_eq_iff)
qed (rule vm.equality, auto simp: fun_eq_iff)

lemma sector_of: "w div 64 = n" "w mod 64 = w - 64 * n" if "64 * n \<le> w" "w < 64 * n + 64" for w :: nat
proof -
  show "w div 64 = n" by (rule div_nat_eqI) (use that in simp_all)
  then show "w mod 64 = w - 64 * n" by (simp add: minus_mult_div_eq_mod [symmetric])
qed

lemma read_slot:
  "read_slot s a n v = v\<lparr>mem := (mem v)\<lparr>pages := (pages (mem v))(a :=
     (\<lambda>w. if w < 64 * n then swap_disk v (s * 8 + w div 64) (w mod 64) else pages (mem v) a w))\<rparr>\<rparr>"
proof (induction n)
  case (Suc n)
  have "read_slot s a (Suc n) v = swap_disk_read (read_slot s a n v) (s * 8 + n) a n" by simp
  then show ?case unfolding Suc.IH
    by (simp add: swap_disk_read_def)
      (rule arg_cong [where f = "\<lambda>d. mem_update (\<lambda>_. mem v\<lparr>pages := d\<rparr>) v"], auto simp: fun_eq_iff sector_of)
qed simp

section \<open>Swapping out\<close>

lemma slot_words_cong: "swap_disk v' = swap_disk v \<Longrightarrow> slot_words v' = slot_words v"
  by (simp add: slot_words_def fun_eq_iff)

lemma written_slot:
  "slot_words (write_slot s a 8 v) t = (if t = s then frame_words (mem v) a else slot_words v t)"
proof (cases "t = s")
  case True
  have "w div 64 < 8" if "w < 512" for w :: nat using that by (simp add: less_mult_imp_div_less)
  then show ?thesis unfolding True write_slot by (simp add: slot_words_def frame_words_def)
next
  case False
  have "\<not> (s * 8 \<le> t * 8 + w div 64 \<and> t * 8 + w div 64 < s * 8 + 8)" if "w < 512" for w
  proof -
    have "w div 64 < 8" using that by (simp add: less_mult_imp_div_less)
    then show ?thesis using False by linarith
  qed
  then show ?thesis using False unfolding write_slot by (auto simp: slot_words_def)
qed

text \<open>What \<open>anon_swap_out\<close> does with the slot \<open>s\<close>.\<close>

definition swap_out_to :: "'fs vm \<Rightarrow> ptr \<Rightarrow> page \<Rightarrow> nat \<Rightarrow> bitmap \<Rightarrow> 'fs vm" where
  "swap_out_to v p x s b = (let f = the (frame_of v (page_frame x)); v = write_slot s (kva f) 8 (v\<lparr>swap_table := b\<rparr>) in
     v\<lparr>frame_of := (frame_of v)(page_frame x \<mapsto> f\<lparr>r_cnt := r_cnt f - 1, frame_page := NULL\<rparr>),
       page_of := (page_of v)(p \<mapsto> x\<lparr>page_frame := NULL, page_data := Anon (int s)\<rparr>)\<rparr>)"

lemma anon_swap_out_cases:
  assumes inv: "bitmap_inv (swap_table v)" "bit_cnt (swap_table v) < 2 ^ 28"
    and p: "p \<noteq> NULL" "page_of v p = Some x" "frame_of v (page_frame x) = Some f"
  shows "(if \<exists>s < bit_cnt (swap_table v). s \<notin> bitmap_used (swap_table v)
     then \<exists>s b. anon_swap_out v p = Some (True, swap_out_to v p x s b) \<and> bitmap_inv b \<and> bit_cnt b = bit_cnt (swap_table v) \<and>
       s < bit_cnt b \<and> s \<notin> bitmap_used (swap_table v) \<and> bitmap_used b = insert s (bitmap_used (swap_table v))
     else anon_swap_out v p = None)"
proof -
  obtain r b where rb: "bitmap_scan_and_flip (swap_table v) 0 1 False = Some (r, b)" using bm.alloc_returns [OF inv(1)] by blast
  have keep: "bitmap_inv b" "bit_cnt b = bit_cnt (swap_table v)" using bm.alloc_invar [OF inv(1) rb] by simp_all
  show ?thesis
  proof (cases "r = BITMAP_ERROR")
    case True
    have "b = swap_table v" "\<forall>i. i + 1 \<le> bit_cnt (swap_table v) \<longrightarrow> bitmap_used (swap_table v) \<inter> {i..<i + 1} \<noteq> {}"
      using bm.alloc_full [OF inv(1), of 1 b] rb True by auto
    moreover have "int32 (int BITMAP_ERROR) = -1" by (simp add: BITMAP_ERROR_def int32_def)
    moreover have "bitmap_test b (nat (- 1 mod 2 ^ 64)) = None" using keep(2) inv(2) by (simp add: bitmap_test_def)
    ultimately show ?thesis using rb True p by (auto simp: anon_swap_out_def Let_def)
  next
    case False
    have s: "r < bit_cnt (swap_table v)" "r \<notin> bitmap_used (swap_table v)" "bitmap_used b = insert r (bitmap_used (swap_table v))"
      using bm.alloc_ok [OF inv(1) rb False] by auto
    have "int32 (int r) = int r" by (rule int32_id) (use s(1) inv(2) in \<open>simp add: is_int32_def\<close>)
    then have "anon_swap_out v p = Some (True, swap_out_to v p x r b)"
      using rb p by (simp add: anon_swap_out_def Let_def write_slot upd_frame_def upd_page_def swap_out_to_def)
    then have "\<exists>s b. anon_swap_out v p = Some (True, swap_out_to v p x s b) \<and> bitmap_inv b \<and> bit_cnt b = bit_cnt (swap_table v) \<and>
        s < bit_cnt b \<and> s \<notin> bitmap_used (swap_table v) \<and> bitmap_used b = insert s (bitmap_used (swap_table v))"
      using s keep by (intro exI [of _ r] exI [of _ b]) simp
    then show ?thesis using s(1,2) by (subst if_P) auto
  qed
qed

lemma swap_slot_cong: "page_of v' = page_of v \<Longrightarrow> swap_slot v' = swap_slot v"
  by (simp add: swap_slot_def fun_eq_iff)

lemma anon_swap_out_ok:
  assumes inv: "swap_ok v" and p: "p \<noteq> NULL" "page_of v p = Some x" "frame_of v (page_frame x) = Some f"
    and in_memory: "swap_slot v p = None" and free: "\<exists>s < bit_cnt (swap_table v). s \<notin> bitmap_used (swap_table v)"
  shows "\<exists>v'. anon_swap_out v p = Some (True, v') \<and> swap_ok v' \<and> mem v' = mem v \<and>
    swapped v' = (swapped v)(p \<mapsto> frame_words (mem v) (kva f))"
proof -
  have tab: "bitmap_inv (swap_table v)" "bit_cnt (swap_table v) < 2 ^ 28" using inv by (simp_all add: swap_ok_def)
  obtain s b where sb: "anon_swap_out v p = Some (True, swap_out_to v p x s b)" "bitmap_inv b" "bit_cnt b = bit_cnt (swap_table v)"
      "s < bit_cnt b" "s \<notin> bitmap_used (swap_table v)" "bitmap_used b = insert s (bitmap_used (swap_table v))"
    using anon_swap_out_cases [OF tab p] free by auto
  let ?v = "swap_out_to v p x s b"
  have slot: "swap_slot ?v = (swap_slot v)(p \<mapsto> s)"
    by (simp add: swap_slot_def swap_out_to_def Let_def write_slot fun_eq_iff)
  have st: "swap_table ?v = b" "mem ?v = mem v" by (simp_all add: swap_out_to_def Let_def write_slot)
  have words: "slot_words ?v t = (if t = s then frame_words (mem v) (kva f) else slot_words v t)" for t
  proof -
    have "slot_words ?v t = slot_words (write_slot s (kva f) 8 (v\<lparr>swap_table := b\<rparr>)) t"
      using p(3) by (intro fun_cong [OF slot_words_cong]) (simp add: swap_out_to_def Let_def)
    also have "\<dots> = (if t = s then frame_words (mem v) (kva f) else slot_words v t)"
      unfolding written_slot by (simp add: slot_words_cong [of "v\<lparr>swap_table := b\<rparr>" v])
    finally show ?thesis .
  qed
  have other: "swap_slot v q \<noteq> Some s" for q using inv sb(5) by (auto simp: swap_ok_def)
  have "swap_ok ?v" using inv sb other unfolding swap_ok_def st slot by auto
  moreover have "swapped ?v = (swapped v)(p \<mapsto> frame_words (mem v) (kva f))"
  proof
    fix q
    show "swapped ?v q = ((swapped v)(p \<mapsto> frame_words (mem v) (kva f))) q"
      using other [of q] by (cases "swap_slot v q") (auto simp: swapped_def slot words)
  qed
  ultimately show ?thesis using sb(1) st(2) by blast
qed

lemma anon_swap_in_ok:
  assumes inv: "swap_ok v" and p: "swapped v p = Some ws"
  shows "\<exists>v'. anon_swap_in v p a = Some (True, v') \<and> swap_ok v' \<and> swapped v' = (swapped v)(p := None) \<and>
    frame_words (mem v') a = ws \<and> (\<forall>c. c \<noteq> a \<longrightarrow> pages (mem v') c = pages (mem v) c)"
proof -
  obtain s where s: "swap_slot v p = Some s" "ws = slot_words v s" using p by (auto simp: swapped_def)
  obtain x i where x: "page_of v p = Some x" "page_data x = Anon i" "i \<noteq> -1" "s = nat i"
    using s(1) by (auto simp: swap_slot_def split: option.splits page_data.splits if_splits)
  have "bitmap_inv (swap_table v)" using inv by (simp add: swap_ok_def)
  from bitmap_set_bit_at [OF this slot_bound [OF inv s(1)], of False] obtain b where
    b: "bitmap_set (swap_table v) s False = Some b" "bitmap_inv b" "bit_cnt b = bit_cnt (swap_table v)"
      "bit_at b = (bit_at (swap_table v))(s := False)" by blast
  have used: "bitmap_used b = bitmap_used (swap_table v) - {s}" using b(3,4) by (auto simp: bitmap_used_def)
  let ?m = "(mem v)\<lparr>pages := (pages (mem v))(a :=
     (\<lambda>w. if w < 512 then swap_disk v (s * 8 + w div 64) (w mod 64) else pages (mem v) a w))\<rparr>"
  let ?v = "v\<lparr>mem := ?m, swap_table := b, page_of := (page_of v)(p \<mapsto> x\<lparr>page_data := Anon (-1)\<rparr>)\<rparr>"
  have run: "anon_swap_in v p a = Some (True, ?v)"
    using x b(1) unfolding x(4) by (simp add: anon_swap_in_def Let_def read_slot upd_page_def)
  have slot: "swap_slot ?v = (swap_slot v)(p := None)" by (simp add: swap_slot_def fun_eq_iff)
  have "swap_ok ?v" using inv b(2,3) used s(1) unfolding swap_ok_def slot by auto
  moreover have "swapped ?v = (swapped v)(p := None)"
  proof -
    have "slot_words ?v = slot_words v" by (rule slot_words_cong) simp
    then show ?thesis by (intro ext) (simp add: swapped_def slot)
  qed
  moreover have "frame_words (mem ?v) a = ws" by (simp add: frame_words_def s(2) slot_words_def)
  ultimately show ?thesis using run by simp
qed

section \<open>A page on disk while others come and go\<close>

text \<open>
  What may happen while the page \<open>p\<close> is on disk: other pages are swapped out (they are in a frame and have no slot) and in, or
  something else happens that leaves the swap area alone, such as a process writing to memory, the allocation
  of frames and page tables, or the creation of pages.
\<close>

inductive swap_step :: "ptr \<Rightarrow> 'fs vm \<Rightarrow> 'fs vm \<Rightarrow> bool" for p where
  out: "q \<noteq> p \<Longrightarrow> q \<noteq> NULL \<Longrightarrow> page_of v q = Some x \<Longrightarrow> frame_of v (page_frame x) = Some f \<Longrightarrow> swap_slot v q = None \<Longrightarrow>
    anon_swap_out v q = Some (ok, v') \<Longrightarrow> swap_step p v v'"
| in_: "q \<noteq> p \<Longrightarrow> swap_slot v q \<noteq> None \<Longrightarrow> anon_swap_in v q a = Some (ok, v') \<Longrightarrow> swap_step p v v'"
| other: "swap_disk v' = swap_disk v \<Longrightarrow> swap_table v' = swap_table v \<Longrightarrow> swap_slot v' = swap_slot v \<Longrightarrow> swap_step p v v'"

lemma swap_step_keeps:
  assumes "swap_step p v v'" "swap_ok v"
  shows "swap_ok v' \<and> swapped v' p = swapped v p"
  using assms
proof (induction rule: swap_step.induct)
  case (out q v x f ok v')
  have tab: "bitmap_inv (swap_table v)" "bit_cnt (swap_table v) < 2 ^ 28" using out.prems by (simp_all add: swap_ok_def)
  have "\<exists>s < bit_cnt (swap_table v). s \<notin> bitmap_used (swap_table v)"
    using anon_swap_out_cases [OF tab out(2-4)] out(6) by (auto split: if_splits)
  from anon_swap_out_ok [OF out.prems out(2-5) this] out(1,6) show ?case by auto
next
  case (in_ q v a ok v')
  then obtain ws where "swapped v q = Some ws" by (auto simp: swapped_def)
  from anon_swap_in_ok [OF in_.prems this, of a] in_(1,3) show ?case by auto
next
  case (other v' v)
  have "swapped v' p = swapped v p" unfolding swapped_def slot_words_cong [OF other(1)] other(3) ..
  moreover have "swap_ok v' = swap_ok v" unfolding swap_ok_def other(2,3) ..
  ultimately show ?case using other.prems by simp
qed

lemma swap_steps_keep:
  assumes "(swap_step p)\<^sup>*\<^sup>* v v'" "swap_ok v"
  shows "swap_ok v' \<and> swapped v' p = swapped v p"
  using assms by (induction rule: rtranclp_induct) (auto dest: swap_step_keeps)

section \<open>Properties\<close>


text \<open>Error.  With every slot of the swap disk taken, swapping a page out does not return false as its caller
  expects: the assertion on the error value stops the kernel.  With a free slot it never stops.\<close>

theorem swap_full_stops:
  assumes "swap_ok v" "p \<noteq> NULL" "page_of v p = Some x" "frame_of v (page_frame x) = Some f"
  shows "anon_swap_out v p = None \<longleftrightarrow> bitmap_used (swap_table v) = {..<bit_cnt (swap_table v)}"
proof -
  have tab: "bitmap_inv (swap_table v)" "bit_cnt (swap_table v) < 2 ^ 28" using assms(1) by (simp_all add: swap_ok_def)
  have sub: "bitmap_used (swap_table v) \<subseteq> {..<bit_cnt (swap_table v)}" by (auto simp: bitmap_used_def)
  show ?thesis
  proof (cases "\<exists>s < bit_cnt (swap_table v). s \<notin> bitmap_used (swap_table v)")
    case True
    then show ?thesis using anon_swap_out_cases [OF tab assms(2-4)] by auto
  next
    case False
    then have "anon_swap_out v p = None" using anon_swap_out_cases [OF tab assms(2-4)] by (simp only: if_False)
    then show ?thesis using False sub by blast
  qed
qed

text \<open>An address space with one anonymous page in a frame, and a swap disk with two slots, the first of them taken.\<close>

definition demo_vm :: "'fs \<Rightarrow> bitmap \<Rightarrow> 'fs vm" where
  "demo_vm files slots = \<lparr>mem = demo_memory, base_pml4 = 0x8004001000, pml4 = 0x8004000000,
     spt = \<lparr>hash_elem_cnt = 0, bucket_cnt = 4, buckets = [[], [], [], []], hash_fun = (\<lambda>_. 0), hash_less = (\<lambda>_ _. True)\<rparr>,
     user_rsp = 0x47480000,
     page_of = [16 \<mapsto> \<lparr>operations = VM_ANON, va = 0x400000, page_frame = 32, writable = True, page_data = Anon (-1)\<rparr>],
     frame_of = [32 \<mapsto> \<lparr>kva = 0x8004004000, frame_page = 16, r_cnt = 1\<rparr>], info_of = Map.empty, frame_list = [32],
     swap_table = slots, swap_disk = (\<lambda>_ _. 0), fs = files, mallocs = [64, 80, 96], bucket_malloc = True, filesys_lock = False\<rparr>"

lemma demo_vm_swap_ok:
  "swap_ok (demo_vm files \<lparr>bit_cnt = 2, bits = [1]\<rparr>)" "swap_ok (demo_vm files \<lparr>bit_cnt = 2, bits = [3]\<rparr>)"
  by (auto simp: swap_ok_def demo_vm_def swap_slot_def bitmap_inv_def elem_cnt_def size_t_def ELEM_BITS_def split: if_splits)


theorem swap_full_stops_witness: "anon_swap_out (demo_vm () \<lparr>bit_cnt = 2, bits = [3]\<rparr>) 16 = None"
proof -
  let ?v = "demo_vm () \<lparr>bit_cnt = 2, bits = [3]\<rparr>"
  let ?x = "\<lparr>operations = VM_ANON, va = 0x400000, page_frame = 32, writable = True, page_data = Anon (-1)\<rparr>"
  let ?f = "\<lparr>kva = 0x8004004000, frame_page = 16, r_cnt = 1\<rparr>"
  have p: "page_of ?v 16 = Some ?x" "frame_of ?v (page_frame ?x) = Some ?f" by (simp_all add: demo_vm_def)
  have "bitmap_used (swap_table ?v) = {..<bit_cnt (swap_table ?v)}"
    by (auto simp: demo_vm_def bitmap_used_def bit_at_def elem_idx_def ELEM_BITS_def less_2_cases_iff)
  then show ?thesis using swap_full_stops [OF demo_vm_swap_ok(2) _ p] by simp
qed

end
