(* ===== verification/Address_Space.thy ===== *)
theory Address_Space
  imports Swap_Correct
begin

text \<open>
  The supplemental page table is a finite map from user pages to \<open>struct page\<close> objects, and \<open>load_segment\<close> enters a program
  segment in it that reads, once its pages are faulted in, as the file contents followed by zeros.
\<close>

section \<open>The table as a map\<close>

definition spt_map :: "'fs vm \<Rightarrow> nat \<Rightarrow> ptr option" where
  "spt_map v a = find (\<lambda>e. va_at (page_of v) e = a) (concat (buckets (spt v)))"

definition spt_ok :: "'fs vm \<Rightarrow> bool" where
  "spt_ok v \<longleftrightarrow> hash_inv (spt_on (page_of v) (spt v)) \<and>
     (\<forall>e \<in># elems (spt v). e \<noteq> TEMP \<and> page_of v e \<noteq> None)"

lemma eqv_spt_on: "eqv (spt_on pm h) a b \<longleftrightarrow> a \<noteq> NULL \<and> b \<noteq> NULL \<and> va_at pm a = va_at pm b"
  by (auto simp: eqv_def spt_on_def is_less_def)

lemma keyed_spt_on: "keyed (spt_on pm h)"
  unfolding keyed_def eqv_spt_on by (auto simp: spt_on_def page_hash_def)

lemma spt_on_simps [simp]:
  "elems (spt_on pm h) = elems h" "buckets (spt_on pm h) = buckets h" "hash_elem_cnt (spt_on pm h) = hash_elem_cnt h"
  "bucket_cnt (spt_on pm h) = bucket_cnt h" "hash_empty (spt_on pm h) = hash_empty h" "spt_on pm (spt_on pm' h) = spt_on pm h"
  by (simp_all add: spt_on_def elems_def hash_empty_def)

text \<open>Pages that are not in the table may change freely.\<close>

lemma hash_inv_cong:
  assumes "\<And>e. e \<in># elems h \<Longrightarrow> va_at pm' e = va_at pm e" "hash_inv (spt_on pm h)"
  shows "hash_inv (spt_on pm' h)"
proof -
  have fb: "find_bucket (spt_on pm' h) e = find_bucket (spt_on pm h) e" if "e \<in># elems h" for e
    using assms(1) [OF that] by (simp add: find_bucket_def spt_on_def page_hash_def)
  have "shape (spt_on pm' h)"
  proof -
    have "find_bucket (spt_on pm' h) e = i" if "i < length (buckets h)" "e \<in> set (buckets h ! i)" for i e
      using assms(2) fb [of e] that elems_mem [of e h] unfolding hash_inv_def shape_def by auto
    then show ?thesis using assms(2) unfolding hash_inv_def shape_def by simp
  qed
  moreover have "\<forall>a b. a \<in># elems h \<longrightarrow> b \<in># elems h \<longrightarrow> eqv (spt_on pm' h) a b \<longrightarrow> a = b"
    using assms unfolding hash_inv_def eqv_spt_on by simp
  ultimately show ?thesis using assms(2) keyed_spt_on unfolding hash_inv_def by simp
qed

lemma elem_not_NULL: "spt_ok v \<Longrightarrow> e \<in># elems (spt v) \<Longrightarrow> e \<noteq> NULL"
  unfolding spt_ok_def hash_inv_def by (metis spt_on_simps(1))

lemma spt_map_Some:
  assumes "spt_ok v"
  shows "spt_map v a = Some e \<longleftrightarrow> e \<in># elems (spt v) \<and> va_at (page_of v) e = a"
proof -
  have uniq: "e = e'" if "e \<in># elems (spt v)" "e' \<in># elems (spt v)" "va_at (page_of v) e = va_at (page_of v) e'" for e e'
  proof -
    have inv: "\<And>a b. a \<in># elems (spt v) \<Longrightarrow> b \<in># elems (spt v) \<Longrightarrow> eqv (spt_on (page_of v) (spt v)) a b \<Longrightarrow> a = b"
      using assms by (simp_all add: spt_ok_def hash_inv_def)
    then show ?thesis using elem_not_NULL [OF assms] that by (simp add: eqv_spt_on)
  qed
  have mem: "e \<in># elems (spt v) \<longleftrightarrow> e \<in> set (concat (buckets (spt v)))" for e by (simp add: elems_def)
  show ?thesis
  proof
    assume "spt_map v a = Some e"
    then show "e \<in># elems (spt v) \<and> va_at (page_of v) e = a"
      unfolding mem spt_map_def find_Some_iff by (metis nth_mem)
  next
    assume e: "e \<in># elems (spt v) \<and> va_at (page_of v) e = a"
    then obtain e' where e': "spt_map v a = Some e'"
      unfolding mem spt_map_def by (cases "find (\<lambda>e. va_at (page_of v) e = a) (concat (buckets (spt v)))")
        (auto simp: find_None_iff)
    then have "e' \<in># elems (spt v)" "va_at (page_of v) e' = a"
      unfolding mem spt_map_def find_Some_iff by (metis nth_mem)+
    with e uniq e' show "spt_map v a = Some e" by auto
  qed
qed

lemma option_ext: "(\<And>e. x = Some e \<longleftrightarrow> y = Some e) \<Longrightarrow> x = y"
  by (cases x; cases y) auto

lemma spt_map_None: "spt_ok v \<Longrightarrow> spt_map v a = None \<longleftrightarrow> \<not> (\<exists>e. e \<in># elems (spt v) \<and> va_at (page_of v) e = a)"
  using spt_map_Some [of v a] by (cases "spt_map v a") auto

section \<open>The operations on the table\<close>

lemma found_spt:
  assumes inv: "spt_ok v" and k: "k \<noteq> NULL" and same: "\<And>e. e \<in># elems (spt v) \<Longrightarrow> va_at pm e = va_at (page_of v) e"
    and f: "found (spt_on pm (spt v)) k r"
  shows "r = (case spt_map v (va_at pm k) of None \<Rightarrow> NULL | Some e \<Rightarrow> e)"
proof (cases "r = NULL")
  case True
  have "spt_map v (va_at pm k) = None"
    using f True k same elem_not_NULL [OF inv] unfolding found_def eqv_spt_on spt_map_None [OF inv] by auto
  with True show ?thesis by simp
next
  case False
  then have "r \<in># elems (spt v)" "va_at (page_of v) r = va_at pm k"
    using f same unfolding found_def eqv_spt_on by auto
  then have "spt_map v (va_at pm k) = Some r" by (simp add: spt_map_Some [OF inv])
  then show ?thesis by simp
qed

lemma spt_find_page_ok:
  assumes inv: "spt_ok v"
  shows "spt_find_page v a = Some (if a = NULL then NULL else case spt_map v (pg_round_down a) of None \<Rightarrow> NULL | Some e \<Rightarrow> e)"
proof (cases "a = NULL")
  case False
  let ?pm = "(page_of v)(TEMP \<mapsto> key_page (pg_round_down a))"
  have same: "va_at ?pm e = va_at (page_of v) e" if "e \<in># elems (spt v)" for e
    using inv that by (auto simp: spt_ok_def va_at_def)
  have "hash_inv (spt_on ?pm (spt v))"
    by (rule hash_inv_cong [OF same]) (use inv in \<open>simp_all add: spt_ok_def\<close>)
  from hash_find_found [OF this, of TEMP] obtain r where
    r: "hash_find (spt_on ?pm (spt v)) TEMP = Some r" "found (spt_on ?pm (spt v)) TEMP r" by (auto simp: TEMP_def)
  have "va_at ?pm TEMP = pg_round_down a" by (simp add: va_at_def key_page_def)
  then show ?thesis using found_spt [OF inv _ same r(2)] r(1) False by (simp add: spt_find_page_def TEMP_def)
qed (simp add: spt_find_page_def)

text \<open>Changing a page outside the table, or a page in it at the same address.\<close>

lemma spt_ok_page_of:
  assumes "spt_ok v" "p \<in># elems (spt v) \<Longrightarrow> va_at (page_of v) p = va x"
  shows "spt_ok (v\<lparr>page_of := (page_of v)(p \<mapsto> x)\<rparr>)" "spt_map (v\<lparr>page_of := (page_of v)(p \<mapsto> x)\<rparr>) = spt_map v"
proof -
  let ?v = "v\<lparr>page_of := (page_of v)(p \<mapsto> x)\<rparr>"
  have same: "va_at (page_of ?v) e = va_at (page_of v) e" if "e \<in># elems (spt v)" for e
    using that assms(2) by (auto simp: va_at_def)
  show ok: "spt_ok ?v" using hash_inv_cong [OF same, of "spt v"] assms(1) by (auto simp: spt_ok_def)
  show "spt_map ?v = spt_map v"
  proof
    fix a
    have "va_at (page_of ?v) e = va_at (page_of v) e" if "e \<in> set (concat (buckets (spt v)))" for e
      using that by (intro same) (simp add: elems_def)
    then show "spt_map ?v a = spt_map v a" unfolding spt_map_def by (intro find_cong) simp_all
  qed
qed

lemma spt_insert_page_ok:
  assumes inv: "spt_ok v" and p: "p \<noteq> NULL" "p \<noteq> TEMP" "page_of v p = Some x" and room: "Suc (size (elems (spt v))) < 2 ^ 64"
  shows "\<exists>h. spt_insert_page v p = Some (spt_map v (va x) = None, v\<lparr>spt := h\<rparr>) \<and> spt_ok (v\<lparr>spt := h\<rparr>) \<and>
    spt_map (v\<lparr>spt := h\<rparr>) = (if spt_map v (va x) = None then (spt_map v)(va x \<mapsto> p) else spt_map v) \<and>
    size (elems h) \<le> Suc (size (elems (spt v)))"
proof -
  let ?h = "spt_on (page_of v) (spt v)"
  have h: "hash_inv ?h" "Suc (size (elems ?h)) < 2 ^ 64" using inv room by (simp_all add: spt_ok_def)
  from hash_insert_spec [OF h(1) p(1) h(2), of "bucket_malloc v"] obtain old h' where
    ins: "hash_insert (bucket_malloc v) ?h p = Some (old, h')" "found ?h p old" "hash_inv h'"
      "elems h' = (if old = NULL then add_mset p (elems (spt v)) else elems (spt v))" "same_callbacks ?h h'" by auto
  let ?v = "v\<lparr>spt := h'\<rparr>"
  have vp: "va_at (page_of v) p = va x" using p(3) by (simp add: va_at_def)
  have old: "old = NULL \<longleftrightarrow> spt_map v (va x) = None"
    using found_spt [OF inv p(1) _ ins(2)] spt_map_Some [OF inv, of "va x"] elem_not_NULL [OF inv] vp
    by (auto split: option.splits)
  have "spt_on (page_of v) h' = h'" using ins(5) by (intro hash.equality) (simp_all add: spt_on_def)
  then have ok: "spt_ok ?v" using inv ins(3,4) p(2,3) by (auto simp: spt_ok_def)
  have "spt_map ?v a = (if spt_map v (va x) = None then (spt_map v)(va x \<mapsto> p) else spt_map v) a" for a
  proof (cases "old = NULL")
    case True
    have "e \<in># elems (spt ?v) \<and> va_at (page_of ?v) e = a \<longleftrightarrow> (if a = va x then e = p else e \<in># elems (spt v) \<and> va_at (page_of v) e = a)" for e
      using True old ins(4) vp spt_map_None [OF inv, of "va x"] by auto
    then have "spt_map ?v a = Some e \<longleftrightarrow> ((spt_map v)(va x \<mapsto> p)) a = Some e" for e
      unfolding spt_map_Some [OF ok] by (auto simp: spt_map_Some [OF inv])
    then have "spt_map ?v a = ((spt_map v)(va x \<mapsto> p)) a" by (rule option_ext)
    then show ?thesis using True old by simp
  next
    case False
    have "spt_map ?v a = Some e \<longleftrightarrow> spt_map v a = Some e" for e
      unfolding spt_map_Some [OF ok] using False ins(4) by (simp add: spt_map_Some [OF inv])
    then have "spt_map ?v a = spt_map v a" by (rule option_ext)
    then show ?thesis using False old by simp
  qed
  then show ?thesis using ins(1,4) ok old p(1) by (intro exI [of _ h']) (auto simp: spt_insert_page_def)
qed

lemma spt_remove_page_ok:
  assumes inv: "spt_ok v" and p: "p \<noteq> NULL" "page_of v p = Some x"
  shows "\<exists>h. spt_remove_page v p = Some (v\<lparr>spt := h\<rparr>) \<and> spt_ok (v\<lparr>spt := h\<rparr>) \<and> spt_map (v\<lparr>spt := h\<rparr>) = (spt_map v)(va x := None)"
proof -
  let ?h = "spt_on (page_of v) (spt v)"
  have "hash_inv ?h" using inv by (simp add: spt_ok_def)
  from hash_delete_spec [OF this p(1), of "bucket_malloc v"] obtain r h' where
    del: "hash_delete (bucket_malloc v) ?h p = Some (r, h')" "found ?h p r" "hash_inv h'"
      "elems h' = (if r = NULL then elems (spt v) else elems (spt v) - {#r#})" "same_callbacks ?h h'" by auto
  let ?v = "v\<lparr>spt := h'\<rparr>"
  have vp: "va_at (page_of v) p = va x" using p(2) by (simp add: va_at_def)
  have r: "r = (case spt_map v (va x) of None \<Rightarrow> NULL | Some e \<Rightarrow> e)" using found_spt [OF inv p(1) _ del(2)] vp by simp
  have "spt_on (page_of v) h' = h'" using del(5) by (intro hash.equality) (simp_all add: spt_on_def)
  then have ok: "spt_ok ?v" using inv del(3,4) by (auto simp: spt_ok_def dest: in_diffD split: if_splits)
  have one: "count (elems (spt v)) e \<le> 1" for e using inv by (simp add: spt_ok_def hash_inv_elems)
  have mem: "e \<in># elems h' \<longleftrightarrow> e \<in># elems (spt v) \<and> va_at (page_of v) e \<noteq> va x" for e
  proof (cases "spt_map v (va x)")
    case None
    then show ?thesis using r del(4) spt_map_None [OF inv, of "va x"] by auto
  next
    case (Some e')
    then have e': "e' \<in># elems (spt v)" "va_at (page_of v) e' = va x" by (simp_all add: spt_map_Some [OF inv])
    then have "elems h' = elems (spt v) - {#e'#}" using r del(4) Some elem_not_NULL [OF inv] by auto
    moreover have "e \<in># elems (spt v) - {#e'#} \<longleftrightarrow> e \<in># elems (spt v) \<and> e \<noteq> e'"
      using one [of e] by (auto simp: in_diff_count count_eq_zero_iff dest: in_diffD)
    moreover have "e \<in># elems (spt v) \<Longrightarrow> va_at (page_of v) e = va x \<Longrightarrow> e = e'"
      using spt_map_Some [OF inv, of "va x" e] Some by simp
    ultimately show ?thesis using e'(2) by auto
  qed
  have "spt_map ?v a = ((spt_map v)(va x := None)) a" for a
  proof -
    have "spt_map ?v a = Some e \<longleftrightarrow> ((spt_map v)(va x := None)) a = Some e" for e
      unfolding spt_map_Some [OF ok] using mem [of e] spt_map_Some [OF inv, of a e] by auto
    then show ?thesis by (rule option_ext)
  qed
  then show ?thesis using del(1) ok by (intro exI [of _ h']) (auto simp: spt_remove_page_def)
qed

section \<open>Allocating pages\<close>

lemma pg_round_down_aligned: "pg_ofs a = 0 \<Longrightarrow> pg_round_down a = a"
  by (simp add: pg_round_down_def pg_ofs_def)

text \<open>A fresh block for the page structure.\<close>

definition fresh_page :: "'fs vm \<Rightarrow> ptr \<Rightarrow> bool" where
  "fresh_page v p \<longleftrightarrow> p \<noteq> NULL \<and> p \<noteq> TEMP \<and> page_of v p = None"

lemma vm_alloc_page_ok:
  assumes inv: "spt_ok v" and m: "mallocs v = p # ps" "fresh_page v p" and a: "pg_ofs a = 0" "a \<noteq> NULL"
    and type: "VM_TYPE type \<in> {VM_ANON, VM_FILE}" and room: "Suc (size (elems (spt v))) < 2 ^ 64"
  shows "if spt_map v a = None
    then \<exists>h. let x = (uninit_new a init type aux (if VM_TYPE type = VM_ANON then Anon_initializer else File_backed_initializer))\<lparr>writable := w\<rparr>;
        v' = v\<lparr>mallocs := ps, page_of := (page_of v)(p \<mapsto> x), spt := h\<rparr> in
      vm_alloc_page_with_initializer v type a w init aux = Some (True, v') \<and> spt_ok v' \<and> spt_map v' = (spt_map v)(a \<mapsto> p) \<and>
      size (elems h) \<le> Suc (size (elems (spt v)))
    else vm_alloc_page_with_initializer v type a w init aux = Some (False, v)"
proof (cases "spt_map v a")
  case (Some e)
  have "spt_find_page v a = Some e" using spt_find_page_ok [OF inv, of a] a Some by (simp add: pg_round_down_aligned)
  moreover have "e \<noteq> NULL" using Some elem_not_NULL [OF inv, of e] by (simp add: spt_map_Some [OF inv])
  ultimately show ?thesis using Some by (simp add: vm_alloc_page_with_initializer_def)
next
  case None
  let ?x = "(uninit_new a init type aux (if VM_TYPE type = VM_ANON then Anon_initializer else File_backed_initializer))\<lparr>writable := w\<rparr>"
  let ?v = "v\<lparr>mallocs := ps, page_of := (page_of v)(p \<mapsto> ?x)\<rparr>"
  have find: "spt_find_page v a = Some NULL" using spt_find_page_ok [OF inv, of a] a None by (simp add: pg_round_down_aligned)
  have "p \<notin># elems (spt v)" using inv m(2) by (auto simp: spt_ok_def fresh_page_def)
  moreover have "spt_ok (v\<lparr>mallocs := ps\<rparr>)" "spt_map (v\<lparr>mallocs := ps\<rparr>) = spt_map v"
    using inv by (simp_all add: spt_ok_def spt_map_def fun_eq_iff)
  ultimately have v: "spt_ok ?v" "spt_map ?v = spt_map v" using spt_ok_page_of [of "v\<lparr>mallocs := ps\<rparr>" p ?x] by simp_all
  have x: "page_of ?v p = Some ?x" "va ?x = a" by (simp_all add: uninit_new_def)
  from spt_insert_page_ok [OF v(1) _ _ x(1)] m(2) room None v(2) x(2) obtain h where
    h: "spt_insert_page ?v p = Some (True, ?v\<lparr>spt := h\<rparr>)" "spt_ok (?v\<lparr>spt := h\<rparr>)" "spt_map (?v\<lparr>spt := h\<rparr>) = (spt_map v)(a \<mapsto> p)"
      "size (elems h) \<le> Suc (size (elems (spt v)))"
    by (auto simp: fresh_page_def)
  have "vm_alloc_page_with_initializer v type a w init aux = Some (True, ?v\<lparr>spt := h\<rparr>)"
    using find m type h(1) unfolding vm_alloc_page_with_initializer_def
    by (auto simp: next_malloc_def fresh_page_def Let_def)
  then have "let x = ?x; v' = v\<lparr>mallocs := ps, page_of := (page_of v)(p \<mapsto> x), spt := h\<rparr> in
      vm_alloc_page_with_initializer v type a w init aux = Some (True, v') \<and> spt_ok v' \<and> spt_map v' = (spt_map v)(a \<mapsto> p) \<and>
      size (elems h) \<le> Suc (size (elems (spt v)))"
    unfolding Let_def using h(2-4) by blast
  then show ?thesis using None by (subst if_P) blast+
qed

section \<open>Filling a frame from a file\<close>

lemma page_bytes_store: "page_bytes (store_bytes m a bs) a k = (if k < length bs then bs ! k else page_bytes m a k)"
proof -
  let ?f = "\<lambda>j. if 8 * (k div 8) + j < length bs then bs ! (8 * (k div 8) + j) else page_bytes m a (8 * (k div 8) + j)"
  have "page_bytes (store_bytes m a bs) a k = ucast (drop_bit (8 * (k mod 8)) (bytes_word (map ?f [0..<8])))"
    unfolding page_bytes_def [of "store_bytes m a bs"] by (simp add: store_bytes_def)
  also have "\<dots> = map ?f [0..<8] ! (k mod 8)"
  proof (rule bit_word_eqI)
    fix n assume n: "n < LENGTH(8)"
    have "(8 * (k mod 8) + n) div 8 = k mod 8" "(8 * (k mod 8) + n) mod 8 = n" "8 * (k mod 8) + n < 64"
      using n mod_less_divisor [of 8 k] by simp_all
    then show "bit (ucast (drop_bit (8 * (k mod 8)) (bytes_word (map ?f [0..<8]))) :: 8 word) n = bit (map ?f [0..<8] ! (k mod 8)) n"
      using n by (simp only: bit_ucast_iff bit_drop_bit_eq o_def bytes_word_bit length_map length_upt) simp
  qed
  also have "\<dots> = ?f (k mod 8)" by (subst nth_map) simp_all
  finally show ?thesis by simp
qed

text \<open>What the loader relies on of the file system: reading at an offset delivers the contents there, the length is
  that of the contents, and reopening a file succeeds and gives a handle on the same contents.\<close>

definition file_ops_ok :: "'fs file_ops \<Rightarrow> ('fs \<Rightarrow> ptr \<Rightarrow> 8 word list) \<Rightarrow> bool" where
  "file_ops_ok ops contents \<longleftrightarrow>
     (\<forall>s f n off. \<exists>s'. file_read_at ops s f n off = Some (take n (drop off (contents s f)), s') \<and> contents s' = contents s) \<and>
     (\<forall>s f. file_length ops s f = Some (length (contents s f))) \<and>
     (\<forall>s f. \<exists>f' s'. file_reopen ops s f = Some (f', s') \<and>
        contents s' f' = contents s f \<and> (\<forall>g. g \<noteq> f' \<longrightarrow> contents s' g = contents s g))"

text \<open>The bytes of page \<open>i\<close> of a segment of \<open>rd\<close> bytes at offset \<open>off\<close>.\<close>

definition segment_byte :: "8 word list \<Rightarrow> nat \<Rightarrow> nat \<Rightarrow> nat \<Rightarrow> 8 word" where
  "segment_byte bs off rd k = (if k < rd then bs ! (off + k) else 0)"

lemma lazy_load_segment_ok:
  assumes ops: "file_ops_ok ops contents" and fi: "info_of v aux = Some fi" "ofs fi = off + min (i * PGSIZE) rd" "read_bytes fi = rd - i * PGSIZE"
    and bs: "contents (fs v) (fi_file fi) = bs" "off + rd \<le> length bs" "length bs < 2 ^ 64"
    and p: "page_of v p = Some x" "frame_of v (page_frame x) = Some f"
  shows "\<exists>m fs'. lazy_load_segment ops v p aux = Some (True, v\<lparr>fs := fs', mem := m\<rparr>) \<and>
    (\<forall>k < PGSIZE. page_bytes m (kva f) k = segment_byte bs off rd (i * PGSIZE + k)) \<and>
    (\<forall>c. c \<noteq> kva f \<longrightarrow> pages m c = pages (mem v) c)"
proof -
  let ?n = "min (rd - i * PGSIZE) PGSIZE"
  let ?o = "off + min (i * PGSIZE) rd"
  have rem: "nat ((int (length bs) - int ?o) mod 2 ^ 64) = length bs - ?o"
  proof -
    have "int (length bs) - int ?o = int (length bs - ?o)" using bs(2) by simp
    then show ?thesis using bs(3) by (simp del: of_nat_diff)
  qed
  have "?n \<le> length bs - ?o" using bs(2) by linarith
  then have n: "(if (if rd - i * PGSIZE < PGSIZE then rd - i * PGSIZE else PGSIZE) < length bs - ?o
      then (if rd - i * PGSIZE < PGSIZE then rd - i * PGSIZE else PGSIZE) else length bs - ?o) = ?n" by auto
  let ?d = "take ?n (drop ?o bs)"
  have len: "length ?d = ?n" using \<open>?n \<le> length bs - ?o\<close> by simp
  let ?m = "store_bytes (mem v) (kva f) (?d @ replicate (PGSIZE - length ?d) 0)"
  obtain fs' where rd: "file_read_at ops (fs v) (fi_file fi) ?n ?o = Some (?d, fs')" "file_length ops (fs v) (fi_file fi) = Some (length bs)"
    using ops bs(1) unfolding file_ops_ok_def by metis
  have "lazy_load_segment ops v p aux = Some (True, v\<lparr>fs := fs', mem := ?m\<rparr>)"
    unfolding lazy_load_segment_def by (simp only: fi p Option.bind.simps Let_def rd rem n prod.case)
  moreover have "page_bytes ?m (kva f) k = segment_byte bs off rd (i * PGSIZE + k)" if "k < PGSIZE" for k
    unfolding page_bytes_store segment_byte_def nth_append len using that bs(2) by (auto simp: len min_def add.assoc)
  moreover have "pages ?m c = pages (mem v) c" if "c \<noteq> kva f" for c using that by (simp add: store_bytes_def)
  ultimately show ?thesis by blast
qed

section \<open>Loading a segment\<close>

definition segment_page :: "('fs \<Rightarrow> ptr \<Rightarrow> 8 word list) \<Rightarrow> 8 word list \<Rightarrow> 'fs vm \<Rightarrow> nat \<Rightarrow> nat \<Rightarrow> nat \<Rightarrow> bool \<Rightarrow> nat \<Rightarrow> ptr \<times> ptr \<Rightarrow> bool" where
  "segment_page contents bs v off a rd w i = (\<lambda>(aux, p).
     page_of v p = Some ((uninit_new (a + i * PGSIZE) Lazy_load_segment VM_ANON aux Anon_initializer)\<lparr>writable := w\<rparr>) \<and>
     (\<exists>fi. info_of v aux = Some fi \<and> ofs fi = off + min (i * PGSIZE) rd \<and> read_bytes fi = rd - i * PGSIZE \<and>
        contents (fs v) (fi_file fi) = bs))"

definition new_blocks :: "'fs vm \<Rightarrow> (ptr \<times> ptr) list \<Rightarrow> bool" where
  "new_blocks v ms \<longleftrightarrow> distinct (map fst ms) \<and> distinct (map snd ms) \<and>
     (\<forall>(aux, p) \<in> set ms. aux \<noteq> NULL \<and> fresh_page v p)"

definition segment_pages :: "nat \<Rightarrow> (ptr \<times> ptr) list \<Rightarrow> nat \<rightharpoonup> ptr" where
  "segment_pages a ms b = (if a \<le> b \<and> (b - a) mod PGSIZE = 0 \<and> (b - a) div PGSIZE < length ms then Some (snd (ms ! ((b - a) div PGSIZE))) else None)"

definition keeps :: "'fs vm \<Rightarrow> 'fs vm \<Rightarrow> ptr set \<Rightarrow> ptr set \<Rightarrow> bool" where
  "keeps v v' P A \<longleftrightarrow> mem v' = mem v \<and> frame_of v' = frame_of v \<and> frame_list v' = frame_list v \<and>
     (\<forall>q. q \<notin> P \<longrightarrow> page_of v' q = page_of v q) \<and> (\<forall>q. q \<notin> A \<longrightarrow> info_of v' q = info_of v q)"

lemma segment_pages_Cons:
  "segment_pages a ((aux, p) # ms) = (segment_pages (a + PGSIZE) ms)(a \<mapsto> p)"
proof
  fix b
  consider "b < a" | "b = a" | "a < b" "b < a + PGSIZE" | c where "b = a + PGSIZE + c"
    by (metis le_Suc_ex linorder_neqE_nat not_le)
  then show "segment_pages a ((aux, p) # ms) b = ((segment_pages (a + PGSIZE) ms)(a \<mapsto> p)) b"
    by cases (auto simp: segment_pages_def PGSIZE_val)
qed

lemma alloc_step:
  assumes "spt_ok v" "mallocs v = p # ps" "fresh_page v p" "pg_ofs a = 0" "a \<noteq> NULL" "spt_map v a = None" "Suc (size (elems (spt v))) < 2 ^ 64"
  shows "\<exists>h. let x = (uninit_new a init VM_ANON aux Anon_initializer)\<lparr>writable := w\<rparr>;
        v' = v\<lparr>mallocs := ps, page_of := (page_of v)(p \<mapsto> x), spt := h\<rparr> in
      vm_alloc_page_with_initializer v VM_ANON a w init aux = Some (True, v') \<and> spt_ok v' \<and> spt_map v' = (spt_map v)(a \<mapsto> p) \<and>
      size (elems h) \<le> Suc (size (elems (spt v)))"
  using vm_alloc_page_ok [OF assms(1-5), where type = VM_ANON and init = init and aux = aux and w = w] assms(6,7) by (simp add: vm_types)

lemma load_segment_loop_ok:
  assumes ops: "file_ops_ok ops contents"
  shows "spt_ok v \<Longrightarrow> mallocs v = concat (map (\<lambda>(x, y). [x, y]) ms) @ rest \<Longrightarrow> new_blocks v ms \<Longrightarrow> pg_ofs a = 0 \<Longrightarrow> a \<noteq> NULL \<Longrightarrow>
    rd + zr = length ms * PGSIZE \<Longrightarrow> (\<forall>b \<in> dom (segment_pages a ms). spt_map v b = None) \<Longrightarrow> size (elems (spt v)) + length ms < 2 ^ 64 \<Longrightarrow>
    contents (fs v) file = bs \<Longrightarrow>
    \<exists>v'. load_segment_loop ops v file off a rd zr w = Some (True, v') \<and> spt_ok v' \<and> spt_map v' = spt_map v ++ segment_pages a ms \<and>
      (\<forall>i < length ms. segment_page contents bs v' off a rd w i (ms ! i)) \<and> keeps v v' (snd ` set ms) (fst ` set ms) \<and>
      (\<forall>g. contents (fs v) g = bs \<longrightarrow> contents (fs v') g = bs)"
proof (induction ms arbitrary: v off a rd zr)
  case Nil
  have "segment_pages a [] = Map.empty" by (simp add: segment_pages_def fun_eq_iff)
  then show ?case using Nil by (subst load_segment_loop.simps) (simp add: keeps_def)
next
  case (Cons ap ms)
  obtain aux p where ap: "ap = (aux, p)" by force
  obtain file' fs' where ro: "file_reopen ops (fs v) file = Some (file', fs')" and ct: "contents fs' file' = bs" "\<And>g. contents (fs v) g = bs \<Longrightarrow> contents fs' g = bs"
    using ops Cons.prems(9) unfolding file_ops_ok_def by metis
  let ?n = "if rd < PGSIZE then rd else PGSIZE"
  let ?fi = "\<lparr>fi_file = file', ofs = off, upage = a, read_bytes = rd, zero_bytes = zr, fi_writable = w, mmap_length = 0\<rparr>"
  let ?v1 = "v\<lparr>mallocs := p # concat (map (\<lambda>(x, y). [x, y]) ms) @ rest, fs := fs', info_of := (info_of v)(aux \<mapsto> ?fi)\<rparr>"
  let ?x = "(uninit_new a Lazy_load_segment VM_ANON aux Anon_initializer)\<lparr>writable := w\<rparr>"
  have v1: "spt_ok ?v1" "spt_map ?v1 = spt_map v" using Cons.prems(1) by (simp_all add: spt_ok_def spt_map_def fun_eq_iff)
  have nb: "aux \<noteq> NULL" "fresh_page v p" "aux \<notin> fst ` set ms" "p \<notin> snd ` set ms" "new_blocks v ms"
    using Cons.prems(3) by (auto simp: new_blocks_def ap)
  have "a \<in> dom (segment_pages a (ap # ms))" by (simp add: ap segment_pages_Cons)
  then have free: "spt_map v a = None" using Cons.prems(7) by blast
  obtain h where h: "vm_alloc_page_with_initializer ?v1 VM_ANON a w Lazy_load_segment aux =
        Some (True, ?v1\<lparr>mallocs := concat (map (\<lambda>(x, y). [x, y]) ms) @ rest, page_of := (page_of v)(p \<mapsto> ?x), spt := h\<rparr>)"
      "spt_ok (?v1\<lparr>mallocs := concat (map (\<lambda>(x, y). [x, y]) ms) @ rest, page_of := (page_of v)(p \<mapsto> ?x), spt := h\<rparr>)"
      "spt_map (?v1\<lparr>mallocs := concat (map (\<lambda>(x, y). [x, y]) ms) @ rest, page_of := (page_of v)(p \<mapsto> ?x), spt := h\<rparr>) = (spt_map v)(a \<mapsto> p)"
      "size (elems h) \<le> Suc (size (elems (spt v)))"
    using alloc_step [OF v1(1), where p = p and ps = "concat (map (\<lambda>(x, y). [x, y]) ms) @ rest" and a = a and
        init = Lazy_load_segment and aux = aux and w = w] nb(2) Cons.prems(4,5,8) free v1(2)
    by (auto simp: Let_def fresh_page_def)
  let ?v2 = "?v1\<lparr>mallocs := concat (map (\<lambda>(x, y). [x, y]) ms) @ rest, page_of := (page_of v)(p \<mapsto> ?x), spt := h\<rparr>"
  have pos: "0 < rd \<or> 0 < zr" and pg: "rd + zr = PGSIZE + length ms * PGSIZE" using Cons.prems(6) by (auto simp: PGSIZE_val)
  have run: "load_segment_loop ops v file off a rd zr w =
      load_segment_loop ops ?v2 file (off + ?n) (a + PGSIZE) (rd - ?n) (zr - (PGSIZE - ?n)) w"
    using pos Cons.prems(2) nb(1) h(1) ro
    by (subst load_segment_loop.simps) (simp add: next_malloc_def ap Let_def)
  have nb2: "new_blocks ?v2 ms" using nb(4,5) by (auto simp: new_blocks_def fresh_page_def image_iff)
  have free2: "\<forall>b \<in> dom (segment_pages (a + PGSIZE) ms). spt_map ?v2 b = None"
    unfolding h(3) using Cons.prems(7) by (auto simp: ap segment_pages_Cons) (simp add: segment_pages_def PGSIZE_val split: if_splits)
  have "rd - ?n + (zr - (PGSIZE - ?n)) = length ms * PGSIZE" using pg by auto
  from Cons.IH [OF h(2) _ nb2 _ _ this free2, of "off + ?n"] Cons.prems(4,8) h(4) ct(2) [OF Cons.prems(9)]
  obtain v' where v': "load_segment_loop ops ?v2 file (off + ?n) (a + PGSIZE) (rd - ?n) (zr - (PGSIZE - ?n)) w = Some (True, v')"
      "spt_ok v'" "spt_map v' = spt_map ?v2 ++ segment_pages (a + PGSIZE) ms"
      "\<And>i. i < length ms \<Longrightarrow> segment_page contents bs v' (off + ?n) (a + PGSIZE) (rd - ?n) w i (ms ! i)"
      "keeps ?v2 v' (snd ` set ms) (fst ` set ms)" "\<And>g. contents fs' g = bs \<Longrightarrow> contents (fs v') g = bs"
    by (auto simp: pg_ofs_def PGSIZE_val)
  have here: "page_of v' p = Some ?x" "info_of v' aux = Some ?fi" using v'(5) nb(3,4) by (simp_all add: keeps_def)
  have "segment_page contents bs v' off a rd w i ((ap # ms) ! i)" if "i < Suc (length ms)" for i
  proof (cases i)
    case 0
    then show ?thesis using here v'(6) [OF ct(1)] by (simp add: segment_page_def ap)
  next
    case (Suc j)
    have "off + ?n + min (j * PGSIZE) (rd - ?n) = off + min (Suc j * PGSIZE) rd" "rd - ?n - j * PGSIZE = rd - Suc j * PGSIZE" by auto
    then show ?thesis using v'(4) [of j] that unfolding segment_page_def Suc by (simp add: add.assoc)
  qed
  moreover have "spt_map v' = spt_map v ++ segment_pages a (ap # ms)"
    unfolding v'(3) h(3) ap segment_pages_Cons
    by (rule ext) (simp add: map_add_def segment_pages_def PGSIZE_val split: option.splits)
  moreover have "keeps v v' (snd ` set (ap # ms)) (fst ` set (ap # ms))"
    using v'(5) by (simp add: keeps_def ap)
  ultimately show ?case using run v'(1,2,6) ct(2) by auto
qed

text \<open>Faulting in page \<open>i\<close> of a segment.\<close>

lemma segment_page_faults:
  assumes ops: "file_ops_ok ops contents" and pg: "segment_page contents bs v' off a rd w i (aux, p)" and p: "p \<noteq> NULL"
    and len: "off + rd \<le> length bs" "length bs < 2 ^ 64"
    and v: "page_of v p = map_option (page_frame_update (\<lambda>_. fr)) (page_of v' p)" "frame_of v fr = Some f" "info_of v = info_of v'" "fs v = fs v'"
  shows "\<exists>v3. swap_in ops v p (kva f) = Some (True, v3) \<and>
    (\<forall>k < PGSIZE. page_bytes (mem v3) (kva f) k = segment_byte bs off rd (i * PGSIZE + k))"
proof -
  obtain x fi where x: "page_of v p = Some x" "page_frame x = fr" "operations x = VM_UNINIT"
      "page_data x = Uninit Lazy_load_segment VM_ANON aux Anon_initializer"
    and fi: "info_of v aux = Some fi" "ofs fi = off + min (i * PGSIZE) rd" "read_bytes fi = rd - i * PGSIZE" "contents (fs v) (fi_file fi) = bs"
    using pg v by (auto simp: segment_page_def uninit_new_def)
  let ?y = "x\<lparr>operations := VM_ANON, page_data := Anon (-1)\<rparr>"
  let ?v = "v\<lparr>page_of := (page_of v)(p \<mapsto> ?y)\<rparr>"
  have init: "anon_initializer v p = Some (True, ?v)" using x(1) p by (simp add: anon_initializer_def upd_page_def)
  from lazy_load_segment_ok [OF ops, of ?v aux fi off i rd bs p ?y f] fi len x(2) v(2) obtain m fs' where
    m: "lazy_load_segment ops ?v p aux = Some (True, ?v\<lparr>fs := fs', mem := m\<rparr>)"
      "\<forall>k < PGSIZE. page_bytes m (kva f) k = segment_byte bs off rd (i * PGSIZE + k)" by auto
  have "swap_in ops v p (kva f) = Some (True, ?v\<lparr>fs := fs', mem := m\<rparr>)"
    using x init m(1) by (simp add: swap_in_def uninit_initialize_def)
  with m(2) show ?thesis by (intro exI [of _ "?v\<lparr>fs := fs', mem := m\<rparr>"]) simp
qed

section \<open>Properties\<close>

text \<open>C34: Refinement.  On a well-formed supplemental page table, \<open>spt_find_page\<close>, \<open>spt_insert_page\<close> and \<open>spt_remove_page\<close> are lookup,
  insertion of an absent key and deletion in a finite map from page addresses to pages; insertion of a page whose
  address is present fails and changes nothing, and every operation returns and keeps the table well-formed.\<close>

theorem spt_refines_map:
  assumes inv: "spt_ok v" and p: "p \<noteq> NULL" "p \<noteq> TEMP" "page_of v p = Some x" and room: "Suc (size (elems (spt v))) < 2 ^ 64"
  shows "spt_find_page v a = Some (if a = NULL then NULL else case spt_map v (pg_round_down a) of None \<Rightarrow> NULL | Some e \<Rightarrow> e) \<and>
    (\<exists>v'. spt_insert_page v p = Some (spt_map v (va x) = None, v') \<and> spt_ok v' \<and>
      spt_map v' = (if spt_map v (va x) = None then (spt_map v)(va x \<mapsto> p) else spt_map v)) \<and>
    (\<exists>v'. spt_remove_page v p = Some v' \<and> spt_ok v' \<and> spt_map v' = (spt_map v)(va x := None))"
  using spt_find_page_ok [OF inv, of a] spt_insert_page_ok [OF inv p room] spt_remove_page_ok [OF inv p(1,3)] by blast


text \<open>A file system of one file.\<close>

definition demo_ops :: "8 word list file_ops" where
  "demo_ops = \<lparr>file_read_at = (\<lambda>s f n off. Some (take n (drop off s), s)), file_write_at = (\<lambda>s f bs off. Some (take off s @ bs @ drop (off + length bs) s)),
     file_length = (\<lambda>s f. Some (length s)), file_reopen = (\<lambda>s f. Some (f, s)), file_close = (\<lambda>s f. Some s)\<rparr>"

lemma demo_ops_ok: "file_ops_ok demo_ops (\<lambda>s f. s)"
  by (simp add: file_ops_ok_def demo_ops_def)

lemma demo_vm_spt: "spt_ok (demo_vm files slots)" "spt_map (demo_vm files slots) = Map.empty" "elems (spt (demo_vm files slots)) = {#}"
proof -
  have e: "elems (spt (demo_vm files slots)) = {#}" by (simp add: demo_vm_def elems_def)
  have "shape (spt_on (page_of (demo_vm files slots)) (spt (demo_vm files slots)))"
    by (auto simp: shape_def demo_vm_def spt_on_def nth_Cons split: nat.splits intro!: exI [of _ 2])
  then show "spt_ok (demo_vm files slots)" using keyed_spt_on
    by (simp add: spt_ok_def hash_inv_elems e) (simp add: demo_vm_def)
  show "spt_map (demo_vm files slots) = Map.empty" by (simp add: spt_map_def demo_vm_def fun_eq_iff)
qed (simp add: demo_vm_def elems_def)

theorem spt_refines_map_witness:
  "\<exists>v'. spt_insert_page (demo_vm () demo_bitmap) 16 = Some (True, v') \<and> spt_map v' = [0x400000 \<mapsto> 16]"
proof -
  have x: "page_of (demo_vm () demo_bitmap) 16 = Some \<lparr>operations = VM_ANON, va = 0x400000, page_frame = 32, writable = True, page_data = Anon (-1)\<rparr>"
    by (simp add: demo_vm_def)
  show ?thesis using spt_refines_map [OF demo_vm_spt(1) _ _ x] by (auto simp: demo_vm_spt(2,3) TEMP_def)
qed


end
