(* ===== verification/Inode.thy ===== *)
theory Inode
  imports Bitmap_Correct
begin

text \<open>
  Inodes, files and the free map: \<open>filesys/inode.c\<close>, \<open>filesys/file.c\<close> and \<open>filesys/free-map.c\<close>, over a disk of
  512-byte sectors.  In-memory \<open>struct inode\<close> and \<open>struct file\<close> objects are on heaps of their own; the list of
  open inodes is the sequence of its elements.  \<open>mallocs\<close> lists the blocks that \<open>malloc\<close> and \<open>calloc\<close> will
  return; when it is exhausted they return null.  A size or offset is an \<open>off_t\<close> that is not negative (a
  negative size moves nothing, as 0 does, and \<open>file_seek\<close> refuses negative positions); data moved through a
  buffer is the list of its bytes.
\<close>

section \<open>State\<close>

definition DISK_SECTOR_SIZE :: nat where "DISK_SECTOR_SIZE = 512"
definition INODE_MAGIC :: nat where "INODE_MAGIC = 0x494e4f44"
definition FREE_MAP_SECTOR :: nat where "FREE_MAP_SECTOR = 0"
definition ROOT_DIR_SECTOR :: nat where "ROOT_DIR_SECTOR = 1"

record inode_disk =
  start :: nat
  length_of :: nat
  magic :: nat

record inode =
  sector :: nat
  open_cnt :: int
  removed :: bool
  deny_write_cnt :: int
  data :: inode_disk

record open_file =
  file_inode :: ptr
  pos :: nat
  deny_write :: bool
  dup_count :: int
  mapping_cnt :: int

record dir =
  dir_inode :: ptr
  dir_pos :: nat

record fsys =
  disk :: "nat \<Rightarrow> 8 word list"
  disk_size :: nat
  free_map :: bitmap
  free_map_file :: ptr
  open_inodes :: "ptr list"
  inode_at :: "ptr \<rightharpoonup> inode"
  file_at :: "ptr \<rightharpoonup> open_file"
  dir_at :: "ptr \<rightharpoonup> dir"
  mallocs :: "ptr list"

definition alloc_block :: "fsys \<Rightarrow> ptr \<times> fsys" where
  "alloc_block s = (case mallocs s of [] \<Rightarrow> (NULL, s) | p # ps \<Rightarrow> (p, s\<lparr>mallocs := ps\<rparr>))"

definition upd_inode :: "fsys \<Rightarrow> ptr \<Rightarrow> (inode \<Rightarrow> inode) \<Rightarrow> fsys option" where
  "upd_inode s p f = do { i \<leftarrow> inode_at s p; Some (s\<lparr>inode_at := (inode_at s)(p \<mapsto> f i)\<rparr>) }"

definition upd_file :: "fsys \<Rightarrow> ptr \<Rightarrow> (open_file \<Rightarrow> open_file) \<Rightarrow> fsys option" where
  "upd_file s p f = do { x \<leftarrow> file_at s p; Some (s\<lparr>file_at := (file_at s)(p \<mapsto> f x)\<rparr>) }"

section \<open>The disk\<close>

text \<open>\<open>disk_read\<close> and \<open>disk_write\<close> stop the kernel on a sector beyond the capacity of the disk.\<close>

definition disk_read :: "fsys \<Rightarrow> nat \<Rightarrow> 8 word list option" where
  "disk_read s sec_no = do { ASSERT (sec_no < disk_size s); Some (disk s sec_no) }"

definition disk_write :: "fsys \<Rightarrow> nat \<Rightarrow> 8 word list \<Rightarrow> fsys option" where
  "disk_write s sec_no buffer = do { ASSERT (sec_no < disk_size s); Some (s\<lparr>disk := (disk s)(sec_no := buffer)\<rparr>) }"

text \<open>The layout of the on-disk inode: three little-endian 32-bit numbers and 125 unused ones.\<close>

definition le32 :: "nat \<Rightarrow> 8 word list" where
  "le32 n = map (\<lambda>i. of_nat (n div 256 ^ i)) [0..<4]"

definition from_le32 :: "8 word list \<Rightarrow> nat" where
  "from_le32 bs = foldr (\<lambda>b n. unat b + 256 * n) (take 4 bs) 0"

definition encode_inode :: "inode_disk \<Rightarrow> 8 word list" where
  "encode_inode d = le32 (start d) @ le32 (length_of d) @ le32 (magic d) @ replicate 500 0"

definition decode_inode :: "8 word list \<Rightarrow> inode_disk" where
  "decode_inode bs = \<lparr>start = from_le32 bs, length_of = from_le32 (drop 4 bs), magic = from_le32 (drop 8 bs)\<rparr>"

section \<open>Reading and writing inodes\<close>

definition bytes_to_sectors :: "nat \<Rightarrow> nat" where
  "bytes_to_sectors sz = (sz + DISK_SECTOR_SIZE - 1) div DISK_SECTOR_SIZE"

text \<open>Sector numbers are unsigned 32-bit; \<open>-1\<close> is the largest.\<close>

definition byte_to_sector :: "inode \<Rightarrow> nat \<Rightarrow> nat" where
  "byte_to_sector i p =
     (if p < length_of (data i) then (start (data i) + p div DISK_SECTOR_SIZE) mod 2 ^ 32 else 2 ^ 32 - 1)"

definition inode_length :: "fsys \<Rightarrow> ptr \<Rightarrow> nat option" where
  "inode_length s p = map_option (\<lambda>i. length_of (data i)) (inode_at s p)"

text \<open>The number of bytes that one iteration moves; 0 ends the loop.\<close>

definition chunk :: "inode \<Rightarrow> nat \<Rightarrow> nat \<Rightarrow> nat" where
  "chunk i sz offset =
     (let inode_left = length_of (data i) - offset;
          sector_left = DISK_SECTOR_SIZE - offset mod DISK_SECTOR_SIZE;
          min_left = (if inode_left < sector_left then inode_left else sector_left)
      in if sz < min_left then sz else min_left)"

text \<open>The bounce buffer is allocated at most once per call: \<open>bounce\<close> says that it has been.\<close>

definition get_bounce :: "fsys \<Rightarrow> bool \<Rightarrow> bool \<times> fsys" where
  "get_bounce s bounce = (if bounce then (True, s) else let (p, s) = alloc_block s in (p \<noteq> NULL, s))"

function read_loop :: "fsys \<Rightarrow> inode \<Rightarrow> nat \<Rightarrow> nat \<Rightarrow> bool \<Rightarrow> 8 word list \<Rightarrow> (8 word list \<times> fsys) option" where
  "read_loop s i sz offset bounce buffer =
     (if sz > 0 then do {
        let sector_idx = byte_to_sector i offset;
        let sector_ofs = offset mod DISK_SECTOR_SIZE;
        let chunk_size = chunk i sz offset;
        if chunk_size = 0 then Some (buffer, s)
        else if sector_ofs = 0 \<and> chunk_size = DISK_SECTOR_SIZE then do {
          bs \<leftarrow> disk_read s sector_idx;
          read_loop s i (sz - chunk_size) (offset + chunk_size) bounce (buffer @ bs) }
        else do {
          let (ok, s) = get_bounce s bounce;
          if \<not> ok then Some (buffer, s)
          else do {
            bs \<leftarrow> disk_read s sector_idx;
            read_loop s i (sz - chunk_size) (offset + chunk_size) True (buffer @ take chunk_size (drop sector_ofs bs)) } } }
      else Some (buffer, s))"
  by pat_completeness auto
termination by (relation "measure (\<lambda>(s, i, sz, _). sz)") (auto simp: Let_def)

declare read_loop.simps [simp del]

text \<open>The result is what was read; its length is the number of bytes that \<open>inode_read_at\<close> returns.\<close>

definition inode_read_at :: "fsys \<Rightarrow> ptr \<Rightarrow> nat \<Rightarrow> nat \<Rightarrow> (8 word list \<times> fsys) option" where
  "inode_read_at s p sz offset = do {
     i \<leftarrow> inode_at s p;
     read_loop s i sz offset False [] }"

function write_loop :: "fsys \<Rightarrow> inode \<Rightarrow> 8 word list \<Rightarrow> nat \<Rightarrow> bool \<Rightarrow> nat \<Rightarrow> (nat \<times> fsys) option" where
  "write_loop s i buffer offset bounce bytes_written =
     (if buffer \<noteq> [] then do {
        let sector_idx = byte_to_sector i offset;
        let sector_ofs = offset mod DISK_SECTOR_SIZE;
        let sector_left = DISK_SECTOR_SIZE - sector_ofs;
        let chunk_size = chunk i (length buffer) offset;
        if chunk_size = 0 then Some (bytes_written, s)
        else if sector_ofs = 0 \<and> chunk_size = DISK_SECTOR_SIZE then do {
          s \<leftarrow> disk_write s sector_idx (take chunk_size buffer);
          write_loop s i (drop chunk_size buffer) (offset + chunk_size) bounce (bytes_written + chunk_size) }
        else do {
          let (ok, s) = get_bounce s bounce;
          if \<not> ok then Some (bytes_written, s)
          else do {
            bs \<leftarrow> (if sector_ofs > 0 \<or> chunk_size < sector_left then disk_read s sector_idx else Some (replicate DISK_SECTOR_SIZE 0));
            s \<leftarrow> disk_write s sector_idx (take sector_ofs bs @ take chunk_size buffer @ drop (sector_ofs + chunk_size) bs);
            write_loop s i (drop chunk_size buffer) (offset + chunk_size) True (bytes_written + chunk_size) } } }
      else Some (bytes_written, s))"
  by pat_completeness auto
termination by (relation "measure (\<lambda>(s, i, buffer, _). length buffer)") (auto simp: Let_def)

declare write_loop.simps [simp del]

definition inode_write_at :: "fsys \<Rightarrow> ptr \<Rightarrow> 8 word list \<Rightarrow> nat \<Rightarrow> (nat \<times> fsys) option" where
  "inode_write_at s p buffer offset = do {
     i \<leftarrow> inode_at s p;
     if deny_write_cnt i \<noteq> 0 then Some (0, s)
     else write_loop s i buffer offset False 0 }"

section \<open>Reading and writing files\<close>

definition file_read :: "fsys \<Rightarrow> ptr \<Rightarrow> nat \<Rightarrow> (8 word list \<times> fsys) option" where
  "file_read s f sz = do {
     x \<leftarrow> file_at s f;
     (bs, s) \<leftarrow> inode_read_at s (file_inode x) sz (pos x);
     s \<leftarrow> upd_file s f (\<lambda>x. x\<lparr>pos := pos x + length bs\<rparr>);
     Some (bs, s) }"

definition file_read_at :: "fsys \<Rightarrow> ptr \<Rightarrow> nat \<Rightarrow> nat \<Rightarrow> (8 word list \<times> fsys) option" where
  "file_read_at s f sz file_ofs = do {
     x \<leftarrow> file_at s f;
     inode_read_at s (file_inode x) sz file_ofs }"

definition file_write :: "fsys \<Rightarrow> ptr \<Rightarrow> 8 word list \<Rightarrow> (nat \<times> fsys) option" where
  "file_write s f buffer = do {
     x \<leftarrow> file_at s f;
     (n, s) \<leftarrow> inode_write_at s (file_inode x) buffer (pos x);
     s \<leftarrow> upd_file s f (\<lambda>x. x\<lparr>pos := pos x + n\<rparr>);
     Some (n, s) }"

definition file_write_at :: "fsys \<Rightarrow> ptr \<Rightarrow> 8 word list \<Rightarrow> nat \<Rightarrow> (nat \<times> fsys) option" where
  "file_write_at s f buffer file_ofs = do {
     x \<leftarrow> file_at s f;
     inode_write_at s (file_inode x) buffer file_ofs }"

section \<open>The free map\<close>

text \<open>\<open>bitmap_write\<close> and \<open>bitmap_read\<close> on an open file.\<close>

definition store_bitmap :: "fsys \<Rightarrow> bitmap \<Rightarrow> ptr \<Rightarrow> (bool \<times> fsys) option" where
  "store_bitmap s b f = do {
     let sz = byte_cnt (bit_cnt b);
     (n, s) \<leftarrow> file_write_at s f (take sz (concat (map word_bytes (bits b)))) 0;
     Some (n = sz, s) }"

definition load_bitmap :: "fsys \<Rightarrow> bitmap \<Rightarrow> ptr \<Rightarrow> ((bool \<times> bitmap) \<times> fsys) option" where
  "load_bitmap s b f =
     (if bit_cnt b > 0 then do {
        (bs, s) \<leftarrow> file_read_at s f (byte_cnt (bit_cnt b)) 0;
        r \<leftarrow> bitmap_read (\<lambda>sz ofs. bs) b;
        Some (r, s) }
      else Some ((True, b), s))"

definition free_map_init :: "fsys \<Rightarrow> bool \<Rightarrow> 64 word list option \<Rightarrow> fsys option" where
  "free_map_init s malloc_b malloc_bits = do {
     b \<leftarrow> bitmap_create malloc_b malloc_bits (disk_size s);
     case b of
       None \<Rightarrow> None
     | Some b \<Rightarrow> do {
         b \<leftarrow> bitmap_mark b FREE_MAP_SECTOR;
         b \<leftarrow> bitmap_mark b ROOT_DIR_SECTOR;
         Some (s\<lparr>free_map := b\<rparr>) } }"

text \<open>\<open>None\<close> inside the result stands for the value false.\<close>

definition free_map_allocate :: "fsys \<Rightarrow> nat \<Rightarrow> (nat option \<times> fsys) option" where
  "free_map_allocate s cnt = do {
     (r, b) \<leftarrow> bitmap_scan_and_flip (free_map s) 0 cnt False;
     let s = s\<lparr>free_map := b\<rparr>;
     let sec = r mod 2 ^ 32;
     if sec \<noteq> BITMAP_ERROR \<and> free_map_file s \<noteq> NULL then do {
       (ok, s) \<leftarrow> store_bitmap s (free_map s) (free_map_file s);
       if ok then Some (Some sec, s)
       else do {
         b \<leftarrow> bitmap_set_multiple (free_map s) sec cnt False;
         Some (None, s\<lparr>free_map := b\<rparr>) } }
     else Some (if sec \<noteq> BITMAP_ERROR then Some sec else None, s) }"

definition free_map_release :: "fsys \<Rightarrow> nat \<Rightarrow> nat \<Rightarrow> fsys option" where
  "free_map_release s sec cnt = do {
     all \<leftarrow> bitmap_all (free_map s) sec cnt;
     ASSERT all;
     b \<leftarrow> bitmap_set_multiple (free_map s) sec cnt False;
     let s = s\<lparr>free_map := b\<rparr>;
     (_, s) \<leftarrow> store_bitmap s (free_map s) (free_map_file s);
     Some s }"

section \<open>Creating, opening and closing inodes\<close>

definition inode_init :: "fsys \<Rightarrow> fsys" where
  "inode_init s = s\<lparr>open_inodes := []\<rparr>"

fun write_zeros :: "fsys \<Rightarrow> nat \<Rightarrow> nat \<Rightarrow> fsys option" where
  "write_zeros s sec 0 = Some s"
| "write_zeros s sec (Suc k) = do {
     s \<leftarrow> disk_write s sec (replicate DISK_SECTOR_SIZE 0);
     write_zeros s (Suc sec) k }"

definition inode_create :: "fsys \<Rightarrow> nat \<Rightarrow> int \<Rightarrow> (bool \<times> fsys) option" where
  "inode_create s sec len = do {
     ASSERT (len \<ge> 0);
     let (p, s) = alloc_block s;
     if p \<noteq> NULL then do {
       let sectors = bytes_to_sectors (nat len);
       (r, s) \<leftarrow> free_map_allocate s sectors;
       case r of
         None \<Rightarrow> Some (False, s)
       | Some st \<Rightarrow> do {
           s \<leftarrow> disk_write s sec (encode_inode \<lparr>start = st, length_of = nat len, magic = INODE_MAGIC\<rparr>);
           s \<leftarrow> write_zeros s st sectors;
           Some (True, s) } }
     else Some (False, s) }"

definition inode_reopen :: "fsys \<Rightarrow> ptr \<Rightarrow> (ptr \<times> fsys) option" where
  "inode_reopen s p =
     (if p \<noteq> NULL then do { s \<leftarrow> upd_inode s p (\<lambda>i. i\<lparr>open_cnt := open_cnt i + 1\<rparr>); Some (p, s) }
      else Some (p, s))"

fun find_open :: "fsys \<Rightarrow> ptr list \<Rightarrow> nat \<Rightarrow> ptr option option" where
  "find_open s [] sec = Some None"
| "find_open s (p # ps) sec = do {
     i \<leftarrow> inode_at s p;
     if sector i = sec then Some (Some p) else find_open s ps sec }"

definition inode_open :: "fsys \<Rightarrow> nat \<Rightarrow> (ptr \<times> fsys) option" where
  "inode_open s sec = do {
     r \<leftarrow> find_open s (open_inodes s) sec;
     case r of
       Some p \<Rightarrow> inode_reopen s p
     | None \<Rightarrow> do {
         let (p, s) = alloc_block s;
         if p = NULL then Some (NULL, s)
         else do {
           bs \<leftarrow> disk_read s sec;
           Some (p, s\<lparr>open_inodes := p # open_inodes s,
             inode_at := (inode_at s)(p \<mapsto> \<lparr>sector = sec, open_cnt = 1, removed = False, deny_write_cnt = 0, data = decode_inode bs\<rparr>)\<rparr>) } } }"

definition inode_get_inumber :: "fsys \<Rightarrow> ptr \<Rightarrow> nat option" where
  "inode_get_inumber s p = map_option sector (inode_at s p)"

definition inode_close :: "fsys \<Rightarrow> ptr \<Rightarrow> fsys option" where
  "inode_close s p =
     (if p = NULL then Some s
      else do {
        s \<leftarrow> upd_inode s p (\<lambda>i. i\<lparr>open_cnt := open_cnt i - 1\<rparr>);
        i \<leftarrow> inode_at s p;
        if open_cnt i = 0 then do {
          let s = s\<lparr>open_inodes := remove1 p (open_inodes s)\<rparr>;
          s \<leftarrow> (if removed i then do {
                  s \<leftarrow> free_map_release s (sector i) 1;
                  free_map_release s (start (data i)) (bytes_to_sectors (length_of (data i))) }
                else Some s);
          Some (s\<lparr>inode_at := (inode_at s)(p := None)\<rparr>) }
        else Some s })"

definition inode_remove :: "fsys \<Rightarrow> ptr \<Rightarrow> fsys option" where
  "inode_remove s p = do { ASSERT (p \<noteq> NULL); upd_inode s p (\<lambda>i. i\<lparr>removed := True\<rparr>) }"

definition inode_deny_write :: "fsys \<Rightarrow> ptr \<Rightarrow> fsys option" where
  "inode_deny_write s p = do {
     s \<leftarrow> upd_inode s p (\<lambda>i. i\<lparr>deny_write_cnt := deny_write_cnt i + 1\<rparr>);
     i \<leftarrow> inode_at s p;
     ASSERT (deny_write_cnt i \<le> open_cnt i);
     Some s }"

definition inode_allow_write :: "fsys \<Rightarrow> ptr \<Rightarrow> fsys option" where
  "inode_allow_write s p = do {
     i \<leftarrow> inode_at s p;
     ASSERT (deny_write_cnt i > 0);
     ASSERT (deny_write_cnt i \<le> open_cnt i);
     upd_inode s p (\<lambda>i. i\<lparr>deny_write_cnt := deny_write_cnt i - 1\<rparr>) }"

section \<open>Opening and closing files\<close>

definition file_open :: "fsys \<Rightarrow> ptr \<Rightarrow> (ptr \<times> fsys) option" where
  "file_open s p = do {
     let (f, s) = alloc_block s;
     if p \<noteq> NULL \<and> f \<noteq> NULL then
       Some (f, s\<lparr>file_at := (file_at s)(f \<mapsto> \<lparr>file_inode = p, pos = 0, deny_write = False, dup_count = 1, mapping_cnt = 0\<rparr>)\<rparr>)
     else do { s \<leftarrow> inode_close s p; Some (NULL, s) } }"

definition file_deny_write :: "fsys \<Rightarrow> ptr \<Rightarrow> fsys option" where
  "file_deny_write s f = do {
     ASSERT (f \<noteq> NULL);
     x \<leftarrow> file_at s f;
     if \<not> deny_write x then do {
       s \<leftarrow> upd_file s f (\<lambda>x. x\<lparr>deny_write := True\<rparr>);
       inode_deny_write s (file_inode x) }
     else Some s }"

definition file_allow_write :: "fsys \<Rightarrow> ptr \<Rightarrow> fsys option" where
  "file_allow_write s f = do {
     ASSERT (f \<noteq> NULL);
     x \<leftarrow> file_at s f;
     if deny_write x then do {
       s \<leftarrow> upd_file s f (\<lambda>x. x\<lparr>deny_write := False\<rparr>);
       inode_allow_write s (file_inode x) }
     else Some s }"

definition file_reopen :: "fsys \<Rightarrow> ptr \<Rightarrow> (ptr \<times> fsys) option" where
  "file_reopen s f = do {
     x \<leftarrow> file_at s f;
     (p, s) \<leftarrow> inode_reopen s (file_inode x);
     file_open s p }"

definition file_duplicate :: "fsys \<Rightarrow> ptr \<Rightarrow> (ptr \<times> fsys) option" where
  "file_duplicate s f = do {
     x \<leftarrow> file_at s f;
     (p, s) \<leftarrow> inode_reopen s (file_inode x);
     (nfile, s) \<leftarrow> file_open s p;
     if nfile \<noteq> NULL then do {
       s \<leftarrow> upd_file s nfile (\<lambda>y. y\<lparr>pos := pos x\<rparr>);
       s \<leftarrow> (if deny_write x then file_deny_write s nfile else Some s);
       Some (nfile, s) }
     else Some (nfile, s) }"

definition file_close :: "fsys \<Rightarrow> ptr \<Rightarrow> fsys option" where
  "file_close s f =
     (if f \<noteq> NULL then do {
        s \<leftarrow> file_allow_write s f;
        x \<leftarrow> file_at s f;
        s \<leftarrow> inode_close s (file_inode x);
        Some (s\<lparr>file_at := (file_at s)(f := None)\<rparr>) }
      else Some s)"

definition file_get_inode :: "fsys \<Rightarrow> ptr \<Rightarrow> ptr option" where
  "file_get_inode s f = map_option file_inode (file_at s f)"

definition file_length :: "fsys \<Rightarrow> ptr \<Rightarrow> nat option" where
  "file_length s f = do { ASSERT (f \<noteq> NULL); x \<leftarrow> file_at s f; inode_length s (file_inode x) }"

definition file_seek :: "fsys \<Rightarrow> ptr \<Rightarrow> int \<Rightarrow> fsys option" where
  "file_seek s f new_pos = do {
     ASSERT (f \<noteq> NULL);
     ASSERT (new_pos \<ge> 0);
     upd_file s f (\<lambda>x. x\<lparr>pos := nat new_pos\<rparr>) }"

definition file_tell :: "fsys \<Rightarrow> ptr \<Rightarrow> nat option" where
  "file_tell s f = do { ASSERT (f \<noteq> NULL); map_option pos (file_at s f) }"

definition increase_dup_count :: "fsys \<Rightarrow> ptr \<Rightarrow> fsys option" where
  "increase_dup_count s f = upd_file s f (\<lambda>x. x\<lparr>dup_count := dup_count x + 1\<rparr>)"

definition decrease_dup_count :: "fsys \<Rightarrow> ptr \<Rightarrow> fsys option" where
  "decrease_dup_count s f = upd_file s f (\<lambda>x. x\<lparr>dup_count := dup_count x - 1\<rparr>)"

definition check_dup_count :: "fsys \<Rightarrow> ptr \<Rightarrow> int option" where
  "check_dup_count s f = map_option dup_count (file_at s f)"

definition increase_mapping_count :: "fsys \<Rightarrow> ptr \<Rightarrow> fsys option" where
  "increase_mapping_count s f = upd_file s f (\<lambda>x. x\<lparr>mapping_cnt := mapping_cnt x + 1\<rparr>)"

definition decrease_mapping_count :: "fsys \<Rightarrow> ptr \<Rightarrow> fsys option" where
  "decrease_mapping_count s f = upd_file s f (\<lambda>x. x\<lparr>mapping_cnt := mapping_cnt x - 1\<rparr>)"

definition check_mapping_count :: "fsys \<Rightarrow> ptr \<Rightarrow> int option" where
  "check_mapping_count s f = map_option mapping_cnt (file_at s f)"

section \<open>The free map on disk\<close>

definition free_map_open :: "fsys \<Rightarrow> fsys option" where
  "free_map_open s = do {
     (p, s) \<leftarrow> inode_open s FREE_MAP_SECTOR;
     (f, s) \<leftarrow> file_open s p;
     let s = s\<lparr>free_map_file := f\<rparr>;
     ASSERT (f \<noteq> NULL);
     ((ok, b), s) \<leftarrow> load_bitmap s (free_map s) f;
     ASSERT ok;
     Some (s\<lparr>free_map := b\<rparr>) }"

definition free_map_close :: "fsys \<Rightarrow> fsys option" where
  "free_map_close s = file_close s (free_map_file s)"

definition free_map_create :: "fsys \<Rightarrow> fsys option" where
  "free_map_create s = do {
     (ok, s) \<leftarrow> inode_create s FREE_MAP_SECTOR (int (bitmap_file_size (free_map s)));
     ASSERT ok;
     (p, s) \<leftarrow> inode_open s FREE_MAP_SECTOR;
     (f, s) \<leftarrow> file_open s p;
     let s = s\<lparr>free_map_file := f\<rparr>;
     ASSERT (f \<noteq> NULL);
     (ok, s) \<leftarrow> store_bitmap s (free_map s) f;
     ASSERT ok;
     Some s }"

end
