(* ===== verification/Directory.thy ===== *)
theory Directory
  imports Inode C_Integers
begin

text \<open>
  Directories and the file system proper: \<open>filesys/directory.c\<close> and the configuration of \<open>filesys/filesys.c\<close> that keeps
  a free map (not the file allocation table).  A file name is the list of the bytes before its terminating null byte,
  or \<open>None\<close> for a null pointer.  The local variable \<open>e\<close> of \<open>dir_add\<close> is not initialised; its value is the argument
  \<open>junk\<close>.
\<close>

section \<open>Directory entries\<close>

definition NAME_MAX :: nat where "NAME_MAX = 14"

record dir_entry =
  inode_sector :: nat
  entry_name :: "8 word list"
  in_use :: bool

definition ENTRY_SIZE :: nat where "ENTRY_SIZE = 4 + (NAME_MAX + 1) + 1"

definition encode_entry :: "dir_entry \<Rightarrow> 8 word list" where
  "encode_entry e = le32 (inode_sector e) @ entry_name e @ [of_bool (in_use e)]"

definition decode_entry :: "8 word list \<Rightarrow> dir_entry" where
  "decode_entry bs = \<lparr>inode_sector = from_le32 bs, entry_name = take (NAME_MAX + 1) (drop 4 bs), in_use = (bs ! (4 + (NAME_MAX + 1)) \<noteq> 0)\<rparr>"

text \<open>\<open>!strcmp (name, e.name)\<close>, which reads \<open>e.name\<close> up to the first difference or null byte; running past the array is an
  error.\<close>

fun same_name :: "8 word list \<Rightarrow> 8 word list \<Rightarrow> bool option" where
  "same_name name [] = None"
| "same_name [] (b # bs) = Some (b = 0)"
| "same_name (c # cs) (b # bs) = (if c = b then same_name cs bs else Some False)"

text \<open>\<open>strlcpy (dst, src, sizeof dst)\<close> for an array: the bytes after the null byte keep their values.\<close>

definition set_name :: "8 word list \<Rightarrow> 8 word list \<Rightarrow> 8 word list" where
  "set_name dst src = (let src_len = length src; dst_len = (if length dst - 1 < src_len then length dst - 1 else src_len)
     in take dst_len src @ 0 # drop (dst_len + 1) dst)"

section \<open>Opening and closing directories\<close>

definition dir_create :: "fsys \<Rightarrow> nat \<Rightarrow> nat \<Rightarrow> (bool \<times> fsys) option" where
  "dir_create s sec entry_cnt = inode_create s sec (int32 (int (entry_cnt * ENTRY_SIZE)))"

definition dir_open :: "fsys \<Rightarrow> ptr \<Rightarrow> (ptr \<times> fsys) option" where
  "dir_open s p = do {
     let (d, s) = alloc_block s;
     if p \<noteq> NULL \<and> d \<noteq> NULL then Some (d, s\<lparr>dir_at := (dir_at s)(d \<mapsto> \<lparr>dir_inode = p, dir_pos = 0\<rparr>)\<rparr>)
     else do { s \<leftarrow> inode_close s p; Some (NULL, s) } }"

definition dir_open_root :: "fsys \<Rightarrow> (ptr \<times> fsys) option" where
  "dir_open_root s = do { (p, s) \<leftarrow> inode_open s ROOT_DIR_SECTOR; dir_open s p }"

definition dir_reopen :: "fsys \<Rightarrow> ptr \<Rightarrow> (ptr \<times> fsys) option" where
  "dir_reopen s d = do { x \<leftarrow> dir_at s d; (p, s) \<leftarrow> inode_reopen s (dir_inode x); dir_open s p }"

definition dir_close :: "fsys \<Rightarrow> ptr \<Rightarrow> fsys option" where
  "dir_close s d =
     (if d \<noteq> NULL then do {
        x \<leftarrow> dir_at s d;
        s \<leftarrow> inode_close s (dir_inode x);
        Some (s\<lparr>dir_at := (dir_at s)(d := None)\<rparr>) }
      else Some s)"

definition dir_get_inode :: "fsys \<Rightarrow> ptr \<Rightarrow> ptr option" where
  "dir_get_inode s d = map_option dir_inode (dir_at s d)"

section \<open>Scanning a directory\<close>

text \<open>A full entry is read only before the end of the directory's inode, which bounds the loops.\<close>

lemma read_loop_stop: "sz = 0 \<or> chunk i sz ofs = 0 \<Longrightarrow> read_loop s i sz ofs b buf = Some (buf, s)"
  by (subst read_loop.simps) (auto simp: Let_def)

lemma read_loop_whole:
  "chunk i sz ofs = c \<Longrightarrow> 0 < sz \<Longrightarrow> 0 < c \<Longrightarrow> ofs mod DISK_SECTOR_SIZE = 0 \<and> c = DISK_SECTOR_SIZE \<Longrightarrow>
   read_loop s i sz ofs b buf = Option.bind (disk_read s (byte_to_sector i ofs)) (\<lambda>bs. read_loop s i (sz - c) (ofs + c) b (buf @ bs))"
  by (subst read_loop.simps) (simp add: Let_def)

lemma read_loop_part:
  "chunk i sz ofs = c \<Longrightarrow> 0 < sz \<Longrightarrow> 0 < c \<Longrightarrow> \<not> (ofs mod DISK_SECTOR_SIZE = 0 \<and> c = DISK_SECTOR_SIZE) \<Longrightarrow> get_bounce s b = (ok, s1) \<Longrightarrow>
   read_loop s i sz ofs b buf = (if ok then Option.bind (disk_read s1 (byte_to_sector i ofs))
     (\<lambda>bs. read_loop s1 i (sz - c) (ofs + c) True (buf @ take c (drop (ofs mod DISK_SECTOR_SIZE) bs))) else Some (buf, s1))"
  by (subst read_loop.simps) (auto simp: Let_def)

lemma only_mallocs_trans: "s' = s1\<lparr>mallocs := m'\<rparr> \<Longrightarrow> s1 = s\<lparr>mallocs := m\<rparr> \<Longrightarrow> s' = s\<lparr>mallocs := mallocs s'\<rparr>" for s :: fsys
  by simp

lemma read_loop_same: "read_loop s i sz ofs b buf = Some (bs, s') \<Longrightarrow> s' = s\<lparr>mallocs := mallocs s'\<rparr>"
proof (induction sz arbitrary: s ofs b buf rule: less_induct)
  case (less sz)
  let ?c = "chunk i sz ofs"
  consider "sz = 0 \<or> ?c = 0" | "0 < sz" "0 < ?c" "ofs mod DISK_SECTOR_SIZE = 0 \<and> ?c = DISK_SECTOR_SIZE"
    | "0 < sz" "0 < ?c" "\<not> (ofs mod DISK_SECTOR_SIZE = 0 \<and> ?c = DISK_SECTOR_SIZE)" by blast
  then show ?case
  proof cases
    case 1
    then show ?thesis using less.prems by (auto simp: read_loop_stop)
  next
    case 2
    have lt: "sz - ?c < sz" using 2(1,2) by simp
    show ?thesis using less.prems unfolding read_loop_whole [OF refl 2] by (auto simp: bind_eq_Some_conv dest: less.IH [OF lt])
  next
    case 3
    have lt: "sz - ?c < sz" using 3(1,2) by simp
    obtain ok s1 where g: "get_bounce s b = (ok, s1)" by fastforce
    then have s1: "s1 = s\<lparr>mallocs := mallocs s1\<rparr>" by (auto simp: get_bounce_def alloc_block_def split: if_splits list.splits)
    have "s' = s1\<lparr>mallocs := mallocs s'\<rparr>" using less.prems unfolding read_loop_part [OF refl 3 g]
      by (auto simp: bind_eq_Some_conv split: if_splits dest: less.IH [OF lt])
    from only_mallocs_trans [OF this s1] show ?thesis .
  qed
qed

lemma inode_read_at_same: "inode_read_at s p sz ofs = Some (bs, s') \<Longrightarrow> s' = s\<lparr>mallocs := mallocs s'\<rparr>"
  by (auto simp: inode_read_at_def bind_eq_Some_conv dest: read_loop_same)

definition rest :: "fsys \<Rightarrow> ptr \<Rightarrow> nat \<Rightarrow> nat" where
  "rest s p ofs = (case inode_at s p of None \<Rightarrow> 0 | Some i \<Rightarrow> length_of (data i) - ofs)"

lemma read_rest:
  assumes "inode_read_at s p sz ofs = Some (bs, s')" "bs \<noteq> []" "0 < k"
  shows "rest s' p (ofs + k) < rest s p ofs"
proof -
  obtain i where i: "inode_at s p = Some i" "read_loop s i sz ofs False [] = Some (bs, s')"
    using assms(1) by (auto simp: inode_read_at_def bind_eq_Some_conv)
  have "ofs < length_of (data i)"
  proof (rule ccontr)
    assume "\<not> ofs < length_of (data i)"
    then have "chunk i sz ofs = 0" by (simp add: chunk_def)
    then show False using i(2) assms(2) by (simp add: read_loop_stop)
  qed
  moreover have "inode_at s' = inode_at s" using inode_read_at_same [OF assms(1)] by (metis fsys.select_convs(6) fsys.surjective fsys.update_convs(9))
  ultimately show ?thesis using i(1) assms(3) by (simp add: rest_def)
qed

function lookup_loop :: "fsys \<Rightarrow> ptr \<Rightarrow> 8 word list \<Rightarrow> nat \<Rightarrow> ((dir_entry \<times> nat) option \<times> fsys) option" where
  "lookup_loop s p name ofs = do {
     (bs, s) \<leftarrow> inode_read_at s p ENTRY_SIZE ofs;
     if length bs = ENTRY_SIZE then do {
       let e = decode_entry bs;
       found \<leftarrow> (if in_use e then same_name name (entry_name e) else Some False);
       if found then Some (Some (e, ofs), s) else lookup_loop s p name (ofs + ENTRY_SIZE) }
     else Some (None, s) }"
  by pat_completeness auto
termination
  by (relation "measure (\<lambda>(s, p, name, ofs). rest s p ofs)") (auto simp: ENTRY_SIZE_def intro!: read_rest)

declare lookup_loop.simps [simp del]

definition lookup :: "fsys \<Rightarrow> ptr \<Rightarrow> 8 word list option \<Rightarrow> ((dir_entry \<times> nat) option \<times> fsys) option" where
  "lookup s d name = do {
     ASSERT (d \<noteq> NULL);
     name \<leftarrow> name;
     x \<leftarrow> dir_at s d;
     lookup_loop s (dir_inode x) name 0 }"

definition dir_lookup :: "fsys \<Rightarrow> ptr \<Rightarrow> 8 word list option \<Rightarrow> ((bool \<times> ptr) \<times> fsys) option" where
  "dir_lookup s d name = do {
     ASSERT (d \<noteq> NULL);
     ASSERT (name \<noteq> None);
     (r, s) \<leftarrow> lookup s d name;
     (p, s) \<leftarrow> (case r of Some (e, _) \<Rightarrow> inode_open s (inode_sector e) | None \<Rightarrow> Some (NULL, s));
     Some ((p \<noteq> NULL, p), s) }"

text \<open>\<open>inode_read_at\<close> overwrites as many bytes of \<open>e\<close> as it returns.\<close>

function free_slot :: "fsys \<Rightarrow> ptr \<Rightarrow> dir_entry \<Rightarrow> nat \<Rightarrow> ((dir_entry \<times> nat) \<times> fsys) option" where
  "free_slot s p e ofs = do {
     (bs, s) \<leftarrow> inode_read_at s p ENTRY_SIZE ofs;
     let e = decode_entry (bs @ drop (length bs) (encode_entry e));
     if length bs = ENTRY_SIZE then
       (if \<not> in_use e then Some ((e, ofs), s) else free_slot s p e (ofs + ENTRY_SIZE))
     else Some ((e, ofs), s) }"
  by pat_completeness auto
termination
  by (relation "measure (\<lambda>(s, p, e, ofs). rest s p ofs)") (auto simp: ENTRY_SIZE_def intro!: read_rest)

declare free_slot.simps [simp del]

definition dir_add :: "fsys \<Rightarrow> ptr \<Rightarrow> 8 word list option \<Rightarrow> nat \<Rightarrow> dir_entry \<Rightarrow> (bool \<times> fsys) option" where
  "dir_add s d name sec junk = do {
     ASSERT (d \<noteq> NULL);
     nm \<leftarrow> name;
     if nm = [] \<or> length nm > NAME_MAX then Some (False, s)
     else do {
       (r, s) \<leftarrow> lookup s d name;
       if r \<noteq> None then Some (False, s)
       else do {
         x \<leftarrow> dir_at s d;
         ((e, ofs), s) \<leftarrow> free_slot s (dir_inode x) junk 0;
         let e = e\<lparr>in_use := True, entry_name := set_name (entry_name e) nm, inode_sector := sec\<rparr>;
         (n, s) \<leftarrow> inode_write_at s (dir_inode x) (encode_entry e) ofs;
         Some (n = ENTRY_SIZE, s) } } }"

definition dir_remove :: "fsys \<Rightarrow> ptr \<Rightarrow> 8 word list option \<Rightarrow> (bool \<times> fsys) option" where
  "dir_remove s d name = do {
     ASSERT (d \<noteq> NULL);
     ASSERT (name \<noteq> None);
     (r, s) \<leftarrow> lookup s d name;
     case r of
       None \<Rightarrow> do { s \<leftarrow> inode_close s NULL; Some (False, s) }
     | Some (e, ofs) \<Rightarrow> do {
         (p, s) \<leftarrow> inode_open s (inode_sector e);
         if p = NULL then do { s \<leftarrow> inode_close s p; Some (False, s) }
         else do {
           x \<leftarrow> dir_at s d;
           (n, s) \<leftarrow> inode_write_at s (dir_inode x) (encode_entry (e\<lparr>in_use := False\<rparr>)) ofs;
           if n \<noteq> ENTRY_SIZE then do { s \<leftarrow> inode_close s p; Some (False, s) }
           else do {
             s \<leftarrow> inode_remove s p;
             s \<leftarrow> inode_close s p;
             Some (True, s) } } } }"

text \<open>The string in \<open>e.name\<close>; without a null byte in the array reading it runs past the entry.\<close>

definition name_string :: "8 word list \<Rightarrow> 8 word list option" where
  "name_string bs = (if 0 \<in> set bs then Some (takeWhile (\<lambda>b. b \<noteq> 0) bs) else None)"

definition upd_dir :: "fsys \<Rightarrow> ptr \<Rightarrow> (dir \<Rightarrow> dir) \<Rightarrow> fsys option" where
  "upd_dir s d f = do { x \<leftarrow> dir_at s d; Some (s\<lparr>dir_at := (dir_at s)(d \<mapsto> f x)\<rparr>) }"

definition dir_rest :: "fsys \<Rightarrow> ptr \<Rightarrow> nat" where
  "dir_rest s d = (case dir_at s d of None \<Rightarrow> 0 | Some x \<Rightarrow> rest s (dir_inode x) (dir_pos x))"

function dir_readdir :: "fsys \<Rightarrow> ptr \<Rightarrow> (8 word list option \<times> fsys) option" where
  "dir_readdir s d = do {
     x \<leftarrow> dir_at s d;
     (bs, s) \<leftarrow> inode_read_at s (dir_inode x) ENTRY_SIZE (dir_pos x);
     if length bs = ENTRY_SIZE then do {
       s \<leftarrow> upd_dir s d (\<lambda>x. x\<lparr>dir_pos := dir_pos x + ENTRY_SIZE\<rparr>);
       let e = decode_entry bs;
       if in_use e then do { name \<leftarrow> name_string (entry_name e); Some (Some name, s) }
       else dir_readdir s d }
     else Some (None, s) }"
  by pat_completeness auto
termination
proof (relation "measure (\<lambda>(s, d). dir_rest s d)", simp)
  fix s d x r bs s1 s2 e
  assume a: "dir_at s d = Some x" "inode_read_at s (dir_inode x) ENTRY_SIZE (dir_pos x) = Some r" "(bs, s1) = r" "length bs = ENTRY_SIZE"
    "upd_dir s1 d (\<lambda>x. x\<lparr>dir_pos := dir_pos x + ENTRY_SIZE\<rparr>) = Some s2"
  have r: "inode_read_at s (dir_inode x) ENTRY_SIZE (dir_pos x) = Some (bs, s1)" using a(2,3) by simp
  have "dir_at s1 = dir_at s" using inode_read_at_same [OF r] by (metis fsys.select_convs(8) fsys.surjective fsys.update_convs(9))
  then have s2: "s2 = s1\<lparr>dir_at := (dir_at s)(d \<mapsto> x\<lparr>dir_pos := dir_pos x + ENTRY_SIZE\<rparr>)\<rparr>" using a(1,5) by (auto simp: upd_dir_def)
  have "bs \<noteq> []" using a(4) by (auto simp: ENTRY_SIZE_def)
  from read_rest [OF r this, of ENTRY_SIZE] show "((s2, d), s, d) \<in> measure (\<lambda>(s, d). dir_rest s d)"
    using a(1) s2 by (simp add: dir_rest_def rest_def ENTRY_SIZE_def)
qed

declare dir_readdir.simps [simp del]

section \<open>The file system\<close>

definition filesys_create :: "fsys \<Rightarrow> 8 word list option \<Rightarrow> int \<Rightarrow> dir_entry \<Rightarrow> (bool \<times> fsys) option" where
  "filesys_create s name initial_size junk = do {
     (d, s) \<leftarrow> dir_open_root s;
     (success, sec, s) \<leftarrow>
       (if d \<noteq> NULL \<and> name \<noteq> None \<and> length (the name) \<le> 14 then do {
          (r, s) \<leftarrow> free_map_allocate s 1;
          case r of
            None \<Rightarrow> Some (False, 0, s)
          | Some sec \<Rightarrow> do {
              (ok, s) \<leftarrow> inode_create s sec initial_size;
              (ok, s) \<leftarrow> (if ok then dir_add s d name sec junk else Some (False, s));
              Some (ok, sec, s) } }
        else Some (False, 0, s));
     s \<leftarrow> (if \<not> success \<and> sec \<noteq> 0 then free_map_release s sec 1 else Some s);
     s \<leftarrow> dir_close s d;
     Some (success, s) }"

definition filesys_open :: "fsys \<Rightarrow> 8 word list option \<Rightarrow> (ptr \<times> fsys) option" where
  "filesys_open s name = do {
     (d, s) \<leftarrow> dir_open_root s;
     ((exist, p), s) \<leftarrow> (if d \<noteq> NULL then dir_lookup s d name else Some ((False, NULL), s));
     s \<leftarrow> dir_close s d;
     if \<not> exist then Some (NULL, s) else file_open s p }"

definition filesys_remove :: "fsys \<Rightarrow> 8 word list option \<Rightarrow> (bool \<times> fsys) option" where
  "filesys_remove s name = do {
     (d, s) \<leftarrow> dir_open_root s;
     (success, s) \<leftarrow> (if d \<noteq> NULL then dir_remove s d name else Some (False, s));
     s \<leftarrow> dir_close s d;
     Some (success, s) }"

definition do_format :: "fsys \<Rightarrow> fsys option" where
  "do_format s = do {
     s \<leftarrow> free_map_create s;
     (ok, s) \<leftarrow> dir_create s ROOT_DIR_SECTOR 16;
     ASSERT ok;
     free_map_close s }"

text \<open>\<open>present\<close>: \<open>disk_get (0, 1)\<close> found a disk; \<open>malloc_b\<close> and \<open>malloc_bits\<close> are what \<open>malloc\<close> returns for the free map.\<close>

definition filesys_init :: "fsys \<Rightarrow> bool \<Rightarrow> bool \<Rightarrow> 64 word list option \<Rightarrow> bool \<Rightarrow> fsys option" where
  "filesys_init s present malloc_b malloc_bits format = do {
     ASSERT present;
     let s = inode_init s;
     s \<leftarrow> free_map_init s malloc_b malloc_bits;
     s \<leftarrow> (if format then do_format s else Some s);
     free_map_open s }"

definition filesys_done :: "fsys \<Rightarrow> fsys option" where
  "filesys_done s = free_map_close s"

end
