(* ===== verification/Inode_Correct.thy ===== *)
theory Inode_Correct
  imports Inode
begin

text \<open>
  The contents of an inode are an array of bytes of fixed length: reading delivers a window of it, writing replaces
  one, and neither touches a sector outside the inode's extent.  Allocation of sectors hands out free runs only.
\<close>

section \<open>The contents of an inode\<close>

definition extent :: "inode \<Rightarrow> nat set" where
  "extent i = {start (data i)..<start (data i) + bytes_to_sectors (length_of (data i))}"

definition inode_ok :: "fsys \<Rightarrow> inode \<Rightarrow> bool" where
  "inode_ok s i \<longleftrightarrow> disk_size s \<le> 2 ^ 32 \<and> length_of (data i) < 2 ^ 31 \<and>
     (\<forall>sec \<in> extent i. sec < disk_size s \<and> length (disk s sec) = DISK_SECTOR_SIZE)"

definition inode_byte :: "fsys \<Rightarrow> inode \<Rightarrow> nat \<Rightarrow> 8 word" where
  "inode_byte s i k = disk s (start (data i) + k div DISK_SECTOR_SIZE) ! (k mod DISK_SECTOR_SIZE)"

definition inode_bytes :: "fsys \<Rightarrow> inode \<Rightarrow> 8 word list" where
  "inode_bytes s i = map (inode_byte s i) [0..<length_of (data i)]"

lemma length_inode_bytes [simp]: "length (inode_bytes s i) = length_of (data i)"
  by (simp add: inode_bytes_def)

lemma nth_inode_bytes: "k < length_of (data i) \<Longrightarrow> inode_bytes s i ! k = inode_byte s i k"
  by (simp add: inode_bytes_def)

lemma sector_in_extent: "k < length_of (data i) \<Longrightarrow> start (data i) + k div DISK_SECTOR_SIZE \<in> extent i"
  by (simp add: extent_def bytes_to_sectors_def DISK_SECTOR_SIZE_def)

lemma sector_at:
  assumes "inode_ok s i" "k < length_of (data i)"
  shows "byte_to_sector i k = start (data i) + k div DISK_SECTOR_SIZE" "start (data i) + k div DISK_SECTOR_SIZE < disk_size s"
    "length (disk s (start (data i) + k div DISK_SECTOR_SIZE)) = DISK_SECTOR_SIZE"
proof -
  show b: "start (data i) + k div DISK_SECTOR_SIZE < disk_size s"
    "length (disk s (start (data i) + k div DISK_SECTOR_SIZE)) = DISK_SECTOR_SIZE"
    using assms sector_in_extent [OF assms(2)] by (auto simp: inode_ok_def)
  have "start (data i) + k div DISK_SECTOR_SIZE < 2 ^ 32" using b(1) assms(1) by (simp add: inode_ok_def)
  then show "byte_to_sector i k = start (data i) + k div DISK_SECTOR_SIZE" using assms(2) by (simp add: byte_to_sector_def)
qed

lemma chunk_bounds:
  "chunk i sz off \<le> sz" "chunk i sz off \<le> length_of (data i) - off" "chunk i sz off + off mod DISK_SECTOR_SIZE \<le> DISK_SECTOR_SIZE"
  "0 < sz \<Longrightarrow> chunk i sz off = 0 \<longleftrightarrow> length_of (data i) \<le> off"
  by (auto simp: chunk_def Let_def DISK_SECTOR_SIZE_def)

lemma same_sector:
  assumes "off mod DISK_SECTOR_SIZE + k < DISK_SECTOR_SIZE"
  shows "(off + k) div DISK_SECTOR_SIZE = off div DISK_SECTOR_SIZE" "(off + k) mod DISK_SECTOR_SIZE = off mod DISK_SECTOR_SIZE + k"
proof -
  have eq: "off + k = (off mod DISK_SECTOR_SIZE + k) + DISK_SECTOR_SIZE * (off div DISK_SECTOR_SIZE)" by simp
  have "DISK_SECTOR_SIZE \<noteq> 0" by (simp add: DISK_SECTOR_SIZE_def)
  then show "(off + k) div DISK_SECTOR_SIZE = off div DISK_SECTOR_SIZE"
    unfolding arg_cong [OF eq, of "\<lambda>x. x div DISK_SECTOR_SIZE"] div_mult_self2 [OF \<open>DISK_SECTOR_SIZE \<noteq> 0\<close>] using assms by simp
  show "(off + k) mod DISK_SECTOR_SIZE = off mod DISK_SECTOR_SIZE + k"
    unfolding arg_cong [OF eq, of "\<lambda>x. x mod DISK_SECTOR_SIZE"] mod_mult_self2 using assms by simp
qed

lemma sector_chunk:
  assumes ok: "inode_ok s i" and c: "off + c \<le> length_of (data i)" "0 < c" "off mod DISK_SECTOR_SIZE + c \<le> DISK_SECTOR_SIZE"
  shows "take c (drop (off mod DISK_SECTOR_SIZE) (disk s (start (data i) + off div DISK_SECTOR_SIZE))) = take c (drop off (inode_bytes s i))"
proof (rule nth_equalityI)
  have len: "length (disk s (start (data i) + off div DISK_SECTOR_SIZE)) = DISK_SECTOR_SIZE" using sector_at(3) [OF ok, of off] c by simp
  then show "length (take c (drop (off mod DISK_SECTOR_SIZE) (disk s (start (data i) + off div DISK_SECTOR_SIZE)))) =
      length (take c (drop off (inode_bytes s i)))"
    using c by simp
  fix k assume "k < length (take c (drop (off mod DISK_SECTOR_SIZE) (disk s (start (data i) + off div DISK_SECTOR_SIZE))))"
  then have k: "k < c" by simp
  then show "take c (drop (off mod DISK_SECTOR_SIZE) (disk s (start (data i) + off div DISK_SECTOR_SIZE))) ! k = take c (drop off (inode_bytes s i)) ! k"
    using c len same_sector [of off k] by (simp add: nth_inode_bytes inode_byte_def)
qed

section \<open>Reading\<close>

text \<open>The bounce buffer is there or can be allocated.\<close>

definition can_bounce :: "fsys \<Rightarrow> bool \<Rightarrow> bool" where
  "can_bounce s bounce \<longleftrightarrow> bounce \<or> (case mallocs s of [] \<Rightarrow> False | p # _ \<Rightarrow> p \<noteq> NULL)"

lemma get_bounce_ok: "get_bounce s bounce = (can_bounce s bounce, s\<lparr>mallocs := if bounce then mallocs s else tl (mallocs s)\<rparr>)"
  by (auto simp: get_bounce_def can_bounce_def alloc_block_def split: list.splits)

text \<open>A call takes at most one block, and none once it has the bounce buffer.\<close>

definition took :: "fsys \<Rightarrow> bool \<Rightarrow> fsys \<Rightarrow> bool" where
  "took s bounce s' \<longleftrightarrow> mallocs s' = mallocs s \<or> \<not> bounce \<and> mallocs s' = tl (mallocs s)"

text \<open>The supply of memory: \<open>spent n\<close> is the use of at most \<open>n\<close> blocks, \<open>blocks n\<close> that \<open>n\<close> are left and no request fails.\<close>

definition spent :: "nat \<Rightarrow> fsys \<Rightarrow> fsys \<Rightarrow> bool" where
  "spent n s s' \<longleftrightarrow> (\<exists>k \<le> n. mallocs s' = drop k (mallocs s))"

definition blocks :: "nat \<Rightarrow> fsys \<Rightarrow> bool" where
  "blocks n s \<longleftrightarrow> n \<le> length (mallocs s) \<and> NULL \<notin> set (mallocs s)"

lemma spent_trans: "spent m s s1 \<Longrightarrow> spent n s1 s2 \<Longrightarrow> spent (m + n) s s2"
  unfolding spent_def by (metis add.commute add_mono drop_drop)

lemma spent_mono: "spent m s s1 \<Longrightarrow> m \<le> n \<Longrightarrow> spent n s s1"
  unfolding spent_def using le_trans by blast

lemma spent_same: "mallocs s' = mallocs s \<Longrightarrow> spent n s s'"
  by (auto simp: spent_def intro: exI [of _ 0])

lemma took_spent: "took s bounce s' \<Longrightarrow> spent 1 s s'"
  by (auto simp: took_def spent_def drop_Suc intro: exI [of _ 0] exI [of _ 1])

lemma blocks_spent: "blocks n s \<Longrightarrow> spent m s s' \<Longrightarrow> blocks (n - m) s'"
  by (auto simp: blocks_def spent_def dest: in_set_dropD)

lemma blocks_mono: "blocks n s \<Longrightarrow> m \<le> n \<Longrightarrow> blocks m s"
  by (simp add: blocks_def)

lemma blocks_can_bounce: "blocks n s \<Longrightarrow> 0 < n \<Longrightarrow> can_bounce s bounce"
  by (cases "mallocs s") (auto simp: blocks_def can_bounce_def)

lemma inode_mallocs [simp]:
  "inode_ok (s\<lparr>mallocs := m\<rparr>) i = inode_ok s i" "inode_bytes (s\<lparr>mallocs := m\<rparr>) i = inode_bytes s i"
  by (simp_all add: inode_ok_def inode_bytes_def inode_byte_def)

text \<open>A read stops early only when the bounce buffer cannot be allocated; what it delivers is right in any case.\<close>

lemma read_loop_ok:
  "inode_ok s i \<Longrightarrow> \<exists>n m. read_loop s i sz off bounce buffer = Some (buffer @ take n (drop off (inode_bytes s i)), s\<lparr>mallocs := m\<rparr>) \<and>
     n \<le> sz \<and> n \<le> length_of (data i) - off \<and> (can_bounce s bounce \<longrightarrow> n = min sz (length_of (data i) - off)) \<and> took s bounce (s\<lparr>mallocs := m\<rparr>)"
proof (induction sz arbitrary: s off bounce buffer rule: less_induct)
  case (less sz)
  let ?L = "length_of (data i)"
  let ?c = "chunk i sz off"
  let ?sec = "start (data i) + off div DISK_SECTOR_SIZE"
  let ?goal = "\<lambda>r. \<exists>n m. r = Some (buffer @ take n (drop off (inode_bytes s i)), s\<lparr>mallocs := m\<rparr>) \<and>
     n \<le> sz \<and> n \<le> ?L - off \<and> (can_bounce s bounce \<longrightarrow> n = min sz (?L - off)) \<and> took s bounce (s\<lparr>mallocs := m\<rparr>)"
  have stop: "?goal (Some (buffer, s\<lparr>mallocs := m\<rparr>))" if "can_bounce s bounce \<longrightarrow> sz = 0 \<or> ?L \<le> off" "took s bounce (s\<lparr>mallocs := m\<rparr>)" for m
    using that by (intro exI [of _ 0] exI [of _ m]) auto
  have stop0: "?goal (Some (buffer, s))" if "sz = 0 \<or> ?L \<le> off" using stop [of "mallocs s"] that by (simp add: took_def)
  show ?case
  proof (cases "sz = 0 \<or> ?L \<le> off")
    case True
    then have "read_loop s i sz off bounce buffer = Some (buffer, s)"
      using chunk_bounds(4) [where sz = sz and i = i and off = off] by (subst read_loop.simps) (auto simp: Let_def)
    then show ?thesis using stop0 [OF True] by simp
  next
    case False
    then have c: "0 < ?c" "?c \<le> sz" "off + ?c \<le> ?L" "off mod DISK_SECTOR_SIZE + ?c \<le> DISK_SECTOR_SIZE"
      using chunk_bounds [where sz = sz and i = i and off = off] by auto
    note sec = sector_at [OF less.prems, of off]
    have data: "take ?c (drop (off mod DISK_SECTOR_SIZE) (disk s ?sec)) = take ?c (drop off (inode_bytes s i))"
      using sector_chunk [OF less.prems c(3,1,4)] .
    have rd: "disk_read (s\<lparr>mallocs := m\<rparr>) (byte_to_sector i off) = Some (disk s ?sec)" for m
      using sec False by (simp add: disk_read_def)
    have go: "?goal (read_loop (s\<lparr>mallocs := m\<rparr>) i (sz - ?c) (off + ?c) bounce' (buffer @ take ?c (drop off (inode_bytes s i))))"
      if "can_bounce s bounce \<longrightarrow> can_bounce (s\<lparr>mallocs := m\<rparr>) bounce'"
        "\<And>s'. took (s\<lparr>mallocs := m\<rparr>) bounce' s' \<Longrightarrow> took s bounce s'" for m bounce'
    proof -
      from less.IH [of "sz - ?c" "s\<lparr>mallocs := m\<rparr>" "off + ?c" bounce' "buffer @ take ?c (drop off (inode_bytes s i))"] c less.prems
      obtain n m' where n: "read_loop (s\<lparr>mallocs := m\<rparr>) i (sz - ?c) (off + ?c) bounce' (buffer @ take ?c (drop off (inode_bytes s i))) =
          Some ((buffer @ take ?c (drop off (inode_bytes s i))) @ take n (drop (off + ?c) (inode_bytes s i)), s\<lparr>mallocs := m'\<rparr>)"
        "n \<le> sz - ?c" "n \<le> ?L - (off + ?c)" "can_bounce (s\<lparr>mallocs := m\<rparr>) bounce' \<longrightarrow> n = min (sz - ?c) (?L - (off + ?c))"
        "took (s\<lparr>mallocs := m\<rparr>) bounce' (s\<lparr>mallocs := m'\<rparr>)"
        by auto
      have "take ?c (drop off (inode_bytes s i)) @ take n (drop (off + ?c) (inode_bytes s i)) = take (?c + n) (drop off (inode_bytes s i))"
        unfolding take_add drop_drop by (simp add: add.commute)
      then show ?thesis using n c that by (intro exI [of _ "?c + n"] exI [of _ m']) auto
    qed
    show ?thesis
    proof (cases "off mod DISK_SECTOR_SIZE = 0 \<and> ?c = DISK_SECTOR_SIZE")
      case True
      then have "read_loop s i sz off bounce buffer = read_loop s i (sz - ?c) (off + ?c) bounce (buffer @ disk s ?sec)"
        using False c rd [of "mallocs s"] by (subst read_loop.simps) (simp add: Let_def)
      moreover have "disk s ?sec = take ?c (drop off (inode_bytes s i))" using data True sec(3) False by simp
      ultimately show ?thesis using go [of "mallocs s" bounce] by simp
    next
      case part: False
      define m where "m = (if bounce then mallocs s else tl (mallocs s))"
      have m: "get_bounce s bounce = (can_bounce s bounce, s\<lparr>mallocs := m\<rparr>)" unfolding m_def by (rule get_bounce_ok)
      have tk: "took s bounce (s\<lparr>mallocs := m\<rparr>)" "\<And>s'. took (s\<lparr>mallocs := m\<rparr>) True s' \<Longrightarrow> took s bounce s'" by (auto simp: took_def m_def)
      have run: "read_loop s i sz off bounce buffer = (if \<not> can_bounce s bounce then Some (buffer, s\<lparr>mallocs := m\<rparr>)
          else read_loop (s\<lparr>mallocs := m\<rparr>) i (sz - ?c) (off + ?c) True (buffer @ take ?c (drop off (inode_bytes s i))))"
        using False part c rd [of m] m data by (subst read_loop.simps) (auto simp: Let_def)
      have "can_bounce (s\<lparr>mallocs := m\<rparr>) True" by (simp add: can_bounce_def)
      then show ?thesis using stop [of m, OF _ tk(1)] go [of m True, OF _ tk(2)] run by (cases "can_bounce s bounce") simp_all
    qed
  qed
qed

lemma inode_read_at_ok:
  assumes "inode_at s p = Some i" "inode_ok s i"
  shows "\<exists>n m. inode_read_at s p sz off = Some (take n (drop off (inode_bytes s i)), s\<lparr>mallocs := m\<rparr>) \<and>
     n \<le> sz \<and> n \<le> length_of (data i) - off \<and> (can_bounce s False \<longrightarrow> n = min sz (length_of (data i) - off)) \<and> took s False (s\<lparr>mallocs := m\<rparr>)"
  using read_loop_ok [OF assms(2), of sz off False "[]"] assms(1) by (simp add: inode_read_at_def)

section \<open>Writing\<close>

text \<open>The array \<open>bs\<close> with \<open>new\<close> at offset \<open>off\<close>.\<close>

definition splice_at :: "'a list \<Rightarrow> nat \<Rightarrow> 'a list \<Rightarrow> 'a list" where
  "splice_at bs off new = take off bs @ new @ drop (off + length new) bs"

lemma length_splice_at [simp]: "off + length new \<le> length bs \<Longrightarrow> length (splice_at bs off new) = length bs"
  by (simp add: splice_at_def)

lemma nth_splice_at:
  "off + length new \<le> length bs \<Longrightarrow> k < length bs \<Longrightarrow>
   splice_at bs off new ! k = (if off \<le> k \<and> k < off + length new then new ! (k - off) else bs ! k)"
  by (auto simp: splice_at_def nth_append)

lemma splice_at_append:
  assumes "off + length xs + length ys \<le> length bs"
  shows "splice_at (splice_at bs off xs) (off + length xs) ys = splice_at bs off (xs @ ys)"
  by (rule nth_equalityI) (use assms in \<open>auto simp: nth_splice_at nth_append\<close>)

lemma splice_at_Nil [simp]: "splice_at bs off [] = bs"
  by (simp add: splice_at_def)

definition written :: "fsys \<Rightarrow> fsys \<Rightarrow> inode \<Rightarrow> nat \<Rightarrow> 8 word list \<Rightarrow> bool" where
  "written s s' i off new \<longleftrightarrow> (\<exists>m d. s' = s\<lparr>mallocs := m, disk := d\<rparr> \<and> (\<forall>sec. sec \<notin> extent i \<longrightarrow> d sec = disk s sec)) \<and>
     inode_ok s' i \<and> inode_bytes s' i = splice_at (inode_bytes s i) off new"

lemma written_Nil: "inode_ok s i \<Longrightarrow> written s (s\<lparr>mallocs := m\<rparr>) i off []"
  by (auto simp: written_def intro!: exI [of _ m] exI [of _ "disk s"])

lemma written_trans:
  assumes "written s s1 i off xs" "written s1 s2 i (off + length xs) ys" "off + length xs + length ys \<le> length_of (data i)"
  shows "written s s2 i off (xs @ ys)"
  using assms splice_at_append [of off xs ys "inode_bytes s i"] by (auto simp: written_def) blast

text \<open>One iteration replaces a part of one sector.\<close>

lemma write_sector:
  assumes ok: "inode_ok s i" and c: "off + length new \<le> length_of (data i)" "0 < length new" "off mod DISK_SECTOR_SIZE + length new \<le> DISK_SECTOR_SIZE"
    and sec: "sec = start (data i) + off div DISK_SECTOR_SIZE"
  shows "written s (s\<lparr>mallocs := m, disk := (disk s)(sec := splice_at (disk s sec) (off mod DISK_SECTOR_SIZE) new)\<rparr>) i off new"
proof -
  let ?s = "s\<lparr>mallocs := m, disk := (disk s)(sec := splice_at (disk s sec) (off mod DISK_SECTOR_SIZE) new)\<rparr>"
  have off: "off < length_of (data i)" using c by linarith
  have len: "length (disk s sec) = DISK_SECTOR_SIZE" using sector_at(3) [OF ok off] sec by simp
  have inside: "sec \<in> extent i" using sector_in_extent [OF off] sec by simp
  have ok': "inode_ok ?s i" using ok len c(3) by (auto simp: inode_ok_def)
  have "inode_bytes ?s i = splice_at (inode_bytes s i) off new"
  proof (rule nth_equalityI)
    fix k assume "k < length (inode_bytes ?s i)"
    then have k: "k < length_of (data i)" by simp
    have mod: "k mod DISK_SECTOR_SIZE < DISK_SECTOR_SIZE" by (simp add: DISK_SECTOR_SIZE_def)
    show "inode_bytes ?s i ! k = splice_at (inode_bytes s i) off new ! k"
    proof (cases "k div DISK_SECTOR_SIZE = off div DISK_SECTOR_SIZE")
      case True
      have eq: "k = DISK_SECTOR_SIZE * (off div DISK_SECTOR_SIZE) + k mod DISK_SECTOR_SIZE" "off = DISK_SECTOR_SIZE * (off div DISK_SECTOR_SIZE) + off mod DISK_SECTOR_SIZE"
        using mult_div_mod_eq [of DISK_SECTOR_SIZE k] mult_div_mod_eq [of DISK_SECTOR_SIZE off] unfolding True by simp_all
      then have "off \<le> k \<longleftrightarrow> off mod DISK_SECTOR_SIZE \<le> k mod DISK_SECTOR_SIZE" "k - off = k mod DISK_SECTOR_SIZE - off mod DISK_SECTOR_SIZE"
        "k < off + length new \<longleftrightarrow> k mod DISK_SECTOR_SIZE < off mod DISK_SECTOR_SIZE + length new"
        by linarith+
      then show ?thesis using k c len mod True sec by (simp add: nth_inode_bytes nth_splice_at inode_byte_def)
    next
      case False
      have "\<not> (off \<le> k \<and> k < off + length new)"
      proof
        assume "off \<le> k \<and> k < off + length new"
        then have "(off + (k - off)) div DISK_SECTOR_SIZE = off div DISK_SECTOR_SIZE" using c(3) by (intro same_sector) linarith
        then show False using False \<open>off \<le> k \<and> k < off + length new\<close> by simp
      qed
      then show ?thesis using k c False sec by (auto simp: nth_inode_bytes nth_splice_at inode_byte_def)
    qed
  qed (use c in simp)
  then show ?thesis using ok' inside unfolding written_def by (intro conjI exI [of _ m]) auto
qed

lemma write_loop_ok:
  "inode_ok s i \<Longrightarrow> \<exists>n s'. write_loop s i buffer off bounce w = Some (w + n, s') \<and> written s s' i off (take n buffer) \<and>
     n \<le> length buffer \<and> n \<le> length_of (data i) - off \<and> (can_bounce s bounce \<longrightarrow> n = min (length buffer) (length_of (data i) - off)) \<and> took s bounce s'"
proof (induction "length buffer" arbitrary: s off bounce buffer w rule: less_induct)
  case less
  let ?L = "length_of (data i)"
  let ?c = "chunk i (length buffer) off"
  let ?sec = "start (data i) + off div DISK_SECTOR_SIZE"
  let ?o = "off mod DISK_SECTOR_SIZE"
  let ?goal = "\<lambda>r. \<exists>n s'. r = Some (w + n, s') \<and> written s s' i off (take n buffer) \<and>
     n \<le> length buffer \<and> n \<le> ?L - off \<and> (can_bounce s bounce \<longrightarrow> n = min (length buffer) (?L - off)) \<and> took s bounce s'"
  have stop: "?goal (Some (w, s\<lparr>mallocs := m\<rparr>))" if "can_bounce s bounce \<longrightarrow> buffer = [] \<or> ?L \<le> off" "took s bounce (s\<lparr>mallocs := m\<rparr>)" for m
    using that written_Nil [OF less.prems, of m off] by (intro exI [of _ 0] exI [of _ "s\<lparr>mallocs := m\<rparr>"]) auto
  show ?case
  proof (cases "buffer = [] \<or> ?L \<le> off")
    case True
    then have "write_loop s i buffer off bounce w = Some (w, s)"
      using chunk_bounds(4) [where sz = "length buffer" and i = i and off = off] by (subst write_loop.simps) (auto simp: Let_def)
    then show ?thesis using stop [of "mallocs s"] True by (simp add: took_def)
  next
    case False
    then have c: "0 < ?c" "?c \<le> length buffer" "off + ?c \<le> ?L" "?o + ?c \<le> DISK_SECTOR_SIZE"
      using chunk_bounds [where sz = "length buffer" and i = i and off = off] by auto
    note sec = sector_at [OF less.prems, of off]
    let ?s = "\<lambda>m. s\<lparr>mallocs := m, disk := (disk s)(?sec := splice_at (disk s ?sec) ?o (take ?c buffer))\<rparr>"
    have one: "written s (?s m) i off (take ?c buffer)" for m
      by (rule write_sector [OF less.prems]) (use c in auto)
    have go: "?goal (write_loop (?s m) i (drop ?c buffer) (off + ?c) bounce' (w + ?c))"
      if "can_bounce s bounce \<longrightarrow> can_bounce (?s m) bounce'" "\<And>s'. took (?s m) bounce' s' \<Longrightarrow> took s bounce s'" for m bounce'
    proof -
      have ok: "inode_ok (?s m) i" using one [of m] by (simp add: written_def)
      have "length (drop ?c buffer) < length buffer" using c by simp
      from less.hyps [OF this ok, of "off + ?c" bounce' "w + ?c"] obtain n s' where n: "write_loop (?s m) i (drop ?c buffer) (off + ?c) bounce' (w + ?c) = Some (w + ?c + n, s')"
        "written (?s m) s' i (off + ?c) (take n (drop ?c buffer))" "n \<le> length buffer - ?c" "n \<le> ?L - (off + ?c)"
        "can_bounce (?s m) bounce' \<longrightarrow> n = min (length buffer - ?c) (?L - (off + ?c))" "took (?s m) bounce' s'" unfolding length_drop by blast
      have "take ?c buffer @ take n (drop ?c buffer) = take (?c + n) buffer" by (simp add: take_add)
      then have "written s s' i off (take (?c + n) buffer)"
        using written_trans [OF one [of m], of s' "take n (drop ?c buffer)"] n c by (simp add: min_absorb2)
      then show ?thesis using n c that by (intro exI [of _ "?c + n"] exI [of _ s']) auto
    qed
    have wr: "disk_write (s\<lparr>mallocs := m\<rparr>) (byte_to_sector i off) new = Some (s\<lparr>mallocs := m, disk := (disk s)(?sec := new)\<rparr>)" for m new
      using sec False by (simp add: disk_write_def)
    show ?thesis
    proof (cases "?o = 0 \<and> ?c = DISK_SECTOR_SIZE")
      case True
      then have "splice_at (disk s ?sec) ?o (take ?c buffer) = take ?c buffer" using sec(3) c False by (simp add: splice_at_def)
      then have "write_loop s i buffer off bounce w = write_loop (?s (mallocs s)) i (drop ?c buffer) (off + ?c) bounce (w + ?c)"
        using True False c wr [of "mallocs s"] by (subst write_loop.simps) (simp add: Let_def)
      then show ?thesis using go [of "mallocs s" bounce] by (simp add: can_bounce_def took_def)
    next
      case part: False
      define m where "m = (if bounce then mallocs s else tl (mallocs s))"
      have m: "get_bounce s bounce = (can_bounce s bounce, s\<lparr>mallocs := m\<rparr>)" unfolding m_def by (rule get_bounce_ok)
      have tk: "took s bounce (s\<lparr>mallocs := m\<rparr>)" "\<And>s'. took (?s m) True s' \<Longrightarrow> took s bounce s'" by (auto simp: took_def m_def)
      have rd: "disk_read (s\<lparr>mallocs := m\<rparr>) (byte_to_sector i off) = Some (disk s ?sec)"
        using sec False by (simp add: disk_read_def)
      have cond: "0 < ?o \<or> ?c < DISK_SECTOR_SIZE - ?o" using part c(4) by auto
      have run: "write_loop s i buffer off bounce w = (if \<not> can_bounce s bounce then Some (w, s\<lparr>mallocs := m\<rparr>)
          else write_loop (?s m) i (drop ?c buffer) (off + ?c) True (w + ?c))"
        using False part c cond rd wr [of m] m by (subst write_loop.simps) (auto simp: Let_def splice_at_def)
      have "can_bounce (?s m) True" by (simp add: can_bounce_def)
      then show ?thesis using stop [of m, OF _ tk(1)] go [of m True, OF _ tk(2)] run by (cases "can_bounce s bounce") simp_all
    qed
  qed
qed

lemma inode_write_at_ok:
  assumes "inode_at s p = Some i" "inode_ok s i"
  shows "\<exists>n s'. inode_write_at s p buffer off = Some (n, s') \<and> written s s' i off (take n buffer) \<and>
     n \<le> length buffer \<and> n \<le> length_of (data i) - off \<and>
     (if deny_write_cnt i = 0 then can_bounce s False \<longrightarrow> n = min (length buffer) (length_of (data i) - off) else n = 0 \<and> s' = s) \<and> took s False s'"
proof (cases "deny_write_cnt i = 0")
  case True
  then show ?thesis using write_loop_ok [OF assms(2), of buffer off False 0] assms(1) by (simp add: inode_write_at_def)
next
  case False
  then show ?thesis using assms written_Nil [OF assms(2), of "mallocs s" off] by (simp add: inode_write_at_def took_def)
qed

section \<open>On-disk inodes\<close>

lemma length_le32 [simp]: "length (le32 n) = 4"
  by (simp add: le32_def)

lemma from_le32: "n < 2 ^ 32 \<Longrightarrow> from_le32 (le32 n @ bs) = n"
proof -
  assume n: "n < 2 ^ 32"
  have d: "n mod 256 + 256 * (n div 256 mod 256 + 256 * (n div 65536 mod 256 + 256 * (n div 16777216))) = n"
  proof -
    have e: "n div 65536 = n div 256 div 256" "n div 16777216 = n div 256 div 256 div 256" by (simp_all add: div_mult2_eq [symmetric])
    show ?thesis unfolding e by (simp only: mod_mult_div_eq)
  qed
  have "n div 16777216 < 256" using n by (simp add: less_mult_imp_div_less)
  then have top: "n div 16777216 mod 256 = n div 16777216" by simp
  have le: "le32 n = [of_nat n, of_nat (n div 256), of_nat (n div 65536), of_nat (n div 16777216)]" by (simp add: le32_def upt_rec)
  have u: "unat (of_nat x :: 8 word) = x mod 256" for x by (simp add: unat_of_nat)
  have "from_le32 (le32 n @ bs) = foldr (\<lambda>b m. unat b + 256 * m) (le32 n) 0" by (simp add: from_le32_def)
  also have "\<dots> = n mod 256 + 256 * (n div 256 mod 256 + 256 * (n div 65536 mod 256 + 256 * (n div 16777216 mod 256)))"
    unfolding le by (simp add: u)
  finally show ?thesis using d top by simp
qed

lemma decode_encode_inode:
  "start d < 2 ^ 32 \<Longrightarrow> length_of d < 2 ^ 32 \<Longrightarrow> magic d < 2 ^ 32 \<Longrightarrow> decode_inode (encode_inode d) = d"
  by (simp add: decode_inode_def encode_inode_def from_le32)

lemma length_encode_inode [simp]: "length (encode_inode d) = DISK_SECTOR_SIZE"
  by (simp add: encode_inode_def DISK_SECTOR_SIZE_def)

section \<open>The free map\<close>

text \<open>What the file system keeps: one bit per sector, sectors of full size, and the free map's own file, when it is open, large
  enough, writable, and on sectors that are in use.\<close>

definition map_file_ok :: "fsys \<Rightarrow> inode \<Rightarrow> bool" where
  "map_file_ok s i \<longleftrightarrow> inode_ok s i \<and> byte_cnt (bit_cnt (free_map s)) \<le> length_of (data i) \<and> deny_write_cnt i = 0 \<and>
     extent i \<subseteq> bitmap_used (free_map s)"

definition fs_ok :: "fsys \<Rightarrow> bool" where
  "fs_ok s \<longleftrightarrow> bitmap_inv (free_map s) \<and> bit_cnt (free_map s) = disk_size s \<and>
     (\<forall>sec < disk_size s. length (disk s sec) = DISK_SECTOR_SIZE) \<and>
     (free_map_file s \<noteq> NULL \<longrightarrow> (\<exists>x i. file_at s (free_map_file s) = Some x \<and> inode_at s (file_inode x) = Some i \<and> map_file_ok s i))"

text \<open>The sectors that hold the free map itself.\<close>

definition map_extent :: "fsys \<Rightarrow> nat set" where
  "map_extent s = (if free_map_file s = NULL then {} else
     case file_at s (free_map_file s) of None \<Rightarrow> {} | Some x \<Rightarrow> (case inode_at s (file_inode x) of None \<Rightarrow> {} | Some i \<Rightarrow> extent i))"

lemma fs_okD: "fs_ok s \<Longrightarrow> disk_size s + 1 < 2 ^ 32" "fs_ok s \<Longrightarrow> sec < disk_size s \<Longrightarrow> length (disk s sec) = DISK_SECTOR_SIZE"
  by (auto simp: fs_ok_def bitmap_inv_def)

lemma map_extent_used: "fs_ok s \<Longrightarrow> map_extent s \<subseteq> bitmap_used (free_map s)"
  by (auto simp: fs_ok_def map_extent_def map_file_ok_def split: option.splits if_splits)

text \<open>\<open>updates s s' A\<close>: only the sectors of \<open>A\<close>, the free map and the supply of memory differ.\<close>

definition updates :: "fsys \<Rightarrow> fsys \<Rightarrow> nat set \<Rightarrow> bool" where
  "updates s s' A \<longleftrightarrow> (\<exists>m d b. s' = s\<lparr>mallocs := m, disk := d, free_map := b\<rparr> \<and> (\<forall>sec. sec \<notin> A \<longrightarrow> d sec = disk s sec) \<and>
     ((\<forall>sec < disk_size s. length (disk s sec) = DISK_SECTOR_SIZE) \<longrightarrow> (\<forall>sec < disk_size s. length (d sec) = DISK_SECTOR_SIZE)))"

lemma updates_refl: "updates s (s\<lparr>mallocs := m, free_map := b\<rparr>) A"
  by (auto simp: updates_def intro!: exI [of _ m] exI [of _ "disk s"] exI [of _ b])

lemma updates_trans: "updates s s1 A \<Longrightarrow> updates s1 s2 B \<Longrightarrow> updates s s2 (A \<union> B)"
proof -
  assume a: "updates s s1 A" "updates s1 s2 B"
  obtain m d b where 1: "s1 = s\<lparr>mallocs := m, disk := d, free_map := b\<rparr>" "\<forall>sec. sec \<notin> A \<longrightarrow> d sec = disk s sec"
      "(\<forall>sec < disk_size s. length (disk s sec) = DISK_SECTOR_SIZE) \<longrightarrow> (\<forall>sec < disk_size s. length (d sec) = DISK_SECTOR_SIZE)"
    using a(1) unfolding updates_def by blast
  obtain m' d' b' where 2: "s2 = s1\<lparr>mallocs := m', disk := d', free_map := b'\<rparr>" "\<forall>sec. sec \<notin> B \<longrightarrow> d' sec = disk s1 sec"
      "(\<forall>sec < disk_size s1. length (disk s1 sec) = DISK_SECTOR_SIZE) \<longrightarrow> (\<forall>sec < disk_size s1. length (d' sec) = DISK_SECTOR_SIZE)"
    using a(2) unfolding updates_def by blast
  show ?thesis unfolding updates_def using 1 2 by (intro exI [of _ m'] exI [of _ d'] exI [of _ b']) simp
qed

lemma map_extent_cong: "free_map_file s' = free_map_file s \<Longrightarrow> file_at s' = file_at s \<Longrightarrow> inode_at s' = inode_at s \<Longrightarrow> map_extent s' = map_extent s"
  by (simp add: map_extent_def split: option.split)

lemma updates_mono: "updates s s' A \<Longrightarrow> A \<subseteq> B \<Longrightarrow> updates s s' B"
  unfolding updates_def by blast

lemma updates_same:
  assumes "updates s s' A"
  shows "disk_size s' = disk_size s" "free_map_file s' = free_map_file s" "open_inodes s' = open_inodes s" "inode_at s' = inode_at s"
    "file_at s' = file_at s" "dir_at s' = dir_at s" "map_extent s' = map_extent s" "sec \<notin> A \<Longrightarrow> disk s' sec = disk s sec"
proof -
  show "disk_size s' = disk_size s" "free_map_file s' = free_map_file s" "open_inodes s' = open_inodes s" "inode_at s' = inode_at s"
    "file_at s' = file_at s" "dir_at s' = dir_at s" "sec \<notin> A \<Longrightarrow> disk s' sec = disk s sec"
    using assms by (auto simp: updates_def)
  then show "map_extent s' = map_extent s" by (intro map_extent_cong)
qed

lemma written_updates: "written s s' i off new \<Longrightarrow> updates s s' (extent i)"
proof -
  assume w: "written s s' i off new"
  then obtain m d where md: "s' = s\<lparr>mallocs := m, disk := d\<rparr>" "\<forall>sec. sec \<notin> extent i \<longrightarrow> d sec = disk s sec" by (auto simp: written_def)
  have "length (d sec) = DISK_SECTOR_SIZE" if "\<forall>sec < disk_size s. length (disk s sec) = DISK_SECTOR_SIZE" "sec < disk_size s" for sec
    using w that md by (cases "sec \<in> extent i") (auto simp: written_def inode_ok_def)
  with md show ?thesis unfolding updates_def by (intro exI [of _ m] exI [of _ d] exI [of _ "free_map s"]) auto
qed

lemma disk_write_ok:
  "sec < disk_size s \<Longrightarrow> length bs = DISK_SECTOR_SIZE \<Longrightarrow>
   \<exists>s'. disk_write s sec bs = Some s' \<and> updates s s' {sec} \<and> free_map s' = free_map s \<and> mallocs s' = mallocs s \<and> disk s' sec = bs"
  by (auto simp: disk_write_def updates_def intro!: exI [of _ "mallocs s"] exI [of _ "(disk s)(sec := bs)"] exI [of _ "free_map s"])

lemma fs_ok_updates:
  assumes ok: "fs_ok s" and up: "updates s s' A" and b: "bitmap_inv (free_map s')" "bit_cnt (free_map s') = disk_size s"
    and used: "map_extent s \<subseteq> bitmap_used (free_map s')"
  shows "fs_ok s'"
proof -
  obtain m d b where s': "s' = s\<lparr>mallocs := m, disk := d, free_map := b\<rparr>" "\<forall>sec < disk_size s. length (d sec) = DISK_SECTOR_SIZE"
    using up ok unfolding updates_def fs_ok_def by blast
  have bits: "bit_cnt b = bit_cnt (free_map s)" using ok s'(1) assms(4) by (simp add: fs_ok_def)
  have "map_file_ok s' i" if "map_file_ok s i" "map_extent s = extent i" for i
    using that s' bits used by (auto simp: map_file_ok_def inode_ok_def)
  moreover have "map_extent s = extent i" if "free_map_file s \<noteq> NULL" "file_at s (free_map_file s) = Some x" "inode_at s (file_inode x) = Some i" for x i
    using that by (simp add: map_extent_def)
  ultimately show ?thesis using ok s' b unfolding fs_ok_def by auto
qed

text \<open>\<open>map_saved\<close>: the free map's file, when it is open, holds the free map.\<close>

definition holds_map :: "8 word list \<Rightarrow> bitmap \<Rightarrow> bool" where
  "holds_map bs c \<longleftrightarrow> (\<exists>b. bitmap_inv b \<and> bit_cnt b = bit_cnt c \<and> bitmap_used b = bitmap_used c \<and>
     take (byte_cnt (bit_cnt b)) bs = concat (map word_bytes (bits b)))"

definition map_saved :: "fsys \<Rightarrow> bool" where
  "map_saved s \<longleftrightarrow> (\<forall>x i. free_map_file s \<noteq> NULL \<and> file_at s (free_map_file s) = Some x \<and> inode_at s (file_inode x) = Some i \<longrightarrow>
     holds_map (inode_bytes s i) (free_map s))"

lemma inode_bytes_cong: "(\<And>sec. sec \<in> extent i \<Longrightarrow> disk s' sec = disk s sec) \<Longrightarrow> inode_bytes s' i = inode_bytes s i"
  by (simp add: inode_bytes_def inode_byte_def sector_in_extent)

lemma map_saved_updates:
  assumes "map_saved s" "updates s s' A" "A \<inter> map_extent s = {}" "free_map s' = free_map s"
  shows "map_saved s'"
  unfolding map_saved_def
proof (intro allI impI)
  fix x i assume a: "free_map_file s' \<noteq> NULL \<and> file_at s' (free_map_file s') = Some x \<and> inode_at s' (file_inode x) = Some i"
  note same = updates_same [OF assms(2)]
  have b: "free_map_file s \<noteq> NULL \<and> file_at s (free_map_file s) = Some x \<and> inode_at s (file_inode x) = Some i" using a same by simp
  then have "extent i = map_extent s" by (simp add: map_extent_def)
  then have "inode_bytes s' i = inode_bytes s i" using same(8) assms(3) by (intro inode_bytes_cong) blast
  then show "holds_map (inode_bytes s' i) (free_map s')"
    using assms(1,4) b unfolding map_saved_def by auto
qed

text \<open>Storing the free map in its file.\<close>

definition has_block :: "fsys \<Rightarrow> bool" where
  "has_block s \<longleftrightarrow> can_bounce s False"

lemma store_bitmap_ok:
  assumes ok: "fs_ok s" and f: "free_map_file s \<noteq> NULL" and mem: "has_block s"
  shows "\<exists>s'. store_bitmap s (free_map s) (free_map_file s) = Some (True, s') \<and> updates s s' (map_extent s) \<and> free_map s' = free_map s \<and> spent 1 s s' \<and> map_saved s'"
proof -
  obtain x i where xi: "file_at s (free_map_file s) = Some x" "inode_at s (file_inode x) = Some i" "map_file_ok s i"
    using ok f by (auto simp: fs_ok_def)
  define bs where "bs = take (byte_cnt (bit_cnt (free_map s))) (concat (map word_bytes (bits (free_map s))))"
  have len: "length bs = byte_cnt (bit_cnt (free_map s))" using ok by (simp add: bs_def fs_ok_def bitmap_inv_def byte_cnt_def)
  have i: "inode_ok s i" "deny_write_cnt i = 0" "length bs \<le> length_of (data i)" using xi(3) len by (simp_all add: map_file_ok_def)
  from inode_write_at_ok [OF xi(2) i(1), of bs 0] i(2,3) mem obtain s' where
    s': "inode_write_at s (file_inode x) bs 0 = Some (length bs, s')" "written s s' i 0 bs" "took s False s'" by (auto simp: has_block_def)
  have "map_extent s = extent i" using xi f by (simp add: map_extent_def)
  then have "updates s s' (map_extent s)" using written_updates [OF s'(2)] by simp
  moreover have fm: "free_map s' = free_map s" using s'(2) by (auto simp: written_def)
  moreover have "map_saved s'"
  proof -
    have "8 * length (bits (free_map s)) = byte_cnt (bit_cnt (free_map s))" using ok by (simp add: fs_ok_def bitmap_inv_def byte_cnt_def)
    then have "bs = concat (map word_bytes (bits (free_map s)))" by (simp add: bs_def)
    moreover have "inode_bytes s' i = bs @ drop (length bs) (inode_bytes s i)" using s'(2) by (simp add: written_def splice_at_def)
    ultimately have "holds_map (inode_bytes s' i) (free_map s)" using ok len unfolding holds_map_def fs_ok_def by (intro exI [of _ "free_map s"]) simp
    then show ?thesis using xi(1,2) updates_same [OF \<open>updates s s' (map_extent s)\<close>] by (simp add: map_saved_def fm)
  qed
  ultimately show ?thesis using s'(1) xi(1) len took_spent [OF s'(3)] by (simp add: store_bitmap_def file_write_at_def bs_def)
qed

lemma bitmap_used_bound: "bitmap_used b \<subseteq> {..<bit_cnt b}"
  by (auto simp: bitmap_used_def)

lemma bitmap_error_mod: "bitmap_inv b \<Longrightarrow> r \<le> bit_cnt b \<Longrightarrow> r mod 2 ^ 32 = r \<and> r \<noteq> BITMAP_ERROR" "BITMAP_ERROR mod 2 ^ 32 = BITMAP_ERROR"
  by (auto simp: bitmap_inv_def BITMAP_ERROR_def)

lemma free_map_allocate_ok:
  assumes ok: "fs_ok s" and mem: "free_map_file s = NULL \<or> has_block s"
  shows "(\<exists>sec s'. free_map_allocate s n = Some (Some sec, s') \<and> updates s s' (map_extent s) \<and> fs_ok s' \<and> sec + n \<le> disk_size s \<and>
       bitmap_used (free_map s) \<inter> {sec..<sec + n} = {} \<and> bitmap_used (free_map s') = bitmap_used (free_map s) \<union> {sec..<sec + n} \<and> spent 1 s s' \<and> map_saved s') \<or>
    free_map_allocate s n = Some (None, s) \<and> (\<forall>i. i + n \<le> disk_size s \<longrightarrow> bitmap_used (free_map s) \<inter> {i..<i + n} \<noteq> {})"
proof -
  have inv: "bitmap_inv (free_map s)" "bit_cnt (free_map s) = disk_size s" using ok by (simp_all add: fs_ok_def)
  obtain r b where rb: "bitmap_scan_and_flip (free_map s) 0 n False = Some (r, b)" using bm.alloc_returns [OF inv(1)] by blast
  have b: "bitmap_inv b" "bit_cnt b = disk_size s" using bm.alloc_invar [OF inv(1) rb] inv(2) by simp_all
  show ?thesis
  proof (cases "r = BITMAP_ERROR")
    case True
    have "b = free_map s" "\<forall>i. i + n \<le> disk_size s \<longrightarrow> bitmap_used (free_map s) \<inter> {i..<i + n} \<noteq> {}"
      using bm.alloc_full [OF inv(1), of n b] rb True inv(2) by auto
    then show ?thesis using rb True bitmap_error_mod(2) by (simp add: free_map_allocate_def)
  next
    case False
    have run: "r + n \<le> disk_size s" "bitmap_used (free_map s) \<inter> {r..<r + n} = {}" "bitmap_used b = bitmap_used (free_map s) \<union> {r..<r + n}"
      using bm.alloc_ok [OF inv(1) rb False] inv(2) by simp_all
    have r: "r mod 2 ^ 32 = r" "r \<noteq> BITMAP_ERROR" using bitmap_error_mod(1) [OF inv(1), of r] run(1) inv(2) by simp_all
    let ?s = "s\<lparr>free_map := b\<rparr>"
    have up: "updates s ?s {}" using updates_refl [where s = s and m = "mallocs s" and b = b and A = "{}"] by simp
    have ok1: "fs_ok ?s" using fs_ok_updates [OF ok up] b run(3) map_extent_used [OF ok] by auto
    show ?thesis
    proof (cases "free_map_file s = NULL")
      case True
      then have "free_map_allocate s n = Some (Some r, ?s)" using rb r by (simp add: free_map_allocate_def)
      then show ?thesis using up ok1 run updates_mono [of s ?s "{}" "map_extent s"] spent_same [of ?s s 1] True by (auto simp: map_saved_def)
    next
      case f: False
      then have "has_block ?s" using mem by (simp add: has_block_def can_bounce_def)
      from store_bitmap_ok [OF ok1 _ this] f obtain s' where
        s': "store_bitmap ?s b (free_map_file s) = Some (True, s')" "updates ?s s' (map_extent ?s)" "free_map s' = b" "spent 1 ?s s'" "map_saved s'" by auto
      have sp: "spent 1 s s'" using s'(4) by (simp add: spent_def)
      have "free_map_allocate s n = Some (Some r, s')" using rb r f s'(1) by (simp add: free_map_allocate_def)
      moreover have up': "updates s s' (map_extent s)" using updates_trans [OF up s'(2)] updates_same(7) [OF up] by simp
      moreover have "fs_ok s'" using fs_ok_updates [OF ok up'] s'(3) b run(3) map_extent_used [OF ok] by auto
      ultimately show ?thesis using run s'(3,5) sp by (intro disjI1 exI [of _ r] exI [of _ s']) simp
    qed
  qed
qed

section \<open>Creating an inode\<close>

lemma write_zeros_ok:
  "sec + k \<le> disk_size s \<Longrightarrow> \<exists>s'. write_zeros s sec k = Some s' \<and> updates s s' {sec..<sec + k} \<and> free_map s' = free_map s \<and> mallocs s' = mallocs s \<and>
     (\<forall>j \<in> {sec..<sec + k}. disk s' j = replicate DISK_SECTOR_SIZE 0)"
proof (induction k arbitrary: s sec)
  case 0
  then show ?case using updates_refl [where s = s and m = "mallocs s" and b = "free_map s" and A = "{}"] by simp
next
  case (Suc k)
  obtain s1 where s1: "disk_write s sec (replicate DISK_SECTOR_SIZE 0) = Some s1" "updates s s1 {sec}" "free_map s1 = free_map s" "mallocs s1 = mallocs s"
      "disk s1 sec = replicate DISK_SECTOR_SIZE 0"
    using disk_write_ok [of sec s "replicate DISK_SECTOR_SIZE 0"] Suc.prems by auto
  from Suc.IH [of "Suc sec" s1] Suc.prems updates_same(1) [OF s1(2)] obtain s2 where
    s2: "write_zeros s1 (Suc sec) k = Some s2" "updates s1 s2 {Suc sec..<Suc sec + k}" "free_map s2 = free_map s1" "mallocs s2 = mallocs s1"
      "\<forall>j \<in> {Suc sec..<Suc sec + k}. disk s2 j = replicate DISK_SECTOR_SIZE 0" by auto
  have set: "{sec} \<union> {Suc sec..<Suc sec + k} = {sec..<sec + Suc k}" by auto
  have "disk s2 sec = replicate DISK_SECTOR_SIZE 0" using updates_same(8) [OF s2(2), of sec] s1(5) by simp
  then have "\<forall>j \<in> {sec..<sec + Suc k}. disk s2 j = replicate DISK_SECTOR_SIZE 0" unfolding set [symmetric] using s2(5) by blast
  then show ?case using s1 s2 updates_trans [OF s1(2) s2(2)] unfolding set by simp
qed

lemma inode_create_ok:
  assumes ok: "fs_ok s" and sec: "sec \<in> bitmap_used (free_map s)" "sec \<notin> map_extent s" and len: "0 \<le> len" "len < 2 ^ 31"
    and mem: "mallocs s = p # q # ms" "p \<noteq> NULL" "q \<noteq> NULL"
  defines "n \<equiv> bytes_to_sectors (nat len)"
  shows "(\<exists>st s'. inode_create s sec len = Some (True, s') \<and> fs_ok s' \<and> updates s s' (map_extent s \<union> {sec} \<union> {st..<st + n}) \<and>
       st + n \<le> disk_size s \<and> bitmap_used (free_map s) \<inter> {st..<st + n} = {} \<and>
       bitmap_used (free_map s') = bitmap_used (free_map s) \<union> {st..<st + n} \<and>
       disk s' sec = encode_inode \<lparr>start = st, length_of = nat len, magic = INODE_MAGIC\<rparr> \<and>
       (\<forall>j \<in> {st..<st + n}. disk s' j = replicate DISK_SECTOR_SIZE 0) \<and> spent 2 s s' \<and> map_saved s') \<or>
    inode_create s sec len = Some (False, s\<lparr>mallocs := q # ms\<rparr>) \<and>
      (\<forall>i. i + n \<le> disk_size s \<longrightarrow> bitmap_used (free_map s) \<inter> {i..<i + n} \<noteq> {})"
proof -
  let ?s = "s\<lparr>mallocs := q # ms\<rparr>"
  have up0: "updates s ?s {}" using updates_refl [where s = s and m = "q # ms" and b = "free_map s" and A = "{}"] by simp
  have ok0: "fs_ok ?s" using fs_ok_updates [OF ok up0] ok map_extent_used [OF ok] by (simp add: fs_ok_def)
  have "has_block ?s" using mem(3) by (simp add: has_block_def can_bounce_def)
  note alloc = free_map_allocate_ok [OF ok0 disjI2 [OF this], of n]
  have start: "inode_create s sec len = Option.bind (free_map_allocate ?s n) (\<lambda>(r, s). case r of None \<Rightarrow> Some (False, s) | Some st \<Rightarrow>
      Option.bind (disk_write s sec (encode_inode \<lparr>start = st, length_of = nat len, magic = INODE_MAGIC\<rparr>)) (\<lambda>s.
      Option.bind (write_zeros s st n) (\<lambda>s. Some (True, s))))"
    using len(1) mem unfolding n_def by (simp add: inode_create_def alloc_block_def Let_def)
  show ?thesis
  proof (cases "free_map_allocate ?s n = Some (None, ?s)")
    case True
    then show ?thesis using alloc start by auto
  next
    case False
    with alloc obtain st s1 where s1: "free_map_allocate ?s n = Some (Some st, s1)" "updates ?s s1 (map_extent s)" "fs_ok s1" "st + n \<le> disk_size s"
        "bitmap_used (free_map s) \<inter> {st..<st + n} = {}" "bitmap_used (free_map s1) = bitmap_used (free_map s) \<union> {st..<st + n}" "spent 1 ?s s1" "map_saved s1"
      using updates_same(7) [OF up0] by auto
    have size1: "disk_size s1 = disk_size s" using updates_same(1) [OF s1(2)] by simp
    have "sec < disk_size s" using sec(1) ok by (auto simp: fs_ok_def bitmap_used_def)
    then obtain s2 where s2: "disk_write s1 sec (encode_inode \<lparr>start = st, length_of = nat len, magic = INODE_MAGIC\<rparr>) = Some s2" "updates s1 s2 {sec}"
        "free_map s2 = free_map s1" "mallocs s2 = mallocs s1" "disk s2 sec = encode_inode \<lparr>start = st, length_of = nat len, magic = INODE_MAGIC\<rparr>"
      using disk_write_ok [of sec s1 "encode_inode \<lparr>start = st, length_of = nat len, magic = INODE_MAGIC\<rparr>"] size1 by auto
    obtain s3 where s3: "write_zeros s2 st n = Some s3" "updates s2 s3 {st..<st + n}" "free_map s3 = free_map s2" "mallocs s3 = mallocs s2"
        "\<forall>j \<in> {st..<st + n}. disk s3 j = replicate DISK_SECTOR_SIZE 0"
      using write_zeros_ok [of st n s2] s1(4) size1 updates_same(1) [OF s2(2)] by auto
    have up: "updates s s3 (map_extent s \<union> {sec} \<union> {st..<st + n})"
      using updates_trans [OF updates_trans [OF updates_trans [OF up0 s1(2)] s2(2)] s3(2)] by simp
    have fm: "free_map s3 = free_map s1" using s3(3) s2(3) by simp
    have "bitmap_inv (free_map s3)" "bit_cnt (free_map s3) = disk_size s" using s1(3) size1 unfolding fm by (simp_all add: fs_ok_def)
    then have "fs_ok s3" using fs_ok_updates [OF ok up] s1(6) fm map_extent_used [OF ok] by auto
    moreover have "disk s3 sec = disk s2 sec" using updates_same(8) [OF s3(2), of sec] sec(1) s1(5) by blast
    moreover have "inode_create s sec len = Some (True, s3)" using start s1(1) s2(1) s3(1) by simp
    moreover have "spent 2 s s3"
    proof -
      have "spent 1 s ?s" using mem(1) by (auto simp: spent_def intro: exI [of _ 1])
      from spent_trans [OF this s1(7)] show ?thesis using s2(4) s3(4) by (simp add: spent_def numeral_2_eq_2)
    qed
    moreover have "map_saved s3"
    proof -
      have M: "map_extent s1 = map_extent s" "map_extent s2 = map_extent s" using updates_same(7) [OF s1(2)] updates_same(7) [OF s2(2)] updates_same(7) [OF up0] by simp_all
      then have "map_saved s2" using map_saved_updates [OF s1(8) s2(2)] sec(2) s2(3) by simp
      then show ?thesis using map_saved_updates [OF _ s3(2)] s3(3) M(2) map_extent_used [OF ok] s1(5) by blast
    qed
    ultimately show ?thesis using up s1(4,5,6) s2(5) s3(5) fm by (intro disjI1 exI [of _ st] exI [of _ s3]) simp
  qed
qed

text \<open>Opening an inode that is not open yet reads it from its sector.\<close>

lemma find_open_None: "(\<forall>q \<in> set ps. \<exists>i. inode_at s q = Some i \<and> sector i \<noteq> sec) \<Longrightarrow> find_open s ps sec = Some None"
  by (induction ps) auto

lemma inode_open_fresh:
  assumes "\<forall>q \<in> set (open_inodes s). \<exists>i. inode_at s q = Some i \<and> sector i \<noteq> sec" "sec < disk_size s" "mallocs s = p # ms" "p \<noteq> NULL"
  shows "inode_open s sec = Some (p, s\<lparr>mallocs := ms, open_inodes := p # open_inodes s,
    inode_at := (inode_at s)(p \<mapsto> \<lparr>sector = sec, open_cnt = 1, removed = False, deny_write_cnt = 0, data = decode_inode (disk s sec)\<rparr>)\<rparr>)"
  using assms by (simp add: inode_open_def find_open_None alloc_block_def disk_read_def)

lemma zero_bytes:
  assumes "\<forall>j \<in> extent i. disk s j = replicate DISK_SECTOR_SIZE 0"
  shows "inode_bytes s i = replicate (length_of (data i)) 0"
proof (rule nth_equalityI)
  fix k assume "k < length (inode_bytes s i)"
  then have k: "k < length_of (data i)" by simp
  then have "disk s (start (data i) + k div DISK_SECTOR_SIZE) = replicate DISK_SECTOR_SIZE 0" using assms sector_in_extent by blast
  moreover have "k mod DISK_SECTOR_SIZE < DISK_SECTOR_SIZE" by (simp add: DISK_SECTOR_SIZE_def)
  ultimately show "inode_bytes s i ! k = replicate (length_of (data i)) 0 ! k" using k by (simp add: nth_inode_bytes inode_byte_def)
qed simp

section \<open>Releasing sectors\<close>

lemma bitmap_all_iff:
  assumes "bitmap_inv b" "r + n < 2 ^ 64"
  shows "bitmap_all b r n = Some True \<longleftrightarrow> r + n \<le> bit_cnt b \<and> {r..<r + n} \<subseteq> bitmap_used b"
proof (cases "r + n \<le> bit_cnt b")
  case True
  then show ?thesis using bitmap_quantified_tests(3) [OF assms(1) True] by (auto simp: bitmap_used_def subset_iff)
next
  case False
  then have "bitmap_all b r n = None" using assms(2) by (simp add: bitmap_all_def bitmap_contains_def)
  with False show ?thesis by simp
qed

lemma free_map_release_ok:
  assumes ok: "fs_ok s" and f: "free_map_file s \<noteq> NULL" and mem: "has_block s" and small: "sec + n < 2 ^ 64"
    and keep: "map_extent s \<inter> {sec..<sec + n} = {}"
  shows "if sec + n \<le> disk_size s \<and> {sec..<sec + n} \<subseteq> bitmap_used (free_map s)
    then \<exists>s'. free_map_release s sec n = Some s' \<and> updates s s' (map_extent s) \<and> fs_ok s' \<and> spent 1 s s' \<and> map_saved s' \<and>
      bitmap_used (free_map s') = bitmap_used (free_map s) - {sec..<sec + n}
    else free_map_release s sec n = None"
proof (cases "sec + n \<le> disk_size s \<and> {sec..<sec + n} \<subseteq> bitmap_used (free_map s)")
  case True
  have inv: "bitmap_inv (free_map s)" "bit_cnt (free_map s) = disk_size s" using ok by (simp_all add: fs_ok_def)
  have all: "bitmap_all (free_map s) sec n = Some True" using True bitmap_all_iff [OF inv(1) small] inv(2) by simp
  obtain b where b: "bitmap_set_multiple (free_map s) sec n False = Some b" "bitmap_inv b" "bit_cnt b = disk_size s"
      "bitmap_used b = bitmap_used (free_map s) - {sec..<sec + n}"
    using bm.release_ok [OF inv(1), of sec n] True inv(2) by auto
  let ?s = "s\<lparr>free_map := b\<rparr>"
  have up: "updates s ?s {}" using updates_refl [where s = s and m = "mallocs s" and b = b and A = "{}"] by simp
  have sub: "map_extent s \<subseteq> bitmap_used b" using map_extent_used [OF ok] keep b(4) by blast
  have ok1: "fs_ok ?s" using fs_ok_updates [OF ok up] b sub by simp
  have "has_block ?s" using mem by (simp add: has_block_def can_bounce_def)
  from store_bitmap_ok [OF ok1 _ this] f obtain s' where
    s': "store_bitmap ?s b (free_map_file s) = Some (True, s')" "updates ?s s' (map_extent ?s)" "free_map s' = b" "spent 1 ?s s'" "map_saved s'" by auto
  have up': "updates s s' (map_extent s)" using updates_trans [OF up s'(2)] updates_same(7) [OF up] by simp
  moreover have "fs_ok s'" using fs_ok_updates [OF ok up'] s'(3) b sub by simp
  moreover have "free_map_release s sec n = Some s'" using all b(1) s'(1) by (simp add: free_map_release_def)
  moreover have "spent 1 s s'" using s'(4) by (simp add: spent_def)
  ultimately show ?thesis using True b(4) s'(3,5) by simp
next
  case False
  have inv: "bitmap_inv (free_map s)" "bit_cnt (free_map s) = disk_size s" using ok by (simp_all add: fs_ok_def)
  have "bitmap_all (free_map s) sec n \<noteq> Some True" using False bitmap_all_iff [OF inv(1) small] inv(2) by simp
  then have "free_map_release s sec n = None" by (cases "bitmap_all (free_map s) sec n") (auto simp: free_map_release_def)
  with False show ?thesis by simp
qed

section \<open>Properties\<close>

text \<open>C36: The contents of an inode are an array of bytes.  \<open>inode_read_at\<close> returns a prefix of the window asked for, all of it
  up to the end of the file unless memory runs out.  \<open>inode_write_at\<close> replaces exactly the bytes it reports to have
  written, all that fit in the file unless memory runs out, none when writes are denied; it never grows the file,
  and the contents of an inode on other sectors do not change.\<close>

theorem inode_io_correct:
  assumes p: "inode_at s p = Some i" and ok: "inode_ok s i"
  shows "(\<exists>n m. inode_read_at s p sz off = Some (take n (drop off (inode_bytes s i)), s\<lparr>mallocs := m\<rparr>) \<and>
       n \<le> min sz (length_of (data i) - off) \<and> (has_block s \<longrightarrow> n = min sz (length_of (data i) - off))) \<and>
    (\<exists>n s'. inode_write_at s p buffer off = Some (n, s') \<and> inode_ok s' i \<and> inode_at s' = inode_at s \<and>
       n \<le> min (length buffer) (length_of (data i) - off) \<and>
       (if deny_write_cnt i = 0 then has_block s \<longrightarrow> n = min (length buffer) (length_of (data i) - off) else n = 0) \<and>
       inode_bytes s' i = splice_at (inode_bytes s i) off (take n buffer) \<and>
       (\<forall>j. extent j \<inter> extent i = {} \<longrightarrow> inode_bytes s' j = inode_bytes s j))"
proof -
  obtain n s' where w: "inode_write_at s p buffer off = Some (n, s')" "written s s' i off (take n buffer)" "n \<le> length buffer"
      "n \<le> length_of (data i) - off"
      "if deny_write_cnt i = 0 then can_bounce s False \<longrightarrow> n = min (length buffer) (length_of (data i) - off) else n = 0 \<and> s' = s"
    using inode_write_at_ok [OF p ok, of buffer off] by blast
  have up: "updates s s' (extent i)" using w(2) by (rule written_updates)
  have "inode_bytes s' j = inode_bytes s j" if "extent j \<inter> extent i = {}" for j
  proof -
    have "inode_byte s' j k = inode_byte s j k" if "k < length_of (data j)" for k
    proof -
      have "start (data j) + k div DISK_SECTOR_SIZE \<notin> extent i" using sector_in_extent [OF that] \<open>extent j \<inter> extent i = {}\<close> by blast
      from updates_same(8) [OF up this] show ?thesis by (simp add: inode_byte_def)
    qed
    then show ?thesis by (simp add: inode_bytes_def)
  qed
  then have W: "\<exists>n s'. inode_write_at s p buffer off = Some (n, s') \<and> inode_ok s' i \<and> inode_at s' = inode_at s \<and>
       n \<le> min (length buffer) (length_of (data i) - off) \<and>
       (if deny_write_cnt i = 0 then has_block s \<longrightarrow> n = min (length buffer) (length_of (data i) - off) else n = 0) \<and>
       inode_bytes s' i = splice_at (inode_bytes s i) off (take n buffer) \<and>
       (\<forall>j. extent j \<inter> extent i = {} \<longrightarrow> inode_bytes s' j = inode_bytes s j)"
    using w updates_same(4) [OF up] by (intro exI [of _ n] exI [of _ s']) (simp add: written_def has_block_def split: if_splits)
  obtain n m where r: "inode_read_at s p sz off = Some (take n (drop off (inode_bytes s i)), s\<lparr>mallocs := m\<rparr>)" "n \<le> sz"
      "n \<le> length_of (data i) - off" "can_bounce s False \<longrightarrow> n = min sz (length_of (data i) - off)"
    using inode_read_at_ok [OF p ok, of sz off] by blast
  show ?thesis
    by (rule conjI [OF _ W], intro exI [of _ n] exI [of _ m]) (use r in \<open>simp add: has_block_def\<close>)
qed

text \<open>Creating an inode.  With memory available \<open>inode_create\<close> succeeds exactly if the disk has a free run of sectors of the
  size needed.  It then takes a run that nothing used before, and opening the new inode gives a file of the requested
  length that reads as zeros, on that run; every sector in use before keeps its contents, but for the inode's own and
  the free map's.  Otherwise it returns false and the disk and the free map are unchanged.\<close>

theorem inode_create_correct:
  assumes ok: "fs_ok s" and sec: "sec \<in> bitmap_used (free_map s)" "sec \<notin> map_extent s" and len: "0 \<le> len" "len < 2 ^ 31"
    and mem: "mallocs s = p # q # ms" "p \<noteq> NULL" "q \<noteq> NULL"
    and closed: "\<forall>r \<in> set (open_inodes s). \<exists>i. inode_at s r = Some i \<and> sector i \<noteq> sec"
  shows "\<exists>success s'. inode_create s sec len = Some (success, s') \<and> fs_ok s' \<and>
    (success \<longleftrightarrow> (\<exists>st. st + bytes_to_sectors (nat len) \<le> disk_size s \<and> bitmap_used (free_map s) \<inter> {st..<st + bytes_to_sectors (nat len)} = {})) \<and>
    (\<not> success \<longrightarrow> disk s' = disk s \<and> free_map s' = free_map s) \<and>
    (success \<longrightarrow> (\<forall>u \<in> bitmap_used (free_map s) - {sec} - map_extent s. disk s' u = disk s u) \<and>
      (\<forall>r rs. r \<noteq> NULL \<longrightarrow> (\<exists>s2 i. inode_open (s'\<lparr>mallocs := r # rs\<rparr>) sec = Some (r, s2) \<and> inode_at s2 r = Some i \<and>
         length_of (data i) = nat len \<and> inode_bytes s2 i = replicate (nat len) 0 \<and> inode_ok s2 i \<and>
         extent i \<inter> bitmap_used (free_map s) = {} \<and> bitmap_used (free_map s') = bitmap_used (free_map s) \<union> extent i)))"
  using inode_create_ok [OF ok sec len mem]
proof (elim disjE exE conjE)
  let ?n = "bytes_to_sectors (nat len)"
  fix st s'
  assume c: "inode_create s sec len = Some (True, s')" "fs_ok s'" "updates s s' (map_extent s \<union> {sec} \<union> {st..<st + ?n})"
    "st + ?n \<le> disk_size s" "bitmap_used (free_map s) \<inter> {st..<st + ?n} = {}" "bitmap_used (free_map s') = bitmap_used (free_map s) \<union> {st..<st + ?n}"
    "disk s' sec = encode_inode \<lparr>start = st, length_of = nat len, magic = INODE_MAGIC\<rparr>" "\<forall>j \<in> {st..<st + ?n}. disk s' j = replicate DISK_SECTOR_SIZE 0"
  have keep: "\<forall>u \<in> bitmap_used (free_map s) - {sec} - map_extent s. disk s' u = disk s u"
    using updates_same(8) [OF c(3)] c(5) by blast
  have size: "disk_size s' = disk_size s" "open_inodes s' = open_inodes s" "inode_at s' = inode_at s" using updates_same [OF c(3)] by simp_all
  have secs: "sec < disk_size s" using sec(1) ok by (auto simp: fs_ok_def bitmap_used_def)
  have "st < 2 ^ 32" using c(4) fs_okD(1) [OF ok] by linarith
  then have dec: "decode_inode (disk s' sec) = \<lparr>start = st, length_of = nat len, magic = INODE_MAGIC\<rparr>"
    unfolding c(7) using len by (intro decode_encode_inode) (simp_all add: INODE_MAGIC_def)
  have opened: "\<exists>s2 i. inode_open (s'\<lparr>mallocs := r # rs\<rparr>) sec = Some (r, s2) \<and> inode_at s2 r = Some i \<and>
         length_of (data i) = nat len \<and> inode_bytes s2 i = replicate (nat len) 0 \<and> inode_ok s2 i \<and>
         extent i \<inter> bitmap_used (free_map s) = {} \<and> bitmap_used (free_map s') = bitmap_used (free_map s) \<union> extent i" if "r \<noteq> NULL" for r rs
  proof -
    let ?i = "\<lparr>sector = sec, open_cnt = 1, removed = False, deny_write_cnt = 0, data = decode_inode (disk s' sec)\<rparr>"
    let ?s2 = "s'\<lparr>mallocs := rs, open_inodes := r # open_inodes s', inode_at := (inode_at s')(r \<mapsto> ?i)\<rparr>"
    have run: "inode_open (s'\<lparr>mallocs := r # rs\<rparr>) sec = Some (r, ?s2)"
      using inode_open_fresh [of "s'\<lparr>mallocs := r # rs\<rparr>" sec r rs] closed secs that size by simp
    have ext: "extent ?i = {st..<st + ?n}" by (simp add: extent_def dec)
    have "inode_bytes ?s2 ?i = replicate (nat len) 0" using zero_bytes [of ?i ?s2] c(8) ext by (simp add: dec)
    moreover have "inode_ok ?s2 ?i"
      using fs_okD [OF c(2)] c(4,8) size len unfolding inode_ok_def ext by (auto simp: dec)
    ultimately show ?thesis using run ext c(5,6) by (intro exI [of _ ?s2] exI [of _ ?i]) (auto simp: dec)
  qed
  show ?thesis using c(1,2,4,5) keep opened by (intro exI [of _ True] exI [of _ s']) blast
next
  let ?s = "s\<lparr>mallocs := q # ms\<rparr>"
  assume c: "inode_create s sec len = Some (False, ?s)"
    "\<forall>i. i + bytes_to_sectors (nat len) \<le> disk_size s \<longrightarrow> bitmap_used (free_map s) \<inter> {i..<i + bytes_to_sectors (nat len)} \<noteq> {}"
  have up: "updates s ?s {}" using updates_refl [where s = s and m = "q # ms" and b = "free_map s" and A = "{}"] by simp
  have "fs_ok ?s" using fs_ok_updates [OF ok up] ok map_extent_used [OF ok] by (simp add: fs_ok_def)
  then show ?thesis using c by (intro exI [of _ False] exI [of _ ?s]) auto
qed

text \<open>Releasing sectors stops the kernel unless all of them are in use, so that no sector is freed twice, and otherwise frees
  exactly them.\<close>

theorem free_map_release_correct:
  assumes "fs_ok s" "free_map_file s \<noteq> NULL" "has_block s" "sec + n < 2 ^ 64" "map_extent s \<inter> {sec..<sec + n} = {}"
  shows "if sec + n \<le> disk_size s \<and> {sec..<sec + n} \<subseteq> bitmap_used (free_map s)
    then \<exists>s'. free_map_release s sec n = Some s' \<and> fs_ok s' \<and> (\<forall>u. u \<notin> map_extent s \<longrightarrow> disk s' u = disk s u) \<and>
      bitmap_used (free_map s') = bitmap_used (free_map s) - {sec..<sec + n}
    else free_map_release s sec n = None"
  using free_map_release_ok [OF assms] updates_same(8) by (auto split: if_splits)

text \<open>A disk of eight sectors, the first three in use; sector 2 holds the inode of the free map's file, on sector 3 when it is open.\<close>

definition demo_inode :: inode where
  "demo_inode = \<lparr>sector = 2, open_cnt = 1, removed = False, deny_write_cnt = 0, data = \<lparr>start = 3, length_of = 8, magic = INODE_MAGIC\<rparr>\<rparr>"

definition demo_fs :: "bool \<Rightarrow> fsys" where
  "demo_fs map_open = \<lparr>disk = (\<lambda>_. replicate 512 0), disk_size = 8, free_map = \<lparr>bit_cnt = 8, bits = [0b1111]\<rparr>,
     free_map_file = (if map_open then 48 else NULL), open_inodes = [16],
     inode_at = [16 \<mapsto> demo_inode],
     file_at = [48 \<mapsto> \<lparr>file_inode = 16, pos = 0, deny_write = False, dup_count = 1, mapping_cnt = 0\<rparr>], dir_at = Map.empty, mallocs = [64, 80, 96]\<rparr>"

lemma demo_used: "bitmap_used \<lparr>bit_cnt = 8, bits = [0b1111]\<rparr> = {0, 1, 2, 3}"
proof -
  have "bitmap_used \<lparr>bit_cnt = 8, bits = [0b1111]\<rparr> = set (filter (bit_at \<lparr>bit_cnt = 8, bits = [0b1111]\<rparr>) [0..<8])"
    by (auto simp: bitmap_used_def)
  also have "\<dots> = {0, 1, 2, 3}" by (simp add: upt_rec bit_at_def bit_numeral_rec) (simp add: numeral_2_eq_2 numeral_3_eq_3)
  finally show ?thesis .
qed

lemma demo_fs_inode:
  "inode_at (demo_fs b) 16 = Some demo_inode" "inode_ok (demo_fs b) demo_inode" "extent demo_inode = {3}" "has_block (demo_fs b)"
  by (auto simp: demo_inode_def demo_fs_def inode_ok_def extent_def bytes_to_sectors_def DISK_SECTOR_SIZE_def has_block_def can_bounce_def)

lemma demo_fs_ok: "fs_ok (demo_fs b)" "map_extent (demo_fs b) = (if b then {3} else {})"
proof -
  show "map_extent (demo_fs b) = (if b then {3} else {})" using demo_fs_inode(3) by (simp add: map_extent_def demo_fs_def)
  have bm: "bitmap_inv (free_map (demo_fs b))" "bitmap_used (free_map (demo_fs b)) = {0, 1, 2, 3}"
    by (simp_all add: demo_fs_def demo_used bitmap_inv_def elem_cnt_def size_t_def ELEM_BITS_def)
  have "byte_cnt 8 = 8" by (simp add: byte_cnt_def elem_cnt_def size_t_def ELEM_BITS_def)
  then have "map_file_ok (demo_fs b) demo_inode"
    using demo_fs_inode(2) demo_fs_inode(3) bm(2) by (simp add: map_file_ok_def) (simp add: demo_fs_def demo_inode_def)
  then show "fs_ok (demo_fs b)" using bm(1) unfolding fs_ok_def by (auto simp: demo_fs_def DISK_SECTOR_SIZE_def)
qed

theorem inode_io_correct_witness:
  "(\<exists>m. inode_read_at (demo_fs True) 16 3 6 = Some ([0, 0], (demo_fs True)\<lparr>mallocs := m\<rparr>)) \<and>
   (\<exists>s'. inode_write_at (demo_fs True) 16 [1, 2, 3] 6 = Some (2, s'))"
proof -
  have "inode_bytes (demo_fs True) demo_inode = replicate 8 0"
    using zero_bytes [of demo_inode "demo_fs True"] demo_fs_inode(3) by (simp add: demo_inode_def demo_fs_def DISK_SECTOR_SIZE_def)
  moreover have "length_of (data demo_inode) = 8" "deny_write_cnt demo_inode = 0" by (simp_all add: demo_inode_def)
  ultimately show ?thesis
    using inode_io_correct [OF demo_fs_inode(1) demo_fs_inode(2), of True 3 6 "[1, 2, 3]"] demo_fs_inode(4) [of True] by (auto simp: numeral_2_eq_2)
qed

theorem inode_create_correct_witness: "\<exists>s'. inode_create (demo_fs False) 1 600 = Some (True, s') \<and> fs_ok s'"
proof -
  have "\<exists>st. st + bytes_to_sectors (nat 600) \<le> disk_size (demo_fs False) \<and>
      bitmap_used (free_map (demo_fs False)) \<inter> {st..<st + bytes_to_sectors (nat 600)} = {}"
    by (rule exI [of _ 4]) (auto simp: demo_fs_def demo_used bytes_to_sectors_def DISK_SECTOR_SIZE_def)
  moreover have c: "\<forall>r \<in> set (open_inodes (demo_fs False)). \<exists>i. inode_at (demo_fs False) r = Some i \<and> sector i \<noteq> 1" by (simp add: demo_fs_def demo_inode_def)
  moreover have m: "mallocs (demo_fs False) = 64 # 80 # [96]" "1 \<in> bitmap_used (free_map (demo_fs False))" by (simp_all add: demo_fs_def demo_used)
  moreover have "1 \<notin> map_extent (demo_fs False)" by (simp add: demo_fs_ok(2))
  moreover have len: "(0::int) \<le> 600" "(600::int) < 2 ^ 31" "(64::nat) \<noteq> NULL" "(80::nat) \<noteq> NULL" by simp_all
  ultimately obtain ok s' where "inode_create (demo_fs False) 1 600 = Some (ok, s')" "fs_ok s'" ok
    using inode_create_correct [OF demo_fs_ok(1) m(2) _ len(1,2) m(1) len(3,4) c] by blast
  then show ?thesis by auto
qed

theorem free_map_release_correct_witness:
  "(\<exists>s'. free_map_release (demo_fs True) 1 2 = Some s' \<and> bitmap_used (free_map s') = {0, 3}) \<and> free_map_release (demo_fs True) 4 2 = None"
proof
  have u: "bitmap_used (free_map (demo_fs True)) = {0, 1, 2, 3}" "disk_size (demo_fs True) = 8" "free_map_file (demo_fs True) \<noteq> NULL"
    by (simp_all add: demo_fs_def demo_used)
  have sets: "{1..<1 + 2} = {1, 2 :: nat}" "{0, 1, 2, 3} - {1, 2 :: nat} = {0, 3}" "4 \<in> {4..<4 + 2 :: nat}" "4 \<notin> {0, 1, 2, 3 :: nat}" by auto
  have m: "map_extent (demo_fs True) = {3}" by (simp add: demo_fs_ok(2))
  show "\<exists>s'. free_map_release (demo_fs True) 1 2 = Some s' \<and> bitmap_used (free_map s') = {0, 3}"
    using free_map_release_correct [OF demo_fs_ok(1) u(3) demo_fs_inode(4), of 1 2] unfolding m u(1,2) sets by auto
  have no: "\<not> (4 + 2 \<le> disk_size (demo_fs True) \<and> {4..<4 + 2} \<subseteq> bitmap_used (free_map (demo_fs True)))" using sets(3,4) unfolding u by blast
  have "(4::nat) + 2 < 2 ^ 64" "map_extent (demo_fs True) \<inter> {4..<4 + 2} = {}" unfolding m by auto
  from free_map_release_correct [OF demo_fs_ok(1) u(3) demo_fs_inode(4) this] show "free_map_release (demo_fs True) 4 2 = None"
    unfolding if_not_P [OF no] .
qed

end
