(* ===== verification/Directory_Correct.thy ===== *)
theory Directory_Correct
  imports Directory Inode_Correct
begin

text \<open>
  A directory is a finite map from names to sectors: \<open>lookup\<close> applies it, \<open>dir_add\<close> and \<open>dir_remove\<close> update it.
  The map is read off the sequence of entries in the directory's inode.
\<close>

section \<open>Entries as bytes\<close>

lemma length_encode_entry [simp]: "length (entry_name e) = NAME_MAX + 1 \<Longrightarrow> length (encode_entry e) = ENTRY_SIZE"
  by (simp add: encode_entry_def ENTRY_SIZE_def)

lemma decode_encode_entry:
  assumes "inode_sector e < 2 ^ 32" "length (entry_name e) = NAME_MAX + 1"
  shows "decode_entry (encode_entry e) = e"
proof -
  have n: "(le32 a @ b @ [c]) ! (4 + (NAME_MAX + 1)) = c" if "length b = NAME_MAX + 1" for a b c
    using that by (simp add: nth_append NAME_MAX_def)
  show ?thesis
    using from_le32 [OF assms(1), of "entry_name e @ [of_bool (in_use e)]"] assms(2) n [OF assms(2)] unfolding decode_entry_def encode_entry_def
    by simp
qed

lemma length_decode_name: "length bs = ENTRY_SIZE \<Longrightarrow> length (entry_name (decode_entry bs)) = NAME_MAX + 1"
  by (simp add: decode_entry_def ENTRY_SIZE_def)

definition name_of :: "dir_entry \<Rightarrow> 8 word list" where
  "name_of e = takeWhile (\<lambda>b. b \<noteq> 0) (entry_name e)"

definition has_name :: "8 word list \<Rightarrow> dir_entry \<Rightarrow> bool" where
  "has_name name e \<longleftrightarrow> in_use e \<and> name_of e = name"

lemma same_name: "0 \<notin> set name \<Longrightarrow> 0 \<in> set bs \<Longrightarrow> same_name name bs = Some (takeWhile (\<lambda>b. b \<noteq> 0) bs = name)"
  by (induction name bs rule: same_name.induct) auto

lemma set_name:
  assumes "length name \<le> NAME_MAX" "length dst = NAME_MAX + 1" "0 \<notin> set name"
  shows "length (set_name dst name) = NAME_MAX + 1" "takeWhile (\<lambda>b. b \<noteq> 0) (set_name dst name) = name" "0 \<in> set (set_name dst name)"
proof -
  have eq: "set_name dst name = name @ 0 # drop (length name + 1) dst" using assms(1,2) by (simp add: set_name_def)
  then show "length (set_name dst name) = NAME_MAX + 1" "0 \<in> set (set_name dst name)" using assms by simp_all
  have "\<forall>x \<in> set name. x \<noteq> 0" using assms(3) by metis
  then show "takeWhile (\<lambda>b. b \<noteq> 0) (set_name dst name) = name" unfolding eq by (simp add: takeWhile_append2)
qed

section \<open>The map of a sequence of entries\<close>

definition entries_map :: "dir_entry list \<Rightarrow> 8 word list \<rightharpoonup> nat" where
  "entries_map es name = map_option inode_sector (find (has_name name) es)"

definition entries_ok :: "dir_entry list \<Rightarrow> bool" where
  "entries_ok es \<longleftrightarrow> (\<forall>e \<in> set es. in_use e \<longrightarrow> 0 \<in> set (entry_name e)) \<and>
     (\<forall>j < length es. \<forall>k < length es. in_use (es ! j) \<and> in_use (es ! k) \<and> name_of (es ! j) = name_of (es ! k) \<longrightarrow> j = k)"

lemma entries_map_None: "entries_map es name = None \<longleftrightarrow> (\<forall>k < length es. \<not> has_name name (es ! k))"
  by (auto simp: entries_map_def find_None_iff in_set_conv_nth)

lemma entries_map_at:
  assumes "entries_ok es" "k < length es" "has_name name (es ! k)"
  shows "entries_map es name = Some (inode_sector (es ! k))"
proof -
  have "find (has_name name) es = Some (es ! k)"
    unfolding find_Some_iff
  proof (intro exI [of _ k] conjI allI impI notI)
    fix j assume "j < k" "has_name name (es ! j)"
    then have "j = k" using assms less_trans [OF \<open>j < k\<close> assms(2)] unfolding entries_ok_def has_name_def by metis
    then show False using \<open>j < k\<close> by simp
  qed (use assms in simp_all)
  then show ?thesis by (simp add: entries_map_def)
qed

lemma entries_add:
  assumes ok: "entries_ok es" and j: "j < length es" "\<not> in_use (es ! j)" and e: "in_use e" "0 \<in> set (entry_name e)" "entries_map es (name_of e) = None"
  shows "entries_ok (es[j := e])" "entries_map (es[j := e]) = (entries_map es)(name_of e \<mapsto> inode_sector e)"
proof -
  have no: "\<not> (in_use (es ! k) \<and> name_of (es ! k) = name_of e)" if "k < length es" for k
    using e(3) that unfolding entries_map_None has_name_def by blast
  show ok': "entries_ok (es[j := e])" unfolding entries_ok_def length_list_update
  proof (intro conjI allI ballI impI)
    fix x assume "x \<in> set (es[j := e])" "in_use x"
    then show "0 \<in> set (entry_name x)" using ok e(2) set_update_subset_insert [of es j e] by (auto simp: entries_ok_def)
  next
    fix a b assume "a < length es" "b < length es" "in_use (es[j := e] ! a) \<and> in_use (es[j := e] ! b) \<and> name_of (es[j := e] ! a) = name_of (es[j := e] ! b)"
    then show "a = b" using ok no [of a] no [of b] unfolding entries_ok_def by (cases "a = j"; cases "b = j") simp_all
  qed
  show "entries_map (es[j := e]) = (entries_map es)(name_of e \<mapsto> inode_sector e)"
  proof
    fix n
    show "entries_map (es[j := e]) n = ((entries_map es)(name_of e \<mapsto> inode_sector e)) n"
    proof (cases "n = name_of e")
      case True
      then show ?thesis using entries_map_at [OF ok', of j n] j e(1) by (simp add: has_name_def)
    next
      case False
      show ?thesis
      proof (cases "\<exists>k < length es. has_name n (es ! k)")
        case True
        then obtain k where k: "k < length es" "has_name n (es ! k)" by blast
        then have "k \<noteq> j" using j(2) by (auto simp: has_name_def)
        then show ?thesis using entries_map_at [OF ok k] entries_map_at [OF ok', of k n] k False by simp
      next
        case none: False
        have "\<not> has_name n (es[j := e] ! k)" if "k < length es" for k
          using none that False by (cases "k = j") (simp_all add: has_name_def)
        then have "\<forall>k < length es. \<not> has_name n (es[j := e] ! k)" by blast
        then show ?thesis using none False entries_map_None [of es n] entries_map_None [of "es[j := e]" n] by simp
      qed
    qed
  qed
qed

lemma entries_remove:
  assumes ok: "entries_ok es" and j: "j < length es" "has_name name (es ! j)" and e: "\<not> in_use e"
  shows "entries_ok (es[j := e])" "entries_map (es[j := e]) = (entries_map es)(name := None)"
proof -
  show ok': "entries_ok (es[j := e])" unfolding entries_ok_def length_list_update
  proof (intro conjI allI ballI impI)
    fix x assume "x \<in> set (es[j := e])" "in_use x"
    then show "0 \<in> set (entry_name x)" using ok e set_update_subset_insert [of es j e] by (auto simp: entries_ok_def)
  next
    fix a b assume "a < length es" "b < length es" "in_use (es[j := e] ! a) \<and> in_use (es[j := e] ! b) \<and> name_of (es[j := e] ! a) = name_of (es[j := e] ! b)"
    then show "a = b" using ok e unfolding entries_ok_def by (cases "a = j"; cases "b = j") simp_all
  qed
  show "entries_map (es[j := e]) = (entries_map es)(name := None)"
  proof
    fix n
    show "entries_map (es[j := e]) n = ((entries_map es)(name := None)) n"
    proof (cases "\<exists>k < length es. k \<noteq> j \<and> has_name n (es ! k)")
      case True
      then obtain k where k: "k < length es" "k \<noteq> j" "has_name n (es ! k)" by blast
      have "n \<noteq> name" using ok j k unfolding entries_ok_def has_name_def by blast
      then show ?thesis using entries_map_at [OF ok k(1,3)] entries_map_at [OF ok', of k n] k by simp
    next
      case False
      have "\<not> has_name n (es[j := e] ! k)" if "k < length es" for k using False that e by (cases "k = j") (auto simp: has_name_def)
      then have "entries_map (es[j := e]) n = None" unfolding entries_map_None by simp
      moreover have "n \<noteq> name \<Longrightarrow> entries_map es n = None" unfolding entries_map_None using False j(2) by (metis has_name_def)
      ultimately show ?thesis by simp
    qed
  qed
qed

section \<open>The entries of a directory\<close>

definition slots :: "inode \<Rightarrow> nat" where
  "slots i = length_of (data i) div ENTRY_SIZE"

definition slot_bytes :: "8 word list \<Rightarrow> nat \<Rightarrow> 8 word list" where
  "slot_bytes bs k = take ENTRY_SIZE (drop (k * ENTRY_SIZE) bs)"

definition entries :: "fsys \<Rightarrow> inode \<Rightarrow> dir_entry list" where
  "entries s i = map (\<lambda>k. decode_entry (slot_bytes (inode_bytes s i) k)) [0..<slots i]"

definition dir_ok :: "fsys \<Rightarrow> inode \<Rightarrow> bool" where
  "dir_ok s i \<longleftrightarrow> inode_ok s i \<and> entries_ok (entries s i)"

definition dir_map :: "fsys \<Rightarrow> inode \<Rightarrow> 8 word list \<rightharpoonup> nat" where
  "dir_map s i = entries_map (entries s i)"

lemma length_entries [simp]: "length (entries s i) = slots i"
  by (simp add: entries_def)

lemma slot_in: "k < slots i \<longleftrightarrow> k * ENTRY_SIZE + ENTRY_SIZE \<le> length_of (data i)"
proof -
  have "k < slots i \<longleftrightarrow> Suc k \<le> length_of (data i) div ENTRY_SIZE" by (simp add: slots_def Suc_le_eq)
  also have "\<dots> \<longleftrightarrow> Suc k * ENTRY_SIZE \<le> length_of (data i)" by (rule less_eq_div_iff_mult_less_eq) (simp add: ENTRY_SIZE_def)
  finally show ?thesis by (simp add: add.commute)
qed

lemma nth_entries: "k < slots i \<Longrightarrow> entries s i ! k = decode_entry (slot_bytes (inode_bytes s i) k)"
  by (simp add: entries_def)

lemma length_slot: "k < slots i \<Longrightarrow> length (slot_bytes (inode_bytes s i) k) = ENTRY_SIZE"
  by (simp add: slot_bytes_def slot_in)

lemma entries_name_length: "e \<in> set (entries s i) \<Longrightarrow> length (entry_name e) = NAME_MAX + 1"
  using length_slot length_decode_name by (fastforce simp: entries_def)

lemma slot_of_splice:
  assumes "j < slots i" "k < slots i" "length bs = length_of (data i)" "length new = ENTRY_SIZE"
  shows "slot_bytes (splice_at bs (j * ENTRY_SIZE) new) k = (if k = j then new else slot_bytes bs k)"
proof (rule nth_equalityI)
  let ?E = ENTRY_SIZE
  have jk: "j * ?E + ?E \<le> length bs" "k * ?E + ?E \<le> length bs" using assms(1-3) by (simp_all add: slot_in)
  then have len: "length (splice_at bs (j * ?E) new) = length bs" using assms(4) by simp
  show "length (slot_bytes (splice_at bs (j * ?E) new) k) = length (if k = j then new else slot_bytes bs k)"
    using jk len assms(4) by (simp add: slot_bytes_def)
  fix a assume "a < length (slot_bytes (splice_at bs (j * ?E) new) k)"
  then have a: "a < ?E" by (simp add: slot_bytes_def)
  have nth: "slot_bytes (splice_at bs (j * ?E) new) k ! a = splice_at bs (j * ?E) new ! (k * ?E + a)" using a jk len by (simp add: slot_bytes_def)
  consider "k = j" | "k < j" | "j < k" by linarith
  then show "slot_bytes (splice_at bs (j * ?E) new) k ! a = (if k = j then new else slot_bytes bs k) ! a"
  proof cases
    case 1
    then show ?thesis unfolding nth using nth_splice_at [of "j * ?E" new bs "k * ?E + a"] jk a assms(4) by simp
  next
    case 2
    then have "(k + 1) * ?E \<le> j * ?E" by (intro mult_le_mono1) simp
    then have "k * ?E + a < j * ?E" using a by simp
    then show ?thesis unfolding nth using 2 nth_splice_at [of "j * ?E" new bs "k * ?E + a"] jk a assms(4) by (simp add: slot_bytes_def)
  next
    case 3
    then have "(j + 1) * ?E \<le> k * ?E" by (intro mult_le_mono1) simp
    then have "j * ?E + ?E \<le> k * ?E + a" by simp
    then show ?thesis unfolding nth using 3 nth_splice_at [of "j * ?E" new bs "k * ?E + a"] jk a assms(4) by (simp add: slot_bytes_def)
  qed
qed

lemma entries_written:
  assumes "written s s' i (j * ENTRY_SIZE) (encode_entry e)" "j < slots i" "inode_sector e < 2 ^ 32" "length (entry_name e) = NAME_MAX + 1"
  shows "entries s' i = (entries s i)[j := e]"
proof (rule nth_equalityI)
  fix k assume "k < length (entries s' i)"
  then have k: "k < slots i" by simp
  have "inode_bytes s' i = splice_at (inode_bytes s i) (j * ENTRY_SIZE) (encode_entry e)" using assms(1) by (simp add: written_def)
  then have "slot_bytes (inode_bytes s' i) k = (if k = j then encode_entry e else slot_bytes (inode_bytes s i) k)"
    using slot_of_splice [OF assms(2) k, of "inode_bytes s i" "encode_entry e"] assms(4) by simp
  then show "entries s' i ! k = (entries s i)[j := e] ! k" using k decode_encode_entry [OF assms(3,4)] by (auto simp: nth_entries nth_list_update)
qed simp

text \<open>What is written behind the last whole entry changes none of them.\<close>

lemma entries_written_behind:
  assumes "written s s' i (slots i * ENTRY_SIZE) new" "slots i * ENTRY_SIZE + length new \<le> length_of (data i)"
  shows "entries s' i = entries s i"
proof (rule nth_equalityI)
  fix k assume "k < length (entries s' i)"
  then have k: "k < slots i" by simp
  have b: "inode_bytes s' i = splice_at (inode_bytes s i) (slots i * ENTRY_SIZE) new" using assms(1) by (simp add: written_def)
  have le: "(k + 1) * ENTRY_SIZE \<le> slots i * ENTRY_SIZE" using k by (intro mult_le_mono1) simp
  have "take n (drop m (splice_at bs off new)) = take n (drop m bs)" if "m + n \<le> off" "off \<le> length bs" for n m off and bs :: "8 word list"
  proof -
    have "take n (drop m (splice_at bs off new)) = drop m (take (m + n) (take off bs))" using that by (simp add: splice_at_def take_drop add.commute)
    then show ?thesis using that by (simp add: take_drop add.commute min_absorb1)
  qed
  from this [of "k * ENTRY_SIZE" ENTRY_SIZE "slots i * ENTRY_SIZE" "inode_bytes s i"] le assms(2) show "entries s' i ! k = entries s i ! k"
    unfolding nth_entries [OF k] slot_bytes_def b by (simp add: add.commute)
qed simp

lemma entries_bytes: "inode_bytes s' i = inode_bytes s i \<Longrightarrow> entries s' i = entries s i"
  by (simp add: entries_def)

lemma dir_mallocs [simp]: "entries (s\<lparr>mallocs := m\<rparr>) i = entries s i" "dir_ok (s\<lparr>mallocs := m\<rparr>) i = dir_ok s i"
  using entries_bytes [of "s\<lparr>mallocs := m\<rparr>" i s] by (simp_all add: dir_ok_def)

section \<open>Scanning\<close>

lemma read_entry:
  assumes i: "inode_at s p = Some i" "inode_ok s i" and mem: "blocks n s" "0 < n"
  shows "\<exists>m. inode_read_at s p ENTRY_SIZE (k * ENTRY_SIZE) =
      Some (take ENTRY_SIZE (drop (k * ENTRY_SIZE) (inode_bytes s i)), s\<lparr>mallocs := m\<rparr>) \<and> spent 1 s (s\<lparr>mallocs := m\<rparr>)"
proof -
  let ?ofs = "k * ENTRY_SIZE"
  obtain m where "inode_read_at s p ENTRY_SIZE ?ofs = Some (take (min ENTRY_SIZE (length_of (data i) - ?ofs)) (drop ?ofs (inode_bytes s i)), s\<lparr>mallocs := m\<rparr>)"
      "took s False (s\<lparr>mallocs := m\<rparr>)"
    using inode_read_at_ok [OF i, of ENTRY_SIZE ?ofs] blocks_can_bounce [OF mem] by blast
  moreover have "take (min ENTRY_SIZE (length_of (data i) - ?ofs)) (drop ?ofs (inode_bytes s i)) = take ENTRY_SIZE (drop ?ofs (inode_bytes s i))"
    by (simp add: min_def)
  ultimately show ?thesis using took_spent by auto
qed

text \<open>Both loops run over the entries from \<open>k\<close> on and use one block for each read.\<close>

lemma lookup_loop_ok:
  assumes "inode_at s p = Some i" "dir_ok s i" "0 \<notin> set name" "k \<le> slots i" "blocks (slots i - k + 1) s"
  shows "\<exists>m. lookup_loop s p name (k * ENTRY_SIZE) =
      Some (map_option (\<lambda>j. (entries s i ! j, j * ENTRY_SIZE)) (find (\<lambda>j. has_name name (entries s i ! j)) [k..<slots i]), s\<lparr>mallocs := m\<rparr>) \<and>
      spent (slots i - k + 1) s (s\<lparr>mallocs := m\<rparr>)"
  using assms
proof (induction "slots i - k" arbitrary: s k)
  case 0
  then have k: "k = slots i" by simp
  obtain m where m: "inode_read_at s p ENTRY_SIZE (k * ENTRY_SIZE) = Some (take ENTRY_SIZE (drop (k * ENTRY_SIZE) (inode_bytes s i)), s\<lparr>mallocs := m\<rparr>)"
      "spent 1 s (s\<lparr>mallocs := m\<rparr>)"
    using read_entry [OF 0(2) _ 0(6), of k] 0(3) by (auto simp: dir_ok_def)
  have "\<not> k * ENTRY_SIZE + ENTRY_SIZE \<le> length_of (data i)" using k slot_in [of k i] by simp
  then have "length (take ENTRY_SIZE (drop (k * ENTRY_SIZE) (inode_bytes s i))) \<noteq> ENTRY_SIZE" by (simp add: ENTRY_SIZE_def)
  then show ?case using m k by (subst lookup_loop.simps) auto
next
  case (Suc n)
  then have k: "k < slots i" by simp
  let ?e = "entries s i ! k"
  obtain m where m: "inode_read_at s p ENTRY_SIZE (k * ENTRY_SIZE) = Some (slot_bytes (inode_bytes s i) k, s\<lparr>mallocs := m\<rparr>)" "spent 1 s (s\<lparr>mallocs := m\<rparr>)"
    using read_entry [OF Suc(3) _ Suc(7), of k] Suc(4) by (auto simp: dir_ok_def slot_bytes_def)
  let ?s = "s\<lparr>mallocs := m\<rparr>"
  have "?e \<in> set (entries s i)" using k by simp
  then have "in_use ?e \<Longrightarrow> 0 \<in> set (entry_name ?e)" using Suc(4) by (simp add: dir_ok_def entries_ok_def)
  then have cmp: "(if in_use ?e then same_name name (entry_name ?e) else Some False) = Some (has_name name ?e)"
    using same_name [OF Suc(5), of "entry_name ?e"] by (simp add: has_name_def name_of_def)
  have eq: "lookup_loop s p name (k * ENTRY_SIZE) =
      (if has_name name ?e then Some (Some (?e, k * ENTRY_SIZE), ?s) else lookup_loop ?s p name (Suc k * ENTRY_SIZE))"
    using m(1) cmp length_slot [OF k, of s] by (subst lookup_loop.simps) (simp add: nth_entries [OF k, symmetric] add.commute)
  have upt: "[k..<slots i] = k # [Suc k..<slots i]" using k by (rule upt_conv_Cons)
  show ?case
  proof (cases "has_name name ?e")
    case True
    then show ?thesis using eq m(2) upt spent_mono [OF m(2), of "slots i - k + 1"] by auto
  next
    case False
    have same: "entries ?s i = entries s i" "dir_ok ?s i" "inode_at ?s p = Some i" using Suc(3,4) by simp_all
    have bl: "blocks (slots i - Suc k + 1) ?s" using blocks_spent [OF Suc(7) m(2)] k by (simp add: Suc_diff_le Suc_diff_Suc)
    have n: "n = slots i - Suc k" using Suc(2) by simp
    obtain m' where m': "lookup_loop ?s p name (Suc k * ENTRY_SIZE) =
        Some (map_option (\<lambda>j. (entries s i ! j, j * ENTRY_SIZE)) (find (\<lambda>j. has_name name (entries s i ! j)) [Suc k..<slots i]), s\<lparr>mallocs := m'\<rparr>)"
        "spent (slots i - Suc k + 1) ?s (s\<lparr>mallocs := m'\<rparr>)"
      using Suc(1) [OF n same(3,2) Suc(5) Suc_leI [OF k] bl] by auto
    have "spent (slots i - k + 1) s (s\<lparr>mallocs := m'\<rparr>)" using spent_trans [OF m(2) m'(2)] k by (simp add: Suc_diff_Suc)
    then show ?thesis using eq False m'(1) upt by auto
  qed
qed

text \<open>The scan for a free slot returns the first one, or the offset behind the last whole entry.\<close>

lemma free_slot_ok:
  assumes "inode_at s p = Some i" "inode_ok s i" "length (entry_name e0) = NAME_MAX + 1" "k \<le> slots i" "blocks (slots i - k + 1) s"
  shows "\<exists>e j m. free_slot s p e0 (k * ENTRY_SIZE) = Some ((e, j * ENTRY_SIZE), s\<lparr>mallocs := m\<rparr>) \<and> spent (slots i - k + 1) s (s\<lparr>mallocs := m\<rparr>) \<and>
      length (entry_name e) = NAME_MAX + 1 \<and> j \<le> slots i \<and> (\<forall>h \<in> {k..<j}. in_use (entries s i ! h)) \<and> (j < slots i \<longrightarrow> \<not> in_use (entries s i ! j))"
  using assms
proof (induction "slots i - k" arbitrary: s k e0)
  case 0
  then have k: "k = slots i" by simp
  define bs where "bs = take ENTRY_SIZE (drop (k * ENTRY_SIZE) (inode_bytes s i))"
  obtain m where m: "inode_read_at s p ENTRY_SIZE (k * ENTRY_SIZE) = Some (bs, s\<lparr>mallocs := m\<rparr>)" "spent 1 s (s\<lparr>mallocs := m\<rparr>)"
    using read_entry [OF 0(2,3) 0(6), of k] by (auto simp: bs_def)
  have "\<not> k * ENTRY_SIZE + ENTRY_SIZE \<le> length_of (data i)" using k slot_in [of k i] by simp
  then have len: "length bs \<noteq> ENTRY_SIZE" "length bs \<le> ENTRY_SIZE" by (simp_all add: bs_def ENTRY_SIZE_def)
  let ?e = "decode_entry (bs @ drop (length bs) (encode_entry e0))"
  have "length (bs @ drop (length bs) (encode_entry e0)) = ENTRY_SIZE" using len(2) 0(4) unfolding length_append length_drop by simp
  then have "length (entry_name ?e) = NAME_MAX + 1" by (rule length_decode_name)
  moreover have "free_slot s p e0 (k * ENTRY_SIZE) = Some ((?e, k * ENTRY_SIZE), s\<lparr>mallocs := m\<rparr>)"
    using m(1) len(1) by (subst free_slot.simps) (simp add: Let_def)
  ultimately show ?case using m(2) k by (intro exI [of _ ?e] exI [of _ k] exI [of _ m]) simp
next
  case (Suc n)
  then have k: "k < slots i" by simp
  let ?e = "entries s i ! k"
  obtain m where m: "inode_read_at s p ENTRY_SIZE (k * ENTRY_SIZE) = Some (slot_bytes (inode_bytes s i) k, s\<lparr>mallocs := m\<rparr>)" "spent 1 s (s\<lparr>mallocs := m\<rparr>)"
    using read_entry [OF Suc(3,4) Suc(7), of k] by (auto simp: slot_bytes_def)
  let ?s = "s\<lparr>mallocs := m\<rparr>"
  have eq: "free_slot s p e0 (k * ENTRY_SIZE) = (if \<not> in_use ?e then Some ((?e, k * ENTRY_SIZE), ?s) else free_slot ?s p ?e (Suc k * ENTRY_SIZE))"
    using m(1) length_slot [OF k, of s] Suc(5) by (subst free_slot.simps) (simp add: nth_entries [OF k, symmetric] Let_def add.commute)
  have len: "length (entry_name ?e) = NAME_MAX + 1" using k by (intro entries_name_length [of _ s i]) simp
  show ?case
  proof (cases "in_use ?e")
    case False
    then show ?thesis using eq k len spent_mono [OF m(2), of "slots i - k + 1"] by (intro exI [of _ ?e] exI [of _ k] exI [of _ m]) simp
  next
    case True
    have bl: "blocks (slots i - Suc k + 1) ?s" using blocks_spent [OF Suc(7) m(2)] k by (simp add: Suc_diff_le Suc_diff_Suc)
    have n: "n = slots i - Suc k" using Suc(2) by simp
    have i: "inode_at ?s p = Some i" "inode_ok ?s i" using Suc(3,4) by simp_all
    obtain e j m' where r: "free_slot ?s p ?e (Suc k * ENTRY_SIZE) = Some ((e, j * ENTRY_SIZE), s\<lparr>mallocs := m'\<rparr>)" "spent (slots i - Suc k + 1) ?s (s\<lparr>mallocs := m'\<rparr>)"
        "length (entry_name e) = NAME_MAX + 1" "j \<le> slots i" "\<forall>h \<in> {Suc k..<j}. in_use (entries s i ! h)" "j < slots i \<longrightarrow> \<not> in_use (entries s i ! j)"
      using Suc(1) [OF n i len Suc_leI [OF k] bl] by auto
    have "spent (slots i - k + 1) s (s\<lparr>mallocs := m'\<rparr>)" using spent_trans [OF m(2) r(2)] k by (simp add: Suc_diff_Suc)
    moreover have "\<forall>h \<in> {k..<j}. in_use (entries s i ! h)" using r(5) True by (metis atLeastLessThan_iff le_neq_implies_less not_less_eq_eq le_antisym)
    ultimately show ?thesis using eq True r by (intro exI [of _ e] exI [of _ j] exI [of _ m']) simp
  qed
qed

lemma find_upt: "find (\<lambda>j. P (xs ! j)) [0..<length xs] = Some j \<Longrightarrow> j < length xs \<and> P (xs ! j)"
  by (auto simp: find_Some_iff)

lemma lookup_ok:
  assumes d: "d \<noteq> NULL" "dir_at s d = Some x" and i: "inode_at s (dir_inode x) = Some i" "dir_ok s i" and name: "0 \<notin> set name" and mem: "blocks (slots i + 1) s"
  shows "\<exists>r m. lookup s d (Some name) = Some (r, s\<lparr>mallocs := m\<rparr>) \<and> spent (slots i + 1) s (s\<lparr>mallocs := m\<rparr>) \<and>
    (case r of None \<Rightarrow> dir_map s i name = None
     | Some (e, ofs) \<Rightarrow> \<exists>j < slots i. ofs = j * ENTRY_SIZE \<and> e = entries s i ! j \<and> has_name name e \<and> dir_map s i name = Some (inode_sector e))"
proof -
  let ?f = "find (\<lambda>j. has_name name (entries s i ! j)) [0..<slots i]"
  obtain m where m: "lookup s d (Some name) = Some (map_option (\<lambda>j. (entries s i ! j, j * ENTRY_SIZE)) ?f, s\<lparr>mallocs := m\<rparr>)"
      "spent (slots i + 1) s (s\<lparr>mallocs := m\<rparr>)"
    using lookup_loop_ok [OF i name, of 0] mem d by (auto simp: lookup_def)
  show ?thesis
  proof (cases ?f)
    case None
    then have "dir_map s i name = None" unfolding dir_map_def entries_map_None by (auto simp: find_None_iff)
    then show ?thesis using m None by auto
  next
    case (Some j)
    then have j: "j < slots i" "has_name name (entries s i ! j)" using find_upt [of "has_name name" "entries s i" j] by simp_all
    then have "dir_map s i name = Some (inode_sector (entries s i ! j))"
      unfolding dir_map_def using i(2) by (intro entries_map_at) (simp_all add: dir_ok_def)
    then show ?thesis using m Some j by auto
  qed
qed

section \<open>Adding an entry\<close>

lemma dir_add_ok:
  assumes d: "d \<noteq> NULL" "dir_at s d = Some x" and i: "inode_at s (dir_inode x) = Some i" "dir_ok s i" "deny_write_cnt i = 0"
    and name: "0 \<notin> set name" and sec: "sec < 2 ^ 32" and junk: "length (entry_name junk) = NAME_MAX + 1" and mem: "blocks (2 * slots i + 3) s"
  shows "\<exists>ok s'. dir_add s d (Some name) sec junk = Some (ok, s') \<and> updates s s' (extent i) \<and> free_map s' = free_map s \<and> spent (2 * slots i + 3) s s' \<and>
    dir_ok s' i \<and> (ok \<longleftrightarrow> name \<noteq> [] \<and> length name \<le> NAME_MAX \<and> dir_map s i name = None \<and> (\<exists>e \<in> set (entries s i). \<not> in_use e)) \<and>
    dir_map s' i = (if ok then (dir_map s i)(name \<mapsto> sec) else dir_map s i)"
proof (cases "name = [] \<or> length name > NAME_MAX")
  case True
  then have "dir_add s d (Some name) sec junk = Some (False, s)" using d(1) by (auto simp: dir_add_def)
  moreover have "updates s s (extent i)" using updates_refl [where s = s and m = "mallocs s" and b = "free_map s" and A = "extent i"] by simp
  ultimately show ?thesis using True i(2) spent_same [of s s "2 * slots i + 3"] by (intro exI [of _ False] exI [of _ s]) auto
next
  case valid: False
  let ?n = "slots i"
  have upd: "updates s (s\<lparr>mallocs := m\<rparr>) (extent i)" for m using updates_refl [where s = s and m = m and b = "free_map s" and A = "extent i"] by simp
  have "blocks (?n + 1) s" using blocks_mono [OF mem] by simp
  from lookup_ok [OF d i(1,2) name this] obtain r m where l: "lookup s d (Some name) = Some (r, s\<lparr>mallocs := m\<rparr>)" "spent (?n + 1) s (s\<lparr>mallocs := m\<rparr>)"
      "case r of None \<Rightarrow> dir_map s i name = None
       | Some (e, ofs) \<Rightarrow> \<exists>j < ?n. ofs = j * ENTRY_SIZE \<and> e = entries s i ! j \<and> has_name name e \<and> dir_map s i name = Some (inode_sector e)" by blast
  then have "r = None \<longleftrightarrow> dir_map s i name = None" by (auto split: option.splits)
  with l(1,2) have l: "lookup s d (Some name) = Some (r, s\<lparr>mallocs := m\<rparr>)" "spent (?n + 1) s (s\<lparr>mallocs := m\<rparr>)" "r = None \<longleftrightarrow> dir_map s i name = None" by simp_all
  let ?s = "s\<lparr>mallocs := m\<rparr>"
  have dmap: "dir_map (s\<lparr>mallocs := m\<rparr>) i = dir_map s i" for m by (simp add: dir_map_def)
  show ?thesis
  proof (cases r)
    case (Some y)
    then have "dir_add s d (Some name) sec junk = Some (False, ?s)" using l(1) d(1) valid by (auto simp: dir_add_def)
    then show ?thesis using Some l(2,3) upd i(2) dmap spent_mono [OF l(2), of "2 * ?n + 3"] by (intro exI [of _ False] exI [of _ ?s]) auto
  next
    case None
    have bl: "blocks (?n + 1) ?s" "blocks 1 ?s" using blocks_mono [OF blocks_spent [OF mem l(2)]] by simp_all
    have i': "inode_at ?s (dir_inode x) = Some i" "inode_ok ?s i" using i by (simp_all add: dir_ok_def)
    obtain e j m' where f: "free_slot ?s (dir_inode x) junk 0 = Some ((e, j * ENTRY_SIZE), s\<lparr>mallocs := m'\<rparr>)" "spent (?n + 1) ?s (s\<lparr>mallocs := m'\<rparr>)"
        "length (entry_name e) = NAME_MAX + 1" "j \<le> ?n" "\<forall>h \<in> {0..<j}. in_use (entries s i ! h)" "j < ?n \<longrightarrow> \<not> in_use (entries s i ! j)"
      using free_slot_ok [OF i' junk, of 0] bl by auto
    let ?e = "e\<lparr>in_use := True, entry_name := set_name (entry_name e) name, inode_sector := sec\<rparr>"
    let ?s2 = "s\<lparr>mallocs := m'\<rparr>"
    have name': "length name \<le> NAME_MAX" using valid by simp
    note set = set_name [OF name' f(3) name]
    have e: "length (encode_entry ?e) = ENTRY_SIZE" "inode_sector ?e < 2 ^ 32" "length (entry_name ?e) = NAME_MAX + 1" "name_of ?e = name"
      using set sec by (simp_all add: name_of_def)
    have sp2: "spent (2 * ?n + 2) s ?s2" using spent_trans [OF l(2) f(2)] by (simp add: mult_2)
    have can: "can_bounce ?s2 False" using blocks_can_bounce [OF blocks_spent [OF mem sp2]] by simp
    have i2: "inode_at ?s2 (dir_inode x) = Some i" "inode_ok ?s2 i" using i by (simp_all add: dir_ok_def)
    let ?w = "min ENTRY_SIZE (length_of (data i) - j * ENTRY_SIZE)"
    obtain s' where w: "inode_write_at ?s2 (dir_inode x) (encode_entry ?e) (j * ENTRY_SIZE) = Some (?w, s')"
        "written ?s2 s' i (j * ENTRY_SIZE) (take ?w (encode_entry ?e))" "took ?s2 False s'"
      using inode_write_at_ok [OF i2, of "encode_entry ?e" "j * ENTRY_SIZE"] can i(3) e(1) by auto
    have add: "dir_add s d (Some name) sec junk = Some (?w = ENTRY_SIZE, s')"
      using l(1) None f(1) w(1) d valid by (auto simp: dir_add_def Let_def)
    have up: "updates s s' (extent i)" using updates_trans [OF upd [of m'] written_updates [OF w(2)]] by simp
    have sp: "spent (2 * ?n + 3) s s'" using spent_trans [OF sp2 took_spent [OF w(3)]] by (simp add: numeral_3_eq_3)
    have fm: "free_map s' = free_map s" and ok': "inode_ok s' i" using w(2) by (auto simp: written_def)
    have full: "?w = ENTRY_SIZE \<longleftrightarrow> j < ?n" using slot_in [of j i] by (auto simp: ENTRY_SIZE_def)
    have "j < ?n \<longleftrightarrow> (\<exists>e \<in> set (entries s i). \<not> in_use e)"
    proof
      assume "j < ?n"
      then show "\<exists>e \<in> set (entries s i). \<not> in_use e" using f(6) nth_mem [of j "entries s i"] by auto
    next
      assume "\<exists>e \<in> set (entries s i). \<not> in_use e"
      then obtain h where "h < ?n" "\<not> in_use (entries s i ! h)" by (auto simp: in_set_conv_nth)
      then show "j < ?n" using f(5) by (cases "h < j") auto
    qed
    moreover have "entries_ok (entries s' i) \<and> entries_map (entries s' i) = (if j < ?n then (dir_map s i)(name \<mapsto> sec) else dir_map s i)"
    proof (cases "j < ?n")
      case True
      then have "written ?s2 s' i (j * ENTRY_SIZE) (encode_entry ?e)" using w(2) full e(1) by simp
      then have "entries s' i = (entries s i)[j := ?e]" using entries_written [OF _ True e(2,3)] by simp
      then show ?thesis using entries_add [of "entries s i" j ?e] i(2) True f(6) set(3) l(3) None e(4) by (simp add: dir_ok_def dir_map_def)
    next
      case False
      then have j: "j = ?n" using f(4) by simp
      have "j * ENTRY_SIZE \<le> length_of (data i)" unfolding j slots_def by simp
      then have "?n * ENTRY_SIZE + length (take ?w (encode_entry ?e)) \<le> length_of (data i)" unfolding j [symmetric] by simp
      then have "entries s' i = entries s i" using entries_written_behind [of ?s2 s' i] w(2) j by simp
      then show ?thesis using False i(2) by (simp add: dir_ok_def dir_map_def)
    qed
    ultimately show ?thesis using add up fm sp ok' full valid None l(3)
      by (intro exI [of _ "?w = ENTRY_SIZE"] exI [of _ s']) (simp add: dir_ok_def dir_map_def)
  qed
qed

section \<open>Removing an entry\<close>

lemma fs_ok_frame:
  assumes ok: "fs_ok s" and eq: "disk s' = disk s" "disk_size s' = disk_size s" "free_map s' = free_map s" "free_map_file s' = free_map_file s"
    and sub: "file_at s \<subseteq>\<^sub>m file_at s'" "inode_at s \<subseteq>\<^sub>m inode_at s'"
  shows "fs_ok s'" "map_extent s' = map_extent s"
proof -
  have ia: "inode_at s' q = Some i" if "inode_at s q = Some i" for q i using sub(2) that unfolding map_le_def by (metis domI)
  have fa: "file_at s' f = Some x" if "file_at s f = Some x" for f x using sub(1) that unfolding map_le_def by (metis domI)
  have "inode_ok s' i = inode_ok s i" for i using eq by (simp add: inode_ok_def)
  then have mf: "map_file_ok s' i = map_file_ok s i" for i using eq by (simp add: map_file_ok_def)
  show "fs_ok s'" using ok ia fa unfolding fs_ok_def eq mf by blast
  show "map_extent s' = map_extent s"
  proof (cases "free_map_file s = NULL")
    case False
    then obtain x i where "file_at s (free_map_file s) = Some x" "inode_at s (file_inode x) = Some i" using ok unfolding fs_ok_def by blast
    then show ?thesis using ia [of "file_inode x" i] fa [of "free_map_file s" x] eq by (simp add: map_extent_def)
  qed (simp add: map_extent_def eq)
qed

text \<open>Objects other than the free map's file and its inode do not matter for \<open>map_saved\<close>.\<close>

lemma map_saved_less:
  "map_saved s \<Longrightarrow> disk s' = disk s \<Longrightarrow> free_map s' = free_map s \<Longrightarrow> free_map_file s' = free_map_file s \<Longrightarrow> file_at s' = file_at s \<Longrightarrow>
   inode_at s' \<subseteq>\<^sub>m inode_at s \<Longrightarrow> map_saved s'"
  using inode_bytes_cong [of _ s' s] unfolding map_saved_def map_le_def by (metis domI)

lemma map_saved_more:
  assumes "fs_ok s" "map_saved s" "disk s' = disk s" "free_map s' = free_map s" "free_map_file s' = free_map_file s" "file_at s \<subseteq>\<^sub>m file_at s'" "inode_at s \<subseteq>\<^sub>m inode_at s'"
  shows "map_saved s'"
  unfolding map_saved_def
proof (intro allI impI)
  fix x i assume a: "free_map_file s' \<noteq> NULL \<and> file_at s' (free_map_file s') = Some x \<and> inode_at s' (file_inode x) = Some i"
  then obtain y j where y: "file_at s (free_map_file s) = Some y" "inode_at s (file_inode y) = Some j" using assms(1,5) unfolding fs_ok_def by auto
  then have "file_at s' (free_map_file s) = Some y" "inode_at s' (file_inode y) = Some j" using assms(6,7) unfolding map_le_def by (metis domI)+
  then have eq: "x = y" "i = j" using a assms(5) by auto
  have "inode_bytes s' j = inode_bytes s j" by (rule inode_bytes_cong) (simp add: assms(3))
  then show "holds_map (inode_bytes s' i) (free_map s')"
    using assms(2,4,5) a y unfolding map_saved_def eq by auto
qed

text \<open>The inode that opening a sector creates, and the sectors of a file: its inode's own and those of its data.\<close>

definition inode_on_disk :: "fsys \<Rightarrow> nat \<Rightarrow> inode" where
  "inode_on_disk s sec = \<lparr>sector = sec, open_cnt = 1, removed = False, deny_write_cnt = 0, data = decode_inode (disk s sec)\<rparr>"

definition footprint :: "fsys \<Rightarrow> nat \<Rightarrow> nat set" where
  "footprint s sec = insert sec (extent (inode_on_disk s sec))"

definition not_open :: "fsys \<Rightarrow> nat \<Rightarrow> bool" where
  "not_open s sec \<longleftrightarrow> (\<forall>q \<in> set (open_inodes s). \<exists>i. inode_at s q = Some i \<and> sector i \<noteq> sec)"

text \<open>The blocks that \<open>malloc\<close> will return are not those of live objects.\<close>

definition fresh :: "fsys \<Rightarrow> bool" where
  "fresh s \<longleftrightarrow> (\<forall>p \<in> set (mallocs s). inode_at s p = None \<and> dir_at s p = None \<and> file_at s p = None) \<and> distinct (mallocs s)"

lemma fresh_spent: "fresh s \<Longrightarrow> spent n s s' \<Longrightarrow> inode_at s' = inode_at s \<Longrightarrow> dir_at s' = dir_at s \<Longrightarrow> file_at s' = file_at s \<Longrightarrow> fresh s'"
  unfolding fresh_def spent_def by (auto simp del: fun_upd_apply) (meson in_set_dropD option.distinct(1) not_None_eq)+

lemma inode_open_new:
  assumes "not_open s sec" "sec < disk_size s" "mallocs s = p # ms" "p \<noteq> NULL"
  shows "inode_open s sec = Some (p, s\<lparr>mallocs := ms, open_inodes := p # open_inodes s, inode_at := (inode_at s)(p \<mapsto> inode_on_disk s sec)\<rparr>)"
  using inode_open_fresh [OF _ assms(2-4)] assms(1) by (simp add: not_open_def inode_on_disk_def)

text \<open>Closing the last reference to a removed inode returns its sectors.\<close>

lemma close_removed:
  assumes p: "inode_at s p = Some i" "p \<noteq> NULL" "open_cnt i = 1" "removed i" and ok: "fs_ok (s\<lparr>inode_at := (inode_at s)(p := None)\<rparr>)" and f: "free_map_file s \<noteq> NULL"
    and mem: "blocks 2 s" and in_disk: "start (data i) + bytes_to_sectors (length_of (data i)) \<le> disk_size s" and used: "insert (sector i) (extent i) \<subseteq> bitmap_used (free_map s)" "sector i \<notin> extent i"
    and keep: "map_extent (s\<lparr>inode_at := (inode_at s)(p := None)\<rparr>) \<inter> insert (sector i) (extent i) = {}" and oi: "open_inodes s = p # ps"
  shows "\<exists>m d b. inode_close s p = Some (s\<lparr>open_inodes := ps, inode_at := (inode_at s)(p := None), mallocs := m, disk := d, free_map := b\<rparr>) \<and>
    spent 2 s (s\<lparr>mallocs := m\<rparr>) \<and> fs_ok (s\<lparr>inode_at := (inode_at s)(p := None), mallocs := m, disk := d, free_map := b\<rparr>) \<and>
    bitmap_used b = bitmap_used (free_map s) - insert (sector i) (extent i) \<and>
    map_saved (s\<lparr>inode_at := (inode_at s)(p := None), mallocs := m, disk := d, free_map := b\<rparr>) \<and>
    (\<forall>sec. sec \<notin> map_extent (s\<lparr>inode_at := (inode_at s)(p := None)\<rparr>) \<longrightarrow> d sec = disk s sec)"
proof -
  let ?i = "i\<lparr>open_cnt := open_cnt i - 1\<rparr>" and ?n = "bytes_to_sectors (length_of (data i))"
  define s1 where "s1 = s\<lparr>inode_at := (inode_at s)(p \<mapsto> ?i), open_inodes := ps\<rparr>"
  let ?c = "s\<lparr>inode_at := (inode_at s)(p := None)\<rparr>"
  have ok1: "fs_ok s1" "map_extent s1 = map_extent ?c"
    using fs_ok_frame [OF ok, of s1] by (simp_all add: s1_def map_le_def)
  have bm: "bitmap_used (free_map s1) = bitmap_used (free_map s)" "disk_size s1 = disk_size s" "free_map_file s1 \<noteq> NULL" using f by (simp_all add: s1_def)
  have bound: "x < disk_size s" if "x \<in> bitmap_used (free_map s)" for x using ok that bitmap_used_bound by (auto simp: fs_ok_def bitmap_used_def)
  have size: "disk_size s + 1 < 2 ^ 32" using fs_okD(1) [OF ok] by simp
  have b1: "blocks 2 s1" using mem by (simp add: blocks_def s1_def)
  have hb: "has_block s1" unfolding has_block_def using blocks_can_bounce [OF b1] by simp
  have sec: "sector i < disk_size s" using bound used(1) by simp
  have keep1: "map_extent s1 \<inter> {sector i..<sector i + 1} = {}" using keep ok1(2) by auto
  obtain s2 where s2: "free_map_release s1 (sector i) 1 = Some s2" "updates s1 s2 (map_extent s1)" "fs_ok s2" "spent 1 s1 s2"
      "bitmap_used (free_map s2) = bitmap_used (free_map s1) - {sector i..<sector i + 1}"
    using free_map_release_ok [OF ok1(1) bm(3) hb _ keep1] sec size used(1) bm by auto
  have ext: "extent i = {start (data i)..<start (data i) + ?n}" by (simp add: extent_def)
  have size2: "disk_size s2 = disk_size s" "free_map_file s2 \<noteq> NULL" "map_extent s2 = map_extent ?c"
    using updates_same [OF s2(2)] bm(2,3) ok1(2) by simp_all
  have b2: "blocks 1 s2" using blocks_spent [OF b1 s2(4)] by simp
  have hb2: "has_block s2" unfolding has_block_def using blocks_can_bounce [OF b2] by simp
  have used2: "bitmap_used (free_map s2) = bitmap_used (free_map s) - {sector i}" using s2(5) bm(1) by auto
  have keep2: "map_extent s2 \<inter> {start (data i)..<start (data i) + ?n} = {}" using keep size2(3) ext by blast
  have in2: "start (data i) + ?n \<le> disk_size s2 \<and> {start (data i)..<start (data i) + ?n} \<subseteq> bitmap_used (free_map s2)"
    using in_disk used ext used2 size2(1) by auto
  have small: "start (data i) + ?n < 2 ^ 64" using in_disk size by simp
  obtain s3 where s3: "free_map_release s2 (start (data i)) ?n = Some s3" "updates s2 s3 (map_extent s2)" "fs_ok s3" "spent 1 s2 s3" "map_saved s3"
      "bitmap_used (free_map s3) = bitmap_used (free_map s2) - {start (data i)..<start (data i) + ?n}"
    using free_map_release_ok [OF s2(3) size2(2) hb2 small keep2] in2 by auto
  have "updates s1 s3 (map_extent ?c)" using updates_trans [OF s2(2) s3(2)] ok1(2) size2(3) by simp
  then obtain m d b where up: "s3 = s1\<lparr>mallocs := m, disk := d, free_map := b\<rparr>" "\<forall>sec. sec \<notin> map_extent ?c \<longrightarrow> d sec = disk s1 sec"
      "(\<forall>sec < disk_size s1. length (disk s1 sec) = DISK_SECTOR_SIZE) \<longrightarrow> (\<forall>sec < disk_size s1. length (d sec) = DISK_SECTOR_SIZE)"
    unfolding updates_def by blast
  have close: "inode_close s p = Some (s3\<lparr>inode_at := (inode_at s3)(p := None)\<rparr>)"
    using p oi s2(1) s3(1) by (simp add: inode_close_def upd_inode_def s1_def)
  have eq: "s3\<lparr>inode_at := (inode_at s3)(p := None)\<rparr> = s\<lparr>open_inodes := ps, inode_at := (inode_at s)(p := None), mallocs := m, disk := d, free_map := b\<rparr>"
    unfolding up(1) s1_def by simp
  let ?t = "s\<lparr>inode_at := (inode_at s)(p := None), mallocs := m, disk := d, free_map := b\<rparr>"
  have "updates ?c ?t (map_extent ?c)"
    unfolding updates_def using up(2,3) unfolding s1_def by (intro exI [of _ m] exI [of _ d] exI [of _ b]) simp
  moreover have "map_extent ?c \<subseteq> bitmap_used b"
    using map_extent_used [OF ok] keep s3(6) used2 ext up(1) by auto
  ultimately have "fs_ok ?t" using fs_ok_updates [OF ok, of ?t] s3(3) up(1) by (simp add: fs_ok_def s1_def)
  moreover have "spent 2 s (s\<lparr>mallocs := m\<rparr>)" using spent_trans [OF s2(4) s3(4)] unfolding up(1) s1_def by (simp add: spent_def numeral_2_eq_2)
  moreover have "bitmap_used b = bitmap_used (free_map s) - insert (sector i) (extent i)" using s3(6) used2 ext up(1) by auto
  moreover have "map_saved ?t" by (rule map_saved_less [OF s3(5)]) (auto simp: up(1) s1_def map_le_def)
  ultimately show ?thesis using close eq up(2) by (intro exI [of _ m] exI [of _ d] exI [of _ b]) (simp add: s1_def)
qed

text \<open>\<open>open_at\<close> is the inode that \<open>inode_open\<close> finds in the list of open inodes.\<close>

lemma find_open_Some: "find_open s ps sec = Some (Some q) \<Longrightarrow> \<exists>i. inode_at s q = Some i \<and> sector i = sec \<and> q \<in> set ps"
  by (induction ps) (auto simp: bind_eq_Some_conv split: if_splits)

lemma find_open_mallocs [simp]: "find_open (s\<lparr>mallocs := m\<rparr>) ps sec = find_open s ps sec"
  by (induction ps) (simp_all cong: if_cong)

text \<open>Erasing the entry found by \<open>lookup\<close>, in a state \<open>t\<close> in which the file's inode has been opened.\<close>

lemma erase_entry:
  assumes i: "inode_at t p = Some i" "inode_ok t i" "deny_write_cnt i = 0" and es: "entries_ok (entries t i)" and j: "j < slots i" "has_name name (entries t i ! j)"
    and e: "inode_sector (entries t i ! j) < 2 ^ 32" and mem: "blocks 1 t"
  shows "\<exists>m d. inode_write_at t p (encode_entry ((entries t i ! j)\<lparr>in_use := False\<rparr>)) (j * ENTRY_SIZE) = Some (ENTRY_SIZE, t\<lparr>mallocs := m, disk := d\<rparr>) \<and>
    spent 1 t (t\<lparr>mallocs := m\<rparr>) \<and> inode_ok (t\<lparr>disk := d\<rparr>) i \<and> entries_ok (entries (t\<lparr>disk := d\<rparr>) i) \<and>
    entries_map (entries (t\<lparr>disk := d\<rparr>) i) = (entries_map (entries t i))(name := None) \<and> updates t (t\<lparr>disk := d\<rparr>) (extent i)"
proof -
  let ?e = "(entries t i ! j)\<lparr>in_use := False\<rparr>"
  have len: "length (entry_name ?e) = NAME_MAX + 1" using entries_name_length [of "entries t i ! j" t i] j(1) by simp
  have w: "min ENTRY_SIZE (length_of (data i) - j * ENTRY_SIZE) = ENTRY_SIZE" using j(1) slot_in [of j i] by simp
  obtain s' where s': "inode_write_at t p (encode_entry ?e) (j * ENTRY_SIZE) = Some (ENTRY_SIZE, s')" "written t s' i (j * ENTRY_SIZE) (encode_entry ?e)" "took t False s'"
    using inode_write_at_ok [OF i(1,2), of "encode_entry ?e" "j * ENTRY_SIZE"] blocks_can_bounce [OF mem, of False] i(3) len w by auto
  then obtain m d where md: "s' = t\<lparr>mallocs := m, disk := d\<rparr>" "\<forall>sec. sec \<notin> extent i \<longrightarrow> d sec = disk t sec" by (auto simp: written_def)
  have eq: "inode_bytes s' i = inode_bytes (t\<lparr>disk := d\<rparr>) i" unfolding md(1) by (rule inode_bytes_cong) simp
  have es': "entries (t\<lparr>disk := d\<rparr>) i = (entries t i)[j := ?e]" using entries_written [OF s'(2) j(1) _ len] e entries_bytes [OF eq] by simp
  have "entries_ok (entries (t\<lparr>disk := d\<rparr>) i) \<and> entries_map (entries (t\<lparr>disk := d\<rparr>) i) = (entries_map (entries t i))(name := None)"
    unfolding es' using entries_remove [OF es _ j(2), of ?e] j(1) by simp
  moreover have "inode_ok (t\<lparr>disk := d\<rparr>) i" using s'(2) md(1) by (simp add: written_def inode_ok_def)
  moreover have "spent 1 t (t\<lparr>mallocs := m\<rparr>)" using took_spent [OF s'(3)] md(1) by (simp add: spent_def)
  moreover have "updates t (t\<lparr>disk := d\<rparr>) (extent i)"
  proof -
    have "length (d sec) = DISK_SECTOR_SIZE" if "\<forall>sec < disk_size t. length (disk t sec) = DISK_SECTOR_SIZE" "sec < disk_size t" for sec
      using s'(2) md that by (cases "sec \<in> extent i") (auto simp: written_def inode_ok_def)
    then show ?thesis unfolding updates_def using md(2) by (intro exI [of _ "mallocs t"] exI [of _ d] exI [of _ "free_map t"]) simp
  qed
  ultimately show ?thesis using s'(1) md(1) by auto
qed

lemma dir_remove_absent:
  assumes d: "d \<noteq> NULL" "dir_at s d = Some x" and i: "inode_at s (dir_inode x) = Some i" "dir_ok s i" and name: "0 \<notin> set name" and mem: "blocks (slots i + 1) s"
    and no: "dir_map s i name = None"
  shows "\<exists>m. dir_remove s d (Some name) = Some (False, s\<lparr>mallocs := m\<rparr>) \<and> spent (slots i + 1) s (s\<lparr>mallocs := m\<rparr>)"
proof -
  obtain r m where l: "lookup s d (Some name) = Some (r, s\<lparr>mallocs := m\<rparr>)" "spent (slots i + 1) s (s\<lparr>mallocs := m\<rparr>)" "case r of None \<Rightarrow> True | Some _ \<Rightarrow> False"
    using lookup_ok [OF d i name mem] no by (auto split: option.splits)
  then have "r = None" by (simp split: option.splits)
  then show ?thesis using l(1,2) d by (auto simp: dir_remove_def inode_close_def)
qed

text \<open>A file that is not open: its sectors are free afterwards.\<close>

definition file_ok :: "fsys \<Rightarrow> nat \<Rightarrow> bool" where
  "file_ok s sec \<longleftrightarrow> inode_ok s (inode_on_disk s sec) \<and> sec \<notin> extent (inode_on_disk s sec) \<and> footprint s sec \<subseteq> bitmap_used (free_map s) \<and>
     footprint s sec \<inter> map_extent s = {} \<and> start (decode_inode (disk s sec)) + bytes_to_sectors (length_of (decode_inode (disk s sec))) \<le> disk_size s"

lemma file_ok_sector: "fs_ok s \<Longrightarrow> file_ok s sec \<Longrightarrow> sec < disk_size s \<and> sec < 2 ^ 32"
  using fs_okD(1) by (fastforce simp: file_ok_def footprint_def fs_ok_def bitmap_used_def)

lemma remove_found:
  assumes d: "d \<noteq> NULL" "dir_at s d = Some x" and i: "inode_at s (dir_inode x) = Some i" "dir_ok s i" and name: "0 \<notin> set name"
    and mem: "blocks (slots i + k) s" "0 < k" and sec: "dir_map s i name = Some sec"
  shows "\<exists>j m. j < slots i \<and> has_name name (entries s i ! j) \<and> inode_sector (entries s i ! j) = sec \<and> spent (slots i + 1) s (s\<lparr>mallocs := m\<rparr>) \<and>
    (\<forall>p t n t' u s'. inode_open (s\<lparr>mallocs := m\<rparr>) sec = Some (p, t) \<longrightarrow> p \<noteq> NULL \<longrightarrow> dir_at t d = Some x \<longrightarrow>
      inode_write_at t (dir_inode x) (encode_entry ((entries s i ! j)\<lparr>in_use := False\<rparr>)) (j * ENTRY_SIZE) = Some (ENTRY_SIZE, t') \<longrightarrow>
      inode_remove t' p = Some u \<longrightarrow> inode_close u p = Some s' \<longrightarrow> dir_remove s d (Some name) = Some (True, s'))"
proof -
  have "blocks (slots i + 1) s" using blocks_mono [OF mem(1)] mem(2) by simp
  from lookup_ok [OF d i name this] obtain r m where l: "lookup s d (Some name) = Some (r, s\<lparr>mallocs := m\<rparr>)" "spent (slots i + 1) s (s\<lparr>mallocs := m\<rparr>)"
      "case r of None \<Rightarrow> dir_map s i name = None
       | Some (e, ofs) \<Rightarrow> \<exists>j < slots i. ofs = j * ENTRY_SIZE \<and> e = entries s i ! j \<and> has_name name e \<and> dir_map s i name = Some (inode_sector e)" by blast
  then obtain j where j: "r = Some (entries s i ! j, j * ENTRY_SIZE)" "j < slots i" "has_name name (entries s i ! j)" "inode_sector (entries s i ! j) = sec"
    using sec by (auto split: option.splits)
  show ?thesis using l(1,2) j d(1) by (intro exI [of _ j] exI [of _ m]) (auto simp: dir_remove_def)
qed

lemma dir_remove_closed:
  assumes d: "d \<noteq> NULL" "dir_at s d = Some x" and i: "inode_at s (dir_inode x) = Some i" "dir_ok s i" "deny_write_cnt i = 0"
    and name: "0 \<notin> set name" and mem: "blocks (slots i + 5) s" "fresh s" and ok: "fs_ok s" "free_map_file s \<noteq> NULL"
    and sec: "dir_map s i name = Some sec" "not_open s sec" "file_ok s sec" and disj: "extent i \<inter> map_extent s = {}"
  shows "\<exists>s'. dir_remove s d (Some name) = Some (True, s') \<and> updates s s' (extent i \<union> map_extent s) \<and> spent (slots i + 5) s s' \<and> fs_ok s' \<and> map_saved s' \<and>
    dir_ok s' i \<and> dir_map s' i = (dir_map s i)(name := None) \<and> bitmap_used (free_map s') = bitmap_used (free_map s) - footprint s sec"
proof -
  let ?n = "slots i" and ?ni = "inode_on_disk s sec"
  from remove_found [OF d i(1,2) name mem(1) _ sec(1)] obtain j m where j: "j < ?n" "has_name name (entries s i ! j)" "inode_sector (entries s i ! j) = sec"
    and l: "spent (?n + 1) s (s\<lparr>mallocs := m\<rparr>)" and run: "\<And>p t t' u s'. inode_open (s\<lparr>mallocs := m\<rparr>) sec = Some (p, t) \<Longrightarrow> p \<noteq> NULL \<Longrightarrow> dir_at t d = Some x \<Longrightarrow>
      inode_write_at t (dir_inode x) (encode_entry ((entries s i ! j)\<lparr>in_use := False\<rparr>)) (j * ENTRY_SIZE) = Some (ENTRY_SIZE, t') \<Longrightarrow>
      inode_remove t' p = Some u \<Longrightarrow> inode_close u p = Some s' \<Longrightarrow> dir_remove s d (Some name) = Some (True, s')" by auto
  have secs: "sec < disk_size s" "sec < 2 ^ 32" using file_ok_sector [OF ok(1) sec(3)] by simp_all
  have bm: "blocks 4 (s\<lparr>mallocs := m\<rparr>)" using blocks_spent [OF mem(1) l] by simp
  then obtain p m1 where m: "m = p # m1" "p \<noteq> NULL" by (cases m) (auto simp: blocks_def)
  have "p \<in> set (mallocs s)" using l m(1) by (auto simp: spent_def dest!: arg_cong [where f = set] in_set_dropD)
  then have pfresh: "inode_at s p = None" using mem(2) by (simp add: fresh_def)
  define t where "t = s\<lparr>mallocs := m1, open_inodes := p # open_inodes s, inode_at := (inode_at s)(p \<mapsto> ?ni)\<rparr>"
  have opened: "inode_open (s\<lparr>mallocs := m\<rparr>) sec = Some (p, t)"
    using inode_open_new [of "s\<lparr>mallocs := m\<rparr>" sec p m1] sec(2) secs(1) m by (simp add: not_open_def t_def inode_on_disk_def)
  have bt: "blocks 3 t" using bm m(1) by (simp add: blocks_def t_def)
  have dt: "entries t i = entries s i" by (intro entries_bytes inode_bytes_cong) (simp add: t_def)
  have it: "inode_at t (dir_inode x) = Some i" "inode_ok t i" using i pfresh by (auto simp: t_def dir_ok_def inode_ok_def)
  have et: "entries_ok (entries t i)" "has_name name (entries t i ! j)" "inode_sector (entries t i ! j) < 2 ^ 32" "blocks 1 t"
    using i(2) j dt secs(2) blocks_mono [OF bt] by (simp_all add: dir_ok_def)
  from erase_entry [OF it i(3) et(1) j(1) et(2-4)] obtain m2 d2 where e:
    "inode_write_at t (dir_inode x) (encode_entry ((entries s i ! j)\<lparr>in_use := False\<rparr>)) (j * ENTRY_SIZE) = Some (ENTRY_SIZE, t\<lparr>mallocs := m2, disk := d2\<rparr>)"
    "spent 1 t (t\<lparr>mallocs := m2\<rparr>)" "inode_ok (t\<lparr>disk := d2\<rparr>) i" "entries_ok (entries (t\<lparr>disk := d2\<rparr>) i)"
    "entries_map (entries (t\<lparr>disk := d2\<rparr>) i) = (dir_map s i)(name := None)" "updates t (t\<lparr>disk := d2\<rparr>) (extent i)"
    unfolding dt dir_map_def by blast
  define u where "u = t\<lparr>mallocs := m2, disk := d2, inode_at := (inode_at t)(p \<mapsto> ?ni\<lparr>removed := True\<rparr>)\<rparr>"
  let ?c = "s\<lparr>mallocs := m2, disk := d2\<rparr>"
  have uc: "u\<lparr>inode_at := (inode_at u)(p := None)\<rparr> = ?c\<lparr>open_inodes := p # open_inodes s\<rparr>"
    using pfresh by (simp add: u_def t_def fun_upd_idem)
  have d2: "\<forall>sec. sec \<notin> extent i \<longrightarrow> d2 sec = disk s sec" "(\<forall>sec < disk_size s. length (disk s sec) = DISK_SECTOR_SIZE) \<longrightarrow> (\<forall>sec < disk_size s. length (d2 sec) = DISK_SECTOR_SIZE)"
    using e(6) by (auto simp: updates_def t_def dest!: arg_cong [where f = disk])
  have upc: "updates s ?c (extent i)" unfolding updates_def using d2 by (intro exI [of _ m2] exI [of _ d2] exI [of _ "free_map s"]) simp
  have okc: "fs_ok ?c" using fs_ok_updates [OF ok(1) upc] ok(1) map_extent_used [OF ok(1)] by (simp add: fs_ok_def)
  have me: "map_extent ?c = map_extent s" using updates_same(7) [OF upc] .
  have oku: "fs_ok (u\<lparr>inode_at := (inode_at u)(p := None)\<rparr>)" "map_extent (u\<lparr>inode_at := (inode_at u)(p := None)\<rparr>) = map_extent s"
    unfolding uc using fs_ok_frame [OF okc, of "?c\<lparr>open_inodes := p # open_inodes s\<rparr>"] me by (simp_all add: map_le_def)
  have pu: "inode_at u p = Some (?ni\<lparr>removed := True\<rparr>)" "open_cnt (?ni\<lparr>removed := True\<rparr>) = 1" "removed (?ni\<lparr>removed := True\<rparr>)" "free_map_file u \<noteq> NULL"
      "open_inodes u = p # open_inodes s" "free_map u = free_map s" "disk_size u = disk_size s"
    using ok(2) by (simp_all add: u_def t_def inode_on_disk_def)
  have fp: "insert (sector (?ni\<lparr>removed := True\<rparr>)) (extent (?ni\<lparr>removed := True\<rparr>)) = footprint s sec"
    by (simp add: footprint_def inode_on_disk_def extent_def)
  have bu: "blocks 2 u" using blocks_spent [OF bt e(2)] by (simp add: u_def blocks_def)
  have nin: "sector (?ni\<lparr>removed := True\<rparr>) \<notin> extent (?ni\<lparr>removed := True\<rparr>)" "start (data (?ni\<lparr>removed := True\<rparr>)) + bytes_to_sectors (length_of (data (?ni\<lparr>removed := True\<rparr>))) \<le> disk_size u"
    using sec(3) pu(7) by (simp_all add: file_ok_def inode_on_disk_def extent_def)
  have used: "footprint s sec \<subseteq> bitmap_used (free_map u)" "map_extent s \<inter> footprint s sec = {}" using sec(3) pu(6) by (auto simp: file_ok_def)
  from close_removed [OF pu(1) m(2) pu(2,3) oku(1) pu(4) bu nin(2) _ nin(1) _ pu(5), unfolded fp oku(2), OF used] obtain m3 d3 b3 where c:
    "inode_close u p = Some (u\<lparr>open_inodes := open_inodes s, inode_at := (inode_at u)(p := None), mallocs := m3, disk := d3, free_map := b3\<rparr>)"
    "spent 2 u (u\<lparr>mallocs := m3\<rparr>)" "fs_ok (u\<lparr>inode_at := (inode_at u)(p := None), mallocs := m3, disk := d3, free_map := b3\<rparr>)"
    "bitmap_used b3 = bitmap_used (free_map u) - footprint s sec" "\<forall>sec. sec \<notin> map_extent s \<longrightarrow> d3 sec = disk u sec"
    "map_saved (u\<lparr>inode_at := (inode_at u)(p := None), mallocs := m3, disk := d3, free_map := b3\<rparr>)" by blast
  let ?s' = "s\<lparr>mallocs := m3, disk := d3, free_map := b3\<rparr>"
  have fin: "u\<lparr>open_inodes := open_inodes s, inode_at := (inode_at u)(p := None), mallocs := m3, disk := d3, free_map := b3\<rparr> = ?s'"
    using pfresh by (simp add: u_def t_def fun_upd_idem)
  have "inode_remove (t\<lparr>mallocs := m2, disk := d2\<rparr>) p = Some u" "dir_at t d = Some x" using m(2) d(2) by (simp_all add: inode_remove_def upd_inode_def u_def t_def)
  from run [OF opened m(2) this(2) e(1) this(1) c(1)] have run': "dir_remove s d (Some name) = Some (True, ?s')" unfolding fin .
  have "u\<lparr>inode_at := (inode_at u)(p := None), mallocs := m3, disk := d3, free_map := b3\<rparr> = ?s'\<lparr>open_inodes := p # open_inodes s\<rparr>"
    using pfresh by (simp add: u_def t_def fun_upd_idem)
  then have ok': "fs_ok ?s'" "map_saved ?s'" using fs_ok_frame(1) [OF c(3), of ?s'] map_saved_less [OF c(6), of ?s'] by (simp_all add: map_le_def)
  have d3: "d3 sec = d2 sec" if "sec \<notin> map_extent s" for sec using c(5) that by (simp add: u_def)
  have up: "updates s ?s' (extent i \<union> map_extent s)" unfolding updates_def
    using d2(1) d3 fs_okD(2) [OF ok'(1)] by (intro exI [of _ m3] exI [of _ d3] exI [of _ b3]) simp
  have "inode_bytes ?s' i = inode_bytes (t\<lparr>disk := d2\<rparr>) i"
    by (rule inode_bytes_cong) (use d3 disj in auto)
  then have es: "entries ?s' i = entries (t\<lparr>disk := d2\<rparr>) i" by (rule entries_bytes)
  have "dir_ok ?s' i" "dir_map ?s' i = (dir_map s i)(name := None)"
    using e(3-5) fs_okD(2) [OF ok'(1)] i(2) unfolding dir_ok_def dir_map_def es by (auto simp: inode_ok_def)
  moreover have "spent (?n + 5) s ?s'"
  proof -
    have "spent 1 (s\<lparr>mallocs := m\<rparr>) t" using m(1) by (auto simp: spent_def t_def intro: exI [of _ 1])
    from spent_trans [OF spent_trans [OF l this] e(2)] have "spent (?n + 3) s u" by (simp add: spent_def u_def numeral_3_eq_3)
    from spent_trans [OF this c(2)] show ?thesis by (simp add: spent_def add.commute)
  qed
  ultimately show ?thesis using run' up ok' c(4) pu(6) by (intro exI [of _ ?s']) simp
qed

text \<open>A file that is open keeps its sectors; its inode is marked as removed, so that the last \<open>inode_close\<close> returns them.\<close>

lemma dir_remove_open:
  assumes d: "d \<noteq> NULL" "dir_at s d = Some x" and i: "inode_at s (dir_inode x) = Some i" "dir_ok s i" "deny_write_cnt i = 0"
    and name: "0 \<notin> set name" and mem: "blocks (slots i + 2) s" and sec: "dir_map s i name = Some sec" "sec < 2 ^ 32" "sector i \<noteq> sec"
    and q: "find_open s (open_inodes s) sec = Some (Some q)" "inode_at s q = Some ni" "q \<noteq> NULL" "0 < open_cnt ni"
  shows "\<exists>m d'. dir_remove s d (Some name) = Some (True, s\<lparr>mallocs := m, disk := d', inode_at := (inode_at s)(q \<mapsto> ni\<lparr>removed := True\<rparr>)\<rparr>) \<and>
    updates s (s\<lparr>mallocs := m, disk := d'\<rparr>) (extent i) \<and> spent (slots i + 2) s (s\<lparr>mallocs := m\<rparr>) \<and>
    dir_ok (s\<lparr>disk := d'\<rparr>) i \<and> dir_map (s\<lparr>disk := d'\<rparr>) i = (dir_map s i)(name := None)"
proof -
  let ?n = "slots i"
  from remove_found [OF d i(1,2) name mem _ sec(1)] obtain j m where j: "j < ?n" "has_name name (entries s i ! j)" "inode_sector (entries s i ! j) = sec"
    and l: "spent (?n + 1) s (s\<lparr>mallocs := m\<rparr>)" and run: "\<And>p t t' u s'. inode_open (s\<lparr>mallocs := m\<rparr>) sec = Some (p, t) \<Longrightarrow> p \<noteq> NULL \<Longrightarrow> dir_at t d = Some x \<Longrightarrow>
      inode_write_at t (dir_inode x) (encode_entry ((entries s i ! j)\<lparr>in_use := False\<rparr>)) (j * ENTRY_SIZE) = Some (ENTRY_SIZE, t') \<Longrightarrow>
      inode_remove t' p = Some u \<Longrightarrow> inode_close u p = Some s' \<Longrightarrow> dir_remove s d (Some name) = Some (True, s')" by auto
  have ne: "q \<noteq> dir_inode x" using find_open_Some [OF q(1)] q(2) i(1) sec(3) by auto
  define t where "t = s\<lparr>mallocs := m, inode_at := (inode_at s)(q \<mapsto> ni\<lparr>open_cnt := open_cnt ni + 1\<rparr>)\<rparr>"
  have opened: "inode_open (s\<lparr>mallocs := m\<rparr>) sec = Some (q, t)"
    using q by (simp add: inode_open_def inode_reopen_def upd_inode_def t_def)
  have dt: "entries t i = entries s i" by (intro entries_bytes inode_bytes_cong) (simp add: t_def)
  have it: "inode_at t (dir_inode x) = Some i" "inode_ok t i" using i ne by (auto simp: t_def dir_ok_def inode_ok_def)
  have bt: "blocks 1 t" using blocks_spent [OF mem l] by (simp add: t_def blocks_def)
  have et: "entries_ok (entries t i)" "has_name name (entries t i ! j)" "inode_sector (entries t i ! j) < 2 ^ 32"
    using i(2) j dt sec(2) by (simp_all add: dir_ok_def)
  from erase_entry [OF it i(3) et(1) j(1) et(2,3) bt] obtain m2 d2 where e:
    "inode_write_at t (dir_inode x) (encode_entry ((entries s i ! j)\<lparr>in_use := False\<rparr>)) (j * ENTRY_SIZE) = Some (ENTRY_SIZE, t\<lparr>mallocs := m2, disk := d2\<rparr>)"
    "spent 1 t (t\<lparr>mallocs := m2\<rparr>)" "inode_ok (t\<lparr>disk := d2\<rparr>) i" "entries_ok (entries (t\<lparr>disk := d2\<rparr>) i)"
    "entries_map (entries (t\<lparr>disk := d2\<rparr>) i) = (dir_map s i)(name := None)" "updates t (t\<lparr>disk := d2\<rparr>) (extent i)"
    unfolding dt dir_map_def by blast
  have es: "entries (t\<lparr>disk := d2\<rparr>) i = entries (s\<lparr>disk := d2\<rparr>) i" by (intro entries_bytes inode_bytes_cong) simp
  have dir: "dir_ok (s\<lparr>disk := d2\<rparr>) i" "dir_map (s\<lparr>disk := d2\<rparr>) i = (dir_map s i)(name := None)"
    using e(3-5) unfolding dir_ok_def dir_map_def es by (simp_all add: inode_ok_def t_def)
  have up: "updates s (s\<lparr>mallocs := m2, disk := d2\<rparr>) (extent i)"
  proof -
    have "\<forall>sec. sec \<notin> extent i \<longrightarrow> d2 sec = disk s sec" "(\<forall>sec < disk_size s. length (disk s sec) = DISK_SECTOR_SIZE) \<longrightarrow> (\<forall>sec < disk_size s. length (d2 sec) = DISK_SECTOR_SIZE)"
      using e(6) by (auto simp: updates_def t_def dest!: arg_cong [where f = disk])
    then show ?thesis unfolding updates_def by (intro exI [of _ m2] exI [of _ d2] exI [of _ "free_map s"]) simp
  qed
  define u where "u = t\<lparr>mallocs := m2, disk := d2, inode_at := (inode_at t)(q \<mapsto> ni\<lparr>open_cnt := open_cnt ni + 1, removed := True\<rparr>)\<rparr>"
  have "inode_remove (t\<lparr>mallocs := m2, disk := d2\<rparr>) q = Some u" using q(3) by (simp add: inode_remove_def upd_inode_def u_def t_def)
  moreover have "inode_close u q = Some (s\<lparr>mallocs := m2, disk := d2, inode_at := (inode_at s)(q \<mapsto> ni\<lparr>removed := True\<rparr>)\<rparr>)"
    using q(3,4) by (simp add: inode_close_def upd_inode_def u_def t_def)
  moreover have "dir_at t d = Some x" using d(2) by (simp add: t_def)
  moreover have "spent (?n + 2) s (s\<lparr>mallocs := m2\<rparr>)" using spent_trans [OF l, of 1 "s\<lparr>mallocs := m2\<rparr>"] e(2) by (simp add: spent_def t_def)
  ultimately show ?thesis using run [OF opened q(3) _ e(1)] up dir by blast
qed

end
