(* ===== verification/Filesys_Correct.thy ===== *)
theory Filesys_Correct
  imports Directory_Correct
begin

text \<open>
  The file system is a map from names to byte arrays: \<open>filesys_create\<close> adds an array of zeros, \<open>filesys_remove\<close> takes
  a name out and gives its sectors back, \<open>filesys_open\<close> returns a file on the array.  \<open>fs_inv\<close> is what they keep: the free
  map covers the sectors of every file in the root directory, and no two files share a sector.
\<close>

section \<open>The root directory, while it is open\<close>

abbreviation root :: "fsys \<Rightarrow> inode" where
  "root s \<equiv> inode_on_disk s ROOT_DIR_SECTOR"

definition with_dir :: "ptr \<Rightarrow> ptr \<Rightarrow> inode \<Rightarrow> fsys \<Rightarrow> fsys" where
  "with_dir p d ri s = s\<lparr>open_inodes := p # open_inodes s, inode_at := (inode_at s)(p \<mapsto> ri),
     dir_at := (dir_at s)(d \<mapsto> \<lparr>dir_inode = p, dir_pos = 0\<rparr>)\<rparr>"

lemma with_dir_simps [simp]:
  "disk (with_dir p d ri s) = disk s" "disk_size (with_dir p d ri s) = disk_size s" "free_map (with_dir p d ri s) = free_map s"
  "free_map_file (with_dir p d ri s) = free_map_file s" "file_at (with_dir p d ri s) = file_at s" "mallocs (with_dir p d ri s) = mallocs s"
  "inode_at (with_dir p d ri s) p = Some ri" "dir_at (with_dir p d ri s) d = Some \<lparr>dir_inode = p, dir_pos = 0\<rparr>"
  by (simp_all add: with_dir_def)

lemma dir_open_root_ok:
  assumes "not_open s ROOT_DIR_SECTOR" "ROOT_DIR_SECTOR < disk_size s" "blocks (n + 2) s" "fresh s"
  shows "\<exists>p d ms. mallocs s = p # d # ms \<and> p \<noteq> NULL \<and> d \<noteq> NULL \<and> inode_at s p = None \<and> dir_at s d = None \<and> blocks n (s\<lparr>mallocs := ms\<rparr>) \<and>
    fresh (s\<lparr>mallocs := ms\<rparr>) \<and> fresh (with_dir p d ri (s\<lparr>mallocs := ms\<rparr>)) \<and> spent 2 s (s\<lparr>mallocs := ms\<rparr>) \<and> dir_open_root s = Some (d, with_dir p d (root s) (s\<lparr>mallocs := ms\<rparr>))"
proof -
  obtain p d ms where m: "mallocs s = p # d # ms" "p \<noteq> NULL" "d \<noteq> NULL"
    using assms(3) by (cases "mallocs s"; cases "tl (mallocs s)") (auto simp: blocks_def)
  have "dir_open_root s = Some (d, with_dir p d (root s) (s\<lparr>mallocs := ms\<rparr>))"
    using inode_open_new [OF assms(1,2) m(1,2)] m(2,3) by (simp add: dir_open_root_def dir_open_def alloc_block_def with_dir_def)
  moreover have "spent 2 s (s\<lparr>mallocs := ms\<rparr>)" using m(1) by (auto simp: spent_def intro: exI [of _ 2])
  moreover have "fresh (with_dir p d ri (s\<lparr>mallocs := ms\<rparr>))" using assms(4) m(1) by (auto simp: fresh_def with_dir_def)
  ultimately show ?thesis using m assms(3,4) by (auto simp: blocks_def fresh_def)
qed

lemma close_with_dir:
  "d \<noteq> NULL \<Longrightarrow> p \<noteq> NULL \<Longrightarrow> open_cnt ri = 1 \<Longrightarrow> \<not> removed ri \<Longrightarrow> inode_at s p = None \<Longrightarrow> dir_at s d = None \<Longrightarrow>
   dir_close (with_dir p d ri s) d = Some s"
  by (simp add: dir_close_def inode_close_def upd_inode_def with_dir_def fun_upd_idem)

lemma updates_with_dir:
  assumes "updates (with_dir p d ri s) t A"
  shows "\<exists>u. t = with_dir p d ri u \<and> updates s u A \<and> disk u = disk t \<and> free_map u = free_map t \<and> mallocs u = mallocs t"
proof -
  obtain m e b where t: "t = (with_dir p d ri s)\<lparr>mallocs := m, disk := e, free_map := b\<rparr>" "\<forall>sec. sec \<notin> A \<longrightarrow> e sec = disk s sec"
      "(\<forall>sec < disk_size s. length (disk s sec) = DISK_SECTOR_SIZE) \<longrightarrow> (\<forall>sec < disk_size s. length (e sec) = DISK_SECTOR_SIZE)"
    using assms unfolding updates_def with_dir_simps by blast
  have "updates s (s\<lparr>mallocs := m, disk := e, free_map := b\<rparr>) A" unfolding updates_def using t(2,3)
    by (intro exI [of _ m] exI [of _ e] exI [of _ b]) simp
  then show ?thesis using t(1) by (intro exI [of _ "s\<lparr>mallocs := m, disk := e, free_map := b\<rparr>"]) (simp add: with_dir_def)
qed

lemma fs_ok_with_dir: "fs_ok s \<Longrightarrow> inode_at s p = None \<Longrightarrow> fs_ok (with_dir p d ri s) \<and> map_extent (with_dir p d ri s) = map_extent s"
proof -
  assume a: "fs_ok s" "inode_at s p = None"
  then have "inode_at s \<subseteq>\<^sub>m inode_at (with_dir p d ri s)" by (auto simp: with_dir_def map_le_def)
  then show ?thesis using fs_ok_frame [OF a(1), of "with_dir p d ri s"] by simp
qed

lemma fs_ok_within:
  assumes "fs_ok s" "inode_at s p = None" "updates s u A" "fs_ok (with_dir p d ri u)"
  shows "fs_ok u"
proof -
  have u: "inode_at u p = None" "map_extent u = map_extent s" "disk_size u = disk_size s" using assms(2) updates_same [OF assms(3)] by simp_all
  have "map_extent (with_dir p d ri u) = map_extent s"
  proof -
    have "map_extent (with_dir p d ri u) = map_extent (with_dir p d ri s)" using updates_same [OF assms(3)] by (intro map_extent_cong) (simp_all add: with_dir_def)
    then show ?thesis using fs_ok_with_dir [OF assms(1,2)] by simp
  qed
  then have "map_extent s \<subseteq> bitmap_used (free_map u)" using map_extent_used [OF assms(4)] by simp
  then show ?thesis using fs_ok_updates [OF assms(1,3)] assms(4) u(3) by (simp add: fs_ok_def)
qed

section \<open>The invariant\<close>

definition fs_dir :: "fsys \<Rightarrow> 8 word list \<rightharpoonup> nat" where
  "fs_dir s = dir_map s (root s)"

definition file_bytes :: "fsys \<Rightarrow> nat \<Rightarrow> 8 word list" where
  "file_bytes s sec = inode_bytes s (inode_on_disk s sec)"

text \<open>The abstract file system.\<close>

definition fs_files :: "fsys \<Rightarrow> 8 word list \<rightharpoonup> 8 word list" where
  "fs_files s name = map_option (file_bytes s) (fs_dir s name)"

definition opens_ok :: "fsys \<Rightarrow> bool" where
  "opens_ok s \<longleftrightarrow> (\<forall>q \<in> set (open_inodes s). \<exists>i. inode_at s q = Some i \<and> q \<noteq> NULL \<and> 0 < open_cnt i) \<and> not_open s ROOT_DIR_SECTOR"

definition apart :: "fsys \<Rightarrow> bool" where
  "apart s \<longleftrightarrow> (\<forall>n a. fs_dir s n = Some a \<longrightarrow> file_ok s a \<and> footprint s a \<inter> footprint s ROOT_DIR_SECTOR = {} \<and> FREE_MAP_SECTOR \<notin> footprint s a) \<and>
     (\<forall>n m a b. fs_dir s n = Some a \<and> fs_dir s m = Some b \<and> n \<noteq> m \<longrightarrow> footprint s a \<inter> footprint s b = {})"

text \<open>The free map's file is the one whose inode is in sector 0, and it holds the free map.\<close>

definition map_kept :: "fsys \<Rightarrow> bool" where
  "map_kept s \<longleftrightarrow> (\<exists>x i. file_at s (free_map_file s) = Some x \<and> inode_at s (file_inode x) = Some i \<and> data i = decode_inode (disk s FREE_MAP_SECTOR)) \<and>
     FREE_MAP_SECTOR \<notin> map_extent s \<union> footprint s ROOT_DIR_SECTOR \<and> map_saved s"

definition fs_inv :: "fsys \<Rightarrow> bool" where
  "fs_inv s \<longleftrightarrow> fs_ok s \<and> map_kept s \<and> free_map_file s \<noteq> NULL \<and> opens_ok s \<and> fresh s \<and> FREE_MAP_SECTOR \<in> bitmap_used (free_map s) \<and>
     file_ok s ROOT_DIR_SECTOR \<and> dir_ok s (root s) \<and> apart s"

lemma fs_invD:
  assumes "fs_inv s"
  shows "fs_ok s" "free_map_file s \<noteq> NULL" "not_open s ROOT_DIR_SECTOR" "fresh s" "file_ok s ROOT_DIR_SECTOR" "dir_ok s (root s)"
    "ROOT_DIR_SECTOR < disk_size s" "fs_dir s n = Some a \<Longrightarrow> file_ok s a" "fs_dir s n = Some a \<Longrightarrow> footprint s a \<inter> footprint s ROOT_DIR_SECTOR = {}"
    "extent (root s) \<inter> map_extent s = {}" "fs_dir s n = Some a \<Longrightarrow> FREE_MAP_SECTOR \<notin> footprint s a"
    "FREE_MAP_SECTOR \<notin> map_extent s" "FREE_MAP_SECTOR \<notin> extent (root s)" "map_saved s"
  using assms file_ok_sector [of s ROOT_DIR_SECTOR] unfolding fs_inv_def opens_ok_def apart_def map_kept_def by (auto simp: file_ok_def footprint_def)

text \<open>A file whose sectors do not change stays as it is.\<close>

lemma same_file:
  assumes "\<And>u. u \<in> footprint s sec \<Longrightarrow> disk s' u = disk s u"
  shows "inode_on_disk s' sec = inode_on_disk s sec" "footprint s' sec = footprint s sec" "file_bytes s' sec = file_bytes s sec"
proof -
  show i: "inode_on_disk s' sec = inode_on_disk s sec" using assms [of sec] by (simp add: footprint_def inode_on_disk_def)
  then show "footprint s' sec = footprint s sec" by (simp add: footprint_def)
  show "file_bytes s' sec = file_bytes s sec" unfolding file_bytes_def i by (rule inode_bytes_cong) (use assms in \<open>simp add: footprint_def\<close>)
qed

lemma file_ok_same:
  assumes "file_ok s sec" "\<And>u. u \<in> footprint s sec \<Longrightarrow> disk s' u = disk s u" "footprint s sec \<subseteq> bitmap_used (free_map s')" "map_extent s' = map_extent s" "disk_size s' = disk_size s"
  shows "file_ok s' sec"
proof -
  note same = same_file [OF assms(2)]
  have "disk s' sec = disk s sec" using assms(2) by (simp add: footprint_def)
  moreover have "inode_ok s' (inode_on_disk s sec)" using assms(1,2,5) by (auto simp: file_ok_def inode_ok_def footprint_def)
  ultimately show ?thesis using assms(1,3-5) same by (simp add: file_ok_def)
qed

text \<open>A step that changes the root directory, leaves the files in it alone, and adds at most a file named \<open>name\<close> on sectors that were free.\<close>

definition new_file :: "fsys \<Rightarrow> fsys \<Rightarrow> nat \<Rightarrow> bool" where
  "new_file s u a \<longleftrightarrow> file_ok u a \<and> footprint u a \<inter> bitmap_used (free_map s) = {}"

lemma fs_inv_step:
  assumes inv: "fs_inv s" and up: "updates s u A" "spent k s u" "fs_ok u" "ROOT_DIR_SECTOR \<notin> A" "dir_ok u (root s)" "FREE_MAP_SECTOR \<in> bitmap_used (free_map u)"
    "footprint s ROOT_DIR_SECTOR \<subseteq> bitmap_used (free_map u)" "FREE_MAP_SECTOR \<notin> A" "map_saved u"
    and files: "\<And>n a. dir_map u (root s) n = Some a \<Longrightarrow>
      fs_dir s n = Some a \<and> A \<inter> footprint s a = {} \<and> footprint s a \<subseteq> bitmap_used (free_map u) \<or> n = name \<and> new_file s u a"
  shows "fs_inv u" "fs_dir u = dir_map u (root s)" "fs_dir u n = Some a \<Longrightarrow> fs_dir s n = Some a \<and> file_bytes u a = file_bytes s a \<or> n = name \<and> new_file s u a"
proof -
  note D = fs_invD [OF inv]
  note same = updates_same [OF up(1)]
  have root: "root u = root s" using same(8) [OF up(4)] by (simp add: inode_on_disk_def)
  then show dir: "fs_dir u = dir_map u (root s)" by (simp add: fs_dir_def)
  have fpr: "footprint u ROOT_DIR_SECTOR = footprint s ROOT_DIR_SECTOR" using root by (simp add: footprint_def)
  have okr: "file_ok u ROOT_DIR_SECTOR"
    using D(5) up(5,7) root fpr same(1,7) same(8) [OF up(4)] by (simp add: file_ok_def dir_ok_def)
  have old: "disk u x = disk s x" if "A \<inter> footprint s a = {}" "x \<in> footprint s a" for a x using same(8) that by blast
  have cases: "fs_dir s n = Some a \<and> footprint u a = footprint s a \<and> file_bytes u a = file_bytes s a \<and> file_ok u a \<or> n = name \<and> new_file s u a" if "fs_dir u n = Some a" for n a
  proof -
    from files [of n a] that dir consider "fs_dir s n = Some a" "A \<inter> footprint s a = {}" "footprint s a \<subseteq> bitmap_used (free_map u)" | "n = name" "new_file s u a" by auto
    then show ?thesis
    proof cases
      case 1
      then show ?thesis using same_file [of s a u] old [OF 1(2)] file_ok_same [OF D(8) [OF 1(1)], of u] same(1,7) by simp
    qed simp
  qed
  then show "fs_dir u n = Some a \<Longrightarrow> fs_dir s n = Some a \<and> file_bytes u a = file_bytes s a \<or> n = name \<and> new_file s u a" by blast
  have used: "footprint s a \<subseteq> bitmap_used (free_map s)" if "fs_dir s n = Some a" for n a using D(8) [OF that] by (simp add: file_ok_def)
  have usedr: "footprint s ROOT_DIR_SECTOR \<subseteq> bitmap_used (free_map s)" using D(5) by (simp add: file_ok_def)
  have "apart u" unfolding apart_def fpr
  proof (intro conjI allI impI)
    fix n a assume n: "fs_dir u n = Some a"
    from cases [OF n] show "file_ok u a" by (auto simp: new_file_def)
    from cases [OF n] show "footprint u a \<inter> footprint s ROOT_DIR_SECTOR = {}" using D(9) [of n a] usedr by (auto simp: new_file_def)
    from cases [OF n] show "FREE_MAP_SECTOR \<notin> footprint u a" using D(11) [of n a] inv by (auto simp: new_file_def fs_inv_def)
  next
    fix n m a b assume ab: "fs_dir u n = Some a \<and> fs_dir u m = Some b \<and> n \<noteq> m"
    then have c: "n \<noteq> name \<or> m \<noteq> name" by auto
    have ap: "fs_dir s n = Some a \<Longrightarrow> fs_dir s m = Some b \<Longrightarrow> footprint s a \<inter> footprint s b = {}" using inv ab unfolding fs_inv_def apart_def by blast
    show "footprint u a \<inter> footprint u b = {}"
      using cases [of n a] cases [of m b] ab ap c used [of n a] used [of m b] unfolding new_file_def by auto blast+
  qed
  moreover have "opens_ok u" using inv same unfolding fs_inv_def opens_ok_def not_open_def by simp
  moreover have "fresh u" using fresh_spent [OF D(4) up(2)] same by simp
  moreover have "map_kept u" using inv up(9) same fpr same(8) [OF up(8)] unfolding fs_inv_def map_kept_def by auto
  ultimately show "fs_inv u" using up(3,5,6) D(2) same(2) okr root unfolding fs_inv_def by simp
qed

section \<open>Creating a file\<close>

text \<open>The first two allocations of \<open>filesys_create\<close>: a sector for the inode, then the sectors for the data.\<close>

definition no_run :: "nat set \<Rightarrow> nat \<Rightarrow> nat \<Rightarrow> bool" where
  "no_run used n sz \<longleftrightarrow> (\<forall>st. st + n \<le> sz \<longrightarrow> used \<inter> {st..<st + n} \<noteq> {})"

lemma create_allocates:
  assumes ok: "fs_ok t" "free_map_file t \<noteq> NULL" and mem: "blocks 3 t" and len: "0 \<le> len" "len < 2 ^ 31"
  defines "n \<equiv> bytes_to_sectors (nat len)"
  obtains (full) "free_map_allocate t 1 = Some (None, t)" "no_run (bitmap_used (free_map t)) 1 (disk_size t)"
  | (no_data) sec t1 t2 where "free_map_allocate t 1 = Some (Some sec, t1)" "inode_create t1 sec len = Some (False, t2)" "fs_ok t2" "spent 2 t t2"
      "updates t t2 (map_extent t)" "sec < disk_size t" "sec \<notin> bitmap_used (free_map t)" "bitmap_used (free_map t2) = insert sec (bitmap_used (free_map t))"
      "no_run (insert sec (bitmap_used (free_map t))) n (disk_size t)" "map_saved t2"
  | (created) sec t1 t2 where "free_map_allocate t 1 = Some (Some sec, t1)" "inode_create t1 sec len = Some (True, t2)" "fs_ok t2" "spent 3 t t2"
      "updates t t2 (map_extent t \<union> footprint t2 sec)" "new_file t t2 sec" "bitmap_used (free_map t2) = bitmap_used (free_map t) \<union> footprint t2 sec"
      "file_bytes t2 sec = replicate (nat len) 0" "map_saved t2" "card (extent (inode_on_disk t2 sec)) = n"
proof -
  have hb: "has_block t" unfolding has_block_def using blocks_can_bounce [OF mem] by simp
  have one: "{a..<a + 1} = {a}" for a :: nat by auto
  from free_map_allocate_ok [OF ok(1) disjI2 [OF hb], of 1, unfolded one]
  consider "free_map_allocate t 1 = Some (None, t)" "\<forall>i. i + 1 \<le> disk_size t \<longrightarrow> bitmap_used (free_map t) \<inter> {i} \<noteq> {}"
    | sec t1 where "free_map_allocate t 1 = Some (Some sec, t1)" "updates t t1 (map_extent t)" "fs_ok t1" "sec + 1 \<le> disk_size t"
      "bitmap_used (free_map t) \<inter> {sec} = {}" "bitmap_used (free_map t1) = bitmap_used (free_map t) \<union> {sec}" "spent 1 t t1" "map_saved t1" by blast
  then show thesis
  proof cases
    case 1
    then show thesis using full unfolding no_run_def one by blast
  next
    case 2
    note s1 = updates_same [OF 2(2)]
    have b2: "blocks 2 t1" using blocks_spent [OF mem 2(7)] by simp
    then obtain p q ms where m: "mallocs t1 = p # q # ms" "p \<noteq> NULL" "q \<noteq> NULL" by (cases "mallocs t1"; cases "tl (mallocs t1)") (auto simp: blocks_def)
    have sec: "sec \<in> bitmap_used (free_map t1)" "sec \<notin> map_extent t1" using 2(5,6) map_extent_used [OF ok(1)] s1(7) by auto
    from inode_create_ok [OF 2(3) sec len m, folded n_def]
    consider st t2 where "inode_create t1 sec len = Some (True, t2)" "fs_ok t2" "updates t1 t2 (map_extent t1 \<union> {sec} \<union> {st..<st + n})" "st + n \<le> disk_size t1"
        "bitmap_used (free_map t1) \<inter> {st..<st + n} = {}" "bitmap_used (free_map t2) = bitmap_used (free_map t1) \<union> {st..<st + n}"
        "disk t2 sec = encode_inode \<lparr>start = st, length_of = nat len, magic = INODE_MAGIC\<rparr>" "\<forall>j \<in> {st..<st + n}. disk t2 j = replicate DISK_SECTOR_SIZE 0" "spent 2 t1 t2" "map_saved t2"
      | "inode_create t1 sec len = Some (False, t1\<lparr>mallocs := q # ms\<rparr>)" "\<forall>i. i + n \<le> disk_size t1 \<longrightarrow> bitmap_used (free_map t1) \<inter> {i..<i + n} \<noteq> {}" by blast
    then show thesis
    proof cases
      case c: 1
      have "st < 2 ^ 32" using c(4) fs_okD(1) [OF 2(3)] by linarith
      then have dec: "decode_inode (disk t2 sec) = \<lparr>start = st, length_of = nat len, magic = INODE_MAGIC\<rparr>"
        unfolding c(7) using len by (intro decode_encode_inode) (simp_all add: INODE_MAGIC_def)
      have ext: "extent (inode_on_disk t2 sec) = {st..<st + n}" by (simp add: extent_def inode_on_disk_def dec n_def)
      then have fp: "footprint t2 sec = insert sec {st..<st + n}" by (simp add: footprint_def)
      have s2: "disk_size t2 = disk_size t" "map_extent t2 = map_extent t" using updates_same(1,7) [OF c(3)] s1 by simp_all
      have up: "updates t t2 (map_extent t \<union> footprint t2 sec)" using updates_trans [OF 2(2) c(3)] s1(7) unfolding fp by simp
      have used: "bitmap_used (free_map t2) = bitmap_used (free_map t) \<union> footprint t2 sec" using c(6) 2(6) fp by auto
      have nin: "sec \<notin> extent (inode_on_disk t2 sec)" using c(5) sec(1) unfolding ext by blast
      have free: "footprint t2 sec \<inter> bitmap_used (free_map t) = {}" using 2(5,6) c(5) unfolding fp by auto
      have small: "nat len < 2 ^ 31" using len by (simp add: nat_less_iff)
      have iok: "inode_ok t2 (inode_on_disk t2 sec)"
        using fs_okD [OF c(2)] c(4) s1(1) s2(1) small unfolding inode_ok_def ext by (auto simp: inode_on_disk_def dec)
      have "footprint t2 sec \<inter> map_extent t2 = {}" using free map_extent_used [OF ok(1)] s2(2) by blast
      then have new: "new_file t t2 sec" using iok nin used free c(4) s1(1) s2(1) by (simp add: new_file_def file_ok_def dec n_def)
      have "file_bytes t2 sec = replicate (nat len) 0"
        using zero_bytes [of "inode_on_disk t2 sec" t2] c(8) unfolding ext file_bytes_def by (simp add: inode_on_disk_def dec)
      moreover have "spent 3 t t2" using spent_trans [OF 2(7) c(9)] by (simp add: numeral_3_eq_3 numeral_2_eq_2)
      ultimately show thesis using created [OF 2(1) c(1,2) _ up new used] ext c(10) by simp
    next
      case c: 2
      let ?t2 = "t1\<lparr>mallocs := q # ms\<rparr>"
      have up: "updates t1 ?t2 {}" using updates_refl [where s = t1 and m = "q # ms" and b = "free_map t1" and A = "{}"] by simp
      have "fs_ok ?t2" using fs_ok_updates [OF 2(3) up] 2(3) map_extent_used [OF 2(3)] by (simp add: fs_ok_def)
      moreover have "spent 1 t1 ?t2" using m(1) by (auto simp: spent_def intro: exI [of _ 1])
      moreover have "updates t ?t2 (map_extent t)" using updates_trans [OF 2(2) up] by simp
      moreover have "map_saved ?t2" using map_saved_updates [OF 2(8) up] by simp
      ultimately show thesis using no_data [OF 2(1) c(1)] c(2) 2(4-6) s1(1) spent_trans [OF 2(7), of 1 ?t2] by (simp add: no_run_def numeral_2_eq_2)
    qed
  qed
qed

text \<open>A step on sectors that were free, or that hold the free map.\<close>

lemma fs_inv_keep:
  assumes inv: "fs_inv s" and up: "updates s u A" "A \<inter> bitmap_used (free_map s) \<subseteq> map_extent s" "spent k s u" "fs_ok u" "bitmap_used (free_map s) \<subseteq> bitmap_used (free_map u)" "map_saved u"
  shows "fs_inv u \<and> fs_files u = fs_files s \<and> fs_dir u = fs_dir s \<and> root u = root s"
proof -
  note D = fs_invD [OF inv]
  note same = updates_same [OF up(1)]
  have free: "A \<inter> footprint s a = {}" "footprint s a \<subseteq> bitmap_used (free_map u)" if "file_ok s a" for a using that up(2,5) by (auto simp: file_ok_def)
  have root: "ROOT_DIR_SECTOR \<notin> A" "\<And>x. x \<in> extent (root s) \<Longrightarrow> disk u x = disk s x" using free(1) [OF D(5)] same(8) by (auto simp: footprint_def)
  have es: "entries u (root s) = entries s (root s)" by (intro entries_bytes inode_bytes_cong root(2))
  have dm: "dir_map u (root s) = fs_dir s" by (simp add: dir_map_def es fs_dir_def)
  have "dir_ok u (root s)" using D(6) root(2) same(1) by (simp add: dir_ok_def es inode_ok_def)
  moreover have "FREE_MAP_SECTOR \<in> bitmap_used (free_map u)" using inv up(5) by (auto simp: fs_inv_def)
  moreover have "FREE_MAP_SECTOR \<notin> A" using inv D(12) up(2) by (auto simp: fs_inv_def)
  ultimately have step: "fs_inv u" "fs_dir u = fs_dir s" using fs_inv_step [OF inv up(1,3,4) root(1) _ _ free(2) [OF D(5)] _ up(6), of "[]"] free D(8) dm by auto
  have "file_bytes u a = file_bytes s a" if "fs_dir s n = Some a" for n a
    using same_file(3) [of s a u] same(8) free(1) [OF D(8) [OF that]] by blast
  then have "fs_files u n = fs_files s n" for n by (cases "fs_dir s n") (auto simp: fs_files_def step(2))
  moreover have "root u = root s" using same(8) [OF root(1)] by (simp add: inode_on_disk_def)
  ultimately show ?thesis using step by auto
qed

text \<open>Closing the directory \<open>d\<close> leaves the objects of \<open>s\<close> and what happened on the disk since \<open>t\<close>.\<close>

definition closes :: "fsys \<Rightarrow> ptr \<Rightarrow> fsys \<Rightarrow> bool" where
  "closes s d t \<longleftrightarrow> (\<forall>t' A k. updates t t' A \<and> fs_ok t' \<and> spent k t t' \<longrightarrow>
     (\<exists>u. dir_close t' d = Some u \<and> (map_saved t' \<longrightarrow> map_saved u) \<and> updates s u A \<and> fs_ok u \<and> spent (k + 2) s u \<and> disk u = disk t' \<and> free_map u = free_map t'))"

lemma closesD:
  "closes s d t \<Longrightarrow> updates t t' A \<Longrightarrow> fs_ok t' \<Longrightarrow> spent k t t' \<Longrightarrow>
   \<exists>u. dir_close t' d = Some u \<and> (map_saved t' \<longrightarrow> map_saved u) \<and> updates s u A \<and> fs_ok u \<and> spent (k + 2) s u \<and> disk u = disk t' \<and> free_map u = free_map t'"
  unfolding closes_def by blast

lemma in_root:
  assumes inv: "fs_inv s" and mem: "blocks (n + 2) s"
  obtains t p d ms where "t = with_dir p d (root s) (s\<lparr>mallocs := ms\<rparr>)" "dir_open_root s = Some (d, t)" "d \<noteq> NULL" "fs_ok t"
    "map_extent t = map_extent s" "blocks n t"
    "dir_ok t (root s)" "entries t (root s) = entries s (root s)"
    "closes s d t" "map_saved t"
    "fresh t" "p \<noteq> NULL" "inode_at s p = None" "dir_at s d = None" "spent 2 s (s\<lparr>mallocs := ms\<rparr>)"
proof -
  note D = fs_invD [OF inv]
  obtain p d ms where m: "mallocs s = p # d # ms" "p \<noteq> NULL" "d \<noteq> NULL" "inode_at s p = None" "dir_at s d = None" "blocks n (s\<lparr>mallocs := ms\<rparr>)"
      "fresh (with_dir p d (root s) (s\<lparr>mallocs := ms\<rparr>))" "spent 2 s (s\<lparr>mallocs := ms\<rparr>)" "dir_open_root s = Some (d, with_dir p d (root s) (s\<lparr>mallocs := ms\<rparr>))"
    using dir_open_root_ok [OF D(3,7) mem D(4), of "root s"] by blast
  let ?a = "s\<lparr>mallocs := ms\<rparr>" and ?t = "with_dir p d (root s) (s\<lparr>mallocs := ms\<rparr>)"
  have up: "updates s ?a {}" using updates_refl [where s = s and m = ms and b = "free_map s" and A = "{}"] by simp
  have oka: "fs_ok ?a" using fs_ok_updates [OF D(1) up] D(1) map_extent_used [OF D(1)] by (simp add: fs_ok_def)
  have ea: "inode_at ?a p = None" "map_extent ?a = map_extent s" using m(4) updates_same(7) [OF up] by simp_all
  have okt: "fs_ok ?t" "map_extent ?t = map_extent s" using fs_ok_with_dir [OF oka ea(1), of d "root s"] ea(2) by simp_all
  have es: "entries ?t (root s) = entries s (root s)" by (intro entries_bytes inode_bytes_cong) simp
  have saved: "map_saved ?t"
    using m(4) by (intro map_saved_more [OF D(1,14), of ?t]) (auto simp: with_dir_def map_le_def)
  have bt: "blocks n ?t" using m(6) by (simp add: blocks_def)
  have dok: "dir_ok ?t (root s)" using D(6) by (simp add: dir_ok_def es inode_ok_def)
  have close: "\<exists>u. dir_close t d = Some u \<and> (map_saved t \<longrightarrow> map_saved u) \<and> updates s u A \<and> fs_ok u \<and> spent (k + 2) s u \<and> disk u = disk t \<and> free_map u = free_map t"
    if t: "updates ?t t A" "fs_ok t" "spent k ?t t" for t A k
  proof -
    obtain u where u: "t = with_dir p d (root s) u" "updates ?a u A" "disk u = disk t" "free_map u = free_map t" "mallocs u = mallocs t"
      using updates_with_dir [OF t(1)] by blast
    have "inode_at u p = None" "dir_at u d = None" using updates_same(4,6) [OF u(2)] m(4,5) by simp_all
    then have "dir_close t d = Some u" unfolding u(1) using m(2,3) by (intro close_with_dir) (simp_all add: inode_on_disk_def)
    moreover have "fs_ok u" using fs_ok_within [OF oka ea(1) u(2)] t(2) u(1) by simp
    moreover have "updates s u A" using updates_trans [OF up u(2)] by simp
    moreover have "spent (2 + k) s u" using m(8) t(3) u(5) by (intro spent_trans [of 2 s ?a k u]) (simp_all add: spent_def)
    moreover have "map_saved t \<longrightarrow> map_saved u" 
    proof -
      have "inode_at u \<subseteq>\<^sub>m inode_at t" using \<open>inode_at u p = None\<close> by (auto simp: u(1) with_dir_def map_le_def)
      then show ?thesis using map_saved_less [of t u] by (simp add: u(1))
    qed
    ultimately show ?thesis using u(3,4) by (auto simp: add.commute)
  qed
  have "closes s d ?t" unfolding closes_def using close by blast
  then show thesis by (rule that [OF refl m(9,3) okt bt dok es _ saved m(7,2,4,5,8)])
qed

text \<open>Giving the inode's sector back after a failure.\<close>

lemma release_one:
  assumes "fs_ok t" "free_map_file t \<noteq> NULL" "blocks 1 t" "sec \<in> bitmap_used (free_map t)" "sec \<notin> map_extent t"
  shows "\<exists>t'. free_map_release t sec 1 = Some t' \<and> updates t t' (map_extent t) \<and> fs_ok t' \<and> spent 1 t t' \<and> map_saved t' \<and> bitmap_used (free_map t') = bitmap_used (free_map t) - {sec}"
proof -
  have one: "{sec..<sec + 1} = {sec}" by auto
  have hb: "has_block t" unfolding has_block_def using blocks_can_bounce [OF assms(3)] by simp
  have sec: "sec < disk_size t" "disk_size t + 1 < 2 ^ 32" using assms(1,4) fs_okD(1) [OF assms(1)] by (auto simp: fs_ok_def bitmap_used_def)
  then show ?thesis using free_map_release_ok [OF assms(1,2) hb, of sec 1, unfolded one] assms(4,5) by simp
qed

definition can_create :: "fsys \<Rightarrow> 8 word list \<Rightarrow> bool" where
  "can_create s name \<longleftrightarrow> name \<noteq> [] \<and> length name \<le> NAME_MAX \<and> fs_dir s name = None \<and> (\<exists>e \<in> set (entries s (root s)). \<not> in_use e)"

definition disk_full :: "fsys \<Rightarrow> nat \<Rightarrow> bool" where
  "disk_full s n \<longleftrightarrow> no_run (bitmap_used (free_map s)) 1 (disk_size s) \<or> (\<exists>sec < disk_size s. sec \<notin> bitmap_used (free_map s) \<and> no_run (insert sec (bitmap_used (free_map s))) n (disk_size s))"

text \<open>The effect on the abstract file system, whether the entry could be added or not.\<close>

lemma create_commit:
  assumes inv: "fs_inv s" and up: "updates s u (map_extent s \<union> F \<union> extent (root s))" "spent k s u" "fs_ok u"
    and saved: "map_saved u" and used: "F \<inter> bitmap_used (free_map s) = {}" "bitmap_used (free_map s) \<subseteq> bitmap_used (free_map u)"
    and dir: "dir_ok u (root s)" "dir_map u (root s) = (if ok then (fs_dir s)(name \<mapsto> sec) else fs_dir s)"
    and new: "ok \<Longrightarrow> new_file s u sec" "ok \<Longrightarrow> file_bytes u sec = bs" "ok \<Longrightarrow> fs_dir s name = None"
  shows "fs_inv u \<and> fs_files u = (if ok then (fs_files s)(name \<mapsto> bs) else fs_files s) \<and> root u = root s"
proof -
  note D = fs_invD [OF inv]
  let ?A = "map_extent s \<union> F \<union> extent (root s)"
  have U: "map_extent s \<subseteq> bitmap_used (free_map s)" "FREE_MAP_SECTOR \<in> bitmap_used (free_map u)" "footprint s ROOT_DIR_SECTOR \<subseteq> bitmap_used (free_map u)" "ROOT_DIR_SECTOR \<notin> ?A" "FREE_MAP_SECTOR \<notin> ?A"
    using map_extent_used [OF D(1)] inv D(5,12,13) used by (auto simp: fs_inv_def file_ok_def footprint_def)
  have old: "?A \<inter> footprint s a = {} \<and> footprint s a \<subseteq> bitmap_used (free_map u)" if "fs_dir s n = Some a" for n a
    using D(8,9) [OF that] used by (auto simp: file_ok_def footprint_def)
  have files: "fs_dir s n = Some a \<and> ?A \<inter> footprint s a = {} \<and> footprint s a \<subseteq> bitmap_used (free_map u) \<or> n = name \<and> new_file s u a"
    if "dir_map u (root s) n = Some a" for n a
    using that new(1) old [of n a] unfolding dir(2) by (auto split: if_splits)
  note step = fs_inv_step [OF inv up U(4) dir(1) U(2,3,5) saved files]
  have "file_bytes u a = file_bytes s a" if "fs_dir s n = Some a" for n a
    using old [OF that] by (intro same_file(3)) (use updates_same(8) [OF up(1)] in blast)
  then have "fs_files u n = (if ok then (fs_files s)(name \<mapsto> bs) else fs_files s) n" for n
    using new(2) step(2) unfolding dir(2) by (cases "fs_dir s n") (auto simp: fs_files_def)
  moreover have "root u = root s" using updates_same(8) [OF up(1) U(4)] by (simp add: inode_on_disk_def)
  ultimately show ?thesis using step(1) by auto
qed

lemma create_added:
  assumes inv: "fs_inv s" and name: "0 \<notin> set name" "length name \<le> NAME_MAX" and junk: "length (entry_name junk) = NAME_MAX + 1"
    and t: "t = with_dir p d (root s) (s\<lparr>mallocs := ms\<rparr>)"
    and R: "dir_open_root s = Some (d, t)" "d \<noteq> NULL" "fs_ok t" "map_extent t = map_extent s" "blocks (2 * slots (root s) + 3 + 4) t" "dir_ok t (root s)"
      "entries t (root s) = entries s (root s)" "closes s d t" "map_saved t"
    and C: "free_map_allocate t 1 = Some (Some sec, t1)" "inode_create t1 sec len = Some (True, t2)" "fs_ok t2" "spent 3 t t2"
      "updates t t2 (map_extent t \<union> footprint t2 sec)" "new_file t t2 sec" "bitmap_used (free_map t2) = bitmap_used (free_map t) \<union> footprint t2 sec"
      "file_bytes t2 sec = bs" "map_saved t2"
  shows "\<exists>u. filesys_create s (Some name) len junk = Some (can_create s name, u) \<and> fs_inv u \<and>
    fs_files u = (if can_create s name then (fs_files s)(name \<mapsto> bs) else fs_files s) \<and>
    (\<not> can_create s name \<longrightarrow> bitmap_used (free_map u) = bitmap_used (free_map s) \<union> extent (inode_on_disk t2 sec)) \<and>
    extent (inode_on_disk t2 sec) \<inter> bitmap_used (free_map s) = {} \<and> spent (2 * slots (root s) + 9) s u \<and> root u = root s"
proof -
  let ?r = "root s" and ?F = "footprint t2 sec" and ?U = "bitmap_used (free_map s)" and ?M = "map_extent s"
  note D = fs_invD [OF inv]
  note C2 = updates_same [OF C(5)]
  have tt: "free_map t = free_map s" "free_map_file t = free_map_file s" "disk t = disk s" by (simp_all add: t)
  have F: "?F \<inter> ?U = {}" "sec \<in> ?F" "extent (inode_on_disk t2 sec) \<subseteq> ?F" "sec \<notin> extent (inode_on_disk t2 sec)" "file_ok t2 sec"
    using C(6) tt by (auto simp: new_file_def footprint_def file_ok_def)
  have U: "?M \<subseteq> ?U" "extent ?r \<subseteq> ?U" "extent ?r \<inter> ?M = {}" "sec \<noteq> 0" "sec \<notin> ?M"
    using map_extent_used [OF D(1)] inv D(5,10) F(1,2) by (auto simp: fs_inv_def file_ok_def footprint_def FREE_MAP_SECTOR_def)
  have di: "dir_at t2 d = Some \<lparr>dir_inode = p, dir_pos = 0\<rparr>" "inode_at t2 (dir_inode \<lparr>dir_inode = p, dir_pos = 0\<rparr>) = Some ?r" "deny_write_cnt ?r = 0"
    using C2 by (simp_all add: t inode_on_disk_def)
  have far: "disk t2 x = disk t x" if "x \<in> extent ?r" for x using C2(8) [of x] R(4) U F(1) that by blast
  have e2: "entries t2 ?r = entries s ?r" using entries_bytes [OF inode_bytes_cong, of ?r t2 t] far R(7) by simp
  have ok2: "dir_ok t2 ?r" using R(6) far C2(1) e2 R(7) by (simp add: dir_ok_def inode_ok_def)
  have b2: "blocks (2 * slots ?r + 3) t2" using blocks_mono [OF blocks_spent [OF R(5) C(4)]] by simp
  have s32: "sec < 2 ^ 32" using file_ok_sector [OF C(3) F(5)] by simp
  obtain ok t3 where A: "dir_add t2 d (Some name) sec junk = Some (ok, t3)" "updates t2 t3 (extent ?r)" "free_map t3 = free_map t2" "spent (2 * slots ?r + 3) t2 t3" "dir_ok t3 ?r"
      "ok \<longleftrightarrow> name \<noteq> [] \<and> length name \<le> NAME_MAX \<and> dir_map t2 ?r name = None \<and> (\<exists>e \<in> set (entries t2 ?r). \<not> in_use e)"
      "dir_map t3 ?r = (if ok then (dir_map t2 ?r)(name \<mapsto> sec) else dir_map t2 ?r)"
    using dir_add_ok [OF R(2) di(1,2) ok2 di(3) name(1) s32 junk b2] by blast
  have dm2: "dir_map t2 ?r = fs_dir s" by (simp add: dir_map_def e2 fs_dir_def)
  have okc: "ok = can_create s name" using A(6) by (simp add: dm2 e2 can_create_def)
  have up3: "updates t t3 (?M \<union> ?F \<union> extent ?r)" using updates_trans [OF C(5) A(2)] R(4) by simp
  have ok3: "fs_ok t3" using fs_ok_updates [OF C(3) A(2)] C(3) A(3) map_extent_used [OF C(3)] by (simp add: fs_ok_def)
  have sp3: "spent (2 * slots ?r + 6) t t3" using spent_trans [OF C(4) A(4)] by (simp add: add.commute numeral_eq_Suc)
  have ms3: "map_saved t3" using map_saved_updates [OF C(9) A(2)] A(3) U(3) C2(7) R(4) by simp
  have used3: "bitmap_used (free_map t3) = ?U \<union> ?F" using A(3) C(7) tt by simp
  have "\<exists>t4. (if \<not> ok \<and> sec \<noteq> 0 then free_map_release t3 sec 1 else Some t3) = Some t4 \<and> updates t3 t4 ?M \<and> fs_ok t4 \<and> spent 1 t3 t4 \<and> map_saved t4 \<and>
      bitmap_used (free_map t4) = ?U \<union> (if ok then ?F else extent (inode_on_disk t2 sec))"
  proof (cases ok)
    case True
    then show ?thesis using ok3 used3 ms3 updates_refl [where s = t3 and m = "mallocs t3" and b = "free_map t3" and A = ?M] spent_same [of t3 t3 1] by simp
  next
    case False
    have "blocks 1 t3" using blocks_mono [OF blocks_spent [OF R(5) sp3]] by simp
    moreover have "map_extent t3 = ?M" "free_map_file t3 \<noteq> NULL" using updates_same(2,7) [OF up3] R(4) tt D(2) by simp_all
    moreover have "?U \<union> ?F - {sec} = ?U \<union> extent (inode_on_disk t2 sec)" using F by (auto simp: footprint_def)
    ultimately show ?thesis using release_one [OF ok3, of sec] False U(4,5) used3 F(2) by simp
  qed
  then obtain t4 where t4: "(if \<not> ok \<and> sec \<noteq> 0 then free_map_release t3 sec 1 else Some t3) = Some t4" "updates t3 t4 ?M" "fs_ok t4" "spent 1 t3 t4" "map_saved t4"
      "bitmap_used (free_map t4) = ?U \<union> (if ok then ?F else extent (inode_on_disk t2 sec))" by blast
  have up4: "updates t t4 (?M \<union> ?F \<union> extent ?r)" by (rule updates_mono [OF updates_trans [OF up3 t4(2)]]) auto
  obtain u where u: "dir_close t4 d = Some u" "updates s u (?M \<union> ?F \<union> extent ?r)" "fs_ok u" "spent (2 * slots ?r + 6 + 1 + 2) s u" "disk u = disk t4" "free_map u = free_map t4" "map_saved u"
    using closesD [OF R(8) up4 t4(3) spent_trans [OF sp3 t4(4)]] t4(5) by blast
  have run: "filesys_create s (Some name) len junk = Some (ok, u)"
    using R(1,2) name(2) C(1,2) A(1) t4(1) u(1) by (simp add: filesys_create_def NAME_MAX_def)
  have disk: "disk u x = disk t3 x" if "x \<notin> ?M" for x using updates_same(8) [OF t4(2) that] u(5) by simp
  have eu: "entries u ?r = entries t3 ?r" using U(3) by (intro entries_bytes inode_bytes_cong disk) blast
  have sz: "disk_size u = disk_size t3" using updates_same(1) [OF u(2)] updates_same(1) [OF up3] t by simp
  have du: "dir_ok u ?r" "dir_map u ?r = (if ok then (fs_dir s)(name \<mapsto> sec) else fs_dir s)"
  proof -
    have "disk u x = disk t3 x" if "x \<in> extent ?r" for x using disk U(3) that by blast
    then show "dir_ok u ?r" using A(5) sz by (simp add: dir_ok_def eu inode_ok_def)
    show "dir_map u ?r = (if ok then (fs_dir s)(name \<mapsto> sec) else fs_dir s)" using A(7) unfolding dm2 by (simp add: dir_map_def eu)
  qed
  have new: "new_file s u sec" "file_bytes u sec = bs" if ok
  proof -
    have far: "disk u x = disk t2 x" if "x \<in> ?F" for x
    proof -
      have "x \<notin> ?M" "x \<notin> extent ?r" using that F(1) U(1,2) by blast+
      then show ?thesis using disk [of x] updates_same(8) [OF A(2), of x] by simp
    qed
    show "file_bytes u sec = bs" using same_file(3) [OF far] C(8) by simp
    have "map_extent u = map_extent t2" "disk_size u = disk_size t2" using updates_same(1,7) [OF u(2)] C2 R(4) t by simp_all
    moreover have "?F \<subseteq> bitmap_used (free_map u)" using t4(6) u(6) that by auto
    ultimately show "new_file s u sec" using file_ok_same [OF F(5) far] same_file(2) [OF far] F(1) by (simp add: new_file_def)
  qed
  have "?U \<subseteq> bitmap_used (free_map u)" using t4(6) u(6) by auto
  from create_commit [OF inv u(2,4,3,7) F(1) this du new] show ?thesis using run t4(6) u(6) F okc A(6) spent_mono [OF u(4), of "2 * slots ?r + 9"] by (auto simp: dm2)
qed

text \<open>On failure after \<open>inode_create\<close> the sectors of the data stay allocated: \<open>lost\<close>.\<close>

lemma filesys_create_ok:
  assumes inv: "fs_inv s" and name: "0 \<notin> set name" and len: "0 \<le> len" "len < 2 ^ 31" and junk: "length (entry_name junk) = NAME_MAX + 1"
    and mem: "blocks (2 * slots (root s) + 9) s"
  shows "\<exists>ok u lost. filesys_create s (Some name) len junk = Some (ok, u) \<and> fs_inv u \<and> spent (2 * slots (root s) + 9) s u \<and> root u = root s \<and>
    fs_files u = (if ok then (fs_files s)(name \<mapsto> replicate (nat len) 0) else fs_files s) \<and>
    (ok \<longrightarrow> can_create s name) \<and> (\<not> ok \<and> can_create s name \<longrightarrow> disk_full s (bytes_to_sectors (nat len))) \<and>
    (\<not> ok \<longrightarrow> bitmap_used (free_map u) = bitmap_used (free_map s) \<union> lost \<and> lost \<inter> bitmap_used (free_map s) = {} \<and>
       (lost = {} \<or> card lost = bytes_to_sectors (nat len)) \<and>
       (length name \<le> NAME_MAX \<and> \<not> can_create s name \<and> \<not> disk_full s (bytes_to_sectors (nat len)) \<longrightarrow> card lost = bytes_to_sectors (nat len)))"
proof -
  let ?r = "root s" and ?n = "bytes_to_sectors (nat len)" and ?U = "bitmap_used (free_map s)"
  let ?K = "2 * slots ?r + 3"
  note D = fs_invD [OF inv]
  have "blocks ((?K + 4) + 2) s" using mem by (simp add: numeral_eq_Suc)
  then obtain t p d ms where t: "t = with_dir p d ?r (s\<lparr>mallocs := ms\<rparr>)" and
    R: "dir_open_root s = Some (d, t)" "d \<noteq> NULL" "fs_ok t" "map_extent t = map_extent s" "blocks (?K + 4) t" "dir_ok t ?r" "entries t ?r = entries s ?r"
      "closes s d t" "map_saved t" "fresh t" "p \<noteq> NULL" "inode_at s p = None" "dir_at s d = None" "spent 2 s (s\<lparr>mallocs := ms\<rparr>)"
    by (rule in_root [OF inv])
  have bm: "free_map t = free_map s" "disk_size t = disk_size s" "disk t = disk s" "free_map_file t \<noteq> NULL" using D(2) by (simp_all add: t)
  have di: "dir_at t d = Some \<lparr>dir_inode = p, dir_pos = 0\<rparr>" "inode_at t p = Some ?r" "deny_write_cnt ?r = 0" by (simp_all add: t inode_on_disk_def)
  have U: "map_extent s \<subseteq> ?U" "FREE_MAP_SECTOR \<in> ?U" "extent ?r \<subseteq> ?U" "ROOT_DIR_SECTOR \<in> ?U" "ROOT_DIR_SECTOR \<notin> map_extent s" "ROOT_DIR_SECTOR \<notin> extent ?r"
    using map_extent_used [OF D(1)] inv D(5) by (auto simp: fs_inv_def file_ok_def footprint_def)
  have keep: "\<exists>u. dir_close t' d = Some u \<and> fs_inv u \<and> fs_files u = fs_files s \<and> free_map u = free_map t' \<and> spent (k + 2) s u \<and> root u = root s"
    if "updates t t' A" "fs_ok t'" "spent k t t'" "A \<inter> ?U \<subseteq> map_extent s" "?U \<subseteq> bitmap_used (free_map t')" "map_saved t'" for t' A k
    using closesD [OF R(8) that(1-3)] fs_inv_keep [OF inv _ that(4)] that(5,6) by metis
  have same: "updates t t {}" "spent 0 t t" using updates_refl [where s = t and m = "mallocs t" and b = "free_map t" and A = "{}"] spent_same by simp_all
  obtain u0 where u0: "dir_close t d = Some u0" "fs_inv u0" "fs_files u0 = fs_files s" "free_map u0 = free_map s" "spent (0 + 2) s u0" "root u0 = root s"
    using keep [OF same(1) R(3) same(2)] bm(1) R(9) by auto
  have sp0: "spent (2 * slots ?r + 9) s u0" using spent_mono [OF u0(5)] by simp
  show ?thesis
  proof (cases "length name \<le> NAME_MAX")
    case False
    then have "filesys_create s (Some name) len junk = Some (False, u0)" using R(1,2) u0(1) by (simp add: filesys_create_def NAME_MAX_def)
    then show ?thesis using u0 sp0 False by (intro exI [of _ False] exI [of _ u0] exI [of _ "{}"]) (simp add: can_create_def)
  next
    case True
    then have short: "length name \<le> 14" by (simp add: NAME_MAX_def)
    have b3: "blocks 3 t" using blocks_mono [OF R(5)] by simp
    show ?thesis
    proof (cases rule: create_allocates [OF R(3) bm(4) b3 len, case_names full no_data created])
      case full
      then have "filesys_create s (Some name) len junk = Some (False, u0)" using R(1,2) u0(1) short by (simp add: filesys_create_def)
      moreover have "disk_full s ?n" using full(2) bm by (simp add: disk_full_def)
      ultimately show ?thesis using u0 sp0 by (intro exI [of _ False] exI [of _ u0] exI [of _ "{}"]) simp
    next
      case (no_data sec t1 t2)
      have "sec \<noteq> 0" using U(2) no_data(7) bm(1) by (metis FREE_MAP_SECTOR_def)
      then have "sec \<notin> map_extent t2" "blocks 1 t2" "sec \<in> bitmap_used (free_map t2)" "free_map_file t2 \<noteq> NULL" "map_extent t2 = map_extent s"
        using no_data(7,8) bm U(1) updates_same(2,7) [OF no_data(5)] R(4) blocks_mono [OF blocks_spent [OF R(5) no_data(4)], of 1] by auto
      then obtain t3 where t3: "free_map_release t2 sec 1 = Some t3" "updates t2 t3 (map_extent s)" "fs_ok t3" "spent 1 t2 t3" "bitmap_used (free_map t3) = ?U" "map_saved t3"
        using release_one [of t2 sec] no_data(3,7,8) bm(1) by auto
      have "updates t t3 (map_extent s)" "spent 3 t t3"
        using updates_trans [OF no_data(5) t3(2)] R(4) spent_trans [OF no_data(4) t3(4)] by (simp_all add: numeral_3_eq_3)
      from keep [OF this(1) t3(3) this(2)] obtain u where u: "dir_close t3 d = Some u" "fs_inv u" "fs_files u = fs_files s" "bitmap_used (free_map u) = ?U" "spent (3 + 2) s u" "root u = root s"
        using t3(5,6) by auto
      have "filesys_create s (Some name) len junk = Some (False, u)"
        using R(1,2) short no_data(1,2) t3(1) u(1) \<open>sec \<noteq> 0\<close> by (simp add: filesys_create_def)
      moreover have "disk_full s ?n" using no_data(6,7,9) bm by (auto simp: disk_full_def)
      ultimately show ?thesis using u spent_mono [OF u(5), of "2 * slots ?r + 9"] by (intro exI [of _ False] exI [of _ u] exI [of _ "{}"]) simp
    next
      case (created sec t1 t2)
      show ?thesis using create_added [OF inv name True junk t R(1-9) created(1-9)] created(10) by blast
    qed
  qed
qed

section \<open>Removing a file\<close>

lemma remove_closed:
  assumes inv: "fs_inv s" and name: "0 \<notin> set name" and mem: "blocks (slots (root s) + 7) s" and sec: "fs_dir s name = Some sec" "not_open s sec"
  shows "\<exists>u. filesys_remove s (Some name) = Some (True, u) \<and> fs_inv u \<and> fs_files u = (fs_files s)(name := None) \<and>
    bitmap_used (free_map u) = bitmap_used (free_map s) - footprint s sec"
proof -
  let ?r = "root s" and ?U = "bitmap_used (free_map s)" and ?M = "map_extent s"
  note D = fs_invD [OF inv]
  have "blocks ((slots ?r + 5) + 2) s" using mem by (simp add: numeral_eq_Suc)
  then obtain t p d ms where t: "t = with_dir p d ?r (s\<lparr>mallocs := ms\<rparr>)" and
    R: "dir_open_root s = Some (d, t)" "d \<noteq> NULL" "fs_ok t" "map_extent t = map_extent s" "blocks (slots ?r + 5) t" "dir_ok t ?r" "entries t ?r = entries s ?r"
      "closes s d t" "map_saved t" "fresh t" "p \<noteq> NULL" "inode_at s p = None" "dir_at s d = None" "spent 2 s (s\<lparr>mallocs := ms\<rparr>)"
    by (rule in_root [OF inv])
  have di: "dir_at t d = Some \<lparr>dir_inode = p, dir_pos = 0\<rparr>" "inode_at t (dir_inode \<lparr>dir_inode = p, dir_pos = 0\<rparr>) = Some ?r" "deny_write_cnt ?r = 0"
      "free_map_file t \<noteq> NULL" "dir_map t ?r name = Some sec" "extent ?r \<inter> map_extent t = {}"
    using D(2,10) sec(1) R(4,7) by (simp_all add: t inode_on_disk_def fs_dir_def dir_map_def)
  have tt: "free_map t = free_map s" "disk t = disk s" "disk_size t = disk_size s" by (simp_all add: t)
  have ok: "file_ok t sec" using file_ok_same [OF D(8) [OF sec(1)], of t] D(8) [OF sec(1)] R(4) tt by (simp add: file_ok_def)
  have ne: "sec \<noteq> ROOT_DIR_SECTOR" using D(9) [OF sec(1)] by (auto simp: footprint_def)
  have no: "not_open t sec" using sec(2) R(12) ne by (auto simp: not_open_def t with_dir_def inode_on_disk_def)
  from dir_remove_closed [OF R(2) di(1,2) R(6) di(3) name R(5,10,3) di(4,5) no ok di(6)] obtain t' where
    t': "dir_remove t d (Some name) = Some (True, t')" "updates t t' (extent ?r \<union> ?M)" "spent (slots ?r + 5) t t'" "fs_ok t'" "map_saved t'" "dir_ok t' ?r"
      "dir_map t' ?r = (dir_map t ?r)(name := None)" "bitmap_used (free_map t') = bitmap_used (free_map t) - footprint t sec" unfolding R(4) by blast
  obtain u where u: "dir_close t' d = Some u" "updates s u (extent ?r \<union> ?M)" "fs_ok u" "spent (slots ?r + 5 + 2) s u" "disk u = disk t'" "free_map u = free_map t'" "map_saved u"
    using closesD [OF R(8) t'(2,4,3)] t'(5) by blast
  have fp: "footprint t sec = footprint s sec" using tt by (simp add: footprint_def inode_on_disk_def)
  have used: "bitmap_used (free_map u) = ?U - footprint s sec" using t'(8) u(6) tt fp by simp
  have sz: "disk_size u = disk_size t'" using updates_same(1) [OF u(2)] updates_same(1) [OF t'(2)] tt by simp
  have eu: "entries u ?r = entries t' ?r" by (intro entries_bytes inode_bytes_cong) (simp add: u(5))
  have du: "dir_ok u ?r" "dir_map u ?r = (fs_dir s)(name := None)"
    using t'(6,7) R(7) sz u(5) by (simp_all add: dir_ok_def dir_map_def eu fs_dir_def inode_ok_def)
  have root: "ROOT_DIR_SECTOR \<notin> extent ?r \<union> ?M" "FREE_MAP_SECTOR \<in> bitmap_used (free_map u)" "footprint s ROOT_DIR_SECTOR \<subseteq> bitmap_used (free_map u)" "FREE_MAP_SECTOR \<notin> extent ?r \<union> ?M"
    using D(5,12,13) D(9,11) [OF sec(1)] inv used by (auto simp: file_ok_def footprint_def fs_inv_def)
  have other: "(extent ?r \<union> ?M) \<inter> footprint s a = {} \<and> footprint s a \<subseteq> bitmap_used (free_map u)" if "fs_dir s n = Some a" "n \<noteq> name" for n a
  proof -
    have "footprint s a \<inter> footprint s sec = {}" using inv that sec(1) unfolding fs_inv_def apart_def by blast
    then show ?thesis using D(8,9) [OF that(1)] used by (auto simp: file_ok_def footprint_def)
  qed
  have files: "fs_dir s n = Some a \<and> (extent ?r \<union> ?M) \<inter> footprint s a = {} \<and> footprint s a \<subseteq> bitmap_used (free_map u) \<or> n = [] \<and> new_file s u a"
    if "dir_map u ?r n = Some a" for n a
    using that other [of n a] unfolding du(2) by (auto split: if_splits)
  note step = fs_inv_step [OF inv u(2,4,3) root(1) du(1) root(2-4) u(7) files]
  have "file_bytes u a = file_bytes s a" if "fs_dir s n = Some a" "n \<noteq> name" for n a
    using other [OF that] by (intro same_file(3)) (use updates_same(8) [OF u(2)] in blast)
  then have "fs_files u n = ((fs_files s)(name := None)) n" for n using step(2) unfolding du(2) by (cases "fs_dir s n") (auto simp: fs_files_def)
  moreover have "filesys_remove s (Some name) = Some (True, u)" using R(1,2) t'(1) u(1) by (simp add: filesys_remove_def)
  ultimately show ?thesis using step(1) used by blast
qed

text \<open>A file that is open is only marked as removed.\<close>

lemma find_open_ok: "opens_ok s \<Longrightarrow> set ps \<subseteq> set (open_inodes s) \<Longrightarrow> \<not> (\<forall>q \<in> set ps. \<exists>i. inode_at s q = Some i \<and> sector i \<noteq> sec) \<Longrightarrow> \<exists>q. find_open s ps sec = Some (Some q)"
proof (induction ps)
  case (Cons p ps)
  then obtain i where i: "inode_at s p = Some i" by (auto simp: opens_ok_def)
  show ?case using Cons i by (cases "sector i = sec") auto
qed simp

lemma find_open_cong: "(\<And>q. q \<in> set ps \<Longrightarrow> inode_at s' q = inode_at s q) \<Longrightarrow> find_open s' ps sec = find_open s ps sec"
  by (induction ps) (simp_all cong: if_cong)

lemma map_kept_more:
  assumes inv: "fs_inv s" and eq: "disk u = disk s" "disk_size u = disk_size s" "free_map u = free_map s" "free_map_file u = free_map_file s"
    and sub: "file_at s \<subseteq>\<^sub>m file_at u" "inode_at s \<subseteq>\<^sub>m inode_at u"
  shows "map_kept u"
proof -
  note D = fs_invD [OF inv]
  have "map_extent u = map_extent s" using fs_ok_frame(2) [OF D(1) eq sub] .
  moreover have "map_saved u" by (rule map_saved_more [OF D(1,14) eq(1,3,4) sub])
  moreover obtain x i where "file_at s (free_map_file s) = Some x" "inode_at s (file_inode x) = Some i" "data i = decode_inode (disk s FREE_MAP_SECTOR)"
    using inv unfolding fs_inv_def map_kept_def by blast
  moreover from this have "file_at u (free_map_file u) = Some x" "inode_at u (file_inode x) = Some i" using sub eq(4) unfolding map_le_def by (metis domI)+
  moreover have "footprint u ROOT_DIR_SECTOR = footprint s ROOT_DIR_SECTOR" using same_file(2) [of s ROOT_DIR_SECTOR u] eq(1) by simp
  ultimately show ?thesis using inv eq(1) unfolding fs_inv_def map_kept_def by auto
qed

lemma fs_inv_frame:
  assumes inv: "fs_inv s" and eq: "disk u = disk s" "disk_size u = disk_size s" "bitmap_used (free_map u) = bitmap_used (free_map s)" "free_map_file u \<noteq> NULL" "map_extent u = map_extent s"
    and new: "fs_ok u" "opens_ok u" "fresh u" "map_kept u"
  shows "fs_inv u \<and> fs_files u = fs_files s \<and> fs_dir u = fs_dir s"
proof -
  have disk: "inode_on_disk u a = inode_on_disk s a" "footprint u a = footprint s a" "file_bytes u a = file_bytes s a" for a
    using same_file [of s a u] eq(1) by simp_all
  have es: "entries u i = entries s i" for i by (intro entries_bytes inode_bytes_cong) (simp add: eq)
  have dir: "fs_dir u = fs_dir s" by (simp add: fs_dir_def dir_map_def es disk)
  have "file_bytes u = file_bytes s" using disk(3) by blast
  then have "fs_files u = fs_files s" using dir unfolding fs_files_def by simp
  moreover have iok: "inode_ok u i = inode_ok s i" for i by (simp add: inode_ok_def eq)
  ultimately show ?thesis using inv new dir by (simp add: fs_inv_def apart_def file_ok_def dir_ok_def disk dir es iok eq)
qed

text \<open>Changing what the invariant does not see of an inode in memory.\<close>

lemma fs_inv_inode:
  assumes inv: "fs_inv s" and q: "inode_at s q = Some ni" "sector ni' = sector ni" "open_cnt ni' > 0" "data ni' = data ni" "deny_write_cnt ni' = deny_write_cnt ni" and "q \<noteq> NULL"
  shows "fs_inv (s\<lparr>inode_at := (inode_at s)(q \<mapsto> ni')\<rparr>) \<and> fs_files (s\<lparr>inode_at := (inode_at s)(q \<mapsto> ni')\<rparr>) = fs_files s \<and> fs_dir (s\<lparr>inode_at := (inode_at s)(q \<mapsto> ni')\<rparr>) = fs_dir s"
proof -
  let ?u = "s\<lparr>inode_at := (inode_at s)(q \<mapsto> ni')\<rparr>"
  have ext: "extent ni' = extent ni" using q(4) by (simp add: extent_def)
  have me: "map_extent ?u = map_extent s" using q(1) ext by (simp add: map_extent_def split: option.split)
  have mf: "map_file_ok s ni \<Longrightarrow> map_file_ok ?u ni'" "\<And>i. map_file_ok s i \<Longrightarrow> map_file_ok ?u i" using q(4,5) ext by (auto simp: map_file_ok_def inode_ok_def)
  have "fs_ok ?u" using fs_invD(1) [OF inv] q(1) mf unfolding fs_ok_def by (auto split: if_splits)
  moreover have "opens_ok ?u" using inv q \<open>q \<noteq> NULL\<close> unfolding fs_inv_def opens_ok_def not_open_def by (auto split: if_splits)
  moreover have "fresh ?u" using fs_invD(4) [OF inv] q(1) by (auto simp: fresh_def)
  moreover have "map_kept ?u"
  proof -
    have "inode_bytes ?u i = inode_bytes s i" "inode_bytes s ni' = inode_bytes s ni" for i using q(4) by (simp_all add: inode_bytes_def inode_byte_def)
    then have "map_saved ?u" using fs_invD(14) [OF inv] q(1,4) unfolding map_saved_def by (auto split: if_splits)
    moreover have "footprint ?u ROOT_DIR_SECTOR = footprint s ROOT_DIR_SECTOR" using same_file(2) [of s ROOT_DIR_SECTOR ?u] by simp
    ultimately show ?thesis using inv q(1,4) me unfolding fs_inv_def map_kept_def by auto
  qed
  ultimately show ?thesis using me fs_invD(2) [OF inv] by (intro fs_inv_frame [OF inv]) simp_all
qed

lemma remove_open:
  assumes inv: "fs_inv s" and name: "0 \<notin> set name" and mem: "blocks (slots (root s) + 4) s" and sec: "fs_dir s name = Some sec" "\<not> not_open s sec"
  shows "\<exists>u. filesys_remove s (Some name) = Some (True, u) \<and> fs_inv u \<and> fs_files u = (fs_files s)(name := None) \<and> free_map u = free_map s \<and>
    (\<exists>q i. inode_at s q = Some i \<and> sector i = sec \<and> inode_at u = (inode_at s)(q \<mapsto> i\<lparr>removed := True\<rparr>))"
proof -
  let ?r = "root s" and ?M = "map_extent s"
  note D = fs_invD [OF inv]
  obtain q where q: "find_open s (open_inodes s) sec = Some (Some q)" using find_open_ok [of s "open_inodes s" sec] inv sec(2) by (auto simp: fs_inv_def not_open_def)
  then obtain ni where ni: "inode_at s q = Some ni" "sector ni = sec" "q \<in> set (open_inodes s)" using find_open_Some by blast
  have nn: "q \<noteq> NULL" "0 < open_cnt ni" using ni inv unfolding fs_inv_def opens_ok_def by auto
  have "blocks ((slots ?r + 2) + 2) s" using mem by (simp add: numeral_eq_Suc)
  then obtain t p d ms where t: "t = with_dir p d ?r (s\<lparr>mallocs := ms\<rparr>)" and
    R: "dir_open_root s = Some (d, t)" "d \<noteq> NULL" "fs_ok t" "map_extent t = map_extent s" "blocks (slots ?r + 2) t" "dir_ok t ?r" "entries t ?r = entries s ?r"
      "closes s d t" "map_saved t" "fresh t" "p \<noteq> NULL" "inode_at s p = None" "dir_at s d = None" "spent 2 s (s\<lparr>mallocs := ms\<rparr>)"
    by (rule in_root [OF inv])
  have qp: "q \<noteq> p" using ni(1) R(12) by auto
  have ne: "sec \<noteq> ROOT_DIR_SECTOR" using D(9) [OF sec(1)] by (auto simp: footprint_def)
  have di: "dir_at t d = Some \<lparr>dir_inode = p, dir_pos = 0\<rparr>" "inode_at t (dir_inode \<lparr>dir_inode = p, dir_pos = 0\<rparr>) = Some ?r" "deny_write_cnt ?r = 0"
      "dir_map t ?r name = Some sec" "sector ?r \<noteq> sec" "inode_at t q = Some ni"
    using sec(1) R(7) ne ni(1) qp by (simp_all add: t inode_on_disk_def fs_dir_def dir_map_def) (simp add: with_dir_def)
  have "find_open t (open_inodes s) sec = find_open s (open_inodes s) sec"
    using inv R(12) by (intro find_open_cong) (auto simp: t with_dir_def fs_inv_def opens_ok_def)
  then have fo: "find_open t (open_inodes t) sec = Some (Some q)" using q di(2,5) by (simp add: t with_dir_def)
  have s32: "sec < 2 ^ 32" using file_ok_sector [OF D(1) D(8) [OF sec(1)]] by simp
  from dir_remove_open [OF R(2) di(1,2) R(6) di(3) name R(5) di(4) s32 di(5) fo di(6) nn] obtain m e where
    t': "dir_remove t d (Some name) = Some (True, t\<lparr>mallocs := m, disk := e, inode_at := (inode_at t)(q \<mapsto> ni\<lparr>removed := True\<rparr>)\<rparr>)"
      "updates t (t\<lparr>mallocs := m, disk := e\<rparr>) (extent ?r)" "spent (slots ?r + 2) t (t\<lparr>mallocs := m\<rparr>)" "dir_ok (t\<lparr>disk := e\<rparr>) ?r"
      "dir_map (t\<lparr>disk := e\<rparr>) ?r = (dir_map t ?r)(name := None)" by blast
  let ?v = "s\<lparr>mallocs := m, disk := e\<rparr>"
  let ?u = "?v\<lparr>inode_at := (inode_at ?v)(q \<mapsto> ni\<lparr>removed := True\<rparr>)\<rparr>"
  have "t\<lparr>mallocs := m, disk := e, inode_at := (inode_at t)(q \<mapsto> ni\<lparr>removed := True\<rparr>)\<rparr> = with_dir p d ?r ?u"
    using qp by (simp add: t with_dir_def fun_upd_twist)
  moreover have "dir_close (with_dir p d ?r ?u) d = Some ?u" using R(2,11,12,13) qp by (intro close_with_dir) (simp_all add: inode_on_disk_def)
  ultimately have run: "filesys_remove s (Some name) = Some (True, ?u)" using R(1,2) t'(1) by (simp add: filesys_remove_def)
  have "t\<lparr>mallocs := m, disk := e\<rparr> = with_dir p d ?r ?v" by (simp add: t with_dir_def)
  then have "updates t (with_dir p d ?r ?v) (extent ?r)" using t'(2) by simp
  moreover have "fs_ok (with_dir p d ?r ?v)"
    using fs_ok_updates [OF R(3) \<open>updates t (with_dir p d ?r ?v) (extent ?r)\<close>] R(3,4) map_extent_used [OF D(1)] by (simp add: fs_ok_def t)
  moreover have "spent (slots ?r + 2) t (with_dir p d ?r ?v)" using t'(3) by (simp add: spent_def)
  moreover have "dir_close (with_dir p d ?r ?v) d = Some ?v" using R(2,11,12,13) by (intro close_with_dir) (simp_all add: inode_on_disk_def)
  ultimately have v: "updates s ?v (extent ?r)" "fs_ok ?v" "spent (slots ?r + 2 + 2) s ?v" "map_saved ?v" using map_saved_updates [OF D(14), of ?v "extent ?r"] D(10) closesD [OF R(8), of "with_dir p d ?r ?v"] by auto
  have ev: "entries ?v ?r = entries (t\<lparr>disk := e\<rparr>) ?r" by (intro entries_bytes inode_bytes_cong) simp
  have dv: "dir_ok ?v ?r" "dir_map ?v ?r = (fs_dir s)(name := None)"
    using t'(4,5) R(7) by (simp_all add: dir_ok_def dir_map_def ev fs_dir_def inode_ok_def t)
  have root: "ROOT_DIR_SECTOR \<notin> extent ?r" "FREE_MAP_SECTOR \<in> bitmap_used (free_map ?v)" "footprint s ROOT_DIR_SECTOR \<subseteq> bitmap_used (free_map ?v)" "FREE_MAP_SECTOR \<notin> extent ?r"
    using D(5,13) inv by (auto simp: file_ok_def fs_inv_def)
  have other: "extent ?r \<inter> footprint s a = {} \<and> footprint s a \<subseteq> bitmap_used (free_map ?v)" if "fs_dir s n = Some a" for n a
    using D(8,9) [OF that(1)] by (auto simp: file_ok_def footprint_def)
  have files: "fs_dir s n = Some a \<and> extent ?r \<inter> footprint s a = {} \<and> footprint s a \<subseteq> bitmap_used (free_map ?v) \<or> n = [] \<and> new_file s ?v a"
    if "dir_map ?v ?r n = Some a" for n a
    using that other [of n a] unfolding dv(2) by (auto split: if_splits)
  note step = fs_inv_step [OF inv v(1,3,2) root(1) dv(1) root(2-4) v(4) files]
  have "file_bytes ?v a = file_bytes s a" if "fs_dir s n = Some a" for n a
    using other [OF that] by (intro same_file(3)) (use updates_same(8) [OF v(1)] in blast)
  then have "fs_files ?v n = ((fs_files s)(name := None)) n" for n using step(2) unfolding dv(2) by (cases "fs_dir s n") (auto simp: fs_files_def)
  then have "fs_files ?v = (fs_files s)(name := None)" by blast
  then show ?thesis using run fs_inv_inode [OF step(1), of q ni "ni\<lparr>removed := True\<rparr>"] ni nn
    by (intro exI [of _ ?u]) auto
qed

lemma remove_absent:
  assumes inv: "fs_inv s" and name: "0 \<notin> set name" and mem: "blocks (slots (root s) + 3) s" and no: "fs_dir s name = None"
  shows "\<exists>u. filesys_remove s (Some name) = Some (False, u) \<and> fs_inv u \<and> fs_files u = fs_files s \<and> free_map u = free_map s"
proof -
  let ?r = "root s"
  have "blocks ((slots ?r + 1) + 2) s" using mem by (simp add: numeral_eq_Suc)
  then obtain t p d ms where t: "t = with_dir p d ?r (s\<lparr>mallocs := ms\<rparr>)" and
    R: "dir_open_root s = Some (d, t)" "d \<noteq> NULL" "fs_ok t" "map_extent t = map_extent s" "blocks (slots ?r + 1) t" "dir_ok t ?r" "entries t ?r = entries s ?r"
      "closes s d t" "map_saved t" "fresh t" "p \<noteq> NULL" "inode_at s p = None" "dir_at s d = None" "spent 2 s (s\<lparr>mallocs := ms\<rparr>)"
    by (rule in_root [OF inv])
  have di: "dir_at t d = Some \<lparr>dir_inode = p, dir_pos = 0\<rparr>" "inode_at t (dir_inode \<lparr>dir_inode = p, dir_pos = 0\<rparr>) = Some ?r" "dir_map t ?r name = None"
    using no R(7) by (simp_all add: t fs_dir_def dir_map_def)
  obtain m where m: "dir_remove t d (Some name) = Some (False, t\<lparr>mallocs := m\<rparr>)" "spent (slots ?r + 1) t (t\<lparr>mallocs := m\<rparr>)"
    using dir_remove_absent [OF R(2) di(1,2) R(6) name R(5) di(3)] by blast
  have up: "updates t (t\<lparr>mallocs := m\<rparr>) {}" using updates_refl [where s = t and m = m and b = "free_map t" and A = "{}"] by simp
  have "fs_ok (t\<lparr>mallocs := m\<rparr>)" using fs_ok_updates [OF R(3) up] R(3) map_extent_used [OF R(3)] by (simp add: fs_ok_def)
  from closesD [OF R(8) up this m(2)] obtain u where u: "dir_close (t\<lparr>mallocs := m\<rparr>) d = Some u" "updates s u {}" "fs_ok u" "spent (slots ?r + 1 + 2) s u" "free_map u = free_map s"
    by (auto simp: t)
  have "filesys_remove s (Some name) = Some (False, u)" using R(1,2) m(1) u(1) by (simp add: filesys_remove_def)
  then show ?thesis using fs_inv_keep [OF inv u(2) _ u(4,3)] map_saved_updates [OF fs_invD(14) [OF inv] u(2)] u(5) by auto
qed

section \<open>Opening a file\<close>

lemma open_file_ok:
  assumes inv: "fs_inv v" and q: "q \<noteq> NULL" and mem: "blocks 1 v"
  shows "\<exists>f u. file_open v q = Some (f, u) \<and> f \<noteq> NULL \<and> fs_inv u \<and> fs_files u = fs_files v \<and> free_map u = free_map v \<and> inode_at u = inode_at v \<and> disk u = disk v \<and>
    file_at u = (file_at v)(f \<mapsto> \<lparr>file_inode = q, pos = 0, deny_write = False, dup_count = 1, mapping_cnt = 0\<rparr>) \<and> file_at v f = None"
proof -
  obtain f ms where f: "mallocs v = f # ms" "f \<noteq> NULL" using mem by (cases "mallocs v") (auto simp: blocks_def)
  have none: "file_at v f = None" using fs_invD(4) [OF inv] f(1) by (simp add: fresh_def)
  define u where "u = v\<lparr>mallocs := ms, file_at := (file_at v)(f \<mapsto> \<lparr>file_inode = q, pos = 0, deny_write = False, dup_count = 1, mapping_cnt = 0\<rparr>)\<rparr>"
  have "file_at v \<subseteq>\<^sub>m file_at u" using none by (auto simp: map_le_def u_def)
  then have ok: "fs_ok u" "map_extent u = map_extent v" "map_kept u" using fs_ok_frame [OF fs_invD(1) [OF inv], of u] map_kept_more [OF inv, of u] by (simp_all add: u_def)
  have "opens_ok u" using inv by (simp add: fs_inv_def opens_ok_def not_open_def u_def)
  moreover have "fresh u" using fs_invD(4) [OF inv] f(1) by (auto simp: fresh_def u_def)
  ultimately have "fs_inv u \<and> fs_files u = fs_files v \<and> fs_dir u = fs_dir v" using ok fs_invD(2) [OF inv] by (intro fs_inv_frame [OF inv]) (simp_all add: u_def)
  moreover have "file_open v q = Some (f, u)" using f q by (simp add: file_open_def alloc_block_def u_def)
  ultimately show ?thesis using none f(2) by (intro exI [of _ f] exI [of _ u]) (simp add: u_def)
qed

lemma lookup_in_root:
  assumes inv: "fs_inv s" and name: "0 \<notin> set name" and mem: "blocks (slots (root s) + 5) s"
  obtains t p d ms m where "dir_open_root s = Some (d, t)" "t = with_dir p d (root s) (s\<lparr>mallocs := ms\<rparr>)" "d \<noteq> NULL" "p \<noteq> NULL" "inode_at s p = None" "dir_at s d = None"
    "blocks 2 (s\<lparr>mallocs := m\<rparr>)" "spent (slots (root s) + 3) s (s\<lparr>mallocs := m\<rparr>)" "fresh (with_dir p d (root s) (s\<lparr>mallocs := m\<rparr>))"
    "dir_lookup t d (Some name) = (case fs_dir s name of None \<Rightarrow> Some ((False, NULL), with_dir p d (root s) (s\<lparr>mallocs := m\<rparr>))
       | Some sec \<Rightarrow> do { (q, t') \<leftarrow> inode_open (with_dir p d (root s) (s\<lparr>mallocs := m\<rparr>)) sec; Some ((q \<noteq> NULL, q), t') })"
proof -
  let ?r = "root s"
  have "blocks ((slots ?r + 3) + 2) s" using mem by (simp add: numeral_eq_Suc)
  then obtain t p d ms where t: "t = with_dir p d ?r (s\<lparr>mallocs := ms\<rparr>)" and
    R: "dir_open_root s = Some (d, t)" "d \<noteq> NULL" "fs_ok t" "map_extent t = map_extent s" "blocks (slots ?r + 3) t" "dir_ok t ?r" "entries t ?r = entries s ?r"
      "closes s d t" "map_saved t" "fresh t" "p \<noteq> NULL" "inode_at s p = None" "dir_at s d = None" "spent 2 s (s\<lparr>mallocs := ms\<rparr>)"
    by (rule in_root [OF inv])
  have di: "dir_at t d = Some \<lparr>dir_inode = p, dir_pos = 0\<rparr>" "inode_at t (dir_inode \<lparr>dir_inode = p, dir_pos = 0\<rparr>) = Some ?r" "dir_map t ?r = fs_dir s" "blocks (slots ?r + 1) t"
    using R(5,7) by (simp_all add: t fs_dir_def dir_map_def blocks_def)
  obtain x m where l: "lookup t d (Some name) = Some (x, t\<lparr>mallocs := m\<rparr>)" "spent (slots ?r + 1) t (t\<lparr>mallocs := m\<rparr>)"
      "case x of None \<Rightarrow> dir_map t ?r name = None
       | Some (e, ofs) \<Rightarrow> \<exists>j < slots ?r. ofs = j * ENTRY_SIZE \<and> e = entries t ?r ! j \<and> has_name name e \<and> dir_map t ?r name = Some (inode_sector e)"
    using lookup_ok [OF R(2) di(1,2) R(6) name di(4)] by blast
  have eq: "t\<lparr>mallocs := m\<rparr> = with_dir p d ?r (s\<lparr>mallocs := m\<rparr>)" by (simp add: t with_dir_def)
  have look: "dir_lookup t d (Some name) = (case fs_dir s name of None \<Rightarrow> Some ((False, NULL), with_dir p d ?r (s\<lparr>mallocs := m\<rparr>))
       | Some sec \<Rightarrow> do { (q, t') \<leftarrow> inode_open (with_dir p d ?r (s\<lparr>mallocs := m\<rparr>)) sec; Some ((q \<noteq> NULL, q), t') })"
    using l(1,3) R(2) unfolding di(3) eq by (auto simp: dir_lookup_def split: option.splits)
  have sp: "spent (slots ?r + 3) s (s\<lparr>mallocs := m\<rparr>)"
    using spent_trans [OF R(14), of "slots ?r + 1" "s\<lparr>mallocs := m\<rparr>"] l(2) by (simp add: spent_def t add.commute numeral_3_eq_3 numeral_2_eq_2)
  have "fresh (with_dir p d ?r (s\<lparr>mallocs := m\<rparr>))" unfolding eq [symmetric] by (rule fresh_spent [OF R(10) l(2)]) simp_all
  then show thesis using that [OF R(1) t R(2,11,12,13) _ sp _ look] blocks_spent [OF mem sp] by simp
qed

definition opened_inode :: "fsys \<Rightarrow> nat \<Rightarrow> inode \<Rightarrow> bool" where
  "opened_inode s sec i \<longleftrightarrow> (if not_open s sec then i = inode_on_disk s sec
     else \<exists>q j. q \<in> set (open_inodes s) \<and> inode_at s q = Some j \<and> sector j = sec \<and> i = j\<lparr>open_cnt := open_cnt j + 1\<rparr>)"

text \<open>Opening the inode while the root directory is open, and closing the directory.\<close>

lemma open_new:
  assumes inv: "fs_inv v" and p: "d \<noteq> NULL" "p \<noteq> NULL" "inode_at v p = None" "dir_at v d = None" "p \<notin> set (mallocs v)" and mem: "blocks 2 v"
    and sec: "not_open v sec" "sec \<noteq> ROOT_DIR_SECTOR" "sec < disk_size v" and ri: "open_cnt ri = 1" "\<not> removed ri" "sector ri = ROOT_DIR_SECTOR"
  shows "\<exists>q u t'. inode_open (with_dir p d ri v) sec = Some (q, t') \<and> dir_close t' d = Some u \<and> q \<noteq> NULL \<and> inode_at u q = Some (inode_on_disk v sec) \<and>
    fs_inv u \<and> fs_files u = fs_files v \<and> free_map u = free_map v \<and> disk u = disk v \<and> file_at u = file_at v \<and> blocks 1 u"
proof -
  obtain q m where q: "mallocs v = q # m" "q \<noteq> NULL" "p \<noteq> q" using mem p(5) by (cases "mallocs v") (auto simp: blocks_def)
  have none: "inode_at v q = None" using fs_invD(4) [OF inv] q(1) by (simp add: fresh_def)
  let ?t = "with_dir p d ri v" and ?ni = "inode_on_disk v sec"
  let ?t' = "?t\<lparr>mallocs := m, open_inodes := q # open_inodes ?t, inode_at := (inode_at ?t)(q \<mapsto> ?ni)\<rparr>"
  define u where "u = v\<lparr>mallocs := m, open_inodes := q # open_inodes v, inode_at := (inode_at v)(q \<mapsto> ?ni)\<rparr>"
  have "not_open ?t sec" using sec(1,2) ri(3) p(3) by (auto simp: not_open_def with_dir_def)
  then have open': "inode_open ?t sec = Some (q, ?t')" using inode_open_new [of ?t sec q m] sec(3) q by (simp add: inode_on_disk_def)
  have "((inode_at v)(p \<mapsto> x, q \<mapsto> ?ni))(p := None) = (inode_at v)(q \<mapsto> ?ni)" for x using p(3) q(3) by (auto simp: fun_eq_iff)
  then have close: "dir_close ?t' d = Some u"
    using p(1-4) q(3) ri by (simp add: dir_close_def inode_close_def upd_inode_def with_dir_def u_def fun_upd_idem fun_upd_twist)
  have "inode_at v \<subseteq>\<^sub>m inode_at u" using none by (auto simp: map_le_def u_def)
  then have ok: "fs_ok u" "map_extent u = map_extent v" "map_kept u" using fs_ok_frame [OF fs_invD(1) [OF inv], of u] map_kept_more [OF inv, of u] by (simp_all add: u_def)
  have "opens_ok u" using inv sec(2) q(2) none unfolding fs_inv_def opens_ok_def not_open_def by (auto simp: u_def inode_on_disk_def)
  moreover have "fresh u" using fs_invD(4) [OF inv] q(1) by (auto simp: fresh_def u_def)
  ultimately have "fs_inv u \<and> fs_files u = fs_files v \<and> fs_dir u = fs_dir v" using ok fs_invD(2) [OF inv] by (intro fs_inv_frame [OF inv]) (simp_all add: u_def)
  then show ?thesis using open' close q mem by (intro exI [of _ q] exI [of _ u] exI [of _ ?t']) (simp add: u_def blocks_def)
qed

lemma open_again:
  assumes inv: "fs_inv v" and p: "d \<noteq> NULL" "p \<noteq> NULL" "inode_at v p = None" "dir_at v d = None" and mem: "blocks 1 v"
    and sec: "\<not> not_open v sec" "sec \<noteq> ROOT_DIR_SECTOR" and ri: "open_cnt ri = 1" "\<not> removed ri" "sector ri = ROOT_DIR_SECTOR"
  shows "\<exists>q u t' j. inode_open (with_dir p d ri v) sec = Some (q, t') \<and> dir_close t' d = Some u \<and> q \<noteq> NULL \<and>
    inode_at u q = Some (j\<lparr>open_cnt := open_cnt j + 1\<rparr>) \<and> q \<in> set (open_inodes v) \<and> inode_at v q = Some j \<and> sector j = sec \<and>
    fs_inv u \<and> fs_files u = fs_files v \<and> free_map u = free_map v \<and> disk u = disk v \<and> file_at u = file_at v \<and> blocks 1 u"
proof -
  obtain q where q: "find_open v (open_inodes v) sec = Some (Some q)" using find_open_ok [of v "open_inodes v" sec] inv sec(1) by (auto simp: fs_inv_def not_open_def)
  then obtain j where j: "inode_at v q = Some j" "sector j = sec" "q \<in> set (open_inodes v)" using find_open_Some by blast
  have nn: "q \<noteq> NULL" "0 < open_cnt j" "q \<noteq> p" using j inv p(3) unfolding fs_inv_def opens_ok_def by auto
  let ?j = "j\<lparr>open_cnt := open_cnt j + 1\<rparr>"
  let ?u = "v\<lparr>inode_at := (inode_at v)(q \<mapsto> ?j)\<rparr>"
  have "find_open (with_dir p d ri v) (open_inodes v) sec = find_open v (open_inodes v) sec"
    using inv p(3) by (intro find_open_cong) (auto simp: with_dir_def fs_inv_def opens_ok_def)
  then have "find_open (with_dir p d ri v) (open_inodes (with_dir p d ri v)) sec = Some (Some q)" using q ri(3) sec(2) by (simp add: with_dir_def)
  then have open': "inode_open (with_dir p d ri v) sec = Some (q, with_dir p d ri ?u)"
    using j(1) nn by (simp add: inode_open_def inode_reopen_def upd_inode_def with_dir_def fun_upd_twist)
  have close: "dir_close (with_dir p d ri ?u) d = Some ?u" using p ri nn(3) by (intro close_with_dir) simp_all
  have "fs_inv ?u \<and> fs_files ?u = fs_files v \<and> fs_dir ?u = fs_dir v" using nn by (intro fs_inv_inode [OF inv j(1)]) simp_all
  then show ?thesis using open' close j nn mem by (intro exI [of _ q] exI [of _ ?u] exI [of _ "with_dir p d ri ?u"] exI [of _ j]) (simp add: blocks_def)
qed

lemma filesys_open_ok:
  assumes inv: "fs_inv s" and name: "0 \<notin> set name" and mem: "blocks (slots (root s) + 5) s"
  shows "\<exists>f u. filesys_open s (Some name) = Some (f, u) \<and> fs_inv u \<and> fs_files u = fs_files s \<and> free_map u = free_map s \<and> disk u = disk s \<and>
    (case fs_dir s name of None \<Rightarrow> f = NULL
     | Some sec \<Rightarrow> f \<noteq> NULL \<and> file_at s f = None \<and> (\<exists>q i. inode_at u q = Some i \<and> opened_inode s sec i \<and>
         file_at u f = Some \<lparr>file_inode = q, pos = 0, deny_write = False, dup_count = 1, mapping_cnt = 0\<rparr>))"
proof -
  let ?r = "root s"
  note D = fs_invD [OF inv]
  obtain t p d ms m where L: "dir_open_root s = Some (d, t)" "t = with_dir p d (root s) (s\<lparr>mallocs := ms\<rparr>)" "d \<noteq> NULL" "p \<noteq> NULL" "inode_at s p = None" "dir_at s d = None"
    "blocks 2 (s\<lparr>mallocs := m\<rparr>)" "spent (slots (root s) + 3) s (s\<lparr>mallocs := m\<rparr>)" "fresh (with_dir p d (root s) (s\<lparr>mallocs := m\<rparr>))"
    "dir_lookup t d (Some name) = (case fs_dir s name of None \<Rightarrow> Some ((False, NULL), with_dir p d (root s) (s\<lparr>mallocs := m\<rparr>))
       | Some sec \<Rightarrow> do { (q, t') \<leftarrow> inode_open (with_dir p d (root s) (s\<lparr>mallocs := m\<rparr>)) sec; Some ((q \<noteq> NULL, q), t') })"
    by (rule lookup_in_root [OF assms])
  let ?v = "s\<lparr>mallocs := m\<rparr>"
  let ?t = "with_dir p d ?r ?v"
  have up: "updates s ?v {}" using updates_refl [where s = s and m = m and b = "free_map s" and A = "{}"] by simp
  have okv: "fs_ok ?v" using fs_ok_updates [OF D(1) up] D(1) map_extent_used [OF D(1)] by (simp add: fs_ok_def)
  have inv': "fs_inv ?v" "fs_files ?v = fs_files s" "fs_dir ?v = fs_dir s" using fs_inv_keep [OF inv up _ L(8) okv] map_saved_updates [OF D(14) up] by simp_all
  have close: "dir_close (with_dir p d ?r w) d = Some w" if "inode_at w p = None" "dir_at w d = None" for w
    using L(3,4) that by (intro close_with_dir) (simp_all add: inode_on_disk_def)
  show ?thesis
  proof (cases "fs_dir s name")
    case None
    then have "filesys_open s (Some name) = Some (NULL, ?v)" using L(1,3,10) close [of ?v] L(5,6) by (simp add: filesys_open_def)
    then show ?thesis using inv' None by (intro exI [of _ NULL] exI [of _ ?v]) simp
  next
    case (Some sec)
    have ne: "sec \<noteq> ROOT_DIR_SECTOR" using D(9) [OF Some] by (auto simp: footprint_def)
    have secs: "sec < disk_size s" using file_ok_sector [OF D(1) D(8) [OF Some]] by simp
    have "\<exists>q i v. q \<noteq> NULL \<and> Option.bind (inode_open ?t sec) (\<lambda>(q, t'). Option.bind (dir_close t' d) (\<lambda>v. Some (q, v))) = Some (q, v) \<and> inode_at v q = Some i \<and> opened_inode s sec i \<and>
        fs_inv v \<and> fs_files v = fs_files s \<and> free_map v = free_map s \<and> disk v = disk s \<and> file_at v = file_at s \<and> blocks 1 v"
    proof (cases "not_open s sec")
      case True
      have "p \<notin> set (mallocs ?v)" using L(9) by (auto simp: fresh_def)
      then obtain q u t' where "inode_open ?t sec = Some (q, t')" "dir_close t' d = Some u" "q \<noteq> NULL" "inode_at u q = Some (inode_on_disk ?v sec)"
          "fs_inv u" "fs_files u = fs_files ?v" "free_map u = free_map ?v" "disk u = disk ?v" "file_at u = file_at ?v" "blocks 1 u"
        using open_new [OF inv'(1) L(3,4) _ _ _ L(7), of sec ?r] L(5,6) True ne secs by (auto simp: not_open_def inode_on_disk_def)
      then show ?thesis using True inv'(2) by (intro exI [of _ q] exI [of _ "inode_on_disk s sec"] exI [of _ u]) (simp add: opened_inode_def inode_on_disk_def)
    next
      case False
      have b1: "blocks 1 ?v" using blocks_mono [OF L(7)] by simp
      obtain q u t' j where "inode_open ?t sec = Some (q, t')" "dir_close t' d = Some u" "q \<noteq> NULL" "inode_at u q = Some (j\<lparr>open_cnt := open_cnt j + 1\<rparr>)"
          "q \<in> set (open_inodes ?v)" "inode_at ?v q = Some j" "sector j = sec"
          "fs_inv u" "fs_files u = fs_files ?v" "free_map u = free_map ?v" "disk u = disk ?v" "file_at u = file_at ?v" "blocks 1 u"
        using open_again [OF inv'(1) L(3,4) _ _ b1, of sec ?r] L(5,6) False ne by (auto simp: not_open_def inode_on_disk_def)
      then show ?thesis using False inv'(2)
        by (intro exI [of _ q] exI [of _ "j\<lparr>open_cnt := open_cnt j + 1\<rparr>"] exI [of _ u]) (auto simp: opened_inode_def)
    qed
    then obtain q i v where q: "q \<noteq> NULL" "Option.bind (inode_open ?t sec) (\<lambda>(q, t'). Option.bind (dir_close t' d) (\<lambda>v. Some (q, v))) = Some (q, v)" "inode_at v q = Some i"
        "opened_inode s sec i" "fs_inv v" "fs_files v = fs_files s" "free_map v = free_map s" "disk v = disk s" "file_at v = file_at s" "blocks 1 v" by blast
    obtain f u where f: "file_open v q = Some (f, u)" "f \<noteq> NULL" "fs_inv u" "fs_files u = fs_files v" "free_map u = free_map v" "inode_at u = inode_at v" "disk u = disk v"
        "file_at u = (file_at v)(f \<mapsto> \<lparr>file_inode = q, pos = 0, deny_write = False, dup_count = 1, mapping_cnt = 0\<rparr>)" "file_at v f = None"
      using open_file_ok [OF q(5,1,10)] by blast
    obtain t' where t': "inode_open ?t sec = Some (q, t')" "dir_close t' d = Some v" using q(2) by (auto simp: bind_eq_Some_conv)
    have "filesys_open s (Some name) = Some (f, u)" using L(1,3,10) Some t' q(1) f(1) by (simp add: filesys_open_def)
    then show ?thesis using q f Some by (intro exI [of _ f] exI [of _ u]) auto
  qed
qed

end
