(* ===== verification/Filesys_Mount.thy ===== *)
theory Filesys_Mount
  imports Filesys_Correct
begin

text \<open>
  Starting the file system: \<open>filesys_init\<close> reads the free map back from its file, so that the files survive a reboot,
  and formatting leaves an empty root directory.
\<close>

section \<open>The free map after start-up\<close>

lemma bitmap_mark_used:
  assumes "bitmap_inv b" "k < bit_cnt b"
  shows "\<exists>b'. bitmap_mark b k = Some b' \<and> bitmap_inv b' \<and> bit_cnt b' = bit_cnt b \<and> bitmap_used b' = insert k (bitmap_used b)"
  using bitmap_mark_bit_at [OF bitmap_inv_elem(1) [OF assms]] assms by (auto simp: bitmap_inv_def bitmap_used_def)

lemma free_map_init_ok:
  assumes "disk_size s + 1 < 2 ^ 32" "1 < disk_size s" "length ws = elem_cnt (disk_size s)"
  shows "\<exists>b. free_map_init s True (Some ws) = Some (s\<lparr>free_map := b\<rparr>) \<and> bitmap_inv b \<and> bit_cnt b = disk_size s \<and> bitmap_used b = {FREE_MAP_SECTOR, ROOT_DIR_SECTOR}"
proof -
  obtain b where b: "bitmap_create True (Some ws) (disk_size s) = Some (Some b)" "bitmap_inv b" "bit_cnt b = disk_size s" "bitmap_abs b = replicate (disk_size s) False"
    using bitmap_create_spec [OF assms(1,3)] by blast
  have "\<not> bit_at b j" if "j < bit_cnt b" for j using nth_bitmap_abs [OF that] b(3,4) that by simp
  then have "bitmap_used b = {}" by (auto simp: bitmap_used_def)
  moreover obtain b1 where b1: "bitmap_mark b FREE_MAP_SECTOR = Some b1" "bitmap_inv b1" "bit_cnt b1 = disk_size s" "bitmap_used b1 = insert FREE_MAP_SECTOR (bitmap_used b)"
    using bitmap_mark_used [OF b(2), of FREE_MAP_SECTOR] b(3) assms(2) by (auto simp: FREE_MAP_SECTOR_def)
  moreover obtain b2 where "bitmap_mark b1 ROOT_DIR_SECTOR = Some b2" "bitmap_inv b2" "bit_cnt b2 = disk_size s" "bitmap_used b2 = insert ROOT_DIR_SECTOR (bitmap_used b1)"
    using bitmap_mark_used [OF b1(2), of ROOT_DIR_SECTOR] b1(3) assms(2) by (auto simp: ROOT_DIR_SECTOR_def)
  ultimately show ?thesis using b(1) by (intro exI [of _ b2]) (auto simp: free_map_init_def)
qed

text \<open>Reading a bitmap from bytes that hold another.\<close>

lemma bitmap_read_held:
  assumes "holds_map bs b" "bitmap_inv c" "bit_cnt c = bit_cnt b" "0 < bit_cnt b"
  shows "\<exists>c'. bitmap_read (\<lambda>sz ofs. take (byte_cnt (bit_cnt b)) bs) c = Some (True, c') \<and> bitmap_inv c' \<and> bit_cnt c' = bit_cnt b \<and> bitmap_used c' = bitmap_used b"
proof -
  obtain a where a: "bitmap_inv a" "bit_cnt a = bit_cnt b" "bitmap_used a = bitmap_used b" "take (byte_cnt (bit_cnt a)) bs = concat (map word_bytes (bits a))"
    using assms(1) by (auto simp: holds_map_def)
  let ?D = "concat (map word_bytes (bits a))"
  have len: "length ?D = byte_cnt (bit_cnt a)" using a(1) by (simp add: bitmap_inv_def byte_cnt_def)
  have keeps: "?D = d" if "(if d = ?D then length ?D else Suc (length d)) = length d" for d using that by (simp split: if_splits)
  obtain c' where c': "bitmap_read (\<lambda>sz ofs. ?D) c = Some (True, c')" "bitmap_inv c'" "bitmap_abs c' = bitmap_abs a"
    using keeps bitmap_write_read [OF a(1) assms(2), of "\<lambda>d _. if d = ?D then length ?D else Suc (length d)" "\<lambda>sz ofs. ?D"] assms(3) a(2) len
    by (auto simp: bitmap_write_def)
  have "bit_cnt c' = bit_cnt a" using arg_cong [OF c'(3), of length] by simp
  moreover have "bitmap_used c' = bitmap_used a"
    using c'(3) calculation by (auto simp: bitmap_used_def) (metis nth_bitmap_abs)+
  ultimately show ?thesis using c' a by auto
qed

text \<open>What is on the disk of a file system.\<close>

definition map_on_disk :: "fsys \<Rightarrow> bitmap \<Rightarrow> bool" where
  "map_on_disk s b \<longleftrightarrow> (let i = inode_on_disk s FREE_MAP_SECTOR in inode_ok s i \<and> byte_cnt (bit_cnt b) \<le> length_of (data i) \<and> extent i \<subseteq> bitmap_used b \<and>
     holds_map (inode_bytes s i) b \<and> FREE_MAP_SECTOR \<notin> extent i)"

lemma free_map_open_ok:
  assumes m: "map_on_disk s b" "bit_cnt b = disk_size s" "0 < disk_size s" and c: "bitmap_inv (free_map s)" "bit_cnt (free_map s) = disk_size s"
    and mem: "blocks 3 s" "fresh s" and no: "not_open s FREE_MAP_SECTOR" and len: "\<forall>sec < disk_size s. length (disk s sec) = DISK_SECTOR_SIZE"
  shows "\<exists>u p f ms. free_map_open s = Some u \<and> fs_ok u \<and> free_map_file u = f \<and> f \<noteq> NULL \<and> p \<noteq> NULL \<and> disk u = disk s \<and> disk_size u = disk_size s \<and> dir_at u = dir_at s \<and>
    map_extent u = extent (inode_on_disk s FREE_MAP_SECTOR) \<and> bitmap_used (free_map u) = bitmap_used b \<and> map_saved u \<and>
    inode_at u = (inode_at s)(p \<mapsto> inode_on_disk s FREE_MAP_SECTOR) \<and> open_inodes u = p # open_inodes s \<and>
    file_at u = (file_at s)(f \<mapsto> \<lparr>file_inode = p, pos = 0, deny_write = False, dup_count = 1, mapping_cnt = 0\<rparr>) \<and> fresh u \<and> spent 3 s u"
proof -
  let ?i = "inode_on_disk s FREE_MAP_SECTOR"
  have M: "inode_ok s ?i" "byte_cnt (bit_cnt b) \<le> length_of (data ?i)" "extent ?i \<subseteq> bitmap_used b" "holds_map (inode_bytes s ?i) b"
    using m(1) unfolding map_on_disk_def Let_def by simp_all
  obtain p f ms where ms: "mallocs s = p # f # ms" "p \<noteq> NULL" "f \<noteq> NULL" using mem(1) by (cases "mallocs s"; cases "tl (mallocs s)") (auto simp: blocks_def)
  define x where "x = \<lparr>file_inode = p, pos = 0, deny_write = False, dup_count = 1, mapping_cnt = 0\<rparr>"
  define t where "t = s\<lparr>open_inodes := p # open_inodes s, inode_at := (inode_at s)(p \<mapsto> ?i), mallocs := ms, file_at := (file_at s)(f \<mapsto> x), free_map_file := f\<rparr>"
  have "inode_open s FREE_MAP_SECTOR = Some (p, s\<lparr>mallocs := f # ms, open_inodes := p # open_inodes s, inode_at := (inode_at s)(p \<mapsto> ?i)\<rparr>)"
    using inode_open_new [OF no _ ms(1,2)] m(3) by (simp add: FREE_MAP_SECTOR_def)
  then have start: "free_map_open s = Option.bind (load_bitmap t (free_map t) f) (\<lambda>((ok, b), s). Option.bind (ASSERT ok) (\<lambda>_. Some (s\<lparr>free_map := b\<rparr>)))"
    using ms(2,3) by (simp add: free_map_open_def file_open_def alloc_block_def t_def x_def)
  have it: "inode_at t p = Some ?i" "inode_ok t ?i" "file_at t f = Some x" "inode_bytes t ?i = inode_bytes s ?i" "file_inode x = p"
    using M(1) by (simp_all add: t_def inode_ok_def x_def inode_bytes_def inode_byte_def)
  have bt: "blocks 1 t" using mem(1) ms by (simp add: blocks_def t_def)
  obtain m' where r: "inode_read_at t p (byte_cnt (bit_cnt b)) 0 = Some (take (byte_cnt (bit_cnt b)) (inode_bytes s ?i), t\<lparr>mallocs := m'\<rparr>)" "took t False (t\<lparr>mallocs := m'\<rparr>)"
    using inode_read_at_ok [OF it(1,2), of "byte_cnt (bit_cnt b)" 0] blocks_can_bounce [OF bt, of False] M(2) it(4) by auto
  have ct: "bitmap_inv (free_map t)" "bit_cnt (free_map t) = bit_cnt b" "0 < bit_cnt b" using c m(2,3) by (simp_all add: t_def)
  obtain c' where c': "bitmap_read (\<lambda>sz ofs. take (byte_cnt (bit_cnt b)) (inode_bytes s ?i)) (free_map t) = Some (True, c')" "bitmap_inv c'" "bit_cnt c' = bit_cnt b" "bitmap_used c' = bitmap_used b"
    using bitmap_read_held [OF M(4) ct] by blast
  define u where "u = t\<lparr>mallocs := m', free_map := c'\<rparr>"
  have run: "free_map_open s = Some u"
    unfolding start load_bitmap_def file_read_at_def using r(1) it(3,5) c'(1) ct(2,3) by (simp add: u_def)
  have iu: "inode_ok u ?i" "inode_bytes u ?i = inode_bytes s ?i" using M(1) by (simp_all add: u_def t_def inode_ok_def inode_bytes_def inode_byte_def)
  have "map_file_ok u ?i" using M iu(1) c'(3,4) by (simp add: map_file_ok_def u_def) (simp add: inode_on_disk_def)
  then have ok: "fs_ok u" using c'(2,3) m(2) len ms by (auto simp: fs_ok_def u_def t_def x_def)
  have "holds_map (inode_bytes s ?i) c'" using M(4) c'(3,4) by (simp add: holds_map_def)
  then have saved: "map_saved u" using iu(2) by (auto simp: map_saved_def u_def t_def x_def)
  have "set m' \<subseteq> set ms" "distinct m'" using r(2) mem(2) ms(1) by (cases ms; auto simp: took_def t_def fresh_def)+
  then have "fresh u" using mem(2) ms(1) by (auto simp: fresh_def u_def t_def)
  moreover have "spent 3 s u"
  proof -
    have "spent 2 s t" using ms(1) by (auto simp: spent_def t_def intro: exI [of _ 2])
    from spent_trans [OF this took_spent [OF r(2)]] show ?thesis by (simp add: spent_def u_def numeral_eq_Suc)
  qed
  ultimately show ?thesis using run ok saved ms(2,3) c'(4)
    by (intro exI [of _ u] exI [of _ p] exI [of _ f] exI [of _ ms]) (simp add: u_def t_def x_def map_extent_def)
qed

section \<open>Reboot\<close>

text \<open>The memory of the kernel is gone; \<open>ms\<close> is the new supply.\<close>

definition power_on :: "fsys \<Rightarrow> ptr list \<Rightarrow> fsys" where
  "power_on s ms = s\<lparr>free_map_file := NULL, open_inodes := [], inode_at := Map.empty, file_at := Map.empty, dir_at := Map.empty, mallocs := ms\<rparr>"

lemma map_kept_on_disk:
  assumes "fs_inv s"
  shows "map_on_disk s (free_map s) \<and> map_extent s = extent (inode_on_disk s FREE_MAP_SECTOR)"
proof -
  note D = fs_invD [OF assms]
  obtain x i where i: "file_at s (free_map_file s) = Some x" "inode_at s (file_inode x) = Some i" "data i = decode_inode (disk s FREE_MAP_SECTOR)"
    using assms unfolding fs_inv_def map_kept_def by blast
  have same: "data (inode_on_disk s FREE_MAP_SECTOR) = data i" using i(3) by (simp add: inode_on_disk_def)
  then have eq: "extent (inode_on_disk s FREE_MAP_SECTOR) = extent i" "inode_bytes s (inode_on_disk s FREE_MAP_SECTOR) = inode_bytes s i" "inode_ok s (inode_on_disk s FREE_MAP_SECTOR) = inode_ok s i"
    by (simp_all add: extent_def inode_bytes_def inode_byte_def inode_ok_def)
  have me: "map_extent s = extent i" using i D(2) by (simp add: map_extent_def)
  have "map_file_ok s i" using D(1,2) i unfolding fs_ok_def by auto
  moreover have "holds_map (inode_bytes s i) (free_map s)" using D(2,14) i unfolding map_saved_def by blast
  ultimately show ?thesis using D(12) me unfolding map_on_disk_def Let_def eq same by (simp add: map_file_ok_def)
qed

lemma reboot_ok:
  assumes inv: "fs_inv s" and ms: "3 \<le> length ms" "distinct ms" "NULL \<notin> set ms" and ws: "length ws = elem_cnt (disk_size s)"
  shows "\<exists>u. filesys_init (power_on s ms) True True (Some ws) False = Some u \<and> fs_inv u \<and> fs_files u = fs_files s \<and> bitmap_used (free_map u) = bitmap_used (free_map s)"
proof -
  note D = fs_invD [OF inv]
  let ?p = "power_on s ms"
  have size: "disk_size s + 1 < 2 ^ 32" "1 < disk_size s" using fs_okD(1) [OF D(1)] D(7) by (simp_all add: ROOT_DIR_SECTOR_def)
  have disk: "disk ?p = disk s" "disk_size ?p = disk_size s" "inode_init ?p = ?p" by (simp_all add: power_on_def inode_init_def)
  obtain b where b: "free_map_init ?p True (Some ws) = Some (?p\<lparr>free_map := b\<rparr>)" "bitmap_inv b" "bit_cnt b = disk_size s"
    using free_map_init_ok [of ?p ws] size ws unfolding disk by blast
  let ?s = "?p\<lparr>free_map := b\<rparr>"
  have iod: "inode_on_disk ?s a = inode_on_disk s a" for a by (simp add: inode_on_disk_def power_on_def)
  have m: "map_on_disk ?s (free_map s)"
  proof -
    have "inode_ok ?s i = inode_ok s i" "inode_bytes ?s i = inode_bytes s i" for i by (simp_all add: inode_ok_def inode_bytes_def inode_byte_def power_on_def)
    then show ?thesis using map_kept_on_disk [OF inv] unfolding map_on_disk_def iod by simp
  qed
  have cnt: "bit_cnt (free_map s) = disk_size s" using D(1) by (simp add: fs_ok_def)
  have mem: "blocks 3 ?s" "fresh ?s" "not_open ?s FREE_MAP_SECTOR" using ms by (simp_all add: blocks_def fresh_def power_on_def not_open_def)
  obtain u p f where u: "free_map_open ?s = Some u" "fs_ok u" "free_map_file u = f" "f \<noteq> NULL" "p \<noteq> NULL" "disk u = disk s" "disk_size u = disk_size s"
    "map_extent u = extent (inode_on_disk s FREE_MAP_SECTOR)" "bitmap_used (free_map u) = bitmap_used (free_map s)" "map_saved u"
    "inode_at u = [p \<mapsto> inode_on_disk s FREE_MAP_SECTOR]" "open_inodes u = [p]" "file_at u f = Some \<lparr>file_inode = p, pos = 0, deny_write = False, dup_count = 1, mapping_cnt = 0\<rparr>" "fresh u"
    using free_map_open_ok [OF m _ _ _ _ mem] b(2,3) cnt size fs_okD(2) [OF D(1)] unfolding iod by (auto simp: disk) (auto simp: power_on_def)
  have "opens_ok u" using u(5,11,12) by (simp add: opens_ok_def not_open_def inode_on_disk_def FREE_MAP_SECTOR_def ROOT_DIR_SECTOR_def)
  moreover have me: "map_extent u = map_extent s" using u(8) map_kept_on_disk [OF inv] by simp
  moreover have "map_kept u"
  proof -
    have "footprint u ROOT_DIR_SECTOR = footprint s ROOT_DIR_SECTOR" using same_file(2) [of s ROOT_DIR_SECTOR u] u(6) by simp
    then show ?thesis using inv u(3,6,10,11,13) me unfolding fs_inv_def map_kept_def by (simp add: inode_on_disk_def)
  qed
  ultimately have "fs_inv u \<and> fs_files u = fs_files s \<and> fs_dir u = fs_dir s" using u by (intro fs_inv_frame [OF inv]) simp_all
  moreover have "filesys_init ?p True True (Some ws) False = Some u" using b(1) u(1) by (simp add: filesys_init_def disk(3))
  ultimately show ?thesis using u(9) by blast
qed

section \<open>Formatting\<close>

text \<open>Creating the inode of the free map, with the map not yet on disk.\<close>

lemma free_map_create_ok:
  assumes s: "free_map_file s = NULL" "fs_ok s" "bitmap_used (free_map s) = {FREE_MAP_SECTOR, ROOT_DIR_SECTOR}" "not_open s FREE_MAP_SECTOR"
    and mem: "blocks 5 s" "fresh s" and room: "2 + bytes_to_sectors (byte_cnt (disk_size s)) \<le> disk_size s" "byte_cnt (disk_size s) < 2 ^ 31"
  shows "\<exists>u p f. free_map_create s = Some u \<and> fs_ok u \<and> map_saved u \<and> free_map_file u = f \<and> f \<noteq> NULL \<and> p \<noteq> NULL \<and> spent 5 s u \<and> disk_size u = disk_size s \<and>
    dir_at u = dir_at s \<and> open_inodes u = p # open_inodes s \<and> inode_at u = (inode_at s)(p \<mapsto> inode_on_disk u FREE_MAP_SECTOR) \<and>
    file_at u = (file_at s)(f \<mapsto> \<lparr>file_inode = p, pos = 0, deny_write = False, dup_count = 1, mapping_cnt = 0\<rparr>) \<and> inode_at s p = None \<and> file_at s f = None \<and>
    map_extent u = extent (inode_on_disk u FREE_MAP_SECTOR) \<and> map_extent u \<inter> {FREE_MAP_SECTOR, ROOT_DIR_SECTOR} = {} \<and>
    bitmap_used (free_map u) = {FREE_MAP_SECTOR, ROOT_DIR_SECTOR} \<union> map_extent u \<and> card (map_extent u) = bytes_to_sectors (byte_cnt (disk_size s)) \<and>
    map_on_disk u (free_map u) \<and> fresh u"
proof -
  let ?len = "byte_cnt (disk_size s)" and ?F = FREE_MAP_SECTOR
  let ?n = "bytes_to_sectors ?len"
  have cnt: "bit_cnt (free_map s) = disk_size s" "bitmap_inv (free_map s)" using s(2) by (simp_all add: fs_ok_def)
  have me: "map_extent s = {}" using s(1) by (simp add: map_extent_def)
  obtain q1 q2 qs where qs: "mallocs s = q1 # q2 # qs" "q1 \<noteq> NULL" "q2 \<noteq> NULL" using mem(1) by (cases "mallocs s"; cases "tl (mallocs s)") (auto simp: blocks_def)
  have pre: "?F \<in> bitmap_used (free_map s)" "?F \<notin> map_extent s" "0 \<le> int ?len" "int ?len < 2 ^ 31" using s(3) me room(2) by simp_all
  have "bitmap_used (free_map s) \<inter> {2..<2 + ?n} = {}" using s(3) by (auto simp: FREE_MAP_SECTOR_def ROOT_DIR_SECTOR_def)
  then have no: "\<not> (\<forall>i. i + ?n \<le> disk_size s \<longrightarrow> bitmap_used (free_map s) \<inter> {i..<i + ?n} \<noteq> {})" using room(1) by blast
  from inode_create_ok [OF s(2) pre qs, unfolded me nat_int Un_empty_left] no obtain st s1 where c: "inode_create s ?F (int ?len) = Some (True, s1)" "fs_ok s1" "updates s s1 ({?F} \<union> {st..<st + ?n})"
      "st + ?n \<le> disk_size s" "bitmap_used (free_map s) \<inter> {st..<st + ?n} = {}" "bitmap_used (free_map s1) = bitmap_used (free_map s) \<union> {st..<st + ?n}"
      "disk s1 ?F = encode_inode \<lparr>start = st, length_of = ?len, magic = INODE_MAGIC\<rparr>" "spent 2 s s1"
    by blast
  note same = updates_same [OF c(3)]
  have small: "st < 2 ^ 32" "disk_size s + 1 < 2 ^ 32" using c(4) fs_okD(1) [OF s(2)] by linarith+
  have dec: "decode_inode (disk s1 ?F) = \<lparr>start = st, length_of = ?len, magic = INODE_MAGIC\<rparr>"
    unfolding c(7) using room(2) small by (intro decode_encode_inode) (simp_all add: INODE_MAGIC_def)
  let ?i = "inode_on_disk s1 ?F"
  have ext: "extent ?i = {st..<st + ?n}" "length_of (data ?i) = ?len" "deny_write_cnt ?i = 0" by (simp_all add: extent_def inode_on_disk_def dec)
  have b1: "blocks 3 s1" "fresh s1" using blocks_spent [OF mem(1) c(8)] fresh_spent [OF mem(2) c(8)] same by simp_all
  then obtain p f ms where ms: "mallocs s1 = p # f # ms" "p \<noteq> NULL" "f \<noteq> NULL" by (cases "mallocs s1"; cases "tl (mallocs s1)") (auto simp: blocks_def)
  have none: "inode_at s p = None" "file_at s f = None" using b1(2) ms(1) same by (auto simp: fresh_def)
  define x where "x = \<lparr>file_inode = p, pos = 0, deny_write = False, dup_count = 1, mapping_cnt = 0\<rparr>"
  define t where "t = s1\<lparr>open_inodes := p # open_inodes s1, inode_at := (inode_at s1)(p \<mapsto> ?i), mallocs := ms, file_at := (file_at s1)(f \<mapsto> x), free_map_file := f\<rparr>"
  have "not_open s1 ?F" using s(4) same by (simp add: not_open_def)
  then have "inode_open s1 ?F = Some (p, s1\<lparr>mallocs := f # ms, open_inodes := p # open_inodes s1, inode_at := (inode_at s1)(p \<mapsto> ?i)\<rparr>)"
    using inode_open_new [of s1 ?F p "f # ms"] ms same(1) room(1) by (simp add: FREE_MAP_SECTOR_def)
  then have start: "free_map_create s = Option.bind (store_bitmap t (free_map t) f) (\<lambda>(ok, s). Option.bind (ASSERT ok) (\<lambda>_. Some s))"
    using c(1) ms(2,3) cnt(1) by (simp add: free_map_create_def bitmap_file_size_def file_open_def alloc_block_def t_def x_def)
  have iok: "inode_ok t ?i" using fs_okD(2) [OF c(2)] c(4) same(1) small room(2) by (auto simp: inode_ok_def ext t_def)
  have cnt1: "bit_cnt (free_map s1) = disk_size s" "bitmap_inv (free_map s1)" using c(2) same(1) by (simp_all add: fs_ok_def)
  have "map_file_ok t ?i" using iok cnt1 c(6) by (simp add: map_file_ok_def ext) (simp add: t_def cnt1)
  then have okt: "fs_ok t" using cnt1 fs_okD(2) [OF c(2)] ms(3) same(1) by (auto simp: fs_ok_def t_def x_def)
  have met: "map_extent t = extent ?i" "has_block t" using ms b1(1) by (simp_all add: map_extent_def t_def x_def has_block_def can_bounce_def blocks_def) (cases ms; simp)
  obtain u where u: "store_bitmap t (free_map t) f = Some (True, u)" "updates t u (extent ?i)" "free_map u = free_map t" "spent 1 t u" "map_saved u"
    using store_bitmap_ok [OF okt _ met(2)] ms(3) met(1) by (auto simp: t_def)
  note su = updates_same [OF u(2)]
  have "?F \<notin> extent ?i" using c(5) s(3) ext(1) by blast
  then have dF: "disk u ?F = disk s1 ?F" using su(8) by (simp add: t_def)
  then have iu: "inode_on_disk u ?F = ?i" by (simp add: inode_on_disk_def)
  have oku: "fs_ok u" using fs_ok_updates [OF okt u(2)] okt u(3) map_extent_used [OF okt] by (simp add: fs_ok_def)
  have meu: "map_extent u = extent ?i" using su(7) met(1) by simp
  have obj: "file_at u = (file_at s)(f \<mapsto> x)" "inode_at u = (inode_at s)(p \<mapsto> ?i)" "free_map_file u = f" "dir_at u = dir_at s" "open_inodes u = p # open_inodes s" "disk_size u = disk_size s"
    using su same by (simp_all add: t_def)
  have used: "bitmap_used (free_map u) = {?F, ROOT_DIR_SECTOR} \<union> extent ?i" "extent ?i \<inter> {?F, ROOT_DIR_SECTOR} = {}" "card (extent ?i) = ?n"
    using u(3) c(5,6) s(3) ext(1) by (auto simp: t_def)
  have "map_file_ok u ?i" "holds_map (inode_bytes u ?i) (free_map u)"
    using oku u(5) obj(1-3) ms(3) unfolding fs_ok_def map_saved_def by (auto simp: x_def)
  then have "map_on_disk u (free_map u)" using \<open>?F \<notin> extent ?i\<close> unfolding map_on_disk_def iu Let_def by (simp add: map_file_ok_def)
  moreover have "spent 5 s u"
  proof -
    have "spent 2 s1 t" using ms(1) by (auto simp: spent_def t_def intro: exI [of _ 2])
    from spent_trans [OF spent_trans [OF c(8) this] u(4)] show ?thesis by (simp add: numeral_eq_Suc)
  qed
  moreover have "fresh u"
  proof -
    have "fresh t" using b1(2) ms(1) by (auto simp: fresh_def t_def)
    then show ?thesis using fresh_spent [OF _ u(4)] su by simp
  qed
  moreover have "free_map_create s = Some u" unfolding start using u(1) by simp
  ultimately show ?thesis using oku u(5) ms(2,3) none used unfolding obj meu iu x_def by (intro exI [of _ u] exI [of _ p] exI [of _ f]) (simp add: obj iu meu x_def)
qed

text \<open>The root directory of a formatted disk.\<close>

lemma zero_entries:
  assumes "inode_bytes s i = replicate (length_of (data i)) 0"
  shows "entries_ok (entries s i)" "entries_map (entries s i) = Map.empty" "\<forall>e \<in> set (entries s i). \<not> in_use e"
proof -
  have "\<not> in_use e" if e: "e \<in> set (entries s i)" for e
  proof -
    obtain k where k: "k < slots i" "e = decode_entry (slot_bytes (inode_bytes s i) k)" using e by (auto simp: entries_def)
    have len: "length (slot_bytes (inode_bytes s i) k) = ENTRY_SIZE" by (rule length_slot [OF k(1)])
    then have "slot_bytes (inode_bytes s i) k = replicate ENTRY_SIZE 0" unfolding assms slot_bytes_def by simp
    then show ?thesis using k(2) by (simp add: decode_entry_def ENTRY_SIZE_def)
  qed
  then show no: "\<forall>e \<in> set (entries s i). \<not> in_use e" by blast
  then have nth: "\<not> in_use (entries s i ! k)" if "k < length (entries s i)" for k using that nth_mem by blast
  then show "entries_ok (entries s i)" using no by (auto simp: entries_ok_def)
  show "entries_map (entries s i) = Map.empty" using nth by (intro ext) (simp add: entries_map_None has_name_def)
qed

lemma close_map_file:
  assumes "file_at s f = Some \<lparr>file_inode = p, pos = 0, deny_write = False, dup_count = 1, mapping_cnt = 0\<rparr>" "f \<noteq> NULL" "p \<noteq> NULL" "free_map_file s = f"
    "inode_at s p = Some i" "open_cnt i = 1" "\<not> removed i"
  shows "free_map_close s = Some (s\<lparr>open_inodes := remove1 p (open_inodes s), inode_at := (inode_at s)(p := None), file_at := (file_at s)(f := None)\<rparr>)"
  using assms by (simp add: free_map_close_def file_close_def file_allow_write_def inode_close_def upd_inode_def)

lemma format_root:
  assumes t: "fs_ok t" "map_saved t" "free_map_file t = f" "f \<noteq> NULL" "p \<noteq> NULL"
      "dir_at t = Map.empty" "open_inodes t = [p]" "inode_at t = [p \<mapsto> inode_on_disk t FREE_MAP_SECTOR]"
      "file_at t = [f \<mapsto> \<lparr>file_inode = p, pos = 0, deny_write = False, dup_count = 1, mapping_cnt = 0\<rparr>]"
      "map_extent t = extent (inode_on_disk t FREE_MAP_SECTOR)" "map_extent t \<inter> {FREE_MAP_SECTOR, ROOT_DIR_SECTOR} = {}"
      "bitmap_used (free_map t) = {FREE_MAP_SECTOR, ROOT_DIR_SECTOR} \<union> map_extent t"
    and mem: "blocks 5 t" "fresh t" and room: "2 + card (map_extent t) < disk_size t"
  shows "\<exists>t2 t3 u. dir_create t ROOT_DIR_SECTOR 16 = Some (True, t2) \<and> free_map_close t2 = Some t3 \<and> free_map_open t3 = Some u \<and> fs_inv u \<and> fs_files u = Map.empty \<and>
    disk_size u = disk_size t \<and> length_of (data (root u)) = 16 * ENTRY_SIZE \<and> (\<forall>e \<in> set (entries u (root u)). \<not> in_use e) \<and>
    card (bitmap_used (free_map u)) = 3 + card (map_extent t) \<and> spent 5 t u"
proof -
  let ?F = FREE_MAP_SECTOR and ?R = ROOT_DIR_SECTOR and ?M = "map_extent t"
  have FR: "?F \<noteq> ?R" by (simp add: FREE_MAP_SECTOR_def ROOT_DIR_SECTOR_def)
  have one: "bytes_to_sectors (nat 320) = 1" by (simp add: bytes_to_sectors_def DISK_SECTOR_SIZE_def)
  have dc: "dir_create t ?R 16 = inode_create t ?R 320" by (simp add: dir_create_def ENTRY_SIZE_def NAME_MAX_def int32_def)
  have fin: "finite ?M" using t(10) by (simp add: extent_def)
  have free: "\<not> (\<forall>i. i + 1 \<le> disk_size t \<longrightarrow> bitmap_used (free_map t) \<inter> {i..<i + 1} \<noteq> {})"
  proof
    assume all: "\<forall>i. i + 1 \<le> disk_size t \<longrightarrow> bitmap_used (free_map t) \<inter> {i..<i + 1} \<noteq> {}"
    have "i \<in> bitmap_used (free_map t)" if "i < disk_size t" for i using all [rule_format, of i] that by (auto simp: Suc_le_eq)
    then have "{..<disk_size t} \<subseteq> {?F, ?R} \<union> ?M" using t(12) by auto
    then have "disk_size t \<le> card ({?F, ?R} \<union> ?M)" using card_mono [of "{?F, ?R} \<union> ?M" "{..<disk_size t}"] fin by simp
    also have "\<dots> \<le> 2 + card ?M" using card_Un_le [of "{?F, ?R}" ?M] FR by simp
    finally show False using room by simp
  qed
  obtain q1 q2 qs where qs: "mallocs t = q1 # q2 # qs" "q1 \<noteq> NULL" "q2 \<noteq> NULL" using mem(1) by (cases "mallocs t"; cases "tl (mallocs t)") (auto simp: blocks_def)
  have pre: "?R \<in> bitmap_used (free_map t)" "?R \<notin> map_extent t" "0 \<le> (320::int)" "(320::int) < 2 ^ 31" using t(11,12) by auto
  from inode_create_ok [OF t(1) pre qs, unfolded one] free obtain st t2 where c: "inode_create t ?R 320 = Some (True, t2)" "fs_ok t2"
      "updates t t2 (?M \<union> {?R} \<union> {st..<st + 1})" "st + 1 \<le> disk_size t" "bitmap_used (free_map t) \<inter> {st..<st + 1} = {}"
      "bitmap_used (free_map t2) = bitmap_used (free_map t) \<union> {st..<st + 1}" "disk t2 ?R = encode_inode \<lparr>start = st, length_of = nat 320, magic = INODE_MAGIC\<rparr>"
      "\<forall>j \<in> {st..<st + 1}. disk t2 j = replicate DISK_SECTOR_SIZE 0" "spent 2 t t2" "map_saved t2" by blast
  have st: "{st..<st + 1} = {st}" "st \<notin> ?M" "st \<noteq> ?F" "st \<noteq> ?R" using c(5) t(12) by auto
  note same = updates_same [OF c(3)]
  have F2: "disk t2 ?F = disk t ?F" using same(8) [of ?F] t(11) FR st by auto
  then have i2: "inode_on_disk t2 ?F = inode_on_disk t ?F" by (simp add: inode_on_disk_def)
  have file2: "file_at t2 f = Some \<lparr>file_inode = p, pos = 0, deny_write = False, dup_count = 1, mapping_cnt = 0\<rparr>" "inode_at t2 p = Some (inode_on_disk t ?F)" "free_map_file t2 = f"
    using same t(3,8,9) by simp_all
  let ?t3 = "t2\<lparr>open_inodes := [], inode_at := Map.empty, file_at := Map.empty\<rparr>"
  have close: "free_map_close t2 = Some ?t3"
    using close_map_file [OF file2(1) t(4,5) file2(3,2)] same(3-5) t(7,8,9) by (simp add: inode_on_disk_def)
  have held: "map_file_ok t2 (inode_on_disk t ?F)" "holds_map (inode_bytes t2 (inode_on_disk t ?F)) (free_map t2)"
    using c(2,10) file2 t(4) unfolding fs_ok_def map_saved_def by auto
  have i3: "inode_on_disk ?t3 a = inode_on_disk t2 a" "inode_ok ?t3 i = inode_ok t2 i" "inode_bytes ?t3 i = inode_bytes t2 i" for a i
    by (simp_all add: inode_on_disk_def inode_ok_def inode_bytes_def inode_byte_def)
  have m3: "map_on_disk ?t3 (free_map t2)" using held t(10,11) unfolding map_on_disk_def i3 i2 Let_def by (auto simp: map_file_ok_def)
  have k3: "bit_cnt (free_map t2) = disk_size ?t3" "0 < disk_size ?t3" "bitmap_inv (free_map ?t3)" "bit_cnt (free_map ?t3) = disk_size ?t3"
      "\<forall>sec < disk_size ?t3. length (disk ?t3 sec) = DISK_SECTOR_SIZE" using c(2,4) same(1) by (auto simp: fs_ok_def)
  have mem3: "blocks 3 ?t3" "fresh ?t3" "not_open ?t3 ?F"
    using blocks_spent [OF mem(1) c(9)] fresh_spent [OF mem(2) c(9)] same by (simp_all add: blocks_def fresh_def not_open_def)
  from free_map_open_ok [OF m3 k3(1-4) mem3 k3(5)] obtain u p' f' where u: "free_map_open ?t3 = Some u" "fs_ok u" "free_map_file u = f'" "f' \<noteq> NULL" "p' \<noteq> NULL"
      "disk u = disk t2" "disk_size u = disk_size t" "map_extent u = ?M" "bitmap_used (free_map u) = bitmap_used (free_map t2)" "map_saved u"
      "inode_at u = [p' \<mapsto> inode_on_disk t ?F]" "open_inodes u = [p']"
      "file_at u f' = Some \<lparr>file_inode = p', pos = 0, deny_write = False, dup_count = 1, mapping_cnt = 0\<rparr>" "fresh u" "spent 3 ?t3 u"
    using same(1) t(10) unfolding i3 i2 by auto
  have "spent 3 t2 u" using u(15) by (simp add: spent_def)
  from spent_trans [OF c(9) this] have sp: "spent 5 t u" by (simp add: numeral_eq_Suc)
  have "st < 2 ^ 32" using c(4) fs_okD(1) [OF t(1)] by linarith
  then have dec: "decode_inode (disk u ?R) = \<lparr>start = st, length_of = 320, magic = INODE_MAGIC\<rparr>"
    unfolding u(6) c(7) by (subst decode_encode_inode) (simp_all add: INODE_MAGIC_def)
  have ext: "extent (root u) = {st}" "length_of (data (root u)) = 320" by (auto simp: extent_def inode_on_disk_def dec one [simplified])
  have fp: "footprint u ?R = {?R, st}" using ext(1) by (simp add: footprint_def)
  have used: "bitmap_used (free_map u) = {?F, ?R, st} \<union> ?M" using u(9) c(6) t(12) st(1) by auto
  have rok: "inode_ok u (root u)" using ext c(4) u(7) fs_okD [OF u(2)] by (simp add: inode_ok_def)
  have "inode_bytes u (root u) = replicate (length_of (data (root u))) 0" using zero_bytes [of "root u" u] c(8) ext(1) u(6) by simp
  note z = zero_entries [OF this]
  have dir: "fs_dir u = Map.empty" using z(2) by (simp add: fs_dir_def dir_map_def)
  have "file_ok u ?R" using rok ext fp used st u(7,8) c(4) t(11) one by (auto simp: file_ok_def dec)
  moreover have "dir_ok u (root u)" using rok z(1) by (simp add: dir_ok_def)
  moreover have "apart u" by (simp add: apart_def dir)
  moreover have "opens_ok u" using u(5,11,12) FR by (simp add: opens_ok_def not_open_def inode_on_disk_def)
  moreover have "map_kept u" unfolding map_kept_def fp u(3,6,8) F2 using u(10,11,13) t(11) FR st(3) by (auto simp: inode_on_disk_def)
  ultimately have "fs_inv u" using u(2,3,4,14) used by (simp add: fs_inv_def)
  moreover have "fs_files u = Map.empty" by (intro HOL.ext) (simp add: fs_files_def dir)
  moreover have "card (bitmap_used (free_map u)) = 3 + card ?M"
  proof -
    have "{?F, ?R, st} \<inter> ?M = {}" "card {?F, ?R, st} = 3" using t(11) st FR by auto
    then show ?thesis unfolding used using card_Un_disjoint [of "{?F, ?R, st}" ?M] fin by simp
  qed
  ultimately show ?thesis using c(1) close u(1,7) z(3) ext(2) sp unfolding dc
    by (intro exI [of _ t2] exI [of _ ?t3] exI [of _ u]) (simp add: ENTRY_SIZE_def NAME_MAX_def)
qed

lemma format_ok:
  assumes s: "free_map_file s = NULL" "inode_at s = Map.empty" "file_at s = Map.empty" "dir_at s = Map.empty" "blocks 10 s" "distinct (mallocs s)"
    and size: "disk_size s + 1 < 2 ^ 32" "3 + bytes_to_sectors (byte_cnt (disk_size s)) \<le> disk_size s" "byte_cnt (disk_size s) < 2 ^ 31"
    and len: "\<forall>sec < disk_size s. length (disk s sec) = DISK_SECTOR_SIZE" and ws: "length ws = elem_cnt (disk_size s)"
  shows "\<exists>u. filesys_init s True True (Some ws) True = Some u \<and> fs_inv u \<and> fs_files u = Map.empty \<and> disk_size u = disk_size s \<and>
    length_of (data (root u)) = 16 * ENTRY_SIZE \<and> (\<forall>e \<in> set (entries u (root u)). \<not> in_use e) \<and>
    card (bitmap_used (free_map u)) = 3 + bytes_to_sectors (byte_cnt (disk_size s)) \<and> spent 10 s u"
proof -
  let ?F = FREE_MAP_SECTOR and ?R = ROOT_DIR_SECTOR and ?n = "bytes_to_sectors (byte_cnt (disk_size s))"
  have FR: "?F \<noteq> ?R" by (simp add: FREE_MAP_SECTOR_def ROOT_DIR_SECTOR_def)
  let ?s0 = "s\<lparr>open_inodes := []\<rparr>"
  have "1 < disk_size ?s0" "disk_size ?s0 + 1 < 2 ^ 32" "length ws = elem_cnt (disk_size ?s0)" using size ws by simp_all
  from free_map_init_ok [OF this(2,1,3)] obtain b where b: "free_map_init ?s0 True (Some ws) = Some (?s0\<lparr>free_map := b\<rparr>)" "bitmap_inv b" "bit_cnt b = disk_size s" "bitmap_used b = {?F, ?R}" by auto
  define s1 where "s1 = ?s0\<lparr>free_map := b\<rparr>"
  have f1: "free_map_file s1 = NULL" "fs_ok s1" "bitmap_used (free_map s1) = {?F, ?R}" "not_open s1 ?F" "blocks 10 s1" "fresh s1" "disk_size s1 = disk_size s"
    using s b len by (simp_all add: s1_def fs_ok_def not_open_def blocks_def fresh_def)
  have b5: "blocks 5 s1" using blocks_mono [OF f1(5)] by simp
  have room: "2 + bytes_to_sectors (byte_cnt (disk_size s1)) \<le> disk_size s1" "byte_cnt (disk_size s1) < 2 ^ 31" using size f1(7) by simp_all
  obtain t p f where t: "free_map_create s1 = Some t" "fs_ok t" "map_saved t" "free_map_file t = f" "f \<noteq> NULL" "p \<noteq> NULL" "spent 5 s1 t" "disk_size t = disk_size s"
      "dir_at t = Map.empty" "open_inodes t = [p]" "inode_at t = [p \<mapsto> inode_on_disk t ?F]" "file_at t = [f \<mapsto> \<lparr>file_inode = p, pos = 0, deny_write = False, dup_count = 1, mapping_cnt = 0\<rparr>]"
      "map_extent t = extent (inode_on_disk t ?F)" "map_extent t \<inter> {?F, ?R} = {}" "bitmap_used (free_map t) = {?F, ?R} \<union> map_extent t" "card (map_extent t) = ?n" "fresh t"
    using free_map_create_ok [OF f1(1-4) b5 f1(6) room] s(2-4) by (auto simp: s1_def)
  have mem: "blocks 5 t" using blocks_spent [OF f1(5) t(7)] by simp
  have "2 + card (map_extent t) < disk_size t" using t(8,16) size(2) by simp
  from format_root [OF t(2-6,9-15) mem t(17) this] obtain t2 t3 u where u: "dir_create t ?R 16 = Some (True, t2)" "free_map_close t2 = Some t3" "free_map_open t3 = Some u" "fs_inv u"
      "fs_files u = Map.empty" "disk_size u = disk_size t" "length_of (data (root u)) = 16 * ENTRY_SIZE" "\<forall>e \<in> set (entries u (root u)). \<not> in_use e"
      "card (bitmap_used (free_map u)) = 3 + card (map_extent t)" "spent 5 t u" by blast
  have "filesys_init s True True (Some ws) True = Some u"
    using b(1) t(1) u(1-3) by (simp add: filesys_init_def inode_init_def do_format_def s1_def)
  moreover have "spent 10 s u" using spent_trans [OF t(7) u(10)] by (simp add: spent_def s1_def)
  ultimately show ?thesis using u(4-9) t(8,16) by auto
qed

end
