(* ===== verification/Filesys_Properties.thy ===== *)
theory Filesys_Properties
  imports Filesys_Mount
begin

text \<open>
  The properties of the file system: every operation acts on the map from names to contents as its comment says, and
  keeps the invariant, so that the map describes the file system after any sequence of operations and reboots.
\<close>

section \<open>Sequences of operations\<close>

text \<open>\<open>refill\<close> stands for memory that has been freed in between; the bounds are what one call can use.\<close>

inductive fs_step :: "fsys \<Rightarrow> fsys \<Rightarrow> bool" where
  refill: "fresh (s\<lparr>mallocs := ms\<rparr>) \<Longrightarrow> fs_step s (s\<lparr>mallocs := ms\<rparr>)"
| create: "0 \<notin> set name \<Longrightarrow> 0 \<le> len \<Longrightarrow> len < 2 ^ 31 \<Longrightarrow> length (entry_name junk) = NAME_MAX + 1 \<Longrightarrow> blocks (2 * slots (root s) + 9) s \<Longrightarrow>
    filesys_create s (Some name) len junk = Some (ok, u) \<Longrightarrow> fs_step s u"
| remove: "0 \<notin> set name \<Longrightarrow> blocks (slots (root s) + 7) s \<Longrightarrow> filesys_remove s (Some name) = Some (ok, u) \<Longrightarrow> fs_step s u"
| open_file: "0 \<notin> set name \<Longrightarrow> blocks (slots (root s) + 5) s \<Longrightarrow> filesys_open s (Some name) = Some (f, u) \<Longrightarrow> fs_step s u"
| reboot: "3 \<le> length ms \<Longrightarrow> distinct ms \<Longrightarrow> NULL \<notin> set ms \<Longrightarrow> length ws = elem_cnt (disk_size s) \<Longrightarrow>
    filesys_init (power_on s ms) True True (Some ws) False = Some u \<Longrightarrow> fs_step s u"

text \<open>The specification: a map from names to contents.\<close>

inductive abs_step :: "('n \<rightharpoonup> 8 word list) \<Rightarrow> ('n \<rightharpoonup> 8 word list) \<Rightarrow> bool" where
  keep: "abs_step F F"
| add: "F n = None \<Longrightarrow> abs_step F (F(n \<mapsto> replicate k 0))"
| del: "abs_step F (F(n := None))"

lemma filesys_remove_ok:
  assumes inv: "fs_inv s" and name: "0 \<notin> set name" and mem: "blocks (slots (root s) + 7) s"
  shows "\<exists>u. filesys_remove s (Some name) = Some (fs_dir s name \<noteq> None, u) \<and> fs_inv u \<and> fs_files u = (fs_files s)(name := None) \<and>
    bitmap_used (free_map u) = bitmap_used (free_map s) -
      (case fs_dir s name of None \<Rightarrow> {} | Some sec \<Rightarrow> if not_open s sec then footprint s sec else {})"
proof (cases "fs_dir s name")
  case None
  then have "fs_files s name = None" by (simp add: fs_files_def)
  then have "(fs_files s)(name := None) = fs_files s" by (simp add: fun_upd_idem)
  then show ?thesis using remove_absent [OF inv name _ None] blocks_mono [OF mem] None by auto
next
  case (Some sec)
  have b4: "blocks (slots (root s) + 4) s" using blocks_mono [OF mem] by simp
  show ?thesis
  proof (cases "not_open s sec")
    case True
    then show ?thesis using remove_closed [OF inv name mem Some True] Some by auto
  next
    case False
    then show ?thesis using remove_open [OF inv name b4 Some False] Some by auto
  qed
qed

lemma can_create_None: "can_create s name \<Longrightarrow> fs_files s name = None"
  by (simp add: can_create_def fs_files_def)

lemma fs_step_ok:
  assumes "fs_step s u" "fs_inv s"
  shows "fs_inv u \<and> abs_step (fs_files s) (fs_files u)"
  using assms
proof cases
  case (refill ms)
  let ?u = "s\<lparr>mallocs := ms\<rparr>"
  note D = fs_invD [OF assms(2)]
  have up: "updates s ?u {}" using updates_refl [where s = s and m = ms and b = "free_map s" and A = "{}"] by simp
  have "fs_ok ?u" using fs_ok_updates [OF D(1) up] D(1) map_extent_used [OF D(1)] by (simp add: fs_ok_def)
  moreover have "opens_ok ?u" using assms(2) by (simp add: fs_inv_def opens_ok_def not_open_def)
  moreover have "map_kept ?u" using map_kept_more [OF assms(2), of ?u] by simp
  ultimately have "fs_inv ?u \<and> fs_files ?u = fs_files s \<and> fs_dir ?u = fs_dir s"
    using refill(2) updates_same(7) [OF up] D(2) by (intro fs_inv_frame [OF assms(2)]) simp_all
  then show ?thesis using refill(1) keep by simp
next
  case (create name len junk ok)
  from filesys_create_ok [OF assms(2) create(1-5)] create(6) show ?thesis
    using add [of "fs_files s" name "nat len"] can_create_None [of s name] keep by (auto split: if_splits)
next
  case (remove name ok)
  then show ?thesis using filesys_remove_ok [OF assms(2) remove(1,2)] del by auto
next
  case (open_file name f)
  then show ?thesis using filesys_open_ok [OF assms(2) open_file(1,2)] keep by auto
next
  case (reboot ms ws)
  then show ?thesis using reboot_ok [OF assms(2) reboot(1-4)] keep by auto
qed

section \<open>Properties\<close>

text \<open>C8: Creating a file.  \<open>filesys_create\<close> returns; on success the file system has the new file, full of zeros, and otherwise the same
  files as before.  It succeeds only for a name that is not empty, not too long and not in use, while the root directory has a
  free entry, and for such a name fails only when the disk is full.\<close>

theorem filesys_create_correct:
  assumes "fs_inv s" "0 \<notin> set name" "0 \<le> len" "len < 2 ^ 31" "length (entry_name junk) = NAME_MAX + 1" "blocks (2 * slots (root s) + 9) s"
  shows "\<exists>ok u. filesys_create s (Some name) len junk = Some (ok, u) \<and> fs_inv u \<and>
    fs_files u = (if ok then (fs_files s)(name \<mapsto> replicate (nat len) 0) else fs_files s) \<and>
    (ok \<longrightarrow> can_create s name) \<and> (can_create s name \<and> \<not> disk_full s (bytes_to_sectors (nat len)) \<longrightarrow> ok)"
  using filesys_create_ok [OF assms] by (elim exE conjE) (intro exI conjI, assumption+, blast+)

text \<open>C9: Removing a file succeeds exactly for the names in use; the file is gone and the other files keep their contents.  The
  sectors of its inode and its data become free, unless it is open: then it keeps them.\<close>

theorem filesys_remove_correct:
  assumes "fs_inv s" "0 \<notin> set name" "blocks (slots (root s) + 7) s"
  shows "\<exists>u. filesys_remove s (Some name) = Some (fs_dir s name \<noteq> None, u) \<and> fs_inv u \<and> fs_files u = (fs_files s)(name := None) \<and>
    bitmap_used (free_map u) = bitmap_used (free_map s) -
      (case fs_dir s name of None \<Rightarrow> {} | Some sec \<Rightarrow> if not_open s sec then footprint s sec else {})"
  by (rule filesys_remove_ok [OF assms])

text \<open>C10: Opening a file changes no file.  It returns a null pointer exactly for a name that is not in use, and otherwise a new file object at
  position 0 on the inode of the name: read from disk, or shared with those who have it open.\<close>

theorem filesys_open_correct:
  assumes "fs_inv s" "0 \<notin> set name" "blocks (slots (root s) + 5) s"
  shows "\<exists>f u. filesys_open s (Some name) = Some (f, u) \<and> fs_inv u \<and> fs_files u = fs_files s \<and> disk u = disk s \<and>
    (case fs_dir s name of None \<Rightarrow> f = NULL
     | Some sec \<Rightarrow> f \<noteq> NULL \<and> file_at s f = None \<and> (\<exists>q i. inode_at u q = Some i \<and> opened_inode s sec i \<and>
         file_at u f = Some \<lparr>file_inode = q, pos = 0, deny_write = False, dup_count = 1, mapping_cnt = 0\<rparr>))"
  using filesys_open_ok [OF assms] by (elim exE conjE) (intro exI conjI, assumption+)

text \<open>C12: Formatting a disk that is large enough leaves an empty file system that satisfies the invariant, with sixteen free
  entries in the root directory and only the sectors of the free map and of the root directory in use.\<close>

theorem filesys_format_correct:
  assumes "free_map_file s = NULL" "inode_at s = Map.empty" "file_at s = Map.empty" "dir_at s = Map.empty" "blocks 10 s" "distinct (mallocs s)"
    "disk_size s + 1 < 2 ^ 32" "3 + bytes_to_sectors (byte_cnt (disk_size s)) \<le> disk_size s" "byte_cnt (disk_size s) < 2 ^ 31"
    "\<forall>sec < disk_size s. length (disk s sec) = DISK_SECTOR_SIZE" "length ws = elem_cnt (disk_size s)"
  shows "\<exists>u. filesys_init s True True (Some ws) True = Some u \<and> fs_inv u \<and> fs_files u = Map.empty \<and> slots (root u) = 16 \<and>
    (\<forall>e \<in> set (entries u (root u)). \<not> in_use e) \<and> card (bitmap_used (free_map u)) = 3 + bytes_to_sectors (byte_cnt (disk_size s))"
  using format_ok [OF assms] by (auto simp: slots_def ENTRY_SIZE_def NAME_MAX_def)

text \<open>C11: A reboot loses the memory of the kernel and no file: \<open>filesys_init\<close> without formatting restores the files and the free map from the disk.\<close>

theorem filesys_reboot_correct:
  assumes "fs_inv s" "3 \<le> length ms" "distinct ms" "NULL \<notin> set ms" "length ws = elem_cnt (disk_size s)"
  shows "\<exists>u. filesys_init (power_on s ms) True True (Some ws) False = Some u \<and> fs_inv u \<and> fs_files u = fs_files s \<and>
    bitmap_used (free_map u) = bitmap_used (free_map s)"
  by (rule reboot_ok [OF assms])


text \<open>\<open>filesys_create\<close> of an empty name, of a name that is in use, or with the root directory full, fails and loses the sectors that it has allocated for the
  data: only the sector of the inode is given back.\<close>

theorem filesys_create_loses_sectors:
  assumes "fs_inv s" "0 \<notin> set name" "0 \<le> len" "len < 2 ^ 31" "length (entry_name junk) = NAME_MAX + 1" "blocks (2 * slots (root s) + 9) s"
    "length name \<le> NAME_MAX" "\<not> can_create s name" "\<not> disk_full s (bytes_to_sectors (nat len))"
  shows "\<exists>u. filesys_create s (Some name) len junk = Some (False, u) \<and> fs_files u = fs_files s \<and>
    card (bitmap_used (free_map u)) = card (bitmap_used (free_map s)) + bytes_to_sectors (nat len)"
proof -
  obtain ok u lost where u: "filesys_create s (Some name) len junk = Some (ok, u)" "fs_files u = (if ok then (fs_files s)(name \<mapsto> replicate (nat len) 0) else fs_files s)"
      "ok \<longrightarrow> can_create s name"
      "\<not> ok \<longrightarrow> bitmap_used (free_map u) = bitmap_used (free_map s) \<union> lost \<and> lost \<inter> bitmap_used (free_map s) = {} \<and> (lost = {} \<or> card lost = bytes_to_sectors (nat len)) \<and>
         (length name \<le> NAME_MAX \<and> \<not> can_create s name \<and> \<not> disk_full s (bytes_to_sectors (nat len)) \<longrightarrow> card lost = bytes_to_sectors (nat len))"
    using filesys_create_ok [OF assms(1-6)] by (elim exE conjE) blast
  have no: "\<not> ok" using u(3) assms(8) by blast
  have eq: "bitmap_used (free_map u) = bitmap_used (free_map s) \<union> lost" "lost \<inter> bitmap_used (free_map s) = {}" "card lost = bytes_to_sectors (nat len)"
    using u(4) no assms(7-9) by blast+
  have "finite (bitmap_used (free_map u))" by (rule finite_subset [OF bitmap_used_bound]) simp
  then have "card (bitmap_used (free_map u)) = card (bitmap_used (free_map s)) + card lost"
    unfolding eq(1) using eq(2) by (intro card_Un_disjoint) auto
  then show ?thesis using u(1,2) no eq(3) by auto
qed

section \<open>A disk of eight sectors\<close>

definition blank_disk :: fsys where
  "blank_disk = \<lparr>disk = (\<lambda>_. replicate 512 0), disk_size = 8, free_map = \<lparr>bit_cnt = 0, bits = []\<rparr>, free_map_file = NULL, open_inodes = [],
     inode_at = Map.empty, file_at = Map.empty, dir_at = Map.empty, mallocs = map (\<lambda>k. 16 * k) [1..<251]\<rparr>"

definition no_entry :: dir_entry where
  "no_entry = \<lparr>inode_sector = 0, entry_name = replicate 15 0, in_use = False\<rparr>"

lemma no_entry_name: "length (entry_name no_entry) = NAME_MAX + 1"
  by (simp add: no_entry_def NAME_MAX_def)

lemma blank_disk_ok:
  "free_map_file blank_disk = NULL" "inode_at blank_disk = Map.empty" "file_at blank_disk = Map.empty" "dir_at blank_disk = Map.empty" "blocks 250 blank_disk"
  "distinct (mallocs blank_disk)" "disk_size blank_disk = 8" "bytes_to_sectors 8 = 1" "byte_cnt 8 = 8" "elem_cnt 8 = 1"
  "\<forall>sec < disk_size blank_disk. length (disk blank_disk sec) = DISK_SECTOR_SIZE"
proof -
  have inj: "inj ((*) (16::nat))" by (rule injI) simp
  show "distinct (mallocs blank_disk)" by (simp add: blank_disk_def distinct_map inj_on_subset [OF inj])
  show "blocks 250 blank_disk" by (auto simp: blocks_def blank_disk_def)
qed (simp_all add: blank_disk_def DISK_SECTOR_SIZE_def bytes_to_sectors_def byte_cnt_def elem_cnt_def size_t_def ELEM_BITS_def)

lemma blank_formatted:
  "\<exists>u. filesys_init blank_disk True True (Some [0]) True = Some u \<and> fs_inv u \<and> fs_files u = Map.empty \<and> slots (root u) = 16 \<and> disk_size u = 8 \<and>
     (\<forall>e \<in> set (entries u (root u)). \<not> in_use e) \<and> card (bitmap_used (free_map u)) = 4 \<and> blocks 240 u"
proof -
  have b: "blocks 10 blank_disk" using blocks_mono [OF blank_disk_ok(5)] by simp
  have "length [0 :: 64 word] = elem_cnt (disk_size blank_disk)" "3 + bytes_to_sectors (byte_cnt (disk_size blank_disk)) \<le> disk_size blank_disk"
      "byte_cnt (disk_size blank_disk) < 2 ^ 31" "disk_size blank_disk + 1 < 2 ^ 32" unfolding blank_disk_ok by simp_all
  from format_ok [OF blank_disk_ok(1-4) b blank_disk_ok(6) this(4,2,3) blank_disk_ok(11) this(1)] obtain u where
    u: "filesys_init blank_disk True True (Some [0]) True = Some u" "fs_inv u" "fs_files u = Map.empty" "disk_size u = 8"
      "length_of (data (root u)) = 16 * ENTRY_SIZE" "\<forall>e \<in> set (entries u (root u)). \<not> in_use e" "card (bitmap_used (free_map u)) = 4" "spent 10 blank_disk u"
    unfolding blank_disk_ok by auto
  then show ?thesis using blocks_spent [OF blank_disk_ok(5) u(8)] by (auto simp: slots_def ENTRY_SIZE_def NAME_MAX_def)
qed

text \<open>A file of one sector fits on a disk that has two free sectors.\<close>

lemma room_for_one:
  assumes "fs_inv s" "card (bitmap_used (free_map s)) + 2 \<le> disk_size s"
  shows "\<not> disk_full s 1"
proof -
  let ?U = "bitmap_used (free_map s)"
  have fin: "finite ?U" by (rule finite_subset [OF bitmap_used_bound]) simp
  have run: "\<not> no_run X 1 (disk_size s)" if X: "finite X" "card X < disk_size s" for X
  proof
    assume no: "no_run X 1 (disk_size s)"
    have "i \<in> X" if "i < disk_size s" for i using no that unfolding no_run_def by (auto dest: spec [of _ i])
    then have "{..<disk_size s} \<subseteq> X" by blast
    then show False using card_mono [OF X(1), of "{..<disk_size s}"] X(2) by simp
  qed
  have "\<not> no_run (insert sec ?U) 1 (disk_size s)" if "sec \<notin> ?U" for sec using that fin assms(2) by (intro run) simp_all
  then show ?thesis using run [OF fin] assms(2) unfolding disk_full_def by auto
qed

lemma blank_can_create:
  assumes "fs_inv u" "fs_files u = Map.empty" "slots (root u) = 16" "\<forall>e \<in> set (entries u (root u)). \<not> in_use e"
  shows "can_create u [97]"
proof -
  have "fs_dir u [97] = None" using assms(2) by (metis fs_files_def option.map_disc_iff)
  moreover have "\<exists>e. e \<in> set (entries u (root u))" using assms(3) length_entries [of u "root u"] by (cases "entries u (root u)") auto
  ultimately show ?thesis using assms(4) by (auto simp: can_create_def NAME_MAX_def)
qed

lemma one_sector: "bytes_to_sectors (nat 5) = 1"
  by (simp add: bytes_to_sectors_def DISK_SECTOR_SIZE_def)

lemma five: "0 \<le> (5::int)" "(5::int) < 2 ^ 31"
  by simp_all

lemma small_name: "0 \<notin> set [97 :: 8 word]"
  by simp

lemma blank_created:
  "\<exists>u v. filesys_init blank_disk True True (Some [0]) True = Some u \<and> filesys_create u (Some [97]) 5 no_entry = Some (True, v) \<and>
     fs_inv v \<and> fs_files v = [[97] \<mapsto> replicate 5 0] \<and> slots (root v) = 16 \<and> blocks 100 v"
proof -
  obtain u where u: "filesys_init blank_disk True True (Some [0]) True = Some u" "fs_inv u" "fs_files u = Map.empty" "slots (root u) = 16" "disk_size u = 8"
     "\<forall>e \<in> set (entries u (root u)). \<not> in_use e" "card (bitmap_used (free_map u)) = 4" "blocks 240 u" using blank_formatted by blast
  have b: "blocks (2 * slots (root u) + 9) u" using blocks_mono [OF u(8)] u(4) by simp
  have full: "\<not> disk_full u (bytes_to_sectors (nat 5))" unfolding one_sector using room_for_one [OF u(2)] u(5,7) by simp
  obtain ok v lost where v: "filesys_create u (Some [97]) 5 no_entry = Some (ok, v)" "fs_inv v" "spent (2 * slots (root u) + 9) u v" "root v = root u"
      "fs_files v = (if ok then (fs_files u)([97] \<mapsto> replicate (nat 5) 0) else fs_files u)"
      "\<not> ok \<and> can_create u [97] \<longrightarrow> disk_full u (bytes_to_sectors (nat 5))"
    using filesys_create_ok [OF u(2) small_name five no_entry_name b] by blast
  have ok: ok using v(6) full blank_can_create [OF u(2,3,4,6)] by blast
  have "blocks 100 v" using blocks_mono [OF blocks_spent [OF u(8) v(3)], of 100] u(4) by simp
  then show ?thesis using u(1,3,4) v(1,2,4,5) ok by (intro exI [of _ u] exI [of _ v]) (simp add: numeral_eq_Suc)
qed

theorem filesys_create_correct_witness:
  "\<exists>u v. filesys_init blank_disk True True (Some [0]) True = Some u \<and> filesys_create u (Some [97]) 5 no_entry = Some (True, v) \<and> fs_files v = [[97] \<mapsto> replicate 5 0]"
proof -
  obtain u where u: "filesys_init blank_disk True True (Some [0]) True = Some u" "fs_inv u" "fs_files u = Map.empty" "slots (root u) = 16" "disk_size u = 8"
     "\<forall>e \<in> set (entries u (root u)). \<not> in_use e" "card (bitmap_used (free_map u)) = 4" "blocks 240 u" using blank_formatted by blast
  have b: "blocks (2 * slots (root u) + 9) u" using blocks_mono [OF u(8)] u(4) by simp
  have full: "\<not> disk_full u (bytes_to_sectors (nat 5))" unfolding one_sector using room_for_one [OF u(2)] u(5,7) by simp
  obtain ok v where v: "filesys_create u (Some [97]) 5 no_entry = Some (ok, v)" "fs_files v = (if ok then (fs_files u)([97] \<mapsto> replicate (nat 5) 0) else fs_files u)"
      "can_create u [97] \<and> \<not> disk_full u (bytes_to_sectors (nat 5)) \<longrightarrow> ok"
    using filesys_create_correct [OF u(2) small_name five no_entry_name b] by blast
  then have ok using full blank_can_create [OF u(2,3,4,6)] by blast
  then show ?thesis using u(1,3) v(1,2) by (intro exI [of _ u] exI [of _ v]) (simp add: numeral_eq_Suc)
qed

theorem filesys_remove_correct_witness:
  "\<exists>u v w. filesys_init blank_disk True True (Some [0]) True = Some u \<and> filesys_create u (Some [97]) 5 no_entry = Some (True, v) \<and>
     filesys_remove v (Some [97]) = Some (True, w) \<and> fs_files w = Map.empty"
proof -
  obtain u v where v: "filesys_init blank_disk True True (Some [0]) True = Some u" "filesys_create u (Some [97]) 5 no_entry = Some (True, v)"
     "fs_inv v" "fs_files v = [[97] \<mapsto> replicate 5 0]" "slots (root v) = 16" "blocks 100 v" using blank_created by blast
  have b: "blocks (slots (root v) + 7) v" using blocks_mono [OF v(6)] v(5) by simp
  have "fs_dir v [97] \<noteq> None" using v(4) by (metis fs_files_def fun_upd_same option.map_disc_iff option.distinct(1))
  moreover obtain w where "filesys_remove v (Some [97]) = Some (fs_dir v [97] \<noteq> None, w)" "fs_files w = (fs_files v)([97] := None)"
    using filesys_remove_correct [OF v(3) small_name b] by blast
  moreover have "(fs_files v)([97] := None) = Map.empty" by (simp add: v(4))
  ultimately show ?thesis using v(1,2) by auto
qed

theorem filesys_open_correct_witness:
  "\<exists>u v f w. filesys_init blank_disk True True (Some [0]) True = Some u \<and> filesys_create u (Some [97]) 5 no_entry = Some (True, v) \<and>
     filesys_open v (Some [97]) = Some (f, w) \<and> f \<noteq> NULL \<and> fs_files w = [[97] \<mapsto> replicate 5 0]"
proof -
  obtain u v where v: "filesys_init blank_disk True True (Some [0]) True = Some u" "filesys_create u (Some [97]) 5 no_entry = Some (True, v)"
     "fs_inv v" "fs_files v = [[97] \<mapsto> replicate 5 0]" "slots (root v) = 16" "blocks 100 v" using blank_created by blast
  have b: "blocks (slots (root v) + 5) v" using blocks_mono [OF v(6)] v(5) by simp
  obtain sec where sec: "fs_dir v [97] = Some sec" using v(4) by (metis fs_files_def fun_upd_same option.map_disc_iff option.exhaust option.distinct(1))
  show ?thesis using filesys_open_correct [OF v(3) small_name b, unfolded sec] v(1,2,4) by auto
qed

theorem filesys_format_correct_witness: "\<exists>u. filesys_init blank_disk True True (Some [0]) True = Some u \<and> fs_files u = Map.empty \<and> slots (root u) = 16"
proof -
  have b: "blocks 10 blank_disk" using blocks_mono [OF blank_disk_ok(5)] by simp
  have "length [0 :: 64 word] = elem_cnt (disk_size blank_disk)" "3 + bytes_to_sectors (byte_cnt (disk_size blank_disk)) \<le> disk_size blank_disk"
      "byte_cnt (disk_size blank_disk) < 2 ^ 31" "disk_size blank_disk + 1 < 2 ^ 32" unfolding blank_disk_ok by simp_all
  from filesys_format_correct [OF blank_disk_ok(1-4) b blank_disk_ok(6) this(4,2,3) blank_disk_ok(11) this(1)] show ?thesis by blast
qed

theorem filesys_reboot_correct_witness:
  "\<exists>u v w ws. filesys_init blank_disk True True (Some [0]) True = Some u \<and> filesys_create u (Some [97]) 5 no_entry = Some (True, v) \<and>
     filesys_init (power_on v [16, 32, 48]) True True (Some ws) False = Some w \<and> fs_files w = [[97] \<mapsto> replicate 5 0]"
proof -
  obtain u v where v: "filesys_init blank_disk True True (Some [0]) True = Some u" "filesys_create u (Some [97]) 5 no_entry = Some (True, v)"
     "fs_inv v" "fs_files v = [[97] \<mapsto> replicate 5 0]" "slots (root v) = 16" "blocks 100 v" using blank_created by blast
  have "length (replicate (elem_cnt (disk_size v)) (0 :: 64 word)) = elem_cnt (disk_size v)" by simp
  from filesys_reboot_correct [OF v(3) _ _ _ this, of "[16, 32, 48]"] obtain w where
    "filesys_init (power_on v [16, 32, 48]) True True (Some (replicate (elem_cnt (disk_size v)) 0)) False = Some w" "fs_files w = fs_files v" by auto
  then show ?thesis using v(1,2,4) by (intro exI [of _ u] exI [of _ v] exI [of _ w] exI [of _ "replicate (elem_cnt (disk_size v)) 0"]) simp
qed


theorem filesys_create_loses_sectors_witness:
  "\<exists>u w. filesys_init blank_disk True True (Some [0]) True = Some u \<and> filesys_create u (Some []) 5 no_entry = Some (False, w) \<and>
     card (bitmap_used (free_map u)) = 4 \<and> card (bitmap_used (free_map w)) = 5"
proof -
  obtain u where u: "filesys_init blank_disk True True (Some [0]) True = Some u" "fs_inv u" "fs_files u = Map.empty" "slots (root u) = 16" "disk_size u = 8"
     "\<forall>e \<in> set (entries u (root u)). \<not> in_use e" "card (bitmap_used (free_map u)) = 4" "blocks 240 u" using blank_formatted by blast
  have b: "blocks (2 * slots (root u) + 9) u" using blocks_mono [OF u(8)] u(4) by simp
  have full: "\<not> disk_full u (bytes_to_sectors (nat 5))" unfolding one_sector using room_for_one [OF u(2)] u(5,7) by simp
  have name: "0 \<notin> set ([] :: 8 word list)" "length ([] :: 8 word list) \<le> NAME_MAX" "\<not> can_create u []" by (simp_all add: can_create_def)
  show ?thesis using filesys_create_loses_sectors [OF u(2) name(1) five no_entry_name b name(2,3) full] u(1,7) one_sector by auto
qed

end
