(* ===== verification/Malloc.thy ===== *)
theory Malloc
  imports Page_Alloc String_Lib
begin

text \<open>
  The kernel heap \<open>threads/malloc.c\<close>.  Pages from the page allocator are cut into blocks of one size; a request is
  served from the free list of the smallest size that is large enough, and a request too large for that gets
  whole pages.  The header at the start of an arena is on a heap of its own, and a free list is the sequence of its
  blocks; the bytes of the blocks are memory as in \<open>Memory\<close>.  The lock of a descriptor is held during the
  operation on it, which makes it one step.  Reading the header of a page that is not an arena stops the kernel, as
  its magic number is wrong.
\<close>

section \<open>State\<close>

definition ARENA_MAGIC :: nat where "ARENA_MAGIC = 0x9a548eed"

text \<open>\<open>sizeof (struct arena)\<close>: four bytes, padding, a pointer and a \<open>size_t\<close>.\<close>

definition ARENA_SIZE :: nat where "ARENA_SIZE = 24"

definition MAX_DESCS :: nat where "MAX_DESCS = 10"

record desc =
  desc_block_size :: nat
  blocks_per_arena :: nat
  free_list :: "ptr list"

text \<open>The descriptor of an arena is its index in \<open>descs\<close>; \<open>None\<close> is the null pointer of a big block.\<close>

record arena =
  arena_magic :: nat
  arena_desc :: "nat option"
  free_cnt :: nat

record heap =
  page_mem :: physmem
  descs :: "desc list"
  arena_at :: "ptr \<rightharpoonup> arena"
  bytes :: mem

definition upd_desc :: "heap \<Rightarrow> nat \<Rightarrow> (desc \<Rightarrow> desc) \<Rightarrow> heap" where
  "upd_desc h d f = h\<lparr>descs := (descs h)[d := f (descs h ! d)]\<rparr>"

definition upd_arena :: "heap \<Rightarrow> ptr \<Rightarrow> (arena \<Rightarrow> arena) \<Rightarrow> heap option" where
  "upd_arena h a f = do { x \<leftarrow> arena_at h a; Some (h\<lparr>arena_at := (arena_at h)(a \<mapsto> f x)\<rparr>) }"

section \<open>Initialisation\<close>

function init_descs :: "nat \<Rightarrow> desc list \<Rightarrow> desc list option" where
  "init_descs sz ds =
     (if 0 < sz \<and> sz < PGSIZE div 2 then do {
        ASSERT (length ds + 1 \<le> MAX_DESCS);
        init_descs (sz * 2) (ds @ [\<lparr>desc_block_size = sz, blocks_per_arena = (PGSIZE - ARENA_SIZE) div sz, free_list = []\<rparr>]) }
      else Some ds)"
  by pat_completeness auto
termination by (relation "measure (\<lambda>(sz, ds). PGSIZE - sz)") (auto simp: PGSIZE_val)

declare init_descs.simps [simp del]

definition malloc_init :: "heap \<Rightarrow> heap option" where
  "malloc_init h = do { ds \<leftarrow> init_descs 16 (descs h); Some (h\<lparr>descs := ds\<rparr>) }"

section \<open>Arenas and blocks\<close>

text \<open>\<open>pg_ofs (b) - sizeof *a\<close> is computed modulo \<open>2 ^ 64\<close>.\<close>

definition block_to_arena :: "heap \<Rightarrow> ptr \<Rightarrow> ptr option" where
  "block_to_arena h b = do {
     let a = pg_round_down b;
     ASSERT (a \<noteq> NULL);
     x \<leftarrow> arena_at h a;
     ASSERT (arena_magic x = ARENA_MAGIC);
     case arena_desc x of
       None \<Rightarrow> do { ASSERT (pg_ofs b = ARENA_SIZE); Some a }
     | Some d \<Rightarrow> do { ASSERT ((pg_ofs b + 2 ^ 64 - ARENA_SIZE) mod 2 ^ 64 mod desc_block_size (descs h ! d) = 0); Some a } }"

definition arena_to_block :: "heap \<Rightarrow> ptr \<Rightarrow> nat \<Rightarrow> ptr option" where
  "arena_to_block h a idx = do {
     ASSERT (a \<noteq> NULL);
     x \<leftarrow> arena_at h a;
     ASSERT (arena_magic x = ARENA_MAGIC);
     d \<leftarrow> arena_desc x;
     ASSERT (idx < blocks_per_arena (descs h ! d));
     Some (a + ARENA_SIZE + idx * desc_block_size (descs h ! d)) }"

section \<open>Allocation\<close>

fun find_desc :: "desc list \<Rightarrow> nat \<Rightarrow> nat" where
  "find_desc [] sz = 0"
| "find_desc (d # ds) sz = (if desc_block_size d \<ge> sz then 0 else Suc (find_desc ds sz))"

text \<open>The loop of \<open>malloc\<close> that puts \<open>n\<close> blocks of a new arena, from block \<open>i\<close> on, on the free list.\<close>

fun add_blocks :: "heap \<Rightarrow> nat \<Rightarrow> ptr \<Rightarrow> nat \<Rightarrow> nat \<Rightarrow> heap option" where
  "add_blocks h d a i 0 = Some h"
| "add_blocks h d a i (Suc n) = do {
     b \<leftarrow> arena_to_block h a i;
     add_blocks (upd_desc h d (\<lambda>x. x\<lparr>free_list := free_list x @ [b]\<rparr>)) d a (Suc i) n }"

definition new_arena :: "heap \<Rightarrow> nat \<Rightarrow> ptr \<Rightarrow> heap option" where
  "new_arena h d a = do {
     let n = blocks_per_arena (descs h ! d);
     let h = h\<lparr>arena_at := (arena_at h)(a \<mapsto> \<lparr>arena_magic = ARENA_MAGIC, arena_desc = Some d, free_cnt = n\<rparr>)\<rparr>;
     add_blocks h d a 0 n }"

definition take_block :: "heap \<Rightarrow> nat \<Rightarrow> (ptr \<times> heap) option" where
  "take_block h d =
     (case free_list (descs h ! d) of
        [] \<Rightarrow> None
      | b # bs \<Rightarrow> do {
          let h = upd_desc h d (\<lambda>x. x\<lparr>free_list := bs\<rparr>);
          a \<leftarrow> block_to_arena h b;
          h \<leftarrow> upd_arena h a (\<lambda>x. x\<lparr>free_cnt := (free_cnt x + 2 ^ 64 - 1) mod 2 ^ 64\<rparr>);
          Some (b, h) })"

text \<open>The page count of a big block; \<open>size + sizeof *a\<close> and the rounding wrap around.\<close>

definition big_pages :: "nat \<Rightarrow> nat" where
  "big_pages sz = (sz + ARENA_SIZE + PGSIZE - 1) mod 2 ^ 64 div PGSIZE"

definition malloc :: "heap \<Rightarrow> nat \<Rightarrow> (ptr \<times> heap) option" where
  "malloc h sz =
     (if sz = 0 then Some (NULL, h)
      else let d = find_desc (descs h) sz in
      if d = length (descs h) then do {
        (a, m) \<leftarrow> palloc_get_multiple (page_mem h) {} (big_pages sz);
        let h = h\<lparr>page_mem := m\<rparr>;
        if a = NULL then Some (NULL, h)
        else Some (a + ARENA_SIZE, h\<lparr>arena_at := (arena_at h)(a \<mapsto> \<lparr>arena_magic = ARENA_MAGIC, arena_desc = None, free_cnt = big_pages sz\<rparr>)\<rparr>) }
      else if free_list (descs h ! d) = [] then do {
        (a, m) \<leftarrow> palloc_get_page (page_mem h) {};
        let h = h\<lparr>page_mem := m\<rparr>;
        if a = NULL then Some (NULL, h)
        else do { h \<leftarrow> new_arena h d a; take_block h d } }
      else take_block h d)"

definition calloc :: "heap \<Rightarrow> nat \<Rightarrow> nat \<Rightarrow> (ptr \<times> heap) option" where
  "calloc h a b = do {
     let sz = a * b mod 2 ^ 64;
     if sz < a \<or> sz < b then Some (NULL, h)
     else do {
       (p, h) \<leftarrow> malloc h sz;
       if p \<noteq> NULL then do { (_, m) \<leftarrow> memset (bytes h) p 0 sz; Some (p, h\<lparr>bytes := m\<rparr>) }
       else Some (p, h) } }"

section \<open>Release\<close>

definition block_size :: "heap \<Rightarrow> ptr \<Rightarrow> nat option" where
  "block_size h b = do {
     a \<leftarrow> block_to_arena h b;
     x \<leftarrow> arena_at h a;
     case arena_desc x of
       Some d \<Rightarrow> Some (desc_block_size (descs h ! d))
     | None \<Rightarrow> Some ((PGSIZE * free_cnt x + 2 ^ 64 - pg_ofs b) mod 2 ^ 64) }"

text \<open>The loop of \<open>free\<close> that takes the blocks of an unused arena off the free list; \<open>list_remove\<close> asserts that the
  block is on a list.\<close>

fun remove_blocks :: "heap \<Rightarrow> nat \<Rightarrow> ptr \<Rightarrow> nat \<Rightarrow> nat \<Rightarrow> heap option" where
  "remove_blocks h d a i 0 = Some h"
| "remove_blocks h d a i (Suc n) = do {
     b \<leftarrow> arena_to_block h a i;
     ASSERT (b \<in> set (free_list (descs h ! d)));
     remove_blocks (upd_desc h d (\<lambda>x. x\<lparr>free_list := remove1 b (free_list x)\<rparr>)) d a (Suc i) n }"

text \<open>Pushing a block that is on the free list already would destroy the links of the list: no result.\<close>

definition free_block :: "heap \<Rightarrow> nat \<Rightarrow> ptr \<Rightarrow> ptr \<Rightarrow> heap option" where
  "free_block h d a b = do {
     (_, m) \<leftarrow> memset (bytes h) b 0xcc (desc_block_size (descs h ! d));
     let h = h\<lparr>bytes := m\<rparr>;
     ASSERT (b \<notin> set (free_list (descs h ! d)));
     let h = upd_desc h d (\<lambda>x. x\<lparr>free_list := b # free_list x\<rparr>);
     h \<leftarrow> upd_arena h a (\<lambda>x. x\<lparr>free_cnt := (free_cnt x + 1) mod 2 ^ 64\<rparr>);
     x \<leftarrow> arena_at h a;
     let n = blocks_per_arena (descs h ! d);
     if free_cnt x \<ge> n then do {
       ASSERT (free_cnt x = n);
       h \<leftarrow> remove_blocks h d a 0 n;
       m \<leftarrow> palloc_free_page (page_mem h) a;
       Some (h\<lparr>page_mem := m, arena_at := (arena_at h)(a := None)\<rparr>) }
     else Some h }"

definition free :: "heap \<Rightarrow> ptr \<Rightarrow> heap option" where
  "free h p =
     (if p \<noteq> NULL then do {
        a \<leftarrow> block_to_arena h p;
        x \<leftarrow> arena_at h a;
        case arena_desc x of
          Some d \<Rightarrow> free_block h d a p
        | None \<Rightarrow> do {
            m \<leftarrow> palloc_free_multiple (page_mem h) a (free_cnt x);
            Some (h\<lparr>page_mem := m, arena_at := (arena_at h)(a := None)\<rparr>) } }
      else Some h)"

definition realloc :: "heap \<Rightarrow> ptr \<Rightarrow> nat \<Rightarrow> (ptr \<times> heap) option" where
  "realloc h old_block new_size =
     (if new_size = 0 then do { h \<leftarrow> free h old_block; Some (NULL, h) }
      else do {
        (new_block, h) \<leftarrow> malloc h new_size;
        if old_block \<noteq> NULL \<and> new_block \<noteq> NULL then do {
          old_size \<leftarrow> block_size h old_block;
          let min_size = (if new_size < old_size then new_size else old_size);
          (_, m) \<leftarrow> memcpy (bytes h) new_block old_block min_size;
          h \<leftarrow> free (h\<lparr>bytes := m\<rparr>) old_block;
          Some (new_block, h) }
        else Some (new_block, h) })"

end
