(* ===== verification/Malloc_Correct.thy ===== *)
theory Malloc_Correct
  imports Malloc String_Correct
begin

text \<open>
  The kernel heap keeps its blocks apart: what \<open>malloc\<close> returns overlaps no block in use and no header, \<open>free\<close> takes back
  exactly the block it is given, and an arena whose blocks are all free goes back to the page allocator.
\<close>

section \<open>Pages of the kernel pool\<close>

abbreviation kernel_used :: "physmem \<Rightarrow> nat set" where
  "kernel_used m \<equiv> pool_used (kernel_pool m)"

definition kernel_range :: "physmem \<Rightarrow> nat set" where
  "kernel_range m = {pool_base (kernel_pool m)..<pool_end (kernel_pool m)}"

lemma page_run_mem: "i < n \<Longrightarrow> r + PGSIZE * i \<in> page_run r n"
  unfolding page_run_def by (rule imageI) simp

lemma kernel_get:
  assumes ok: "pools_ok m"
  obtains (full) "palloc_get_multiple m {} n = Some (NULL, m)"
      "\<And>i. i + n \<le> bit_cnt (used_map (kernel_pool m)) \<Longrightarrow> bitmap_used (used_map (kernel_pool m)) \<inter> {i..<i + n} \<noteq> {}"
  | (run) r m' where "palloc_get_multiple m {} n = Some (r, m')" "r \<noteq> NULL" "pg_ofs r = 0" "pools_ok m'" "kernel_range m' = kernel_range m"
      "page_run r n \<inter> kernel_used m = {}" "kernel_used m' = kernel_used m \<union> page_run r n" "{r..<r + PGSIZE * n} \<subseteq> kernel_range m"
      "user_pool m' = user_pool m"
proof -
  obtain r m' where g: "palloc_get_multiple m {} n = Some (r, m')" "pools_ok m'"
      "r = NULL \<and> m' = m \<and> (\<forall>i. i + n \<le> bit_cnt (used_map (kernel_pool m)) \<longrightarrow> bitmap_used (used_map (kernel_pool m)) \<inter> {i..<i + n} \<noteq> {}) \<or>
       r \<noteq> NULL \<and> pg_ofs r = 0 \<and> page_run r n \<inter> page_used m = {} \<and> page_used m' = page_used m \<union> page_run r n \<and>
       pool_base (kernel_pool m) \<le> r \<and> r + PGSIZE * n \<le> pool_end (kernel_pool m)"
    using palloc_get_ok [OF ok, of "{}" n] by (auto simp: pool_of_def)
  have inv: "bitmap_inv (used_map (kernel_pool m))" using ok by (simp add: pools_ok_def pool_ok_def)
  obtain i b where b: "bitmap_scan_and_flip (used_map (kernel_pool m)) 0 n False = Some (i, b)" "m' = m\<lparr>kernel_pool := (kernel_pool m)\<lparr>used_map := b\<rparr>\<rparr>"
    using g(1) by (auto simp: palloc_get_multiple_def Let_def bind_Some split: if_splits)
  then have "bit_cnt b = bit_cnt (used_map (kernel_pool m))" using bm.alloc_invar [OF inv] by simp
  then have rng: "kernel_range m' = kernel_range m" "user_pool m' = user_pool m" by (simp_all add: b(2) kernel_range_def pool_end_def)
  show thesis
  proof (cases "r = NULL")
    case True
    then show thesis using full g by auto
  next
    case False
    with g(3) have r: "pg_ofs r = 0" "page_run r n \<inter> page_used m = {}" "page_used m' = page_used m \<union> page_run r n"
        "{r..<r + PGSIZE * n} \<subseteq> kernel_range m" by (auto simp: kernel_range_def)
    have "kernel_used m' = kernel_used m \<union> page_run r n"
      using r(2,3) rng(2) pool_used_disjoint [OF ok] pool_used_disjoint [OF g(2)] unfolding page_used_def by auto
    then show thesis using run [OF g(1) False r(1) g(2) rng(1)] r(2,4) rng(2) by (auto simp: page_used_def)
  qed
qed

lemma kernel_free:
  assumes ok: "pools_ok m" and r: "pg_ofs r = 0" "r \<noteq> NULL" "0 < n" "page_run r n \<subseteq> kernel_used m"
  shows "\<exists>m'. palloc_free_multiple m r n = Some m' \<and> pools_ok m' \<and> kernel_used m' = kernel_used m - page_run r n \<and>
    kernel_range m' = kernel_range m \<and> user_pool m' = user_pool m"
proof -
  have k: "pool_ok (kernel_pool m)" "bitmap_inv (used_map (kernel_pool m))" using ok by (simp_all add: pools_ok_def pool_ok_def)
  have last: "r + PGSIZE * (n - 1) \<in> kernel_used m" and first: "r \<in> kernel_used m"
    using page_run_mem [of "n - 1" n r] page_run_mem [of 0 n r] r(3,4) by auto
  obtain j where j: "r + PGSIZE * (n - 1) = pool_base (kernel_pool m) + PGSIZE * j" "j < bit_cnt (used_map (kernel_pool m))"
    using last by (auto simp: pool_used_def bitmap_used_def)
  have "PGSIZE * j + PGSIZE \<le> PGSIZE * bit_cnt (used_map (kernel_pool m))" using j(2) by (simp add: PGSIZE_val)
  then have "r + PGSIZE * n \<le> pool_end (kernel_pool m)" using j(1) r(3) by (simp add: pool_end_def PGSIZE_val)
  then have lim: "r + PGSIZE * n \<le> 2 ^ 64" using k(1) by (simp add: pool_ok_def)
  have use: "in_use m (page_run r n)" using r(4) by (simp add: in_use_def)
  obtain m' where m': "palloc_free_multiple m r n = Some m'" "pools_ok m'" "page_used m' = page_used m - page_run r n"
    using palloc_free_ok [OF ok r(1-3) lim] use by blast
  have kern: "page_from_pool (kernel_pool m) r" unfolding page_from_pool_iff(1) [OF k(1) r(1)] using pool_used_range [OF first] .
  let ?i = "pg_no r - pg_no (pool_base (kernel_pool m))"
  have "r = pool_base (kernel_pool m) + PGSIZE * ?i" using page_from_pool_iff(2) [OF k(1) r(1) kern] .
  then have "?i + n \<le> bit_cnt (used_map (kernel_pool m))" using j r(3) by (simp add: PGSIZE_val)
  from bm.release_ok [OF k(2) this] obtain b where b: "bitmap_release (used_map (kernel_pool m)) ?i n = Some b" "bit_cnt b = bit_cnt (used_map (kernel_pool m))"
    by blast
  then have b': "kernel_pool m' = (kernel_pool m)\<lparr>used_map := b\<rparr>" "user_pool m' = user_pool m"
    using m'(1) r(2,3) kern by (auto simp: palloc_free_multiple_def Let_def bind_Some fill_pages_def)
  have rng: "kernel_range m' = kernel_range m" using b(2) by (simp add: b' kernel_range_def pool_end_def)
  have "kernel_used m' = kernel_used m - page_run r n"
    using m'(3) b'(2) pool_used_disjoint [OF ok] pool_used_disjoint [OF m'(2)] r(4) unfolding page_used_def by auto
  then show ?thesis using m'(1,2) rng b'(2) by blast
qed

section \<open>The invariant\<close>

definition desc_table :: "(nat \<times> nat) list" where
  "desc_table = [(16, 254), (32, 127), (64, 63), (128, 31), (256, 15), (512, 7), (1024, 3)]"

definition descs_ok :: "desc list \<Rightarrow> bool" where
  "descs_ok ds \<longleftrightarrow> map (\<lambda>d. (desc_block_size d, blocks_per_arena d)) ds = desc_table"

definition arena_block :: "desc \<Rightarrow> ptr \<Rightarrow> nat \<Rightarrow> ptr" where
  "arena_block d a i = a + ARENA_SIZE + i * desc_block_size d"

definition arena_blocks :: "desc \<Rightarrow> ptr \<Rightarrow> ptr set" where
  "arena_blocks d a = arena_block d a ` {..<blocks_per_arena d}"

text \<open>The pages of an arena, the blocks in it and their size.\<close>

definition span :: "arena \<Rightarrow> nat" where
  "span x = (case arena_desc x of Some d \<Rightarrow> 1 | None \<Rightarrow> free_cnt x)"

definition blocks_in :: "heap \<Rightarrow> ptr \<Rightarrow> arena \<Rightarrow> ptr set" where
  "blocks_in h a x = (case arena_desc x of Some d \<Rightarrow> arena_blocks (descs h ! d) a | None \<Rightarrow> {a + ARENA_SIZE})"

definition free_in :: "heap \<Rightarrow> arena \<Rightarrow> ptr set" where
  "free_in h x = (case arena_desc x of Some d \<Rightarrow> set (free_list (descs h ! d)) | None \<Rightarrow> {})"

definition size_in :: "heap \<Rightarrow> arena \<Rightarrow> nat" where
  "size_in h x = (case arena_desc x of Some d \<Rightarrow> desc_block_size (descs h ! d) | None \<Rightarrow> PGSIZE * free_cnt x - ARENA_SIZE)"

definition arena_ok :: "heap \<Rightarrow> ptr \<Rightarrow> arena \<Rightarrow> bool" where
  "arena_ok h a x \<longleftrightarrow> a \<noteq> NULL \<and> pg_ofs a = 0 \<and> arena_magic x = ARENA_MAGIC \<and> 0 < span x \<and> page_run a (span x) \<subseteq> kernel_used (page_mem h) \<and>
     (\<forall>d. arena_desc x = Some d \<longrightarrow> d < length (descs h) \<and> free_cnt x = card (arena_blocks (descs h ! d) a \<inter> set (free_list (descs h ! d))))"

definition lists_ok :: "heap \<Rightarrow> bool" where
  "lists_ok h \<longleftrightarrow> (\<forall>d < length (descs h). distinct (free_list (descs h ! d)) \<and>
     (\<forall>b \<in> set (free_list (descs h ! d)). \<exists>a x. arena_at h a = Some x \<and> arena_desc x = Some d \<and> b \<in> arena_blocks (descs h ! d) a))"

definition heap_ok :: "heap \<Rightarrow> bool" where
  "heap_ok h \<longleftrightarrow> pools_ok (page_mem h) \<and> kernel_range (page_mem h) \<subseteq> dom (bytes h) \<and> descs_ok (descs h) \<and> lists_ok h \<and>
     (\<forall>a x. arena_at h a = Some x \<longrightarrow> arena_ok h a x) \<and>
     (\<forall>a b x y. arena_at h a = Some x \<and> arena_at h b = Some y \<and> a \<noteq> b \<longrightarrow> page_run a (span x) \<inter> page_run b (span y) = {})"

text \<open>No arena outside \<open>A\<close> has only free blocks.\<close>

definition busy :: "ptr set \<Rightarrow> heap \<Rightarrow> bool" where
  "busy A h \<longleftrightarrow> (\<forall>a x d. arena_at h a = Some x \<and> arena_desc x = Some d \<and> a \<notin> A \<longrightarrow> free_cnt x < blocks_per_arena (descs h ! d))"

definition heap_inv :: "heap \<Rightarrow> bool" where
  "heap_inv h \<longleftrightarrow> heap_ok h \<and> busy {} h"

definition live :: "heap \<Rightarrow> ptr set" where
  "live h = (\<Union>(a, x) \<in> {(a, x). arena_at h a = Some x}. blocks_in h a x - free_in h x)"

definition cap :: "heap \<Rightarrow> ptr \<Rightarrow> nat" where
  "cap h b = (case block_size h b of Some n \<Rightarrow> n | None \<Rightarrow> 0)"

lemma live_iff: "b \<in> live h \<longleftrightarrow> (\<exists>a x. arena_at h a = Some x \<and> b \<in> blocks_in h a x \<and> b \<notin> free_in h x)"
  by (auto simp: live_def)

section \<open>Geometry\<close>

lemma descs_okD:
  assumes "descs_ok ds" "d < length ds"
  shows "d < 7" "desc_block_size (ds ! d) = 16 * 2 ^ d" "0 < desc_block_size (ds ! d)" "0 < blocks_per_arena (ds ! d)"
    "ARENA_SIZE + blocks_per_arena (ds ! d) * desc_block_size (ds ! d) \<le> PGSIZE" "blocks_per_arena (ds ! d) < 2 ^ 64" "desc_block_size (ds ! d) dvd 2 ^ 64"
proof -
  have "length ds = 7" using arg_cong [OF assms(1) [unfolded descs_ok_def], of length] by (simp add: desc_table_def)
  then show d: "d < 7" using assms(2) by simp
  have t: "(desc_block_size (ds ! d), blocks_per_arena (ds ! d)) = desc_table ! d"
    using arg_cong [OF assms(1) [unfolded descs_ok_def], of "\<lambda>t. t ! d"] assms(2) by simp
  have "d \<in> {0, 1, 2, 3, 4, 5, 6}" using d by auto
  then show "desc_block_size (ds ! d) = 16 * 2 ^ d" "0 < desc_block_size (ds ! d)" "0 < blocks_per_arena (ds ! d)"
    "ARENA_SIZE + blocks_per_arena (ds ! d) * desc_block_size (ds ! d) \<le> PGSIZE" "blocks_per_arena (ds ! d) < 2 ^ 64"
    "desc_block_size (ds ! d) dvd 2 ^ 64"
    using t by (auto simp: desc_table_def ARENA_SIZE_def PGSIZE_val)
qed

lemma round_down_in: "pg_ofs a = 0 \<Longrightarrow> k < PGSIZE \<Longrightarrow> pg_round_down (a + k) = a \<and> pg_ofs (a + k) = k"
  by (auto simp: pg_ofs_def pg_round_down_def)

text \<open>Blocks of one size at a distance of that size do not overlap.\<close>

lemma slots_apart: "i \<noteq> j \<Longrightarrow> {c + i * n..<c + i * n + n} \<inter> {c + j * n..<c + j * n + n} = {}" for c i j n :: nat
proof -
  have "{c + i * n..<c + i * n + n} \<inter> {c + j * n..<c + j * n + n} = {}" if "i < j" for i j
  proof -
    have "Suc i * n \<le> j * n" using that by (intro mult_le_mono1) simp
    then show ?thesis by auto
  qed
  then show "i \<noteq> j \<Longrightarrow> ?thesis" by (cases i j rule: linorder_cases) blast+
qed

lemma arena_block_ok:
  assumes ds: "descs_ok ds" "d < length ds" and a: "pg_ofs a = 0" and i: "i < blocks_per_arena (ds ! d)"
  defines "b \<equiv> arena_block (ds ! d) a i" and "n \<equiv> desc_block_size (ds ! d)"
  shows "pg_round_down b = a" "{b..<b + n} \<subseteq> {a + ARENA_SIZE..<a + PGSIZE}" "(pg_ofs b + 2 ^ 64 - ARENA_SIZE) mod 2 ^ 64 mod n = 0"
proof -
  note D = descs_okD [OF ds]
  have "Suc i * n \<le> blocks_per_arena (ds ! d) * n" using i by (intro mult_le_mono1) simp
  then have le: "ARENA_SIZE + i * n + n \<le> PGSIZE" using D(5) by (simp add: n_def)
  then show "{b..<b + n} \<subseteq> {a + ARENA_SIZE..<a + PGSIZE}" by (auto simp: b_def arena_block_def n_def)
  have lt: "ARENA_SIZE + i * n < PGSIZE" using le D(3) by (simp add: n_def)
  from round_down_in [OF a this] have b: "pg_round_down b = a" "pg_ofs b = ARENA_SIZE + i * n" by (simp_all add: b_def arena_block_def n_def add.assoc)
  then show "pg_round_down b = a" by simp
  have "(pg_ofs b + 2 ^ 64 - ARENA_SIZE) mod 2 ^ 64 = i * n" using lt by (simp add: b(2) PGSIZE_val)
  then show "(pg_ofs b + 2 ^ 64 - ARENA_SIZE) mod 2 ^ 64 mod n = 0" by simp
qed

lemma arena_block_inj: "descs_ok ds \<Longrightarrow> d < length ds \<Longrightarrow> inj (arena_block (ds ! d) a)"
  using descs_okD(3) [of ds d] by (auto simp: inj_def arena_block_def)

lemma blocks_arena: "descs_ok ds \<Longrightarrow> d < length ds \<Longrightarrow> pg_ofs a = 0 \<Longrightarrow> b \<in> arena_blocks (ds ! d) a \<Longrightarrow> pg_round_down b = a"
  using arena_block_ok(1) by (auto simp: arena_blocks_def)

lemma finite_arena_blocks [simp]: "finite (arena_blocks d a)"
  by (simp add: arena_blocks_def)

lemma card_arena_blocks: "descs_ok ds \<Longrightarrow> d < length ds \<Longrightarrow> card (arena_blocks (ds ! d) a) = blocks_per_arena (ds ! d)"
  unfolding arena_blocks_def by (subst card_image) (auto intro: inj_on_subset [OF arena_block_inj])

section \<open>Blocks of a sound heap\<close>

lemma heap_okD:
  assumes "heap_ok h"
  shows "pools_ok (page_mem h)" "kernel_range (page_mem h) \<subseteq> dom (bytes h)" "descs_ok (descs h)" "lists_ok h"
    "arena_at h a = Some x \<Longrightarrow> arena_ok h a x"
    "arena_at h a = Some x \<Longrightarrow> arena_at h b = Some y \<Longrightarrow> a \<noteq> b \<Longrightarrow> page_run a (span x) \<inter> page_run b (span y) = {}"
  using assms unfolding heap_ok_def by auto

lemma run_in_range:
  assumes "page_run a n \<subseteq> kernel_used m"
  shows "{a..<a + PGSIZE * n} \<subseteq> kernel_range m"
proof
  fix c assume "c \<in> {a..<a + PGSIZE * n}"
  then obtain k where k: "c = a + k" "k < PGSIZE * n" by (metis atLeastLessThan_iff le_iff_add nat_add_left_cancel_less)
  let ?i = "k div PGSIZE"
  have i: "?i < n" "PGSIZE * ?i \<le> k" "k < PGSIZE * ?i + PGSIZE"
    using k(2) by (simp_all add: less_mult_imp_div_less mult.commute PGSIZE_val)
  then have "a + PGSIZE * ?i \<in> kernel_used m" using assms page_run_mem by blast
  then obtain j where j: "a + PGSIZE * ?i = pool_base (kernel_pool m) + PGSIZE * j" "j < bit_cnt (used_map (kernel_pool m))"
    by (auto simp: pool_used_def bitmap_used_def)
  have "PGSIZE * j + PGSIZE \<le> PGSIZE * bit_cnt (used_map (kernel_pool m))" using j(2) by (simp add: PGSIZE_val)
  then have "pool_base (kernel_pool m) \<le> c \<and> c < pool_end (kernel_pool m)" using j(1) i(2,3) k(1) unfolding pool_end_def by linarith
  then show "c \<in> kernel_range m" by (simp add: kernel_range_def)
qed

lemma arena_end:
  assumes "heap_ok h" "arena_at h a = Some x"
  shows "{a..<a + PGSIZE * span x} \<subseteq> kernel_range (page_mem h)" "a + PGSIZE * span x \<le> 2 ^ 64"
proof -
  have x: "arena_ok h a x" using heap_okD(5) assms by blast
  then show r: "{a..<a + PGSIZE * span x} \<subseteq> kernel_range (page_mem h)" using run_in_range by (simp add: arena_ok_def)
  have "a + PGSIZE * span x - 1 \<in> {a..<a + PGSIZE * span x}" using x by (auto simp: arena_ok_def PGSIZE_val)
  then have "a + PGSIZE * span x - 1 < pool_end (kernel_pool (page_mem h))" using r by (auto simp: kernel_range_def)
  moreover have "pool_end (kernel_pool (page_mem h)) \<le> 2 ^ 64" using heap_okD(1) [OF assms(1)] by (simp add: pools_ok_def pool_ok_def)
  ultimately show "a + PGSIZE * span x \<le> 2 ^ 64" by linarith
qed

lemma block_in_arena:
  assumes ok: "heap_ok h" and a: "arena_at h a = Some x" and b: "b \<in> blocks_in h a x"
  shows "pg_round_down b = a" "block_to_arena h b = Some a" "block_size h b = Some (size_in h x)" "cap h b = size_in h x"
    "{b..<b + size_in h x} \<subseteq> {a + ARENA_SIZE..<a + PGSIZE * span x}" "0 < size_in h x"
proof -
  have x: "a \<noteq> NULL" "pg_ofs a = 0" "arena_magic x = ARENA_MAGIC" "0 < span x" "\<And>d. arena_desc x = Some d \<Longrightarrow> d < length (descs h)"
    using heap_okD(5) [OF ok a] by (auto simp: arena_ok_def)
  note ds = heap_okD(3) [OF ok]
  have "pg_round_down b = a \<and> block_to_arena h b = Some a \<and> block_size h b = Some (size_in h x) \<and>
    {b..<b + size_in h x} \<subseteq> {a + ARENA_SIZE..<a + PGSIZE * span x} \<and> 0 < size_in h x"
  proof (cases "arena_desc x")
    case None
    then have b: "b = a + ARENA_SIZE" "pg_round_down b = a" "pg_ofs b = ARENA_SIZE"
      using b round_down_in [OF x(2), of ARENA_SIZE] by (simp_all add: blocks_in_def ARENA_SIZE_def PGSIZE_val)
    have n: "0 < free_cnt x" "PGSIZE * free_cnt x < 2 ^ 64" using x(1,4) None arena_end(2) [OF ok a] by (simp_all add: span_def)
    then have "PGSIZE * free_cnt x + 2 ^ 64 - pg_ofs b = 2 ^ 64 + (PGSIZE * free_cnt x - ARENA_SIZE)" "PGSIZE * free_cnt x - ARENA_SIZE < 2 ^ 64"
      by (simp_all add: b(3) PGSIZE_val ARENA_SIZE_def)
    then have "(PGSIZE * free_cnt x + 2 ^ 64 - pg_ofs b) mod 2 ^ 64 = PGSIZE * free_cnt x - ARENA_SIZE" by (metis mod_add_self1 mod_less)
    then show ?thesis using b x a None n by (auto simp: block_to_arena_def block_size_def size_in_def span_def PGSIZE_val ARENA_SIZE_def)
  next
    case (Some d)
    then obtain i where i: "i < blocks_per_arena (descs h ! d)" "b = arena_block (descs h ! d) a i" using b by (auto simp: blocks_in_def arena_blocks_def)
    note B = arena_block_ok [OF ds x(5) [OF Some] x(2) i(1), folded i(2)]
    show ?thesis using B x a Some descs_okD(3) [OF ds x(5) [OF Some]]
      by (simp add: block_to_arena_def block_size_def size_in_def span_def)
  qed
  then show "pg_round_down b = a" "block_to_arena h b = Some a" "block_size h b = Some (size_in h x)" "cap h b = size_in h x"
    "{b..<b + size_in h x} \<subseteq> {a + ARENA_SIZE..<a + PGSIZE * span x}" "0 < size_in h x" by (simp_all only: cap_def option.case)
qed

lemma liveE:
  assumes "b \<in> live h"
  obtains a x where "arena_at h a = Some x" "b \<in> blocks_in h a x" "b \<notin> free_in h x"
  using assms by (auto simp: live_iff)

text \<open>The bytes of two arenas do not overlap.\<close>

lemma runs_apart:
  assumes "pg_ofs a = 0" "pg_ofs b = 0" "page_run a n \<inter> page_run b k = {}"
  shows "{a..<a + PGSIZE * n} \<inter> {b..<b + PGSIZE * k} = {}"
proof (rule ccontr)
  assume "{a..<a + PGSIZE * n} \<inter> {b..<b + PGSIZE * k} \<noteq> {}"
  then obtain c where "c \<in> {a..<a + PGSIZE * n}" "c \<in> {b..<b + PGSIZE * k}" by blast
  then have c: "a \<le> c" "c < a + PGSIZE * n" "b \<le> c" "c < b + PGSIZE * k" by simp_all
  have page: "pg_round_down c \<in> page_run e l" if e: "pg_ofs e = 0" "e \<le> c" "c < e + PGSIZE * l" for e l
  proof -
    obtain q where q: "e = PGSIZE * q" using e(1) by (auto simp: pg_ofs_def)
    have "PGSIZE * q \<le> PGSIZE * (c div PGSIZE)" using e(2) unfolding q by (intro mult_le_mono2) (simp add: div_le_mono [of "PGSIZE * q" c PGSIZE, simplified] PGSIZE_val)
    moreover have "c div PGSIZE < q + l" using e(3) unfolding q by (simp add: PGSIZE_val)
    ultimately have i: "pg_round_down c = e + PGSIZE * (c div PGSIZE - q)" "c div PGSIZE - q < l"
      unfolding q by (auto simp: pg_round_down_def minus_mod_eq_mult_div PGSIZE_val)
    then show ?thesis using page_run_mem by simp
  qed
  from page [OF assms(1) c(1,2)] page [OF assms(2) c(3,4)] assms(3) show False by blast
qed

lemma live_apart:
  assumes ok: "heap_ok h" and b: "b \<in> live h" "c \<in> live h" "b \<noteq> c"
  shows "{b..<b + cap h b} \<inter> {c..<c + cap h c} = {}"
proof -
  obtain a x where ax: "arena_at h a = Some x" "b \<in> blocks_in h a x" using liveE [OF b(1)] by blast
  obtain e y where ey: "arena_at h e = Some y" "c \<in> blocks_in h e y" using liveE [OF b(2)] by blast
  note B = block_in_arena [OF ok ax] and C = block_in_arena [OF ok ey]
  show ?thesis
  proof (cases "a = e")
    case True
    then have xy: "y = x" using ax ey by simp
    then obtain d where d: "arena_desc x = Some d" using ax(2) ey(2) b(3) True by (cases "arena_desc x") (auto simp: blocks_in_def)
    then obtain i j where ij: "b = arena_block (descs h ! d) a i" "c = arena_block (descs h ! d) a j"
      using ax(2) ey(2) True xy by (auto simp: blocks_in_def arena_blocks_def)
    then have "i \<noteq> j" using b(3) by auto
    then show ?thesis using slots_apart [of i j "a + ARENA_SIZE" "desc_block_size (descs h ! d)"] B(4) C(4) d
      unfolding ij xy by (simp add: arena_block_def size_in_def)
  next
    case False
    have "pg_ofs a = 0" "pg_ofs e = 0" using heap_okD(5) [OF ok] ax(1) ey(1) by (auto simp: arena_ok_def)
    from runs_apart [OF this heap_okD(6) [OF ok ax(1) ey(1) False]] show ?thesis
      using B(4,5) C(4,5) by fastforce
  qed
qed

lemma live_mapped:
  assumes "heap_ok h" "b \<in> live h"
  shows "mapped_range (bytes h) b (cap h b)" "b \<noteq> NULL" "0 < cap h b" "{b..<b + cap h b} \<subseteq> kernel_range (page_mem h)"
proof -
  obtain a x where ax: "arena_at h a = Some x" "b \<in> blocks_in h a x" using liveE [OF assms(2)] by blast
  note B = block_in_arena [OF assms(1) ax]
  have "b \<in> {a + ARENA_SIZE..<a + PGSIZE * span x}" using B(5,6) by auto
  then show n: "b \<noteq> NULL" by (auto simp: ARENA_SIZE_def)
  show r: "{b..<b + cap h b} \<subseteq> kernel_range (page_mem h)" using arena_end(1) [OF assms(1) ax(1)] B(4,5) by fastforce
  then show "mapped_range (bytes h) b (cap h b)" using n heap_okD(2) [OF assms(1)] by (auto simp: mapped_range_def)
  show "0 < cap h b" using B by simp
qed

section \<open>Changing the heap\<close>

text \<open>Changing which blocks of one arena are on the free list.\<close>

definition set_free :: "heap \<Rightarrow> nat \<Rightarrow> ptr \<Rightarrow> ptr list \<Rightarrow> heap" where
  "set_free h d a fl = h\<lparr>descs := (descs h)[d := (descs h ! d)\<lparr>free_list := fl\<rparr>],
     arena_at := (arena_at h)(a := map_option (\<lambda>x. x\<lparr>free_cnt := card (arena_blocks (descs h ! d) a \<inter> set fl)\<rparr>) (arena_at h a))\<rparr>"

lemma nth_update_beyond: "length xs \<le> e \<Longrightarrow> xs[d := v] ! e = xs ! e"
proof (induction xs arbitrary: d e)
  case (Cons x xs)
  then show ?case by (cases e; cases d) simp_all
qed simp

lemma set_free_desc: "\<exists>l. descs (set_free h d a fl) ! e = (descs h ! e)\<lparr>free_list := l\<rparr>"
proof (cases "d = e \<and> d < length (descs h)")
  case True
  then show ?thesis by (auto simp: set_free_def)
next
  case False
  then have "descs (set_free h d a fl) ! e = (descs h ! e)\<lparr>free_list := free_list (descs h ! e)\<rparr>" 
    by (cases "e < length (descs h)") (auto simp: set_free_def nth_update_beyond)
  then show ?thesis by blast
qed

lemma set_free_sizes [simp]:
  "desc_block_size (descs (set_free h d a fl) ! e) = desc_block_size (descs h ! e)"
  "blocks_per_arena (descs (set_free h d a fl) ! e) = blocks_per_arena (descs h ! e)"
  using set_free_desc [of h d a fl e] by auto

lemma set_free_simps [simp]:
  "page_mem (set_free h d a fl) = page_mem h" "bytes (set_free h d a fl) = bytes h" "length (descs (set_free h d a fl)) = length (descs h)"
  by (simp_all add: set_free_def)

lemma arena_blocks_cong:
  "desc_block_size d = desc_block_size e \<Longrightarrow> blocks_per_arena d = blocks_per_arena e \<Longrightarrow> arena_blocks d a = arena_blocks e a"
  by (simp add: arena_blocks_def arena_block_def)

lemma set_free_blocks [simp]: "arena_blocks (descs (set_free h d a fl) ! e) c = arena_blocks (descs h ! e) c"
  by (rule arena_blocks_cong) simp_all

lemma set_free_list:
  "d < length (descs h) \<Longrightarrow> free_list (descs (set_free h d a fl) ! e) = (if e = d then fl else free_list (descs h ! e))"
  by (simp add: set_free_def nth_list_update)

lemma set_free_arena:
  "arena_at (set_free h d a fl) e = (if e = a then map_option (\<lambda>x. x\<lparr>free_cnt := card (arena_blocks (descs h ! d) a \<inter> set fl)\<rparr>) (arena_at h a) else arena_at h e)"
  by (simp add: set_free_def)

lemma heap_ok_change:
  assumes ok: "heap_ok h" and a: "arena_at h a = Some x" "arena_desc x = Some d"
    and fl: "distinct fl" "set fl - arena_blocks (descs h ! d) a = set (free_list (descs h ! d)) - arena_blocks (descs h ! d) a"
  shows "heap_ok (set_free h d a fl)"
proof -
  let ?h = "set_free h d a fl" and ?B = "arena_blocks (descs h ! d) a"
  have d: "d < length (descs h)" "pg_ofs a = 0" using heap_okD(5) [OF ok a(1)] a(2) by (simp_all add: arena_ok_def)
  note ds = heap_okD(3) [OF ok]
  have sp: "span (x\<lparr>free_cnt := n\<rparr>) = span x" for n using a(2) by (simp add: span_def)
  have "descs_ok (descs ?h)"
  proof -
    have "map (\<lambda>d. (desc_block_size d, blocks_per_arena d)) (descs ?h) = map (\<lambda>d. (desc_block_size d, blocks_per_arena d)) (descs h)"
      by (rule nth_equalityI) simp_all
    then show ?thesis using ds by (simp add: descs_ok_def)
  qed
  moreover have "lists_ok ?h"
  proof -
    have "\<exists>e y. arena_at ?h e = Some y \<and> arena_desc y = Some k \<and> b \<in> arena_blocks (descs h ! k) e"
      if kb: "k < length (descs h)" "b \<in> set (free_list (descs h ! k)) \<or> k = d \<and> b \<in> ?B" for k b
    proof -
      obtain e y where e: "arena_at h e = Some y" "arena_desc y = Some k" "b \<in> arena_blocks (descs h ! k) e"
        using heap_okD(4) [OF ok] kb a unfolding lists_ok_def by blast
      then show ?thesis by (cases "e = a") (auto simp: set_free_arena)
    qed
    moreover have "b \<in> set (free_list (descs h ! d)) \<or> b \<in> ?B" if "b \<in> set fl" for b using fl(2) that by blast
    ultimately show ?thesis using fl(1) heap_okD(4) [OF ok] unfolding lists_ok_def by (simp add: set_free_list [OF d(1)])
  qed
  moreover have "arena_ok ?h e y" if e: "arena_at ?h e = Some y" for e y
  proof (cases "e = a")
    case True
    then have "y = x\<lparr>free_cnt := card (?B \<inter> set fl)\<rparr>" using e a(1) by (simp add: set_free_arena)
    then show ?thesis using heap_okD(5) [OF ok a(1)] a(2) d True by (simp add: arena_ok_def sp set_free_list)
  next
    case False
    then have e: "arena_at h e = Some y" using e by (simp add: set_free_arena)
    have y: "arena_ok h e y" using heap_okD(5) [OF ok e] .
    have "arena_blocks (descs h ! d) e \<inter> set fl = arena_blocks (descs h ! d) e \<inter> set (free_list (descs h ! d))" if "arena_desc y = Some d"
    proof -
      have "b \<notin> ?B" if "b \<in> arena_blocks (descs h ! d) e" for b
        using False blocks_arena [OF ds d(1,2), of b] blocks_arena [OF ds d(1), of e b] that y by (auto simp: arena_ok_def)
      then show ?thesis using fl(2) by blast
    qed
    then show ?thesis using y by (auto simp: arena_ok_def set_free_list [OF d(1)])
  qed
  moreover have "page_run e (span y) \<inter> page_run c (span z) = {}" if "arena_at ?h e = Some y" "arena_at ?h c = Some z" "e \<noteq> c" for e c y z
  proof -
    have "\<exists>w. arena_at h e = Some w \<and> span y = span w" if "arena_at ?h e = Some y" for e y
      using that a(1) sp by (auto simp: set_free_arena split: if_splits)
    then show ?thesis using heap_okD(6) [OF ok] that by metis
  qed
  ultimately show ?thesis unfolding heap_ok_def set_free_simps(1,2) using heap_okD(1,2) [OF ok] by blast
qed

text \<open>Entering and deleting an arena of which no block is on the free list.\<close>

definition set_arena :: "heap \<Rightarrow> physmem \<Rightarrow> ptr \<Rightarrow> arena option \<Rightarrow> heap" where
  "set_arena h m a x = h\<lparr>page_mem := m, arena_at := (arena_at h)(a := x)\<rparr>"

lemma set_arena_simps [simp]:
  "page_mem (set_arena h m a x) = m" "descs (set_arena h m a x) = descs h" "bytes (set_arena h m a x) = bytes h"
  "arena_at (set_arena h m a x) = (arena_at h)(a := x)" "blocks_in (set_arena h m a x) = blocks_in h" "free_in (set_arena h m a x) = free_in h"
  "size_in (set_arena h m a x) = size_in h"
  by (simp_all add: set_arena_def blocks_in_def free_in_def size_in_def fun_eq_iff split: option.splits)

lemma listed_in_arena:
  assumes ok: "heap_ok h" and d: "d < length (descs h)" and b: "b \<in> set (free_list (descs h ! d))"
  shows "\<exists>x. arena_at h (pg_round_down b) = Some x \<and> arena_desc x = Some d \<and> b \<in> arena_blocks (descs h ! d) (pg_round_down b)"
proof -
  obtain a x where a: "arena_at h a = Some x" "arena_desc x = Some d" "b \<in> arena_blocks (descs h ! d) a"
    using heap_okD(4) [OF ok] d b unfolding lists_ok_def by blast
  then have "pg_round_down b = a" using blocks_arena [OF heap_okD(3) [OF ok] d] heap_okD(5) [OF ok a(1)] by (simp add: arena_ok_def)
  then show ?thesis using a by blast
qed

lemma heap_ok_add:
  assumes ok: "heap_ok h" and m: "pools_ok m" "kernel_range m = kernel_range (page_mem h)" "kernel_used m = kernel_used (page_mem h) \<union> page_run a (span x)"
    and a: "page_run a (span x) \<inter> kernel_used (page_mem h) = {}" "a \<noteq> NULL" "pg_ofs a = 0" "0 < span x"
    and x: "arena_magic x = ARENA_MAGIC" "\<And>d. arena_desc x = Some d \<Longrightarrow> d < length (descs h) \<and> free_cnt x = 0"
  shows "heap_ok (set_arena h m a (Some x))" "arena_at h a = None"
proof -
  let ?h = "set_arena h m a (Some x)"
  have first: "e \<in> page_run e (span y)" "page_run e (span y) \<subseteq> kernel_used (page_mem h)" if "arena_at h e = Some y" for e y
    using page_run_mem [of 0 "span y" e] heap_okD(5) [OF ok that] by (simp_all add: arena_ok_def)
  show none: "arena_at h a = None"
  proof (rule ccontr)
    assume "arena_at h a \<noteq> None"
    then have "a \<in> kernel_used (page_mem h)" using first by blast
    then show False using a(1,4) page_run_mem [of 0 "span x" a] by auto
  qed
  have fresh: "arena_blocks (descs h ! d) a \<inter> set (free_list (descs h ! d)) = {}" if "d < length (descs h)" for d
    using listed_in_arena [OF ok that] blocks_arena [OF heap_okD(3) [OF ok] that a(3)] none by fastforce
  have "lists_ok ?h" using heap_okD(4) [OF ok] none unfolding lists_ok_def set_arena_simps fun_upd_apply by (metis option.distinct(1))
  moreover have "arena_ok ?h e y" if "arena_at ?h e = Some y" for e y
  proof (cases "e = a")
    case True
    then show ?thesis using that a x m(3) fresh by (auto simp: arena_ok_def)
  next
    case False
    then show ?thesis using that heap_okD(5) [OF ok, of e y] m(3) by (auto simp: arena_ok_def)
  qed
  moreover have "page_run e (span y) \<inter> page_run c (span z) = {}" if "arena_at ?h e = Some y" "arena_at ?h c = Some z" "e \<noteq> c" for e c y z
    using that heap_okD(6) [OF ok, of e y c z] first [of e y] first [of c z] a(1) by (auto split: if_splits)
  ultimately show "heap_ok ?h" using ok m(1,2) unfolding heap_ok_def set_arena_simps by auto
qed

lemma heap_ok_del:
  assumes ok: "heap_ok h" and m: "pools_ok m" "kernel_range m = kernel_range (page_mem h)" "kernel_used m = kernel_used (page_mem h) - page_run a (span x)"
    and a: "arena_at h a = Some x" "blocks_in h a x \<inter> free_in h x = {}"
  shows "heap_ok (set_arena h m a None)"
proof -
  let ?h = "set_arena h m a None"
  have "lists_ok ?h" unfolding lists_ok_def set_arena_simps
  proof (intro allI impI conjI ballI)
    fix d b assume d: "d < length (descs h)"
    then show "distinct (free_list (descs h ! d))" using heap_okD(4) [OF ok] by (simp add: lists_ok_def)
    assume b: "b \<in> set (free_list (descs h ! d))"
    from listed_in_arena [OF ok d b] obtain y where y: "arena_at h (pg_round_down b) = Some y" "arena_desc y = Some d" "b \<in> arena_blocks (descs h ! d) (pg_round_down b)"
      by blast
    have "pg_round_down b \<noteq> a" using y a b by (auto simp: blocks_in_def free_in_def)
    then show "\<exists>a' x'. ((arena_at h)(a := None)) a' = Some x' \<and> arena_desc x' = Some d \<and> b \<in> arena_blocks (descs h ! d) a'" using y by auto
  qed
  moreover have "arena_ok ?h e y" if e: "arena_at ?h e = Some y" for e y
  proof -
    have "arena_at h e = Some y" "e \<noteq> a" using e by (auto split: if_splits)
    then show ?thesis using heap_okD(5) [OF ok, of e y] heap_okD(6) [OF ok, of e y a x] a(1) m(3) by (auto simp: arena_ok_def)
  qed
  moreover have "page_run e (span y) \<inter> page_run c (span z) = {}" if "arena_at ?h e = Some y" "arena_at ?h c = Some z" "e \<noteq> c" for e c y z
    using that heap_okD(6) [OF ok, of e y c z] by (auto split: if_splits)
  ultimately show "heap_ok ?h" using ok m(1,2) unfolding heap_ok_def set_arena_simps by auto
qed

text \<open>What the changes do to the blocks in use.\<close>

lemma live_at:
  assumes "heap_ok h"
  shows "b \<in> live h \<longleftrightarrow> (\<exists>x. arena_at h (pg_round_down b) = Some x \<and> b \<in> blocks_in h (pg_round_down b) x \<and> b \<notin> free_in h x)"
  using block_in_arena(1) [OF assms] unfolding live_iff by metis

lemma live_in_arena:
  assumes "heap_ok h" "arena_at h a = Some x"
  shows "live h \<inter> blocks_in h a x = blocks_in h a x - free_in h x"
  using block_in_arena(1) [OF assms] assms(2) by (auto simp: live_at [OF assms(1)])

lemma live_change:
  assumes ok: "heap_ok h" and a: "arena_at h a = Some x" "arena_desc x = Some d"
    and fl: "distinct fl" "set fl - arena_blocks (descs h ! d) a = set (free_list (descs h ! d)) - arena_blocks (descs h ! d) a"
  shows "live (set_free h d a fl) = (live h - arena_blocks (descs h ! d) a) \<union> (arena_blocks (descs h ! d) a - set fl)"
    "b \<in> live h \<Longrightarrow> b \<in> live (set_free h d a fl) \<Longrightarrow> cap (set_free h d a fl) b = cap h b"
proof -
  let ?h = "set_free h d a fl" and ?B = "arena_blocks (descs h ! d) a"
  note ok' = heap_ok_change [OF assms]
  have d: "d < length (descs h)" "pg_ofs a = 0" using heap_okD(5) [OF ok a(1)] a(2) by (simp_all add: arena_ok_def)
  have bl: "blocks_in ?h e y = blocks_in h e y" "free_in ?h y = (if arena_desc y = Some d then set fl else free_in h y)" for e y
    by (auto simp: blocks_in_def free_in_def set_free_list [OF d(1)] split: option.splits)
  have "b \<in> live ?h \<longleftrightarrow> b \<in> (live h - ?B) \<union> (?B - set fl)" for b
  proof (cases "pg_round_down b = a")
    case True
    then show ?thesis using a d(1) by (auto simp: live_at [OF ok] live_at [OF ok'] set_free_arena blocks_in_def free_in_def set_free_list)
  next
    case False
    have "b \<notin> ?B" using False blocks_arena [OF heap_okD(3) [OF ok] d] by blast
    moreover have "b \<in> free_in ?h y \<longleftrightarrow> b \<in> free_in h y" for y using fl(2) calculation bl(2) [of y] a(2) by (auto simp: free_in_def)
    ultimately show ?thesis using False bl(1) by (auto simp: live_at [OF ok] live_at [OF ok'] set_free_arena)
  qed
  then show "live ?h = (live h - ?B) \<union> (?B - set fl)" by blast
  assume b: "b \<in> live h" "b \<in> live ?h"
  then obtain e y where y: "arena_at h e = Some y" "b \<in> blocks_in h e y" using liveE by blast
  obtain y' where y': "arena_at ?h e = Some y'" "blocks_in ?h e y' = blocks_in h e y" "size_in ?h y' = size_in h y"
    using y a by (cases "e = a") (auto simp: set_free_arena blocks_in_def size_in_def split: option.splits)
  then show "cap ?h b = cap h b" using block_in_arena(4) [OF ok y] block_in_arena(4) [OF ok' y'(1)] y(2) by simp
qed

lemma live_arena:
  assumes ok: "heap_ok h" "heap_ok (set_arena h m a x)" and x: "\<And>y. x = Some y \<Longrightarrow> arena_at h a = None" "\<And>y. x = Some y \<Longrightarrow> blocks_in h a y \<inter> free_in h y = {}"
  shows "live (set_arena h m a x) = live h \<union> (case x of Some y \<Rightarrow> blocks_in h a y | None \<Rightarrow> {}) -
      (case (x, arena_at h a) of (None, Some y) \<Rightarrow> blocks_in h a y | _ \<Rightarrow> {})"
    "b \<in> live h \<Longrightarrow> b \<in> live (set_arena h m a x) \<Longrightarrow> cap (set_arena h m a x) b = cap h b"
proof -
  let ?h = "set_arena h m a x"
  have in_a: "pg_round_down b = a" if "arena_at h a = Some y \<or> x = Some y" "b \<in> blocks_in h a y" for b y
    using that block_in_arena(1) [OF ok(1), of a y b] block_in_arena(1) [OF ok(2), of a y b] by auto
  have "b \<in> live ?h \<longleftrightarrow> b \<in> live h \<union> (case x of Some y \<Rightarrow> blocks_in h a y | None \<Rightarrow> {}) -
      (case (x, arena_at h a) of (None, Some y) \<Rightarrow> blocks_in h a y | _ \<Rightarrow> {})" for b
  proof (cases "pg_round_down b = a")
    case True
    then show ?thesis using x by (auto simp: live_at [OF ok(1)] live_at [OF ok(2)] split: option.splits)
  next
    case False
    then show ?thesis using in_a by (auto simp: live_at [OF ok(1)] live_at [OF ok(2)] split: option.splits)
  qed
  then show "live ?h = live h \<union> (case x of Some y \<Rightarrow> blocks_in h a y | None \<Rightarrow> {}) -
      (case (x, arena_at h a) of (None, Some y) \<Rightarrow> blocks_in h a y | _ \<Rightarrow> {})" by blast
  assume b: "b \<in> live h" "b \<in> live ?h"
  obtain e y where y: "arena_at h e = Some y" "b \<in> blocks_in h e y" using liveE [OF b(1)] by blast
  obtain c z where z: "arena_at ?h c = Some z" "b \<in> blocks_in ?h c z" using liveE [OF b(2)] by blast
  have "c = e" using block_in_arena(1) [OF ok(1) y] block_in_arena(1) [OF ok(2) z] by simp
  then have "z = y" using z(1) y(1) x(1) by (auto split: if_splits)
  then show "cap ?h b = cap h b" using block_in_arena(4) [OF ok(1) y] block_in_arena(4) [OF ok(2) z] by simp
qed

text \<open>The pages of the kernel pool that are in use for other things do not change.\<close>

definition spare :: "heap \<Rightarrow> nat set" where
  "spare h = kernel_used (page_mem h) - (\<Union>(a, x) \<in> {(a, x). arena_at h a = Some x}. page_run a (span x))"

lemma spare_iff: "c \<in> spare h \<longleftrightarrow> c \<in> kernel_used (page_mem h) \<and> (\<forall>a x. arena_at h a = Some x \<longrightarrow> c \<notin> page_run a (span x))"
  by (auto simp: spare_def)

lemma spare_change:
  assumes "arena_at h a = Some x" "arena_desc x = Some d"
  shows "spare (set_free h d a fl) = spare h"
proof -
  have "span (x\<lparr>free_cnt := n\<rparr>) = span x" for n using assms(2) by (simp add: span_def)
  then have "(arena_at (set_free h d a fl) e = None) = (arena_at h e = None)"
      "\<And>y. arena_at (set_free h d a fl) e = Some y \<Longrightarrow> \<exists>z. arena_at h e = Some z \<and> span y = span z" for e
    using assms(1) by (auto simp: set_free_arena split: if_splits)
  then have "(\<exists>y. arena_at (set_free h d a fl) e = Some y \<and> c \<in> page_run e (span y)) \<longleftrightarrow> (\<exists>y. arena_at h e = Some y \<and> c \<in> page_run e (span y))" for e c
    by (metis not_None_eq option.inject)
  then show ?thesis unfolding set_eq_iff spare_iff set_free_simps by blast
qed

lemma spare_add:
  assumes "kernel_used m = kernel_used (page_mem h) \<union> page_run a (span x)" "page_run a (span x) \<inter> kernel_used (page_mem h) = {}" "arena_at h a = None"
  shows "spare (set_arena h m a (Some x)) = spare h"
  using assms by (auto simp: spare_iff split: if_splits) (metis option.distinct(1))

lemma spare_del:
  assumes "heap_ok h" "kernel_used m = kernel_used (page_mem h) - page_run a (span x)" "arena_at h a = Some x"
  shows "spare (set_arena h m a None) = spare h"
  using assms(2,3) heap_okD(6) [OF assms(1,3)] by (auto simp: spare_iff split: if_splits) (metis option.inject)

section \<open>Allocation\<close>

lemma add_blocks_eq:
  "arena_at h a = Some x \<Longrightarrow> arena_magic x = ARENA_MAGIC \<Longrightarrow> arena_desc x = Some d \<Longrightarrow> a \<noteq> NULL \<Longrightarrow> d < length (descs h) \<Longrightarrow>
   i + n \<le> blocks_per_arena (descs h ! d) \<Longrightarrow>
   add_blocks h d a i n = Some (upd_desc h d (\<lambda>y. y\<lparr>free_list := free_list y @ map (arena_block (descs h ! d) a) [i..<i + n]\<rparr>))"
proof (induction n arbitrary: h i)
  case (Suc n)
  let ?h = "upd_desc h d (\<lambda>y. y\<lparr>free_list := free_list y @ [arena_block (descs h ! d) a i]\<rparr>)"
  have "arena_to_block h a i = Some (arena_block (descs h ! d) a i)" using Suc.prems by (simp add: arena_to_block_def arena_block_def)
  moreover have "add_blocks ?h d a (Suc i) n = Some (upd_desc ?h d (\<lambda>y. y\<lparr>free_list := free_list y @ map (arena_block (descs ?h ! d) a) [Suc i..<Suc i + n]\<rparr>))"
    using Suc.prems by (intro Suc.IH) (simp_all add: upd_desc_def)
  moreover have "arena_block (descs ?h ! d) a = arena_block (descs h ! d) a" using Suc.prems(5) by (simp add: upd_desc_def arena_block_def fun_eq_iff)
  moreover have "[i..<i + Suc n] = i # [Suc i..<Suc i + n]" by (simp add: upt_rec)
  ultimately show ?case using Suc.prems(5) by (simp add: upd_desc_def)
qed (simp add: upd_desc_def)

text \<open>The first block of a free list.\<close>

lemma take_block_ok:
  assumes ok: "heap_ok h" and d: "d < length (descs h)" and fl: "free_list (descs h ! d) = b # bs" and busy: "busy {pg_round_down b} h"
  shows "\<exists>h'. take_block h d = Some (b, h') \<and> heap_inv h' \<and> live h' = insert b (live h) \<and> b \<notin> live h \<and> cap h' b = desc_block_size (descs h ! d) \<and>
    (\<forall>c \<in> live h. cap h' c = cap h c) \<and> bytes h' = bytes h \<and> spare h' = spare h"
proof -
  obtain x where x: "arena_at h (pg_round_down b) = Some x" "arena_desc x = Some d" "b \<in> arena_blocks (descs h ! d) (pg_round_down b)"
    using listed_in_arena [OF ok d, of b] fl by auto
  let ?a = "pg_round_down b"
  let ?B = "arena_blocks (descs h ! d) ?a" and ?h = "set_free h d ?a bs"
  have x': "a \<noteq> NULL" "arena_magic x = ARENA_MAGIC" "free_cnt x = card (?B \<inter> set (b # bs))" "pg_ofs ?a = 0" if "a = ?a" for a
    using heap_okD(5) [OF ok x(1)] x(2) fl that by (auto simp: arena_ok_def)
  have dist: "distinct (b # bs)" using heap_okD(4) [OF ok] d fl by (metis lists_ok_def)
  have diff: "set bs - ?B = set (free_list (descs h ! d)) - ?B" "distinct bs" using x(3) fl dist by auto
  note ok' = heap_ok_change [OF ok x(1,2) diff(2,1)] and live' = live_change [OF ok x(1,2) diff(2,1)]
  have "?B \<inter> set (b # bs) = insert b (?B \<inter> set bs)" using x(3) by auto
  then have cnt: "free_cnt x = Suc (card (?B \<inter> set bs))" using x'(3) dist by simp
  have le: "card (?B \<inter> set (b # bs)) \<le> blocks_per_arena (descs h ! d)"
    using card_mono [of ?B "?B \<inter> set (b # bs)"] card_arena_blocks [OF heap_okD(3) [OF ok] d] by simp
  then have small: "card (?B \<inter> set bs) < blocks_per_arena (descs h ! d)" "free_cnt x < 2 ^ 64"
    using cnt x'(3) descs_okD(6) [OF heap_okD(3) [OF ok] d] by auto
  have "block_to_arena (upd_desc h d (\<lambda>y. y\<lparr>free_list := bs\<rparr>)) b = block_to_arena h b"
    using d x(1,2) by (simp add: block_to_arena_def upd_desc_def)
  then have ba: "block_to_arena (upd_desc h d (\<lambda>y. y\<lparr>free_list := bs\<rparr>)) b = Some ?a"
    using block_in_arena(2) [OF ok x(1), of b] x(2,3) by (simp add: blocks_in_def)
  have "(free_cnt x + 2 ^ 64 - 1) mod 2 ^ 64 = card (?B \<inter> set bs)" using small(2) by (simp add: cnt)
  then have run: "take_block h d = Some (b, ?h)" using fl ba x(1) by (simp add: take_block_def upd_arena_def upd_desc_def set_free_def)
  have "busy {} ?h" unfolding busy_def
  proof (intro allI impI)
    fix a y k assume a: "arena_at ?h a = Some y \<and> arena_desc y = Some k \<and> a \<notin> {}"
    then show "free_cnt y < blocks_per_arena (descs ?h ! k)"
      using busy small(1) x(1,2) by (cases "a = ?a") (auto simp: set_free_arena busy_def)
  qed
  moreover have "live h \<inter> ?B = ?B - set (b # bs)" using live_in_arena [OF ok x(1)] x(2) fl by (simp add: blocks_in_def free_in_def)
  then have lv: "live ?h = insert b (live h)" "b \<notin> live h" using live'(1) x(3) dist by auto
  moreover have "cap ?h b = desc_block_size (descs h ! d)"
  proof -
    have "arena_at ?h ?a = Some (x\<lparr>free_cnt := card (?B \<inter> set bs)\<rparr>)" using x(1) by (simp add: set_free_arena)
    from block_in_arena(4) [OF ok' this, of b] show ?thesis using x(2,3) by (simp add: blocks_in_def size_in_def)
  qed
  ultimately show ?thesis using run ok' live'(2) spare_change [OF x(1,2)] by (intro exI [of _ ?h]) (auto simp: heap_inv_def)
qed

lemma find_desc_ok:
  "find_desc ds sz \<le> length ds \<and> (find_desc ds sz < length ds \<longrightarrow> sz \<le> desc_block_size (ds ! find_desc ds sz)) \<and>
   (\<forall>i < find_desc ds sz. desc_block_size (ds ! i) < sz)"
  by (induction ds) (auto simp: nth_Cons split: nat.splits)

text \<open>The kernel pool has no \<open>n\<close> free pages in a row.\<close>

definition no_pages :: "physmem \<Rightarrow> nat \<Rightarrow> bool" where
  "no_pages m n \<longleftrightarrow> (\<forall>i. i + n \<le> bit_cnt (used_map (kernel_pool m)) \<longrightarrow> bitmap_used (used_map (kernel_pool m)) \<inter> {i..<i + n} \<noteq> {})"

definition pages_for :: "nat \<Rightarrow> nat" where
  "pages_for sz = (if sz \<le> 1024 then 1 else (sz + ARENA_SIZE + PGSIZE - 1) div PGSIZE)"

lemma find_desc_small:
  assumes "descs_ok ds"
  shows "find_desc ds sz < length ds \<longleftrightarrow> sz \<le> 1024"
proof -
  have len: "length ds = 7" using arg_cong [OF assms [unfolded descs_ok_def], of length] by (simp add: desc_table_def)
  have last: "desc_block_size (ds ! 6) = 1024" using descs_okD(2) [OF assms, of 6] len by simp
  have "desc_block_size (ds ! d) \<le> 1024" if "d < 7" for d
  proof -
    have "(2::nat) ^ d \<le> 2 ^ 6" using that by (intro power_increasing) simp_all
    then show ?thesis using descs_okD(2) [OF assms, of d] that len by simp
  qed
  then show ?thesis using find_desc_ok [of ds sz] last len
    by (metis le_less_trans le_neq_implies_less less_irrefl linorder_not_le nat_less_le one_less_numeral_iff order.strict_trans1 semiring_norm(76) lessI eval_nat_numeral(3))
qed

definition allocated :: "heap \<Rightarrow> nat \<Rightarrow> ptr \<Rightarrow> heap \<Rightarrow> bool" where
  "allocated h sz p h' \<longleftrightarrow> heap_inv h' \<and> bytes h' = bytes h \<and> p \<noteq> NULL \<and> p \<notin> live h \<and> live h' = insert p (live h) \<and> sz \<le> cap h' p \<and> (\<forall>c \<in> live h. cap h' c = cap h c) \<and> spare h' = spare h"

lemma malloc_big:
  assumes inv: "heap_inv h" and sz: "1024 < sz" "sz + ARENA_SIZE + PGSIZE \<le> 2 ^ 64"
  shows "malloc h sz = Some (NULL, h) \<and> no_pages (page_mem h) (pages_for sz) \<or> (\<exists>p h'. malloc h sz = Some (p, h') \<and> allocated h sz p h')"
proof -
  have ok: "heap_ok h" "busy {} h" using inv by (simp_all add: heap_inv_def)
  let ?n = "pages_for sz"
  have n: "big_pages sz = ?n" "0 < ?n" "sz + ARENA_SIZE \<le> PGSIZE * ?n"
    using sz by (simp_all add: big_pages_def pages_for_def PGSIZE_val ARENA_SIZE_def)
  have fd: "find_desc (descs h) sz = length (descs h)" using find_desc_small [OF heap_okD(3) [OF ok(1)]] find_desc_ok [of "descs h" sz] sz(1)
    by (metis le_neq_implies_less linorder_not_le)
  show ?thesis
  proof (cases rule: kernel_get [OF heap_okD(1) [OF ok(1)], of ?n])
    case 1
    then show ?thesis using fd sz(1) n(1) by (simp add: malloc_def no_pages_def)
  next
    case run: (2 r m')
    let ?x = "\<lparr>arena_magic = ARENA_MAGIC, arena_desc = None, free_cnt = ?n\<rparr>"
    let ?h = "set_arena h m' r (Some ?x)"
    have sp: "span ?x = ?n" by (simp add: span_def)
    have ok': "heap_ok ?h" "arena_at h r = None" using heap_ok_add [OF ok(1) run(4,5), of r ?x] run n(2) by (auto simp: sp)
    have mal: "malloc h sz = Some (r + ARENA_SIZE, ?h)" using fd sz(1) n(1) run(1,2) by (simp add: malloc_def set_arena_def)
    have bl: "blocks_in h r ?x = {r + ARENA_SIZE}" "free_in h ?x = {}" by (simp_all add: blocks_in_def free_in_def)
    have lv: "live ?h = insert (r + ARENA_SIZE) (live h)" "\<And>b. b \<in> live h \<Longrightarrow> b \<in> live ?h \<Longrightarrow> cap ?h b = cap h b"
      using live_arena [OF ok(1) ok'(1)] ok'(2) bl by auto
    have "r + ARENA_SIZE \<notin> live h" using ok'(2) run(3) round_down_in [of r ARENA_SIZE] by (simp add: live_at [OF ok(1)] ARENA_SIZE_def PGSIZE_val)
    moreover have "cap ?h (r + ARENA_SIZE) = PGSIZE * ?n - ARENA_SIZE"
      using block_in_arena(4) [OF ok'(1), of r ?x "r + ARENA_SIZE"] bl by (simp add: size_in_def)
    moreover have "busy {} ?h" using ok(2) by (auto simp: busy_def)
    moreover have "spare ?h = spare h" using spare_add [of m' h r ?x] run(6,7) ok'(2) by (simp add: sp)
    ultimately show ?thesis using mal lv ok'(1) n(3) by (auto simp: allocated_def heap_inv_def ARENA_SIZE_def)
  qed
qed

lemma new_arena_eq:
  assumes ok: "descs_ok (descs h)" and d: "d < length (descs h)" and a: "a \<noteq> NULL" "free_list (descs h ! d) = []"
  shows "new_arena (h\<lparr>page_mem := m\<rparr>) d a = Some (set_free (set_arena h m a (Some \<lparr>arena_magic = ARENA_MAGIC, arena_desc = Some d, free_cnt = 0\<rparr>)) d a
     (map (arena_block (descs h ! d) a) [0..<blocks_per_arena (descs h ! d)]))"
proof -
  let ?n = "blocks_per_arena (descs h ! d)"
  let ?h = "h\<lparr>page_mem := m, arena_at := (arena_at h)(a \<mapsto> \<lparr>arena_magic = ARENA_MAGIC, arena_desc = Some d, free_cnt = ?n\<rparr>)\<rparr>"
  have "set (map (arena_block (descs h ! d) a) [0..<?n]) = arena_blocks (descs h ! d) a" by (auto simp: arena_blocks_def)
  then have c: "card (arena_blocks (descs h ! d) a \<inter> set (map (arena_block (descs h ! d) a) [0..<?n])) = ?n" using card_arena_blocks [OF ok d] by simp
  have "new_arena (h\<lparr>page_mem := m\<rparr>) d a = add_blocks ?h d a 0 ?n" by (simp add: new_arena_def Let_def)
  also have "\<dots> = Some (upd_desc ?h d (\<lambda>y. y\<lparr>free_list := free_list y @ map (arena_block (descs ?h ! d) a) [0..<0 + ?n]\<rparr>))"
    using d a by (intro add_blocks_eq [where x = "\<lparr>arena_magic = ARENA_MAGIC, arena_desc = Some d, free_cnt = ?n\<rparr>"]) simp_all
  finally show ?thesis using a(2) c by (simp add: upd_desc_def set_free_def set_arena_def)
qed

lemma malloc_small:
  assumes inv: "heap_inv h" and sz: "0 < sz" "sz \<le> 1024"
  shows "malloc h sz = Some (NULL, h) \<and> no_pages (page_mem h) (pages_for sz) \<or> (\<exists>p h'. malloc h sz = Some (p, h') \<and> allocated h sz p h')"
proof -
  have ok: "heap_ok h" "busy {} h" using inv by (simp_all add: heap_inv_def)
  note ds = heap_okD(3) [OF ok(1)]
  define d where "d = find_desc (descs h) sz"
  have d: "d < length (descs h)" "sz \<le> desc_block_size (descs h ! d)" using find_desc_small [OF ds, of sz] find_desc_ok [of "descs h" sz] sz(2) by (simp_all add: d_def)
  have take: "\<exists>p h''. take_block h' d = Some (p, h'') \<and> allocated h sz p h''"
    if h': "heap_ok h'" "d < length (descs h')" "free_list (descs h' ! d) = b # bs" "busy {pg_round_down b} h'" "live h' = live h" "bytes h' = bytes h" "spare h' = spare h"
      "\<forall>c \<in> live h. cap h' c = cap h c" "desc_block_size (descs h' ! d) = desc_block_size (descs h ! d)" for h' b bs
  proof -
    obtain h2 where "take_block h' d = Some (b, h2)" "heap_inv h2" "live h2 = insert b (live h')" "b \<notin> live h'" "cap h2 b = desc_block_size (descs h' ! d)"
        "\<forall>c \<in> live h'. cap h2 c = cap h' c" "bytes h2 = bytes h'" "spare h2 = spare h'" using take_block_ok [OF h'(1-4)] by blast
    moreover have "b \<noteq> NULL" using live_mapped(2) [of h2 b] calculation by (simp add: heap_inv_def)
    ultimately show ?thesis using h'(5-9) d(2) by (auto simp: allocated_def)
  qed
  show ?thesis
  proof (cases "free_list (descs h ! d)")
    case (Cons b bs)
    have "busy {pg_round_down b} h" using ok(2) by (auto simp: busy_def)
    then show ?thesis using take [OF ok(1) d(1) Cons] sz(1) d(1) Cons by (simp add: malloc_def d_def [symmetric])
  next
    case Nil
    show ?thesis
    proof (cases rule: kernel_get [OF heap_okD(1) [OF ok(1)], of 1])
      case 1
      then show ?thesis using Nil sz d(1) by (simp add: malloc_def d_def [symmetric] palloc_get_page_def no_pages_def pages_for_def)
    next
      case run: (2 a m')
      let ?n = "blocks_per_arena (descs h ! d)" and ?x = "\<lparr>arena_magic = ARENA_MAGIC, arena_desc = Some d, free_cnt = 0\<rparr>"
      let ?bs = "map (arena_block (descs h ! d) a) [0..<blocks_per_arena (descs h ! d)]" and ?B = "arena_blocks (descs h ! d) a"
      let ?h1 = "set_arena h m' a (Some ?x)"
      let ?h2 = "set_free ?h1 d a ?bs"
      have sp: "span ?x = 1" by (simp add: span_def)
      have ok1: "heap_ok ?h1" "arena_at h a = None" using heap_ok_add [OF ok(1) run(4,5), of a ?x] run d(1) unfolding sp by auto
      have set: "set ?bs = ?B" "distinct ?bs" using arena_block_inj [OF ds d(1)] by (auto simp: arena_blocks_def distinct_map intro: inj_on_subset)
      have ch: "set ?bs - arena_blocks (descs ?h1 ! d) a = set (free_list (descs ?h1 ! d)) - arena_blocks (descs ?h1 ! d) a" using set Nil by simp
      have ok2: "heap_ok ?h2" using heap_ok_change [OF ok1(1) _ _ set(2) ch, of ?x] by simp
      have bl: "blocks_in h a ?x = ?B" "free_in h ?x = {}" using Nil by (simp_all add: blocks_in_def free_in_def)
      have out: "?B \<inter> live h = {}" using ok1(2) blocks_arena [OF ds d(1) run(3)] by (auto simp: live_at [OF ok(1)])
      have l1: "live ?h1 = live h \<union> ?B" "\<And>b. b \<in> live h \<Longrightarrow> cap ?h1 b = cap h b"
        using live_arena [OF ok(1) ok1(1)] ok1(2) bl by auto
      have l2: "live ?h2 = live h" "\<And>b. b \<in> live h \<Longrightarrow> cap ?h2 b = cap h b"
        using live_change [OF ok1(1) _ _ set(2) ch, of ?x] l1 set out by auto
      obtain k where k: "?n = Suc k" using descs_okD(4) [OF ds d(1)] by (cases ?n) auto
      let ?b = "arena_block (descs h ! d) a 0"
      have "[0..<?n] = 0 # [Suc 0..<?n]" by (rule upt_conv_Cons) (simp add: k)
      then have fl: "free_list (descs ?h2 ! d) = ?b # map (arena_block (descs h ! d) a) [Suc 0..<?n]"
        using d(1) by (simp add: set_free_list)
      have "pg_round_down ?b = a" using blocks_arena [OF ds d(1) run(3), of ?b] k by (auto simp: arena_blocks_def)
      then have "busy {pg_round_down ?b} ?h2" using ok(2) by (auto simp: busy_def set_free_arena split: if_splits)
      moreover have "spare ?h2 = spare h"
        using spare_change [of ?h1 a ?x d ?bs] spare_add [of m' h a ?x] run(6,7) ok1(2) unfolding sp by simp
      ultimately obtain p h' where p: "take_block ?h2 d = Some (p, h')" "allocated h sz p h'"
        using take [OF ok2 _ fl] l2 d(1) by auto
      have "new_arena (h\<lparr>page_mem := m'\<rparr>) d a = Some ?h2" using new_arena_eq [OF ds d(1) run(2) Nil] .
      then have "malloc h sz = Some (p, h')" using sz(1) d(1) Nil run(1,2) p(1) by (simp add: malloc_def d_def [symmetric] palloc_get_page_def)
      then show ?thesis using p(2) by blast
    qed
  qed
qed

lemma malloc_ok:
  assumes "heap_inv h" "0 < sz" "sz + ARENA_SIZE + PGSIZE \<le> 2 ^ 64"
  shows "malloc h sz = Some (NULL, h) \<and> no_pages (page_mem h) (pages_for sz) \<or> (\<exists>p h'. malloc h sz = Some (p, h') \<and> allocated h sz p h')"
  using malloc_small [OF assms(1,2)] malloc_big [OF assms(1) _ assms(3)] by (cases "sz \<le> 1024") auto

section \<open>Release\<close>

lemma remove_blocks_eq:
  "arena_at h a = Some x \<Longrightarrow> arena_magic x = ARENA_MAGIC \<Longrightarrow> arena_desc x = Some d \<Longrightarrow> a \<noteq> NULL \<Longrightarrow> d < length (descs h) \<Longrightarrow>
   i + n \<le> blocks_per_arena (descs h ! d) \<Longrightarrow> distinct (free_list (descs h ! d)) \<Longrightarrow> inj (arena_block (descs h ! d) a) \<Longrightarrow>
   arena_block (descs h ! d) a ` {i..<i + n} \<subseteq> set (free_list (descs h ! d)) \<Longrightarrow>
   remove_blocks h d a i n = Some (upd_desc h d (\<lambda>y. y\<lparr>free_list := filter (\<lambda>b. b \<notin> arena_block (descs h ! d) a ` {i..<i + n}) (free_list y)\<rparr>))"
proof (induction n arbitrary: h i)
  case (Suc n)
  let ?f = "arena_block (descs h ! d) a"
  let ?h = "upd_desc h d (\<lambda>y. y\<lparr>free_list := remove1 (?f i) (free_list y)\<rparr>)"
  have rng: "{i..<i + Suc n} = insert i {Suc i..<Suc i + n}" by auto
  have in_list: "?f i \<in> set (free_list (descs h ! d))" using Suc.prems(9) unfolding rng by simp
  have blk: "arena_to_block h a i = Some (?f i)" using Suc.prems by (simp add: arena_to_block_def arena_block_def)
  have same: "arena_block (descs ?h ! d) a = ?f" using Suc.prems(5) by (simp add: upd_desc_def arena_block_def fun_eq_iff)
  have sub: "?f ` {Suc i..<Suc i + n} \<subseteq> set (remove1 (?f i) (free_list (descs h ! d)))"
    using Suc.prems(7,8,9) unfolding rng by (auto simp: set_remove1_eq dest: injD)
  have "remove_blocks ?h d a (Suc i) n = Some (upd_desc ?h d (\<lambda>y. y\<lparr>free_list := filter (\<lambda>b. b \<notin> arena_block (descs ?h ! d) a ` {Suc i..<Suc i + n}) (free_list y)\<rparr>))"
    using Suc.prems sub same by (intro Suc.IH) (simp_all add: upd_desc_def distinct_remove1)
  moreover have "filter (\<lambda>b. b \<notin> ?f ` {Suc i..<Suc i + n}) (remove1 (?f i) fl) = filter (\<lambda>b. b \<notin> ?f ` {i..<i + Suc n}) fl" if "distinct fl" for fl
    unfolding rng using that by (simp add: distinct_remove1_removeAll removeAll_filter_not_eq conj_commute) (metis (mono_tags, opaque_lifting))
  ultimately show ?case using blk in_list same Suc.prems(5,7) by (simp add: upd_desc_def)
qed (simp add: upd_desc_def)

definition released :: "heap \<Rightarrow> ptr \<Rightarrow> heap \<Rightarrow> bool" where
  "released h p h' \<longleftrightarrow> heap_inv h' \<and> live h' = live h - {p} \<and> same_except (bytes h) (bytes h') {p..<p + cap h p} \<and> (\<forall>c \<in> live h'. cap h' c = cap h c) \<and> spare h' = spare h"

lemma heap_ok_bytes:
  assumes "same_except (bytes h) m A"
  shows "heap_ok (h\<lparr>bytes := m\<rparr>) = heap_ok h" "busy B (h\<lparr>bytes := m\<rparr>) = busy B h" "live (h\<lparr>bytes := m\<rparr>) = live h" "cap (h\<lparr>bytes := m\<rparr>) = cap h" "spare (h\<lparr>bytes := m\<rparr>) = spare h"
  using assms by (simp_all add: spare_def heap_ok_def lists_ok_def arena_ok_def busy_def live_def blocks_in_def free_in_def cap_def block_size_def block_to_arena_def
      same_except_def fun_eq_iff cong: option.case_cong)

lemma free_big:
  assumes inv: "heap_inv h" and p: "p \<in> live h" "arena_at h (pg_round_down p) = Some x" "arena_desc x = None"
  shows "\<exists>h'. free h p = Some h' \<and> released h p h'"
proof -
  let ?a = "pg_round_down p"
  have ok: "heap_ok h" "busy {} h" using inv by (simp_all add: heap_inv_def)
  have b: "p \<in> blocks_in h ?a x" using p by (simp add: live_at [OF ok(1)])
  have x: "?a \<noteq> NULL" "pg_ofs ?a = 0" "0 < span x" "page_run ?a (span x) \<subseteq> kernel_used (page_mem h)" "span x = free_cnt x"
    using heap_okD(5) [OF ok(1) p(2)] p(3) by (simp_all add: arena_ok_def span_def)
  obtain m where m: "palloc_free_multiple (page_mem h) ?a (free_cnt x) = Some m" "pools_ok m" "kernel_range m = kernel_range (page_mem h)"
      "kernel_used m = kernel_used (page_mem h) - page_run ?a (span x)"
    using kernel_free [OF heap_okD(1) [OF ok(1)] x(2,1,3,4)] x(5) by auto
  have bl: "blocks_in h ?a x = {p}" "free_in h x = {}" using b p(3) by (auto simp: blocks_in_def free_in_def)
  let ?h = "set_arena h m ?a None"
  have ok': "heap_ok ?h" using heap_ok_del [OF ok(1) m(2-4) p(2)] bl by simp
  have "free h p = Some ?h" using block_in_arena(2) [OF ok(1) p(2) b] p(2,3) m(1) live_mapped(2) [OF ok(1) p(1)]
    by (simp add: free_def set_arena_def)
  moreover have "live ?h = live h - {p}" "\<And>c. c \<in> live ?h \<Longrightarrow> cap ?h c = cap h c"
    using live_arena [OF ok(1) ok'] p(2) bl by auto
  moreover have "busy {} ?h" using ok(2) by (auto simp: busy_def)
  ultimately show ?thesis using ok' spare_del [OF ok(1) m(4) p(2)] by (auto simp: released_def heap_inv_def)
qed

text \<open>Putting a block on the free list, and taking all blocks of a free arena off again.\<close>

lemma push_ok:
  assumes ok: "heap_ok h" "busy {} h" and p: "p \<in> live h" "arena_at h a = Some x" "arena_desc x = Some d" "p \<in> arena_blocks (descs h ! d) a"
  defines "h1 \<equiv> set_free h d a (p # free_list (descs h ! d))"
  shows "p \<notin> set (free_list (descs h ! d))" "heap_ok h1" "busy {a} h1" "live h1 = live h - {p}" "\<And>c. c \<in> live h1 \<Longrightarrow> cap h1 c = cap h c"
    "card (arena_blocks (descs h ! d) a \<inter> set (p # free_list (descs h ! d))) = free_cnt x + 1" "free_cnt x + 1 \<le> blocks_per_arena (descs h ! d)" "spare h1 = spare h"
proof -
  let ?B = "arena_blocks (descs h ! d) a" and ?fl = "free_list (descs h ! d)"
  have x: "d < length (descs h)" "free_cnt x = card (?B \<inter> set ?fl)" using heap_okD(5) [OF ok(1) p(2)] p(3) by (simp_all add: arena_ok_def)
  have lv: "live h \<inter> ?B = ?B - set ?fl" using live_in_arena [OF ok(1) p(2)] p(3) by (simp add: blocks_in_def free_in_def)
  then show new: "p \<notin> set ?fl" using p(1,4) by blast
  have d: "distinct (p # ?fl)" "set (p # ?fl) - ?B = set ?fl - ?B" using new p(4) heap_okD(4) [OF ok(1)] x(1) by (auto simp: lists_ok_def)
  show "heap_ok h1" unfolding h1_def by (rule heap_ok_change [OF ok(1) p(2,3) d])
  have "?B \<inter> set (p # ?fl) = insert p (?B \<inter> set ?fl)" using p(4) by auto
  then show c: "card (?B \<inter> set (p # ?fl)) = free_cnt x + 1" using new x(2) by simp
  show "spare h1 = spare h" unfolding h1_def by (rule spare_change [OF p(2,3)])
  show "free_cnt x + 1 \<le> blocks_per_arena (descs h ! d)" using ok(2) p(2,3) by (auto simp: busy_def Suc_le_eq)
  show "busy {a} h1" using ok(2) by (auto simp: busy_def h1_def set_free_arena)
  show l: "live h1 = live h - {p}" unfolding h1_def live_change(1) [OF ok(1) p(2,3) d] using lv p(1,4) by auto
  show "\<And>c. c \<in> live h1 \<Longrightarrow> cap h1 c = cap h c" using live_change(2) [OF ok(1) p(2,3) d] l by (auto simp: h1_def)
qed

lemma drop_arena_ok:
  assumes ok: "heap_ok h" "busy {a} h" and a: "arena_at h a = Some x" "arena_desc x = Some d" "arena_blocks (descs h ! d) a \<subseteq> set (free_list (descs h ! d))"
  shows "\<exists>h1 h2 m. remove_blocks h d a 0 (blocks_per_arena (descs h ! d)) = Some h1 \<and> palloc_free_page (page_mem h1) a = Some m \<and>
    h2 = h1\<lparr>page_mem := m, arena_at := (arena_at h1)(a := None)\<rparr> \<and> heap_inv h2 \<and> live h2 = live h \<and> bytes h2 = bytes h \<and> (\<forall>c \<in> live h. cap h2 c = cap h c) \<and> spare h2 = spare h"
proof -
  let ?B = "arena_blocks (descs h ! d) a" and ?n = "blocks_per_arena (descs h ! d)"
  have x: "a \<noteq> NULL" "pg_ofs a = 0" "arena_magic x = ARENA_MAGIC" "d < length (descs h)" "page_run a 1 \<subseteq> kernel_used (page_mem h)" "span x = 1"
    using heap_okD(5) [OF ok(1) a(1)] a(2) by (auto simp: arena_ok_def span_def)
  let ?fl = "filter (\<lambda>b. b \<notin> ?B) (free_list (descs h ! d))"
  let ?h1 = "upd_desc h d (\<lambda>y. y\<lparr>free_list := ?fl\<rparr>)"
  have dist: "distinct (free_list (descs h ! d))" using heap_okD(4) [OF ok(1)] x(4) by (simp add: lists_ok_def)
  have img: "arena_block (descs h ! d) a ` {0..<0 + ?n} = ?B" by (simp add: arena_blocks_def lessThan_atLeast0)
  have "remove_blocks h d a 0 ?n = Some (upd_desc h d (\<lambda>y. y\<lparr>free_list := filter (\<lambda>b. b \<notin> arena_block (descs h ! d) a ` {0..<0 + ?n}) (free_list y)\<rparr>))"
    using a x dist arena_block_inj [OF heap_okD(3) [OF ok(1)] x(4)] img by (intro remove_blocks_eq) simp_all
  then have rem: "remove_blocks h d a 0 ?n = Some ?h1" unfolding img by (simp add: upd_desc_def)
  obtain m where m: "palloc_free_page (page_mem h) a = Some m" "pools_ok m" "kernel_range m = kernel_range (page_mem h)"
      "kernel_used m = kernel_used (page_mem h) - page_run a (span x)"
    using kernel_free [OF heap_okD(1) [OF ok(1)] x(2,1) _ x(5)] x(6) by (auto simp: palloc_free_page_def)
  let ?s = "set_free h d a ?fl"
  have ch: "set ?fl - ?B = set (free_list (descs h ! d)) - ?B" "distinct ?fl" using dist by auto
  note oks = heap_ok_change [OF ok(1) a(1,2) ch(2,1)] and lvs = live_change [OF ok(1) a(1,2) ch(2,1)]
  let ?y = "x\<lparr>free_cnt := card (?B \<inter> set ?fl)\<rparr>"
  have y: "arena_at ?s a = Some ?y" "span ?y = span x" using a by (simp_all add: set_free_arena span_def)
  have bl: "blocks_in ?s a ?y = ?B" "free_in ?s ?y = set ?fl" using a(2) x(4) by (simp_all add: blocks_in_def free_in_def set_free_list)
  let ?t = "set_arena ?s m a None"
  have okt: "heap_ok ?t" using heap_ok_del [OF oks _ _ _ y(1)] m(2-4) y(2) bl by auto
  note lvt = live_arena [OF oks okt, simplified]
  have "?B \<inter> live h = {}" using live_in_arena [OF ok(1) a(1)] a(2,3) by (auto simp: blocks_in_def free_in_def)
  then have lv: "live ?t = live h" using lvt(1) lvs(1) y(1) bl by auto
  moreover have "cap ?t c = cap h c" if "c \<in> live h" for c using lvt(2) [of c] lvs(2) [of c] that lv lvs(1) \<open>?B \<inter> live h = {}\<close> by auto
  moreover have "?h1\<lparr>page_mem := m, arena_at := (arena_at ?h1)(a := None)\<rparr> = ?t" by (simp add: set_arena_def set_free_def upd_desc_def)
  moreover have "heap_inv ?t" using okt ok(2) by (auto simp: heap_inv_def busy_def set_free_arena split: if_splits)
  moreover have "page_mem ?h1 = page_mem h" by (simp add: upd_desc_def)
  moreover have "spare ?t = spare h" using spare_del [OF oks _ y(1), of m] spare_change [OF a(1,2)] m(4) y(2) by simp
  ultimately show ?thesis using rem m(1) by (intro exI [of _ ?h1] exI [of _ ?t] exI [of _ m]) auto
qed

lemma free_small:
  assumes inv: "heap_inv h" and p: "p \<in> live h" "arena_at h (pg_round_down p) = Some x" "arena_desc x = Some d"
  shows "\<exists>h'. free h p = Some h' \<and> released h p h'"
proof -
  let ?a = "pg_round_down p" and ?n = "desc_block_size (descs h ! d)" and ?fl = "p # free_list (descs h ! d)"
  let ?B = "arena_blocks (descs h ! d) ?a"
  have ok: "heap_ok h" "busy {} h" using inv by (simp_all add: heap_inv_def)
  have b: "p \<in> blocks_in h ?a x" "p \<in> ?B" using p by (auto simp: live_at [OF ok(1)] blocks_in_def)
  note A = block_in_arena [OF ok(1) p(2) b(1)]
  have d: "d < length (descs h)" using heap_okD(5) [OF ok(1) p(2)] p(3) by (simp add: arena_ok_def)
  have n: "cap h p = ?n" using A(4) p(3) by (simp add: size_in_def)
  from memset_ok [of "bytes h" p ?n "0xcc"] live_mapped(1) [OF ok(1) p(1)] n
  obtain m where m: "memset (bytes h) p 0xcc ?n = Some (p, m)" "same_except (bytes h) m {p..<p + ?n}" by auto
  let ?h0 = "h\<lparr>bytes := m\<rparr>"
  note same = heap_ok_bytes [OF m(2)]
  have pre: "heap_ok ?h0" "busy {} ?h0" "p \<in> live ?h0" "arena_at ?h0 ?a = Some x" "arena_desc x = Some d" "p \<in> arena_blocks (descs ?h0 ! d) ?a"
    using same ok p b by simp_all
  let ?h1 = "set_free ?h0 d ?a ?fl"
  note P = push_ok [OF pre, simplified]
  have small: "free_cnt x + 1 < 2 ^ 64" using P(7) descs_okD(6) [OF heap_okD(3) [OF ok(1)] d] by simp
  let ?y = "x\<lparr>free_cnt := free_cnt x + 1\<rparr>"
  have h1: "?h1 = ?h0\<lparr>descs := (descs h)[d := (descs h ! d)\<lparr>free_list := ?fl\<rparr>], arena_at := (arena_at h)(?a \<mapsto> ?y)\<rparr>"
    using P(6) p(2) by (simp add: set_free_def)
  have y: "arena_at ?h1 ?a = Some ?y" unfolding h1 by simp
  have bpa: "blocks_per_arena (descs ?h1 ! d) = blocks_per_arena (descs h ! d)" by simp
  have run: "free h p = (if free_cnt x + 1 \<ge> blocks_per_arena (descs h ! d) then do {
       ASSERT (free_cnt x + 1 = blocks_per_arena (descs h ! d));
       h \<leftarrow> remove_blocks ?h1 d ?a 0 (blocks_per_arena (descs h ! d));
       m \<leftarrow> palloc_free_page (page_mem h) ?a;
       Some (h\<lparr>page_mem := m, arena_at := (arena_at h)(?a := None)\<rparr>) } else Some ?h1)"
    using A(2) p(2,3) m(1) P(1) small d live_mapped(2) [OF ok(1) p(1)]
    by (simp add: free_def free_block_def h1 upd_desc_def upd_arena_def Let_def)
  have caps: "cap ?h1 c = cap h c" if "c \<in> live ?h1" for c using P(5) that same(4) by simp
  have lv: "live ?h1 = live h - {p}" using P(4) same(3) by simp
  show ?thesis
  proof (cases "free_cnt x + 1 \<ge> blocks_per_arena (descs h ! d)")
    case False
    have "busy {} ?h1" unfolding busy_def
    proof (intro allI impI)
      fix c z k assume "arena_at ?h1 c = Some z \<and> arena_desc z = Some k \<and> c \<notin> {}"
      then show "free_cnt z < blocks_per_arena (descs ?h1 ! k)" using False y p(3) P(3) by (cases "c = ?a") (auto simp: busy_def)
    qed
    then show ?thesis using False run P(2,8) same(5) lv caps m(2) n by (auto simp: released_def heap_inv_def)
  next
    case True
    have "card (?B \<inter> set ?fl) = card ?B" using P(6,7) True card_arena_blocks [OF heap_okD(3) [OF ok(1)] d] by simp
    then have "?B \<inter> set ?fl = ?B" by (intro card_subset_eq) simp_all
    then have sub: "arena_blocks (descs ?h1 ! d) ?a \<subseteq> set (free_list (descs ?h1 ! d))" using d by (simp add: set_free_list) blast
    from drop_arena_ok [OF P(2,3) y _ sub] p(3) obtain h2 h3 m2 where
      "remove_blocks ?h1 d ?a 0 (blocks_per_arena (descs h ! d)) = Some h2" "palloc_free_page (page_mem h2) ?a = Some m2"
      "h3 = h2\<lparr>page_mem := m2, arena_at := (arena_at h2)(?a := None)\<rparr>" "heap_inv h3" "live h3 = live ?h1" "bytes h3 = m"
      "\<forall>c \<in> live ?h1. cap h3 c = cap ?h1 c" "spare h3 = spare ?h1" by auto
    then show ?thesis using run True P(7,8) same(5) lv caps m(2) n by (auto simp: released_def)
  qed
qed

lemma free_ok: "heap_inv h \<Longrightarrow> p \<in> live h \<Longrightarrow> \<exists>h'. free h p = Some h' \<and> released h p h'"
proof -
  assume a: "heap_inv h" "p \<in> live h"
  then obtain x where "arena_at h (pg_round_down p) = Some x" using live_at [of h p] by (auto simp: heap_inv_def)
  then show ?thesis using free_big [OF a] free_small [OF a] by (cases "arena_desc x") auto
qed

section \<open>The contract of an allocator\<close>

text \<open>What a client of the heap relies on: \<open>alloc\<close> returns a block that is not in use, or null; \<open>release\<close> touches no other
  block; blocks in use are mapped and do not overlap; and the bytes can be written.\<close>

locale block_alloc =
  fixes invar :: "'h \<Rightarrow> bool" and used :: "'h \<Rightarrow> ptr set" and room :: "'h \<Rightarrow> ptr \<Rightarrow> nat" and mem_of :: "'h \<Rightarrow> mem" and put :: "'h \<Rightarrow> mem \<Rightarrow> 'h"
    and alloc :: "'h \<Rightarrow> nat \<Rightarrow> (ptr \<times> 'h) option" and release :: "'h \<Rightarrow> ptr \<Rightarrow> 'h option" and limit :: nat
  assumes alloc_law: "invar h \<Longrightarrow> 0 < n \<Longrightarrow> n \<le> limit \<Longrightarrow> alloc h n = Some (NULL, h) \<or>
      (\<exists>p h'. alloc h n = Some (p, h') \<and> invar h' \<and> mem_of h' = mem_of h \<and> p \<noteq> NULL \<and> p \<notin> used h \<and> used h' = insert p (used h) \<and> n \<le> room h' p \<and>
        (\<forall>c \<in> used h. room h' c = room h c))"
    and release_law: "invar h \<Longrightarrow> p \<in> used h \<Longrightarrow>
      \<exists>h'. release h p = Some h' \<and> invar h' \<and> used h' = used h - {p} \<and> same_except (mem_of h) (mem_of h') {p..<p + room h p} \<and> (\<forall>c \<in> used h'. room h' c = room h c)"
    and apart_law: "invar h \<Longrightarrow> p \<in> used h \<Longrightarrow> q \<in> used h \<Longrightarrow> p \<noteq> q \<Longrightarrow> {p..<p + room h p} \<inter> {q..<q + room h q} = {}"
    and mapped_law: "invar h \<Longrightarrow> p \<in> used h \<Longrightarrow> p \<noteq> NULL \<and> mapped_range (mem_of h) p (room h p)"
    and put_law: "invar h \<Longrightarrow> same_except (mem_of h) m A \<Longrightarrow>
      invar (put h m) \<and> mem_of (put h m) = m \<and> used (put h m) = used h \<and> room (put h m) = room h"
begin

lemma sub_apart:
  assumes "invar h" "p \<in> used h" "q \<in> used h" "p \<noteq> q" "n \<le> room h p" "k \<le> room h q"
  shows "{p..<p + n} \<inter> {q..<q + k} = {}"
  using apart_law [OF assms(1-4)] assms(5,6) by fastforce

text \<open>A block keeps its bytes when another is written or released.\<close>

lemma keeps_bytes:
  assumes "invar h" "p \<in> used h" "q \<in> used h" "p \<noteq> q" "same_except (mem_of h) m {p..<p + n}" "n \<le> room h p" "length xs \<le> room h q" "block (mem_of h) q xs"
  shows "block m q xs"
  using block_same [OF assms(5), of q xs] sub_apart [OF assms(1,3,2) _ assms(7,6)] assms(4,8) by simp

text \<open>Moving a block: allocate, copy, release the old one.\<close>

lemma move_ok:
  assumes inv: "invar h" and old: "old \<in> used h" and n: "0 < n" "n \<le> limit"
  obtains (full) "alloc h n = Some (NULL, h)"
  | (moved) p h1 m h2 where "alloc h n = Some (p, h1)" "p \<noteq> NULL" "p \<notin> used h" "room h1 old = room h old" "memcpy (mem_of h1) p old (min n (room h old)) = Some (p, m)"
      "release (put h1 m) old = Some h2" "invar h2" "used h2 = insert p (used h - {old})" "n \<le> room h2 p" "\<forall>c \<in> used h - {old}. room h2 c = room h c"
      "\<And>xs. length xs \<le> min n (room h old) \<Longrightarrow> block (mem_of h) old xs \<Longrightarrow> block (mem_of h2) p xs"
      "\<And>c xs. c \<in> used h - {old} \<Longrightarrow> length xs \<le> room h c \<Longrightarrow> block (mem_of h) c xs \<Longrightarrow> block (mem_of h2) c xs"
proof -
  consider "alloc h n = Some (NULL, h)" | p h1 where "alloc h n = Some (p, h1)" "invar h1" "mem_of h1 = mem_of h" "p \<noteq> NULL" "p \<notin> used h" "used h1 = insert p (used h)"
      "n \<le> room h1 p" "\<forall>c \<in> used h. room h1 c = room h c" using alloc_law [OF inv n] by blast
  then show thesis
  proof cases
    case a: 2
    let ?k = "min n (room h old)"
    have po: "p \<noteq> old" using a(5) old by blast
    have ro: "room h1 old = room h old" "old \<in> used h1" "p \<in> used h1" using a old by auto
    obtain ys where ys: "length ys = ?k" "block (mem_of h1) old ys"
      using mapped_law [OF a(2) ro(2)] mapped_range_sub [of "mem_of h1" old "room h1 old" old ?k] ro(1) by (auto simp: mapped_range_ex)
    have ap: "{p..<p + ?k} \<inter> {old..<old + ?k} = {}" using sub_apart [OF a(2) ro(3,2) po] a(7) ro(1) by simp
    have ov: "p \<le> old \<or> old + ?k \<le> p"
    proof (rule ccontr)
      assume "\<not> (p \<le> old \<or> old + ?k \<le> p)"
      then have "p \<in> {p..<p + ?k} \<inter> {old..<old + ?k}" unfolding Int_iff atLeastLessThan_iff by linarith
      then show False using ap by blast
    qed
    have rng: "mapped_range (mem_of h1) p ?k" using mapped_law [OF a(2) ro(3)] mapped_range_sub [of "mem_of h1" p "room h1 p" p ?k] a(7) by simp
    obtain m where m: "memcpy (mem_of h1) p old ?k = Some (p, m)" "block m p ys" "same_except (mem_of h1) m {p..<p + ?k}"
      using memcpy_ok [OF ys(2), of p] rng ov unfolding ys(1) by blast
    let ?h = "put h1 m"
    have P: "invar ?h" "mem_of ?h = m" "used ?h = used h1" "room ?h = room h1" using put_law [OF a(2) m(3)] by blast+
    obtain h2 where h2: "release ?h old = Some h2" "invar h2" "used h2 = used h1 - {old}" "same_except m (mem_of h2) {old..<old + room h1 old}"
        "\<forall>c \<in> used h2. room h2 c = room h1 c" using release_law [OF P(1), of old] ro(2) P by auto
    have u: "used h2 = insert p (used h - {old})" using h2(3) a(6) po by auto
    have "block (mem_of h2) c xs" if "c \<in> used h - {old}" "length xs \<le> room h c" "block (mem_of h) c xs" for c xs
    proof -
      have c: "c \<in> used h1" "c \<noteq> p" "c \<noteq> old" "room h1 c = room h c" using that(1) a(5,6,8) by auto
      have "block m c xs" using keeps_bytes [OF a(2) ro(3) c(1) _ m(3), of xs] c a(3,7) that(2,3) by simp
      then show ?thesis using keeps_bytes [OF P(1), of old c "mem_of h2" "room h1 old" xs] P c ro(2) h2(4) that(2) by simp
    qed
    moreover have "block (mem_of h2) p xs" if "length xs \<le> ?k" "block (mem_of h) old xs" for xs
    proof -
      have "ys = take (length xs) ys @ drop (length xs) ys" by simp
      then have "block (mem_of h1) old (take (length xs) ys)" "block m p (take (length xs) ys)" using ys(2) m(2) by (metis block_append)+
      moreover have "length (take (length xs) ys) = length xs" using that(1) ys(1) by simp
      ultimately have "block m p xs" using block_unique [of "mem_of h1" old _ xs] that(2) a(3) by metis
      then show ?thesis using keeps_bytes [OF P(1), of old p "mem_of h2" "room h1 old" xs] P ro po h2(4) that(1) a(7) by simp
    qed
    moreover have "n \<le> room h2 p" "\<forall>c \<in> used h - {old}. room h2 c = room h c" using h2(5) u a(7,8) by auto
    ultimately show thesis using moved [OF a(1,4,5) ro(1) m(1) h2(1,2) u] by blast
  qed (use full in blast)
qed

end

definition HEAP_LIMIT :: nat where "HEAP_LIMIT = 2 ^ 64 - ARENA_SIZE - PGSIZE"

interpretation kh: block_alloc heap_inv live cap bytes "\<lambda>h m. h\<lparr>bytes := m\<rparr>" malloc free HEAP_LIMIT
proof
  fix h n assume "heap_inv h" "0 < n" "n \<le> HEAP_LIMIT"
  then show "malloc h n = Some (NULL, h) \<or> (\<exists>p h'. malloc h n = Some (p, h') \<and> heap_inv h' \<and> bytes h' = bytes h \<and> p \<noteq> NULL \<and> p \<notin> live h \<and>
      live h' = insert p (live h) \<and> n \<le> cap h' p \<and> (\<forall>c \<in> live h. cap h' c = cap h c))"
    using malloc_ok [of h n] by (auto simp: allocated_def HEAP_LIMIT_def ARENA_SIZE_def PGSIZE_val)
next
  fix h p assume "heap_inv h" "p \<in> live h"
  then show "\<exists>h'. free h p = Some h' \<and> heap_inv h' \<and> live h' = live h - {p} \<and> same_except (bytes h) (bytes h') {p..<p + cap h p} \<and> (\<forall>c \<in> live h'. cap h' c = cap h c)"
    using free_ok [of h p] by (auto simp: released_def)
next
  fix h m A assume "heap_inv h" "same_except (bytes h) m A"
  then show "heap_inv (h\<lparr>bytes := m\<rparr>) \<and> bytes (h\<lparr>bytes := m\<rparr>) = m \<and> live (h\<lparr>bytes := m\<rparr>) = live h \<and> cap (h\<lparr>bytes := m\<rparr>) = cap h"
    by (simp add: heap_inv_def heap_ok_bytes)
next
  fix h p q assume "heap_inv h" "p \<in> live h" "q \<in> live h" "p \<noteq> q"
  then show "{p..<p + cap h p} \<inter> {q..<q + cap h q} = {}" unfolding heap_inv_def using live_apart by blast
next
  fix h p assume "heap_inv h" "p \<in> live h"
  then show "p \<noteq> NULL \<and> mapped_range (bytes h) p (cap h p)" unfolding heap_inv_def using live_mapped(1,2) by blast
qed

section \<open>The other entry points\<close>

lemma calloc_ok:
  assumes inv: "heap_inv h" and n: "0 < a * b" "a * b \<le> HEAP_LIMIT"
  shows "calloc h a b = Some (NULL, h) \<and> no_pages (page_mem h) (pages_for (a * b)) \<or>
    (\<exists>p h1 h'. calloc h a b = Some (p, h') \<and> allocated h (a * b) p h1 \<and> heap_inv h' \<and> live h' = live h1 \<and> cap h' = cap h1 \<and> spare h' = spare h1 \<and>
      block (bytes h') p (replicate (a * b) 0) \<and> same_except (bytes h) (bytes h') {p..<p + a * b})"
proof -
  have lim: "a * b < 2 ^ 64" using n by (simp add: HEAP_LIMIT_def ARENA_SIZE_def PGSIZE_val)
  then have sz: "a * b mod 2 ^ 64 = a * b" "\<not> (a * b < a \<or> a * b < b)" using n(1) by (simp_all add: not_less)
  have le: "a * b + ARENA_SIZE + PGSIZE \<le> 2 ^ 64" using n(2) by (simp add: HEAP_LIMIT_def ARENA_SIZE_def PGSIZE_val)
  have c: "calloc h a b = do { (p, h) \<leftarrow> malloc h (a * b);
      if p \<noteq> NULL then do { (_, m) \<leftarrow> memset (bytes h) p 0 (a * b); Some (p, h\<lparr>bytes := m\<rparr>) } else Some (p, h) }"
    using sz(2) unfolding calloc_def Let_def sz(1) by (rule if_not_P)
  from malloc_ok [OF inv n(1) le] show ?thesis
  proof
    assume "malloc h (a * b) = Some (NULL, h) \<and> no_pages (page_mem h) (pages_for (a * b))"
    then show ?thesis by (simp add: c)
  next
    assume "\<exists>p h'. malloc h (a * b) = Some (p, h') \<and> allocated h (a * b) p h'"
    then obtain p h1 where p: "malloc h (a * b) = Some (p, h1)" "allocated h (a * b) p h1" by blast
    then have A: "heap_inv h1" "bytes h1 = bytes h" "p \<noteq> NULL" "a * b \<le> cap h1 p" "p \<in> live h1" by (auto simp: allocated_def)
    have "mapped_range (bytes h1) p (a * b)" using kh.mapped_law [OF A(1,5)] mapped_range_sub [of "bytes h1" p "cap h1 p" p "a * b"] A(4) by simp
    from memset_ok [OF this, of 0] obtain m where m: "memset (bytes h1) p 0 (a * b) = Some (p, m)" "block m p (replicate (a * b) 0)"
        "same_except (bytes h1) m {p..<p + a * b}" by blast
    have "calloc h a b = Some (p, h1\<lparr>bytes := m\<rparr>)" using p(1) m(1) A(3) by (simp add: c)
    moreover have "heap_inv (h1\<lparr>bytes := m\<rparr>)" using kh.put_law [OF A(1) m(3)] by blast
    ultimately show ?thesis using p(2) m(2,3) A(2) heap_ok_bytes [OF m(3)] by auto
  qed
qed

definition resized :: "heap \<Rightarrow> ptr \<Rightarrow> nat \<Rightarrow> ptr \<Rightarrow> heap \<Rightarrow> bool" where
  "resized h old n p h' \<longleftrightarrow> heap_inv h' \<and> p \<noteq> NULL \<and> p \<notin> live h \<and> live h' = insert p (live h - {old}) \<and> n \<le> cap h' p \<and> (\<forall>c \<in> live h - {old}. cap h' c = cap h c) \<and>
     (\<forall>xs. length xs \<le> min n (cap h old) \<and> block (bytes h) old xs \<longrightarrow> block (bytes h') p xs) \<and>
     (\<forall>c \<in> live h - {old}. \<forall>xs. length xs \<le> cap h c \<and> block (bytes h) c xs \<longrightarrow> block (bytes h') c xs)"

lemma realloc_ok:
  assumes inv: "heap_inv h" and old: "old \<in> live h" and n: "0 < n" "n \<le> HEAP_LIMIT"
  shows "realloc h old n = Some (NULL, h) \<or> (\<exists>p h'. realloc h old n = Some (p, h') \<and> resized h old n p h')"
proof -
  have o0: "old \<noteq> NULL" using kh.mapped_law [OF inv old] by blast
  have bs: "block_size h1 old = Some (cap h1 old)" if h1: "heap_inv h1" "old \<in> live h1" for h1
    using block_in_arena(3,4) [of h1] liveE [OF h1(2)] h1(1) unfolding heap_inv_def by metis
  show ?thesis
  proof (cases rule: kh.move_ok [OF inv old n])
    case 1
    then show ?thesis using n(1) by (simp add: realloc_def)
  next
    case m: (2 p h1 m h2)
    have "malloc h n \<noteq> Some (NULL, h)" using m(1,2) by auto
    then have "allocated h n p h1"
      using malloc_ok [OF inv n(1)] m(1) n(2) by (auto simp: HEAP_LIMIT_def ARENA_SIZE_def PGSIZE_val)
    then have "heap_inv h1" "old \<in> live h1" using old by (auto simp: allocated_def)
    then have "block_size h1 old = Some (cap h old)" using bs m(4) by simp
    moreover have "(if n < cap h old then n else cap h old) = min n (cap h old)" by simp
    ultimately have "realloc h old n = Some (p, h2)"
      using n(1) m(1,2,5,6) o0 unfolding realloc_def Let_def by (simp del: min_def)
    then show ?thesis using m by (auto simp: resized_def)
  qed
qed

lemma malloc_init_ok:
  assumes "pools_ok (page_mem h)" "kernel_range (page_mem h) \<subseteq> dom (bytes h)" "descs h = []" "arena_at h = Map.empty"
  shows "\<exists>h'. malloc_init h = Some h' \<and> heap_inv h' \<and> live h' = {} \<and> spare h' = kernel_used (page_mem h)"
proof -
  let ?mk = "\<lambda>(sz, n). \<lparr>desc_block_size = sz, blocks_per_arena = n, free_list = []\<rparr>"
  have "init_descs 16 [] = Some (map ?mk desc_table)"
    by (simp add: init_descs.simps desc_table_def PGSIZE_val ARENA_SIZE_def MAX_DESCS_def)
  then have i: "malloc_init h = Some (h\<lparr>descs := map ?mk desc_table\<rparr>)" using assms(3) by (simp add: malloc_init_def)
  have "map (\<lambda>d. (desc_block_size d, blocks_per_arena d)) (map ?mk desc_table) = desc_table" by (simp add: desc_table_def)
  then have "heap_inv (h\<lparr>descs := map ?mk desc_table\<rparr>)"
    using assms by (auto simp: heap_inv_def heap_ok_def descs_ok_def lists_ok_def busy_def split: prod.splits)
  moreover have "live (h\<lparr>descs := map ?mk desc_table\<rparr>) = {}" "spare (h\<lparr>descs := map ?mk desc_table\<rparr>) = kernel_used (page_mem h)"
    using assms(4) by (simp_all add: live_def spare_def)
  ultimately show ?thesis using i by blast
qed

end
