(* ===== verification/Malloc_Properties.thy ===== *)
theory Malloc_Properties
  imports Malloc_Correct
begin

text \<open>The properties of the kernel heap.\<close>

section \<open>Runs of the heap\<close>

text \<open>What the rest of the kernel does with the heap: allocate, resize, release blocks it has, and write to them.\<close>

inductive heap_step :: "heap \<Rightarrow> heap \<Rightarrow> bool" where
  Malloc: "malloc h n = Some (p, h') \<Longrightarrow> n \<le> HEAP_LIMIT \<Longrightarrow> heap_step h h'"
| Calloc: "calloc h a b = Some (p, h') \<Longrightarrow> a * b \<le> HEAP_LIMIT \<Longrightarrow> heap_step h h'"
| Realloc: "realloc h old n = Some (p, h') \<Longrightarrow> old = NULL \<or> old \<in> live h \<Longrightarrow> n \<le> HEAP_LIMIT \<Longrightarrow> heap_step h h'"
| Free: "free h p = Some h' \<Longrightarrow> p = NULL \<or> p \<in> live h \<Longrightarrow> heap_step h h'"
| Write: "same_except (bytes h) m (\<Union>p \<in> live h. {p..<p + cap h p}) \<Longrightarrow> heap_step h (h\<lparr>bytes := m\<rparr>)"

inductive_cases heap_stepE: "heap_step h h'"

lemma malloc_step: "heap_inv h \<Longrightarrow> malloc h n = Some (p, h') \<Longrightarrow> n \<le> HEAP_LIMIT \<Longrightarrow> heap_inv h' \<and> spare h' = spare h"
  using malloc_ok [of h n] by (cases "n = 0") (auto simp: malloc_def allocated_def HEAP_LIMIT_def ARENA_SIZE_def PGSIZE_val)

lemma free_step: "heap_inv h \<Longrightarrow> free h p = Some h' \<Longrightarrow> p = NULL \<or> p \<in> live h \<Longrightarrow> heap_inv h' \<and> spare h' = spare h"
  using free_ok [of h p] by (cases "p = NULL") (auto simp: free_def released_def)

lemma calloc_step:
  assumes "heap_inv h" "calloc h a b = Some (p, h')" "a * b \<le> HEAP_LIMIT"
  shows "heap_inv h' \<and> spare h' = spare h"
proof (cases "a * b = 0")
  case True
  have "malloc h 0 = Some (NULL, h)" by (simp add: malloc_def)
  then have "h' = h" using assms(2) True by (auto simp: calloc_def Let_def split: if_splits)
  then show ?thesis using assms(1) by simp
next
  case False
  then show ?thesis using calloc_ok [OF assms(1) _ assms(3)] assms(1,2) by (auto simp: allocated_def)
qed

lemma memcpy_dom: "memcpy_loop m dst src n = Some m' \<Longrightarrow> dom m' = dom m"
proof (induction n arbitrary: m dst src)
  case (Suc n)
  then obtain m1 c where "st m dst c = Some m1" "memcpy_loop m1 (dst + 1) (src + 1) n = Some m'" by (auto simp: bind_Some)
  then show ?case using Suc.IH [of m1] by (auto simp: st_def insert_absorb split: if_splits)
qed simp

lemma realloc_step:
  assumes inv: "heap_inv h" and run: "realloc h old n = Some (p, h')" and old: "old = NULL \<or> old \<in> live h" and n: "n \<le> HEAP_LIMIT"
  shows "heap_inv h' \<and> spare h' = spare h"
proof (cases "n = 0")
  case True
  then have "free h old = Some h'" using run by (auto simp: realloc_def bind_Some)
  then show ?thesis using free_step inv old by blast
next
  case False
  then obtain q h1 where m: "malloc h n = Some (q, h1)" using run by (auto simp: realloc_def bind_Some)
  have i: "heap_inv h1" "spare h1 = spare h" using malloc_step [OF inv m n] by simp_all
  show ?thesis
  proof (cases "old \<noteq> NULL \<and> q \<noteq> NULL")
    case True
    then obtain k b where c: "memcpy (bytes h1) q old k = Some b" "free (h1\<lparr>bytes := snd b\<rparr>) old = Some h'"
      using run m \<open>n \<noteq> 0\<close> by (auto simp: realloc_def bind_Some Let_def)
    have "memcpy_loop (bytes h1) q old k = Some (snd b)" using c(1) by (auto simp: memcpy_def bind_Some)
    then have "same_except (bytes h1) (snd b) UNIV" using memcpy_dom by (simp add: same_except_def)
    note keep = heap_ok_bytes [OF this]
    have inv1: "heap_inv (h1\<lparr>bytes := snd b\<rparr>)" using i(1) keep(1,2) by (simp add: heap_inv_def)
    have "old \<in> live h1" using old True malloc_ok [OF inv, of n] m n \<open>n \<noteq> 0\<close>
      by (auto simp: allocated_def HEAP_LIMIT_def ARENA_SIZE_def PGSIZE_val)
    then have "old \<in> live (h1\<lparr>bytes := snd b\<rparr>)" unfolding keep(3) .
    from free_step [OF inv1 c(2) disjI2 [OF this]] show ?thesis unfolding keep(5) i(2) .
  next
    case False
    then have "h' = h1" using run m \<open>n \<noteq> 0\<close> by (simp add: realloc_def split: if_splits)
    then show ?thesis using i by simp
  qed
qed

lemma heap_step_inv: "heap_step h h' \<Longrightarrow> heap_inv h \<Longrightarrow> heap_inv h' \<and> spare h' = spare h"
proof (induction rule: heap_step.induct)
  case (Write h m)
  then show ?case using heap_ok_bytes [OF Write(1)] by (simp add: heap_inv_def)
qed (use malloc_step calloc_step realloc_step free_step in blast)+

lemma heap_run_inv: "heap_step\<^sup>*\<^sup>* h h' \<Longrightarrow> heap_inv h \<Longrightarrow> heap_inv h' \<and> spare h' = spare h"
  by (induction rule: rtranclp_induct) (use heap_step_inv in \<open>auto\<close>)

lemma headers_apart:
  assumes "heap_ok h" "p \<in> live h" "arena_at h a = Some x"
  shows "{p..<p + cap h p} \<inter> {a..<a + ARENA_SIZE} = {}"
proof -
  obtain e y where y: "arena_at h e = Some y" "p \<in> blocks_in h e y" using liveE [OF assms(2)] by blast
  note B = block_in_arena(4,5) [OF assms(1) y]
  have ofs: "pg_ofs a = 0" "pg_ofs e = 0" "0 < span x" using heap_okD(5) [OF assms(1)] assms(3) y(1) by (auto simp: arena_ok_def)
  show ?thesis
  proof (cases "e = a")
    case True
    then show ?thesis using B by fastforce
  next
    case False
    have "{a..<a + ARENA_SIZE} \<subseteq> {a..<a + PGSIZE * span x}" using ofs(3) by (auto simp: ARENA_SIZE_def PGSIZE_val)
    then show ?thesis using runs_apart [OF ofs(2,1) heap_okD(6) [OF assms(1) y(1) assms(3) False]] B by fastforce
  qed
qed

text \<open>Every arena has a block in use.\<close>

lemma arena_has_live:
  assumes inv: "heap_inv h" and a: "arena_at h a = Some x"
  shows "live h \<inter> blocks_in h a x \<noteq> {}"
proof -
  have ok: "heap_ok h" "busy {} h" using inv by (simp_all add: heap_inv_def)
  have "\<not> blocks_in h a x \<subseteq> free_in h x"
  proof (cases "arena_desc x")
    case (Some d)
    have d: "d < length (descs h)" "free_cnt x = card (arena_blocks (descs h ! d) a \<inter> set (free_list (descs h ! d)))"
      using heap_okD(5) [OF ok(1) a] Some by (simp_all add: arena_ok_def)
    have "free_cnt x < card (arena_blocks (descs h ! d) a)" using ok(2) a Some card_arena_blocks [OF heap_okD(3) [OF ok(1)] d(1)] by (auto simp: busy_def)
    then show ?thesis using d(2) Some by (auto simp: blocks_in_def free_in_def inf_absorb1)
  qed (simp add: blocks_in_def free_in_def)
  then show ?thesis using live_in_arena [OF ok(1) a] by blast
qed

section \<open>Properties\<close>


text \<open>C14: \<open>malloc\<close> on a sound heap returns null, leaving the heap as it is, only when the kernel pool has no run of free
  pages that would hold the request; otherwise it returns a block of at least the size asked for that was not in use and
  overlaps no block in use, and it changes neither the bytes nor the sizes of the blocks in use.\<close>

theorem malloc_correct:
  assumes inv: "heap_inv h" and n: "0 < n" "n \<le> HEAP_LIMIT"
  shows "malloc h n = Some (NULL, h) \<and> no_pages (page_mem h) (pages_for n) \<or>
    (\<exists>p h'. malloc h n = Some (p, h') \<and> p \<noteq> NULL \<and> heap_inv h' \<and> p \<notin> live h \<and> live h' = insert p (live h) \<and> n \<le> cap h' p \<and> bytes h' = bytes h \<and>
      (\<forall>c \<in> live h. cap h' c = cap h c \<and> {p..<p + cap h' p} \<inter> {c..<c + cap h c} = {}))"
proof -
  have le: "n + ARENA_SIZE + PGSIZE \<le> 2 ^ 64" using n(2) by (simp add: HEAP_LIMIT_def ARENA_SIZE_def PGSIZE_val)
  have "{p..<p + cap h' p} \<inter> {c..<c + cap h c} = {}" if "allocated h n p h'" "c \<in> live h" for p h' c
  proof -
    have A: "heap_inv h'" "p \<in> live h'" "c \<in> live h'" "p \<noteq> c" "cap h' c = cap h c" using that by (auto simp: allocated_def)
    show ?thesis using kh.apart_law [OF A(1-4)] unfolding A(5) .
  qed
  then show ?thesis using malloc_ok [OF inv n(1) le] unfolding allocated_def by blast
qed

text \<open>\<open>free\<close> of a block in use returns; the block is no longer in use, all others are, with their sizes and their bytes.\<close>

theorem free_correct:
  assumes inv: "heap_inv h" and p: "p \<in> live h"
  shows "\<exists>h'. free h p = Some h' \<and> heap_inv h' \<and> live h' = live h - {p} \<and>
    (\<forall>c \<in> live h'. cap h' c = cap h c \<and> (\<forall>xs. length xs \<le> cap h c \<and> block (bytes h) c xs \<longrightarrow> block (bytes h') c xs))"
proof -
  obtain h' where h': "free h p = Some h'" "heap_inv h'" "live h' = live h - {p}" "same_except (bytes h) (bytes h') {p..<p + cap h p}" "\<forall>c \<in> live h'. cap h' c = cap h c"
    using free_ok [OF inv p] by (auto simp: released_def)
  have "block (bytes h') c xs" if "c \<in> live h'" "length xs \<le> cap h c" "block (bytes h) c xs" for c xs
    using kh.keeps_bytes [OF inv p _ _ h'(4) order_refl that(2,3)] that(1) h'(3) by auto
  then show ?thesis using h' by blast
qed

text \<open>\<open>realloc\<close> of a block in use to a size that is not 0 either fails and changes nothing, or returns a new block of that size that
  starts with the bytes of the old one, as many as both hold; the old block is released and the others keep their bytes.\<close>

theorem realloc_correct:
  assumes inv: "heap_inv h" and old: "old \<in> live h" and n: "0 < n" "n \<le> HEAP_LIMIT"
  shows "realloc h old n = Some (NULL, h) \<or>
    (\<exists>p h'. realloc h old n = Some (p, h') \<and> heap_inv h' \<and> p \<notin> live h \<and> live h' = insert p (live h - {old}) \<and> n \<le> cap h' p \<and>
      (\<forall>xs. length xs \<le> min n (cap h old) \<and> block (bytes h) old xs \<longrightarrow> block (bytes h') p xs) \<and>
      (\<forall>c \<in> live h - {old}. \<forall>xs. length xs \<le> cap h c \<and> block (bytes h) c xs \<longrightarrow> block (bytes h') c xs))"
proof (cases "realloc h old n = Some (NULL, h)")
  case False
  then obtain p h' where "realloc h old n = Some (p, h')" "resized h old n p h'" using realloc_ok [OF inv old n] by blast
  then show ?thesis by (intro disjI2 exI [of _ p] exI [of _ h']) (simp add: resized_def)
qed simp

text \<open>Error.  The size of a big block is computed modulo \<open>2 ^ 64\<close>: for the requests just below \<open>2 ^ 64\<close> the number of pages comes
  out as 0, and \<open>malloc\<close> returns a pointer that is not null although it has reserved no page.\<close>

theorem malloc_wraps:
  assumes inv: "heap_inv h" and n: "2 ^ 64 - ARENA_SIZE - PGSIZE + 1 \<le> n" "n < 2 ^ 64 - ARENA_SIZE + 1"
  shows "\<exists>p h'. malloc h n = Some (p, h') \<and> p \<noteq> NULL \<and> kernel_used (page_mem h') = kernel_used (page_mem h)"
proof -
  have ok: "heap_ok h" using inv by (simp add: heap_inv_def)
  have "(n + ARENA_SIZE + PGSIZE - 1) mod 2 ^ 64 < PGSIZE"
  proof -
    obtain k where k: "n = 2 ^ 64 - ARENA_SIZE - PGSIZE + 1 + k" using n(1) by (metis le_iff_add)
    then have "n + ARENA_SIZE + PGSIZE - 1 = 2 ^ 64 + k" "k < PGSIZE" using n(2) by (simp_all add: ARENA_SIZE_def PGSIZE_val)
    then show ?thesis by (simp add: PGSIZE_val)
  qed
  then have z: "big_pages n = 0" by (simp add: big_pages_def)
  have "\<not> n \<le> 1024" using n(1) by (simp add: ARENA_SIZE_def PGSIZE_val)
  then have fd: "find_desc (descs h) n = length (descs h)" using find_desc_small [OF heap_okD(3) [OF ok]] find_desc_ok [of "descs h" n]
    by (metis le_neq_implies_less)
  show ?thesis
  proof (cases rule: kernel_get [OF heap_okD(1) [OF ok], of 0])
    case 1
    then show ?thesis using 1(2) [of 0] by simp
  next
    case (2 r m)
    then show ?thesis using fd z \<open>\<not> n \<le> 1024\<close> by (auto simp: malloc_def page_run_def)
  qed
qed

section \<open>Witnesses\<close>

text \<open>A heap in a small machine with four kernel pages.\<close>

definition demo_boot :: heap where
  "demo_boot = \<lparr>page_mem = demo_memory, descs = [], arena_at = Map.empty, bytes = (\<lambda>_. Some 0)\<rparr>"

lemma demo_boot_ok:
  "pools_ok (page_mem demo_boot)" "kernel_range (page_mem demo_boot) \<subseteq> dom (bytes demo_boot)" "descs demo_boot = []" "arena_at demo_boot = Map.empty"
  using demo_memory_ok by (simp_all add: demo_boot_def)


text \<open>The first allocation of 100 bytes finds a page.\<close>

lemma demo_alloc: "\<exists>h p. heap_inv h \<and> p \<in> live h \<and> cap h p \<ge> 100"
proof -
  obtain h where h: "malloc_init demo_boot = Some h" "heap_inv h" using malloc_init_ok [OF demo_boot_ok] by blast
  then have "page_mem h = demo_memory" by (auto simp: malloc_init_def demo_boot_def bind_Some)
  then have "\<not> no_pages (page_mem h) 1"
    by (auto simp: no_pages_def demo_memory_def bitmap_used_def bit_at_def elem_idx_def ELEM_BITS_def intro!: exI [of _ 1])
  then show ?thesis using malloc_ok [OF h(2), of 100] by (auto simp: pages_for_def allocated_def ARENA_SIZE_def PGSIZE_val)
qed

theorem malloc_correct_witness: "\<exists>h. heap_inv h \<and> (\<exists>p h'. malloc h 100 = Some (p, h'))"
proof -
  obtain h where h: "heap_inv h" using demo_alloc by blast
  then show ?thesis using malloc_correct [OF h, of 100] by (auto simp: HEAP_LIMIT_def ARENA_SIZE_def PGSIZE_val)
qed

theorem free_correct_witness: "\<exists>h p h'. p \<in> live h \<and> free h p = Some h' \<and> p \<notin> live h'"
proof -
  obtain h p where h: "heap_inv h" "p \<in> live h" using demo_alloc by blast
  then show ?thesis using free_correct [OF h] by blast
qed

theorem realloc_correct_witness: "\<exists>h p r. p \<in> live h \<and> realloc h p 2000 = Some r"
proof -
  obtain h p where h: "heap_inv h" "p \<in> live h" using demo_alloc by blast
  then show ?thesis using realloc_correct [OF h, of 2000] by (auto simp: HEAP_LIMIT_def ARENA_SIZE_def PGSIZE_val)
qed

theorem malloc_wraps_witness: "\<exists>h p h'. malloc h (2 ^ 64 - 100) = Some (p, h') \<and> p \<noteq> NULL \<and> kernel_used (page_mem h') = kernel_used (page_mem h)"
proof -
  obtain h where h: "heap_inv h" using demo_alloc by blast
  then show ?thesis using malloc_wraps [OF h, of "2 ^ 64 - 100"] by (auto simp: ARENA_SIZE_def PGSIZE_val)
qed

end
