(* ===== verification/Syscall.thy ===== *)
theory Syscall
  imports Virtual_Memory Directory
begin

text \<open>
  System calls: \<open>userprog/syscall.c\<close>, over the virtual memory and the file system.  The state is that of the calling process
  together with the memory, the files and the console.  The kernel reads and writes user memory through the page
  table of the process; an access that faults goes through \<open>page_fault\<close> of \<open>userprog/exception.c\<close> and stops the
  kernel when the fault cannot be handled.  The bytes of a user buffer are read before the file system is called and
  written after it.  A call ends with a value, or with the exit of the process.  \<open>fd_table\<close> is the table of file
  pointers, with the numbers \<open>STDIN\<close> and \<open>STDOUT\<close> standing for the console.  Offsets of mappings are not negative.
\<close>

section \<open>State\<close>

definition FDT_PAGES :: nat where "FDT_PAGES = 3"
definition MAX_FD :: nat where "MAX_FD = FDT_PAGES * 2 ^ 9"
definition STDIN :: ptr where "STDIN = 1"
definition STDOUT :: ptr where "STDOUT = 2"

record sys =
  vmem :: "fsys vm"
  fd_table :: "ptr list"
  fd_idx :: nat
  stdin_count :: int
  stdout_count :: int
  exit_status :: int
  running_file :: ptr
  keyboard :: "8 word list"
  screen :: "8 word list"

datatype 'a outcome = Ret 'a | Exit int

abbreviation files :: "sys \<Rightarrow> fsys" where
  "files s \<equiv> fs (vmem s)"

definition set_files :: "sys \<Rightarrow> fsys \<Rightarrow> sys" where
  "set_files s f = s\<lparr>vmem := (vmem s)\<lparr>fs := f\<rparr>\<rparr>"

text \<open>The file operations that the virtual memory calls.\<close>

definition fs_ops :: "fsys file_ops" where
  "fs_ops = file_ops.make Inode.file_read_at (\<lambda>s f bs off. map_option snd (Inode.file_write_at s f bs off)) Inode.file_length Inode.file_reopen Inode.file_close"

definition lock_files :: "sys \<Rightarrow> sys option" where
  "lock_files s = do { v \<leftarrow> lock_fs (vmem s); Some (s\<lparr>vmem := v\<rparr>) }"

definition unlock_files :: "sys \<Rightarrow> sys option" where
  "unlock_files s = do { v \<leftarrow> unlock_fs (vmem s); Some (s\<lparr>vmem := v\<rparr>) }"

section \<open>User memory\<close>

definition fault :: "sys \<Rightarrow> nat \<Rightarrow> bool \<Rightarrow> bool \<Rightarrow> (bool \<times> sys) option" where
  "fault s addr wr not_present = do {
     (ok, v) \<leftarrow> vm_try_handle_fault fs_ops (vmem s) addr wr not_present;
     Some (ok, s\<lparr>vmem := v\<rparr>) }"

text \<open>\<open>page_fault\<close> on an access by the kernel: an unhandled fault ends in \<open>kill\<close>, which stops the kernel.\<close>

definition page_fault :: "sys \<Rightarrow> nat \<Rightarrow> bool \<Rightarrow> bool \<Rightarrow> sys option" where
  "page_fault s addr wr not_present = do { (ok, s) \<leftarrow> fault s addr wr not_present; ASSERT ok; Some s }"

definition pte_writable :: "sys \<Rightarrow> nat \<Rightarrow> bool option" where
  "pte_writable s addr = do {
     (pte, _) \<leftarrow> pml4e_walk (mem (vmem s)) (pml4 (vmem s)) addr False;
     Some (case pte of Some (a, i) \<Rightarrow> pages (mem (vmem s)) a i AND PTE_W \<noteq> 0 | None \<Rightarrow> False) }"

text \<open>The kernel address behind a user address; the access is repeated after a fault.\<close>

partial_function (option) user_addr :: "sys \<Rightarrow> nat \<Rightarrow> bool \<Rightarrow> (nat \<times> sys) option" where
  "user_addr s addr wr = do {
     k \<leftarrow> pml4_get_page (mem (vmem s)) (pml4 (vmem s)) addr;
     w \<leftarrow> pte_writable s addr;
     if k = NULL then do { s \<leftarrow> page_fault s addr wr True; user_addr s addr wr }
     else if wr \<and> \<not> w then do { s \<leftarrow> page_fault s addr wr False; user_addr s addr wr }
     else Some (k, s) }"

definition fetch :: "sys \<Rightarrow> nat \<Rightarrow> (8 word \<times> sys) option" where
  "fetch s addr = do {
     (k, s) \<leftarrow> user_addr s addr False;
     Some (page_bytes (mem (vmem s)) (pg_round_down k) (pg_ofs k), s) }"

definition store :: "sys \<Rightarrow> nat \<Rightarrow> 8 word \<Rightarrow> sys option" where
  "store s addr b = do {
     (k, s) \<leftarrow> user_addr s addr True;
     let p = pg_round_down k;
     let m = store_bytes (mem (vmem s)) p (map (page_bytes (mem (vmem s)) p) [0..<pg_ofs k] @ [b]);
     Some (s\<lparr>vmem := (vmem s)\<lparr>mem := m\<rparr>\<rparr>) }"

fun fetch_bytes :: "sys \<Rightarrow> nat \<Rightarrow> nat \<Rightarrow> (8 word list \<times> sys) option" where
  "fetch_bytes s addr 0 = Some ([], s)"
| "fetch_bytes s addr (Suc n) = do {
     (b, s) \<leftarrow> fetch s addr;
     (bs, s) \<leftarrow> fetch_bytes s (addr + 1) n;
     Some (b # bs, s) }"

fun put_bytes :: "sys \<Rightarrow> nat \<Rightarrow> 8 word list \<Rightarrow> sys option" where
  "put_bytes s addr [] = Some s"
| "put_bytes s addr (b # bs) = do { s \<leftarrow> store s addr b; put_bytes s (addr + 1) bs }"

partial_function (option) fetch_string :: "sys \<Rightarrow> nat \<Rightarrow> (8 word list \<times> sys) option" where
  "fetch_string s addr = do {
     (b, s) \<leftarrow> fetch s addr;
     if b = 0 then Some ([], s)
     else do { (bs, s) \<leftarrow> fetch_string s (addr + 1); Some (b # bs, s) } }"

section \<open>Checking addresses\<close>

text \<open>\<open>sys_exit\<close>; the message on the console is left out.\<close>

definition sys_exit :: "sys \<Rightarrow> int \<Rightarrow> ('a outcome \<times> sys) option" where
  "sys_exit s status = Some (Exit status, s\<lparr>exit_status := status\<rparr>)"

definition then_ret :: "('a outcome \<times> sys) option \<Rightarrow> ('a \<Rightarrow> sys \<Rightarrow> ('b outcome \<times> sys) option) \<Rightarrow> ('b outcome \<times> sys) option" where
  "then_ret m f = do { (r, s) \<leftarrow> m; case r of Ret x \<Rightarrow> f x s | Exit e \<Rightarrow> Some (Exit e, s) }"

text \<open>The argument \<open>write\<close> that \<open>check_address\<close> passes on is the function of that name, which is true.\<close>

definition check_address :: "sys \<Rightarrow> nat \<Rightarrow> (unit outcome \<times> sys) option" where
  "check_address s addr =
     (if addr = NULL \<or> \<not> is_user_vaddr addr then sys_exit s (- 1)
      else do {
        page \<leftarrow> pml4_get_page (mem (vmem s)) (pml4 (vmem s)) addr;
        if page = NULL then do {
          (ok, s) \<leftarrow> fault s addr True True;
          if \<not> ok then sys_exit s (- 1) else Some (Ret (), s) }
        else Some (Ret (), s) })"

definition check_page :: "sys \<Rightarrow> nat \<Rightarrow> bool \<Rightarrow> (unit outcome \<times> sys) option" where
  "check_page s addr wr =
     (if \<not> is_user_vaddr addr then sys_exit s (- 1)
      else do {
        page \<leftarrow> pml4_get_page (mem (vmem s)) (pml4 (vmem s)) addr;
        if page = NULL then do {
          (ok, s) \<leftarrow> fault s addr wr True;
          if \<not> ok then sys_exit s (- 1) else Some (Ret (), s) }
        else if \<not> wr then do {
          (pte, _) \<leftarrow> pml4e_walk (mem (vmem s)) (pml4 (vmem s)) addr False;
          cur_page \<leftarrow> spt_find_page (vmem s) addr;
          x \<leftarrow> page_of (vmem s) cur_page;
          w \<leftarrow> pte_writable s addr;
          if pte = None \<or> (\<not> w \<and> \<not> writable x) then sys_exit s (- 1) else Some (Ret (), s) }
        else Some (Ret (), s) })"

function check_loop :: "sys \<Rightarrow> nat \<Rightarrow> nat \<Rightarrow> bool \<Rightarrow> (unit outcome \<times> sys) option" where
  "check_loop s addr stop wr =
     (if addr \<le> stop then
        if \<not> is_user_vaddr addr then check_page s addr wr
        else do {
          (r, s) \<leftarrow> check_page s addr wr;
          case r of Ret _ \<Rightarrow> check_loop s (addr + PGSIZE) stop wr | Exit e \<Rightarrow> Some (Exit e, s) }
      else Some (Ret (), s))"
  by pat_completeness auto
termination
  by (relation "measure (\<lambda>(s, addr, stop, wr). KERN_BASE - addr)") (auto simp: is_user_vaddr_def is_kernel_vaddr_def PGSIZE_val)

declare check_loop.simps [simp del]

text \<open>\<open>buffer + size - 1\<close> is computed modulo \<open>2 ^ 64\<close>.\<close>

definition check_buffer :: "sys \<Rightarrow> nat \<Rightarrow> nat \<Rightarrow> bool \<Rightarrow> (unit outcome \<times> sys) option" where
  "check_buffer s buffer sz wr = check_loop s (pg_round_down buffer) (pg_round_down ((buffer + sz + 2 ^ 64 - 1) mod 2 ^ 64)) wr"

section \<open>File descriptors\<close>

definition valid_fd :: "int \<Rightarrow> bool" where
  "valid_fd fd \<longleftrightarrow> 0 \<le> fd \<and> fd < int MAX_FD"

abbreviation entry :: "sys \<Rightarrow> int \<Rightarrow> ptr" where
  "entry s fd \<equiv> fd_table s ! nat fd"

definition set_fd :: "sys \<Rightarrow> nat \<Rightarrow> ptr \<Rightarrow> sys" where
  "set_fd s fd f = s\<lparr>fd_table := (fd_table s)[fd := f]\<rparr>"

text \<open>\<open>process_get_file\<close> lets \<open>fd = MAX_FD\<close> through: the entry behind the table, \<open>None\<close> here.\<close>

definition process_get_file :: "sys \<Rightarrow> int \<Rightarrow> ptr option" where
  "process_get_file s fd =
     (if fd < 2 \<or> fd > int MAX_FD then Some NULL
      else if fd = int MAX_FD then None
      else Some (entry s fd))"

text \<open>The loop reads the entry at \<open>fd_idx\<close> before it tests the bound; behind the table it ends whatever it reads.\<close>

function unused_loop :: "ptr list \<Rightarrow> nat \<Rightarrow> nat" where
  "unused_loop tab i = (if i < MAX_FD \<and> tab ! i \<noteq> NULL then unused_loop tab (Suc i) else i)"
  by pat_completeness auto
termination by (relation "measure (\<lambda>(tab, i). MAX_FD - i)") auto

declare unused_loop.simps [simp del]

definition find_unused_fd :: "sys \<Rightarrow> ptr \<Rightarrow> int \<times> sys" where
  "find_unused_fd s f =
     (let i = unused_loop (fd_table s) (fd_idx s); s = s\<lparr>fd_idx := i\<rparr>
      in if i \<ge> MAX_FD then (- 1, s) else (int i, set_fd s i f))"

definition sys_open :: "sys \<Rightarrow> nat \<Rightarrow> (int outcome \<times> sys) option" where
  "sys_open s file_addr = then_ret (check_address s file_addr) (\<lambda>_ s. do {
     (name, s) \<leftarrow> fetch_string s file_addr;
     if file_addr = NULL \<or> name = [] then Some (Ret (- 1), s)
     else do {
       s \<leftarrow> lock_files s;
       (f, fsys) \<leftarrow> filesys_open (files s) (Some name);
       let s = set_files s fsys;
       if f = NULL then do { s \<leftarrow> unlock_files s; Some (Ret (- 1), s) }
       else do {
         let (fd, s) = find_unused_fd s f;
         s \<leftarrow> unlock_files s;
         Some (Ret fd, s) } } })"

definition sys_close :: "sys \<Rightarrow> int \<Rightarrow> sys option" where
  "sys_close s fd =
     (if \<not> valid_fd fd then Some s
      else do {
        let f = entry s fd;
        let s = (if f = STDIN then s\<lparr>stdin_count := stdin_count s - 1\<rparr> else s);
        let s = (if f = STDOUT then s\<lparr>stdout_count := stdout_count s - 1\<rparr> else s);
        if f = NULL \<or> f = STDIN \<or> f = STDOUT then Some (set_fd s (nat fd) NULL)
        else do {
          fsys \<leftarrow> decrease_dup_count (files s) f;
          n \<leftarrow> check_dup_count fsys f;
          fsys \<leftarrow> (if n = 0 then Inode.file_close fsys f else Some fsys);
          Some (set_fd (set_files s fsys) (nat fd) NULL) } })"

text \<open>A new descriptor outside the table reads and writes foreign memory.\<close>

definition sys_dup2 :: "sys \<Rightarrow> int \<Rightarrow> int \<Rightarrow> (int \<times> sys) option" where
  "sys_dup2 s oldfd newfd =
     (if \<not> valid_fd oldfd then Some (- 1, s)
      else if entry s oldfd = NULL then Some (- 1, s)
      else if oldfd = newfd then Some (newfd, s)
      else do {
        s \<leftarrow> (if entry s oldfd = STDIN then Some (s\<lparr>stdin_count := stdin_count s + 1\<rparr>)
              else if entry s oldfd = STDOUT then Some (s\<lparr>stdout_count := stdout_count s + 1\<rparr>)
              else do { fsys \<leftarrow> increase_dup_count (files s) (entry s oldfd); Some (set_files s fsys) });
        ASSERT (valid_fd newfd);
        s \<leftarrow> (if entry s newfd \<noteq> NULL then do {
                s \<leftarrow> lock_files s;
                s \<leftarrow> sys_close s newfd;
                unlock_files s }
              else Some s);
        Some (newfd, set_fd s (nat newfd) (entry s oldfd)) })"

definition sys_filesize :: "sys \<Rightarrow> int \<Rightarrow> int option" where
  "sys_filesize s fd =
     (if \<not> valid_fd fd then Some (- 1)
      else if entry s fd = NULL then Some (- 1)
      else map_option int (Inode.file_length (files s) (entry s fd)))"

text \<open>\<open>position\<close> is unsigned; \<open>off_t\<close> values are converted for the comparison.\<close>

definition sys_seek :: "sys \<Rightarrow> int \<Rightarrow> nat \<Rightarrow> sys option" where
  "sys_seek s fd position =
     (if \<not> valid_fd fd \<or> entry s fd = STDIN \<or> entry s fd = STDOUT then Some s
      else if entry s fd = NULL then Some s
      else do {
        len \<leftarrow> Inode.file_length (files s) (entry s fd);
        let position = (if position > len then len else position);
        fsys \<leftarrow> file_seek (files s) (entry s fd) (int position);
        Some (set_files s fsys) })"

text \<open>The result is unsigned: \<open>-1\<close> is the largest number.\<close>

definition sys_tell :: "sys \<Rightarrow> int \<Rightarrow> nat option" where
  "sys_tell s fd =
     (if \<not> valid_fd fd then Some (2 ^ 32 - 1)
      else if entry s fd = NULL then Some (2 ^ 32 - 1)
      else file_tell (files s) (entry s fd))"

section \<open>Reading and writing\<close>

definition sys_write :: "sys \<Rightarrow> int \<Rightarrow> nat \<Rightarrow> nat \<Rightarrow> (int outcome \<times> sys) option" where
  "sys_write s fd buffer sz = then_ret (check_buffer s buffer sz True) (\<lambda>_ s.
     if \<not> valid_fd fd then Some (Ret (- 1), s)
     else if entry s fd = STDOUT \<and> stdout_count s \<noteq> 0 then do {
       (bs, s) \<leftarrow> fetch_bytes s buffer sz;
       Some (Ret (int32 (int sz)), s\<lparr>screen := screen s @ bs\<rparr>) }
     else do {
       f \<leftarrow> process_get_file s fd;
       if f = NULL then Some (Ret (- 1), s)
       else do {
         s \<leftarrow> lock_files s;
         (bs, s) \<leftarrow> fetch_bytes s buffer sz;
         (n, fsys) \<leftarrow> file_write (files s) f bs;
         s \<leftarrow> unlock_files (set_files s fsys);
         Some (Ret (int n), s) } })"

text \<open>\<open>input_getc\<close> waits for a key: without one the call does not return.\<close>

definition sys_read :: "sys \<Rightarrow> int \<Rightarrow> nat \<Rightarrow> nat \<Rightarrow> (int outcome \<times> sys) option" where
  "sys_read s fd buffer sz =
     (if sz = 0 then Some (Ret 0, s)
      else then_ret (check_buffer s buffer sz False) (\<lambda>_ s.
        if \<not> valid_fd fd then Some (Ret (- 1), s)
        else if entry s fd = STDIN then
          if stdin_count s \<noteq> 0 then do {
            ASSERT (sz \<le> length (keyboard s));
            s \<leftarrow> put_bytes (s\<lparr>keyboard := drop sz (keyboard s)\<rparr>) buffer (take sz (keyboard s));
            Some (Ret (int32 (int sz)), s) }
          else Some (Ret (- 1), s)
        else if entry s fd = NULL \<or> entry s fd = STDOUT then Some (Ret (- 1), s)
        else do {
          s \<leftarrow> lock_files s;
          (bs, fsys) \<leftarrow> file_read (files s) (entry s fd) sz;
          s \<leftarrow> put_bytes (set_files s fsys) buffer bs;
          s \<leftarrow> unlock_files s;
          Some (Ret (int (length bs)), s) }))"

section \<open>Names\<close>

text \<open>\<open>sys_create\<close> takes the lock before it checks the address, so a process that exits in the check keeps it.  The
  initial size is converted to \<open>off_t\<close>.  \<open>junk\<close> is the uninitialised entry of \<open>dir_add\<close>.\<close>

definition sys_create :: "sys \<Rightarrow> nat \<Rightarrow> nat \<Rightarrow> dir_entry \<Rightarrow> (bool outcome \<times> sys) option" where
  "sys_create s file_addr initial_size junk = do {
     s \<leftarrow> lock_files s;
     then_ret (check_address s file_addr) (\<lambda>_ s.
       if file_addr = NULL then sys_exit s (- 1)
       else do {
         (name, s) \<leftarrow> fetch_string s file_addr;
         (succ, fsys) \<leftarrow> filesys_create (files s) (Some name) (int32 (int initial_size)) junk;
         s \<leftarrow> unlock_files (set_files s fsys);
         Some (Ret succ, s) }) }"

definition sys_remove :: "sys \<Rightarrow> nat \<Rightarrow> (bool outcome \<times> sys) option" where
  "sys_remove s file_addr = then_ret (check_address s file_addr) (\<lambda>_ s. do {
     s \<leftarrow> lock_files s;
     (name, s) \<leftarrow> fetch_string s file_addr;
     (succ, fsys) \<leftarrow> filesys_remove (files s) (Some name);
     s \<leftarrow> unlock_files (set_files s fsys);
     Some (Ret succ, s) })"

section \<open>Memory mappings\<close>

function pages_free :: "sys \<Rightarrow> nat \<Rightarrow> nat \<Rightarrow> bool option" where
  "pages_free s a stop =
     (if a < stop then do {
        p \<leftarrow> spt_find_page (vmem s) a;
        if p \<noteq> NULL then Some False else pages_free s (a + PGSIZE) stop }
      else Some True)"
  by pat_completeness auto
termination by (relation "measure (\<lambda>(s, a, stop). stop - a)") (auto simp: PGSIZE_val)

declare pages_free.simps [simp del]

function map_loop :: "sys \<Rightarrow> nat \<Rightarrow> nat \<Rightarrow> bool \<Rightarrow> ptr \<Rightarrow> nat \<Rightarrow> nat \<Rightarrow> (bool \<times> sys) option" where
  "map_loop s cur_addr remain_length w f cur_offset len =
     (if remain_length > 0 then do {
        let allocate_length = (if remain_length > PGSIZE then PGSIZE else remain_length);
        (a, v) \<leftarrow> do_mmap fs_ops (vmem s) cur_addr allocate_length w f cur_offset len;
        if a = NULL then Some (False, s\<lparr>vmem := v\<rparr>)
        else map_loop (s\<lparr>vmem := v\<rparr>) (cur_addr + allocate_length) (remain_length - allocate_length) w f (cur_offset + allocate_length) len }
      else Some (True, s))"
  by pat_completeness auto
termination by (relation "measure (\<lambda>(s, a, r, w, f, c, l). r)") (auto simp: PGSIZE_val Let_def split: if_splits)

declare map_loop.simps [simp del]

text \<open>The result \<open>NULL\<close> is \<open>MAP_FAILED\<close>.\<close>

definition sys_mmap :: "sys \<Rightarrow> nat \<Rightarrow> nat \<Rightarrow> bool \<Rightarrow> int \<Rightarrow> nat \<Rightarrow> (nat \<times> sys) option" where
  "sys_mmap s addr len w fd offset =
     (if addr = NULL \<or> \<not> is_user_vaddr addr \<or> addr mod PGSIZE \<noteq> 0 then Some (NULL, s)
      else if fd = 0 \<or> fd = 1 \<or> \<not> valid_fd fd then Some (NULL, s)
      else if entry s fd = NULL then Some (NULL, s)
      else do {
        x \<leftarrow> file_at (files s) (entry s fd);
        if file_inode x = NULL then Some (NULL, s)
        else if offset mod PGSIZE \<noteq> 0 then Some (NULL, s)
        else do {
          filesize \<leftarrow> sys_filesize s fd;
          if filesize = 0 \<or> len = 0 \<or> len > addr then Some (NULL, s)
          else do {
            free \<leftarrow> pages_free s addr (addr + len);
            if \<not> free then Some (NULL, s)
            else do {
              (ok, s) \<leftarrow> map_loop s addr len w (entry s fd) offset len;
              Some (if ok then addr else NULL, s) } } } })"

function unmap_loop :: "sys \<Rightarrow> nat \<Rightarrow> nat \<Rightarrow> sys option" where
  "unmap_loop s a stop =
     (if a < stop then do {
        v \<leftarrow> do_munmap fs_ops (vmem s) a;
        unmap_loop (s\<lparr>vmem := v\<rparr>) (a + PGSIZE) stop }
      else Some s)"
  by pat_completeness auto
termination by (relation "measure (\<lambda>(s, a, stop). stop - a)") (auto simp: PGSIZE_val)

declare unmap_loop.simps [simp del]

text \<open>\<open>page->file.aux\<close> of a page that has never been touched is its initialiser, a code address: \<open>None\<close>, as for no page.\<close>

definition sys_munmap :: "sys \<Rightarrow> nat \<Rightarrow> sys option" where
  "sys_munmap s addr = do {
     p \<leftarrow> spt_find_page (vmem s) addr;
     aux \<leftarrow> file_aux (vmem s) p;
     fi \<leftarrow> info_of (vmem s) aux;
     unmap_loop s addr (addr + mmap_length fi) }"

section \<open>The dispatcher\<close>

record intr_frame =
  rax :: nat
  rdi :: nat
  rsi :: nat
  rdx :: nat
  r10 :: nat
  r8 :: nat
  r9 :: nat
  frame_cs :: nat
  frame_rsp :: nat

text \<open>\<open>fork\<close>, \<open>exec\<close> and \<open>wait\<close> involve other processes: the dispatcher hands them on.\<close>

datatype call_end = Returned | Exited | Halted | Process_call

definition SEL_UCSEG :: nat where "SEL_UCSEG = 0x23"

definition int_arg :: "nat \<Rightarrow> int" where
  "int_arg a = int32 (int a)"

definition unsigned_arg :: "nat \<Rightarrow> nat" where
  "unsigned_arg a = a mod 2 ^ 32"

text \<open>The return register: an \<open>int\<close> is sign-extended.\<close>

definition ret_int :: "intr_frame \<Rightarrow> (int outcome \<times> sys) option \<Rightarrow> (call_end \<times> intr_frame \<times> sys) option" where
  "ret_int f m = do { (r, s) \<leftarrow> m; Some (case r of Ret x \<Rightarrow> (Returned, f\<lparr>rax := nat (x mod 2 ^ 64)\<rparr>, s) | Exit e \<Rightarrow> (Exited, f, s)) }"

definition ret_bool :: "intr_frame \<Rightarrow> (bool outcome \<times> sys) option \<Rightarrow> (call_end \<times> intr_frame \<times> sys) option" where
  "ret_bool f m = do { (r, s) \<leftarrow> m; Some (case r of Ret x \<Rightarrow> (Returned, f\<lparr>rax := of_bool x\<rparr>, s) | Exit e \<Rightarrow> (Exited, f, s)) }"

definition ret_void :: "intr_frame \<Rightarrow> sys option \<Rightarrow> (call_end \<times> intr_frame \<times> sys) option" where
  "ret_void f m = do { s \<leftarrow> m; Some (Returned, f, s) }"

definition syscall_handler :: "sys \<Rightarrow> intr_frame \<Rightarrow> dir_entry \<Rightarrow> (call_end \<times> intr_frame \<times> sys) option" where
  "syscall_handler s f junk =
     (let s = (if frame_cs f = SEL_UCSEG then s\<lparr>vmem := (vmem s)\<lparr>user_rsp := frame_rsp f\<rparr>\<rparr> else s); n = rax f in
      if n = 0 then Some (Halted, f, s)
      else if n = 1 then Some (Exited, f, s\<lparr>exit_status := int_arg (rdi f)\<rparr>)
      else if n = 2 \<or> n = 3 \<or> n = 4 then Some (Process_call, f, s)
      else if n = 5 then ret_bool f (sys_create s (rdi f) (unsigned_arg (rsi f)) junk)
      else if n = 6 then ret_bool f (sys_remove s (rdi f))
      else if n = 7 then ret_int f (sys_open s (rdi f))
      else if n = 8 then ret_int f (do { x \<leftarrow> sys_filesize s (int_arg (rdi f)); Some (Ret x, s) })
      else if n = 9 then ret_int f (sys_read s (int_arg (rdi f)) (rsi f) (unsigned_arg (rdx f)))
      else if n = 10 then ret_int f (sys_write s (int_arg (rdi f)) (rsi f) (unsigned_arg (rdx f)))
      else if n = 11 then ret_void f (sys_seek s (int_arg (rdi f)) (unsigned_arg (rsi f)))
      else if n = 12 then ret_int f (do { x \<leftarrow> sys_tell s (int_arg (rdi f)); Some (Ret (int x), s) })
      else if n = 13 then ret_void f (sys_close s (int_arg (rdi f)))
      else if n = 14 then do {
        ASSERT (int_arg (r8 f) \<ge> 0);
        (a, s) \<leftarrow> sys_mmap s (rdi f) (rsi f) (int_arg (rdx f) \<noteq> 0) (int_arg (r10 f)) (nat (int_arg (r8 f)));
        Some (Returned, f\<lparr>rax := a\<rparr>, s) }
      else if n = 15 then ret_void f (sys_munmap s (rdi f))
      else if n = 22 then ret_int f (do { (x, s) \<leftarrow> sys_dup2 s (int_arg (rdi f)) (int_arg (rsi f)); Some (Ret x, s) })
      else Some (Exited, f, s))"

section \<open>Descriptors of new and ending processes\<close>

text \<open>\<open>process_init\<close> writes to the table before it asserts that there is one.\<close>

definition process_init :: "sys \<Rightarrow> sys option" where
  "process_init s = do {
     (p, m) \<leftarrow> palloc_get_multiple (mem (vmem s)) {PAL_ZERO} FDT_PAGES;
     ASSERT (p \<noteq> NULL);
     Some (s\<lparr>vmem := (vmem s)\<lparr>mem := m\<rparr>, fd_table := STDIN # STDOUT # replicate (MAX_FD - 2) NULL, fd_idx := 2, stdin_count := 1, stdout_count := 1\<rparr>) }"

text \<open>The entries from 2 on of the child's table, in \<open>__do_fork\<close>.\<close>

fun fork_entries :: "fsys \<Rightarrow> ptr list \<Rightarrow> (ptr list \<times> fsys) option" where
  "fork_entries s [] = Some ([], s)"
| "fork_entries s (f # tab) = do {
     (g, s) \<leftarrow> (if f \<noteq> NULL \<and> f \<noteq> STDIN \<and> f \<noteq> STDOUT then file_duplicate s f else Some (f, s));
     (gs, s) \<leftarrow> fork_entries s tab;
     Some (g # gs, s) }"

text \<open>The part of \<open>__do_fork\<close> on descriptors, run by the child \<open>s\<close>; false is the jump to \<open>error\<close>.\<close>

definition fork_fds :: "sys \<Rightarrow> sys \<Rightarrow> (bool \<times> sys) option" where
  "fork_fds parent s = do {
     s \<leftarrow> process_init s;
     if fd_idx parent = MAX_FD then Some (False, s)
     else do {
       (gs, fsys) \<leftarrow> fork_entries (files s) (drop 2 (fd_table parent));
       Some (True, (set_files s fsys)\<lparr>fd_table := take 2 (fd_table parent) @ gs, fd_idx := fd_idx parent,
         stdin_count := stdin_count parent, stdout_count := stdout_count parent\<rparr>) } }"

fun close_loop :: "sys \<Rightarrow> nat \<Rightarrow> nat \<Rightarrow> sys option" where
  "close_loop s i 0 = Some s"
| "close_loop s i (Suc n) = do {
     s \<leftarrow> (if fd_table s ! i \<noteq> NULL then do { s \<leftarrow> sys_close s (int i); Some (set_fd s i NULL) } else Some s);
     close_loop s (Suc i) n }"

definition process_cleanup :: "sys \<Rightarrow> sys option" where
  "process_cleanup s = do {
     v \<leftarrow> supplemental_page_table_kill fs_ops (vmem s);
     if pml4 v \<noteq> NULL then do {
       m \<leftarrow> pml4_destroy (mem v) (base_pml4 v) (pml4 v);
       Some (s\<lparr>vmem := v\<lparr>mem := m, pml4 := NULL\<rparr>\<rparr>) }
     else Some (s\<lparr>vmem := v\<rparr>) }"

text \<open>\<open>process_exit\<close> up to the semaphores; \<open>table\<close> is the address of the descriptor table.\<close>

definition process_exit :: "sys \<Rightarrow> nat \<Rightarrow> sys option" where
  "process_exit s table = do {
     s \<leftarrow> (if table \<noteq> NULL then close_loop s 0 MAX_FD else Some s);
     m \<leftarrow> palloc_free_multiple (mem (vmem s)) table FDT_PAGES;
     let s = s\<lparr>vmem := (vmem s)\<lparr>mem := m\<rparr>\<rparr>;
     s \<leftarrow> (if running_file s \<noteq> NULL then do {
             fsys \<leftarrow> file_allow_write (files s) (running_file s);
             fsys \<leftarrow> Inode.file_close fsys (running_file s);
             Some (set_files s fsys) }
           else Some s);
     process_cleanup s }"

end
