(* ===== verification/File_Frame.thy ===== *)
theory File_Frame
  imports Directory
begin

text \<open>
  What the file system may do to the table of open files.  A predicate on file systems that looks at \<open>file_at\<close> and
  \<open>mallocs\<close> only, that survives handing out a block, and that survives the creation of a file in a block just handed
  out, holds after every operation that closes no file.  The laws are the locale's; the instance is the relation
  \<open>files_grow\<close>: the blocks still to come are a rest of those at the start, and every file in another block is as it was.
\<close>

named_theorems files_wp "what operations of the file system keep, as introduction rules for post"

lemma reads_files [files_wp]:
  "(\<And>i. inode_at s p = Some i \<Longrightarrow> A i) \<Longrightarrow> post A (inode_at s p)" "(\<And>x. file_at s p = Some x \<Longrightarrow> B x) \<Longrightarrow> post B (file_at s p)"
  "(\<And>d. C d) \<Longrightarrow> post C (dir_at s p)" "(\<And>bs. D bs) \<Longrightarrow> post D (disk_read s n)"
  "(\<And>r. E r) \<Longrightarrow> post E (bitmap_scan_and_flip b k m v)" "(\<And>b. F b) \<Longrightarrow> post F (bitmap_set_multiple b k m v)"
  "(\<And>r. G r) \<Longrightarrow> post G (bitmap_all b k m)" "(\<And>r. H r) \<Longrightarrow> post H (find_open s ps k)" "(\<And>r. J r) \<Longrightarrow> post J (same_name x y)"
  by (simp_all add: post_def)

text \<open>The result itself, next to what a rule says of it.\<close>

lemma post_both: "post (\<lambda>(r, s'). K s') m \<Longrightarrow> (\<And>r s'. m = Some (r, s') \<Longrightarrow> K s' \<Longrightarrow> P (r, s')) \<Longrightarrow> post P m"
  by (auto simp: post_def)

locale keeps_files =
  fixes I :: "fsys \<Rightarrow> bool"
  assumes I_cong: "file_at s' = file_at s \<Longrightarrow> mallocs s' = mallocs s \<Longrightarrow> I s \<Longrightarrow> I s'"
    and I_alloc: "I s \<Longrightarrow> mallocs s = p # ps \<Longrightarrow> I (s\<lparr>mallocs := ps\<rparr>)"
    and I_new: "I s \<Longrightarrow> mallocs s = p # ps \<Longrightarrow> p \<noteq> NULL \<Longrightarrow> I (s\<lparr>mallocs := ps, file_at := (file_at s)(p \<mapsto> x)\<rparr>)"
begin

lemma ENTRY_pos: "0 < ENTRY_SIZE" "length bs = ENTRY_SIZE \<Longrightarrow> bs \<noteq> []"
  by (auto simp: ENTRY_SIZE_def)

lemma I_fields [simp]:
  "I s \<Longrightarrow> I (s\<lparr>disk := a\<rparr>)" "I s \<Longrightarrow> I (s\<lparr>free_map := b\<rparr>)" "I s \<Longrightarrow> I (s\<lparr>open_inodes := c\<rparr>)" "I s \<Longrightarrow> I (s\<lparr>inode_at := d\<rparr>)"
  "I s \<Longrightarrow> I (s\<lparr>dir_at := e\<rparr>)" "I s \<Longrightarrow> I (s\<lparr>open_inodes := c, inode_at := d\<rparr>)"
  by (auto intro: I_cong [of _ s])

lemma I_alloc_block: "I s \<Longrightarrow> alloc_block s = (p, s') \<Longrightarrow> I s'"
  by (auto simp: alloc_block_def I_alloc split: list.splits)

lemma I_get_bounce: "I s \<Longrightarrow> get_bounce s b = (ok, s') \<Longrightarrow> I s'"
  by (auto simp: get_bounce_def I_alloc_block split: if_splits prod.splits)

lemma keeps_upd_inode [files_wp]: "I s \<Longrightarrow> (\<And>s'. I s' \<Longrightarrow> Q s') \<Longrightarrow> post Q (upd_inode s p f)"
  by (auto simp: upd_inode_def post_def bind_Some)

lemma keeps_disk_write [files_wp]: "I s \<Longrightarrow> (\<And>s'. I s' \<Longrightarrow> Q s') \<Longrightarrow> post Q (disk_write s n bs)"
  by (simp add: disk_write_def)


lemma keeps_read_loop [files_wp]: "I s \<Longrightarrow> (\<And>r s'. I s' \<Longrightarrow> Q (r, s')) \<Longrightarrow> post Q (read_loop s i sz ofs b buf)"
proof (induction sz arbitrary: s ofs b buf rule: less_induct)
  case (less sz)
  have step: "I s1 \<Longrightarrow> sz > 0 \<Longrightarrow> c > 0 \<Longrightarrow> post Q (read_loop s1 i (sz - c) ofs1 b1 buf1)" for s1 c ofs1 b1 buf1
    by (rule less.IH) (use less.prems in auto)
  show ?case
    by (subst read_loop.simps) (auto simp: Let_def less.prems split: prod.split intro!: files_wp step dest: I_get_bounce [OF less.prems(1)])
qed

lemma keeps_inode_read_at [files_wp]: "I s \<Longrightarrow> (\<And>r s'. I s' \<Longrightarrow> Q (r, s')) \<Longrightarrow> post Q (inode_read_at s p sz ofs)"
  by (auto simp: inode_read_at_def intro!: files_wp)

lemma keeps_write_loop [files_wp]: "I s \<Longrightarrow> (\<And>r s'. I s' \<Longrightarrow> Q (r, s')) \<Longrightarrow> post Q (write_loop s i buf ofs b n)"
proof (induction "length buf" arbitrary: s buf ofs b n rule: less_induct)
  case less
  have step: "I s1 \<Longrightarrow> buf \<noteq> [] \<Longrightarrow> c > 0 \<Longrightarrow> post Q (write_loop s1 i (drop c buf) ofs1 b1 n1)" for s1 c ofs1 b1 n1
    by (rule less.hyps) (use less.prems in auto)
  show ?case
    by (subst write_loop.simps) (auto simp: Let_def less.prems split: prod.split intro!: files_wp step dest: I_get_bounce [OF less.prems(1)])
qed

lemma keeps_inode_write_at [files_wp]: "I s \<Longrightarrow> (\<And>r s'. I s' \<Longrightarrow> Q (r, s')) \<Longrightarrow> post Q (inode_write_at s p buf ofs)"
  by (auto simp: inode_write_at_def intro!: files_wp)

lemma keeps_file_read_at [files_wp]: "I s \<Longrightarrow> (\<And>r s'. I s' \<Longrightarrow> Q (r, s')) \<Longrightarrow> post Q (file_read_at s f sz ofs)"
  by (auto simp: file_read_at_def intro!: files_wp)

lemma keeps_file_write_at [files_wp]: "I s \<Longrightarrow> (\<And>r s'. I s' \<Longrightarrow> Q (r, s')) \<Longrightarrow> post Q (file_write_at s f buf ofs)"
  by (auto simp: file_write_at_def intro!: files_wp)

lemma keeps_store_bitmap [files_wp]: "I s \<Longrightarrow> (\<And>r s'. I s' \<Longrightarrow> Q (r, s')) \<Longrightarrow> post Q (store_bitmap s b f)"
  by (auto simp: store_bitmap_def Let_def intro!: files_wp)

lemma keeps_free_map_allocate [files_wp]: "I s \<Longrightarrow> (\<And>r s'. I s' \<Longrightarrow> Q (r, s')) \<Longrightarrow> post Q (free_map_allocate s n)"
  by (auto simp: free_map_allocate_def Let_def split: prod.split intro!: files_wp)

lemma keeps_free_map_release [files_wp]: "I s \<Longrightarrow> (\<And>s'. I s' \<Longrightarrow> Q s') \<Longrightarrow> post Q (free_map_release s k n)"
  by (auto simp: free_map_release_def Let_def intro!: files_wp)

lemma keeps_write_zeros [files_wp]: "I s \<Longrightarrow> (\<And>s'. I s' \<Longrightarrow> Q s') \<Longrightarrow> post Q (write_zeros s k n)"
  by (induction n arbitrary: s k) (auto intro!: files_wp)

lemma keeps_inode_create [files_wp]: "I s \<Longrightarrow> (\<And>r s'. I s' \<Longrightarrow> Q (r, s')) \<Longrightarrow> post Q (inode_create s k n)"
  by (auto simp: inode_create_def Let_def split: prod.split option.split intro!: files_wp dest: I_alloc_block)

lemma keeps_inode_reopen [files_wp]: "I s \<Longrightarrow> (\<And>r s'. I s' \<Longrightarrow> Q (r, s')) \<Longrightarrow> post Q (inode_reopen s p)"
  by (auto simp: inode_reopen_def intro!: files_wp)

lemma keeps_inode_open [files_wp]: "I s \<Longrightarrow> (\<And>r s'. I s' \<Longrightarrow> Q (r, s')) \<Longrightarrow> post Q (inode_open s k)"
  by (auto simp: inode_open_def Let_def split: prod.split option.split intro!: files_wp dest: I_alloc_block)

lemma keeps_inode_close [files_wp]: "I s \<Longrightarrow> (\<And>s'. I s' \<Longrightarrow> Q s') \<Longrightarrow> post Q (inode_close s p)"
  by (auto simp: inode_close_def Let_def intro!: files_wp)

lemma keeps_inode_remove [files_wp]: "I s \<Longrightarrow> (\<And>s'. I s' \<Longrightarrow> Q s') \<Longrightarrow> post Q (inode_remove s p)"
  by (auto simp: inode_remove_def intro!: files_wp)

lemma keeps_dir_open [files_wp]: "I s \<Longrightarrow> (\<And>r s'. I s' \<Longrightarrow> Q (r, s')) \<Longrightarrow> post Q (dir_open s p)"
  by (auto simp: dir_open_def Let_def split: prod.split intro!: files_wp dest: I_alloc_block)

lemma keeps_dir_open_root [files_wp]: "I s \<Longrightarrow> (\<And>r s'. I s' \<Longrightarrow> Q (r, s')) \<Longrightarrow> post Q (dir_open_root s)"
  by (auto simp: dir_open_root_def intro!: files_wp)

lemma keeps_dir_close [files_wp]: "I s \<Longrightarrow> (\<And>s'. I s' \<Longrightarrow> Q s') \<Longrightarrow> post Q (dir_close s d)"
  by (auto simp: dir_close_def intro!: files_wp)

lemma keeps_lookup_loop [files_wp]: "I s \<Longrightarrow> (\<And>r s'. I s' \<Longrightarrow> Q (r, s')) \<Longrightarrow> post Q (lookup_loop s p name ofs)"
proof (induction "rest s p ofs" arbitrary: s ofs rule: less_induct)
  case less
  note IH = less.hyps [OF read_rest _ less.prems(2)]
  have read: "post (\<lambda>(r, s'). I s') (inode_read_at s p ENTRY_SIZE ofs)" by (rule keeps_inode_read_at) (use less.prems(1) in auto)
  show ?case
    by (subst lookup_loop.simps)
      (auto simp: Let_def intro!: post_both [OF read] reads_files IH less.prems(2) simp: ENTRY_pos dest: ENTRY_pos(2))
qed

lemma keeps_free_slot [files_wp]: "I s \<Longrightarrow> (\<And>r s'. I s' \<Longrightarrow> Q (r, s')) \<Longrightarrow> post Q (free_slot s p e ofs)"
proof (induction "rest s p ofs" arbitrary: s e ofs rule: less_induct)
  case less
  note IH = less.hyps [OF read_rest _ less.prems(2)]
  have read: "post (\<lambda>(r, s'). I s') (inode_read_at s p ENTRY_SIZE ofs)" by (rule keeps_inode_read_at) (use less.prems(1) in auto)
  show ?case
    by (subst free_slot.simps)
      (auto simp: Let_def intro!: post_both [OF read] reads_files IH less.prems(2) simp: ENTRY_pos dest: ENTRY_pos(2))
qed

lemma keeps_lookup [files_wp]: "I s \<Longrightarrow> (\<And>r s'. I s' \<Longrightarrow> Q (r, s')) \<Longrightarrow> post Q (lookup s d name)"
  by (cases name) (auto simp: lookup_def intro!: files_wp)

lemma keeps_dir_lookup [files_wp]: "I s \<Longrightarrow> (\<And>r s'. I s' \<Longrightarrow> Q (r, s')) \<Longrightarrow> post Q (dir_lookup s d name)"
  by (auto simp: dir_lookup_def split: option.split intro!: files_wp)

lemma keeps_dir_add [files_wp]: "I s \<Longrightarrow> (\<And>r s'. I s' \<Longrightarrow> Q (r, s')) \<Longrightarrow> post Q (dir_add s d name k junk)"
  by (cases name) (auto simp: dir_add_def Let_def intro!: files_wp)

lemma keeps_dir_remove [files_wp]: "I s \<Longrightarrow> (\<And>r s'. I s' \<Longrightarrow> Q (r, s')) \<Longrightarrow> post Q (dir_remove s d name)"
  by (auto simp: dir_remove_def split: option.split intro!: files_wp)

lemma keeps_filesys_create [files_wp]: "I s \<Longrightarrow> (\<And>r s'. I s' \<Longrightarrow> Q (r, s')) \<Longrightarrow> post Q (filesys_create s name n junk)"
  by (auto simp: filesys_create_def split: option.split intro!: files_wp)

lemma keeps_filesys_remove [files_wp]: "I s \<Longrightarrow> (\<And>r s'. I s' \<Longrightarrow> Q (r, s')) \<Longrightarrow> post Q (filesys_remove s name)"
  by (auto simp: filesys_remove_def intro!: files_wp)

lemma keeps_file_open [files_wp]: "I s \<Longrightarrow> (\<And>r s'. I s' \<Longrightarrow> Q (r, s')) \<Longrightarrow> post Q (file_open s p)"
  by (cases "mallocs s") (auto simp: file_open_def alloc_block_def Let_def intro!: files_wp I_new I_alloc)

lemma keeps_file_reopen [files_wp]: "I s \<Longrightarrow> (\<And>r s'. I s' \<Longrightarrow> Q (r, s')) \<Longrightarrow> post Q (file_reopen s f)"
  by (auto simp: file_reopen_def intro!: files_wp)

end

section \<open>Growing file systems\<close>

definition files_grow :: "fsys \<Rightarrow> fsys \<Rightarrow> bool" where
  "files_grow s0 s \<longleftrightarrow> (\<exists>k. mallocs s = drop k (mallocs s0)) \<and> (\<forall>f. f \<notin> set (mallocs s0) \<longrightarrow> file_at s f = file_at s0 f)"

lemma files_grow_refl [simp]: "files_grow s s"
  by (auto simp: files_grow_def intro: exI [of _ 0])

lemma files_grow_blocks: "files_grow s0 s \<Longrightarrow> set (mallocs s) \<subseteq> set (mallocs s0)"
  by (auto simp: files_grow_def dest: in_set_dropD)

lemma files_grow_file: "files_grow s0 s \<Longrightarrow> f \<notin> set (mallocs s0) \<Longrightarrow> file_at s f = file_at s0 f"
  by (simp add: files_grow_def)

lemma drop_Cons_Suc: "drop k xs = y # ys \<Longrightarrow> drop (Suc k) xs = ys"
  by (metis drop_Suc list.sel(3) tl_drop)

interpretation gr: keeps_files "files_grow s0" for s0
proof
  fix s p ps x
  assume g: "files_grow s0 s" and m: "mallocs s = p # ps"
  obtain k where k: "drop k (mallocs s0) = p # ps" using g m by (auto simp: files_grow_def)
  have p: "p \<in> set (mallocs s0)" using files_grow_blocks [OF g] m by auto
  show "files_grow s0 (s\<lparr>mallocs := ps\<rparr>)" using g drop_Cons_Suc [OF k] by (auto simp: files_grow_def intro: exI [of _ "Suc k"])
  show "files_grow s0 (s\<lparr>mallocs := ps, file_at := (file_at s)(p \<mapsto> x)\<rparr>)" using g p drop_Cons_Suc [OF k] by (auto simp: files_grow_def intro: exI [of _ "Suc k"])
qed (simp add: files_grow_def)

text \<open>The file that \<open>filesys_open\<close> returns is new.\<close>

definition new_file :: "fsys \<Rightarrow> ptr \<Rightarrow> fsys \<Rightarrow> bool" where
  "new_file s0 f s \<longleftrightarrow> f \<noteq> NULL \<and> (\<exists>k < length (mallocs s0). mallocs s0 ! k = f \<and> mallocs s = drop (Suc k) (mallocs s0)) \<and>
     (\<exists>x. file_at s f = Some x \<and> dup_count x = 1)"

lemma file_open_new: "files_grow s0 s \<Longrightarrow> (\<And>f s'. files_grow s0 s' \<Longrightarrow> f = NULL \<or> new_file s0 f s' \<Longrightarrow> Q (f, s')) \<Longrightarrow> post Q (file_open s p)"
proof (rule post_both [OF gr.keeps_file_open [of s0]])
  assume g: "files_grow s0 s" and Q: "\<And>f s'. files_grow s0 s' \<Longrightarrow> f = NULL \<or> new_file s0 f s' \<Longrightarrow> Q (f, s')"
  fix f s' assume f: "file_open s p = Some (f, s')" "files_grow s0 s'"
  obtain k where k: "mallocs s = drop k (mallocs s0)" using g by (auto simp: files_grow_def)
  show "Q (f, s')"
  proof (rule Q [OF f(2)], cases "mallocs s")
    case Nil
    then show "f = NULL \<or> new_file s0 f s'" using f(1) by (auto simp: file_open_def alloc_block_def bind_Some)
  next
    case (Cons q ps)
    have "k < length (mallocs s0)" "mallocs s0 ! k = q" "drop (Suc k) (mallocs s0) = ps"
      using Cons k drop_Cons_Suc [of k "mallocs s0" q ps] by (auto simp: nth_via_drop leI) (metis drop_all leI list.discI)
    then show "f = NULL \<or> new_file s0 f s'" using f(1) Cons
      by (auto simp: file_open_def alloc_block_def bind_Some new_file_def split: if_splits)
  qed
qed simp_all

lemma filesys_open_new: "files_grow s0 s \<Longrightarrow> post (\<lambda>(f, s'). files_grow s0 s' \<and> (f = NULL \<or> new_file s0 f s')) (filesys_open s name)"
  supply gr.keeps_file_open [files_wp del]
  by (auto simp: filesys_open_def intro!: file_open_new files_wp)

section \<open>Duplicate counts\<close>

text \<open>The blocks to come are a rest of \<open>ms\<close>, and outside \<open>ms\<close> the duplicate counts of the files are \<open>c\<close>.\<close>

definition dups :: "fsys \<Rightarrow> ptr \<Rightarrow> int option" where
  "dups s f = map_option dup_count (file_at s f)"

definition counts_to :: "(ptr \<Rightarrow> int option) \<Rightarrow> ptr list \<Rightarrow> fsys \<Rightarrow> bool" where
  "counts_to c ms s \<longleftrightarrow> (\<exists>k. mallocs s = drop k ms) \<and> (\<forall>f. f \<notin> set ms \<longrightarrow> dups s f = c f)"

lemma counts_to_self [simp]: "counts_to (dups s) (mallocs s) s"
  by (auto simp: counts_to_def intro: exI [of _ 0])

interpretation ct: keeps_files "counts_to c ms" for c ms
proof
  fix s p ps x
  assume g: "counts_to c ms s" and m: "mallocs s = p # ps"
  obtain k where k: "drop k ms = p # ps" using g m by (auto simp: counts_to_def)
  have p: "p \<in> set ms" using k by (metis in_set_dropD list.set_intros(1))
  show "counts_to c ms (s\<lparr>mallocs := ps\<rparr>)" using g drop_Cons_Suc [OF k] by (auto simp: counts_to_def dups_def intro: exI [of _ "Suc k"])
  show "counts_to c ms (s\<lparr>mallocs := ps, file_at := (file_at s)(p \<mapsto> x)\<rparr>)"
    using g p drop_Cons_Suc [OF k] by (auto simp: counts_to_def dups_def intro: exI [of _ "Suc k"])
qed (simp add: counts_to_def dups_def)

lemma counts_upd: "counts_to c ms s \<Longrightarrow> f \<notin> set ms \<Longrightarrow> counts_to (c(f := map_option dup_count x)) ms (s\<lparr>file_at := (file_at s)(f := x)\<rparr>)"
  by (auto simp: counts_to_def dups_def)

lemma counts_same: "counts_to c ms s \<Longrightarrow> file_at s f = Some x \<Longrightarrow> dup_count y = dup_count x \<Longrightarrow> counts_to c ms (s\<lparr>file_at := (file_at s)(f \<mapsto> y)\<rparr>)"
  by (auto simp: counts_to_def dups_def)

lemma counts_upd_file [files_wp]:
  "counts_to c ms s \<Longrightarrow> (\<And>x. dup_count (h x) = dup_count x) \<Longrightarrow> (\<And>s'. counts_to c ms s' \<Longrightarrow> Q s') \<Longrightarrow> post Q (upd_file s f h)"
  by (auto simp: upd_file_def intro!: files_wp counts_same)

lemma counts_file_ops [files_wp]:
  "counts_to c ms s \<Longrightarrow> (\<And>r s'. counts_to c ms s' \<Longrightarrow> A (r, s')) \<Longrightarrow> post A (file_read s f n)"
  "counts_to c ms s \<Longrightarrow> (\<And>r s'. counts_to c ms s' \<Longrightarrow> B (r, s')) \<Longrightarrow> post B (file_write s f bs)"
  "counts_to c ms s \<Longrightarrow> (\<And>s'. counts_to c ms s' \<Longrightarrow> C s') \<Longrightarrow> post C (file_seek s f k)"
  "counts_to c ms s \<Longrightarrow> (\<And>s'. counts_to c ms s' \<Longrightarrow> D s') \<Longrightarrow> post D (file_allow_write s f)"
  by (auto simp: file_read_def file_write_def file_seek_def file_allow_write_def inode_allow_write_def intro!: files_wp)

lemma counts_file_close:
  "counts_to c ms s \<Longrightarrow> f \<notin> set ms \<Longrightarrow> f \<noteq> NULL \<Longrightarrow> (\<And>s'. counts_to (c(f := None)) ms s' \<Longrightarrow> Q s') \<Longrightarrow> post Q (file_close s f)"
  using counts_upd [where x = None] by (auto simp: file_close_def intro!: files_wp)

lemma counts_at: "counts_to c ms s \<Longrightarrow> f \<notin> set ms \<Longrightarrow> file_at s f = Some x \<Longrightarrow> c f = Some (dup_count x)"
  by (auto simp: counts_to_def dups_def)

lemma counts_upd_dup:
  assumes "counts_to c ms s" "f \<notin> set ms" "\<And>x. dup_count (h x) = g (dup_count x)" "\<And>s'. counts_to (c(f := map_option g (c f))) ms s' \<Longrightarrow> A s'"
  shows "post A (upd_file s f h)"
  using counts_upd [OF assms(1,2), of "Some (h x)" for x] assms(3) counts_at [OF assms(1,2)]
  by (auto simp: upd_file_def post_def bind_Some intro!: assms(4))

lemma counts_change:
  "counts_to c ms s \<Longrightarrow> f \<notin> set ms \<Longrightarrow> (\<And>s'. counts_to (c(f := map_option (\<lambda>n. n + 1) (c f))) ms s' \<Longrightarrow> A s') \<Longrightarrow> post A (increase_dup_count s f)"
  "counts_to c ms s \<Longrightarrow> f \<notin> set ms \<Longrightarrow> (\<And>s'. counts_to (c(f := map_option (\<lambda>n. n - 1) (c f))) ms s' \<Longrightarrow> B s') \<Longrightarrow> post B (decrease_dup_count s f)"
  using counts_upd_dup [of c ms s f "\<lambda>x. x\<lparr>dup_count := dup_count x + 1\<rparr>" "\<lambda>n. n + 1" A]
    counts_upd_dup [of c ms s f "\<lambda>x. x\<lparr>dup_count := dup_count x - 1\<rparr>" "\<lambda>n. n - 1" B]
  by (simp_all add: increase_dup_count_def decrease_dup_count_def)

lemma counts_check: "counts_to c ms s \<Longrightarrow> f \<notin> set ms \<Longrightarrow> (\<And>n. c f = Some n \<Longrightarrow> A n) \<Longrightarrow> post A (check_dup_count s f)"
  by (auto simp: check_dup_count_def post_def dest: counts_at)

end
