(* ===== verification/Vm_Frame.thy ===== *)
theory Vm_Frame
  imports Virtual_Memory
begin

text \<open>
  What virtual memory may do to the file system.  A predicate on file systems that the reads, the writes and the
  reopenings keep is kept by page faults and by the creation and removal of mappings, and these leave the lock of the
  file system as they found it.
\<close>

named_theorems vm_wp "what operations of the virtual memory keep, as introduction rules for post"

definition holds_fs :: "('fs \<Rightarrow> bool) \<Rightarrow> bool \<Rightarrow> 'fs vm \<Rightarrow> bool" where
  "holds_fs J b v \<longleftrightarrow> J (fs v) \<and> filesys_lock v = b"

lemma holds_fs_fields [simp]:
  "holds_fs J b (v\<lparr>mem := m\<rparr>) = holds_fs J b v" "holds_fs J b (v\<lparr>spt := h\<rparr>) = holds_fs J b v" "holds_fs J b (v\<lparr>page_of := pm\<rparr>) = holds_fs J b v"
  "holds_fs J b (v\<lparr>frame_of := fm\<rparr>) = holds_fs J b v" "holds_fs J b (v\<lparr>info_of := im\<rparr>) = holds_fs J b v" "holds_fs J b (v\<lparr>frame_list := fl\<rparr>) = holds_fs J b v"
  "holds_fs J b (v\<lparr>swap_table := st\<rparr>) = holds_fs J b v" "holds_fs J b (v\<lparr>swap_disk := sd\<rparr>) = holds_fs J b v" "holds_fs J b (v\<lparr>mallocs := ms\<rparr>) = holds_fs J b v"
  "holds_fs J b (v\<lparr>user_rsp := n\<rparr>) = holds_fs J b v" "holds_fs J b (v\<lparr>pml4 := n\<rparr>) = holds_fs J b v" "holds_fs J b v \<Longrightarrow> J f \<Longrightarrow> holds_fs J b (v\<lparr>fs := f\<rparr>)"
  by (simp_all add: holds_fs_def)

lemma reads_vm [vm_wp]:
  "(\<And>x. A x) \<Longrightarrow> post A (page_of v p)" "(\<And>x. B x) \<Longrightarrow> post B (frame_of v p)" "(\<And>x. C x) \<Longrightarrow> post C (info_of v p)"
  "(\<And>x. D x) \<Longrightarrow> post D (spt_find_page v a)" "(\<And>x. E x) \<Longrightarrow> post E (file_aux v p)" "(\<And>x. F x) \<Longrightarrow> post F (file_length ops f q)"
  "(\<And>x. G x) \<Longrightarrow> post G (pml4_is_dirty m b a)" "(\<And>x. H x) \<Longrightarrow> post H (pml4_set_dirty m b a d)" "(\<And>x. I x) \<Longrightarrow> post I (pml4_clear_page m b a)"
  "(\<And>x. J x) \<Longrightarrow> post J (bitmap_set t n d)" "(\<And>x. K x) \<Longrightarrow> post K (bitmap_test t n)" "(\<And>x. L x) \<Longrightarrow> post L (bitmap_scan_and_flip t n k d)"
  "(\<And>x. M x) \<Longrightarrow> post M (palloc_get_page m fl)" "(\<And>x. N x) \<Longrightarrow> post N (pml4_set_page m r b a k w)" "(\<And>x. R x) \<Longrightarrow> post R (hash_insert c h e)"
  "(\<And>x. P x) \<Longrightarrow> post P (hash_delete c h e)"
  by (simp_all add: post_def)

lemma post_case_prod [simp]: "post Q (case_prod f r) = (case r of (x, y) \<Rightarrow> post Q (f x y))"
  by (cases r) simp

locale vm_frame =
  fixes ops :: "'fs file_ops" and J :: "'fs \<Rightarrow> bool" and b :: bool
  assumes J_read: "J f \<Longrightarrow> post (\<lambda>(_, f'). J f') (file_read_at ops f p n k)"
    and J_write: "J f \<Longrightarrow> post J (file_write_at ops f p bs k)"
    and J_reopen: "J f \<Longrightarrow> post (\<lambda>(_, f'). J f') (file_reopen ops f p)"
begin

lemma keeps_next_malloc [vm_wp]: "holds_fs J b v \<Longrightarrow> (\<And>r v'. holds_fs J b v' \<Longrightarrow> Q (r, v')) \<Longrightarrow> post Q (next_malloc v)"
  by (auto simp: next_malloc_def split: list.split intro!: vm_wp)

lemma keeps_upd_page [vm_wp]: "holds_fs J b v \<Longrightarrow> (\<And>v'. holds_fs J b v' \<Longrightarrow> Q v') \<Longrightarrow> post Q (upd_page v p f)"
  by (auto simp: upd_page_def intro!: vm_wp)

lemma keeps_upd_frame [vm_wp]: "holds_fs J b v \<Longrightarrow> (\<And>v'. holds_fs J b v' \<Longrightarrow> Q v') \<Longrightarrow> post Q (upd_frame v p f)"
  by (auto simp: upd_frame_def intro!: vm_wp)

lemma keeps_spt_insert_page [vm_wp]: "holds_fs J b v \<Longrightarrow> (\<And>r v'. holds_fs J b v' \<Longrightarrow> Q (r, v')) \<Longrightarrow> post Q (spt_insert_page v p)"
  by (auto simp: spt_insert_page_def intro!: vm_wp)

lemma keeps_spt_remove_page [vm_wp]: "holds_fs J b v \<Longrightarrow> (\<And>v'. holds_fs J b v' \<Longrightarrow> Q v') \<Longrightarrow> post Q (spt_remove_page v p)"
  by (auto simp: spt_remove_page_def intro!: vm_wp)

lemma keeps_vm_alloc_page_with_initializer [vm_wp]: "holds_fs J b v \<Longrightarrow> (\<And>r v'. holds_fs J b v' \<Longrightarrow> Q (r, v')) \<Longrightarrow> post Q (vm_alloc_page_with_initializer v t a w i x)"
  by (auto simp: vm_alloc_page_with_initializer_def Let_def intro!: vm_wp)

lemma keeps_vm_alloc_page [vm_wp]: "holds_fs J b v \<Longrightarrow> (\<And>r v'. holds_fs J b v' \<Longrightarrow> Q (r, v')) \<Longrightarrow> post Q (vm_alloc_page v t a w)"
  by (auto simp: vm_alloc_page_def intro!: vm_wp)

lemma keeps_anon_initializer [vm_wp]: "holds_fs J b v \<Longrightarrow> (\<And>r v'. holds_fs J b v' \<Longrightarrow> Q (r, v')) \<Longrightarrow> post Q (anon_initializer v p)"
  by (auto simp: anon_initializer_def intro!: vm_wp)

lemma holds_fold_swap [simp]:
  "holds_fs J b (fold (\<lambda>i v. swap_disk_read v (f i) a i) is v) = holds_fs J b v"
  "holds_fs J b (fold (\<lambda>i v. swap_disk_write v (f i) a i) is v) = holds_fs J b v"
  by (induction "is" arbitrary: v) (simp_all add: swap_disk_read_def swap_disk_write_def)

lemma keeps_anon_swap_in [vm_wp]: "holds_fs J b v \<Longrightarrow> (\<And>r v'. holds_fs J b v' \<Longrightarrow> Q (r, v')) \<Longrightarrow> post Q (anon_swap_in v p a)"
  by (auto simp: anon_swap_in_def Let_def split: page_data.split intro!: vm_wp)

lemma keeps_anon_swap_out [vm_wp]: "holds_fs J b v \<Longrightarrow> (\<And>r v'. holds_fs J b v' \<Longrightarrow> Q (r, v')) \<Longrightarrow> post Q (anon_swap_out v p)"
  by (auto simp: anon_swap_out_def Let_def intro!: vm_wp)

lemma keeps_file_backed_initializer [vm_wp]: "holds_fs J b v \<Longrightarrow> (\<And>r v'. holds_fs J b v' \<Longrightarrow> Q (r, v')) \<Longrightarrow> post Q (file_backed_initializer v p)"
  by (auto simp: file_backed_initializer_def split: page_data.split intro!: vm_wp)

lemma J_reads [vm_wp]:
  "J f \<Longrightarrow> (\<And>r f'. J f' \<Longrightarrow> Q (r, f')) \<Longrightarrow> post Q (file_read_at ops f p n k)"
  "J f \<Longrightarrow> (\<And>f'. J f' \<Longrightarrow> R f') \<Longrightarrow> post R (file_write_at ops f p bs k)"
  "J f \<Longrightarrow> (\<And>r f'. J f' \<Longrightarrow> S (r, f')) \<Longrightarrow> post S (file_reopen ops f p)"
  by (auto intro: post_mono [OF J_read] post_mono [OF J_write] post_mono [OF J_reopen])

lemma keeps_file_backed_swap_in [vm_wp]: "holds_fs J b v \<Longrightarrow> (\<And>r v'. holds_fs J b v' \<Longrightarrow> Q (r, v')) \<Longrightarrow> post Q (file_backed_swap_in ops v p a)"
  by (auto simp: file_backed_swap_in_def lock_fs_def unlock_fs_def Let_def holds_fs_def intro!: vm_wp)

lemma keeps_write_back [vm_wp]: "holds_fs J b v \<Longrightarrow> (\<And>v'. holds_fs J b v' \<Longrightarrow> Q v') \<Longrightarrow> post Q (write_back ops v x fi)"
  by (auto simp: write_back_def lock_fs_def unlock_fs_def Let_def holds_fs_def intro!: vm_wp)

lemma holds_fsD [simp]: "holds_fs J b v \<Longrightarrow> J (fs v)"
  by (simp add: holds_fs_def)

lemma keeps_file_backed_swap_out [vm_wp]: "holds_fs J b v \<Longrightarrow> (\<And>r v'. holds_fs J b v' \<Longrightarrow> Q (r, v')) \<Longrightarrow> post Q (file_backed_swap_out ops v p)"
  by (auto simp: file_backed_swap_out_def intro!: vm_wp)

lemma keeps_do_mmap [vm_wp]: "holds_fs J b v \<Longrightarrow> (\<And>r v'. holds_fs J b v' \<Longrightarrow> Q (r, v')) \<Longrightarrow> post Q (do_mmap ops v a n w f k l)"
  by (auto simp: do_mmap_def Let_def intro!: vm_wp)

lemma keeps_munmap_cleaner [vm_wp]: "holds_fs J b v \<Longrightarrow> (\<And>v'. holds_fs J b v' \<Longrightarrow> Q v') \<Longrightarrow> post Q (munmap_cleaner ops v p)"
  by (auto simp: munmap_cleaner_def split: page_data.split intro!: vm_wp)

lemma keeps_do_munmap [vm_wp]: "holds_fs J b v \<Longrightarrow> (\<And>v'. holds_fs J b v' \<Longrightarrow> Q v') \<Longrightarrow> post Q (do_munmap ops v a)"
  by (auto simp: do_munmap_def intro!: vm_wp)

lemma keeps_lazy_load_segment [vm_wp]: "holds_fs J b v \<Longrightarrow> (\<And>r v'. holds_fs J b v' \<Longrightarrow> Q (r, v')) \<Longrightarrow> post Q (lazy_load_segment ops v p x)"
  by (auto simp: lazy_load_segment_def Let_def intro!: vm_wp)

lemma keeps_uninit_initialize [vm_wp]: "holds_fs J b v \<Longrightarrow> (\<And>r v'. holds_fs J b v' \<Longrightarrow> Q (r, v')) \<Longrightarrow> post Q (uninit_initialize ops v p)"
  by (auto simp: uninit_initialize_def split: page_data.split vm_initializer.split page_initializer.split intro!: vm_wp)

lemma keeps_swap_in [vm_wp]: "holds_fs J b v \<Longrightarrow> (\<And>r v'. holds_fs J b v' \<Longrightarrow> Q (r, v')) \<Longrightarrow> post Q (swap_in ops v p a)"
  by (auto simp: swap_in_def intro!: vm_wp)

lemma keeps_swap_out [vm_wp]: "holds_fs J b v \<Longrightarrow> (\<And>r v'. holds_fs J b v' \<Longrightarrow> Q (r, v')) \<Longrightarrow> post Q (swap_out ops v p)"
  by (auto simp: swap_out_def intro!: vm_wp)

lemma keeps_vm_get_victim [vm_wp]: "holds_fs J b v \<Longrightarrow> (\<And>r v'. holds_fs J b v' \<Longrightarrow> Q (r, v')) \<Longrightarrow> post Q (vm_get_victim v)"
  by (auto simp: vm_get_victim_def split: list.split intro!: vm_wp)

lemma keeps_vm_evict_frame [vm_wp]: "holds_fs J b v \<Longrightarrow> (\<And>r v'. holds_fs J b v' \<Longrightarrow> Q (r, v')) \<Longrightarrow> post Q (vm_evict_frame ops v)"
  by (auto simp: vm_evict_frame_def Let_def intro!: vm_wp)

lemma keeps_vm_get_frame [vm_wp]: "holds_fs J b v \<Longrightarrow> (\<And>r v'. holds_fs J b v' \<Longrightarrow> Q (r, v')) \<Longrightarrow> post Q (vm_get_frame ops v)"
  by (auto simp: vm_get_frame_def Let_def intro!: vm_wp)

lemma keeps_vm_do_claim_page [vm_wp]: "holds_fs J b v \<Longrightarrow> (\<And>r v'. holds_fs J b v' \<Longrightarrow> Q (r, v')) \<Longrightarrow> post Q (vm_do_claim_page ops v p)"
  by (auto simp: vm_do_claim_page_def intro!: vm_wp)

lemma keeps_vm_stack_growth [vm_wp]: "holds_fs J b v \<Longrightarrow> (\<And>v'. holds_fs J b v' \<Longrightarrow> Q v') \<Longrightarrow> post Q (vm_stack_growth v a)"
  by (auto simp: vm_stack_growth_def intro!: vm_wp)

lemma keeps_vm_handle_wp [vm_wp]: "holds_fs J b v \<Longrightarrow> (\<And>r v'. holds_fs J b v' \<Longrightarrow> Q (r, v')) \<Longrightarrow> post Q (vm_handle_wp ops v p)"
  by (auto simp: vm_handle_wp_def intro!: vm_wp)

lemma keeps_vm_try_handle_fault [vm_wp]: "holds_fs J b v \<Longrightarrow> (\<And>r v'. holds_fs J b v' \<Longrightarrow> Q (r, v')) \<Longrightarrow> post Q (vm_try_handle_fault ops v a w np)"
  by (auto simp: vm_try_handle_fault_def intro!: vm_wp)

end

end
