(* ===== verification/Syscall_Correct.thy ===== *)
theory Syscall_Correct
  imports Syscall File_Frame Vm_Frame
begin

text \<open>
  File descriptors across system calls.  The invariant of a process's table: the counter in a file object is the number
  of descriptors that refer to it, the counters of the console are the numbers of descriptors that refer to it, and the
  objects are live blocks of their own.  Access to user memory keeps it, whatever page faults it takes; so does every
  system call that returns.
\<close>

section \<open>User memory\<close>

interpretation fo: vm_frame fs_ops "files_grow s0" b for s0 b
proof
  fix f p n k and bs :: "8 word list"
  assume g: "files_grow s0 f"
  show "post (\<lambda>(_, f'). files_grow s0 f') (file_ops.file_read_at fs_ops f p n k)" using g by (auto simp: fs_ops_def file_ops.make_def intro!: gr.keeps_file_read_at)
  show "post (files_grow s0) (file_ops.file_write_at fs_ops f p bs k)"
    using postD [OF gr.keeps_file_write_at [OF g], of "\<lambda>(_, f'). files_grow s0 f'" p bs k] by (auto simp: fs_ops_def file_ops.make_def post_def)
  show "post (\<lambda>(_, f'). files_grow s0 f') (file_ops.file_reopen fs_ops f p)" using g by (auto simp: fs_ops_def file_ops.make_def intro!: gr.keeps_file_reopen)
qed

named_theorems user_wp "what access to user memory keeps, as introduction rules for post"

locale user_frame =
  fixes K :: "sys \<Rightarrow> bool"
  assumes K_fault: "K s \<Longrightarrow> post (\<lambda>(_, s'). K s') (fault s a w np)"
    and K_mem: "K s \<Longrightarrow> K (s\<lparr>vmem := (vmem s)\<lparr>mem := m\<rparr>\<rparr>)"
    and K_exit: "K s \<Longrightarrow> K (s\<lparr>exit_status := e\<rparr>)"
begin

lemma keeps_fault [user_wp]: "K s \<Longrightarrow> (\<And>r s'. K s' \<Longrightarrow> Q (r, s')) \<Longrightarrow> post Q (fault s a w np)"
  by (rule post_mono [OF K_fault]) auto

lemma keeps_page_fault: "page_fault s a w np = Some s' \<Longrightarrow> K s \<Longrightarrow> K s'"
  by (auto simp: page_fault_def bind_Some dest: postD [OF K_fault])

lemma keeps_user_addr: "user_addr s a w = Some (k, s') \<Longrightarrow> K s \<Longrightarrow> K s'"
proof -
  have "K s \<longrightarrow> K (snd y)" if "user_addr s a w = Some y" for y
    using that
  proof (rule user_addr.raw_induct [rotated])
    fix f s a w y
    assume IH: "\<And>s a w y. f s a w = Some y \<Longrightarrow> K s \<longrightarrow> K (snd y)"
      and y: "Option.bind (pml4_get_page (mem (vmem s)) (pml4 (vmem s)) a) (\<lambda>k. Option.bind (pte_writable s a) (\<lambda>wr.
        if k = NULL then Option.bind (page_fault s a w True) (\<lambda>s. f s a w)
        else if w \<and> \<not> wr then Option.bind (page_fault s a w False) (\<lambda>s. f s a w) else Some (k, s))) = Some y"
    show "K s \<longrightarrow> K (snd y)" using y by (auto simp: bind_Some split: if_splits dest: IH keeps_page_fault)
  qed
  then show "user_addr s a w = Some (k, s') \<Longrightarrow> K s \<Longrightarrow> K s'" by fastforce
qed

lemma keeps_fetch: "fetch s a = Some (x, s') \<Longrightarrow> K s \<Longrightarrow> K s'"
  by (auto simp: fetch_def bind_Some dest: keeps_user_addr)

lemma keeps_store: "store s a x = Some s' \<Longrightarrow> K s \<Longrightarrow> K s'"
  by (auto simp: store_def bind_Some Let_def dest: keeps_user_addr intro!: K_mem)

lemma keeps_fetch_bytes: "fetch_bytes s a n = Some (bs, s') \<Longrightarrow> K s \<Longrightarrow> K s'"
  by (induction n arbitrary: s a bs) (auto simp: bind_Some dest: keeps_fetch)

lemma keeps_put_bytes: "put_bytes s a bs = Some s' \<Longrightarrow> K s \<Longrightarrow> K s'"
  by (induction bs arbitrary: s a) (auto simp: bind_Some dest: keeps_store)

lemma keeps_fetch_string: "fetch_string s a = Some (bs, s') \<Longrightarrow> K s \<Longrightarrow> K s'"
proof -
  have "K s \<longrightarrow> K (snd y)" if "fetch_string s a = Some y" for y
    using that
  proof (rule fetch_string.raw_induct [rotated])
    fix f s a y
    assume IH: "\<And>s a y. f s a = Some y \<Longrightarrow> K s \<longrightarrow> K (snd y)"
      and y: "Option.bind (fetch s a) (\<lambda>(b, s). if b = 0 then Some ([], s) else Option.bind (f s (a + 1)) (\<lambda>(bs, s). Some (b # bs, s))) = Some y"
    show "K s \<longrightarrow> K (snd y)" using y by (auto simp: bind_Some split: if_splits dest: IH keeps_fetch)
  qed
  then show "fetch_string s a = Some (bs, s') \<Longrightarrow> K s \<Longrightarrow> K s'" by fastforce
qed

lemma keeps_access [user_wp]:
  "K s \<Longrightarrow> (\<And>r s'. K s' \<Longrightarrow> A (r, s')) \<Longrightarrow> post A (fetch_bytes s a n)" "K s \<Longrightarrow> (\<And>s'. K s' \<Longrightarrow> B s') \<Longrightarrow> post B (put_bytes s a bs)"
  "K s \<Longrightarrow> (\<And>r s'. K s' \<Longrightarrow> C (r, s')) \<Longrightarrow> post C (fetch_string s a)"
  by (auto intro!: postI dest: keeps_fetch_bytes keeps_put_bytes keeps_fetch_string)

lemma reads_user [user_wp]: "(\<And>x. D x) \<Longrightarrow> post D (pml4_get_page m b a)" "(\<And>x. E x) \<Longrightarrow> post E (pml4e_walk m b a c)"
  "(\<And>x. F x) \<Longrightarrow> post F (pte_writable s a)" "(\<And>x. G x) \<Longrightarrow> post G (spt_find_page v a)" "(\<And>x. H x) \<Longrightarrow> post H (page_of v q)"
  by (simp_all add: post_def)

lemma keeps_check_address [user_wp]: "K s \<Longrightarrow> (\<And>r s'. K s' \<Longrightarrow> Q (r, s')) \<Longrightarrow> post Q (check_address s a)"
  by (auto simp: check_address_def sys_exit_def K_exit intro!: user_wp)

lemma keeps_check_page [user_wp]: "K s \<Longrightarrow> (\<And>r s'. K s' \<Longrightarrow> Q (r, s')) \<Longrightarrow> post Q (check_page s a w)"
  by (auto simp: check_page_def sys_exit_def K_exit intro!: user_wp)

lemma keeps_check_loop [user_wp]: "K s \<Longrightarrow> (\<And>r s'. K s' \<Longrightarrow> Q (r, s')) \<Longrightarrow> post Q (check_loop s a e w)"
proof (induction "KERN_BASE - a" arbitrary: s a rule: less_induct)
  case less
  have step: "is_user_vaddr a \<Longrightarrow> K s' \<Longrightarrow> post Q (check_loop s' (a + PGSIZE) e w)" for s'
    by (rule less.hyps) (use less.prems in \<open>auto simp: is_user_vaddr_def is_kernel_vaddr_def PGSIZE_val\<close>)
  show ?case
    by (subst check_loop.simps) (auto simp: less.prems split: outcome.split intro!: user_wp step)
qed

lemma keeps_check_buffer [user_wp]: "K s \<Longrightarrow> (\<And>r s'. K s' \<Longrightarrow> Q (r, s')) \<Longrightarrow> post Q (check_buffer s a n w)"
  by (auto simp: check_buffer_def intro!: user_wp)

end

section \<open>What user memory leaves alone\<close>

definition fds :: "sys \<Rightarrow> ptr list \<times> nat \<times> int \<times> int \<times> ptr" where
  "fds s = (fd_table s, fd_idx s, stdin_count s, stdout_count s, running_file s)"

definition kept :: "sys \<Rightarrow> sys \<Rightarrow> bool" where
  "kept s0 s \<longleftrightarrow> fds s = fds s0 \<and> holds_fs (files_grow (files s0)) (filesys_lock (vmem s0)) (vmem s)"

lemma kept_refl [simp]: "kept s s"
  by (simp add: kept_def holds_fs_def)

lemma fds_fields [simp]: "fds (s\<lparr>vmem := v\<rparr>) = fds s" "fds (s\<lparr>exit_status := e\<rparr>) = fds s" "fds (s\<lparr>keyboard := k\<rparr>) = fds s"
  "fds (s\<lparr>screen := k\<rparr>) = fds s"
  by (simp_all add: fds_def)

interpretation um: user_frame "kept s0" for s0
proof
  fix s a w np m e
  assume k: "kept s0 s"
  show "post (\<lambda>(_, s'). kept s0 s') (fault s a w np)" using k by (auto simp: fault_def kept_def intro!: vm_wp)
  show "kept s0 (s\<lparr>vmem := (vmem s)\<lparr>mem := m\<rparr>\<rparr>)" "kept s0 (s\<lparr>exit_status := e\<rparr>)" using k by (simp_all add: kept_def)
qed

section \<open>The descriptor table\<close>

text \<open>The blocks still to be handed out are no console numbers, and none comes twice.\<close>

definition blocks_ok :: "ptr list \<Rightarrow> bool" where
  "blocks_ok ms \<longleftrightarrow> distinct (filter (\<lambda>p. p \<noteq> NULL) ms) \<and> STDIN \<notin> set ms \<and> STDOUT \<notin> set ms"

definition is_object :: "ptr \<Rightarrow> bool" where
  "is_object f \<longleftrightarrow> f \<noteq> NULL \<and> f \<noteq> STDIN \<and> f \<noteq> STDOUT"

text \<open>\<open>e\<close> lists references that the counters already include and the table does not hold yet.\<close>

definition fds_ok :: "ptr list \<Rightarrow> sys \<Rightarrow> bool" where
  "fds_ok e s \<longleftrightarrow> length (fd_table s) = MAX_FD \<and> fd_idx s \<le> MAX_FD \<and> blocks_ok (mallocs (files s)) \<and>
     stdin_count s = int (count_list (fd_table s @ e) STDIN) \<and> stdout_count s = int (count_list (fd_table s @ e) STDOUT) \<and>
     (\<forall>f \<in> set (fd_table s @ e). is_object f \<longrightarrow> f \<notin> set (mallocs (files s)) \<and>
        (\<exists>x. file_at (files s) f = Some x \<and> dup_count x = int (count_list (fd_table s @ e) f)))"

abbreviation fd_inv :: "sys \<Rightarrow> bool" where
  "fd_inv s \<equiv> fds_ok [] s"

lemma blocks_ok_drop: "blocks_ok ms \<Longrightarrow> blocks_ok (drop k ms)"
  unfolding blocks_ok_def by (metis append_take_drop_id distinct_append filter_append in_set_dropD)

lemma fds_okI:
  assumes "fds_ok e0 s" "counts_to c (mallocs (files s)) (files s')" "length (fd_table s') = MAX_FD" "fd_idx s' \<le> MAX_FD"
    "stdin_count s' = int (count_list (fd_table s' @ e) STDIN)" "stdout_count s' = int (count_list (fd_table s' @ e) STDOUT)"
    "\<And>f. f \<in> set (fd_table s' @ e) \<Longrightarrow> is_object f \<Longrightarrow> f \<notin> set (mallocs (files s)) \<and> c f = Some (int (count_list (fd_table s' @ e) f))"
  shows "fds_ok e s'"
proof -
  obtain k where k: "mallocs (files s') = drop k (mallocs (files s))" using assms(2) by (auto simp: counts_to_def)
  have "f \<notin> set (mallocs (files s')) \<and> (\<exists>x. file_at (files s') f = Some x \<and> dup_count x = int (count_list (fd_table s' @ e) f))"
    if "f \<in> set (fd_table s' @ e)" "is_object f" for f
    using assms(7) [OF that] assms(2) k by (auto simp: counts_to_def dups_def dest: in_set_dropD)
  then show ?thesis using assms k unfolding fds_ok_def by (simp add: blocks_ok_drop)
qed

lemma fds_ok_object:
  "fds_ok e s \<Longrightarrow> f \<in> set (fd_table s @ e) \<Longrightarrow> is_object f \<Longrightarrow> f \<notin> set (mallocs (files s)) \<and> dups (files s) f = Some (int (count_list (fd_table s @ e) f))"
  unfolding fds_ok_def dups_def by fastforce

lemma fds_ok_fields: "fds_ok e s \<Longrightarrow> length (fd_table s) = MAX_FD" "fds_ok e s \<Longrightarrow> fd_idx s \<le> MAX_FD" "fds_ok e s \<Longrightarrow> blocks_ok (mallocs (files s))"
  "fds_ok e s \<Longrightarrow> stdin_count s = int (count_list (fd_table s @ e) STDIN)" "fds_ok e s \<Longrightarrow> stdout_count s = int (count_list (fd_table s @ e) STDOUT)"
  by (auto simp: fds_ok_def)

text \<open>The same table over a file system with the same counts.\<close>

lemma fds_ok_same:
  assumes ok: "fds_ok e s" and "fds s' = fds s" and c: "counts_to (dups (files s)) (mallocs (files s)) (files s')"
  shows "fds_ok e s'"
  by (rule fds_okI [OF ok c]) (use fds_ok_object [OF ok] fds_ok_fields [OF ok] assms(2) in \<open>simp_all add: fds_def\<close>)

lemma kept_counts: "kept s s' \<Longrightarrow> counts_to (dups (files s)) (mallocs (files s)) (files s')"
  by (auto simp: kept_def holds_fs_def files_grow_def counts_to_def dups_def)

lemma kept_ok: "kept s s' \<Longrightarrow> fds_ok e s \<Longrightarrow> fds_ok e s'"
  using fds_ok_same [OF _ _ kept_counts] by (auto simp: kept_def)

lemma count_list_update:
  "i < length xs \<Longrightarrow> int (count_list (xs[i := y]) z) = int (count_list xs z) - of_bool (xs ! i = z) + of_bool (y = z)"
proof (induction xs arbitrary: i)
  case (Cons x xs)
  then show ?case by (cases i) auto
qed simp

lemma valid_fd_ok: "fds_ok e s \<Longrightarrow> valid_fd fd \<Longrightarrow> nat fd < length (fd_table s)"
  by (auto simp: fds_ok_def valid_fd_def)

lemma console [simp]: "STDIN \<noteq> STDOUT" "STDOUT \<noteq> STDIN" "STDIN \<noteq> NULL" "STDOUT \<noteq> NULL" "NULL \<noteq> STDIN" "NULL \<noteq> STDOUT"
  "\<not> is_object STDIN" "\<not> is_object STDOUT" "\<not> is_object NULL"
  by (simp_all add: STDIN_def STDOUT_def is_object_def)

lemma set_fd_simps [simp]: "fd_table (set_fd s i f) = (fd_table s)[i := f]" "vmem (set_fd s i f) = vmem s" "fd_idx (set_fd s i f) = fd_idx s"
  "stdin_count (set_fd s i f) = stdin_count s" "stdout_count (set_fd s i f) = stdout_count s" "running_file (set_fd s i f) = running_file s"
  by (simp_all add: set_fd_def)

lemma set_files_simps [simp]: "fd_table (set_files s f) = fd_table s" "files (set_files s f) = f" "filesys_lock (vmem (set_files s f)) = filesys_lock (vmem s)"
  "fd_idx (set_files s f) = fd_idx s" "stdin_count (set_files s f) = stdin_count s" "stdout_count (set_files s f) = stdout_count s"
  "running_file (set_files s f) = running_file s" "fds (set_files s f) = fds s"
  by (simp_all add: set_files_def fds_def)

section \<open>Closing\<close>

definition closed :: "sys \<Rightarrow> int \<Rightarrow> sys \<Rightarrow> bool" where
  "closed s fd s' \<longleftrightarrow> fd_table s' = (if valid_fd fd then (fd_table s)[nat fd := NULL] else fd_table s) \<and> fd_idx s' = fd_idx s \<and>
     running_file s' = running_file s \<and> filesys_lock (vmem s') = filesys_lock (vmem s)"

lemma ok_update:
  assumes ok: "fds_ok e s" and i: "i < length (fd_table s)" and c: "counts_to c (mallocs (files s)) (files s')"
    and t: "fd_table s' = (fd_table s)[i := y]" "fd_idx s' \<le> MAX_FD"
    and n: "stdin_count s' = stdin_count s - of_bool (fd_table s ! i = STDIN) + of_bool (y = STDIN)"
      "stdout_count s' = stdout_count s - of_bool (fd_table s ! i = STDOUT) + of_bool (y = STDOUT)"
    and y: "is_object y \<Longrightarrow> y \<notin> set (mallocs (files s))"
    and f: "\<And>f. is_object f \<Longrightarrow> f \<in> set ((fd_table s)[i := y] @ e) \<Longrightarrow> c f = Some (int (count_list (fd_table s @ e) f) - of_bool (fd_table s ! i = f) + of_bool (y = f))"
  shows "fds_ok e s'"
proof (rule fds_okI [OF ok c])
  fix g assume g: "g \<in> set (fd_table s' @ e)" "is_object g"
  have "g = y \<or> g \<in> set (fd_table s @ e)" using g(1) t(1) by (auto dest: set_update_subset_insert [THEN subsetD])
  then show "g \<notin> set (mallocs (files s)) \<and> c g = Some (int (count_list (fd_table s' @ e) g))"
    using f [OF g(2)] g fds_ok_object [OF ok] y count_list_update [OF i, of y g] t(1) by auto
qed (use fds_ok_fields [OF ok] t n count_list_update [OF i] in auto)

lemma sys_close_ok: "fds_ok e s \<Longrightarrow> post (\<lambda>s'. fds_ok e s' \<and> closed s fd s') (sys_close s fd)"
proof -
  assume ok: "fds_ok e s"
  let ?f = "entry s fd" and ?ms = "mallocs (files s)"
  consider "\<not> valid_fd fd" | "valid_fd fd" "\<not> is_object ?f" | "valid_fd fd" "is_object ?f" by blast
  then show ?thesis
  proof cases
    case 1
    then show ?thesis using ok by (simp add: sys_close_def closed_def)
  next
    case 2
    note i = valid_fd_ok [OF ok 2(1)]
    have "fds_ok e (set_fd s' (nat fd) NULL)" if "files s' = files s" "fd_table s' = fd_table s" "fd_idx s' = fd_idx s"
      "stdin_count s' = stdin_count s - of_bool (?f = STDIN)" "stdout_count s' = stdout_count s - of_bool (?f = STDOUT)" for s'
      by (rule ok_update [OF ok i, where y = NULL and c = "dups (files s)"])
        (use that 2 fds_ok_fields [OF ok] fds_ok_object [OF ok] in \<open>auto dest: set_update_subset_insert [THEN subsetD]\<close>)
    then show ?thesis using 2 by (auto simp: sys_close_def closed_def is_object_def Let_def)
  next
    case 3
    note i = valid_fd_ok [OF ok 3(1)]
    have f: "?f \<notin> set ?ms" "dups (files s) ?f = Some (int (count_list (fd_table s @ e) ?f))"
      using fds_ok_object [OF ok _ 3(2)] i by auto
    define n where "n = int (count_list (fd_table s @ e) ?f)"
    have up: "fds_ok e s'" if "counts_to c ?ms (files s')" "fd_table s' = (fd_table s)[nat fd := NULL]" "fd_idx s' = fd_idx s" "stdin_count s' = stdin_count s"
      "stdout_count s' = stdout_count s" "\<And>g. g \<noteq> ?f \<Longrightarrow> c g = dups (files s) g" "n \<noteq> 1 \<Longrightarrow> c ?f = Some (n - 1)" for s' c
    proof (rule ok_update [OF ok i that(1,2)])
      fix g assume g: "is_object g" "g \<in> set ((fd_table s)[nat fd := NULL] @ e)"
      have "?f \<notin> set ((fd_table s)[nat fd := NULL] @ e)" if "n = 1"
      proof -
        have "int (count_list ((fd_table s)[nat fd := NULL] @ e) ?f) = 0"
          using count_list_update [OF i, of NULL ?f] that 3(2) by (auto simp: n_def is_object_def)
        then show ?thesis by (metis count_list_0_iff of_nat_eq_0_iff)
      qed
      moreover have "g \<in> set (fd_table s @ e)" using g by (auto dest: set_update_subset_insert [THEN subsetD])
      ultimately show "c g = Some (int (count_list (fd_table s @ e) g) - of_bool (?f = g) + of_bool (NULL = g))"
        using that(6,7) g fds_ok_object [OF ok, of g] by (cases "g = ?f") (auto simp: n_def is_object_def)
    qed (use that 3(2) fds_ok_fields [OF ok] in \<open>auto simp: is_object_def\<close>)
    have "dups (files s) ?f = Some n" using f(2) by (simp add: n_def)
    then show ?thesis using 3 f(1) unfolding sys_close_def closed_def is_object_def Let_def
      by (auto intro!: counts_change [OF counts_to_self f(1)] counts_check counts_file_close up)
  qed
qed

section \<open>New references\<close>

lemma ok_fill:
  assumes ok: "fds_ok (f # e) s" and i: "i < length (fd_table s)" "fd_table s ! i = NULL"
  shows "fds_ok e (set_fd s i f)"
proof -
  have n: "int (count_list ((fd_table s)[i := f] @ e) z) = int (count_list (fd_table s @ f # e) z)" if "z \<noteq> NULL" for z
    using count_list_update [OF i(1), of f z] i(2) that by auto
  have "set ((fd_table s)[i := f] @ e) \<subseteq> set (fd_table s @ f # e)" by (auto dest: set_update_subset_insert [THEN subsetD])
  then show ?thesis using ok n [of STDIN] n [of STDOUT] unfolding fds_ok_def
    by (auto simp del: count_list_append set_append simp: n is_object_def)
qed

lemma ok_increase:
  assumes ok: "fds_ok e s" and f: "f \<in> set (fd_table s)" "is_object f"
  shows "post (\<lambda>fsys. fds_ok (f # e) (set_files s fsys)) (increase_dup_count (files s) f)"
proof -
  have ff: "f \<notin> set (mallocs (files s))" "dups (files s) f = Some (int (count_list (fd_table s @ e) f))"
    using fds_ok_object [OF ok _ f(2)] f(1) by auto
  show ?thesis
  proof (rule counts_change(1) [OF counts_to_self ff(1)])
    fix fsys assume c: "counts_to ((dups (files s))(f := map_option (\<lambda>n. n + 1) (dups (files s) f))) (mallocs (files s)) fsys"
    show "fds_ok (f # e) (set_files s fsys)"
      by (rule fds_okI [OF ok]) (use c ff fds_ok_fields [OF ok] fds_ok_object [OF ok] f in \<open>auto simp: is_object_def\<close>)
  qed
qed

lemma ok_console:
  "fds_ok e s \<Longrightarrow> fds_ok (STDIN # e) (s\<lparr>stdin_count := stdin_count s + 1\<rparr>)" "fds_ok e s \<Longrightarrow> fds_ok (STDOUT # e) (s\<lparr>stdout_count := stdout_count s + 1\<rparr>)"
  by (auto simp: fds_ok_def is_object_def)

lemma ok_new:
  assumes ok: "fds_ok e s" and g: "files_grow (files s) fsys" and new: "new_file (files s) f fsys"
  shows "fds_ok (f # e) (set_files s fsys)"
proof -
  let ?ms = "mallocs (files s)"
  obtain k x where k: "k < length ?ms" "?ms ! k = f" "mallocs fsys = drop (Suc k) ?ms" and x: "file_at fsys f = Some x" "dup_count x = 1" and nz: "f \<noteq> NULL"
    using new by (auto simp: new_file_def)
  have m: "f \<in> set ?ms" using k(1,2) by auto
  have b: "blocks_ok ?ms" by (rule fds_ok_fields [OF ok])
  have split: "?ms = take k ?ms @ f # drop (Suc k) ?ms" using id_take_nth_drop [OF k(1)] k(2) by simp
  have "distinct (filter (\<lambda>p. p \<noteq> NULL) (take k ?ms @ f # drop (Suc k) ?ms))" using b split by (simp add: blocks_ok_def)
  then have fresh: "f \<notin> set (mallocs fsys)" using k(3) nz by auto
  have obj: "is_object f" using b m nz by (auto simp: blocks_ok_def is_object_def)
  have out: "f \<notin> set (fd_table s @ e)" using fds_ok_object [OF ok _ obj] m by blast
  have "blocks_ok (mallocs fsys)" using b k(3) by (simp add: blocks_ok_drop)
  moreover have "h \<notin> set (mallocs fsys) \<and> (\<exists>y. file_at fsys h = Some y \<and> dup_count y = int (count_list (fd_table s @ f # e) h))"
    if h: "h \<in> set (fd_table s @ f # e)" "is_object h" for h
  proof (cases "h = f")
    case True
    then show ?thesis using x fresh out by (auto simp: count_list_0_iff)
  next
    case False
    then have "h \<in> set (fd_table s @ e)" using h(1) by auto
    then show ?thesis using fds_ok_object [OF ok _ h(2)] files_grow_file [OF g] files_grow_blocks [OF g] False by (auto simp: dups_def)
  qed
  ultimately show ?thesis using fds_ok_fields [OF ok] obj unfolding fds_ok_def by (auto simp: is_object_def)
qed

lemma unused_loop: "i \<le> MAX_FD \<Longrightarrow> unused_loop tab i \<le> MAX_FD \<and> (unused_loop tab i < MAX_FD \<longrightarrow> tab ! unused_loop tab i = NULL)"
proof (induction tab i rule: unused_loop.induct)
  case (1 tab i)
  then show ?case by (subst (1 2 3) unused_loop.simps) auto
qed

lemma find_unused_ok:
  assumes ok: "fds_ok (f # e) s" "fds_ok e s" and r: "find_unused_fd s f = (fd, s')"
  shows "fds_ok e s' \<and> vmem s' = vmem s"
proof -
  let ?i = "unused_loop (fd_table s) (fd_idx s)"
  have i: "?i \<le> MAX_FD" "?i < MAX_FD \<longrightarrow> fd_table s ! ?i = NULL" using unused_loop fds_ok_fields(2) [OF ok(1)] by blast+
  have "fds_ok (f # e) (s\<lparr>fd_idx := ?i\<rparr>)" "fds_ok e (s\<lparr>fd_idx := ?i\<rparr>)" using ok i(1) by (auto simp: fds_ok_def)
  then show ?thesis using r i(2) ok_fill [of f e "s\<lparr>fd_idx := ?i\<rparr>" ?i] fds_ok_fields(1) [OF ok(1)]
    by (auto simp: find_unused_fd_def Let_def split: if_splits)
qed

section \<open>System calls\<close>

abbreviation locked :: "sys \<Rightarrow> bool" where
  "locked s \<equiv> filesys_lock (vmem s)"

interpretation ui: user_frame "\<lambda>s. fd_inv s \<and> locked s = b" for b
proof
  fix s a w np m e
  assume k: "fd_inv s \<and> locked s = b"
  show "post (\<lambda>(_, s'). fd_inv s' \<and> locked s' = b) (fault s a w np)"
    by (rule post_mono [OF um.K_fault [OF kept_refl]]) (use k in \<open>auto simp: kept_def holds_fs_def intro: kept_ok\<close>)
  show "fd_inv (s\<lparr>vmem := (vmem s)\<lparr>mem := m\<rparr>\<rparr>) \<and> locked (s\<lparr>vmem := (vmem s)\<lparr>mem := m\<rparr>\<rparr>) = b" using k by (simp add: fds_ok_def)
  show "fd_inv (s\<lparr>exit_status := e\<rparr>) \<and> locked (s\<lparr>exit_status := e\<rparr>) = b" using k by (simp add: fds_ok_def)
qed

lemma inv_wp:
  "fd_inv s \<Longrightarrow> (\<And>r s'. fd_inv s' \<Longrightarrow> locked s' = locked s \<Longrightarrow> A (r, s')) \<Longrightarrow> post A (check_address s a)"
  "fd_inv s \<Longrightarrow> (\<And>r s'. fd_inv s' \<Longrightarrow> locked s' = locked s \<Longrightarrow> A (r, s')) \<Longrightarrow> post A (check_buffer s a n w)"
  "fd_inv s \<Longrightarrow> (\<And>r s'. fd_inv s' \<Longrightarrow> locked s' = locked s \<Longrightarrow> B (r, s')) \<Longrightarrow> post B (fetch_bytes s a n)"
  "fd_inv s \<Longrightarrow> (\<And>r s'. fd_inv s' \<Longrightarrow> locked s' = locked s \<Longrightarrow> B (r, s')) \<Longrightarrow> post B (fetch_string s a)"
  "fd_inv s \<Longrightarrow> (\<And>s'. fd_inv s' \<Longrightarrow> locked s' = locked s \<Longrightarrow> C s') \<Longrightarrow> post C (put_bytes s a bs)"
  by (auto intro: ui.keeps_check_address [of s "locked s"] ui.keeps_check_buffer [of s "locked s"] ui.keeps_access [of s "locked s"])

lemma inv_files: "fd_inv s \<Longrightarrow> counts_to (dups (files s)) (mallocs (files s)) f \<Longrightarrow> fd_inv (set_files s f)"
  by (auto intro: fds_ok_same)

lemma inv_reads: "(\<And>x. A x) \<Longrightarrow> post A (process_get_file s fd)" "(\<And>x. B x) \<Longrightarrow> post B (file_length f p)" "(\<And>x. C x) \<Longrightarrow> post C (sys_filesize s fd)"
  "(\<And>x. C' x) \<Longrightarrow> post C' (file_tell f p)"  "(\<And>x. D x) \<Longrightarrow> post D (pages_free s a n)" "(\<And>x. E x) \<Longrightarrow> post E (file_at f p)"
  "(\<And>x. C' x) \<Longrightarrow> post C' (sys_tell s fd)"
  by (simp_all add: post_def)

lemma inv_file_ops:
  "fd_inv s \<Longrightarrow> (\<And>r f. fd_inv (set_files s f) \<Longrightarrow> A (r, f)) \<Longrightarrow> post A (file_write (files s) p bs)"
  "fd_inv s \<Longrightarrow> (\<And>r f. fd_inv (set_files s f) \<Longrightarrow> B (r, f)) \<Longrightarrow> post B (file_read (files s) p n)"
  "fd_inv s \<Longrightarrow> (\<And>f. fd_inv (set_files s f) \<Longrightarrow> C f) \<Longrightarrow> post C (file_seek (files s) p k)"
  "fd_inv s \<Longrightarrow> (\<And>r f. fd_inv (set_files s f) \<Longrightarrow> D (r, f)) \<Longrightarrow> post D (filesys_create (files s) name m junk)"
  "fd_inv s \<Longrightarrow> (\<And>r f. fd_inv (set_files s f) \<Longrightarrow> D (r, f)) \<Longrightarrow> post D (filesys_remove (files s) name)"
  by (auto intro: counts_file_ops [OF counts_to_self] ct.keeps_filesys_create [OF counts_to_self] ct.keeps_filesys_remove [OF counts_to_self] inv_files)

lemma inv_filesys_open:
  assumes inv: "fd_inv s" and Q: "\<And>f fsys. fd_inv (set_files s fsys) \<Longrightarrow> f \<noteq> NULL \<Longrightarrow> fds_ok [f] (set_files s fsys) \<Longrightarrow> A (f, fsys)"
    "\<And>fsys. fd_inv (set_files s fsys) \<Longrightarrow> A (NULL, fsys)"
  shows "post A (filesys_open (files s) name)"
proof (rule post_mono [OF filesys_open_new [OF files_grow_refl]])
  fix x assume x: "case x of (f, s') \<Rightarrow> files_grow (files s) s' \<and> (f = NULL \<or> new_file (files s) f s')"
  obtain f fsys where p: "x = (f, fsys)" by fastforce
  have "counts_to (dups (files s)) (mallocs (files s)) fsys" using x p by (auto simp: files_grow_def counts_to_def dups_def)
  note inv' = inv_files [OF inv this]
  show "A x"
  proof (cases "f = NULL")
    case False
    then have "new_file (files s) f fsys" "files_grow (files s) fsys" using x p by auto
    then show ?thesis using Q(1) [OF inv' False] ok_new [OF inv] p by blast
  qed (use Q(2) [OF inv'] p in simp)
qed

lemma post_lock [simp]:
  "post Q (lock_files s) = (\<not> filesys_lock (vmem s) \<longrightarrow> Q (s\<lparr>vmem := (vmem s)\<lparr>filesys_lock := True\<rparr>\<rparr>))"
  "post Q (unlock_files s) = (filesys_lock (vmem s) \<longrightarrow> Q (s\<lparr>vmem := (vmem s)\<lparr>filesys_lock := False\<rparr>\<rparr>))"
  by (auto simp: lock_files_def unlock_files_def lock_fs_def unlock_fs_def)

lemma post_then_ret [simp]:
  "post Q (then_ret m f) = post (\<lambda>(r, s). case r of Ret x \<Rightarrow> post Q (f x s) | Exit e \<Rightarrow> Q (Exit e, s)) m"
  by (cases m) (auto simp: then_ret_def split: outcome.split)

lemma inv_fields [simp]:
  "fds_ok e (s\<lparr>vmem := (vmem s)\<lparr>filesys_lock := b'\<rparr>\<rparr>) = fds_ok e s" "fds_ok e (s\<lparr>keyboard := k\<rparr>) = fds_ok e s" "fds_ok e (s\<lparr>screen := k\<rparr>) = fds_ok e s"
  "fds_ok e (s\<lparr>vmem := (vmem s)\<lparr>user_rsp := n\<rparr>\<rparr>) = fds_ok e s" "fds_ok e (s\<lparr>exit_status := st\<rparr>) = fds_ok e s"
  "fds_ok e (set_files (s\<lparr>vmem := (vmem s)\<lparr>filesys_lock := b'\<rparr>\<rparr>) f) = fds_ok e (set_files s f)"
  by (auto simp: fds_ok_def set_files_def)

lemma sys_write_inv: "fd_inv s \<Longrightarrow> \<not> locked s \<Longrightarrow> post (\<lambda>(r, s'). fd_inv s' \<and> \<not> locked s') (sys_write s fd a n)"
  by (auto simp: sys_write_def Let_def split: outcome.split intro!: inv_wp inv_reads inv_file_ops)

lemma sys_read_inv: "fd_inv s \<Longrightarrow> \<not> locked s \<Longrightarrow> post (\<lambda>(r, s'). fd_inv s' \<and> \<not> locked s') (sys_read s fd a n)"
  by (auto simp: sys_read_def Let_def split: outcome.split intro!: inv_wp inv_reads inv_file_ops)

lemma sys_seek_inv: "fd_inv s \<Longrightarrow> post (\<lambda>s'. fd_inv s' \<and> locked s' = locked s) (sys_seek s fd k)"
  by (auto simp: sys_seek_def Let_def intro!: inv_reads inv_file_ops)

lemma sys_create_inv: "fd_inv s \<Longrightarrow> post (\<lambda>(r, s'). fd_inv s' \<and> (locked s' \<longleftrightarrow> (\<exists>e. r = Exit e))) (sys_create s a n junk)"
  by (auto simp: sys_create_def sys_exit_def split: outcome.split intro!: inv_wp inv_file_ops)

lemma sys_remove_inv: "fd_inv s \<Longrightarrow> \<not> locked s \<Longrightarrow> post (\<lambda>(r, s'). fd_inv s' \<and> \<not> locked s') (sys_remove s a)"
  by (auto simp: sys_remove_def split: outcome.split intro!: inv_wp inv_file_ops)

lemma sys_open_inv: "fd_inv s \<Longrightarrow> \<not> locked s \<Longrightarrow> post (\<lambda>(r, s'). fd_inv s' \<and> \<not> locked s') (sys_open s a)"
  by (auto simp: sys_open_def Let_def split: outcome.split prod.split intro!: inv_wp inv_filesys_open dest: find_unused_ok [rotated 2])

lemma ok_reference:
  assumes "fds_ok e s" "f \<in> set (fd_table s)" "f \<noteq> NULL"
  shows "post (\<lambda>s'. fds_ok (f # e) s' \<and> fd_table s' = fd_table s \<and> locked s' = locked s)
    (if f = STDIN then Some (s\<lparr>stdin_count := stdin_count s + 1\<rparr>) else if f = STDOUT then Some (s\<lparr>stdout_count := stdout_count s + 1\<rparr>)
     else do { fsys \<leftarrow> increase_dup_count (files s) f; Some (set_files s fsys) })"
  using ok_increase [OF assms(1,2)] ok_console [OF assms(1)] assms(3) by (auto simp: is_object_def elim!: post_mono)

lemma sys_dup2_inv: "fd_inv s \<Longrightarrow> \<not> locked s \<Longrightarrow> post (\<lambda>(r, s'). fd_inv s' \<and> \<not> locked s') (sys_dup2 s oldfd newfd)"
proof (cases "valid_fd oldfd \<and> entry s oldfd \<noteq> NULL \<and> oldfd \<noteq> newfd")
  case True
  assume inv: "fd_inv s" "\<not> locked s"
  let ?f = "entry s oldfd" and ?n = "nat newfd"
  have i: "nat oldfd < length (fd_table s)" using valid_fd_ok [OF inv(1)] True by blast
  have rest: "post (\<lambda>(r, s'). fd_inv s' \<and> \<not> locked s') (do {
        ASSERT (valid_fd newfd);
        s \<leftarrow> (if entry s1 newfd \<noteq> NULL then do {
                s \<leftarrow> lock_files s1;
                s \<leftarrow> sys_close s newfd;
                unlock_files s }
              else Some s1);
        Some (newfd, set_fd s (nat newfd) (entry s oldfd)) })"
    if s1: "fds_ok [?f] s1" "fd_table s1 = fd_table s" "locked s1 = locked s" for s1
  proof -
    have fill: "fd_inv (set_fd s2 ?n ?f)" if "valid_fd newfd" "fds_ok [?f] s2" "fd_table s2 ! ?n = NULL" for s2
      using ok_fill [OF that(2)] that(3) valid_fd_ok [OF that(2,1)] by blast
    have ne: "nat oldfd \<noteq> ?n" if "valid_fd newfd" using that True by (auto simp: valid_fd_def)
    have "fds_ok [?f] (s1\<lparr>vmem := (vmem s1)\<lparr>filesys_lock := True\<rparr>\<rparr>)" using s1(1) by simp
    note close = sys_close_ok [OF this, of newfd]
    show ?thesis
      using inv s1 ne i
      by (auto simp: closed_def valid_fd_ok [OF inv(1)] intro!: post_mono [OF close] fill)
  qed
  have e: "\<not> \<not> valid_fd oldfd" "entry s oldfd \<noteq> NULL" "oldfd \<noteq> newfd" and f: "?f \<in> set (fd_table s)" using True i by auto
  show ?thesis unfolding sys_dup2_def if_not_P [OF e(1)] if_not_P [OF e(2)] if_not_P [OF e(3)] post_bind
    by (rule post_mono [OF ok_reference [OF inv(1) f e(2)]], rule rest [unfolded post_bind]) blast+
qed (auto simp: sys_dup2_def)

lemma inv_vmem: "fd_inv s \<Longrightarrow> holds_fs (files_grow (files s)) (locked s) v \<Longrightarrow> fd_inv (s\<lparr>vmem := v\<rparr>) \<and> locked (s\<lparr>vmem := v\<rparr>) = locked s"
  using kept_ok [of s "s\<lparr>vmem := v\<rparr>" "[]"] by (simp add: kept_def holds_fs_def)

lemma inv_do_mmap:
  assumes "fd_inv s" "\<And>r v. fd_inv (s\<lparr>vmem := v\<rparr>) \<Longrightarrow> filesys_lock v = locked s \<Longrightarrow> Q (r, v)"
  shows "post Q (do_mmap fs_ops (vmem s) a n w f k l)"
proof (rule fo.keeps_do_mmap [of "files s" "locked s"])
  show "Q (r, v)" if "holds_fs (files_grow (files s)) (locked s) v" for r v using inv_vmem [OF assms(1) that] assms(2) by simp
qed (simp add: holds_fs_def)

lemma inv_do_munmap:
  assumes "fd_inv s" "\<And>v. fd_inv (s\<lparr>vmem := v\<rparr>) \<Longrightarrow> filesys_lock v = locked s \<Longrightarrow> Q v"
  shows "post Q (do_munmap fs_ops (vmem s) a)"
proof (rule fo.keeps_do_munmap [of "files s" "locked s"])
  show "Q v" if "holds_fs (files_grow (files s)) (locked s) v" for v using inv_vmem [OF assms(1) that] assms(2) by simp
qed (simp add: holds_fs_def)

lemma map_loop_inv: "fd_inv s \<Longrightarrow> post (\<lambda>(r, s'). fd_inv s' \<and> locked s' = locked s) (map_loop s a n w f k l)"
proof (induction n arbitrary: s a k rule: less_induct)
  case (less n)
  let ?m = "if n > PGSIZE then PGSIZE else n"
  have "post (\<lambda>(r, s'). fd_inv s' \<and> locked s' = locked s) (map_loop (s\<lparr>vmem := v\<rparr>) (a + ?m) (n - ?m) w f (k + ?m) l)"
    if "n > 0" "fd_inv (s\<lparr>vmem := v\<rparr>)" "filesys_lock v = locked s" for v
    using less.IH [of "n - ?m" "s\<lparr>vmem := v\<rparr>" "a + ?m" "k + ?m"] that by (simp add: PGSIZE_val)
  then show ?case using less.prems
    by (subst map_loop.simps) (auto simp: Let_def simp del: post_if split: if_split intro!: inv_do_mmap)
qed

lemma sys_mmap_inv: "fd_inv s \<Longrightarrow> post (\<lambda>(r, s'). fd_inv s' \<and> locked s' = locked s) (sys_mmap s a n w fd k)"
  by (auto simp: sys_mmap_def intro!: inv_reads elim!: post_mono [OF map_loop_inv])

lemma unmap_loop_inv: "fd_inv s \<Longrightarrow> post (\<lambda>s'. fd_inv s' \<and> locked s' = locked s) (unmap_loop s a n)"
proof (induction "n - a" arbitrary: s a rule: less_induct)
  case less
  have "post (\<lambda>s'. fd_inv s' \<and> locked s' = locked s) (unmap_loop (s\<lparr>vmem := v\<rparr>) (a + PGSIZE) n)"
    if "a < n" "fd_inv (s\<lparr>vmem := v\<rparr>)" "filesys_lock v = locked s" for v
    using less.hyps [of "a + PGSIZE" "s\<lparr>vmem := v\<rparr>"] that by (simp add: PGSIZE_val)
  then show ?case using less.prems by (subst unmap_loop.simps) (auto intro!: inv_do_munmap)
qed

lemma sys_munmap_inv: "fd_inv s \<Longrightarrow> post (\<lambda>s'. fd_inv s' \<and> locked s' = locked s) (sys_munmap s a)"
  by (auto simp: sys_munmap_def intro!: reads_vm unmap_loop_inv)

section \<open>The dispatcher\<close>

lemma post_ret [simp]:
  "post Q (ret_int f m) = post (\<lambda>(r, s). Q (case r of Ret x \<Rightarrow> (Returned, f\<lparr>rax := nat (x mod 2 ^ 64)\<rparr>, s) | Exit e \<Rightarrow> (Exited, f, s))) m"
  "post Q (ret_bool f n) = post (\<lambda>(r, s). Q (case r of Ret x \<Rightarrow> (Returned, f\<lparr>rax := of_bool x\<rparr>, s) | Exit e \<Rightarrow> (Exited, f, s))) n"
  "post Q (ret_void f k) = post (\<lambda>s. Q (Returned, f, s)) k"
  by (simp_all add: ret_int_def ret_bool_def ret_void_def)

definition handled :: "call_end \<times> intr_frame \<times> sys \<Rightarrow> bool" where
  "handled = (\<lambda>(e, f, s'). fd_inv s' \<and> (e = Returned \<longrightarrow> \<not> locked s'))"

lemma handledI: "fd_inv s' \<Longrightarrow> (e = Returned \<Longrightarrow> \<not> locked s') \<Longrightarrow> handled (e, f, s')"
  by (simp add: handled_def)

lemmas calls_inv = sys_create_inv sys_remove_inv sys_open_inv sys_read_inv sys_write_inv sys_seek_inv sys_close_ok sys_mmap_inv sys_munmap_inv sys_dup2_inv

lemma handler_inv:
  assumes inv: "fd_inv s" "\<not> locked s"
  shows "post handled (syscall_handler s f junk)"
proof -
  define s1 where "s1 = (if frame_cs f = SEL_UCSEG then s\<lparr>vmem := (vmem s)\<lparr>user_rsp := frame_rsp f\<rparr>\<rparr> else s)"
  have s1: "fd_inv s1" "\<not> locked s1" using inv by (auto simp: s1_def)
  show ?thesis unfolding syscall_handler_def Let_def s1_def [symmetric] using s1
    by (auto intro!: handledI inv_reads calls_inv [THEN post_mono] split: outcome.splits simp: closed_def)
qed

end
