(* ===== verification/Syscall_Properties.thy ===== *)
theory Syscall_Properties
  imports Syscall_Correct Swap_Correct Inode_Correct
begin

text \<open>
  The properties of the system calls: the reference counts of descriptors over whole runs of a process, \<open>dup2\<close>, the
  check of user buffers, and the paths on which the code fails.
\<close>

section \<open>Runs of a process\<close>

text \<open>What a process does between its creation and its end: system calls that return, and accesses to its memory.\<close>

inductive process_runs :: "sys \<Rightarrow> sys \<Rightarrow> bool" where
  start: "process_runs s s"
| call: "process_runs s t \<Longrightarrow> syscall_handler t f junk = Some (Returned, f', u) \<Longrightarrow> process_runs s u"
| load: "process_runs s t \<Longrightarrow> fetch t a = Some (x, u) \<Longrightarrow> process_runs s u"
| store: "process_runs s t \<Longrightarrow> store t a x = Some u \<Longrightarrow> process_runs s u"

lemma process_init_inv:
  assumes "process_init s = Some s'" "blocks_ok (mallocs (files s))"
  shows "fd_inv s'" "locked s' = locked s"
proof -
  have "2 \<le> MAX_FD" by (simp add: MAX_FD_def FDT_PAGES_def)
  moreover have "count_list (replicate n NULL) STDIN = 0" "count_list (replicate n NULL) STDOUT = 0" for n by (auto simp: count_list_0_iff)
  ultimately show "fd_inv s'" "locked s' = locked s" using assms
    by (auto simp: process_init_def bind_Some fds_ok_def)
qed

lemma process_runs_inv: "process_runs s t \<Longrightarrow> fd_inv s \<Longrightarrow> \<not> locked s \<Longrightarrow> fd_inv t \<and> \<not> locked t"
proof (induction rule: process_runs.induct)
  case (call s t f junk f' u)
  then show ?case using postD [OF handler_inv call.hyps(2)] by (auto simp: handled_def)
next
  case (load s t a x u)
  then show ?case using ui.keeps_fetch [OF load.hyps(2)] by blast
next
  case (store s t a x u)
  then show ?case using ui.keeps_store [OF store.hyps(2)] by blast
qed blast


section \<open>Duplicated descriptors\<close>

text \<open>C16: \<open>dup2\<close> to a closed descriptor makes it refer to the same open file as the old one, and closing the old descriptor
  afterwards leaves that file open and unchanged, position and count included, under the new one.\<close>

theorem dup2_shares:
  assumes inv: "fd_inv s" and fd: "valid_fd oldfd" "valid_fd newfd" "oldfd \<noteq> newfd" and e: "is_object (entry s oldfd)" "entry s newfd = NULL"
  shows "\<exists>s1 s2. sys_dup2 s oldfd newfd = Some (newfd, s1) \<and> entry s1 oldfd = entry s oldfd \<and> entry s1 newfd = entry s oldfd \<and>
    sys_close s1 oldfd = Some s2 \<and> entry s2 oldfd = NULL \<and> entry s2 newfd = entry s oldfd \<and> files s2 = files s"
proof -
  let ?f = "entry s oldfd"
  have i: "nat oldfd < length (fd_table s)" "nat newfd < length (fd_table s)" "nat oldfd \<noteq> nat newfd"
    using valid_fd_ok [OF inv] fd by (auto simp: valid_fd_def)
  have "?f \<in> set (fd_table s)" using i(1) by auto
  then obtain x where x: "file_at (files s) ?f = Some x" "dup_count x = int (count_list (fd_table s) ?f)"
    using inv e(1) by (auto simp: fds_ok_def)
  have "dup_count x \<noteq> 0" using x(2) \<open>?f \<in> set (fd_table s)\<close> by (auto simp: count_list_0_iff)
  define s1 where "s1 = set_fd (set_files s ((files s)\<lparr>file_at := (file_at (files s))(?f \<mapsto> x\<lparr>dup_count := dup_count x + 1\<rparr>)\<rparr>)) (nat newfd) ?f"
  have d: "sys_dup2 s oldfd newfd = Some (newfd, s1)"
    using fd e x(1) by (simp add: sys_dup2_def is_object_def increase_dup_count_def upd_file_def s1_def)
  have f1: "files s1 = (files s)\<lparr>file_at := (file_at (files s))(?f \<mapsto> x\<lparr>dup_count := dup_count x + 1\<rparr>)\<rparr>" by (simp add: s1_def)
  have t1: "fd_table s1 = (fd_table s)[nat newfd := ?f]" by (simp add: s1_def)
  have "entry s1 oldfd = ?f" using t1 i by simp
  then have c: "sys_close s1 oldfd = Some (set_fd (set_files s1 (files s)) (nat oldfd) NULL)"
    using fd(1) e(1) \<open>dup_count x \<noteq> 0\<close> x(1) f1
    by (simp add: sys_close_def is_object_def decrease_dup_count_def check_dup_count_def upd_file_def fun_upd_idem)
  show ?thesis using d c t1 i by (intro exI [of _ s1] exI [of _ "set_fd (set_files s1 (files s)) (nat oldfd) NULL"]) simp
qed

section \<open>User buffers\<close>

lemma check_page_user: "check_page s a w = Some (Ret u, s') \<Longrightarrow> is_user_vaddr a"
  by (auto simp: check_page_def sys_exit_def split: if_splits)

lemma check_loop_next:
  assumes "check_loop s a stop w = Some (Ret u, s')" "a \<le> stop"
  shows "is_user_vaddr a" "\<exists>t. check_loop t (a + PGSIZE) stop w = Some (Ret u, s')"
proof -
  show user: "is_user_vaddr a"
  proof (rule ccontr)
    assume no: "\<not> is_user_vaddr a"
    then have "check_page s a w = Some (Ret u, s')" using assms unfolding check_loop.simps [of s a] by simp
    then show False using no check_page_user by blast
  qed
  then show "\<exists>t. check_loop t (a + PGSIZE) stop w = Some (Ret u, s')"
    using assms unfolding check_loop.simps [of s a] by (auto simp: bind_Some split: outcome.splits) (metis outcome.exhaust old.unit.exhaust)
qed

lemma check_loop_user:
  "check_loop s a stop w = Some (Ret u, s') \<Longrightarrow> a + PGSIZE * k \<le> stop \<Longrightarrow> is_user_vaddr (a + PGSIZE * k)"
proof (induction k arbitrary: s a)
  case 0
  then show ?case using check_loop_next(1) [OF 0(1)] by simp
next
  case (Suc k)
  obtain t where "check_loop t (a + PGSIZE) stop w = Some (Ret u, s')" using check_loop_next(2) [OF Suc.prems(1)] Suc.prems(2) by auto
  then show ?case using Suc.IH [of t "a + PGSIZE"] Suc.prems(2) by (simp add: algebra_simps)
qed

lemma round_down_steps: "a \<le> x \<Longrightarrow> \<exists>k. pg_round_down x = pg_round_down a + PGSIZE * k"
proof -
  assume "a \<le> x"
  then have "a div PGSIZE \<le> x div PGSIZE" by (rule div_le_mono)
  then have "pg_round_down x = pg_round_down a + PGSIZE * (x div PGSIZE - a div PGSIZE)"
    by (simp add: pg_round_down_def minus_mod_eq_mult_div diff_mult_distrib2)
  then show ?thesis ..
qed

lemma round_down_mono: "a \<le> x \<Longrightarrow> pg_round_down a \<le> pg_round_down x"
  by (metis le_add1 round_down_steps)

lemma user_page: "is_user_vaddr (pg_round_down x) \<Longrightarrow> is_user_vaddr x"
proof -
  have "pg_round_down KERN_BASE = KERN_BASE" by (simp add: pg_round_down_def KERN_BASE_def PGSIZE_val)
  then show "is_user_vaddr (pg_round_down x) \<Longrightarrow> is_user_vaddr x"
    using round_down_mono [of KERN_BASE x] by (auto simp: is_user_vaddr_def is_kernel_vaddr_def)
qed

text \<open>C17: When \<open>check_buffer\<close> lets a buffer through that does not wrap around the end of the address space, every byte of it is a
  user address.  A buffer that wraps around passes without any check.\<close>

theorem check_buffer_user:
  assumes "0 < n" "n < 2 ^ 32" "a < 2 ^ 64"
  shows "(\<forall>u s' x. a + n \<le> 2 ^ 64 \<longrightarrow> check_buffer s a n w = Some (Ret u, s') \<longrightarrow> a \<le> x \<longrightarrow> x < a + n \<longrightarrow> is_user_vaddr x) \<and>
    (2 ^ 64 < a + n \<longrightarrow> check_buffer s a n w = Some (Ret (), s))"
proof (intro conjI allI impI)
  fix u s' x
  assume fit: "a + n \<le> 2 ^ 64" and ok: "check_buffer s a n w = Some (Ret u, s')" and x: "a \<le> x" "x < a + n"
  have e: "(a + n + 2 ^ 64 - 1) mod 2 ^ 64 = a + n - 1" using assms(1) fit by (simp add: mod_if)
  obtain k where k: "pg_round_down x = pg_round_down a + PGSIZE * k" using round_down_steps [OF x(1)] by blast
  have "pg_round_down x \<le> pg_round_down (a + n - 1)" using x by (intro round_down_mono) simp
  then have "is_user_vaddr (pg_round_down x)" using check_loop_user [OF ok [unfolded check_buffer_def e], of k] k by simp
  then show "is_user_vaddr x" by (rule user_page)
next
  assume wrap: "2 ^ 64 < a + n"
  then have e: "(a + n + 2 ^ 64 - 1) mod 2 ^ 64 = a + n - 1 - 2 ^ 64" using assms by (simp add: mod_if)
  have "pg_round_down (a + n - 1 - 2 ^ 64) \<le> a + n - 1 - 2 ^ 64" "a - PGSIZE < pg_round_down a" "a + n - 1 - 2 ^ 64 \<le> a - PGSIZE"
    using wrap assms by (auto simp: pg_round_down_def PGSIZE_val)
  then have "pg_round_down (a + n - 1 - 2 ^ 64) < pg_round_down a" by linarith
  then show "check_buffer s a n w = Some (Ret (), s)" unfolding check_buffer_def e by (subst check_loop.simps) simp
qed

section \<open>Failing paths\<close>

text \<open>C19: \<open>sys_create\<close> on a null or kernel address ends the process while it holds the lock of the file system; \<open>sys_open\<close> and
  \<open>sys_remove\<close> on such an address end it without the lock.\<close>

theorem create_exits_with_lock:
  assumes "\<not> locked s" "a = NULL \<or> \<not> is_user_vaddr a"
  shows "(\<exists>s'. sys_create s a n junk = Some (Exit (- 1), s') \<and> locked s') \<and>
    (\<exists>s'. sys_open s a = Some (Exit (- 1), s') \<and> \<not> locked s') \<and> (\<exists>s'. sys_remove s a = Some (Exit (- 1), s') \<and> \<not> locked s')"
  using assms by (auto simp: sys_create_def sys_open_def sys_remove_def check_address_def sys_exit_def then_ret_def lock_files_def lock_fs_def)

text \<open>A file that \<open>dup2\<close> has put in place of standard input or output cannot be written through it: \<open>sys_write\<close> to descriptor 0
  or 1 that refers to an open file returns -1 and writes nothing, though the file is open and the buffer good.\<close>

theorem redirected_write_fails:
  assumes "fd = 0 \<or> fd = 1" "check_buffer s a n True = Some (Ret (), s')" "is_object (entry s' fd)"
  shows "sys_write s fd a n = Some (Ret (- 1), s')"
  using assms by (auto simp: sys_write_def then_ret_def is_object_def valid_fd_def MAX_FD_def FDT_PAGES_def process_get_file_def)

section \<open>Witnesses\<close>

text \<open>A process with its console and one open file, at descriptor 2.\<close>

definition demo_files :: fsys where
  "demo_files = (demo_fs True)\<lparr>file_at := [48 \<mapsto> \<lparr>file_inode = 16, pos = 5, deny_write = False, dup_count = 1, mapping_cnt = 0\<rparr>]\<rparr>"

definition demo_sys :: "ptr list \<Rightarrow> sys" where
  "demo_sys tab = \<lparr>vmem = demo_vm demo_files \<lparr>bit_cnt = 2, bits = [1]\<rparr>, fd_table = tab, fd_idx = 2, stdin_count = 1, stdout_count = 1, exit_status = 0,
     running_file = NULL, keyboard = [], screen = []\<rparr>"

lemma demo_blocks: "blocks_ok (mallocs (files (demo_sys tab)))" "\<not> locked (demo_sys tab)"
  by (simp_all add: blocks_ok_def demo_sys_def demo_vm_def demo_files_def demo_fs_def STDIN_def STDOUT_def)

lemma demo_init: "\<exists>s0. process_init (demo_sys []) = Some s0"
proof -
  have "{1..<1 + (3::nat)} \<inter> bitmap_used (used_map (pool_of demo_memory {PAL_ZERO})) = {}"
    by (auto simp: pool_of_def demo_memory_def bitmap_used_def bit_at_def elem_idx_def ELEM_BITS_def bit_1_iff)
  moreover have "1 + 3 \<le> bit_cnt (used_map (pool_of demo_memory {PAL_ZERO}))" by (simp add: pool_of_def demo_memory_def)
  ultimately obtain r m where "palloc_get_multiple demo_memory {PAL_ZERO} 3 = Some (r, m)" "r \<noteq> NULL"
    using palloc_get_ok [OF demo_memory_ok, of "{PAL_ZERO}" 3] by (auto simp: Int_commute dest!: spec [of _ 1])
  then show ?thesis by (simp add: process_init_def demo_sys_def demo_vm_def FDT_PAGES_def)
qed

lemma nth_fd_table: "fd_table s = STDIN # STDOUT # replicate (MAX_FD - 2) NULL \<Longrightarrow> fd_table s ! 1 = STDOUT \<and> fd_table s ! 5 = NULL"
  by (simp add: MAX_FD_def FDT_PAGES_def nth_Cons')


lemma demo_inv: "fd_inv (demo_sys (STDIN # STDOUT # 48 # replicate (MAX_FD - 3) NULL))"
proof -
  have "count_list (replicate n NULL) x = 0" if "x \<noteq> NULL" for n x using that by (auto simp: count_list_0_iff)
  then show ?thesis using demo_blocks(1)
    by (simp add: fds_ok_def) (auto simp: demo_sys_def demo_vm_def demo_files_def demo_fs_def is_object_def STDIN_def STDOUT_def MAX_FD_def FDT_PAGES_def)
qed

theorem dup2_shares_witness:
  "\<exists>s1 s2. sys_dup2 (demo_sys (STDIN # STDOUT # 48 # replicate (MAX_FD - 3) NULL)) 2 7 = Some (7, s1) \<and> sys_close s1 2 = Some s2 \<and>
     entry s2 7 = 48 \<and> files s2 = demo_files"
proof -
  let ?s = "demo_sys (STDIN # STDOUT # 48 # replicate (MAX_FD - 3) NULL)"
  have "valid_fd 2" "valid_fd 7" "entry ?s 2 = 48" "entry ?s 7 = NULL" "is_object 48" "files ?s = demo_files"
    by (simp_all add: demo_sys_def demo_vm_def valid_fd_def MAX_FD_def FDT_PAGES_def nth_Cons' is_object_def STDIN_def STDOUT_def)
  then show ?thesis using dup2_shares [OF demo_inv, of 2 7] by auto
qed

theorem check_buffer_user_witness: "check_buffer (demo_sys []) (2 ^ 64 - 1) 2 True = Some (Ret (), demo_sys [])"
  using check_buffer_user [of 2 "2 ^ 64 - 1" "demo_sys []" True] by simp

theorem create_exits_with_lock_witness: "\<exists>s'. sys_create (demo_sys []) NULL 0 (decode_entry []) = Some (Exit (- 1), s') \<and> locked s'"
  using create_exits_with_lock [OF demo_blocks(2), of NULL "[]" 0 "decode_entry []"] by blast

theorem redirected_write_fails_witness:
  "sys_write (demo_sys [STDIN, 48]) 1 4096 0 = Some (Ret (- 1), demo_sys [STDIN, 48])"
proof -
  have "check_buffer (demo_sys [STDIN, 48]) 4096 0 True = Some (Ret (), demo_sys [STDIN, 48])"
    by (simp add: check_buffer_def check_loop.simps pg_round_down_def PGSIZE_val)
  moreover have "is_object (entry (demo_sys [STDIN, 48]) 1)" by (simp add: demo_sys_def is_object_def STDIN_def STDOUT_def)
  ultimately show ?thesis using redirected_write_fails by blast
qed

end
