(* ===== verification/Fork_Correct.thy ===== *)
theory Fork_Correct
  imports Syscall_Properties
begin

text \<open>
  The descriptors of a forked process: every open file from descriptor 2 on is duplicated at its position.  Descriptors
  that share a file in the parent do not share one in the child.
\<close>

section \<open>Duplicating one file\<close>

text \<open>The files of \<open>F\<close> are open on open inodes, and none of them denies writes.\<close>

definition files_live :: "fsys \<Rightarrow> ptr set \<Rightarrow> bool" where
  "files_live s F \<longleftrightarrow> (\<forall>f \<in> F. f \<notin> set (mallocs s) \<and> (\<exists>x i. file_at s f = Some x \<and> file_inode x \<noteq> NULL \<and> \<not> deny_write x \<and>
     inode_at s (file_inode x) = Some i \<and> open_cnt i > 0))"

definition copied :: "fsys \<Rightarrow> ptr \<Rightarrow> fsys \<Rightarrow> ptr \<Rightarrow> bool" where
  "copied s f s' g \<longleftrightarrow> (if is_object f then g = NULL \<or> g \<in> set (mallocs s) - set (mallocs s') \<and> is_object g \<and>
     (\<exists>x. file_at s f = Some x \<and> file_at s' g = Some (x\<lparr>dup_count := 1, mapping_cnt := 0\<rparr>)) else g = f)"

lemma files_live_step:
  assumes "files_live s F" "files_grow s s'" "\<And>p i. inode_at s p = Some i \<Longrightarrow> open_cnt i > 0 \<Longrightarrow> \<exists>j. inode_at s' p = Some j \<and> open_cnt j > 0"
  shows "files_live s' F"
proof -
  have "f \<notin> set (mallocs s')" "file_at s' f = file_at s f" if "f \<in> F" for f
    using that assms(1) files_grow_blocks [OF assms(2)] files_grow_file [OF assms(2)] by (auto simp: files_live_def)
  then show ?thesis using assms(1,3) unfolding files_live_def by metis
qed

lemma blocks_ok_Cons: "blocks_ok (g # ps) \<Longrightarrow> g \<noteq> NULL \<Longrightarrow> g \<notin> set ps \<and> is_object g"
  by (auto simp: blocks_ok_def is_object_def)

lemma file_duplicate_ok:
  assumes live: "files_live s F" and f: "f \<in> F" "is_object f" and b: "blocks_ok (mallocs s)"
  shows "\<exists>g s'. file_duplicate s f = Some (g, s') \<and> files_grow s s' \<and> files_live s' F \<and> copied s f s' g"
proof -
  obtain x i where x: "file_at s f = Some x" "file_inode x \<noteq> NULL" "\<not> deny_write x" "inode_at s (file_inode x) = Some i" "open_cnt i > 0"
    using live f(1) by (auto simp: files_live_def)
  show ?thesis
  proof (cases "mallocs s \<noteq> [] \<and> hd (mallocs s) \<noteq> NULL")
    case True
    then obtain g ps where m: "mallocs s = g # ps" "g \<noteq> NULL" by (cases "mallocs s") auto
    define s' where "s' = s\<lparr>inode_at := (inode_at s)(file_inode x \<mapsto> i\<lparr>open_cnt := open_cnt i + 1\<rparr>), mallocs := ps,
      file_at := (file_at s)(g \<mapsto> \<lparr>file_inode = file_inode x, pos = pos x, deny_write = False, dup_count = 1, mapping_cnt = 0\<rparr>)\<rparr>"
    have "file_duplicate s f = Some (g, s')"
      using x m by (simp add: file_duplicate_def inode_reopen_def upd_inode_def file_open_def alloc_block_def upd_file_def s'_def)
    moreover have grow: "files_grow s s'" using m by (auto simp: files_grow_def s'_def intro!: exI [of _ 1])
    moreover have "files_live s' F" by (rule files_live_step [OF live grow]) (use x(4) in \<open>auto simp: s'_def\<close>)
    moreover have "copied s f s' g" using blocks_ok_Cons [of g ps] b m x(1,3) f(2) by (auto simp: copied_def s'_def)
    ultimately show ?thesis by blast
  next
    case False
    define s' where "s' = s\<lparr>mallocs := tl (mallocs s)\<rparr>"
    have upd: "(inode_at s)(file_inode x \<mapsto> i) = inode_at s" using x(4) by auto
    have "file_duplicate s f = Some (NULL, s')"
      using x False upd by (cases "mallocs s") (simp_all add: file_duplicate_def inode_reopen_def upd_inode_def file_open_def alloc_block_def inode_close_def s'_def)
    moreover have grow: "files_grow s s'" by (auto simp: files_grow_def s'_def drop_Suc intro!: exI [of _ 1])
    moreover have "files_live s' F" by (rule files_live_step [OF live grow]) (auto simp: s'_def)
    ultimately show ?thesis using f(2) by (auto simp: copied_def)
  qed
qed

section \<open>Duplicating a table\<close>

lemma files_grow_trans: "files_grow s t \<Longrightarrow> files_grow t u \<Longrightarrow> files_grow s u"
  using files_grow_blocks [of s t] by (auto simp: files_grow_def)

lemma copied_later: "copied s f t g \<Longrightarrow> files_grow t u \<Longrightarrow> copied s f u g"
  using files_grow_blocks [of t u] files_grow_file [of t u g] by (auto simp: copied_def split: if_splits)

lemma copied_earlier: "files_grow s t \<Longrightarrow> (is_object f \<Longrightarrow> f \<notin> set (mallocs s)) \<Longrightarrow> copied t f u g \<Longrightarrow> copied s f u g"
  using files_grow_blocks [of s t] files_grow_file [of s t f] by (auto simp: copied_def split: if_splits)

lemma copied_nonobject [simp]: "\<not> is_object f \<Longrightarrow> copied s f s' f"
  by (simp add: copied_def)

definition table_copied :: "fsys \<Rightarrow> ptr list \<Rightarrow> fsys \<Rightarrow> ptr list \<Rightarrow> bool" where
  "table_copied s tab s' gs \<longleftrightarrow> length gs = length tab \<and> (\<forall>i < length tab. copied s (tab ! i) s' (gs ! i)) \<and>
     (\<forall>i < length tab. \<forall>j < i. is_object (tab ! i) \<longrightarrow> is_object (tab ! j) \<longrightarrow> gs ! i = gs ! j \<longrightarrow> gs ! i = NULL)"

lemma table_copied_Cons:
  assumes g: "files_grow s t" "copied s f t g" "files_grow t u" and tab: "table_copied t tab u gs"
    and live: "\<And>h. h \<in> set tab \<Longrightarrow> is_object h \<Longrightarrow> h \<notin> set (mallocs s)"
  shows "table_copied s (f # tab) u (g # gs)"
proof -
  have l: "length gs = length tab" and c: "\<And>i. i < length tab \<Longrightarrow> copied t (tab ! i) u (gs ! i)" using tab by (auto simp: table_copied_def)
  have "copied s ((f # tab) ! i) u ((g # gs) ! i)" if "i < length (f # tab)" for i
    using that copied_later [OF g(2,3)] copied_earlier [OF g(1) _ c] live by (cases i) auto
  moreover have "(g # gs) ! i = NULL" if ij: "i < length (f # tab)" "j < i" "is_object ((f # tab) ! i)" "is_object ((f # tab) ! j)" "(g # gs) ! i = (g # gs) ! j" for i j
  proof (cases j)
    case 0
    then obtain k where k: "i = Suc k" "k < length tab" using ij by (cases i) auto
    have "gs ! k = NULL \<or> gs ! k \<in> set (mallocs t)" using c [OF k(2)] ij k by (auto simp: copied_def)
    moreover have "g = NULL \<or> g \<notin> set (mallocs t)" using g(2) ij 0 by (auto simp: copied_def)
    ultimately show ?thesis using ij k 0 by auto
  next
    case (Suc m)
    then obtain k where "i = Suc k" "k < length tab" "m < k" using ij by (cases i) auto
    then show ?thesis using tab ij Suc unfolding table_copied_def by auto
  qed
  ultimately show ?thesis using l unfolding table_copied_def by simp
qed

lemma files_grow_blocks_ok: "files_grow s t \<Longrightarrow> blocks_ok (mallocs s) \<Longrightarrow> blocks_ok (mallocs t)"
  by (auto simp: files_grow_def blocks_ok_drop)

lemma fork_entries_ok:
  "files_live s F \<Longrightarrow> blocks_ok (mallocs s) \<Longrightarrow> (\<And>f. f \<in> set tab \<Longrightarrow> is_object f \<Longrightarrow> f \<in> F) \<Longrightarrow>
   \<exists>gs s'. fork_entries s tab = Some (gs, s') \<and> files_grow s s' \<and> table_copied s tab s' gs"
proof (induction tab arbitrary: s)
  case Nil
  then show ?case by (simp add: table_copied_def)
next
  case (Cons f tab)
  obtain g t where g: "(if f \<noteq> NULL \<and> f \<noteq> STDIN \<and> f \<noteq> STDOUT then file_duplicate s f else Some (f, s)) = Some (g, t)" "files_grow s t" "files_live t F" "copied s f t g"
    using file_duplicate_ok [OF Cons.prems(1) _ _ Cons.prems(2), of f] Cons.prems(1,3) by (cases "is_object f") (auto simp: is_object_def)
  obtain gs u where gs: "fork_entries t tab = Some (gs, u)" "files_grow t u" "table_copied t tab u gs"
    using Cons.IH [OF g(3) files_grow_blocks_ok [OF g(2) Cons.prems(2)]] Cons.prems(3) by auto
  have "table_copied s (f # tab) u (g # gs)"
    by (rule table_copied_Cons [OF g(2,4) gs(2,3)]) (use Cons.prems(1,3) in \<open>auto simp: files_live_def\<close>)
  then show ?case using g(1) gs(1) files_grow_trans [OF g(2) gs(2)] by simp
qed



end
