(* ===== verification/Stdio.thy ===== *)
theory Stdio
  imports Stdlib
begin

text \<open>
  Formatted output: \<open>lib/stdio.c\<close>.  A string is the list of its bytes without the terminator, so that the end of the list
  is where the code reads a null byte.  The function \<open>output\<close> with its auxiliary data is a function from data to
  data.  The arguments after the format are a list of 64-bit slots, numbers or pointers to strings; taking one that is not
  there, or of the other kind, is a failure, as is reading the format past its terminator.
\<close>

section \<open>Arguments\<close>

datatype va = Num "64 word" | Str "byte list option"

definition va_num :: "va list \<Rightarrow> (64 word \<times> va list) option" where
  "va_num args = (case args of Num w # rest \<Rightarrow> Some (w, rest) | _ \<Rightarrow> None)"

definition va_str :: "va list \<Rightarrow> (byte list option \<times> va list) option" where
  "va_str args = (case args of Str s # rest \<Rightarrow> Some (s, rest) | _ \<Rightarrow> None)"

definition ch :: "char \<Rightarrow> byte" where
  "ch c = of_nat (of_char c)"

definition ascii :: "string \<Rightarrow> byte list" where
  "ascii s = map ch s"

definition peek :: "byte list \<Rightarrow> byte" where
  "peek s = (case s of [] \<Rightarrow> 0 | c # _ \<Rightarrow> c)"

section \<open>Conversions\<close>

datatype conversion_type = CHAR_T | SHORT | INT_T | INTMAX | LONG | LONGLONG | PTRDIFFT | SIZET

record printf_conversion =
  MINUS :: bool
  PLUS :: bool
  SPACE :: bool
  POUND :: bool
  ZERO :: bool
  GROUP :: bool
  width :: int
  precision :: int
  conv_type :: conversion_type

record integer_base =
  base :: nat
  digits :: "byte list"
  x_char :: byte
  group_size :: nat

definition base_d :: integer_base where "base_d = \<lparr>base = 10, digits = ascii ''0123456789'', x_char = 0, group_size = 3\<rparr>"
definition base_o :: integer_base where "base_o = \<lparr>base = 8, digits = ascii ''01234567'', x_char = 0, group_size = 3\<rparr>"
definition base_x :: integer_base where "base_x = \<lparr>base = 16, digits = ascii ''0123456789abcdef'', x_char = ch CHR ''x'', group_size = 4\<rparr>"
definition base_X :: integer_base where "base_X = \<lparr>base = 16, digits = ascii ''0123456789ABCDEF'', x_char = ch CHR ''X'', group_size = 4\<rparr>"

section \<open>Parsing a conversion\<close>

fun parse_flags :: "byte list \<Rightarrow> printf_conversion \<Rightarrow> printf_conversion \<times> byte list" where
  "parse_flags [] c = (c, [])"
| "parse_flags (f # format) c =
     (if f = ch CHR ''-'' then parse_flags format (c\<lparr>MINUS := True\<rparr>)
      else if f = ch CHR ''+'' then parse_flags format (c\<lparr>PLUS := True\<rparr>)
      else if f = ch CHR '' '' then parse_flags format (c\<lparr>SPACE := True\<rparr>)
      else if f = ch CHR ''#'' then parse_flags format (c\<lparr>POUND := True\<rparr>)
      else if f = ch CHR ''0'' then parse_flags format (c\<lparr>ZERO := True\<rparr>)
      else if f = 39 then parse_flags format (c\<lparr>GROUP := True\<rparr>)
      else (c, f # format))"

fun parse_number :: "byte list \<Rightarrow> int \<Rightarrow> int \<times> byte list" where
  "parse_number [] n = (n, [])"
| "parse_number (f # format) n = (if isdigit f then parse_number format (int32 (n * 10 + uint f - 48)) else (n, f # format))"

text \<open>A number, or \<open>*\<close> for an argument of type \<open>int\<close>.\<close>

definition parse_field :: "byte list \<Rightarrow> va list \<Rightarrow> (int \<times> byte list \<times> va list) option" where
  "parse_field format args =
     (if peek format = ch CHR ''*'' then do { (w, args) \<leftarrow> va_num args; Some (int32 (uint w), tl format, args) }
      else let (n, format) = parse_number format 0 in Some (n, format, args))"

definition parse_type :: "byte list \<Rightarrow> conversion_type \<times> byte list" where
  "parse_type format =
     (let f = peek format; next = peek (tl format) in
      if f = ch CHR ''h'' then if next = ch CHR ''h'' then (CHAR_T, tl (tl format)) else (SHORT, tl format)
      else if f = ch CHR ''j'' then (INTMAX, tl format)
      else if f = ch CHR ''l'' then if next = ch CHR ''l'' then (LONGLONG, tl (tl format)) else (LONG, tl format)
      else if f = ch CHR ''t'' then (PTRDIFFT, tl format)
      else if f = ch CHR ''z'' then (SIZET, tl format)
      else (INT_T, format))"

definition no_flags :: printf_conversion where
  "no_flags = \<lparr>MINUS = False, PLUS = False, SPACE = False, POUND = False, ZERO = False, GROUP = False, width = 0, precision = - 1, conv_type = INT_T\<rparr>"

text \<open>The flags override each other, and a negative width is a flag too.\<close>

definition resolve :: "printf_conversion \<Rightarrow> int \<Rightarrow> int \<Rightarrow> conversion_type \<Rightarrow> printf_conversion" where
  "resolve c w p t =
     (let c = (if MINUS c then c\<lparr>ZERO := False\<rparr> else c);
          c = (if PLUS c then c\<lparr>SPACE := False\<rparr> else c);
          c = (if w < 0 then c\<lparr>width := int32 (- w), MINUS := True\<rparr> else c\<lparr>width := w\<rparr>);
          c = c\<lparr>precision := (if p < 0 then - 1 else p)\<rparr>;
          c = (if precision c \<ge> 0 then c\<lparr>ZERO := False\<rparr> else c)
      in c\<lparr>conv_type := t\<rparr>)"

definition parse_conversion :: "byte list \<Rightarrow> va list \<Rightarrow> (printf_conversion \<times> byte list \<times> va list) option" where
  "parse_conversion format args = do {
     let (c, format) = parse_flags format no_flags;
     (w, format, args) \<leftarrow> parse_field format args;
     (p, format, args) \<leftarrow> (if peek format = ch CHR ''.'' then parse_field (tl format) args else Some (- 1, format, args));
     let (t, format) = parse_type format;
     Some (resolve c w p t, format, args) }"

section \<open>Integers and strings\<close>

definition output_dup :: "byte \<Rightarrow> nat \<Rightarrow> (byte \<Rightarrow> 'a \<Rightarrow> 'a) \<Rightarrow> 'a \<Rightarrow> 'a" where
  "output_dup c cnt output aux = (output c ^^ cnt) aux"

text \<open>The characters in \<open>buf\<close> up to \<open>cp\<close>; the array has 64 of them.\<close>

definition push :: "byte \<Rightarrow> byte list \<Rightarrow> byte list option" where
  "push c buf = do { ASSERT (length buf < 64); Some (buf @ [c]) }"

partial_function (option) digit_loop :: "integer_base \<Rightarrow> bool \<Rightarrow> nat \<Rightarrow> nat \<Rightarrow> byte list \<Rightarrow> byte list option" where
  "digit_loop b grp value digit_cnt buf =
     (if value > 0 then do {
        buf \<leftarrow> (if grp \<and> digit_cnt > 0 \<and> digit_cnt mod group_size b = 0 then push (ch CHR '','') buf else Some buf);
        buf \<leftarrow> push (digits b ! (value mod base b)) buf;
        digit_loop b grp (value div base b) (digit_cnt + 1) buf }
      else Some buf)"

declare digit_loop.simps [code]

function zero_loop :: "int \<Rightarrow> byte list \<Rightarrow> byte list option" where
  "zero_loop prec buf =
     (if int (length buf) < prec \<and> length buf < 63 then do { buf \<leftarrow> push (ch CHR ''0'') buf; zero_loop prec buf } else Some buf)"
  by pat_completeness auto
termination by (relation "measure (\<lambda>(_, buf). 64 - length buf)") (auto simp: push_def)

declare zero_loop.simps [simp del]

definition sign_char :: "bool \<Rightarrow> bool \<Rightarrow> printf_conversion \<Rightarrow> byte" where
  "sign_char is_signed negative c =
     (if is_signed then
        if PLUS c then if negative then ch CHR ''-'' else ch CHR ''+''
        else if SPACE c then if negative then ch CHR ''-'' else ch CHR '' ''
        else if negative then ch CHR ''-'' else 0
      else 0)"

definition format_integer :: "nat \<Rightarrow> bool \<Rightarrow> bool \<Rightarrow> integer_base \<Rightarrow> printf_conversion \<Rightarrow> (byte \<Rightarrow> 'a \<Rightarrow> 'a) \<Rightarrow> 'a \<Rightarrow> 'a option" where
  "format_integer value is_signed negative b c output aux = do {
     let sign = sign_char is_signed negative c;
     let x = (if POUND c \<and> value \<noteq> 0 then x_char b else 0);
     buf \<leftarrow> digit_loop b (GROUP c) value 0 [];
     buf \<leftarrow> zero_loop (if precision c < 0 then 1 else precision c) buf;
     buf \<leftarrow> (if POUND c \<and> base b = 8 \<and> (buf = [] \<or> last buf \<noteq> ch CHR ''0'') then push (ch CHR ''0'') buf else Some buf);
     let pad_cnt = nat (int32 (width c - int (length buf) - (if x \<noteq> 0 then 2 else 0) - of_bool (sign \<noteq> 0)));
     let aux = (if \<not> MINUS c \<and> \<not> ZERO c then output_dup (ch CHR '' '') pad_cnt output aux else aux);
     let aux = (if sign \<noteq> 0 then output sign aux else aux);
     let aux = (if x \<noteq> 0 then output x (output (ch CHR ''0'') aux) else aux);
     let aux = (if ZERO c then output_dup (ch CHR ''0'') pad_cnt output aux else aux);
     let aux = fold output (rev buf) aux;
     Some (if MINUS c then output_dup (ch CHR '' '') pad_cnt output aux else aux) }"

definition format_string :: "byte list \<Rightarrow> int \<Rightarrow> printf_conversion \<Rightarrow> (byte \<Rightarrow> 'a \<Rightarrow> 'a) \<Rightarrow> 'a \<Rightarrow> 'a" where
  "format_string str len c output aux =
     (let aux = (if width c > len \<and> \<not> MINUS c then output_dup (ch CHR '' '') (nat (width c - len)) output aux else aux);
          aux = fold output (take (nat len) str) aux
      in if width c > len \<and> MINUS c then output_dup (ch CHR '' '') (nat (width c - len)) output aux else aux)"

section \<open>The conversions of \<open>__vprintf\<close>\<close>

text \<open>\<open>SIZE_MAX\<close> and \<open>PTRDIFF_MAX\<close> are those of 32-bit types in \<open>stdint.h\<close>.\<close>

definition signed_value :: "conversion_type \<Rightarrow> 64 word \<Rightarrow> int" where
  "signed_value t w = (case t of
      CHAR_T \<Rightarrow> sint (ucast w :: 8 word)
    | SHORT \<Rightarrow> sint (ucast w :: 16 word)
    | INT_T \<Rightarrow> sint (ucast w :: 32 word)
    | SIZET \<Rightarrow> if sint w > (2 ^ 32 - 1) div 2 then sint w - (2 ^ 32 - 1) - 1 else sint w
    | _ \<Rightarrow> sint w)"

definition unsigned_value :: "conversion_type \<Rightarrow> 64 word \<Rightarrow> nat" where
  "unsigned_value t w = (case t of
      CHAR_T \<Rightarrow> unat (ucast w :: 8 word)
    | SHORT \<Rightarrow> unat (ucast w :: 16 word)
    | INT_T \<Rightarrow> unat (ucast w :: 32 word)
    | PTRDIFFT \<Rightarrow> unat (w AND (2 ^ 32 - 1))
    | _ \<Rightarrow> unat w)"

definition refusal :: "byte \<Rightarrow> string \<Rightarrow> byte list" where
  "refusal c why = ascii ''<<no %'' @ c # ascii why"

definition convert :: "byte \<Rightarrow> printf_conversion \<Rightarrow> va list \<Rightarrow> (byte \<Rightarrow> 'a \<Rightarrow> 'a) \<Rightarrow> 'a \<Rightarrow> (va list \<times> 'a) option" where
  "convert f c args output aux =
     (if f = ch CHR ''d'' \<or> f = ch CHR ''i'' then do {
        (w, args) \<leftarrow> va_num args;
        let value = signed_value (conv_type c) w;
        aux \<leftarrow> format_integer (nat \<bar>value\<bar>) True (value < 0) base_d c output aux;
        Some (args, aux) }
      else if f = ch CHR ''o'' \<or> f = ch CHR ''u'' \<or> f = ch CHR ''x'' \<or> f = ch CHR ''X'' then do {
        (w, args) \<leftarrow> va_num args;
        let b = (if f = ch CHR ''o'' then base_o else if f = ch CHR ''u'' then base_d else if f = ch CHR ''x'' then base_x else base_X);
        aux \<leftarrow> format_integer (unsigned_value (conv_type c) w) False False b c output aux;
        Some (args, aux) }
      else if f = ch CHR ''c'' then do {
        (w, args) \<leftarrow> va_num args;
        Some (args, format_string [ucast w] 1 c output aux) }
      else if f = ch CHR ''s'' then do {
        (s, args) \<leftarrow> va_str args;
        let s = (case s of None \<Rightarrow> ascii ''(null)'' | Some s \<Rightarrow> s);
        let len = (if precision c < 0 then length s else min (length s) (nat (precision c)));
        Some (args, format_string s (int32 (int len)) c output aux) }
      else if f = ch CHR ''p'' then do {
        (w, args) \<leftarrow> va_num args;
        aux \<leftarrow> format_integer (unat w) False False base_x (no_flags\<lparr>POUND := True, width := width c, precision := precision c, conv_type := conv_type c\<rparr>) output aux;
        Some (args, aux) }
      else if f \<in> set (ascii ''feEgGn'') then Some (args, fold output (refusal f '' in kernel>>'') aux)
      else Some (args, fold output (refusal f '' conversion>>'') aux))"

lemma parse_number_length: "length (snd (parse_number format n)) \<le> length format"
  by (induction format n rule: parse_number.induct) auto

lemma parse_flags_length: "length (snd (parse_flags format c)) \<le> length format"
  by (induction format c rule: parse_flags.induct) (simp_all add: le_SucI)

lemma parse_field_length: "parse_field format args = Some (n, format', args') \<Longrightarrow> length format' \<le> length format"
  using parse_number_length [of format 0] by (auto simp: parse_field_def bind_Some Let_def split: if_splits prod.splits)

lemma parse_type_length: "length (snd (parse_type format)) \<le> length format"
  by (simp add: parse_type_def Let_def)

lemma parse_conversion_length:
  assumes "parse_conversion format args = Some (c, format', args')"
  shows "length format' \<le> length format"
proof -
  obtain w f1 a1 p f2 a2 where "parse_field (snd (parse_flags format no_flags)) args = Some (w, f1, a1)"
      "(if peek f1 = ch CHR ''.'' then parse_field (tl f1) a1 else Some (- 1, f1, a1)) = Some (p, f2, a2)" "format' = snd (parse_type f2)"
    using assms unfolding parse_conversion_def by (fastforce simp: bind_Some Let_def case_prod_beta)
  note f = this
  have "length f2 \<le> length f1" using f(2) parse_field_length [of "tl f1"] by (cases "peek f1 = ch CHR ''.''") (simp, fastforce, simp)
  then show ?thesis using parse_flags_length [of format no_flags] parse_type_length [of f2] parse_field_length [OF f(1)] f(3) by simp
qed

text \<open>After a conversion the loop steps over the character it ends with, which may be the terminator.\<close>

function vprintf :: "byte list \<Rightarrow> va list \<Rightarrow> (byte \<Rightarrow> 'a \<Rightarrow> 'a) \<Rightarrow> 'a \<Rightarrow> 'a option" where
  "vprintf [] args output aux = Some aux"
| "vprintf (f # format) args output aux =
     (if f \<noteq> ch CHR ''%'' then vprintf format args output (output f aux)
      else if peek format = ch CHR ''%'' then vprintf (tl format) args output (output (ch CHR ''%'') aux)
      else do {
        (c, format, args) \<leftarrow> parse_conversion format args;
        (args, aux) \<leftarrow> convert (peek format) c args output aux;
        ASSERT (format \<noteq> []);
        vprintf (tl format) args output aux })"
  by pat_completeness auto
termination
  by (relation "measure (\<lambda>(format, _). length format)") (auto dest: parse_conversion_length simp: less_Suc_eq_le intro: le_trans [OF diff_le_self])

section \<open>\<open>vsnprintf\<close>\<close>

record vsnprintf_aux =
  buffer :: "byte list"
  out_length :: int
  max_length :: int

definition vsnprintf_helper :: "byte \<Rightarrow> vsnprintf_aux \<Rightarrow> vsnprintf_aux" where
  "vsnprintf_helper c a =
     (let full = \<not> out_length a < max_length a; a = a\<lparr>out_length := int32 (out_length a + 1)\<rparr>
      in if full then a else a\<lparr>buffer := buffer a @ [c]\<rparr>)"

text \<open>The bytes written to the buffer, and the result.\<close>

definition vsnprintf :: "nat \<Rightarrow> byte list \<Rightarrow> va list \<Rightarrow> (byte list \<times> int) option" where
  "vsnprintf buf_size format args = do {
     aux \<leftarrow> vprintf format args vsnprintf_helper \<lparr>buffer = [], out_length = 0, max_length = (if buf_size > 0 then int32 (int buf_size - 1) else 0)\<rparr>;
     Some (if buf_size > 0 then buffer aux @ [0] else buffer aux, out_length aux) }"

definition snprintf :: "nat \<Rightarrow> byte list \<Rightarrow> va list \<Rightarrow> (byte list \<times> int) option" where
  "snprintf buf_size format args = vsnprintf buf_size format args"

section \<open>\<open>hex_dump\<close>\<close>

definition isprint :: "byte \<Rightarrow> bool" where
  "isprint c \<longleftrightarrow> 32 \<le> c \<and> c < 127"

text \<open>One call of \<open>printf\<close>, and a loop of them over indices.\<close>

definition print :: "string \<Rightarrow> va list \<Rightarrow> (byte \<Rightarrow> 'a \<Rightarrow> 'a) \<Rightarrow> 'a \<Rightarrow> 'a option" where
  "print format args output aux = vprintf (ascii format) args output aux"

fun print_each :: "(nat \<Rightarrow> 'a \<Rightarrow> 'a option) \<Rightarrow> nat list \<Rightarrow> 'a \<Rightarrow> 'a option" where
  "print_each f [] aux = Some aux"
| "print_each f (i # is) aux = do { aux \<leftarrow> f i aux; print_each f is aux }"

definition per_line :: nat where "per_line = 16"

text \<open>A line: the bytes \<open>bs\<close> at the columns from \<open>start\<close> on.\<close>

definition hex_line :: "nat \<Rightarrow> nat \<Rightarrow> byte list \<Rightarrow> bool \<Rightarrow> (byte \<Rightarrow> 'a \<Rightarrow> 'a) \<Rightarrow> 'a \<Rightarrow> 'a option" where
  "hex_line ofs start bs asc output aux = do {
     let stop = start + length bs;
     aux \<leftarrow> print ''%016llx  '' [Num (of_nat (ofs div per_line * per_line))] output aux;
     aux \<leftarrow> print_each (\<lambda>i. print ''   '' [] output) [0..<start] aux;
     aux \<leftarrow> print_each (\<lambda>i. print ''%02hhx%c'' [Num (ucast (bs ! (i - start))), Num (ucast (if i = per_line div 2 - 1 then ch CHR ''-'' else ch CHR '' ''))] output) [start..<stop] aux;
     aux \<leftarrow> (if asc then do {
               aux \<leftarrow> print_each (\<lambda>i. print ''   '' [] output) [stop..<per_line] aux;
               aux \<leftarrow> print ''|'' [] output aux;
               aux \<leftarrow> print_each (\<lambda>i. print '' '' [] output) [0..<start] aux;
               aux \<leftarrow> print_each (\<lambda>i. print ''%c'' [Num (ucast (if isprint (bs ! (i - start)) then bs ! (i - start) else ch CHR ''.''))] output) [start..<stop] aux;
               aux \<leftarrow> print_each (\<lambda>i. print '' '' [] output) [stop..<per_line] aux;
               print ''|'' [] output aux }
             else Some aux);
     print [CHR 0x0A] [] output aux }"

function hex_dump :: "nat \<Rightarrow> byte list \<Rightarrow> bool \<Rightarrow> (byte \<Rightarrow> 'a \<Rightarrow> 'a) \<Rightarrow> 'a \<Rightarrow> 'a option" where
  "hex_dump ofs buf asc output aux =
     (if length buf > 0 then do {
        let start = ofs mod per_line;
        let n = (if per_line - start > length buf then length buf else per_line - start);
        aux \<leftarrow> hex_line ofs start (take n buf) asc output aux;
        hex_dump ((ofs + n) mod 2 ^ 64) (drop n buf) asc output aux }
      else Some aux)"
  by pat_completeness auto
termination
  by (relation "measure (\<lambda>(_, buf, _). length buf)") (auto simp: Let_def per_line_def)

declare hex_dump.simps [simp del]

end
