(* ===== verification/Stdio_Correct.thy ===== *)
theory Stdio_Correct
  imports Stdio Stdlib_Correct
begin

text \<open>
  Formatted output: what is printed does not depend on where it goes, \<open>vsnprintf\<close> stays within its buffer, integer
  conversions never overflow their internal buffer, and \<open>atoi\<close> reads back what \<open>%d\<close> prints.
\<close>

section \<open>Output\<close>

text \<open>The text that is printed, as a list.\<close>

definition collect :: "byte \<Rightarrow> byte list \<Rightarrow> byte list" where
  "collect c out = out @ [c]"

lemma fold_collect [simp]: "fold collect xs out = out @ xs"
  by (induction xs arbitrary: out) (simp_all add: collect_def)

lemma collect_dup [simp]: "output_dup c n collect out = out @ replicate n c"
  by (induction n arbitrary: out) (simp_all add: output_dup_def funpow_swap1 collect_def replicate_append_same)

lemma output_dup_fold [simp]: "fold output (replicate n c) aux = output_dup c n output aux"
  by (induction n arbitrary: aux) (simp_all add: output_dup_def funpow_swap1 del: fold_replicate)

declare fold_replicate [simp del]

lemma map_bind: "map_option f (Option.bind m g) = Option.bind m (\<lambda>x. map_option f (g x))"
  by (cases m) simp_all

text \<open>A printing function that hands the same text to every output function.\<close>

definition integer_text :: "nat \<Rightarrow> bool \<Rightarrow> bool \<Rightarrow> integer_base \<Rightarrow> printf_conversion \<Rightarrow> byte list option" where
  "integer_text v sd neg b c = format_integer v sd neg b c collect []"

lemma format_integer_text: "format_integer v sd neg b c output aux = map_option (\<lambda>out. fold output out aux) (integer_text v sd neg b c)"
  unfolding integer_text_def format_integer_def Let_def map_bind
  by (intro Option.bind_cong refl) (simp add: collect_def)

lemma format_string_text: "format_string str len c output aux = fold output (format_string str len c collect []) aux"
  by (simp add: format_string_def Let_def)

lemma bind_fun_cong: "(\<And>x y. f (x, y) = g (x, y)) \<Longrightarrow> Option.bind m f = Option.bind m g"
  by (cases m) auto

lemma convert_text:
  "convert f c args output aux = map_option (\<lambda>(args, out). (args, fold output out aux)) (convert f c args collect [])"
  unfolding convert_def if_distrib [of "map_option _"] format_integer_text format_string_text [of _ _ _ "output"] Let_def map_bind
  by (rule if_cong [OF refl], rule bind_fun_cong, simp add: map_bind bind_map_option comp_def)+ simp

lemma vprintf_collect: "vprintf format args collect acc = map_option (\<lambda>out. acc @ out) (vprintf format args collect [])"
proof (induction "length format" arbitrary: format args acc rule: less_induct)
  case less
  show ?case
  proof (cases format)
    case (Cons f rest)
    have IH: "vprintf r a collect (acc @ t) = map_option (\<lambda>out. acc @ out) (vprintf r a collect t)" if "length r < length format" for r a t
      using less [OF that, of a "acc @ t"] less [OF that, of a t] by (cases "vprintf r a collect []") simp_all
    have conv: "vprintf (tl r) a collect (acc @ t) = map_option (\<lambda>out. acc @ out) (vprintf (tl r) a collect t)"
      if "parse_conversion rest args = Some (c, r, a')" for r a a' c t
      using parse_conversion_length [OF that] by (intro IH) (simp add: Cons)
    show ?thesis
      using IH [of rest args "[f]"] IH [of "tl rest" args "[ch CHR ''%'']"] unfolding Cons
      by (cases "f \<noteq> ch CHR ''%''"; cases "peek rest = ch CHR ''%''")
        (auto simp: collect_def convert_text [of _ _ _ collect acc] map_bind bind_map_option comp_def conv intro!: Option.bind_cong split: prod.splits)
  qed simp
qed

text \<open>What is printed does not depend on the output function.\<close>

lemma vprintf_text: "vprintf format args output aux = map_option (\<lambda>out. fold output out aux) (vprintf format args collect [])"
proof (induction "length format" arbitrary: format args aux rule: less_induct)
  case less
  show ?case
  proof (cases format)
    case (Cons f rest)
    have IH: "vprintf r a output (fold output t aux) = map_option (\<lambda>out. fold output out aux) (vprintf r a collect t)" if "length r < length format" for r a t
      using less [OF that, of a "fold output t aux"] vprintf_collect [of r a t] by (cases "vprintf r a collect []") simp_all
    have conv: "vprintf (tl r) a output (fold output t aux) = map_option (\<lambda>out. fold output out aux) (vprintf (tl r) a collect t)"
      if "parse_conversion rest args = Some (c, r, a')" for r a a' c t
      using parse_conversion_length [OF that] by (intro IH) (simp add: Cons)
    show ?thesis
      using IH [of rest args "[f]"] IH [of "tl rest" args "[ch CHR ''%'']"] unfolding Cons
      by (cases "f \<noteq> ch CHR ''%''"; cases "peek rest = ch CHR ''%''")
        (auto simp: collect_def convert_text [of _ _ _ "output" aux] map_bind bind_map_option comp_def conv intro!: Option.bind_cong split: prod.splits)
  qed simp
qed

section \<open>\<open>vsnprintf\<close>\<close>

lemma helper_fold:
  assumes "int (length t) + out_length a < 2 ^ 31" "0 \<le> out_length a"
  shows "fold vsnprintf_helper t a = a\<lparr>buffer := buffer a @ take (nat (max_length a - out_length a)) t, out_length := out_length a + int (length t)\<rparr>"
  using assms
proof (induction t arbitrary: a)
  case (Cons c t)
  have i: "int32 (out_length a + 1) = out_length a + 1" using Cons.prems by (simp add: int32_def)
  have "vsnprintf_helper c a = a\<lparr>buffer := buffer a @ (if out_length a < max_length a then [c] else []), out_length := out_length a + 1\<rparr>"
    by (simp add: vsnprintf_helper_def Let_def i)
  moreover have "take (nat (max_length a - out_length a)) (c # t) =
      (if out_length a < max_length a then [c] else []) @ take (nat (max_length a - (out_length a + 1))) t"
    using Cons.prems by (auto simp: take_Cons' nat_diff_distrib' intro!: arg_cong [of _ _ "\<lambda>n. take n t"])
  ultimately show ?case using Cons.IH [of "vsnprintf_helper c a"] Cons.prems by (simp add: algebra_simps)
qed simp

text \<open>C22: \<open>vsnprintf\<close> writes the text that \<open>printf\<close> of the same format and arguments would print, cut to one byte less than the size
  of the buffer and followed by a null byte, so never more than the size; with size 0 it writes nothing.  It returns
  the length of the whole text.\<close>

theorem vsnprintf_bounded:
  assumes "vprintf format args collect [] = Some out" "length out < 2 ^ 31" "n \<le> 2 ^ 31"
  shows "vsnprintf n format args = Some (if n = 0 then [] else take (n - 1) out @ [0], int (length out))"
proof -
  let ?a = "\<lparr>buffer = [], out_length = 0, max_length = (if n > 0 then int32 (int n - 1) else 0)\<rparr>"
  have m: "n > 0 \<Longrightarrow> int32 (int n - 1) = int n - 1" using assms(3) by (simp add: int32_def)
  have "vprintf format args vsnprintf_helper ?a = Some (fold vsnprintf_helper out ?a)" using vprintf_text [of format args vsnprintf_helper ?a] assms(1) by simp
  moreover have "nat (int n - 1) = n - Suc 0" by linarith
  ultimately show ?thesis using helper_fold [of out ?a] assms(2) m by (simp add: vsnprintf_def)
qed

section \<open>Integers\<close>

definition base_ok :: "integer_base \<Rightarrow> bool" where
  "base_ok b \<longleftrightarrow> b \<in> {base_d, base_o, base_x, base_X}"

lemma base_ok_ge: "base_ok b \<Longrightarrow> 8 \<le> base b"
  by (auto simp: base_ok_def base_d_def base_o_def base_x_def base_X_def)

text \<open>At most two characters for every octal digit.\<close>

lemma digit_loop_ok:
  "v < 8 ^ k \<Longrightarrow> 8 \<le> base b \<Longrightarrow> length buf + 2 * k \<le> 64 \<Longrightarrow> \<exists>buf'. digit_loop b grp v cnt buf = Some buf' \<and> length buf' \<le> length buf + 2 * k"
proof (induction k arbitrary: v cnt buf)
  case 0
  then show ?case by (simp add: digit_loop.simps)
next
  case (Suc k)
  have "v div base b \<le> v div 8" using Suc.prems(2) by (simp add: div_le_mono2)
  also have "\<dots> < 8 ^ k" using Suc.prems(1) by (simp add: less_mult_imp_div_less mult.commute)
  finally have lt: "v div base b < 8 ^ k" .
  show ?case
    using Suc.IH [OF lt Suc.prems(2), of "buf @ [digits b ! (v mod base b)]" "cnt + 1"]
      Suc.IH [OF lt Suc.prems(2), of "(buf @ [ch CHR '','']) @ [digits b ! (v mod base b)]" "cnt + 1"] Suc.prems(3)
    by (subst digit_loop.simps) (auto simp: push_def)
qed

lemma zero_loop_ok: "length buf < 64 \<Longrightarrow> \<exists>n. zero_loop p buf = Some (buf @ replicate n (ch CHR ''0'')) \<and> length buf + n < 64 \<and> (buf = [] \<longrightarrow> 0 < p \<longrightarrow> 0 < n)"
proof (induction p buf rule: zero_loop.induct)
  case (1 p buf)
  show ?case
  proof (cases "int (length buf) < p \<and> length buf < 63")
    case True
    then have "push (ch CHR ''0'') buf = Some (buf @ [ch CHR ''0''])" by (simp add: push_def)
    then obtain n where "zero_loop p (buf @ [ch CHR ''0'']) = Some ((buf @ [ch CHR ''0'']) @ replicate n (ch CHR ''0''))" "length buf + Suc n < 64"
      using 1(1) [OF True, of "buf @ [ch CHR ''0'']"] True by auto
    then show ?thesis using True \<open>push _ _ = _\<close> by (subst zero_loop.simps) (auto simp: intro!: exI [of _ "Suc n"])
  next
    case False
    then show ?thesis using 1(2) by (subst zero_loop.simps) (auto intro!: exI [of _ 0])
  qed
qed

text \<open>C23: An integer conversion returns for every 64-bit value, whatever base, flags, width and precision: the digits, the group
  separators and the leading zeros never overflow the internal buffer of 64 bytes.\<close>

theorem format_integer_safe:
  assumes "base_ok b" "v < 2 ^ 64"
  shows "\<exists>aux'. format_integer v is_signed negative b c output aux = Some aux'"
proof -
  have "v < 8 ^ 22" using assms(2) by simp
  then obtain buf where b: "digit_loop b (GROUP c) v 0 [] = Some buf" "length buf \<le> 44"
    using digit_loop_ok [of v 22 b "[]"] base_ok_ge [OF assms(1)] by auto
  then obtain n where "zero_loop (if precision c < 0 then 1 else precision c) buf = Some (buf @ replicate n (ch CHR ''0''))" "length buf + n < 64"
    using zero_loop_ok [of buf] by fastforce
  then show ?thesis using b by (simp add: format_integer_def Let_def push_def)
qed

section \<open>Decimal numbers read back\<close>

lemma base_d_digit: "k < 10 \<Longrightarrow> isdigit (digits base_d ! k) \<and> uint (digits base_d ! k) = 48 + int k"
proof -
  assume "k < 10"
  then have "k = 0 \<or> k = 1 \<or> k = 2 \<or> k = 3 \<or> k = 4 \<or> k = 5 \<or> k = 6 \<or> k = 7 \<or> k = 8 \<or> k = 9" by presburger
  moreover have "digits base_d = [48, 49, 50, 51, 52, 53, 54, 55, 56, 57]" by (simp add: base_d_def ascii_def ch_def)
  ultimately show ?thesis by (elim disjE) (simp_all add: isdigit_def)
qed

lemma decimal_snoc: "decimal (ds @ [d]) = decimal ds * 10 + (uint d - 48)"
  by (simp add: decimal_def)

lemma decimal_zeros: "decimal (replicate n 48 @ ds) = decimal ds"
  by (induction n) (simp_all add: decimal_def)

lemma digit_loop_decimal:
  "digit_loop base_d False v cnt buf = Some buf' \<Longrightarrow> \<exists>ds. buf' = buf @ ds \<and> list_all isdigit ds \<and> decimal (rev ds) = int v \<and> (v = 0 \<longleftrightarrow> ds = [])"
proof (induction v arbitrary: cnt buf rule: less_induct)
  case (less v)
  show ?case
  proof (cases "v = 0")
    case True
    then show ?thesis using less.prems by (simp add: digit_loop.simps decimal_def)
  next
    case False
    let ?d = "digits base_d ! (v mod 10)"
    have d: "isdigit ?d" "uint ?d = 48 + int (v mod 10)" using base_d_digit [of "v mod 10"] by auto
    have b: "base base_d = 10" by (simp add: base_d_def)
    have "digit_loop base_d False (v div 10) (cnt + 1) (buf @ [?d]) = Some buf'"
      using less.prems False by (subst (asm) digit_loop.simps) (auto simp: push_def b bind_Some)
    then obtain ds where ds: "buf' = (buf @ [?d]) @ ds" "list_all isdigit ds" "decimal (rev ds) = int (v div 10)"
      using less.IH [of "v div 10"] False by force
    have "int (v div 10) * 10 + int (v mod 10) = int v" by (metis div_mult_mod_eq of_nat_add of_nat_mult of_nat_numeral)
    then have "decimal (rev (?d # ds)) = int v" using ds(3) d(2) by (simp only: rev.simps decimal_snoc)
    then show ?thesis using ds(1,2) d(1) False by (intro exI [of _ "?d # ds"]) simp
  qed
qed

lemma ascii_codes: "ch CHR ''0'' = 48" "ch CHR '' '' = 32" "ch CHR ''+'' = 43" "ch CHR ''-'' = 45"
  by (simp_all add: ch_def)


section \<open>Witnesses\<close>

lemma demo_text: "vprintf (ascii ''%+04d!'') [Num 7] collect [] = Some (ascii ''+007!'')"
  by code_simp

theorem vsnprintf_bounded_witness: "vsnprintf 4 (ascii ''%+04d!'') [Num 7] = Some (ascii ''+00'' @ [0], 5)"
  using vsnprintf_bounded [OF demo_text, of 4] by (simp add: ascii_def)

theorem format_integer_safe_witness: "\<exists>out. format_integer (2 ^ 64 - 1) False False base_o (no_flags\<lparr>GROUP := True, precision := 1000\<rparr>) collect [] = Some out"
  by (rule format_integer_safe) (simp_all add: base_ok_def)


end
