(* ===== verification/User_Lib.thy ===== *)
theory User_Lib
  imports Syscall_Properties Stdio_Correct
begin

text \<open>
  The user library: the system-call stubs of \<open>lib/user/syscall.c\<close>, which load the registers and enter the kernel, and
  the buffered console output of \<open>lib/user/console.c\<close>.
\<close>

section \<open>Entering the kernel\<close>

text \<open>The \<open>syscall\<close> instruction, on the stack pointer \<open>rsp\<close>: the kernel sees the registers in an interrupt frame from user mode.
  The result is the value left in \<open>rax\<close>, or nothing when the process does not come back.\<close>

definition syscall :: "sys \<Rightarrow> nat \<Rightarrow> dir_entry \<Rightarrow> nat \<Rightarrow> nat \<Rightarrow> nat \<Rightarrow> nat \<Rightarrow> nat \<Rightarrow> nat \<Rightarrow> nat \<Rightarrow> (nat option \<times> sys) option" where
  "syscall s rsp junk num a1 a2 a3 a4 a5 a6 = do {
     (e, f, s) \<leftarrow> syscall_handler s \<lparr>rax = num, rdi = a1, rsi = a2, rdx = a3, r10 = a4, r8 = a5, r9 = a6, frame_cs = SEL_UCSEG, frame_rsp = rsp\<rparr> junk;
     Some (if e = Returned then Some (rax f) else None, s) }"

definition syscall0 :: "sys \<Rightarrow> nat \<Rightarrow> dir_entry \<Rightarrow> nat \<Rightarrow> (nat option \<times> sys) option" where
  "syscall0 s rsp junk num = syscall s rsp junk num 0 0 0 0 0 0"

definition syscall1 :: "sys \<Rightarrow> nat \<Rightarrow> dir_entry \<Rightarrow> nat \<Rightarrow> nat \<Rightarrow> (nat option \<times> sys) option" where
  "syscall1 s rsp junk num a = syscall s rsp junk num a 0 0 0 0 0"

definition syscall2 :: "sys \<Rightarrow> nat \<Rightarrow> dir_entry \<Rightarrow> nat \<Rightarrow> nat \<Rightarrow> nat \<Rightarrow> (nat option \<times> sys) option" where
  "syscall2 s rsp junk num a b = syscall s rsp junk num a b 0 0 0 0"

definition syscall3 :: "sys \<Rightarrow> nat \<Rightarrow> dir_entry \<Rightarrow> nat \<Rightarrow> nat \<Rightarrow> nat \<Rightarrow> nat \<Rightarrow> (nat option \<times> sys) option" where
  "syscall3 s rsp junk num a b c = syscall s rsp junk num a b c 0 0 0"

definition syscall5 :: "sys \<Rightarrow> nat \<Rightarrow> dir_entry \<Rightarrow> nat \<Rightarrow> nat \<Rightarrow> nat \<Rightarrow> nat \<Rightarrow> nat \<Rightarrow> nat \<Rightarrow> (nat option \<times> sys) option" where
  "syscall5 s rsp junk num a b c d e = syscall s rsp junk num a b c d e 0"

text \<open>The conversion of an \<open>int\<close> to a register, and of the register back to an \<open>int\<close>, to a \<open>bool\<close> and to nothing.\<close>

definition reg :: "int \<Rightarrow> nat" where
  "reg i = nat (i mod 2 ^ 64)"

definition as_int :: "(nat option \<times> sys) option \<Rightarrow> (int option \<times> sys) option" where
  "as_int m = do { (r, s) \<leftarrow> m; Some (map_option (\<lambda>x. int32 (int x)) r, s) }"

definition as_unsigned :: "(nat option \<times> sys) option \<Rightarrow> (nat option \<times> sys) option" where
  "as_unsigned m = do { (r, s) \<leftarrow> m; Some (map_option (\<lambda>x. x mod 2 ^ 32) r, s) }"

definition as_bool :: "(nat option \<times> sys) option \<Rightarrow> (bool option \<times> sys) option" where
  "as_bool m = do { (r, s) \<leftarrow> m; Some (map_option (\<lambda>x. x \<noteq> 0) r, s) }"

definition as_void :: "(nat option \<times> sys) option \<Rightarrow> (unit option \<times> sys) option" where
  "as_void m = do { (r, s) \<leftarrow> m; Some (map_option (\<lambda>_. ()) r, s) }"

definition SYS_HALT :: nat where "SYS_HALT = 0"
definition SYS_EXIT :: nat where "SYS_EXIT = 1"
definition SYS_CREATE :: nat where "SYS_CREATE = 5"
definition SYS_REMOVE :: nat where "SYS_REMOVE = 6"
definition SYS_OPEN :: nat where "SYS_OPEN = 7"
definition SYS_FILESIZE :: nat where "SYS_FILESIZE = 8"
definition SYS_READ :: nat where "SYS_READ = 9"
definition SYS_WRITE :: nat where "SYS_WRITE = 10"
definition SYS_SEEK :: nat where "SYS_SEEK = 11"
definition SYS_TELL :: nat where "SYS_TELL = 12"
definition SYS_CLOSE :: nat where "SYS_CLOSE = 13"
definition SYS_MMAP :: nat where "SYS_MMAP = 14"
definition SYS_MUNMAP :: nat where "SYS_MUNMAP = 15"
definition SYS_CHDIR :: nat where "SYS_CHDIR = 16"
definition SYS_MKDIR :: nat where "SYS_MKDIR = 17"
definition SYS_READDIR :: nat where "SYS_READDIR = 18"
definition SYS_ISDIR :: nat where "SYS_ISDIR = 19"
definition SYS_INUMBER :: nat where "SYS_INUMBER = 20"
definition SYS_SYMLINK :: nat where "SYS_SYMLINK = 21"
definition SYS_DUP2 :: nat where "SYS_DUP2 = 22"
definition SYS_MOUNT :: nat where "SYS_MOUNT = 23"
definition SYS_UMOUNT :: nat where "SYS_UMOUNT = 24"

lemmas sys_numbers = SYS_HALT_def SYS_EXIT_def SYS_CREATE_def SYS_REMOVE_def SYS_OPEN_def SYS_FILESIZE_def SYS_READ_def SYS_WRITE_def SYS_SEEK_def
  SYS_TELL_def SYS_CLOSE_def SYS_MMAP_def SYS_MUNMAP_def SYS_CHDIR_def SYS_MKDIR_def SYS_READDIR_def SYS_ISDIR_def SYS_INUMBER_def
  SYS_SYMLINK_def SYS_DUP2_def SYS_MOUNT_def SYS_UMOUNT_def

section \<open>The stubs\<close>

definition halt_stub :: "sys \<Rightarrow> nat \<Rightarrow> dir_entry \<Rightarrow> (unit option \<times> sys) option" where
  "halt_stub s rsp junk = as_void (syscall0 s rsp junk SYS_HALT)"

definition exit_stub :: "sys \<Rightarrow> nat \<Rightarrow> dir_entry \<Rightarrow> int \<Rightarrow> (unit option \<times> sys) option" where
  "exit_stub s rsp junk status = as_void (syscall1 s rsp junk SYS_EXIT (reg status))"

definition create_stub :: "sys \<Rightarrow> nat \<Rightarrow> dir_entry \<Rightarrow> nat \<Rightarrow> nat \<Rightarrow> (bool option \<times> sys) option" where
  "create_stub s rsp junk name initial_size = as_bool (syscall2 s rsp junk SYS_CREATE name initial_size)"

definition remove_stub :: "sys \<Rightarrow> nat \<Rightarrow> dir_entry \<Rightarrow> nat \<Rightarrow> (bool option \<times> sys) option" where
  "remove_stub s rsp junk name = as_bool (syscall1 s rsp junk SYS_REMOVE name)"

definition open_stub :: "sys \<Rightarrow> nat \<Rightarrow> dir_entry \<Rightarrow> nat \<Rightarrow> (int option \<times> sys) option" where
  "open_stub s rsp junk name = as_int (syscall1 s rsp junk SYS_OPEN name)"

definition filesize_stub :: "sys \<Rightarrow> nat \<Rightarrow> dir_entry \<Rightarrow> int \<Rightarrow> (int option \<times> sys) option" where
  "filesize_stub s rsp junk fd = as_int (syscall1 s rsp junk SYS_FILESIZE (reg fd))"

definition read_stub :: "sys \<Rightarrow> nat \<Rightarrow> dir_entry \<Rightarrow> int \<Rightarrow> nat \<Rightarrow> nat \<Rightarrow> (int option \<times> sys) option" where
  "read_stub s rsp junk fd buf sz = as_int (syscall3 s rsp junk SYS_READ (reg fd) buf sz)"

definition write_stub :: "sys \<Rightarrow> nat \<Rightarrow> dir_entry \<Rightarrow> int \<Rightarrow> nat \<Rightarrow> nat \<Rightarrow> (int option \<times> sys) option" where
  "write_stub s rsp junk fd buf sz = as_int (syscall3 s rsp junk SYS_WRITE (reg fd) buf sz)"

definition seek_stub :: "sys \<Rightarrow> nat \<Rightarrow> dir_entry \<Rightarrow> int \<Rightarrow> nat \<Rightarrow> (unit option \<times> sys) option" where
  "seek_stub s rsp junk fd position = as_void (syscall2 s rsp junk SYS_SEEK (reg fd) position)"

definition tell_stub :: "sys \<Rightarrow> nat \<Rightarrow> dir_entry \<Rightarrow> int \<Rightarrow> (nat option \<times> sys) option" where
  "tell_stub s rsp junk fd = as_unsigned (syscall1 s rsp junk SYS_TELL (reg fd))"

definition close_stub :: "sys \<Rightarrow> nat \<Rightarrow> dir_entry \<Rightarrow> int \<Rightarrow> (unit option \<times> sys) option" where
  "close_stub s rsp junk fd = as_void (syscall1 s rsp junk SYS_CLOSE (reg fd))"

definition dup2_stub :: "sys \<Rightarrow> nat \<Rightarrow> dir_entry \<Rightarrow> int \<Rightarrow> int \<Rightarrow> (int option \<times> sys) option" where
  "dup2_stub s rsp junk oldfd newfd = as_int (syscall2 s rsp junk SYS_DUP2 (reg oldfd) (reg newfd))"

definition mmap_stub :: "sys \<Rightarrow> nat \<Rightarrow> dir_entry \<Rightarrow> nat \<Rightarrow> nat \<Rightarrow> int \<Rightarrow> int \<Rightarrow> int \<Rightarrow> (nat option \<times> sys) option" where
  "mmap_stub s rsp junk addr len w fd offset = syscall5 s rsp junk SYS_MMAP addr len (reg w) (reg fd) (reg offset)"

definition munmap_stub :: "sys \<Rightarrow> nat \<Rightarrow> dir_entry \<Rightarrow> nat \<Rightarrow> (unit option \<times> sys) option" where
  "munmap_stub s rsp junk addr = as_void (syscall1 s rsp junk SYS_MUNMAP addr)"

text \<open>The calls of the fourth project, which the kernel does not have.\<close>

definition chdir_stub :: "sys \<Rightarrow> nat \<Rightarrow> dir_entry \<Rightarrow> nat \<Rightarrow> (bool option \<times> sys) option" where
  "chdir_stub s rsp junk dir = as_bool (syscall1 s rsp junk SYS_CHDIR dir)"

definition mkdir_stub :: "sys \<Rightarrow> nat \<Rightarrow> dir_entry \<Rightarrow> nat \<Rightarrow> (bool option \<times> sys) option" where
  "mkdir_stub s rsp junk dir = as_bool (syscall1 s rsp junk SYS_MKDIR dir)"

definition readdir_stub :: "sys \<Rightarrow> nat \<Rightarrow> dir_entry \<Rightarrow> int \<Rightarrow> nat \<Rightarrow> (bool option \<times> sys) option" where
  "readdir_stub s rsp junk fd name = as_bool (syscall2 s rsp junk SYS_READDIR (reg fd) name)"

definition isdir_stub :: "sys \<Rightarrow> nat \<Rightarrow> dir_entry \<Rightarrow> int \<Rightarrow> (bool option \<times> sys) option" where
  "isdir_stub s rsp junk fd = as_bool (syscall1 s rsp junk SYS_ISDIR (reg fd))"

definition inumber_stub :: "sys \<Rightarrow> nat \<Rightarrow> dir_entry \<Rightarrow> int \<Rightarrow> (int option \<times> sys) option" where
  "inumber_stub s rsp junk fd = as_int (syscall1 s rsp junk SYS_INUMBER (reg fd))"

definition symlink_stub :: "sys \<Rightarrow> nat \<Rightarrow> dir_entry \<Rightarrow> nat \<Rightarrow> nat \<Rightarrow> (int option \<times> sys) option" where
  "symlink_stub s rsp junk target linkpath = as_int (syscall2 s rsp junk SYS_SYMLINK target linkpath)"

definition mount_stub :: "sys \<Rightarrow> nat \<Rightarrow> dir_entry \<Rightarrow> nat \<Rightarrow> int \<Rightarrow> int \<Rightarrow> (int option \<times> sys) option" where
  "mount_stub s rsp junk path chan_no dev_no = as_int (syscall3 s rsp junk SYS_MOUNT path (reg chan_no) (reg dev_no))"

definition umount_stub :: "sys \<Rightarrow> nat \<Rightarrow> dir_entry \<Rightarrow> nat \<Rightarrow> (int option \<times> sys) option" where
  "umount_stub s rsp junk path = as_int (syscall1 s rsp junk SYS_UMOUNT path)"

section \<open>Console output\<close>

text \<open>\<open>wr\<close> is the call \<open>write\<close> on a handle, with the bytes of the buffer.\<close>

record 'w vhprintf_aux =
  hbuf :: "byte list"
  char_cnt :: int
  handle :: int
  written :: 'w

definition flush :: "(int \<Rightarrow> byte list \<Rightarrow> 'w \<Rightarrow> 'w) \<Rightarrow> 'w vhprintf_aux \<Rightarrow> 'w vhprintf_aux" where
  "flush wr a = (let a = (if hbuf a \<noteq> [] then a\<lparr>written := wr (handle a) (hbuf a) (written a)\<rparr> else a) in a\<lparr>hbuf := []\<rparr>)"

definition add_char :: "(int \<Rightarrow> byte list \<Rightarrow> 'w \<Rightarrow> 'w) \<Rightarrow> byte \<Rightarrow> 'w vhprintf_aux \<Rightarrow> 'w vhprintf_aux" where
  "add_char wr c a =
     (let a = a\<lparr>hbuf := hbuf a @ [c]\<rparr>; a = (if length (hbuf a) \<ge> 64 then flush wr a else a)
      in a\<lparr>char_cnt := int32 (char_cnt a + 1)\<rparr>)"

definition vhprintf :: "(int \<Rightarrow> byte list \<Rightarrow> 'w \<Rightarrow> 'w) \<Rightarrow> int \<Rightarrow> byte list \<Rightarrow> va list \<Rightarrow> 'w \<Rightarrow> (int \<times> 'w) option" where
  "vhprintf wr h format args w = do {
     aux \<leftarrow> vprintf format args (add_char wr) \<lparr>hbuf = [], char_cnt = 0, handle = h, written = w\<rparr>;
     let aux = flush wr aux;
     Some (char_cnt aux, written aux) }"

definition hprintf :: "(int \<Rightarrow> byte list \<Rightarrow> 'w \<Rightarrow> 'w) \<Rightarrow> int \<Rightarrow> byte list \<Rightarrow> va list \<Rightarrow> 'w \<Rightarrow> (int \<times> 'w) option" where
  "hprintf wr h format args w = vhprintf wr h format args w"

definition user_vprintf :: "(int \<Rightarrow> byte list \<Rightarrow> 'w \<Rightarrow> 'w) \<Rightarrow> byte list \<Rightarrow> va list \<Rightarrow> 'w \<Rightarrow> (int \<times> 'w) option" where
  "user_vprintf wr format args w = vhprintf wr 1 format args w"

definition putchar :: "(int \<Rightarrow> byte list \<Rightarrow> 'w \<Rightarrow> 'w) \<Rightarrow> int \<Rightarrow> 'w \<Rightarrow> int \<times> 'w" where
  "putchar wr c w = (c, wr 1 [word_of_int c] w)"

definition puts :: "(int \<Rightarrow> byte list \<Rightarrow> 'w \<Rightarrow> 'w) \<Rightarrow> byte list \<Rightarrow> 'w \<Rightarrow> int \<times> 'w" where
  "puts wr str w = (let w = wr 1 str w; (_, w) = putchar wr 10 w in (0, w))"

section \<open>The stubs call the kernel's functions\<close>

text \<open>The result of a kernel function as its stub delivers it.\<close>

definition delivers :: "('a \<Rightarrow> 'b) \<Rightarrow> ('a outcome \<times> sys) option \<Rightarrow> ('b option \<times> sys) option" where
  "delivers f m = do { (r, s) \<leftarrow> m; Some (case r of Ret x \<Rightarrow> Some (f x) | Exit _ \<Rightarrow> None, s) }"

definition on_stack :: "sys \<Rightarrow> nat \<Rightarrow> sys" where
  "on_stack s rsp = s\<lparr>vmem := (vmem s)\<lparr>user_rsp := rsp\<rparr>\<rparr>"

lemma int32_mod64: "int32 (x mod 2 ^ 64) = int32 x"
proof -
  have "(2 :: int) ^ 32 dvd 2 ^ 64" by (rule le_imp_power_dvd) simp
  then have "x mod 2 ^ 64 mod 2 ^ 32 = x mod (2 ^ 32 :: int)" by (rule mod_mod_cancel)
  then have "(x mod 2 ^ 64 mod 2 ^ 32 + 2 ^ 31) mod 2 ^ 32 = (x mod 2 ^ 32 + 2 ^ 31) mod (2 ^ 32 :: int)" by (rule arg_cong)
  then show ?thesis unfolding int32_def mod_add_left_eq by simp
qed

lemma int32_small: "- (2 ^ 31) \<le> i \<Longrightarrow> i < 2 ^ 31 \<Longrightarrow> int32 i = i"
  by (simp add: int32_def)

lemma reg_int: "int (reg i) = i mod 2 ^ 64"
  by (simp add: reg_def)

lemma reg_arg: "- (2 ^ 31) \<le> i \<Longrightarrow> i < 2 ^ 31 \<Longrightarrow> int_arg (reg i) = i"
  unfolding int_arg_def reg_int int32_mod64 by (rule int32_small)

lemma bind_assoc: "Option.bind (Option.bind m f) g = Option.bind m (\<lambda>x. Option.bind (f x) g)"
  by (cases m) simp_all

lemma ret_int_delivers: "as_int (do { (e, f, s) \<leftarrow> ret_int f m; Some (if e = Returned then Some (rax f) else None, s) }) = delivers int32 m"
proof (cases m)
  case (Some y)
  then show ?thesis using int32_mod64 by (cases y) (auto simp: as_int_def delivers_def ret_int_def split: outcome.split)
qed (simp add: as_int_def delivers_def ret_int_def)

lemma ret_bool_delivers: "as_bool (do { (e, f, s) \<leftarrow> ret_bool f m; Some (if e = Returned then Some (rax f) else None, s) }) = delivers id m"
proof (cases m)
  case (Some y)
  then show ?thesis by (cases y) (auto simp: as_bool_def delivers_def ret_bool_def split: outcome.split)
qed (simp add: as_bool_def delivers_def ret_bool_def)

lemma ret_void_delivers: "as_void (do { (e, f, s) \<leftarrow> ret_void f m; Some (if e = Returned then Some (rax f) else None, s) }) = map_option (\<lambda>s. (Some (), s)) m"
  by (cases m) (simp_all add: as_void_def ret_void_def)

lemmas stub_defs = syscall_def syscall0_def syscall1_def syscall2_def syscall3_def syscall5_def syscall_handler_def Let_def sys_numbers on_stack_def

lemma map_bindS: "map_option f m = Option.bind m (\<lambda>x. Some (f x))"
  by (cases m) simp_all

lemma mod_mod64: "x mod 18446744073709551616 mod 4294967296 = x mod (4294967296 :: nat)"
  by (rule mod_mod_cancel) simp

lemma reg_nonzero: "int_arg (reg w) \<noteq> 0 \<longleftrightarrow> w mod 2 ^ 32 \<noteq> 0"
proof -
  have "(w + 2 ^ 31) mod 2 ^ 32 = (2 ^ 31) mod (2 ^ 32 :: int) \<longleftrightarrow> w mod 2 ^ 32 = 0"
    using mod_eq_dvd_iff [of "w + 2 ^ 31" "2 ^ 32" "2 ^ 31"] by (simp add: dvd_eq_mod_eq_0)
  then show ?thesis unfolding int_arg_def reg_int int32_mod64 by (simp add: int32_def)
qed

lemma stub_calls:
  assumes fd: "- (2 ^ 31) \<le> fd" "fd < 2 ^ 31" and fd': "- (2 ^ 31) \<le> fd'" "fd' < 2 ^ 31" and n: "n < 2 ^ 32"
  shows "write_stub s rsp junk fd a n = delivers int32 (sys_write (on_stack s rsp) fd a n)"
    and "read_stub s rsp junk fd a n = delivers int32 (sys_read (on_stack s rsp) fd a n)"
    and "open_stub s rsp junk a = delivers int32 (sys_open (on_stack s rsp) a)"
    and "create_stub s rsp junk a n = delivers id (sys_create (on_stack s rsp) a n junk)"
    and "remove_stub s rsp junk a = delivers id (sys_remove (on_stack s rsp) a)"
    and "close_stub s rsp junk fd = map_option (\<lambda>s. (Some (), s)) (sys_close (on_stack s rsp) fd)"
    and "seek_stub s rsp junk fd n = map_option (\<lambda>s. (Some (), s)) (sys_seek (on_stack s rsp) fd n)"
    and "dup2_stub s rsp junk fd fd' = delivers int32 (map_option (\<lambda>(r, s). (Ret r, s)) (sys_dup2 (on_stack s rsp) fd fd'))"
    and "munmap_stub s rsp junk a = map_option (\<lambda>s. (Some (), s)) (sys_munmap (on_stack s rsp) a)"
    and "chdir_stub s rsp junk a = Some (None, on_stack s rsp)"
    and "filesize_stub s rsp junk fd = delivers int32 (map_option (\<lambda>x. (Ret x, on_stack s rsp)) (sys_filesize (on_stack s rsp) fd))"
    and "tell_stub s rsp junk fd = map_option (\<lambda>x. (Some (x mod 2 ^ 32), on_stack s rsp)) (sys_tell (on_stack s rsp) fd)"
    and "0 \<le> fd' \<Longrightarrow> mmap_stub s rsp junk a len w fd fd' = map_option (\<lambda>(r, s). (Some r, s)) (sys_mmap (on_stack s rsp) a len (w mod 2 ^ 32 \<noteq> 0) fd (nat fd'))"
proof -
  have u: "unsigned_arg n = n" using n by (simp add: unsigned_arg_def)
  show "write_stub s rsp junk fd a n = delivers int32 (sys_write (on_stack s rsp) fd a n)"
    unfolding write_stub_def stub_defs by (simp add: reg_arg [OF fd] u ret_int_delivers)
  show "read_stub s rsp junk fd a n = delivers int32 (sys_read (on_stack s rsp) fd a n)"
    unfolding read_stub_def stub_defs by (simp add: reg_arg [OF fd] u ret_int_delivers)
  show "open_stub s rsp junk a = delivers int32 (sys_open (on_stack s rsp) a)"
    unfolding open_stub_def stub_defs by (simp add: ret_int_delivers)
  show "create_stub s rsp junk a n = delivers id (sys_create (on_stack s rsp) a n junk)"
    unfolding create_stub_def stub_defs by (simp add: u ret_bool_delivers)
  show "remove_stub s rsp junk a = delivers id (sys_remove (on_stack s rsp) a)"
    unfolding remove_stub_def stub_defs by (simp add: ret_bool_delivers)
  show "close_stub s rsp junk fd = map_option (\<lambda>s. (Some (), s)) (sys_close (on_stack s rsp) fd)"
    unfolding close_stub_def stub_defs by (simp add: reg_arg [OF fd] ret_void_delivers)
  show "seek_stub s rsp junk fd n = map_option (\<lambda>s. (Some (), s)) (sys_seek (on_stack s rsp) fd n)"
    unfolding seek_stub_def stub_defs by (simp add: reg_arg [OF fd] u ret_void_delivers)
  show "dup2_stub s rsp junk fd fd' = delivers int32 (map_option (\<lambda>(r, s). (Ret r, s)) (sys_dup2 (on_stack s rsp) fd fd'))"
    unfolding dup2_stub_def stub_defs by (cases "sys_dup2 (s\<lparr>vmem := (vmem s)\<lparr>user_rsp := rsp\<rparr>\<rparr>) fd fd'") (auto simp: reg_arg [OF fd] reg_arg [OF fd'] ret_int_delivers)
  show "filesize_stub s rsp junk fd = delivers int32 (map_option (\<lambda>x. (Ret x, on_stack s rsp)) (sys_filesize (on_stack s rsp) fd))"
    unfolding filesize_stub_def stub_defs by (simp add: reg_arg [OF fd] ret_int_delivers map_bindS)
  show "tell_stub s rsp junk fd = map_option (\<lambda>x. (Some (x mod 2 ^ 32), on_stack s rsp)) (sys_tell (on_stack s rsp) fd)"
    unfolding tell_stub_def stub_defs by (cases "sys_tell (s\<lparr>vmem := (vmem s)\<lparr>user_rsp := rsp\<rparr>\<rparr>) fd") (simp_all add: reg_arg [OF fd] ret_int_def as_unsigned_def nat_mod_distrib nat_power_eq mod_mod64)
  show "mmap_stub s rsp junk a len w fd fd' = map_option (\<lambda>(r, s). (Some r, s)) (sys_mmap (on_stack s rsp) a len (w mod 2 ^ 32 \<noteq> 0) fd (nat fd'))" if "0 \<le> fd'"
    unfolding mmap_stub_def stub_defs using that by (simp add: reg_arg [OF fd] reg_arg [OF fd'] reg_nonzero bind_assoc map_bindS case_prod_beta)
  show "munmap_stub s rsp junk a = map_option (\<lambda>s. (Some (), s)) (sys_munmap (on_stack s rsp) a)"
    unfolding munmap_stub_def stub_defs by (simp add: ret_void_delivers)
  show "chdir_stub s rsp junk a = Some (None, on_stack s rsp)"
    unfolding chdir_stub_def stub_defs by (simp add: as_bool_def)
qed

text \<open>Every call of the fourth project ends the process.\<close>

lemma missing_calls_exit:
  "mkdir_stub s rsp junk a = Some (None, on_stack s rsp)" "readdir_stub s rsp junk fd a = Some (None, on_stack s rsp)"
  "isdir_stub s rsp junk fd = Some (None, on_stack s rsp)" "inumber_stub s rsp junk fd = Some (None, on_stack s rsp)"
  "symlink_stub s rsp junk a b = Some (None, on_stack s rsp)" "mount_stub s rsp junk a fd fd' = Some (None, on_stack s rsp)"
  "umount_stub s rsp junk a = Some (None, on_stack s rsp)"
  unfolding mkdir_stub_def readdir_stub_def isdir_stub_def inumber_stub_def symlink_stub_def mount_stub_def umount_stub_def stub_defs
  by (simp_all add: as_bool_def as_int_def)


section \<open>What the console output writes\<close>

text \<open>The blocks in which the buffer is written.\<close>

fun chunks :: "byte list \<Rightarrow> byte list \<Rightarrow> byte list list" where
  "chunks buf [] = (if buf = [] then [] else [buf])"
| "chunks buf (c # cs) = (if length buf + 1 \<ge> 64 then (buf @ [c]) # chunks [] cs else chunks (buf @ [c]) cs)"

lemma chunks_concat: "concat (chunks buf cs) = buf @ cs"
  by (induction buf cs rule: chunks.induct) auto

lemma chunks_size: "length buf < 64 \<Longrightarrow> b \<in> set (chunks buf cs) \<Longrightarrow> b \<noteq> [] \<and> length b \<le> 64"
  by (induction buf cs rule: chunks.induct) (auto split: if_splits)

lemma add_chars:
  "length (hbuf a) < 64 \<Longrightarrow> 0 \<le> char_cnt a \<Longrightarrow> char_cnt a + int (length cs) < 2 ^ 31 \<Longrightarrow>
   flush wr (fold (add_char wr) cs a) = a\<lparr>hbuf := [], char_cnt := char_cnt a + int (length cs), written := fold (wr (handle a)) (chunks (hbuf a) cs) (written a)\<rparr>"
proof (induction cs arbitrary: a)
  case Nil
  then show ?case by (simp add: flush_def Let_def)
next
  case (Cons c cs)
  let ?a = "add_char wr c a"
  have i: "int32 (char_cnt a + 1) = char_cnt a + 1" using Cons.prems by (simp add: int32_def)
  have a: "?a = (if length (hbuf a) + 1 \<ge> 64 then a\<lparr>hbuf := [], char_cnt := char_cnt a + 1, written := wr (handle a) (hbuf a @ [c]) (written a)\<rparr>
      else a\<lparr>hbuf := hbuf a @ [c], char_cnt := char_cnt a + 1\<rparr>)"
    by (simp add: add_char_def flush_def Let_def i)
  have "length (hbuf ?a) < 64" "char_cnt ?a = char_cnt a + 1" using Cons.prems(1) by (auto simp: a)
  with Cons.IH [of ?a] Cons.prems show ?case by (auto simp: a)
qed

text \<open>The formatted output of a user program: \<open>vhprintf\<close> hands the text of the format and its arguments to \<open>write\<close>, all of it and in
  order, in blocks of at most 64 bytes none of which is empty, and returns the length of the text.\<close>

theorem vhprintf_writes:
  assumes "vprintf format args collect [] = Some out" "length out < 2 ^ 31"
  shows "\<exists>bs. vhprintf wr h format args w = Some (int (length out), fold (wr h) bs w) \<and> concat bs = out \<and> (\<forall>b \<in> set bs. b \<noteq> [] \<and> length b \<le> 64)"
proof (intro exI conjI)
  let ?a = "\<lparr>hbuf = [], char_cnt = 0, handle = h, written = w\<rparr>"
  have "vprintf format args (add_char wr) ?a = Some (fold (add_char wr) out ?a)" using vprintf_text [of format args "add_char wr" ?a] assms(1) by simp
  then show "vhprintf wr h format args w = Some (int (length out), fold (wr h) (chunks [] out) w)"
    using add_chars [of ?a out wr] assms(2) by (simp add: vhprintf_def)
  show "concat (chunks [] out) = out" by (simp add: chunks_concat)
  show "\<forall>b \<in> set (chunks [] out). b \<noteq> [] \<and> length b \<le> 64" using chunks_size [of "[]"] by auto
qed

section \<open>Witnesses\<close>

theorem vhprintf_writes_witness:
  "\<exists>bs. vhprintf (\<lambda>h b t. t @ b) 1 (ascii ''%+04d!'') [Num 7] [] = Some (5, fold (\<lambda>b t. t @ b) bs []) \<and> concat bs = ascii ''+007!''"
  using vhprintf_writes [OF demo_text, of "\<lambda>h b t. t @ b" 1 "[]"] by (auto simp: ascii_def)


end
