(* ===== verification/Loader.thy ===== *)
theory Loader
  imports Syscall_Correct
begin

text \<open>
  Loading an executable: the ELF headers, \<open>validate_segment\<close> and \<open>load\<close> of \<open>userprog/process.c\<close>, up to the arguments on the
  stack, which \<open>Argument_Passing\<close> has.  The program headers are read as in the default configuration, without \<open>WSL\<close>.  The
  messages on the console and the activation of the new page table are left out.
\<close>

section \<open>ELF headers\<close>

definition le_num :: "8 word list \<Rightarrow> nat \<Rightarrow> nat \<Rightarrow> nat" where
  "le_num bs i n = foldr (\<lambda>b v. unat b + 256 * v) (take n (drop i bs)) 0"

record ELF64_hdr =
  e_ident :: "8 word list"
  e_type :: nat
  e_machine :: nat
  e_version :: nat
  e_entry :: nat
  e_phoff :: nat
  e_phentsize :: nat
  e_phnum :: nat

record ELF64_PHDR =
  p_type :: nat
  p_flags :: nat
  p_offset :: nat
  p_vaddr :: nat
  p_filesz :: nat
  p_memsz :: nat

definition EHDR_SIZE :: nat where "EHDR_SIZE = 64"
definition PHDR_SIZE :: nat where "PHDR_SIZE = 56"

definition decode_ehdr :: "8 word list \<Rightarrow> ELF64_hdr" where
  "decode_ehdr bs = \<lparr>e_ident = take 16 bs, e_type = le_num bs 16 2, e_machine = le_num bs 18 2, e_version = le_num bs 20 4, e_entry = le_num bs 24 8,
     e_phoff = le_num bs 32 8, e_phentsize = le_num bs 54 2, e_phnum = le_num bs 56 2\<rparr>"

definition decode_phdr :: "8 word list \<Rightarrow> ELF64_PHDR" where
  "decode_phdr bs = \<lparr>p_type = le_num bs 0 4, p_flags = le_num bs 4 4, p_offset = le_num bs 8 8, p_vaddr = le_num bs 16 8, p_filesz = le_num bs 32 8,
     p_memsz = le_num bs 40 8\<rparr>"

definition PT_LOAD :: nat where "PT_LOAD = 1"
definition PT_DYNAMIC :: nat where "PT_DYNAMIC = 2"
definition PT_INTERP :: nat where "PT_INTERP = 3"
definition PT_SHLIB :: nat where "PT_SHLIB = 5"
definition PF_W :: nat where "PF_W = 2"

definition header_ok :: "ELF64_hdr \<Rightarrow> bool" where
  "header_ok e \<longleftrightarrow> take 7 (e_ident e) = [0x7f, 0x45, 0x4c, 0x46, 2, 1, 1] \<and> e_type e = 2 \<and> e_machine e = 0x3E \<and> e_version e = 1 \<and>
     e_phentsize e = PHDR_SIZE \<and> e_phnum e \<le> 1024"

section \<open>Segments\<close>

text \<open>Sums of addresses and sizes have 64 bits.\<close>

definition validate_segment :: "ELF64_PHDR \<Rightarrow> nat \<Rightarrow> bool" where
  "validate_segment phdr flen =
     (if p_offset phdr mod PGSIZE \<noteq> p_vaddr phdr mod PGSIZE then False
      else if p_offset phdr > flen then False
      else if p_memsz phdr < p_filesz phdr then False
      else if p_memsz phdr = 0 then False
      else if \<not> is_user_vaddr (p_vaddr phdr) then False
      else if \<not> is_user_vaddr ((p_vaddr phdr + p_memsz phdr) mod 2 ^ 64) then False
      else if (p_vaddr phdr + p_memsz phdr) mod 2 ^ 64 < p_vaddr phdr then False
      else if p_vaddr phdr < PGSIZE then False
      else True)"

definition round_up :: "nat \<Rightarrow> nat \<Rightarrow> nat" where
  "round_up x step = (x + step - 1) div step * step"

text \<open>The file page, the memory page and the numbers of bytes that are read and cleared; the numbers have 32 bits.\<close>

definition segment_args :: "ELF64_PHDR \<Rightarrow> nat \<times> nat \<times> nat \<times> nat" where
  "segment_args phdr =
     (let file_page = pg_round_down (p_offset phdr);
          mem_page = pg_round_down (p_vaddr phdr);
          page_offset = p_vaddr phdr mod PGSIZE;
          (read_bytes, zero_bytes) =
            (if p_filesz phdr > 0 then
               let rb = (page_offset + p_filesz phdr) mod 2 ^ 32
               in (rb, nat ((int (round_up (page_offset + p_memsz phdr) PGSIZE) - int rb) mod 2 ^ 32))
             else (0, round_up (page_offset + p_memsz phdr) PGSIZE mod 2 ^ 32))
      in (file_page, mem_page, read_bytes, zero_bytes))"

fun program_headers :: "sys \<Rightarrow> ptr \<Rightarrow> int \<Rightarrow> nat \<Rightarrow> (bool \<times> sys) option" where
  "program_headers s f file_ofs 0 = Some (True, s)"
| "program_headers s f file_ofs (Suc n) = do {
     len \<leftarrow> Inode.file_length (files s) f;
     if file_ofs < 0 \<or> file_ofs > int len then Some (False, s)
     else do {
       fsys \<leftarrow> file_seek (files s) f file_ofs;
       let s = set_files s fsys;
       (bs, fsys) \<leftarrow> file_read (files s) f PHDR_SIZE;
       let s = set_files s fsys;
       let phdr = decode_phdr bs;
       let file_ofs = int32 (file_ofs + int PHDR_SIZE);
       if length bs \<noteq> PHDR_SIZE then Some (False, s)
       else if p_type phdr = PT_DYNAMIC \<or> p_type phdr = PT_INTERP \<or> p_type phdr = PT_SHLIB then Some (False, s)
       else if p_type phdr = PT_LOAD then do {
         len \<leftarrow> Inode.file_length (files s) f;
         if validate_segment phdr len then do {
           let (file_page, mem_page, read_bytes, zero_bytes) = segment_args phdr;
           (ok, v) \<leftarrow> load_segment fs_ops (vmem s) f file_page mem_page read_bytes zero_bytes (odd (p_flags phdr div PF_W));
           let s = s\<lparr>vmem := v\<rparr>;
           if ok then program_headers s f file_ofs n else Some (False, s) }
         else Some (False, s) }
       else program_headers s f file_ofs n } }"

section \<open>\<open>load\<close>\<close>

definition load_done :: "sys \<Rightarrow> ptr \<Rightarrow> 'a \<Rightarrow> ('a \<times> sys) option" where
  "load_done s f result = do { fsys \<leftarrow> Inode.file_close (files s) f; Some (result, set_files s fsys) }"

text \<open>From the executable header on, with the file open.  The result is the entry point and the stack pointer.\<close>

definition load_file :: "sys \<Rightarrow> ptr \<Rightarrow> ((nat \<times> nat option) option \<times> sys) option" where
  "load_file s f = do {
     (bs, fsys) \<leftarrow> file_read (files s) f EHDR_SIZE;
     let s = set_files s fsys;
     let ehdr = decode_ehdr bs;
     if length bs \<noteq> EHDR_SIZE \<or> \<not> header_ok ehdr then load_done s f None
     else do {
       (ok, s) \<leftarrow> program_headers s f (int32 (int (e_phoff ehdr))) (e_phnum ehdr);
       if \<not> ok then load_done s f None
       else do {
         ((ok, rsp), v) \<leftarrow> setup_stack fs_ops (vmem s);
         load_done (s\<lparr>vmem := v\<rparr>) f (if ok then Some (e_entry ehdr, rsp) else None) } } }"

text \<open>\<open>file_name\<close> is the first word of the command line.\<close>

definition load :: "sys \<Rightarrow> 8 word list \<Rightarrow> ((nat \<times> nat option) option \<times> sys) option" where
  "load s file_name = do {
     (p, m) \<leftarrow> pml4_create (mem (vmem s)) (base_pml4 (vmem s));
     let s = s\<lparr>vmem := (vmem s)\<lparr>mem := m, pml4 := p\<rparr>\<rparr>;
     if p = NULL then load_done s NULL None
     else do {
       s \<leftarrow> lock_files s;
       (f, fsys) \<leftarrow> filesys_open (files s) (Some file_name);
       s \<leftarrow> unlock_files (set_files s fsys);
       if f = NULL then load_done s NULL None else load_file s f } }"

end
