(* ===== verification/Loader_Correct.thy ===== *)
theory Loader_Correct
  imports Loader Syscall_Properties
begin

text \<open>
  What loading an executable guarantees.  A segment that \<open>validate_segment\<close> lets pass lies in user space, its pages
  too, and every byte of it goes to the address the header gives; \<open>load\<close> leaves the descriptors of the process and the
  lock of the file system as they were, on every path.
\<close>

section \<open>Segments\<close>

lemma pg_round_down_mod [simp]: "pg_round_down a mod PGSIZE = 0"
  by (simp add: pg_round_down_def minus_mod_eq_mult_div)

lemma pg_round_down_ofs: "pg_round_down a + a mod PGSIZE = a"
  by (simp add: pg_round_down_def)

lemma round_up_PGSIZE: "round_up n PGSIZE mod PGSIZE = 0" "n \<le> round_up n PGSIZE" "round_up n PGSIZE < n + PGSIZE"
proof -
  have "n + 4095 = (n + 4095) div 4096 * 4096 + (n + 4095) mod 4096" "(n + 4095) mod 4096 < 4096" by simp_all
  then show "n \<le> round_up n PGSIZE" "round_up n PGSIZE < n + PGSIZE" unfolding round_up_def PGSIZE_val by linarith+
qed (simp add: round_up_def)

lemma round_up_mono: "m \<le> n \<Longrightarrow> n mod PGSIZE = 0 \<Longrightarrow> round_up m PGSIZE \<le> n"
proof -
  assume "m \<le> n" "n mod PGSIZE = 0"
  then obtain k where "n = 4096 * k" "m + 4095 \<le> 4096 * k + 4095" by (auto simp: PGSIZE_val)
  moreover have "(m + 4095) div 4096 \<le> (4096 * k + 4095) div 4096" using calculation(2) by (rule div_le_mono)
  ultimately show ?thesis unfolding round_up_def PGSIZE_val by simp
qed

lemma validate_segmentD:
  assumes "validate_segment ph flen" "p_vaddr ph < 2 ^ 64" "p_memsz ph < 2 ^ 64"
  shows "p_offset ph mod PGSIZE = p_vaddr ph mod PGSIZE" "p_offset ph \<le> flen" "p_filesz ph \<le> p_memsz ph" "0 < p_memsz ph"
    "PGSIZE \<le> p_vaddr ph" "p_vaddr ph + p_memsz ph < KERN_BASE"
proof -
  have v: "p_vaddr ph < KERN_BASE" "(p_vaddr ph + p_memsz ph) mod 2 ^ 64 < KERN_BASE" "p_vaddr ph \<le> (p_vaddr ph + p_memsz ph) mod 2 ^ 64"
    using assms(1) by (auto simp: validate_segment_def is_user_vaddr_def is_kernel_vaddr_def split: if_splits)
  show "p_vaddr ph + p_memsz ph < KERN_BASE"
  proof (cases "p_vaddr ph + p_memsz ph < 2 ^ 64")
    case False
    then have "(p_vaddr ph + p_memsz ph) mod 2 ^ 64 = p_vaddr ph + p_memsz ph - 2 ^ 64" using assms(2,3) by (simp add: le_mod_geq)
    then show ?thesis using v(3) assms(3) False by simp
  qed (use v in simp)
qed (use assms(1) in \<open>auto simp: validate_segment_def split: if_splits\<close>)

lemma segment_pages:
  assumes "validate_segment ph flen" "p_vaddr ph < 2 ^ 64" "p_memsz ph \<le> 2 ^ 32 - 2 * PGSIZE" "segment_args ph = (fp, mp, rd, zr)"
  shows "fp = pg_round_down (p_offset ph)" "mp = pg_round_down (p_vaddr ph)"
    "rd = (if p_filesz ph > 0 then p_vaddr ph mod PGSIZE + p_filesz ph else 0)"
    "rd + zr = round_up (p_vaddr ph mod PGSIZE + p_memsz ph) PGSIZE"
proof -
  let ?o = "p_vaddr ph mod PGSIZE"
  have m: "p_memsz ph < 2 ^ 64" using assms(3) by (simp add: PGSIZE_val)
  note v = validate_segmentD [OF assms(1,2) m]
  have o: "?o < PGSIZE" by (simp add: PGSIZE_val)
  have r: "round_up (?o + p_memsz ph) PGSIZE < 2 ^ 32" "?o + p_filesz ph \<le> round_up (?o + p_memsz ph) PGSIZE"
    using round_up_PGSIZE [of "?o + p_memsz ph"] o assms(3) v(3) by (auto simp: PGSIZE_val)
  then have "(int (round_up (?o + p_memsz ph) PGSIZE) - int (?o + p_filesz ph)) mod 2 ^ 32 = int (round_up (?o + p_memsz ph) PGSIZE) - int (?o + p_filesz ph)"
    by (intro mod_pos_pos_trivial) auto
  moreover have "(?o + p_filesz ph) mod 2 ^ 32 = ?o + p_filesz ph" using r by simp
  ultimately show "fp = pg_round_down (p_offset ph)" "mp = pg_round_down (p_vaddr ph)"
    "rd = (if p_filesz ph > 0 then ?o + p_filesz ph else 0)" "rd + zr = round_up (?o + p_memsz ph) PGSIZE"
    using assms(4) r by (auto simp: segment_args_def Let_def split: if_splits)
qed

lemma segment_facts:
  assumes "validate_segment ph flen" "p_vaddr ph < 2 ^ 64" "p_memsz ph \<le> 2 ^ 32 - 2 * PGSIZE" "segment_args ph = (fp, mp, rd, zr)"
  shows "load_segment ops v f fp mp rd zr w = load_segment_loop ops v f fp mp rd zr w"
    and "PGSIZE \<le> mp" "mp \<le> p_vaddr ph" "p_vaddr ph + p_memsz ph \<le> mp + (rd + zr)" "mp + (rd + zr) \<le> KERN_BASE"
    and "p_offset ph - fp = p_vaddr ph - mp" "p_filesz ph > 0 \<Longrightarrow> fp + rd = p_offset ph + p_filesz ph" "p_filesz ph = 0 \<Longrightarrow> rd = 0"
proof -
  have m: "p_memsz ph < 2 ^ 64" using assms(3) by (simp add: PGSIZE_val)
  note v = validate_segmentD [OF assms(1,2) m]
  note a = segment_pages [OF assms]
  let ?o = "p_vaddr ph mod PGSIZE"
  have mp: "mp + ?o = p_vaddr ph" and fp: "fp + ?o = p_offset ph" using a(1,2) pg_round_down_ofs v(1) by metis+
  have al: "mp mod PGSIZE = 0" "fp mod PGSIZE = 0" "(rd + zr) mod PGSIZE = 0" using a round_up_PGSIZE(1) by simp_all
  then show "load_segment ops v f fp mp rd zr w = load_segment_loop ops v f fp mp rd zr w" by (simp add: load_segment_def pg_ofs_def)
  show "mp \<le> p_vaddr ph" "p_offset ph - fp = p_vaddr ph - mp" using mp fp by linarith+
  show "PGSIZE \<le> mp" using mp v(5) al(1) by (metis dvd_eq_mod_eq_0 dvd_imp_le mod_less_divisor add.commute add_0 le_antisym less_imp_le not_less PGSIZE_val zero_less_numeral neq0_conv)
  show "p_vaddr ph + p_memsz ph \<le> mp + (rd + zr)" using mp a(4) round_up_PGSIZE(2) [of "?o + p_memsz ph"] by linarith
  have "KERN_BASE mod PGSIZE = 0" "mp \<le> KERN_BASE" using mp v(6) by (simp_all add: KERN_BASE_def PGSIZE_val)
  then have "(KERN_BASE - mp) mod PGSIZE = 0" using al(1) by (metis dvd_diff_nat dvd_eq_mod_eq_0)
  then have "rd + zr \<le> KERN_BASE - mp" unfolding a(4) by (rule round_up_mono [rotated]) (use mp v(6) in linarith)
  then show "mp + (rd + zr) \<le> KERN_BASE" using \<open>mp \<le> KERN_BASE\<close> by linarith
  show "p_filesz ph > 0 \<Longrightarrow> fp + rd = p_offset ph + p_filesz ph" "p_filesz ph = 0 \<Longrightarrow> rd = 0" using a(3) fp by simp_all
qed


definition demo_phdr :: ELF64_PHDR where
  "demo_phdr = \<lparr>p_type = PT_LOAD, p_flags = 6, p_offset = 0x1234, p_vaddr = 0x402234, p_filesz = 0x1100, p_memsz = 0x2000\<rparr>"


text \<open>Above that size the counts lose their high bits: a segment of exactly 4 GiB is accepted and gets no page.\<close>

lemma large_segment_dropped:
  assumes "p_filesz ph = 0" "p_memsz ph = 2 ^ 32" "p_vaddr ph = 0x400000" "p_offset ph = 0" "p_flags ph = 4"
  shows "validate_segment ph flen \<and> segment_args ph = (0, 0x400000, 0, 0) \<and> load_segment ops v f 0 0x400000 0 0 w = Some (True, v)"
  using assms
  by (simp add: validate_segment_def segment_args_def round_up_def pg_round_down_def PGSIZE_val is_user_vaddr_def is_kernel_vaddr_def KERN_BASE_def load_segment_def pg_ofs_def
      load_segment_loop.simps)

section \<open>Loading leaves the descriptors alone\<close>

context vm_frame
begin

lemma keeps_load_segment_loop [vm_wp]: "holds_fs J b v \<Longrightarrow> (\<And>r v'. holds_fs J b v' \<Longrightarrow> Q (r, v')) \<Longrightarrow> post Q (load_segment_loop ops v f k a rd zr w)"
proof (induction "rd + zr" arbitrary: v k a rd zr rule: less_induct)
  case less
  have step: "holds_fs J b v' \<Longrightarrow>
    rd' + zr' < rd + zr \<Longrightarrow> post Q (load_segment_loop ops v' f k' a' rd' zr' w)" for v' k' a' rd' zr'
    by (rule less.hyps) (use less.prems(2) in auto)
  show ?case by (subst load_segment_loop.simps) (auto simp: Let_def less.prems PGSIZE_val simp del: post_if split: if_split intro!: vm_wp step)
qed

lemma keeps_load_segment [vm_wp]: "holds_fs J b v \<Longrightarrow> (\<And>r v'. holds_fs J b v' \<Longrightarrow> Q (r, v')) \<Longrightarrow> post Q (load_segment ops v f k a rd zr w)"
  by (auto simp: load_segment_def intro!: vm_wp)

lemma keeps_vm_claim_page [vm_wp]: "holds_fs J b v \<Longrightarrow> (\<And>r v'. holds_fs J b v' \<Longrightarrow> Q (r, v')) \<Longrightarrow> post Q (vm_claim_page ops v a)"
  by (auto simp: vm_claim_page_def intro!: vm_wp)

lemma keeps_setup_stack [vm_wp]: "holds_fs J b v \<Longrightarrow> (\<And>r v'. holds_fs J b v' \<Longrightarrow> Q (r, v')) \<Longrightarrow> post Q (setup_stack ops v)"
  by (auto simp: setup_stack_def Let_def intro!: vm_wp)

end

interpretation co: vm_frame fs_ops "counts_to c ms" b for c ms b
proof
  fix f p n k and bs :: "8 word list"
  assume g: "counts_to c ms f"
  show "post (\<lambda>(_, f'). counts_to c ms f') (file_ops.file_read_at fs_ops f p n k)" using g by (auto simp: fs_ops_def file_ops.make_def intro!: ct.keeps_file_read_at)
  show "post (counts_to c ms) (file_ops.file_write_at fs_ops f p bs k)"
    using postD [OF ct.keeps_file_write_at [OF g], of "\<lambda>(_, f'). counts_to c ms f'" p bs k] by (auto simp: fs_ops_def file_ops.make_def post_def)
  show "post (\<lambda>(_, f'). counts_to c ms f') (file_ops.file_reopen fs_ops f p)" using g by (auto simp: fs_ops_def file_ops.make_def intro!: ct.keeps_file_reopen)
qed

text \<open>Nothing but the objects of the file system may have changed since \<open>s0\<close>, and no counter among them.\<close>

definition same_counts :: "sys \<Rightarrow> sys \<Rightarrow> bool" where
  "same_counts s0 s \<longleftrightarrow> fds s = fds s0 \<and> holds_fs (counts_to (dups (files s0)) (mallocs (files s0))) (locked s0) (vmem s)"

lemma same_counts_refl [simp]: "same_counts s s"
  by (simp add: same_counts_def holds_fs_def)

lemma same_counts_ok: "same_counts s0 s \<Longrightarrow> fds_ok e s0 \<Longrightarrow> fds_ok e s \<and> locked s = locked s0"
  using fds_ok_same [of e s0 s] by (auto simp: same_counts_def holds_fs_def)

lemma same_counts_vmem: "same_counts s0 s \<Longrightarrow> holds_fs (counts_to (dups (files s0)) (mallocs (files s0))) (locked s0) v \<Longrightarrow> same_counts s0 (s\<lparr>vmem := v\<rparr>)"
  by (simp add: same_counts_def)

lemma same_counts_files: "same_counts s0 s \<Longrightarrow> counts_to (dups (files s0)) (mallocs (files s0)) f \<Longrightarrow> same_counts s0 (set_files s f)"
  by (simp add: same_counts_def set_files_def)

lemma same_counts_wp:
  assumes "same_counts s0 s"
  shows "(\<And>r f. same_counts s0 (set_files s f) \<Longrightarrow> A (r, f)) \<Longrightarrow> post A (file_read (files s) p n)"
    "(\<And>f. same_counts s0 (set_files s f) \<Longrightarrow> B f) \<Longrightarrow> post B (file_seek (files s) p k)"
    "(\<And>r v. same_counts s0 (s\<lparr>vmem := v\<rparr>) \<Longrightarrow> C (r, v)) \<Longrightarrow> post C (load_segment fs_ops (vmem s) p ofs1 a rd zr w)"
    "(\<And>r v. same_counts s0 (s\<lparr>vmem := v\<rparr>) \<Longrightarrow> D (r, v)) \<Longrightarrow> post D (setup_stack fs_ops (vmem s))"
proof -
  let ?c = "counts_to (dups (files s0)) (mallocs (files s0))"
  have v: "holds_fs ?c (locked s0) (vmem s)" using assms by (simp add: same_counts_def)
  then have c: "?c (files s)" by (simp add: holds_fs_def)
  show "(\<And>r f. same_counts s0 (set_files s f) \<Longrightarrow> A (r, f)) \<Longrightarrow> post A (file_read (files s) p n)"
    "(\<And>f. same_counts s0 (set_files s f) \<Longrightarrow> B f) \<Longrightarrow> post B (file_seek (files s) p k)"
    by (auto intro: counts_file_ops [OF c] same_counts_files [OF assms])
  show "(\<And>r v. same_counts s0 (s\<lparr>vmem := v\<rparr>) \<Longrightarrow> C (r, v)) \<Longrightarrow> post C (load_segment fs_ops (vmem s) p ofs1 a rd zr w)"
    "(\<And>r v. same_counts s0 (s\<lparr>vmem := v\<rparr>) \<Longrightarrow> D (r, v)) \<Longrightarrow> post D (setup_stack fs_ops (vmem s))"
    by (rule co.keeps_load_segment [OF v] co.keeps_setup_stack [OF v]; use same_counts_vmem [OF assms] in blast)+
qed

lemma program_headers_keeps: "same_counts s0 s \<Longrightarrow> post (\<lambda>(_, s'). same_counts s0 s') (program_headers s f k n)"
proof (induction n arbitrary: s k)
  case (Suc n)
  show ?case using Suc.prems supply set_files_simps(2) [simp del]
    by (auto simp: Let_def simp del: post_if split: if_split prod.split intro!: inv_reads same_counts_wp Suc.IH)
qed simp

lemma fds_ok_cong: "fds s' = fds s \<Longrightarrow> files s' = files s \<Longrightarrow> fds_ok e s' = fds_ok e s"
  by (simp add: fds_ok_def fds_def)

lemma load_done_inv:
  assumes "fd_inv s" "f = NULL \<or> fds_ok [f] s"
  shows "post (\<lambda>(_, s'). fd_inv s' \<and> locked s' = locked s \<and> fd_table s' = fd_table s) (load_done s f r)"
proof (cases "f = NULL")
  case False
  then have ok: "fds_ok [f] s" using assms(2) by simp
  have "f \<noteq> STDIN" "f \<noteq> STDOUT" using fds_ok_fields(4,5) [OF ok] fds_ok_fields(4,5) [OF assms(1)] by auto
  then have obj: "is_object f" using False by (simp add: is_object_def)
  have f: "f \<notin> set (mallocs (files s))" "dups (files s) f = Some (int (count_list (fd_table s) f) + 1)" using fds_ok_object [OF ok _ obj] by auto
  then have out: "f \<notin> set (fd_table s)" using fds_ok_object [OF assms(1) _ obj] by auto
  have "fd_inv (set_files s fsys)" if "counts_to ((dups (files s))(f := None)) (mallocs (files s)) (files (set_files s fsys))" for fsys
    by (rule fds_okI [OF assms(1) that]) (use out fds_ok_fields [OF assms(1)] fds_ok_object [OF assms(1)] in auto)
  then show ?thesis unfolding load_done_def by (auto intro!: counts_file_close [OF counts_to_self f(1) False])
qed (use assms(1) fds_ok_cong [of "set_files s (files s)" s] in \<open>simp add: load_done_def file_close_def\<close>)

lemma load_opened:
  assumes "fd_inv s" "fds_ok [f] s" "\<not> locked s" "fd_table s = tab" "same_counts s s'"
  shows "post (\<lambda>(_, s'). fd_inv s' \<and> \<not> locked s' \<and> fd_table s' = tab) (load_done s' f r)"
  by (rule post_mono [OF load_done_inv])
    (use same_counts_ok [OF assms(5)] assms in \<open>auto simp: same_counts_def fds_def\<close>)

lemma load_file_inv:
  assumes "fd_inv s" "fds_ok [f] s" "\<not> locked s" "fd_table s = tab"
  shows "post (\<lambda>(_, s'). fd_inv s' \<and> \<not> locked s' \<and> fd_table s' = tab) (load_file s f)"
proof -
  have headers: "post Q (program_headers s' f k n)" if "same_counts s s'" "\<And>r s'. same_counts s s' \<Longrightarrow> Q (r, s')" for Q s' f k n
    by (rule post_mono [OF program_headers_keeps]) (use that in auto)
  show ?thesis unfolding load_file_def Let_def supply set_files_simps(2) [simp del]
    by (auto simp del: post_if split: if_split intro!: same_counts_wp headers load_opened [OF assms])
qed

text \<open>Whatever the file holds, \<open>load\<close> closes what it opened: the descriptors of the process are the same and counted, and the
  lock of the file system is free.\<close>

lemma load_keeps_descriptors:
  assumes "fd_inv s" "\<not> locked s"
  shows "post (\<lambda>(_, s'). fd_inv s' \<and> \<not> locked s' \<and> fd_table s' = fd_table s) (load s name)"
proof -
  have reads: "(\<And>x. A x) \<Longrightarrow> post A (pml4_create m b)" for A m b by (simp add: post_def)
  have fields: "fds_ok e (set_files (s\<lparr>vmem := (vmem s)\<lparr>mem := m, pml4 := p, filesys_lock := l\<rparr>\<rparr>) fsys) = fds_ok e (set_files s fsys)"
    "fds_ok e (s\<lparr>vmem := (vmem s)\<lparr>mem := m, pml4 := p\<rparr>\<rparr>) = fds_ok e s" for e m p l fsys by (rule fds_ok_cong; simp)+
  have null: "post (\<lambda>(_, s'). fd_inv s' \<and> \<not> locked s' \<and> fd_table s' = fd_table s) (load_done s1 NULL r)"
    if "fd_inv s1" "\<not> locked s1" "fd_table s1 = fd_table s" for s1 and r :: "(nat \<times> nat option) option"
    by (rule post_mono [OF load_done_inv]) (use that in auto)
  show ?thesis unfolding load_def Let_def using assms
    by (auto simp: fields simp del: post_if split: if_split intro!: reads inv_filesys_open load_file_inv null)
qed

end
