(* ===== verification/Vga.thy ===== *)
theory Vga
  imports Terminal
begin

text \<open>
  The text display: \<open>devices/vga.c\<close>.  The frame buffer is the list of its rows, a row the list of its cells, a cell a
  character with its attribute; a write outside the frame buffer is a failure.  The cursor registers are behind the
  ports of the devices, with interrupts off as in the serial driver.
\<close>

section \<open>State\<close>

definition COL_CNT :: nat where "COL_CNT = 80"
definition ROW_CNT :: nat where "ROW_CNT = 25"
definition GRAY_ON_BLACK :: byte where "GRAY_ON_BLACK = 0x07"

record vga =
  cx :: nat
  cy :: nat
  fb :: "(byte \<times> byte) list list"
  inited :: bool

definition set_cell :: "vga \<Rightarrow> nat \<Rightarrow> nat \<Rightarrow> byte \<Rightarrow> vga option" where
  "set_cell v y x c = do {
     ASSERT (y < ROW_CNT \<and> x < COL_CNT);
     Some (v\<lparr>fb := (fb v)[y := (fb v ! y)[x := (c, GRAY_ON_BLACK)]]\<rparr>) }"

section \<open>Clearing and scrolling\<close>

fun clear_cells :: "vga \<Rightarrow> nat \<Rightarrow> nat list \<Rightarrow> vga option" where
  "clear_cells v y [] = Some v"
| "clear_cells v y (x # xs) = do { v \<leftarrow> set_cell v y x 0x20; clear_cells v y xs }"

definition clear_row :: "vga \<Rightarrow> nat \<Rightarrow> vga option" where
  "clear_row v y = clear_cells v y [0..<COL_CNT]"

fun clear_rows :: "vga \<Rightarrow> nat list \<Rightarrow> vga option" where
  "clear_rows v [] = Some v"
| "clear_rows v (y # ys) = do { v \<leftarrow> clear_row v y; clear_rows v ys }"

text \<open>Scrolling moves the rows from 1 on up by one; the last row stays until it is cleared.\<close>

definition newline :: "vga \<Rightarrow> vga option" where
  "newline v =
     (let v = v\<lparr>cx := 0, cy := cy v + 1\<rparr> in
      if cy v \<ge> ROW_CNT
      then clear_row (v\<lparr>cy := ROW_CNT - 1, fb := take (ROW_CNT - 1) (tl (fb v)) @ drop (ROW_CNT - 1) (fb v)\<rparr>) (ROW_CNT - 1)
      else Some v)"

section \<open>The hardware cursor\<close>

text \<open>A 16-bit write goes to two ports in a row, low byte first.\<close>

definition outw :: "dev \<Rightarrow> nat \<Rightarrow> 16 word \<Rightarrow> dev" where
  "outw d p w = outb (outb d p (ucast w)) (p + 1) (ucast (drop_bit 8 w))"

definition move_cursor :: "vga \<Rightarrow> dev \<Rightarrow> dev" where
  "move_cursor v d =
     (let cp = of_nat (cx v + COL_CNT * cy v) :: 16 word
      in outw (outw d 0x3d4 (0x0e OR (cp AND 0xff00))) 0x3d4 (0x0f OR push_bit 8 cp))"

definition find_cursor :: "dev \<Rightarrow> (nat \<times> nat) \<times> dev" where
  "find_cursor d =
     (let d = outb d 0x3d4 0x0e;
          (hi, d) = inb d 0x3d5;
          d = outb d 0x3d4 0x0f;
          (lo, d) = inb d 0x3d5;
          cp = unat (push_bit 8 (ucast hi) OR ucast lo :: 16 word)
      in ((cp mod COL_CNT, cp div COL_CNT), d))"

definition vga_init :: "vga \<Rightarrow> dev \<Rightarrow> vga \<times> dev" where
  "vga_init v d =
     (if inited v then (v, d)
      else let ((x, y), d) = find_cursor d in (v\<lparr>cx := x, cy := y, inited := True\<rparr>, d))"

definition cls :: "vga \<Rightarrow> dev \<Rightarrow> (vga \<times> dev) option" where
  "cls v d = do {
     v \<leftarrow> clear_rows v [0..<ROW_CNT];
     let v = v\<lparr>cx := 0, cy := 0\<rparr>;
     Some (v, move_cursor v d) }"

section \<open>Writing a character\<close>

definition vga_char :: "vga \<Rightarrow> dev \<Rightarrow> byte \<Rightarrow> (vga \<times> dev) option" where
  "vga_char v d c =
     (if c = 10 then do { v \<leftarrow> newline v; Some (v, d) }
      else if c = 12 then cls v d
      else if c = 8 then Some (if cx v > 0 then v\<lparr>cx := cx v - 1\<rparr> else v, d)
      else if c = 13 then Some (v\<lparr>cx := 0\<rparr>, d)
      else if c = 9 then do {
        let v = v\<lparr>cx := (cx v + 1 + 7) div 8 * 8\<rparr>;
        v \<leftarrow> (if cx v \<ge> COL_CNT then newline v else Some v);
        Some (v, d) }
      else do {
        v \<leftarrow> set_cell v (cy v) (cx v) c;
        let v = v\<lparr>cx := cx v + 1\<rparr>;
        v \<leftarrow> (if cx v \<ge> COL_CNT then newline v else Some v);
        Some (v, d) })"

definition vga_putc :: "vga \<Rightarrow> dev \<Rightarrow> byte \<Rightarrow> (vga \<times> dev) option" where
  "vga_putc v d c = do {
     let (old_level, k) = intr_disable (kern d);
     let (v, d) = vga_init v (d\<lparr>kern := k\<rparr>);
     (v, d) \<leftarrow> vga_char v d c;
     let d = move_cursor v d;
     k \<leftarrow> intr_set_level (kern d) (running (kern d)) old_level;
     Some (v, d\<lparr>kern := k\<rparr>) }"

end
