(* ===== verification/Vga_Correct.thy ===== *)
theory Vga_Correct
  imports Vga Terminal_Correct
begin

text \<open>
  The display shows text: a specification of the screen as the last lines of the text written to it, and the proof
  that \<open>vga_putc\<close> implements it.  Backspace and carriage return are not part of that specification; for them, as for every
  character, the cursor stays on the screen and every write to the frame buffer lies inside it.
\<close>

section \<open>Rows\<close>

definition blank :: "byte \<times> byte" where
  "blank = (0x20, GRAY_ON_BLACK)"

lemma clear_cells_upd:
  "y < length (fb v) \<Longrightarrow> y < ROW_CNT \<Longrightarrow> set xs \<subseteq> {..<COL_CNT} \<Longrightarrow>
   clear_cells v y xs = Some (v\<lparr>fb := (fb v)[y := fold (\<lambda>x r. r[x := blank]) xs (fb v ! y)]\<rparr>)"
  by (induction xs arbitrary: v) (simp_all add: set_cell_def blank_def)

lemma fold_upd: "n \<le> length r \<Longrightarrow> fold (\<lambda>x r. r[x := b]) [0..<n] r = replicate n b @ drop n r"
proof (induction n)
  case (Suc n)
  then have "(replicate n b @ drop n r)[n := b] = replicate n b @ b # drop (Suc n) r"
    by (simp add: list_update_append Cons_nth_drop_Suc [symmetric])
  then show ?case using Suc by (simp add: replicate_append_same)
qed simp

lemma clear_row_upd:
  assumes "y < length (fb v)" "y < ROW_CNT" "length (fb v ! y) = COL_CNT"
  shows "clear_row v y = Some (v\<lparr>fb := (fb v)[y := replicate COL_CNT blank]\<rparr>)"
  unfolding clear_row_def using clear_cells_upd [OF assms(1,2), of "[0..<COL_CNT]"] fold_upd [of COL_CNT "fb v ! y" blank] assms(3) by (simp add: lessThan_atLeast0)

lemma clear_rows_upd:
  "length (fb v) = ROW_CNT \<Longrightarrow> (\<And>r. r \<in> set (fb v) \<Longrightarrow> length r = COL_CNT) \<Longrightarrow> set ys \<subseteq> {..<ROW_CNT} \<Longrightarrow>
   clear_rows v ys = Some (v\<lparr>fb := fold (\<lambda>y r. r[y := replicate COL_CNT blank]) ys (fb v)\<rparr>)"
proof (induction ys arbitrary: v)
  case (Cons y ys)
  let ?v = "v\<lparr>fb := (fb v)[y := replicate COL_CNT blank]\<rparr>"
  have "clear_row v y = Some ?v" using Cons.prems by (intro clear_row_upd) auto
  moreover have "\<And>r. r \<in> set (fb ?v) \<Longrightarrow> length r = COL_CNT" using Cons.prems(2) by (auto dest!: set_update_subset_insert [THEN subsetD])
  ultimately show ?case using Cons.IH [of ?v] Cons.prems(1,3) by simp
qed simp

section \<open>Text on the screen\<close>

text \<open>The finished lines of a text and the line that is being written.\<close>

definition text_step :: "byte list list \<times> byte list \<Rightarrow> byte \<Rightarrow> byte list list \<times> byte list" where
  "text_step = (\<lambda>(ls, l) c.
     if c = 10 then (ls @ [l], [])
     else if c = 12 then ([], [])
     else let l = (if c = 9 then l @ replicate ((8 + length l) div 8 * 8 - length l) 0x20 else l @ [c])
          in if length l \<ge> COL_CNT then (ls @ [l], []) else (ls, l))"

definition row :: "byte list \<Rightarrow> (byte \<times> byte) list" where
  "row l = map (\<lambda>c. (c, GRAY_ON_BLACK)) l @ replicate (COL_CNT - length l) blank"

text \<open>The screen: the last finished lines, the current one and empty rows.\<close>

definition screen_rows :: "byte list list \<Rightarrow> byte list \<Rightarrow> (byte \<times> byte) list list" where
  "screen_rows ls l = map row (drop (length ls - (ROW_CNT - 1)) ls) @ row l # replicate (ROW_CNT - 1 - length ls) (row [])"

definition shows_text :: "vga \<Rightarrow> byte list list \<times> byte list \<Rightarrow> bool" where
  "shows_text v = (\<lambda>(ls, l). inited v \<and> fb v = screen_rows ls l \<and> cx v = length l \<and> cy v = min (ROW_CNT - 1) (length ls) \<and>
     length l < COL_CNT \<and> (\<forall>x \<in> set ls. length x \<le> COL_CNT))"

lemma row_length: "length l \<le> COL_CNT \<Longrightarrow> length (row l) = COL_CNT"
  by (simp add: row_def)

lemma row_blank: "row [] = replicate COL_CNT blank"
  by (simp add: row_def)

lemma screen_length: "length (screen_rows ls l) = ROW_CNT"
  by (simp add: screen_rows_def ROW_CNT_def)

lemma screen_row_length: "r \<in> set (screen_rows ls l) \<Longrightarrow> length l \<le> COL_CNT \<Longrightarrow> \<forall>x \<in> set ls. length x \<le> COL_CNT \<Longrightarrow> length r = COL_CNT"
  by (auto simp: screen_rows_def row_length dest!: in_set_dropD)

lemma screen_before: "length (map row (drop (length ls - (ROW_CNT - 1)) ls)) = min (ROW_CNT - 1) (length ls)"
  by simp

lemma screen_nth: "screen_rows ls l ! min (ROW_CNT - 1) (length ls) = row l"
  unfolding screen_rows_def screen_before [symmetric] by (rule nth_append_length)

lemma screen_upd: "(screen_rows ls l)[min (ROW_CNT - 1) (length ls) := row l'] = screen_rows ls l'"
  unfolding screen_rows_def screen_before [symmetric] by (rule list_update_length)

lemma screen_scroll_less: "length ls < ROW_CNT - 1 \<Longrightarrow> screen_rows (ls @ [l]) [] = screen_rows ls l"
proof -
  assume "length ls < ROW_CNT - 1"
  then have "replicate (ROW_CNT - 1 - length ls) (row []) = row [] # replicate (ROW_CNT - 1 - Suc (length ls)) (row [])"
    by (metis Suc_diff_Suc replicate_Suc)
  then show ?thesis using \<open>length ls < ROW_CNT - 1\<close> by (simp add: screen_rows_def)
qed

lemma replace_last: "length xs = n \<Longrightarrow> (take n xs @ [y])[n := z] = xs @ [z]"
  by (metis list_update_length take_all order_refl)

lemma screen_scroll:
  assumes "ROW_CNT - 1 \<le> length ls"
  shows "(take (ROW_CNT - 1) (tl (screen_rows ls l)) @ drop (ROW_CNT - 1) (screen_rows ls l))[ROW_CNT - 1 := row []] = screen_rows (ls @ [l]) []"
proof -
  let ?n = "length ls - (ROW_CNT - 1)"
  have p: "screen_rows ls l = map row (drop ?n (ls @ [l]))" using assms by (simp add: screen_rows_def)
  have "tl (screen_rows ls l) = map row (drop (Suc ?n) (ls @ [l]))" unfolding p map_tl [symmetric] tl_drop drop_Suc ..
  moreover have "screen_rows (ls @ [l]) [] = map row (drop (Suc ?n) (ls @ [l])) @ [row []]" using assms by (simp add: screen_rows_def Suc_diff_le)
  moreover have n: "length (map row (drop (Suc ?n) (ls @ [l]))) = ROW_CNT - 1" using assms by simp
  moreover obtain y where "drop (ROW_CNT - 1) (screen_rows ls l) = [y]"
  proof -
    have "length (drop (ROW_CNT - 1) (screen_rows ls l)) = 1" by (simp add: screen_length) (simp add: ROW_CNT_def)
    then show ?thesis using that unfolding One_nat_def length_Suc_conv by auto
  qed
  ultimately show ?thesis using replace_last [OF n] by (simp only:)
qed

lemma newline_page:
  assumes "fb v = screen_rows ls l" "cy v = min (ROW_CNT - 1) (length ls)" "length l \<le> COL_CNT" "\<forall>x \<in> set ls. length x \<le> COL_CNT"
  shows "newline v = Some (v\<lparr>cx := 0, cy := min (ROW_CNT - 1) (Suc (length ls)), fb := screen_rows (ls @ [l]) []\<rparr>)"
proof (cases "length ls < ROW_CNT - 1")
  case True
  then have "cy v + 1 < ROW_CNT" "min (ROW_CNT - 1) (Suc (length ls)) = cy v + 1" using assms(2) by simp_all
  then show ?thesis using screen_scroll_less [OF True, of l] assms(1) by (simp add: newline_def)
next
  case False
  let ?f = "take (ROW_CNT - 1) (tl (screen_rows ls l)) @ drop (ROW_CNT - 1) (screen_rows ls l)"
  let ?v = "v\<lparr>cx := 0, cy := ROW_CNT - 1, fb := ?f\<rparr>"
  have f: "ROW_CNT - 1 < length ?f" by (simp add: screen_length) (simp add: ROW_CNT_def)
  have "?f ! (ROW_CNT - 1) \<in> set (screen_rows ls l)" 
    using nth_mem [OF f] by (cases "screen_rows ls l") (auto simp del: nth_append dest: in_set_takeD in_set_dropD)
  then have "clear_row ?v (ROW_CNT - 1) = Some (?v\<lparr>fb := ?f[ROW_CNT - 1 := row []]\<rparr>)"
    using clear_row_upd [of "ROW_CNT - 1" ?v] f screen_row_length [OF _ assms(3,4)] by (simp add: row_blank) (simp add: ROW_CNT_def)
  then show ?thesis using screen_scroll [of ls l] False assms(1,2) by (simp add: newline_def Let_def)
qed

section \<open>One character\<close>

definition control :: "byte \<Rightarrow> bool" where
  "control c \<longleftrightarrow> c = 8 \<or> c = 13"

lemma row_snoc: "length l < COL_CNT \<Longrightarrow> (row l)[length l := (c, GRAY_ON_BLACK)] = row (l @ [c])"
proof -
  assume "length l < COL_CNT"
  then have "replicate (COL_CNT - length l) blank = blank # replicate (COL_CNT - Suc (length l)) blank" by (metis Suc_diff_Suc replicate_Suc)
  then show ?thesis by (simp add: row_def list_update_append)
qed

lemma row_spaces: "length l + n \<le> COL_CNT \<Longrightarrow> row (l @ replicate n 0x20) = row l"
proof -
  assume "length l + n \<le> COL_CNT"
  then have "replicate (COL_CNT - length l) blank = replicate n blank @ replicate (COL_CNT - (length l + n)) blank"
    by (simp add: replicate_add [symmetric])
  then show ?thesis by (simp add: row_def blank_def)
qed

text \<open>The end of the current line, which a full line goes past.\<close>

lemma wrap_line:
  assumes "inited v" "fb v = screen_rows ls l" "cx v = length l" "cy v = min (ROW_CNT - 1) (length ls)" "length l \<le> COL_CNT" "\<forall>x \<in> set ls. length x \<le> COL_CNT"
  shows "\<exists>v'. (if cx v \<ge> COL_CNT then newline v else Some v) = Some v' \<and> shows_text v' (if length l \<ge> COL_CNT then (ls @ [l], []) else (ls, l))"
  using newline_page [OF assms(2,4,5,6)] assms by (auto simp: shows_text_def COL_CNT_def)

lemma cls_shows:
  assumes "shows_text v t"
  shows "\<exists>v'. cls v d = Some (v', move_cursor v' d) \<and> shows_text v' ([], [])"
proof -
  obtain ls l where t: "t = (ls, l)" by fastforce
  have f: "fb v = screen_rows ls l" "length l \<le> COL_CNT" "\<forall>x \<in> set ls. length x \<le> COL_CNT" using assms t by (auto simp: shows_text_def)
  have "clear_rows v [0..<ROW_CNT] = Some (v\<lparr>fb := replicate ROW_CNT (row [])\<rparr>)"
    using clear_rows_upd [of v "[0..<ROW_CNT]"] fold_upd [of ROW_CNT "fb v"] screen_length screen_row_length [OF _ f(2,3)] f(1) by (simp add: row_blank lessThan_atLeast0)
  moreover have "replicate ROW_CNT (row []) = screen_rows [] []" by (simp add: screen_rows_def ROW_CNT_def replicate_Suc [symmetric] del: replicate_Suc)
  ultimately show ?thesis using assms t by (auto simp: cls_def shows_text_def COL_CNT_def Let_def)
qed

lemma vga_char_shows:
  assumes "shows_text v t" "\<not> control c"
  shows "\<exists>v' d'. vga_char v d c = Some (v', d') \<and> shows_text v' (text_step t c) \<and> kern d' = kern d"
proof -
  obtain ls l where t: "t = (ls, l)" by fastforce
  have v: "inited v" "fb v = screen_rows ls l" "cx v = length l" "cy v = min (ROW_CNT - 1) (length ls)" "length l < COL_CNT" "\<forall>x \<in> set ls. length x \<le> COL_CNT"
    using assms(1) t by (auto simp: shows_text_def)
  have kern: "kern (move_cursor v' d) = kern d" for v' by (simp add: move_cursor_def outw_def outb_def Let_def)
  consider "c = 10" | "c = 12" | "c = 9" | "c \<noteq> 10" "c \<noteq> 12" "c \<noteq> 9" "c \<noteq> 8" "c \<noteq> 13" using assms(2) by (auto simp: control_def)
  then show ?thesis
  proof cases
    case 1
    then show ?thesis using newline_page [OF v(2,4) less_imp_le [OF v(5)] v(6)] v t by (auto simp: vga_char_def text_step_def shows_text_def COL_CNT_def)
  next
    case 2
    then show ?thesis using cls_shows [OF assms(1), of d] t by (auto simp: vga_char_def text_step_def kern)
  next
    case 3
    let ?n = "(8 + length l) div 8 * 8" and ?l = "l @ replicate ((8 + length l) div 8 * 8 - length l) 0x20"
    have n: "length l \<le> ?n" "?n \<le> COL_CNT" using v(5) unfolding COL_CNT_def by presburger+
    have "\<exists>v'. (if cx (v\<lparr>cx := ?n\<rparr>) \<ge> COL_CNT then newline (v\<lparr>cx := ?n\<rparr>) else Some (v\<lparr>cx := ?n\<rparr>)) = Some v' \<and>
        shows_text v' (if length ?l \<ge> COL_CNT then (ls @ [?l], []) else (ls, ?l))"
      by (rule wrap_line) (use v n row_spaces [of l "?n - length l"] in \<open>auto simp: screen_rows_def\<close>)
    then show ?thesis using 3 t v(3) by (auto simp: vga_char_def text_step_def Let_def split: if_splits)
  next
    case 4
    let ?v = "v\<lparr>fb := screen_rows ls (l @ [c]), cx := length l + 1\<rparr>" and ?l = "l @ [c]"
    have "fb v ! cy v = row l" "(fb v)[cy v := row ?l] = screen_rows ls ?l" "cy v < ROW_CNT" using screen_nth screen_upd v(2,4) by (auto simp: ROW_CNT_def)
    then have "set_cell v (cy v) (cx v) c = Some (v\<lparr>fb := screen_rows ls ?l\<rparr>)" using v(3,5) by (simp add: set_cell_def row_snoc)
    moreover have "\<exists>v'. (if cx ?v \<ge> COL_CNT then newline ?v else Some ?v) = Some v' \<and> shows_text v' (if length ?l \<ge> COL_CNT then (ls @ [?l], []) else (ls, ?l))"
      by (rule wrap_line) (use v in auto)
    ultimately show ?thesis using 4 t v by (auto simp: vga_char_def text_step_def Let_def split: if_splits)
  qed
qed

section \<open>The display\<close>

fun vga_puts :: "vga \<Rightarrow> dev \<Rightarrow> byte list \<Rightarrow> (vga \<times> dev) option" where
  "vga_puts v d [] = Some (v, d)"
| "vga_puts v d (c # cs) = do { (v, d) \<leftarrow> vga_putc v d c; vga_puts v d cs }"

text \<open>The last writes to the cursor registers.\<close>

definition cursor_at :: "dev \<Rightarrow> nat \<Rightarrow> bool" where
  "cursor_at d n \<longleftrightarrow> (\<exists>ps hi lo. port_out d = ps @ [(0x3d4, 0x0e), (0x3d5, hi), (0x3d4, 0x0f), (0x3d5, lo)] \<and> 256 * unat hi + unat lo = n)"

lemma cursor_bytes:
  fixes cp :: "16 word"
  shows "(ucast (0x0e OR (cp AND 0xff00)) :: byte) = 0x0e" "(ucast (0x0f OR push_bit 8 cp) :: byte) = 0x0f"
    "256 * unat (ucast (drop_bit 8 (0x0e OR (cp AND 0xff00))) :: byte) + unat (ucast (drop_bit 8 (0x0f OR push_bit 8 cp)) :: byte) = unat cp"
proof -
  have m: "(0xff00 :: 16 word) = push_bit 8 (mask 8)" by (simp add: mask_eq_exp_minus_1 push_bit_eq_mult)
  have low: "\<not> bit (0x0e :: 16 word) n" "\<not> bit (0x0f :: 16 word) n" if "8 \<le> n" for n
  proof -
    have "(0x0e :: 16 word) = take_bit 8 0x0e" "(0x0f :: 16 word) = take_bit 8 0x0f" by simp_all
    then show "\<not> bit (0x0e :: 16 word) n" "\<not> bit (0x0f :: 16 word) n" using that by (metis bit_take_bit_iff not_less)+
  qed
  show "(ucast (0x0e OR (cp AND 0xff00)) :: byte) = 0x0e" unfolding m by (rule bit_word_eqI) (auto simp: bit_simps)
  show "(ucast (0x0f OR push_bit 8 cp) :: byte) = 0x0f" by (rule bit_word_eqI) (auto simp: bit_simps)
  have "(ucast (drop_bit 8 (0x0e OR (cp AND 0xff00))) :: byte) = ucast (drop_bit 8 cp)" unfolding m by (rule bit_word_eqI) (auto simp: bit_simps low)
  moreover have "(ucast (drop_bit 8 (0x0f OR push_bit 8 cp)) :: byte) = ucast cp" by (rule bit_word_eqI) (auto simp: bit_simps low)
  moreover have "unat (ucast (drop_bit 8 cp) :: byte) = unat cp div 256" "unat (ucast cp :: byte) = unat cp mod 256"
    using unsigned_less [of cp, where 'a = nat] by (simp_all add: unsigned_ucast_eq take_bit_eq_mod drop_bit_eq_div unat_div less_mult_imp_div_less)
  ultimately show "256 * unat (ucast (drop_bit 8 (0x0e OR (cp AND 0xff00))) :: byte) + unat (ucast (drop_bit 8 (0x0f OR push_bit 8 cp)) :: byte) = unat cp"
    by simp
qed

lemma move_cursor_at: "cx v + COL_CNT * cy v < 2 ^ 16 \<Longrightarrow> cursor_at (move_cursor v d) (cx v + COL_CNT * cy v)"
proof -
  let ?n = "cx v + COL_CNT * cy v"
  assume "?n < 2 ^ 16"
  then have "unat (of_nat ?n :: 16 word) = ?n" by (simp add: unsigned_of_nat take_bit_nat_eq_self_iff del: of_nat_add of_nat_mult)
  then show ?thesis using cursor_bytes [of "of_nat ?n"] unfolding cursor_at_def move_cursor_def outw_def outb_def Let_def
    by (simp del: of_nat_add of_nat_mult)
qed

lemma vga_putc_shows:
  assumes "shows_text v t" "\<not> control c" "intr_on (kern d) \<longrightarrow> \<not> in_external_intr (kern d)"
  shows "\<exists>v' d'. vga_putc v d c = Some (v', d') \<and> shows_text v' (text_step t c) \<and> kern d' = kern d \<and> cursor_at d' (cx v' + COL_CNT * cy v')"
proof -
  let ?d = "d\<lparr>kern := (kern d)\<lparr>intr_on := False\<rparr>\<rparr>"
  obtain v' d' where v': "vga_char v ?d c = Some (v', d')" "shows_text v' (text_step t c)" "kern d' = kern ?d" using vga_char_shows [OF assms(1,2)] by blast
  have "cx v' < COL_CNT" "cy v' < ROW_CNT" using v'(2) by (auto simp: shows_text_def ROW_CNT_def)
  then have "cx v' + COL_CNT * cy v' < 2 ^ 16" by (simp add: COL_CNT_def ROW_CNT_def)
  note cur = move_cursor_at [OF this, of d']
  have "vga_init v ?d = (v, ?d)" using assms(1) by (auto simp: vga_init_def shows_text_def)
  moreover have "kern (move_cursor v' d') = (kern d)\<lparr>intr_on := False\<rparr>" using v'(3) by (simp add: move_cursor_def outw_def outb_def Let_def)
  ultimately have "vga_putc v d c = Some (v', (move_cursor v' d')\<lparr>kern := kern d\<rparr>)"
    using v'(1) assms(3) by (simp add: vga_putc_def intr_disable_def intr_set_level_def)
  then show ?thesis using v'(2) cur by (auto simp: cursor_at_def)
qed

text \<open>C25: Whatever text of printable characters, tabs, new lines and form feeds is written, the display shows its last lines, wrapped at
  80 columns: the rows hold the last finished lines and the line being written, and the rows below are empty.  Every call returns
  with the interrupt level restored, and the hardware cursor stands where the next character goes.\<close>

theorem vga_shows_text:
  assumes "shows_text v t" "\<forall>c \<in> set cs. \<not> control c" "intr_on (kern d) \<longrightarrow> \<not> in_external_intr (kern d)"
  shows "\<exists>v' d'. vga_puts v d cs = Some (v', d') \<and> shows_text v' (fold (\<lambda>c t. text_step t c) cs t) \<and> kern d' = kern d \<and>
    (cs = [] \<or> cursor_at d' (cx v' + COL_CNT * cy v'))"
  using assms
proof (induction cs arbitrary: v t d)
  case (Cons c cs)
  obtain v1 d1 where 1: "vga_putc v d c = Some (v1, d1)" "shows_text v1 (text_step t c)" "kern d1 = kern d" "cursor_at d1 (cx v1 + COL_CNT * cy v1)"
    using vga_putc_shows [of v t c d] Cons.prems by auto
  show ?case using Cons.IH [OF 1(2), of d1] Cons.prems 1 by (cases cs) auto
qed simp

section \<open>Every character\<close>

text \<open>The cursor is on the screen, also after a carriage return or a backspace; so no write leaves the frame buffer.\<close>

definition vga_ok :: "vga \<Rightarrow> bool" where
  "vga_ok v \<longleftrightarrow> inited v \<and> length (fb v) = ROW_CNT \<and> (\<forall>r \<in> set (fb v). length r = COL_CNT) \<and> cx v < COL_CNT \<and> cy v < ROW_CNT"

lemma vga_ok_upd: "vga_ok v \<Longrightarrow> length r = COL_CNT \<Longrightarrow> vga_ok (v\<lparr>fb := (fb v)[y := r]\<rparr>)"
  by (auto simp: vga_ok_def dest!: set_update_subset_insert [THEN subsetD])

lemma clear_row_ok: "vga_ok v \<Longrightarrow> y < ROW_CNT \<Longrightarrow> clear_row v y = Some (v\<lparr>fb := (fb v)[y := replicate COL_CNT blank]\<rparr>)"
  by (rule clear_row_upd) (auto simp: vga_ok_def)

lemma newline_ok:
  assumes "vga_ok (v\<lparr>cx := 0\<rparr>)"
  shows "\<exists>v'. newline v = Some v' \<and> vga_ok v'"
proof (cases "cy v + 1 \<ge> ROW_CNT")
  case True
  let ?f = "take (ROW_CNT - 1) (tl (fb v)) @ drop (ROW_CNT - 1) (fb v)"
  let ?v = "v\<lparr>cx := 0, cy := ROW_CNT - 1, fb := ?f\<rparr>"
  have "set ?f \<subseteq> set (fb v)" by (cases "fb v") (auto dest: in_set_takeD in_set_dropD)
  then have ok: "vga_ok ?v" using assms by (auto simp: vga_ok_def ROW_CNT_def)
  then have "clear_row ?v (ROW_CNT - 1) = Some (?v\<lparr>fb := (fb ?v)[ROW_CNT - 1 := replicate COL_CNT blank]\<rparr>)"
    by (rule clear_row_ok) (simp add: ROW_CNT_def)
  then show ?thesis using True vga_ok_upd [OF ok, of "replicate COL_CNT blank" "ROW_CNT - 1"] by (simp add: newline_def Let_def)
qed (use assms in \<open>simp add: newline_def vga_ok_def\<close>)

lemma end_of_line_ok: "vga_ok (v\<lparr>cx := 0\<rparr>) \<Longrightarrow> \<exists>v'. (if cx v \<ge> COL_CNT then newline v else Some v) = Some v' \<and> vga_ok v'"
  using newline_ok [of v] by (auto simp: vga_ok_def)

lemma cls_ok:
  assumes "vga_ok v"
  shows "\<exists>v'. cls v d = Some (v', move_cursor v' d) \<and> vga_ok v'"
proof -
  have "clear_rows v [0..<ROW_CNT] = Some (v\<lparr>fb := replicate ROW_CNT (replicate COL_CNT blank)\<rparr>)"
    using clear_rows_upd [of v "[0..<ROW_CNT]"] fold_upd [of ROW_CNT "fb v"] assms by (simp add: vga_ok_def lessThan_atLeast0)
  then show ?thesis using assms by (auto simp: cls_def vga_ok_def Let_def COL_CNT_def ROW_CNT_def)
qed

lemma vga_char_ok:
  assumes "vga_ok v"
  shows "\<exists>v' d'. vga_char v d c = Some (v', d') \<and> vga_ok v' \<and> kern d' = kern d"
proof -
  have kern: "kern (move_cursor v' d) = kern d" for v' by (simp add: move_cursor_def outw_def outb_def Let_def)
  have v0: "vga_ok (v\<lparr>cx := 0\<rparr>)" using assms by (simp add: vga_ok_def)
  let ?n = "v\<lparr>cx := (8 + cx v) div 8 * 8\<rparr>" and ?f = "(fb v)[cy v := (fb v ! cy v)[cx v := (c, GRAY_ON_BLACK)]]"
  have row: "length (fb v ! cy v) = COL_CNT" using assms by (auto simp: vga_ok_def)
  then have "vga_ok ((v\<lparr>fb := ?f, cx := cx v + 1\<rparr>)\<lparr>cx := 0\<rparr>)" using vga_ok_upd [OF v0, of "(fb v ! cy v)[cx v := (c, GRAY_ON_BLACK)]" "cy v"] by (simp add: vga_ok_def)
  note put = end_of_line_ok [OF this] and tab = end_of_line_ok [of ?n]
  have "set_cell v (cy v) (cx v) c = Some (v\<lparr>fb := ?f\<rparr>)" using assms by (simp add: set_cell_def vga_ok_def)
  note cell = this
  have n: "vga_ok (?n\<lparr>cx := 0\<rparr>)" using v0 by simp
  consider "c = 10" | "c = 12" | "c = 8" | "c = 13" | "c = 9" | "c \<noteq> 10" "c \<noteq> 12" "c \<noteq> 9" "c \<noteq> 8" "c \<noteq> 13" by blast
  then show ?thesis
  proof cases
    case 1
    then show ?thesis using newline_ok [OF v0] by (auto simp: vga_char_def)
  next
    case 2
    then show ?thesis using cls_ok [OF assms, of d] by (auto simp: vga_char_def kern)
  next
    case 3
    then show ?thesis using assms by (auto simp: vga_char_def vga_ok_def)
  next
    case 4
    then show ?thesis using v0 by (simp add: vga_char_def)
  next
    case 5
    then show ?thesis using tab [OF n] by (auto simp: vga_char_def Let_def split: if_splits)
  next
    case 6
    then show ?thesis using put cell by (auto simp: vga_char_def Let_def split: if_splits)
  qed
qed

section \<open>A witness\<close>

theorem vga_shows_text_witness:
  "\<exists>v' d'. vga_puts \<lparr>cx = 0, cy = 0, fb = screen_rows [] [], inited = True\<rparr> demo_dev [72, 105, 10, 33] = Some (v', d') \<and>
     shows_text v' ([[72, 105]], [33]) \<and> cursor_at d' (cx v' + COL_CNT * cy v')"
proof -
  have "shows_text \<lparr>cx = 0, cy = 0, fb = screen_rows [] [], inited = True\<rparr> ([], [])" by (simp add: shows_text_def COL_CNT_def)
  moreover have "\<forall>c \<in> set [72, 105, 10, 33]. \<not> control c" by (simp add: control_def)
  moreover have "intr_on (kern demo_dev) \<longrightarrow> \<not> in_external_intr (kern demo_dev)" by (simp add: demo_dev_def)
  moreover have "fold (\<lambda>c t. text_step t c) [72, 105, 10, 33] ([], []) = ([[72, 105]], [33])" by (simp add: text_step_def COL_CNT_def)
  ultimately show ?thesis using vga_shows_text [of "\<lparr>cx = 0, cy = 0, fb = screen_rows [] [], inited = True\<rparr>" "([], [])" "[72, 105, 10, 33]" demo_dev] by auto
qed

end
