(* ===== verification/Spec2Isabelle.thy ===== *)
theory Spec2Isabelle
  imports Properties_List Bitmap_Correct Hash_Correct Sched_Properties Mlfqs Argument_Correct Stdlib_Correct
    Arithmetic Random_Bytes Interrupts_Correct Address_Space Filesys_Properties Malloc_Properties Fork_Correct User_Lib Loader_Correct Vga_Correct
begin

text \<open>
  Verification of the teaching kernel Pintos-KAIST (sources under \<open>src/pintos-kaist\<close>).

  \<^bold>\<open>The program.\<close>  A small x86-64 kernel: threads with priorities, donation and an optional multi-level
  feedback queue; semaphores, locks and condition variables; interrupts and the timer, keyboard, serial and display
  drivers; page allocation, a heap, page tables and virtual memory with swapping and mapped files; a file system;
  user processes, their arguments, descriptors and system calls; the library of the kernel (lists, bitmaps, hash
  tables, strings, sorting, 64-bit division, random numbers, formatted output) and that of user programs.  The
  scheduler keeps its queues in kernel lists; the page pools, the swap table and the free map are bitmaps; the
  supplemental page table is a hash table; drivers and scheduler meet in the interrupt queues; a system call takes
  the lock of the file system and may take page faults, which read files in turn.

  \<^bold>\<open>How code is modelled.\<close>  One definition per C function, named as in the source.  A function returns an
  \<open>option\<close>: \<open>None\<close> is a failed \<open>ASSERT\<close>, a \<open>PANIC\<close>, an access through a bad pointer, or a loop that does not end.
  State is passed explicitly.  A loop is a recursive function beside its function; a loop whose end depends
  on the data is a \<open>partial_function\<close>, and the theorems about it prove that it returns.  No fuel is used.
  Numbers are words where they wrap, and naturals or integers with the wrap-around written out, or shown not to
  happen, elsewhere.  What is outside the sources is an argument or a field of the state: what a device port returns,
  the addresses of the assembly stubs.  A component that only needs the outcome of an allocation takes it from a list
  of blocks still to be handed out; \<open>Malloc\<close> has the allocator itself.

  \<^bold>\<open>The theories.\<close>
  \<^item> \<open>Prelude\<close>: the panic monad, \<open>post\<close> for partial correctness and the collection \<open>wp\<close>, ranges of indices.
    \<open>C_Integers\<close>: 32- and 64-bit signed arithmetic.  \<open>Memory\<close>: byte-addressed memory, blocks and strings.
  \<^item> \<open>Kernel_List\<close> (\<open>lib/kernel/list.c\<close>) over a heap of links; \<open>Kernel_List_Links\<close>, \<open>Kernel_List_Ops\<close>,
    \<open>Natural_Merge\<close>, \<open>Kernel_List_Sort\<close> show that each function does on the pointers what the operation on
    sequences does and touches nothing else; \<open>Kernel_Queue\<close> states the contract of an ordered queue as a locale
    and interprets it on the lists; \<open>Properties_List\<close> has the properties.  The theories above the lists use the
    sequences.
  \<^item> \<open>Bitmap\<close> (\<open>lib/kernel/bitmap.c\<close>) and \<open>Bitmap_Correct\<close>: bits in 64-bit elements, search, allocation as the
    locale \<open>slot_alloc\<close>, storage in a file.
  \<^item> \<open>Hash\<close> (\<open>lib/kernel/hash.c\<close>) and \<open>Hash_Correct\<close>: buckets, rehashing, iteration; the locale \<open>keyed_table\<close>.
  \<^item> \<open>String_Lib\<close>, \<open>String_Correct\<close> (\<open>lib/string.c\<close>); \<open>Stdlib\<close>, \<open>Stdlib_Correct\<close> (\<open>lib/stdlib.c\<close>): heapsort and
    binary search over bytes, \<open>atoi\<close>; \<open>Arithmetic\<close> (\<open>lib/arithmetic.c\<close>); \<open>Random_Bytes\<close> (\<open>lib/random.c\<close>).
    \<open>Stdio\<close>, \<open>Stdio_Correct\<close> (\<open>lib/stdio.c\<close>): the formatting of all conversions over an output function, its
    buffers, and the way back through \<open>atoi\<close>.
  \<^item> \<open>Thread\<close> (\<open>threads/thread.c\<close>), \<open>Synch\<close> (\<open>threads/synch.c\<close>), \<open>Timer\<close> (\<open>devices/timer.c\<close>): the state \<open>kernel\<close>
    and its operations.  A function that can lose the processor is cut into the steps between which other
    threads run.  \<open>Sched_Inv\<close> has the scheduler invariant, \<open>Sched_Ops\<close> that every operation keeps it,
    \<open>Sched_Properties\<close> the properties.  \<open>Kernel_Machine\<close> runs the steps of all threads under preemption as an
    inductive relation; \<open>Lock_Safety\<close> and \<open>Mutual_Exclusion\<close> prove mutual exclusion on it by rule induction.
    \<open>Fixed_Point\<close> (\<open>threads/fixed-point.c\<close>) and \<open>Mlfqs\<close>: the feedback-queue arithmetic and its bounds.
  \<^item> \<open>Interrupt_Queue\<close> (\<open>devices/intq.c\<close>): the circular buffer refines a bounded queue (locale \<open>bounded_fifo\<close>).
    \<open>Terminal\<close>, \<open>Terminal_Correct\<close> (\<open>devices/serial.c\<close>, \<open>kbd.c\<close>, \<open>input.c\<close>): the drivers over ports whose reads
    are given and whose writes are recorded.  \<open>Vga\<close>, \<open>Vga_Correct\<close> (\<open>devices/vga.c\<close>): the frame buffer and the cursor;
    the display refines the text written to it.  \<open>Interrupts\<close>, \<open>Interrupts_Correct\<close> (\<open>threads/interrupt.c\<close>, the
    registrations of \<open>userprog/exception.c\<close>, the timer and the drivers): gates, tables, dispatch, boot.
  \<^item> \<open>Page_Alloc\<close> (\<open>threads/palloc.c\<close>): two pools over \<open>slot_alloc\<close>.  \<open>Malloc\<close>, \<open>Malloc_Correct\<close>, \<open>Malloc_Properties\<close>
    (\<open>threads/malloc.c\<close>): arenas and blocks on these pages.  \<open>Page_Table\<close>, \<open>Page_Table_Correct\<close>
    (\<open>threads/mmu.c\<close>): the four-level tables refine a finite map.
  \<^item> \<open>Virtual_Memory\<close> (\<open>vm/vm.c\<close>, \<open>anon.c\<close>, \<open>file.c\<close>, \<open>uninit.c\<close> and the loading of segments in
    \<open>userprog/process.c\<close>): pages, frames, swap slots and the supplemental page table, over file operations that are an
    argument.  \<open>Swap_Correct\<close>: what is swapped out comes back.  \<open>Address_Space\<close>: the supplemental page table refines a
    map, and segments are entered and faulted in.  \<open>Vm_Frame\<close>: a locale for what page faults leave alone.
  \<^item> \<open>Inode\<close>, \<open>Inode_Correct\<close> (\<open>filesys/inode.c\<close>, \<open>file.c\<close>, \<open>free-map.c\<close>) over a disk of sectors; \<open>Directory\<close>,
    \<open>Directory_Correct\<close> (\<open>filesys/directory.c\<close>, \<open>filesys.c\<close>); \<open>Filesys_Correct\<close>, \<open>Filesys_Mount\<close>,
    \<open>Filesys_Properties\<close>: the file system refines a map from names to contents, across reboots.  \<open>File_Frame\<close>: a locale
    for what operations on the file system leave of the open files.
  \<^item> \<open>Syscall\<close> (\<open>userprog/syscall.c\<close>, the descriptors in \<open>userprog/process.c\<close>, \<open>page_fault\<close>): the dispatcher and its calls over
    virtual memory on the file system.  \<open>Syscall_Correct\<close>, \<open>Syscall_Properties\<close>: the invariant of the descriptor table
    over all runs of a process.  \<open>Fork_Correct\<close>: the descriptors of a child.  \<open>Argument_Passing\<close>, \<open>Argument_Correct\<close>:
    splitting a command line and building the stack of a new process, on top of \<open>String_Lib\<close>.  \<open>Loader\<close>,
    \<open>Loader_Correct\<close>: \<open>load\<close> with its ELF headers and segments.  \<open>User_Lib\<close> (\<open>lib/user/syscall.c\<close>, \<open>console.c\<close>): the
    stubs in user programs, and buffered output.
  \<^item> \<open>Demo_System\<close>: a small running system on which theorems about the kernel are instantiated.

  \<^bold>\<open>What is shown.\<close>  The data structures do what their abstract counterparts do, with every loop ending and no
  address outside touched.  The scheduler invariant (who is on which queue, with which status) is kept by
  every operation, and the processor goes to the first thread in stable priority order.  Locks exclude each
  other under every interleaving.  Interrupts are set up without a failed assertion, external ones run with
  interrupts off, the drivers lose no byte, the display shows the text.  Page tables and the supplemental page table
  behave as maps; the allocators hand out free memory only and get all of it back; swapped pages keep their contents.
  The file system behaves as a map from names to contents, survives a reboot, and fails only where it may.  Descriptors
  are counted right over every run of a process; buffers that pass the check lie in user space; accepted segments do too.
  Formatted output stays in its buffers.  Where the code does something else than it means to, a theorem says what it does.

  \<^bold>\<open>Bounds.\<close>  The interrupt queues hold 63 bytes; a command line is shorter than \<open>MAX_BUF\<close>, which the code does not
  check; pools end below \<open>2 ^ 64\<close>; a hash table has fewer than \<open>2 ^ 64\<close> elements.  The priority bounds of the
  feedback queue hold for every value of \<open>recent_cpu\<close> and \<open>nice\<close>; those of the load average assume the ready threads
  of a system that fits in memory.  Segments are below 4 GiB, above which the loader cuts their sizes off.

  \<^bold>\<open>Not modelled.\<close>  The disk driver, which is a protocol with the controller (the disk is a map of sectors); the
  console of the kernel, which puts a lock around formatted output; the segment and task-state tables; the reading of
  the command line and of the firmware memory map at boot; timer calibration, which measures real time; the assembly
  of context switch and interrupt entry beyond its effect; \<open>fork\<close>, \<open>exec\<close> and \<open>wait\<close> beyond the descriptors, since
  they hand over between two processes; the utilities behind the command line of the kernel; the FAT and the page
  cache, whose bodies are empty in these sources.
\<close>

end
